(* ===== verification/Forge_Prelude.thy ===== *)
theory Forge_Prelude
  imports Main "HOL-Library.Sublist" "HOL-Library.Multiset"
begin

text \<open>
  Shared vocabulary of the development.

  The theory names the types every component uses (addresses, possibly null pointers,
  \<open>size_t\<close> values), collects the generic facts on lists and options the component
  proofs rely on, and models what the sources have in several places: intrusive linked
  lists, whose links are fields of the nodes.  \<open>chain nx p xs e\<close> says that following the
  next links \<open>nx\<close> from pointer \<open>p\<close> passes exactly the nodes \<open>xs\<close> and arrives at
  \<open>e\<close>; \<open>rchain pv q xs\<close> says that the previous links of \<open>xs\<close> are right.  The
  locales \<open>fifo_queue\<close> and \<open>removable_queue\<close> are the contracts the clients of such a
  queue rely on; the components interpret them on their own pointer code.
\<close>

section \<open>Types\<close>

type_synonym addr = nat
type_synonym ptr = "addr option"

text \<open>\<open>std::size_t\<close> is 64 bits wide on the supported platforms.\<close>

definition size_max :: nat where
  "size_max = 2 ^ 64 - 1"

named_theorems chain_simps \<open>rewriting of linked segments\<close>

section \<open>Lists and options\<close>

definition first_ptr :: "'p list \<Rightarrow> 'p option \<Rightarrow> 'p option" where
  "first_ptr xs e = (case xs of [] \<Rightarrow> e | x # _ \<Rightarrow> Some x)"

definition last_ptr :: "'p option \<Rightarrow> 'p list \<Rightarrow> 'p option" where
  "last_ptr q xs = (if xs = [] then q else Some (last xs))"

lemma first_ptr_simps [simp]:
  "first_ptr [] e = e" "first_ptr (x # xs) e = Some x"
  by (simp_all add: first_ptr_def)

lemma last_ptr_simps [simp]:
  "last_ptr q [] = q" "last_ptr q (x # xs) = last_ptr (Some x) xs"
  by (simp_all add: last_ptr_def)

lemma first_ptr_append: "first_ptr (xs @ ys) e = first_ptr xs (first_ptr ys e)"
  by (cases xs) simp_all

lemma last_ptr_append [simp]: "last_ptr q (xs @ ys) = last_ptr (last_ptr q xs) ys"
  by (induction xs arbitrary: q) simp_all

lemma last_ptr_nonempty: "xs \<noteq> [] \<Longrightarrow> last_ptr (Some y) xs = last_ptr None xs"
  by (simp add: last_ptr_def)

lemma last_ptr_None_iff: "last_ptr None xs = None \<longleftrightarrow> xs = []"
  by (simp add: last_ptr_def)

lemma last_ptr_in_set: "last_ptr None xs = Some x \<Longrightarrow> x \<in> set xs"
  by (auto simp: last_ptr_def split: if_splits)

lemma first_ptr_in_set: "first_ptr xs None = Some x \<Longrightarrow> x \<in> set xs"
  by (cases xs) auto

lemma subseq_snoc [intro]:
  "subseq xs ys \<Longrightarrow> subseq (xs @ [z]) (ys @ [z])"
  "subseq (xs @ xs') ys \<Longrightarrow> subseq (xs @ xs' @ [z]) (ys @ [z])"
  "subseq (xs @ xs' @ xs'') ys \<Longrightarrow> subseq (xs @ xs' @ xs'' @ [z]) (ys @ [z])"
  by (simp_all flip: append_assoc)

lemma subseq_grow [intro]: "subseq xs ys \<Longrightarrow> subseq xs (ys @ [z])"
  by (metis append_Nil2 list_emb_Nil list_emb_append_mono)

lemma subseq_drop_middle: "subseq (xs @ y # zs) ws \<Longrightarrow> subseq (xs @ zs) ws"
proof -
  assume h: "subseq (xs @ y # zs) ws"
  have "subseq (xs @ zs) (xs @ y # zs)" by (rule list_emb_append_mono) auto
  then show ?thesis using h by (rule subseq_order.order_trans)
qed

lemma remove1_split: "x \<in> set xs \<Longrightarrow> \<exists>as bs. xs = as @ x # bs \<and> x \<notin> set as \<and> remove1 x xs = as @ bs"
  by (metis remove1_append remove1.simps(2) split_list_first)

section \<open>Linked segments\<close>

fun chain :: "('p \<Rightarrow> 'p option) \<Rightarrow> 'p option \<Rightarrow> 'p list \<Rightarrow> 'p option \<Rightarrow> bool" where
  "chain nx p [] e \<longleftrightarrow> p = e"
| "chain nx p (x # xs) e \<longleftrightarrow> p = Some x \<and> chain nx (nx x) xs e"

fun rchain :: "('p \<Rightarrow> 'p option) \<Rightarrow> 'p option \<Rightarrow> 'p list \<Rightarrow> bool" where
  "rchain pv q [] \<longleftrightarrow> True"
| "rchain pv q (x # xs) \<longleftrightarrow> pv x = q \<and> rchain pv (Some x) xs"

lemma chain_append [chain_simps]:
  "chain nx p (xs @ ys) e \<longleftrightarrow> (\<exists>m. chain nx p xs m \<and> chain nx m ys e)"
  by (induction xs arbitrary: p) auto

lemma chain_snoc:
  "chain nx p (xs @ [x]) e \<longleftrightarrow> chain nx p xs (Some x) \<and> nx x = e"
  by (auto simp: chain_append)

lemma chain_upd [simp]: "x \<notin> set xs \<Longrightarrow> chain (nx(x := v)) p xs e \<longleftrightarrow> chain nx p xs e"
  by (induction xs arbitrary: p) auto

lemma chain_cong: "(\<And>x. x \<in> set xs \<Longrightarrow> nx x = nx' x) \<Longrightarrow> chain nx p xs e \<longleftrightarrow> chain nx' p xs e"
  by (induction xs arbitrary: p) auto

lemma chain_first: "chain nx p xs e \<Longrightarrow> p = first_ptr xs e"
  by (cases xs) simp_all

lemma chain_unique: "chain nx p xs None \<Longrightarrow> chain nx p ys None \<Longrightarrow> xs = ys"
proof (induction xs arbitrary: p ys)
  case Nil
  then show ?case by (cases ys) auto
next
  case (Cons x xs)
  then show ?case by (cases ys) auto
qed

lemma chain_suffix_unique:
  assumes "chain nx p xs None" "xs = as @ x # bs" "xs = cs @ x # ds"
  shows "bs = ds"
proof -
  have "chain nx (nx x) bs None" using assms(1) unfolding assms(2) by (auto simp: chain_append)
  moreover have "chain nx (nx x) ds None" using assms(1) unfolding assms(3) by (auto simp: chain_append)
  ultimately show ?thesis by (rule chain_unique)
qed

lemma chain_distinct: "chain nx p xs None \<Longrightarrow> distinct xs"
proof (induction xs arbitrary: p)
  case Nil
  then show ?case by simp
next
  case (Cons x xs)
  have "x \<notin> set xs"
  proof
    assume "x \<in> set xs"
    then obtain as bs where xs: "xs = as @ x # bs" by (meson split_list)
    have "x # xs = [] @ x # xs" "x # xs = (x # as) @ x # bs" using xs by simp_all
    from chain_suffix_unique [OF Cons.prems this] xs have "as @ x # bs = bs" by simp
    then show False using arg_cong [of _ _ length] by fastforce
  qed
  with Cons show ?case by auto
qed

text \<open>Dropping a node: its predecessor (or the head) takes over its next link.\<close>

lemma chain_unlink:
  assumes "chain nx p (as @ x # bs) None"
  shows "chain (case last_ptr None as of None \<Rightarrow> nx | Some a \<Rightarrow> nx(a := nx x))
           (if as = [] then nx x else p) (as @ bs) None"
proof (cases as rule: rev_cases)
  case Nil
  with assms show ?thesis by simp
next
  case (snoc cs a)
  have "distinct (cs @ a # x # bs)" using chain_distinct [OF assms] snoc by simp
  with assms snoc show ?thesis by (auto simp: chain_append)
qed

lemma rchain_append [chain_simps]:
  "rchain pv q (xs @ ys) \<longleftrightarrow> rchain pv q xs \<and> rchain pv (last_ptr q xs) ys"
  by (induction xs arbitrary: q) auto

lemma rchain_upd [simp]: "x \<notin> set xs \<Longrightarrow> rchain (pv(x := v)) q xs \<longleftrightarrow> rchain pv q xs"
  by (induction xs arbitrary: q) auto

lemma rchain_cong: "(\<And>x. x \<in> set xs \<Longrightarrow> pv x = pv' x) \<Longrightarrow> rchain pv q xs \<longleftrightarrow> rchain pv' q xs"
  by (induction xs arbitrary: q) auto

text \<open>Dropping a node of a doubly linked list: its successor takes over its previous link.\<close>

lemma rchain_unlink:
  assumes "rchain pv q (as @ x # bs)" "distinct (as @ x # bs)"
  shows "rchain (case first_ptr bs None of None \<Rightarrow> pv | Some b \<Rightarrow> pv(b := pv x)) q (as @ bs)"
  using assms by (cases bs) (auto simp: rchain_append)

text \<open>Walking a chain and clearing each link on the way, as the loops that drain a list do.\<close>

partial_function (option) drain_chain :: "('p \<Rightarrow> 'p option) \<Rightarrow> 'p option \<Rightarrow> 'p list option" where
  "drain_chain nx p =
     (case p of None \<Rightarrow> Some []
      | Some x \<Rightarrow> Option.bind (drain_chain (nx(x := None)) (nx x)) (\<lambda>xs. Some (x # xs)))"

lemma drain_chain_correct:
  "chain nx p xs None \<Longrightarrow> distinct xs \<Longrightarrow> drain_chain nx p = Some xs"
  by (induction xs arbitrary: nx p) (auto simp: drain_chain.simps)

section \<open>Queue contracts\<close>

text \<open>
  What the clients of an intrusive queue rely on: \<open>rep q xs\<close> relates the pointer
  representation to the list of queued nodes.
\<close>

locale fifo_queue =
  fixes rep :: "'q \<Rightarrow> 'p list \<Rightarrow> bool"
    and emp :: 'q
    and push :: "'q \<Rightarrow> 'p \<Rightarrow> 'q"
    and pop :: "'q \<Rightarrow> 'p option \<times> 'q"
  assumes rep_emp: "rep emp []"
    and rep_unique: "rep q xs \<Longrightarrow> rep q ys \<Longrightarrow> xs = ys"
    and rep_push: "rep q xs \<Longrightarrow> x \<notin> set xs \<Longrightarrow> rep (push q x) (xs @ [x])"
    and rep_pop_Nil: "rep q [] \<Longrightarrow> fst (pop q) = None \<and> rep (snd (pop q)) []"
    and rep_pop_Cons: "rep q (x # xs) \<Longrightarrow> fst (pop q) = Some x \<and> rep (snd (pop q)) xs"
begin

fun push_all :: "'q \<Rightarrow> 'p list \<Rightarrow> 'q" where
  "push_all q [] = q"
| "push_all q (x # xs) = push_all (push q x) xs"

fun pop_n :: "nat \<Rightarrow> 'q \<Rightarrow> 'p option list" where
  "pop_n 0 q = []"
| "pop_n (Suc n) q = fst (pop q) # pop_n n (snd (pop q))"

lemma rep_push_all:
  "rep q xs \<Longrightarrow> distinct (xs @ ys) \<Longrightarrow> rep (push_all q ys) (xs @ ys)"
proof (induction ys arbitrary: q xs)
  case Nil
  then show ?case by simp
next
  case (Cons y ys)
  then have "rep (push q y) (xs @ [y])" by (auto intro: rep_push)
  from Cons.IH [OF this] Cons.prems show ?case by simp
qed

lemma pop_n_rep: "rep q xs \<Longrightarrow> pop_n (length xs) q = map Some xs"
  by (induction xs arbitrary: q) (auto dest: rep_pop_Cons)

text \<open>
  The queued nodes as a function of the representation, for the proofs: \<open>ok q\<close> says that
  \<open>q\<close> represents some list, \<open>items q\<close> is that list.
\<close>

definition ok :: "'q \<Rightarrow> bool" where
  "ok q \<longleftrightarrow> (\<exists>xs. rep q xs)"

definition items :: "'q \<Rightarrow> 'p list" where
  "items q = (THE xs. rep q xs)"

lemma items_eq: "rep q xs \<Longrightarrow> items q = xs"
  unfolding items_def by (rule the_equality) (auto dest: rep_unique)

lemma rep_items: "ok q \<Longrightarrow> rep q (items q)"
  by (auto simp: ok_def items_eq)

lemma ok_emp [simp]: "ok emp" "items emp = []"
  using rep_emp by (auto simp: ok_def items_eq)

lemma ok_push: "ok q \<Longrightarrow> x \<notin> set (items q) \<Longrightarrow> ok (push q x) \<and> items (push q x) = items q @ [x]"
  using rep_push [OF rep_items] by (auto simp: ok_def items_eq)

lemma ok_pop:
  assumes "ok q" "items q = x # xs"
  shows "fst (pop q) = Some x" "ok (snd (pop q))" "items (snd (pop q)) = xs"
  using rep_pop_Cons [of q x xs] rep_items [OF assms(1)] assms(2) by (auto simp: ok_def items_eq)

text \<open>First in, first out, for any number of distinct nodes.\<close>

lemma fifo_order: "distinct xs \<Longrightarrow> pop_n (length xs) (push_all emp xs) = map Some xs"
  using pop_n_rep [OF rep_push_all [OF rep_emp, of xs]] by simp

end

text \<open>Queues that also support removing one node and taking the whole chain.\<close>

locale removable_queue = fifo_queue rep emp push pop
  for rep :: "'q \<Rightarrow> 'p list \<Rightarrow> bool" and emp push pop +
  fixes remove :: "'q \<Rightarrow> 'p \<Rightarrow> ('p option \<times> 'q) option"
    and drain :: "'q \<Rightarrow> ('p list \<times> 'q) option"
  assumes remove_in: "rep q xs \<Longrightarrow> x \<in> set xs \<Longrightarrow>
        \<exists>q'. remove q x = Some (Some x, q') \<and> rep q' (remove1 x xs)"
    and remove_out: "rep q xs \<Longrightarrow> x \<notin> set xs \<Longrightarrow>
        \<exists>q'. remove q x = Some (None, q') \<and> rep q' xs"
    and drain_all: "rep q xs \<Longrightarrow> \<exists>q'. drain q = Some (xs, q') \<and> rep q' []"
begin

lemma push_remove:
  assumes "rep q xs" "x \<notin> set xs"
  shows "\<exists>q'. remove (push q x) x = Some (Some x, q') \<and> rep q' xs"
  using remove_in [OF rep_push [OF assms], of x] assms(2) by (simp add: remove1_append)

lemma ok_remove:
  assumes "ok q"
  shows "\<exists>q'. remove q x = Some (if x \<in> set (items q) then Some x else None, q')
           \<and> ok q' \<and> items q' = remove1 x (items q)"
proof (cases "x \<in> set (items q)")
  case True
  with remove_in [OF rep_items [OF assms], of x] show ?thesis by (auto simp: ok_def items_eq)
next
  case False
  with remove_out [OF rep_items [OF assms], of x] show ?thesis
    by (auto simp: ok_def items_eq remove1_idem)
qed

lemma ok_drain:
  assumes "ok q"
  shows "\<exists>q'. drain q = Some (items q, q') \<and> ok q' \<and> items q' = []"
  using drain_all [OF rep_items [OF assms]] by (auto simp: ok_def items_eq)

end

end
