(* ===== verification/Record_Queue.thy ===== *)
theory Record_Queue
  imports Forge_Prelude
begin

text \<open>
  The intrusive queue of pending operation records of \<open>forge::bounded_channel\<close>
  (\<open>__record_queue\<close> in \<open>include/forge/channel.hpp\<close>).

  A record is an address; its \<open>next\<close> field is an entry of the link map \<open>qnext\<close>.  Every
  operation is translated pointer by pointer, and the interpretation \<open>rq\<close> of
  \<open>removable_queue\<close> shows that together they implement a first-in first-out list from
  which one record can be taken out, whatever its position.
\<close>

section \<open>The pointer representation\<close>

record rqueue =
  qhead :: ptr
  qtail :: ptr
  qnext :: "addr \<Rightarrow> ptr"

definition rq_new :: rqueue where
  "rq_new = \<lparr>qhead = None, qtail = None, qnext = (\<lambda>_. None)\<rparr>"

definition rq_empty :: "rqueue \<Rightarrow> bool" where
  "rq_empty q \<longleftrightarrow> qhead q = None"

definition rq_push_back :: "rqueue \<Rightarrow> addr \<Rightarrow> rqueue" where
  "rq_push_back q r =
     (let nx = (qnext q)(r := None) in
      case qtail q of
        Some t \<Rightarrow> q\<lparr>qnext := nx(t := Some r), qtail := Some r\<rparr>
      | None \<Rightarrow> q\<lparr>qnext := nx, qhead := Some r, qtail := Some r\<rparr>)"

definition rq_pop_front :: "rqueue \<Rightarrow> ptr \<times> rqueue" where
  "rq_pop_front q =
     (case qhead q of
        None \<Rightarrow> (None, q)
      | Some r \<Rightarrow>
          let h = qnext q r;
              q1 = q\<lparr>qhead := h, qnext := (qnext q)(r := None)\<rparr>
          in (Some r, if h = None then q1\<lparr>qtail := None\<rparr> else q1))"

text \<open>The walk of \<open>remove\<close>: the record before the link, and what the link points to.\<close>

partial_function (option) rq_find :: "(addr \<Rightarrow> ptr) \<Rightarrow> addr \<Rightarrow> ptr \<Rightarrow> ptr \<Rightarrow> (ptr \<times> ptr) option" where
  "rq_find nx r previous link =
     (if link = None \<or> link = Some r then Some (previous, link)
      else rq_find nx r link (nx (the link)))"

definition rq_remove :: "rqueue \<Rightarrow> addr \<Rightarrow> (ptr \<times> rqueue) option" where
  "rq_remove q r =
     (case rq_find (qnext q) r None (qhead q) of
        None \<Rightarrow> None
      | Some (previous, None) \<Rightarrow> Some (None, q)
      | Some (previous, Some x) \<Rightarrow>
          let after = qnext q x;
              nx = (qnext q)(x := None);
              q1 = (case previous of
                      None \<Rightarrow> q\<lparr>qhead := after, qnext := nx\<rparr>
                    | Some p \<Rightarrow> q\<lparr>qnext := nx(p := after)\<rparr>)
          in Some (Some x, if after = None then q1\<lparr>qtail := previous\<rparr> else q1))"

definition rq_take_all :: "rqueue \<Rightarrow> ptr \<times> rqueue" where
  "rq_take_all q = (qhead q, q\<lparr>qhead := None, qtail := None\<rparr>)"

text \<open>
  \<open>take_all\<close> followed by the loop of its callers, which moves each \<open>next\<close> link out before
  it completes the record.
\<close>

definition rq_drain :: "rqueue \<Rightarrow> (addr list \<times> rqueue) option" where
  "rq_drain q =
     (let (h, q1) = rq_take_all q in
      map_option (\<lambda>xs. (xs, q1\<lparr>qnext := (\<lambda>p. if p \<in> set xs then None else qnext q1 p)\<rparr>))
        (drain_chain (qnext q1) h))"

definition rq_rep :: "rqueue \<Rightarrow> addr list \<Rightarrow> bool" where
  "rq_rep q xs \<longleftrightarrow> chain (qnext q) (qhead q) xs None \<and> qtail q = last_ptr None xs"

lemmas rq_defs = rq_new_def rq_empty_def rq_push_back_def rq_pop_front_def rq_take_all_def

section \<open>Correctness of the pointer code\<close>

lemma rq_rep_distinct: "rq_rep q xs \<Longrightarrow> distinct xs"
  by (auto simp: rq_rep_def intro: chain_distinct)

lemma rq_rep_unique: "rq_rep q xs \<Longrightarrow> rq_rep q ys \<Longrightarrow> xs = ys"
  by (auto simp: rq_rep_def intro: chain_unique)

lemma rq_rep_empty: "rq_rep q xs \<Longrightarrow> rq_empty q \<longleftrightarrow> xs = []"
  by (cases xs) (auto simp: rq_rep_def rq_empty_def)

lemma rq_rep_push:
  assumes "rq_rep q xs" "x \<notin> set xs"
  shows "rq_rep (rq_push_back q x) (xs @ [x])"
proof (cases xs rule: rev_cases)
  case Nil
  with assms show ?thesis by (auto simp: rq_rep_def rq_push_back_def)
next
  case (snoc ys t)
  have "distinct (ys @ [t])" using rq_rep_distinct [OF assms(1)] snoc by simp
  with assms snoc show ?thesis
    by (auto simp: rq_rep_def rq_push_back_def chain_append Let_def)
qed

lemma rq_rep_pop_Nil: "rq_rep q [] \<Longrightarrow> fst (rq_pop_front q) = None \<and> rq_rep (snd (rq_pop_front q)) []"
  by (auto simp: rq_rep_def rq_pop_front_def)

lemma rq_rep_pop_Cons:
  assumes "rq_rep q (x # xs)"
  shows "fst (rq_pop_front q) = Some x \<and> rq_rep (snd (rq_pop_front q)) xs"
proof -
  have "x \<notin> set xs" using rq_rep_distinct [OF assms] by simp
  with assms show ?thesis
    by (cases xs) (auto simp: rq_rep_def rq_pop_front_def Let_def)
qed

lemma rq_find_step:
  "rq_find nx r p None = Some (p, None)"
  "rq_find nx r p (Some x) = (if x = r then Some (p, Some x) else rq_find nx r (Some x) (nx x))"
  by (simp_all add: rq_find.simps)

lemma rq_find_in:
  "chain nx l (as @ r # bs) None \<Longrightarrow> r \<notin> set as \<Longrightarrow>
   rq_find nx r p l = Some (last_ptr p as, Some r)"
  by (induction as arbitrary: l p) (auto simp: rq_find_step)

lemma rq_find_out:
  "chain nx l xs None \<Longrightarrow> r \<notin> set xs \<Longrightarrow> rq_find nx r p l = Some (last_ptr p xs, None)"
  by (induction xs arbitrary: l p) (auto simp: rq_find_step)

lemma rq_remove_in:
  assumes rep: "rq_rep q xs" and mem: "x \<in> set xs"
  shows "\<exists>q'. rq_remove q x = Some (Some x, q') \<and> rq_rep q' (remove1 x xs)"
proof -
  from mem obtain as bs where xs: "xs = as @ x # bs" "x \<notin> set as" "remove1 x xs = as @ bs"
    using remove1_split by meson
  have c: "chain (qnext q) (qhead q) (as @ x # bs) None" and t: "qtail q = last_ptr None (as @ x # bs)"
    using rep xs by (simp_all add: rq_rep_def)
  have f: "rq_find (qnext q) x None (qhead q) = Some (last_ptr None as, Some x)"
    using c xs(2) by (rule rq_find_in)
  have d: "distinct (as @ x # bs)" using c by (rule chain_distinct)
  have after: "chain (qnext q) (qnext q x) bs None" using c by (auto simp: chain_append)
  have u: "chain (case last_ptr None as of None \<Rightarrow> qnext q | Some a \<Rightarrow> (qnext q)(a := qnext q x))
             (if as = [] then qnext q x else qhead q) (as @ bs) None"
    using c by (rule chain_unlink)
  have tl: "qnext q x = None \<longleftrightarrow> bs = []" using after by (cases bs) auto
  show ?thesis
  proof (cases as rule: rev_cases)
    case Nil
    with f u d t tl xs(3) show ?thesis
      by (auto simp: rq_remove_def rq_rep_def Let_def last_ptr_nonempty)
  next
    case (snoc cs a)
    with d have ne: "x \<noteq> a" "x \<notin> set (as @ bs)" by auto
    with snoc f u d t tl xs(3) show ?thesis
      by (auto simp: rq_remove_def rq_rep_def Let_def fun_upd_twist [of x a] last_ptr_nonempty)
  qed
qed

lemma rq_remove_out:
  assumes "rq_rep q xs" "x \<notin> set xs"
  shows "rq_remove q x = Some (None, q)"
  using assms rq_find_out [of "qnext q" "qhead q" xs x None] by (simp add: rq_rep_def rq_remove_def)

lemma rq_drain_all:
  assumes "rq_rep q xs"
  shows "\<exists>q'. rq_drain q = Some (xs, q') \<and> rq_rep q' []"
  using assms drain_chain_correct [of "qnext q" "qhead q" xs] chain_distinct [of "qnext q" "qhead q" xs]
  by (auto simp: rq_drain_def rq_take_all_def rq_rep_def)

interpretation rq: removable_queue rq_rep rq_new rq_push_back rq_pop_front rq_remove rq_drain
proof unfold_locales
  show "rq_rep rq_new []" by (simp add: rq_rep_def rq_new_def)
next
  fix q xs x assume "rq_rep q xs" "x \<notin> set xs"
  then show "\<exists>q'. rq_remove q x = Some (None, q') \<and> rq_rep q' xs" by (simp add: rq_remove_out)
qed (fact rq_rep_unique rq_rep_push rq_rep_pop_Nil rq_rep_pop_Cons rq_remove_in rq_drain_all)+

end
