(* ===== verification/Channel.thy ===== *)
theory Channel
  imports Record_Queue
begin

text \<open>
  \<open>forge::bounded_channel\<close> (\<open>include/forge/channel.hpp\<close>).

  The record \<open>channel\<close> is \<open>__channel_detail::__state\<close> together with the operation
  records it points to; each critical section of the source is one function, and what the
  source does after releasing the mutex (completing receivers) is returned as a list of
  completions.  The step relation \<open>chan_step\<close> interleaves the critical sections, the
  completions and the stop callbacks of any number of threads; the invariants proved over
  its reachable states are the channel's guarantees: first-in first-out delivery, the bound
  on the buffer, exactly one completion per started operation, no operation left parked
  after its stop callback ran.
\<close>

section \<open>State\<close>

text \<open>
  A send record keeps its value until it is completed; \<open>sr_stop\<close> is
  \<open>stop_requested_flag\<close>, \<open>sr_done\<close> the exactly-once flag \<open>done\<close>.
\<close>

record 'v send_record =
  sr_value :: "'v option"
  sr_stop :: bool
  sr_done :: bool

record 'v recv_record =
  rr_value :: "'v option"
  rr_stop :: bool
  rr_done :: bool

record 'v channel =
  ch_capacity :: nat
  ch_closed :: bool
  ch_stopped :: bool
  ch_buffer :: "'v list"
  pending_sends :: rqueue
  pending_recvs :: rqueue
  sends :: "addr \<Rightarrow> 'v send_record"
  recvs :: "addr \<Rightarrow> 'v recv_record"

definition channel_new :: "nat \<Rightarrow> 'v channel" where
  "channel_new cap =
     \<lparr>ch_capacity = cap, ch_closed = False, ch_stopped = False, ch_buffer = [],
      pending_sends = rq_new, pending_recvs = rq_new,
      sends = (\<lambda>_. \<lparr>sr_value = None, sr_stop = False, sr_done = False\<rparr>),
      recvs = (\<lambda>_. \<lparr>rr_value = None, rr_stop = False, rr_done = False\<rparr>)\<rparr>"

text \<open>\<open>__actions\<close>: the records to complete once the mutex is released.\<close>

record actions =
  a_send_value :: ptr
  a_send_error :: ptr
  a_send_stopped :: ptr
  a_recv_value :: ptr
  a_recv_stopped :: ptr

definition no_actions :: actions where
  "no_actions = \<lparr>a_send_value = None, a_send_error = None, a_send_stopped = None,
     a_recv_value = None, a_recv_stopped = None\<rparr>"

datatype completion =
    CSendValue addr
  | CSendError addr
  | CSendStopped addr
  | CRecvValue addr
  | CRecvStopped addr

definition act :: "(addr \<Rightarrow> completion) \<Rightarrow> ptr \<Rightarrow> completion list" where
  "act k p = (case p of None \<Rightarrow> [] | Some r \<Rightarrow> [k r])"

definition actions_run :: "actions \<Rightarrow> completion list" where
  "actions_run a =
     act CRecvValue (a_recv_value a) @ act CSendValue (a_send_value a) @
     act CSendError (a_send_error a) @ act CRecvStopped (a_recv_stopped a) @
     act CSendStopped (a_send_stopped a)"

section \<open>Operation records\<close>

definition take_value :: "'v channel \<Rightarrow> addr \<Rightarrow> 'v" where
  "take_value c s = the (sr_value (sends c s))"

definition prepare_value :: "addr \<Rightarrow> 'v \<Rightarrow> 'v channel \<Rightarrow> 'v channel" where
  "prepare_value r v c = c\<lparr>recvs := (recvs c)(r := (recvs c r)\<lparr>rr_value := Some v\<rparr>)\<rparr>"

definition send_request_stop :: "addr \<Rightarrow> 'v channel \<Rightarrow> 'v channel" where
  "send_request_stop s c = c\<lparr>sends := (sends c)(s := (sends c s)\<lparr>sr_stop := True\<rparr>)\<rparr>"

definition recv_request_stop :: "addr \<Rightarrow> 'v channel \<Rightarrow> 'v channel" where
  "recv_request_stop r c = c\<lparr>recvs := (recvs c)(r := (recvs c r)\<lparr>rr_stop := True\<rparr>)\<rparr>"

text \<open>The signals receivers get.\<close>

datatype 'v signal =
    SendSetValue addr
  | SendSetError addr
  | SendSetStopped addr
  | RecvSetValue addr 'v
  | RecvSetStopped addr

definition send_finish :: "addr \<Rightarrow> 'v signal \<Rightarrow> 'v channel \<Rightarrow> 'v channel \<times> 'v signal list" where
  "send_finish s g c =
     (if sr_done (sends c s) then (c, [])
      else (c\<lparr>sends := (sends c)(s := (sends c s)\<lparr>sr_done := True, sr_value := None\<rparr>)\<rparr>, [g]))"

definition recv_finish :: "addr \<Rightarrow> 'v signal \<Rightarrow> 'v channel \<Rightarrow> 'v channel \<times> 'v signal list" where
  "recv_finish r g c =
     (if rr_done (recvs c r) then (c, [])
      else (c\<lparr>recvs := (recvs c)(r := (recvs c r)\<lparr>rr_done := True\<rparr>)\<rparr>, [g]))"

fun chan_complete :: "completion \<Rightarrow> 'v channel \<Rightarrow> 'v channel \<times> 'v signal list" where
  "chan_complete (CSendValue s) c = send_finish s (SendSetValue s) c"
| "chan_complete (CSendError s) c = send_finish s (SendSetError s) c"
| "chan_complete (CSendStopped s) c = send_finish s (SendSetStopped s) c"
| "chan_complete (CRecvValue r) c = recv_finish r (RecvSetValue r (the (rr_value (recvs c r)))) c"
| "chan_complete (CRecvStopped r) c = recv_finish r (RecvSetStopped r) c"

fun chan_complete_all :: "completion list \<Rightarrow> 'v channel \<Rightarrow> 'v channel \<times> 'v signal list" where
  "chan_complete_all [] c = (c, [])"
| "chan_complete_all (k # ks) c =
     (let (c1, g1) = chan_complete k c; (c2, g2) = chan_complete_all ks c1 in (c2, g1 @ g2))"

section \<open>Critical sections\<close>

text \<open>
  \<open>ok\<close> says whether \<open>buffer.push_back\<close> succeeds in allocating its node.  The flag
  \<open>stop_requested_flag\<close> is stored by the stop callback outside the mutex: \<open>late\<close> says
  that this store falls between the two loads of the section.  The result is \<open>None\<close> only
  if a walk over the queue does not end.
\<close>

definition promote_one_send_locked ::
  "'v channel \<Rightarrow> bool \<Rightarrow> actions \<Rightarrow> actions \<times> 'v channel" where
  "promote_one_send_locked c ok a =
     (if rq_empty (pending_sends c) then (a, c)
      else if length (ch_buffer c) < ch_capacity c then
        (let (s, q) = rq_pop_front (pending_sends c);
             c1 = c\<lparr>pending_sends := q\<rparr>
         in if ok then (a\<lparr>a_send_value := s\<rparr>,
                        c1\<lparr>ch_buffer := ch_buffer c1 @ [take_value c1 (the s)]\<rparr>)
            else (a\<lparr>a_send_error := s\<rparr>, c1))
      else (a, c))"

definition start_send ::
  "'v channel \<Rightarrow> addr \<Rightarrow> bool \<Rightarrow> bool \<Rightarrow> (bool \<times> actions \<times> 'v channel) option" where
  "start_send c s late ok =
     (if ch_stopped c \<or> ch_closed c then Some (False, no_actions\<lparr>a_send_stopped := Some s\<rparr>, c)
      else if sr_stop (sends c s) then Some (False, no_actions\<lparr>a_send_stopped := Some s\<rparr>, c)
      else if \<not> rq_empty (pending_recvs c) then
        (let (r, q) = rq_pop_front (pending_recvs c);
             c1 = c\<lparr>pending_recvs := q\<rparr>
         in Some (False, no_actions\<lparr>a_recv_value := r, a_send_value := Some s\<rparr>,
                  prepare_value (the r) (take_value c1 s) c1))
      else if rq_empty (pending_sends c) \<and> length (ch_buffer c) < ch_capacity c then
        (if ok then Some (False, no_actions\<lparr>a_send_value := Some s\<rparr>,
                          c\<lparr>ch_buffer := ch_buffer c @ [take_value c s]\<rparr>)
         else Some (False, no_actions\<lparr>a_send_error := Some s\<rparr>, c))
      else
        (let c1 = c\<lparr>pending_sends := rq_push_back (pending_sends c) s\<rparr>;
             c2 = (if late then send_request_stop s c1 else c1)
         in if \<not> sr_stop (sends c2 s) then Some (True, no_actions, c2)
            else case rq_remove (pending_sends c2) s of
                   None \<Rightarrow> None
                 | Some (p, q) \<Rightarrow>
                     Some (False, no_actions\<lparr>a_send_stopped := p\<rparr>, c2\<lparr>pending_sends := q\<rparr>)))"

definition start_recv ::
  "'v channel \<Rightarrow> addr \<Rightarrow> bool \<Rightarrow> bool \<Rightarrow> (bool \<times> actions \<times> 'v channel) option" where
  "start_recv c r late ok =
     (if ch_buffer c \<noteq> [] then
        (let c1 = prepare_value r (hd (ch_buffer c)) c;
             c2 = c1\<lparr>ch_buffer := tl (ch_buffer c1)\<rparr>;
             (a, c3) = promote_one_send_locked c2 ok (no_actions\<lparr>a_recv_value := Some r\<rparr>)
         in Some (False, a, c3))
      else if \<not> rq_empty (pending_sends c) then
        (let (s, q) = rq_pop_front (pending_sends c);
             c1 = c\<lparr>pending_sends := q\<rparr>
         in Some (False, no_actions\<lparr>a_recv_value := Some r, a_send_value := s\<rparr>,
                  prepare_value r (take_value c1 (the s)) c1))
      else if ch_stopped c \<or> ch_closed c then
        Some (False, no_actions\<lparr>a_recv_stopped := Some r\<rparr>, c)
      else if rr_stop (recvs c r) then
        Some (False, no_actions\<lparr>a_recv_stopped := Some r\<rparr>, c)
      else
        (let c1 = c\<lparr>pending_recvs := rq_push_back (pending_recvs c) r\<rparr>;
             c2 = (if late then recv_request_stop r c1 else c1)
         in if \<not> rr_stop (recvs c2 r) then Some (True, no_actions, c2)
            else case rq_remove (pending_recvs c2) r of
                   None \<Rightarrow> None
                 | Some (p, q) \<Rightarrow>
                     Some (False, no_actions\<lparr>a_recv_stopped := p\<rparr>, c2\<lparr>pending_recvs := q\<rparr>)))"

text \<open>
  \<open>try_send\<close> and \<open>try_recv\<close>.  The first component of \<open>try_send\<close> is \<open>None\<close> when the
  allocation exception leaves the function.
\<close>

definition try_send :: "'v channel \<Rightarrow> 'v \<Rightarrow> bool \<Rightarrow> bool option \<times> actions \<times> 'v channel" where
  "try_send c v ok =
     (if ch_stopped c \<or> ch_closed c then (Some False, no_actions, c)
      else if \<not> rq_empty (pending_recvs c) then
        (let (r, q) = rq_pop_front (pending_recvs c)
         in (Some True, no_actions\<lparr>a_recv_value := r\<rparr>,
             prepare_value (the r) v (c\<lparr>pending_recvs := q\<rparr>)))
      else if rq_empty (pending_sends c) \<and> length (ch_buffer c) < ch_capacity c then
        (if ok then (Some True, no_actions, c\<lparr>ch_buffer := ch_buffer c @ [v]\<rparr>)
         else (None, no_actions, c))
      else (Some False, no_actions, c))"

definition try_recv :: "'v channel \<Rightarrow> bool \<Rightarrow> 'v option \<times> actions \<times> 'v channel" where
  "try_recv c ok =
     (if ch_buffer c \<noteq> [] then
        (let (a, c1) = promote_one_send_locked (c\<lparr>ch_buffer := tl (ch_buffer c)\<rparr>) ok no_actions
         in (Some (hd (ch_buffer c)), a, c1))
      else if \<not> rq_empty (pending_sends c) then
        (let (s, q) = rq_pop_front (pending_sends c)
         in (Some (take_value c (the s)), no_actions\<lparr>a_send_value := s\<rparr>, c\<lparr>pending_sends := q\<rparr>))
      else (None, no_actions, c))"

definition chan_close :: "'v channel \<Rightarrow> (completion list \<times> 'v channel) option" where
  "chan_close c =
     (case (rq_drain (pending_sends c), rq_drain (pending_recvs c)) of
        (Some (ss, qs), Some (rs, qr)) \<Rightarrow>
          Some (map (\<lambda>r. if rr_value (recvs c r) \<noteq> None then CRecvValue r else CRecvStopped r) rs
                  @ map CSendStopped ss,
                c\<lparr>ch_closed := True, pending_sends := qs, pending_recvs := qr\<rparr>)
      | _ \<Rightarrow> None)"

definition chan_request_stop :: "'v channel \<Rightarrow> (completion list \<times> 'v channel) option" where
  "chan_request_stop c =
     (case (rq_drain (pending_sends c), rq_drain (pending_recvs c)) of
        (Some (ss, qs), Some (rs, qr)) \<Rightarrow>
          Some (map CRecvStopped rs @ map CSendStopped ss,
                c\<lparr>ch_stopped := True, pending_sends := qs, pending_recvs := qr, ch_buffer := []\<rparr>)
      | _ \<Rightarrow> None)"

definition chan_shutdown :: "'v channel \<Rightarrow> ('v signal list \<times> 'v channel) option" where
  "chan_shutdown c =
     (case chan_close c of
        None \<Rightarrow> None
      | Some (k1, c1) \<Rightarrow>
          (let (c2, g1) = chan_complete_all k1 c1 in
           case chan_request_stop c2 of
             None \<Rightarrow> None
           | Some (k2, c3) \<Rightarrow> (let (c4, g2) = chan_complete_all k2 c3 in Some (g1 @ g2, c4))))"

definition chan_is_closed :: "'v channel \<Rightarrow> bool" where
  "chan_is_closed c = ch_closed c"

definition cancel_send :: "'v channel \<Rightarrow> addr \<Rightarrow> (completion list \<times> 'v channel) option" where
  "cancel_send c s =
     (case rq_remove (pending_sends c) s of
        None \<Rightarrow> None
      | Some (p, q) \<Rightarrow> Some (act CSendStopped p, c\<lparr>pending_sends := q\<rparr>))"

definition cancel_recv :: "'v channel \<Rightarrow> addr \<Rightarrow> (completion list \<times> 'v channel) option" where
  "cancel_recv c r =
     (case rq_remove (pending_recvs c) r of
        None \<Rightarrow> None
      | Some (p, q) \<Rightarrow> Some (act CRecvStopped p, c\<lparr>pending_recvs := q\<rparr>))"

text \<open>
  \<open>__send_op\<close> and \<open>__recv_op\<close>: construction of the record, then the part of \<open>start\<close>
  before the critical section.  \<open>stop_now\<close> is the token's state when \<open>start\<close> runs,
  \<open>installed\<close> whether \<open>install_stop_callback\<close> succeeds.  The result lists the
  completions performed at once; with none, \<open>start_send\<close> or \<open>start_recv\<close> follows.
\<close>

definition send_record_new :: "addr \<Rightarrow> 'v \<Rightarrow> 'v channel \<Rightarrow> 'v channel" where
  "send_record_new s v c =
     c\<lparr>sends := (sends c)(s := \<lparr>sr_value = Some v, sr_stop = False, sr_done = False\<rparr>)\<rparr>"

definition recv_record_new :: "addr \<Rightarrow> 'v channel \<Rightarrow> 'v channel" where
  "recv_record_new r c =
     c\<lparr>recvs := (recvs c)(r := \<lparr>rr_value = None, rr_stop = False, rr_done = False\<rparr>)\<rparr>"

definition install_send_callback :: "'v channel \<Rightarrow> addr \<Rightarrow> bool \<Rightarrow> completion list \<times> bool" where
  "install_send_callback c s installed =
     (if sr_done (sends c s) then ([], False)
      else if installed then ([], True) else ([CSendStopped s], False))"

definition install_recv_callback :: "'v channel \<Rightarrow> addr \<Rightarrow> bool \<Rightarrow> completion list \<times> bool" where
  "install_recv_callback c r installed =
     (if rr_done (recvs c r) then ([], False)
      else if installed then ([], True) else ([CRecvStopped r], False))"

definition send_op_start :: "'v channel \<Rightarrow> addr \<Rightarrow> bool \<Rightarrow> bool \<Rightarrow> completion list \<times> bool" where
  "send_op_start c s stop_now installed =
     (if stop_now then ([CSendStopped s], False) else install_send_callback c s installed)"

definition recv_op_start :: "'v channel \<Rightarrow> addr \<Rightarrow> bool \<Rightarrow> bool \<Rightarrow> completion list \<times> bool" where
  "recv_op_start c r stop_now installed =
     (if stop_now then ([CRecvStopped r], False) else install_recv_callback c r installed)"

section \<open>The outcomes of the critical sections\<close>

lemma rq_empty_items: "rq.ok q \<Longrightarrow> rq_empty q \<longleftrightarrow> rq.items q = []"
  using rq_rep_empty [OF rq.rep_items] by simp

lemma rq_pop_cases:
  assumes "rq.ok q" "\<not> rq_empty q"
  obtains x xs q' where "rq.items q = x # xs" "rq_pop_front q = (Some x, q')"
    "rq.ok q'" "rq.items q' = xs"
proof -
  from assms obtain x xs where i: "rq.items q = x # xs"
    by (cases "rq.items q") (simp_all add: rq_empty_items)
  from rq.ok_pop [OF assms(1) i] i that show thesis
    by (cases "rq_pop_front q") auto
qed

lemma rq_remove_cases:
  assumes "rq.ok q"
  obtains q' where "rq_remove q x = Some (if x \<in> set (rq.items q) then Some x else None, q')"
    "rq.ok q'" "rq.items q' = remove1 x (rq.items q)"
  using rq.ok_remove [OF assms, of x] by blast

text \<open>The states that differ from \<open>c\<close> only by a promoted sender.\<close>

lemma promote_cases:
  assumes "rq.ok (pending_sends c)"
  obtains
    (none) "promote_one_send_locked c ok a = (a, c)"
      "rq.items (pending_sends c) = [] \<or> ch_capacity c \<le> length (ch_buffer c)"
  | (moved) s ss q where "rq.items (pending_sends c) = s # ss" "rq.ok q" "rq.items q = ss"
      "length (ch_buffer c) < ch_capacity c"
      "promote_one_send_locked c ok a =
         (a\<lparr>a_send_value := Some s\<rparr>,
          c\<lparr>pending_sends := q, ch_buffer := ch_buffer c @ [take_value c s]\<rparr>)"
  | (failed) s ss q where "rq.items (pending_sends c) = s # ss" "rq.ok q" "rq.items q = ss"
      "length (ch_buffer c) < ch_capacity c"
      "promote_one_send_locked c ok a = (a\<lparr>a_send_error := Some s\<rparr>, c\<lparr>pending_sends := q\<rparr>)"
proof (cases "rq_empty (pending_sends c) \<or> ch_capacity c \<le> length (ch_buffer c)")
  case True
  then show thesis
    using none assms by (auto simp: promote_one_send_locked_def rq_empty_items)
next
  case False
  then obtain s ss q where q: "rq.items (pending_sends c) = s # ss"
      "rq_pop_front (pending_sends c) = (Some s, q)" "rq.ok q" "rq.items q = ss"
    using rq_pop_cases [OF assms] by metis
  have lt: "length (ch_buffer c) < ch_capacity c" using False by simp
  show thesis
  proof (cases ok)
    case True
    with False q show thesis
      by (intro moved [OF q(1,3,4) lt]) (simp add: promote_one_send_locked_def take_value_def)
  next
    case False
    with \<open>\<not> (rq_empty _ \<or> _)\<close> q show thesis
      by (intro failed [OF q(1,3,4) lt]) (simp add: promote_one_send_locked_def)
  qed
qed

lemma start_send_cases:
  assumes ok: "rq.ok (pending_sends c)" "rq.ok (pending_recvs c)"
    and new: "s \<notin> set (rq.items (pending_sends c))"
  obtains
    (rejected) "ch_stopped c \<or> ch_closed c \<or> sr_stop (sends c s)"
      "start_send c s late ok = Some (False, no_actions\<lparr>a_send_stopped := Some s\<rparr>, c)"
  | (handoff) r rs q where "\<not> ch_stopped c" "\<not> ch_closed c" "\<not> sr_stop (sends c s)"
      "rq.items (pending_recvs c) = r # rs" "rq.ok q" "rq.items q = rs"
      "start_send c s late ok =
         Some (False, no_actions\<lparr>a_recv_value := Some r, a_send_value := Some s\<rparr>,
               prepare_value r (take_value c s) (c\<lparr>pending_recvs := q\<rparr>))"
  | (buffered) "\<not> ch_stopped c" "\<not> ch_closed c" "rq.items (pending_recvs c) = []"
      "rq.items (pending_sends c) = []" "length (ch_buffer c) < ch_capacity c"
      "start_send c s late ok =
         Some (False, no_actions\<lparr>a_send_value := Some s\<rparr>,
               c\<lparr>ch_buffer := ch_buffer c @ [take_value c s]\<rparr>)"
  | (failed) "start_send c s late ok = Some (False, no_actions\<lparr>a_send_error := Some s\<rparr>, c)"
  | (parked) q where "\<not> ch_stopped c" "\<not> ch_closed c" "\<not> sr_stop (sends c s)"
      "rq.items (pending_recvs c) = []" "rq.ok q"
      "rq.items q = rq.items (pending_sends c) @ [s]"
      "start_send c s late ok = Some (True, no_actions, c\<lparr>pending_sends := q\<rparr>)"
  | (unparked) q where "\<not> ch_stopped c" "\<not> ch_closed c" "\<not> sr_stop (sends c s)"
      "rq.items (pending_recvs c) = []" "rq.ok q"
      "rq.items q = rq.items (pending_sends c)"
      "start_send c s late ok =
         Some (False, no_actions\<lparr>a_send_stopped := Some s\<rparr>,
               send_request_stop s (c\<lparr>pending_sends := q\<rparr>))"
proof -
  consider (rej) "ch_stopped c \<or> ch_closed c \<or> sr_stop (sends c s)"
    | (hand) "\<not> (ch_stopped c \<or> ch_closed c \<or> sr_stop (sends c s))" "\<not> rq_empty (pending_recvs c)"
    | (buf) "\<not> (ch_stopped c \<or> ch_closed c \<or> sr_stop (sends c s))" "rq_empty (pending_recvs c)"
        "rq_empty (pending_sends c) \<and> length (ch_buffer c) < ch_capacity c"
    | (park) "\<not> (ch_stopped c \<or> ch_closed c \<or> sr_stop (sends c s))" "rq_empty (pending_recvs c)"
        "\<not> (rq_empty (pending_sends c) \<and> length (ch_buffer c) < ch_capacity c)"
    by argo
  then show thesis
  proof cases
    case rej
    then show thesis using rejected by (auto simp: start_send_def)
  next
    case hand
    with rq_pop_cases [OF ok(2)] obtain r rs q where q: "rq.items (pending_recvs c) = r # rs"
        "rq_pop_front (pending_recvs c) = (Some r, q)" "rq.ok q" "rq.items q = rs" by metis
    with hand show thesis
      using handoff [OF _ _ _ q(1,3,4)] by (auto simp: start_send_def take_value_def)
  next
    case buf
    then show thesis
      using buffered failed ok by (cases ok) (auto simp: start_send_def rq_empty_items)
  next
    case park
    define q1 where "q1 = rq_push_back (pending_sends c) s"
    have q1: "rq.ok q1" "rq.items q1 = rq.items (pending_sends c) @ [s]"
      using rq.ok_push [OF ok(1) new] by (simp_all add: q1_def)
    show thesis
    proof (cases late)
      case False
      with park show thesis
        using parked [OF _ _ _ _ q1] ok(2) by (auto simp: start_send_def q1_def rq_empty_items Let_def)
    next
      case True
      obtain q2 where q2: "rq_remove q1 s = Some (Some s, q2)" "rq.ok q2"
          "rq.items q2 = rq.items (pending_sends c)"
        using rq_remove_cases [OF q1(1), of s] q1(2) new by (auto simp: remove1_append)
      with True park show thesis
        using unparked [OF _ _ _ _ q2(2,3)] ok(2)
        by (auto simp: start_send_def q1_def rq_empty_items Let_def send_request_stop_def)
    qed
  qed
qed

lemma start_recv_cases:
  assumes ok: "rq.ok (pending_sends c)" "rq.ok (pending_recvs c)"
    and new: "r \<notin> set (rq.items (pending_recvs c))"
  obtains
    (buffered) v vs a c' where "ch_buffer c = v # vs"
      "promote_one_send_locked ((prepare_value r v c)\<lparr>ch_buffer := vs\<rparr>) ok
         (no_actions\<lparr>a_recv_value := Some r\<rparr>) = (a, c')"
      "start_recv c r late ok = Some (False, a, c')"
  | (handoff) s ss q where "ch_buffer c = []"
      "rq.items (pending_sends c) = s # ss" "rq.ok q" "rq.items q = ss"
      "start_recv c r late ok =
         Some (False, no_actions\<lparr>a_recv_value := Some r, a_send_value := Some s\<rparr>,
               prepare_value r (take_value c s) (c\<lparr>pending_sends := q\<rparr>))"
  | (rejected) "ch_stopped c \<or> ch_closed c \<or> rr_stop (recvs c r)"
      "start_recv c r late ok = Some (False, no_actions\<lparr>a_recv_stopped := Some r\<rparr>, c)"
  | (parked) q where "\<not> ch_stopped c" "\<not> ch_closed c" "\<not> rr_stop (recvs c r)"
      "ch_buffer c = []" "rq.items (pending_sends c) = []" "rq.ok q"
      "rq.items q = rq.items (pending_recvs c) @ [r]"
      "start_recv c r late ok = Some (True, no_actions, c\<lparr>pending_recvs := q\<rparr>)"
  | (unparked) q where "\<not> ch_stopped c" "\<not> ch_closed c" "\<not> rr_stop (recvs c r)"
      "rq.ok q" "rq.items q = rq.items (pending_recvs c)"
      "start_recv c r late ok =
         Some (False, no_actions\<lparr>a_recv_stopped := Some r\<rparr>,
               recv_request_stop r (c\<lparr>pending_recvs := q\<rparr>))"
proof -
  consider (buf) v vs where "ch_buffer c = v # vs"
    | (hand) "ch_buffer c = []" "\<not> rq_empty (pending_sends c)"
    | (rej) "ch_buffer c = []" "rq_empty (pending_sends c)"
        "ch_stopped c \<or> ch_closed c \<or> rr_stop (recvs c r)"
    | (park) "ch_buffer c = []" "rq_empty (pending_sends c)"
        "\<not> (ch_stopped c \<or> ch_closed c \<or> rr_stop (recvs c r))"
    by (cases "ch_buffer c") auto
  then show thesis
  proof cases
    case buf
    obtain a c' where p: "promote_one_send_locked ((prepare_value r v c)\<lparr>ch_buffer := vs\<rparr>) ok
         (no_actions\<lparr>a_recv_value := Some r\<rparr>) = (a, c')" by fastforce
    with buf p show thesis
      using buffered [OF buf p] by (simp add: start_recv_def Let_def prepare_value_def)
  next
    case hand
    with rq_pop_cases [OF ok(1)] obtain s ss q where q: "rq.items (pending_sends c) = s # ss"
        "rq_pop_front (pending_sends c) = (Some s, q)" "rq.ok q" "rq.items q = ss" by metis
    with hand show thesis
      using handoff [OF _ q(1,3,4)] by (auto simp: start_recv_def take_value_def)
  next
    case rej
    then show thesis using rejected by (auto simp: start_recv_def)
  next
    case park
    define q1 where "q1 = rq_push_back (pending_recvs c) r"
    have q1: "rq.ok q1" "rq.items q1 = rq.items (pending_recvs c) @ [r]"
      using rq.ok_push [OF ok(2) new] by (simp_all add: q1_def)
    show thesis
    proof (cases late)
      case False
      with park show thesis
        using parked [OF _ _ _ _ _ q1] ok(1) by (auto simp: start_recv_def q1_def rq_empty_items Let_def)
    next
      case True
      obtain q2 where q2: "rq_remove q1 r = Some (Some r, q2)" "rq.ok q2"
          "rq.items q2 = rq.items (pending_recvs c)"
        using rq_remove_cases [OF q1(1), of r] q1(2) new by (auto simp: remove1_append)
      with True park show thesis
        using unparked [OF _ _ _ q2(2,3)] ok(1)
        by (auto simp: start_recv_def q1_def rq_empty_items Let_def recv_request_stop_def)
    qed
  qed
qed

end
