(* ===== verification/Channel_System.thy ===== *)
theory Channel_System
  imports Channel
begin

text \<open>
  Interleaved executions of \<open>forge::bounded_channel\<close> and its guarantees.

  A system state is a channel, the completions each thread still has to perform after it
  left a critical section, the operations whose \<open>start\<close> has installed its stop callback
  but not yet entered its critical section, the stop callbacks that have stored their flag
  and not yet called \<open>cancel_send\<close> or \<open>cancel_recv\<close>, and three logs: the signals
  delivered, the values offered to the channel and the values it handed to receivers, each
  in the order of the critical sections.
\<close>

section \<open>System states and steps\<close>

record 'v csys =
  cy_chan :: "'v channel"
  cy_threads :: "completion list list"
  cy_log :: "'v signal list"
  armed_s :: "addr list"
  armed_r :: "addr list"
  cancels_s :: "addr list"
  cancels_r :: "addr list"
  started_s :: "addr list"
  started_r :: "addr list"
  offered :: "'v list"
  delivered :: "'v list"

definition csys_init :: "nat \<Rightarrow> 'v csys" where
  "csys_init cap =
     \<lparr>cy_chan = channel_new cap, cy_threads = [], cy_log = [], armed_s = [], armed_r = [],
      cancels_s = [], cancels_r = [], started_s = [], started_r = [], offered = [], delivered = []\<rparr>"

definition handed :: "actions \<Rightarrow> 'v channel \<Rightarrow> 'v list" where
  "handed a c = (case a_recv_value a of None \<Rightarrow> [] | Some r \<Rightarrow> [the (rr_value (recvs c r))])"

inductive chan_step :: "'v csys \<Rightarrow> 'v csys \<Rightarrow> bool" where
  new_send:
    "s \<notin> set (started_s y) \<Longrightarrow> c1 = send_record_new s v (cy_chan y) \<Longrightarrow>
     send_op_start c1 s stop_now installed = (ks, go) \<Longrightarrow>
     chan_step y (y\<lparr>cy_chan := c1, started_s := s # started_s y,
       armed_s := (if go then s # armed_s y else armed_s y), cy_threads := cy_threads y @ [ks]\<rparr>)"
| new_recv:
    "r \<notin> set (started_r y) \<Longrightarrow> c1 = recv_record_new r (cy_chan y) \<Longrightarrow>
     recv_op_start c1 r stop_now installed = (ks, go) \<Longrightarrow>
     chan_step y (y\<lparr>cy_chan := c1, started_r := r # started_r y,
       armed_r := (if go then r # armed_r y else armed_r y), cy_threads := cy_threads y @ [ks]\<rparr>)"
| enter_send:
    "armed_s y = as @ s # bs \<Longrightarrow> start_send (cy_chan y) s late ok = Some (b, a, c1) \<Longrightarrow>
     chan_step y (y\<lparr>cy_chan := c1, armed_s := as @ bs,
       cancels_s := (if sr_stop (sends c1 s) \<and> \<not> sr_stop (sends (cy_chan y) s)
                     then s # cancels_s y else cancels_s y),
       cy_threads := cy_threads y @ [actions_run a],
       offered := offered y @ [take_value (cy_chan y) s],
       delivered := delivered y @ handed a c1\<rparr>)"
| enter_recv:
    "armed_r y = as @ r # bs \<Longrightarrow> start_recv (cy_chan y) r late ok = Some (b, a, c1) \<Longrightarrow>
     chan_step y (y\<lparr>cy_chan := c1, armed_r := as @ bs,
       cancels_r := (if rr_stop (recvs c1 r) \<and> \<not> rr_stop (recvs (cy_chan y) r)
                     then r # cancels_r y else cancels_r y),
       cy_threads := cy_threads y @ [actions_run a],
       delivered := delivered y @ handed a c1\<rparr>)"
| do_try_send:
    "try_send (cy_chan y) v ok = (res, a, c1) \<Longrightarrow>
     chan_step y (y\<lparr>cy_chan := c1, cy_threads := cy_threads y @ [actions_run a],
       offered := offered y @ [v], delivered := delivered y @ handed a c1\<rparr>)"
| do_try_recv:
    "try_recv (cy_chan y) ok = (res, a, c1) \<Longrightarrow>
     chan_step y (y\<lparr>cy_chan := c1, cy_threads := cy_threads y @ [actions_run a],
       delivered := delivered y @ (case res of None \<Rightarrow> [] | Some v \<Rightarrow> [v])\<rparr>)"
| do_close:
    "chan_close (cy_chan y) = Some (ks, c1) \<Longrightarrow>
     chan_step y (y\<lparr>cy_chan := c1, cy_threads := cy_threads y @ [ks]\<rparr>)"
| do_stop:
    "chan_request_stop (cy_chan y) = Some (ks, c1) \<Longrightarrow>
     chan_step y (y\<lparr>cy_chan := c1, cy_threads := cy_threads y @ [ks]\<rparr>)"
| callback_send:
    "s \<in> set (started_s y) \<Longrightarrow>
     chan_step y (y\<lparr>cy_chan := send_request_stop s (cy_chan y), cancels_s := s # cancels_s y\<rparr>)"
| callback_recv:
    "r \<in> set (started_r y) \<Longrightarrow>
     chan_step y (y\<lparr>cy_chan := recv_request_stop r (cy_chan y), cancels_r := r # cancels_r y\<rparr>)"
| do_cancel_send:
    "cancels_s y = as @ s # bs \<Longrightarrow> cancel_send (cy_chan y) s = Some (ks, c1) \<Longrightarrow>
     chan_step y (y\<lparr>cy_chan := c1, cancels_s := as @ bs, cy_threads := cy_threads y @ [ks]\<rparr>)"
| do_cancel_recv:
    "cancels_r y = as @ r # bs \<Longrightarrow> cancel_recv (cy_chan y) r = Some (ks, c1) \<Longrightarrow>
     chan_step y (y\<lparr>cy_chan := c1, cancels_r := as @ bs, cy_threads := cy_threads y @ [ks]\<rparr>)"
| finish:
    "cy_threads y = as @ (k # ks) # bs \<Longrightarrow> chan_complete k (cy_chan y) = (c1, g) \<Longrightarrow>
     chan_step y (y\<lparr>cy_chan := c1, cy_threads := as @ ks # bs, cy_log := cy_log y @ g\<rparr>)"

inductive chan_reachable :: "nat \<Rightarrow> 'v csys \<Rightarrow> bool" for cap where
  start: "chan_reachable cap (csys_init cap)"
| step: "chan_reachable cap y \<Longrightarrow> chan_step y z \<Longrightarrow> chan_reachable cap z"

section \<open>Who owns an operation\<close>

fun comp_send :: "completion \<Rightarrow> addr list" where
  "comp_send (CSendValue s) = [s]"
| "comp_send (CSendError s) = [s]"
| "comp_send (CSendStopped s) = [s]"
| "comp_send _ = []"

fun comp_recv :: "completion \<Rightarrow> addr list" where
  "comp_recv (CRecvValue r) = [r]"
| "comp_recv (CRecvStopped r) = [r]"
| "comp_recv _ = []"

fun sig_send :: "'v signal \<Rightarrow> addr list" where
  "sig_send (SendSetValue s) = [s]"
| "sig_send (SendSetError s) = [s]"
| "sig_send (SendSetStopped s) = [s]"
| "sig_send _ = []"

fun sig_recv :: "'v signal \<Rightarrow> addr list" where
  "sig_recv (RecvSetValue r v) = [r]"
| "sig_recv (RecvSetStopped r) = [r]"
| "sig_recv _ = []"

definition work_s :: "completion list list \<Rightarrow> addr list" where
  "work_s ts = concat (map comp_send (concat ts))"

definition work_r :: "completion list list \<Rightarrow> addr list" where
  "work_r ts = concat (map comp_recv (concat ts))"

definition completed_s :: "'v signal list \<Rightarrow> addr list" where
  "completed_s gs = concat (map sig_send gs)"

definition completed_r :: "'v signal list \<Rightarrow> addr list" where
  "completed_r gs = concat (map sig_recv gs)"

lemma work_simps [simp]:
  "work_s [] = []" "work_s (ts @ us) = work_s ts @ work_s us"
  "work_s (ks # ts) = concat (map comp_send ks) @ work_s ts"
  "work_r [] = []" "work_r (ts @ us) = work_r ts @ work_r us"
  "work_r (ks # ts) = concat (map comp_recv ks) @ work_r ts"
  by (simp_all add: work_s_def work_r_def)

lemma completed_simps [simp]:
  "completed_s [] = []" "completed_s (xs @ ys) = completed_s xs @ completed_s ys"
  "completed_s (g # ys) = sig_send g @ completed_s ys"
  "completed_r [] = []" "completed_r (xs @ ys) = completed_r xs @ completed_r ys"
  "completed_r (g # ys) = sig_recv g @ completed_r ys"
  by (simp_all add: completed_s_def completed_r_def)

abbreviation parked_s :: "'v csys \<Rightarrow> addr list" where
  "parked_s y \<equiv> rq.items (pending_sends (cy_chan y))"

abbreviation parked_r :: "'v csys \<Rightarrow> addr list" where
  "parked_r y \<equiv> rq.items (pending_recvs (cy_chan y))"

text \<open>Every place a started operation can be in: each operation is in exactly one.\<close>

definition owners_s :: "'v csys \<Rightarrow> addr list" where
  "owners_s y = armed_s y @ parked_s y @ work_s (cy_threads y) @ completed_s (cy_log y)"

definition owners_r :: "'v csys \<Rightarrow> addr list" where
  "owners_r y = armed_r y @ parked_r y @ work_r (cy_threads y) @ completed_r (cy_log y)"

section \<open>The invariant\<close>

definition chan_shape :: "'v csys \<Rightarrow> bool" where
  "chan_shape y \<longleftrightarrow>
     (let c = cy_chan y in
      rq.ok (pending_sends c) \<and> rq.ok (pending_recvs c) \<and>
      (parked_r y \<noteq> [] \<longrightarrow> ch_buffer c = [] \<and> parked_s y = []) \<and>
      length (ch_buffer c) \<le> ch_capacity c \<and>
      (ch_closed c \<or> ch_stopped c \<longrightarrow> parked_s y = [] \<and> parked_r y = []) \<and>
      (ch_stopped c \<longrightarrow> ch_buffer c = []))"

definition chan_owned :: "'v csys \<Rightarrow> bool" where
  "chan_owned y \<longleftrightarrow>
     distinct (owners_s y) \<and> set (owners_s y) = set (started_s y) \<and>
     distinct (owners_r y) \<and> set (owners_r y) = set (started_r y)"

definition chan_records :: "'v csys \<Rightarrow> bool" where
  "chan_records y \<longleftrightarrow>
     (let c = cy_chan y in
      (\<forall>s \<in> set (armed_s y @ parked_s y @ work_s (cy_threads y)). \<not> sr_done (sends c s)) \<and>
      (\<forall>r \<in> set (armed_r y @ parked_r y @ work_r (cy_threads y)). \<not> rr_done (recvs c r)) \<and>
      (\<forall>r \<in> set (armed_r y @ parked_r y). rr_value (recvs c r) = None) \<and>
      (\<forall>r. CRecvValue r \<in> set (concat (cy_threads y)) \<longrightarrow> rr_value (recvs c r) \<noteq> None))"

definition chan_cancel :: "'v csys \<Rightarrow> bool" where
  "chan_cancel y \<longleftrightarrow>
     (\<forall>s \<in> set (parked_s y). sr_stop (sends (cy_chan y) s) \<longrightarrow> s \<in> set (cancels_s y)) \<and>
     (\<forall>r \<in> set (parked_r y). rr_stop (recvs (cy_chan y) r) \<longrightarrow> r \<in> set (cancels_r y))"

definition chan_order :: "'v csys \<Rightarrow> bool" where
  "chan_order y \<longleftrightarrow>
     subseq (delivered y @ ch_buffer (cy_chan y) @ map (take_value (cy_chan y)) (parked_s y))
       (offered y)"

definition chan_inv :: "'v csys \<Rightarrow> bool" where
  "chan_inv y \<longleftrightarrow> chan_shape y \<and> chan_owned y \<and> chan_records y \<and> chan_cancel y \<and> chan_order y"

lemmas chan_inv_defs = chan_shape_def chan_owned_def chan_records_def chan_cancel_def
  chan_order_def owners_s_def owners_r_def Let_def

lemmas chan_upd_defs = take_value_def prepare_value_def send_request_stop_def
  recv_request_stop_def send_record_new_def recv_record_new_def

lemmas chan_op_defs = chan_upd_defs no_actions_def actions_run_def act_def handed_def

lemma take_value_upd [simp]:
  "take_value (c\<lparr>pending_sends := q\<rparr>) = take_value c"
  "take_value (c\<lparr>pending_recvs := q\<rparr>) = take_value c"
  "take_value (c\<lparr>ch_buffer := vs\<rparr>) = take_value c"
  "take_value (c\<lparr>ch_closed := b\<rparr>) = take_value c"
  "take_value (c\<lparr>ch_stopped := b\<rparr>) = take_value c"
  "take_value (prepare_value r v c) = take_value c"
  "take_value (send_request_stop s c) = take_value c"
  "take_value (recv_request_stop r c) = take_value c"
  "take_value (recv_record_new r c) = take_value c"
  by (auto simp: chan_upd_defs)

lemma chan_fields_upd [simp]:
  "ch_buffer (prepare_value r v c) = ch_buffer c"
  "ch_buffer (send_request_stop s c) = ch_buffer c"
  "ch_buffer (recv_request_stop s c) = ch_buffer c"
  "pending_sends (prepare_value r v c) = pending_sends c"
  "pending_sends (send_request_stop s c) = pending_sends c"
  "pending_sends (recv_request_stop s c) = pending_sends c"
  "pending_recvs (send_request_stop s c) = pending_recvs c"
  "pending_recvs (recv_request_stop s c) = pending_recvs c"
  "ch_buffer (send_record_new s v c) = ch_buffer c"
  "pending_sends (send_record_new s v c) = pending_sends c"
  "ch_buffer (recv_record_new s c) = ch_buffer c"
  "pending_sends (recv_record_new s c) = pending_sends c"
  by (auto simp: chan_upd_defs)

lemma chan_init_inv: "chan_inv (csys_init cap)"
  by (simp add: chan_inv_def chan_inv_defs csys_init_def channel_new_def)



lemma chan_owned_mset:
  assumes "chan_owned y" "mset (owners_s z) = mset (owners_s y)" "mset (owners_r z) = mset (owners_r y)"
    "started_s z = started_s y" "started_r z = started_r y"
  shows "chan_owned z"
  using assms unfolding chan_owned_def
  by (metis mset_eq_imp_distinct_iff mset_eq_setD)

text \<open>
  The outcomes of a critical section as the system sees them: the completions it leaves to
  its thread, the value it handed over, and the channel it leaves behind.
\<close>

lemma start_send_outcome:
  assumes ok: "rq.ok (pending_sends c)" "rq.ok (pending_recvs c)"
    and new: "s \<notin> set (rq.items (pending_sends c))"
    and st: "start_send c s late ok = Some (b, a, c1)"
  obtains
    (rejected) "actions_run a = [CSendStopped s]" "handed a c1 = []" "c1 = c"
  | (handoff) r rs q where "rq.items (pending_recvs c) = r # rs" "rq.ok q" "rq.items q = rs"
      "actions_run a = [CRecvValue r, CSendValue s]" "handed a c1 = [take_value c s]"
      "c1 = prepare_value r (take_value c s) (c\<lparr>pending_recvs := q\<rparr>)"
  | (buffered) "rq.items (pending_recvs c) = []" "rq.items (pending_sends c) = []"
      "length (ch_buffer c) < ch_capacity c" "\<not> ch_stopped c"
      "actions_run a = [CSendValue s]" "handed a c1 = []"
      "c1 = c\<lparr>ch_buffer := ch_buffer c @ [take_value c s]\<rparr>"
  | (failed) "actions_run a = [CSendError s]" "handed a c1 = []" "c1 = c"
  | (parked) q where "\<not> ch_stopped c" "\<not> ch_closed c" "\<not> sr_stop (sends c s)"
      "rq.items (pending_recvs c) = []" "rq.ok q" "rq.items q = rq.items (pending_sends c) @ [s]"
      "actions_run a = []" "handed a c1 = []" "c1 = c\<lparr>pending_sends := q\<rparr>"
  | (unparked) q where "rq.ok q" "rq.items q = rq.items (pending_sends c)"
      "actions_run a = [CSendStopped s]" "handed a c1 = []"
      "c1 = send_request_stop s (c\<lparr>pending_sends := q\<rparr>)"
proof (cases rule: start_send_cases [OF ok new, of late ok])
  case 1
  with st show thesis by (intro rejected) (auto simp: chan_op_defs)
next
  case (2 r rs q)
  with st show thesis by (intro handoff [OF 2(4,5,6)]) (auto simp: chan_op_defs)
next
  case 3
  with st show thesis by (intro buffered) (auto simp: chan_op_defs)
next
  case 4
  with st show thesis by (intro failed) (auto simp: chan_op_defs)
next
  case (5 q)
  with st show thesis by (intro parked [OF 5(1-6)]) (auto simp: chan_op_defs)
next
  case (6 q)
  with st show thesis by (intro unparked [OF 6(5,6)]) (auto simp: chan_op_defs)
qed

lemma start_recv_outcome:
  assumes ok: "rq.ok (pending_sends c)" "rq.ok (pending_recvs c)"
    and new: "r \<notin> set (rq.items (pending_recvs c))"
    and st: "start_recv c r late ok = Some (b, a, c1)"
  obtains
    (taken) v vs where "ch_buffer c = v # vs" "actions_run a = [CRecvValue r]" "handed a c1 = [v]"
      "c1 = (prepare_value r v c)\<lparr>ch_buffer := vs\<rparr>"
  | (promoted) v vs s ss q where "ch_buffer c = v # vs" "length vs < ch_capacity c"
      "rq.items (pending_sends c) = s # ss" "rq.ok q" "rq.items q = ss"
      "actions_run a = [CRecvValue r, CSendValue s]" "handed a c1 = [v]"
      "c1 = (prepare_value r v c)\<lparr>ch_buffer := vs @ [take_value c s], pending_sends := q\<rparr>"
  | (lost) v vs s ss q where "ch_buffer c = v # vs"
      "rq.items (pending_sends c) = s # ss" "rq.ok q" "rq.items q = ss"
      "actions_run a = [CRecvValue r, CSendError s]" "handed a c1 = [v]"
      "c1 = (prepare_value r v c)\<lparr>ch_buffer := vs, pending_sends := q\<rparr>"
  | (handoff) s ss q where "ch_buffer c = []"
      "rq.items (pending_sends c) = s # ss" "rq.ok q" "rq.items q = ss"
      "actions_run a = [CRecvValue r, CSendValue s]" "handed a c1 = [take_value c s]"
      "c1 = prepare_value r (take_value c s) (c\<lparr>pending_sends := q\<rparr>)"
  | (rejected) "actions_run a = [CRecvStopped r]" "handed a c1 = []" "c1 = c"
  | (parked) q where "\<not> ch_stopped c" "\<not> ch_closed c" "\<not> rr_stop (recvs c r)"
      "ch_buffer c = []" "rq.items (pending_sends c) = []" "rq.ok q"
      "rq.items q = rq.items (pending_recvs c) @ [r]"
      "actions_run a = []" "handed a c1 = []" "c1 = c\<lparr>pending_recvs := q\<rparr>"
  | (unparked) q where "rq.ok q" "rq.items q = rq.items (pending_recvs c)"
      "actions_run a = [CRecvStopped r]" "handed a c1 = []"
      "c1 = recv_request_stop r (c\<lparr>pending_recvs := q\<rparr>)"
proof (cases rule: start_recv_cases [OF ok new, where late = late and ok = ok])
  case (1 v vs a' c')
  have a: "a' = a" "c' = c1" using 1(3) st by simp_all
  have ok': "rq.ok (pending_sends ((prepare_value r v c)\<lparr>ch_buffer := vs\<rparr>))"
    using ok by (simp add: prepare_value_def)
  note p = 1(2) [unfolded a]
  show thesis
  proof (cases rule: promote_cases [OF ok', where ok = ok and a = "no_actions\<lparr>a_recv_value := Some r\<rparr>"])
    case 1
    with p \<open>ch_buffer c = v # vs\<close> show thesis by (intro taken) (auto simp: chan_op_defs)
  next
    case (2 s ss q)
    with p \<open>ch_buffer c = v # vs\<close> show thesis
      by (intro promoted [of v vs s ss q]) (auto simp: chan_op_defs)
  next
    case (3 s ss q)
    with p \<open>ch_buffer c = v # vs\<close> show thesis
      by (intro lost [of v vs s ss q]) (auto simp: chan_op_defs)
  qed
next
  case (2 s ss q)
  with st show thesis by (intro handoff [OF 2(1-4)]) (auto simp: chan_op_defs)
next
  case 3
  with st show thesis by (intro rejected) (auto simp: chan_op_defs)
next
  case (4 q)
  with st show thesis by (intro parked [OF 4(1-7)]) (auto simp: chan_op_defs)
next
  case (5 q)
  with st show thesis by (intro unparked [OF 5(4,5)]) (auto simp: chan_op_defs)
qed

lemma try_send_outcome:
  assumes ok: "rq.ok (pending_sends c)" "rq.ok (pending_recvs c)"
    and st: "try_send c v ok = (res, a, c1)"
  obtains
    (rejected) "res = Some False \<or> res = None" "actions_run a = []" "handed a c1 = []" "c1 = c"
  | (handoff) r rs q where "res = Some True" "rq.items (pending_recvs c) = r # rs" "rq.ok q"
      "rq.items q = rs" "actions_run a = [CRecvValue r]" "handed a c1 = [v]"
      "c1 = prepare_value r v (c\<lparr>pending_recvs := q\<rparr>)"
  | (buffered) "res = Some True" "\<not> ch_stopped c" "rq.items (pending_recvs c) = []"
      "rq.items (pending_sends c) = []" "length (ch_buffer c) < ch_capacity c"
      "actions_run a = []" "handed a c1 = []" "c1 = c\<lparr>ch_buffer := ch_buffer c @ [v]\<rparr>"
proof -
  consider (hand) "\<not> (ch_stopped c \<or> ch_closed c)" "\<not> rq_empty (pending_recvs c)"
    | (buf) "\<not> (ch_stopped c \<or> ch_closed c)" "rq_empty (pending_recvs c)"
        "rq_empty (pending_sends c)" "length (ch_buffer c) < ch_capacity c" "ok"
    | (rej) "c1 = c" "a = no_actions" "res = Some False \<or> res = None"
    using st by (auto simp: try_send_def split: if_splits)
  then show thesis
  proof cases
    case hand
    with rq_pop_cases [OF ok(2)] obtain r rs q where q: "rq.items (pending_recvs c) = r # rs"
        "rq_pop_front (pending_recvs c) = (Some r, q)" "rq.ok q" "rq.items q = rs" by metis
    with hand st show thesis
      by (intro handoff [OF _ q(1,3,4)]) (auto simp: try_send_def chan_op_defs)
  next
    case buf
    with st ok show thesis by (intro buffered) (auto simp: try_send_def rq_empty_items chan_op_defs)
  next
    case rej
    then show thesis by (intro rejected) (auto simp: chan_op_defs)
  qed
qed

lemma try_recv_outcome:
  assumes ok: "rq.ok (pending_sends c)" and st: "try_recv c ok = (res, a, c1)"
  obtains
    (taken) v vs where "ch_buffer c = v # vs" "res = Some v" "actions_run a = []"
      "c1 = c\<lparr>ch_buffer := vs\<rparr>"
  | (promoted) v vs s ss q where "ch_buffer c = v # vs" "res = Some v" "length vs < ch_capacity c"
      "rq.items (pending_sends c) = s # ss" "rq.ok q" "rq.items q = ss"
      "actions_run a = [CSendValue s]"
      "c1 = c\<lparr>ch_buffer := vs @ [take_value c s], pending_sends := q\<rparr>"
  | (lost) v vs s ss q where "ch_buffer c = v # vs" "res = Some v"
      "rq.items (pending_sends c) = s # ss" "rq.ok q" "rq.items q = ss"
      "actions_run a = [CSendError s]" "c1 = c\<lparr>ch_buffer := vs, pending_sends := q\<rparr>"
  | (handoff) s ss q where "ch_buffer c = []" "res = Some (take_value c s)"
      "rq.items (pending_sends c) = s # ss" "rq.ok q" "rq.items q = ss"
      "actions_run a = [CSendValue s]" "c1 = c\<lparr>pending_sends := q\<rparr>"
  | (empty) "ch_buffer c = []" "rq.items (pending_sends c) = []" "res = None"
      "actions_run a = []" "c1 = c"
proof (cases "ch_buffer c")
  case (Cons v vs)
  have ok': "rq.ok (pending_sends (c\<lparr>ch_buffer := vs\<rparr>))" using ok by simp
  have p: "res = Some v" "promote_one_send_locked (c\<lparr>ch_buffer := vs\<rparr>) ok no_actions = (a, c1)"
    using st Cons by (auto simp: try_recv_def split: prod.splits)
  show thesis
  proof (cases rule: promote_cases [OF ok', where ok = ok and a = no_actions])
    case 1
    with p Cons show thesis by (intro taken) (auto simp: chan_op_defs)
  next
    case (2 s ss q)
    with p Cons show thesis by (intro promoted [of v vs s ss q]) (auto simp: chan_op_defs)
  next
    case (3 s ss q)
    with p Cons show thesis by (intro lost [of v vs s ss q]) (auto simp: chan_op_defs)
  qed
next
  case Nil
  show thesis
  proof (cases "rq_empty (pending_sends c)")
    case True
    with st Nil ok show thesis by (intro empty) (auto simp: try_recv_def rq_empty_items chan_op_defs)
  next
    case False
    with rq_pop_cases [OF ok] obtain s ss q where q: "rq.items (pending_sends c) = s # ss"
        "rq_pop_front (pending_sends c) = (Some s, q)" "rq.ok q" "rq.items q = ss" by metis
    with False st Nil show thesis
      by (intro handoff [OF _ _ q(1,3,4)]) (auto simp: try_recv_def chan_op_defs)
  qed
qed

lemma chan_invD:
  assumes "chan_inv y"
  shows "chan_shape y" "chan_owned y" "chan_records y" "chan_cancel y" "chan_order y"
    "rq.ok (pending_sends (cy_chan y))" "rq.ok (pending_recvs (cy_chan y))"
  using assms by (auto simp: chan_inv_def chan_shape_def Let_def)

lemma chan_parked_r_distinct:
  "chan_owned y \<Longrightarrow> distinct (armed_r y @ parked_r y @ work_r (cy_threads y))"
  by (auto simp: chan_owned_def owners_r_def)

lemma chan_parked_s_distinct:
  "chan_owned y \<Longrightarrow> distinct (armed_s y @ parked_s y @ work_s (cy_threads y))"
  by (auto simp: chan_owned_def owners_s_def)

lemma enter_send_inv:
  assumes inv: "chan_inv y" and armed: "armed_s y = as @ s # bs"
    and st: "start_send (cy_chan y) s late ok = Some (b, a, c1)"
  shows "chan_inv (y\<lparr>cy_chan := c1, armed_s := as @ bs,
       cancels_s := (if sr_stop (sends c1 s) \<and> \<not> sr_stop (sends (cy_chan y) s)
                     then s # cancels_s y else cancels_s y),
       cy_threads := cy_threads y @ [actions_run a],
       offered := offered y @ [take_value (cy_chan y) s],
       delivered := delivered y @ handed a c1\<rparr>)" (is "chan_inv ?z")
proof -
  note I = chan_invD [OF inv]
  have new: "s \<notin> set (parked_s y)"
    using I(2) armed by (auto simp: chan_owned_def owners_s_def)
  note outcome = start_send_outcome [OF I(6,7) new st]
  have "chan_shape ?z"
    using I(1) by (cases rule: outcome) (auto simp: chan_shape_def chan_upd_defs Let_def)
  moreover have "chan_owned ?z"
  proof (rule chan_owned_mset [OF I(2)])
    show "mset (owners_s ?z) = mset (owners_s y)"
      using armed by (cases rule: outcome) (auto simp: owners_s_def chan_upd_defs)
    show "mset (owners_r ?z) = mset (owners_r y)"
      by (cases rule: outcome) (auto simp: owners_r_def chan_upd_defs)
  qed simp_all
  moreover have "chan_records ?z"
    using I(3) armed chan_parked_r_distinct [OF I(2)] by (cases rule: outcome) (auto simp: chan_records_def chan_upd_defs Let_def)
  moreover have "chan_cancel ?z"
    using I(4) by (cases rule: outcome) (auto simp: chan_cancel_def chan_upd_defs Let_def)
  moreover have "chan_order ?z"
    using I(5,1) by (cases rule: outcome) (auto simp: chan_order_def chan_shape_def Let_def)
  ultimately show ?thesis by (simp add: chan_inv_def)
qed


lemma enter_recv_inv:
  assumes inv: "chan_inv y" and armed: "armed_r y = as @ r # bs"
    and st: "start_recv (cy_chan y) r late ok = Some (b, a, c1)"
  shows "chan_inv (y\<lparr>cy_chan := c1, armed_r := as @ bs,
       cancels_r := (if rr_stop (recvs c1 r) \<and> \<not> rr_stop (recvs (cy_chan y) r)
                     then r # cancels_r y else cancels_r y),
       cy_threads := cy_threads y @ [actions_run a],
       delivered := delivered y @ handed a c1\<rparr>)" (is "chan_inv ?z")
proof -
  note I = chan_invD [OF inv]
  have new: "r \<notin> set (parked_r y)"
    using I(2) armed by (auto simp: chan_owned_def owners_r_def)
  note outcome = start_recv_outcome [OF I(6,7) new st]
  have "chan_shape ?z"
    using I(1) by (cases rule: outcome) (auto simp: chan_shape_def chan_upd_defs Let_def)
  moreover have "chan_owned ?z"
  proof (rule chan_owned_mset [OF I(2)])
    show "mset (owners_s ?z) = mset (owners_s y)"
      by (cases rule: outcome) (auto simp: owners_s_def chan_upd_defs)
    show "mset (owners_r ?z) = mset (owners_r y)"
      using armed by (cases rule: outcome) (auto simp: owners_r_def chan_upd_defs)
  qed simp_all
  moreover have "chan_records ?z"
    using I(3) armed chan_parked_r_distinct [OF I(2)]
    by (cases rule: outcome) (auto simp: chan_records_def chan_upd_defs Let_def)
  moreover have "chan_cancel ?z"
    using I(4) by (cases rule: outcome) (auto simp: chan_cancel_def chan_upd_defs Let_def)
  moreover have "chan_order ?z"
    using I(5,1)
    by (cases rule: outcome)
       (auto simp: chan_order_def chan_shape_def Let_def intro: subseq_drop_middle [of "delivered y @ v # vs" for v vs, simplified])
  ultimately show ?thesis by (simp add: chan_inv_def)
qed

lemma try_send_inv:
  assumes inv: "chan_inv y" and st: "try_send (cy_chan y) v ok = (res, a, c1)"
  shows "chan_inv (y\<lparr>cy_chan := c1, cy_threads := cy_threads y @ [actions_run a],
       offered := offered y @ [v], delivered := delivered y @ handed a c1\<rparr>)" (is "chan_inv ?z")
proof -
  note I = chan_invD [OF inv]
  note outcome = try_send_outcome [OF I(6,7) st]
  have "chan_shape ?z"
    using I(1) by (cases rule: outcome) (auto simp: chan_shape_def chan_upd_defs Let_def)
  moreover have "chan_owned ?z"
  proof (rule chan_owned_mset [OF I(2)])
    show "mset (owners_s ?z) = mset (owners_s y)"
      by (cases rule: outcome) (auto simp: owners_s_def chan_upd_defs)
    show "mset (owners_r ?z) = mset (owners_r y)"
      by (cases rule: outcome) (auto simp: owners_r_def chan_upd_defs)
  qed simp_all
  moreover have "chan_records ?z"
    using I(3) chan_parked_r_distinct [OF I(2)]
    by (cases rule: outcome) (auto simp: chan_records_def chan_upd_defs Let_def)
  moreover have "chan_cancel ?z"
    using I(4) by (cases rule: outcome) (auto simp: chan_cancel_def chan_upd_defs Let_def)
  moreover have "chan_order ?z"
    using I(5,1) by (cases rule: outcome) (auto simp: chan_order_def chan_shape_def Let_def)
  ultimately show ?thesis by (simp add: chan_inv_def)
qed

lemma try_recv_inv:
  assumes inv: "chan_inv y" and st: "try_recv (cy_chan y) ok = (res, a, c1)"
  shows "chan_inv (y\<lparr>cy_chan := c1, cy_threads := cy_threads y @ [actions_run a],
       delivered := delivered y @ (case res of None \<Rightarrow> [] | Some v \<Rightarrow> [v])\<rparr>)" (is "chan_inv ?z")
proof -
  note I = chan_invD [OF inv]
  note outcome = try_recv_outcome [OF I(6) st]
  have "chan_shape ?z"
    using I(1) by (cases rule: outcome) (auto simp: chan_shape_def chan_upd_defs Let_def)
  moreover have "chan_owned ?z"
  proof (rule chan_owned_mset [OF I(2)])
    show "mset (owners_s ?z) = mset (owners_s y)"
      by (cases rule: outcome) (auto simp: owners_s_def chan_upd_defs)
    show "mset (owners_r ?z) = mset (owners_r y)"
      by (cases rule: outcome) (auto simp: owners_r_def chan_upd_defs)
  qed simp_all
  moreover have "chan_records ?z"
    using I(3) by (cases rule: outcome) (auto simp: chan_records_def chan_upd_defs Let_def)
  moreover have "chan_cancel ?z"
    using I(4) by (cases rule: outcome) (auto simp: chan_cancel_def chan_upd_defs Let_def)
  moreover have "chan_order ?z"
    using I(5,1)
    by (cases rule: outcome)
       (auto simp: chan_order_def chan_shape_def Let_def intro: subseq_drop_middle [of "delivered y @ v # vs" for v vs, simplified])
  ultimately show ?thesis by (simp add: chan_inv_def)
qed

lemma close_outcome:
  assumes ok: "rq.ok (pending_sends c)" "rq.ok (pending_recvs c)"
    and none: "\<forall>r \<in> set (rq.items (pending_recvs c)). rr_value (recvs c r) = None"
  obtains qs qr where "rq.ok qs" "rq.items qs = []" "rq.ok qr" "rq.items qr = []"
    "chan_close c = Some (map CRecvStopped (rq.items (pending_recvs c)) @
        map CSendStopped (rq.items (pending_sends c)),
      c\<lparr>ch_closed := True, pending_sends := qs, pending_recvs := qr\<rparr>)"
proof -
  from rq.ok_drain [OF ok(1)] rq.ok_drain [OF ok(2)] obtain qs qr where
      "rq_drain (pending_sends c) = Some (rq.items (pending_sends c), qs)" "rq.ok qs" "rq.items qs = []"
      "rq_drain (pending_recvs c) = Some (rq.items (pending_recvs c), qr)" "rq.ok qr" "rq.items qr = []"
    by blast
  with none show thesis by (intro that [of qs qr]) (auto simp: chan_close_def)
qed

lemma stop_outcome:
  assumes ok: "rq.ok (pending_sends c)" "rq.ok (pending_recvs c)"
  obtains qs qr where "rq.ok qs" "rq.items qs = []" "rq.ok qr" "rq.items qr = []"
    "chan_request_stop c = Some (map CRecvStopped (rq.items (pending_recvs c)) @
        map CSendStopped (rq.items (pending_sends c)),
      c\<lparr>ch_stopped := True, pending_sends := qs, pending_recvs := qr, ch_buffer := []\<rparr>)"
proof -
  from rq.ok_drain [OF ok(1)] rq.ok_drain [OF ok(2)] obtain qs qr where
      "rq_drain (pending_sends c) = Some (rq.items (pending_sends c), qs)" "rq.ok qs" "rq.items qs = []"
      "rq_drain (pending_recvs c) = Some (rq.items (pending_recvs c), qr)" "rq.ok qr" "rq.items qr = []"
    by blast
  then show thesis by (intro that [of qs qr]) (auto simp: chan_request_stop_def)
qed

lemma comp_of_map [simp]:
  "concat (map (comp_send \<circ> CRecvStopped) xs) = []"
  "concat (map (comp_send \<circ> CSendStopped) xs) = xs"
  "concat (map (comp_recv \<circ> CRecvStopped) xs) = xs"
  "concat (map (comp_recv \<circ> CSendStopped) xs) = []"
  by (induction xs) auto

lemma subseq_take_front: "subseq (xs @ ys) zs \<Longrightarrow> subseq xs zs"
  by (metis list_emb_append_mono append_Nil2 list_emb_Nil subseq_order.order_refl subseq_order.order_trans)

lemma close_inv:
  assumes inv: "chan_inv y" and st: "chan_close (cy_chan y) = Some (ks, c1)"
  shows "chan_inv (y\<lparr>cy_chan := c1, cy_threads := cy_threads y @ [ks]\<rparr>)" (is "chan_inv ?z")
proof -
  note I = chan_invD [OF inv]
  have "\<forall>r \<in> set (parked_r y). rr_value (recvs (cy_chan y) r) = None"
    using I(3) by (auto simp: chan_records_def Let_def)
  then obtain qs qr where q: "rq.ok qs" "rq.items qs = []" "rq.ok qr" "rq.items qr = []"
    and c1: "ks = map CRecvStopped (parked_r y) @ map CSendStopped (parked_s y)"
      "c1 = (cy_chan y)\<lparr>ch_closed := True, pending_sends := qs, pending_recvs := qr\<rparr>"
    using st by (auto elim: close_outcome [OF I(6,7)])
  have "chan_shape ?z" using I(1) q c1 by (auto simp: chan_shape_def Let_def)
  moreover have "chan_owned ?z"
    by (rule chan_owned_mset [OF I(2)]) (auto simp: owners_s_def owners_r_def q c1)
  moreover have "chan_records ?z" using I(3) q c1 by (auto simp: chan_records_def Let_def)
  moreover have "chan_cancel ?z" using q c1 by (auto simp: chan_cancel_def)
  moreover have "chan_order ?z"
    using I(5) q c1 subseq_take_front [of "delivered y @ ch_buffer (cy_chan y)"]
    by (auto simp: chan_order_def)
  ultimately show ?thesis by (simp add: chan_inv_def)
qed

lemma stop_inv:
  assumes inv: "chan_inv y" and st: "chan_request_stop (cy_chan y) = Some (ks, c1)"
  shows "chan_inv (y\<lparr>cy_chan := c1, cy_threads := cy_threads y @ [ks]\<rparr>)" (is "chan_inv ?z")
proof -
  note I = chan_invD [OF inv]
  obtain qs qr where q: "rq.ok qs" "rq.items qs = []" "rq.ok qr" "rq.items qr = []"
    and c1: "ks = map CRecvStopped (parked_r y) @ map CSendStopped (parked_s y)"
      "c1 = (cy_chan y)\<lparr>ch_stopped := True, pending_sends := qs, pending_recvs := qr, ch_buffer := []\<rparr>"
    by (rule stop_outcome [OF I(6,7)]) (use st in auto)
  have "chan_shape ?z" using I(1) q c1 by (auto simp: chan_shape_def Let_def)
  moreover have "chan_owned ?z"
    by (rule chan_owned_mset [OF I(2)]) (auto simp: owners_s_def owners_r_def q c1)
  moreover have "chan_records ?z" using I(3) q c1 by (auto simp: chan_records_def Let_def)
  moreover have "chan_cancel ?z" using q c1 by (auto simp: chan_cancel_def)
  moreover have "chan_order ?z"
    using I(5) q c1 subseq_take_front [of "delivered y"] by (auto simp: chan_order_def)
  ultimately show ?thesis by (simp add: chan_inv_def)
qed

lemma cancel_send_inv:
  assumes inv: "chan_inv y" and can: "cancels_s y = as @ s # bs"
    and st: "cancel_send (cy_chan y) s = Some (ks, c1)"
  shows "chan_inv (y\<lparr>cy_chan := c1, cancels_s := as @ bs, cy_threads := cy_threads y @ [ks]\<rparr>)"
    (is "chan_inv ?z")
proof -
  note I = chan_invD [OF inv]
  obtain q where q: "rq_remove (pending_sends (cy_chan y)) s =
        Some (if s \<in> set (parked_s y) then Some s else None, q)"
      "rq.ok q" "rq.items q = remove1 s (parked_s y)"
    using rq_remove_cases [OF I(6)] by metis
  have c1: "ks = (if s \<in> set (parked_s y) then [CSendStopped s] else [])"
      "c1 = (cy_chan y)\<lparr>pending_sends := q\<rparr>"
    using st q(1) by (auto simp: cancel_send_def act_def)
  have d: "distinct (parked_s y)" using chan_parked_s_distinct [OF I(2)] by simp
  have "chan_shape ?z" using I(1) q c1 by (auto simp: chan_shape_def Let_def)
  moreover have "chan_owned ?z"
    by (rule chan_owned_mset [OF I(2)]) (auto simp: owners_s_def owners_r_def q c1 remove1_idem)
  moreover have "chan_records ?z"
    using I(3) q c1 d by (auto simp: chan_records_def Let_def)
  moreover have "chan_cancel ?z"
    using I(4) q c1 can d by (auto simp: chan_cancel_def)
  moreover have "chan_order ?z"
  proof (cases "s \<in> set (parked_s y)")
    case True
    then obtain us vs where "parked_s y = us @ s # vs" "remove1 s (parked_s y) = us @ vs"
      using remove1_split by meson
    with I(5) q c1 show ?thesis
      using subseq_drop_middle [of "delivered y @ ch_buffer (cy_chan y) @ map (take_value (cy_chan y)) us"]
      by (auto simp: chan_order_def)
  next
    case False
    with I(5) q c1 show ?thesis by (auto simp: chan_order_def remove1_idem)
  qed
  ultimately show ?thesis by (simp add: chan_inv_def)
qed

lemma cancel_recv_inv:
  assumes inv: "chan_inv y" and can: "cancels_r y = as @ r # bs"
    and st: "cancel_recv (cy_chan y) r = Some (ks, c1)"
  shows "chan_inv (y\<lparr>cy_chan := c1, cancels_r := as @ bs, cy_threads := cy_threads y @ [ks]\<rparr>)"
    (is "chan_inv ?z")
proof -
  note I = chan_invD [OF inv]
  obtain q where q: "rq_remove (pending_recvs (cy_chan y)) r =
        Some (if r \<in> set (parked_r y) then Some r else None, q)"
      "rq.ok q" "rq.items q = remove1 r (parked_r y)"
    using rq_remove_cases [OF I(7)] by metis
  have c1: "ks = (if r \<in> set (parked_r y) then [CRecvStopped r] else [])"
      "c1 = (cy_chan y)\<lparr>pending_recvs := q\<rparr>"
    using st q(1) by (auto simp: cancel_recv_def act_def)
  have d: "distinct (parked_r y)" using chan_parked_r_distinct [OF I(2)] by simp
  have "chan_shape ?z" using I(1) q c1 by (auto simp: chan_shape_def Let_def)
  moreover have "chan_owned ?z"
    by (rule chan_owned_mset [OF I(2)]) (auto simp: owners_s_def owners_r_def q c1 remove1_idem)
  moreover have "chan_records ?z"
    using I(3) q c1 d by (auto simp: chan_records_def Let_def)
  moreover have "chan_cancel ?z"
    using I(4) q c1 can d by (auto simp: chan_cancel_def)
  moreover have "chan_order ?z" using I(5) c1 by (auto simp: chan_order_def)
  ultimately show ?thesis by (simp add: chan_inv_def)
qed


lemma chan_complete_frame:
  assumes "chan_complete k c = (c1, g)"
  shows "pending_sends c1 = pending_sends c" "pending_recvs c1 = pending_recvs c"
    "ch_buffer c1 = ch_buffer c" "ch_closed c1 = ch_closed c" "ch_stopped c1 = ch_stopped c"
    "ch_capacity c1 = ch_capacity c"
    "\<And>x. x \<notin> set (comp_send k) \<Longrightarrow> sends c1 x = sends c x"
    "\<And>x. x \<notin> set (comp_recv k) \<Longrightarrow> recvs c1 x = recvs c x"
    "sr_stop (sends c1 x) = sr_stop (sends c x)" "rr_stop (recvs c1 x) = rr_stop (recvs c x)"
  using assms by (cases k; auto simp: send_finish_def recv_finish_def split: if_splits)+

lemma chan_complete_signal:
  assumes "chan_complete k c = (c1, g)" "\<forall>s \<in> set (comp_send k). \<not> sr_done (sends c s)"
    "\<forall>r \<in> set (comp_recv k). \<not> rr_done (recvs c r)"
  shows "completed_s g = comp_send k" "completed_r g = comp_recv k"
  using assms by (cases k; auto simp: send_finish_def recv_finish_def)+

lemma finish_inv:
  assumes inv: "chan_inv y" and th: "cy_threads y = as @ (k # ks) # bs"
    and st: "chan_complete k (cy_chan y) = (c1, g)"
  shows "chan_inv (y\<lparr>cy_chan := c1, cy_threads := as @ ks # bs, cy_log := cy_log y @ g\<rparr>)"
    (is "chan_inv ?z")
proof -
  note I = chan_invD [OF inv]
  note f = chan_complete_frame [OF st]
  have g: "completed_s g = comp_send k" "completed_r g = comp_recv k"
    using chan_complete_signal [OF st] I(3) th by (simp_all add: chan_records_def Let_def)
  have s: "\<forall>x \<in> set (armed_s y @ parked_s y @ work_s (as @ ks # bs)). sends c1 x = sends (cy_chan y) x"
    by (intro ballI f(7)) (use th chan_parked_s_distinct [OF I(2)] in auto)
  have r: "\<forall>x \<in> set (armed_r y @ parked_r y @ work_r (as @ ks # bs)). recvs c1 x = recvs (cy_chan y) x"
    by (intro ballI f(8)) (use th chan_parked_r_distinct [OF I(2)] in auto)
  have "chan_shape ?z" using I(1) by (simp add: chan_shape_def Let_def f)
  moreover have "chan_owned ?z"
    by (rule chan_owned_mset [OF I(2)]) (simp_all add: owners_s_def owners_r_def th f g)
  moreover have "chan_records ?z"
  proof -
    have w: "CRecvValue x \<in> set (concat (as @ ks # bs)) \<Longrightarrow> x \<in> set (work_r (as @ ks # bs))" for x
      by (force simp: work_r_def)
    show ?thesis
      using I(3) th s r w unfolding chan_records_def Let_def by (auto simp: f)
  qed
  moreover have "chan_cancel ?z" using I(4) by (simp add: chan_cancel_def f)
  moreover have "chan_order ?z"
  proof -
    have m: "map (take_value c1) (parked_s y) = map (take_value (cy_chan y)) (parked_s y)"
      using s by (simp add: take_value_def)
    show ?thesis using I(5) by (simp add: chan_order_def m f)
  qed
  ultimately show ?thesis by (simp add: chan_inv_def)
qed

lemma new_send_inv:
  assumes inv: "chan_inv y" and new: "s \<notin> set (started_s y)"
    and st: "send_op_start (send_record_new s v (cy_chan y)) s stop_now installed = (ks, go)"
  shows "chan_inv (y\<lparr>cy_chan := send_record_new s v (cy_chan y), started_s := s # started_s y,
       armed_s := (if go then s # armed_s y else armed_s y), cy_threads := cy_threads y @ [ks]\<rparr>)"
    (is "chan_inv ?z")
proof -
  note I = chan_invD [OF inv]
  have ks: "ks = (if go then [] else [CSendStopped s])"
    using st by (auto simp: send_op_start_def install_send_callback_def send_record_new_def split: if_splits)
  have fresh: "s \<notin> set (owners_s y)" using I(2) new by (auto simp: chan_owned_def)
  have "chan_shape ?z" using I(1) by (auto simp: chan_shape_def Let_def send_record_new_def)
  moreover have "chan_owned ?z"
    using I(2) fresh ks
    by (auto simp: chan_owned_def owners_s_def owners_r_def send_record_new_def)
  moreover have "chan_records ?z"
    using I(3) fresh ks
    by (auto simp: chan_records_def Let_def send_record_new_def owners_s_def)
  moreover have "chan_cancel ?z"
    using I(4) fresh by (auto simp: chan_cancel_def send_record_new_def owners_s_def)
  moreover have "chan_order ?z"
  proof -
    have eq: "map (take_value (send_record_new s v (cy_chan y))) (parked_s y)
          = map (take_value (cy_chan y)) (parked_s y)"
      using fresh by (auto simp: take_value_def send_record_new_def owners_s_def)
    show ?thesis using I(5) by (simp add: chan_order_def eq)
  qed
  ultimately show ?thesis by (simp add: chan_inv_def)
qed

lemma new_recv_inv:
  assumes inv: "chan_inv y" and new: "r \<notin> set (started_r y)"
    and st: "recv_op_start (recv_record_new r (cy_chan y)) r stop_now installed = (ks, go)"
  shows "chan_inv (y\<lparr>cy_chan := recv_record_new r (cy_chan y), started_r := r # started_r y,
       armed_r := (if go then r # armed_r y else armed_r y), cy_threads := cy_threads y @ [ks]\<rparr>)"
    (is "chan_inv ?z")
proof -
  note I = chan_invD [OF inv]
  have ks: "ks = (if go then [] else [CRecvStopped r])"
    using st by (auto simp: recv_op_start_def install_recv_callback_def recv_record_new_def split: if_splits)
  have fresh: "r \<notin> set (owners_r y)" using I(2) new by (auto simp: chan_owned_def)
  then have nowork: "CRecvValue r \<notin> set (concat (cy_threads y))"
    by (force simp: owners_r_def work_r_def)
  have "chan_shape ?z" using I(1) by (auto simp: chan_shape_def Let_def recv_record_new_def)
  moreover have "chan_owned ?z"
    using I(2) fresh ks
    by (auto simp: chan_owned_def owners_s_def owners_r_def recv_record_new_def)
  moreover have "chan_records ?z"
    using I(3) fresh ks nowork
    by (auto simp: chan_records_def Let_def recv_record_new_def owners_r_def)
  moreover have "chan_cancel ?z"
    using I(4) fresh by (auto simp: chan_cancel_def recv_record_new_def owners_r_def)
  moreover have "chan_order ?z"
    using I(5) by (simp add: chan_order_def)
  ultimately show ?thesis by (simp add: chan_inv_def)
qed

lemma callback_send_inv:
  assumes inv: "chan_inv y"
  shows "chan_inv (y\<lparr>cy_chan := send_request_stop s (cy_chan y), cancels_s := s # cancels_s y\<rparr>)"
    (is "chan_inv ?z")
proof -
  note I = chan_invD [OF inv]
  have "chan_shape ?z" using I(1) by (auto simp: chan_shape_def Let_def send_request_stop_def)
  moreover have "chan_owned ?z" using I(2) by (auto simp: chan_owned_def owners_s_def owners_r_def)
  moreover have "chan_records ?z"
    using I(3) by (auto simp: chan_records_def Let_def send_request_stop_def)
  moreover have "chan_cancel ?z" using I(4) by (auto simp: chan_cancel_def send_request_stop_def)
  moreover have "chan_order ?z" using I(5) by (simp add: chan_order_def)
  ultimately show ?thesis by (simp add: chan_inv_def)
qed

lemma callback_recv_inv:
  assumes inv: "chan_inv y"
  shows "chan_inv (y\<lparr>cy_chan := recv_request_stop r (cy_chan y), cancels_r := r # cancels_r y\<rparr>)"
    (is "chan_inv ?z")
proof -
  note I = chan_invD [OF inv]
  have "chan_shape ?z" using I(1) by (auto simp: chan_shape_def Let_def recv_request_stop_def)
  moreover have "chan_owned ?z" using I(2) by (auto simp: chan_owned_def owners_s_def owners_r_def)
  moreover have "chan_records ?z"
    using I(3) by (auto simp: chan_records_def Let_def recv_request_stop_def)
  moreover have "chan_cancel ?z" using I(4) by (auto simp: chan_cancel_def recv_request_stop_def)
  moreover have "chan_order ?z" using I(5) by (simp add: chan_order_def)
  ultimately show ?thesis by (simp add: chan_inv_def)
qed

text \<open>Every step keeps the invariant, so it holds in every reachable state.\<close>

lemma chan_step_inv:
  assumes "chan_step y z" "chan_inv y"
  shows "chan_inv z"
  using assms
proof (cases rule: chan_step.cases)
  case new_send
  then show ?thesis using new_send_inv [OF assms(2)] by blast
next
  case new_recv
  then show ?thesis using new_recv_inv [OF assms(2)] by blast
next
  case enter_send
  then show ?thesis using enter_send_inv [OF assms(2)] by blast
next
  case enter_recv
  then show ?thesis using enter_recv_inv [OF assms(2)] by blast
next
  case do_try_send
  then show ?thesis using try_send_inv [OF assms(2)] by blast
next
  case do_try_recv
  then show ?thesis using try_recv_inv [OF assms(2)] by blast
next
  case do_close
  then show ?thesis using close_inv [OF assms(2)] by blast
next
  case do_stop
  then show ?thesis using stop_inv [OF assms(2)] by blast
next
  case callback_send
  then show ?thesis using callback_send_inv [OF assms(2)] by blast
next
  case callback_recv
  then show ?thesis using callback_recv_inv [OF assms(2)] by blast
next
  case do_cancel_send
  then show ?thesis using cancel_send_inv [OF assms(2)] by blast
next
  case do_cancel_recv
  then show ?thesis using cancel_recv_inv [OF assms(2)] by blast
next
  case finish
  then show ?thesis using finish_inv [OF assms(2)] by blast
qed

lemma chan_reachable_inv: "chan_reachable cap y \<Longrightarrow> chan_inv y"
  by (induction rule: chan_reachable.induct) (auto simp: chan_init_inv intro: chan_step_inv)


lemma chan_reachable_capacity: "chan_reachable cap y \<Longrightarrow> ch_capacity (cy_chan y) = cap"
proof (induction rule: chan_reachable.induct)
  case start
  show ?case by (simp add: csys_init_def channel_new_def)
next
  case (step y z)
  note I = chan_invD [OF chan_reachable_inv [OF step.hyps(1)]]
  from step.hyps(2) have "ch_capacity (cy_chan z) = ch_capacity (cy_chan y)"
  proof (cases rule: chan_step.cases)
    case (enter_send as s bs late ok b a c1)
    then have new: "s \<notin> set (parked_s y)" using I(2) by (auto simp: chan_owned_def owners_s_def)
    show ?thesis
      using enter_send(1) by (cases rule: start_send_outcome [OF I(6,7) new enter_send(3)]) (auto simp: chan_upd_defs)
  next
    case (enter_recv as r bs late ok b a c1)
    then have new: "r \<notin> set (parked_r y)" using I(2) by (auto simp: chan_owned_def owners_r_def)
    show ?thesis
      using enter_recv(1) by (cases rule: start_recv_outcome [OF I(6,7) new enter_recv(3)]) (auto simp: chan_upd_defs)
  next
    case (do_try_send v ok res a c1)
    then show ?thesis
      by (cases rule: try_send_outcome [OF I(6,7) do_try_send(2)]) (auto simp: chan_upd_defs)
  next
    case (do_try_recv ok res a c1)
    then show ?thesis
      by (cases rule: try_recv_outcome [OF I(6) do_try_recv(2)]) (auto simp: chan_upd_defs)
  next
    case (finish as k ks bs c1 g)
    then show ?thesis by (simp add: chan_complete_frame)
  qed (auto simp: chan_upd_defs chan_close_def chan_request_stop_def cancel_send_def cancel_recv_def
         split: option.splits prod.splits)
  with step.IH show ?case by simp
qed

section \<open>Running schedules\<close>

text \<open>
  Schedules as data: one command per rule of \<open>chan_step\<close>.  \<open>chan_run\<close> executes a schedule
  and is sound for reachability, so a concrete execution is obtained by evaluation.
\<close>

datatype 'v cmd =
    NewSend addr 'v
  | NewRecv addr
  | EnterSend addr bool bool
  | EnterRecv addr bool bool
  | TrySend 'v
  | TryRecv
  | Close
  | CallbackSend addr
  | CancelSend addr
  | Finish nat

fun chan_exec :: "'v cmd \<Rightarrow> 'v csys \<Rightarrow> 'v csys option" where
  "chan_exec (NewSend s v) y =
     (if s \<in> set (started_s y) then None
      else Some (y\<lparr>cy_chan := send_record_new s v (cy_chan y), started_s := s # started_s y,
             armed_s := s # armed_s y, cy_threads := cy_threads y @ [[]]\<rparr>))"
| "chan_exec (NewRecv r) y =
     (if r \<in> set (started_r y) then None
      else Some (y\<lparr>cy_chan := recv_record_new r (cy_chan y), started_r := r # started_r y,
             armed_r := r # armed_r y, cy_threads := cy_threads y @ [[]]\<rparr>))"
| "chan_exec (EnterSend s late ok) y =
     (if s \<notin> set (armed_s y) then None
      else case start_send (cy_chan y) s late ok of None \<Rightarrow> None
         | Some (b, a, c1) \<Rightarrow>
             Some (y\<lparr>cy_chan := c1, armed_s := remove1 s (armed_s y),
               cancels_s := (if sr_stop (sends c1 s) \<and> \<not> sr_stop (sends (cy_chan y) s)
                             then s # cancels_s y else cancels_s y),
               cy_threads := cy_threads y @ [actions_run a],
               offered := offered y @ [take_value (cy_chan y) s],
               delivered := delivered y @ handed a c1\<rparr>))"
| "chan_exec (EnterRecv r late ok) y =
     (if r \<notin> set (armed_r y) then None
      else case start_recv (cy_chan y) r late ok of None \<Rightarrow> None
         | Some (b, a, c1) \<Rightarrow>
             Some (y\<lparr>cy_chan := c1, armed_r := remove1 r (armed_r y),
               cancels_r := (if rr_stop (recvs c1 r) \<and> \<not> rr_stop (recvs (cy_chan y) r)
                             then r # cancels_r y else cancels_r y),
               cy_threads := cy_threads y @ [actions_run a],
               delivered := delivered y @ handed a c1\<rparr>))"
| "chan_exec (TrySend v) y =
     (case try_send (cy_chan y) v True of (res, a, c1) \<Rightarrow>
        Some (y\<lparr>cy_chan := c1, cy_threads := cy_threads y @ [actions_run a],
          offered := offered y @ [v], delivered := delivered y @ handed a c1\<rparr>))"
| "chan_exec TryRecv y =
     (case try_recv (cy_chan y) True of (res, a, c1) \<Rightarrow>
        Some (y\<lparr>cy_chan := c1, cy_threads := cy_threads y @ [actions_run a],
          delivered := delivered y @ (case res of None \<Rightarrow> [] | Some v \<Rightarrow> [v])\<rparr>))"
| "chan_exec Close y =
     (case chan_close (cy_chan y) of None \<Rightarrow> None
      | Some (ks, c1) \<Rightarrow> Some (y\<lparr>cy_chan := c1, cy_threads := cy_threads y @ [ks]\<rparr>))"
| "chan_exec (CallbackSend s) y =
     (if s \<notin> set (started_s y) then None
      else Some (y\<lparr>cy_chan := send_request_stop s (cy_chan y), cancels_s := s # cancels_s y\<rparr>))"
| "chan_exec (CancelSend s) y =
     (if s \<notin> set (cancels_s y) then None
      else case cancel_send (cy_chan y) s of None \<Rightarrow> None
         | Some (ks, c1) \<Rightarrow> Some (y\<lparr>cy_chan := c1, cancels_s := remove1 s (cancels_s y),
             cy_threads := cy_threads y @ [ks]\<rparr>))"
| "chan_exec (Finish i) y =
     (if i \<ge> length (cy_threads y) then None
      else case cy_threads y ! i of [] \<Rightarrow> None
         | k # ks \<Rightarrow> (case chan_complete k (cy_chan y) of (c1, g) \<Rightarrow>
             Some (y\<lparr>cy_chan := c1, cy_threads := (cy_threads y)[i := ks], cy_log := cy_log y @ g\<rparr>)))"

fun chan_run :: "'v cmd list \<Rightarrow> 'v csys \<Rightarrow> 'v csys option" where
  "chan_run [] y = Some y"
| "chan_run (m # ms) y = (case chan_exec m y of None \<Rightarrow> None | Some z \<Rightarrow> chan_run ms z)"

lemma remove1_as_split: "x \<in> set xs \<Longrightarrow> \<exists>as bs. xs = as @ x # bs \<and> as @ bs = remove1 x xs"
  using remove1_split by metis

lemma chan_exec_step: "chan_exec m y = Some z \<Longrightarrow> chan_step y z"
proof (cases m)
  case (NewSend s v)
  moreover assume "chan_exec m y = Some z"
  ultimately show ?thesis
    using chan_step.new_send [of s y _ v False True "[]" True]
    by (auto simp: send_op_start_def install_send_callback_def send_record_new_def split: if_splits)
next
  case (NewRecv r)
  moreover assume "chan_exec m y = Some z"
  ultimately show ?thesis
    using chan_step.new_recv [of r y _ False True "[]" True]
    by (auto simp: recv_op_start_def install_recv_callback_def recv_record_new_def split: if_splits)
next
  case (EnterSend s late ok)
  moreover assume run: "chan_exec m y = Some z"
  ultimately have armed: "s \<in> set (armed_s y)" by (auto split: if_splits)
  then obtain as bs where sp: "armed_s y = as @ s # bs" and rest: "as @ bs = remove1 s (armed_s y)"
    using remove1_as_split by metis
  obtain b a c1 where op: "start_send (cy_chan y) s late ok = Some (b, a, c1)"
    using run armed EnterSend by (auto split: option.splits)
  show ?thesis using chan_step.enter_send [OF sp op] run armed
    unfolding EnterSend rest by (simp add: op)
next
  case (EnterRecv r late ok)
  moreover assume run: "chan_exec m y = Some z"
  ultimately have armed: "r \<in> set (armed_r y)" by (auto split: if_splits)
  then obtain as bs where sp: "armed_r y = as @ r # bs" and rest: "as @ bs = remove1 r (armed_r y)"
    using remove1_as_split by metis
  obtain b a c1 where op: "start_recv (cy_chan y) r late ok = Some (b, a, c1)"
    using run armed EnterRecv by (auto split: option.splits)
  show ?thesis using chan_step.enter_recv [OF sp op] run armed
    unfolding EnterRecv rest by (simp add: op)
next
  case (CancelSend s)
  moreover assume run: "chan_exec m y = Some z"
  ultimately have armed: "s \<in> set (cancels_s y)" by (auto split: if_splits)
  then obtain as bs where sp: "cancels_s y = as @ s # bs" and rest: "as @ bs = remove1 s (cancels_s y)"
    using remove1_as_split by metis
  obtain ks c1 where op: "cancel_send (cy_chan y) s = Some (ks, c1)"
    using run armed CancelSend by (auto split: option.splits)
  show ?thesis using chan_step.do_cancel_send [OF sp op] run armed
    unfolding CancelSend rest by (simp add: op)
next
  case TryRecv
  moreover assume "chan_exec m y = Some z"
  ultimately show ?thesis
    using chan_step.do_try_recv [of y True] by (auto split: prod.splits)
next
  case (Finish i)
  moreover assume "chan_exec m y = Some z"
  ultimately show ?thesis
    using id_take_nth_drop [of i "cy_threads y"] chan_step.finish [of y "take i (cy_threads y)" _ _ "drop (Suc i) (cy_threads y)"]
    by (auto split: if_splits list.splits prod.splits simp: upd_conv_take_nth_drop)
qed (auto split: if_splits option.splits prod.splits intro: chan_step.intros)

lemma chan_run_reachable: "chan_run ms y = Some z \<Longrightarrow> chan_reachable cap y \<Longrightarrow> chan_reachable cap z"
proof (induction ms arbitrary: y)
  case (Cons m ms)
  obtain x where x: "chan_exec m y = Some x" "chan_run ms x = Some z"
    using Cons.prems(1) by (auto split: option.splits)
  have "chan_reachable cap x"
    by (rule chan_reachable.step [OF Cons.prems(2) chan_exec_step [OF x(1)]])
  with x(2) show ?case by (rule Cons.IH)
qed simp

text \<open>
  A run over a channel of capacity one: a buffered send, a parked send, a third send whose
  stop callback fires while it is entering, a receive that promotes the parked sender, the
  completions, and the late cancellation.
\<close>

definition demo_cmds :: "nat cmd list" where
  "demo_cmds = [NewSend 0 5, EnterSend 0 False True, NewSend 1 7, EnterSend 1 False True,
     NewSend 2 9, EnterSend 2 True True, TryRecv, Finish 1, Finish 6, CancelSend 2, TrySend 11]"

lemma demo_cmds_run:
  "\<exists>y. chan_run demo_cmds (csys_init 1) = Some y \<and> delivered y = [5] \<and> offered y = [5, 7, 9, 11] \<and>
     ch_buffer (cy_chan y) = [7] \<and> completed_s (cy_log y) = [0, 1] \<and> sr_stop (sends (cy_chan y) 2)
     \<and> cancels_s y = []"
  by (simp add: demo_cmds_def csys_init_def channel_new_def start_send_def rq_defs rq_remove_def
        rq_find_step try_recv_def try_send_def promote_one_send_locked_def cancel_send_def
        send_finish_def chan_op_defs numeral_eq_Suc)

lemma demo_reachable:
  "\<exists>y. chan_reachable 1 y \<and> delivered y = [5 :: nat] \<and> offered y = [5, 7, 9, 11] \<and>
     ch_buffer (cy_chan y) = [7] \<and> completed_s (cy_log y) = [0, 1] \<and> sr_stop (sends (cy_chan y) 2)
     \<and> cancels_s y = []"
  using demo_cmds_run chan_run_reachable [OF _ chan_reachable.start] by metis

section \<open>Guarantees\<close>

text \<open>
  C1. First in, first out: in every reachable state the values handed to receivers so far,
  followed by the buffered values and the values of the parked senders, form a subsequence
  of the values offered to the channel, in the order in which they were offered.  No value
  is duplicated, invented or reordered, whatever the interleaving of sends, receives,
  cancellations, \<open>close\<close> and \<open>request_stop\<close>.
\<close>

theorem channel_fifo:
  assumes "chan_reachable cap y"
  shows "subseq (delivered y @ ch_buffer (cy_chan y) @
           map (take_value (cy_chan y)) (rq.items (pending_sends (cy_chan y)))) (offered y)"
  using chan_invD(5) [OF chan_reachable_inv [OF assms]] by (simp add: chan_order_def)

theorem channel_fifo_witness:
  "\<exists>y :: nat csys. chan_reachable 1 y \<and> delivered y = [5] \<and>
     subseq ([5, 7] @ map (take_value (cy_chan y)) (rq.items (pending_sends (cy_chan y)))) [5, 7, 9, 11]"
proof -
  obtain y :: "nat csys" where y: "chan_reachable 1 y" "delivered y = [5]" "offered y = [5, 7, 9, 11]"
    "ch_buffer (cy_chan y) = [7]" "completed_s (cy_log y) = [0, 1]" "sr_stop (sends (cy_chan y) 2)"
    "cancels_s y = []"
    using demo_reachable by blast
  then show ?thesis using channel_fifo [OF y(1)] by auto
qed

text \<open>
  C2. Exactly one completion: no started send or receive operation is ever signalled twice,
  and an operation that is neither parked, nor about to enter its critical section, nor
  among the completions still to be performed has been signalled.
\<close>

theorem channel_completes_once:
  assumes "chan_reachable cap y"
  shows "distinct (completed_s (cy_log y)) \<and> distinct (completed_r (cy_log y)) \<and>
    set (started_s y) = set (armed_s y) \<union> set (rq.items (pending_sends (cy_chan y)))
      \<union> set (work_s (cy_threads y)) \<union> set (completed_s (cy_log y)) \<and>
    set (started_r y) = set (armed_r y) \<union> set (rq.items (pending_recvs (cy_chan y)))
      \<union> set (work_r (cy_threads y)) \<union> set (completed_r (cy_log y)) \<and>
    set (completed_s (cy_log y)) \<inter> set (rq.items (pending_sends (cy_chan y))) = {} \<and>
    set (completed_r (cy_log y)) \<inter> set (rq.items (pending_recvs (cy_chan y))) = {}"
  using chan_invD(2) [OF chan_reachable_inv [OF assms]]
  by (auto simp: chan_owned_def owners_s_def owners_r_def)

theorem channel_completes_once_witness:
  "\<exists>y :: nat csys. chan_reachable 1 y \<and> completed_s (cy_log y) = [0, 1] \<and>
     distinct (completed_s (cy_log y)) \<and> {0, 1} \<subseteq> set (started_s y) \<and>
     set (completed_s (cy_log y)) \<inter> set (rq.items (pending_sends (cy_chan y))) = {}"
proof -
  obtain y :: "nat csys" where y: "chan_reachable 1 y" "delivered y = [5]" "offered y = [5, 7, 9, 11]"
    "ch_buffer (cy_chan y) = [7]" "completed_s (cy_log y) = [0, 1]" "sr_stop (sends (cy_chan y) 2)"
    "cancels_s y = []"
    using demo_reachable by blast
  then show ?thesis using channel_completes_once [OF y(1)] by auto
qed

text \<open>
  C3. The buffer never exceeds the capacity, a receiver is never parked while a value is
  buffered or a sender is parked, and once the channel is closed or stopped no operation
  is parked any more (and a stopped channel has dropped its buffer).
\<close>

theorem channel_bounded_and_no_lost_wakeup:
  assumes "chan_reachable cap y"
  shows "length (ch_buffer (cy_chan y)) \<le> cap \<and>
    (rq.items (pending_recvs (cy_chan y)) = [] \<or>
       ch_buffer (cy_chan y) = [] \<and> rq.items (pending_sends (cy_chan y)) = []) \<and>
    (ch_closed (cy_chan y) \<or> ch_stopped (cy_chan y) \<longrightarrow>
       rq.items (pending_sends (cy_chan y)) = [] \<and> rq.items (pending_recvs (cy_chan y)) = []) \<and>
    (ch_stopped (cy_chan y) \<longrightarrow> ch_buffer (cy_chan y) = [])"
  using chan_invD(1) [OF chan_reachable_inv [OF assms]] chan_reachable_capacity [OF assms]
  by (auto simp: chan_shape_def Let_def)

theorem channel_bounded_and_no_lost_wakeup_witness:
  "\<exists>y :: nat csys. chan_reachable 1 y \<and> ch_buffer (cy_chan y) = [7] \<and>
     rq.items (pending_recvs (cy_chan y)) = []"
proof -
  obtain y :: "nat csys" where y: "chan_reachable 1 y" "delivered y = [5]" "offered y = [5, 7, 9, 11]"
    "ch_buffer (cy_chan y) = [7]" "completed_s (cy_log y) = [0, 1]" "sr_stop (sends (cy_chan y) 2)"
    "cancels_s y = []"
    using demo_reachable by blast
  then show ?thesis using channel_bounded_and_no_lost_wakeup [OF y(1)] by auto
qed

text \<open>
  C4. Cancellation is never lost: an operation whose stop callback has run to its end is not
  parked, even when the callback fires while the operation is entering its critical section.
\<close>

theorem channel_cancel_not_lost:
  assumes "chan_reachable cap y"
  shows "(\<forall>s. sr_stop (sends (cy_chan y) s) \<and> s \<notin> set (cancels_s y) \<longrightarrow>
            s \<notin> set (rq.items (pending_sends (cy_chan y)))) \<and>
         (\<forall>r. rr_stop (recvs (cy_chan y) r) \<and> r \<notin> set (cancels_r y) \<longrightarrow>
            r \<notin> set (rq.items (pending_recvs (cy_chan y))))"
  using chan_invD(4) [OF chan_reachable_inv [OF assms]] by (auto simp: chan_cancel_def)


theorem channel_cancel_not_lost_witness:
  "\<exists>y :: nat csys. chan_reachable 1 y \<and> sr_stop (sends (cy_chan y) 2) \<and>
     2 \<notin> set (rq.items (pending_sends (cy_chan y)))"
proof -
  obtain y :: "nat csys" where y: "chan_reachable 1 y" "delivered y = [5]" "offered y = [5, 7, 9, 11]"
    "ch_buffer (cy_chan y) = [7]" "completed_s (cy_log y) = [0, 1]" "sr_stop (sends (cy_chan y) 2)"
    "cancels_s y = []"
    using demo_reachable by blast
  then show ?thesis using channel_cancel_not_lost [OF y(1)] by auto
qed

end
