(* ===== verification/IO_Buffer.thy ===== *)
theory IO_Buffer
  imports Forge_Prelude "HOL-Library.Word"
begin

text \<open>
  Byte buffers (\<open>include/forge/io/buffer.hpp\<close>).

  Memory is a function from addresses to bytes and a buffer is an address and a size, so
  that overlapping buffers are represented: \<open>memmove\<close> reads all its source bytes before
  it writes.  The main result is about the buffer-sequence form of \<open>buffer_copy\<close>: it ends,
  it copies the shorter of the two byte counts, it scatters exactly that prefix of the
  gathered source over the destinations, and it writes nowhere else.
\<close>

section \<open>Memory and buffers\<close>

type_synonym byte = "8 word"
type_synonym mem = "addr \<Rightarrow> byte"

record buffer =
  buf_data :: addr
  buf_size :: nat

definition buffer_at :: "addr \<Rightarrow> nat \<Rightarrow> buffer" where
  "buffer_at a n = \<lparr>buf_data = a, buf_size = n\<rparr>"

definition null_buffer :: buffer where
  "null_buffer = \<lparr>buf_data = 0, buf_size = 0\<rparr>"

definition buf_empty :: "buffer \<Rightarrow> bool" where
  "buf_empty b \<longleftrightarrow> buf_size b = 0"

definition size_add :: "nat \<Rightarrow> nat \<Rightarrow> nat" where
  "size_add a b = (a + b) mod (size_max + 1)"

fun buffer_size :: "buffer list \<Rightarrow> nat \<Rightarrow> nat" where
  "buffer_size [] tot = tot"
| "buffer_size (b # bs) tot = buffer_size bs (size_add tot (buf_size b))"

definition buffer_empty :: "buffer list \<Rightarrow> bool" where
  "buffer_empty bs \<longleftrightarrow> buffer_size bs 0 = 0"

definition buffer_prefix :: "nat \<Rightarrow> buffer \<Rightarrow> buffer" where
  "buffer_prefix n b = buffer_at (buf_data b) (min n (buf_size b))"

definition buf_advance :: "buffer \<Rightarrow> nat \<Rightarrow> buffer" where
  "buf_advance b n = buffer_at (buf_data b + n) (buf_size b - n)"

definition memmove :: "addr \<Rightarrow> addr \<Rightarrow> nat \<Rightarrow> mem \<Rightarrow> mem" where
  "memmove d s n m = (\<lambda>a. if d \<le> a \<and> a < d + n then m (s + (a - d)) else m a)"

section \<open>Copying\<close>

definition buffer_copy :: "buffer \<Rightarrow> buffer \<Rightarrow> mem \<Rightarrow> nat \<times> mem" where
  "buffer_copy dest source m =
     (let count = min (buf_size dest) (buf_size source)
      in (count, if count \<noteq> 0 then memmove (buf_data dest) (buf_data source) count m else m))"

text \<open>
  \<open>refill\<close> is each of the two inner loops: it advances to the next buffer that is not
  empty, and gives \<open>None\<close> where the source returns because the sequence is exhausted.
\<close>

fun refill :: "bool \<Rightarrow> buffer \<Rightarrow> buffer list \<Rightarrow> (buffer \<times> buffer list) option" where
  "refill hv b [] = (if \<not> hv \<or> buf_empty b then None else Some (b, []))"
| "refill hv b (x # xs) = (if \<not> hv \<or> buf_empty b then refill True x xs else Some (b, x # xs))"

definition pend_weight :: "bool \<Rightarrow> buffer \<Rightarrow> buffer list \<Rightarrow> nat" where
  "pend_weight hv b bs = length bs + (if hv \<and> \<not> buf_empty b then 1 else 0)"

lemma refill_weight:
  "refill hv b bs = Some (b1, bs1) \<Longrightarrow> length bs1 + 1 \<le> pend_weight hv b bs \<and> \<not> buf_empty b1"
  by (induction hv b bs rule: refill.induct) (auto simp: pend_weight_def split: if_splits)

function copy_loop ::
  "mem \<Rightarrow> bool \<Rightarrow> buffer \<Rightarrow> buffer list \<Rightarrow> bool \<Rightarrow> buffer \<Rightarrow> buffer list \<Rightarrow> nat \<Rightarrow> nat \<times> mem" where
  "copy_loop m have_dest dest dests have_source source sources tot =
     (case refill have_dest dest dests of
        None \<Rightarrow> (tot, m)
      | Some (d, ds) \<Rightarrow>
          (case refill have_source source sources of
             None \<Rightarrow> (tot, m)
           | Some (s, ss) \<Rightarrow>
               (let copied = fst (buffer_copy d s m)
                in copy_loop (snd (buffer_copy d s m)) True (buf_advance d copied) ds
                     True (buf_advance s copied) ss (size_add tot copied))))"
  by pat_completeness auto
termination
proof (relation "measure (\<lambda>(m, hv, d, ds, hw, s, ss, t). pend_weight hv d ds + pend_weight hw s ss)",
       goal_cases)
  case (2 m have_dest dest dests have_source source sources tot p d ds q s ss n)
  have "length ds + 1 \<le> pend_weight have_dest dest dests" "\<not> buf_empty d"
    using refill_weight 2(1,2) by auto
  moreover have "length ss + 1 \<le> pend_weight have_source source sources" "\<not> buf_empty s"
    using refill_weight 2(3,4) by auto
  ultimately show ?case
    using 2(5) by (auto simp: pend_weight_def buffer_copy_def buf_advance_def buf_empty_def buffer_at_def Let_def min_def split: if_splits)
qed simp

declare copy_loop.simps [simp del]

definition buffer_copy_seq :: "buffer list \<Rightarrow> buffer list \<Rightarrow> mem \<Rightarrow> nat \<times> mem" where
  "buffer_copy_seq dests sources m =
     copy_loop m False null_buffer dests False null_buffer sources 0"

definition buffer_copy_gather :: "buffer \<Rightarrow> buffer list \<Rightarrow> mem \<Rightarrow> nat \<times> mem" where
  "buffer_copy_gather dest sources m = buffer_copy_seq [dest] sources m"

definition buffer_copy_scatter :: "buffer list \<Rightarrow> buffer \<Rightarrow> mem \<Rightarrow> nat \<times> mem" where
  "buffer_copy_scatter dests source m = buffer_copy_seq dests [source] m"

section \<open>What is in a buffer\<close>

definition buf_addrs :: "buffer \<Rightarrow> addr list" where
  "buf_addrs b = [buf_data b ..< buf_data b + buf_size b]"

definition seq_addrs :: "buffer list \<Rightarrow> addr list" where
  "seq_addrs bs = concat (map buf_addrs bs)"

definition pend :: "bool \<Rightarrow> buffer \<Rightarrow> buffer list \<Rightarrow> buffer list" where
  "pend hv b bs = (if hv then b # bs else bs)"

lemma buf_addrs_advance:
  "n \<le> buf_size b \<Longrightarrow> buf_addrs b = [buf_data b ..< buf_data b + n] @ buf_addrs (buf_advance b n)"
  using upt_add_eq_append [of "buf_data b" "buf_data b + n" "buf_size b - n"]
  by (simp add: buf_addrs_def buf_advance_def buffer_at_def)

lemma seq_addrs_simps [simp]:
  "seq_addrs [] = []" "seq_addrs (b # bs) = buf_addrs b @ seq_addrs bs"
  by (simp_all add: seq_addrs_def)

lemma buf_addrs_empty [simp]: "buf_empty b \<Longrightarrow> buf_addrs b = []"
  by (simp add: buf_empty_def buf_addrs_def)

lemma length_buf_addrs [simp]: "length (buf_addrs b) = buf_size b"
  by (simp add: buf_addrs_def)

lemma pend_simps [simp]: "pend True b bs = b # bs" "pend False b bs = bs"
  by (simp_all add: pend_def)

lemma refill_addrs:
  "refill hv b bs = Some (b1, bs1) \<Longrightarrow> seq_addrs (pend hv b bs) = buf_addrs b1 @ seq_addrs bs1"
  by (induction hv b bs rule: refill.induct) (auto simp: pend_def split: if_splits)

lemma refill_none: "refill hv b bs = None \<Longrightarrow> seq_addrs (pend hv b bs) = []"
  by (induction hv b bs rule: refill.induct) (auto simp: pend_def split: if_splits)

lemma map_memmove_dest: "map (memmove d s n m) [d ..< d + n] = map m [s ..< s + n]"
  by (rule nth_equalityI) (auto simp: memmove_def)

lemma memmove_frame: "a \<notin> {d ..< d + n} \<Longrightarrow> memmove d s n m a = m a"
  by (auto simp: memmove_def)

lemma buffer_copy_simps:
  "fst (buffer_copy d s m) = min (buf_size d) (buf_size s)"
  "snd (buffer_copy d s m) = memmove (buf_data d) (buf_data s) (min (buf_size d) (buf_size s)) m"
  by (auto simp: buffer_copy_def memmove_def fun_eq_iff Let_def)

lemma size_add_le: "size_add a b \<le> a + b"
  by (simp add: size_add_def)

lemma size_add_exact: "a + b \<le> size_max \<Longrightarrow> size_add a b = a + b"
  by (simp add: size_add_def)

lemma size_add_assoc: "size_add (size_add a b) c = size_add a (b + c)"
  by (simp add: size_add_def mod_add_left_eq add.assoc)

section \<open>The loop over two sequences\<close>

lemma copy_loop_count:
  "fst (copy_loop m hv d ds hw s ss tot) mod (size_max + 1) =
     size_add tot (min (length (seq_addrs (pend hv d ds))) (length (seq_addrs (pend hw s ss))))"
proof (induction m hv d ds hw s ss tot rule: copy_loop.induct)
  case (1 m hv d ds hw s ss tot)
  show ?case
  proof (cases "refill hv d ds = None \<or> refill hw s ss = None")
    case True
    then show ?thesis
      by (auto simp: copy_loop.simps [of m hv] size_add_def dest: refill_none split: option.splits)
  next
    case False
    then obtain d1 ds1 s1 ss1 where r: "refill hv d ds = Some (d1, ds1)" "refill hw s ss = Some (s1, ss1)"
      by auto
    define c where "c = min (buf_size d1) (buf_size s1)"
    have len: "min (length (seq_addrs (pend hv d ds))) (length (seq_addrs (pend hw s ss))) =
      c + min (length (seq_addrs (buf_advance d1 c # ds1))) (length (seq_addrs (buf_advance s1 c # ss1)))"
      using refill_addrs [OF r(1)] refill_addrs [OF r(2)]
      by (auto simp: c_def buf_advance_def buffer_at_def min_def)
    have "copy_loop m hv d ds hw s ss tot =
        copy_loop (snd (buffer_copy d1 s1 m)) True (buf_advance d1 c) ds1 True (buf_advance s1 c) ss1
          (size_add tot c)"
      using r by (simp add: copy_loop.simps [of m hv] buffer_copy_simps c_def Let_def)
    then show ?thesis
      using 1 [OF r(1) refl r(2) refl] len by (simp add: buffer_copy_simps c_def size_add_assoc)
  qed
qed

lemma copy_loop_effect:
  "copy_loop m hv d ds hw s ss tot = (t, m') \<Longrightarrow>
   A = seq_addrs (pend hv d ds) \<Longrightarrow> S = seq_addrs (pend hw s ss) \<Longrightarrow>
   distinct A \<Longrightarrow> set A \<inter> set S = {} \<Longrightarrow> n = min (length A) (length S) \<Longrightarrow>
   map m' (take n A) = map m (take n S) \<and> (\<forall>a. a \<notin> set (take n A) \<longrightarrow> m' a = m a)"
proof (induction m hv d ds hw s ss tot arbitrary: A S n rule: copy_loop.induct)
  case (1 m hv d ds hw s ss tot)
  show ?case
  proof (cases "refill hv d ds = None \<or> refill hw s ss = None")
    case True
    then have "n = 0" "m' = m" using 1(2-) refill_none
      by (auto simp: copy_loop.simps [of m hv] split: option.splits)
    then show ?thesis by simp
  next
    case False
    then obtain d1 ds1 s1 ss1 where r: "refill hv d ds = Some (d1, ds1)" "refill hw s ss = Some (s1, ss1)"
      by auto
    define c where "c = min (buf_size d1) (buf_size s1)"
    define A1 where "A1 = seq_addrs (buf_advance d1 c # ds1)"
    define S1 where "S1 = seq_addrs (buf_advance s1 c # ss1)"
    define Dc where "Dc = [buf_data d1 ..< buf_data d1 + c]"
    define Sc where "Sc = [buf_data s1 ..< buf_data s1 + c]"
    define m1 where "m1 = memmove (buf_data d1) (buf_data s1) c m"
    have A: "A = Dc @ A1" and S: "S = Sc @ S1"
      using refill_addrs [OF r(1)] refill_addrs [OF r(2)] buf_addrs_advance [of c d1] buf_addrs_advance [of c s1]
      by (simp_all add: 1(3,4) c_def A1_def S1_def Dc_def Sc_def)
    have lens: "length Dc = c" "length Sc = c" by (simp_all add: Dc_def Sc_def)
    have run: "copy_loop m1 True (buf_advance d1 c) ds1 True (buf_advance s1 c) ss1 (size_add tot c) = (t, m')"
      using 1(2) r by (simp add: copy_loop.simps [of m hv] buffer_copy_simps c_def m1_def Let_def)
    define k where "k = min (length A1) (length S1)"
    have n: "n = c + k" using 1(7) by (simp add: A S lens k_def)
    have IH: "map m' (take k A1) = map m1 (take k S1) \<and> (\<forall>a. a \<notin> set (take k A1) \<longrightarrow> m' a = m1 a)"
      using 1(1) [OF r(1) refl r(2) refl, of c A1 S1 k] run 1(5,6)
      by (auto simp: buffer_copy_simps c_def m1_def A S A1_def S1_def k_def)
    have m1S: "map m1 (take k S1) = map m (take k S1)"
      using 1(6) by (auto simp: A S m1_def Dc_def intro!: memmove_frame dest: in_set_takeD)
    have "\<forall>a \<in> set Dc. m' a = m1 a"
      using IH 1(5) by (auto simp: A dest: in_set_takeD)
    then have "map m' Dc = map m1 Dc" by simp
    also have "\<dots> = map m Sc" by (simp add: Dc_def Sc_def m1_def map_memmove_dest)
    finally have "map m' (take n A) = map m (take n S)"
      using IH m1S by (simp add: A S n lens)
    moreover have "m' a = m a" if "a \<notin> set (take n A)" for a
    proof -
      have "a \<notin> set (take k A1)" "a \<notin> set Dc" using that by (auto simp: A n lens)
      then have "m' a = m1 a" using IH by blast
      also have "\<dots> = m a" using \<open>a \<notin> set Dc\<close> unfolding m1_def Dc_def by (intro memmove_frame) simp
      finally show ?thesis .
    qed
    ultimately show ?thesis by blast
  qed
qed

lemma copy_loop_fits: "tot \<le> size_max \<Longrightarrow> fst (copy_loop m hv d ds hw s ss tot) \<le> size_max"
proof (induction m hv d ds hw s ss tot rule: copy_loop.induct)
  case (1 m hv d ds hw s ss tot)
  have "size_add a b \<le> size_max" for a b
    unfolding size_add_def using mod_less_divisor [of "size_max + 1" "a + b"] by simp
  then show ?case
    using 1 by (auto simp: copy_loop.simps [of m hv] Let_def split: option.splits)
qed

text \<open>
  C5. Scatter/gather copy: for destinations that do not overlap each other or the sources,
  the sequence form of \<open>buffer_copy\<close> returns the smaller of the two byte counts, the
  destinations then hold that prefix of the gathered source bytes followed by their old
  contents, and no byte outside that prefix of the destinations changes.
\<close>

theorem buffer_copy_seq_correct:
  assumes "buffer_copy_seq dests sources m = (n, m')"
    and "distinct (seq_addrs dests)" and "set (seq_addrs dests) \<inter> set (seq_addrs sources) = {}"
    and "min (length (seq_addrs dests)) (length (seq_addrs sources)) \<le> size_max"
  shows "n = min (length (seq_addrs dests)) (length (seq_addrs sources)) \<and>
    map m' (seq_addrs dests) = take n (map m (seq_addrs sources)) @ drop n (map m (seq_addrs dests)) \<and>
    (\<forall>a. a \<notin> set (take n (seq_addrs dests)) \<longrightarrow> m' a = m a)"
proof -
  let ?A = "seq_addrs dests" and ?S = "seq_addrs sources"
  note run = assms(1) [unfolded buffer_copy_seq_def]
  have "n mod (size_max + 1) = min (length ?A) (length ?S)"
    using copy_loop_count [of m False null_buffer dests False null_buffer sources 0] run assms(4)
    by (simp add: size_add_def)
  moreover have "n \<le> size_max"
    using copy_loop_fits [of 0 m False null_buffer dests False null_buffer sources] run by simp
  ultimately have n: "n = min (length ?A) (length ?S)" by simp
  have eff: "map m' (take n ?A) = map m (take n ?S)" "\<forall>a. a \<notin> set (take n ?A) \<longrightarrow> m' a = m a"
    using copy_loop_effect [OF run _ _ assms(2,3) n] by simp_all
  have "set (drop n ?A) \<inter> set (take n ?A) = {}"
    using assms(2) set_take_disj_set_drop_if_distinct [of ?A n n] by blast
  then have "map m' (drop n ?A) = map m (drop n ?A)" using eff(2) by auto
  then have "map m' (take n ?A) @ map m' (drop n ?A) = take n (map m ?S) @ drop n (map m ?A)"
    using eff(1) by (simp only: take_map drop_map)
  then have "map m' ?A = take n (map m ?S) @ drop n (map m ?A)"
    by (simp only: append_take_drop_id flip: map_append)
  then show ?thesis using n eff(2) by blast
qed

theorem buffer_copy_seq_correct_witness:
  "\<exists>n m'. buffer_copy_seq [buffer_at 10 2, buffer_at 20 0, buffer_at 30 3] [buffer_at 0 1, buffer_at 1 3] of_nat
     = (n, m') \<and> n = 4 \<and> map m' [10, 11, 30, 31, 32, 33] = [0, 1, 2, 3, 32, 33]"
proof -
  let ?d = "[buffer_at 10 2, buffer_at 20 0, buffer_at 30 3]" and ?s = "[buffer_at 0 1, buffer_at 1 3]"
  obtain n m' where run: "buffer_copy_seq ?d ?s of_nat = (n, m')" by force
  have addrs: "seq_addrs ?d = [10, 11, 30, 31, 32]" "seq_addrs ?s = [0, 1, 2, 3]"
    by (simp_all add: seq_addrs_def buf_addrs_def buffer_at_def upt_rec)
  have "n = 4 \<and> map m' [10, 11, 30, 31, 32] = [0, 1, 2, 3, 32] \<and> m' 33 = 33"
    using buffer_copy_seq_correct [OF run] unfolding addrs by (auto simp: size_max_def)
  then show ?thesis using run by simp
qed

end
