(* ===== verification/IO_Result.thy ===== *)
theory IO_Result
  imports Forge_Prelude
begin

text \<open>
  Error codes, \<open>io_result\<close> and the typed errors of the I/O layer
  (\<open>include/forge/io/result.hpp\<close>, \<open>include/forge/io/error.hpp\<close>).
\<close>

section \<open>Error codes\<close>

text \<open>
  A \<open>std::error_code\<close> is a value and a category; it tests as an error when its value is
  not zero, and two codes are equal when both parts are.  The \<open>errc\<close> constants the sources
  use have the values of the Linux platform.
\<close>

datatype error_category = Generic | System

record error_code =
  ec_value :: int
  ec_category :: error_category

definition no_error :: error_code where
  "no_error = \<lparr>ec_value = 0, ec_category = System\<rparr>"

definition ec_bool :: "error_code \<Rightarrow> bool" where
  "ec_bool e \<longleftrightarrow> ec_value e \<noteq> 0"

datatype errc =
    Io_error
  | Bad_file_descriptor
  | Resource_unavailable_try_again
  | Bad_address
  | Value_too_large
  | Message_size
  | Operation_in_progress

fun errc_value :: "errc \<Rightarrow> int" where
  "errc_value Io_error = 5"
| "errc_value Bad_file_descriptor = 9"
| "errc_value Resource_unavailable_try_again = 11"
| "errc_value Bad_address = 14"
| "errc_value Value_too_large = 75"
| "errc_value Message_size = 90"
| "errc_value Operation_in_progress = 115"

definition make_error_code :: "errc \<Rightarrow> error_code" where
  "make_error_code c = \<lparr>ec_value = errc_value c, ec_category = Generic\<rparr>"

lemma make_error_code_bool [simp]: "ec_bool (make_error_code c)"
  by (cases c) (simp_all add: ec_bool_def make_error_code_def)

lemma no_error_bool [simp]: "\<not> ec_bool no_error"
  by (simp add: ec_bool_def no_error_def)

lemma make_error_code_inject [simp]: "make_error_code a = make_error_code b \<longleftrightarrow> a = b"
  by (cases a; cases b) (simp_all add: make_error_code_def)

section \<open>\<open>io_result\<close>\<close>

datatype io_status_kind = SValue | SEof | SError

record 'a io_result =
  res_status :: io_status_kind
  res_error :: error_code
  res_values :: 'a

definition io_make :: "error_code \<Rightarrow> 'a \<Rightarrow> 'a io_result" where
  "io_make e v = \<lparr>res_status = (if ec_bool e then SError else SValue), res_error = e, res_values = v\<rparr>"

definition io_success :: "'a \<Rightarrow> 'a io_result" where
  "io_success v = io_make no_error v"

definition io_failure :: "error_code \<Rightarrow> 'a \<Rightarrow> 'a io_result" where
  "io_failure e v = (io_make e v)\<lparr>res_status := SError\<rparr>"

definition io_end_of_file :: "'a \<Rightarrow> 'a io_result" where
  "io_end_of_file v = (io_make no_error v)\<lparr>res_status := SEof\<rparr>"

definition io_status :: "'a io_result \<Rightarrow> io_status_kind" where
  "io_status r = (if ec_bool (res_error r) then SError else res_status r)"

definition io_eof :: "'a io_result \<Rightarrow> bool" where
  "io_eof r \<longleftrightarrow> io_status r = SEof"

definition io_has_value :: "'a io_result \<Rightarrow> bool" where
  "io_has_value r \<longleftrightarrow> io_status r = SValue"

definition io_set_error :: "error_code \<Rightarrow> 'a io_result \<Rightarrow> 'a io_result" where
  "io_set_error e r = r\<lparr>res_error := e\<rparr>"

lemma io_result_simps [simp]:
  "io_status (io_success v) = SValue" "res_values (io_success v) = v"
  "io_status (io_failure e v) = SError" "res_values (io_failure e v) = v" "res_error (io_failure e v) = e"
  "io_status (io_end_of_file v) = SEof" "res_values (io_end_of_file v) = v"
  by (simp_all add: io_status_def io_success_def io_failure_def io_end_of_file_def io_make_def)

section \<open>Typed errors\<close>

datatype error_kind = Unknown | System_error | Invalid_handle | In_progress | Would_block

record io_error =
  err_kind :: error_kind
  err_code :: error_code

definition classify :: "error_code \<Rightarrow> error_kind" where
  "classify code =
     (if code = make_error_code Bad_file_descriptor then Invalid_handle
      else if code = make_error_code Operation_in_progress then In_progress
      else if code = make_error_code Resource_unavailable_try_again then Would_block
      else System_error)"

text \<open>An exception pointer is null, a \<open>std::system_error\<close> with its code, or anything else.\<close>

datatype exn = System_exn error_code | Other_exn

fun from_exception :: "exn option \<Rightarrow> io_error" where
  "from_exception None = \<lparr>err_kind = Unknown, err_code = no_error\<rparr>"
| "from_exception (Some (System_exn c)) = \<lparr>err_kind = classify c, err_code = c\<rparr>"
| "from_exception (Some Other_exn) = \<lparr>err_kind = Unknown, err_code = make_error_code Io_error\<rparr>"

text \<open>
  The typed adapters forward values and stop signals and convert an exception signal.
\<close>

datatype 'a typed_signal = TValue 'a | TError io_error | TStopped

datatype 'a untyped_signal = UValue 'a | UError "exn option" | UStopped

fun typed_receiver :: "'a untyped_signal \<Rightarrow> 'a typed_signal" where
  "typed_receiver (UValue v) = TValue v"
| "typed_receiver (UError ep) = TError (from_exception ep)"
| "typed_receiver UStopped = TStopped"

text \<open>
  The status of a result is decided by its error code first: whatever the status field
  says, a code that tests as an error gives \<open>error\<close>, so a result is exactly one of value,
  end of file and error; the three factories give their own status, \<open>failure\<close> even for a
  code that does not test as an error, and storing an error into any result makes it one.
\<close>

theorem io_result_trichotomy:
  "io_status (io_set_error (make_error_code c) r) = SError \<and>
   (io_has_value r \<or> io_eof r \<or> io_status r = SError) \<and> \<not> (io_has_value r \<and> io_eof r) \<and>
   (io_has_value (io_make e v) \<longleftrightarrow> \<not> ec_bool e) \<and> io_has_value (io_success v) \<and>
   io_eof (io_end_of_file v) \<and> io_status (io_failure e v) = SError \<and>
   io_status (io_set_error no_error (io_end_of_file v)) = SEof"
  by (cases "res_status r")
    (auto simp: io_status_def io_set_error_def io_has_value_def io_eof_def io_make_def io_success_def
      io_end_of_file_def io_failure_def)

text \<open>
  Typed errors separate the three failures a caller can act on from all others: a
  system error is classified as an invalid handle, an operation in progress or would-block
  exactly when its code is the generic code of that condition, its code is kept, a null
  exception gives no code and any other exception a diagnosable one.
\<close>

theorem typed_error_classification:
  "typed_receiver (UError (Some (System_exn c))) = TError \<lparr>err_kind = classify c, err_code = c\<rparr> \<and>
   (classify c = Invalid_handle \<longleftrightarrow> c = make_error_code Bad_file_descriptor) \<and>
   (classify c = In_progress \<longleftrightarrow> c = make_error_code Operation_in_progress) \<and>
   (classify c = Would_block \<longleftrightarrow> c = make_error_code Resource_unavailable_try_again) \<and>
   classify c \<noteq> Unknown \<and>
   ec_bool (err_code (from_exception (Some Other_exn))) \<and> \<not> ec_bool (err_code (from_exception None))"
  by (auto simp: classify_def)

end
