(* ===== verification/IO_Stream.thy ===== *)
theory IO_Stream
  imports IO_Buffer IO_Result
begin

text \<open>
  The synchronous stream algorithms of \<open>include/forge/io/stream.hpp\<close>.

  A reader is any \<open>read_some\<close> operation on a stream state; the locale \<open>read_source\<close> states
  what the algorithms \<open>read_exactly\<close> and \<open>read_until\<close> rely on, the locale \<open>write_sink\<close>
  the same for \<open>write_all\<close>.  Both are interpreted on the memory streams.  The loops are
  partial functions, because with an arbitrary stream a wrapped-around byte count could
  keep them running; under the contracts they return.
\<close>

section \<open>Readers, writers and the algorithms\<close>

type_synonym 's reader = "'s \<Rightarrow> buffer \<Rightarrow> mem \<Rightarrow> nat io_result \<times> 's \<times> mem"

text \<open>A writer may throw (\<open>None\<close>).\<close>

type_synonym 's writer = "'s \<Rightarrow> buffer \<Rightarrow> mem \<Rightarrow> (nat io_result \<times> 's \<times> mem) option"

definition short_transfer_error :: error_code where
  "short_transfer_error = make_error_code Io_error"

definition record_too_large_error :: error_code where
  "record_too_large_error = make_error_code Message_size"

partial_function (option) read_exactly_loop ::
  "'s reader \<Rightarrow> buffer \<Rightarrow> 's \<Rightarrow> mem \<Rightarrow> nat \<Rightarrow> (nat io_result \<times> 's \<times> mem) option" where
  "read_exactly_loop read_some out s m tot =
     (if \<not> tot < buf_size out then Some (io_success tot, s, m)
      else let r = read_some s (buffer_at (buf_data out + tot) (buf_size out - tot)) m;
               result = fst r; s1 = fst (snd r); m1 = snd (snd r);
               count = res_values result; tot1 = size_add tot count
           in if io_status result = SError then Some (io_failure (res_error result) tot1, s1, m1)
              else if tot1 = buf_size out then Some (io_success tot1, s1, m1)
              else if io_eof result \<or> count = 0 then Some (io_end_of_file tot1, s1, m1)
              else read_exactly_loop read_some out s1 m1 tot1)"

definition read_exactly ::
  "'s reader \<Rightarrow> 's \<Rightarrow> buffer \<Rightarrow> mem \<Rightarrow> (nat io_result \<times> 's \<times> mem) option" where
  "read_exactly read_some s out m = read_exactly_loop read_some out s m 0"

text \<open>For \<open>write_all\<close> the inner \<open>None\<close> is an exception that leaves the function.\<close>

partial_function (option) write_all_loop ::
  "'s writer \<Rightarrow> buffer \<Rightarrow> 's \<Rightarrow> mem \<Rightarrow> nat \<Rightarrow> (nat io_result \<times> 's \<times> mem) option option" where
  "write_all_loop write_some input s m tot =
     (if \<not> tot < buf_size input then Some (Some (io_success tot, s, m))
      else let r = write_some s (buffer_at (buf_data input + tot) (buf_size input - tot)) m
           in if r = None then Some None
              else let result = fst (the r); s1 = fst (snd (the r)); m1 = snd (snd (the r));
                       count = res_values result; tot1 = size_add tot count
                   in if io_status result = SError
                      then Some (Some (io_failure (res_error result) tot1, s1, m1))
                      else if count = 0
                      then Some (Some (io_failure short_transfer_error tot1, s1, m1))
                      else write_all_loop write_some input s1 m1 tot1)"

definition write_all ::
  "'s writer \<Rightarrow> 's \<Rightarrow> buffer \<Rightarrow> mem \<Rightarrow> (nat io_result \<times> 's \<times> mem) option option" where
  "write_all write_some s input m = write_all_loop write_some input s m 0"

text \<open>
  \<open>read_until\<close> reads one byte at a time through a local variable at address \<open>loc\<close>; the
  returned list is the string \<open>output\<close>.
\<close>

function read_until_loop ::
  "'s reader \<Rightarrow> addr \<Rightarrow> byte \<Rightarrow> nat \<Rightarrow> 's \<Rightarrow> mem \<Rightarrow> byte list \<Rightarrow> nat \<Rightarrow>
   nat io_result \<times> byte list \<times> 's \<times> mem" where
  "read_until_loop read_some loc delimiter max_bytes s m output tot =
     (if \<not> tot < max_bytes then (io_failure record_too_large_error tot, output, s, m)
      else let r = read_some s (buffer_at loc 1) (m(loc := 0));
               result = fst r; s1 = fst (snd r); m1 = snd (snd r);
               count = res_values result;
               tot1 = (if count > 0 then tot + 1 else tot);
               output1 = (if count > 0 then output @ [m1 loc] else output)
           in if io_status result = SError then (io_failure (res_error result) tot1, output1, s1, m1)
              else if count > 0 \<and> last output1 = delimiter then (io_success tot1, output1, s1, m1)
              else if io_eof result \<or> count = 0 then (io_end_of_file tot1, output1, s1, m1)
              else read_until_loop read_some loc delimiter max_bytes s1 m1 output1 tot1)"
  by pat_completeness auto
termination
  by (relation "measure (\<lambda>(rd, loc, d, mx, s, m, out, tot). mx - tot)") auto

declare read_until_loop.simps [simp del]

definition read_until ::
  "'s reader \<Rightarrow> 's \<Rightarrow> addr \<Rightarrow> byte \<Rightarrow> nat \<Rightarrow> mem \<Rightarrow> nat io_result \<times> byte list \<times> 's \<times> mem" where
  "read_until read_some s loc delimiter max_bytes m =
     read_until_loop read_some loc delimiter max_bytes s m [] 0"

text \<open>
  \<open>line\<close> is what a read up to a delimiter should return: the bytes up to and including the
  first delimiter, at most \<open>max\<close> of them, or everything there is.
\<close>

fun line :: "byte \<Rightarrow> nat \<Rightarrow> byte list \<Rightarrow> byte list" where
  "line d 0 bs = []"
| "line d (Suc n) [] = []"
| "line d (Suc n) (b # bs) = (if b = d then [b] else b # line d n bs)"

lemma line_Nil [simp]: "line d n [] = []"
  by (cases n) simp_all

lemma line_length: "d \<in> set (line d n bs) \<or> length (line d n bs) = min n (length bs)"
  by (induction d n bs rule: line.induct) auto

lemma line_step: "0 < n \<Longrightarrow> line d n (b # bs) = (if b = d then [b] else b # line d (n - 1) bs)"
  by (cases n) simp_all

section \<open>What the algorithms rely on\<close>

text \<open>
  \<open>content s m\<close> is what the stream will deliver before it reports anything but a value;
  \<open>ending s\<close> is what it reports then: end of file, an error after the last byte, or an error
  together with the last byte.  \<open>fits s A\<close> says that the addresses \<open>A\<close> are no storage of the
  stream.  A read delivers a prefix of the content, at least one byte if there is any and room
  for it, writes nothing else, reports a value while bytes are left, and reports the ending when
  there are none.  What follows a reported error is not constrained.
\<close>

datatype ending = Ends_eof | Fails_after error_code | Fails_with error_code

text \<open>The result that reports an ending, and the result of the read that delivers the last byte.\<close>

fun ended :: "ending \<Rightarrow> 'a io_result \<Rightarrow> bool" where
  "ended Ends_eof r \<longleftrightarrow> io_status r = SEof"
| "ended (Fails_after e) r \<longleftrightarrow> io_status r = SError \<and> res_error r = e"
| "ended (Fails_with e) r \<longleftrightarrow> io_status r = SError \<and> res_error r = e"

fun last_byte :: "ending \<Rightarrow> 'a io_result \<Rightarrow> bool" where
  "last_byte (Fails_with e) r \<longleftrightarrow> io_status r = SError \<and> res_error r = e"
| "last_byte k r \<longleftrightarrow> io_status r = SValue"

text \<open>
  What \<open>read_exactly\<close> of \<open>n\<close> bytes and \<open>read_until\<close> with the result \<open>line\<close> report, on \<open>k\<close> bytes
  of content with an ending.
\<close>

definition exactly_outcome :: "ending \<Rightarrow> nat \<Rightarrow> nat \<Rightarrow> 'a io_result \<Rightarrow> bool" where
  "exactly_outcome f k n r \<longleftrightarrow>
     (if n = 0 \<or> n < k then io_status r = SValue else if k = n then last_byte f r else ended f r)"

definition until_outcome :: "ending \<Rightarrow> nat \<Rightarrow> byte \<Rightarrow> nat \<Rightarrow> byte list \<Rightarrow> 'a io_result \<Rightarrow> bool" where
  "until_outcome f k d max_bytes l r \<longleftrightarrow>
     (if l \<noteq> [] \<and> length l = k \<and> (\<exists>e. f = Fails_with e) then ended f r
      else if d \<in> set l then io_status r = SValue
      else if length l = max_bytes then io_status r = SError \<and> res_error r = record_too_large_error
      else ended f r)"

locale read_source =
  fixes read_some :: "'s reader"
    and content :: "'s \<Rightarrow> mem \<Rightarrow> byte list"
    and fits :: "'s \<Rightarrow> addr set \<Rightarrow> bool"
    and ending :: "'s \<Rightarrow> ending"
  assumes fits_mono: "fits s A \<Longrightarrow> B \<subseteq> A \<Longrightarrow> fits s B"
    and fits_step: "fits s A \<Longrightarrow> read_some s out m = (r, s', m') \<Longrightarrow> fits s' A"
    and content_frame: "fits s A \<Longrightarrow> (\<And>a. a \<notin> A \<Longrightarrow> m' a = m a) \<Longrightarrow> content s m' = content s m"
    and read_bytes: "fits s (set (buf_addrs out)) \<Longrightarrow> read_some s out m = (r, s', m') \<Longrightarrow>
      res_values r \<le> buf_size out \<and> res_values r \<le> length (content s m) \<and>
      map m' (take (res_values r) (buf_addrs out)) = take (res_values r) (content s m) \<and>
      (io_status r \<noteq> SError \<longrightarrow> content s' m' = drop (res_values r) (content s m)) \<and>
      (\<forall>a. a \<notin> set (take (res_values r) (buf_addrs out)) \<longrightarrow> m' a = m a)"
    and read_progress: "fits s (set (buf_addrs out)) \<Longrightarrow> read_some s out m = (r, s', m') \<Longrightarrow>
      0 < buf_size out \<Longrightarrow> content s m \<noteq> [] \<Longrightarrow> 0 < res_values r"
    and read_value: "fits s (set (buf_addrs out)) \<Longrightarrow> read_some s out m = (r, s', m') \<Longrightarrow>
      res_values r < length (content s m) \<Longrightarrow> io_status r = SValue"
    and read_last: "fits s (set (buf_addrs out)) \<Longrightarrow> read_some s out m = (r, s', m') \<Longrightarrow>
      0 < buf_size out \<Longrightarrow> content s m \<noteq> [] \<Longrightarrow> res_values r = length (content s m) \<Longrightarrow> last_byte (ending s) r"
    and read_dry: "fits s (set (buf_addrs out)) \<Longrightarrow> read_some s out m = (r, s', m') \<Longrightarrow>
      0 < buf_size out \<Longrightarrow> content s m = [] \<Longrightarrow> ended (ending s) r"
    and ending_step: "fits s (set (buf_addrs out)) \<Longrightarrow> read_some s out m = (r, s', m') \<Longrightarrow>
      io_status r \<noteq> SError \<Longrightarrow> ending s' = ending s"
begin

definition moved :: "buffer \<Rightarrow> nat \<Rightarrow> nat \<Rightarrow> nat io_result \<Rightarrow> 's \<Rightarrow> mem \<Rightarrow> 's \<Rightarrow> mem \<Rightarrow> bool" where
  "moved out tot n r s m s' m' \<longleftrightarrow>
     map m' (take n (drop tot (buf_addrs out))) = take n (content s m) \<and>
     (io_status r \<noteq> SError \<longrightarrow> content s' m' = drop n (content s m)) \<and>
     (\<forall>a. a \<notin> set (take n (drop tot (buf_addrs out))) \<longrightarrow> m' a = m a)"

lemma moved_trans:
  assumes "moved out tot c r1 s m s1 m1" and "moved out (tot + c) k r s1 m1 s' m'"
    and "io_status r1 = SValue"
  shows "moved out tot (c + k) r s m s' m'"
proof -
  let ?D = "drop tot (buf_addrs out)" and ?E = "drop (tot + c) (buf_addrs out)"
  have split: "take (c + k) ?D = take c ?D @ take k ?E" by (simp add: take_add add.commute)
  have "distinct (take (c + k) ?D)" by (simp add: buf_addrs_def)
  then have "set (take c ?D) \<inter> set (take k ?E) = {}" unfolding split by simp
  then have "map m' (take c ?D) = map m1 (take c ?D)" using assms(2) by (auto simp: moved_def)
  then show ?thesis using assms unfolding moved_def split by (simp add: take_add add.commute)
qed

lemma read_sub:
  assumes "fits s (set (buf_addrs out))" "tot < buf_size out"
    and "read_some s (buffer_at (buf_data out + tot) (buf_size out - tot)) m = (r, s1, m1)"
  shows "fits s1 (set (buf_addrs out))" "res_values r \<le> buf_size out - tot"
    "res_values r \<le> length (content s m)" "moved out tot (res_values r) r s m s1 m1"
    "content s m \<noteq> [] \<Longrightarrow> 0 < res_values r"
    "res_values r < length (content s m) \<Longrightarrow> io_status r = SValue"
    "content s m \<noteq> [] \<Longrightarrow> res_values r = length (content s m) \<Longrightarrow> last_byte (ending s) r"
    "content s m = [] \<Longrightarrow> ended (ending s) r" "io_status r \<noteq> SError \<Longrightarrow> ending s1 = ending s"
proof -
  let ?sub = "buffer_at (buf_data out + tot) (buf_size out - tot)"
  have sub: "buf_addrs ?sub = drop tot (buf_addrs out)" "buf_size ?sub = buf_size out - tot"
    using assms(2) by (simp_all add: buf_addrs_def buffer_at_def drop_upt)
  have f: "fits s (set (buf_addrs ?sub))"
    using assms(1) by (rule fits_mono) (auto simp: sub dest: in_set_dropD)
  show "fits s1 (set (buf_addrs out))" using fits_step [OF assms(1,3)] .
  show "res_values r \<le> buf_size out - tot" "res_values r \<le> length (content s m)"
    "moved out tot (res_values r) r s m s1 m1"
    using read_bytes [OF f assms(3)] by (simp_all add: sub moved_def)
  show "content s m \<noteq> [] \<Longrightarrow> 0 < res_values r" using read_progress [OF f assms(3)] assms(2) by (simp add: sub)
  show "res_values r < length (content s m) \<Longrightarrow> io_status r = SValue" using read_value [OF f assms(3)] .
  show "content s m \<noteq> [] \<Longrightarrow> res_values r = length (content s m) \<Longrightarrow> last_byte (ending s) r"
    using read_last [OF f assms(3)] assms(2) by (simp add: sub)
  show "content s m = [] \<Longrightarrow> ended (ending s) r" using read_dry [OF f assms(3)] assms(2) by (simp add: sub)
  show "io_status r \<noteq> SError \<Longrightarrow> ending s1 = ending s" using ending_step [OF f assms(3)] .
qed

lemma ended_not_value: "ended f r \<Longrightarrow> io_status r \<noteq> SValue"
  by (cases f) auto

lemma last_byte_not_eof: "last_byte f r \<Longrightarrow> io_status r \<noteq> SEof"
  by (cases f) auto

text \<open>The last round of \<open>read_exactly\<close>: a result \<open>r'\<close> made from the result \<open>r\<close> of the read.\<close>

lemma exactly_last:
  assumes c: "c \<le> length xs" "c \<le> n" "0 < n" "xs \<noteq> [] \<Longrightarrow> 0 < c" and val: "c < length xs \<Longrightarrow> io_status r = SValue"
    and last: "xs \<noteq> [] \<Longrightarrow> c = length xs \<Longrightarrow> last_byte f r" and dry: "xs = [] \<Longrightarrow> ended f r" and stop: "io_status r = SValue \<Longrightarrow> c = n \<or> c = 0"
    and r': "r' = (if io_status r = SError then io_failure (res_error r) k else if c = n then io_success k else io_end_of_file k)"
  shows "exactly_outcome f (length xs) n r'"
proof -
  consider "xs = []" | "xs \<noteq> []" "c < length xs" | "xs \<noteq> []" "c = length xs" using c(1) by linarith
  then show ?thesis
  proof cases
    case 1
    then show ?thesis using dry [OF 1] c r' by (cases f) (simp_all add: exactly_outcome_def)
  next
    case 2
    then have "io_status r = SValue" "c = n" using val stop c(4) by auto
    then show ?thesis using 2 r' by (simp add: exactly_outcome_def)
  next
    case 3
    note lb = last [OF 3]
    show ?thesis
    proof (cases "io_status r = SError")
      case True
      then obtain e where "f = Fails_with e" "res_error r = e" using lb by (cases f) auto
      then show ?thesis using True r' 3 c by (simp add: exactly_outcome_def)
    next
      case False
      then have "io_status r = SValue" "last_byte f (io_success k)" using lb by (cases f; auto)+
      moreover from this have "c = n" using stop c(4) 3 by auto
      ultimately show ?thesis using r' 3 c(3) by (simp add: exactly_outcome_def)
    qed
  qed
qed

lemma exactly_shift: "exactly_outcome f (k - c) (n - c) r \<Longrightarrow> c \<le> k \<Longrightarrow> c < n \<Longrightarrow> exactly_outcome f k n r"
  by (auto simp: exactly_outcome_def split: if_splits)

lemma read_exactly_from:
  assumes "fits s (set (buf_addrs out))" "buf_size out \<le> size_max" "tot \<le> buf_size out"
    and "n = min (buf_size out - tot) (length (content s m))"
  shows "\<exists>r s' m'. read_exactly_loop read_some out s m tot = Some (r, s', m') \<and>
    res_values r = tot + n \<and> moved out tot n r s m s' m' \<and>
    exactly_outcome (ending s) (length (content s m)) (buf_size out - tot) r"
  using assms
proof (induction "buf_size out - tot" arbitrary: s m tot n rule: less_induct)
  case less
  show ?case
  proof (cases "tot < buf_size out")
    case False
    then show ?thesis using less(2-) by (auto simp: read_exactly_loop.simps [of _ out s] moved_def exactly_outcome_def)
  next
    case True
    obtain r s1 m1 where rd: "read_some s (buffer_at (buf_data out + tot) (buf_size out - tot)) m = (r, s1, m1)"
      by (metis prod_cases3)
    note rs = read_sub [OF less(2) True rd]
    define c where "c = res_values r"
    have tot1: "size_add tot c = tot + c"
      using rs(2) less(3) True by (intro size_add_exact) (simp add: c_def)
    note eq = read_exactly_loop.simps [of read_some out s m tot, unfolded rd Let_def fst_conv snd_conv,
      folded c_def, unfolded tot1]
    show ?thesis
    proof (cases "io_status r = SValue \<and> tot + c \<noteq> buf_size out \<and> c \<noteq> 0")
      case go: True
      define k where "k = min (buf_size out - (tot + c)) (length (content s1 m1))"
      have rest: "length (content s1 m1) = length (content s m) - c" "c \<le> length (content s m)"
        using rs(3,4) go by (auto simp: moved_def c_def)
      then have n: "n = c + k" using less(5) rs(2,3) by (auto simp: k_def c_def min_def)
      have le: "tot + c \<le> buf_size out" "buf_size out - (tot + c) < buf_size out - tot"
        using go rs(2) True by (auto simp: c_def)
      obtain r' s' m' where IH: "read_exactly_loop read_some out s1 m1 (tot + c) = Some (r', s', m')"
        "res_values r' = tot + c + k" "moved out (tot + c) k r' s1 m1 s' m'"
        "exactly_outcome (ending s1) (length (content s1 m1)) (buf_size out - (tot + c)) r'"
        using less(1) [OF le(2) rs(1) less(3) le(1) k_def] by blast
      have "moved out tot n r' s m s' m'" using moved_trans rs(4) IH(3) go unfolding n c_def by blast
      moreover have "exactly_outcome (ending s) (length (content s m)) (buf_size out - tot) r'"
      proof (rule exactly_shift [of _ _ c])
        have "ending s1 = ending s" using rs(9) go by simp
        then show "exactly_outcome (ending s) (length (content s m) - c) (buf_size out - tot - c) r'"
          using IH(4) unfolding rest(1) diff_diff_left by simp
        show "c < buf_size out - tot" using le go by linarith
      qed (rule rest(2))
      ultimately show ?thesis using IH(1,2) go True by (simp add: eq io_eof_def n)
    next
      case stop: False
      define r' where "r' = (if io_status r = SError then io_failure (res_error r) (tot + c)
        else if c = buf_size out - tot then io_success (tot + c) else io_end_of_file (tot + c))"
      have "io_status r \<noteq> SValue \<Longrightarrow> length (content s m) \<le> c" using rs(6) by (force simp: c_def)
      then have cn: "c = n"
        using stop rs(2,3,5,8) less(5) ended_not_value by (cases "content s m = []") (auto simp: c_def)
      have "read_exactly_loop read_some out s m tot = Some (r', s1, m1)"
        using stop True rs(2) unfolding r'_def by (cases "io_status r") (auto simp: eq io_eof_def c_def)
      moreover have "exactly_outcome (ending s) (length (content s m)) (buf_size out - tot) r'"
      proof (rule exactly_last [OF _ _ _ _ _ _ _ _ r'_def])
        show "c \<le> length (content s m)" "c \<le> buf_size out - tot" "0 < buf_size out - tot" using rs(2,3) True by (simp_all add: c_def)
        show "io_status r = SValue \<Longrightarrow> c = buf_size out - tot \<or> c = 0" using stop by auto
      qed (use rs(5-8) in \<open>simp_all add: c_def\<close>)
      moreover have "res_values r' = tot + c" "io_status r' \<noteq> SError \<longrightarrow> io_status r \<noteq> SError" by (simp_all add: r'_def)
      ultimately show ?thesis using rs(4) cn by (auto simp: c_def moved_def)
    qed
  qed
qed

lemma read_exactly_spec:
  assumes "fits s (set (buf_addrs out))" "buf_size out \<le> size_max"
    and "n = min (buf_size out) (length (content s m))"
  shows "\<exists>r s' m'. read_exactly read_some s out m = Some (r, s', m') \<and> res_values r = n \<and>
    map m' (take n (buf_addrs out)) = take n (content s m) \<and>
    (io_status r \<noteq> SError \<longrightarrow> content s' m' = drop n (content s m)) \<and>
    (\<forall>a. a \<notin> set (take n (buf_addrs out)) \<longrightarrow> m' a = m a) \<and>
    exactly_outcome (ending s) (length (content s m)) (buf_size out) r"
  using read_exactly_from [of s out 0 n m] assms by (auto simp: moved_def read_exactly_def)

lemma read_byte:
  assumes "fits s {loc}" "read_some s (buffer_at loc 1) (m(loc := 0)) = (r, s1, m1)"
  shows "fits s1 {loc}" "content s m = b # bs \<Longrightarrow> res_values r = 1 \<and> m1 loc = b \<and>
      (io_status r \<noteq> SError \<longrightarrow> content s1 m1 = bs) \<and> (if bs \<noteq> [] then io_status r = SValue else last_byte (ending s) r)"
    "content s m = [] \<Longrightarrow> res_values r = 0 \<and> (io_status r \<noteq> SError \<longrightarrow> content s1 m1 = []) \<and> ended (ending s) r"
    "io_status r \<noteq> SError \<Longrightarrow> ending s1 = ending s"
proof -
  have one: "buf_addrs (buffer_at loc 1) = [loc]" "buf_size (buffer_at loc 1) = 1"
    by (simp_all add: buf_addrs_def buffer_at_def)
  then have f: "fits s (set (buf_addrs (buffer_at loc 1)))" using assms(1) by simp
  have same: "content s (m(loc := 0)) = content s m" by (rule content_frame [OF assms(1)]) simp
  note rb = read_bytes [OF f assms(2), unfolded one same] and rp = read_progress [OF f assms(2), unfolded one same]
    and rv = read_value [OF f assms(2), unfolded same] and rd = read_dry [OF f assms(2), unfolded one same]
    and rl = read_last [OF f assms(2), unfolded one same]
  show "fits s1 {loc}" using fits_step [OF assms] .
  show "io_status r \<noteq> SError \<Longrightarrow> ending s1 = ending s" using ending_step [OF f assms(2)] .
  show "content s m = b # bs \<Longrightarrow> res_values r = 1 \<and> m1 loc = b \<and>
      (io_status r \<noteq> SError \<longrightarrow> content s1 m1 = bs) \<and> (if bs \<noteq> [] then io_status r = SValue else last_byte (ending s) r)"
  proof -
    assume c: "content s m = b # bs"
    then have one: "res_values r = 1" using rb rp by simp
    then show ?thesis using rb rv rl c by simp
  qed
  show "content s m = [] \<Longrightarrow> res_values r = 0 \<and> (io_status r \<noteq> SError \<longrightarrow> content s1 m1 = []) \<and> ended (ending s) r"
    using rb rd by simp
qed

lemma until_first:
  "b \<noteq> d \<Longrightarrow> until_outcome f k d n l r \<Longrightarrow> (l = [] \<Longrightarrow> k = 0 \<Longrightarrow> \<forall>e. f \<noteq> Fails_with e) \<Longrightarrow> until_outcome f (Suc k) d (Suc n) (b # l) r"
  by (auto simp: until_outcome_def split: if_splits)

lemma ended_failure: "ended f r \<Longrightarrow> io_status r = SError \<Longrightarrow> ended f (io_failure (res_error r) (k :: nat))"
  by (cases f) auto

lemma ended_eof: "ended f r \<Longrightarrow> io_status r \<noteq> SError \<Longrightarrow> ended f (io_end_of_file (k :: nat))"
  by (cases f) auto

lemma last_byte_cases:
  assumes "last_byte f r"
  obtains e where "f = Fails_with e" "io_status r = SError" "res_error r = e" | "\<forall>e. f \<noteq> Fails_with e" "io_status r = SValue"
  using assms by (cases f) auto

lemma read_until_from:
  assumes "fits s {loc}"
  shows "\<exists>r s' m'. read_until_loop read_some loc d mx s m out tot = (r, out @ line d (mx - tot) (content s m), s', m') \<and>
     res_values r = tot + length (line d (mx - tot) (content s m)) \<and>
     (io_status r \<noteq> SError \<longrightarrow> content s' m' = drop (length (line d (mx - tot) (content s m))) (content s m)) \<and>
     until_outcome (ending s) (length (content s m)) d (mx - tot) (line d (mx - tot) (content s m)) r"
  using assms
proof (induction "mx - tot" arbitrary: s m out tot)
  case 0
  then show ?case by (auto simp: read_until_loop.simps [of _ _ _ mx] until_outcome_def)
next
  case (Suc n)
  obtain r s1 m1 where rd: "read_some s (buffer_at loc 1) (m(loc := 0)) = (r, s1, m1)" by (metis prod_cases3)
  note rb = read_byte [OF Suc.prems rd]
  note eq = read_until_loop.simps [of read_some loc d mx s m out tot, unfolded rd Let_def fst_conv snd_conv]
  have lt: "tot < mx" "mx - tot = Suc n" "n = mx - (tot + 1)" using Suc(2) by auto
  show ?case
  proof (cases "content s m")
    case Nil
    have e: "ended (ending s) r" "res_values r = 0" using rb(3) [OF Nil] by auto
    show ?thesis
    proof (cases "io_status r = SError")
      case True
      then show ?thesis using rb(3) [OF Nil] lt Nil ended_failure [OF e(1) True, of tot] by (auto simp: eq until_outcome_def)
    next
      case False
      then show ?thesis
        using rb(3) [OF Nil] lt Nil ended_eof [OF e(1) False, of tot] by (auto simp: eq until_outcome_def io_eof_def)
    qed
  next
    case (Cons b bs)
    note c = rb(2) [OF Cons]
    have lb: "last_byte (ending s) r" if "bs = []" using c that by simp
    show ?thesis
    proof (cases "io_status r = SValue \<and> b \<noteq> d")
      case True
      then have step: "read_until_loop read_some loc d mx s m out tot = read_until_loop read_some loc d mx s1 m1 (out @ [b]) (tot + 1)"
        using c lt by (simp add: eq io_eof_def)
      have nf: "\<forall>e. ending s \<noteq> Fails_with e" if "bs = []" using last_byte_cases [OF lb [OF that]] True by (metis io_status_kind.distinct(3))
      obtain r' s' m' where IH: "read_until_loop read_some loc d mx s1 m1 (out @ [b]) (tot + 1) = (r', (out @ [b]) @ line d n bs, s', m')"
        "res_values r' = tot + 1 + length (line d n bs)" "io_status r' \<noteq> SError \<longrightarrow> content s' m' = drop (length (line d n bs)) bs"
        "until_outcome (ending s) (length bs) d n (line d n bs) r'"
        using Suc(1) [OF lt(3) rb(1), of m1 "out @ [b]"] True c rb(4) unfolding lt(3) [symmetric] by auto
      have "until_outcome (ending s) (Suc (length bs)) d (Suc n) (b # line d n bs) r'"
        using True IH(4) nf by (intro until_first) auto
      then show ?thesis using step IH(1-3) True Cons lt by simp
    next
      case stop: False
      show ?thesis
      proof (cases "io_status r = SValue")
        case True
        then have "b = d" using stop by simp
        moreover have "\<forall>e. ending s \<noteq> Fails_with e" if "bs = []" using last_byte_cases [OF lb [OF that]] True by (metis io_status_kind.distinct(3))
        ultimately show ?thesis using c lt Cons True by (auto simp: eq until_outcome_def)
      next
        case False
        then have bs: "bs = []" using c by (auto split: if_splits)
        obtain e where "ending s = Fails_with e" "io_status r = SError" "res_error r = e" using last_byte_cases [OF lb [OF bs]] False by metis
        then show ?thesis using c lt Cons bs by (auto simp: eq until_outcome_def)
      qed
    qed
  qed
qed

lemma read_until_spec:
  assumes "fits s {loc}"
  shows "\<exists>r s' m'. read_until read_some s loc d mx m = (r, line d mx (content s m), s', m') \<and>
     res_values r = length (line d mx (content s m)) \<and>
     (io_status r \<noteq> SError \<longrightarrow> content s' m' = drop (length (line d mx (content s m))) (content s m)) \<and>
     until_outcome (ending s) (length (content s m)) d mx (line d mx (content s m)) r"
  using read_until_from [OF assms, of d mx m "[]" 0] by (simp add: read_until_def)

end

text \<open>
  A sink appends a prefix of the offered bytes to what was written before and leaves the
  rest of the input readable; \<open>accepts s n\<close> says that it can take \<open>n\<close> more bytes.
\<close>

locale write_sink =
  fixes write_some :: "'s writer"
    and written :: "'s \<Rightarrow> mem \<Rightarrow> byte list"
    and fits :: "'s \<Rightarrow> buffer \<Rightarrow> bool"
    and accepts :: "'s \<Rightarrow> nat \<Rightarrow> bool"
  assumes write_bytes: "fits s b \<Longrightarrow> write_some s b m = Some (r, s', m') \<Longrightarrow>
      res_values r \<le> buf_size b \<and> fits s' (buf_advance b (res_values r)) \<and>
      written s' m' = written s m @ map m (take (res_values r) (buf_addrs b)) \<and>
      map m' (buf_addrs b) = map m (buf_addrs b)"
    and write_accepts: "fits s b \<Longrightarrow> accepts s (buf_size b) \<Longrightarrow> 0 < buf_size b \<Longrightarrow>
      \<exists>r s' m'. write_some s b m = Some (r, s', m') \<and> io_status r \<noteq> SError \<and> 0 < res_values r \<and>
        accepts s' (buf_size b - res_values r)"
begin

definition wrote :: "buffer \<Rightarrow> nat \<Rightarrow> 's \<Rightarrow> mem \<Rightarrow> (nat io_result \<times> 's \<times> mem) option \<Rightarrow> bool" where
  "wrote input tot s m res \<longleftrightarrow>
     (case res of None \<Rightarrow> True
      | Some (r, s', m') \<Rightarrow> \<exists>n. res_values r = tot + n \<and> tot + n \<le> buf_size input \<and>
          written s' m' = written s m @ map m (take n (drop tot (buf_addrs input))) \<and>
          (io_status r = SValue \<longrightarrow> tot + n = buf_size input))"

lemma wrote_step:
  assumes "wrote input (tot + c) s1 m1 res" "map m1 (drop tot (buf_addrs input)) = map m (drop tot (buf_addrs input))"
    and "written s1 m1 = written s m @ map m (take c (drop tot (buf_addrs input)))"
  shows "wrote input tot s m res"
proof (cases res)
  case (Some p)
  obtain r s' m' where p: "p = (r, s', m')" by (cases p)
  obtain n where n: "res_values r = tot + c + n" "tot + c + n \<le> buf_size input"
    "written s' m' = written s1 m1 @ map m1 (take n (drop (tot + c) (buf_addrs input)))"
    "io_status r = SValue \<longrightarrow> tot + c + n = buf_size input"
    using assms(1) by (auto simp: wrote_def Some p)
  have "take n (drop c (map m1 (drop tot (buf_addrs input)))) = take n (drop c (map m (drop tot (buf_addrs input))))"
    by (simp only: assms(2))
  then have "map m1 (take n (drop (tot + c) (buf_addrs input))) = map m (take n (drop (tot + c) (buf_addrs input)))"
    by (simp add: drop_map take_map add.commute)
  then have "written s' m' = written s m @ map m (take (c + n) (drop tot (buf_addrs input)))"
    using n(3) assms(3) by (simp add: take_add add.commute)
  then show ?thesis using n by (auto simp: wrote_def Some p intro!: exI [of _ "c + n"])
qed (simp add: wrote_def)

lemma write_all_from:
  assumes "fits s (buf_advance input tot)" "buf_size input \<le> size_max" "tot \<le> buf_size input"
  shows "\<exists>res. write_all_loop write_some input s m tot = Some res \<and> wrote input tot s m res \<and>
    (accepts s (buf_size input - tot) \<longrightarrow> (\<exists>r s' m'. res = Some (r, s', m') \<and> io_status r = SValue))"
  using assms
proof (induction "buf_size input - tot" arbitrary: s m tot rule: less_induct)
  case less
  let ?sub = "buffer_at (buf_data input + tot) (buf_size input - tot)"
  have sub: "buf_advance input tot = ?sub" "buf_size ?sub = buf_size input - tot"
    by (simp_all add: buf_advance_def buffer_at_def)
  have addrs: "buf_addrs ?sub = drop tot (buf_addrs input)" if "tot < buf_size input"
    using that by (simp add: buf_addrs_def buffer_at_def drop_upt)
  note eq = write_all_loop.simps [of write_some input s m tot]
  consider (fin) "tot = buf_size input" | (throw) "tot < buf_size input" "write_some s ?sub m = None"
    | (ret) r s1 m1 where "tot < buf_size input" "write_some s ?sub m = Some (r, s1, m1)"
    using less(4) by (metis le_neq_implies_less not_None_eq prod_cases3)
  then show ?case
  proof cases
    case fin
    then have "write_all_loop write_some input s m tot = Some (Some (io_success tot, s, m))"
      unfolding eq by simp
    then show ?thesis using fin by (simp add: wrote_def)
  next
    case throw
    then have "\<not> accepts s (buf_size input - tot)"
      using write_accepts [OF less(2) [unfolded sub], of m] by (auto simp: sub)
    then show ?thesis using throw by (simp add: eq wrote_def)
  next
    case ret
    define c where "c = res_values r"
    note wb = write_bytes [OF less(2) [unfolded sub] ret(2), folded c_def, unfolded addrs [OF ret(1)] sub(2)]
    have tot1: "size_add tot c = tot + c" using wb less(3) ret(1) by (intro size_add_exact) auto
    have body: "write_all_loop write_some input s m tot =
      (if io_status r = SError then Some (Some (io_failure (res_error r) (tot + c), s1, m1))
       else if c = 0 then Some (Some (io_failure short_transfer_error (tot + c), s1, m1))
       else write_all_loop write_some input s1 m1 (tot + c))"
      using ret tot1 unfolding c_def by (auto simp: eq Let_def)
    have adv: "buf_advance ?sub c = buf_advance input (tot + c)" using wb
      by (simp add: buf_advance_def buffer_at_def)
    have acc: "accepts s (buf_size input - tot) \<Longrightarrow> io_status r \<noteq> SError \<and> 0 < c \<and> accepts s1 (buf_size input - (tot + c))"
      using write_accepts [OF less(2) [unfolded sub], of m] ret by (simp add: sub c_def)
    show ?thesis
    proof (cases "io_status r = SError \<or> c = 0")
      case True
      then obtain e where "write_all_loop write_some input s m tot = Some (Some (io_failure e (tot + c), s1, m1))"
        unfolding body by (cases "io_status r = SError") auto
      then show ?thesis using wb acc True ret(1) by (auto simp: wrote_def)
    next
      case False
      have lt: "buf_size input - (tot + c) < buf_size input - tot" "tot + c \<le> buf_size input"
        using False wb ret(1) by auto
      obtain res where res: "write_all_loop write_some input s1 m1 (tot + c) = Some res"
        "wrote input (tot + c) s1 m1 res"
        "accepts s1 (buf_size input - (tot + c)) \<longrightarrow> (\<exists>r s' m'. res = Some (r, s', m') \<and> io_status r = SValue)"
        using less(1) [OF lt(1) wb [THEN conjunct2, THEN conjunct1, unfolded adv] less(3) lt(2)] by blast
      have "write_all_loop write_some input s m tot = Some res"
        using False res(1) by (simp add: body)
      then show ?thesis using wrote_step [OF res(2)] wb acc res(3) by auto
    qed
  qed
qed

lemma write_all_spec:
  assumes "fits s input" "buf_size input \<le> size_max"
  shows "\<exists>res. write_all write_some s input m = Some res \<and>
    (\<forall>r s' m'. res = Some (r, s', m') \<longrightarrow> res_values r \<le> buf_size input \<and>
       written s' m' = written s m @ map m (take (res_values r) (buf_addrs input)) \<and>
       (io_status r = SValue \<longrightarrow> res_values r = buf_size input)) \<and>
    (accepts s (buf_size input) \<longrightarrow> (\<exists>r s' m'. res = Some (r, s', m') \<and> io_status r = SValue))"
proof -
  have adv: "buf_advance input 0 = input" by (simp add: buf_advance_def buffer_at_def)
  obtain res where "write_all_loop write_some input s m 0 = Some res" "wrote input 0 s m res"
    "accepts s (buf_size input) \<longrightarrow> (\<exists>r s' m'. res = Some (r, s', m') \<and> io_status r = SValue)"
    using write_all_from [of s input 0 m] assms by (auto simp: adv)
  then show ?thesis by (auto simp: wrote_def write_all_def)
qed

end

end
