(* ===== verification/IO_Memory.thy ===== *)
theory IO_Memory
  imports IO_Stream
begin

text \<open>
  The in-memory streams of \<open>include/forge/io/memory_stream.hpp\<close>: a reader over borrowed
  bytes, a writer into a growing vector or a borrowed buffer, and a scripted reader that
  replays prepared steps.  Each is shown to meet the stream contracts of \<open>IO_Stream\<close>.
\<close>

section \<open>Reading from borrowed bytes\<close>

definition dynamic_extent_limit :: nat where
  "dynamic_extent_limit = size_max"

record memory_read_stream =
  mr_input :: buffer
  mr_position :: nat
  mr_max_read_size :: nat

definition mr_make :: "buffer \<Rightarrow> nat \<Rightarrow> memory_read_stream" where
  "mr_make input max_read_size =
     \<lparr>mr_input = input, mr_position = 0, mr_max_read_size = max_read_size\<rparr>"

definition mr_remaining :: "memory_read_stream \<Rightarrow> nat" where
  "mr_remaining s = buf_size (mr_input s) - mr_position s"

definition mr_eof :: "memory_read_stream \<Rightarrow> bool" where
  "mr_eof s \<longleftrightarrow> mr_remaining s = 0"

definition mr_reset :: "memory_read_stream \<Rightarrow> memory_read_stream" where
  "mr_reset s = s\<lparr>mr_position := 0\<rparr>"

definition mr_read_some :: "memory_read_stream reader" where
  "mr_read_some s output m =
     (if buf_empty output then (io_success 0, s, m)
      else if mr_eof s then (io_end_of_file 0, s, m)
      else let transfer_limit = (if mr_max_read_size s = 0 then dynamic_extent_limit else mr_max_read_size s);
               count = min (buf_size output) (min (mr_remaining s) transfer_limit);
               m1 = snd (buffer_copy (buffer_prefix count output)
                      (buffer_at (buf_data (mr_input s) + mr_position s) count) m)
           in (io_success count, s\<lparr>mr_position := mr_position s + count\<rparr>, m1))"

definition mr_content :: "memory_read_stream \<Rightarrow> mem \<Rightarrow> byte list" where
  "mr_content s m = map m (drop (mr_position s) (buf_addrs (mr_input s)))"

definition mr_fits :: "memory_read_stream \<Rightarrow> addr set \<Rightarrow> bool" where
  "mr_fits s A \<longleftrightarrow> mr_position s \<le> buf_size (mr_input s) \<and> A \<inter> set (buf_addrs (mr_input s)) = {}"

lemma buf_addrs_take:
  "n \<le> buf_size b \<Longrightarrow> buf_addrs (buffer_prefix n b) = take n (buf_addrs b)"
  by (simp add: buf_addrs_def buffer_prefix_def buffer_at_def take_upt min_def)

lemma buffer_copy_bytes:
  assumes "buf_size d = n" "buf_size s = n"
  shows "map (snd (buffer_copy d s m)) (buf_addrs d) = map m (buf_addrs s)"
    and "a \<notin> set (buf_addrs d) \<Longrightarrow> snd (buffer_copy d s m) a = m a"
  using assms map_memmove_dest [of "buf_data d" "buf_data s" n m]
  by (simp_all add: buffer_copy_simps buf_addrs_def memmove_frame)

lemma mr_read_some_count:
  assumes "mr_read_some s out m = (r, s', m')" "0 < buf_size out" "mr_content s m \<noteq> []"
  obtains c where "c \<le> buf_size out" "c \<le> length (mr_content s m)" "0 < c" "r = io_success c"
    "s' = s\<lparr>mr_position := mr_position s + c\<rparr>"
    "map m' (take c (buf_addrs out)) = take c (mr_content s m)"
    "\<forall>a. a \<notin> set (take c (buf_addrs out)) \<longrightarrow> m' a = m a"
proof -
  define lim where "lim = (if mr_max_read_size s = 0 then dynamic_extent_limit else mr_max_read_size s)"
  define c where "c = min (buf_size out) (min (mr_remaining s) lim)"
  have lim: "0 < lim" by (simp add: lim_def dynamic_extent_limit_def size_max_def)
  have len: "length (mr_content s m) = mr_remaining s" by (simp add: mr_content_def mr_remaining_def)
  then have rem: "0 < mr_remaining s" using assms(3) by (metis length_greater_0_conv)
  then have run: "r = io_success c \<and> s' = s\<lparr>mr_position := mr_position s + c\<rparr> \<and>
    m' = snd (buffer_copy (buffer_prefix c out) (buffer_at (buf_data (mr_input s) + mr_position s) c) m)"
    using assms(1,2) by (auto simp: mr_read_some_def mr_eof_def buf_empty_def Let_def c_def lim_def)
  let ?d = "buffer_prefix c out" and ?s = "buffer_at (buf_data (mr_input s) + mr_position s) c"
  have sizes: "buf_size ?d = c" "buf_size ?s = c" by (simp_all add: buffer_prefix_def buffer_at_def c_def)
  have src: "map m (buf_addrs ?s) = take c (mr_content s m)"
    by (rule nth_equalityI) (auto simp: mr_content_def buf_addrs_def buffer_at_def c_def mr_remaining_def)
  have dst: "buf_addrs ?d = take c (buf_addrs out)" by (rule buf_addrs_take) (simp add: c_def)
  show ?thesis
  proof (rule that [of c])
    show "map m' (take c (buf_addrs out)) = take c (mr_content s m)"
      using buffer_copy_bytes(1) [OF sizes, of m] run by (simp add: src dst)
    show "\<forall>a. a \<notin> set (take c (buf_addrs out)) \<longrightarrow> m' a = m a"
      using buffer_copy_bytes(2) [OF sizes] run by (simp add: dst)
  qed (use run rem lim len assms(2) in \<open>simp_all add: c_def\<close>)
qed

lemma mr_read_some_idle:
  "mr_content s m = [] \<or> buf_size out = 0 \<Longrightarrow> mr_read_some s out m = (r, s', m') \<Longrightarrow>
   s' = s \<and> m' = m \<and> res_values r = 0 \<and> (0 < buf_size out \<longrightarrow> io_status r = SEof) \<and>
   (buf_size out = 0 \<longrightarrow> io_status r = SValue)"
  by (auto simp: mr_read_some_def mr_eof_def mr_remaining_def mr_content_def buf_empty_def split: if_splits)

interpretation mr: read_source mr_read_some mr_content mr_fits "\<lambda>s. Ends_eof"
proof (unfold_locales, goal_cases)
  case (1 s A B)
  then show ?case by (auto simp: mr_fits_def)
next
  case (2 s A out m r s' m')
  show ?case
  proof (cases "mr_content s m = [] \<or> buf_size out = 0")
    case True
    then show ?thesis using mr_read_some_idle 2 by blast
  next
    case False
    then obtain c where "c \<le> length (mr_content s m)" "s' = s\<lparr>mr_position := mr_position s + c\<rparr>"
      using mr_read_some_count [OF 2(2)] by auto
    then show ?thesis using 2(1) by (auto simp: mr_fits_def mr_content_def)
  qed
next
  case (3 s A m' m)
  then show ?case by (auto simp: mr_fits_def mr_content_def dest: in_set_dropD)
next
  case (4 s out m r s' m')
  show ?case
  proof (cases "mr_content s m = [] \<or> buf_size out = 0")
    case True
    then show ?thesis using mr_read_some_idle [OF True 4(2)] by auto
  next
    case False
    then obtain c where c: "c \<le> buf_size out" "c \<le> length (mr_content s m)" "r = io_success c"
      "s' = s\<lparr>mr_position := mr_position s + c\<rparr>" "map m' (take c (buf_addrs out)) = take c (mr_content s m)"
      "\<forall>a. a \<notin> set (take c (buf_addrs out)) \<longrightarrow> m' a = m a"
      using mr_read_some_count [OF 4(2)] by auto
    have "\<forall>a \<in> set (buf_addrs (mr_input s)). m' a = m a"
      using c(6) 4(1) by (auto simp: mr_fits_def dest: in_set_takeD)
    then have "map m' (drop (mr_position s + c) (buf_addrs (mr_input s))) =
        map m (drop (mr_position s + c) (buf_addrs (mr_input s)))" by (auto dest: in_set_dropD)
    then have "mr_content s' m' = drop c (mr_content s m)"
      by (simp add: mr_content_def c(4) drop_map add.commute)
    then show ?thesis using c by simp
  qed
next
  case (5 s out m r s' m')
  from 5(2,3,4) obtain c where "0 < c" "r = io_success c" by (rule mr_read_some_count)
  then show ?case by simp
next
  case (6 s out m r s' m')
  show ?case
  proof (cases "buf_size out = 0")
    case True
    then show ?thesis using mr_read_some_idle [OF _ 6(2)] by simp
  next
    case False
    then have "0 < buf_size out" "mr_content s m \<noteq> []" using 6(3) by auto
    with 6(2) obtain c where "r = io_success c" by (rule mr_read_some_count)
    then show ?thesis by simp
  qed
next
  case (7 s out m r s' m')
  from 7(2,3,4) obtain c where "r = io_success c" by (rule mr_read_some_count)
  then show ?case by simp
next
  case (8 s out m r s' m')
  then show ?case using mr_read_some_idle [OF _ 8(2)] by simp
qed simp

section \<open>Writing\<close>

text \<open>
  The vector \<open>storage_\<close> is a block of \<open>mw_vcap\<close> bytes at \<open>mw_data\<close> of which the first
  \<open>mw_size\<close> are in use.  What the allocator will answer is a list of events: an address, the
  extra capacity of the block, and the byte a block it gets back is overwritten with; when
  the list is empty, allocation throws.  \<open>resize\<close> within the capacity stays in place, else
  it moves the contents and gives the old block back, so a buffer into the old storage
  dangles.
\<close>

record alloc =
  al_addr :: addr
  al_extra :: nat
  al_junk :: byte

record memory_write_stream =
  mw_output :: buffer
  mw_data :: addr
  mw_size :: nat
  mw_vcap :: nat
  mw_position :: nat
  mw_capacity :: nat
  mw_borrowed :: bool
  mw_allocs :: "alloc list"

definition mw_make :: "nat \<Rightarrow> alloc list \<Rightarrow> memory_write_stream option" where
  "mw_make capacity allocs =
     (let w = \<lparr>mw_output = null_buffer, mw_data = 0, mw_size = 0, mw_vcap = 0, mw_position = 0,
        mw_capacity = capacity, mw_borrowed = False, mw_allocs = allocs\<rparr>
      in if capacity \<noteq> dynamic_extent_limit \<and> capacity \<noteq> 0 then
           (case allocs of [] \<Rightarrow> None
            | a # as \<Rightarrow> Some (w\<lparr>mw_data := al_addr a, mw_vcap := capacity + al_extra a, mw_allocs := as\<rparr>))
         else Some w)"

definition mw_make_borrowed :: "buffer \<Rightarrow> memory_write_stream" where
  "mw_make_borrowed output =
     \<lparr>mw_output = output, mw_data = 0, mw_size = 0, mw_vcap = 0, mw_position = 0,
      mw_capacity = buf_size output, mw_borrowed = True, mw_allocs = []\<rparr>"

definition mw_length :: "memory_write_stream \<Rightarrow> nat" where
  "mw_length w = (if mw_borrowed w then mw_position w else mw_size w)"

definition mw_remaining_capacity :: "memory_write_stream \<Rightarrow> nat" where
  "mw_remaining_capacity w =
     (if mw_capacity w = dynamic_extent_limit then dynamic_extent_limit
      else let current = mw_length w
           in if current < mw_capacity w then mw_capacity w - current else 0)"

definition mw_bytes :: "memory_write_stream \<Rightarrow> buffer" where
  "mw_bytes w = (if mw_borrowed w then buffer_at (buf_data (mw_output w)) (mw_position w)
                 else buffer_at (mw_data w) (mw_size w))"

definition mw_clear :: "memory_write_stream \<Rightarrow> memory_write_stream" where
  "mw_clear w = (if mw_borrowed w then w\<lparr>mw_position := 0\<rparr> else w\<lparr>mw_size := 0\<rparr>)"

definition mem_fill :: "addr \<Rightarrow> nat \<Rightarrow> byte \<Rightarrow> mem \<Rightarrow> mem" where
  "mem_fill a n b m = (\<lambda>x. if a \<le> x \<and> x < a + n then b else m x)"

definition vec_max_size :: nat where
  "vec_max_size = 2 ^ 63 - 1"

definition vec_resize :: "memory_write_stream \<Rightarrow> nat \<Rightarrow> mem \<Rightarrow> (memory_write_stream \<times> mem) option" where
  "vec_resize w n m =
     (if n \<le> mw_vcap w then
        Some (w\<lparr>mw_size := n\<rparr>, mem_fill (mw_data w + mw_size w) (n - mw_size w) 0 m)
      else case mw_allocs w of
        [] \<Rightarrow> None
      | a # as \<Rightarrow>
          let m1 = memmove (al_addr a) (mw_data w) (mw_size w) m;
              m2 = mem_fill (al_addr a + mw_size w) (n - mw_size w) 0 m1;
              m3 = mem_fill (mw_data w) (mw_vcap w) (al_junk a) m2
          in Some (w\<lparr>mw_data := al_addr a, mw_size := n, mw_vcap := n + al_extra a, mw_allocs := as\<rparr>, m3))"

text \<open>\<open>copy_to_vector\<close>: a new vector with a copy of the bytes.\<close>

definition copy_to_vector ::
  "buffer \<Rightarrow> memory_write_stream \<Rightarrow> mem \<Rightarrow> (buffer \<times> memory_write_stream \<times> mem) option" where
  "copy_to_vector input w m =
     (case mw_allocs w of
        [] \<Rightarrow> None
      | a # as \<Rightarrow>
          let b = buffer_at (al_addr a) (buf_size input);
              m1 = mem_fill (al_addr a) (buf_size input) 0 m
          in Some (b, w\<lparr>mw_allocs := as\<rparr>, snd (buffer_copy b input m1)))"

definition stage_input ::
  "memory_write_stream \<Rightarrow> buffer \<Rightarrow> nat \<Rightarrow> mem \<Rightarrow> (buffer \<times> memory_write_stream \<times> mem) option" where
  "stage_input w input cnt m =
     (if mw_size w \<noteq> 0 \<and> \<not> buf_data input < mw_data w \<and> buf_data input < mw_data w + mw_size w
      then copy_to_vector (buffer_prefix cnt input) w m
      else Some (input, w, m))"

definition mw_write_some :: "memory_write_stream writer" where
  "mw_write_some w input m =
     (if buf_empty input then Some (io_success 0, w, m)
      else let count = (if mw_capacity w = dynamic_extent_limit then buf_size input
                        else min (buf_size input) (mw_remaining_capacity w))
      in if count = 0 then Some (io_success 0, w, m)
      else if mw_borrowed w then
        (let m1 = snd (buffer_copy (buffer_at (buf_data (mw_output w) + mw_position w) count)
                         (buffer_prefix count input) m)
         in Some (io_success count, w\<lparr>mw_position := mw_position w + count\<rparr>, m1))
      else let old_size = mw_size w
      in if count > vec_max_size - old_size then
           Some (io_failure (make_error_code Value_too_large) 0, w, m)
         else case stage_input w input count m of
           None \<Rightarrow> None
         | Some (input1, w1, m1) \<Rightarrow>
             (case vec_resize w1 (old_size + count) m1 of
                None \<Rightarrow> None
              | Some (w2, m2) \<Rightarrow>
                  Some (io_success count, w2,
                    snd (buffer_copy (buffer_at (mw_data w2 + old_size) count)
                           (buffer_prefix count input1) m2))))"

section \<open>What a write does\<close>

definition mw_written :: "memory_write_stream \<Rightarrow> mem \<Rightarrow> byte list" where
  "mw_written w m = map m (buf_addrs (mw_bytes w))"

definition mw_block :: "memory_write_stream \<Rightarrow> addr set" where
  "mw_block w = {mw_data w ..< mw_data w + mw_vcap w}"

definition mw_ok :: "memory_write_stream \<Rightarrow> bool" where
  "mw_ok w \<longleftrightarrow> (if mw_borrowed w then mw_capacity w = buf_size (mw_output w) \<and>
                 mw_position w \<le> mw_capacity w \<and> mw_capacity w \<noteq> dynamic_extent_limit
               else mw_size w \<le> mw_vcap w)"

text \<open>The allocator hands out blocks that overlap nothing in use: not the input of the
  write, not the storage, not each other.\<close>

definition al_block :: "nat \<Rightarrow> alloc \<Rightarrow> addr set" where
  "al_block n a = {al_addr a ..< al_addr a + n + al_extra a}"

fun fresh_blocks :: "nat \<Rightarrow> addr set \<Rightarrow> alloc list \<Rightarrow> bool" where
  "fresh_blocks n used [] \<longleftrightarrow> True"
| "fresh_blocks n used (a # as) \<longleftrightarrow> al_block n a \<inter> used = {} \<and> fresh_blocks n (used \<union> al_block n a) as"

definition mw_fresh :: "memory_write_stream \<Rightarrow> buffer \<Rightarrow> bool" where
  "mw_fresh w b \<longleftrightarrow> fresh_blocks (mw_size w + buf_size b) (mw_block w \<union> set (buf_addrs b)) (mw_allocs w)"

lemma mem_fill_frame: "x \<notin> {a ..< a + n} \<Longrightarrow> mem_fill a n b m x = m x"
  by (auto simp: mem_fill_def)

lemma vec_resize_effect:
  assumes "vec_resize w n m = Some (w', m')" "mw_size w \<le> n" "mw_size w \<le> mw_vcap w"
    and "mw_allocs w \<noteq> [] \<longrightarrow> al_block n (hd (mw_allocs w)) \<inter> mw_block w = {}"
  shows "mw_size w' = n \<and> n \<le> mw_vcap w' \<and> mw_borrowed w' = mw_borrowed w \<and> mw_capacity w' = mw_capacity w \<and>
    (mw_block w' = mw_block w \<and> mw_data w' = mw_data w \<and> mw_allocs w' = mw_allocs w \<or>
     (\<exists>a as. mw_allocs w = a # as \<and> mw_allocs w' = as \<and> mw_block w' = al_block n a)) \<and>
    map m' [mw_data w' ..< mw_data w' + mw_size w] = map m [mw_data w ..< mw_data w + mw_size w] \<and>
    (\<forall>x. x \<notin> mw_block w \<longrightarrow> x \<notin> mw_block w' \<longrightarrow> m' x = m x)"
proof (cases "n \<le> mw_vcap w")
  case True
  then have eq: "w' = w\<lparr>mw_size := n\<rparr>" "m' = mem_fill (mw_data w + mw_size w) (n - mw_size w) 0 m"
    using assms(1) by (simp_all add: vec_resize_def)
  then show ?thesis using True assms(2) by (auto simp: mw_block_def mem_fill_def)
next
  case False
  then obtain a as where al: "mw_allocs w = a # as" using assms(1) by (auto simp: vec_resize_def split: list.splits)
  define m1 where "m1 = memmove (al_addr a) (mw_data w) (mw_size w) m"
  define m2 where "m2 = mem_fill (al_addr a + mw_size w) (n - mw_size w) 0 m1"
  have eq: "w' = w\<lparr>mw_data := al_addr a, mw_size := n, mw_vcap := n + al_extra a, mw_allocs := as\<rparr>"
    "m' = mem_fill (mw_data w) (mw_vcap w) (al_junk a) m2"
    using assms(1) False al by (simp_all add: vec_resize_def Let_def m1_def m2_def)
  have blk: "mw_block w' = al_block n a" by (simp add: eq mw_block_def al_block_def add.assoc)
  have "m' x = m1 x" if "x \<in> {al_addr a ..< al_addr a + mw_size w}" for x
  proof -
    have "x \<in> al_block n a" using that assms(2) by (auto simp: al_block_def)
    then have "x \<notin> mw_block w" using assms(4) by (auto simp: al)
    then show ?thesis using that by (auto simp: eq m2_def mem_fill_def mw_block_def)
  qed
  then have "map m' [al_addr a ..< al_addr a + mw_size w] = map m1 [al_addr a ..< al_addr a + mw_size w]" by simp
  moreover have "m' x = m x" if "x \<notin> mw_block w" "x \<notin> al_block n a" for x
    using that assms(2) by (auto simp: eq m2_def m1_def mem_fill_def memmove_def mw_block_def al_block_def)
  ultimately show ?thesis using blk al by (auto simp: eq m1_def map_memmove_dest)
qed

lemma vec_append_effect:
  assumes "vec_resize w (mw_size w + c) m = Some (w', m1)" "mw_size w \<le> mw_vcap w" "c \<le> buf_size i"
    and "mw_allocs w \<noteq> [] \<longrightarrow>
      al_block (mw_size w + c) (hd (mw_allocs w)) \<inter> (mw_block w \<union> set (take c (buf_addrs i))) = {}"
    and "set (take c (buf_addrs i)) \<inter> mw_block w = {}"
    and "m' = snd (buffer_copy (buffer_at (mw_data w' + mw_size w) c) (buffer_prefix c i) m1)"
  shows "map m' [mw_data w' ..< mw_data w' + (mw_size w + c)] =
      map m [mw_data w ..< mw_data w + mw_size w] @ map m (take c (buf_addrs i))"
    and "x \<notin> mw_block w \<Longrightarrow> x \<notin> mw_block w' \<Longrightarrow> m' x = m x"
proof -
  let ?d = "buffer_at (mw_data w' + mw_size w) c"
  have d: "buf_addrs ?d = [mw_data w' + mw_size w ..< mw_data w' + (mw_size w + c)]" "buf_size ?d = c"
    by (simp_all add: buf_addrs_def buffer_at_def add.assoc)
  have s: "buf_addrs (buffer_prefix c i) = take c (buf_addrs i)" "buf_size (buffer_prefix c i) = c"
    using assms(3) buf_addrs_take by (auto simp: buffer_prefix_def buffer_at_def)
  have al: "mw_allocs w \<noteq> [] \<longrightarrow> al_block (mw_size w + c) (hd (mw_allocs w)) \<inter> mw_block w = {}"
    using assms(4) by blast
  note R = vec_resize_effect [OF assms(1) _ assms(2) al, simplified]
  have in_blk: "set (buf_addrs ?d) \<subseteq> mw_block w'" using R by (auto simp: d mw_block_def)
  have copy: "map m' (buf_addrs ?d) = map m1 (take c (buf_addrs i))"
    "\<And>x. x \<notin> set (buf_addrs ?d) \<Longrightarrow> m' x = m1 x"
    unfolding assms(6) using buffer_copy_bytes [OF d(2) s(2)] by (simp_all add: s)
  have "x \<notin> mw_block w \<and> x \<notin> mw_block w'" if "x \<in> set (take c (buf_addrs i))" for x
  proof -
    consider "mw_block w' = mw_block w" | a as where "mw_allocs w = a # as" "mw_block w' = al_block (mw_size w + c) a"
      using R by metis
    then show ?thesis using assms(4,5) that by cases fastforce+
  qed
  then have src: "map m1 (take c (buf_addrs i)) = map m (take c (buf_addrs i))" using R by auto
  have "map m' [mw_data w' ..< mw_data w' + mw_size w] = map m1 [mw_data w' ..< mw_data w' + mw_size w]"
    using copy(2) by (auto simp: d)
  then have "map m' [mw_data w' ..< mw_data w' + mw_size w] = map m [mw_data w ..< mw_data w + mw_size w]"
    using R by simp
  moreover have "[mw_data w' ..< mw_data w' + (mw_size w + c)] = [mw_data w' ..< mw_data w' + mw_size w] @ buf_addrs ?d"
    using upt_add_eq_append [of "mw_data w'" "mw_data w' + mw_size w" c] by (simp add: d add.assoc)
  ultimately show "map m' [mw_data w' ..< mw_data w' + (mw_size w + c)] =
      map m [mw_data w ..< mw_data w + mw_size w] @ map m (take c (buf_addrs i))"
    using copy(1) src by (metis map_append)
  show "x \<notin> mw_block w \<Longrightarrow> x \<notin> mw_block w' \<Longrightarrow> m' x = m x"
    using copy(2) [of x] in_blk R by (metis subsetD)
qed

lemma stage_input_cases:
  assumes "stage_input w input c m = Some (i, w1, m1)" "0 < c" "c \<le> buf_size input" "mw_size w \<le> mw_vcap w"
    and fr: "mw_allocs w \<noteq> [] \<longrightarrow>
      al_block (mw_size w + buf_size input) (hd (mw_allocs w)) \<inter> (mw_block w \<union> set (buf_addrs input)) = {}"
    and inp: "set (buf_addrs input) \<inter> mw_block w = {} \<or> set (buf_addrs input) \<subseteq> {mw_data w ..< mw_data w + mw_size w}"
  obtains (same) "i = input" "w1 = w" "m1 = m" "set (buf_addrs input) \<inter> mw_block w = {}"
  | (copied) a as where "mw_allocs w = a # as" "w1 = w\<lparr>mw_allocs := as\<rparr>" "i = buffer_at (al_addr a) c"
    "map m1 (buf_addrs i) = map m (take c (buf_addrs input))" "\<And>x. x \<notin> set (buf_addrs i) \<Longrightarrow> m1 x = m x"
    "set (buf_addrs i) \<subseteq> al_block (mw_size w + buf_size input) a"
proof (cases "mw_size w \<noteq> 0 \<and> \<not> buf_data input < mw_data w \<and> buf_data input < mw_data w + mw_size w")
  case False
  have "buf_data input \<in> set (buf_addrs input)" using assms(2,3) by (simp add: buf_addrs_def)
  then have "set (buf_addrs input) \<inter> mw_block w = {}" using inp False by force
  moreover have "i = input" "w1 = w" "m1 = m" using assms(1) False by (auto simp: stage_input_def)
  ultimately show ?thesis using same by blast
next
  case True
  then obtain a as where al: "mw_allocs w = a # as"
    using assms(1) by (auto simp: stage_input_def copy_to_vector_def split: list.splits)
  let ?p = "buffer_prefix c input" and ?b = "buffer_at (al_addr a) c"
  have p: "buf_size ?p = c" "buf_addrs ?p = take c (buf_addrs input)" "buf_size ?b = c"
    using assms(3) buf_addrs_take by (auto simp: buffer_prefix_def buffer_at_def)
  have eq: "i = ?b" "w1 = w\<lparr>mw_allocs := as\<rparr>" "m1 = snd (buffer_copy ?b ?p (mem_fill (al_addr a) c 0 m))"
    using assms(1) True al by (auto simp: stage_input_def copy_to_vector_def p Let_def)
  have sub: "set (buf_addrs ?b) \<subseteq> al_block (mw_size w + buf_size input) a"
    using assms(3) by (auto simp: buf_addrs_def al_block_def buffer_at_def)
  have fill: "\<And>x. x \<notin> set (buf_addrs ?b) \<Longrightarrow> mem_fill (al_addr a) c 0 m x = m x"
    by (rule mem_fill_frame) (simp add: buf_addrs_def buffer_at_def)
  have "set (take c (buf_addrs input)) \<inter> set (buf_addrs ?b) = {}"
    using fr al sub set_take_subset [of c "buf_addrs input"] by fastforce
  then have "map (mem_fill (al_addr a) c 0 m) (take c (buf_addrs input)) = map m (take c (buf_addrs input))"
    using fill by (auto simp del: set_take_subset)
  then have "map m1 (buf_addrs ?b) = map m (take c (buf_addrs input))"
    using buffer_copy_bytes(1) [OF p(3,1)] by (simp add: eq p)
  moreover have "\<And>x. x \<notin> set (buf_addrs ?b) \<Longrightarrow> m1 x = m x"
    using buffer_copy_bytes(2) [OF p(3,1)] fill by (simp add: eq)
  ultimately show ?thesis using al eq(2,1) sub by (intro copied) (simp_all add: eq)
qed

lemma mw_fresh_head:
  "mw_fresh w b \<Longrightarrow> mw_allocs w \<noteq> [] \<longrightarrow>
     al_block (mw_size w + buf_size b) (hd (mw_allocs w)) \<inter> (mw_block w \<union> set (buf_addrs b)) = {}"
  "mw_fresh w b \<Longrightarrow> mw_allocs w = a # as \<Longrightarrow> as \<noteq> [] \<Longrightarrow>
     al_block (mw_size w + buf_size b) (hd as) \<inter>
       (mw_block w \<union> set (buf_addrs b) \<union> al_block (mw_size w + buf_size b) a) = {}"
  by (cases "mw_allocs w"; force simp: mw_fresh_def) (cases as; force simp: mw_fresh_def)

lemma al_block_mono: "n \<le> k \<Longrightarrow> al_block n a \<subseteq> al_block k a"
  by (auto simp: al_block_def)

lemma mw_append_owned:
  assumes "stage_input w input c m = Some (i, w1, m1)" "vec_resize w1 (mw_size w + c) m1 = Some (w2, m2)"
    and m3: "m3 = snd (buffer_copy (buffer_at (mw_data w2 + mw_size w) c) (buffer_prefix c i) m2)"
    and c: "0 < c" "c \<le> buf_size input" and sz: "mw_size w \<le> mw_vcap w" and fr: "mw_fresh w input"
    and inp: "set (buf_addrs input) \<inter> mw_block w = {} \<or> set (buf_addrs input) \<subseteq> {mw_data w ..< mw_data w + mw_size w}"
  shows "map m3 [mw_data w2 ..< mw_data w2 + (mw_size w + c)] =
      map m [mw_data w ..< mw_data w + mw_size w] @ map m (take c (buf_addrs input))"
proof (cases rule: stage_input_cases [OF assms(1) c sz mw_fresh_head(1) [OF fr] inp])
  case same: 1
  have "al_block (mw_size w1 + c) (hd (mw_allocs w1)) \<inter> (mw_block w1 \<union> set (take c (buf_addrs i))) = {}"
    if "mw_allocs w1 \<noteq> []"
    using mw_fresh_head(1) [OF fr] that same c(2) set_take_subset [of c "buf_addrs input"]
      al_block_mono [of "mw_size w + c" "mw_size w + buf_size input" "hd (mw_allocs w)"] by fastforce
  moreover have "set (take c (buf_addrs i)) \<inter> mw_block w1 = {}"
    using same set_take_subset [of c "buf_addrs input"] by blast
  ultimately show ?thesis
    using vec_append_effect(1) [of w1 c m1 w2 m2 i m3] assms(2) same c sz m3 by simp
next
  case copied: (2 a as)
  have w1: "mw_size w1 = mw_size w" "mw_data w1 = mw_data w" "mw_vcap w1 = mw_vcap w" "mw_block w1 = mw_block w"
    using copied by (simp_all add: mw_block_def)
  have i: "take c (buf_addrs i) = buf_addrs i" "c \<le> buf_size i" using copied by (simp_all add: buffer_at_def buf_addrs_def)
  have "al_block (mw_size w1 + c) (hd (mw_allocs w1)) \<inter> (mw_block w1 \<union> set (take c (buf_addrs i))) = {}"
    if "mw_allocs w1 \<noteq> []"
    using mw_fresh_head(2) [OF fr copied(1)] that copied(2,6) w1 i c(2)
      al_block_mono [of "mw_size w + c" "mw_size w + buf_size input" "hd (mw_allocs w1)"] by fastforce
  moreover have dis: "set (buf_addrs i) \<inter> mw_block w = {}"
    using mw_fresh_head(1) [OF fr] copied(1,6) by fastforce
  ultimately have "map m3 [mw_data w2 ..< mw_data w2 + (mw_size w + c)] =
      map m1 [mw_data w ..< mw_data w + mw_size w] @ map m1 (buf_addrs i)"
    using vec_append_effect(1) [of w1 c m1 w2 m2 i m3] assms(2) c sz m3 w1 i by simp
  moreover have "m1 x = m x" if "x \<in> {mw_data w ..< mw_data w + mw_size w}" for x
    using copied(5) [of x] dis that sz by (force simp: mw_block_def)
  ultimately show ?thesis using copied(4) by simp
qed

definition mw_count :: "memory_write_stream \<Rightarrow> buffer \<Rightarrow> nat" where
  "mw_count w input = (if mw_capacity w = dynamic_extent_limit then buf_size input
                       else min (buf_size input) (mw_remaining_capacity w))"

lemma mw_write_some_eq:
  "mw_write_some w input m =
     (let c = mw_count w input in
      if c = 0 then Some (io_success 0, w, m)
      else if mw_borrowed w then
        Some (io_success c, w\<lparr>mw_position := mw_position w + c\<rparr>,
          snd (buffer_copy (buffer_at (buf_data (mw_output w) + mw_position w) c) (buffer_prefix c input) m))
      else if c > vec_max_size - mw_size w then Some (io_failure (make_error_code Value_too_large) 0, w, m)
      else case stage_input w input c m of None \<Rightarrow> None
         | Some (i, w1, m1) \<Rightarrow> (case vec_resize w1 (mw_size w + c) m1 of None \<Rightarrow> None
            | Some (w2, m2) \<Rightarrow> Some (io_success c, w2,
                snd (buffer_copy (buffer_at (mw_data w2 + mw_size w) c) (buffer_prefix c i) m2))))"
  unfolding mw_write_some_def mw_count_def Let_def buf_empty_def by simp

lemma mw_write_some_cases:
  assumes "mw_write_some w input m = Some (r, w', m')"
  obtains (idle) "w' = w" "m' = m" "res_values r = 0" "mw_count w input = 0 \<or> io_status r = SError"
  | (borrowed) "r = io_success (mw_count w input)" "0 < mw_count w input" "mw_borrowed w"
    "w' = w\<lparr>mw_position := mw_position w + mw_count w input\<rparr>"
    "m' = snd (buffer_copy (buffer_at (buf_data (mw_output w) + mw_position w) (mw_count w input))
            (buffer_prefix (mw_count w input) input) m)"
  | (owned) i w1 m1 m2 where "r = io_success (mw_count w input)" "0 < mw_count w input" "\<not> mw_borrowed w"
    "stage_input w input (mw_count w input) m = Some (i, w1, m1)"
    "vec_resize w1 (mw_size w + mw_count w input) m1 = Some (w', m2)"
    "m' = snd (buffer_copy (buffer_at (mw_data w' + mw_size w) (mw_count w input))
            (buffer_prefix (mw_count w input) i) m2)"
proof -
  let ?c = "mw_count w input"
  note eq = assms [unfolded mw_write_some_eq Let_def]
  consider "?c = 0" | "0 < ?c" "mw_borrowed w" | "0 < ?c" "\<not> mw_borrowed w" "?c > vec_max_size - mw_size w"
    | "0 < ?c" "\<not> mw_borrowed w" "\<not> ?c > vec_max_size - mw_size w" by blast
  then show ?thesis
  proof cases
    case 1
    then have "r = io_success 0" "w' = w" "m' = m" using eq by auto
    then show ?thesis using 1 idle by simp
  next
    case 2
    then show ?thesis using eq borrowed by simp
  next
    case 3
    then have "r = io_failure (make_error_code Value_too_large) 0" "w' = w" "m' = m" using eq by auto
    then show ?thesis using idle by simp
  next
    case 4
    then show ?thesis using eq owned by (auto split: option.splits)
  qed
qed

lemma mw_count_le: "mw_count w input \<le> buf_size input"
  by (simp add: mw_count_def)

lemma mw_write_borrowed:
  assumes "mw_ok w" "mw_borrowed w" "c = mw_count w input"
    and m': "m' = snd (buffer_copy (buffer_at (buf_data (mw_output w) + mw_position w) c) (buffer_prefix c input) m)"
  shows "map m' [buf_data (mw_output w) ..< buf_data (mw_output w) + (mw_position w + c)] =
      map m [buf_data (mw_output w) ..< buf_data (mw_output w) + mw_position w] @ map m (take c (buf_addrs input))"
    and "mw_position w + c \<le> mw_capacity w"
    and "x \<notin> set (buf_addrs (mw_output w)) \<Longrightarrow> m' x = m x"
proof -
  let ?a = "buf_data (mw_output w)"
  let ?d = "buffer_at (?a + mw_position w) c"
  have c: "c \<le> buf_size input" "mw_position w + c \<le> mw_capacity w" "mw_capacity w = buf_size (mw_output w)"
    using assms(1-3) by (auto simp: mw_count_def mw_ok_def mw_remaining_capacity_def mw_length_def Let_def)
  have d: "buf_addrs ?d = [?a + mw_position w ..< ?a + (mw_position w + c)]" "buf_size ?d = c"
    by (simp_all add: buf_addrs_def buffer_at_def add.assoc)
  have s: "buf_addrs (buffer_prefix c input) = take c (buf_addrs input)" "buf_size (buffer_prefix c input) = c"
    using c(1) buf_addrs_take by (auto simp: buffer_prefix_def buffer_at_def)
  have copy: "map m' (buf_addrs ?d) = map m (take c (buf_addrs input))" "\<And>x. x \<notin> set (buf_addrs ?d) \<Longrightarrow> m' x = m x"
    unfolding m' using buffer_copy_bytes [OF d(2) s(2)] by (simp_all add: s)
  have "map m' [?a ..< ?a + mw_position w] = map m [?a ..< ?a + mw_position w]" using copy(2) by (auto simp: d)
  moreover have "[?a ..< ?a + (mw_position w + c)] = [?a ..< ?a + mw_position w] @ buf_addrs ?d"
    using upt_add_eq_append [of ?a "?a + mw_position w" c] by (simp add: d add.assoc)
  ultimately show "map m' [?a ..< ?a + (mw_position w + c)] =
      map m [?a ..< ?a + mw_position w] @ map m (take c (buf_addrs input))"
    using copy(1) by (metis map_append)
  show "mw_position w + c \<le> mw_capacity w" by (rule c(2))
  show "x \<notin> set (buf_addrs (mw_output w)) \<Longrightarrow> m' x = m x"
    using copy(2) [of x] c(2,3) unfolding d(1) by (auto simp: buf_addrs_def)
qed

lemma mw_written_simps:
  "mw_borrowed w \<Longrightarrow> mw_written w m = map m [buf_data (mw_output w) ..< buf_data (mw_output w) + mw_position w]"
  "\<not> mw_borrowed w \<Longrightarrow> mw_written w m = map m [mw_data w ..< mw_data w + mw_size w]"
  by (simp_all add: mw_written_def mw_bytes_def buf_addrs_def buffer_at_def)

lemma memory_write_appends_aux:
  assumes run: "mw_write_some w input m = Some (r, w', m')" and "mw_ok w" and "mw_fresh w input"
    and "mw_borrowed w \<or> set (buf_addrs input) \<inter> mw_block w = {} \<or>
         set (buf_addrs input) \<subseteq> {mw_data w ..< mw_data w + mw_size w}"
  shows "res_values r \<le> buf_size input \<and>
    mw_written w' m' = mw_written w m @ map m (take (res_values r) (buf_addrs input))"
proof (cases rule: mw_write_some_cases [OF run])
  case 1
  then show ?thesis by simp
next
  case b: 2
  then show ?thesis
    using mw_write_borrowed(1) [OF assms(2) b(3) refl b(5)] mw_count_le [of w input]
    by (simp add: mw_written_simps)
next
  case o: (3 i w1 m1 m2)
  have sz: "mw_size w \<le> mw_vcap w" using assms(2) o(3) by (simp add: mw_ok_def)
  obtain as where w1: "w1 = w\<lparr>mw_allocs := as\<rparr>"
    using o(4) by (auto simp: stage_input_def copy_to_vector_def Let_def split: if_splits list.splits intro: that [of "mw_allocs w"])
  then have w': "mw_size w' = mw_size w + mw_count w input" "\<not> mw_borrowed w'"
    using o(3,5) by (auto simp: vec_resize_def Let_def split: if_splits list.splits)
  show ?thesis
    using mw_append_owned [OF o(4,5,6) o(2) mw_count_le sz assms(3)] assms(4) o(1,3) w' mw_count_le [of w input]
    by (simp add: mw_written_simps)
qed

text \<open>
  The writer as a sink for \<open>write_all\<close>, with an input outside the stream's own memory.
\<close>

definition mw_fits :: "memory_write_stream \<Rightarrow> buffer \<Rightarrow> bool" where
  "mw_fits w b \<longleftrightarrow> mw_ok w \<and> mw_fresh w b \<and>
     (if mw_borrowed w then set (buf_addrs b) \<inter> set (buf_addrs (mw_output w)) = {}
      else set (buf_addrs b) \<inter> mw_block w = {})"

definition mw_accepts :: "memory_write_stream \<Rightarrow> nat \<Rightarrow> bool" where
  "mw_accepts w n \<longleftrightarrow> n = 0 \<or>
     (mw_capacity w = dynamic_extent_limit \<or> n \<le> mw_remaining_capacity w) \<and>
     (\<not> mw_borrowed w \<longrightarrow> mw_size w + n \<le> vec_max_size \<and> (mw_size w + n \<le> mw_vcap w \<or> mw_allocs w \<noteq> []))"

lemma fresh_blocks_mono: "fresh_blocks n V as \<Longrightarrow> k \<le> n \<Longrightarrow> U \<subseteq> V \<Longrightarrow> fresh_blocks k U as"
proof (induction as arbitrary: U V)
  case (Cons a as)
  have sub: "al_block k a \<subseteq> al_block n a" using al_block_mono [OF Cons.prems(2)] .
  have "fresh_blocks k (U \<union> al_block k a) as"
    by (rule Cons.IH [of "V \<union> al_block n a"]) (use Cons.prems sub in auto)
  then show ?case using Cons.prems sub by auto
qed simp

lemma buf_advance_simps [simp]:
  "buf_size (buf_advance b n) = buf_size b - n" "buf_advance b 0 = b"
  by (auto simp: buf_advance_def buffer_at_def buf_addrs_def)

lemma buf_advance_subset: "set (buf_addrs (buf_advance b n)) \<subseteq> set (buf_addrs b)"
  by (auto simp: buf_advance_def buffer_at_def buf_addrs_def)

lemma stage_input_outside:
  "set (buf_addrs input) \<inter> mw_block w = {} \<Longrightarrow> mw_size w \<le> mw_vcap w \<Longrightarrow> 0 < buf_size input \<Longrightarrow>
   stage_input w input c m = Some (input, w, m)"
proof -
  assume h: "set (buf_addrs input) \<inter> mw_block w = {}" "mw_size w \<le> mw_vcap w" "0 < buf_size input"
  have "buf_data input \<in> set (buf_addrs input)" using h(3) by (simp add: buf_addrs_def)
  then show ?thesis using h(1,2) by (auto simp: stage_input_def mw_block_def)
qed

lemma mw_fits_owned_step:
  assumes "mw_fits w b" "\<not> mw_borrowed w" "c \<le> buf_size b" "0 < c"
    and rs: "vec_resize w (mw_size w + c) m = Some (w', m2)"
    and m': "m' = snd (buffer_copy (buffer_at (mw_data w' + mw_size w) c) (buffer_prefix c b) m2)"
  shows "mw_fits w' (buf_advance b c)" and "map m' (buf_addrs b) = map m (buf_addrs b)"
proof -
  let ?n = "mw_size w + buf_size b"
  have h: "mw_size w \<le> mw_vcap w" "mw_fresh w b" "set (buf_addrs b) \<inter> mw_block w = {}"
    using assms(1,2) by (auto simp: mw_fits_def mw_ok_def)
  have al: "mw_allocs w \<noteq> [] \<longrightarrow> al_block (mw_size w + c) (hd (mw_allocs w)) \<inter> (mw_block w \<union> set (buf_addrs b)) = {}"
    using mw_fresh_head(1) [OF h(2)] al_block_mono [of "mw_size w + c" ?n "hd (mw_allocs w)"] assms(3) by fastforce
  then have al1: "mw_allocs w \<noteq> [] \<longrightarrow> al_block (mw_size w + c) (hd (mw_allocs w)) \<inter> mw_block w = {}"
    and al2: "mw_allocs w \<noteq> [] \<longrightarrow> al_block (mw_size w + c) (hd (mw_allocs w)) \<inter> (mw_block w \<union> set (take c (buf_addrs b))) = {}"
    using set_take_subset [of c "buf_addrs b"] by fastforce+
  note R = vec_resize_effect [OF rs _ h(1) al1, simplified]
  have n: "mw_size w' + buf_size (buf_advance b c) = ?n" using R assms(3) by simp
  have blk: "set (buf_addrs b) \<inter> mw_block w' = {} \<and> mw_fresh w' (buf_advance b c)"
  proof (cases "mw_block w' = mw_block w \<and> mw_allocs w' = mw_allocs w")
    case True
    moreover have "mw_block w \<union> set (buf_addrs (buf_advance b c)) \<subseteq> mw_block w \<union> set (buf_addrs b)"
      using buf_advance_subset by blast
    ultimately show ?thesis using h(2,3) n unfolding mw_fresh_def by (auto intro: fresh_blocks_mono)
  next
    case False
    then obtain a as where a: "mw_allocs w = a # as" "mw_allocs w' = as" "mw_block w' = al_block (mw_size w + c) a"
      using R by blast
    have sub: "mw_block w' \<union> set (buf_addrs (buf_advance b c)) \<subseteq> mw_block w \<union> set (buf_addrs b) \<union> al_block ?n a"
      using al_block_mono [of "mw_size w + c" ?n a] buf_advance_subset [of b c] assms(3) a(3) by auto
    have "fresh_blocks ?n (mw_block w \<union> set (buf_addrs b) \<union> al_block ?n a) as"
      using h(2) a(1) by (simp add: mw_fresh_def)
    then have "mw_fresh w' (buf_advance b c)"
      using fresh_blocks_mono [OF _ order_refl sub] unfolding mw_fresh_def n a(2) by blast
    then show ?thesis using al a(1,3) by auto
  qed
  show "mw_fits w' (buf_advance b c)"
    using blk R assms(2) buf_advance_subset [of b c] by (auto simp: mw_fits_def mw_ok_def)
  have "set (take c (buf_addrs b)) \<inter> mw_block w = {}" using h(3) set_take_subset [of c "buf_addrs b"] by blast
  then show "map m' (buf_addrs b) = map m (buf_addrs b)"
    using vec_append_effect(2) [OF rs h(1) assms(3) al2 _ m'] blk h(3) by auto
qed

interpretation mw: write_sink mw_write_some mw_written mw_fits mw_accepts
proof (unfold_locales, goal_cases)
  case (1 w b m r w' m')
  have hyp: "mw_ok w" "mw_fresh w b" "mw_borrowed w \<or> set (buf_addrs b) \<inter> mw_block w = {} \<or>
     set (buf_addrs b) \<subseteq> {mw_data w ..< mw_data w + mw_size w}"
    using 1(1) by (auto simp: mw_fits_def)
  have le: "mw_count w b \<le> buf_size b" by (rule mw_count_le)
  have app: "mw_written w' m' = mw_written w m @ map m (take (res_values r) (buf_addrs b))"
    using memory_write_appends_aux [OF 1(2) hyp] by simp
  show ?case
  proof (cases rule: mw_write_some_cases [OF 1(2)])
    case 1
    then show ?thesis using \<open>mw_fits w b\<close> by simp
  next
    case b: 2
    have "map m' (buf_addrs b) = map m (buf_addrs b)"
      using mw_write_borrowed(3) [OF hyp(1) b(3) refl b(5)] 1(1) b(3) by (auto simp: mw_fits_def)
    moreover have "mw_fresh w' (buf_advance b (mw_count w b))"
      using hyp(2) buf_advance_subset [of b "mw_count w b"] unfolding mw_fresh_def b(4)
      by (auto simp: mw_block_def elim!: fresh_blocks_mono)
    then have "mw_fits w' (buf_advance b (mw_count w b))"
      using 1(1) b(3,4) mw_write_borrowed(2) [OF hyp(1) b(3) refl b(5)] buf_advance_subset [of b "mw_count w b"]
      by (auto simp: mw_fits_def mw_ok_def)
    ultimately show ?thesis using app le by (simp add: b(1))
  next
    case o: (3 i w1 m1 m2)
    have "stage_input w b (mw_count w b) m = Some (b, w, m)"
      using 1(1) o(2,3) le by (intro stage_input_outside) (auto simp: mw_fits_def mw_ok_def)
    then have "i = b" "w1 = w" "m1 = m" using o(4) by auto
    then show ?thesis using mw_fits_owned_step [OF 1(1) o(3) le o(2)] o(5,6) app le by (simp add: o(1))
  qed
next
  case (2 w b m)
  have c: "mw_count w b = buf_size b" using 2(2,3) by (auto simp: mw_count_def mw_accepts_def)
  show ?case
  proof (cases "mw_borrowed w")
    case True
    then show ?thesis using c 2(3) by (simp add: mw_write_some_eq mw_accepts_def Let_def)
  next
    case False
    have "stage_input w b (buf_size b) m = Some (b, w, m)"
      using 2(1,3) False by (intro stage_input_outside) (auto simp: mw_fits_def mw_ok_def)
    moreover have "vec_resize w (mw_size w + buf_size b) m \<noteq> None"
      using 2(2,3) False by (auto simp: mw_accepts_def vec_resize_def Let_def split: list.splits)
    ultimately show ?thesis
      using c 2(2,3) False by (auto simp: mw_write_some_eq mw_accepts_def Let_def)
  qed
qed

section \<open>Both ways\<close>

text \<open>
  \<open>memory_stream\<close> pairs a reader with a writer.  Reading leaves the writer as it is and writing
  the reader, so the pair meets both contracts; only memory the two share could couple them.
  A default-constructed reader has no input and a default-constructed writer no bound.
\<close>

record memory_stream =
  ms_reader :: memory_read_stream
  ms_writer :: memory_write_stream

definition ms_make :: "buffer \<Rightarrow> alloc list \<Rightarrow> memory_stream option" where
  "ms_make input allocs =
     map_option (\<lambda>w. \<lparr>ms_reader = mr_make input dynamic_extent_limit, ms_writer = w\<rparr>) (mw_make dynamic_extent_limit allocs)"

definition ms_make_capacity :: "buffer \<Rightarrow> nat \<Rightarrow> alloc list \<Rightarrow> memory_stream option" where
  "ms_make_capacity input write_capacity allocs =
     map_option (\<lambda>w. \<lparr>ms_reader = mr_make input dynamic_extent_limit, ms_writer = w\<rparr>) (mw_make write_capacity allocs)"

definition ms_make_borrowed :: "buffer \<Rightarrow> buffer \<Rightarrow> memory_stream" where
  "ms_make_borrowed input output = \<lparr>ms_reader = mr_make input dynamic_extent_limit, ms_writer = mw_make_borrowed output\<rparr>"

definition ms_read_some :: "memory_stream reader" where
  "ms_read_some s output m =
     (case mr_read_some (ms_reader s) output m of (r, reader, m') \<Rightarrow> (r, s\<lparr>ms_reader := reader\<rparr>, m'))"

definition ms_write_some :: "memory_stream writer" where
  "ms_write_some s input m =
     map_option (\<lambda>(r, writer, m'). (r, s\<lparr>ms_writer := writer\<rparr>, m')) (mw_write_some (ms_writer s) input m)"

definition ms_written_bytes :: "memory_stream \<Rightarrow> buffer" where
  "ms_written_bytes s = mw_bytes (ms_writer s)"

lemma ms_read_some_iff:
  "ms_read_some s out m = (r, s', m') \<longleftrightarrow> mr_read_some (ms_reader s) out m = (r, ms_reader s', m') \<and> ms_writer s' = ms_writer s"
  by (cases s; cases s') (auto simp: ms_read_some_def split: prod.splits)

lemma ms_write_some_iff:
  "ms_write_some s b m = Some (r, s', m') \<longleftrightarrow>
     mw_write_some (ms_writer s) b m = Some (r, ms_writer s', m') \<and> ms_reader s' = ms_reader s"
  by (cases s; cases s') (auto simp: ms_write_some_def)

interpretation ms_in: read_source ms_read_some "\<lambda>s. mr_content (ms_reader s)" "\<lambda>s. mr_fits (ms_reader s)" "\<lambda>s. Ends_eof"
proof (unfold_locales, goal_cases)
  case 1
  then show ?case by (rule mr.fits_mono)
next
  case 2
  then show ?case by (auto simp: ms_read_some_iff intro: mr.fits_step)
next
  case (3 s A m' m)
  then show ?case using mr.content_frame [of "ms_reader s" A m' m] by blast
next
  case 4
  then show ?case unfolding ms_read_some_iff by (elim conjE) (rule mr.read_bytes)
next
  case 5
  then show ?case by (auto simp: ms_read_some_iff dest: mr.read_progress)
next
  case 6
  then show ?case by (auto simp: ms_read_some_iff dest: mr.read_value)
next
  case 7
  then show ?case by (auto simp: ms_read_some_iff dest: mr.read_last)
next
  case 8
  then show ?case by (auto simp: ms_read_some_iff dest: mr.read_dry)
qed simp

interpretation ms_out: write_sink ms_write_some "\<lambda>s. mw_written (ms_writer s)" "\<lambda>s. mw_fits (ms_writer s)" "\<lambda>s. mw_accepts (ms_writer s)"
proof (unfold_locales, goal_cases)
  case 1
  then show ?case unfolding ms_write_some_iff by (elim conjE) (rule mw.write_bytes)
next
  case (2 s b m)
  obtain r w' m' where "mw_write_some (ms_writer s) b m = Some (r, w', m')" "io_status r \<noteq> SError" "0 < res_values r"
    "mw_accepts w' (buf_size b - res_values r)" using mw.write_accepts [OF 2] by blast
  then show ?case by (intro exI [of _ r] exI [of _ "s\<lparr>ms_writer := w'\<rparr>"] exI [of _ m']) (simp add: ms_write_some_iff)
qed

text \<open>
  The two directions do not disturb each other: a read keeps the written bytes unless it stores
  into them, and a write keeps what is still to be read unless it stores into that.
\<close>

lemma ms_directions_independent:
  "ms_read_some s out m = (r, s', m') \<Longrightarrow> mr_fits (ms_reader s) (set (buf_addrs out)) \<Longrightarrow>
     set (buf_addrs out) \<inter> set (buf_addrs (ms_written_bytes s)) = {} \<Longrightarrow> mw_written (ms_writer s') m' = mw_written (ms_writer s) m"
  "ms_write_some s b m = Some (r, s', m') \<Longrightarrow> (\<And>a. a \<in> set (buf_addrs (mr_input (ms_reader s))) \<Longrightarrow> m' a = m a) \<Longrightarrow>
     mr_content (ms_reader s') m' = mr_content (ms_reader s) m"
proof -
  assume r: "ms_read_some s out m = (r, s', m')" and f: "mr_fits (ms_reader s) (set (buf_addrs out))"
    and d: "set (buf_addrs out) \<inter> set (buf_addrs (ms_written_bytes s)) = {}"
  have w: "ms_writer s' = ms_writer s" using r by (simp add: ms_read_some_iff)
  have "m' a = m a" if "a \<in> set (buf_addrs (mw_bytes (ms_writer s)))" for a
    using ms_in.read_bytes [OF f r] d that by (auto simp: ms_written_bytes_def dest: in_set_takeD)
  then show "mw_written (ms_writer s') m' = mw_written (ms_writer s) m" by (simp add: w mw_written_def)
next
  assume "ms_write_some s b m = Some (r, s', m')" and e: "\<And>a. a \<in> set (buf_addrs (mr_input (ms_reader s))) \<Longrightarrow> m' a = m a"
  then have "ms_reader s' = ms_reader s" by (simp add: ms_write_some_iff)
  then show "mr_content (ms_reader s') m' = mr_content (ms_reader s) m" using e by (auto simp: mr_content_def dest: in_set_dropD)
qed

section \<open>Scripted reads\<close>

datatype step_kind = Bytes | Error | Eof

record scripted_read_step =
  st_kind :: step_kind
  st_bytes :: "byte list"
  st_position :: nat
  st_error :: error_code
  st_completes_with_error :: bool

definition step_bytes :: "byte list \<Rightarrow> scripted_read_step" where
  "step_bytes bs = \<lparr>st_kind = Bytes, st_bytes = bs, st_position = 0, st_error = no_error,
     st_completes_with_error = False\<rparr>"

definition step_bytes_then_error :: "byte list \<Rightarrow> error_code \<Rightarrow> scripted_read_step" where
  "step_bytes_then_error bs e = (step_bytes bs)\<lparr>st_error := e, st_completes_with_error := True\<rparr>"

definition step_error :: "error_code \<Rightarrow> scripted_read_step" where
  "step_error e = \<lparr>st_kind = Error, st_bytes = [], st_position = 0, st_error = e,
     st_completes_with_error = False\<rparr>"

definition step_eof :: scripted_read_step where
  "step_eof = \<lparr>st_kind = Eof, st_bytes = [], st_position = 0, st_error = no_error,
     st_completes_with_error = False\<rparr>"

definition sc_push :: "scripted_read_step list \<Rightarrow> scripted_read_step \<Rightarrow> scripted_read_step list" where
  "sc_push steps step = steps @ [step]"

text \<open>Writing a list of bytes into memory, as \<open>buffer_copy\<close> does from a step's vector.\<close>

definition store_bytes :: "addr \<Rightarrow> byte list \<Rightarrow> mem \<Rightarrow> mem" where
  "store_bytes a bs m = (\<lambda>x. if a \<le> x \<and> x < a + length bs then bs ! (x - a) else m x)"

definition read_bytes_step ::
  "scripted_read_step \<Rightarrow> scripted_read_step list \<Rightarrow> buffer \<Rightarrow> mem \<Rightarrow>
   nat io_result \<times> scripted_read_step list \<times> mem" where
  "read_bytes_step step steps output m =
     (let available = length (st_bytes step) - st_position step in
      if available = 0 then
        (if st_completes_with_error step then (io_failure (st_error step) 0, steps, m)
         else (io_end_of_file 0, steps, m))
      else
        (let copied = min (buf_size output) available;
             m1 = store_bytes (buf_data output) (take copied (drop (st_position step) (st_bytes step))) m;
             step1 = step\<lparr>st_position := st_position step + copied\<rparr>
         in if st_position step1 = length (st_bytes step1) then
              (if st_completes_with_error step1 then (io_failure (st_error step1) copied, steps, m1)
               else (io_success copied, steps, m1))
            else (io_success copied, step1 # steps, m1)))"

fun sc_read_loop ::
  "scripted_read_step list \<Rightarrow> buffer \<Rightarrow> mem \<Rightarrow> nat io_result \<times> scripted_read_step list \<times> mem" where
  "sc_read_loop [] output m = (io_end_of_file 0, [], m)"
| "sc_read_loop (step # steps) output m =
     (case st_kind step of
        Eof \<Rightarrow> (io_end_of_file 0, step # steps, m)
      | Error \<Rightarrow> (io_failure (st_error step) 0, steps, m)
      | Bytes \<Rightarrow>
          if st_position step = length (st_bytes step) \<and> \<not> st_completes_with_error step
          then sc_read_loop steps output m
          else read_bytes_step step steps output m)"

definition sc_read_some :: "scripted_read_step list reader" where
  "sc_read_some steps output m =
     (if buf_empty output then (io_success 0, steps, m) else sc_read_loop steps output m)"

fun sc_content :: "scripted_read_step list \<Rightarrow> byte list" where
  "sc_content [] = []"
| "sc_content (step # steps) =
     (if st_kind step = Bytes
      then drop (st_position step) (st_bytes step) @
        (if st_completes_with_error step then [] else sc_content steps)
      else [])"

text \<open>How the content ends: an error comes with the last byte of its own step, if that has bytes left.\<close>

fun sc_ending :: "scripted_read_step list \<Rightarrow> ending" where
  "sc_ending [] = Ends_eof"
| "sc_ending (step # steps) =
     (case st_kind step of
        Eof \<Rightarrow> Ends_eof
      | Error \<Rightarrow> Fails_after (st_error step)
      | Bytes \<Rightarrow>
          if \<not> st_completes_with_error step then sc_ending steps
          else if drop (st_position step) (st_bytes step) = [] then Fails_after (st_error step)
          else Fails_with (st_error step))"

definition sc_ok :: "scripted_read_step list \<Rightarrow> bool" where
  "sc_ok steps \<longleftrightarrow> (\<forall>step \<in> set steps. st_position step \<le> length (st_bytes step))"

lemma store_bytes_simps:
  "map (store_bytes a bs m) [a ..< a + length bs] = bs"
  "x \<notin> {a ..< a + length bs} \<Longrightarrow> store_bytes a bs m x = m x"
  by (auto simp: store_bytes_def intro!: nth_equalityI)

lemma store_bytes_Nil [simp]: "store_bytes a [] m = m"
  by (auto simp: store_bytes_def fun_eq_iff)

definition sc_result ::
  "scripted_read_step list \<Rightarrow> buffer \<Rightarrow> mem \<Rightarrow> nat io_result \<Rightarrow> scripted_read_step list \<Rightarrow> mem \<Rightarrow> bool" where
  "sc_result steps out m r steps' m' \<longleftrightarrow>
     sc_ok steps' \<and> res_values r \<le> buf_size out \<and> res_values r \<le> length (sc_content steps) \<and>
     m' = store_bytes (buf_data out) (take (res_values r) (sc_content steps)) m \<and>
     (io_status r \<noteq> SError \<longrightarrow> sc_content steps' = drop (res_values r) (sc_content steps)) \<and>
     (sc_content steps \<noteq> [] \<longrightarrow> 0 < res_values r) \<and>
     (res_values r < length (sc_content steps) \<longrightarrow> io_status r = SValue) \<and>
     (sc_content steps \<noteq> [] \<longrightarrow> res_values r = length (sc_content steps) \<longrightarrow> last_byte (sc_ending steps) r) \<and>
     (sc_content steps = [] \<longrightarrow> ended (sc_ending steps) r) \<and>
     (io_status r \<noteq> SError \<longrightarrow> sc_ending steps' = sc_ending steps)"

lemma sc_ending_with: "sc_content steps = [] \<Longrightarrow> sc_ending steps \<noteq> Fails_with e"
  by (induction steps) (auto split: step_kind.splits if_splits)

lemma sc_last_value: "sc_content steps = [] \<Longrightarrow> io_status r = SValue \<Longrightarrow> last_byte (sc_ending steps) r"
  using sc_ending_with [of steps] by (cases "sc_ending steps") auto

lemma read_bytes_step_result:
  assumes "st_kind step = Bytes" "sc_ok (step # steps)" "0 < buf_size out"
    and "st_position step \<noteq> length (st_bytes step) \<or> st_completes_with_error step"
    and run: "read_bytes_step step steps out m = (r, steps', m')"
  shows "sc_result (step # steps) out m r steps' m'"
proof (cases "st_position step = length (st_bytes step)")
  case True
  then show ?thesis using assms(1,2,4) run
    by (auto simp: read_bytes_step_def sc_result_def sc_ok_def)
next
  case False
  define av where "av = length (st_bytes step) - st_position step"
  have av: "0 < av" "st_position step + av = length (st_bytes step)"
    using False assms(2) by (auto simp: av_def sc_ok_def)
  define c where "c = min (buf_size out) av"
  let ?bs = "take c (drop (st_position step) (st_bytes step))"
  have c: "0 < c" "c \<le> buf_size out" "c \<le> av" using av assms(3) by (auto simp: c_def)
  have pre: "take c (sc_content (step # steps)) = ?bs" "c \<le> length (sc_content (step # steps))"
    "drop c (sc_content (step # steps)) = drop (st_position step + c) (st_bytes step) @
      (if st_completes_with_error step then [] else sc_content steps)"
    using assms(1) av c by (auto simp: add.commute)
  have run': "m' = store_bytes (buf_data out) ?bs m \<and> res_values r = c \<and>
     (c = av \<and> steps' = steps \<and> (if st_completes_with_error step then io_status r = SError \<and> res_error r = st_error step else io_status r = SValue) \<or>
      c \<noteq> av \<and> steps' = step\<lparr>st_position := st_position step + c\<rparr> # steps \<and> io_status r = SValue)"
  proof -
    have "st_position step + c = length (st_bytes step) \<longleftrightarrow> c = av" using av by auto
    then have "read_bytes_step step steps out m =
      (if c = av then (if st_completes_with_error step then (io_failure (st_error step) c, steps, store_bytes (buf_data out) ?bs m)
                       else (io_success c, steps, store_bytes (buf_data out) ?bs m))
       else (io_success c, step\<lparr>st_position := st_position step + c\<rparr> # steps, store_bytes (buf_data out) ?bs m))"
      using av(1) unfolding read_bytes_step_def Let_def av_def [symmetric] c_def [symmetric] by simp
    then show ?thesis using run by (auto split: if_splits)
  qed
  have ok: "sc_ok steps'" using run' assms(2) av c by (auto simp: sc_ok_def)
  have "io_status r \<noteq> SError \<longrightarrow> sc_content steps' = drop c (sc_content (step # steps))"
    using run' pre(3) av assms(1) by (auto split: if_splits)
  moreover have "c < length (sc_content (step # steps)) \<longrightarrow> io_status r = SValue"
    using run' av assms(1) by (auto simp: av_def)
  moreover have "sc_content (step # steps) \<noteq> []" using pre(2) c(1) by force
  moreover have "last_byte (sc_ending (step # steps)) r" if all: "c = length (sc_content (step # steps))"
  proof (cases "st_completes_with_error step")
    case True
    then have "c = av" using all assms(1) av by simp
    then show ?thesis using run' True assms(1) av by (auto simp: av_def)
  next
    case no: False
    then have "length (sc_content (step # steps)) = av + length (sc_content steps)" using assms(1) av by (simp add: av_def)
    then have "c = av" "length (sc_content steps) = 0" using all c(3) by linarith+
    then have "c = av" "sc_content steps = []" by simp_all
    then show ?thesis using run' no assms(1) sc_last_value [of steps r] by auto
  qed
  moreover have "sc_ending steps' = sc_ending (step # steps)" if "io_status r \<noteq> SError"
    using run' that assms(1) av c by (auto simp: av_def split: if_splits)
  ultimately show ?thesis using run' pre(1,2) c ok unfolding sc_result_def by auto
qed

lemma sc_read_loop_result:
  "sc_ok steps \<Longrightarrow> 0 < buf_size out \<Longrightarrow> sc_read_loop steps out m = (r, steps', m') \<Longrightarrow>
   sc_result steps out m r steps' m'"
proof (induction steps)
  case Nil
  then show ?case by (auto simp: sc_result_def sc_ok_def)
next
  case (Cons step steps)
  show ?case
  proof (cases "st_kind step")
    case Bytes
    show ?thesis
    proof (cases "st_position step = length (st_bytes step) \<and> \<not> st_completes_with_error step")
      case True
      then have "sc_result steps out m r steps' m'"
        using Cons Bytes by (intro Cons.IH) (auto simp: sc_ok_def)
      then show ?thesis using True Bytes by (simp add: sc_result_def)
    next
      case False
      then show ?thesis using Cons.prems Bytes by (intro read_bytes_step_result) auto
    qed
  qed (use Cons.prems in \<open>auto simp: sc_result_def sc_ok_def\<close>)
qed

lemma sc_result_effect:
  assumes "sc_result steps out m r steps' m'"
  shows "map m' (take (res_values r) (buf_addrs out)) = take (res_values r) (sc_content steps)"
    and "a \<notin> set (take (res_values r) (buf_addrs out)) \<Longrightarrow> m' a = m a"
proof -
  let ?bs = "take (res_values r) (sc_content steps)"
  have len: "length ?bs = res_values r" and m': "m' = store_bytes (buf_data out) ?bs m"
    and le: "res_values r \<le> buf_size out" using assms by (auto simp: sc_result_def)
  have tk: "take (res_values r) (buf_addrs out) = [buf_data out ..< buf_data out + length ?bs]"
    using le unfolding len by (simp add: buf_addrs_def take_upt)
  show "map m' (take (res_values r) (buf_addrs out)) = ?bs" unfolding m' tk by (rule store_bytes_simps)
  show "a \<notin> set (take (res_values r) (buf_addrs out)) \<Longrightarrow> m' a = m a"
    unfolding m' tk by (rule store_bytes_simps) auto
qed

lemma sc_read_some_cases:
  assumes "sc_read_some steps out m = (r, steps', m')" "sc_ok steps"
  obtains "buf_size out = 0" "r = io_success 0" "steps' = steps" "m' = m"
  | "0 < buf_size out" "sc_result steps out m r steps' m'"
  using assms sc_read_loop_result [of steps out m r steps' m']
  by (cases "buf_size out = 0") (auto simp: sc_read_some_def buf_empty_def)

interpretation sc: read_source sc_read_some "\<lambda>steps m. sc_content steps" "\<lambda>steps A. sc_ok steps" sc_ending
proof (unfold_locales, goal_cases)
  case (2 steps A out m r steps' m')
  then show ?case by (cases rule: sc_read_some_cases [OF 2(2,1)]) (auto simp: sc_result_def)
next
  case (4 steps out m r steps' m')
  show ?case
  proof (cases rule: sc_read_some_cases [OF 4(2,1)])
    case 1
    then show ?thesis by simp
  next
    case 2
    then show ?thesis using sc_result_effect [OF 2(2)] by (auto simp: sc_result_def)
  qed
next
  case (5 steps out m r steps' m')
  then show ?case by (cases rule: sc_read_some_cases [OF 5(2,1)]) (auto simp: sc_result_def)
next
  case (6 steps out m r steps' m')
  then show ?case by (cases rule: sc_read_some_cases [OF 6(2,1)]) (auto simp: sc_result_def)
next
  case (7 steps out m r steps' m')
  then show ?case by (cases rule: sc_read_some_cases [OF 7(2,1)]) (auto simp: sc_result_def)
next
  case (8 steps out m r steps' m')
  then show ?case by (cases rule: sc_read_some_cases [OF 8(2,1)]) (auto simp: sc_result_def)
next
  case (9 steps out m r steps' m')
  then show ?case by (cases rule: sc_read_some_cases [OF 9(2,1)]) (auto simp: sc_result_def)
qed simp_all

section \<open>Guarantees\<close>

text \<open>
  A write appends: whatever \<open>write_some\<close> reports as written has been appended, byte for
  byte, to the bytes the stream held, also when the vector moves to a new block and when
  the input lies inside the stream's own storage.
\<close>

theorem memory_write_appends:
  assumes "mw_write_some w input m = Some (r, w', m')" and "mw_ok w" and "mw_fresh w input"
    and "mw_borrowed w \<or> set (buf_addrs input) \<inter> mw_block w = {} \<or>
         set (buf_addrs input) \<subseteq> {mw_data w ..< mw_data w + mw_size w}"
  shows "res_values r \<le> buf_size input \<and>
    mw_written w' m' = mw_written w m @ map m (take (res_values r) (buf_addrs input))"
  using assms by (rule memory_write_appends_aux)

text \<open>A stream that holds the bytes 100, 101, 102 appends them to itself and moves.\<close>

definition demo_writer :: memory_write_stream where
  "demo_writer = \<lparr>mw_output = null_buffer, mw_data = 100, mw_size = 3, mw_vcap = 4, mw_position = 0,
     mw_capacity = dynamic_extent_limit, mw_borrowed = False,
     mw_allocs = [\<lparr>al_addr = 200, al_extra = 0, al_junk = 9\<rparr>, \<lparr>al_addr = 300, al_extra = 6, al_junk = 9\<rparr>]\<rparr>"

theorem memory_write_appends_witness:
  "\<exists>r w' m'. mw_write_some demo_writer (buffer_at 100 3) of_nat = Some (r, w', m') \<and> mw_data w' = 300 \<and>
     mw_written w' m' = [100, 101, 102, 100, 101, 102]"
proof -
  have "\<exists>r w' m'. mw_write_some demo_writer (buffer_at 100 3) of_nat = Some (r, w', m') \<and> res_values r = 3 \<and> mw_data w' = 300"
    by (simp add: mw_write_some_def demo_writer_def buf_empty_def buffer_at_def dynamic_extent_limit_def
        vec_max_size_def stage_input_def copy_to_vector_def vec_resize_def Let_def buffer_prefix_def)
  then obtain r w' m' where run: "mw_write_some demo_writer (buffer_at 100 3) of_nat = Some (r, w', m')"
    "res_values r = 3" "mw_data w' = 300" by blast
  have addrs: "buf_addrs (buffer_at 100 3) = [100, 101, 102]" "mw_written demo_writer of_nat = [100, 101, 102]"
    by (simp_all add: buf_addrs_def buffer_at_def mw_written_def mw_bytes_def demo_writer_def upt_rec)
  have "mw_fresh demo_writer (buffer_at 100 3)"
    unfolding mw_fresh_def addrs by (auto simp: demo_writer_def al_block_def mw_block_def buffer_at_def)
  then show ?thesis
    using memory_write_appends [OF run(1)] run by (simp add: addrs) (simp add: mw_ok_def demo_writer_def)
qed

text \<open>
  C9. \<open>read_exactly\<close> on a memory stream returns, whatever the transfer limit: it delivers
  exactly the next bytes of the input into the output buffer, as many as fit or are left,
  writes nothing else and advances the stream by that many.  It succeeds when enough bytes
  are left and reports end of file, not an error, when too few are.
\<close>

theorem memory_read_exactly:
  assumes "mr_fits s (set (buf_addrs out))" "buf_size out \<le> size_max"
    and "n = min (buf_size out) (length (mr_content s m))"
  shows "\<exists>r s' m'. read_exactly mr_read_some s out m = Some (r, s', m') \<and> res_values r = n \<and>
    map m' (take n (buf_addrs out)) = take n (mr_content s m) \<and>
    mr_content s' m' = drop n (mr_content s m) \<and>
    (\<forall>a. a \<notin> set (take n (buf_addrs out)) \<longrightarrow> m' a = m a) \<and>
    io_status r = (if buf_size out \<le> length (mr_content s m) then SValue else SEof)"
proof -
  obtain r s' m' where "read_exactly mr_read_some s out m = Some (r, s', m')" "res_values r = n"
    "map m' (take n (buf_addrs out)) = take n (mr_content s m)" "io_status r \<noteq> SError \<longrightarrow> mr_content s' m' = drop n (mr_content s m)"
    "\<forall>a. a \<notin> set (take n (buf_addrs out)) \<longrightarrow> m' a = m a" "exactly_outcome Ends_eof (length (mr_content s m)) (buf_size out) r"
    using mr.read_exactly_spec [OF assms] by blast
  then show ?thesis by (auto simp: exactly_outcome_def split: if_splits)
qed

theorem memory_read_exactly_witness:
  "\<exists>r s' m'. read_exactly mr_read_some (mr_make (buffer_at 50 7) 2) (buffer_at 10 9) of_nat = Some (r, s', m') \<and>
     res_values r = 7 \<and> map m' [10, 11, 12, 13, 14, 15, 16] = [50, 51, 52, 53, 54, 55, 56] \<and> io_status r = SEof"
proof -
  let ?s = "mr_make (buffer_at 50 7) 2" and ?o = "buffer_at 10 9"
  have o: "buf_addrs ?o = [10, 11, 12, 13, 14, 15, 16, 17, 18]" "buf_size ?o = 9"
    by (simp_all add: buf_addrs_def buffer_at_def upt_rec)
  have c: "mr_content ?s of_nat = [50, 51, 52, 53, 54, 55, 56]" "mr_fits ?s (set (buf_addrs ?o))"
    by (simp_all add: mr_content_def mr_make_def buf_addrs_def buffer_at_def mr_fits_def upt_rec)
  show ?thesis
    using memory_read_exactly [OF c(2), of 7 of_nat] unfolding o c by (auto simp: size_max_def)
qed

text \<open>
  C10. \<open>read_until\<close> on a scripted stream returns the bytes up to and including the first
  delimiter, or the first \<open>max_bytes\<close>, or all there are, across every partition of the bytes
  into steps, and takes no byte beyond them from the stream.  It reports the error of the script if that
  comes with the last byte it read; else success if it read the delimiter; else that the record is
  too large, if it read \<open>max_bytes\<close>; else what the script ends with, its error or end of file.
\<close>

theorem scripted_read_until:
  assumes "sc_ok steps" "l = line d mx (sc_content steps)"
  shows "\<exists>r steps' m'. read_until sc_read_some steps loc d mx m = (r, l, steps', m') \<and>
     res_values r = length l \<and>
     (io_status r \<noteq> SError \<longrightarrow> sc_content steps' = drop (length l) (sc_content steps)) \<and>
     (case sc_ending steps of
        Fails_with e \<Rightarrow>
          if l \<noteq> [] \<and> length l = length (sc_content steps) then io_status r = SError \<and> res_error r = e
          else if d \<in> set l then io_status r = SValue
          else io_status r = SError \<and> res_error r = record_too_large_error
      | Fails_after e \<Rightarrow>
          if d \<in> set l then io_status r = SValue
          else io_status r = SError \<and> res_error r = (if length l = mx then record_too_large_error else e)
      | Ends_eof \<Rightarrow>
          if d \<in> set l then io_status r = SValue
          else if length l = mx then io_status r = SError \<and> res_error r = record_too_large_error
          else io_status r = SEof)"
proof -
  obtain r steps' m' where run: "read_until sc_read_some steps loc d mx m = (r, l, steps', m')" "res_values r = length l"
    "io_status r \<noteq> SError \<longrightarrow> sc_content steps' = drop (length l) (sc_content steps)"
    and out: "until_outcome (sc_ending steps) (length (sc_content steps)) d mx l r"
    using sc.read_until_spec [OF assms(1), of loc d mx m] assms(2) by auto
  have "d \<in> set l \<or> length l = mx \<or> length l = length (sc_content steps)" using line_length [of d mx "sc_content steps"] assms(2) by auto
  then have short: "sc_ending steps = Fails_with e \<Longrightarrow> \<not> (l \<noteq> [] \<and> length l = length (sc_content steps)) \<Longrightarrow> d \<in> set l \<or> length l = mx" for e
    using sc_ending_with [of steps e] by auto
  show ?thesis using run out short by (cases "sc_ending steps") (auto simp: until_outcome_def split: if_splits)
qed

theorem scripted_read_until_witness:
  "(\<exists>r steps' m'. read_until sc_read_some [step_bytes [1, 2], step_bytes [3, 10, 4], step_eof] 0 10 9 of_nat =
     (r, [1, 2, 3, 10], steps', m') \<and> io_status r = SValue \<and> sc_content steps' = [4]) \<and>
   (\<exists>r steps' m'. read_until sc_read_some [step_bytes [1, 2], step_bytes_then_error [3] (make_error_code Bad_address)] 0 10 9 of_nat =
     (r, [1, 2, 3], steps', m') \<and> io_status r = SError \<and> res_error r = make_error_code Bad_address)"
proof
  let ?st = "[step_bytes [1, 2], step_bytes [3, 10, 4], step_eof]"
  have c: "sc_ok ?st" "sc_content ?st = [1, 2, 3, 10, 4]" "sc_ending ?st = Ends_eof" by (simp_all add: sc_ok_def step_bytes_def step_eof_def)
  have l: "line 10 9 [1, 2, 3, 10, 4 :: byte] = [1, 2, 3, 10]" by (simp add: line_step)
  show "\<exists>r steps' m'. read_until sc_read_some ?st 0 10 9 of_nat = (r, [1, 2, 3, 10], steps', m') \<and> io_status r = SValue \<and> sc_content steps' = [4]"
    using scripted_read_until [OF c(1) refl, of 0 10 9 of_nat] unfolding c(2,3) l by auto
next
  let ?st = "[step_bytes [1, 2], step_bytes_then_error [3] (make_error_code Bad_address)]"
  have c: "sc_ok ?st" "sc_content ?st = [1, 2, 3]" "sc_ending ?st = Fails_with (make_error_code Bad_address)"
    by (simp_all add: sc_ok_def step_bytes_def step_bytes_then_error_def)
  have l: "line 10 9 [1, 2, 3 :: byte] = [1, 2, 3]" by (simp add: line_step)
  show "\<exists>r steps' m'. read_until sc_read_some ?st 0 10 9 of_nat = (r, [1, 2, 3], steps', m') \<and> io_status r = SError \<and> res_error r = make_error_code Bad_address"
    using scripted_read_until [OF c(1) refl, of 0 10 9 of_nat] unfolding c(2,3) l by auto
qed

text \<open>
  C11. \<open>write_all\<close> into a memory stream returns; unless an allocation throws, the stream then
  holds what it held followed by the reported number of input bytes, success means all of
  them, and it succeeds whenever the stream has room for the input.
\<close>

theorem memory_write_all:
  assumes "mw_fits w input" "buf_size input \<le> size_max"
  shows "\<exists>res. write_all mw_write_some w input m = Some res \<and>
    (\<forall>r w' m'. res = Some (r, w', m') \<longrightarrow> res_values r \<le> buf_size input \<and>
       mw_written w' m' = mw_written w m @ map m (take (res_values r) (buf_addrs input)) \<and>
       (io_status r = SValue \<longrightarrow> res_values r = buf_size input)) \<and>
    (mw_accepts w (buf_size input) \<longrightarrow> (\<exists>r w' m'. res = Some (r, w', m') \<and> io_status r = SValue))"
  using assms by (rule mw.write_all_spec)

theorem memory_write_all_witness:
  "\<exists>r w' m'. write_all mw_write_some (mw_make_borrowed (buffer_at 10 5)) (buffer_at 50 3) of_nat = Some (Some (r, w', m')) \<and>
     io_status r = SValue \<and> mw_written w' m' = [50, 51, 52]"
proof -
  let ?w = "mw_make_borrowed (buffer_at 10 5)" and ?i = "buffer_at 50 3"
  have i: "buf_addrs ?i = [50, 51, 52]" "buf_size ?i = 3" by (simp_all add: buf_addrs_def buffer_at_def upt_rec)
  have w: "mw_fits ?w ?i" "mw_accepts ?w 3" "mw_written ?w of_nat = []"
    by (auto simp: mw_fits_def mw_ok_def mw_make_borrowed_def mw_fresh_def buffer_at_def buf_addrs_def
      dynamic_extent_limit_def size_max_def mw_accepts_def mw_remaining_capacity_def mw_length_def mw_written_def mw_bytes_def)
  show ?thesis using memory_write_all [OF w(1), of of_nat] w(2,3) unfolding i by (auto simp: size_max_def)
qed

end
