(* ===== verification/IO_Any.thy ===== *)
theory IO_Any
  imports IO_Stream
begin

text \<open>
  The type-erased streams of \<open>include/forge/io/stream.hpp\<close>: \<open>any_read_stream\<close> and
  \<open>any_write_stream\<close> refer to a stream that somebody else keeps, \<open>owning_any_read_stream\<close> and
  \<open>owning_any_write_stream\<close> construct a stream in memory of a resource and own it.

  Stream objects live at addresses of a store, which also has the blocks that were allocated, each
  with its resource, size and alignment.  An operation that the language leaves undefined, such
  as a call through a dangling pointer, the destruction of an object that is not alive or a
  deallocation that does not match its allocation, is \<open>None\<close>.  The two owning classes have the
  same members but for the call they forward; \<open>'f\<close> is the type of the function they call.
\<close>

section \<open>The store\<close>

type_synonym resource = nat

record block =
  blk_memory :: resource
  blk_size :: nat
  blk_align :: nat

record 's object_store =
  st_objects :: "addr \<rightharpoonup> 's"
  st_blocks :: "addr \<rightharpoonup> block"

definition destroy_at :: "addr \<Rightarrow> 's object_store \<Rightarrow> 's object_store option" where
  "destroy_at a st = (if st_objects st a = None then None else Some (st\<lparr>st_objects := (st_objects st)(a := None)\<rparr>))"

definition deallocate :: "resource \<Rightarrow> addr \<Rightarrow> nat \<Rightarrow> nat \<Rightarrow> 's object_store \<Rightarrow> 's object_store option" where
  "deallocate memory a sz align st =
     (if st_blocks st a = Some \<lparr>blk_memory = memory, blk_size = sz, blk_align = align\<rparr>
      then Some (st\<lparr>st_blocks := (st_blocks st)(a := None)\<rparr>) else None)"

definition normalize_memory_resource :: "resource \<Rightarrow> resource option \<Rightarrow> resource" where
  "normalize_memory_resource deflt memory = (case memory of Some r \<Rightarrow> r | None \<Rightarrow> deflt)"

section \<open>References to streams\<close>

text \<open>The models call the stream at the address; a writer that throws gives \<open>Some None\<close>.\<close>

definition read_model :: "'s reader \<Rightarrow> addr \<Rightarrow> buffer \<Rightarrow> 's object_store \<Rightarrow> mem \<Rightarrow> (nat io_result \<times> 's object_store \<times> mem) option" where
  "read_model read_some a out st m =
     (case st_objects st a of
        None \<Rightarrow> None
      | Some s \<Rightarrow> (case read_some s out m of (r, s', m') \<Rightarrow> Some (r, st\<lparr>st_objects := (st_objects st)(a \<mapsto> s')\<rparr>, m')))"

definition write_model :: "'s writer \<Rightarrow> addr \<Rightarrow> buffer \<Rightarrow> 's object_store \<Rightarrow> mem \<Rightarrow> (nat io_result \<times> 's object_store \<times> mem) option option" where
  "write_model write_some a input st m =
     (case st_objects st a of
        None \<Rightarrow> None
      | Some s \<Rightarrow> Some (map_option (\<lambda>(r, s', m'). (r, st\<lparr>st_objects := (st_objects st)(a \<mapsto> s')\<rparr>, m')) (write_some s input m)))"

record 'f any_stream =
  as_object :: "addr option"
  as_call :: "'f option"

definition any_default :: "'f any_stream" where
  "any_default = \<lparr>as_object = None, as_call = None\<rparr>"

definition any_make :: "'f \<Rightarrow> addr \<Rightarrow> 'f any_stream" where
  "any_make f a = \<lparr>as_object = Some a, as_call = Some f\<rparr>"

definition any_reset :: "'f any_stream \<Rightarrow> 'f any_stream" where
  "any_reset x = x\<lparr>as_object := None, as_call := None\<rparr>"

definition any_read_some :: "'s reader any_stream \<Rightarrow> buffer \<Rightarrow> 's object_store \<Rightarrow> mem \<Rightarrow> (nat io_result \<times> 's object_store \<times> mem) option" where
  "any_read_some x out st m =
     (case as_call x of
        None \<Rightarrow> Some (io_failure (make_error_code Bad_address) 0, st, m)
      | Some f \<Rightarrow> (case as_object x of None \<Rightarrow> None | Some a \<Rightarrow> read_model f a out st m))"

definition any_write_some :: "'s writer any_stream \<Rightarrow> buffer \<Rightarrow> 's object_store \<Rightarrow> mem \<Rightarrow> (nat io_result \<times> 's object_store \<times> mem) option option" where
  "any_write_some x input st m =
     (case as_call x of
        None \<Rightarrow> Some (Some (io_failure (make_error_code Bad_address) 0, st, m))
      | Some f \<Rightarrow> (case as_object x of None \<Rightarrow> None | Some a \<Rightarrow> write_model f a input st m))"

section \<open>Streams that are owned\<close>

text \<open>The table of operations of a stream type: what \<open>read\<close> or \<open>write\<close> calls, and the size and alignment \<open>destroy\<close> gives back.\<close>

record 'f operations =
  ops_call :: 'f
  ops_size :: nat
  ops_align :: nat

record 'f owning =
  ow_object :: "addr option"
  ow_operations :: "'f operations option"
  ow_memory :: resource

definition owning_default :: "resource \<Rightarrow> 'f owning" where
  "owning_default deflt = \<lparr>ow_object = None, ow_operations = None, ow_memory = deflt\<rparr>"

definition destroy_model :: "'f operations \<Rightarrow> addr \<Rightarrow> resource \<Rightarrow> 's object_store \<Rightarrow> 's object_store option" where
  "destroy_model ops a memory st =
     (case destroy_at a st of None \<Rightarrow> None | Some st1 \<Rightarrow> deallocate memory a (ops_size ops) (ops_align ops) st1)"

text \<open>
  The constructor from a stream: \<open>alloc\<close> is the address the resource returns, or \<open>None\<close> when it throws,
  and \<open>built\<close> the stream the constructor makes, or \<open>None\<close> when it throws.  The inner \<open>None\<close> of the result
  is the exception.
\<close>

definition owning_make ::
  "resource \<Rightarrow> 'f operations \<Rightarrow> resource option \<Rightarrow> addr option \<Rightarrow> 's option \<Rightarrow> 's object_store \<Rightarrow> ('f owning option \<times> 's object_store) option" where
  "owning_make deflt ops memory alloc built st =
     (let res = normalize_memory_resource deflt memory
      in case alloc of
           None \<Rightarrow> Some (None, st)
         | Some a \<Rightarrow>
             (let st1 = st\<lparr>st_blocks := (st_blocks st)(a \<mapsto> \<lparr>blk_memory = res, blk_size = ops_size ops, blk_align = ops_align ops\<rparr>)\<rparr>
              in case built of
                   None \<Rightarrow> map_option (Pair None) (deallocate res a (ops_size ops) (ops_align ops) st1)
                 | Some s \<Rightarrow> Some (Some \<lparr>ow_object = Some a, ow_operations = Some ops, ow_memory = res\<rparr>,
                               st1\<lparr>st_objects := (st_objects st1)(a \<mapsto> s)\<rparr>)))"

definition owning_reset :: "'f owning \<Rightarrow> 's object_store \<Rightarrow> ('f owning \<times> 's object_store) option" where
  "owning_reset x st =
     (case ow_operations x of
        None \<Rightarrow> Some (x, st)
      | Some ops \<Rightarrow> (case ow_object x of None \<Rightarrow> None
          | Some a \<Rightarrow> map_option (Pair (x\<lparr>ow_object := None, ow_operations := None\<rparr>)) (destroy_model ops a (ow_memory x) st)))"

text \<open>The move constructor returns the new stream and what it leaves of the other.\<close>

definition owning_move :: "'f owning \<Rightarrow> 'f owning \<times> 'f owning" where
  "owning_move other =
     (\<lparr>ow_object = ow_object other, ow_operations = ow_operations other, ow_memory = ow_memory other\<rparr>,
      other\<lparr>ow_object := None, ow_operations := None\<rparr>)"

definition owning_read_some :: "'s reader owning \<Rightarrow> buffer \<Rightarrow> 's object_store \<Rightarrow> mem \<Rightarrow> (nat io_result \<times> 's object_store \<times> mem) option" where
  "owning_read_some x out st m =
     (case ow_operations x of
        None \<Rightarrow> Some (io_failure (make_error_code Bad_address) 0, st, m)
      | Some ops \<Rightarrow> (case ow_object x of None \<Rightarrow> None | Some a \<Rightarrow> read_model (ops_call ops) a out st m))"

definition owning_write_some :: "'s writer owning \<Rightarrow> buffer \<Rightarrow> 's object_store \<Rightarrow> mem \<Rightarrow> (nat io_result \<times> 's object_store \<times> mem) option option" where
  "owning_write_some x input st m =
     (case ow_operations x of
        None \<Rightarrow> Some (Some (io_failure (make_error_code Bad_address) 0, st, m))
      | Some ops \<Rightarrow> (case ow_object x of None \<Rightarrow> None | Some a \<Rightarrow> write_model (ops_call ops) a input st m))"

section \<open>Programs with several streams\<close>

text \<open>
  The variables of a program hold owning streams.  Move assignment compares addresses, here the
  names of the variables, and resets the target first.
\<close>

record ('s, 'f) world =
  wd_vars :: "nat \<rightharpoonup> 'f owning"
  wd_store :: "'s object_store"

definition set_var :: "nat \<Rightarrow> 'f owning option \<Rightarrow> ('s, 'f) world \<Rightarrow> ('s, 'f) world" where
  "set_var i x w = w\<lparr>wd_vars := (wd_vars w)(i := x)\<rparr>"

definition owning_assign :: "nat \<Rightarrow> nat \<Rightarrow> ('s, 'f) world \<Rightarrow> ('s, 'f) world option" where
  "owning_assign i j w =
     (case (wd_vars w i, wd_vars w j) of
        (Some x, Some other) \<Rightarrow>
          (if i \<noteq> j then
             (case owning_reset x (wd_store w) of None \<Rightarrow> None
              | Some (x1, st) \<Rightarrow>
                  Some (set_var j (Some (other\<lparr>ow_object := None, ow_operations := None\<rparr>))
                    (set_var i (Some (x1\<lparr>ow_object := ow_object other, ow_operations := ow_operations other, ow_memory := ow_memory other\<rparr>))
                      (w\<lparr>wd_store := st\<rparr>))))
           else Some w)
      | _ \<Rightarrow> None)"

datatype ('s, 'f) any_op =
    Op_default nat resource
  | Op_make nat resource "'f operations" "resource option" "addr option" "'s option"
  | Op_move nat nat
  | Op_assign nat nat
  | Op_reset nat
  | Op_destroy nat
  | Op_call nat "'f \<Rightarrow> 's \<Rightarrow> 's"

text \<open>
  A program constructs into unused variables and uses living ones; the resource returns an address
  that is not in use.
\<close>

fun any_op_ok :: "('s, 'f) any_op \<Rightarrow> ('s, 'f) world \<Rightarrow> bool" where
  "any_op_ok (Op_default i d) w \<longleftrightarrow> wd_vars w i = None"
| "any_op_ok (Op_make i d ops memory alloc built) w \<longleftrightarrow>
     wd_vars w i = None \<and> (case alloc of None \<Rightarrow> True | Some a \<Rightarrow> st_blocks (wd_store w) a = None)"
| "any_op_ok (Op_move i j) w \<longleftrightarrow> wd_vars w i = None \<and> wd_vars w j \<noteq> None"
| "any_op_ok (Op_assign i j) w \<longleftrightarrow> wd_vars w i \<noteq> None \<and> wd_vars w j \<noteq> None"
| "any_op_ok (Op_reset i) w \<longleftrightarrow> wd_vars w i \<noteq> None"
| "any_op_ok (Op_destroy i) w \<longleftrightarrow> wd_vars w i \<noteq> None"
| "any_op_ok (Op_call i g) w \<longleftrightarrow> wd_vars w i \<noteq> None"

text \<open>A call changes the stream object by \<open>g\<close>; the destructor resets.\<close>

definition call_object :: "'f owning \<Rightarrow> ('f \<Rightarrow> 's \<Rightarrow> 's) \<Rightarrow> 's object_store \<Rightarrow> 's object_store option" where
  "call_object x g st =
     (case ow_operations x of None \<Rightarrow> Some st
      | Some ops \<Rightarrow> (case ow_object x of None \<Rightarrow> None
          | Some a \<Rightarrow> (case st_objects st a of None \<Rightarrow> None
              | Some s \<Rightarrow> Some (st\<lparr>st_objects := (st_objects st)(a \<mapsto> g (ops_call ops) s)\<rparr>))))"

fun run_op :: "('s, 'f) any_op \<Rightarrow> ('s, 'f) world \<Rightarrow> ('s, 'f) world option" where
  "run_op (Op_default i d) w = Some (set_var i (Some (owning_default d)) w)"
| "run_op (Op_make i d ops memory alloc built) w =
     map_option (\<lambda>(x, st). set_var i x (w\<lparr>wd_store := st\<rparr>)) (owning_make d ops memory alloc built (wd_store w))"
| "run_op (Op_move i j) w =
     (case wd_vars w j of None \<Rightarrow> None
      | Some other \<Rightarrow> (case owning_move other of (x, other') \<Rightarrow> Some (set_var j (Some other') (set_var i (Some x) w))))"
| "run_op (Op_assign i j) w = owning_assign i j w"
| "run_op (Op_reset i) w =
     (case wd_vars w i of None \<Rightarrow> None
      | Some x \<Rightarrow> map_option (\<lambda>(x', st). set_var i (Some x') (w\<lparr>wd_store := st\<rparr>)) (owning_reset x (wd_store w)))"
| "run_op (Op_destroy i) w =
     (case wd_vars w i of None \<Rightarrow> None
      | Some x \<Rightarrow> map_option (\<lambda>(x', st). set_var i None (w\<lparr>wd_store := st\<rparr>)) (owning_reset x (wd_store w)))"
| "run_op (Op_call i g) w =
     (case wd_vars w i of None \<Rightarrow> None
      | Some x \<Rightarrow> map_option (\<lambda>st. w\<lparr>wd_store := st\<rparr>) (call_object x g (wd_store w)))"

definition world_new :: "('s, 'f) world" where
  "world_new = \<lparr>wd_vars = Map.empty, wd_store = \<lparr>st_objects = Map.empty, st_blocks = Map.empty\<rparr>\<rparr>"

inductive any_reach :: "('s, 'f) world \<Rightarrow> bool" where
  start: "any_reach world_new"
| step: "any_reach w \<Longrightarrow> any_op_ok op w \<Longrightarrow> run_op op w = Some w' \<Longrightarrow> any_reach w'"

section \<open>Nothing leaks and nothing is destroyed twice\<close>

text \<open>
  A variable owns the address of its stream.  The invariant: a stream has operations when it has an
  object; the object lives in a block with the resource, size and alignment that its destruction
  will give back; no address has two owners; and every block has an owner and a living object.
\<close>

definition owns :: "('s, 'f) world \<Rightarrow> nat \<Rightarrow> addr \<Rightarrow> bool" where
  "owns w i a \<longleftrightarrow> (\<exists>x. wd_vars w i = Some x \<and> ow_object x = Some a)"

definition handle_ok :: "'s object_store \<Rightarrow> 'f owning \<Rightarrow> bool" where
  "handle_ok st x \<longleftrightarrow>
     (case (ow_operations x, ow_object x) of
        (None, None) \<Rightarrow> True
      | (Some ops, Some a) \<Rightarrow>
          st_blocks st a = Some \<lparr>blk_memory = ow_memory x, blk_size = ops_size ops, blk_align = ops_align ops\<rparr> \<and> st_objects st a \<noteq> None
      | _ \<Rightarrow> False)"

definition world_inv :: "('s, 'f) world \<Rightarrow> bool" where
  "world_inv w \<longleftrightarrow>
     (\<forall>i x. wd_vars w i = Some x \<longrightarrow> handle_ok (wd_store w) x) \<and>
     (\<forall>i j a. owns w i a \<longrightarrow> owns w j a \<longrightarrow> i = j) \<and>
     dom (st_blocks (wd_store w)) = {a. \<exists>i. owns w i a} \<and> dom (st_objects (wd_store w)) = {a. \<exists>i. owns w i a}"

lemma handle_ok_cases:
  assumes "handle_ok st x"
  obtains "ow_operations x = None" "ow_object x = None"
  | ops a s where "ow_operations x = Some ops" "ow_object x = Some a" "st_objects st a = Some s"
      "st_blocks st a = Some \<lparr>blk_memory = ow_memory x, blk_size = ops_size ops, blk_align = ops_align ops\<rparr>"
  using assms by (auto simp: handle_ok_def split: option.splits)

text \<open>What a reset leaves: the store without the address, if there was one, and an empty stream.\<close>

definition drop_addr :: "addr option \<Rightarrow> 's object_store \<Rightarrow> 's object_store" where
  "drop_addr oa st = (case oa of None \<Rightarrow> st
     | Some a \<Rightarrow> st\<lparr>st_objects := (st_objects st)(a := None), st_blocks := (st_blocks st)(a := None)\<rparr>)"

lemma owning_reset_ok:
  "handle_ok st x \<Longrightarrow> owning_reset x st = Some (x\<lparr>ow_object := None, ow_operations := None\<rparr>, drop_addr (ow_object x) st)"
  by (erule handle_ok_cases) (auto simp: owning_reset_def destroy_model_def destroy_at_def deallocate_def drop_addr_def)

lemma world_invI:
  assumes "\<And>i x. wd_vars w i = Some x \<Longrightarrow> handle_ok (wd_store w) x" "\<And>i j a. owns w i a \<Longrightarrow> owns w j a \<Longrightarrow> i = j"
    "dom (st_blocks (wd_store w)) = {a. \<exists>i. owns w i a}" "dom (st_objects (wd_store w)) = {a. \<exists>i. owns w i a}"
  shows "world_inv w"
  using assms unfolding world_inv_def by blast

lemma world_invD:
  assumes "world_inv w"
  shows "wd_vars w i = Some x \<Longrightarrow> handle_ok (wd_store w) x" "owns w i a \<Longrightarrow> owns w j a \<Longrightarrow> i = j"
    "st_blocks (wd_store w) a \<noteq> None \<longleftrightarrow> (\<exists>i. owns w i a)" "st_objects (wd_store w) a \<noteq> None \<longleftrightarrow> (\<exists>i. owns w i a)"
  using assms unfolding world_inv_def by (blast, blast, auto simp: dom_def set_eq_iff)

text \<open>Three changes make up all operations: a variable is emptied, filled with a fresh block, or two variables hand over.\<close>

lemma handle_ok_drop:
  "handle_ok st x \<Longrightarrow> (\<And>a. oa = Some a \<Longrightarrow> ow_object x \<noteq> Some a) \<Longrightarrow> handle_ok (drop_addr oa st) x"
  by (erule handle_ok_cases) (auto simp: handle_ok_def drop_addr_def split: option.splits)

lemma inv_release:
  assumes inv: "world_inv w" and x: "wd_vars w i = Some x" and y: "y = None \<or> y = Some (z\<lparr>ow_object := None, ow_operations := None\<rparr>)"
  shows "world_inv (set_var i y (w\<lparr>wd_store := drop_addr (ow_object x) (wd_store w)\<rparr>))" (is "world_inv ?w")
proof (rule world_invI)
  note d = world_invD [OF inv]
  have own: "owns ?w j a \<longleftrightarrow> owns w j a \<and> j \<noteq> i" for j a using y by (auto simp: owns_def set_var_def)
  have xi: "owns w i a \<longleftrightarrow> ow_object x = Some a" for a using x by (auto simp: owns_def)
  show "handle_ok (wd_store ?w) v" if v: "wd_vars ?w j = Some v" for j v
  proof (cases "j = i")
    case True
    then show ?thesis using v y by (auto simp: set_var_def handle_ok_def)
  next
    case False
    then have vj: "wd_vars w j = Some v" using v by (simp add: set_var_def)
    have "ow_object v \<noteq> Some a" if "ow_object x = Some a" for a
      using d(2) [of i a j] False vj that xi by (auto simp: owns_def)
    then show ?thesis using handle_ok_drop [OF d(1) [OF vj]] by (simp add: set_var_def)
  qed
  show "j = k" if "owns ?w j a" "owns ?w k a" for j k a using that d(2) unfolding own by blast
  have rest: "(\<exists>j. owns ?w j a) \<longleftrightarrow> (\<exists>j. owns w j a) \<and> ow_object x \<noteq> Some a" for a
    unfolding own using d(2) [of i a] xi by metis
  show "dom (st_blocks (wd_store ?w)) = {a. \<exists>j. owns ?w j a}" "dom (st_objects (wd_store ?w)) = {a. \<exists>j. owns ?w j a}"
    unfolding rest using d(3,4) by (auto simp: set_var_def drop_addr_def dom_def split: option.splits)
qed

lemma inv_hand_over:
  assumes inv: "world_inv w" and o: "wd_vars w j = Some other" and "i \<noteq> j" and i: "\<And>a. \<not> owns w i a"
    and x: "ow_object x = ow_object other" "ow_operations x = ow_operations other" "ow_memory x = ow_memory other"
  shows "world_inv (set_var j (Some (other\<lparr>ow_object := None, ow_operations := None\<rparr>)) (set_var i (Some x) w))" (is "world_inv ?w")
proof (rule world_invI)
  note d = world_invD [OF inv]
  have own: "owns ?w k a \<longleftrightarrow> (if k = i then owns w j a else k \<noteq> j \<and> owns w k a)" for k a
    using \<open>i \<noteq> j\<close> o x by (auto simp: owns_def set_var_def)
  have same: "handle_ok st x = handle_ok st other" for st using x by (auto simp: handle_ok_def split: option.splits)
  show "handle_ok (wd_store ?w) v" if "wd_vars ?w k = Some v" for k v
    using that d(1) [of k v] d(1) [OF o] same by (auto simp: set_var_def handle_ok_def split: if_splits)
  show "k = l" if "owns ?w k a" "owns ?w l a" for k l a using that d(2) unfolding own by (metis (full_types))
  have rest: "(\<exists>k. owns ?w k a) \<longleftrightarrow> (\<exists>k. owns w k a)" for a unfolding own using i by metis
  show "dom (st_blocks (wd_store ?w)) = {a. \<exists>k. owns ?w k a}" "dom (st_objects (wd_store ?w)) = {a. \<exists>k. owns ?w k a}"
    unfolding rest using d(3,4) by (auto simp: set_var_def dom_def)
qed

lemma handle_ok_other:
  "handle_ok st x \<Longrightarrow> ow_object x \<noteq> Some a \<Longrightarrow>
   handle_ok (st\<lparr>st_blocks := (st_blocks st)(a := b), st_objects := (st_objects st)(a := s)\<rparr>) x"
  by (erule handle_ok_cases) (auto simp: handle_ok_def)

lemma inv_fresh:
  assumes inv: "world_inv w" and i: "wd_vars w i = None" and a: "st_blocks (wd_store w) a = None"
  shows "world_inv (set_var i (Some \<lparr>ow_object = Some a, ow_operations = Some ops, ow_memory = r\<rparr>)
    (w\<lparr>wd_store := (wd_store w)\<lparr>st_blocks := (st_blocks (wd_store w))(a \<mapsto> \<lparr>blk_memory = r, blk_size = ops_size ops, blk_align = ops_align ops\<rparr>),
       st_objects := (st_objects (wd_store w))(a \<mapsto> s)\<rparr>\<rparr>))" (is "world_inv ?w")
proof (rule world_invI)
  note d = world_invD [OF inv]
  have no: "\<not> owns w k a" for k using a d(3) by blast
  have own: "owns ?w k b \<longleftrightarrow> (if k = i then b = a else owns w k b)" for k b by (auto simp: owns_def set_var_def)
  have i': "\<not> owns w i b" for b using i by (simp add: owns_def)
  show "handle_ok (wd_store ?w) v" if v: "wd_vars ?w k = Some v" for k v
  proof (cases "k = i")
    case False
    then have vk: "wd_vars w k = Some v" using v by (simp add: set_var_def)
    then have "ow_object v \<noteq> Some a" using no [of k] by (auto simp: owns_def)
    then show ?thesis using handle_ok_other [OF d(1) [OF vk]] by (simp add: set_var_def)
  qed (use v in \<open>auto simp: set_var_def handle_ok_def\<close>)
  show "k = l" if "owns ?w k b" "owns ?w l b" for k l b using that d(2) no unfolding own by (auto split: if_splits)
  have rest: "(\<exists>k. owns ?w k b) \<longleftrightarrow> b = a \<or> (\<exists>k. owns w k b)" for b unfolding own using i' by metis
  show "dom (st_blocks (wd_store ?w)) = {b. \<exists>k. owns ?w k b}" "dom (st_objects (wd_store ?w)) = {b. \<exists>k. owns ?w k b}"
    unfolding rest using d(3,4) by (auto simp: set_var_def dom_def)
qed

lemma inv_vars_store:
  assumes "world_inv w" "wd_vars w' = wd_vars w" "st_blocks (wd_store w') = st_blocks (wd_store w)"
    "dom (st_objects (wd_store w')) = dom (st_objects (wd_store w))"
  shows "world_inv w'"
proof -
  have "st_objects (wd_store w') a = None \<longleftrightarrow> st_objects (wd_store w) a = None" for a using assms(4) by (metis domIff)
  then have "handle_ok (wd_store w') x = handle_ok (wd_store w) x" if "wd_vars w i = Some x" for i x using assms(3) by (auto simp: handle_ok_def split: option.splits)
  moreover have "owns w' i a = owns w i a" for i a using assms(2) by (simp add: owns_def)
  ultimately show ?thesis using assms unfolding world_inv_def by simp
qed

lemma owning_make_none: "owning_make d ops memory None built st = Some (None, st)"
  by (simp add: owning_make_def)

lemma owning_make_cases:
  assumes "st_blocks st a = None"
  shows "owning_make d ops memory (Some a) None st = Some (None, st)"
    "owning_make d ops memory (Some a) (Some s) st =
       (let r = normalize_memory_resource d memory
        in Some (Some \<lparr>ow_object = Some a, ow_operations = Some ops, ow_memory = r\<rparr>,
             st\<lparr>st_blocks := (st_blocks st)(a \<mapsto> \<lparr>blk_memory = r, blk_size = ops_size ops, blk_align = ops_align ops\<rparr>),
                st_objects := (st_objects st)(a \<mapsto> s)\<rparr>))"
  using assms fun_upd_idem [of "st_blocks st" a None] by (auto simp: owning_make_def deallocate_def Let_def)

lemma set_var_unused: "wd_vars w i = None \<Longrightarrow> set_var i None w = w"
  by (simp add: set_var_def fun_upd_idem)

text \<open>The variables that own nothing can be replaced by one another.\<close>

lemma inv_empty:
  assumes inv: "world_inv w" and i: "\<And>a. \<not> owns w i a" and x: "ow_object x = None" "ow_operations x = None"
  shows "world_inv (set_var i (Some x) w)" (is "world_inv ?w")
proof -
  have own: "owns ?w k a = owns w k a" for k a using i x by (auto simp: owns_def set_var_def)
  have "handle_ok (wd_store w) x" using x by (simp add: handle_ok_def)
  then show ?thesis using inv unfolding world_inv_def own by (auto simp: set_var_def)
qed

lemma unused_owns: "wd_vars w i = None \<Longrightarrow> \<not> owns w i a"
  by (simp add: owns_def)

lemma owning_assign_ok:
  assumes inv: "world_inv w" and x: "wd_vars w i = Some x" and o: "wd_vars w j = Some other"
  shows "\<exists>w'. owning_assign i j w = Some w' \<and> world_inv w'"
proof (cases "i = j")
  case False
  let ?e = "x\<lparr>ow_object := None, ow_operations := None\<rparr>"
  let ?x = "?e\<lparr>ow_object := ow_object other, ow_operations := ow_operations other, ow_memory := ow_memory other\<rparr>"
  let ?v = "set_var i (Some ?e) (w\<lparr>wd_store := drop_addr (ow_object x) (wd_store w)\<rparr>)"
  have "world_inv ?v" using inv_release [OF inv x] by blast
  then have "world_inv (set_var j (Some (other\<lparr>ow_object := None, ow_operations := None\<rparr>)) (set_var i (Some ?x) ?v))"
    using o False by (intro inv_hand_over) (auto simp: owns_def set_var_def)
  then show ?thesis
    using False x o owning_reset_ok [OF world_invD(1) [OF inv x]] by (simp add: owning_assign_def set_var_def)
qed (use assms in \<open>auto simp: owning_assign_def\<close>)

lemma call_object_ok:
  assumes "handle_ok st x"
  obtains st' where "call_object x g st = Some st'" "st_blocks st' = st_blocks st" "dom (st_objects st') = dom (st_objects st)"
  using assms by (cases rule: handle_ok_cases) (auto simp: call_object_def insert_absorb)

lemma run_op_ok:
  assumes inv: "world_inv w" and ok: "any_op_ok op w"
  shows "\<exists>w'. run_op op w = Some w' \<and> world_inv w'"
proof (cases op)
  case (Op_default i d)
  then show ?thesis using inv_empty [OF inv unused_owns] ok by (simp add: owning_default_def)
next
  case (Op_make i d ops memory alloc built)
  then show ?thesis
    using ok inv inv_fresh [OF inv] by (cases alloc; cases built) (auto simp: owning_make_cases owning_make_none set_var_unused Let_def)
next
  case (Op_move i j)
  then obtain other where o: "wd_vars w j = Some other" using ok by auto
  have "world_inv (set_var j (Some (other\<lparr>ow_object := None, ow_operations := None\<rparr>)) (set_var i (Some (fst (owning_move other))) w))"
    using ok Op_move o by (intro inv_hand_over [OF inv]) (auto simp: owning_move_def owns_def)
  then show ?thesis using o Op_move by (simp add: owning_move_def)
next
  case (Op_assign i j)
  then show ?thesis using ok owning_assign_ok [OF inv] by auto
next
  case (Op_reset i)
  then obtain x where x: "wd_vars w i = Some x" using ok by auto
  then show ?thesis using Op_reset owning_reset_ok [OF world_invD(1) [OF inv x]] inv_release [OF inv x] by auto
next
  case (Op_destroy i)
  then obtain x where x: "wd_vars w i = Some x" using ok by auto
  then show ?thesis using Op_destroy owning_reset_ok [OF world_invD(1) [OF inv x]] inv_release [OF inv x] by auto
next
  case (Op_call i g)
  then obtain x where x: "wd_vars w i = Some x" using ok by auto
  then obtain st where "call_object x g (wd_store w) = Some st" "st_blocks st = st_blocks (wd_store w)" "dom (st_objects st) = dom (st_objects (wd_store w))"
    using call_object_ok world_invD(1) [OF inv x] by metis
  then show ?thesis using Op_call x inv_vars_store [OF inv, of "w\<lparr>wd_store := st\<rparr>"] by auto
qed

lemma any_reach_inv: "any_reach w \<Longrightarrow> world_inv w"
proof (induction rule: any_reach.induct)
  case start
  show ?case by (simp add: world_inv_def world_new_def owns_def)
next
  case (step w op w')
  then show ?case using run_op_ok [of w op] by auto
qed

text \<open>
  In every program with owning streams no operation is undefined, every block and every stream object
  has exactly one owner, and when no variable is left, no block and no object is.
\<close>

theorem owning_streams_exactly_once:
  assumes "any_reach w"
  shows "any_op_ok op w \<Longrightarrow> run_op op w \<noteq> None"
    "st_blocks (wd_store w) a \<noteq> None \<Longrightarrow> \<exists>!i. owns w i a" "st_objects (wd_store w) a \<noteq> None \<longleftrightarrow> st_blocks (wd_store w) a \<noteq> None"
    "wd_vars w = Map.empty \<Longrightarrow> st_blocks (wd_store w) = Map.empty \<and> st_objects (wd_store w) = Map.empty"
proof -
  note inv = any_reach_inv [OF assms]
  note d = world_invD [OF inv]
  show "any_op_ok op w \<Longrightarrow> run_op op w \<noteq> None" using run_op_ok [OF inv, of op] by auto
  show "st_blocks (wd_store w) a \<noteq> None \<Longrightarrow> \<exists>!i. owns w i a" using d(2,3) by blast
  show "st_objects (wd_store w) a \<noteq> None \<longleftrightarrow> st_blocks (wd_store w) a \<noteq> None" using d(3,4) by simp
  show "wd_vars w = Map.empty \<Longrightarrow> st_blocks (wd_store w) = Map.empty \<and> st_objects (wd_store w) = Map.empty"
    using inv by (simp add: world_inv_def owns_def)
qed

section \<open>Calls\<close>

text \<open>
  A call through a reference or an owner is the call of the stream, and it changes no other object;
  through an empty one it fails with \<open>bad_address\<close> and changes nothing.
\<close>

theorem erased_calls_forward:
  "st_objects st a = Some s \<Longrightarrow> rd s out m = (r, s', m') \<Longrightarrow>
     any_read_some (any_make rd a) out st m = Some (r, st\<lparr>st_objects := (st_objects st)(a \<mapsto> s')\<rparr>, m')"
  "st_objects st a = Some s \<Longrightarrow> wr s out m = Some (r, s', m') \<Longrightarrow>
     any_write_some (any_make wr a) out st m = Some (Some (r, st\<lparr>st_objects := (st_objects st)(a \<mapsto> s')\<rparr>, m'))"
  "as_call x = None \<Longrightarrow> any_read_some x out st m = Some (io_failure (make_error_code Bad_address) 0, st, m)"
  "handle_ok st h \<Longrightarrow> \<exists>res. owning_read_some h out st m = Some res \<and>
     (ow_operations h = None \<longrightarrow> res = (io_failure (make_error_code Bad_address) 0, st, m)) \<and>
     (\<forall>ops b v. ow_operations h = Some ops \<longrightarrow> ow_object h = Some b \<longrightarrow> st_objects st b = Some v \<longrightarrow>
        res = (case ops_call ops v out m of (r, v', m') \<Rightarrow> (r, st\<lparr>st_objects := (st_objects st)(b \<mapsto> v')\<rparr>, m')))"
  by (auto simp: any_read_some_def any_write_some_def any_make_def read_model_def write_model_def owning_read_some_def
    elim!: handle_ok_cases split: prod.splits)

text \<open>In a program, reading is the operation \<open>Op_call\<close> with the effect of the read on the stream.\<close>

lemma owning_read_some_call:
  "owning_read_some x out st m = Some (r, st', m') \<Longrightarrow> call_object x (\<lambda>rd s. fst (snd (rd s out m))) st = Some st'"
  by (auto simp: owning_read_some_def call_object_def read_model_def split: option.splits prod.splits)

lemma owning_write_some_call:
  "owning_write_some x out st m = Some (Some (r, st', m')) \<Longrightarrow> call_object x (\<lambda>wr s. fst (snd (the (wr s out m)))) st = Some st'"
  by (auto simp: owning_write_some_def call_object_def write_model_def split: option.splits prod.splits)

end
