(* ===== verification/Hive_Block.thy ===== *)
theory Hive_Block
  imports Forge_Prelude
begin

text \<open>
  One block of \<open>std::hive\<close> (\<open>backport/cpp26/hive.hpp\<close>): the jump-counting skipfield, the free
  list of dead runs threaded through the dead slots, and the updates \<open>emplace\<close> and
  \<open>erase\<close> make to them.

  The skipfield has 16-bit entries and the free list 16-bit links, with the all-ones value as
  null; counts are 64-bit.  The abstract view of a block is a list of segments, live values and
  dead runs; \<open>blk_rep\<close> says that the arrays represent such a list.  The lemmas show that each
  update is the corresponding change of the segment list, so that no 16-bit value ever wraps
  and the free list always holds exactly the dead runs.
\<close>

section \<open>Indices\<close>

definition npos :: nat where
  "npos = size_max"

definition slot_npos :: nat where
  "slot_npos = 2 ^ 16 - 1"

definition to_slot_index :: "nat \<Rightarrow> nat" where
  "to_slot_index i = (if i = npos then slot_npos else i mod 2 ^ 16)"

definition to_wide_index :: "nat \<Rightarrow> nat" where
  "to_wide_index i = (if i = slot_npos then npos else i)"

lemma npos_slot_npos: "slot_npos < npos"
  by (simp add: npos_def slot_npos_def size_max_def)

lemma to_slot_index_small [simp]: "i < slot_npos \<Longrightarrow> to_slot_index i = i"
  using npos_slot_npos by (auto simp: to_slot_index_def slot_npos_def)

lemma to_slot_index_npos [simp]: "to_slot_index npos = slot_npos"
  by (simp add: to_slot_index_def)

lemma to_wide_index_simps [simp]:
  "to_wide_index slot_npos = npos" "i < slot_npos \<Longrightarrow> to_wide_index i = i"
  by (simp_all add: to_wide_index_def)

section \<open>Blocks\<close>

text \<open>The storage of a slot: an element, the two links of a free run, or neither.\<close>

datatype 'v slot = Raw | Elem 'v | Links nat nat

record 'v hblock =
  hb_slots :: "nat \<Rightarrow> 'v slot"
  hb_skip :: "nat \<Rightarrow> nat"
  hb_capacity :: nat
  hb_live_count :: nat
  hb_high_water :: nat
  hb_free_head :: nat
  hb_order :: nat
  hb_active_prev :: ptr
  hb_active_next :: ptr
  hb_reserved_next :: ptr
  hb_available_prev :: ptr
  hb_available_next :: ptr
  hb_active :: bool
  hb_in_available :: bool

definition block_new :: "nat \<Rightarrow> 'v hblock" where
  "block_new capacity =
     \<lparr>hb_slots = (\<lambda>_. Raw), hb_skip = (\<lambda>_. 0), hb_capacity = capacity, hb_live_count = 0,
      hb_high_water = 0, hb_free_head = npos, hb_order = 0, hb_active_prev = None,
      hb_active_next = None, hb_reserved_next = None, hb_available_prev = None,
      hb_available_next = None, hb_active = False, hb_in_available = False\<rparr>"

definition reset_vacant_block :: "'v hblock \<Rightarrow> 'v hblock" where
  "reset_vacant_block b = b\<lparr>hb_live_count := 0, hb_high_water := 0, hb_free_head := npos\<rparr>"

definition set_skip :: "nat \<Rightarrow> nat \<Rightarrow> 'v hblock \<Rightarrow> 'v hblock" where
  "set_skip i n b = b\<lparr>hb_skip := (hb_skip b)(i := n)\<rparr>"

definition set_slot :: "nat \<Rightarrow> 'v slot \<Rightarrow> 'v hblock \<Rightarrow> 'v hblock" where
  "set_slot i s b = b\<lparr>hb_slots := (hb_slots b)(i := s)\<rparr>"

section \<open>The free list\<close>

text \<open>The links are only read where they were written.\<close>

definition read_free_links :: "'v hblock \<Rightarrow> nat \<Rightarrow> nat \<times> nat" where
  "read_free_links b i = (case hb_slots b i of Links p n \<Rightarrow> (p, n) | _ \<Rightarrow> (slot_npos, slot_npos))"

definition write_free_links :: "nat \<Rightarrow> nat \<times> nat \<Rightarrow> 'v hblock \<Rightarrow> 'v hblock" where
  "write_free_links i l b = set_slot i (Links (fst l) (snd l)) b"

definition unlink_free_run :: "nat \<times> nat \<Rightarrow> 'v hblock \<Rightarrow> 'v hblock" where
  "unlink_free_run links b =
     (let previous = fst links; next = snd links;
          b1 = (if previous = slot_npos then b\<lparr>hb_free_head := to_wide_index next\<rparr>
                else write_free_links previous (fst (read_free_links b previous), next) b)
      in if next \<noteq> slot_npos
         then write_free_links next (previous, snd (read_free_links b1 next)) b1
         else b1)"

definition move_free_run :: "nat \<Rightarrow> nat \<times> nat \<Rightarrow> 'v hblock \<Rightarrow> 'v hblock" where
  "move_free_run index links b =
     (let previous = fst links; next = snd links;
          b0 = write_free_links index links b;
          b1 = (if previous = slot_npos then b0\<lparr>hb_free_head := index\<rparr>
                else write_free_links previous
                       (fst (read_free_links b0 previous), to_slot_index index) b0)
      in if next \<noteq> slot_npos
         then write_free_links next (to_slot_index index, snd (read_free_links b1 next)) b1
         else b1)"

definition push_free_run :: "nat \<Rightarrow> 'v hblock \<Rightarrow> 'v hblock" where
  "push_free_run index b = move_free_run index (slot_npos, to_slot_index (hb_free_head b)) b"

section \<open>Updates of a block\<close>

text \<open>
  The slot part of \<open>emplace\<close> in a block with room.  The constructor either yields a value or
  throws, and may have overwritten the storage of the slot either way; the result carries the
  index of the new element, \<open>None\<close> when the exception is rethrown.
\<close>

definition emplace_slot :: "'v option \<Rightarrow> 'v hblock \<Rightarrow> nat option \<times> 'v hblock" where
  "emplace_slot v b =
     (let reuse = hb_free_head b \<noteq> npos;
          index = (if reuse then hb_free_head b else hb_high_water b);
          run_length = (if reuse then hb_skip b index else 0);
          links = (if reuse then read_free_links b index else (slot_npos, slot_npos))
      in case v of
           None \<Rightarrow>
             (let b1 = set_slot index Raw b
              in (None, if reuse then write_free_links index links b1 else b1))
         | Some x \<Rightarrow>
             (let b1 = set_skip index 0 (set_slot index (Elem x) b);
                  b2 = (if reuse then
                          (if run_length = 1 then unlink_free_run links b1
                           else let remaining = (run_length - 1) mod 2 ^ 16
                                in move_free_run (index + 1) links
                                     (set_skip (index + run_length - 1) remaining
                                       (set_skip (index + 1) remaining b1)))
                        else b1\<lparr>hb_high_water := hb_high_water b1 + 1\<rparr>)
              in (Some index, b2\<lparr>hb_live_count := hb_live_count b2 + 1\<rparr>)))"

text \<open>The slot part of \<open>erase\<close>.\<close>

definition erase_slot :: "nat \<Rightarrow> 'v hblock \<Rightarrow> 'v hblock" where
  "erase_slot index b0 =
     (let b = (set_slot index Raw b0)\<lparr>hb_live_count := hb_live_count b0 - 1\<rparr>
      in if index = hb_high_water b - 1 then
           (let b1 = b\<lparr>hb_high_water := index\<rparr>
            in if index \<noteq> 0 \<and> hb_skip b1 (index - 1) \<noteq> 0 then
                 (let run_start = index - hb_skip b1 (index - 1)
                  in (unlink_free_run (read_free_links b1 run_start) b1)\<lparr>hb_high_water := run_start\<rparr>)
               else b1)
         else
           (let left = (if index = 0 then 0 else hb_skip b (index - 1));
                right = hb_skip b (index + 1);
                len = (left + right + 1) mod 2 ^ 16
            in if left = 0 \<and> right = 0 then push_free_run index (set_skip index 1 b)
               else if right = 0 then set_skip index len (set_skip (index - left) len b)
               else if left = 0 then
                 (let links = read_free_links b (index + 1)
                  in move_free_run index links
                       (set_skip (index + right) len (set_skip index len b)))
               else
                 (let b1 = set_skip index 1 (set_skip (index + right) len (set_skip (index - left) len b))
                  in unlink_free_run (read_free_links b1 (index + 1)) b1)))"

text \<open>The step of \<open>operator++\<close> and \<open>operator--\<close> inside a block; \<open>None\<close> leaves the block.\<close>

definition next_index :: "'v hblock \<Rightarrow> nat \<Rightarrow> nat option" where
  "next_index b index =
     (let next = index + 1
      in if next < hb_high_water b then Some (next + hb_skip b next) else None)"

definition prev_index :: "'v hblock \<Rightarrow> nat \<Rightarrow> nat option" where
  "prev_index b index =
     (if index \<noteq> 0 then
        (let previous = index - 1; skipped = hb_skip b previous
         in if skipped \<le> previous then Some (previous - skipped) else None)
      else None)"

text \<open>
  The loop of \<open>destroy_live_elements\<close>: the indices it destroys, in order.
\<close>

function destroy_from :: "'v hblock \<Rightarrow> nat \<Rightarrow> nat list" where
  "destroy_from b index =
     (if index < hb_high_water b
      then index # destroy_from b (if index + 1 < hb_high_water b then index + 1 + hb_skip b (index + 1)
                                   else index + 1)
      else [])"
  by pat_completeness auto
termination
  by (relation "measure (\<lambda>(b, index). hb_high_water b - index)") auto

declare destroy_from.simps [simp del]

definition destroy_live_elements :: "'v hblock \<Rightarrow> nat list" where
  "destroy_live_elements b = destroy_from b (if hb_high_water b = 0 then 0 else hb_skip b 0)"

section \<open>The free list as a list of run heads\<close>

definition enc :: "ptr \<Rightarrow> nat" where
  "enc p = (case p of None \<Rightarrow> slot_npos | Some i \<Rightarrow> i)"

definition encw :: "ptr \<Rightarrow> nat" where
  "encw p = (case p of None \<Rightarrow> npos | Some i \<Rightarrow> i)"

fun fl_links :: "(nat \<Rightarrow> 'v slot) \<Rightarrow> ptr \<Rightarrow> nat list \<Rightarrow> ptr \<Rightarrow> bool" where
  "fl_links sl p [] e \<longleftrightarrow> True"
| "fl_links sl p (s # ss) e \<longleftrightarrow>
     sl s = Links (enc p) (enc (first_ptr ss e)) \<and> fl_links sl (Some s) ss e"

definition fl_rep :: "'v hblock \<Rightarrow> nat list \<Rightarrow> bool" where
  "fl_rep b fl \<longleftrightarrow> hb_free_head b = encw (first_ptr fl None) \<and> fl_links (hb_slots b) None fl None \<and>
     distinct fl \<and> (\<forall>s \<in> set fl. s < slot_npos)"

lemma enc_simps [simp]: "enc None = slot_npos" "enc (Some i) = i" "encw None = npos" "encw (Some i) = i"
  by (simp_all add: enc_def encw_def)

lemma fl_links_append [simp]:
  "fl_links sl p (xs @ ys) e \<longleftrightarrow> fl_links sl p xs (first_ptr ys e) \<and> fl_links sl (last_ptr p xs) ys e"
  by (induction xs arbitrary: p) (auto simp: first_ptr_append)

lemma fl_links_upd [simp]: "s \<notin> set xs \<Longrightarrow> fl_links (sl(s := v)) p xs e \<longleftrightarrow> fl_links sl p xs e"
  by (induction xs arbitrary: p) auto

lemma fl_links_cong: "(\<And>s. s \<in> set xs \<Longrightarrow> sl s = sl' s) \<Longrightarrow> fl_links sl p xs e \<longleftrightarrow> fl_links sl' p xs e"
  by (induction xs arbitrary: p) auto

text \<open>Only the slots of the free list and its head are touched by these operations.\<close>

definition same_but_free :: "nat set \<Rightarrow> 'v hblock \<Rightarrow> 'v hblock \<Rightarrow> bool" where
  "same_but_free S b b' \<longleftrightarrow> (\<exists>sl fh. b' = b\<lparr>hb_slots := sl, hb_free_head := fh\<rparr> \<and> (\<forall>i. i \<notin> S \<longrightarrow> sl i = hb_slots b i))"

lemma same_but_freeI:
  "b' = b\<lparr>hb_slots := hb_slots b', hb_free_head := hb_free_head b'\<rparr> \<Longrightarrow>
   (\<And>i. i \<notin> S \<Longrightarrow> hb_slots b' i = hb_slots b i) \<Longrightarrow> same_but_free S b b'"
  unfolding same_but_free_def by blast

lemmas fl_defs = unlink_free_run_def move_free_run_def write_free_links_def read_free_links_def
  set_slot_def Let_def

lemma fl_at: "fl_rep b (as @ s # bs) \<Longrightarrow>
  read_free_links b s = (enc (last_ptr None as), enc (first_ptr bs None)) \<and>
  hb_slots b s = Links (enc (last_ptr None as)) (enc (first_ptr bs None))"
  by (simp add: fl_rep_def read_free_links_def)

text \<open>
  A node dropped or put between \<open>as\<close> and \<open>bs\<close>, whose links towards each other may be
  anything.
\<close>

lemma fl_unlink:
  assumes "fl_links (hb_slots b) None as e" "fl_links (hb_slots b) q bs None" "distinct (as @ bs)"
    and "\<forall>i \<in> set (as @ bs). i < slot_npos" "as \<noteq> [] \<longrightarrow> hb_free_head b = encw (first_ptr as None)"
  shows "fl_rep (unlink_free_run (enc (last_ptr None as), enc (first_ptr bs None)) b) (as @ bs)"
    and "same_but_free (set as \<union> set bs) b (unlink_free_run (enc (last_ptr None as), enc (first_ptr bs None)) b)"
proof -
  have small: "\<And>i. i \<in> set as \<union> set bs \<Longrightarrow> i \<noteq> slot_npos \<and> i < slot_npos" using assms by auto
  show "fl_rep (unlink_free_run (enc (last_ptr None as), enc (first_ptr bs None)) b) (as @ bs)"
    using assms small
    by (cases as rule: rev_cases; cases bs) (auto simp: fl_rep_def fl_defs first_ptr_append)
  show "same_but_free (set as \<union> set bs) b (unlink_free_run (enc (last_ptr None as), enc (first_ptr bs None)) b)"
    using assms small
    by (intro same_but_freeI; cases as rule: rev_cases; cases bs) (auto simp: fl_rep_def fl_defs)
qed

lemma fl_move:
  assumes "fl_links (hb_slots b) None as e" "fl_links (hb_slots b) q bs None" "distinct (as @ s # bs)"
    and "\<forall>i \<in> set (as @ s # bs). i < slot_npos" "as \<noteq> [] \<longrightarrow> hb_free_head b = encw (first_ptr as None)"
  shows "fl_rep (move_free_run s (enc (last_ptr None as), enc (first_ptr bs None)) b) (as @ s # bs)"
    and "same_but_free (insert s (set as \<union> set bs)) b (move_free_run s (enc (last_ptr None as), enc (first_ptr bs None)) b)"
proof -
  have small: "\<And>i. i \<in> set as \<union> set bs \<Longrightarrow> i \<noteq> slot_npos \<and> i < slot_npos" using assms by auto
  show "fl_rep (move_free_run s (enc (last_ptr None as), enc (first_ptr bs None)) b) (as @ s # bs)"
    using assms small
    by (cases as rule: rev_cases; cases bs) (auto simp: fl_rep_def fl_defs first_ptr_append)
  show "same_but_free (insert s (set as \<union> set bs)) b (move_free_run s (enc (last_ptr None as), enc (first_ptr bs None)) b)"
    using assms small
    by (intro same_but_freeI; cases as rule: rev_cases; cases bs) (auto simp: fl_rep_def fl_defs)
qed

lemma fl_push:
  assumes "fl_rep b fl" "s \<notin> set fl" "s < slot_npos"
  shows "fl_rep (push_free_run s b) (s # fl)" "same_but_free (insert s (set fl)) b (push_free_run s b)"
proof -
  have head: "to_slot_index (hb_free_head b) = enc (first_ptr fl None)"
    using assms(1) by (cases fl) (auto simp: fl_rep_def)
  have "distinct ([] @ s # fl)" "\<forall>i \<in> set ([] @ s # fl). i < slot_npos" "fl_links (hb_slots b) None fl None"
    using assms by (auto simp: fl_rep_def)
  then show "fl_rep (push_free_run s b) (s # fl)" "same_but_free (insert s (set fl)) b (push_free_run s b)"
    using fl_move [of b "[]" None None fl s] by (auto simp: push_free_run_def head)
qed

lemma first_ptr_any: "xs \<noteq> [] \<Longrightarrow> first_ptr xs e = first_ptr xs e'"
  by (cases xs) simp_all

lemma fl_around:
  assumes "fl_rep b (as @ s # bs)"
  shows "fl_links (hb_slots b) None as (Some s)" "fl_links (hb_slots b) (Some s) bs None" "distinct (as @ bs)"
    "\<forall>i \<in> set (as @ bs). i < slot_npos" "as \<noteq> [] \<longrightarrow> hb_free_head b = encw (first_ptr as None)"
  using assms by (auto simp: fl_rep_def first_ptr_append intro!: arg_cong [of _ _ encw] first_ptr_any)

lemma fl_drop:
  assumes "fl_rep b (as @ s # bs)"
  shows "fl_rep (unlink_free_run (read_free_links b s) b) (as @ bs)"
    "same_but_free (set as \<union> set bs) b (unlink_free_run (read_free_links b s) b)"
  using fl_unlink [OF fl_around [OF assms]] fl_at [OF assms] by simp_all

lemma fl_relocate:
  assumes "fl_rep b (as @ s # bs)" "t \<notin> set (as @ bs)" "t < slot_npos"
  shows "fl_rep (move_free_run t (read_free_links b s) b) (as @ t # bs)"
    "same_but_free (insert t (set as \<union> set bs)) b (move_free_run t (read_free_links b s) b)"
proof -
  note F = fl_around [OF assms(1)]
  have "distinct (as @ t # bs)" "\<forall>i \<in> set (as @ t # bs). i < slot_npos" using F(3,4) assms(2,3) by auto
  from fl_move [OF F(1,2) this F(5)] show
    "fl_rep (move_free_run t (read_free_links b s) b) (as @ t # bs)"
    "same_but_free (insert t (set as \<union> set bs)) b (move_free_run t (read_free_links b s) b)"
    using fl_at [OF assms(1)] by simp_all
qed

lemma same_but_free_simps:
  assumes "same_but_free S b b'"
  shows "hb_skip b' = hb_skip b" "hb_capacity b' = hb_capacity b" "hb_live_count b' = hb_live_count b"
    "hb_high_water b' = hb_high_water b" "i \<notin> S \<Longrightarrow> hb_slots b' i = hb_slots b i"
  using assms by (auto simp: same_but_free_def)

section \<open>Segments\<close>

datatype 'v seg = Live 'v | Dead nat

fun seg_width :: "'v seg \<Rightarrow> nat" where
  "seg_width (Live v) = 1"
| "seg_width (Dead n) = n"

fun width :: "'v seg list \<Rightarrow> nat" where
  "width [] = 0"
| "width (x # xs) = seg_width x + width xs"

fun segs_at :: "(nat \<Rightarrow> nat) \<Rightarrow> (nat \<Rightarrow> 'v slot) \<Rightarrow> nat \<Rightarrow> 'v seg list \<Rightarrow> bool" where
  "segs_at sk sl p [] \<longleftrightarrow> True"
| "segs_at sk sl p (Live v # xs) \<longleftrightarrow> sk p = 0 \<and> sl p = Elem v \<and> segs_at sk sl (p + 1) xs"
| "segs_at sk sl p (Dead n # xs) \<longleftrightarrow> 0 < n \<and> sk p = n \<and> sk (p + n - 1) = n \<and>
     (\<forall>i. p \<le> i \<and> i < p + n \<longrightarrow> sk i \<noteq> 0) \<and> segs_at sk sl (p + n) xs"

text \<open>No two dead runs are adjacent and the last segment is live.\<close>

fun is_live :: "'v seg \<Rightarrow> bool" where
  "is_live (Live v) = True"
| "is_live (Dead n) = False"

definition segs_wf :: "'v seg list \<Rightarrow> bool" where
  "segs_wf xs \<longleftrightarrow> successively (\<lambda>a b. is_live a \<or> is_live b) xs \<and> (xs \<noteq> [] \<longrightarrow> is_live (last xs))"

fun starts :: "nat \<Rightarrow> 'v seg list \<Rightarrow> nat list" where
  "starts p [] = []"
| "starts p (Live v # xs) = starts (p + 1) xs"
| "starts p (Dead n # xs) = p # starts (p + n) xs"

text \<open>The live slots in order, with their values.\<close>

fun cells :: "nat \<Rightarrow> 'v seg list \<Rightarrow> (nat \<times> 'v) list" where
  "cells p [] = []"
| "cells p (Live v # xs) = (p, v) # cells (p + 1) xs"
| "cells p (Dead n # xs) = cells (p + n) xs"

definition blk_rep :: "'v hblock \<Rightarrow> 'v seg list \<Rightarrow> bool" where
  "blk_rep b xs \<longleftrightarrow>
     segs_at (hb_skip b) (hb_slots b) 0 xs \<and> segs_wf xs \<and> width xs = hb_high_water b \<and>
     hb_high_water b \<le> hb_capacity b \<and> 0 < hb_capacity b \<and> hb_capacity b \<le> slot_npos \<and>
     hb_live_count b = length (cells 0 xs) \<and>
     (\<exists>fl. fl_rep b fl \<and> set fl = set (starts 0 xs))"

lemma width_append [simp]: "width (xs @ ys) = width xs + width ys"
  by (induction xs) auto

lemma segs_at_append [simp]:
  "segs_at sk sl p (xs @ ys) \<longleftrightarrow> segs_at sk sl p xs \<and> segs_at sk sl (p + width xs) ys"
  by (induction sk sl p xs rule: segs_at.induct) (auto simp: add.assoc)

lemma starts_append [simp]: "starts p (xs @ ys) = starts p xs @ starts (p + width xs) ys"
  by (induction p xs rule: starts.induct) (auto simp: add.assoc)

lemma cells_append [simp]: "cells p (xs @ ys) = cells p xs @ cells (p + width xs) ys"
  by (induction p xs rule: cells.induct) (auto simp: add.assoc)

lemma segs_at_cong:
  "(\<And>i. p \<le> i \<Longrightarrow> i < p + width xs \<Longrightarrow> sk' i = sk i \<and> (sk i = 0 \<longrightarrow> sl' i = sl i)) \<Longrightarrow>
   segs_at sk sl p xs \<Longrightarrow> segs_at sk' sl' p xs"
proof (induction sk sl p xs rule: segs_at.induct)
  case (2 sk sl p v xs)
  then show ?case by auto
next
  case (3 sk sl p n xs)
  have "segs_at sk' sl' (p + n) xs" using 3 by auto
  moreover have "sk' i = sk i" if "p \<le> i" "i < p + n" for i using 3(2) [of i] that by auto
  ultimately show ?case using 3(3) by (auto 0 3)
qed simp

lemma starts_bounds:
  "segs_at sk sl p xs \<Longrightarrow> s \<in> set (starts p xs) \<Longrightarrow> p \<le> s \<and> s < p + width xs \<and> sk s \<noteq> 0"
  by (induction sk sl p xs rule: segs_at.induct) auto

lemma cells_bounds: "(i, v) \<in> set (cells p xs) \<Longrightarrow> p \<le> i \<and> i < p + width xs"
  by (induction p xs rule: cells.induct) auto

lemma cells_live: "segs_at sk sl p xs \<Longrightarrow> (i, v) \<in> set (cells p xs) \<Longrightarrow> sk i = 0 \<and> sl i = Elem v"
  by (induction sk sl p xs rule: segs_at.induct) auto

lemma distinct_starts: "segs_at sk sl p xs \<Longrightarrow> distinct (starts p xs)"
  by (induction sk sl p xs rule: segs_at.induct) (auto dest: starts_bounds)

lemma split_start:
  "segs_at sk sl p xs \<Longrightarrow> s \<in> set (starts p xs) \<Longrightarrow>
   \<exists>as bs. xs = as @ Dead (sk s) # bs \<and> s = p + width as"
proof (induction sk sl p xs rule: segs_at.induct)
  case (2 sk sl p v xs)
  then obtain as bs where "xs = as @ Dead (sk s) # bs" "s = p + 1 + width as" by auto
  then have "Live v # xs = (Live v # as) @ Dead (sk s) # bs" "s = p + width (Live v # as)" by auto
  then show ?case by blast
next
  case (3 sk sl p n xs)
  show ?case
  proof (cases "s = p")
    case True
    then show ?thesis using 3(2) by (intro exI [of _ "[]"] exI [of _ xs]) auto
  next
    case False
    then obtain as bs where "xs = as @ Dead (sk s) # bs" "s = p + n + width as" using 3 by auto
    then have "Dead n # xs = (Dead n # as) @ Dead (sk s) # bs" "s = p + width (Dead n # as)" by auto
    then show ?thesis by blast
  qed
qed simp

lemma split_cell:
  "(i, v) \<in> set (cells p xs) \<Longrightarrow> \<exists>as bs. xs = as @ Live v # bs \<and> i = p + width as"
proof (induction p xs rule: cells.induct)
  case (2 p w xs)
  show ?case
  proof (cases "i = p \<and> v = w")
    case True
    then show ?thesis by (intro exI [of _ "[]"] exI [of _ xs]) auto
  next
    case False
    then obtain as bs where "xs = as @ Live v # bs" "i = p + 1 + width as" using 2 by auto
    then have "Live w # xs = (Live w # as) @ Live v # bs" "i = p + width (Live w # as)" by auto
    then show ?thesis by blast
  qed
next
  case (3 p n xs)
  then obtain as bs where "xs = as @ Live v # bs" "i = p + n + width as" by auto
  then have "Dead n # xs = (Dead n # as) @ Live v # bs" "i = p + width (Dead n # as)" by auto
  then show ?case by blast
qed simp

section \<open>Insertion into a block\<close>

lemma blk_repE:
  assumes "blk_rep b xs"
  obtains fl where "segs_at (hb_skip b) (hb_slots b) 0 xs" "segs_wf xs" "width xs = hb_high_water b"
    "hb_high_water b \<le> hb_capacity b" "0 < hb_capacity b" "hb_capacity b \<le> slot_npos"
    "hb_live_count b = length (cells 0 xs)" "fl_rep b fl" "set fl = set (starts 0 xs)"
  using assms by (auto simp: blk_rep_def)

lemma blk_repI:
  assumes "blk_rep b xs" "hb_capacity b' = hb_capacity b" "hb_high_water b' \<le> hb_high_water b"
    and "segs_at (hb_skip b') (hb_slots b') 0 ys" "segs_wf ys" "width ys = hb_high_water b'"
    and "hb_live_count b' = length (cells 0 ys)" "fl_rep b' fl" "set fl = set (starts 0 ys)"
  shows "blk_rep b' ys"
  using assms by (auto simp: blk_rep_def)

lemma emplace_slot_fresh:
  assumes "blk_rep b xs" "hb_free_head b = npos" "hb_high_water b < hb_capacity b"
  shows "\<exists>b'. emplace_slot (Some v) b = (Some (width xs), b') \<and> blk_rep b' (xs @ [Live v])"
proof -
  obtain fl where r: "segs_at (hb_skip b) (hb_slots b) 0 xs" "segs_wf xs" "width xs = hb_high_water b"
    "hb_capacity b \<le> slot_npos" "0 < hb_capacity b"
    "hb_live_count b = length (cells 0 xs)" "fl_rep b fl" "set fl = set (starts 0 xs)"
    using assms(1) by (rule blk_repE)
  have fl: "fl = []" using r(7) assms(2) npos_slot_npos by (cases fl) (auto simp: fl_rep_def)
  define i where "i = hb_high_water b"
  have "segs_at ((hb_skip b)(i := 0)) ((hb_slots b)(i := Elem v)) 0 xs"
    using r(1) by (rule segs_at_cong [rotated]) (simp add: r(3) i_def)
  then show ?thesis
    using r fl assms(2,3)
    by (auto simp: emplace_slot_def set_slot_def set_skip_def blk_rep_def fl_rep_def i_def segs_wf_def
      successively_append_iff Let_def)
qed

text \<open>
  Slots outside the dead run that is changed keep their segment: the operations only touch
  skip entries of the run and slots that hold links, which are dead.
\<close>

lemma segs_at_keep:
  assumes "segs_at (hb_skip b) (hb_slots b) p xs" "same_but_free S b1 b2"
    and "\<And>i. p \<le> i \<Longrightarrow> i < p + width xs \<Longrightarrow> hb_skip b1 i = hb_skip b i \<and> (hb_skip b i = 0 \<longrightarrow> i \<notin> S \<and> hb_slots b1 i = hb_slots b i)"
  shows "segs_at (hb_skip b2) (hb_slots b2) p xs"
  using assms(1)
  by (rule segs_at_cong [rotated]) (use assms(3) same_but_free_simps [OF assms(2)] in auto)

text \<open>The dead run at the head of the free list, with everything around it.\<close>

lemma free_head_run:
  assumes "blk_rep b xs" "hb_free_head b \<noteq> npos"
  obtains s fl n as bs where "xs = as @ Dead n # bs" "s = width as" "hb_free_head b = s" "hb_skip b s = n" "0 < n"
    "read_free_links b s = (slot_npos, enc (first_ptr fl None))" "fl_links (hb_slots b) (Some s) fl None"
    "distinct fl" "s \<notin> set fl" "\<forall>i \<in> set fl. i < slot_npos" "\<forall>i \<in> set fl. hb_skip b i \<noteq> 0"
    "set fl = set (starts 0 as) \<union> set (starts (s + n) bs)" "\<And>i. i \<in> set fl \<Longrightarrow> \<not> (s \<le> i \<and> i < s + n)"
    "segs_at (hb_skip b) (hb_slots b) 0 as" "segs_at (hb_skip b) (hb_slots b) (s + n) bs"
    "\<And>i. s \<le> i \<Longrightarrow> i < s + n \<Longrightarrow> hb_skip b i \<noteq> 0" "s + n \<le> hb_high_water b"
    "hb_live_count b = length (cells 0 as) + length (cells (s + n) bs)"
proof -
  obtain fl0 where r: "segs_at (hb_skip b) (hb_slots b) 0 xs" "width xs = hb_high_water b"
    "hb_live_count b = length (cells 0 xs)" "fl_rep b fl0" "set fl0 = set (starts 0 xs)"
    using assms(1) by (rule blk_repE)
  obtain s fl where fl0: "fl0 = s # fl" using r(4) assms(2) by (cases fl0) (auto simp: fl_rep_def)
  define n where "n = hb_skip b s"
  obtain as bs where xs: "xs = as @ Dead n # bs" "s = width as"
    using split_start [OF r(1), of s] r(5) fl0 by (auto simp: n_def)
  have D: "segs_at (hb_skip b) (hb_slots b) 0 as" "segs_at (hb_skip b) (hb_slots b) (s + n) bs"
    using r(1) by (auto simp: xs)
  have sfl: "s \<notin> set fl" using r(4) by (simp add: fl0 fl_rep_def)
  have "insert s (set fl) = insert s (set (starts 0 as) \<union> set (starts (s + n) bs))" using r(5) by (simp add: fl0 xs)
  moreover have "s \<notin> set (starts 0 as) \<union> set (starts (s + n) bs)"
    using distinct_starts [OF r(1)] by (simp add: xs)
  ultimately have rest: "set fl = set (starts 0 as) \<union> set (starts (s + n) bs)" using sfl insert_ident by metis
  show ?thesis
  proof (rule that [OF xs])
    show "\<And>i. i \<in> set fl \<Longrightarrow> \<not> (s \<le> i \<and> i < s + n)"
      using starts_bounds [OF D(1)] starts_bounds [OF D(2)] by (fastforce simp: rest xs(2))
    show "\<forall>i \<in> set fl. hb_skip b i \<noteq> 0" using starts_bounds [OF r(1)] r(5) by (auto simp: fl0)
  qed (use r fl_at [of b "[]" s fl] sfl rest in \<open>auto simp: fl0 fl_rep_def n_def xs\<close>)
qed

lemma blk_rep_wf_reuse:
  "segs_wf (as @ Dead n # bs) \<Longrightarrow> segs_wf (as @ Live v # bs) \<and> segs_wf (as @ Live v # Dead k # bs)"
  by (auto simp: segs_wf_def successively_append_iff successively_Cons split: if_splits)

lemma emplace_slot_reuse_last:
  assumes "blk_rep b xs" "hb_free_head b \<noteq> npos" "hb_skip b (hb_free_head b) = 1"
  shows "\<exists>as bs b'. xs = as @ Dead 1 # bs \<and> emplace_slot (Some v) b = (Some (width as), b') \<and>
    blk_rep b' (as @ Live v # bs)"
proof (cases rule: free_head_run [OF assms(1,2)])
  case R: (1 s fl n as bs)
  have n: "n = 1" using R(3,4) assms(3) by simp
  define b1 where "b1 = set_skip s 0 (set_slot s (Elem v) b)"
  define b2 where "b2 = unlink_free_run (slot_npos, enc (first_ptr fl None)) b1"
  have "fl_links (hb_slots b1) (Some s) fl None" using R(7,9) by (simp add: b1_def set_skip_def set_slot_def)
  then have u: "fl_rep b2 fl" "same_but_free (set fl) b1 b2"
    using fl_unlink [of b1 "[]" None "Some s" fl] R(8,10) by (auto simp: b2_def)
  have b2: "hb_skip b2 = (hb_skip b)(s := 0)" "hb_slots b2 s = Elem v" "hb_capacity b2 = hb_capacity b"
    "hb_high_water b2 = hb_high_water b" "hb_live_count b2 = hb_live_count b"
    using same_but_free_simps [OF u(2)] R(9) by (auto simp: b1_def set_skip_def set_slot_def)
  have keep: "\<And>i. i \<noteq> s \<Longrightarrow> hb_skip b1 i = hb_skip b i \<and>
      (hb_skip b i = 0 \<longrightarrow> i \<notin> set fl \<and> hb_slots b1 i = hb_slots b i)"
    using R(11) by (auto simp: b1_def set_skip_def set_slot_def)
  have A: "segs_at (hb_skip b2) (hb_slots b2) 0 as"
    by (rule segs_at_keep [OF R(14) u(2)]) (use keep in \<open>auto simp: R(2)\<close>)
  have B: "segs_at (hb_skip b2) (hb_slots b2) (s + 1) bs"
    by (rule segs_at_keep [OF R(15) [unfolded n] u(2)]) (use keep in auto)
  have run: "emplace_slot (Some v) b = (Some s, b2\<lparr>hb_live_count := hb_live_count b2 + 1\<rparr>)"
    using R(3,4,6) assms(2) n by (simp add: emplace_slot_def b1_def b2_def Let_def)
  have "segs_wf (as @ Live v # bs)" 
    using blk_rep_wf_reuse [of as n bs v 0] assms(1) unfolding blk_rep_def R(1) by blast
  moreover have "segs_at (hb_skip b2) (hb_slots b2) 0 (as @ Live v # bs)" using A B b2(1,2) n R(2) by simp
  moreover have "fl_rep (b2\<lparr>hb_live_count := hb_live_count b2 + 1\<rparr>) fl" using u(1) by (simp add: fl_rep_def)
  ultimately have "blk_rep (b2\<lparr>hb_live_count := hb_live_count b2 + 1\<rparr>) (as @ Live v # bs)"
    by (intro blk_repI [OF assms(1), where fl = fl]) (use assms(1) b2 R(2,12,18) n in \<open>auto simp: blk_rep_def R(1)\<close>)
  then show ?thesis using run n R(1,2) by blast
qed

lemma emplace_slot_reuse_more:
  assumes "blk_rep b xs" "hb_free_head b \<noteq> npos" "hb_skip b (hb_free_head b) \<noteq> 1"
  shows "\<exists>as n bs b'. xs = as @ Dead n # bs \<and> 1 < n \<and> emplace_slot (Some v) b = (Some (width as), b') \<and>
    blk_rep b' (as @ Live v # Dead (n - 1) # bs)"
proof (cases rule: free_head_run [OF assms(1,2)])
  case R: (1 s fl n as bs)
  have n: "1 < n" "s + n \<le> slot_npos" using R(3,4,5,17) assms by (auto simp: blk_rep_def)
  define b1 where "b1 = set_skip (s + n - 1) (n - 1) (set_skip (s + 1) (n - 1) (set_skip s 0 (set_slot s (Elem v) b)))"
  define b2 where "b2 = move_free_run (s + 1) (slot_npos, enc (first_ptr fl None)) b1"
  have "fl_links (hb_slots b1) (Some s) fl None" using R(7,9) by (simp add: b1_def set_skip_def set_slot_def)
  moreover have "s + 1 \<notin> set fl" "s + 1 < slot_npos" using R(13) [of "s + 1"] n by auto
  ultimately have u: "fl_rep b2 ((s + 1) # fl)" "same_but_free (insert (s + 1) (set fl)) b1 b2"
    using fl_move [of b1 "[]" None "Some s" fl "s + 1"] R(8,10) by (auto simp: b2_def)
  have b2: "hb_skip b2 = (hb_skip b)(s := 0, s + 1 := n - 1, s + n - 1 := n - 1)" "hb_slots b2 s = Elem v"
    "hb_capacity b2 = hb_capacity b" "hb_high_water b2 = hb_high_water b" "hb_live_count b2 = hb_live_count b"
    using same_but_free_simps [OF u(2)] R(9) n by (auto simp: b1_def set_skip_def set_slot_def)
  have keep: "\<And>i. i < s \<or> s + n \<le> i \<Longrightarrow> hb_skip b1 i = hb_skip b i \<and>
      (hb_skip b i = 0 \<longrightarrow> i \<notin> insert (s + 1) (set fl) \<and> hb_slots b1 i = hb_slots b i)"
    using R(11) n by (auto simp: b1_def set_skip_def set_slot_def)
  have A: "segs_at (hb_skip b2) (hb_slots b2) 0 as"
    by (rule segs_at_keep [OF R(14) u(2)]) (use keep in \<open>auto simp: R(2)\<close>)
  have B: "segs_at (hb_skip b2) (hb_slots b2) (s + n) bs"
    by (rule segs_at_keep [OF R(15) u(2)]) (use keep in auto)
  have M: "hb_skip b2 (s + 1) = n - 1" "hb_skip b2 (s + n - 1) = n - 1"
    "\<forall>i. s + 1 \<le> i \<and> i < s + n \<longrightarrow> hb_skip b2 i \<noteq> 0" using R(16) n by (auto simp: b2)
  have "(n - 1) mod 65536 = n - 1" using n(2) by (simp add: slot_npos_def)
  then have run: "emplace_slot (Some v) b = (Some s, b2\<lparr>hb_live_count := hb_live_count b2 + 1\<rparr>)"
    using R(3,4,6) assms(2) n by (simp add: emplace_slot_def b1_def b2_def Let_def)
  have "segs_wf (as @ Live v # Dead (n - 1) # bs)" 
    using blk_rep_wf_reuse [of as n bs v "n - 1"] assms(1) unfolding blk_rep_def R(1) by blast
  moreover have "segs_at (hb_skip b2) (hb_slots b2) 0 (as @ Live v # Dead (n - 1) # bs)"
    using A B M b2(1,2) n R(2) by simp
  moreover have "fl_rep (b2\<lparr>hb_live_count := hb_live_count b2 + 1\<rparr>) ((s + 1) # fl)" using u(1) by (simp add: fl_rep_def)
  ultimately have "blk_rep (b2\<lparr>hb_live_count := hb_live_count b2 + 1\<rparr>) (as @ Live v # Dead (n - 1) # bs)"
    by (intro blk_repI [OF assms(1), where fl = "(s + 1) # fl"])
      (use assms(1) b2 R(2,12,18) n in \<open>auto simp: blk_rep_def R(1)\<close>)
  then show ?thesis using run n R(1,2) by blast
qed

section \<open>Erasure from a block\<close>

definition split_back :: "'v seg list \<Rightarrow> nat \<times> 'v seg list" where
  "split_back xs = (case rev xs of Dead n # ys \<Rightarrow> (n, rev ys) | _ \<Rightarrow> (0, xs))"

definition split_front :: "'v seg list \<Rightarrow> nat \<times> 'v seg list" where
  "split_front xs = (case xs of Dead n # ys \<Rightarrow> (n, ys) | _ \<Rightarrow> (0, xs))"

text \<open>What erasing the live slot between \<open>as\<close> and \<open>bs\<close> makes of the segments.\<close>

definition erase_segs :: "'v seg list \<Rightarrow> 'v seg list \<Rightarrow> 'v seg list" where
  "erase_segs as bs =
     (if bs = [] then snd (split_back as)
      else snd (split_back as) @ Dead (fst (split_back as) + fst (split_front bs) + 1) # snd (split_front bs))"

lemma split_simps [simp]:
  "split_back [] = (0, [])" "split_back (xs @ [Live v]) = (0, xs @ [Live v])"
  "split_back (xs @ [Dead n]) = (n, xs)" "split_front [] = (0, [])"
  "split_front (Live v # xs) = (0, Live v # xs)" "split_front (Dead n # xs) = (n, xs)"
  by (simp_all add: split_back_def split_front_def)

lemma live_slot_ctx:
  assumes "blk_rep b (as @ Live v # bs)" "i = width as"
  obtains fl where "fl_rep b fl" "set fl = set (starts 0 as) \<union> set (starts (i + 1) bs)"
    "\<forall>s \<in> set fl. hb_skip b s \<noteq> 0 \<and> s < slot_npos \<and> s \<noteq> i" "hb_skip b i = 0"
    "segs_at (hb_skip b) (hb_slots b) 0 as" "segs_at (hb_skip b) (hb_slots b) (i + 1) bs"
    "hb_high_water b = i + 1 + width bs" "i < slot_npos" "hb_live_count b = Suc (length (cells 0 as) + length (cells (i + 1) bs))"
proof -
  obtain fl where r: "segs_at (hb_skip b) (hb_slots b) 0 (as @ Live v # bs)" "width (as @ Live v # bs) = hb_high_water b"
    "hb_high_water b \<le> hb_capacity b" "hb_capacity b \<le> slot_npos" "hb_live_count b = length (cells 0 (as @ Live v # bs))"
    "fl_rep b fl" "set fl = set (starts 0 (as @ Live v # bs))"
    using assms(1) by (rule blk_repE)
  have "\<forall>s \<in> set fl. hb_skip b s \<noteq> 0" using starts_bounds [OF r(1)] r(7) by auto
  moreover have "hb_skip b i = 0" using r(1) assms(2) by simp
  ultimately have "\<forall>s \<in> set fl. hb_skip b s \<noteq> 0 \<and> s < slot_npos \<and> s \<noteq> i" using r(6) by (auto simp: fl_rep_def)
  then show ?thesis using r assms(2) by (intro that [of fl]) auto
qed

lemma segs_wf_back:
  "segs_wf (as @ Live v # bs) \<Longrightarrow> as = cs @ [Dead l] \<Longrightarrow> segs_wf cs"
  by (auto simp: segs_wf_def successively_append_iff successively_Cons)

lemma segs_wf_prefix:
  "segs_wf (as @ Live v # bs) \<Longrightarrow> as = [] \<or> is_live (last as) \<Longrightarrow> segs_wf as"
  by (auto simp: segs_wf_def successively_append_iff)

lemma back_cases:
  obtains (none) "as = [] \<or> is_live (last as)" "split_back as = (0, as)" | (dead) cs l where "as = cs @ [Dead l]"
proof (cases as rule: rev_cases)
  case Nil
  then show ?thesis using none by simp
next
  case (snoc cs y)
  then show ?thesis using none dead by (cases y) auto
qed

lemma front_cases:
  obtains (nil) "bs = []" | (none) w ds where "bs = Live w # ds" | (dead) r ds where "bs = Dead r # ds"
proof (cases bs)
  case (Cons y ds)
  then show ?thesis using none dead by (cases y) auto
qed (use nil in simp)

lemma segs_wf_merge:
  "segs_wf (as @ Live v # bs) \<Longrightarrow> bs \<noteq> [] \<Longrightarrow> segs_wf (erase_segs as bs)"
  by (cases as rule: back_cases; cases bs rule: front_cases)
    (auto simp: erase_segs_def segs_wf_def successively_append_iff successively_Cons)

lemma skip_back:
  "segs_at sk sl 0 (as @ [Dead l]) \<Longrightarrow> 0 < l \<and> sk (width as + l - 1) = l \<and> sk (width as) = l"
  "segs_at sk sl 0 (as @ [Live v]) \<Longrightarrow> sk (width as) = 0"
  by auto

text \<open>The state right after the element is destroyed.\<close>

definition destroyed :: "nat \<Rightarrow> 'v hblock \<Rightarrow> 'v hblock" where
  "destroyed i b = (set_slot i Raw b)\<lparr>hb_live_count := hb_live_count b - 1\<rparr>"

lemma destroyed_simps [simp]:
  "hb_skip (destroyed i b) = hb_skip b" "hb_capacity (destroyed i b) = hb_capacity b"
  "hb_high_water (destroyed i b) = hb_high_water b" "hb_live_count (destroyed i b) = hb_live_count b - 1"
  "hb_slots (destroyed i b) = (hb_slots b)(i := Raw)" "hb_free_head (destroyed i b) = hb_free_head b"
  by (simp_all add: destroyed_def set_slot_def)

lemma erase_slot_eq:
  "erase_slot i b =
     (let b1 = destroyed i b in
      if i = hb_high_water b - 1 then
        (if i \<noteq> 0 \<and> hb_skip b (i - 1) \<noteq> 0
         then (unlink_free_run (read_free_links (b1\<lparr>hb_high_water := i\<rparr>) (i - hb_skip b (i - 1)))
                 (b1\<lparr>hb_high_water := i\<rparr>))\<lparr>hb_high_water := i - hb_skip b (i - 1)\<rparr>
         else b1\<lparr>hb_high_water := i\<rparr>)
      else
        (let left = (if i = 0 then 0 else hb_skip b (i - 1)); right = hb_skip b (i + 1);
             len = (left + right + 1) mod 2 ^ 16 in
         if left = 0 \<and> right = 0 then push_free_run i (set_skip i 1 b1)
         else if right = 0 then set_skip i len (set_skip (i - left) len b1)
         else if left = 0 then
           move_free_run i (read_free_links b1 (i + 1)) (set_skip (i + right) len (set_skip i len b1))
         else (let b2 = set_skip i 1 (set_skip (i + right) len (set_skip (i - left) len b1))
               in unlink_free_run (read_free_links b2 (i + 1)) b2)))"
  unfolding erase_slot_def destroyed_def [symmetric] by (simp add: Let_def)

lemma set_drop_node:
  "distinct (as @ x # bs) \<Longrightarrow> distinct (cs @ x # ds) \<Longrightarrow> set (as @ x # bs) = set (cs @ x # ds) \<Longrightarrow>
   set (as @ bs) = set (cs @ ds)"
  using insert_ident [of x "set (as @ bs)" "set (cs @ ds)"] by auto

lemma cells_erase: "cells 0 (erase_segs as bs) = cells 0 as @ cells (width as + 1) bs"
  by (cases as rule: back_cases; cases bs rule: front_cases) (auto simp: erase_segs_def algebra_simps)

lemma width_erase: "bs \<noteq> [] \<Longrightarrow> width (erase_segs as bs) = width as + 1 + width bs"
  by (cases as rule: back_cases; cases bs rule: front_cases) (auto simp: erase_segs_def)

lemma skip_left:
  assumes "segs_at sk sl 0 as" "i = width as"
  shows "as = [] \<or> is_live (last as) \<Longrightarrow> i = 0 \<or> sk (i - 1) = 0"
    and "as = cs @ [Dead l] \<Longrightarrow> i \<noteq> 0 \<and> sk (i - 1) = l \<and> 0 < l \<and> i = width cs + l \<and> i - l = width cs"
proof -
  show "i = 0 \<or> sk (i - 1) = 0" if "as = [] \<or> is_live (last as)"
  proof (cases as rule: rev_cases)
    case (snoc cs y)
    then show ?thesis using assms that by (cases y) auto
  qed (use assms in simp)
  show "as = cs @ [Dead l] \<Longrightarrow> i \<noteq> 0 \<and> sk (i - 1) = l \<and> 0 < l \<and> i = width cs + l \<and> i - l = width cs"
    using assms by auto
qed

lemma destroyed_fl: "fl_rep b fl \<Longrightarrow> i \<notin> set fl \<Longrightarrow> fl_rep (destroyed i b) fl"
  by (simp add: fl_rep_def)

lemma fl_rep_upd [simp]:
  "fl_rep (b\<lparr>hb_high_water := h\<rparr>) fl \<longleftrightarrow> fl_rep b fl" "fl_rep (set_skip j n b) fl \<longleftrightarrow> fl_rep b fl"
  by (simp_all add: fl_rep_def set_skip_def)

lemma erase_last:
  assumes "blk_rep b (as @ [Live v])" "i = width as"
  shows "blk_rep (erase_slot i b) (snd (split_back as))"
proof (cases rule: live_slot_ctx [OF assms])
  case C: (1 fl)
  have hw: "i = hb_high_water b - 1" using C(7) by simp
  have wf: "segs_wf (as @ [Live v])" using assms(1) by (simp add: blk_rep_def)
  have fl: "fl_rep (destroyed i b) fl" using C(1,3) by (intro destroyed_fl) auto
  have A: "segs_at (hb_skip b) ((hb_slots b)(i := Raw)) 0 as"
    using C(5) by (rule segs_at_cong [rotated]) (simp add: assms(2))
  show ?thesis
  proof (cases as rule: back_cases)
    case none
    have "blk_rep ((destroyed i b)\<lparr>hb_high_water := i\<rparr>) as"
      by (rule blk_repI [OF assms(1), where fl = fl]) (use C A fl none segs_wf_prefix [OF wf] assms(2) in auto)
    then show ?thesis using skip_left(1) [OF C(5) assms(2) none(1)] hw none(2) by (auto simp: erase_slot_eq Let_def)
  next
    case (dead cs l)
    note L = skip_left(2) [OF C(5) assms(2) dead]
    define b1 where "b1 = (destroyed i b)\<lparr>hb_high_water := i\<rparr>"
    obtain f1 f2 where f: "fl = f1 @ width cs # f2" using C(2) dead by (metis Un_iff in_set_conv_decomp starts.simps(3) starts_append split_list list.set_intros(1) add_0)
    have fb: "fl_rep b1 (f1 @ width cs # f2)" using fl f by (simp add: b1_def)
    define b2 where "b2 = unlink_free_run (read_free_links b1 (width cs)) b1"
    note u = fl_drop [OF fb, folded b2_def]
    have run: "erase_slot i b = b2\<lparr>hb_high_water := width cs\<rparr>"
    proof -
      have e: "i \<noteq> 0" "hb_skip b (i - 1) = l" "i - l = width cs" "l \<noteq> 0" using L by auto
      show ?thesis unfolding erase_slot_eq Let_def if_P [OF hw] e(2,3) b1_def b2_def by (simp add: e(1,4))
    qed
    have "segs_at (hb_skip b2) (hb_slots b2) 0 cs"
      proof (rule segs_at_keep [OF _ u(2), of b])
      show "segs_at (hb_skip b) (hb_slots b) 0 cs" using C(5) dead by simp
      have "set f1 \<union> set f2 \<subseteq> set fl" using f by auto
      then have "hb_skip b j = 0 \<longrightarrow> j \<notin> set f1 \<union> set f2" for j using C(3) by blast
      then show "\<And>j. 0 \<le> j \<Longrightarrow> j < 0 + width cs \<Longrightarrow>
          hb_skip b1 j = hb_skip b j \<and> (hb_skip b j = 0 \<longrightarrow> j \<notin> set f1 \<union> set f2 \<and> hb_slots b1 j = hb_slots b j)"
        using L by (auto simp: b1_def)
    qed
    moreover have "set (f1 @ f2) = set (starts 0 cs)"
    proof -
      have "distinct (f1 @ width cs # f2)" using fb by (simp add: fl_rep_def)
      moreover have "distinct (starts 0 as)" using distinct_starts [OF C(5)] .
      ultimately show ?thesis using set_drop_node [of f1 "width cs" f2 "starts 0 cs" "[]"] C(2) f dead by simp
    qed
    ultimately have "blk_rep (b2\<lparr>hb_high_water := width cs\<rparr>) cs"
      by (intro blk_repI [OF assms(1), where fl = "f1 @ f2"])
        (use same_but_free_simps [OF u(2)] C u(1) L dead segs_wf_back [OF wf dead] in \<open>auto simp: b1_def\<close>)
    then show ?thesis using run dead by simp
  qed
qed

lemma skip_right:
  assumes "segs_at sk sl (i + 1) bs" "bs \<noteq> []"
  shows "sk (i + 1) = fst (split_front bs)" "bs = Dead r # ds \<Longrightarrow> 0 < r \<and> sk (i + r) = r \<and>
     (\<forall>j. i + 1 \<le> j \<and> j < i + 1 + r \<longrightarrow> sk j \<noteq> 0) \<and> segs_at sk sl (i + 1 + r) ds"
  using assms by (cases bs rule: front_cases; simp)+

text \<open>
  Erasing a slot with segments on its right: the four cases differ in which runs they
  join; in each the skip entries of the joined run are right and the free list is that of
  the new segments.
\<close>

lemma erase_inner_frame:
  assumes "blk_rep b (as @ Live v # bs)" "i = width as" "bs \<noteq> []"
    and "n = fst (split_back as) + fst (split_front bs) + 1" "p = width (snd (split_back as))"
    and "fl_rep b' fl" "set fl = set (starts 0 (erase_segs as bs))"
    and "hb_capacity b' = hb_capacity b" "hb_high_water b' = hb_high_water b" "hb_live_count b' = hb_live_count b - 1"
    and "hb_skip b' p = n" "hb_skip b' (p + n - 1) = n" "\<forall>j. p \<le> j \<and> j < p + n \<longrightarrow> hb_skip b' j \<noteq> 0"
    and "\<forall>j. j < p \<or> p + n \<le> j \<longrightarrow> hb_skip b' j = hb_skip b j \<and> (hb_skip b j = 0 \<longrightarrow> hb_slots b' j = hb_slots b j)"
  shows "blk_rep b' (erase_segs as bs)"
proof (cases rule: live_slot_ctx [OF assms(1,2)])
  case C: (1 fl0)
  let ?l = "snd (split_back as)" and ?r = "snd (split_front bs)"
  have A: "segs_at (hb_skip b) (hb_slots b) 0 ?l" using C(5) by (cases as rule: back_cases) auto
  have B: "segs_at (hb_skip b) (hb_slots b) (p + n) ?r"
    using C(6) assms(2-5) by (cases as rule: back_cases; cases bs rule: front_cases) (auto simp: algebra_simps)
  have "segs_at (hb_skip b') (hb_slots b') 0 ?l"
    using A by (rule segs_at_cong [rotated]) (use assms(5,14) in auto)
  moreover have "segs_at (hb_skip b') (hb_slots b') (p + n) ?r"
    using B by (rule segs_at_cong [rotated]) (use assms(14) in auto)
  ultimately have "segs_at (hb_skip b') (hb_slots b') 0 (erase_segs as bs)"
    using assms(3,4,5,11,12,13) by (simp add: erase_segs_def)
  moreover have "segs_wf (erase_segs as bs)" using segs_wf_merge assms(1,3) by (auto simp: blk_rep_def)
  ultimately show ?thesis
    by (intro blk_repI [OF assms(1,8), where fl = fl]) (use assms C in \<open>auto simp: cells_erase width_erase\<close>)
qed

lemma erase_slot_inner:
  assumes "i \<noteq> hb_high_water b - 1" "(if i = 0 then 0 else hb_skip b (i - 1)) = l" "hb_skip b (i + 1) = r"
    and "l + r + 1 < 2 ^ 16"
  shows "l = 0 \<Longrightarrow> r = 0 \<Longrightarrow> erase_slot i b = push_free_run i (set_skip i 1 (destroyed i b))"
    "l \<noteq> 0 \<Longrightarrow> r = 0 \<Longrightarrow> erase_slot i b = set_skip i (l + 1) (set_skip (i - l) (l + 1) (destroyed i b))"
    "l = 0 \<Longrightarrow> r \<noteq> 0 \<Longrightarrow> erase_slot i b = move_free_run i (read_free_links (destroyed i b) (i + 1))
        (set_skip (i + r) (r + 1) (set_skip i (r + 1) (destroyed i b)))"
    "l \<noteq> 0 \<Longrightarrow> r \<noteq> 0 \<Longrightarrow> b1 = set_skip i 1 (set_skip (i + r) (l + r + 1) (set_skip (i - l) (l + r + 1) (destroyed i b))) \<Longrightarrow>
      erase_slot i b = unlink_free_run (read_free_links b1 (i + 1)) b1"
  unfolding erase_slot_eq Let_def assms(2,3) if_not_P [OF assms(1)] mod_less [OF assms(4)] by simp_all

lemma erase_alone:
  assumes "blk_rep b (as @ Live v # Live w # ds)" "i = width as" "as = [] \<or> is_live (last as)" "split_back as = (0, as)"
  shows "blk_rep (erase_slot i b) (as @ Dead 1 # Live w # ds)"
proof (cases rule: live_slot_ctx [OF assms(1,2)])
  case C: (1 fl)
  define b1 where "b1 = set_skip i 1 (destroyed i b)"
  have fl: "fl_rep b1 fl" using destroyed_fl [OF C(1), of i] C(3) by (auto simp: b1_def)
  note u = fl_push [OF fl, of i]
  have run: "erase_slot i b = push_free_run i b1"
    unfolding b1_def using skip_left(1) [OF C(5) assms(2,3)] C(6,7) by (intro erase_slot_inner) auto
  have i: "i \<notin> set fl" "i < slot_npos" using C by auto
  note S = same_but_free_simps [OF u(2) [OF i]]
  have dead: "hb_skip b j = 0 \<longrightarrow> j \<notin> set fl" for j using C(3) by blast
  have "blk_rep (push_free_run i b1) (erase_segs as (Live w # ds))"
  proof (rule erase_inner_frame [OF assms(1,2), where fl = "i # fl" and n = 1 and p = i])
    show "\<forall>j. j < i \<or> i + 1 \<le> j \<longrightarrow> hb_skip (push_free_run i b1) j = hb_skip b j \<and>
        (hb_skip b j = 0 \<longrightarrow> hb_slots (push_free_run i b1) j = hb_slots b j)"
      using S dead by (auto simp: b1_def set_skip_def)
  qed (use u i S C assms(2,4) in \<open>auto simp: b1_def set_skip_def erase_segs_def\<close>)
  then show ?thesis using run assms(4) by (simp add: erase_segs_def)
qed

lemma erase_join_left:
  assumes "blk_rep b (as @ Live v # Live w # ds)" "i = width as" "as = cs @ [Dead l]"
  shows "blk_rep (erase_slot i b) (cs @ Dead (l + 1) # Live w # ds)"
proof (cases rule: live_slot_ctx [OF assms(1,2)])
  case C: (1 fl)
  note L = skip_left(2) [OF C(5) assms(2,3)]
  define b1 where "b1 = set_skip i (l + 1) (set_skip (width cs) (l + 1) (destroyed i b))"
  have fl: "fl_rep b1 fl" using destroyed_fl [OF C(1), of i] C(3) by (auto simp: b1_def)
  have run: "erase_slot i b = b1"
  proof -
    have e: "i \<noteq> hb_high_water b - 1" "(if i = 0 then 0 else hb_skip b (i - 1)) = l" "hb_skip b (i + 1) = 0"
      "l + 0 + 1 < 2 ^ 16" "l \<noteq> 0" "i - l = width cs" using L C(6,7,8) by (auto simp: slot_npos_def)
    show ?thesis unfolding b1_def using erase_slot_inner(2) [OF e(1-5) refl] e(6) by simp
  qed
  have "segs_at (hb_skip b) (hb_slots b) 0 (cs @ [Dead l])" using C(5) assms(3) by simp
  then have inner: "\<forall>j. width cs \<le> j \<and> j < i \<longrightarrow> hb_skip b j \<noteq> 0" using L by auto
  have "blk_rep b1 (erase_segs as (Live w # ds))"
  proof (rule erase_inner_frame [OF assms(1,2), where fl = fl and n = "l + 1" and p = "width cs"])
    show "\<forall>j. j < width cs \<or> width cs + (l + 1) \<le> j \<longrightarrow> hb_skip b1 j = hb_skip b j \<and>
        (hb_skip b j = 0 \<longrightarrow> hb_slots b1 j = hb_slots b j)"
      using L by (auto simp: b1_def set_skip_def)
    show "\<forall>j. width cs \<le> j \<and> j < width cs + (l + 1) \<longrightarrow> hb_skip b1 j \<noteq> 0"
      using inner L by (auto simp: b1_def set_skip_def)
  qed (use fl C assms(3) L in \<open>auto simp: b1_def set_skip_def erase_segs_def\<close>)
  then show ?thesis using run assms(3) by (simp add: erase_segs_def)
qed

lemma erase_join_right:
  assumes "blk_rep b (as @ Live v # Dead r # ds)" "i = width as" "as = [] \<or> is_live (last as)" "split_back as = (0, as)"
  shows "blk_rep (erase_slot i b) (as @ Dead (r + 1) # ds)"
proof (cases rule: live_slot_ctx [OF assms(1,2)])
  case C: (1 fl)
  note Rt = skip_right [OF C(6)]
  have r: "hb_skip b (i + 1) = r" "0 < r" "hb_skip b (i + r) = r"
    "\<forall>j. i + 1 \<le> j \<and> j < i + 1 + r \<longrightarrow> hb_skip b j \<noteq> 0" using Rt by auto
  have rm: "r + 1 < 65536" using assms(1) C(7) by (auto simp: blk_rep_def slot_npos_def)
  define b1 where "b1 = set_skip (i + r) (r + 1) (set_skip i (r + 1) (destroyed i b))"
  obtain f1 f2 where f: "fl = f1 @ (i + 1) # f2" using C(2) split_list [of "i + 1" fl] by auto
  have fl: "fl_rep b1 (f1 @ (i + 1) # f2)" using destroyed_fl [OF C(1), of i] C(3) f by (auto simp: b1_def)
  have i: "i \<notin> set (f1 @ f2)" "i < slot_npos" using C(3,8) f by auto
  define b2 where "b2 = move_free_run i (read_free_links b1 (i + 1)) b1"
  note u = fl_relocate [OF fl i, folded b2_def]
  note S = same_but_free_simps [OF u(2)]
  have run: "erase_slot i b = b2"
  proof -
    have e: "(if i = 0 then 0 else hb_skip b (i - 1)) = 0" "i \<noteq> hb_high_water b - 1"
      using skip_left(1) [OF C(5) assms(2,3)] C(7) r(2) by auto
    have "read_free_links (destroyed i b) (i + 1) = read_free_links b1 (i + 1)"
      by (simp add: read_free_links_def b1_def set_skip_def)
    then show ?thesis using erase_slot_inner(3) [OF e(2,1) r(1)] r(2) rm by (simp add: b1_def b2_def)
  qed
  have st: "set (f1 @ f2) = set (starts 0 as) \<union> set (starts (i + 1 + r) ds)"
    using set_drop_node [of f1 "i + 1" f2 "starts 0 as" "starts (i + 1 + r) ds"] C(1,2) f
      distinct_starts [of "hb_skip b" "hb_slots b" 0 "as @ Live v # Dead r # ds"] assms(1,2)
    by (simp add: blk_rep_def fl_rep_def)
  have dead: "hb_skip b j = 0 \<longrightarrow> j \<notin> set f1 \<union> set f2" for j
  proof -
    have "set f1 \<union> set f2 \<subseteq> set fl" using f by auto
    then show ?thesis using C(3) by blast
  qed
  have "blk_rep b2 (erase_segs as (Dead r # ds))"
  proof (rule erase_inner_frame [OF assms(1,2), where fl = "f1 @ i # f2" and n = "r + 1" and p = i])
    show "\<forall>j. j < i \<or> i + (r + 1) \<le> j \<longrightarrow> hb_skip b2 j = hb_skip b j \<and> (hb_skip b j = 0 \<longrightarrow> hb_slots b2 j = hb_slots b j)"
      using S dead r(2) by (auto simp: b1_def set_skip_def)
    show "\<forall>j. i \<le> j \<and> j < i + (r + 1) \<longrightarrow> hb_skip b2 j \<noteq> 0" using S r(4) by (auto simp: b1_def set_skip_def)
    show "set (f1 @ i # f2) = set (starts 0 (erase_segs as (Dead r # ds)))"
      using st assms(2,4) by (auto simp: erase_segs_def)
  qed (use u S C assms(2,4) r in \<open>auto simp: b1_def set_skip_def\<close>)
  then show ?thesis using run assms(4) by (simp add: erase_segs_def)
qed

lemma erase_join_both:
  assumes "blk_rep b (as @ Live v # Dead r # ds)" "i = width as" "as = cs @ [Dead l]"
  shows "blk_rep (erase_slot i b) (cs @ Dead (l + r + 1) # ds)"
proof (cases rule: live_slot_ctx [OF assms(1,2)])
  case C: (1 fl)
  note L = skip_left(2) [OF C(5) assms(2,3)]
  note Rt = skip_right [OF C(6)]
  have r: "hb_skip b (i + 1) = r" "0 < r" "hb_skip b (i + r) = r"
    "\<forall>j. i + 1 \<le> j \<and> j < i + 1 + r \<longrightarrow> hb_skip b j \<noteq> 0" using Rt by auto
  have rm: "l + r + 1 < 65536" using assms(1) C(7) L by (auto simp: blk_rep_def slot_npos_def)
  define b1 where "b1 = set_skip i 1 (set_skip (i + r) (l + r + 1) (set_skip (width cs) (l + r + 1) (destroyed i b)))"
  obtain f1 f2 where f: "fl = f1 @ (i + 1) # f2" using C(2) split_list [of "i + 1" fl] by auto
  have fl: "fl_rep b1 (f1 @ (i + 1) # f2)" using destroyed_fl [OF C(1), of i] C(3) f by (auto simp: b1_def)
  define b2 where "b2 = unlink_free_run (read_free_links b1 (i + 1)) b1"
  note u = fl_drop [OF fl, folded b2_def]
  note S = same_but_free_simps [OF u(2)]
  have run: "erase_slot i b = b2"
  proof -
    have e: "i \<noteq> hb_high_water b - 1" "(if i = 0 then 0 else hb_skip b (i - 1)) = l" using L C(7) r(2) by auto
    show ?thesis using erase_slot_inner(4) [OF e r(1)] L r(2) rm by (simp add: b1_def b2_def)
  qed
  have st: "set (f1 @ f2) = set (starts 0 as) \<union> set (starts (i + 1 + r) ds)"
    using set_drop_node [of f1 "i + 1" f2 "starts 0 as" "starts (i + 1 + r) ds"] C(1,2) f
      distinct_starts [of "hb_skip b" "hb_slots b" 0 "as @ Live v # Dead r # ds"] assms(1,2)
    by (simp add: blk_rep_def fl_rep_def)
  have dead: "hb_skip b j = 0 \<longrightarrow> j \<notin> set f1 \<union> set f2" for j
  proof -
    have "set f1 \<union> set f2 \<subseteq> set fl" using f by auto
    then show ?thesis using C(3) by blast
  qed
  have "segs_at (hb_skip b) (hb_slots b) 0 (cs @ [Dead l])" using C(5) assms(3) by simp
  then have inner: "\<forall>j. width cs \<le> j \<and> j < i \<longrightarrow> hb_skip b j \<noteq> 0" using L by auto
  have "blk_rep b2 (erase_segs as (Dead r # ds))"
  proof (rule erase_inner_frame [OF assms(1,2), where fl = "f1 @ f2" and n = "l + r + 1" and p = "width cs"])
    show "\<forall>j. j < width cs \<or> width cs + (l + r + 1) \<le> j \<longrightarrow> hb_skip b2 j = hb_skip b j \<and>
        (hb_skip b j = 0 \<longrightarrow> hb_slots b2 j = hb_slots b j)"
      using S dead r(2) L by (auto simp: b1_def set_skip_def)
    show "\<forall>j. width cs \<le> j \<and> j < width cs + (l + r + 1) \<longrightarrow> hb_skip b2 j \<noteq> 0"
    proof (intro allI impI)
      fix j assume j: "width cs \<le> j \<and> j < width cs + (l + r + 1)"
      then consider "j < i" | "j = i" | "i + 1 \<le> j" "j < i + 1 + r" using L by linarith
      then show "hb_skip b2 j \<noteq> 0" by cases (use inner r(4) j in \<open>auto simp: S b1_def set_skip_def\<close>)
    qed
    show "set (f1 @ f2) = set (starts 0 (erase_segs as (Dead r # ds)))"
      using st assms(2,3) L by (auto simp: erase_segs_def algebra_simps)
  qed (use u S C assms(2,3) r L in \<open>auto simp: b1_def set_skip_def\<close>)
  then show ?thesis using run assms(3) by (simp add: erase_segs_def)
qed

lemma erase_slot_rep:
  assumes "blk_rep b (as @ Live v # bs)" "i = width as"
  shows "blk_rep (erase_slot i b) (erase_segs as bs)"
proof (cases bs rule: front_cases)
  case nil
  then show ?thesis using erase_last [OF assms(1) [unfolded nil] assms(2)] by (simp add: erase_segs_def)
next
  case (none w ds)
  show ?thesis
    using erase_alone [OF assms(1) [unfolded none] assms(2)] erase_join_left [OF assms(1) [unfolded none] assms(2)]
    by (cases as rule: back_cases) (auto simp: erase_segs_def none)
next
  case (dead r ds)
  show ?thesis
    using erase_join_right [OF assms(1) [unfolded dead] assms(2)] erase_join_both [OF assms(1) [unfolded dead] assms(2)]
    by (cases as rule: back_cases) (auto simp: erase_segs_def dead)
qed

section \<open>Traversal\<close>

lemma cells_front:
  assumes "segs_at sk sl p xs" "segs_wf xs" "xs \<noteq> []"
  shows "\<exists>v ys. xs = Live v # ys \<and> cells p xs = (p + sk p, v) # cells (p + 1) ys \<and> sk p = 0 \<or>
    (\<exists>n. xs = Dead n # Live v # ys \<and> sk p = n \<and> cells p xs = (p + sk p, v) # cells (p + n + 1) ys)"
proof (cases xs rule: front_cases)
  case (dead r ds)
  then obtain v ys where "ds = Live v # ys"
    using assms(2) by (cases ds rule: front_cases) (auto simp: segs_wf_def successively_Cons)
  then show ?thesis using assms(1) dead by auto
qed (use assms in auto)

lemma first_cell:
  assumes "segs_at sk sl p xs" "segs_wf xs" "xs \<noteq> []"
  shows "\<exists>v cs. cells p xs = (p + sk p, v) # cs"
  using cells_front [OF assms] by auto

lemma segs_wf_suffix: "segs_wf (as @ bs) \<Longrightarrow> segs_wf bs"
  by (cases "bs = []") (auto simp: segs_wf_def successively_append_iff)

lemma width_zero: "segs_at sk sl p xs \<Longrightarrow> width xs = 0 \<longleftrightarrow> xs = []"
  by (induction sk sl p xs rule: segs_at.induct) auto

lemma next_index_rep:
  assumes "blk_rep b (as @ Live v # bs)"
  shows "next_index b (width as) = (case cells (width as + 1) bs of [] \<Rightarrow> None | (j, w) # _ \<Rightarrow> Some j)"
proof (cases rule: live_slot_ctx [OF assms refl])
  case C: (1 fl)
  have wf: "segs_wf bs" using assms segs_wf_suffix [of "as @ [Live v]" bs] by (simp add: blk_rep_def)
  show ?thesis
  proof (cases "bs = []")
    case True
    then show ?thesis using C(7) by (simp add: next_index_def)
  next
    case False
    then have "width bs \<noteq> 0" using width_zero [OF C(6)] by simp
    then show ?thesis using first_cell [OF C(6) wf False] C(7) by (auto simp: next_index_def Let_def)
  qed
qed

lemma prev_index_rep:
  assumes "blk_rep b (as @ Live v # bs)"
  shows "prev_index b (width as) = (case rev (cells 0 as) of [] \<Rightarrow> None | (j, w) # _ \<Rightarrow> Some j)"
proof (cases rule: live_slot_ctx [OF assms refl])
  case C: (1 fl)
  have wf: "segs_wf (as @ Live v # bs)" using assms by (simp add: blk_rep_def)
  show ?thesis
  proof (cases as rule: back_cases)
    case none
    then show ?thesis
    proof (cases as rule: rev_cases)
      case (snoc cs y)
      then obtain w where "y = Live w" using none(1) by (cases y) auto
      then show ?thesis using snoc C(5) by (simp add: prev_index_def Let_def)
    qed (simp add: prev_index_def)
  next
    case (dead cs l)
    note L = skip_left(2) [OF C(5) refl dead]
    show ?thesis
    proof (cases cs rule: rev_cases)
      case Nil
      then show ?thesis using L dead by (auto simp: prev_index_def Let_def)
    next
      case (snoc ds y)
      then obtain w where "y = Live w" using wf dead by (cases y) (auto simp: segs_wf_def successively_append_iff successively_Cons)
      then show ?thesis using L dead snoc C(5) by (auto simp: prev_index_def Let_def)
    qed
  qed
qed

lemma destroy_from_rep:
  "segs_at (hb_skip b) (hb_slots b) p xs \<Longrightarrow> segs_wf xs \<Longrightarrow> p + width xs = hb_high_water b \<Longrightarrow>
   xs \<noteq> [] \<Longrightarrow> destroy_from b (p + hb_skip b p) = map fst (cells p xs)"
proof (induction "length xs" arbitrary: p xs rule: less_induct)
  case less
  define q where "q = p + hb_skip b p + 1"
  obtain v ys where cf: "xs = Live v # ys \<and> cells p xs = (p + hb_skip b p, v) # cells (p + 1) ys \<and> hb_skip b p = 0 \<or>
    (\<exists>n. xs = Dead n # Live v # ys \<and> hb_skip b p = n \<and> cells p xs = (p + hb_skip b p, v) # cells (p + n + 1) ys)"
    using cells_front [OF less(2,3,5)] by blast
  have f: "cells p xs = (p + hb_skip b p, v) # cells q ys" "q = p + hb_skip b p + 1"
      "segs_at (hb_skip b) (hb_slots b) q ys" "segs_wf ys" "q + width ys = hb_high_water b" "length ys < length xs"
    using cf less(2,3,4) by (auto simp: q_def segs_wf_def successively_Cons split: if_splits)
  show ?case
  proof (cases "ys = []")
    case True
    then show ?thesis using f by (simp add: destroy_from.simps)
  next
    case False
    then have "q < hb_high_water b" using f(3,5) width_zero [OF f(3)] by simp
    then show ?thesis using less(1) [OF f(6,3,4,5) False] f(1,2) by (simp add: destroy_from.simps [of b "p + hb_skip b p"])
  qed
qed

lemma destroy_live_elements_rep:
  "blk_rep b xs \<Longrightarrow> destroy_live_elements b = map fst (cells 0 xs)"
  using destroy_from_rep [of b 0 xs] width_zero [of "hb_skip b" "hb_slots b" 0 xs]
  by (cases "xs = []") (auto simp: blk_rep_def destroy_live_elements_def destroy_from.simps [of b 0])

lemma emplace_slot_throw:
  assumes "blk_rep b xs" "hb_free_head b \<noteq> npos \<or> hb_high_water b < hb_capacity b"
  shows "\<exists>b'. emplace_slot None b = (None, b') \<and> blk_rep b' xs"
proof -
  obtain fl where r: "segs_at (hb_skip b) (hb_slots b) 0 xs" "width xs = hb_high_water b" "fl_rep b fl"
    "set fl = set (starts 0 xs)" using assms(1) by (rule blk_repE)
  show ?thesis
  proof (cases "hb_free_head b = npos")
    case True
    have "segs_at (hb_skip b) ((hb_slots b)(hb_high_water b := Raw)) 0 xs"
      using r(1) by (rule segs_at_cong [rotated]) (simp add: r(2))
    moreover have "fl = []" using r(3) True npos_slot_npos by (cases fl) (auto simp: fl_rep_def)
    ultimately show ?thesis
      using assms(1) r True by (auto simp: emplace_slot_def set_slot_def blk_rep_def fl_rep_def Let_def)
  next
    case False
    then obtain s fl' where fl: "fl = s # fl'" "hb_free_head b = s" using r(3) by (cases fl) (auto simp: fl_rep_def)
    have "hb_slots b s = Links (fst (read_free_links b s)) (snd (read_free_links b s))"
      using fl_at [of b "[]" s fl'] r(3) fl by simp
    then have "emplace_slot None b = (None, b)"
      using False fl(2) by (simp add: emplace_slot_def write_free_links_def set_slot_def Let_def fun_upd_idem)
    then show ?thesis using assms(1) by simp
  qed
qed

end
