(* ===== verification/Intrusive_List.thy ===== *)
theory Intrusive_List
  imports Forge_Prelude
begin

text \<open>
  Doubly linked intrusive lists: the links are two fields of the nodes, and a node type may
  have several pairs of such fields.  The locale \<open>dlinks\<close> states what is needed of a pair of
  link fields, and proves once what the clients rely on: what inserting at the front or the
  end and unlinking a node make of the list.
\<close>

locale dlinks =
  fixes nxt prv :: "'n \<Rightarrow> ptr"
    and set_nxt set_prv :: "ptr \<Rightarrow> 'n \<Rightarrow> 'n"
  assumes nxt_set [simp]: "nxt (set_nxt p n) = p" "nxt (set_prv p n) = nxt n"
    and prv_set [simp]: "prv (set_prv p n) = p" "prv (set_nxt p n) = prv n"
begin

definition dll :: "(addr \<Rightarrow> 'n) \<Rightarrow> ptr \<Rightarrow> addr list \<Rightarrow> bool" where
  "dll h p xs \<longleftrightarrow> chain (\<lambda>a. nxt (h a)) p xs None \<and> rchain (\<lambda>a. prv (h a)) None xs"

lemma dll_distinct: "dll h p xs \<Longrightarrow> distinct xs"
  by (auto simp: dll_def dest: chain_distinct)

lemma dll_Nil [simp]: "dll h p [] \<longleftrightarrow> p = None"
  by (simp add: dll_def)

lemma dll_first: "dll h p xs \<Longrightarrow> p = first_ptr xs None"
  by (auto simp: dll_def dest: chain_first)

lemma dll_cong:
  "(\<And>a. a \<in> set xs \<Longrightarrow> nxt (h' a) = nxt (h a) \<and> prv (h' a) = prv (h a)) \<Longrightarrow> dll h' p xs \<longleftrightarrow> dll h p xs"
  unfolding dll_def
  using chain_cong [of xs "\<lambda>a. nxt (h' a)" "\<lambda>a. nxt (h a)"] rchain_cong [of xs "\<lambda>a. prv (h' a)" "\<lambda>a. prv (h a)"]
  by simp

lemma chain_split_iff: "chain nx p (as @ bs) None \<longleftrightarrow> chain nx p as (first_ptr bs None) \<and> chain nx (first_ptr bs None) bs None"
  by (auto simp: chain_append dest: chain_first)

lemma dll_at:
  assumes "dll h p (as @ a # bs)"
  shows "prv (h a) = last_ptr None as" "nxt (h a) = first_ptr bs None"
  using assms by (auto simp: dll_def rchain_append chain_split_iff dest: chain_first)

text \<open>A new first node: its links are set and the old first node points back to it.\<close>

lemma dll_push_front:
  assumes "dll h p xs" "a \<notin> set xs"
    and "nxt (h' a) = p" "prv (h' a) = None"
    and "\<And>b. b \<in> set xs \<Longrightarrow> nxt (h' b) = nxt (h b) \<and> prv (h' b) = (if p = Some b then Some a else prv (h b))"
  shows "dll h' (Some a) (a # xs)"
proof (cases xs)
  case Nil
  then show ?thesis using assms by (simp add: dll_def)
next
  case (Cons b ys)
  have p: "p = Some b" and y: "b \<notin> set ys" using assms(1) Cons dll_distinct [OF assms(1)] by (auto simp: dll_def)
  have "rchain (\<lambda>a. prv (h' a)) (Some b) ys \<longleftrightarrow> rchain (\<lambda>a. prv (h a)) (Some b) ys"
    by (rule rchain_cong) (use assms(5) Cons p y in force)
  moreover have "chain (\<lambda>a. nxt (h' a)) p xs None \<longleftrightarrow> chain (\<lambda>a. nxt (h a)) p xs None"
    by (rule chain_cong) (use assms(5) in simp)
  ultimately show ?thesis using assms(1,3,4) assms(5) [of b] Cons p by (auto simp: dll_def)
qed

text \<open>A new last node.\<close>

lemma dll_push_back:
  assumes "dll h p xs" "a \<notin> set xs"
    and "nxt (h' a) = None" "prv (h' a) = last_ptr None xs"
    and "\<And>b. b \<in> set xs \<Longrightarrow> prv (h' b) = prv (h b) \<and> nxt (h' b) = (if last_ptr None xs = Some b then Some a else nxt (h b))"
  shows "dll h' (if xs = [] then Some a else p) (xs @ [a])"
proof (cases xs rule: rev_cases)
  case Nil
  then show ?thesis using assms by (simp add: dll_def)
next
  case (snoc ys b)
  have y: "b \<notin> set ys" using dll_distinct [OF assms(1)] snoc by simp
  have "chain (\<lambda>a. nxt (h' a)) p ys (Some b) \<longleftrightarrow> chain (\<lambda>a. nxt (h a)) p ys (Some b)"
    by (rule chain_cong) (use assms(5) snoc y in force)
  moreover have "rchain (\<lambda>a. prv (h' a)) None xs \<longleftrightarrow> rchain (\<lambda>a. prv (h a)) None xs"
    by (rule rchain_cong) (use assms(5) in simp)
  ultimately show ?thesis
    using assms(1,3,4) assms(5) [of b] snoc by (auto simp: dll_def chain_append rchain_append)
qed

text \<open>Two lists joined: the last node of the first and the first node of the second are linked.\<close>

lemma dll_join:
  assumes "dll h p as" "dll h q bs" "set as \<inter> set bs = {}" "bs \<noteq> []"
    and "\<And>x. x \<in> set as \<Longrightarrow> prv (h' x) = prv (h x) \<and> nxt (h' x) = (if last_ptr None as = Some x then q else nxt (h x))"
    and "\<And>x. x \<in> set bs \<Longrightarrow> nxt (h' x) = nxt (h x) \<and> prv (h' x) = (if q = Some x then last_ptr None as else prv (h x))"
  shows "dll h' (if as = [] then q else p) (as @ bs)"
proof -
  obtain b cs where b: "bs = b # cs" using assms(4) by (cases bs) auto
  have q: "q = Some b" and d: "b \<notin> set cs" using assms(2) dll_distinct [OF assms(2)] by (auto simp: b dll_def)
  have "chain (\<lambda>x. nxt (h' x)) (if as = [] then q else p) as q"
  proof (cases as rule: rev_cases)
    case (snoc ys y)
    have y: "y \<notin> set ys" using dll_distinct [OF assms(1)] snoc by simp
    have "chain (\<lambda>x. nxt (h' x)) p ys (Some y) \<longleftrightarrow> chain (\<lambda>x. nxt (h x)) p ys (Some y)"
      by (rule chain_cong) (use assms(5) snoc y in force)
    then show ?thesis using assms(1) assms(5) [of y] snoc by (auto simp: dll_def chain_append)
  qed simp
  moreover have "chain (\<lambda>x. nxt (h' x)) q bs None \<longleftrightarrow> chain (\<lambda>x. nxt (h x)) q bs None"
    by (rule chain_cong) (use assms(6) in simp)
  moreover have "rchain (\<lambda>x. prv (h' x)) None as \<longleftrightarrow> rchain (\<lambda>x. prv (h x)) None as"
    by (rule rchain_cong) (use assms(5) in simp)
  moreover have "rchain (\<lambda>x. prv (h' x)) (Some b) cs \<longleftrightarrow> rchain (\<lambda>x. prv (h x)) (Some b) cs"
    by (rule rchain_cong) (use assms(6) b q d in force)
  ultimately show ?thesis using assms(1,2) assms(6) [of b] q b by (auto simp: dll_def chain_append rchain_append)
qed

text \<open>Unlinking: the neighbours of the node, or the head, take over its links.\<close>

lemma dll_unlink:
  assumes "dll h p (as @ a # bs)"
    and "\<And>b. b \<in> set (as @ bs) \<Longrightarrow> nxt (h' b) = (if prv (h a) = Some b then nxt (h a) else nxt (h b)) \<and>
        prv (h' b) = (if nxt (h a) = Some b then prv (h a) else prv (h b))"
  shows "dll h' (if prv (h a) = None then nxt (h a) else p) (as @ bs)"
proof -
  have d: "distinct (as @ a # bs)" by (rule dll_distinct [OF assms(1)])
  note at = dll_at [OF assms(1)]
  have C: "chain (\<lambda>x. nxt (h x)) p as (Some a)" "chain (\<lambda>x. nxt (h x)) (first_ptr bs None) bs None"
    and R: "rchain (\<lambda>x. prv (h x)) None as" "rchain (\<lambda>x. prv (h x)) (Some a) bs"
    using assms(1) at(2) by (auto simp: dll_def chain_split_iff rchain_append)
  have "chain (\<lambda>x. nxt (h' x)) (if as = [] then first_ptr bs None else p) as (first_ptr bs None)"
  proof (cases as rule: rev_cases)
    case (snoc cs c)
    have "chain (\<lambda>x. nxt (h' x)) p cs (Some c) \<longleftrightarrow> chain (\<lambda>x. nxt (h x)) p cs (Some c)"
      by (rule chain_cong) (use assms(2) snoc d at in force)
    then show ?thesis using C(1) snoc assms(2) [of c] at by (simp add: chain_append)
  qed simp
  moreover have "chain (\<lambda>x. nxt (h' x)) (first_ptr bs None) bs None"
    using C(2) by (subst chain_cong [of bs _ "\<lambda>x. nxt (h x)"]) (use assms(2) d at in \<open>auto dest: last_ptr_in_set\<close>)
  moreover have "rchain (\<lambda>x. prv (h' x)) None as"
    using R(1) by (subst rchain_cong [of as _ "\<lambda>x. prv (h x)"]) (use assms(2) d at in \<open>auto dest: first_ptr_in_set\<close>)
  moreover have "rchain (\<lambda>x. prv (h' x)) (last_ptr None as) bs"
  proof (cases bs)
    case (Cons b ds)
    have "rchain (\<lambda>x. prv (h' x)) (Some b) ds \<longleftrightarrow> rchain (\<lambda>x. prv (h x)) (Some b) ds"
      by (rule rchain_cong) (use assms(2) Cons d at in force)
    then show ?thesis using R(2) Cons assms(2) [of b] at by simp
  qed simp
  ultimately show ?thesis using at by (auto simp: dll_def chain_split_iff rchain_append last_ptr_None_iff)
qed

end

end
