(* ===== verification/Hive.thy ===== *)
theory Hive
  imports Hive_Block Intrusive_List
begin

text \<open>
  The container \<open>std::hive\<close> (\<open>backport/cpp26/hive.hpp\<close>): control state, block lists,
  insertion, erasure, capacity and iteration.

  Blocks live in a heap shared by all hives; a hive is its limits, its control state and
  its end epoch.  The active blocks and the blocks with room are doubly linked through
  two pairs of fields of the blocks, the reserved blocks singly.  The abstract view of a
  hive is the list of its cells, positions with values in traversal order.
\<close>

section \<open>Control state and block lists\<close>

type_synonym 'v heap = "addr \<Rightarrow> 'v hblock"

record control =
  active_head :: ptr
  active_tail :: ptr
  reserved_head :: ptr
  available_head :: ptr
  hc_size :: nat
  hc_capacity :: nat
  next_block_order :: nat

definition control_new :: control where
  "control_new = \<lparr>active_head = None, active_tail = None, reserved_head = None, available_head = None,
     hc_size = 0, hc_capacity = 0, next_block_order = 0\<rparr>"

definition available_add :: "addr \<Rightarrow> control \<Rightarrow> 'v heap \<Rightarrow> control \<times> 'v heap" where
  "available_add a c h =
     (let h1 = h(a := (h a)\<lparr>hb_in_available := True, hb_available_prev := None,
                 hb_available_next := available_head c\<rparr>);
          h2 = (case available_head c of None \<Rightarrow> h1
                | Some x \<Rightarrow> h1(x := (h1 x)\<lparr>hb_available_prev := Some a\<rparr>))
      in (c\<lparr>available_head := Some a\<rparr>, h2))"

definition available_remove :: "addr \<Rightarrow> control \<Rightarrow> 'v heap \<Rightarrow> control \<times> 'v heap" where
  "available_remove a c h =
     (if \<not> hb_in_available (h a) then (c, h)
      else let (c1, h1) = (case hb_available_prev (h a) of
                    Some x \<Rightarrow> (c, h(x := (h x)\<lparr>hb_available_next := hb_available_next (h a)\<rparr>))
                  | None \<Rightarrow> (c\<lparr>available_head := hb_available_next (h a)\<rparr>, h));
               h2 = (case hb_available_next (h1 a) of
                    Some x \<Rightarrow> h1(x := (h1 x)\<lparr>hb_available_prev := hb_available_prev (h1 a)\<rparr>)
                  | None \<Rightarrow> h1);
               h3 = h2(a := (h2 a)\<lparr>hb_available_prev := None, hb_available_next := None,
                      hb_in_available := False\<rparr>)
           in (c1, h3))"

definition active_append :: "addr \<Rightarrow> control \<Rightarrow> 'v heap \<Rightarrow> control \<times> 'v heap" where
  "active_append a c h =
     (let h1 = h(a := (h a)\<lparr>hb_active := True, hb_active_prev := active_tail c, hb_active_next := None,
                 hb_order := next_block_order c\<rparr>);
          c1 = c\<lparr>next_block_order := next_block_order c + 1\<rparr>;
          (c2, h2) = (case active_tail c of
                 Some x \<Rightarrow> (c1, h1(x := (h1 x)\<lparr>hb_active_next := Some a\<rparr>))
               | None \<Rightarrow> (c1\<lparr>active_head := Some a\<rparr>, h1))
      in (c2\<lparr>active_tail := Some a\<rparr>, h2))"

definition active_remove :: "addr \<Rightarrow> control \<Rightarrow> 'v heap \<Rightarrow> control \<times> 'v heap" where
  "active_remove a c h =
     (let (c1, h1) = (case hb_active_prev (h a) of
                 Some x \<Rightarrow> (c, h(x := (h x)\<lparr>hb_active_next := hb_active_next (h a)\<rparr>))
               | None \<Rightarrow> (c\<lparr>active_head := hb_active_next (h a)\<rparr>, h));
          (c2, h2) = (case hb_active_next (h1 a) of
                 Some x \<Rightarrow> (c1, h1(x := (h1 x)\<lparr>hb_active_prev := hb_active_prev (h1 a)\<rparr>))
               | None \<Rightarrow> (c1\<lparr>active_tail := hb_active_prev (h1 a)\<rparr>, h1));
          h3 = h2(a := (h2 a)\<lparr>hb_active_prev := None, hb_active_next := None, hb_active := False\<rparr>)
      in (c2, h3))"

definition link_reserved :: "addr \<Rightarrow> control \<Rightarrow> 'v heap \<Rightarrow> control \<times> 'v heap" where
  "link_reserved a c h =
     (c\<lparr>reserved_head := Some a, hc_capacity := hc_capacity c + hb_capacity (h a)\<rparr>,
      h(a := (h a)\<lparr>hb_active := False, hb_reserved_next := reserved_head c\<rparr>))"

section \<open>Hives\<close>

record limits =
  lim_min :: nat
  lim_max :: nat

record hive =
  hv_limits :: limits
  hv_control :: "control option"
  hv_epoch :: nat

text \<open>
  What depends on the element type and the allocator: \<open>max_size\<close> and the largest slot and
  skipfield arrays that can be allocated.
\<close>

record traits =
  tr_max_size :: nat
  tr_slot_max :: nat
  tr_skip_max :: nat
  tr_hard_max :: nat

definition block_capacity_hard_limits :: "traits \<Rightarrow> limits" where
  "block_capacity_hard_limits t =
     (let maximum = min (tr_hard_max t) slot_npos
      in \<lparr>lim_min = (if maximum < 1 then maximum else 1), lim_max = maximum\<rparr>)"

definition block_capacity_default_limits :: "traits \<Rightarrow> limits" where
  "block_capacity_default_limits t =
     (let hard = block_capacity_hard_limits t
      in \<lparr>lim_min = (if lim_max hard < 8 then lim_max hard else 8),
          lim_max = (if lim_max hard < 4096 then lim_max hard else 4096)\<rparr>)"

definition is_within_hard_limits :: "traits \<Rightarrow> limits \<Rightarrow> bool" where
  "is_within_hard_limits t l \<longleftrightarrow>
     (let hard = block_capacity_hard_limits t
      in lim_min hard \<le> lim_min l \<and> lim_min l \<le> lim_max l \<and> lim_max l \<le> lim_max hard)"

definition within :: "limits \<Rightarrow> nat \<Rightarrow> bool" where
  "within l capacity \<longleftrightarrow> lim_min l \<le> capacity \<and> capacity \<le> lim_max l"

definition hive_size :: "hive \<Rightarrow> nat" where
  "hive_size v = (case hv_control v of None \<Rightarrow> 0 | Some c \<Rightarrow> hc_size c)"

definition hive_capacity :: "hive \<Rightarrow> nat" where
  "hive_capacity v = (case hv_control v of None \<Rightarrow> 0 | Some c \<Rightarrow> hc_capacity c)"

definition touch_end :: "hive \<Rightarrow> hive" where
  "touch_end v = v\<lparr>hv_epoch := (hv_epoch v + 1) mod (size_max + 1)\<rparr>"

definition allocation_block_max :: "traits \<Rightarrow> hive \<Rightarrow> nat" where
  "allocation_block_max t v = min (min (lim_max (hv_limits v)) slot_npos) (min (tr_slot_max t) (tr_skip_max t))"

section \<open>Iterators\<close>

text \<open>
  An iterator to an element is a block and an index; an end iterator is an epoch.  The
  predecessor of the first element does not exist; the model leaves the iterator where it is.
\<close>

datatype iter = At addr nat | End nat

definition hive_end :: "hive \<Rightarrow> iter" where
  "hive_end v = End (hv_epoch v)"

definition hive_begin :: "hive \<Rightarrow> 'v heap \<Rightarrow> iter" where
  "hive_begin v h =
     (case hv_control v of None \<Rightarrow> hive_end v
      | Some c \<Rightarrow> (case active_head c of None \<Rightarrow> hive_end v | Some a \<Rightarrow> At a (hb_skip (h a) 0)))"

fun iter_next :: "hive \<Rightarrow> 'v heap \<Rightarrow> iter \<Rightarrow> iter" where
  "iter_next v h (At a index) =
     (case next_index (h a) index of
        Some i \<Rightarrow> At a i
      | None \<Rightarrow> (case hb_active_next (h a) of
           Some x \<Rightarrow> At x (hb_skip (h x) 0)
         | None \<Rightarrow> hive_end v))"
| "iter_next v h (End e) = End e"

fun iter_prev :: "hive \<Rightarrow> 'v heap \<Rightarrow> iter \<Rightarrow> iter" where
  "iter_prev v h (End e) =
     (case hv_control v of None \<Rightarrow> End e
      | Some c \<Rightarrow> (case active_tail c of None \<Rightarrow> End e | Some a \<Rightarrow> At a (hb_high_water (h a) - 1)))"
| "iter_prev v h (At a index) =
     (case prev_index (h a) index of
        Some i \<Rightarrow> At a i
      | None \<Rightarrow> (case hb_active_prev (h a) of
           Some x \<Rightarrow> At x (hb_high_water (h x) - 1)
         | None \<Rightarrow> At a index))"

section \<open>Insertion and erasure\<close>

text \<open>
  \<open>allocs\<close> says what the allocator answers: whether the control state can be allocated and
  the address of a new block, \<open>None\<close> when one of the allocations throws.  The constructor of
  the element yields a value or throws (\<open>None\<close>).
\<close>

datatype hexn = Length_error | Bad_alloc | Ctor_throw

record allocs =
  al_control :: bool
  al_block :: ptr

type_synonym 'v hresult = "(hexn + iter) \<times> hive \<times> 'v heap"

definition emplace_available :: "'v option \<Rightarrow> addr \<Rightarrow> control \<Rightarrow> hive \<Rightarrow> 'v heap \<Rightarrow> 'v hresult" where
  "emplace_available x a c v h =
     (case emplace_slot x (h a) of
        (None, b) \<Rightarrow> (Inl Ctor_throw, v, h(a := b))
      | (Some index, b) \<Rightarrow>
          (let h1 = h(a := b);
               c1 = c\<lparr>hc_size := hc_size c + 1\<rparr>;
               (c2, h2) = (if hb_high_water b = hb_capacity b \<and> hb_free_head b = npos
                           then available_remove a c1 h1 else (c1, h1))
           in (Inr (At a index), touch_end (v\<lparr>hv_control := Some c2\<rparr>), h2)))"

text \<open>The first element of a block that becomes active.\<close>

definition activate :: "'v \<Rightarrow> addr \<Rightarrow> control \<Rightarrow> 'v heap \<Rightarrow> control \<times> 'v heap" where
  "activate x a c h =
     (let h1 = h(a := (set_skip 0 0 (set_slot 0 (Elem x) (h a)))\<lparr>hb_high_water := 1, hb_live_count := 1\<rparr>);
          (c2, h2) = active_append a c h1
      in if hb_high_water (h2 a) \<noteq> hb_capacity (h2 a) then available_add a c2 h2 else (c2, h2))"

definition emplace_reserved :: "'v option \<Rightarrow> addr \<Rightarrow> control \<Rightarrow> hive \<Rightarrow> 'v heap \<Rightarrow> 'v hresult" where
  "emplace_reserved x a c v h =
     (case x of
        None \<Rightarrow> (Inl Ctor_throw, v, h(a := set_slot 0 Raw (h a)))
      | Some y \<Rightarrow>
          (let c1 = c\<lparr>reserved_head := hb_reserved_next (h a)\<rparr>;
               h1 = h(a := (h a)\<lparr>hb_reserved_next := None\<rparr>);
               (c2, h2) = activate y a c1 h1
           in (Inr (At a 0), touch_end (v\<lparr>hv_control := Some (c2\<lparr>hc_size := hc_size c2 + 1\<rparr>)\<rparr>), h2)))"

definition emplace_new :: "traits \<Rightarrow> allocs \<Rightarrow> 'v option \<Rightarrow> hive \<Rightarrow> 'v heap \<Rightarrow> 'v hresult" where
  "emplace_new t al x v h =
     (let current = hive_capacity v;
          maximum = tr_max_size t;
          block_max = allocation_block_max t v;
          lmin = lim_min (hv_limits v)
      in if lmin = 0 \<or> block_max < lmin \<or> current > maximum \<or> lmin > maximum - current
         then (Inl Length_error, v, h)
         else let block_capacity = min (max lmin current) (min block_max (maximum - current));
                  new_control = (hv_control v = None)
              in if new_control \<and> \<not> al_control al then (Inl Bad_alloc, v, h)
                 else case al_block al of
                   None \<Rightarrow> (Inl Bad_alloc, v, h)
                 | Some a \<Rightarrow>
                     (case x of
                        None \<Rightarrow> (Inl Ctor_throw, v, h)
                      | Some y \<Rightarrow>
                          (let c = (case hv_control v of None \<Rightarrow> control_new | Some c \<Rightarrow> c);
                               h1 = h(a := block_new block_capacity);
                               (c2, h2) = activate y a c h1;
                               c3 = c2\<lparr>hc_capacity := hc_capacity c2 + hb_capacity (h2 a),
                                       hc_size := hc_size c2 + 1\<rparr>
                           in (Inr (At a 0), touch_end (v\<lparr>hv_control := Some c3\<rparr>), h2))))"

definition emplace :: "traits \<Rightarrow> allocs \<Rightarrow> 'v option \<Rightarrow> hive \<Rightarrow> 'v heap \<Rightarrow> 'v hresult" where
  "emplace t al x v h =
     (case hv_control v of
        None \<Rightarrow> emplace_new t al x v h
      | Some c \<Rightarrow>
          (case available_head c of
             Some a \<Rightarrow> emplace_available x a c v h
           | None \<Rightarrow> (case reserved_head c of
                Some a \<Rightarrow> emplace_reserved x a c v h
              | None \<Rightarrow> emplace_new t al x v h)))"

text \<open>\<open>erase\<close> of a position that holds an element; the precondition excludes end.\<close>

definition retire :: "addr \<Rightarrow> control \<Rightarrow> 'v heap \<Rightarrow> control \<times> 'v heap" where
  "retire a c h =
     (let (c1, h1) = available_remove a c h;
          (c2, h2) = active_remove a c1 h1;
          h3 = h2(a := (reset_vacant_block (h2 a))\<lparr>hb_reserved_next := reserved_head c2\<rparr>)
      in (c2\<lparr>reserved_head := Some a\<rparr>, h3))"

definition erase_at :: "addr \<Rightarrow> nat \<Rightarrow> hive \<Rightarrow> 'v heap \<Rightarrow> iter \<times> hive \<times> 'v heap" where
  "erase_at a index v h =
     (let successor = iter_next v h (At a index);
          c = the (hv_control v);
          h1 = h(a := erase_slot index (h a));
          c1 = c\<lparr>hc_size := hc_size c - 1\<rparr>;
          (c2, h2) = (if hb_live_count (h1 a) = 0 then retire a c1 h1
                      else if \<not> hb_in_available (h1 a) then available_add a c1 h1
                      else (c1, h1));
          v2 = v\<lparr>hv_control := Some c2\<rparr>
      in case successor of
           End e \<Rightarrow> (let v3 = touch_end v2 in (hive_end v3, v3, h2))
         | At s i \<Rightarrow> (At s i, v2, h2))"

section \<open>Representation\<close>

definition set_active_next :: "ptr \<Rightarrow> 'v hblock \<Rightarrow> 'v hblock" where
  "set_active_next p b = b\<lparr>hb_active_next := p\<rparr>"

definition set_active_prev :: "ptr \<Rightarrow> 'v hblock \<Rightarrow> 'v hblock" where
  "set_active_prev p b = b\<lparr>hb_active_prev := p\<rparr>"

definition set_available_next :: "ptr \<Rightarrow> 'v hblock \<Rightarrow> 'v hblock" where
  "set_available_next p b = b\<lparr>hb_available_next := p\<rparr>"

definition set_available_prev :: "ptr \<Rightarrow> 'v hblock \<Rightarrow> 'v hblock" where
  "set_available_prev p b = b\<lparr>hb_available_prev := p\<rparr>"

interpretation act: dlinks hb_active_next hb_active_prev set_active_next set_active_prev
  by unfold_locales (simp_all add: set_active_next_def set_active_prev_def)

interpretation avl: dlinks hb_available_next hb_available_prev set_available_next set_available_prev
  by unfold_locales (simp_all add: set_available_next_def set_available_prev_def)

definition has_room :: "'v hblock \<Rightarrow> bool" where
  "has_room b \<longleftrightarrow> hb_free_head b \<noteq> npos \<or> hb_high_water b < hb_capacity b"

definition blk_cells :: "'v hblock \<Rightarrow> (nat \<times> 'v) list" where
  "blk_cells b = map (\<lambda>i. (i, case hb_slots b i of Elem x \<Rightarrow> x)) [i \<leftarrow> [0 ..< hb_high_water b]. hb_skip b i = 0]"

definition cells_at :: "'v heap \<Rightarrow> addr \<Rightarrow> ((addr \<times> nat) \<times> 'v) list" where
  "cells_at h a = map (\<lambda>(i, x). ((a, i), x)) (blk_cells (h a))"

record lists =
  ls_active :: "addr list"
  ls_available :: "addr list"
  ls_reserved :: "addr list"

definition lists_rep :: "control \<Rightarrow> 'v heap \<Rightarrow> lists \<Rightarrow> bool" where
  "lists_rep c h l \<longleftrightarrow>
     act.dll h (active_head c) (ls_active l) \<and> active_tail c = last_ptr None (ls_active l) \<and>
     avl.dll h (available_head c) (ls_available l) \<and>
     chain (\<lambda>a. hb_reserved_next (h a)) (reserved_head c) (ls_reserved l) None \<and>
     distinct (ls_active l @ ls_reserved l) \<and> set (ls_available l) \<subseteq> set (ls_active l)"

definition flags_ok :: "control \<Rightarrow> 'v heap \<Rightarrow> lists \<Rightarrow> bool" where
  "flags_ok c h l \<longleftrightarrow>
     (\<forall>a \<in> set (ls_active l). hb_active (h a) \<and> hb_reserved_next (h a) = None \<and> hb_order (h a) < next_block_order c) \<and>
     (\<forall>a \<in> set (ls_reserved l). \<not> hb_active (h a)) \<and>
     (\<forall>a \<in> set (ls_active l @ ls_reserved l). hb_in_available (h a) \<longleftrightarrow> a \<in> set (ls_available l)) \<and>
     sorted_wrt (<) (map (\<lambda>a. hb_order (h a)) (ls_active l))"

definition links_ok :: "control \<Rightarrow> 'v heap \<Rightarrow> lists \<Rightarrow> bool" where
  "links_ok c h l \<longleftrightarrow> lists_rep c h l \<and> flags_ok c h l"

definition active_block :: "'v hblock \<Rightarrow> bool" where
  "active_block b \<longleftrightarrow> (\<exists>xs. blk_rep b xs \<and> xs \<noteq> [])"

definition content_ok :: "'v heap \<Rightarrow> lists \<Rightarrow> bool" where
  "content_ok h l \<longleftrightarrow>
     (\<forall>a \<in> set (ls_active l). active_block (h a)) \<and>
     (\<forall>a \<in> set (ls_reserved l). blk_rep (h a) []) \<and>
     set (ls_available l) = {a \<in> set (ls_active l). has_room (h a)}"

definition counts_ok :: "control \<Rightarrow> 'v heap \<Rightarrow> lists \<Rightarrow> bool" where
  "counts_ok c h l \<longleftrightarrow>
     hc_size c = sum_list (map (\<lambda>a. hb_live_count (h a)) (ls_active l)) \<and>
     hc_capacity c = sum_list (map (\<lambda>a. hb_capacity (h a)) (ls_active l @ ls_reserved l))"

definition ctl_rep :: "control \<Rightarrow> 'v heap \<Rightarrow> lists \<Rightarrow> bool" where
  "ctl_rep c h l \<longleftrightarrow> links_ok c h l \<and> content_ok h l \<and> counts_ok c h l"

definition hive_rep :: "hive \<Rightarrow> 'v heap \<Rightarrow> lists \<Rightarrow> bool" where
  "hive_rep v h l \<longleftrightarrow>
     (case hv_control v of None \<Rightarrow> l = \<lparr>ls_active = [], ls_available = [], ls_reserved = []\<rparr> | Some c \<Rightarrow> ctl_rep c h l) \<and>
     (\<forall>a \<in> set (ls_active l @ ls_reserved l). within (hv_limits v) (hb_capacity (h a)))"

definition ls_cells :: "'v heap \<Rightarrow> lists \<Rightarrow> ((addr \<times> nat) \<times> 'v) list" where
  "ls_cells h l = concat (map (cells_at h) (ls_active l))"

end
