(* ===== verification/Hive_Invariant.thy ===== *)
theory Hive_Invariant
  imports Hive
begin

text \<open>
  The invariant of a hive and the effect of insertion, erasure and iteration on its cells.
\<close>

section \<open>Cells of a block\<close>

lemma filter_cells:
  "segs_at sk sl p xs \<Longrightarrow>
   map (\<lambda>i. (i, case sl i of Elem x \<Rightarrow> x)) [i \<leftarrow> [p ..< p + width xs]. sk i = 0] = cells p xs"
proof (induction sk sl p xs rule: segs_at.induct)
  case (2 sk sl p v xs)
  have "[p ..< p + width (Live v # xs)] = p # [p + 1 ..< p + 1 + width xs]" by (simp add: upt_conv_Cons)
  then show ?case using 2 by simp
next
  case (3 sk sl p n xs)
  have "[i \<leftarrow> [p ..< p + n]. sk i = 0] = []" using 3(2) by (auto simp: filter_empty_conv)
  moreover have "[p ..< p + width (Dead n # xs)] = [p ..< p + n] @ [p + n ..< p + n + width xs]"
    using upt_add_eq_append [of p "p + n" "width xs"] by (simp add: add.assoc)
  ultimately show ?case using 3 by simp
qed simp

lemma blk_cells_rep: "blk_rep b xs \<Longrightarrow> blk_cells b = cells 0 xs"
  using filter_cells [of "hb_skip b" "hb_slots b" 0 xs] by (simp add: blk_rep_def blk_cells_def)

lemma cells_empty: "segs_wf xs \<Longrightarrow> cells p xs = [] \<longleftrightarrow> xs = []"
  by (cases xs rule: rev_cases) (auto simp: segs_wf_def elim: is_live.elims)

lemma blk_rep_room:
  assumes "blk_rep b xs"
  shows "hb_free_head b = npos \<longleftrightarrow> starts 0 xs = []"
proof -
  obtain fl where "fl_rep b fl" "set fl = set (starts 0 xs)" using assms by (auto simp: blk_rep_def)
  then show ?thesis using npos_slot_npos by (cases fl) (auto simp: fl_rep_def)
qed

section \<open>The block lists\<close>

text \<open>What the operations on the available list and on the active list leave of a block.\<close>

definition avail_core :: "'v hblock \<Rightarrow> 'v hblock" where
  "avail_core b = b\<lparr>hb_in_available := False, hb_available_prev := None, hb_available_next := None\<rparr>"

definition act_core :: "'v hblock \<Rightarrow> 'v hblock" where
  "act_core b = b\<lparr>hb_active := False, hb_active_prev := None, hb_active_next := None, hb_order := 0\<rparr>"

lemma avail_core_simps:
  assumes "avail_core b' = avail_core b"
  shows "hb_slots b' = hb_slots b"
    "hb_skip b' = hb_skip b"
    "hb_capacity b' = hb_capacity b"
    "hb_live_count b' = hb_live_count b"
    "hb_high_water b' = hb_high_water b"
    "hb_free_head b' = hb_free_head b"
    "hb_order b' = hb_order b"
    "hb_active_prev b' = hb_active_prev b"
    "hb_active_next b' = hb_active_next b"
    "hb_reserved_next b' = hb_reserved_next b"
    "hb_active b' = hb_active b"
  using arg_cong [OF assms, of hb_slots]
    arg_cong [OF assms, of hb_skip]
    arg_cong [OF assms, of hb_capacity]
    arg_cong [OF assms, of hb_live_count]
    arg_cong [OF assms, of hb_high_water]
    arg_cong [OF assms, of hb_free_head]
    arg_cong [OF assms, of hb_order]
    arg_cong [OF assms, of hb_active_prev]
    arg_cong [OF assms, of hb_active_next]
    arg_cong [OF assms, of hb_reserved_next]
    arg_cong [OF assms, of hb_active]
  by (simp_all add: avail_core_def)

lemma act_core_simps:
  assumes "act_core b' = act_core b"
  shows "hb_slots b' = hb_slots b"
    "hb_skip b' = hb_skip b"
    "hb_capacity b' = hb_capacity b"
    "hb_live_count b' = hb_live_count b"
    "hb_high_water b' = hb_high_water b"
    "hb_free_head b' = hb_free_head b"
    "hb_available_prev b' = hb_available_prev b"
    "hb_available_next b' = hb_available_next b"
    "hb_reserved_next b' = hb_reserved_next b"
    "hb_in_available b' = hb_in_available b"
  using arg_cong [OF assms, of hb_slots]
    arg_cong [OF assms, of hb_skip]
    arg_cong [OF assms, of hb_capacity]
    arg_cong [OF assms, of hb_live_count]
    arg_cong [OF assms, of hb_high_water]
    arg_cong [OF assms, of hb_free_head]
    arg_cong [OF assms, of hb_available_prev]
    arg_cong [OF assms, of hb_available_next]
    arg_cong [OF assms, of hb_reserved_next]
    arg_cong [OF assms, of hb_in_available]
  by (simp_all add: act_core_def)

lemma available_add_eq:
  assumes "available_head c \<noteq> Some a"
  shows "available_add a c h = (c\<lparr>available_head := Some a\<rparr>, (\<lambda>x.
     if x = a then (h a)\<lparr>hb_in_available := True, hb_available_prev := None, hb_available_next := available_head c\<rparr>
     else if available_head c = Some x then (h x)\<lparr>hb_available_prev := Some a\<rparr> else h x))"
  using assms by (cases "available_head c") (simp_all add: available_add_def Let_def fun_eq_iff)

lemma available_remove_eq:
  assumes "hb_in_available (h a)" "hb_available_prev (h a) \<noteq> Some a" "hb_available_next (h a) \<noteq> Some a"
  shows "available_remove a c h =
    (if hb_available_prev (h a) = None then c\<lparr>available_head := hb_available_next (h a)\<rparr> else c, (\<lambda>x.
     if x = a then (h a)\<lparr>hb_available_prev := None, hb_available_next := None, hb_in_available := False\<rparr>
     else if hb_available_prev (h a) = Some x then
       (if hb_available_next (h a) = Some x
        then (h x)\<lparr>hb_available_next := hb_available_next (h a), hb_available_prev := hb_available_prev (h a)\<rparr>
        else (h x)\<lparr>hb_available_next := hb_available_next (h a)\<rparr>)
     else if hb_available_next (h a) = Some x then (h x)\<lparr>hb_available_prev := hb_available_prev (h a)\<rparr>
     else h x))"
  using assms by (cases "hb_available_prev (h a)"; cases "hb_available_next (h a)")
    (simp_all add: available_remove_def Let_def fun_eq_iff)

lemma available_add_effect:
  assumes "available_add a c h = (c', h')" "avl.dll h (available_head c) vs" "a \<notin> set vs"
  shows "avl.dll h' (available_head c') (a # vs)" "c' = c\<lparr>available_head := Some a\<rparr>"
    "avail_core (h' x) = avail_core (h x)" "hb_in_available (h' x) \<longleftrightarrow> x = a \<or> hb_in_available (h x)"
proof -
  have p: "available_head c \<noteq> Some a" using avl.dll_first [OF assms(2)] first_ptr_in_set assms(3) by metis
  note R = available_add_eq [where h = h and a = a and c = c, OF p]
  have C: "c' = c\<lparr>available_head := Some a\<rparr>" using assms(1) unfolding R by simp
  have H: "h' = (\<lambda>x. if x = a then (h a)\<lparr>hb_in_available := True, hb_available_prev := None, hb_available_next := available_head c\<rparr>
     else if available_head c = Some x then (h x)\<lparr>hb_available_prev := Some a\<rparr> else h x)"
    using assms(1) unfolding R by simp
  show "c' = c\<lparr>available_head := Some a\<rparr>" by (rule C)
  show "avail_core (h' x) = avail_core (h x)" "hb_in_available (h' x) \<longleftrightarrow> x = a \<or> hb_in_available (h x)"
    unfolding H by (simp_all add: avail_core_def)
  have "avl.dll h' (Some a) (a # vs)"
    by (rule avl.dll_push_front [OF assms(2,3)]) (use assms(3) in \<open>auto simp: H\<close>)
  then show "avl.dll h' (available_head c') (a # vs)" by (simp add: C)
qed

lemma available_remove_in:
  assumes "available_remove a c h = (c', h')" "avl.dll h (available_head c) (ps @ a # qs)" "hb_in_available (h a)"
  shows "avl.dll h' (available_head c') (ps @ qs)" "\<exists>p. c' = c\<lparr>available_head := p\<rparr>"
    "avail_core (h' x) = avail_core (h x)" "hb_in_available (h' x) \<longleftrightarrow> x \<noteq> a \<and> hb_in_available (h x)"
proof -
  have d: "distinct (ps @ a # qs)" by (rule avl.dll_distinct [OF assms(2)])
  then have n: "hb_available_prev (h a) \<noteq> Some a" "hb_available_next (h a) \<noteq> Some a"
    using avl.dll_at [OF assms(2)] by (auto dest: last_ptr_in_set first_ptr_in_set)
  note R = available_remove_eq [where h = h and a = a and c = c, OF assms(3) n]
  define g where "g = snd (available_remove a c h)"
  have G: "g x = (if x = a then (h a)\<lparr>hb_available_prev := None, hb_available_next := None, hb_in_available := False\<rparr>
     else if hb_available_prev (h a) = Some x then
       (if hb_available_next (h a) = Some x
        then (h x)\<lparr>hb_available_next := hb_available_next (h a), hb_available_prev := hb_available_prev (h a)\<rparr>
        else (h x)\<lparr>hb_available_next := hb_available_next (h a)\<rparr>)
     else if hb_available_next (h a) = Some x then (h x)\<lparr>hb_available_prev := hb_available_prev (h a)\<rparr>
     else h x)" for x
    unfolding g_def R by simp
  have eq: "c' = (if hb_available_prev (h a) = None then c\<lparr>available_head := hb_available_next (h a)\<rparr> else c)" "h' = g"
    using assms(1) unfolding g_def R by simp_all
  have "c\<lparr>available_head := available_head c\<rparr> = c" by simp
  then show "\<exists>p. c' = c\<lparr>available_head := p\<rparr>" unfolding eq by metis
  show "avail_core (h' x) = avail_core (h x)" "hb_in_available (h' x) \<longleftrightarrow> x \<noteq> a \<and> hb_in_available (h x)"
    by (simp_all add: eq G avail_core_def)
  have "avl.dll h' (if hb_available_prev (h a) = None then hb_available_next (h a) else available_head c) (ps @ qs)"
    by (rule avl.dll_unlink [OF assms(2)]) (use d in \<open>auto simp: eq G\<close>)
  then show "avl.dll h' (available_head c') (ps @ qs)" by (cases "hb_available_prev (h a)") (simp_all add: eq)
qed

lemma available_remove_out: "\<not> hb_in_available (h a) \<Longrightarrow> available_remove a c h = (c, h)"
  by (simp add: available_remove_def)

text \<open>Removal from the available list, whether or not the block is in it.\<close>

lemma available_remove_effect:
  assumes R: "available_remove a c h = (c', h')" and D: "avl.dll h (available_head c) vs"
    and I: "hb_in_available (h a) \<longleftrightarrow> a \<in> set vs"
  shows "\<exists>p. c' = c\<lparr>available_head := p\<rparr>" "avl.dll h' (available_head c') (filter (\<lambda>x. x \<noteq> a) vs)"
    "avail_core (h' x) = avail_core (h x)" "hb_in_available (h' x) \<longleftrightarrow> x \<noteq> a \<and> hb_in_available (h x)"
proof -
  have "(\<exists>p. c' = c\<lparr>available_head := p\<rparr>) \<and> avl.dll h' (available_head c') (filter (\<lambda>x. x \<noteq> a) vs) \<and>
    avail_core (h' x) = avail_core (h x) \<and> (hb_in_available (h' x) \<longleftrightarrow> x \<noteq> a \<and> hb_in_available (h x))"
  proof (cases "a \<in> set vs")
    case True
    then obtain ps qs where vs: "vs = ps @ a # qs" by (auto simp: in_set_conv_decomp)
    then have "a \<notin> set ps" "a \<notin> set qs" using avl.dll_distinct [OF D] by auto
    then have f: "filter (\<lambda>x. x \<noteq> a) vs = ps @ qs" unfolding vs by (simp add: filter_id_conv) (metis (mono_tags, lifting) filter_True)
    show ?thesis unfolding f using available_remove_in [OF R D [unfolded vs]] True I by blast
  next
    case False
    then have "c' = c" "h' = h" using I R available_remove_out by fastforce+
    moreover have "c\<lparr>available_head := available_head c\<rparr> = c" by simp
    moreover have "filter (\<lambda>x. x \<noteq> a) vs = vs" using False by (auto simp: filter_id_conv)
    ultimately show ?thesis using D False I by metis
  qed
  then show "\<exists>p. c' = c\<lparr>available_head := p\<rparr>" "avl.dll h' (available_head c') (filter (\<lambda>x. x \<noteq> a) vs)"
    "avail_core (h' x) = avail_core (h x)" "hb_in_available (h' x) \<longleftrightarrow> x \<noteq> a \<and> hb_in_available (h x)"
    by blast+
qed

text \<open>The same for the active list.\<close>

lemma active_append_effect:
  assumes R: "active_append a c h = (c', h')" and D: "act.dll h (active_head c) as"
    and T: "active_tail c = last_ptr None as" and N: "a \<notin> set as"
  shows "act.dll h' (active_head c') (as @ [a])" "active_tail c' = Some a"
    "\<exists>p. c' = c\<lparr>active_head := p, active_tail := Some a, next_block_order := next_block_order c + 1\<rparr>"
    "act_core (h' x) = act_core (h x)" "hb_active (h' x) \<longleftrightarrow> x = a \<or> hb_active (h x)"
    "hb_order (h' x) = (if x = a then next_block_order c else hb_order (h x))"
proof -
  have n: "last_ptr None as \<noteq> Some a" using N by (auto dest: last_ptr_in_set)
  define h1 where "h1 = h(a := (h a)\<lparr>hb_active := True, hb_active_prev := active_tail c, hb_active_next := None,
                 hb_order := next_block_order c\<rparr>)"
  have "active_append a c h = (c\<lparr>active_head := (if active_tail c = None then Some a else active_head c), active_tail := Some a,
            next_block_order := next_block_order c + 1\<rparr>,
      (\<lambda>x. if active_tail c = Some x then (h1 x)\<lparr>hb_active_next := Some a\<rparr> else h1 x))"
    unfolding active_append_def Let_def h1_def [symmetric] by (cases "active_tail c") (simp_all add: fun_eq_iff)
  then have eq: "h' = (\<lambda>x. if last_ptr None as = Some x then (h1 x)\<lparr>hb_active_next := Some a\<rparr> else h1 x)"
    "c' = c\<lparr>active_head := (if as = [] then Some a else active_head c), active_tail := Some a,
            next_block_order := next_block_order c + 1\<rparr>"
    using R T last_ptr_None_iff [of as] by simp_all
  have "act.dll h' (if as = [] then Some a else active_head c) (as @ [a])"
    by (rule act.dll_push_back [OF D N]) (use n N T in \<open>auto simp: eq h1_def\<close>)
  then show "act.dll h' (active_head c') (as @ [a])" by (simp add: eq)
  show "active_tail c' = Some a" by (simp add: eq)
  show "\<exists>p. c' = c\<lparr>active_head := p, active_tail := Some a, next_block_order := next_block_order c + 1\<rparr>"
    unfolding eq by blast
  show "act_core (h' x) = act_core (h x)" "hb_active (h' x) \<longleftrightarrow> x = a \<or> hb_active (h x)"
    "hb_order (h' x) = (if x = a then next_block_order c else hb_order (h x))"
    by (auto simp: eq h1_def act_core_def)
qed

lemma active_remove_eq:
  assumes "hb_active_prev (h a) \<noteq> Some a" "hb_active_next (h a) \<noteq> Some a"
  shows "active_remove a c h =
    (c\<lparr>active_head := (if hb_active_prev (h a) = None then hb_active_next (h a) else active_head c),
       active_tail := (if hb_active_next (h a) = None then hb_active_prev (h a) else active_tail c)\<rparr>, (\<lambda>x.
     if x = a then (h a)\<lparr>hb_active_prev := None, hb_active_next := None, hb_active := False\<rparr>
     else if hb_active_prev (h a) = Some x then
       (if hb_active_next (h a) = Some x
        then (h x)\<lparr>hb_active_next := hb_active_next (h a), hb_active_prev := hb_active_prev (h a)\<rparr>
        else (h x)\<lparr>hb_active_next := hb_active_next (h a)\<rparr>)
     else if hb_active_next (h a) = Some x then (h x)\<lparr>hb_active_prev := hb_active_prev (h a)\<rparr>
     else h x))"
  using assms by (cases "hb_active_prev (h a)"; cases "hb_active_next (h a)")
    (simp_all add: active_remove_def Let_def fun_eq_iff)

lemma active_remove_effect:
  assumes R: "active_remove a c h = (c', h')" and D: "act.dll h (active_head c) (ps @ a # qs)"
    and T: "active_tail c = last_ptr None (ps @ a # qs)"
  shows "act.dll h' (active_head c') (ps @ qs)" "active_tail c' = last_ptr None (ps @ qs)"
    "\<exists>p q. c' = c\<lparr>active_head := p, active_tail := q\<rparr>"
    "act_core (h' x) = act_core (h x)" "hb_active (h' x) \<longleftrightarrow> x \<noteq> a \<and> hb_active (h x)"
    "hb_order (h' x) = hb_order (h x)"
proof -
  have d: "distinct (ps @ a # qs)" by (rule act.dll_distinct [OF D])
  note at = act.dll_at [OF D]
  have n: "hb_active_prev (h a) \<noteq> Some a" "hb_active_next (h a) \<noteq> Some a"
    using d at by (auto dest: last_ptr_in_set first_ptr_in_set)
  note E = active_remove_eq [where h = h and a = a and c = c, OF n]
  define g where "g = snd (active_remove a c h)"
  have G: "g x = (if x = a then (h a)\<lparr>hb_active_prev := None, hb_active_next := None, hb_active := False\<rparr>
     else if hb_active_prev (h a) = Some x then
       (if hb_active_next (h a) = Some x
        then (h x)\<lparr>hb_active_next := hb_active_next (h a), hb_active_prev := hb_active_prev (h a)\<rparr>
        else (h x)\<lparr>hb_active_next := hb_active_next (h a)\<rparr>)
     else if hb_active_next (h a) = Some x then (h x)\<lparr>hb_active_prev := hb_active_prev (h a)\<rparr>
     else h x)" for x
    unfolding g_def E by simp
  have eq: "c' = c\<lparr>active_head := (if hb_active_prev (h a) = None then hb_active_next (h a) else active_head c),
       active_tail := (if hb_active_next (h a) = None then hb_active_prev (h a) else active_tail c)\<rparr>" "h' = g"
    using R unfolding g_def E by simp_all
  show "\<exists>p q. c' = c\<lparr>active_head := p, active_tail := q\<rparr>" unfolding eq by blast
  show "act_core (h' x) = act_core (h x)" "hb_active (h' x) \<longleftrightarrow> x \<noteq> a \<and> hb_active (h x)"
    "hb_order (h' x) = hb_order (h x)"
    by (simp_all add: eq G act_core_def)
  have "act.dll h' (if hb_active_prev (h a) = None then hb_active_next (h a) else active_head c) (ps @ qs)"
    by (rule act.dll_unlink [OF D]) (use d in \<open>auto simp: eq G\<close>)
  then show "act.dll h' (active_head c') (ps @ qs)" by (simp add: eq)
  show "active_tail c' = last_ptr None (ps @ qs)"
    using T at last_ptr_nonempty [of qs] by (cases "qs = []") (auto simp: eq first_ptr_def last_ptr_def split: list.splits)
qed

section \<open>Links and content\<close>

text \<open>The fields that the lists consist of, and those that hold the elements.\<close>

definition links :: "'v hblock \<Rightarrow> nat \<times> ptr \<times> ptr \<times> ptr \<times> ptr \<times> ptr \<times> bool \<times> bool" where
  "links b = (hb_order b, hb_active_prev b, hb_active_next b, hb_reserved_next b, hb_available_prev b,
     hb_available_next b, hb_active b, hb_in_available b)"

definition content :: "'v hblock \<Rightarrow> (nat \<Rightarrow> 'v slot) \<times> (nat \<Rightarrow> nat) \<times> nat \<times> nat \<times> nat \<times> nat" where
  "content b = (hb_slots b, hb_skip b, hb_capacity b, hb_live_count b, hb_high_water b, hb_free_head b)"

lemma blk_rep_content: "content b' = content b \<Longrightarrow> blk_rep b' xs \<longleftrightarrow> blk_rep b xs"
  by (simp add: content_def blk_rep_def fl_rep_def)

lemma content_fields:
  assumes "content b' = content b"
  shows "has_room b' \<longleftrightarrow> has_room b" "blk_cells b' = blk_cells b" "active_block b' \<longleftrightarrow> active_block b"
    "hb_capacity b' = hb_capacity b" "hb_live_count b' = hb_live_count b"
  using assms blk_rep_content [OF assms]
  by (simp_all add: content_def has_room_def blk_cells_def active_block_def)

lemma content_core:
  "avail_core b' = avail_core b \<Longrightarrow> content b' = content b"
  "act_core b' = act_core b \<Longrightarrow> content b' = content b"
  unfolding content_def by (simp_all add: avail_core_simps [of b' b] act_core_simps [of b' b])

lemma content_cong:
  assumes "\<forall>a \<in> set (ls_active l @ ls_reserved l). content (h' a) = content (h a)"
  shows "content_ok h' l \<longleftrightarrow> content_ok h l" "counts_ok c h' l \<longleftrightarrow> counts_ok c h l" "ls_cells h' l = ls_cells h l"
proof -
  have A: "\<forall>a \<in> set (ls_active l). content (h' a) = content (h a)" and R: "\<forall>a \<in> set (ls_reserved l). content (h' a) = content (h a)"
    using assms by auto
  have "{a \<in> set (ls_active l). has_room (h' a)} = {a \<in> set (ls_active l). has_room (h a)}"
    using A content_fields(1) by blast
  moreover have "(\<forall>a \<in> set (ls_active l). active_block (h' a)) \<longleftrightarrow> (\<forall>a \<in> set (ls_active l). active_block (h a))"
    using A content_fields(3) by blast
  moreover have "(\<forall>a \<in> set (ls_reserved l). blk_rep (h' a) []) \<longleftrightarrow> (\<forall>a \<in> set (ls_reserved l). blk_rep (h a) [])"
    using R blk_rep_content by blast
  ultimately show "content_ok h' l \<longleftrightarrow> content_ok h l" by (simp add: content_ok_def)
  have m: "map (\<lambda>a. hb_live_count (h' a)) (ls_active l) = map (\<lambda>a. hb_live_count (h a)) (ls_active l)"
    "map (\<lambda>a. hb_capacity (h' a)) (ls_active l) = map (\<lambda>a. hb_capacity (h a)) (ls_active l)"
    "map (\<lambda>a. hb_capacity (h' a)) (ls_reserved l) = map (\<lambda>a. hb_capacity (h a)) (ls_reserved l)"
    using A R by (auto simp: content_def)
  show "counts_ok c h' l \<longleftrightarrow> counts_ok c h l" unfolding counts_ok_def map_append m ..
  have m: "map (cells_at h') (ls_active l) = map (cells_at h) (ls_active l)"
    using A by (auto simp: cells_at_def content_def blk_cells_def)
  show "ls_cells h' l = ls_cells h l" unfolding ls_cells_def m ..
qed

lemma links_cong:
  fixes h h' :: "'v heap"
  assumes "\<forall>a \<in> set (ls_active l @ ls_reserved l). links (h' a) = links (h a)"
  shows "links_ok c h' l \<longleftrightarrow> links_ok c h l"
proof -
  have A: "\<And>a. a \<in> set (ls_active l) \<Longrightarrow> links (h' a) = links (h a)" and R: "\<And>a. a \<in> set (ls_reserved l) \<Longrightarrow> links (h' a) = links (h a)"
    using assms by auto
  have "act.dll h' p (ls_active l) \<longleftrightarrow> act.dll h p (ls_active l)" for p
    by (rule act.dll_cong) (use A in \<open>simp add: links_def\<close>)
  moreover have "avl.dll h' p (ls_available l) \<longleftrightarrow> avl.dll h p (ls_available l)" if "set (ls_available l) \<subseteq> set (ls_active l)" for p
    by (rule avl.dll_cong) (use A that in \<open>auto simp: links_def\<close>)
  moreover have "chain (\<lambda>a. hb_reserved_next (h' a)) p (ls_reserved l) None \<longleftrightarrow> chain (\<lambda>a. hb_reserved_next (h a)) p (ls_reserved l) None" for p
    by (rule chain_cong) (use R in \<open>simp add: links_def\<close>)
  ultimately have L: "lists_rep c h' l \<longleftrightarrow> lists_rep c h l" by (auto simp: lists_rep_def)
  have m: "map (\<lambda>a. hb_order (h' a)) (ls_active l) = map (\<lambda>a. hb_order (h a)) (ls_active l)"
    using A by (auto simp: links_def)
  have "flags_ok c h' l \<longleftrightarrow> flags_ok c h l" unfolding flags_ok_def m using A R by (auto simp: links_def)
  with L show ?thesis by (simp add: links_ok_def)
qed

lemma links_ok_counts [simp]:
  "links_ok (c\<lparr>hc_size := n\<rparr>) h l \<longleftrightarrow> links_ok c h l" "links_ok (c\<lparr>hc_capacity := n\<rparr>) h l \<longleftrightarrow> links_ok c h l"
  by (simp_all add: links_ok_def lists_rep_def flags_ok_def)

lemma links_available_add:
  assumes R: "available_add a c h = (c', h')" and L: "links_ok c h l"
    and a: "a \<in> set (ls_active l)" "a \<notin> set (ls_available l)"
  shows "links_ok c' h' (l\<lparr>ls_available := a # ls_available l\<rparr>)" "c' = c\<lparr>available_head := Some a\<rparr>"
    "content (h' x) = content (h x)"
proof -
  have l: "lists_rep c h l" and f: "flags_ok c h l" using L by (auto simp: links_ok_def)
  have D: "avl.dll h (available_head c) (ls_available l)" using l by (simp add: lists_rep_def)
  note E = available_add_effect [OF R D a(2)]
  note s = avail_core_simps [OF E(3)]
  show C: "c' = c\<lparr>available_head := Some a\<rparr>" by (rule E(2))
  show "content (h' x) = content (h x)" by (rule content_core(1) [OF E(3)])
  have "act.dll h' p (ls_active l) \<longleftrightarrow> act.dll h p (ls_active l)" for p by (rule act.dll_cong) (simp add: s)
  then have "lists_rep c' h' (l\<lparr>ls_available := a # ls_available l\<rparr>)"
    using l E(1) a(1) by (auto simp: lists_rep_def C s)
  moreover have "flags_ok c' h' (l\<lparr>ls_available := a # ls_available l\<rparr>)" using f by (auto simp: flags_ok_def C s E(4))
  ultimately show "links_ok c' h' (l\<lparr>ls_available := a # ls_available l\<rparr>)" by (simp add: links_ok_def)
qed

lemma links_available_remove:
  assumes R: "available_remove a c h = (c', h')" and L: "links_ok c h l" and a: "a \<in> set (ls_active l)"
  shows "links_ok c' h' (l\<lparr>ls_available := filter (\<lambda>x. x \<noteq> a) (ls_available l)\<rparr>)" "\<exists>p. c' = c\<lparr>available_head := p\<rparr>"
    "content (h' x) = content (h x)"
proof -
  have l: "lists_rep c h l" and f: "flags_ok c h l" using L by (auto simp: links_ok_def)
  have D: "avl.dll h (available_head c) (ls_available l)" and S: "set (ls_available l) \<subseteq> set (ls_active l)"
    using l by (simp_all add: lists_rep_def)
  have I: "hb_in_available (h a) \<longleftrightarrow> a \<in> set (ls_available l)" using f a by (simp add: flags_ok_def)
  note E = available_remove_effect [OF R D I]
  note s = avail_core_simps [OF E(3)]
  show C: "\<exists>p. c' = c\<lparr>available_head := p\<rparr>" by (rule E(1))
  then obtain p where C: "c' = c\<lparr>available_head := p\<rparr>" ..
  show "content (h' x) = content (h x)" by (rule content_core(1) [OF E(3)])
  have "act.dll h' p (ls_active l) \<longleftrightarrow> act.dll h p (ls_active l)" for p by (rule act.dll_cong) (simp add: s)
  then have "lists_rep c' h' (l\<lparr>ls_available := filter (\<lambda>x. x \<noteq> a) (ls_available l)\<rparr>)"
    using l E(2) S by (auto simp: lists_rep_def C s)
  moreover have "flags_ok c' h' (l\<lparr>ls_available := filter (\<lambda>x. x \<noteq> a) (ls_available l)\<rparr>)"
    using f by (auto simp: flags_ok_def C s E(4))
  ultimately show "links_ok c' h' (l\<lparr>ls_available := filter (\<lambda>x. x \<noteq> a) (ls_available l)\<rparr>)" by (simp add: links_ok_def)
qed

lemma links_active_append:
  assumes R: "active_append a c h = (c', h')" and L: "links_ok c h l"
    and a: "a \<notin> set (ls_active l @ ls_reserved l)" "hb_reserved_next (h a) = None" "\<not> hb_in_available (h a)"
  shows "links_ok c' h' (l\<lparr>ls_active := ls_active l @ [a]\<rparr>)"
    "\<exists>p. c' = c\<lparr>active_head := p, active_tail := Some a, next_block_order := next_block_order c + 1\<rparr>"
    "content (h' x) = content (h x)"
proof -
  have l: "lists_rep c h l" and f: "flags_ok c h l" using L by (auto simp: links_ok_def)
  have D: "act.dll h (active_head c) (ls_active l)" and T: "active_tail c = last_ptr None (ls_active l)"
    and S: "set (ls_available l) \<subseteq> set (ls_active l)" and n: "a \<notin> set (ls_active l)"
    using l a by (simp_all add: lists_rep_def)
  note E = active_append_effect [OF R D T n]
  note s = act_core_simps [OF E(4)]
  show C: "\<exists>p. c' = c\<lparr>active_head := p, active_tail := Some a, next_block_order := next_block_order c + 1\<rparr>" by (rule E(3))
  then obtain p where C: "c' = c\<lparr>active_head := p, active_tail := Some a, next_block_order := next_block_order c + 1\<rparr>" ..
  show "content (h' x) = content (h x)" by (rule content_core(2) [OF E(4)])
  have "avl.dll h' q (ls_available l) \<longleftrightarrow> avl.dll h q (ls_available l)" for q by (rule avl.dll_cong) (simp add: s)
  then have "lists_rep c' h' (l\<lparr>ls_active := ls_active l @ [a]\<rparr>)"
    using l E(1) a S by (auto simp: lists_rep_def C s)
  moreover have m: "map (\<lambda>a. hb_order (h' a)) (ls_active l) = map (\<lambda>a. hb_order (h a)) (ls_active l)"
    using n by (auto simp: E(6))
  have "sorted_wrt (<) (map (\<lambda>a. hb_order (h' a)) (ls_active l @ [a]))"
    unfolding map_append m using f by (auto simp: flags_ok_def sorted_wrt_append E(6))
  then have "flags_ok c' h' (l\<lparr>ls_active := ls_active l @ [a]\<rparr>)"
    using f a S by (auto simp: flags_ok_def C s E(5,6))
  ultimately show "links_ok c' h' (l\<lparr>ls_active := ls_active l @ [a]\<rparr>)" by (simp add: links_ok_def)
qed

lemma links_active_remove:
  assumes R: "active_remove a c h = (c', h')" and L: "links_ok c h l"
    and a: "ls_active l = ps @ a # qs" "a \<notin> set (ls_available l)"
  shows "links_ok c' h' (l\<lparr>ls_active := ps @ qs\<rparr>)" "\<exists>p q. c' = c\<lparr>active_head := p, active_tail := q\<rparr>"
    "content (h' x) = content (h x)" "\<not> hb_active (h' a)" "\<not> hb_in_available (h' a)"
proof -
  have l: "lists_rep c h l" and f: "flags_ok c h l" using L by (auto simp: links_ok_def)
  have D: "act.dll h (active_head c) (ps @ a # qs)" and T: "active_tail c = last_ptr None (ps @ a # qs)"
    and S: "set (ls_available l) \<subseteq> set (ls_active l)" and d: "distinct (ps @ a # qs)"
    using l a act.dll_distinct by (auto simp: lists_rep_def)
  note E = active_remove_effect [OF R D T]
  note s = act_core_simps [OF E(4)]
  show C: "\<exists>p q. c' = c\<lparr>active_head := p, active_tail := q\<rparr>" by (rule E(3))
  then obtain p q where C: "c' = c\<lparr>active_head := p, active_tail := q\<rparr>" by blast
  show "content (h' x) = content (h x)" by (rule content_core(2) [OF E(4)])
  show "\<not> hb_active (h' a)" by (simp add: E(5))
  show "\<not> hb_in_available (h' a)" using f a by (simp add: s flags_ok_def)
  have "avl.dll h' r (ls_available l) \<longleftrightarrow> avl.dll h r (ls_available l)" for r by (rule avl.dll_cong) (simp add: s)
  then have "lists_rep c' h' (l\<lparr>ls_active := ps @ qs\<rparr>)"
    using l E(1,2) a S by (auto simp: lists_rep_def C s)
  moreover have "flags_ok c' h' (l\<lparr>ls_active := ps @ qs\<rparr>)"
    using f a d by (auto simp: flags_ok_def C s E(5,6) sorted_wrt_append)
  ultimately show "links_ok c' h' (l\<lparr>ls_active := ps @ qs\<rparr>)" by (simp add: links_ok_def)
qed

text \<open>The reserved blocks are a stack.\<close>

lemma links_reserve:
  fixes h :: "'v heap"
  assumes L: "links_ok c h l" and a: "a \<notin> set (ls_active l @ ls_reserved l)"
    and b: "hb_reserved_next b = reserved_head c" "\<not> hb_active b" "\<not> hb_in_available b"
  shows "links_ok (c\<lparr>reserved_head := Some a\<rparr>) (h(a := b)) (l\<lparr>ls_reserved := a # ls_reserved l\<rparr>)"
proof -
  have "links_ok c (h(a := b)) l" using L a by (subst links_cong [of l _ h]) auto
  then show ?thesis using a b by (auto simp: links_ok_def lists_rep_def flags_ok_def)
qed

lemma links_unreserve:
  fixes h :: "'v heap"
  assumes L: "links_ok c h l" and a: "ls_reserved l = a # rs"
  shows "links_ok (c\<lparr>reserved_head := hb_reserved_next (h a)\<rparr>) (h(a := b)) (l\<lparr>ls_reserved := rs\<rparr>)"
proof -
  have "links_ok (c\<lparr>reserved_head := hb_reserved_next (h a)\<rparr>) h (l\<lparr>ls_reserved := rs\<rparr>)" "a \<notin> set (ls_active l)" "a \<notin> set rs"
    using L a by (auto simp: links_ok_def lists_rep_def flags_ok_def)
  then show ?thesis by (subst links_cong [of _ _ h]) auto
qed

section \<open>Updates of one block\<close>

lemma free_run_frame [simp]:
  "links (unlink_free_run l b) = links b" "hb_capacity (unlink_free_run l b) = hb_capacity b"
  "links (move_free_run i l b) = links b" "hb_capacity (move_free_run i l b) = hb_capacity b"
  "links (push_free_run i b) = links b" "hb_capacity (push_free_run i b) = hb_capacity b"
  by (simp_all add: unlink_free_run_def move_free_run_def push_free_run_def write_free_links_def set_slot_def links_def Let_def)

lemma links_upd [simp]:
  "links (set_skip i n b) = links b" "links (set_slot i s b) = links b" "links (write_free_links i q b) = links b"
  "links (b\<lparr>hb_high_water := n\<rparr>) = links b" "links (b\<lparr>hb_live_count := n\<rparr>) = links b"
  "hb_capacity (set_skip i n b) = hb_capacity b" "hb_capacity (set_slot i s b) = hb_capacity b"
  "hb_capacity (write_free_links i q b) = hb_capacity b"
  by (simp_all add: links_def set_skip_def set_slot_def write_free_links_def)

lemma emplace_slot_frame:
  "emplace_slot x b = (r, b') \<Longrightarrow> links b' = links b \<and> hb_capacity b' = hb_capacity b"
  by (auto simp: emplace_slot_def Let_def split: option.splits if_splits)

lemma erase_slot_frame [simp]: "links (erase_slot i b) = links b" "hb_capacity (erase_slot i b) = hb_capacity b"
  by (simp_all add: erase_slot_def Let_def)

lemma emplace_slot_rep:
  assumes "blk_rep b xs" "has_room b"
  shows "\<exists>i b' ys as ds. emplace_slot (Some v) b = (Some i, b') \<and> blk_rep b' ys \<and> ys \<noteq> [] \<and>
    cells 0 xs = as @ ds \<and> cells 0 ys = as @ (i, v) # ds"
proof (cases "hb_free_head b = npos")
  case True
  then have "hb_high_water b < hb_capacity b" using assms(2) by (simp add: has_room_def)
  from emplace_slot_fresh [OF assms(1) True this, of v] obtain b' where
    "emplace_slot (Some v) b = (Some (width xs), b')" "blk_rep b' (xs @ [Live v])" by blast
  then show ?thesis by (intro exI [of _ "width xs"] exI [of _ b'] exI [of _ "xs @ [Live v]"] exI conjI) auto
next
  case False
  show ?thesis
  proof (cases "hb_skip b (hb_free_head b) = 1")
    case True
    from emplace_slot_reuse_last [OF assms(1) False True, of v] obtain as bs b' where
      "xs = as @ Dead 1 # bs" "emplace_slot (Some v) b = (Some (width as), b')" "blk_rep b' (as @ Live v # bs)" by blast
    then show ?thesis by (intro exI [of _ "width as"] exI [of _ b'] exI [of _ "as @ Live v # bs"] exI conjI) auto
  next
    case n: False
    from emplace_slot_reuse_more [OF assms(1) False n, of v] obtain as n bs b' where
      "xs = as @ Dead n # bs" "1 < n" "emplace_slot (Some v) b = (Some (width as), b')"
      "blk_rep b' (as @ Live v # Dead (n - 1) # bs)" by blast
    then show ?thesis
      by (intro exI [of _ "width as"] exI [of _ b'] exI [of _ "as @ Live v # Dead (n - 1) # bs"] exI conjI) auto
  qed
qed

lemma has_room_full: "\<not> has_room b \<longleftrightarrow> hb_high_water b = hb_capacity b \<and> hb_free_head b = npos" if "blk_rep b xs"
  using that by (auto simp: has_room_def blk_rep_def)

lemma blk_rep_live: "blk_rep b xs \<Longrightarrow> hb_live_count b = length (blk_cells b)"
  using blk_cells_rep [of b xs] by (simp add: blk_rep_def)

lemma live_count_cells: "content_ok h l \<Longrightarrow> sum_list (map (\<lambda>a. hb_live_count (h a)) (ls_active l)) = length (ls_cells h l)"
proof -
  assume "content_ok h l"
  then have "\<forall>a \<in> set (ls_active l). hb_live_count (h a) = length (cells_at h a)"
    using blk_rep_live by (fastforce simp: content_ok_def active_block_def cells_at_def)
  then have m: "map (\<lambda>a. hb_live_count (h a)) (ls_active l) = map (\<lambda>a. length (cells_at h a)) (ls_active l)" by simp
  show ?thesis unfolding m by (simp add: ls_cells_def length_concat o_def)
qed

lemma ctl_repI:
  assumes "links_ok c h l" "content_ok h l" "hc_size c = length (ls_cells h l)"
    "hc_capacity c = sum_list (map (\<lambda>a. hb_capacity (h a)) (ls_active l @ ls_reserved l))"
  shows "ctl_rep c h l"
  using assms live_count_cells [OF assms(2)] by (simp add: ctl_rep_def counts_ok_def)

lemma ctl_repE:
  assumes "ctl_rep c h l"
  obtains "links_ok c h l" "content_ok h l" "hc_size c = length (ls_cells h l)"
    "hc_capacity c = sum_list (map (\<lambda>a. hb_capacity (h a)) (ls_active l @ ls_reserved l))"
  using assms live_count_cells by (auto simp: ctl_rep_def counts_ok_def)

text \<open>The cells when one active block changes.\<close>

lemma ls_cells_split:
  assumes "ls_active l = ps @ a # qs" "\<forall>x \<in> set (ps @ qs). content (h' x) = content (h x)" "ls_active l' = ps @ a # qs"
  shows "ls_cells h l = concat (map (cells_at h) ps) @ cells_at h a @ concat (map (cells_at h) qs)"
    "ls_cells h' l' = concat (map (cells_at h) ps) @ cells_at h' a @ concat (map (cells_at h) qs)"
proof -
  have m: "map (cells_at h') ps = map (cells_at h) ps" "map (cells_at h') qs = map (cells_at h) qs"
    using assms(2) by (auto simp: cells_at_def content_def blk_cells_def)
  show "ls_cells h l = concat (map (cells_at h) ps) @ cells_at h a @ concat (map (cells_at h) qs)"
    "ls_cells h' l' = concat (map (cells_at h) ps) @ cells_at h' a @ concat (map (cells_at h) qs)"
    unfolding ls_cells_def assms(1,3) map_append list.map m by simp_all
qed

section \<open>Insertion\<close>

text \<open>The blocks of a hive are the same, with the same capacities.\<close>

definition owned :: "lists \<Rightarrow> addr set" where
  "owned l = set (ls_active l @ ls_reserved l)"

lemma links_owned:
  assumes "links_ok c h l"
  shows "set (ls_available l) \<subseteq> set (ls_active l)" "distinct (ls_active l @ ls_reserved l)"
    "available_head c = first_ptr (ls_available l) None" "active_head c = first_ptr (ls_active l) None"
    "active_tail c = last_ptr None (ls_active l)" "reserved_head c = first_ptr (ls_reserved l) None"
  using assms avl.dll_first act.dll_first by (auto simp: links_ok_def lists_rep_def dest: chain_first)

lemma content_ok_upd:
  assumes C: "content_ok h l" and l: "ls_active l = ps @ a # qs" "distinct (ps @ a # qs)" "a \<notin> set (ls_reserved l)"
    and h: "\<forall>x. x \<noteq> a \<longrightarrow> content (h' x) = content (h x)" and b: "active_block (h' a)"
    and l': "ls_active l' = ls_active l" "ls_reserved l' = ls_reserved l"
      "set (ls_available l') = set (ls_available l) - {a} \<union> (if has_room (h' a) then {a} else {})"
  shows "content_ok h' l'"
proof -
  have "\<forall>x \<in> set (ls_active l). active_block (h' x)"
    using C h b content_fields(3) unfolding content_ok_def by metis
  moreover have "\<forall>x \<in> set (ls_reserved l). blk_rep (h' x) []"
    using C h l(3) blk_rep_content unfolding content_ok_def by metis
  moreover have "{x \<in> set (ls_active l). has_room (h' x)} = {x \<in> set (ls_active l). has_room (h x)} - {a} \<union> (if has_room (h' a) then {a} else {})"
  proof -
    have "\<forall>x. x \<noteq> a \<longrightarrow> has_room (h' x) = has_room (h x)" using h content_fields(1) by blast
    then show ?thesis using l(1) by (cases "has_room (h' a)") auto
  qed
  ultimately show ?thesis using C l' by (simp add: content_ok_def)
qed

lemma emplace_available_ok:
  assumes C: "ctl_rep c h l" and a: "available_head c = Some a"
  shows "\<exists>i c' h' l' xs ys. emplace_available (Some x) a c v h = (Inr (At a i), touch_end (v\<lparr>hv_control := Some c'\<rparr>), h') \<and>
    ctl_rep c' h' l' \<and> ls_cells h l = xs @ ys \<and> ls_cells h' l' = xs @ ((a, i), x) # ys \<and>
    owned l' = owned l \<and> (\<forall>y. hb_capacity (h' y) = hb_capacity (h y))"
proof -
  from C have L: "links_ok c h l" and K: "content_ok h l" and S: "hc_size c = length (ls_cells h l)"
    and N: "hc_capacity c = sum_list (map (\<lambda>a. hb_capacity (h a)) (ls_active l @ ls_reserved l))"
    by (auto elim: ctl_repE)
  have v: "a \<in> set (ls_available l)" using links_owned(3) [OF L] a first_ptr_in_set by metis
  then have act: "a \<in> set (ls_active l)" "has_room (h a)" using K by (auto simp: content_ok_def)
  then obtain ps qs where ap: "ls_active l = ps @ a # qs" by (auto simp: in_set_conv_decomp)
  have d: "distinct (ps @ a # qs)" "a \<notin> set (ls_reserved l)" using links_owned(2) [OF L] ap by auto
  obtain zs where z: "blk_rep (h a) zs" using K act(1) by (auto simp: content_ok_def active_block_def)
  obtain i b ws as ds where E: "emplace_slot (Some x) (h a) = (Some i, b)" "blk_rep b ws" "ws \<noteq> []"
    "cells 0 zs = as @ ds" "cells 0 ws = as @ (i, x) # ds"
    using emplace_slot_rep [OF z act(2), of x] by blast
  note F = emplace_slot_frame [OF E(1)]
  define c1 where "c1 = c\<lparr>hc_size := hc_size c + 1\<rparr>"
  define h1 where "h1 = h(a := b)"
  have L1: "links_ok c1 h1 l" using L F by (simp add: c1_def) (subst links_cong [of _ _ h], auto simp: h1_def)
  define r where "r = (if has_room b then (c1, h1) else available_remove a c1 h1)"
  obtain c' h' where R: "r = (c', h')" by (cases r)
  define l' where "l' = (if has_room b then l else l\<lparr>ls_available := filter (\<lambda>x. x \<noteq> a) (ls_available l)\<rparr>)"
  have step: "links_ok c' h' l'" "\<forall>y. content (h' y) = content (h1 y)" "\<exists>p. c' = c1\<lparr>available_head := p\<rparr>"
  proof -
    have "links_ok c' h' l' \<and> (\<forall>y. content (h' y) = content (h1 y)) \<and> (\<exists>p. c' = c1\<lparr>available_head := p\<rparr>)"
    proof (cases "has_room b")
      case True
      then have "c' = c1\<lparr>available_head := available_head c1\<rparr>" "h' = h1" "l' = l" "c' = c1"
        using R by (simp_all add: r_def l'_def)
      then show ?thesis using L1 by (intro conjI exI [of _ "available_head c1"]) simp_all
    next
      case False
      then have "available_remove a c1 h1 = (c', h')" using R by (simp add: r_def)
      from links_available_remove [OF this L1 act(1)] show ?thesis using False by (simp add: l'_def)
    qed
    then show "links_ok c' h' l'" "\<forall>y. content (h' y) = content (h1 y)" "\<exists>p. c' = c1\<lparr>available_head := p\<rparr>" by blast+
  qed
  then have ca: "content (h' a) = content b" and cx: "\<forall>y. y \<noteq> a \<longrightarrow> content (h' y) = content (h y)" by (simp_all add: h1_def)
  have K': "content_ok h' l'"
    by (rule content_ok_upd [OF K ap d cx]) (use E v content_fields [OF ca] in \<open>auto simp: l'_def active_block_def\<close>)
  have pq: "\<forall>x \<in> set (ps @ qs). content (h' x) = content (h x)" using cx d by auto
  have l'a: "ls_active l' = ps @ a # qs" using ap by (simp add: l'_def)
  have "cells_at h a = map (\<lambda>(i, x). ((a, i), x)) (as @ ds)" "cells_at h' a = map (\<lambda>(i, x). ((a, i), x)) (as @ (i, x) # ds)"
    using content_fields(2) [OF ca] blk_cells_rep [OF z] blk_cells_rep [OF E(2)] E(4,5) by (simp_all add: cells_at_def)
  then have cells: "ls_cells h l = (concat (map (cells_at h) ps) @ map (\<lambda>(i, x). ((a, i), x)) as) @ (map (\<lambda>(i, x). ((a, i), x)) ds @ concat (map (cells_at h) qs))"
    "ls_cells h' l' = (concat (map (cells_at h) ps) @ map (\<lambda>(i, x). ((a, i), x)) as) @ ((a, i), x) # (map (\<lambda>(i, x). ((a, i), x)) ds @ concat (map (cells_at h) qs))"
    using ls_cells_split [OF ap pq l'a] by simp_all
  have cap: "\<forall>y. hb_capacity (h' y) = hb_capacity (h y)"
    using cx ca F content_fields(4) by metis
  have fields: "hc_size c' = hc_size c + 1" "hc_capacity c' = hc_capacity c" using step(3) by (auto simp: c1_def)
  have "ctl_rep c' h' l'"
    by (rule ctl_repI [OF step(1) K']) (use S N cells cap fields in \<open>auto simp: l'_def\<close>)
  moreover have "emplace_available (Some x) a c v h = (Inr (At a i), touch_end (v\<lparr>hv_control := Some c'\<rparr>), h')"
    unfolding emplace_available_def E(1) Let_def prod.case option.case c1_def [symmetric] h1_def [symmetric] has_room_full [OF E(2), symmetric]
    using R by (cases "has_room b") (simp_all add: r_def)
  moreover have "owned l' = owned l" by (simp add: owned_def l'_def)
  ultimately show ?thesis using cells cap by blast
qed

lemma emplace_available_throw:
  assumes C: "ctl_rep c h l" and a: "available_head c = Some a"
  shows "\<exists>h'. emplace_available None a c v h = (Inl Ctor_throw, v, h') \<and>
    ctl_rep c h' l \<and> ls_cells h' l = ls_cells h l \<and> (\<forall>y. hb_capacity (h' y) = hb_capacity (h y))"
proof -
  from C have L: "links_ok c h l" and K: "content_ok h l" and S: "hc_size c = length (ls_cells h l)"
    and N: "hc_capacity c = sum_list (map (\<lambda>a. hb_capacity (h a)) (ls_active l @ ls_reserved l))"
    by (auto elim: ctl_repE)
  have v: "a \<in> set (ls_available l)" using links_owned(3) [OF L] a first_ptr_in_set by metis
  then have act: "a \<in> set (ls_active l)" "has_room (h a)" using K by (auto simp: content_ok_def)
  then obtain ps qs where ap: "ls_active l = ps @ a # qs" by (auto simp: in_set_conv_decomp)
  have d: "distinct (ps @ a # qs)" "a \<notin> set (ls_reserved l)" using links_owned(2) [OF L] ap by auto
  obtain zs where z: "blk_rep (h a) zs" "zs \<noteq> []" using K act(1) by (auto simp: content_ok_def active_block_def)
  obtain b where E: "emplace_slot None (h a) = (None, b)" "blk_rep b zs"
    using emplace_slot_throw [OF z(1)] act(2) by (auto simp: has_room_def)
  note F = emplace_slot_frame [OF E(1)]
  define h' where "h' = h(a := b)"
  have L1: "links_ok c h' l" using L F by (subst links_cong [of _ _ h]) (auto simp: h'_def)
  have "hb_high_water b = hb_high_water (h a)" using E(2) z(1) by (auto simp: blk_rep_def)
  then have R: "has_room b" using act(2) F blk_rep_room [OF E(2)] blk_rep_room [OF z(1)] by (auto simp: has_room_def)
  have cx: "\<forall>y. y \<noteq> a \<longrightarrow> content (h' y) = content (h y)" by (simp add: h'_def)
  have K': "content_ok h' l"
    by (rule content_ok_upd [OF K ap d cx]) (use E z v R in \<open>auto simp: h'_def active_block_def\<close>)
  have pq: "\<forall>x \<in> set (ps @ qs). content (h' x) = content (h x)" using cx d by auto
  have "cells_at h' a = cells_at h a"
    using blk_cells_rep [OF z(1)] blk_cells_rep [OF E(2)] by (simp add: cells_at_def h'_def)
  then have cells: "ls_cells h' l = ls_cells h l" using ls_cells_split [OF ap pq ap] by simp
  have cap: "\<forall>y. hb_capacity (h' y) = hb_capacity (h y)" using F by (simp add: h'_def)
  have "ctl_rep c h' l" by (rule ctl_repI [OF L1 K']) (use S N cells cap in auto)
  then show ?thesis using cells cap by (auto simp: emplace_available_def E(1) h'_def)
qed

lemma blk_rep_vacant:
  "blk_rep b [] \<longleftrightarrow> hb_high_water b = 0 \<and> hb_live_count b = 0 \<and> hb_free_head b = npos \<and>
     0 < hb_capacity b \<and> hb_capacity b \<le> slot_npos"
  by (auto simp: blk_rep_def fl_rep_def segs_wf_def)

text \<open>The first element of a block outside the active list.\<close>

lemma activate_ok:
  assumes L: "links_ok c h l" and K: "content_ok h l" and V: "blk_rep (h a) []"
    and a: "a \<notin> owned l" "hb_reserved_next (h a) = None" "\<not> hb_in_available (h a)"
  shows "\<exists>c' h' l'. activate x a c h = (c', h') \<and> links_ok c' h' l' \<and> content_ok h' l' \<and>
    ls_cells h' l' = ls_cells h l @ [((a, 0), x)] \<and> ls_active l' = ls_active l @ [a] \<and> ls_reserved l' = ls_reserved l \<and>
    (\<forall>y. hb_capacity (h' y) = hb_capacity (h y)) \<and> hc_size c' = hc_size c \<and> hc_capacity c' = hc_capacity c"
proof -
  define b where "b = (set_skip 0 0 (set_slot 0 (Elem x) (h a)))\<lparr>hb_high_water := 1, hb_live_count := 1\<rparr>"
  have B: "blk_rep b [Live x]" "hb_capacity b = hb_capacity (h a)" "links b = links (h a)"
    using V unfolding blk_rep_vacant by (auto simp: b_def blk_rep_def fl_rep_def segs_wf_def set_skip_def set_slot_def links_def)
  have room: "has_room b \<longleftrightarrow> hb_high_water b \<noteq> hb_capacity b"
    using has_room_full [OF B(1)] V by (auto simp: b_def blk_rep_vacant set_skip_def set_slot_def)
  define h1 where "h1 = h(a := b)"
  have L1: "links_ok c h1 l" using L a by (subst links_cong [of _ _ h]) (auto simp: h1_def owned_def)
  obtain c2 h2 where R2: "active_append a c h1 = (c2, h2)" by fastforce
  have a1: "a \<notin> set (ls_active l @ ls_reserved l)" "hb_reserved_next (h1 a) = None" "\<not> hb_in_available (h1 a)"
    using a B(3) by (auto simp: owned_def h1_def links_def)
  note A = links_active_append [OF R2 L1 a1]
  define l2 where "l2 = l\<lparr>ls_active := ls_active l @ [a]\<rparr>"
  define r where "r = (if has_room b then available_add a c2 h2 else (c2, h2))"
  obtain c' h' where R: "r = (c', h')" by (cases r)
  define l' where "l' = (if has_room b then l2\<lparr>ls_available := a # ls_available l2\<rparr> else l2)"
  have av: "a \<in> set (ls_active l2)" "a \<notin> set (ls_available l2)"
    using links_owned(1) [OF L] a by (auto simp: l2_def owned_def)
  have step: "links_ok c' h' l'" "\<forall>y. content (h' y) = content (h1 y)" "hc_size c' = hc_size c" "hc_capacity c' = hc_capacity c"
  proof -
    have "links_ok c' h' l' \<and> (\<forall>y. content (h' y) = content (h2 y)) \<and> hc_size c' = hc_size c2 \<and> hc_capacity c' = hc_capacity c2"
    proof (cases "has_room b")
      case True
      then have "available_add a c2 h2 = (c', h')" using R by (simp add: r_def)
      from links_available_add [OF this A(1) [folded l2_def] av] show ?thesis using True by (simp add: l'_def)
    next
      case False
      then have "c' = c2" "h' = h2" "l' = l2" using R by (simp_all add: r_def l'_def)
      then show ?thesis using A(1) by (simp add: l2_def)
    qed
    then show "links_ok c' h' l'" "\<forall>y. content (h' y) = content (h1 y)" "hc_size c' = hc_size c" "hc_capacity c' = hc_capacity c"
      using A(2,3) by auto
  qed
  then have ca: "content (h' a) = content b" and cx: "\<forall>y. y \<noteq> a \<longrightarrow> content (h' y) = content (h y)" by (simp_all add: h1_def)
  have "\<forall>y \<in> set (ls_active l @ ls_reserved l). content (h' y) = content (h y)" using cx a by (auto simp: owned_def)
  note cc = content_cong [OF this]
  have lf: "ls_active l' = ls_active l @ [a]" "ls_reserved l' = ls_reserved l"
    "set (ls_available l') = set (ls_available l) \<union> (if has_room b then {a} else {})" by (auto simp: l'_def l2_def)
  have K': "content_ok h' l'" using K [folded cc(1)] B(1) content_fields [OF ca]
    by (auto simp: content_ok_def lf active_block_def split: if_splits)
  have "cells_at h' a = [((a, 0), x)]" using content_fields(2) [OF ca] blk_cells_rep [OF B(1)] by (simp add: cells_at_def)
  then have cells: "ls_cells h' l' = ls_cells h l @ [((a, 0), x)]" unfolding cc(3) [symmetric] by (simp add: ls_cells_def lf)
  have cap: "\<forall>y. hb_capacity (h' y) = hb_capacity (h y)" using cx ca B(2) content_fields(4) by metis
  have "hb_high_water (h2 a) = hb_high_water b" "hb_capacity (h2 a) = hb_capacity b"
    using A(3) [of a] by (simp_all add: content_def h1_def)
  then have "activate x a c h = (c', h')"
    unfolding activate_def Let_def b_def [symmetric] h1_def [symmetric] R2 prod.case using R room by (cases "has_room b") (simp_all add: r_def)
  then show ?thesis using step K' cells lf cap by blast
qed

lemma emplace_reserved_ok:
  assumes C: "ctl_rep c h l" and a: "reserved_head c = Some a"
  shows "\<exists>c' h' l'. emplace_reserved (Some x) a c v h = (Inr (At a 0), touch_end (v\<lparr>hv_control := Some c'\<rparr>), h') \<and>
    ctl_rep c' h' l' \<and> ls_cells h' l' = ls_cells h l @ [((a, 0), x)] \<and>
    owned l' = owned l \<and> (\<forall>y. hb_capacity (h' y) = hb_capacity (h y))"
proof -
  from C have L: "links_ok c h l" and K: "content_ok h l" and S: "hc_size c = length (ls_cells h l)"
    and N: "hc_capacity c = sum_list (map (\<lambda>a. hb_capacity (h a)) (ls_active l @ ls_reserved l))"
    by (auto elim: ctl_repE)
  obtain rs where rs: "ls_reserved l = a # rs"
    using links_owned(6) [OF L] a by (cases "ls_reserved l") auto
  define c1 where "c1 = c\<lparr>reserved_head := hb_reserved_next (h a)\<rparr>"
  define h1 where "h1 = h(a := (h a)\<lparr>hb_reserved_next := None\<rparr>)"
  define l1 where "l1 = l\<lparr>ls_reserved := rs\<rparr>"
  have L1: "links_ok c1 h1 l1" unfolding c1_def h1_def l1_def by (rule links_unreserve [OF L rs])
  have h1c: "\<forall>y. content (h1 y) = content (h y)" by (simp add: h1_def content_def)
  then have cc: "content_ok h1 l \<longleftrightarrow> content_ok h l" "ls_cells h1 l = ls_cells h l" using content_cong by blast+
  have na: "a \<notin> owned l1" "a \<notin> set (ls_available l)"
    using links_owned(1,2) [OF L] rs by (auto simp: owned_def l1_def)
  have K1: "content_ok h1 l1" "blk_rep (h1 a) []" using K [folded cc(1)] rs by (auto simp: content_ok_def l1_def)
  have n1: "\<not> hb_in_available (h1 a)" "hb_reserved_next (h1 a) = None"
    using L na rs by (auto simp: links_ok_def flags_ok_def h1_def)
  from activate_ok [OF L1 K1 na(1) n1(2,1), of x] obtain c2 h2 l2 where A: "activate x a c1 h1 = (c2, h2)"
    "links_ok c2 h2 l2" "content_ok h2 l2" "ls_cells h2 l2 = ls_cells h1 l1 @ [((a, 0), x)]"
    "ls_active l2 = ls_active l1 @ [a]" "ls_reserved l2 = ls_reserved l1"
    "\<forall>y. hb_capacity (h2 y) = hb_capacity (h1 y)" "hc_size c2 = hc_size c1" "hc_capacity c2 = hc_capacity c1"
    by blast
  have cells: "ls_cells h2 l2 = ls_cells h l @ [((a, 0), x)]" using A(4) cc(2) by (simp add: ls_cells_def l1_def)
  have cap: "\<forall>y. hb_capacity (h2 y) = hb_capacity (h y)" using A(7) by (simp add: h1_def)
  have "ctl_rep (c2\<lparr>hc_size := hc_size c2 + 1\<rparr>) h2 l2"
    by (rule ctl_repI) (use A(2,3,5,6,8,9) S N cells cap rs in \<open>auto simp: c1_def l1_def\<close>)
  moreover have "owned l2 = owned l" using A(5,6) rs by (auto simp: owned_def l1_def)
  moreover have "emplace_reserved (Some x) a c v h =
    (Inr (At a 0), touch_end (v\<lparr>hv_control := Some (c2\<lparr>hc_size := hc_size c2 + 1\<rparr>)\<rparr>), h2)"
    unfolding emplace_reserved_def option.case Let_def c1_def [symmetric] h1_def [symmetric] A(1) by simp
  ultimately show ?thesis using cells cap by blast
qed

lemma emplace_reserved_throw:
  assumes C: "ctl_rep c h l" and a: "reserved_head c = Some a"
  shows "\<exists>h'. emplace_reserved None a c v h = (Inl Ctor_throw, v, h') \<and>
    ctl_rep c h' l \<and> ls_cells h' l = ls_cells h l \<and> (\<forall>y. hb_capacity (h' y) = hb_capacity (h y))"
proof -
  from C have L: "links_ok c h l" and K: "content_ok h l" and S: "hc_size c = length (ls_cells h l)"
    and N: "hc_capacity c = sum_list (map (\<lambda>a. hb_capacity (h a)) (ls_active l @ ls_reserved l))"
    by (auto elim: ctl_repE)
  have a1: "a \<in> set (ls_reserved l)" using links_owned(6) [OF L] a first_ptr_in_set by metis
  then have na: "a \<notin> set (ls_active l)" "blk_rep (h a) []" using links_owned(2) [OF L] K by (auto simp: content_ok_def)
  define h' where "h' = h(a := set_slot 0 Raw (h a))"
  have L': "links_ok c h' l" using L by (subst links_cong [of _ _ h]) (auto simp: h'_def)
  have B: "blk_rep (h' a) []" using na(2) by (simp add: blk_rep_vacant h'_def set_slot_def)
  have e: "\<forall>y \<in> set (ls_active l). h' y = h y" using na by (auto simp: h'_def)
  then have cells: "ls_cells h' l = ls_cells h l"
    unfolding ls_cells_def by (intro arg_cong [of _ _ concat] map_cong) (auto simp: cells_at_def)
  have K': "content_ok h' l"
    using K B e unfolding content_ok_def by (auto simp: h'_def)
  have cap: "\<forall>y. hb_capacity (h' y) = hb_capacity (h y)" by (simp add: h'_def)
  have "ctl_rep c h' l" by (rule ctl_repI [OF L' K']) (use S N cells cap in auto)
  then show ?thesis using cells cap by (auto simp: emplace_reserved_def h'_def)
qed

lemma blk_rep_new: "0 < n \<Longrightarrow> n \<le> slot_npos \<Longrightarrow> blk_rep (block_new n) []"
  by (simp add: blk_rep_vacant block_new_def)

lemma ctl_rep_new: "ctl_rep control_new h \<lparr>ls_active = [], ls_available = [], ls_reserved = []\<rparr>"
  by (rule ctl_repI) (simp_all add: links_ok_def lists_rep_def flags_ok_def content_ok_def control_new_def ls_cells_def)

definition no_lists :: lists where
  "no_lists = \<lparr>ls_active = [], ls_available = [], ls_reserved = []\<rparr>"

text \<open>The control state of a hive, as one with nothing in it when there is none yet.\<close>

lemma hive_rep_control:
  assumes "hive_rep v h l"
  shows "ctl_rep (case hv_control v of None \<Rightarrow> control_new | Some c \<Rightarrow> c) h l"
    "hive_capacity v = hc_capacity (case hv_control v of None \<Rightarrow> control_new | Some c \<Rightarrow> c)"
    "hive_size v = hc_size (case hv_control v of None \<Rightarrow> control_new | Some c \<Rightarrow> c)"
  using assms ctl_rep_new [of h]
  by (auto simp: hive_rep_def hive_capacity_def hive_size_def control_new_def split: option.splits)

definition room_for_block :: "traits \<Rightarrow> hive \<Rightarrow> bool" where
  "room_for_block t v \<longleftrightarrow>
     (let lmin = lim_min (hv_limits v)
      in lmin \<noteq> 0 \<and> lmin \<le> allocation_block_max t v \<and> hive_capacity v \<le> tr_max_size t \<and>
         lmin \<le> tr_max_size t - hive_capacity v)"

lemma block_capacity_bounds:
  assumes "room_for_block t v"
    and n: "n = min (max (lim_min (hv_limits v)) (hive_capacity v)) (min (allocation_block_max t v) (tr_max_size t - hive_capacity v))"
  shows "0 < n" "n \<le> slot_npos" "within (hv_limits v) n" "hive_capacity v + n \<le> tr_max_size t"
proof -
  have m: "allocation_block_max t v \<le> slot_npos" "allocation_block_max t v \<le> lim_max (hv_limits v)"
    by (auto simp: allocation_block_max_def)
  have b: "lim_min (hv_limits v) \<le> n" "n \<le> allocation_block_max t v" "n \<le> tr_max_size t - hive_capacity v"
    using assms by (auto simp: room_for_block_def Let_def)
  show "0 < n" "n \<le> slot_npos" "within (hv_limits v) n" "hive_capacity v + n \<le> tr_max_size t"
    using b m assms(1) by (auto simp: within_def room_for_block_def Let_def)
qed

lemma emplace_new_ok:
  assumes H: "hive_rep v h l" and P: "room_for_block t v" and al: "al_block al = Some a" "hv_control v = None \<Longrightarrow> al_control al"
    and f: "a \<notin> owned l"
  shows "\<exists>c' h' l'. emplace_new t al (Some x) v h = (Inr (At a 0), touch_end (v\<lparr>hv_control := Some c'\<rparr>), h') \<and>
    ctl_rep c' h' l' \<and> ls_cells h' l' = ls_cells h l @ [((a, 0), x)] \<and> owned l' = insert a (owned l) \<and>
    within (hv_limits v) (hb_capacity (h' a)) \<and> (\<forall>y. y \<noteq> a \<longrightarrow> hb_capacity (h' y) = hb_capacity (h y))"
proof -
  define c where "c = (case hv_control v of None \<Rightarrow> control_new | Some c \<Rightarrow> c)"
  have C: "ctl_rep c h l" unfolding c_def by (rule hive_rep_control [OF H])
  then have L: "links_ok c h l" and K: "content_ok h l" and S: "hc_size c = length (ls_cells h l)"
    and N: "hc_capacity c = sum_list (map (\<lambda>a. hb_capacity (h a)) (ls_active l @ ls_reserved l))"
    by (auto elim: ctl_repE)
  define n where "n = min (max (lim_min (hv_limits v)) (hive_capacity v)) (min (allocation_block_max t v) (tr_max_size t - hive_capacity v))"
  note nb = block_capacity_bounds [OF P n_def]
  define h1 where "h1 = h(a := block_new n)"
  have out: "\<forall>y \<in> set (ls_active l @ ls_reserved l). h1 y = h y" using f by (auto simp: h1_def owned_def)
  have L1: "links_ok c h1 l" using L out by (subst links_cong [of _ _ h]) auto
  have cc: "content_ok h1 l \<longleftrightarrow> content_ok h l" "ls_cells h1 l = ls_cells h l" using content_cong [of l h1 h] out by auto
  have V: "blk_rep (h1 a) []" "hb_reserved_next (h1 a) = None" "\<not> hb_in_available (h1 a)"
    using blk_rep_new [OF nb(1,2)] by (simp_all add: h1_def) (simp_all add: block_new_def)
  from activate_ok [OF L1 K [folded cc(1)] V(1) f V(2,3), of x] obtain c2 h2 l2 where A: "activate x a c h1 = (c2, h2)"
    "links_ok c2 h2 l2" "content_ok h2 l2" "ls_cells h2 l2 = ls_cells h1 l @ [((a, 0), x)]"
    "ls_active l2 = ls_active l @ [a]" "ls_reserved l2 = ls_reserved l"
    "\<forall>y. hb_capacity (h2 y) = hb_capacity (h1 y)" "hc_size c2 = hc_size c" "hc_capacity c2 = hc_capacity c" by blast
  define c3 where "c3 = c2\<lparr>hc_capacity := hc_capacity c2 + hb_capacity (h2 a), hc_size := hc_size c2 + 1\<rparr>"
  have m: "map (\<lambda>y. hb_capacity (h2 y)) (ls_active l) = map (\<lambda>y. hb_capacity (h y)) (ls_active l)"
    "map (\<lambda>y. hb_capacity (h2 y)) (ls_reserved l) = map (\<lambda>y. hb_capacity (h y)) (ls_reserved l)"
    using A(7) out by auto
  have "ctl_rep c3 h2 l2"
  proof (rule ctl_repI)
    show "links_ok c3 h2 l2" using A(2) by (simp add: c3_def)
    show "content_ok h2 l2" by (rule A(3))
    show "hc_size c3 = length (ls_cells h2 l2)" using A(4,8) S cc(2) by (simp add: c3_def)
    show "hc_capacity c3 = sum_list (map (\<lambda>a. hb_capacity (h2 a)) (ls_active l2 @ ls_reserved l2))"
      unfolding A(5,6) map_append m using A(9) N by (simp add: c3_def)
  qed
  moreover have "owned l2 = insert a (owned l)" using A(5,6) by (auto simp: owned_def)
  moreover have "within (hv_limits v) (hb_capacity (h2 a))" "\<forall>y. y \<noteq> a \<longrightarrow> hb_capacity (h2 y) = hb_capacity (h y)"
    using A(7) nb(3) by (simp_all add: h1_def) (simp add: block_new_def)
  moreover have "emplace_new t al (Some x) v h = (Inr (At a 0), touch_end (v\<lparr>hv_control := Some c3\<rparr>), h2)"
  proof -
    have "\<not> (hv_control v = None \<and> \<not> al_control al)" using al(2) by blast
    moreover have "\<not> (lim_min (hv_limits v) = 0 \<or> allocation_block_max t v < lim_min (hv_limits v) \<or> hive_capacity v > tr_max_size t \<or>
      lim_min (hv_limits v) > tr_max_size t - hive_capacity v)" using P by (auto simp: room_for_block_def Let_def)
    ultimately show ?thesis
      unfolding emplace_new_def Let_def al(1) option.case c_def [symmetric] n_def [symmetric] h1_def [symmetric] A(1) prod.case
        c3_def [symmetric] by (simp only: if_False simp_thms)
  qed
  ultimately show ?thesis using A(4) cc(2) by metis
qed

end
