(* ===== verification/Hive_Elements.thy ===== *)
theory Hive_Elements
  imports Hive_Invariant
begin

text \<open>
  What insertion, erasure and iteration do to the elements of a hive, stated over its cells:
  the positions with their values, in traversal order.
\<close>

section \<open>Insertion\<close>

lemma emplace_new_error:
  assumes "emplace_new t al x v h = (Inl e, v', h')"
  shows "v' = v \<and> h' = h \<and> (e = Ctor_throw \<longrightarrow> x = None)"
  using assms by (auto simp: emplace_new_def Let_def split: if_splits option.splits prod.splits)

lemma emplace_new_value:
  assumes "emplace_new t al x v h = (Inr p, v', h')"
  shows "(\<exists>y. x = Some y) \<and> room_for_block t v \<and> (\<exists>a. al_block al = Some a \<and> p = At a 0) \<and> (hv_control v = None \<longrightarrow> al_control al)"
  using assms by (auto simp: emplace_new_def room_for_block_def Let_def split: if_splits option.splits prod.splits)

lemma touch_end_simps [simp]:
  "hv_control (touch_end v) = hv_control v" "hv_limits (touch_end v) = hv_limits v"
  by (simp_all add: touch_end_def)

lemma hive_rep_touch [simp]: "hive_rep (touch_end v) h l \<longleftrightarrow> hive_rep v h l"
  by (simp add: hive_rep_def)

lemma hive_rep_owned: "hive_rep v h l \<longleftrightarrow>
   (case hv_control v of None \<Rightarrow> l = no_lists | Some c \<Rightarrow> ctl_rep c h l) \<and> (\<forall>a \<in> owned l. within (hv_limits v) (hb_capacity (h a)))"
  unfolding hive_rep_def owned_def no_lists_def by (rule refl)

text \<open>A block without room holds as many elements as it has slots.\<close>

lemma no_dead_width: "starts p xs = [] \<Longrightarrow> length (cells p xs) = width xs"
  by (induction p xs rule: cells.induct) auto

lemma full_block: "blk_rep b xs \<Longrightarrow> \<not> has_room b \<Longrightarrow> hb_live_count b = hb_capacity b"
  using has_room_full [of b xs] blk_rep_room [of b xs] no_dead_width [of 0 xs] by (auto simp: blk_rep_def)

lemma live_le_capacity: "blk_rep b xs \<Longrightarrow> hb_live_count b \<le> hb_capacity b"
proof -
  have "length (cells p xs) \<le> width xs" if "\<forall>n. Dead n \<in> set xs \<longrightarrow> 0 < n" for p
    using that by (induction p xs rule: cells.induct) (auto simp: trans_le_add2)
  moreover assume "blk_rep b xs"
  moreover have "segs_at sk sl p xs \<Longrightarrow> \<forall>n. Dead n \<in> set xs \<longrightarrow> 0 < n" for sk sl p
    by (induction sk sl p xs rule: segs_at.induct) auto
  ultimately show ?thesis by (auto simp: blk_rep_def) (metis order_trans)
qed

lemma full_hive:
  assumes H: "hive_rep v h l" and "ls_available l = []" "ls_reserved l = []"
  shows "hive_size v = hive_capacity v"
proof -
  note C = hive_rep_control [OF H]
  have K: "content_ok h l" "counts_ok (case hv_control v of None \<Rightarrow> control_new | Some c \<Rightarrow> c) h l"
    using C(1) by (simp_all add: ctl_rep_def)
  have "\<forall>a \<in> set (ls_active l). hb_live_count (h a) = hb_capacity (h a)"
    using K(1) assms(2) full_block by (fastforce simp: content_ok_def active_block_def)
  then have "map (\<lambda>a. hb_live_count (h a)) (ls_active l) = map (\<lambda>a. hb_capacity (h a)) (ls_active l)" by simp
  then show ?thesis using K(2) C(2,3) assms(3) unfolding counts_ok_def by (metis append_Nil2)
qed

lemma no_room_full_hive:
  assumes H: "hive_rep v h l" and n: "hv_control v = None \<or> (\<exists>c. hv_control v = Some c \<and> available_head c = None \<and> reserved_head c = None)"
  shows "hive_size v = hive_capacity v"
proof (cases "hv_control v")
  case None
  then show ?thesis by (simp add: hive_size_def hive_capacity_def)
next
  case (Some c)
  then have L: "links_ok c h l" using H by (auto simp: hive_rep_def ctl_rep_def)
  have "ls_available l = []" "ls_reserved l = []"
    using links_owned(3,6) [OF L] n Some by (auto simp: first_ptr_def split: list.splits)
  then show ?thesis using full_hive [OF H] by simp
qed

text \<open>
  The effect of \<open>emplace\<close>: a new cell between the old ones, or an exception that leaves the
  hive and its cells as they were.
\<close>

definition emplace_effect :: "allocs \<Rightarrow> 'v option \<Rightarrow> hive \<Rightarrow> 'v heap \<Rightarrow> lists \<Rightarrow> 'v hresult \<Rightarrow> bool" where
  "emplace_effect al x v h l res =
     (case res of
        (Inr p, v', h') \<Rightarrow> (\<exists>a i y l' xs ys. p = At a i \<and> x = Some y \<and> hive_rep v' h' l' \<and> hv_limits v' = hv_limits v \<and>
            owned l' \<subseteq> owned l \<union> set_option (al_block al) \<and>
            ls_cells h l = xs @ ys \<and> ls_cells h' l' = xs @ ((a, i), y) # ys)
      | (Inl e, v', h') \<Rightarrow> v' = v \<and> hive_rep v h' l \<and> ls_cells h' l = ls_cells h l \<and>
            (if e = Ctor_throw then x = None else hive_size v = hive_capacity v))"

lemma emplace_effect_ok:
  assumes r: "res = (Inr (At a i), touch_end (v\<lparr>hv_control := Some c'\<rparr>), h')" "ctl_rep c' h' l'"
    and "ls_cells h l = xs @ ys" "ls_cells h' l' = xs @ ((a, i), y) # ys"
    and "\<forall>a \<in> owned l'. within (hv_limits v) (hb_capacity (h' a))" "owned l' \<subseteq> owned l \<union> set_option (al_block al)"
  shows "emplace_effect al (Some y) v h l res"
  using assms by (auto simp: emplace_effect_def hive_rep_owned)

lemma emplace_effect_throw:
  assumes "hive_rep v h l" "hv_control v = Some c" "ctl_rep c h' l" "ls_cells h' l = ls_cells h l"
    "\<forall>y. hb_capacity (h' y) = hb_capacity (h y)"
  shows "emplace_effect al None v h l (Inl Ctor_throw, v, h')"
  using assms by (auto simp: emplace_effect_def hive_rep_owned)

lemma emplace_new_effect:
  assumes H: "hive_rep v h l" and f: "\<forall>a. al_block al = Some a \<longrightarrow> a \<notin> owned l" and F: "hive_size v = hive_capacity v"
  shows "emplace_effect al x v h l (emplace_new t al x v h)"
proof -
  obtain r v' h' where R: "emplace_new t al x v h = (r, v', h')" using prod_cases3 by blast
  show ?thesis
  proof (cases r)
    case (Inl e)
    then show ?thesis using emplace_new_error [OF R [unfolded Inl]] R H F by (simp add: emplace_effect_def)
  next
    case (Inr p)
    note V = emplace_new_value [OF R [unfolded Inr]]
    then obtain y a where x: "x = Some y" and a: "al_block al = Some a" by (elim conjE exE) simp
    have N: "x = Some y" "room_for_block t v" "al_block al = Some a" "hv_control v = None \<longrightarrow> al_control al"
      using x a V by simp_all
    have "a \<notin> owned l" using f N(3) by simp
    from emplace_new_ok [OF H N(2,3) N(4) [rule_format] this, of y] obtain c' h2 l' where
      E: "emplace_new t al (Some y) v h = (Inr (At a 0), touch_end (v\<lparr>hv_control := Some c'\<rparr>), h2)" "ctl_rep c' h2 l'"
      "ls_cells h2 l' = ls_cells h l @ [((a, 0), y)]" "owned l' = insert a (owned l)"
      "within (hv_limits v) (hb_capacity (h2 a))" "\<forall>y. y \<noteq> a \<longrightarrow> hb_capacity (h2 y) = hb_capacity (h y)" by blast
    have W: "\<forall>b \<in> owned l'. within (hv_limits v) (hb_capacity (h2 b))"
    proof
      fix b
      assume "b \<in> owned l'"
      then show "within (hv_limits v) (hb_capacity (h2 b))" using H E(4,5,6) by (cases "b = a") (auto simp: hive_rep_owned)
    qed
    show ?thesis unfolding N(1) by (rule emplace_effect_ok [OF E(1,2) _ _ W]) (use E(3,4) N(3) in auto)
  qed
qed

lemma emplace_correct:
  assumes H: "hive_rep v h l" and f: "\<forall>a. al_block al = Some a \<longrightarrow> a \<notin> owned l"
  shows "emplace_effect al x v h l (emplace t al x v h)"
proof (cases "hv_control v")
  case None
  then show ?thesis using emplace_new_effect [OF H f no_room_full_hive [OF H]] by (simp add: emplace_def)
next
  case (Some c)
  then have C: "ctl_rep c h l" and W: "\<forall>a \<in> owned l. within (hv_limits v) (hb_capacity (h a))" using H by (simp_all add: hive_rep_owned)
  show ?thesis
  proof (cases "available_head c")
    case a: (Some a)
    show ?thesis
    proof (cases x)
      case x: None
      from emplace_available_throw [OF C a, of v] show ?thesis
        using emplace_effect_throw [OF H Some] by (auto simp: emplace_def Some a x)
    next
      case x: (Some y)
      from emplace_available_ok [OF C a, of y v] obtain i c' h' l' xs ys where
        E: "emplace_available (Some y) a c v h = (Inr (At a i), touch_end (v\<lparr>hv_control := Some c'\<rparr>), h')" "ctl_rep c' h' l'"
        "ls_cells h l = xs @ ys" "ls_cells h' l' = xs @ ((a, i), y) # ys" "owned l' = owned l"
        "\<forall>y. hb_capacity (h' y) = hb_capacity (h y)" by blast
      have "\<forall>b \<in> owned l'. within (hv_limits v) (hb_capacity (h' b))" using W E(5,6) by simp
      from emplace_effect_ok [OF E(1-4) this] E(5) show ?thesis by (simp add: emplace_def Some a x)
    qed
  next
    case a: None
    show ?thesis
    proof (cases "reserved_head c")
      case r: None
      have "hive_size v = hive_capacity v" using no_room_full_hive [OF H] Some a r by blast
      from emplace_new_effect [OF H f this] show ?thesis by (simp add: emplace_def Some a r)
    next
      case r: (Some b)
      show ?thesis
      proof (cases x)
        case x: None
        from emplace_reserved_throw [OF C r, of v] show ?thesis
          using emplace_effect_throw [OF H Some] by (auto simp: emplace_def Some a r x)
      next
        case x: (Some y)
        from emplace_reserved_ok [OF C r, of y v] obtain c' h' l' where
          E: "emplace_reserved (Some y) b c v h = (Inr (At b 0), touch_end (v\<lparr>hv_control := Some c'\<rparr>), h')" "ctl_rep c' h' l'"
          "ls_cells h' l' = ls_cells h l @ [((b, 0), y)]" "owned l' = owned l"
          "\<forall>y. hb_capacity (h' y) = hb_capacity (h y)" by blast
        have W': "\<forall>b \<in> owned l'. within (hv_limits v) (hb_capacity (h' b))" using W E(4,5) by simp
        have "emplace_effect al (Some y) v h l (emplace_reserved (Some y) b c v h)"
          by (rule emplace_effect_ok [OF E(1,2) _ _ W']) (use E(3,4) in auto)
        then show ?thesis by (simp add: emplace_def Some a r x)
      qed
    qed
  qed
qed

section \<open>Positions\<close>

lemma concat_map_split:
  "concat (map f as) = xs @ c # ys \<Longrightarrow>
   \<exists>ps a qs us ws. as = ps @ a # qs \<and> f a = us @ c # ws \<and> xs = concat (map f ps) @ us \<and> ys = ws @ concat (map f qs)"
proof (induction as arbitrary: xs)
  case (Cons a as)
  then have e: "f a @ concat (map f as) = xs @ c # ys" by simp
  then consider (here) us ws where "f a = us @ c # ws" "xs = us" "ys = ws @ concat (map f as)"
    | (later) us where "xs = f a @ us" "concat (map f as) = us @ c # ys"
    by (auto simp: append_eq_append_conv2 append_eq_Cons_conv Cons_eq_append_conv)
  then show ?case
  proof cases
    case here
    then show ?thesis by (intro exI [of _ "[]"] exI [of _ a] exI [of _ as] exI [of _ us] exI [of _ ws]) simp
  next
    case later
    from Cons.IH [OF later(2)] obtain ps b qs us' ws where
      "as = ps @ b # qs" "f b = us' @ c # ws" "us = concat (map f ps) @ us'" "ys = ws @ concat (map f qs)" by blast
    then show ?thesis using later(1)
      by (intro exI [of _ "a # ps"] exI [of _ b] exI [of _ qs] exI [of _ us'] exI [of _ ws]) simp
  qed
qed simp

lemma cells_split:
  "cells p zs = us @ (i, v) # ws \<Longrightarrow>
   \<exists>as bs. zs = as @ Live v # bs \<and> i = p + width as \<and> us = cells p as \<and> ws = cells (i + 1) bs"
proof (induction p zs arbitrary: us rule: cells.induct)
  case (2 p w zs)
  show ?case
  proof (cases us)
    case Nil
    then have "Live w # zs = [] @ Live v # zs \<and> i = p + width [] \<and> us = cells p [] \<and> ws = cells (i + 1) zs" using 2(2) by auto
    then show ?thesis by blast
  next
    case (Cons u us')
    then have "cells (p + 1) zs = us' @ (i, v) # ws" "u = (p, w)" using 2(2) by auto
    from 2(1) [OF this(1)] obtain as bs where
      "zs = as @ Live v # bs" "i = p + 1 + width as" "us' = cells (p + 1) as" "ws = cells (i + 1) bs" by blast
    then show ?thesis using \<open>u = (p, w)\<close> Cons by (intro exI [of _ "Live w # as"] exI [of _ bs]) simp
  qed
next
  case (3 p n zs)
  then have "cells (p + n) zs = us @ (i, v) # ws" by simp
  from 3(1) [OF this] obtain as bs where
    "zs = as @ Live v # bs" "i = p + n + width as" "us = cells (p + n) as" "ws = cells (i + 1) bs" by blast
  then show ?case by (intro exI [of _ "Dead n # as"] exI [of _ bs]) simp
qed simp

text \<open>A cell of a hive: its block in the active list and its segment in the block.\<close>

lemma cell_context:
  assumes K: "content_ok h l" and c: "ls_cells h l = xs @ ((a, i), v) # ys"
  obtains ps qs as bs where "ls_active l = ps @ a # qs" "blk_rep (h a) (as @ Live v # bs)" "i = width as"
    "xs = concat (map (cells_at h) ps) @ map (\<lambda>(i, x). ((a, i), x)) (cells 0 as)"
    "ys = map (\<lambda>(i, x). ((a, i), x)) (cells (i + 1) bs) @ concat (map (cells_at h) qs)"
proof -
  from concat_map_split [OF c [unfolded ls_cells_def]] obtain ps b qs us ws where
    d: "ls_active l = ps @ b # qs" "cells_at h b = us @ ((a, i), v) # ws" "xs = concat (map (cells_at h) ps) @ us"
    "ys = ws @ concat (map (cells_at h) qs)" by blast
  obtain zs where z: "blk_rep (h b) zs" using K d(1) by (auto simp: content_ok_def active_block_def)
  from d(2) obtain us' j w ws' where e: "cells 0 zs = us' @ (j, w) # ws'" "us = map (\<lambda>(i, x). ((b, i), x)) us'"
    "((a, i), v) = ((b, j), w)" "ws = map (\<lambda>(i, x). ((b, i), x)) ws'"
    using blk_cells_rep [OF z] by (auto simp: cells_at_def map_eq_append_conv map_eq_Cons_conv)
  from cells_split [OF e(1)] obtain as bs where "zs = as @ Live w # bs" "j = 0 + width as" "us' = cells 0 as" "ws' = cells (j + 1) bs"
    by blast
  then show ?thesis using that [of ps qs as bs] d e z by simp
qed

text \<open>The first and the last cell of an active block.\<close>

lemma block_first:
  assumes "active_block b"
  shows "\<exists>x cs. blk_cells b = (hb_skip b 0, x) # cs"
proof -
  from assms obtain zs where z: "blk_rep b zs" "zs \<noteq> []" by (auto simp: active_block_def)
  have "segs_at (hb_skip b) (hb_slots b) 0 zs" "segs_wf zs" using z(1) by (simp_all add: blk_rep_def)
  from first_cell [OF this z(2)] show ?thesis using blk_cells_rep [OF z(1)] by fastforce
qed

lemma block_last:
  assumes "active_block b"
  shows "\<exists>x cs. blk_cells b = cs @ [(hb_high_water b - 1, x)]"
proof -
  from assms obtain zs where z: "blk_rep b zs" "zs \<noteq> []" by (auto simp: active_block_def)
  have "is_live (last zs)" using z by (simp add: blk_rep_def segs_wf_def)
  then obtain x ys where ys: "zs = ys @ [Live x]" using z(2) by (cases zs rule: rev_cases) (auto elim: is_live.elims)
  then have "hb_high_water b = width ys + 1" using z(1) by (simp add: blk_rep_def)
  then show ?thesis using blk_cells_rep [OF z(1)] ys by simp
qed

section \<open>Iteration\<close>

text \<open>The iterator to the first of some cells, and to the last.\<close>

definition first_iter :: "iter \<Rightarrow> ((addr \<times> nat) \<times> 'v) list \<Rightarrow> iter" where
  "first_iter e cs = (case cs of [] \<Rightarrow> e | ((a, i), _) # _ \<Rightarrow> At a i)"

definition last_iter :: "iter \<Rightarrow> ((addr \<times> nat) \<times> 'v) list \<Rightarrow> iter" where
  "last_iter e cs = first_iter e (rev cs)"

lemma first_iter_simps [simp]:
  "first_iter e [] = e" "first_iter e (((a, i), x) # cs) = At a i" "last_iter e [] = e" "last_iter e (cs @ [((a, i), x)]) = At a i"
  by (simp_all add: first_iter_def last_iter_def)

lemma first_iter_append: "cs \<noteq> [] \<Longrightarrow> first_iter e (cs @ ds) = first_iter e cs"
  by (cases cs) (auto simp: first_iter_def)

lemma last_iter_append: "ds \<noteq> [] \<Longrightarrow> last_iter e (cs @ ds) = last_iter e ds"
  by (simp add: last_iter_def first_iter_append)

lemma cells_at_first: "active_block (h a) \<Longrightarrow> first_iter e (cells_at h a @ cs) = At a (hb_skip (h a) 0)"
  using block_first [of "h a"] by (auto simp: cells_at_def)

lemma cells_at_last: "active_block (h a) \<Longrightarrow> last_iter e (cs @ cells_at h a) = At a (hb_high_water (h a) - 1)"
  using block_last [of "h a"] by (auto simp: cells_at_def append_assoc [symmetric] simp del: append_assoc)

lemma hive_begin_first: "hive_rep v h l \<Longrightarrow> hive_begin v h = first_iter (hive_end v) (ls_cells h l)"
proof (cases "hv_control v")
  case None
  then show "hive_rep v h l \<Longrightarrow> ?thesis" by (simp add: hive_rep_owned hive_begin_def no_lists_def ls_cells_def)
next
  case (Some c)
  assume "hive_rep v h l"
  then have L: "links_ok c h l" and K: "content_ok h l" using Some by (auto simp: hive_rep_def ctl_rep_def)
  show ?thesis
  proof (cases "ls_active l")
    case Nil
    then show ?thesis using links_owned(4) [OF L] Some by (simp add: hive_begin_def ls_cells_def)
  next
    case (Cons a qs)
    then have "active_block (h a)" using K by (simp add: content_ok_def)
    then show ?thesis using links_owned(4) [OF L] Some Cons cells_at_first [of h a] by (simp add: hive_begin_def ls_cells_def)
  qed
qed

lemma act_at:
  assumes "links_ok c h l" "ls_active l = ps @ a # qs"
  shows "hb_active_prev (h a) = last_ptr None ps" "hb_active_next (h a) = first_ptr qs None"
  using assms act.dll_at [of h "active_head c" ps a qs] by (auto simp: links_ok_def lists_rep_def)

lemma iter_next_cell:
  assumes C: "ctl_rep c h l" and c: "ls_cells h l = xs @ ((a, i), x) # ys"
  shows "iter_next v h (At a i) = first_iter (hive_end v) ys"
proof -
  have L: "links_ok c h l" and K: "content_ok h l" using C by (simp_all add: ctl_rep_def)
  obtain ps qs as bs where d: "ls_active l = ps @ a # qs" "blk_rep (h a) (as @ Live x # bs)" "i = width as"
    "xs = concat (map (cells_at h) ps) @ map (\<lambda>(i, x). ((a, i), x)) (cells 0 as)"
    "ys = map (\<lambda>(i, x). ((a, i), x)) (cells (i + 1) bs) @ concat (map (cells_at h) qs)"
    using cell_context [OF K c] by blast
  note N = next_index_rep [OF d(2), folded d(3)]
  show ?thesis
  proof (cases "cells (i + 1) bs")
    case (Cons p cs)
    then show ?thesis using N d(5) by (cases p) simp
  next
    case Nil
    then have ys: "ys = concat (map (cells_at h) qs)" and n: "next_index (h a) i = None" using N d(5) by simp_all
    show ?thesis
    proof (cases qs)
      case q: Nil
      then show ?thesis using n ys act_at(2) [OF L d(1)] by simp
    next
      case q: (Cons b rs)
      then have "active_block (h b)" using K d(1) by (simp add: content_ok_def)
      then show ?thesis using n ys act_at(2) [OF L d(1)] q cells_at_first [of h b] by simp
    qed
  qed
qed

lemma iter_prev_cell:
  assumes C: "ctl_rep c h l" and c: "ls_cells h l = xs @ ((a, i), x) # ys"
  shows "iter_prev v h (At a i) = last_iter (At a i) xs"
proof -
  have L: "links_ok c h l" and K: "content_ok h l" using C by (simp_all add: ctl_rep_def)
  obtain ps qs as bs where d: "ls_active l = ps @ a # qs" "blk_rep (h a) (as @ Live x # bs)" "i = width as"
    "xs = concat (map (cells_at h) ps) @ map (\<lambda>(i, x). ((a, i), x)) (cells 0 as)"
    "ys = map (\<lambda>(i, x). ((a, i), x)) (cells (i + 1) bs) @ concat (map (cells_at h) qs)"
    using cell_context [OF K c] by blast
  note P = prev_index_rep [OF d(2), folded d(3)]
  show ?thesis
  proof (cases "cells 0 as" rule: rev_cases)
    case (snoc cs p)
    then show ?thesis using P d(4) last_iter_append [of "[((a, fst p), snd p)]" "At a i" "concat (map (cells_at h) ps) @ map (\<lambda>(i, x). ((a, i), x)) cs"]
      by (cases p) (simp add: last_iter_def)
  next
    case Nil
    then have xs: "xs = concat (map (cells_at h) ps)" and n: "prev_index (h a) i = None" using P d(4) by simp_all
    show ?thesis
    proof (cases ps rule: rev_cases)
      case q: Nil
      then show ?thesis using n xs act_at(1) [OF L d(1)] by simp
    next
      case q: (snoc rs b)
      then have "active_block (h b)" using K d(1) by (simp add: content_ok_def)
      then show ?thesis using n xs act_at(1) [OF L d(1)] q cells_at_last [of h b] by simp
    qed
  qed
qed

lemma iter_prev_end:
  assumes C: "ctl_rep c h l" "hv_control v = Some c"
  shows "iter_prev v h (End e) = last_iter (End e) (ls_cells h l)"
proof (cases "ls_active l" rule: rev_cases)
  have L: "links_ok c h l" and K: "content_ok h l" using C by (simp_all add: ctl_rep_def)
  {
    case Nil
    then show ?thesis using links_owned(5) [OF L] C(2) by (simp add: ls_cells_def)
  next
    case (snoc ps a)
    then have "active_block (h a)" using K by (simp add: content_ok_def)
    then show ?thesis using links_owned(5) [OF L] C(2) snoc cells_at_last [of h a] by (simp add: ls_cells_def)
  }
qed

section \<open>Erasure\<close>

lemma retire_links:
  assumes L: "links_ok c h l" and ap: "ls_active l = ps @ a # qs"
  shows "\<exists>c' h' l'. retire a c h = (c', h') \<and> links_ok c' h' l' \<and> ls_active l' = ps @ qs \<and>
    ls_available l' = filter (\<lambda>x. x \<noteq> a) (ls_available l) \<and> ls_reserved l' = a # ls_reserved l \<and>
    (\<forall>y. content (h' y) = content (if y = a then reset_vacant_block (h a) else h y)) \<and>
    hc_size c' = hc_size c \<and> hc_capacity c' = hc_capacity c"
proof -
  obtain c1 h1 where R1: "available_remove a c h = (c1, h1)" by fastforce
  note A = links_available_remove [OF R1 L, unfolded ap]
  define l1 where "l1 = l\<lparr>ls_available := filter (\<lambda>x. x \<noteq> a) (ls_available l)\<rparr>"
  have L1: "links_ok c1 h1 l1" using A(1) by (simp add: l1_def)
  obtain c2 h2 where R2: "active_remove a c1 h1 = (c2, h2)" by fastforce
  have "ls_active l1 = ps @ a # qs" "a \<notin> set (ls_available l1)" using ap by (simp_all add: l1_def)
  note B = links_active_remove [OF R2 L1 this]
  define l2 where "l2 = l1\<lparr>ls_active := ps @ qs\<rparr>"
  define b where "b = (reset_vacant_block (h2 a))\<lparr>hb_reserved_next := reserved_head c2\<rparr>"
  have "a \<notin> set (ls_active l2 @ ls_reserved l2)"
    using links_owned(2) [OF L] ap by (auto simp: l2_def l1_def)
  moreover have "hb_reserved_next b = reserved_head c2" "\<not> hb_active b" "\<not> hb_in_available b"
    using B(4,5) by (simp_all add: b_def reset_vacant_block_def)
  ultimately have L3: "links_ok (c2\<lparr>reserved_head := Some a\<rparr>) (h2(a := b)) (l2\<lparr>ls_reserved := a # ls_reserved l2\<rparr>)"
    using links_reserve [OF B(1) [folded l2_def]] by blast
  have "content (h2 y) = content (h y)" for y using A(3) B(3) by simp
  then have "\<forall>y. content ((h2(a := b)) y) = content (if y = a then reset_vacant_block (h a) else h y)"
    by (simp add: b_def content_def reset_vacant_block_def)
  moreover have "retire a c h = (c2\<lparr>reserved_head := Some a\<rparr>, h2(a := b))"
    by (simp add: retire_def R1 R2 b_def)
  moreover have "hc_size c2 = hc_size c \<and> hc_capacity c2 = hc_capacity c" using A(2) B(2) by auto
  ultimately show ?thesis using L3 by (fastforce simp: l2_def l1_def)
qed

text \<open>The lists after the slot is erased: the block is retired, becomes available or stays available.\<close>

lemma erase_lists:
  assumes L: "links_ok c h l" and K: "content_ok h l" and ap: "ls_active l = ps @ a # qs"
    and B: "blk_rep (h a) (as @ Live x # bs)" and i: "i = width as"
    and h1: "h1 = h(a := erase_slot i (h a))"
    and r: "(if hb_live_count (h1 a) = 0 then retire a c h1 else if \<not> hb_in_available (h1 a) then available_add a c h1 else (c, h1)) = (c', h')"
  shows "\<exists>l'. links_ok c' h' l' \<and> content_ok h' l' \<and> hc_size c' = hc_size c \<and> hc_capacity c' = hc_capacity c \<and>
    ls_active l' = (if erase_segs as bs = [] then ps @ qs else ls_active l) \<and>
    ls_reserved l' = (if erase_segs as bs = [] then a # ls_reserved l else ls_reserved l) \<and>
    (\<forall>y. y \<noteq> a \<longrightarrow> content (h' y) = content (h y)) \<and> hb_capacity (h' a) = hb_capacity (h a) \<and>
    (erase_segs as bs \<noteq> [] \<longrightarrow> content (h' a) = content (erase_slot i (h a)))"
proof -
  define b where "b = erase_slot i (h a)"
  have Bb: "blk_rep b (erase_segs as bs)" unfolding b_def by (rule erase_slot_rep [OF B i])
  then have wf: "segs_wf (erase_segs as bs)" and lc: "hb_live_count b = length (cells 0 (erase_segs as bs))" by (simp_all add: blk_rep_def)
  then have z: "hb_live_count b = 0 \<longleftrightarrow> erase_segs as bs = []" using cells_empty by simp
  have F: "links b = links (h a)" "hb_capacity b = hb_capacity (h a)" by (simp_all add: b_def)
  have d: "distinct (ps @ a # qs)" "a \<notin> set (ls_reserved l)" "a \<notin> set (ps @ qs)" using links_owned(2) [OF L] ap by auto
  have L1: "links_ok c h1 l" using L F by (subst links_cong [of _ _ h]) (auto simp: h1 b_def)
  have I: "hb_in_available b \<longleftrightarrow> a \<in> set (ls_available l)"
    using L F(1) ap by (auto simp: links_ok_def flags_ok_def links_def)
  have h1a: "h1 a = b" "\<And>y. y \<noteq> a \<Longrightarrow> h1 y = h y" by (simp_all add: h1 b_def)
  show ?thesis
  proof (cases "erase_segs as bs = []")
    case True
    from retire_links [OF L1 ap] r obtain l' where l': "links_ok c' h' l'" "ls_active l' = ps @ qs"
      "ls_available l' = filter (\<lambda>x. x \<noteq> a) (ls_available l)" "ls_reserved l' = a # ls_reserved l"
      "\<forall>y. content (h' y) = content (if y = a then reset_vacant_block (h1 a) else h1 y)"
      "hc_size c' = hc_size c" "hc_capacity c' = hc_capacity c" using True z h1a(1) by auto
    have cx: "\<forall>y. y \<noteq> a \<longrightarrow> content (h' y) = content (h y)" using l'(5) h1a(2) by simp
    have ca: "content (h' a) = content (reset_vacant_block b)" using l'(5) h1a(1) by simp
    then have "blk_rep (h' a) []" "hb_capacity (h' a) = hb_capacity (h a)"
      using Bb True F(2) by (simp_all add: blk_rep_content [OF ca]) (simp_all add: blk_rep_vacant content_def reset_vacant_block_def)
    moreover have "\<forall>y \<in> set (ps @ qs). active_block (h' y) \<and> (has_room (h' y) \<longleftrightarrow> has_room (h y))"
      using K ap d(3) cx content_fields(1,3) unfolding content_ok_def by (metis in_set_conv_decomp Un_iff set_append append_Cons)
    moreover have "\<forall>y \<in> set (ls_reserved l). blk_rep (h' y) []"
      using K d(2) cx blk_rep_content unfolding content_ok_def by metis
    ultimately have "content_ok h' l'"
      using K ap d by (auto simp: content_ok_def l')
    then show ?thesis using l' cx True \<open>hb_capacity (h' a) = _\<close> by (intro exI [of _ l']) auto
  next
    case False
    have "hb_live_count b < hb_capacity b"
      using lc live_le_capacity [OF B] B F(2) by (simp add: cells_erase blk_rep_def i)
    then have room: "has_room b" using full_block [OF Bb] by fastforce
    define l' where "l' = (if a \<in> set (ls_available l) then l else l\<lparr>ls_available := a # ls_available l\<rparr>)"
    have step: "links_ok c' h' l' \<and> (\<forall>y. content (h' y) = content (h1 y)) \<and> hc_size c' = hc_size c \<and> hc_capacity c' = hc_capacity c"
    proof (cases "a \<in> set (ls_available l)")
      case True
      then show ?thesis using r False z L1 I h1a(1) by (simp add: l'_def)
    next
      case n: False
      then have "available_add a c h1 = (c', h')" using r False z I h1a(1) by simp
      from links_available_add [OF this L1 _ n] show ?thesis using ap n by (simp add: l'_def)
    qed
    then have cx: "\<forall>y. y \<noteq> a \<longrightarrow> content (h' y) = content (h y)" and ca: "content (h' a) = content b" using h1a by simp_all
    have "content_ok h' l'"
      by (rule content_ok_upd [OF K ap d(1,2) cx]) (use room False Bb content_fields [OF ca] in \<open>auto simp: l'_def active_block_def\<close>)
    then show ?thesis using step cx ca False F(2) content_fields(4) [OF ca]
      by (intro exI [of _ l']) (auto simp: l'_def b_def)
  qed
qed

lemma erase_correct:
  assumes H: "hive_rep v h l" and c: "ls_cells h l = xs @ ((a, i), x) # ys" and r: "erase_at a i v h = (p, v', h')"
  shows "\<exists>l'. hive_rep v' h' l' \<and> ls_cells h' l' = xs @ ys \<and> owned l' = owned l \<and> hive_capacity v' = hive_capacity v" (is ?ok)
    and "p = first_iter (hive_end v') ys"
proof -
  obtain ctl where V: "hv_control v = Some ctl"
    using H c by (cases "hv_control v") (auto simp: hive_rep_owned no_lists_def ls_cells_def)
  then have C: "ctl_rep ctl h l" and W: "\<forall>a \<in> owned l. within (hv_limits v) (hb_capacity (h a))" using H by (simp_all add: hive_rep_owned)
  then have L: "links_ok ctl h l" and K: "content_ok h l" and S: "hc_size ctl = length (ls_cells h l)"
    and N: "hc_capacity ctl = sum_list (map (\<lambda>a. hb_capacity (h a)) (ls_active l @ ls_reserved l))"
    by (auto elim: ctl_repE)
  obtain ps qs as bs where d: "ls_active l = ps @ a # qs" "blk_rep (h a) (as @ Live x # bs)" "i = width as"
    "xs = concat (map (cells_at h) ps) @ map (\<lambda>(i, x). ((a, i), x)) (cells 0 as)"
    "ys = map (\<lambda>(i, x). ((a, i), x)) (cells (i + 1) bs) @ concat (map (cells_at h) qs)"
    using cell_context [OF K c] by blast
  define c1 where "c1 = ctl\<lparr>hc_size := hc_size ctl - 1\<rparr>"
  define h1 where "h1 = h(a := erase_slot i (h a))"
  obtain c2 h2 where R: "(if hb_live_count (h1 a) = 0 then retire a c1 h1 else if \<not> hb_in_available (h1 a) then available_add a c1 h1 else (c1, h1)) = (c2, h2)"
    by fastforce
  have L1: "links_ok c1 h l" using L by (simp add: c1_def)
  from erase_lists [OF L1 K d(1-3) h1_def R] obtain l' where
    E: "links_ok c2 h2 l'" "content_ok h2 l'" "hc_size c2 = hc_size c1" "hc_capacity c2 = hc_capacity c1"
    "ls_active l' = (if erase_segs as bs = [] then ps @ qs else ls_active l)"
    "ls_reserved l' = (if erase_segs as bs = [] then a # ls_reserved l else ls_reserved l)"
    "\<forall>y. y \<noteq> a \<longrightarrow> content (h2 y) = content (h y)" "hb_capacity (h2 a) = hb_capacity (h a)"
    "erase_segs as bs \<noteq> [] \<longrightarrow> content (h2 a) = content (erase_slot i (h a))" by blast
  have cap: "\<forall>y. hb_capacity (h2 y) = hb_capacity (h y)" using E(7,8) content_fields(4) by metis
  have dis: "a \<notin> set (ps @ qs)" using links_owned(2) [OF L] d(1) by auto
  have pq: "\<forall>y \<in> set (ps @ qs). content (h2 y) = content (h y)" using E(7) dis by metis
  have cells: "ls_cells h2 l' = xs @ ys"
  proof (cases "erase_segs as bs = []")
    case True
    have m: "map (cells_at h2) (ps @ qs) = map (cells_at h) (ps @ qs)"
      using pq content_fields(2) unfolding cells_at_def by (intro map_cong) auto
    have "cells 0 as = []" "cells (i + 1) bs = []" "ls_active l' = ps @ qs"
      using cells_erase [of as bs] True d(3) E(5) by simp_all
    then show ?thesis using d(4,5) unfolding ls_cells_def by (simp only: m) simp
  next
    case False
    then have "ls_active l' = ps @ a # qs" "content (h2 a) = content (erase_slot i (h a))" using E(5,9) d(1) by simp_all
    then show ?thesis
      using ls_cells_split(2) [OF d(1) pq] content_fields(2) [of "h2 a"] blk_cells_rep [OF erase_slot_rep [OF d(2,3)]] d(3,4,5)
      by (simp add: cells_at_def cells_erase)
  qed
  have "ctl_rep c2 h2 l'"
  proof (rule ctl_repI [OF E(1,2)])
    show "hc_size c2 = length (ls_cells h2 l')" using E(3) S c cells by (simp add: c1_def)
    show "hc_capacity c2 = sum_list (map (\<lambda>a. hb_capacity (h2 a)) (ls_active l' @ ls_reserved l'))"
      using E(4,5,6) N cap d(1) by (simp add: c1_def)
  qed
  moreover have O: "owned l' = owned l" using E(5,6) d(1) by (auto simp: owned_def)
  ultimately have rep: "hive_rep (v\<lparr>hv_control := Some c2\<rparr>) h2 l'" using W cap by (simp add: hive_rep_owned)
  have q: "hive_capacity (v\<lparr>hv_control := Some c2\<rparr>) = hive_capacity v" using E(4) V by (simp add: hive_capacity_def c1_def)
  have T: "erase_at a i v h = (case first_iter (hive_end v) ys of
       End e \<Rightarrow> (hive_end (touch_end (v\<lparr>hv_control := Some c2\<rparr>)), touch_end (v\<lparr>hv_control := Some c2\<rparr>), h2)
     | At s j \<Rightarrow> (At s j, v\<lparr>hv_control := Some c2\<rparr>, h2))"
    unfolding erase_at_def Let_def iter_next_cell [OF C c] V option.sel c1_def [symmetric] h1_def [symmetric] R prod.case ..
  show ?ok
  proof (cases "first_iter (hive_end v) ys")
    case (At s j)
    then have "v' = v\<lparr>hv_control := Some c2\<rparr>" "h' = h2" using r T by simp_all
    then show ?thesis using rep cells O q by blast
  next
    case (End e)
    then have "v' = touch_end (v\<lparr>hv_control := Some c2\<rparr>)" "h' = h2" using r T by simp_all
    moreover have "hive_capacity (touch_end w) = hive_capacity w" for w by (simp add: hive_capacity_def)
    ultimately show ?thesis using rep cells O q hive_rep_touch by metis
  qed
  show "p = first_iter (hive_end v') ys"
    using r T by (cases ys) (auto simp: hive_end_def first_iter_def split: prod.splits)
qed

end
