(* ===== verification/Hive_Run.thy ===== *)
theory Hive_Run
  imports Hive_Elements "HOL-Library.Code_Target_Nat"
begin

text \<open>
  Programs over one hive: sequences of insertions and erasures.  The abstract view is the
  list of cells; every command changes it by at most one cell, and all other elements keep
  their positions and values.
\<close>

section \<open>Walking a hive\<close>

definition hive_positions :: "hive \<Rightarrow> 'v heap \<Rightarrow> iter list" where
  "hive_positions v h = map (\<lambda>n. (iter_next v h ^^ n) (hive_begin v h)) [0 ..< hive_size v]"

definition cell_iter :: "(addr \<times> nat) \<times> 'v \<Rightarrow> iter" where
  "cell_iter c = At (fst (fst c)) (snd (fst c))"

lemma first_iter_cell: "first_iter e cs = (case cs of [] \<Rightarrow> e | c # _ \<Rightarrow> cell_iter c)"
  by (cases cs) (auto simp: cell_iter_def)

lemma last_iter_cell: "last_iter e cs = (if cs = [] then e else cell_iter (last cs))"
  by (cases cs rule: rev_cases) (auto simp: last_iter_def first_iter_cell)

lemma hive_size_cells: "hive_rep v h l \<Longrightarrow> hive_size v = length (ls_cells h l)"
  using hive_rep_control [of v h l] by (auto elim: ctl_repE)

lemma walk_forward:
  assumes H: "hive_rep v h l"
  shows "(iter_next v h ^^ n) (hive_begin v h) = first_iter (hive_end v) (drop n (ls_cells h l))"
proof (induction n)
  case 0
  then show ?case using hive_begin_first [OF H] by simp
next
  case (Suc n)
  note C = hive_rep_control(1) [OF H]
  show ?case
  proof (cases "n < length (ls_cells h l)")
    case True
    obtain a i x where c: "ls_cells h l ! n = ((a, i), x)" by (metis surj_pair)
    have e: "ls_cells h l = take n (ls_cells h l) @ ((a, i), x) # drop (Suc n) (ls_cells h l)"
      using id_take_nth_drop [OF True] c by simp
    have "drop n (ls_cells h l) = ((a, i), x) # drop (Suc n) (ls_cells h l)" using Cons_nth_drop_Suc [OF True] c by simp
    then show ?thesis using Suc iter_next_cell [OF C e] by simp
  next
    case False
    then show ?thesis using Suc by (simp add: hive_end_def)
  qed
qed

lemma hive_positions_cells:
  assumes H: "hive_rep v h l"
  shows "hive_positions v h = map cell_iter (ls_cells h l)"
proof (rule nth_equalityI)
  show "length (hive_positions v h) = length (map cell_iter (ls_cells h l))"
    by (simp add: hive_positions_def hive_size_cells [OF H])
  fix n
  assume "n < length (hive_positions v h)"
  then have n: "n < length (ls_cells h l)" by (simp add: hive_positions_def hive_size_cells [OF H])
  then have "hive_positions v h ! n = (iter_next v h ^^ n) (hive_begin v h)"
    by (simp add: hive_positions_def hive_size_cells [OF H])
  also have "\<dots> = cell_iter (ls_cells h l ! n)"
    using n by (simp add: walk_forward [OF H] first_iter_cell Cons_nth_drop_Suc [symmetric])
  finally show "hive_positions v h ! n = map cell_iter (ls_cells h l) ! n" using n by simp
qed

lemma walk_backward:
  assumes H: "hive_rep v h l"
  shows "n < hive_size v \<Longrightarrow> (iter_prev v h ^^ Suc n) (hive_end v) = hive_positions v h ! (hive_size v - Suc n)"
proof (induction n)
  note s = hive_size_cells [OF H]
  note p = hive_positions_cells [OF H]
  {
    case 0
    then obtain c where V: "hv_control v = Some c" by (cases "hv_control v") (auto simp: hive_size_def)
    then have C: "ctl_rep c h l" using H by (simp add: hive_rep_owned)
    show ?case using 0 s p iter_prev_end [OF C V]
      by (simp add: hive_end_def last_iter_cell last_conv_nth)
  next
    case (Suc n)
    note C = hive_rep_control(1) [OF H]
    define k where "k = hive_size v - Suc n"
    have k: "0 < k" "k < length (ls_cells h l)" "hive_size v - Suc (Suc n) = k - 1" using Suc.prems s by (auto simp: k_def)
    obtain a i x where c: "ls_cells h l ! k = ((a, i), x)" by (metis surj_pair)
    have e: "ls_cells h l = take k (ls_cells h l) @ ((a, i), x) # drop (Suc k) (ls_cells h l)"
      using id_take_nth_drop [OF k(2)] c by simp
    have "(iter_prev v h ^^ Suc n) (hive_end v) = At a i"
      using Suc p c k by (simp add: k_def [symmetric] cell_iter_def)
    then have "(iter_prev v h ^^ Suc (Suc n)) (hive_end v) = last_iter (At a i) (take k (ls_cells h l))"
      using iter_prev_cell [OF C e] by simp
    also have "\<dots> = cell_iter (ls_cells h l ! (k - 1))"
    proof -
      have "take k (ls_cells h l) = take (k - 1) (ls_cells h l) @ [ls_cells h l ! (k - 1)]"
        using k take_Suc_conv_app_nth [of "k - 1" "ls_cells h l"] by simp
      then show ?thesis using k by (simp add: last_iter_cell)
    qed
    finally show ?case using p k by simp
  }
qed

section \<open>Positions are distinct\<close>

lemma cells_sorted: "segs_at sk sl p xs \<Longrightarrow> sorted_wrt (<) (map fst (cells p xs)) \<and> (\<forall>c \<in> set (cells p xs). p \<le> fst c)"
  by (induction sk sl p xs rule: segs_at.induct) fastforce+

lemma cells_at_fst: "map fst (cells_at h a) = map (Pair a) (map fst (blk_cells (h a)))"
  by (simp add: cells_at_def o_def case_prod_beta)

lemma distinct_blk_cells: "blk_rep b xs \<Longrightarrow> distinct (map fst (blk_cells b))"
  using cells_sorted [of "hb_skip b" "hb_slots b" 0 xs] blk_cells_rep [of b xs]
  by (auto simp: blk_rep_def strict_sorted_iff)

lemma distinct_positions:
  assumes "content_ok h l" "distinct (ls_active l)"
  shows "distinct (map fst (ls_cells h l))"
proof -
  have "\<forall>a \<in> set as. active_block (h a) \<Longrightarrow> distinct as \<Longrightarrow> distinct (map fst (concat (map (cells_at h) as)))" for as
  proof (induction as)
    case (Cons a as)
    then have "distinct (map fst (cells_at h a))"
      using distinct_blk_cells by (auto simp: active_block_def cells_at_fst distinct_map inj_on_def)
    moreover have "set (map fst (cells_at h a)) \<inter> set (map fst (concat (map (cells_at h) as))) = {}"
      using Cons.prems(2) by (auto simp: cells_at_def)
    ultimately show ?case using Cons by simp
  qed simp
  then show ?thesis using assms by (auto simp: ls_cells_def content_ok_def)
qed

section \<open>Programs\<close>

definition hive_make :: "traits \<Rightarrow> limits \<Rightarrow> hexn + hive" where
  "hive_make t lim =
     (if is_within_hard_limits t lim then Inr \<lparr>hv_limits = lim, hv_control = None, hv_epoch = 0\<rparr> else Inl Length_error)"

text \<open>
  A command with what the allocator and the element's constructor do in it.  The state
  includes the addresses in use, from which the allocator does not choose; \<open>erase\<close> is only
  called with the position of an element.
\<close>

datatype 'v hcmd = Emplace allocs "'v option" | Erase addr nat

type_synonym 'v hstate = "hive \<times> 'v heap \<times> addr set"

fun hive_step :: "traits \<Rightarrow> 'v hcmd \<Rightarrow> 'v hstate \<Rightarrow> 'v hstate option" where
  "hive_step t (Emplace al x) (v, h, A) =
     (if (case al_block al of None \<Rightarrow> False | Some a \<Rightarrow> a \<in> A) then None
      else case emplace t al x v h of (_, v', h') \<Rightarrow> Some (v', h', A \<union> set_option (al_block al)))"
| "hive_step t (Erase a i) (v, h, A) =
     (if At a i \<in> set (hive_positions v h) then (case erase_at a i v h of (_, v', h') \<Rightarrow> Some (v', h', A)) else None)"

fun hive_run :: "traits \<Rightarrow> 'v hcmd list \<Rightarrow> 'v hstate \<Rightarrow> 'v hstate option" where
  "hive_run t [] s = Some s"
| "hive_run t (c # cs) s = (case hive_step t c s of None \<Rightarrow> None | Some s' \<Rightarrow> hive_run t cs s')"

definition hive_inv :: "'v hstate \<Rightarrow> lists \<Rightarrow> bool" where
  "hive_inv s l \<longleftrightarrow> (case s of (v, h, A) \<Rightarrow> hive_rep v h l \<and> owned l \<subseteq> A)"

lemma hive_inv_make: "hive_make t lim = Inr v \<Longrightarrow> hive_inv (v, h, A) no_lists"
  by (auto simp: hive_make_def hive_inv_def hive_rep_owned owned_def no_lists_def split: if_splits)

text \<open>One command changes at most one cell.\<close>

lemma hive_step_cells:
  assumes I: "hive_inv (v, h, A) l" and S: "hive_step t c (v, h, A) = Some (v', h', A')"
  shows "\<exists>l'. hive_inv (v', h', A') l' \<and> (\<forall>p x. (p, x) \<in> set (ls_cells h l) \<and> c \<noteq> Erase (fst p) (snd p) \<longrightarrow> (p, x) \<in> set (ls_cells h' l'))"
proof (cases c)
  case (Emplace al x)
  obtain r w g where E: "emplace t al x v h = (r, w, g)" using prod_cases3 by blast
  have H: "hive_rep v h l" and O: "owned l \<subseteq> A" using I by (auto simp: hive_inv_def)
  have s: "v' = w" "h' = g" "A' = A \<union> set_option (al_block al)" and "\<not> (case al_block al of None \<Rightarrow> False | Some a \<Rightarrow> a \<in> A)"
    using S E Emplace by (auto split: if_splits)
  then have "\<forall>a. al_block al = Some a \<longrightarrow> a \<notin> owned l" using O by auto
  note F = emplace_correct [OF H this, of x t, unfolded E emplace_effect_def prod.case]
  show ?thesis
  proof (cases r)
    case (Inl e)
    then show ?thesis using F s O by (intro exI [of _ l]) (auto simp: hive_inv_def)
  next
    case (Inr p)
    then obtain a i y l' xs ys where "hive_rep w g l'" "owned l' \<subseteq> owned l \<union> set_option (al_block al)"
      "ls_cells h l = xs @ ys" "ls_cells g l' = xs @ ((a, i), y) # ys" using F by auto
    then show ?thesis using s O by (intro exI [of _ l']) (auto simp: hive_inv_def)
  qed
next
  case (Erase a i)
  have H: "hive_rep v h l" and O: "owned l \<subseteq> A" using I by (auto simp: hive_inv_def)
  obtain p w g where E: "erase_at a i v h = (p, w, g)" using prod_cases3 by blast
  have s: "v' = w" "h' = g" "A' = A" and "At a i \<in> set (hive_positions v h)"
    using S E Erase by (auto split: if_splits)
  then obtain cell where "cell \<in> set (ls_cells h l)" "cell_iter cell = At a i" using hive_positions_cells [OF H] by auto
  then have "((a, i), snd cell) \<in> set (ls_cells h l)" by (cases cell) (auto simp: cell_iter_def)
  then obtain xs x ys where c: "ls_cells h l = xs @ ((a, i), x) # ys" using split_list by metis
  from erase_correct(1) [OF H c E] obtain l' where "hive_rep w g l'" "ls_cells g l' = xs @ ys" "owned l' = owned l" by blast
  then show ?thesis using s O c Erase by (intro exI [of _ l']) (auto simp: hive_inv_def)
qed

lemma hive_run_cells:
  "hive_run t cs (v, h, A) = Some (v', h', A') \<Longrightarrow> hive_inv (v, h, A) l \<Longrightarrow>
   \<exists>l'. hive_inv (v', h', A') l' \<and> (\<forall>p x. (p, x) \<in> set (ls_cells h l) \<and> Erase (fst p) (snd p) \<notin> set cs \<longrightarrow> (p, x) \<in> set (ls_cells h' l'))"
proof (induction cs arbitrary: v h A l)
  case Nil
  then show ?case by auto
next
  case (Cons c cs)
  then obtain v1 h1 A1 where S: "hive_step t c (v, h, A) = Some (v1, h1, A1)" "hive_run t cs (v1, h1, A1) = Some (v', h', A')"
    by (auto split: option.splits)
  from hive_step_cells [OF Cons.prems(2) S(1)] obtain l1 where l1: "hive_inv (v1, h1, A1) l1"
    "\<forall>p x. (p, x) \<in> set (ls_cells h l) \<and> c \<noteq> Erase (fst p) (snd p) \<longrightarrow> (p, x) \<in> set (ls_cells h1 l1)" by blast
  from Cons.IH [OF S(2) l1(1)] obtain l' where l': "hive_inv (v', h', A') l'"
    "\<forall>p x. (p, x) \<in> set (ls_cells h1 l1) \<and> Erase (fst p) (snd p) \<notin> set cs \<longrightarrow> (p, x) \<in> set (ls_cells h' l')" by blast
  show ?case by (rule exI [of _ l'], rule conjI [OF l'(1)]) (use l1(2) l'(2) in auto)
qed

lemma cell_value:
  assumes "content_ok h l" "((a, i), x) \<in> set (ls_cells h l)"
  shows "hb_slots (h a) i = Elem x"
proof -
  obtain xs ys where "ls_cells h l = xs @ ((a, i), x) # ys" using assms(2) by (auto simp: in_set_conv_decomp)
  from cell_context [OF assms(1) this] obtain as bs where "blk_rep (h a) (as @ Live x # bs)" "i = width as" by blast
  then show ?thesis by (simp add: blk_rep_def)
qed

lemma hive_inv_values:
  assumes "hive_inv (v, h, A) l"
  shows "At a i \<in> set (hive_positions v h) \<longleftrightarrow> (\<exists>x. ((a, i), x) \<in> set (ls_cells h l))"
    "((a, i), x) \<in> set (ls_cells h l) \<Longrightarrow> hb_slots (h a) i = Elem x"
proof -
  have H: "hive_rep v h l" using assms by (simp add: hive_inv_def)
  show "At a i \<in> set (hive_positions v h) \<longleftrightarrow> (\<exists>x. ((a, i), x) \<in> set (ls_cells h l))"
    unfolding hive_positions_cells [OF H] by (force simp: cell_iter_def)
  show "((a, i), x) \<in> set (ls_cells h l) \<Longrightarrow> hb_slots (h a) i = Elem x"
    using hive_rep_control(1) [OF H] cell_value by (auto simp: ctl_rep_def)
qed

section \<open>A concrete program\<close>

definition demo_traits :: traits where
  "demo_traits = \<lparr>tr_max_size = 1000, tr_slot_max = 1000, tr_skip_max = 1000, tr_hard_max = 1000\<rparr>"

definition demo_limits :: limits where
  "demo_limits = \<lparr>lim_min = 2, lim_max = 4\<rparr>"

definition demo_hive :: hive where
  "demo_hive = \<lparr>hv_limits = demo_limits, hv_control = None, hv_epoch = 0\<rparr>"

definition demo_heap :: "nat heap" where
  "demo_heap = (\<lambda>_. block_new 1)"

definition no_memory :: allocs where
  "no_memory = \<lparr>al_control = True, al_block = None\<rparr>"

text \<open>Two blocks with three elements.\<close>

definition demo_before :: "nat hcmd list" where
  "demo_before = [Emplace \<lparr>al_control = True, al_block = Some 1\<rparr> (Some 10), Emplace no_memory (Some 20),
     Emplace \<lparr>al_control = True, al_block = Some 2\<rparr> (Some 30)]"

text \<open>The first element is erased.\<close>

definition demo_after :: "nat hcmd list" where
  "demo_after = [Erase 1 0]"

lemma demo_make: "hive_make demo_traits demo_limits = Inr demo_hive"
  by code_simp

lemma demo_positions:
  "map_option (\<lambda>(v, h, A). (hive_positions v h, hive_run demo_traits demo_after (v, h, A) \<noteq> None, 3 \<in> A, hive_capacity v))
     (hive_run demo_traits demo_before (demo_hive, demo_heap, {})) = Some ([At 1 0, At 1 1, At 2 0], True, False, 4)"
  by code_simp

lemma demo_state:
  obtains v h A v' h' A' l where "hive_run demo_traits demo_before (demo_hive, demo_heap, {}) = Some (v, h, A)"
    "hive_run demo_traits demo_after (v, h, A) = Some (v', h', A')" "hive_positions v h = [At 1 0, At 1 1, At 2 0]" "hive_inv (v, h, A) l"
    "3 \<notin> A" "hive_capacity v = 4"
proof -
  obtain s where s: "hive_run demo_traits demo_before (demo_hive, demo_heap, {}) = Some s"
    using demo_positions by (cases "hive_run demo_traits demo_before (demo_hive, demo_heap, {})") auto
  obtain v h A where e: "s = (v, h, A)" by (cases s)
  have p: "hive_positions v h = [At 1 0, At 1 1, At 2 0]" and n: "hive_run demo_traits demo_after (v, h, A) \<noteq> None"
    and q: "3 \<notin> A" "hive_capacity v = 4"
    using demo_positions by (simp_all add: s e)
  obtain v' h' A' where "hive_run demo_traits demo_after (v, h, A) = Some (v', h', A')" using n by (metis not_None_eq prod_cases3)
  moreover obtain l where "hive_inv (v, h, A) l" using hive_run_cells [OF s [unfolded e] hive_inv_make [OF demo_make]] by blast
  ultimately show ?thesis using that p q s e by blast
qed

section \<open>Properties\<close>

text \<open>
  C12.  \<open>emplace\<close> has the strong exception guarantee and does not move elements.  It either
  adds one cell between the cells of the hive, which all keep their positions and values, or
  reports an exception and leaves the hive and its cells as they were; and it fails for want
  of memory or of capacity only when every slot of the hive is taken.
\<close>

theorem hive_emplace:
  assumes "hive_rep v h l" "\<forall>a. al_block al = Some a \<longrightarrow> a \<notin> owned l" "emplace t al x v h = (r, v', h')"
  shows "case r of
      Inr p \<Rightarrow> (\<exists>a i y l' xs ys. p = At a i \<and> x = Some y \<and> hive_rep v' h' l' \<and>
         ls_cells h l = xs @ ys \<and> ls_cells h' l' = xs @ ((a, i), y) # ys \<and> hive_size v' = hive_size v + 1)
    | Inl e \<Rightarrow> v' = v \<and> hive_rep v h' l \<and> ls_cells h' l = ls_cells h l \<and>
         (if e = Ctor_throw then x = None else hive_size v = hive_capacity v)"
proof (cases r)
  case (Inl e)
  then show ?thesis using emplace_correct [OF assms(1,2), of x t] assms(3) by (simp add: emplace_effect_def)
next
  case (Inr p)
  then obtain a i y l' xs ys where e: "p = At a i" "x = Some y" "hive_rep v' h' l'"
    "ls_cells h l = xs @ ys" "ls_cells h' l' = xs @ ((a, i), y) # ys"
    using emplace_correct [OF assms(1,2), of x t] assms(3) by (auto simp: emplace_effect_def)
  then have "hive_size v' = hive_size v + 1" using hive_size_cells [OF assms(1)] hive_size_cells [OF e(3)] by simp
  then show ?thesis using Inr e by auto
qed

theorem hive_emplace_witness:
  "\<exists>v h l r v' h'. hive_rep v h l \<and> hive_size v = 3 \<and> emplace demo_traits no_memory (Some (40 :: nat)) v h = (r, v', h') \<and>
    (case r of
      Inr p \<Rightarrow> (\<exists>a i y l' xs ys. p = At a i \<and> Some 40 = Some y \<and> hive_rep v' h' l' \<and>
         ls_cells h l = xs @ ys \<and> ls_cells h' l' = xs @ ((a, i), y) # ys \<and> hive_size v' = hive_size v + 1)
    | Inl e \<Rightarrow> v' = v \<and> hive_rep v h' l \<and> ls_cells h' l = ls_cells h l \<and>
         (if e = Ctor_throw then Some (40 :: nat) = None else hive_size v = hive_capacity v))"
proof (rule demo_state)
  fix v and h :: "nat heap" and A v' and h' :: "nat heap" and A' l
  assume I: "hive_inv (v, h, A) l" and p: "hive_positions v h = [At 1 0, At 1 1, At 2 0]"
  then have H: "hive_rep v h l" by (simp add: hive_inv_def)
  have "length (hive_positions v h) = 3" by (simp add: p)
  then have "hive_size v = 3" by (simp add: hive_positions_def)
  moreover obtain r w g where E: "emplace demo_traits no_memory (Some (40 :: nat)) v h = (r, w, g)" using prod_cases3 by blast
  moreover have "\<forall>a. al_block no_memory = Some a \<longrightarrow> a \<notin> owned l" by (simp add: no_memory_def)
  ultimately show ?thesis using H hive_emplace [OF H _ E] by blast
qed

text \<open>
  C13.  \<open>erase\<close> removes exactly the cell at the position, keeps the position and the value of
  every other cell and the capacity, and returns the position of the next element, or end.
\<close>

theorem hive_erase:
  assumes "hive_rep v h l" "ls_cells h l = xs @ ((a, i), x) # ys" "erase_at a i v h = (p, v', h')"
  shows "\<exists>l'. hive_rep v' h' l' \<and> ls_cells h' l' = xs @ ys \<and> hive_size v' = hive_size v - 1 \<and>
    hive_capacity v' = hive_capacity v \<and>
    p = (case ys of [] \<Rightarrow> hive_end v' | ((b, j), _) # _ \<Rightarrow> At b j)"
proof -
  from erase_correct(1) [OF assms] obtain l' where l': "hive_rep v' h' l'" "ls_cells h' l' = xs @ ys" "hive_capacity v' = hive_capacity v" by blast
  then have "hive_size v' = hive_size v - 1" using hive_size_cells [OF assms(1)] hive_size_cells [OF l'(1)] assms(2) by simp
  then show ?thesis using l' erase_correct(2) [OF assms] by (auto simp: first_iter_def)
qed

theorem hive_erase_witness:
  "\<exists>v h l xs x ys p v' h'. hive_rep v (h :: nat heap) l \<and> ls_cells h l = xs @ ((1, 1), x) # ys \<and> erase_at 1 1 v h = (p, v', h') \<and>
    (\<exists>l'. hive_rep v' h' l' \<and> ls_cells h' l' = xs @ ys \<and> hive_size v' = hive_size v - 1 \<and>
      hive_capacity v' = hive_capacity v \<and> p = (case ys of [] \<Rightarrow> hive_end v' | ((b, j), _) # _ \<Rightarrow> At b j))"
proof (rule demo_state)
  fix v and h :: "nat heap" and A v' and h' :: "nat heap" and A' l
  assume I: "hive_inv (v, h, A) l" and p: "hive_positions v h = [At 1 0, At 1 1, At 2 0]"
  then have H: "hive_rep v h l" by (simp add: hive_inv_def)
  obtain x where "((1, 1), x) \<in> set (ls_cells h l)" using hive_inv_values(1) [OF I, of 1 1] p by auto
  then obtain xs ys where c: "ls_cells h l = xs @ ((1, 1), x) # ys" using split_list by metis
  obtain q w g where E: "erase_at 1 1 v h = (q, w, g)" using prod_cases3 by blast
  note W = H c E hive_erase [OF H c E]
  show ?thesis
    by (rule exI [of _ v], rule exI [of _ h], rule exI [of _ l], rule exI [of _ xs], rule exI [of _ x], rule exI [of _ ys],
      rule exI [of _ q], rule exI [of _ w], rule exI [of _ g]) (intro conjI W)
qed

text \<open>
  C15.  Iterator stability.  In any program over a hive that starts empty, an iterator to an
  element stays valid and its element keeps its value through any further insertions and
  erasures, successful or not, until that element itself is erased.
\<close>

theorem hive_iterators_stable:
  assumes "hive_make t lim = Inr v0" "hive_run t cs (v0, h0, A0) = Some (v, h, A)" "hive_run t ds (v, h, A) = Some (v', h', A')"
    and "At a i \<in> set (hive_positions v h)" "Erase a i \<notin> set ds"
  shows "At a i \<in> set (hive_positions v' h') \<and> (\<exists>x. hb_slots (h a) i = Elem x \<and> hb_slots (h' a) i = Elem x)"
proof -
  from hive_run_cells [OF assms(2) hive_inv_make [OF assms(1)]] obtain l where l: "hive_inv (v, h, A) l" by blast
  from hive_run_cells [OF assms(3) l] obtain l' where l': "hive_inv (v', h', A') l'"
    "\<forall>p x. (p, x) \<in> set (ls_cells h l) \<and> Erase (fst p) (snd p) \<notin> set ds \<longrightarrow> (p, x) \<in> set (ls_cells h' l')" by blast
  obtain x where x: "((a, i), x) \<in> set (ls_cells h l)" using hive_inv_values(1) [OF l] assms(4) by blast
  then have "((a, i), x) \<in> set (ls_cells h' l')" using l'(2) assms(5) by auto
  then show ?thesis using hive_inv_values [OF l'(1)] hive_inv_values(2) [OF l x] by blast
qed

theorem hive_iterators_stable_witness:
  "\<exists>v h A v' h' A'. hive_run demo_traits demo_before (demo_hive, demo_heap, {}) = Some (v, h, A) \<and>
    hive_run demo_traits demo_after (v, h, A) = Some (v', h', A') \<and> At 1 1 \<in> set (hive_positions v h) \<and>
    (At 1 1 \<in> set (hive_positions v' h') \<and> (\<exists>x. hb_slots (h 1) 1 = Elem x \<and> hb_slots (h' 1) 1 = Elem x))"
proof (rule demo_state)
  fix v and h :: "nat heap" and A v' and h' :: "nat heap" and A' l
  assume r: "hive_run demo_traits demo_before (demo_hive, demo_heap, {}) = Some (v, h, A)"
    "hive_run demo_traits demo_after (v, h, A) = Some (v', h', A')" and "hive_positions v h = [At 1 0, At 1 1, At 2 0]"
  then have p: "At 1 1 \<in> set (hive_positions v h)" by simp
  have "Erase 1 1 \<notin> set demo_after" by (simp add: demo_after_def)
  then show ?thesis using r p hive_iterators_stable [OF demo_make r p] by blast
qed

end
