(* ===== verification/Hive_Lookup.thy ===== *)
theory Hive_Lookup
  imports Hive_Run
begin

text \<open>
  Order and lookup of iterators of a hive (\<open>backport/cpp26/hive.hpp\<close>): the three-way comparison
  of iterators into one hive, and \<open>get_iterator\<close>, which finds the position of an element from
  its address.
\<close>

section \<open>Comparison\<close>

datatype strong_ordering = Less | Equivalent | Greater

definition compare_nat :: "nat \<Rightarrow> nat \<Rightarrow> strong_ordering" where
  "compare_nat m n = (if m < n then Less else if m = n then Equivalent else Greater)"

text \<open>
  Both iterators belong to the same hive; iterators of different hives are ordered by the
  addresses of their hives.
\<close>

fun iter_compare :: "'v heap \<Rightarrow> iter \<Rightarrow> iter \<Rightarrow> strong_ordering" where
  "iter_compare h (At a i) (At b j) = (if a = b then compare_nat i j else compare_nat (hb_order (h a)) (hb_order (h b)))"
| "iter_compare h (At a i) (End e) = Less"
| "iter_compare h (End e) (At b j) = Greater"
| "iter_compare h (End e) (End f) = compare_nat e f"

lemma iter_compare_sym: "iter_compare h p q = Less \<longleftrightarrow> iter_compare h q p = Greater"
  by (cases p; cases q) (auto simp: compare_nat_def)

lemma block_cells_ordered:
  assumes "blk_rep (h a) zs"
  shows "sorted_wrt (\<lambda>c d. iter_compare h (cell_iter c) (cell_iter d) = Less) (cells_at h a)"
proof -
  have "sorted_wrt (<) (map fst (blk_cells (h a)))"
    using cells_sorted [of "hb_skip (h a)" "hb_slots (h a)" 0 zs] blk_cells_rep [OF assms] assms by (simp add: blk_rep_def)
  then show ?thesis
    unfolding cells_at_def sorted_wrt_map by (rule sorted_wrt_mono_rel [rotated]) (auto simp: cell_iter_def compare_nat_def)
qed

lemma cells_ordered:
  assumes "\<forall>a \<in> set as. active_block (h a)" "sorted_wrt (<) (map (\<lambda>a. hb_order (h a)) as)"
  shows "sorted_wrt (\<lambda>c d. iter_compare h (cell_iter c) (cell_iter d) = Less) (concat (map (cells_at h) as))"
  using assms
proof (induction as)
  case (Cons a as)
  have "sorted_wrt (\<lambda>c d. iter_compare h (cell_iter c) (cell_iter d) = Less) (cells_at h a)"
    using Cons.prems(1) block_cells_ordered by (auto simp: active_block_def)
  moreover have "iter_compare h (cell_iter c) (cell_iter d) = Less" if c: "c \<in> set (cells_at h a)" "d \<in> set (concat (map (cells_at h) as))" for c d
  proof -
    obtain b where "b \<in> set as" "fst (fst d) = b" using c(2) by (auto simp: cells_at_def)
    moreover have "fst (fst c) = a" using c(1) by (auto simp: cells_at_def)
    ultimately show ?thesis using Cons.prems(2) by (auto simp: cell_iter_def compare_nat_def)
  qed
  ultimately show ?case using Cons by (simp add: sorted_wrt_append)
qed simp

lemma positions_ordered:
  assumes "hive_rep v h l"
  shows "sorted_wrt (\<lambda>p q. iter_compare h p q = Less) (hive_positions v h @ [hive_end v])"
proof -
  have C: "ctl_rep (case hv_control v of None \<Rightarrow> control_new | Some c \<Rightarrow> c) h l" by (rule hive_rep_control [OF assms])
  then have "sorted_wrt (\<lambda>c d. iter_compare h (cell_iter c) (cell_iter d) = Less) (ls_cells h l)"
    using cells_ordered [of "ls_active l" h] by (simp add: ls_cells_def ctl_rep_def content_ok_def links_ok_def flags_ok_def)
  then show ?thesis unfolding hive_positions_cells [OF assms]
    by (auto simp: sorted_wrt_append sorted_wrt_map cell_iter_def hive_end_def)
qed

section \<open>Lookup by address\<close>

text \<open>
  Where the slots lie: the address of the slot array of each block, the size of a slot and the
  offset of the element in it.  An address is a number.
\<close>

record slot_memory =
  sm_base :: "addr \<Rightarrow> nat"
  sm_slot_size :: nat
  sm_offset :: nat

definition element_address :: "slot_memory \<Rightarrow> addr \<Rightarrow> nat \<Rightarrow> nat" where
  "element_address m a i = sm_base m a + i * sm_slot_size m + sm_offset m"

partial_function (option) lookup_loop :: "slot_memory \<Rightarrow> nat \<Rightarrow> hive \<Rightarrow> ptr \<Rightarrow> 'v heap \<Rightarrow> iter option" where
  "lookup_loop m target v p h =
     (if p = None then Some (hive_end v)
      else let a = the p; base = sm_base m a; displacement = target - base; candidate = displacement div sm_slot_size m
           in if target < base \<or> displacement mod sm_slot_size m \<noteq> sm_offset m \<or> candidate \<ge> hb_high_water (h a)
              then lookup_loop m target v (hb_active_next (h a)) h
              else if hb_skip (h a) candidate = 0 \<and> element_address m a candidate = target then Some (At a candidate)
              else lookup_loop m target v (hb_active_next (h a)) h)"

definition get_iterator :: "slot_memory \<Rightarrow> nat \<Rightarrow> hive \<Rightarrow> 'v heap \<Rightarrow> iter option" where
  "get_iterator m target v h =
     (case hv_control v of None \<Rightarrow> Some (hive_end v) | Some c \<Rightarrow> lookup_loop m target v (active_head c) h)"

text \<open>The allocator returns storage that does not overlap, and an element lies inside its slot.\<close>

definition memory_ok :: "slot_memory \<Rightarrow> 'v heap \<Rightarrow> addr set \<Rightarrow> bool" where
  "memory_ok m h A \<longleftrightarrow> sm_offset m < sm_slot_size m \<and>
     (\<forall>a \<in> A. \<forall>b \<in> A. a \<noteq> b \<longrightarrow>
        sm_base m a + hb_capacity (h a) * sm_slot_size m \<le> sm_base m b \<or> sm_base m b + hb_capacity (h b) * sm_slot_size m \<le> sm_base m a)"

text \<open>The address of a slot lies in the storage of its block.\<close>

lemma element_address_bounds:
  assumes "sm_offset m < sm_slot_size m" "i < n"
  shows "sm_base m a \<le> element_address m a i" "element_address m a i < sm_base m a + n * sm_slot_size m"
proof -
  have "i * sm_slot_size m + sm_slot_size m \<le> n * sm_slot_size m" using assms(2) by (metis Suc_leI mult_Suc add.commute mult_le_mono1)
  then show "sm_base m a \<le> element_address m a i" "element_address m a i < sm_base m a + n * sm_slot_size m"
    using assms(1) by (simp_all add: element_address_def)
qed

lemma element_address_inj:
  assumes M: "memory_ok m h A" "a \<in> A" "b \<in> A" and b: "i < hb_capacity (h a)" "j < hb_capacity (h b)"
    and e: "element_address m a i = element_address m b j"
  shows "a = b \<and> i = j"
proof -
  have o: "sm_offset m < sm_slot_size m" using M(1) by (simp add: memory_ok_def)
  have "a = b"
  proof (rule ccontr)
    assume "a \<noteq> b"
    then have "sm_base m a + hb_capacity (h a) * sm_slot_size m \<le> sm_base m b \<or> sm_base m b + hb_capacity (h b) * sm_slot_size m \<le> sm_base m a"
      using M by (simp add: memory_ok_def)
    then show False using element_address_bounds [OF o b(1), of a] element_address_bounds [OF o b(2), of b] e by linarith
  qed
  then show ?thesis using e o by (simp add: element_address_def)
qed

text \<open>What the test of one block decides.\<close>

definition block_hit :: "slot_memory \<Rightarrow> nat \<Rightarrow> 'v heap \<Rightarrow> addr \<Rightarrow> nat \<Rightarrow> bool" where
  "block_hit m target h a i \<longleftrightarrow> i < hb_high_water (h a) \<and> hb_skip (h a) i = 0 \<and> element_address m a i = target"

lemma block_hit_iff:
  assumes o: "sm_offset m < sm_slot_size m"
  shows "block_hit m target h a i \<longleftrightarrow> \<not> target < sm_base m a \<and> (target - sm_base m a) mod sm_slot_size m = sm_offset m \<and>
    i = (target - sm_base m a) div sm_slot_size m \<and> i < hb_high_water (h a) \<and> hb_skip (h a) i = 0"
proof -
  have "target = sm_base m a + i * sm_slot_size m + sm_offset m \<longleftrightarrow>
      \<not> target < sm_base m a \<and> (target - sm_base m a) mod sm_slot_size m = sm_offset m \<and> i = (target - sm_base m a) div sm_slot_size m"
  proof
    assume t: "target = sm_base m a + i * sm_slot_size m + sm_offset m"
    then have "target - sm_base m a = sm_offset m + i * sm_slot_size m" by simp
    then show "\<not> target < sm_base m a \<and> (target - sm_base m a) mod sm_slot_size m = sm_offset m \<and> i = (target - sm_base m a) div sm_slot_size m"
      using o t by simp
  next
    assume H: "\<not> target < sm_base m a \<and> (target - sm_base m a) mod sm_slot_size m = sm_offset m \<and> i = (target - sm_base m a) div sm_slot_size m"
    then have "target - sm_base m a = i * sm_slot_size m + sm_offset m" using div_mult_mod_eq [of "target - sm_base m a" "sm_slot_size m"] by simp
    then show "target = sm_base m a + i * sm_slot_size m + sm_offset m" using H by linarith
  qed
  then show ?thesis unfolding block_hit_def element_address_def by metis
qed

lemma lookup_loop_hit:
  assumes "sm_offset m < sm_slot_size m" "block_hit m target h a i"
  shows "lookup_loop m target v (Some a) h = Some (At a i)"
proof -
  have "\<not> target < sm_base m a" "(target - sm_base m a) mod sm_slot_size m = sm_offset m" "(target - sm_base m a) div sm_slot_size m = i"
    "\<not> hb_high_water (h a) \<le> i" "hb_skip (h a) i = 0" "element_address m a i = target"
    using assms(2) [unfolded block_hit_iff [OF assms(1)]] assms(2) by (simp_all add: block_hit_def)
  then show ?thesis by (subst lookup_loop.simps) (simp add: Let_def)
qed

lemma lookup_loop_miss:
  assumes "sm_offset m < sm_slot_size m" "\<forall>i. \<not> block_hit m target h a i"
  shows "lookup_loop m target v (Some a) h = lookup_loop m target v (hb_active_next (h a)) h"
proof -
  have "target < sm_base m a \<or> (target - sm_base m a) mod sm_slot_size m \<noteq> sm_offset m \<or>
      hb_high_water (h a) \<le> (target - sm_base m a) div sm_slot_size m \<or> hb_skip (h a) ((target - sm_base m a) div sm_slot_size m) \<noteq> 0"
    using assms(2) [rule_format, of "(target - sm_base m a) div sm_slot_size m"] unfolding block_hit_iff [OF assms(1)] by linarith
  then show ?thesis
    by (subst lookup_loop.simps) (simp only: Let_def option.sel option.distinct if_False if_True simp_thms split: if_split, blast)
qed

lemma lookup_loop_ok:
  assumes "sm_offset m < sm_slot_size m"
  shows "chain (\<lambda>a. hb_active_next (h a)) p as None \<Longrightarrow>
    (\<exists>a i. a \<in> set as \<and> block_hit m target h a i \<and> lookup_loop m target v p h = Some (At a i)) \<or>
    ((\<forall>a \<in> set as. \<forall>i. \<not> block_hit m target h a i) \<and> lookup_loop m target v p h = Some (hive_end v))"
proof (induction as arbitrary: p)
  case Nil
  then show ?case by (simp add: lookup_loop.simps)
next
  case (Cons a as)
  then have p: "p = Some a" by simp
  show ?case
  proof (cases "\<exists>i. block_hit m target h a i")
    case True
    then show ?thesis using lookup_loop_hit [OF assms] p by (metis list.set_intros(1))
  next
    case False
    then have "lookup_loop m target v p h = lookup_loop m target v (hb_active_next (h a)) h" using lookup_loop_miss [OF assms] p by metis
    then show ?thesis using Cons.IH [of "hb_active_next (h a)"] Cons.prems False by auto
  qed
qed

lemma block_hit_cell:
  assumes H: "hive_rep v h l" and a: "a \<in> set (ls_active l)"
  shows "block_hit m target h a i \<longleftrightarrow> (\<exists>x. ((a, i), x) \<in> set (ls_cells h l)) \<and> element_address m a i = target"
proof -
  have "((a, i), x) \<in> set (ls_cells h l) \<longleftrightarrow> (i, x) \<in> set (blk_cells (h a))" for x
    using a by (auto simp: ls_cells_def cells_at_def)
  then show ?thesis by (auto simp: block_hit_def blk_cells_def)
qed

lemma cell_in_block:
  assumes H: "hive_rep v h l" and c: "((a, i), x) \<in> set (ls_cells h l)"
  shows "a \<in> set (ls_active l)" "a \<in> owned l" "i < hb_capacity (h a)"
proof -
  have K: "content_ok h l" using hive_rep_control(1) [OF H] by (simp add: ctl_rep_def)
  show a: "a \<in> set (ls_active l)" using c by (auto simp: ls_cells_def cells_at_def)
  then show "a \<in> owned l" by (simp add: owned_def)
  obtain zs where "blk_rep (h a) zs" using K a by (auto simp: content_ok_def active_block_def)
  moreover have "i < hb_high_water (h a)" using c by (auto simp: ls_cells_def cells_at_def blk_cells_def)
  ultimately show "i < hb_capacity (h a)" by (auto simp: blk_rep_def)
qed

lemma get_iterator_ok:
  assumes H: "hive_rep v h l" and M: "memory_ok m h (owned l)"
  shows "get_iterator m target v h = Some (
    case List.find (\<lambda>p. case p of At a i \<Rightarrow> element_address m a i = target | End _ \<Rightarrow> False) (hive_positions v h) of Some p \<Rightarrow> p | None \<Rightarrow> hive_end v)"
proof -
  define P where "P = (\<lambda>p. case p of At a i \<Rightarrow> element_address m a i = target | End _ \<Rightarrow> False)"
  have o: "sm_offset m < sm_slot_size m" using M by (simp add: memory_ok_def)
  have mem: "p \<in> set (hive_positions v h) \<longleftrightarrow> (\<exists>a i x. p = At a i \<and> ((a, i), x) \<in> set (ls_cells h l))" for p
    unfolding hive_positions_cells [OF H] by (force simp: cell_iter_def)
  have uniq: "p = q" if pq: "p \<in> set (hive_positions v h)" "q \<in> set (hive_positions v h)" "P p" "P q" for p q
  proof -
    obtain a i x b j y where e: "p = At a i" "((a, i), x) \<in> set (ls_cells h l)" "q = At b j" "((b, j), y) \<in> set (ls_cells h l)"
      using pq(1,2) mem by blast
    have "element_address m a i = element_address m b j" using pq(3,4) e by (simp add: P_def)
    then show ?thesis using element_address_inj [OF M] cell_in_block(2,3) [OF H e(2)] cell_in_block(2,3) [OF H e(4)] e by blast
  qed
  consider (hit) a i where "At a i \<in> set (hive_positions v h)" "P (At a i)" "get_iterator m target v h = Some (At a i)"
    | (miss) "\<forall>p \<in> set (hive_positions v h). \<not> P p" "get_iterator m target v h = Some (hive_end v)"
  proof (cases "hv_control v")
    case None
    then have "hive_positions v h = []" by (simp add: hive_positions_def hive_size_def)
    then show ?thesis using miss None by (simp add: get_iterator_def)
  next
    case (Some c)
    then have ch: "chain (\<lambda>a. hb_active_next (h a)) (active_head c) (ls_active l) None"
      using H by (simp add: hive_rep_owned ctl_rep_def links_ok_def lists_rep_def act.dll_def)
    show ?thesis using lookup_loop_ok [OF o ch, of target v] hit miss Some mem block_hit_cell [OF H] cell_in_block(1) [OF H]
      by (fastforce simp: get_iterator_def P_def)
  qed
  then show ?thesis unfolding P_def [symmetric]
  proof cases
    case hit
    then obtain q where "List.find P (hive_positions v h) = Some q" by (metis find_None_iff not_None_eq)
    moreover from this have "q \<in> set (hive_positions v h)" "P q" by (auto simp: find_Some_iff)
    ultimately show "get_iterator m target v h = Some (case List.find P (hive_positions v h) of Some p \<Rightarrow> p | None \<Rightarrow> hive_end v)"
      using hit uniq by auto
  next
    case miss
    then have "List.find P (hive_positions v h) = None" by (simp add: find_None_iff)
    then show "get_iterator m target v h = Some (case List.find P (hive_positions v h) of Some p \<Rightarrow> p | None \<Rightarrow> hive_end v)"
      using miss by simp
  qed
qed

text \<open>Iteration in both directions is the walk over the cells.\<close>

lemma traversal_ok:
  assumes "hive_rep v h l"
  shows "hive_positions v h = map cell_iter (ls_cells h l) \<and> distinct (hive_positions v h) \<and>
    (iter_next v h ^^ hive_size v) (hive_begin v h) = hive_end v \<and>
    map (\<lambda>n. (iter_prev v h ^^ Suc n) (hive_end v)) [0 ..< hive_size v] = rev (hive_positions v h)"
proof (intro conjI)
  note p = hive_positions_cells [OF assms]
  show "hive_positions v h = map cell_iter (ls_cells h l)" by (rule p)
  have C: "ctl_rep (case hv_control v of None \<Rightarrow> control_new | Some c \<Rightarrow> c) h l" by (rule hive_rep_control [OF assms])
  then have L: "links_ok (case hv_control v of None \<Rightarrow> control_new | Some c \<Rightarrow> c) h l" and K: "content_ok h l" by (simp_all add: ctl_rep_def)
  have "distinct (map fst (ls_cells h l))" using distinct_positions [OF K] links_owned(2) [OF L] by simp
  moreover have "map cell_iter (ls_cells h l) = map (\<lambda>p. At (fst p) (snd p)) (map fst (ls_cells h l))" by (simp add: cell_iter_def)
  ultimately show "distinct (hive_positions v h)" unfolding p by (simp only: distinct_map) (auto simp: inj_on_def)
  show "(iter_next v h ^^ hive_size v) (hive_begin v h) = hive_end v"
    by (simp add: walk_forward [OF assms] hive_size_cells [OF assms])
  show "map (\<lambda>n. (iter_prev v h ^^ Suc n) (hive_end v)) [0 ..< hive_size v] = rev (hive_positions v h)"
  proof (rule nth_equalityI)
    fix n
    assume "n < length (map (\<lambda>n. (iter_prev v h ^^ Suc n) (hive_end v)) [0 ..< hive_size v])"
    then have n: "n < hive_size v" by simp
    then show "map (\<lambda>n. (iter_prev v h ^^ Suc n) (hive_end v)) [0 ..< hive_size v] ! n = rev (hive_positions v h) ! n"
      using walk_backward [OF assms n] by (simp add: rev_nth hive_positions_def)
  qed (simp add: hive_positions_def)
qed

section \<open>Properties\<close>

text \<open>
  C14.  Iteration from \<open>begin\<close> visits every element once, in the order of the cells, and then
  reaches \<open>end\<close>; iteration from \<open>end\<close> with \<open>operator--\<close> visits them in the reverse order.  The
  comparison of iterators is this order, with \<open>end\<close> last.  When the storage of the blocks does
  not overlap, \<open>get_iterator\<close> returns the position of the element with the given address, and
  end when there is none.
\<close>

theorem hive_traversal:
  assumes "hive_rep v h l"
  shows "hive_positions v h = map cell_iter (ls_cells h l) \<and> distinct (hive_positions v h) \<and>
    (iter_next v h ^^ hive_size v) (hive_begin v h) = hive_end v \<and>
    map (\<lambda>n. (iter_prev v h ^^ Suc n) (hive_end v)) [0 ..< hive_size v] = rev (hive_positions v h) \<and>
    sorted_wrt (\<lambda>p q. iter_compare h p q = Less) (hive_positions v h @ [hive_end v]) \<and>
    (memory_ok m h (owned l) \<longrightarrow> get_iterator m target v h = Some (
      case List.find (\<lambda>p. case p of At a i \<Rightarrow> element_address m a i = target | End _ \<Rightarrow> False) (hive_positions v h) of Some p \<Rightarrow> p | None \<Rightarrow> hive_end v))"
  using traversal_ok [OF assms] positions_ordered [OF assms] get_iterator_ok [OF assms] by blast

text \<open>Slots of 8 bytes, blocks side by side.\<close>

definition demo_memory :: "limits \<Rightarrow> slot_memory" where
  "demo_memory lim = \<lparr>sm_base = (\<lambda>a. a * (8 * lim_max lim)), sm_slot_size = 8, sm_offset = 0\<rparr>"

lemma demo_memory_ok:
  assumes "hive_rep v h l"
  shows "memory_ok (demo_memory (hv_limits v)) h (owned l)"
proof -
  let ?n = "lim_max (hv_limits v)"
  have "a * (8 * ?n) + hb_capacity (h a) * 8 \<le> b * (8 * ?n)" if "a \<in> owned l" "a < b" for a b
  proof -
    have "hb_capacity (h a) \<le> ?n" using assms that(1) by (auto simp: hive_rep_owned within_def)
    then have "a * (8 * ?n) + hb_capacity (h a) * 8 \<le> Suc a * (8 * ?n)" by simp
    also have "\<dots> \<le> b * (8 * ?n)" using that(2) by (intro mult_le_mono1) simp
    finally show ?thesis .
  qed
  then show ?thesis by (auto simp: memory_ok_def demo_memory_def neq_iff)
qed

theorem hive_traversal_witness:
  "\<exists>v h l. hive_rep v (h :: nat heap) l \<and> hive_positions v h = [At 1 0, At 1 1, At 2 0] \<and>
    (iter_next v h ^^ hive_size v) (hive_begin v h) = hive_end v \<and>
    map (\<lambda>n. (iter_prev v h ^^ Suc n) (hive_end v)) [0 ..< hive_size v] = rev (hive_positions v h) \<and>
    iter_compare h (At 1 1) (At 2 0) = Less \<and> memory_ok (demo_memory (hv_limits v)) h (owned l) \<and>
    get_iterator (demo_memory (hv_limits v)) (element_address (demo_memory (hv_limits v)) 1 1) v h = Some (At 1 1)"
proof (rule demo_state)
  fix v and h :: "nat heap" and A v' and h' :: "nat heap" and A' l
  assume I: "hive_inv (v, h, A) l" and p: "hive_positions v h = [At 1 0, At 1 1, At 2 0]"
  then have H: "hive_rep v h l" by (simp add: hive_inv_def)
  let ?m = "demo_memory (hv_limits v)"
  note M = demo_memory_ok [OF H]
  note T = hive_traversal [OF H, of ?m "element_address ?m 1 1"]
  have "iter_compare h (At 1 1) (At 2 0) = Less" using T by (simp add: p)
  moreover have "get_iterator ?m (element_address ?m 1 1) v h = Some (At 1 1)"
    using T M by (simp add: p) (simp add: element_address_def demo_memory_def)
  ultimately show ?thesis using H p M T by (intro exI [of _ v] exI [of _ h] exI [of _ l] conjI) blast+
qed

end
