(* ===== verification/Hive_Sort.thy ===== *)
theory Hive_Sort
  imports Hive_Run "HOL-Library.Multiset"
begin

text \<open>
  \<open>hive::sort\<close>: an in-place heap sort over a table of positions.  The sort is defined on the
  slots of the hive, as in the source, and once more on the list of values; the first refines
  the second, and the second is shown to sort.
\<close>

section \<open>Heap sort of a list\<close>

definition swap_at :: "nat \<Rightarrow> nat \<Rightarrow> 'a list \<Rightarrow> 'a list" where
  "swap_at i j xs = xs[i := xs ! j, j := xs ! i]"

text \<open>The child of \<open>i\<close> that \<open>sift_down\<close> compares with, and whether it descends.\<close>

definition larger_child :: "('a \<Rightarrow> 'a \<Rightarrow> bool) \<Rightarrow> nat \<Rightarrow> nat \<Rightarrow> 'a list \<Rightarrow> nat" where
  "larger_child cmp i n xs =
     (let left = 2 * i + 1 in if left + 1 < n \<and> cmp (xs ! left) (xs ! (left + 1)) then left + 1 else left)"

lemma larger_child_bounds: "2 * i + 1 < n \<Longrightarrow> i < larger_child cmp i n xs \<and> larger_child cmp i n xs < n"
  by (simp add: larger_child_def Let_def)

function sift_list :: "('a \<Rightarrow> 'a \<Rightarrow> bool) \<Rightarrow> nat \<Rightarrow> nat \<Rightarrow> 'a list \<Rightarrow> 'a list" where
  "sift_list cmp i n xs =
     (if n \<le> 2 * i + 1 then xs
      else let largest = larger_child cmp i n xs
           in if \<not> cmp (xs ! i) (xs ! largest) then xs else sift_list cmp largest n (swap_at i largest xs))"
  by pat_completeness auto
termination
proof (relation "measure (\<lambda>(cmp, i, n, xs). n - i)")
  fix cmp and i n :: nat and xs :: "'a list" and x
  assume "\<not> n \<le> 2 * i + 1" "x = larger_child cmp i n xs"
  then show "((cmp, x, n, swap_at i x xs), (cmp, i, n, xs)) \<in> measure (\<lambda>(cmp, i, n, xs). n - i)"
    using larger_child_bounds [of i n cmp xs] by auto
qed simp

declare sift_list.simps [simp del]

fun build_list :: "('a \<Rightarrow> 'a \<Rightarrow> bool) \<Rightarrow> nat \<Rightarrow> nat \<Rightarrow> 'a list \<Rightarrow> 'a list" where
  "build_list cmp 0 n xs = xs"
| "build_list cmp (Suc i) n xs = build_list cmp i n (sift_list cmp i n xs)"

fun extract_list :: "('a \<Rightarrow> 'a \<Rightarrow> bool) \<Rightarrow> nat \<Rightarrow> 'a list \<Rightarrow> 'a list" where
  "extract_list cmp 0 xs = xs"
| "extract_list cmp (Suc 0) xs = xs"
| "extract_list cmp (Suc (Suc e)) xs = extract_list cmp (Suc e) (sift_list cmp 0 (Suc e) (swap_at 0 (Suc e) xs))"

definition heap_sort :: "('a \<Rightarrow> 'a \<Rightarrow> bool) \<Rightarrow> 'a list \<Rightarrow> 'a list" where
  "heap_sort cmp xs = extract_list cmp (length xs) (build_list cmp (length xs div 2) (length xs) xs)"

text \<open>The comparison is a strict weak order.\<close>

locale weak_order =
  fixes cmp :: "'a \<Rightarrow> 'a \<Rightarrow> bool"
  assumes asym: "cmp x y \<Longrightarrow> \<not> cmp y x"
    and neg_trans: "\<not> cmp y x \<Longrightarrow> \<not> cmp z y \<Longrightarrow> \<not> cmp z x"
begin

definition le :: "'a \<Rightarrow> 'a \<Rightarrow> bool" where
  "le x y \<longleftrightarrow> \<not> cmp y x"

lemma le_refl [simp]: "le x x"
  using asym le_def by blast

lemma le_trans: "le x y \<Longrightarrow> le y z \<Longrightarrow> le x z"
  using neg_trans le_def by blast

lemma le_comp: "cmp x y \<Longrightarrow> le x y"
  using asym le_def by blast

definition child :: "nat \<Rightarrow> nat \<Rightarrow> bool" where
  "child j i \<longleftrightarrow> j = 2 * i + 1 \<or> j = 2 * i + 2"

text \<open>Indices from \<open>m\<close> to \<open>n\<close> form heaps, except possibly at \<open>i\<close>.\<close>

definition heap_from :: "nat \<Rightarrow> nat \<Rightarrow> 'a list \<Rightarrow> bool" where
  "heap_from m n xs \<longleftrightarrow> (\<forall>k j. m \<le> k \<and> child j k \<and> j < n \<longrightarrow> le (xs ! j) (xs ! k))"

definition heap_except :: "nat \<Rightarrow> nat \<Rightarrow> nat \<Rightarrow> 'a list \<Rightarrow> bool" where
  "heap_except m n i xs \<longleftrightarrow>
     (\<forall>k j. m \<le> k \<and> k \<noteq> i \<and> child j k \<and> j < n \<longrightarrow> le (xs ! j) (xs ! k)) \<and>
     (\<forall>p j. m \<le> p \<and> child i p \<and> child j i \<and> j < n \<longrightarrow> le (xs ! j) (xs ! p))"

lemma child_less: "child j i \<Longrightarrow> i < j"
  by (auto simp: child_def)

lemma child_unique: "child j i \<Longrightarrow> child j k \<Longrightarrow> i = k"
  unfolding child_def by presburger

lemma swap_nth: "i < length xs \<Longrightarrow> j < length xs \<Longrightarrow> swap_at i j xs ! k = (if k = j then xs ! i else if k = i then xs ! j else xs ! k)"
  by (cases "k < length xs") (auto simp: swap_at_def nth_list_update)

lemma swap_length [simp]: "length (swap_at i j xs) = length xs"
  by (simp add: swap_at_def)

lemma sift_step:
  assumes E: "heap_except m n i xs" and b: "n \<le> length xs" "2 * i + 1 < n"
    and c: "cmp (xs ! i) (xs ! larger_child cmp i n xs)"
  shows "heap_except m n (larger_child cmp i n xs) (swap_at i (larger_child cmp i n xs) xs)"
proof -
  define q where "q = larger_child cmp i n xs"
  have q: "child q i" by (auto simp: q_def larger_child_def child_def Let_def)
  have q': "q < n" "i < q" using larger_child_bounds [OF b(2), of cmp xs] by (simp_all add: q_def)
  note q = q q'
  have sib: "le (xs ! j) (xs ! q)" if "child j i" "j < n" for j
    using that asym by (auto simp: q_def larger_child_def child_def Let_def le_def)
  note N = swap_nth [of i xs q]
  have l: "i < length xs" "q < length xs" using q b by auto
  have "le (swap_at i q xs ! j) (swap_at i q xs ! k)" if k: "m \<le> k" "k \<noteq> q" "child j k" "j < n" for k j
  proof (cases "k = i")
    case True
    have "j \<noteq> i" using child_less k(3) True by blast
    then show ?thesis using N [OF l] True q(3) k(3,4) sib le_comp [OF c [folded q_def]] by auto
  next
    case False
    then have "j \<noteq> q" using child_unique [OF q(1)] k(3) by blast
    moreover have "le (xs ! q) (xs ! k)" if "j = i" using E k q(1,2) that by (auto simp: heap_except_def)
    moreover have "le (xs ! j) (xs ! k)" if "j \<noteq> i" using E k False by (auto simp: heap_except_def)
    ultimately show ?thesis using N [OF l] False k(2) by auto
  qed
  moreover have "le (swap_at i q xs ! j) (swap_at i q xs ! p)" if p: "m \<le> p" "child q p" "child j q" "j < n" for p j
  proof -
    have "p = i" using child_unique p(2) q(1) by blast
    moreover have "j \<noteq> q" "j \<noteq> i" using child_less p(3) q(3) by force+
    moreover have "le (xs ! j) (xs ! q)" using E p q(3) \<open>p = i\<close> by (auto simp: heap_except_def)
    ultimately show ?thesis using N [OF l] q(3) by auto
  qed
  ultimately show ?thesis unfolding heap_except_def q_def [symmetric] by blast
qed

lemma sift_stop:
  assumes E: "heap_except m n i xs" and s: "n \<le> 2 * i + 1 \<or> \<not> cmp (xs ! i) (xs ! larger_child cmp i n xs)"
  shows "heap_from m n xs"
  unfolding heap_from_def
proof (intro allI impI)
  fix k j
  assume k: "m \<le> k \<and> child j k \<and> j < n"
  show "le (xs ! j) (xs ! k)"
  proof (cases "k = i")
    case True
    then have "2 * i + 1 < n" using k by (auto simp: child_def)
    then have "le (xs ! larger_child cmp i n xs) (xs ! i)" using s by (auto simp: le_def)
    moreover have "le (xs ! j) (xs ! larger_child cmp i n xs)"
      using k True asym by (auto simp: larger_child_def child_def Let_def le_def)
    ultimately show ?thesis using True le_trans by blast
  next
    case False
    then show ?thesis using E k by (auto simp: heap_except_def)
  qed
qed

lemma sift_heap: "heap_except m n i xs \<Longrightarrow> n \<le> length xs \<Longrightarrow> heap_from m n (sift_list cmp i n xs)"
proof (induction "n - i" arbitrary: i xs rule: less_induct)
  case less
  let ?q = "larger_child cmp i n xs"
  show ?case
  proof (cases "n \<le> 2 * i + 1 \<or> \<not> cmp (xs ! i) (xs ! ?q)")
    case True
    then have "sift_list cmp i n xs = xs" by (subst sift_list.simps) (auto simp: Let_def)
    then show ?thesis using sift_stop [OF less.prems(1) True] by simp
  next
    case False
    then have b: "2 * i + 1 < n" and c: "cmp (xs ! i) (xs ! ?q)" by auto
    have "n - ?q < n - i" using larger_child_bounds [OF b, of cmp xs] by linarith
    from less.hyps [OF this sift_step [OF less.prems b c]] less.prems(2)
    have "heap_from m n (sift_list cmp ?q n (swap_at i ?q xs))" by simp
    then show ?thesis using b c by (subst sift_list.simps) (simp add: Let_def)
  qed
qed

text \<open>A sift permutes the first \<open>n\<close> values and leaves the rest.\<close>

lemma mset_swap_at: "i < length xs \<Longrightarrow> j < length xs \<Longrightarrow> mset (swap_at i j xs) = mset xs"
  by (simp add: swap_at_def mset_swap)

lemma drop_swap_at: "i < n \<Longrightarrow> j < n \<Longrightarrow> drop n (swap_at i j xs) = drop n xs"
  by (simp add: swap_at_def drop_update_cancel)

lemma sift_perm:
  "n \<le> length xs \<Longrightarrow> mset (sift_list cmp i n xs) = mset xs \<and> drop n (sift_list cmp i n xs) = drop n xs"
proof (induction "n - i" arbitrary: i xs rule: less_induct)
  case less
  let ?q = "larger_child cmp i n xs"
  show ?case
  proof (cases "n \<le> 2 * i + 1 \<or> \<not> cmp (xs ! i) (xs ! ?q)")
    case True
    then have "sift_list cmp i n xs = xs" by (subst sift_list.simps) (auto simp: Let_def)
    then show ?thesis by simp
  next
    case False
    then have b: "2 * i + 1 < n" and c: "cmp (xs ! i) (xs ! ?q)" by auto
    note q = larger_child_bounds [OF b, of cmp xs]
    have i: "i < n" "n - ?q < n - i" using q by auto
    have "mset (sift_list cmp ?q n (swap_at i ?q xs)) = mset (swap_at i ?q xs) \<and> drop n (sift_list cmp ?q n (swap_at i ?q xs)) = drop n (swap_at i ?q xs)"
      by (rule less.hyps [OF i(2)]) (use less.prems in simp)
    moreover have "mset (swap_at i ?q xs) = mset xs" by (rule mset_swap_at) (use q i less.prems in auto)
    moreover have "drop n (swap_at i ?q xs) = drop n xs" by (rule drop_swap_at) (use q i in auto)
    ultimately show ?thesis using b c by (subst (1 2) sift_list.simps) (simp add: Let_def)
  qed
qed

lemma mset_take: "mset xs = mset ys \<Longrightarrow> drop n xs = drop n ys \<Longrightarrow> mset (take n xs) = mset (take n ys)"
  by (metis add_right_cancel append_take_drop_id mset_append)

lemma sift_take: "n \<le> length xs \<Longrightarrow> mset (take n (sift_list cmp i n xs)) = mset (take n xs)"
  using mset_take sift_perm by blast

lemma sift_length [simp]: "n \<le> length xs \<Longrightarrow> length (sift_list cmp i n xs) = length xs"
  using sift_perm mset_eq_length by blast

lemma heap_max: "heap_from 0 n xs \<Longrightarrow> j < n \<Longrightarrow> le (xs ! j) (xs ! 0)"
proof (induction j rule: less_induct)
  case (less j)
  show ?case
  proof (cases "j = 0")
    case False
    then have "child j ((j - 1) div 2)" unfolding child_def by presburger
    moreover have "(j - 1) div 2 < j" using False by presburger
    ultimately have "le (xs ! j) (xs ! ((j - 1) div 2))" "le (xs ! ((j - 1) div 2)) (xs ! 0)"
      using less by (auto simp: heap_from_def)
    then show ?thesis by (rule le_trans)
  qed simp
qed

lemma build_heap:
  "heap_from i n xs \<Longrightarrow> n \<le> length xs \<Longrightarrow>
   heap_from 0 n (build_list cmp i n xs) \<and> mset (build_list cmp i n xs) = mset xs"
proof (induction i arbitrary: xs)
  case (Suc i)
  have "heap_except i n i xs"
    using Suc.prems(1) by (auto simp: heap_except_def heap_from_def dest: child_less)
  from sift_heap [OF this Suc.prems(2)] have h: "heap_from i n (sift_list cmp i n xs)" .
  from Suc.IH [OF h] Suc.prems(2) sift_perm [OF Suc.prems(2), of i] show ?case by simp
qed simp

definition sorted_by :: "'a list \<Rightarrow> bool" where
  "sorted_by xs \<longleftrightarrow> sorted_wrt le xs"

lemma extract_step:
  assumes H: "heap_from 0 (Suc (Suc e)) xs" and l: "Suc (Suc e) \<le> length xs" and S: "sorted_by (drop (Suc (Suc e)) xs)"
    and T: "\<forall>x \<in> set (take (Suc (Suc e)) xs). \<forall>y \<in> set (drop (Suc (Suc e)) xs). le x y"
    and z: "zs = sift_list cmp 0 (Suc e) (swap_at 0 (Suc e) xs)"
  shows "heap_from 0 (Suc e) zs \<and> length zs = length xs \<and> sorted_by (drop (Suc e) zs) \<and>
    (\<forall>x \<in> set (take (Suc e) zs). \<forall>y \<in> set (drop (Suc e) zs). le x y) \<and> mset zs = mset xs"
proof -
  define ys where "ys = swap_at 0 (Suc e) xs"
  have N: "ys ! k = (if k = Suc e then xs ! 0 else if k = 0 then xs ! Suc e else xs ! k)" for k
    unfolding ys_def using l by (intro swap_nth) auto
  have "mset ys = mset xs" unfolding ys_def by (rule mset_swap_at) (use l in linarith)+
  then have ly: "length ys = length xs" "Suc e \<le> length ys" "mset ys = mset xs" using l by (simp_all add: ys_def)
  have "heap_except 0 (Suc e) 0 ys"
    using H by (auto simp: heap_except_def heap_from_def N child_def)
  from sift_heap [OF this ly(2)] have h: "heap_from 0 (Suc e) zs" by (simp add: z ys_def)
  note P = sift_perm [OF ly(2), of 0, folded z [folded ys_def]]
  have "drop (Suc (Suc e)) ys = drop (Suc (Suc e)) xs" unfolding ys_def by (rule drop_swap_at) simp_all
  then have d: "drop (Suc e) zs = xs ! 0 # drop (Suc (Suc e)) xs"
    using P Cons_nth_drop_Suc [of "Suc e" ys] l ly(1) N by simp
  have tk: "set (take (Suc e) zs) \<subseteq> set (take (Suc (Suc e)) xs)"
  proof -
    have "set (take (Suc e) zs) = set (take (Suc e) ys)"
      using sift_take [OF ly(2), of 0] by (metis mset_eq_setD z ys_def)
    also have "\<dots> \<subseteq> set (take (Suc (Suc e)) xs)"
    proof
      fix x
      assume "x \<in> set (take (Suc e) ys)"
      then obtain k where "k < Suc e" "x = ys ! k" using ly by (auto simp: in_set_conv_nth)
      then have "\<exists>k < Suc (Suc e). x = xs ! k" using N by (metis Zero_neq_Suc less_SucI lessI nat_neq_iff zero_less_Suc)
      then show "x \<in> set (take (Suc (Suc e)) xs)" using l by (auto simp: in_set_conv_nth intro: exI [of _ "_ :: nat"])
    qed
    finally show ?thesis .
  qed
  have top: "le x (xs ! 0)" if "x \<in> set (take (Suc (Suc e)) xs)" for x
    using that heap_max [OF H] l by (auto simp: in_set_conv_nth)
  have "xs ! 0 \<in> set (take (Suc (Suc e)) xs)" using l by (cases xs) auto
  then have "\<forall>y \<in> set (drop (Suc (Suc e)) xs). le (xs ! 0) y" using T by blast
  moreover have "\<forall>x \<in> set (take (Suc e) zs). le x (xs ! 0) \<and> (\<forall>y \<in> set (drop (Suc (Suc e)) xs). le x y)"
    using tk top T by blast
  moreover have "mset zs = mset xs" "length zs = length xs" using P ly(3) mset_eq_length by force+
  ultimately show ?thesis unfolding d using h S by (simp add: sorted_by_def)
qed

lemma extract_sorted:
  "heap_from 0 e xs \<Longrightarrow> e \<le> length xs \<Longrightarrow> sorted_by (drop e xs) \<Longrightarrow> \<forall>x \<in> set (take e xs). \<forall>y \<in> set (drop e xs). le x y \<Longrightarrow>
   sorted_by (extract_list cmp e xs) \<and> mset (extract_list cmp e xs) = mset xs"
proof (induction e arbitrary: xs)
  case 0
  then show ?case by simp
next
  case (Suc e)
  show ?case
  proof (cases e)
    case 0
    then show ?thesis using Suc.prems by (cases xs) (auto simp: sorted_by_def)
  next
    case e: (Suc d)
    define zs where "zs = sift_list cmp 0 e (swap_at 0 e xs)"
    note E = extract_step [of d xs zs, folded e, OF Suc.prems zs_def]
    have "sorted_by (extract_list cmp e zs) \<and> mset (extract_list cmp e zs) = mset zs"
      using Suc.IH [of zs] E Suc.prems(2) by simp
    then show ?thesis using E by (simp add: e zs_def [unfolded e])
  qed
qed

lemma heap_sort_correct: "sorted_by (heap_sort cmp xs) \<and> mset (heap_sort cmp xs) = mset xs"
proof -
  let ?n = "length xs"
  have "heap_from (?n div 2) ?n xs" by (auto simp: heap_from_def child_def)
  note B = build_heap [OF this order_refl]
  then have l: "length (build_list cmp (?n div 2) ?n xs) = ?n" using mset_eq_length by blast
  have "sorted_by (extract_list cmp ?n (build_list cmp (?n div 2) ?n xs)) \<and>
    mset (extract_list cmp ?n (build_list cmp (?n div 2) ?n xs)) = mset (build_list cmp (?n div 2) ?n xs)"
    by (rule extract_sorted) (use B l in \<open>auto simp: sorted_by_def\<close>)
  then show ?thesis using B by (simp add: heap_sort_def)
qed

end

text \<open>The default comparison, \<open>less\<close> on a linearly ordered type.\<close>

interpretation less: weak_order "(<) :: 'a :: linorder \<Rightarrow> 'a \<Rightarrow> bool"
  by unfold_locales auto

section \<open>Heap sort of a hive\<close>

definition slot_of :: "'v heap \<Rightarrow> iter \<Rightarrow> 'v slot" where
  "slot_of h p = (case p of At a i \<Rightarrow> hb_slots (h a) i | End _ \<Rightarrow> Raw)"

definition value_of :: "'v heap \<Rightarrow> iter \<Rightarrow> 'v" where
  "value_of h p = (case slot_of h p of Elem x \<Rightarrow> x)"

definition set_slot_of :: "iter \<Rightarrow> 'v slot \<Rightarrow> 'v heap \<Rightarrow> 'v heap" where
  "set_slot_of p s h = (case p of At a i \<Rightarrow> h(a := set_slot i s (h a)) | End _ \<Rightarrow> h)"

definition swap_values :: "iter \<Rightarrow> iter \<Rightarrow> 'v heap \<Rightarrow> 'v heap" where
  "swap_values p q h = set_slot_of q (slot_of h p) (set_slot_of p (slot_of h q) h)"

function sift_down :: "('v \<Rightarrow> 'v \<Rightarrow> bool) \<Rightarrow> iter list \<Rightarrow> nat \<Rightarrow> nat \<Rightarrow> 'v heap \<Rightarrow> 'v heap" where
  "sift_down cmp positions i n h =
     (let left = 2 * i + 1
      in if left \<ge> n then h
         else let largest = (if left + 1 < n \<and> cmp (value_of h (positions ! left)) (value_of h (positions ! (left + 1)))
                             then left + 1 else left)
              in if \<not> cmp (value_of h (positions ! i)) (value_of h (positions ! largest)) then h
                 else sift_down cmp positions largest n (swap_values (positions ! i) (positions ! largest) h))"
  by pat_completeness auto
termination
  by (relation "measure (\<lambda>(cmp, positions, i, n, h). n - i)") auto

declare sift_down.simps [simp del]

fun build_heap_loop :: "('v \<Rightarrow> 'v \<Rightarrow> bool) \<Rightarrow> iter list \<Rightarrow> nat \<Rightarrow> nat \<Rightarrow> 'v heap \<Rightarrow> 'v heap" where
  "build_heap_loop cmp positions 0 n h = h"
| "build_heap_loop cmp positions (Suc i) n h = build_heap_loop cmp positions i n (sift_down cmp positions i n h)"

fun extract_loop :: "('v \<Rightarrow> 'v \<Rightarrow> bool) \<Rightarrow> iter list \<Rightarrow> nat \<Rightarrow> 'v heap \<Rightarrow> 'v heap" where
  "extract_loop cmp positions e h =
     (if e > 1 then extract_loop cmp positions (e - 1)
        (sift_down cmp positions 0 (e - 1) (swap_values (positions ! 0) (positions ! (e - 1)) h))
      else h)"

declare extract_loop.simps [simp del]

definition hive_sort :: "('v \<Rightarrow> 'v \<Rightarrow> bool) \<Rightarrow> hive \<Rightarrow> 'v heap \<Rightarrow> 'v heap" where
  "hive_sort cmp v h =
     (if hive_size v < 2 then h
      else let positions = hive_positions v h; n = hive_size v
           in extract_loop cmp positions n (build_heap_loop cmp positions (n div 2) n h))"

text \<open>Writing an element's slot keeps the hive and changes one value.\<close>

lemma blk_rep_set_live:
  assumes "blk_rep b (as @ Live x # bs)" "i = width as"
  shows "blk_rep (set_slot i (Elem y) b) (as @ Live y # bs)"
proof (cases rule: live_slot_ctx [OF assms])
  case C: (1 fl)
  have "i \<notin> set fl" using C(3) by blast
  then have F: "fl_rep (set_slot i (Elem y) b) fl" using C(1) by (auto simp: fl_rep_def set_slot_def)
  have S: "segs_at (hb_skip b) ((hb_slots b)(i := Elem y)) 0 as" "segs_at (hb_skip b) ((hb_slots b)(i := Elem y)) (i + 1) bs"
    using C(5,6) assms(2) by (auto intro: segs_at_cong [rotated])
  have wf: "segs_wf (as @ Live x # bs)" using assms(1) by (simp add: blk_rep_def)
  then have "segs_wf (as @ Live y # bs)" by (cases bs) (auto simp: segs_wf_def successively_append_iff successively_Cons)
  then show ?thesis using assms F S C(2,4)
    by (intro blk_repI [OF assms(1), where fl = fl]) (auto simp: set_slot_def blk_rep_def)
qed

lemma hive_rep_set:
  assumes H: "hive_rep v h l" and c: "ls_cells h l = xs @ ((a, i), x) # ys"
  shows "hive_rep v (set_slot_of (At a i) (Elem y) h) l" "ls_cells (set_slot_of (At a i) (Elem y) h) l = xs @ ((a, i), y) # ys"
proof -
  obtain ctl where V: "hv_control v = Some ctl"
    using H c by (cases "hv_control v") (auto simp: hive_rep_owned no_lists_def ls_cells_def)
  then have C: "ctl_rep ctl h l" and W: "\<forall>a \<in> owned l. within (hv_limits v) (hb_capacity (h a))" using H by (simp_all add: hive_rep_owned)
  then have L: "links_ok ctl h l" and K: "content_ok h l" and S: "hc_size ctl = length (ls_cells h l)"
    and N: "hc_capacity ctl = sum_list (map (\<lambda>a. hb_capacity (h a)) (ls_active l @ ls_reserved l))"
    by (auto elim: ctl_repE)
  obtain ps qs as bs where d: "ls_active l = ps @ a # qs" "blk_rep (h a) (as @ Live x # bs)" "i = width as"
    "xs = concat (map (cells_at h) ps) @ map (\<lambda>(i, x). ((a, i), x)) (cells 0 as)"
    "ys = map (\<lambda>(i, x). ((a, i), x)) (cells (i + 1) bs) @ concat (map (cells_at h) qs)"
    using cell_context [OF K c] by blast
  define b where "b = set_slot i (Elem y) (h a)"
  define h' where "h' = h(a := b)"
  have e: "set_slot_of (At a i) (Elem y) h = h'" by (simp add: set_slot_of_def h'_def b_def)
  have B: "blk_rep b (as @ Live y # bs)" unfolding b_def by (rule blk_rep_set_live [OF d(2,3)])
  have dis: "distinct (ps @ a # qs)" "a \<notin> set (ls_reserved l)" using links_owned(2) [OF L] d(1) by auto
  have cx: "\<forall>z. z \<noteq> a \<longrightarrow> content (h' z) = content (h z)" by (simp add: h'_def)
  have room: "has_room b \<longleftrightarrow> has_room (h a)" by (simp add: has_room_def b_def set_slot_def)
  have L': "links_ok ctl h' l" using L by (subst links_cong [of _ _ h]) (auto simp: h'_def b_def)
  have av: "a \<in> set (ls_available l) \<longleftrightarrow> has_room (h a)" using K d(1) by (auto simp: content_ok_def)
  have K': "content_ok h' l"
    by (rule content_ok_upd [OF K d(1) dis cx]) (use B room av in \<open>auto simp: h'_def active_block_def\<close>)
  have pq: "\<forall>z \<in> set (ps @ qs). content (h' z) = content (h z)" using cx dis by auto
  have "cells_at h' a = map (\<lambda>(i, x). ((a, i), x)) (cells 0 (as @ Live y # bs))"
    using blk_cells_rep [OF B] by (simp add: cells_at_def h'_def)
  then have cells: "ls_cells h' l = xs @ ((a, i), y) # ys"
    using ls_cells_split(2) [OF d(1) pq d(1)] d(3,4,5) by simp
  have cap: "\<forall>z. hb_capacity (h' z) = hb_capacity (h z)" by (simp add: h'_def b_def)
  have "ctl_rep ctl h' l" by (rule ctl_repI [OF L' K']) (use S N cells c cap in auto)
  then show "hive_rep v (set_slot_of (At a i) (Elem y) h) l" "ls_cells (set_slot_of (At a i) (Elem y) h) l = xs @ ((a, i), y) # ys"
    using W cells cap V by (simp_all add: e hive_rep_owned)
qed

lemma hive_rep_update:
  assumes H: "hive_rep v h l" and k: "k < length (ls_cells h l)"
  shows "hive_rep v (set_slot_of (cell_iter (ls_cells h l ! k)) (Elem y) h) l"
    "ls_cells (set_slot_of (cell_iter (ls_cells h l ! k)) (Elem y) h) l = (ls_cells h l)[k := (fst (ls_cells h l ! k), y)]"
    "slot_of h (cell_iter (ls_cells h l ! k)) = Elem (snd (ls_cells h l ! k))"
proof -
  obtain a i x where c: "ls_cells h l ! k = ((a, i), x)" by (metis surj_pair)
  have e: "ls_cells h l = take k (ls_cells h l) @ ((a, i), x) # drop (Suc k) (ls_cells h l)"
    using id_take_nth_drop [OF k] c by simp
  note S = hive_rep_set [OF H e, of y]
  show "hive_rep v (set_slot_of (cell_iter (ls_cells h l ! k)) (Elem y) h) l" using S(1) c by (simp add: cell_iter_def)
  show "ls_cells (set_slot_of (cell_iter (ls_cells h l ! k)) (Elem y) h) l = (ls_cells h l)[k := (fst (ls_cells h l ! k), y)]"
    using S(2) c k by (simp add: cell_iter_def upd_conv_take_nth_drop)
  have "content_ok h l" using hive_rep_control(1) [OF H] by (simp add: ctl_rep_def)
  moreover have "((a, i), x) \<in> set (ls_cells h l)" using k c by (metis nth_mem)
  ultimately show "slot_of h (cell_iter (ls_cells h l ! k)) = Elem (snd (ls_cells h l ! k))"
    using cell_value c by (auto simp: cell_iter_def slot_of_def)
qed

text \<open>The hive has these positions and these values.\<close>

definition holds_values :: "hive \<Rightarrow> 'v heap \<Rightarrow> lists \<Rightarrow> iter list \<Rightarrow> 'v list \<Rightarrow> bool" where
  "holds_values v h l ps xs \<longleftrightarrow> hive_rep v h l \<and> map cell_iter (ls_cells h l) = ps \<and> map snd (ls_cells h l) = xs"

lemma holds_values_nth:
  assumes "holds_values v h l ps xs" "i < length xs"
  shows "value_of h (ps ! i) = xs ! i"
proof -
  have H: "hive_rep v h l" and p: "ps = map cell_iter (ls_cells h l)" and x: "xs = map snd (ls_cells h l)"
    using assms(1) by (auto simp: holds_values_def)
  then show ?thesis using hive_rep_update(3) [OF H, of i] assms(2) by (simp add: value_of_def)
qed

lemma swap_values_refines:
  assumes A: "holds_values v h l ps xs" and b: "i < length xs" "j < length xs"
  shows "holds_values v (swap_values (ps ! i) (ps ! j) h) l ps (swap_at i j xs)"
proof -
  define cs where "cs = ls_cells h l"
  have H: "hive_rep v h l" and p: "ps = map cell_iter cs" and x: "xs = map snd cs"
    using A by (auto simp: holds_values_def cs_def)
  have l: "i < length cs" "j < length cs" using b x by auto
  define h1 where "h1 = set_slot_of (cell_iter (cs ! i)) (Elem (snd (cs ! j))) h"
  have h1: "hive_rep v h1 l" "ls_cells h1 l = cs[i := (fst (cs ! i), snd (cs ! j))]"
    using hive_rep_update(1,2) [OF H l(1) [unfolded cs_def]] by (simp_all add: h1_def cs_def)
  have c1: "cell_iter (ls_cells h1 l ! j) = cell_iter (cs ! j)" "fst (ls_cells h1 l ! j) = fst (cs ! j)"
    using h1(2) l by (auto simp: cell_iter_def nth_list_update)
  define h2 where "h2 = set_slot_of (cell_iter (cs ! j)) (Elem (snd (cs ! i))) h1"
  have j1: "j < length (ls_cells h1 l)" using h1(2) l by simp
  have h2: "hive_rep v h2 l" "ls_cells h2 l = cs[i := (fst (cs ! i), snd (cs ! j)), j := (fst (cs ! j), snd (cs ! i))]"
    using hive_rep_update(1,2) [OF h1(1) j1, of "snd (cs ! i)", unfolded c1, unfolded h1(2)] unfolding h2_def by blast+
  have "swap_values (ps ! i) (ps ! j) h = h2"
    using hive_rep_update(3) [OF H] l by (simp add: swap_values_def p h2_def h1_def cs_def)
  moreover have "map cell_iter (ls_cells h2 l) = map cell_iter cs"
    unfolding h2(2) map_update using l by (auto simp: cell_iter_def intro!: nth_equalityI simp: nth_list_update)
  moreover have "map snd (ls_cells h2 l) = swap_at i j xs" using l by (simp add: h2(2) map_update swap_at_def x)
  ultimately show ?thesis using h2(1) p by (simp add: holds_values_def)
qed

lemma sift_down_refines:
  "holds_values v h l ps xs \<Longrightarrow> n \<le> length xs \<Longrightarrow> i < length xs \<Longrightarrow> holds_values v (sift_down cmp ps i n h) l ps (sift_list cmp i n xs)"
proof (induction "n - i" arbitrary: i h xs rule: less_induct)
  case less
  note nth = holds_values_nth [OF less.prems(1)]
  show ?case
  proof (cases "n \<le> 2 * i + 1")
    case True
    then have "sift_down cmp ps i n h = h" "sift_list cmp i n xs = xs"
      by (subst sift_down.simps sift_list.simps; simp)+
    then show ?thesis using less.prems by simp
  next
    case False
    define q where "q = larger_child cmp i n xs"
    have q: "i < q" "q < n" using larger_child_bounds [of i n cmp xs] False by (simp_all add: q_def)
    have c: "(if 2 * i + 1 + 1 < n \<and> cmp (value_of h (ps ! (2 * i + 1))) (value_of h (ps ! (2 * i + 1 + 1))) then 2 * i + 1 + 1 else 2 * i + 1) = q"
      using nth [of "2 * i + 1"] nth [of "2 * i + 2"] less.prems(2) False by (auto simp: q_def larger_child_def Let_def)
    have d: "sift_down cmp ps i n h = (if \<not> cmp (xs ! i) (xs ! q) then h else sift_down cmp ps q n (swap_values (ps ! i) (ps ! q) h))"
      using False nth [of i] nth [of q] q less.prems by (subst sift_down.simps) (simp only: Let_def c if_False)
    have s: "sift_list cmp i n xs = (if \<not> cmp (xs ! i) (xs ! q) then xs else sift_list cmp q n (swap_at i q xs))"
      using False by (subst sift_list.simps) (simp add: Let_def q_def)
    have "holds_values v (swap_values (ps ! i) (ps ! q) h) l ps (swap_at i q xs)"
      by (rule swap_values_refines [OF less.prems(1)]) (use less.prems q in auto)
    then have "holds_values v (sift_down cmp ps q n (swap_values (ps ! i) (ps ! q) h)) l ps (sift_list cmp q n (swap_at i q xs))"
      by (intro less.hyps) (use q less.prems in \<open>auto simp: swap_at_def\<close>)
    then show ?thesis using d s less.prems(1) by simp
  qed
qed

lemma length_sift_list [simp]: "length (sift_list cmp i n xs) = length xs"
  by (induction cmp i n xs rule: sift_list.induct) (subst sift_list.simps, simp add: Let_def swap_at_def)

lemma build_refines:
  "holds_values v h l ps xs \<Longrightarrow> n \<le> length xs \<Longrightarrow> i \<le> length xs \<Longrightarrow>
   holds_values v (build_heap_loop cmp ps i n h) l ps (build_list cmp i n xs)"
proof (induction i arbitrary: h xs)
  case (Suc i)
  have "holds_values v (sift_down cmp ps i n h) l ps (sift_list cmp i n xs)"
    by (rule sift_down_refines) (use Suc.prems in auto)
  from Suc.IH [OF this] show ?case using Suc.prems by simp
qed simp

lemma length_build_list [simp]: "length (build_list cmp i n xs) = length xs"
  by (induction cmp i n xs rule: build_list.induct) auto

lemma extract_refines:
  "holds_values v h l ps xs \<Longrightarrow> e \<le> length xs \<Longrightarrow> holds_values v (extract_loop cmp ps e h) l ps (extract_list cmp e xs)"
proof (induction cmp e xs arbitrary: h rule: extract_list.induct)
  case (3 cmp e xs)
  let ?h = "swap_values (ps ! 0) (ps ! Suc e) h"
  have "holds_values v ?h l ps (swap_at 0 (Suc e) xs)" by (rule swap_values_refines [OF 3(2)]) (use 3(3) in auto)
  then have "holds_values v (sift_down cmp ps 0 (Suc e) ?h) l ps (sift_list cmp 0 (Suc e) (swap_at 0 (Suc e) xs))"
    by (rule sift_down_refines) (use 3(3) in \<open>auto simp: swap_at_def\<close>)
  from 3(1) [OF this] 3(3) have "holds_values v (extract_loop cmp ps (Suc e) (sift_down cmp ps 0 (Suc e) ?h)) l ps
      (extract_list cmp (Suc e) (sift_list cmp 0 (Suc e) (swap_at 0 (Suc e) xs)))" by (simp add: swap_at_def)
  then show ?case by (subst extract_loop.simps) simp
qed (auto simp: extract_loop.simps)

lemma heap_sort_short: "length xs < 2 \<Longrightarrow> heap_sort cmp xs = xs"
  by (cases xs rule: remdups_adj.cases) (auto simp: heap_sort_def)

lemma hive_sort_refines:
  assumes "hive_rep v h l"
  shows "holds_values v (hive_sort cmp v h) l (hive_positions v h) (heap_sort cmp (map snd (ls_cells h l)))"
proof -
  let ?xs = "map snd (ls_cells h l)"
  have A: "holds_values v h l (hive_positions v h) ?xs" using assms hive_positions_cells [OF assms] by (simp add: holds_values_def)
  have n: "hive_size v = length ?xs" using hive_size_cells [OF assms] by simp
  show ?thesis
  proof (cases "hive_size v < 2")
    case True
    then show ?thesis using A n heap_sort_short [of ?xs cmp] by (simp add: hive_sort_def)
  next
    case False
    then have "holds_values v (build_heap_loop cmp (hive_positions v h) (length ?xs div 2) (length ?xs) h) l (hive_positions v h)
        (build_list cmp (length ?xs div 2) (length ?xs) ?xs)" using A by (intro build_refines) auto
    then show ?thesis using False n extract_refines [of v _ l _ _ "length ?xs" cmp]
      by (simp add: hive_sort_def Let_def heap_sort_def)
  qed
qed

text \<open>
  C19.  \<open>sort\<close> orders the values of a hive: afterwards the values in traversal order are sorted
  with respect to the comparison, a permutation of the old ones, and at the same positions as
  before; no block moves.  The comparison has to be a strict weak order.
\<close>

theorem hive_sort_sorts:
  assumes "weak_order cmp" "hive_rep v h l"
  shows "hive_rep v (hive_sort cmp v h) l \<and> hive_positions v (hive_sort cmp v h) = hive_positions v h \<and>
    sorted_wrt (\<lambda>x y. \<not> cmp y x) (map snd (ls_cells (hive_sort cmp v h) l)) \<and>
    mset (map snd (ls_cells (hive_sort cmp v h) l)) = mset (map snd (ls_cells h l))"
proof -
  have R: "hive_rep v (hive_sort cmp v h) l" "map cell_iter (ls_cells (hive_sort cmp v h) l) = hive_positions v h"
    "map snd (ls_cells (hive_sort cmp v h) l) = heap_sort cmp (map snd (ls_cells h l))"
    using hive_sort_refines [OF assms(2), of cmp] by (simp_all add: holds_values_def)
  have "sorted_wrt (\<lambda>x y. \<not> cmp y x) (heap_sort cmp (map snd (ls_cells h l)))"
    using weak_order.heap_sort_correct [OF assms(1), of "map snd (ls_cells h l)"]
    by (simp add: weak_order.sorted_by_def [OF assms(1)] weak_order.le_def [OF assms(1), abs_def])
  then show ?thesis using R hive_positions_cells [OF R(1)] weak_order.heap_sort_correct [OF assms(1)] by simp
qed

theorem hive_sort_sorts_witness:
  "\<exists>v h l. hive_positions v (h :: nat heap) = [At 1 0, At 1 1, At 2 0] \<and>
    (hive_rep v (hive_sort (>) v h) l \<and> hive_positions v (hive_sort (>) v h) = hive_positions v h \<and>
    sorted_wrt (\<lambda>x y. \<not> x < y) (map snd (ls_cells (hive_sort (>) v h) l)) \<and>
    mset (map snd (ls_cells (hive_sort (>) v h) l)) = mset (map snd (ls_cells h l)))"
proof (rule demo_state)
  fix v and h :: "nat heap" and A v' and h' :: "nat heap" and A' l
  assume I: "hive_inv (v, h, A) l" and p: "hive_positions v h = [At 1 0, At 1 1, At 2 0]"
  then have H: "hive_rep v h l" by (auto simp: hive_inv_def)
  have O: "weak_order ((>) :: nat \<Rightarrow> nat \<Rightarrow> bool)" by unfold_locales auto
  show ?thesis
    by (rule exI [of _ v], rule exI [of _ h], rule exI [of _ l], rule conjI [OF p]) (use hive_sort_sorts [OF O H] in simp)
qed

end
