(* ===== verification/Hive_Algorithms.thy ===== *)
theory Hive_Algorithms
  imports Hive_Sort
begin

text \<open>
  Erasure of many elements of a hive (\<open>backport/cpp26/hive.hpp\<close>): \<open>erase\<close> of a range,
  \<open>unique\<close>, \<open>erase_if\<close> and \<open>erase\<close> of a value.

  The loops hold iterators across erasures and compare them with \<open>end()\<close>, whose epoch
  changes when the last element is erased.  Each loop is shown to return and to act on the
  list of cells as the function of the same name acts on a list.
\<close>

section \<open>The loops\<close>

text \<open>
  A loop whose iterator leaves the range without meeting its end would erase at \<open>end()\<close>,
  which is outside the contract of \<open>erase\<close>; the value there is \<open>None\<close>, as for a loop that
  does not return.
\<close>

partial_function (option) erase_tail_loop :: "iter \<Rightarrow> hive \<Rightarrow> 'v heap \<Rightarrow> (hive \<times> 'v heap) option" where
  "erase_tail_loop first v h =
     (case first of End e \<Rightarrow> Some (v, h)
      | At a i \<Rightarrow> (case erase_at a i v h of (p, v', h') \<Rightarrow> erase_tail_loop p v' h'))"

partial_function (option) erase_upto_loop :: "addr \<Rightarrow> nat \<Rightarrow> iter \<Rightarrow> hive \<Rightarrow> 'v heap \<Rightarrow> (hive \<times> 'v heap) option" where
  "erase_upto_loop b j first v h =
     (if first = At b j then Some (v, h)
      else case first of End e \<Rightarrow> None
           | At a i \<Rightarrow> (case erase_at a i v h of (p, v', h') \<Rightarrow> erase_upto_loop b j p v' h'))"

definition erase_range :: "iter \<Rightarrow> iter \<Rightarrow> hive \<Rightarrow> 'v heap \<Rightarrow> (iter \<times> hive \<times> 'v heap) option" where
  "erase_range first limit v h =
     (case limit of
        End e \<Rightarrow> map_option (\<lambda>(v', h'). (hive_end v', v', h')) (erase_tail_loop first v h)
      | At b j \<Rightarrow> map_option (\<lambda>(v', h'). (At b j, v', h')) (erase_upto_loop b j first v h))"

partial_function (option) unique_loop ::
  "('v \<Rightarrow> 'v \<Rightarrow> bool) \<Rightarrow> nat \<Rightarrow> iter \<Rightarrow> iter \<Rightarrow> hive \<Rightarrow> 'v heap \<Rightarrow> (nat \<times> hive \<times> 'v heap) option" where
  "unique_loop eq removed previous current v h =
     (if current = hive_end v then Some (removed, v, h)
      else if eq (value_of h current) (value_of h previous)
      then (case current of End e \<Rightarrow> None
            | At a i \<Rightarrow> (case erase_at a i v h of (p, v', h') \<Rightarrow> unique_loop eq (removed + 1) previous p v' h'))
      else unique_loop eq removed current (iter_next v h current) v h)"

definition unique :: "('v \<Rightarrow> 'v \<Rightarrow> bool) \<Rightarrow> hive \<Rightarrow> 'v heap \<Rightarrow> (nat \<times> hive \<times> 'v heap) option" where
  "unique eq v h =
     (if hive_size v < 2 then Some (0, v, h)
      else let previous = hive_begin v h in unique_loop eq 0 previous (iter_next v h previous) v h)"

partial_function (option) erase_if_loop :: "('v \<Rightarrow> bool) \<Rightarrow> iter \<Rightarrow> hive \<Rightarrow> 'v heap \<Rightarrow> (hive \<times> 'v heap) option" where
  "erase_if_loop pred current v h =
     (if current = hive_end v then Some (v, h)
      else if pred (value_of h current)
      then (case current of End e \<Rightarrow> None
            | At a i \<Rightarrow> (case erase_at a i v h of (p, v', h') \<Rightarrow> erase_if_loop pred p v' h'))
      else erase_if_loop pred (iter_next v h current) v h)"

definition erase_if :: "('v \<Rightarrow> bool) \<Rightarrow> hive \<Rightarrow> 'v heap \<Rightarrow> (nat \<times> hive \<times> 'v heap) option" where
  "erase_if pred v h =
     map_option (\<lambda>(v', h'). (hive_size v - hive_size v', v', h')) (erase_if_loop pred (hive_begin v h) v h)"

definition erase_value :: "'v \<Rightarrow> hive \<Rightarrow> 'v heap \<Rightarrow> (nat \<times> hive \<times> 'v heap) option" where
  "erase_value x v h = erase_if (\<lambda>y. y = x) v h"

section \<open>What they do on lists\<close>

text \<open>An element goes when it is equal to the last element that stays.\<close>

fun unique_list :: "('a \<Rightarrow> 'a \<Rightarrow> bool) \<Rightarrow> 'a \<Rightarrow> 'a list \<Rightarrow> 'a list" where
  "unique_list eq x [] = [x]"
| "unique_list eq x (y # ys) = (if eq y x then unique_list eq x ys else x # unique_list eq y ys)"

lemma unique_list_length: "length (unique_list eq x ys) \<le> Suc (length ys)"
  by (induction ys arbitrary: x) (auto simp: le_SucI)

lemma unique_list_remdups_adj: "map f (unique_list (\<lambda>c d. f c = f d) x ys) = remdups_adj (map f (x # ys))"
  by (induction ys arbitrary: x) auto

section \<open>Correctness of the loops\<close>

text \<open>The hive holds these cells, in at most the capacity and the blocks it had.\<close>

definition holds :: "hive \<Rightarrow> 'v heap \<Rightarrow> addr set \<Rightarrow> nat \<Rightarrow> ((addr \<times> nat) \<times> 'v) list \<Rightarrow> bool" where
  "holds v h A n cs \<longleftrightarrow> (\<exists>l. hive_rep v h l \<and> ls_cells h l = cs \<and> owned l = A \<and> hive_capacity v = n)"

lemma holds_erase:
  assumes "holds v h A n (xs @ ((a, i), x) # ys)"
  obtains v' h' where "erase_at a i v h = (first_iter (hive_end v') ys, v', h')" "holds v' h' A n (xs @ ys)"
proof -
  from assms obtain l where l: "hive_rep v h l" "ls_cells h l = xs @ ((a, i), x) # ys" "owned l = A" "hive_capacity v = n"
    by (auto simp: holds_def)
  obtain p v' h' where e: "erase_at a i v h = (p, v', h')" using prod_cases3 by blast
  from erase_correct [OF l(1,2) e] that e l show ?thesis by (fastforce simp: holds_def)
qed

lemma holds_next: "holds v h A n (xs @ ((a, i), x) # ys) \<Longrightarrow> iter_next v h (At a i) = first_iter (hive_end v) ys"
  using hive_rep_control(1) iter_next_cell by (fastforce simp: holds_def)

lemma holds_value: "holds v h A n (xs @ ((a, i), x) # ys) \<Longrightarrow> value_of h (At a i) = x"
proof -
  assume "holds v h A n (xs @ ((a, i), x) # ys)"
  then obtain l where "hive_rep v h l" and c: "ls_cells h l = xs @ ((a, i), x) # ys" by (auto simp: holds_def)
  then have "content_ok h l" using hive_rep_control(1) by (auto simp: ctl_rep_def)
  then show ?thesis using cell_value [of h l a i x] c by (simp add: value_of_def slot_of_def)
qed

lemma holds_size: "holds v h A n cs \<Longrightarrow> hive_size v = length cs"
  using hive_size_cells by (auto simp: holds_def)

lemma holds_begin: "holds v h A n cs \<Longrightarrow> hive_begin v h = first_iter (hive_end v) cs"
  using hive_begin_first by (auto simp: holds_def)

lemma first_iter_end: "first_iter (hive_end v) cs = hive_end v' \<Longrightarrow> cs = [] \<and> hive_end v = hive_end v'"
  by (cases cs) (auto simp: first_iter_def hive_end_def split: prod.splits)

lemma holds_distinct: "holds v h A n cs \<Longrightarrow> distinct (map fst cs)"
  using hive_rep_control(1) distinct_positions links_owned(2) by (fastforce simp: holds_def ctl_rep_def)

lemma erase_tail_ok:
  "holds v h A n (xs @ ms) \<Longrightarrow> \<exists>v' h'. erase_tail_loop (first_iter (hive_end v) ms) v h = Some (v', h') \<and> holds v' h' A n xs"
proof (induction ms arbitrary: v h)
  case Nil
  then show ?case by (simp add: erase_tail_loop.simps hive_end_def)
next
  case (Cons m ms)
  obtain a i x where m: "m = ((a, i), x)" by (metis surj_pair)
  from Cons.prems obtain w g where e: "erase_at a i v h = (first_iter (hive_end w) ms, w, g)" "holds w g A n (xs @ ms)"
    unfolding m by (rule holds_erase)
  show ?case using Cons.IH [OF e(2)] by (subst erase_tail_loop.simps) (simp add: m e(1))
qed

lemma erase_upto_ok:
  "holds v h A n (xs @ ms @ ((b, j), y) # ys) \<Longrightarrow>
   \<exists>v' h'. erase_upto_loop b j (first_iter (hive_end v) (ms @ ((b, j), y) # ys)) v h = Some (v', h') \<and> holds v' h' A n (xs @ ((b, j), y) # ys)"
proof (induction ms arbitrary: v h)
  case Nil
  then show ?case by (simp add: erase_upto_loop.simps)
next
  case (Cons m ms)
  obtain a i x where m: "m = ((a, i), x)" by (metis surj_pair)
  from Cons.prems obtain w g where e: "erase_at a i v h = (first_iter (hive_end w) (ms @ ((b, j), y) # ys), w, g)"
    "holds w g A n (xs @ ms @ ((b, j), y) # ys)"
    unfolding m append_Cons by (rule holds_erase)
  have "(a, i) \<noteq> (b, j)" using holds_distinct [OF Cons.prems] by (auto simp: m)
  then show ?case using Cons.IH [OF e(2)] by (subst erase_upto_loop.simps) (auto simp: m e(1))
qed

lemma erase_range_ok:
  assumes "holds v h A n (xs @ ms @ ys)"
  shows "\<exists>v' h'. erase_range (first_iter (hive_end v) (ms @ ys)) (first_iter (hive_end v) ys) v h = Some (first_iter (hive_end v') ys, v', h') \<and>
    holds v' h' A n (xs @ ys)"
proof (cases ys)
  case Nil
  then show ?thesis using assms erase_tail_ok [of v h A n xs ms] by (auto simp: erase_range_def hive_end_def)
next
  case (Cons y zs)
  obtain b j x where y: "y = ((b, j), x)" by (metis surj_pair)
  show ?thesis using assms erase_upto_ok [of v h A n xs ms b j x zs] by (auto simp: erase_range_def Cons y)
qed

lemma unique_loop_ok:
  "holds v h A n (xs @ ((a, i), x) # ys) \<Longrightarrow>
   \<exists>v' h'. unique_loop eq k (At a i) (first_iter (hive_end v) ys) v h = Some (k + (length ys + 1 - length (unique_list (\<lambda>c d. eq (snd c) (snd d)) ((a, i), x) ys)), v', h') \<and>
     holds v' h' A n (xs @ unique_list (\<lambda>c d. eq (snd c) (snd d)) ((a, i), x) ys)"
proof (induction ys arbitrary: v h xs a i x k)
  case Nil
  then show ?case by (simp add: unique_loop.simps)
next
  case (Cons y ys)
  obtain b j z where y: "y = ((b, j), z)" by (metis surj_pair)
  note H = Cons.prems [unfolded y]
  have H2: "holds v h A n ((xs @ [((a, i), x)]) @ ((b, j), z) # ys)" using H by simp
  have v: "value_of h (At a i) = x" "value_of h (At b j) = z" using holds_value [OF H] holds_value [OF H2] by simp_all
  show ?case
  proof (cases "eq z x")
    case True
    from H2 obtain w g where e: "erase_at b j v h = (first_iter (hive_end w) ys, w, g)" "holds w g A n ((xs @ [((a, i), x)]) @ ys)"
      by (rule holds_erase)
    from e(2) have "holds w g A n (xs @ ((a, i), x) # ys)" by simp
    from Cons.IH [OF this, of "k + 1"] True v e(1) show ?thesis
      by (subst unique_loop.simps) (simp add: y hive_end_def Suc_diff_le [OF unique_list_length])
  next
    case False
    from Cons.IH [OF H2, of k] False v holds_next [OF H2] show ?thesis
      by (subst unique_loop.simps) (simp add: y hive_end_def)
  qed
qed

lemma unique_ok:
  assumes "holds v h A n cs"
  shows "\<exists>r v' h' ds. unique eq v h = Some (r, v', h') \<and> holds v' h' A n ds \<and> r = length cs - length ds \<and>
    ds = (case cs of [] \<Rightarrow> [] | c # cs \<Rightarrow> unique_list (\<lambda>c d. eq (snd c) (snd d)) c cs)"
proof (cases "length cs < 2")
  case True
  then have "unique eq v h = Some (0, v, h)" using holds_size [OF assms] by (simp add: unique_def)
  moreover have "cs = (case cs of [] \<Rightarrow> [] | c # cs \<Rightarrow> unique_list (\<lambda>c d. eq (snd c) (snd d)) c cs)" using True by (cases cs) auto
  ultimately show ?thesis using assms by fastforce
next
  case False
  then obtain a i x ys where c: "cs = ((a, i), x) # ys" by (cases cs) auto
  have H: "holds v h A n ([] @ ((a, i), x) # ys)" using assms c by simp
  have "unique eq v h = unique_loop eq 0 (At a i) (first_iter (hive_end v) ys) v h"
    using False holds_size [OF assms] holds_begin [OF assms] holds_next [OF H] by (simp add: unique_def c)
  then show ?thesis using unique_loop_ok [OF H, of eq 0] by (auto simp: c)
qed

lemma erase_if_loop_ok:
  "holds v h A n (xs @ ys) \<Longrightarrow>
   \<exists>v' h'. erase_if_loop pred (first_iter (hive_end v) ys) v h = Some (v', h') \<and> holds v' h' A n (xs @ filter (\<lambda>c. \<not> pred (snd c)) ys)"
proof (induction ys arbitrary: v h xs)
  case Nil
  then show ?case by (simp add: erase_if_loop.simps)
next
  case (Cons y ys)
  obtain a i x where y: "y = ((a, i), x)" by (metis surj_pair)
  note H = Cons.prems [unfolded y]
  show ?case
  proof (cases "pred x")
    case True
    from H obtain w g where e: "erase_at a i v h = (first_iter (hive_end w) ys, w, g)" "holds w g A n (xs @ ys)" by (rule holds_erase)
    from Cons.IH [OF e(2)] True holds_value [OF H] e(1) show ?thesis by (subst erase_if_loop.simps) (simp add: y hive_end_def)
  next
    case False
    have "holds v h A n ((xs @ [((a, i), x)]) @ ys)" using H by simp
    from Cons.IH [OF this] False holds_value [OF H] holds_next [OF H] show ?thesis
      by (subst erase_if_loop.simps) (simp add: y hive_end_def)
  qed
qed

lemma erase_if_ok:
  assumes "holds v h A n cs"
  shows "\<exists>v' h'. erase_if pred v h = Some (length (filter (\<lambda>c. pred (snd c)) cs), v', h') \<and> holds v' h' A n (filter (\<lambda>c. \<not> pred (snd c)) cs)"
proof -
  from erase_if_loop_ok [of v h A n "[]" cs pred] assms obtain v' h' where
    r: "erase_if_loop pred (hive_begin v h) v h = Some (v', h')" "holds v' h' A n (filter (\<lambda>c. \<not> pred (snd c)) cs)"
    using holds_begin [OF assms] by auto
  have "length cs = length (filter (\<lambda>c. pred (snd c)) cs) + length (filter (\<lambda>c. \<not> pred (snd c)) cs)"
    by (rule sum_length_filter_compl [symmetric])
  then show ?thesis using r holds_size [OF assms] holds_size [OF r(2)] by (simp add: erase_if_def)
qed

section \<open>Properties\<close>

lemma holds_cells: "hive_rep v h l \<Longrightarrow> holds v h (owned l) (hive_capacity v) (ls_cells h l)"
  by (auto simp: holds_def)

text \<open>
  C6.  The operations that erase many elements return and erase exactly what they should: \<open>erase_if\<close>
  the elements that satisfy the predicate, \<open>unique\<close> each element equal to the last one kept
  before it, \<open>erase\<close> of a range the elements of the range.  All other elements stay at their
  positions with their values, in their order, the blocks and the capacity stay as they were, and the
  results are the number of erased elements and the position behind the range.
\<close>

theorem hive_erase_many:
  assumes "holds v h A n cs"
  shows "(\<exists>v' h'. erase_if pred v h = Some (length (filter (\<lambda>c. pred (snd c)) cs), v', h') \<and> holds v' h' A n (filter (\<lambda>c. \<not> pred (snd c)) cs)) \<and>
    (\<exists>r v' h' ds. unique eq v h = Some (r, v', h') \<and> holds v' h' A n ds \<and> r = length cs - length ds \<and>
       ds = (case cs of [] \<Rightarrow> [] | c # cs \<Rightarrow> unique_list (\<lambda>c d. eq (snd c) (snd d)) c cs) \<and>
       (eq = (=) \<longrightarrow> map snd ds = remdups_adj (map snd cs))) \<and>
    (\<forall>xs ms ys. cs = xs @ ms @ ys \<longrightarrow>
       (\<exists>v' h'. erase_range (first_iter (hive_end v) (ms @ ys)) (first_iter (hive_end v) ys) v h = Some (first_iter (hive_end v') ys, v', h') \<and>
          holds v' h' A n (xs @ ys)))"
proof (intro conjI)
  show "\<exists>v' h'. erase_if pred v h = Some (length (filter (\<lambda>c. pred (snd c)) cs), v', h') \<and> holds v' h' A n (filter (\<lambda>c. \<not> pred (snd c)) cs)"
    by (rule erase_if_ok [OF assms])
  from unique_ok [OF assms, of eq] obtain r v' h' ds where U: "unique eq v h = Some (r, v', h')" "holds v' h' A n ds" "r = length cs - length ds"
    "ds = (case cs of [] \<Rightarrow> [] | c # cs \<Rightarrow> unique_list (\<lambda>c d. eq (snd c) (snd d)) c cs)" by blast
  have "eq = (=) \<longrightarrow> map snd ds = remdups_adj (map snd cs)"
    using U(4) unique_list_remdups_adj [of snd] by (cases cs) auto
  then show "\<exists>r v' h' ds. unique eq v h = Some (r, v', h') \<and> holds v' h' A n ds \<and> r = length cs - length ds \<and>
       ds = (case cs of [] \<Rightarrow> [] | c # cs \<Rightarrow> unique_list (\<lambda>c d. eq (snd c) (snd d)) c cs) \<and>
       (eq = (=) \<longrightarrow> map snd ds = remdups_adj (map snd cs))" using U by blast
  show "\<forall>xs ms ys. cs = xs @ ms @ ys \<longrightarrow>
       (\<exists>v' h'. erase_range (first_iter (hive_end v) (ms @ ys)) (first_iter (hive_end v) ys) v h = Some (first_iter (hive_end v') ys, v', h') \<and>
          holds v' h' A n (xs @ ys))" using erase_range_ok assms by blast
qed

theorem hive_erase_many_witness:
  "\<exists>v (h :: nat heap) A n cs. holds v h A n cs \<and> length cs = 3 \<and>
    (\<exists>v' h'. erase_if (\<lambda>x. x = 20) v h = Some (length (filter (\<lambda>c. snd c = 20) cs), v', h') \<and> holds v' h' A n (filter (\<lambda>c. snd c \<noteq> 20) cs)) \<and>
    (\<exists>r v' h' ds. unique (=) v h = Some (r, v', h') \<and> holds v' h' A n ds \<and> map snd ds = remdups_adj (map snd cs)) \<and>
    (\<exists>v' h'. erase_range (hive_begin v h) (hive_end v) v h = Some (hive_end v', v', h') \<and> holds v' h' A n [])"
proof (rule demo_state)
  fix v and h :: "nat heap" and A v' and h' :: "nat heap" and A' l
  assume I: "hive_inv (v, h, A) l" and p: "hive_positions v h = [At 1 0, At 1 1, At 2 0]"
  then have H: "hive_rep v h l" by (simp add: hive_inv_def)
  have "length (hive_positions v h) = 3" by (simp add: p)
  then have n: "length (ls_cells h l) = 3" using hive_positions_cells [OF H] by simp
  note C = holds_cells [OF H]
  note M = hive_erase_many [OF C, of "\<lambda>x. x = 20" "(=)"]
  have U: "\<exists>r v' h' ds. unique (=) v h = Some (r, v', h') \<and> holds v' h' (owned l) (hive_capacity v) ds \<and> map snd ds = remdups_adj (map snd (ls_cells h l))"
    using M [THEN conjunct2, THEN conjunct1] by metis
  have R: "\<exists>v' h'. erase_range (hive_begin v h) (hive_end v) v h = Some (hive_end v', v', h') \<and> holds v' h' (owned l) (hive_capacity v) []"
    using M [THEN conjunct2, THEN conjunct2, rule_format, of "[]" "ls_cells h l" "[]"] holds_begin [OF C] by simp
  note W = C n M [THEN conjunct1] U R
  show ?thesis
    by (rule exI [of _ v], rule exI [of _ h], rule exI [of _ "owned l"], rule exI [of _ "hive_capacity v"], rule exI [of _ "ls_cells h l"])
      (intro conjI W)
qed

end
