(* ===== verification/Hive_Splice.thy ===== *)
theory Hive_Splice
  imports Hive_Algorithms
begin

text \<open>
  Operations on two hives (\<open>backport/cpp26/hive.hpp\<close>): \<open>swap\<close>, the moves between hives with
  equal allocators, and \<open>splice\<close>.

  The two hives share one heap of blocks.  The pointers from a control state to its hive and
  from a block to its control state are not represented: the hive of a control state is the
  one that holds it, and that of a block the one whose lists contain it.
\<close>

section \<open>Swapping and stealing\<close>

definition hive_swap :: "hive \<Rightarrow> hive \<Rightarrow> hive \<times> hive" where
  "hive_swap v w =
     (touch_end (v\<lparr>hv_control := hv_control w, hv_limits := hv_limits w\<rparr>),
      touch_end (w\<lparr>hv_control := hv_control v, hv_limits := hv_limits v\<rparr>))"

definition steal_from :: "hive \<Rightarrow> hive \<Rightarrow> hive \<times> hive" where
  "steal_from v other = (v\<lparr>hv_control := hv_control other, hv_limits := hv_limits other\<rparr>, other\<lparr>hv_control := None\<rparr>)"

definition hive_move :: "hive \<Rightarrow> hive \<Rightarrow> hive \<times> hive" where
  "hive_move v other = (case steal_from v other of (v', other') \<Rightarrow> (touch_end v', touch_end other'))"

section \<open>Splicing\<close>

text \<open>The capacities of the active blocks must fit the limits of the destination.\<close>

partial_function (option) splice_check :: "limits \<Rightarrow> ptr \<Rightarrow> nat \<Rightarrow> 'v heap \<Rightarrow> (hexn + nat) option" where
  "splice_check lim p active_capacity h =
     (if p = None then Some (Inr active_capacity)
      else let b = h (the p)
           in if \<not> within lim (hb_capacity b) then Some (Inl Length_error)
              else splice_check lim (hb_active_next b) (active_capacity + hb_capacity b) h)"

text \<open>The active list of the source goes behind that of the destination.\<close>

definition splice_link :: "addr \<Rightarrow> addr \<Rightarrow> control \<Rightarrow> 'v heap \<Rightarrow> control \<times> 'v heap" where
  "splice_link first lst dc h =
     (let (dc1, h1) = (case active_tail dc of
            Some t \<Rightarrow> (let g = h(t := (h t)\<lparr>hb_active_next := Some first\<rparr>)
                       in (dc, g(first := (g first)\<lparr>hb_active_prev := Some t\<rparr>)))
          | None \<Rightarrow> (dc\<lparr>active_head := Some first\<rparr>, h(first := (h first)\<lparr>hb_active_prev := None\<rparr>)))
      in (dc1\<lparr>active_tail := Some lst\<rparr>, h1(lst := (h1 lst)\<lparr>hb_active_next := None\<rparr>)))"

text \<open>Every moved block gets a new place in the order and in the list of blocks with room.\<close>

partial_function (option) splice_relink :: "ptr \<Rightarrow> control \<Rightarrow> 'v heap \<Rightarrow> (control \<times> 'v heap) option" where
  "splice_relink p dc h =
     (if p = None then Some (dc, h)
      else let a = the p;
               available = hb_in_available (h a);
               h1 = h(a := (h a)\<lparr>hb_available_prev := None, hb_available_next := None, hb_in_available := False,
                        hb_order := next_block_order dc\<rparr>);
               dc1 = dc\<lparr>next_block_order := next_block_order dc + 1\<rparr>
           in case (if available then available_add a dc1 h1 else (dc1, h1)) of
                (dc2, h2) \<Rightarrow> splice_relink (hb_active_next (h2 a)) dc2 h2)"

definition splice_commit :: "nat \<Rightarrow> control \<Rightarrow> control \<Rightarrow> hive \<Rightarrow> hive \<Rightarrow> 'v heap \<Rightarrow> (hive \<times> hive \<times> 'v heap) option" where
  "splice_commit active_capacity dc sc v s h =
     (let first = the (active_head sc);
          (dc1, h1) = splice_link first (the (active_tail sc)) dc h
      in map_option (\<lambda>(dc2, h2).
           (touch_end (v\<lparr>hv_control := Some (dc2\<lparr>hc_size := hc_size dc2 + hc_size sc, hc_capacity := hc_capacity dc2 + active_capacity\<rparr>)\<rparr>),
            touch_end (s\<lparr>hv_control := Some (sc\<lparr>active_head := None, active_tail := None, available_head := None, hc_size := 0,
                           hc_capacity := hc_capacity sc - active_capacity\<rparr>)\<rparr>),
            h2)) (splice_relink (Some first) dc1 h1))"

text \<open>
  \<open>splice\<close> of another hive; \<open>ctl\<close> says whether a control state can be allocated.
\<close>

definition hive_splice :: "bool \<Rightarrow> hive \<Rightarrow> hive \<Rightarrow> 'v heap \<Rightarrow> ((hexn + unit) \<times> hive \<times> hive \<times> 'v heap) option" where
  "hive_splice ctl v s h =
     (case Option.bind (hv_control s) active_head of
        None \<Rightarrow> Some (Inr (), touch_end v, touch_end s, h)
      | Some first \<Rightarrow>
          (let sc = the (hv_control s)
           in Option.bind (splice_check (hv_limits v) (Some first) 0 h) (\<lambda>r.
                case r of
                  Inl e \<Rightarrow> Some (Inl e, v, s, h)
                | Inr active_capacity \<Rightarrow>
                    if hv_control v = None \<and> reserved_head sc = None
                    then Some (Inr (), touch_end (v\<lparr>hv_control := Some sc\<rparr>), touch_end (s\<lparr>hv_control := None\<rparr>), h)
                    else if hv_control v = None \<and> \<not> ctl then Some (Inl Bad_alloc, v, s, h)
                    else map_option (\<lambda>(v', s', h'). (Inr (), v', s', h'))
                           (splice_commit active_capacity (case hv_control v of None \<Rightarrow> control_new | Some c \<Rightarrow> c) sc v s h))))"

section \<open>The loops of splice\<close>

lemma splice_check_ok:
  "chain (\<lambda>a. hb_active_next (h a)) p as None \<Longrightarrow>
   splice_check lim p n h = Some (if \<forall>a \<in> set as. within lim (hb_capacity (h a))
     then Inr (n + sum_list (map (\<lambda>a. hb_capacity (h a)) as)) else Inl Length_error)"
proof (induction as arbitrary: p n)
  case Nil
  then show ?case by (simp add: splice_check.simps)
next
  case (Cons a as)
  then show ?case by (subst splice_check.simps) (auto simp: Let_def add.assoc)
qed

text \<open>A block without its place in the order and in the list of blocks with room.\<close>

definition place_core :: "'v hblock \<Rightarrow> 'v hblock" where
  "place_core b = (avail_core b)\<lparr>hb_order := 0\<rparr>"

lemma place_core_avail: "avail_core b' = avail_core b \<Longrightarrow> place_core b' = place_core b"
  by (simp add: place_core_def)

lemma place_core_upd [simp]:
  "place_core (b\<lparr>hb_available_prev := p, hb_available_next := q, hb_in_available := i, hb_order := n\<rparr>) = place_core b"
  by (simp add: place_core_def avail_core_def)

lemma place_core_simps:
  assumes "place_core b' = place_core b"
  shows "content b' = content b" "hb_active b' = hb_active b" "hb_active_prev b' = hb_active_prev b"
    "hb_active_next b' = hb_active_next b" "hb_reserved_next b' = hb_reserved_next b"
  using assms by (cases b; cases b'; simp add: place_core_def avail_core_def content_def)+

lemma splice_relink_ok:
  fixes h :: "'v heap"
  assumes "chain (\<lambda>a. hb_active_next (h a)) p as None" "avl.dll h (available_head c) vs" "set as \<inter> set vs = {}" "distinct as"
  shows "\<exists>c' h' q. splice_relink p c h = Some (c', h') \<and>
    c' = c\<lparr>available_head := q, next_block_order := next_block_order c + length as\<rparr> \<and>
    avl.dll h' q (rev (filter (\<lambda>a. hb_in_available (h a)) as) @ vs) \<and>
    (\<forall>x. place_core (h' x) = place_core (h x) \<and> hb_in_available (h' x) = hb_in_available (h x)) \<and>
    (\<forall>x. x \<notin> set as \<longrightarrow> hb_order (h' x) = hb_order (h x)) \<and>
    map (\<lambda>a. hb_order (h' a)) as = [next_block_order c ..< next_block_order c + length as] \<and>
    (\<forall>x. x \<notin> set as \<and> x \<notin> set vs \<longrightarrow> h' x = h x)"
  using assms
proof (induction as arbitrary: p c h vs)
  case Nil
  then show ?case by (intro exI [of _ c] exI [of _ h] exI [of _ "available_head c"]) (simp add: splice_relink.simps)
next
  case (Cons a as)
  define h1 where "h1 = h(a := (h a)\<lparr>hb_available_prev := None, hb_available_next := None, hb_in_available := False,
                        hb_order := next_block_order c\<rparr>)"
  define c1 where "c1 = c\<lparr>next_block_order := Suc (next_block_order c)\<rparr>"
  obtain c2 h2 where r: "(if hb_in_available (h a) then available_add a c1 h1 else (c1, h1)) = (c2, h2)" by fastforce
  have a: "a \<notin> set vs" "a \<notin> set as" using Cons.prems(3,4) by auto
  have d1: "avl.dll h1 (available_head c1) vs"
    using Cons.prems(2) a by (subst avl.dll_cong [of _ _ h]) (auto simp: h1_def c1_def)
  have two: "c2 = c1\<lparr>available_head := available_head c2\<rparr> \<and> avl.dll h2 (available_head c2) ((if hb_in_available (h a) then [a] else []) @ vs) \<and>
     (\<forall>x. avail_core (h2 x) = avail_core (h1 x) \<and> (hb_in_available (h2 x) \<longleftrightarrow> (x = a \<and> hb_in_available (h a)) \<or> hb_in_available (h1 x))) \<and>
     (\<forall>x. x \<noteq> a \<and> x \<notin> set vs \<longrightarrow> h2 x = h1 x)"
  proof (cases "hb_in_available (h a)")
    case True
    then have R: "available_add a c1 h1 = (c2, h2)" using r by simp
    note E = available_add_effect [OF R d1 a(1)]
    have n: "available_head c1 \<noteq> Some a" using avl.dll_first [OF d1] first_ptr_in_set a(1) by metis
    have "h2 x = h1 x" if "x \<noteq> a" "x \<notin> set vs" for x
    proof -
      have "available_head c1 \<noteq> Some x" using avl.dll_first [OF d1] first_ptr_in_set that(2) by metis
      then show ?thesis using R [unfolded available_add_eq [OF n]] that(1) by auto
    qed
    then show ?thesis using E True by (simp add: h1_def)
  next
    case False
    then show ?thesis using r d1 by (auto simp: h1_def)
  qed
  note s = avail_core_simps [OF two [THEN conjunct2, THEN conjunct2, THEN conjunct1, rule_format, THEN conjunct1]]
  have nx: "hb_active_next (h2 x) = hb_active_next (h x)" for x by (simp add: s h1_def)
  have step: "splice_relink p c h = splice_relink (hb_active_next (h2 a)) c2 h2"
    using Cons.prems(1) r
    by (subst splice_relink.simps) (cases "hb_in_available (h a)"; simp add: Let_def h1_def [symmetric] c1_def [symmetric])
  let ?vs = "(if hb_in_available (h a) then [a] else []) @ vs"
  have p1: "chain (\<lambda>x. hb_active_next (h2 x)) (hb_active_next (h2 a)) as None"
    using Cons.prems(1) by (simp add: nx)
  have p2: "set as \<inter> set ?vs = {}" using a(2) Cons.prems(3) by auto
  have p3: "distinct as" using Cons.prems(4) by simp
  have p4: "avl.dll h2 (available_head c2) ?vs" using two by blast
  from Cons.IH [OF p1 p4 p2 p3] obtain c' h' q where I: "splice_relink (hb_active_next (h2 a)) c2 h2 = Some (c', h')"
    "c' = c2\<lparr>available_head := q, next_block_order := next_block_order c2 + length as\<rparr>"
    "avl.dll h' q (rev (filter (\<lambda>a. hb_in_available (h2 a)) as) @ ?vs)"
    "\<forall>x. place_core (h' x) = place_core (h2 x) \<and> hb_in_available (h' x) = hb_in_available (h2 x)"
    "\<forall>x. x \<notin> set as \<longrightarrow> hb_order (h' x) = hb_order (h2 x)"
    "map (\<lambda>a. hb_order (h' a)) as = [next_block_order c2 ..< next_block_order c2 + length as]"
    "\<forall>x. x \<notin> set as \<and> x \<notin> set ?vs \<longrightarrow> h' x = h2 x" by (elim exE conjE)
  have av: "hb_in_available (h2 x) = hb_in_available (h x)" for x using two by (auto simp: h1_def)
  obtain q2 where c2: "c2 = c\<lparr>next_block_order := Suc (next_block_order c), available_head := q2\<rparr>" using two by (auto simp: c1_def)
  have "place_core (h2 x) = place_core (h x)" for x
  proof -
    have "place_core (h2 x) = place_core (h1 x)" using two place_core_avail by blast
    then show ?thesis by (simp add: h1_def)
  qed
  moreover have "hb_order (h' a) = next_block_order c" using I(5) a(2) by (simp add: s h1_def)
  moreover have "hb_order (h' x) = hb_order (h x)" if "x \<notin> set (a # as)" for x using I(5) that by (simp add: s h1_def)
  moreover have "h' x = h x" if "x \<notin> set (a # as)" "x \<notin> set vs" for x
    using I(7) two that by (auto simp: h1_def)
  moreover have "c' = c\<lparr>available_head := q, next_block_order := next_block_order c + length (a # as)\<rparr>" using I(2) by (cases c) (simp add: c2)
  moreover have "next_block_order c2 = next_block_order c + 1" by (simp add: c2)
  ultimately show ?case
    using I(1,3,4,6) step
    by (intro exI [of _ c'] exI [of _ h'] exI [of _ q]) (cases "hb_in_available (h a)"; simp add: av upt_rec)
qed

text \<open>A block without its links in the list of active blocks.\<close>

definition link_core :: "'v hblock \<Rightarrow> 'v hblock" where
  "link_core b = b\<lparr>hb_active_prev := None, hb_active_next := None\<rparr>"

lemma link_core_simps:
  assumes "link_core b' = link_core b"
  shows "content b' = content b" "hb_active b' = hb_active b" "hb_reserved_next b' = hb_reserved_next b"
    "hb_order b' = hb_order b" "hb_in_available b' = hb_in_available b" "hb_available_prev b' = hb_available_prev b"
    "hb_available_next b' = hb_available_next b"
  using assms by (cases b; cases b'; simp add: link_core_def content_def)+

lemma splice_link_ok:
  fixes h :: "'v heap"
  assumes A: "act.dll h (active_head dc) as" "active_tail dc = last_ptr None as"
    and B: "act.dll h (Some first) bs" "last_ptr None bs = Some lst" and d: "set as \<inter> set bs = {}"
    and r: "splice_link first lst dc h = (dc', h')"
  shows "act.dll h' (active_head dc') (as @ bs)" "dc' = dc\<lparr>active_head := active_head dc', active_tail := last_ptr None (as @ bs)\<rparr>"
    "link_core (h' x) = link_core (h x)" "x \<notin> set as \<Longrightarrow> x \<notin> set bs \<Longrightarrow> h' x = h x"
proof -
  define g where "g = (\<lambda>x. if x = first then (h x)\<lparr>hb_active_prev := last_ptr None as\<rparr>
      else if last_ptr None as = Some x then (h x)\<lparr>hb_active_next := Some first\<rparr> else h x)"
  obtain cs where bs: "bs = cs @ [lst]" using B(2) by (cases bs rule: rev_cases) auto
  have f: "first \<in> set bs" using act.dll_first [OF B(1)] first_ptr_in_set by metis
  have ft: "last_ptr None as \<noteq> Some first" using f d last_ptr_in_set by (metis IntI empty_iff)
  have lt: "last_ptr None as \<noteq> Some lst" using bs d last_ptr_in_set by (metis IntI empty_iff in_set_conv_decomp)
  have "hb_active_next (h lst) = None" using act.dll_at(2) [of h "Some first" cs lst "[]"] B(1) bs by simp
  then have gl: "g(lst := (g lst)\<lparr>hb_active_next := None\<rparr>) = g" using lt by (auto simp: g_def fun_eq_iff)
  have e: "h' = g" "dc' = (case active_tail dc of None \<Rightarrow> dc\<lparr>active_head := Some first\<rparr> | Some _ \<Rightarrow> dc)\<lparr>active_tail := Some lst\<rparr>"
  proof -
    have "(case active_tail dc of
            Some t \<Rightarrow> (let g = h(t := (h t)\<lparr>hb_active_next := Some first\<rparr>)
                       in (dc, g(first := (g first)\<lparr>hb_active_prev := Some t\<rparr>)))
          | None \<Rightarrow> (dc\<lparr>active_head := Some first\<rparr>, h(first := (h first)\<lparr>hb_active_prev := None\<rparr>)))
        = (case active_tail dc of None \<Rightarrow> dc\<lparr>active_head := Some first\<rparr> | Some _ \<Rightarrow> dc, g)"
      using ft A(2) by (cases "last_ptr None as") (auto simp: g_def fun_eq_iff Let_def)
    then show "h' = g" "dc' = (case active_tail dc of None \<Rightarrow> dc\<lparr>active_head := Some first\<rparr> | Some _ \<Rightarrow> dc)\<lparr>active_tail := Some lst\<rparr>"
      using r gl by (simp_all add: splice_link_def)
  qed
  have "act.dll g (if as = [] then Some first else active_head dc) (as @ bs)"
  proof (rule act.dll_join [OF A(1) B(1) d])
    show "bs \<noteq> []" using bs by simp
    show "hb_active_prev (g x) = hb_active_prev (h x) \<and> hb_active_next (g x) = (if last_ptr None as = Some x then Some first else hb_active_next (h x))"
      if "x \<in> set as" for x using that f d by (auto simp: g_def)
    show "hb_active_next (g x) = hb_active_next (h x) \<and> hb_active_prev (g x) = (if Some first = Some x then last_ptr None as else hb_active_prev (h x))"
      if "x \<in> set bs" for x using that f d last_ptr_in_set by (fastforce simp: g_def)
  qed
  moreover have "active_head dc' = (if as = [] then Some first else active_head dc)"
    using A(2) by (cases as rule: rev_cases) (simp_all add: e(2))
  ultimately show "act.dll h' (active_head dc') (as @ bs)" by (simp add: e(1))
  show "dc' = dc\<lparr>active_head := active_head dc', active_tail := last_ptr None (as @ bs)\<rparr>"
    using A(2) bs by (cases as rule: rev_cases) (simp_all add: e(2))
  show "link_core (h' x) = link_core (h x)" by (simp add: e(1) g_def link_core_def)
  show "x \<notin> set as \<Longrightarrow> x \<notin> set bs \<Longrightarrow> h' x = h x" using f last_ptr_in_set by (fastforce simp: e(1) g_def)
qed

section \<open>Correctness of splice\<close>

text \<open>The destination when all blocks of the source have been relinked.\<close>

lemma splice_links:
  fixes h :: "'v heap"
  assumes L: "links_ok dc h l" and K: "links_ok sc h k" and d: "owned l \<inter> owned k = {}" and n: "ls_active k \<noteq> []"
    and r: "splice_link (the (active_head sc)) (the (active_tail sc)) dc h = (dc1, h1)"
  obtains dc2 h2 where "splice_relink (active_head sc) dc1 h1 = Some (dc2, h2)"
    "links_ok dc2 h2 \<lparr>ls_active = ls_active l @ ls_active k,
       ls_available = rev (filter (\<lambda>a. hb_in_available (h a)) (ls_active k)) @ ls_available l, ls_reserved = ls_reserved l\<rparr>"
    "hc_size dc2 = hc_size dc" "hc_capacity dc2 = hc_capacity dc" "\<forall>x. content (h2 x) = content (h x)"
    "\<forall>x. x \<notin> set (ls_active l @ ls_active k) \<longrightarrow> h2 x = h x"
proof -
  let ?as = "ls_active l" and ?bs = "ls_active k" and ?vs = "ls_available l"
  have l: "act.dll h (active_head dc) ?as" "active_tail dc = last_ptr None ?as" "avl.dll h (available_head dc) ?vs"
    "chain (\<lambda>a. hb_reserved_next (h a)) (reserved_head dc) (ls_reserved l) None" "distinct (?as @ ls_reserved l)" "set ?vs \<subseteq> set ?as"
    using L by (simp_all add: links_ok_def lists_rep_def)
  obtain first where f: "active_head sc = Some first" using links_owned(4) [OF K] n by (cases ?bs) auto
  obtain lst where t: "active_tail sc = Some lst" using links_owned(5) [OF K] n by (cases ?bs rule: rev_cases) auto
  have k: "act.dll h (Some first) ?bs" "last_ptr None ?bs = Some lst" "distinct (?bs @ ls_reserved k)"
    using K f t by (simp_all add: links_ok_def lists_rep_def)
  have ab: "set ?as \<inter> set ?bs = {}" "set (ls_reserved l) \<inter> set ?bs = {}" using d by (auto simp: owned_def)
  have r1: "splice_link first lst dc h = (dc1, h1)" using r f t by simp
  note E = splice_link_ok [OF l(1,2) k(1,2) ab(1) r1]
  note s1 = link_core_simps [OF E(3)]
  have D: "act.dll h1 (active_head dc1) (?as @ ?bs)" by (rule E(1))
  have c1: "available_head dc1 = available_head dc" "next_block_order dc1 = next_block_order dc" "reserved_head dc1 = reserved_head dc"
    "hc_size dc1 = hc_size dc" "hc_capacity dc1 = hc_capacity dc" "active_tail dc1 = last_ptr None (?as @ ?bs)"
    by (subst E(2), simp)+
  have p1: "chain (\<lambda>a. hb_active_next (h1 a)) (Some first) ?bs None"
    using D act.dll_first [OF k(1)] by (simp add: act.dll_def act.chain_split_iff)
  have p2: "avl.dll h1 (available_head dc1) ?vs" using l(3) c1(1) by (subst avl.dll_cong [of _ _ h]) (simp_all add: s1)
  have p3: "set ?bs \<inter> set ?vs = {}" "distinct ?bs" using ab l(6) k(3) by auto
  from splice_relink_ok [OF p1 p2 p3] obtain dc2 h2 q where I: "splice_relink (Some first) dc1 h1 = Some (dc2, h2)"
    "dc2 = dc1\<lparr>available_head := q, next_block_order := next_block_order dc1 + length ?bs\<rparr>"
    "avl.dll h2 q (rev (filter (\<lambda>a. hb_in_available (h1 a)) ?bs) @ ?vs)"
    "\<forall>x. place_core (h2 x) = place_core (h1 x) \<and> hb_in_available (h2 x) = hb_in_available (h1 x)"
    "\<forall>x. x \<notin> set ?bs \<longrightarrow> hb_order (h2 x) = hb_order (h1 x)"
    "map (\<lambda>a. hb_order (h2 a)) ?bs = [next_block_order dc1 ..< next_block_order dc1 + length ?bs]"
    "\<forall>x. x \<notin> set ?bs \<and> x \<notin> set ?vs \<longrightarrow> h2 x = h1 x" by (elim exE conjE)
  note s2 = place_core_simps [OF I(4) [rule_format, THEN conjunct1]]
  have av: "hb_in_available (h2 x) = hb_in_available (h x)" for x using I(4) by (simp add: s1)
  let ?l = "\<lparr>ls_active = ?as @ ?bs, ls_available = rev (filter (\<lambda>a. hb_in_available (h a)) ?bs) @ ?vs, ls_reserved = ls_reserved l\<rparr>"
  have "lists_rep dc2 h2 ?l"
  proof -
    have "act.dll h2 (active_head dc1) (?as @ ?bs)" using D by (subst act.dll_cong [of _ _ h1]) (simp_all add: s2)
    moreover have "chain (\<lambda>a. hb_reserved_next (h2 a)) (reserved_head dc) (ls_reserved l) None"
      using l(4) by (subst chain_cong [of _ _ "\<lambda>a. hb_reserved_next (h a)"]) (simp_all add: s2 s1)
    ultimately show ?thesis using I(2,3) c1 l(5,6) k(3) ab by (auto simp: lists_rep_def s1)
  qed
  moreover have "flags_ok dc2 h2 ?l"
  proof -
    have F: "flags_ok dc h l" "flags_ok sc h k" using L K by (simp_all add: links_ok_def)
    have oa: "\<forall>a \<in> set ?as. hb_order (h2 a) = hb_order (h a)" using I(5) ab(1) by (auto simp: s1)
    then have ma: "map (\<lambda>a. hb_order (h2 a)) ?as = map (\<lambda>a. hb_order (h a)) ?as" by simp
    have ob: "\<forall>b \<in> set ?bs. next_block_order dc \<le> hb_order (h2 b) \<and> hb_order (h2 b) < next_block_order dc + length ?bs"
      using arg_cong [OF I(6), of set] c1(2) by (auto simp: image_subset_iff)
    have vk: "\<forall>a \<in> set ?bs. hb_in_available (h a) \<longleftrightarrow> a \<in> set (ls_available k)" using F(2) by (simp add: flags_ok_def)
    have "sorted_wrt (<) (map (\<lambda>a. hb_order (h2 a)) (?as @ ?bs))"
      unfolding map_append ma I(6) using F(1) c1(2) by (auto simp: flags_ok_def sorted_wrt_append)
    moreover have "\<forall>a \<in> set (?as @ ?bs). hb_active (h2 a) \<and> hb_reserved_next (h2 a) = None \<and> hb_order (h2 a) < next_block_order dc2"
      using F oa ob c1(2) I(2) by (auto simp: flags_ok_def s2 s1)
    moreover have "\<forall>a \<in> set ((?as @ ?bs) @ ls_reserved l). hb_in_available (h2 a) \<longleftrightarrow> a \<in> set (ls_available ?l)"
      using F(1) ab p3(1) by (auto simp: flags_ok_def av)
    ultimately show ?thesis using F(1) by (simp add: flags_ok_def s2 s1)
  qed
  ultimately have "links_ok dc2 h2 ?l" by (simp add: links_ok_def)
  moreover have "\<forall>x. content (h2 x) = content (h x)" by (simp add: s2 s1)
  moreover have "\<forall>x. x \<notin> set (?as @ ?bs) \<longrightarrow> h2 x = h x" using I(7) E(4) l(6) by auto
  moreover have "hc_size dc2 = hc_size dc" "hc_capacity dc2 = hc_capacity dc" using c1 by (simp_all add: I(2))
  ultimately show ?thesis using that I(1) f by simp
qed

text \<open>The source keeps its reserved blocks.\<close>

lemma ctl_rep_reserved_only:
  assumes C: "ctl_rep c h l" and h: "\<forall>x. x \<notin> A \<longrightarrow> h' x = h x" "set (ls_reserved l) \<inter> A = {}"
    and n: "n = sum_list (map (\<lambda>a. hb_capacity (h a)) (ls_active l))"
  shows "ctl_rep (c\<lparr>active_head := None, active_tail := None, available_head := None, hc_size := 0, hc_capacity := hc_capacity c - n\<rparr>) h'
    \<lparr>ls_active = [], ls_available = [], ls_reserved = ls_reserved l\<rparr>" (is "ctl_rep ?c h' ?l")
proof -
  from C have L: "links_ok c h l" and K: "content_ok h l"
    and N: "hc_capacity c = sum_list (map (\<lambda>a. hb_capacity (h a)) (ls_active l @ ls_reserved l))" by (auto elim: ctl_repE)
  have o: "\<forall>x \<in> set (ls_reserved l). h' x = h x" using h by auto
  have "set (ls_reserved l) \<inter> set (ls_available l) = {}" using links_owned(1,2) [OF L] by auto
  then have "links_ok ?c h ?l" using L by (auto simp: links_ok_def lists_rep_def flags_ok_def)
  then have "links_ok ?c h' ?l" using o by (subst links_cong [of _ _ h]) simp_all
  moreover have "content_ok h' ?l" using K o by (auto simp: content_ok_def)
  moreover have "sum_list (map (\<lambda>a. hb_capacity (h' a)) (ls_reserved l)) = sum_list (map (\<lambda>a. hb_capacity (h a)) (ls_reserved l))"
    by (rule arg_cong [of _ _ sum_list]) (use o in simp)
  ultimately show ?thesis using N n by (intro ctl_repI) (simp_all add: ls_cells_def)
qed

lemma splice_commit_ok:
  fixes h :: "'v heap"
  assumes C: "ctl_rep dc h l" and S: "ctl_rep sc h k" and d: "owned l \<inter> owned k = {}" and n: "ls_active k \<noteq> []"
    and m: "m = sum_list (map (\<lambda>a. hb_capacity (h a)) (ls_active k))"
  shows "\<exists>dc' sc' h' l' k'. splice_commit m dc sc v s h =
      Some (touch_end (v\<lparr>hv_control := Some dc'\<rparr>), touch_end (s\<lparr>hv_control := Some sc'\<rparr>), h') \<and>
    ctl_rep dc' h' l' \<and> ctl_rep sc' h' k' \<and> ls_cells h' l' = ls_cells h l @ ls_cells h k \<and> ls_cells h' k' = [] \<and>
    owned l' = owned l \<union> set (ls_active k) \<and> owned k' = set (ls_reserved k) \<and>
    hc_capacity dc' = hc_capacity dc + m \<and> hc_capacity sc' = hc_capacity sc - m \<and>
    (\<forall>x. content (h' x) = content (h x)) \<and> (\<forall>x. x \<notin> owned l \<union> owned k \<longrightarrow> h' x = h x)"
proof -
  from C have L: "links_ok dc h l" and K: "content_ok h l" and z: "hc_size dc = length (ls_cells h l)"
    and N: "hc_capacity dc = sum_list (map (\<lambda>a. hb_capacity (h a)) (ls_active l @ ls_reserved l))" by (auto elim: ctl_repE)
  from S have L': "links_ok sc h k" and K': "content_ok h k" and z': "hc_size sc = length (ls_cells h k)" by (auto elim: ctl_repE)
  obtain dc1 h1 where r: "splice_link (the (active_head sc)) (the (active_tail sc)) dc h = (dc1, h1)" by fastforce
  let ?l = "\<lparr>ls_active = ls_active l @ ls_active k,
       ls_available = rev (filter (\<lambda>a. hb_in_available (h a)) (ls_active k)) @ ls_available l, ls_reserved = ls_reserved l\<rparr>"
  from L L' d n r obtain dc2 h2 where R: "splice_relink (active_head sc) dc1 h1 = Some (dc2, h2)" "links_ok dc2 h2 ?l"
    "hc_size dc2 = hc_size dc" "hc_capacity dc2 = hc_capacity dc" "\<forall>x. content (h2 x) = content (h x)"
    "\<forall>x. x \<notin> set (ls_active l @ ls_active k) \<longrightarrow> h2 x = h x" by (rule splice_links)
  define dc' where "dc' = dc2\<lparr>hc_size := hc_size dc2 + hc_size sc, hc_capacity := hc_capacity dc2 + m\<rparr>"
  define sc' where "sc' = sc\<lparr>active_head := None, active_tail := None, available_head := None, hc_size := 0, hc_capacity := hc_capacity sc - m\<rparr>"
  have "active_head sc \<noteq> None" using links_owned(4) [OF L'] n by (cases "ls_active k") auto
  then have e: "splice_commit m dc sc v s h = Some (touch_end (v\<lparr>hv_control := Some dc'\<rparr>), touch_end (s\<lparr>hv_control := Some sc'\<rparr>), h2)"
    using r R(1) by (auto simp: splice_commit_def dc'_def sc'_def)
  have cells: "ls_cells h2 ?l = ls_cells h l @ ls_cells h k"
    using R(5) content_cong(3) [of ?l h2 h] by (simp add: ls_cells_def)
  have av: "set (filter (\<lambda>a. hb_in_available (h a)) (ls_active k)) = set (ls_available k)"
    using L' links_owned(1) [OF L'] by (auto simp: links_ok_def flags_ok_def)
  have "content_ok h ?l" using K K' av by (auto simp: content_ok_def)
  then have "content_ok h2 ?l" using R(5) content_cong(1) [of ?l h2 h] by simp
  moreover have cap: "hb_capacity (h2 x) = hb_capacity (h x)" for x using R(5) content_fields(4) by blast
  ultimately have "ctl_rep dc' h2 ?l"
    using R(2,3,4) z z' N m cells by (intro ctl_repI) (simp_all add: dc'_def cap)
  moreover have "ctl_rep sc' h2 \<lparr>ls_active = [], ls_available = [], ls_reserved = ls_reserved k\<rparr>" unfolding sc'_def
    by (rule ctl_rep_reserved_only [OF S R(6) _ m]) (use d links_owned(2) [OF L'] in \<open>auto simp: owned_def\<close>)
  ultimately show ?thesis using e cells R(4,5,6)
    by (intro exI [of _ dc'] exI [of _ sc'] exI [of _ h2] exI [of _ ?l] exI conjI) (auto simp: ls_cells_def owned_def dc'_def sc'_def)
qed

section \<open>Two hives\<close>

text \<open>Swapping exchanges contents and limits, and only the end iterators change.\<close>

lemma hive_swap_ok:
  assumes "hive_swap v w = (v', w')" "hive_rep v h l" "hive_rep w h k"
  shows "hive_rep v' h k \<and> hive_rep w' h l \<and> hv_limits v' = hv_limits w \<and> hv_limits w' = hv_limits v"
  using assms by (auto simp: hive_swap_def hive_rep_owned)

lemma hive_move_ok:
  assumes "hive_move v w = (v', w')" "hive_rep w h k"
  shows "hive_rep v' h k \<and> hive_rep w' h no_lists \<and> hive_size w' = 0 \<and> hive_capacity v' = hive_capacity w"
  using assms by (auto simp: hive_move_def steal_from_def hive_rep_owned owned_def no_lists_def hive_size_def hive_capacity_def)

lemma no_lists_cells [simp]: "ls_cells h no_lists = []" "owned no_lists = {}" "ls_active no_lists = []" "ls_reserved no_lists = []"
  by (simp_all add: ls_cells_def owned_def no_lists_def)

text \<open>
  What \<open>splice\<close> does: an exception changes nothing; otherwise the cells of the source follow
  those of the destination, the source keeps its reserved blocks, and blocks of other hives
  are left alone.
\<close>

definition splice_effect :: "bool \<Rightarrow> hive \<Rightarrow> hive \<Rightarrow> 'v heap \<Rightarrow> lists \<Rightarrow> lists \<Rightarrow> (hexn + unit) \<times> hive \<times> hive \<times> 'v heap \<Rightarrow> bool" where
  "splice_effect ctl v s h l k res =
     (case res of
        (Inl e, v', s', h') \<Rightarrow> v' = v \<and> s' = s \<and> h' = h \<and>
          (if e = Length_error then \<exists>a \<in> set (ls_active k). \<not> within (hv_limits v) (hb_capacity (h a)) else e = Bad_alloc \<and> \<not> ctl)
      | (Inr _, v', s', h') \<Rightarrow>
          (\<exists>l' k'. hive_rep v' h' l' \<and> hive_rep s' h' k' \<and> ls_cells h' l' = ls_cells h l @ ls_cells h k \<and> ls_cells h' k' = [] \<and>
             owned l' = owned l \<union> set (ls_active k) \<and> owned k' = set (ls_reserved k) \<and>
             hive_capacity v' + hive_capacity s' = hive_capacity v + hive_capacity s \<and>
             (\<forall>x. x \<notin> owned l \<union> owned k \<longrightarrow> h' x = h x)))"

lemma splice_effect_ok:
  assumes "hive_rep v' h' l'" "hive_rep s' h' k'" "ls_cells h' l' = ls_cells h l @ ls_cells h k" "ls_cells h' k' = []"
    "owned l' = owned l \<union> set (ls_active k)" "owned k' = set (ls_reserved k)"
    "hive_capacity v' + hive_capacity s' = hive_capacity v + hive_capacity s" "\<forall>x. x \<notin> owned l \<union> owned k \<longrightarrow> h' x = h x"
  shows "splice_effect ctl v s h l k (Inr (), v', s', h')"
  using assms by (auto simp: splice_effect_def)

lemma splice_effect_steal:
  fixes h :: "'v heap"
  assumes V: "hive_rep v h l" "hv_control v = None" and sc: "hv_control s = Some sc" and C: "ctl_rep sc h k"
    and fits: "\<forall>a \<in> set (ls_active k). within (hv_limits v) (hb_capacity (h a))" and r: "ls_reserved k = []"
  shows "splice_effect ctl v s h l k (Inr (), touch_end (v\<lparr>hv_control := Some sc\<rparr>), touch_end (s\<lparr>hv_control := None\<rparr>), h)"
proof (rule splice_effect_ok)
  have l: "l = no_lists" using V by (simp add: hive_rep_owned)
  show "hive_rep (touch_end (v\<lparr>hv_control := Some sc\<rparr>)) h k" using C fits r by (simp add: hive_rep_owned owned_def)
  show "hive_rep (touch_end (s\<lparr>hv_control := None\<rparr>)) h no_lists" by (simp add: hive_rep_owned)
  show "hive_capacity (touch_end (v\<lparr>hv_control := Some sc\<rparr>)) + hive_capacity (touch_end (s\<lparr>hv_control := None\<rparr>)) = hive_capacity v + hive_capacity s"
    using V(2) sc by (simp add: hive_capacity_def)
  show "ls_cells h k = ls_cells h l @ ls_cells h k" "owned k = owned l \<union> set (ls_active k)" using l r by (simp_all add: owned_def)
  show "owned no_lists = set (ls_reserved k)" using r by simp
qed simp_all

lemma splice_effect_commit:
  fixes h :: "'v heap"
  assumes V: "hive_rep v h l" and S: "hive_rep s h k" and d: "owned l \<inter> owned k = {}" and sc: "hv_control s = Some sc"
    and n: "ls_active k \<noteq> []" and fits: "\<forall>a \<in> set (ls_active k). within (hv_limits v) (hb_capacity (h a))"
  shows "\<exists>v' s' h'. splice_commit (sum_list (map (\<lambda>a. hb_capacity (h a)) (ls_active k)))
      (case hv_control v of None \<Rightarrow> control_new | Some c \<Rightarrow> c) sc v s h = Some (v', s', h') \<and>
    splice_effect ctl v s h l k (Inr (), v', s', h')"
proof -
  let ?dc = "case hv_control v of None \<Rightarrow> control_new | Some c \<Rightarrow> c" and ?m = "sum_list (map (\<lambda>a. hb_capacity (h a)) (ls_active k))"
  have C: "ctl_rep sc h k" and W: "\<forall>a \<in> owned k. within (hv_limits s) (hb_capacity (h a))" using S sc by (simp_all add: hive_rep_owned)
  note V' = hive_rep_control [OF V]
  from splice_commit_ok [OF V'(1) C d n refl, of v s] obtain dc' sc' h' l' k' where
    R: "splice_commit ?m ?dc sc v s h = Some (touch_end (v\<lparr>hv_control := Some dc'\<rparr>), touch_end (s\<lparr>hv_control := Some sc'\<rparr>), h')"
      "ctl_rep dc' h' l'" "ctl_rep sc' h' k'" "ls_cells h' l' = ls_cells h l @ ls_cells h k" "ls_cells h' k' = []"
      "owned l' = owned l \<union> set (ls_active k)" "owned k' = set (ls_reserved k)"
      "hc_capacity dc' = hc_capacity ?dc + ?m" "hc_capacity sc' = hc_capacity sc - ?m"
      "\<forall>x. content (h' x) = content (h x)" "\<forall>x. x \<notin> owned l \<union> owned k \<longrightarrow> h' x = h x" by (elim exE conjE)
  define v' where "v' = touch_end (v\<lparr>hv_control := Some dc'\<rparr>)"
  define s' where "s' = touch_end (s\<lparr>hv_control := Some sc'\<rparr>)"
  have cap: "hb_capacity (h' x) = hb_capacity (h x)" for x using R(10) content_fields(4) by blast
  have "hive_rep v' h' l'" using V fits R(2,6) by (auto simp: hive_rep_owned v'_def cap)
  moreover have "hive_rep s' h' k'" using W R(3,7) by (auto simp: hive_rep_owned s'_def cap owned_def)
  moreover have "?m \<le> hc_capacity sc" using C by (auto elim: ctl_repE)
  then have "hive_capacity v' + hive_capacity s' = hive_capacity v + hive_capacity s"
    using R(8,9) V'(2) sc by (simp add: v'_def s'_def hive_capacity_def)
  ultimately have "splice_effect ctl v s h l k (Inr (), v', s', h')" using R(4-7,11) by (intro splice_effect_ok)
  then show ?thesis using R(1) v'_def s'_def by blast
qed

lemma hive_splice_correct:
  fixes h :: "'v heap"
  assumes V: "hive_rep v h l" and S: "hive_rep s h k" and d: "owned l \<inter> owned k = {}"
  shows "\<exists>res. hive_splice ctl v s h = Some res \<and> splice_effect ctl v s h l k res"
proof (cases "ls_active k")
  case Nil
  then have "hive_splice ctl v s h = Some (Inr (), touch_end v, touch_end s, h)"
    using S links_owned(4) by (cases "hv_control s") (fastforce simp: hive_splice_def hive_rep_def ctl_rep_def)+
  moreover have "ls_cells h k = []" "owned k = set (ls_reserved k)" using Nil by (simp_all add: ls_cells_def owned_def)
  then have "splice_effect ctl v s h l k (Inr (), touch_end v, touch_end s, h)"
    using V S Nil by (intro splice_effect_ok [of _ _ l _ k]) (simp_all add: hive_capacity_def)
  ultimately show ?thesis by blast
next
  case (Cons first rest)
  then obtain sc where sc: "hv_control s = Some sc" using S by (cases "hv_control s") (auto simp: hive_rep_owned)
  then have C: "ctl_rep sc h k" using S by (simp add: hive_rep_owned)
  then have L: "links_ok sc h k" by (simp add: ctl_rep_def)
  then have p: "active_head sc = Some first" "chain (\<lambda>a. hb_active_next (h a)) (Some first) (ls_active k) None"
    using links_owned(4) [OF L] Cons by (simp_all add: links_ok_def lists_rep_def act.dll_def)
  have b: "Option.bind (hv_control s) active_head = Some first" using sc p(1) by simp
  note chk = splice_check_ok [OF p(2), of "hv_limits v" 0]
  show ?thesis
  proof (cases "\<forall>a \<in> set (ls_active k). within (hv_limits v) (hb_capacity (h a))")
    case False
    then have "hive_splice ctl v s h = Some (Inl Length_error, v, s, h)"
      using b chk [unfolded if_not_P [OF False]] by (simp add: hive_splice_def)
    then show ?thesis using False by (auto simp: splice_effect_def)
  next
    case fits: True
    then have c: "splice_check (hv_limits v) (Some first) 0 h = Some (Inr (sum_list (map (\<lambda>a. hb_capacity (h a)) (ls_active k))))"
      using chk by simp
    have n: "ls_active k \<noteq> []" using Cons by simp
    from splice_effect_commit [OF V S d sc n fits, of ctl] obtain v' s' h' where E:
      "splice_commit (sum_list (map (\<lambda>a. hb_capacity (h a)) (ls_active k))) (case hv_control v of None \<Rightarrow> control_new | Some c \<Rightarrow> c) sc v s h = Some (v', s', h')"
      "splice_effect ctl v s h l k (Inr (), v', s', h')" by blast
    consider (steal) "hv_control v = None" "reserved_head sc = None"
      | (fail) "hv_control v = None" "reserved_head sc \<noteq> None" "\<not> ctl"
      | (commit) "hv_control v \<noteq> None \<or> reserved_head sc \<noteq> None" "hv_control v \<noteq> None \<or> ctl" by blast
    then show ?thesis
    proof cases
      case steal
      have r: "ls_reserved k = []" using links_owned(6) [OF L] steal(2) by (cases "ls_reserved k") auto
      show ?thesis using b c sc steal splice_effect_steal [OF V steal(1) sc C fits r, of ctl] by (simp add: hive_splice_def)
    next
      case fail
      then show ?thesis using b c sc by (auto simp: hive_splice_def splice_effect_def)
    next
      case commit
      then have "hive_splice ctl v s h = Some (Inr (), v', s', h')" using b c sc E(1) by (auto simp: hive_splice_def)
      then show ?thesis using E(2) by blast
    qed
  qed
qed

section \<open>Properties\<close>

text \<open>A hive does not depend on blocks that are not its own.\<close>

lemma hive_rep_frame:
  assumes "\<forall>a \<in> owned l. h' a = h a"
  shows "hive_rep v h' l \<longleftrightarrow> hive_rep v h l" "ls_cells h' l = ls_cells h l"
proof -
  have o: "\<forall>a \<in> set (ls_active l @ ls_reserved l). h' a = h a" using assms by (simp add: owned_def)
  then have "ctl_rep c h' l \<longleftrightarrow> ctl_rep c h l" for c
    using links_cong [of l h' h] content_cong [of l h' h] by (simp add: ctl_rep_def)
  then show "hive_rep v h' l \<longleftrightarrow> hive_rep v h l" using assms by (auto simp: hive_rep_owned split: option.splits)
  show "ls_cells h' l = ls_cells h l" using o content_cong(3) [of l h' h] by simp
qed

text \<open>
  C8.  \<open>splice\<close> returns.  It throws only for a block outside the limits of the destination or for
  want of memory, and then changes nothing.  Otherwise all elements of the source follow those
  of the destination, each at its old position, the source is empty and keeps its reserved
  blocks, no capacity is lost, and no other block is touched.  The blocks of other hives are
  not touched, so these keep their elements.
\<close>

theorem hive_splice_moves_all:
  assumes "hive_rep v h l" "hive_rep s h k" "owned l \<inter> owned k = {}"
  shows "\<exists>r v' s' h'. hive_splice ctl v s h = Some (r, v', s', h') \<and>
    (case r of
       Inl e \<Rightarrow> v' = v \<and> s' = s \<and> h' = h \<and>
         (if e = Length_error then \<exists>a \<in> set (ls_active k). \<not> within (hv_limits v) (hb_capacity (h a)) else e = Bad_alloc \<and> \<not> ctl)
     | Inr _ \<Rightarrow> (\<exists>l' k'. hive_rep v' h' l' \<and> hive_rep s' h' k' \<and> ls_cells h' l' = ls_cells h l @ ls_cells h k \<and> ls_cells h' k' = [] \<and>
         owned l' = owned l \<union> set (ls_active k) \<and> owned k' = set (ls_reserved k) \<and>
         hive_capacity v' + hive_capacity s' = hive_capacity v + hive_capacity s)) \<and>
    (\<forall>w j. hive_rep w h j \<and> owned j \<inter> (owned l \<union> owned k) = {} \<longrightarrow> hive_rep w h' j \<and> ls_cells h' j = ls_cells h j)"
proof -
  from hive_splice_correct [OF assms, of ctl] obtain r v' s' h' where R: "hive_splice ctl v s h = Some (r, v', s', h')"
    "splice_effect ctl v s h l k (r, v', s', h')" by (metis prod_cases4)
  have "\<forall>x. x \<notin> owned l \<union> owned k \<longrightarrow> h' x = h x" using R(2) by (cases r) (auto simp: splice_effect_def)
  then have "\<forall>w j. hive_rep w h j \<and> owned j \<inter> (owned l \<union> owned k) = {} \<longrightarrow> hive_rep w h' j \<and> ls_cells h' j = ls_cells h j"
    using hive_rep_frame [of _ h' h] by (metis disjoint_iff)
  then show ?thesis using R by (intro exI [of _ r] exI [of _ v'] exI [of _ s'] exI [of _ h'] conjI) (auto simp: splice_effect_def split: sum.splits)
qed

text \<open>A second hive with one element, in the heap of the first.\<close>

lemma demo_second:
  obtains s b where "emplace demo_traits \<lparr>al_control = True, al_block = Some 3\<rparr> (Some 50) demo_hive h = (Inr (At 3 0), s, h(3 := b))"
  by (simp add: emplace_def emplace_new_def demo_hive_def demo_traits_def demo_limits_def hive_capacity_def
      allocation_block_max_def slot_npos_def activate_def active_append_def available_add_def control_new_def block_new_def Let_def)

theorem hive_splice_moves_all_witness:
  "\<exists>v (h :: nat heap) l s k. hive_rep v h l \<and> hive_rep s h k \<and> owned l \<inter> owned k = {} \<and> length (ls_cells h l) = 3 \<and> length (ls_cells h k) = 1 \<and>
    (\<exists>r v' s' h'. hive_splice True v s h = Some (r, v', s', h') \<and>
    (case r of
       Inl e \<Rightarrow> v' = v \<and> s' = s \<and> h' = h \<and>
         (if e = Length_error then \<exists>a \<in> set (ls_active k). \<not> within (hv_limits v) (hb_capacity (h a)) else e = Bad_alloc \<and> \<not> True)
     | Inr _ \<Rightarrow> (\<exists>l' k'. hive_rep v' h' l' \<and> hive_rep s' h' k' \<and> ls_cells h' l' = ls_cells h l @ ls_cells h k \<and> ls_cells h' k' = [] \<and>
         owned l' = owned l \<union> set (ls_active k) \<and> owned k' = set (ls_reserved k) \<and>
         hive_capacity v' + hive_capacity s' = hive_capacity v + hive_capacity s)) \<and>
    (\<forall>w j. hive_rep w h j \<and> owned j \<inter> (owned l \<union> owned k) = {} \<longrightarrow> hive_rep w h' j \<and> ls_cells h' j = ls_cells h j))"
proof (rule demo_state)
  fix v and h :: "nat heap" and A v' and h' :: "nat heap" and A' l
  assume I: "hive_inv (v, h, A) l" and p: "hive_positions v h = [At 1 0, At 1 1, At 2 0]" and f: "3 \<notin> A"
  then have H: "hive_rep v h l" and o: "3 \<notin> owned l" by (auto simp: hive_inv_def)
  obtain s b where e: "emplace demo_traits \<lparr>al_control = True, al_block = Some 3\<rparr> (Some 50) demo_hive h = (Inr (At 3 0), s, h(3 := b))"
    by (rule demo_second)
  have D: "hive_rep demo_hive h no_lists" by (simp add: hive_rep_owned demo_hive_def)
  from emplace_correct [OF D, of "\<lparr>al_control = True, al_block = Some 3\<rparr>" "Some 50" demo_traits] obtain k where
    K: "hive_rep s (h(3 := b)) k" "owned k \<subseteq> {3}" "length (ls_cells (h(3 := b)) k) = 1"
    by (auto simp: e emplace_effect_def)
  have F: "hive_rep v (h(3 := b)) l" "ls_cells (h(3 := b)) l = ls_cells h l" using hive_rep_frame [of l "h(3 := b)" h] H o by auto
  have d: "owned l \<inter> owned k = {}" using K(2) o by auto
  have "length (hive_positions v h) = 3" by (simp add: p)
  then have "length (ls_cells (h(3 := b)) l) = 3" using hive_positions_cells [OF H] F(2) by simp
  then show ?thesis using F(1) K(1,3) d hive_splice_moves_all [OF F(1) K(1) d, of True] by blast
qed

end
