(* ===== verification/Hive_Capacity.thy ===== *)
theory Hive_Capacity
  imports Hive_Run
begin

text \<open>
  Capacity management of a hive: planning, \<open>reserve\<close>, \<open>trim_capacity\<close>, \<open>clear\<close> and the
  part of \<open>reshape\<close> that does not move elements.
\<close>

section \<open>Planning\<close>

record capacity_plan =
  pl_blocks :: nat
  pl_added :: nat
  pl_block_max :: nat

text \<open>Callers request growth: \<open>current \<le> requested\<close>.\<close>

definition plan_capacity :: "traits \<Rightarrow> hive \<Rightarrow> nat \<Rightarrow> nat \<Rightarrow> capacity_plan option" where
  "plan_capacity t v current requested =
     (let maximum = tr_max_size t;
          block_max = allocation_block_max t v;
          lmin = lim_min (hv_limits v)
      in if requested > maximum \<or> current > maximum \<or> lmin = 0 \<or> block_max < lmin then None
         else let missing = requested - current;
                  blocks = missing div block_max + (if missing mod block_max \<noteq> 0 then 1 else 0)
              in if blocks > (maximum - current) div lmin then None
                 else Some \<lparr>pl_blocks = blocks, pl_added = max missing (blocks * lmin), pl_block_max = block_max\<rparr>)"

text \<open>
  \<open>reserve_blocks\<close>; one answer of the allocator per block, and the allocator throws when the
  answers are used up.  The control state is allocated with the first block.
\<close>

fun reserve_loop :: "allocs list \<Rightarrow> nat \<Rightarrow> nat \<Rightarrow> nat \<Rightarrow> hive \<Rightarrow> 'v heap \<Rightarrow> (hexn + unit) \<times> hive \<times> 'v heap" where
  "reserve_loop als 0 added block_max v h = (Inr (), v, h)"
| "reserve_loop [] (Suc blocks) added block_max v h = (Inl Bad_alloc, v, h)"
| "reserve_loop (al # als) (Suc blocks) added block_max v h =
     (let block_capacity = min block_max (added - blocks * lim_min (hv_limits v))
      in if hv_control v = None \<and> \<not> al_control al then (Inl Bad_alloc, v, h)
         else case al_block al of
           None \<Rightarrow> (Inl Bad_alloc, v, h)
         | Some a \<Rightarrow>
             (let c = (case hv_control v of None \<Rightarrow> control_new | Some c \<Rightarrow> c);
                  (c', h') = link_reserved a c (h(a := block_new block_capacity))
              in reserve_loop als blocks (added - block_capacity) block_max (v\<lparr>hv_control := Some c'\<rparr>) h'))"

definition reserve_blocks :: "allocs list \<Rightarrow> capacity_plan \<Rightarrow> hive \<Rightarrow> 'v heap \<Rightarrow> (hexn + unit) \<times> hive \<times> 'v heap" where
  "reserve_blocks als plan v h = reserve_loop als (pl_blocks plan) (pl_added plan) (pl_block_max plan) v h"

definition reserve :: "traits \<Rightarrow> allocs list \<Rightarrow> nat \<Rightarrow> hive \<Rightarrow> 'v heap \<Rightarrow> (hexn + unit) \<times> hive \<times> 'v heap" where
  "reserve t als n v h =
     (if n \<le> hive_capacity v then (Inr (), v, h)
      else case plan_capacity t v (hive_capacity v) n of
        None \<Rightarrow> (Inl Length_error, v, h)
      | Some plan \<Rightarrow> reserve_blocks als plan v h)"

lemma plan_bounds:
  assumes "plan_capacity t v current requested = Some plan"
  shows "requested - current \<le> pl_added plan" "pl_blocks plan * lim_min (hv_limits v) \<le> pl_added plan"
    "pl_added plan \<le> pl_blocks plan * pl_block_max plan" "current + pl_added plan \<le> max requested (tr_max_size t)"
    "pl_block_max plan = allocation_block_max t v" "0 < lim_min (hv_limits v)" "lim_min (hv_limits v) \<le> pl_block_max plan"
proof -
  define m where "m = requested - current"
  define bm where "bm = allocation_block_max t v"
  define lm where "lm = lim_min (hv_limits v)"
  define k where "k = m div bm + (if m mod bm \<noteq> 0 then 1 else 0)"
  have P: "requested \<le> tr_max_size t" "current \<le> tr_max_size t" "0 < lm" "lm \<le> bm" "k \<le> (tr_max_size t - current) div lm"
    "plan = \<lparr>pl_blocks = k, pl_added = max m (k * lm), pl_block_max = bm\<rparr>"
    using assms by (auto simp: plan_capacity_def Let_def m_def bm_def lm_def k_def split: if_splits)
  have "m \<le> k * bm"
  proof (cases "m mod bm = 0")
    case True
    then show ?thesis using div_mult_mod_eq [of m bm] by (simp add: k_def)
  next
    case False
    have "m mod bm \<le> bm" using P(3,4) mod_less_divisor [of bm m] by simp
    then have "m \<le> m div bm * bm + bm" using div_mult_mod_eq [of m bm] by linarith
    then show ?thesis using False by (simp add: k_def)
  qed
  moreover have "k * lm \<le> k * bm" using P(4) by simp
  moreover have "k * lm \<le> tr_max_size t - current"
    using P(5) by (metis div_times_less_eq_dividend le_trans mult_le_mono1)
  ultimately show "requested - current \<le> pl_added plan" "pl_blocks plan * lim_min (hv_limits v) \<le> pl_added plan"
    "pl_added plan \<le> pl_blocks plan * pl_block_max plan" "current + pl_added plan \<le> max requested (tr_max_size t)"
    "pl_block_max plan = allocation_block_max t v" "0 < lim_min (hv_limits v)" "lim_min (hv_limits v) \<le> pl_block_max plan"
    using P by (auto simp: m_def bm_def lm_def)
qed

section \<open>Reserved blocks\<close>

lemma link_reserved_ok:
  fixes h :: "'v heap"
  assumes C: "ctl_rep c h l" and f: "a \<notin> owned l" and n: "0 < n" "n \<le> slot_npos"
    and r: "link_reserved a c (h(a := block_new n)) = (c', h')"
  shows "ctl_rep c' h' (l\<lparr>ls_reserved := a # ls_reserved l\<rparr>)" "ls_cells h' (l\<lparr>ls_reserved := a # ls_reserved l\<rparr>) = ls_cells h l"
    "hc_capacity c' = hc_capacity c + n" "hc_size c' = hc_size c" "hb_capacity (h' a) = n" "\<And>x. x \<noteq> a \<Longrightarrow> h' x = h x"
proof -
  from C have L: "links_ok c h l" and K: "content_ok h l" and S: "hc_size c = length (ls_cells h l)"
    and N: "hc_capacity c = sum_list (map (\<lambda>a. hb_capacity (h a)) (ls_active l @ ls_reserved l))"
    by (auto elim: ctl_repE)
  define b :: "'v hblock" where "b = (block_new n)\<lparr>hb_active := False, hb_reserved_next := reserved_head c\<rparr>"
  have e: "h' = h(a := b)" "c' = c\<lparr>reserved_head := Some a, hc_capacity := hc_capacity c + n\<rparr>"
    using r by (auto simp: link_reserved_def b_def block_new_def)
  let ?l = "l\<lparr>ls_reserved := a # ls_reserved l\<rparr>"
  have a: "a \<notin> set (ls_active l @ ls_reserved l)" using f by (simp add: owned_def)
  have "links_ok (c\<lparr>reserved_head := Some a\<rparr>) h' ?l"
    unfolding e(1) by (rule links_reserve [OF L a]) (simp_all add: b_def block_new_def)
  moreover have B: "blk_rep b []" using n by (simp add: b_def block_new_def blk_rep_vacant)
  have out: "\<forall>x \<in> set (ls_active l @ ls_reserved l). h' x = h x" using a by (auto simp: e)
  then have cc: "content_ok h' l \<longleftrightarrow> content_ok h l" "ls_cells h' l = ls_cells h l" using content_cong [of l h' h] by auto
  then have K': "content_ok h' ?l" using K B by (auto simp: content_ok_def e(1))
  show cells: "ls_cells h' ?l = ls_cells h l" using cc(2) by (simp add: ls_cells_def)
  show "hc_capacity c' = hc_capacity c + n" "hc_size c' = hc_size c" "hb_capacity (h' a) = n" "\<And>x. x \<noteq> a \<Longrightarrow> h' x = h x"
    by (auto simp: e b_def block_new_def)
  have m: "map (\<lambda>a. hb_capacity (h' a)) (ls_active l @ ls_reserved l) = map (\<lambda>a. hb_capacity (h a)) (ls_active l @ ls_reserved l)"
    using out by auto
  have "hc_capacity c' = sum_list (map (\<lambda>a. hb_capacity (h' a)) (ls_active ?l @ ls_reserved ?l))"
    using N m [symmetric] \<open>hc_capacity c' = _\<close> \<open>hb_capacity (h' a) = n\<close> by (simp del: map_eq_conv)
  moreover have "links_ok c' h' ?l" using calculation by (simp add: e(2) links_ok_def lists_rep_def flags_ok_def)
  ultimately show "ctl_rep c' h' ?l" using K' S cells by (intro ctl_repI) (simp_all add: e(2))
qed

lemma reserve_loop_ok:
  assumes "hive_rep v h l" "\<forall>al \<in> set als. \<forall>a. al_block al = Some a \<longrightarrow> a \<notin> owned l" "distinct (List.map_filter al_block als)"
    and "blocks * lim_min (hv_limits v) \<le> added" "added \<le> blocks * block_max" "0 < lim_min (hv_limits v)"
      "block_max \<le> slot_npos" "block_max \<le> lim_max (hv_limits v)" "lim_min (hv_limits v) \<le> block_max"
    and "reserve_loop als blocks added block_max v h = (r, v', h')"
  shows "\<exists>l'. hive_rep v' h' l' \<and> ls_cells h' l' = ls_cells h l \<and> hive_size v' = hive_size v \<and> hv_limits v' = hv_limits v \<and>
    hv_epoch v' = hv_epoch v \<and> (case r of Inr _ \<Rightarrow> hive_capacity v' = hive_capacity v + added
      | Inl e \<Rightarrow> e = Bad_alloc \<and> hive_capacity v \<le> hive_capacity v' \<and> hive_capacity v' \<le> hive_capacity v + added) \<and>
    owned l' \<subseteq> owned l \<union> set (List.map_filter al_block als) \<and> (\<forall>x. x \<notin> set (List.map_filter al_block als) \<longrightarrow> h' x = h x)"
  using assms
proof (induction als blocks added block_max v h arbitrary: l rule: reserve_loop.induct)
  case (1 als added block_max v h)
  then show ?case by auto
next
  case (2 blocks added block_max v h)
  then show ?case by auto
next
  case (3 al als k added bm v h)
  let ?lm = "lim_min (hv_limits v)"
  define n where "n = min bm (added - k * ?lm)"
  note F = 3(8,9,10)
  have kb: "k * ?lm \<le> k * bm" using 3(10) by simp
  have nb: "?lm \<le> n" "n \<le> bm" "k * ?lm \<le> added - n" "added - n \<le> k * bm" "n \<le> added"
    using 3(5,6,10) kb by (auto simp: n_def min_def not_le split: if_splits)
  show ?case
  proof (cases "(hv_control v = None \<and> \<not> al_control al) \<or> al_block al = None")
    case True
    then have "r = Inl Bad_alloc" "v' = v" "h' = h" using 3(11) by (auto simp: Let_def split: if_splits option.splits)
    then show ?thesis using 3(2) by auto
  next
    case False
    then obtain a where a: "al_block al = Some a" "\<not> (hv_control v = None \<and> \<not> al_control al)" by auto
    define c where "c = (case hv_control v of None \<Rightarrow> control_new | Some c \<Rightarrow> c)"
    obtain c1 h1 where R: "link_reserved a c (h(a := block_new n)) = (c1, h1)" by fastforce
    define v1 where "v1 = v\<lparr>hv_control := Some c1\<rparr>"
    define l1 where "l1 = l\<lparr>ls_reserved := a # ls_reserved l\<rparr>"
    have C: "ctl_rep c h l" unfolding c_def by (rule hive_rep_control [OF 3(2)])
    have na: "a \<notin> owned l" using 3(3) a(1) by auto
    have n0: "0 < n" "n \<le> slot_npos" using nb(1,2) 3(7,8) by linarith+
    note K = link_reserved_ok [OF C na n0 R, folded l1_def]
    have O: "owned l1 = insert a (owned l)" by (auto simp: l1_def owned_def)
    have "within (hv_limits v) n" using nb 3(9) by (simp add: within_def)
    moreover have "\<forall>x \<in> owned l. h1 x = h x" using K(6) na by metis
    ultimately have H1: "hive_rep v1 h1 l1" using K(1,5) 3(2) O by (auto simp: hive_rep_owned v1_def)
    have d: "\<forall>al \<in> set als. \<forall>b. al_block al = Some b \<longrightarrow> b \<notin> owned l1" "distinct (List.map_filter al_block als)"
      using 3(3,4) a(1) O by (force simp: List.map_filter_def image_iff)+
    have step: "reserve_loop als k (added - n) bm v1 h1 = (r, v', h')"
      using 3(11) a R by (simp add: Let_def n_def [symmetric] c_def [symmetric] v1_def split: if_splits)
    have lim: "hv_limits v1 = hv_limits v" "hv_epoch v1 = hv_epoch v" by (simp_all add: v1_def)
    have cap: "hive_capacity v1 = hive_capacity v + n" "hive_size v1 = hive_size v"
      using K(3,4) hive_rep_control(2,3) [OF 3(2)] by (simp_all add: v1_def hive_capacity_def hive_size_def c_def)
    have "\<exists>l'. hive_rep v' h' l' \<and> ls_cells h' l' = ls_cells h1 l1 \<and> hive_size v' = hive_size v1 \<and> hv_limits v' = hv_limits v1 \<and>
      hv_epoch v' = hv_epoch v1 \<and> (case r of Inr _ \<Rightarrow> hive_capacity v' = hive_capacity v1 + (added - n)
        | Inl e \<Rightarrow> e = Bad_alloc \<and> hive_capacity v1 \<le> hive_capacity v' \<and> hive_capacity v' \<le> hive_capacity v1 + (added - n)) \<and>
      owned l' \<subseteq> owned l1 \<union> set (List.map_filter al_block als) \<and> (\<forall>x. x \<notin> set (List.map_filter al_block als) \<longrightarrow> h' x = h1 x)"
      by (rule 3(1) [OF n_def a(2,1) c_def refl R [symmetric], folded v1_def]) (use H1 d nb 3(7-10) lim step in simp_all)
    moreover have "set (List.map_filter al_block (al # als)) = insert a (set (List.map_filter al_block als))"
      using a(1) by (simp add: List.map_filter_simps)
    moreover have "\<forall>x. x \<noteq> a \<longrightarrow> h1 x = h x" using K(6) by blast
    ultimately show ?thesis using K(2) lim cap nb(5) O by (auto split: sum.splits)
  qed
qed

text \<open>
  \<open>reserve\<close> provides the requested capacity with blocks whose capacities all lie within
  the limits, and never exceeds \<open>max_size\<close>.  It keeps every element in place and the end
  iterators valid.  When an allocation throws, the blocks made so far stay in reserve; a
  request that cannot be met is refused before anything changes.
\<close>

lemma reserve_correct:
  assumes "hive_rep v h l" "\<forall>al \<in> set als. \<forall>a. al_block al = Some a \<longrightarrow> a \<notin> owned l" "distinct (List.map_filter al_block als)"
    and "hive_capacity v \<le> tr_max_size t" "reserve t als n v h = (r, v', h')"
  shows "\<exists>l'. hive_rep v' h' l' \<and> ls_cells h' l' = ls_cells h l \<and> hive_size v' = hive_size v \<and> hive_end v' = hive_end v \<and>
    hive_capacity v \<le> hive_capacity v' \<and> hive_capacity v' \<le> tr_max_size t \<and>
    (case r of Inr _ \<Rightarrow> n \<le> hive_capacity v' | Inl Length_error \<Rightarrow> v' = v \<and> h' = h | Inl e \<Rightarrow> e = Bad_alloc)"
proof (cases "n \<le> hive_capacity v \<or> plan_capacity t v (hive_capacity v) n = None")
  case True
  then have "v' = v" "h' = h" "r = (if n \<le> hive_capacity v then Inr () else Inl Length_error)"
    using assms(5) by (auto simp: reserve_def split: if_splits)
  then show ?thesis using assms(1,4) by auto
next
  case False
  then obtain plan where p: "plan_capacity t v (hive_capacity v) n = Some plan" "hive_capacity v < n" by auto
  note b = plan_bounds [OF p(1)]
  have m: "pl_block_max plan \<le> slot_npos" "pl_block_max plan \<le> lim_max (hv_limits v)" by (auto simp: b(5) allocation_block_max_def)
  have "n \<le> tr_max_size t" using p(1) by (auto simp: plan_capacity_def Let_def split: if_splits)
  then have t: "hive_capacity v + pl_added plan \<le> tr_max_size t" using b(4) by simp
  have R: "reserve_loop als (pl_blocks plan) (pl_added plan) (pl_block_max plan) v h = (r, v', h')"
    using assms(5) p by (simp add: reserve_def reserve_blocks_def)
  from reserve_loop_ok [OF assms(1-3) b(2,3,6) m b(7) R] obtain l' where l': "hive_rep v' h' l'" "ls_cells h' l' = ls_cells h l"
    "hive_size v' = hive_size v" "hv_epoch v' = hv_epoch v" "case r of Inr _ \<Rightarrow> hive_capacity v' = hive_capacity v + pl_added plan
      | Inl e \<Rightarrow> e = Bad_alloc \<and> hive_capacity v \<le> hive_capacity v' \<and> hive_capacity v' \<le> hive_capacity v + pl_added plan" by blast
  then show ?thesis using t b(1) p(2) by (intro exI [of _ l']) (cases r; auto simp: hive_end_def)
qed

section \<open>Trimming\<close>

text \<open>
  The loop of both \<open>trim_capacity\<close> functions, with the addresses it deallocates.  The one
  without an argument drops every reserved block: its bound is 0, which always allows it.
\<close>

partial_function (option) trim_loop :: "nat \<Rightarrow> control \<Rightarrow> 'v heap \<Rightarrow> addr list \<Rightarrow> (control \<times> addr list) option" where
  "trim_loop n c h freed =
     (if reserved_head c \<noteq> None \<and> n \<le> hc_capacity c - hb_capacity (h (the (reserved_head c)))
      then let a = the (reserved_head c)
           in trim_loop n (c\<lparr>reserved_head := hb_reserved_next (h a), hc_capacity := hc_capacity c - hb_capacity (h a)\<rparr>) h (freed @ [a])
      else Some (c, freed))"

definition trim_capacity :: "hive \<Rightarrow> 'v heap \<Rightarrow> (hive \<times> addr list) option" where
  "trim_capacity v h =
     (case hv_control v of None \<Rightarrow> Some (v, [])
      | Some c \<Rightarrow> map_option (\<lambda>(c', freed). (v\<lparr>hv_control := Some c'\<rparr>, freed)) (trim_loop 0 c h []))"

definition trim_capacity_to :: "nat \<Rightarrow> hive \<Rightarrow> 'v heap \<Rightarrow> (hive \<times> addr list) option" where
  "trim_capacity_to n v h =
     (case hv_control v of None \<Rightarrow> Some (v, [])
      | Some c \<Rightarrow> if n \<ge> hc_capacity c then Some (v, [])
         else map_option (\<lambda>(c', freed). (v\<lparr>hv_control := Some c'\<rparr>, freed)) (trim_loop n c h []))"

lemma unreserve_ok:
  assumes C: "ctl_rep c h l" and rs: "ls_reserved l = a # rs"
  shows "ctl_rep (c\<lparr>reserved_head := hb_reserved_next (h a), hc_capacity := hc_capacity c - hb_capacity (h a)\<rparr>) h (l\<lparr>ls_reserved := rs\<rparr>)"
proof -
  from C have L: "links_ok c h l" and K: "content_ok h l" and S: "hc_size c = length (ls_cells h l)"
    and N: "hc_capacity c = sum_list (map (\<lambda>a. hb_capacity (h a)) (ls_active l @ ls_reserved l))"
    by (auto elim: ctl_repE)
  have "links_ok (c\<lparr>reserved_head := hb_reserved_next (h a)\<rparr>) h (l\<lparr>ls_reserved := rs\<rparr>)"
    using links_unreserve [OF L rs, of "h a"] by simp
  then have "links_ok (c\<lparr>reserved_head := hb_reserved_next (h a), hc_capacity := hc_capacity c - hb_capacity (h a)\<rparr>) h (l\<lparr>ls_reserved := rs\<rparr>)"
    by simp
  moreover have "content_ok h (l\<lparr>ls_reserved := rs\<rparr>)" using K rs by (simp add: content_ok_def)
  ultimately show ?thesis using S N rs by (intro ctl_repI) (simp_all add: ls_cells_def)
qed

lemma trim_loop_ok:
  assumes "ctl_rep c h l"
  shows "\<exists>c' fs rs. trim_loop n c h freed = Some (c', freed @ fs) \<and> ls_reserved l = fs @ rs \<and> ctl_rep c' h (l\<lparr>ls_reserved := rs\<rparr>) \<and>
    (rs = [] \<or> hc_capacity c' - hb_capacity (h (hd rs)) < n) \<and> (fs \<noteq> [] \<longrightarrow> n \<le> hc_capacity c') \<and> (fs = [] \<longrightarrow> c' = c)"
  using assms
proof (induction "ls_reserved l" arbitrary: c l freed)
  case Nil
  then have "reserved_head c = None" using links_owned(6) by (fastforce simp: ctl_rep_def)
  moreover have e: "l\<lparr>ls_reserved := []\<rparr> = l" using Nil(1) by (cases l) simp
  have "ctl_rep c h (l\<lparr>ls_reserved := []\<rparr>)" by (subst e) (rule Nil(2))
  ultimately show ?case using Nil(1) by (intro exI [of _ c] exI [of _ "[]"]) (simp add: trim_loop.simps)
next
  case (Cons a rs)
  have r: "reserved_head c = Some a" using links_owned(6) [of c h l] Cons(2) [symmetric] Cons(3) by (auto simp: ctl_rep_def)
  show ?case
  proof (cases "n \<le> hc_capacity c - hb_capacity (h a)")
    case False
    have e: "l\<lparr>ls_reserved := a # rs\<rparr> = l" using Cons(2) by (cases l) simp
    have "trim_loop n c h freed = Some (c, freed @ [])" using False r by (simp add: trim_loop.simps)
    moreover have "ctl_rep c h (l\<lparr>ls_reserved := a # rs\<rparr>)" by (subst e) (rule Cons(3))
    moreover have "hc_capacity c - hb_capacity (h (hd (a # rs))) < n" using False by simp
    ultimately show ?thesis using Cons(2) by (metis append_Nil)
  next
    case True
    let ?c = "c\<lparr>reserved_head := hb_reserved_next (h a), hc_capacity := hc_capacity c - hb_capacity (h a)\<rparr>"
    have step: "trim_loop n c h freed = trim_loop n ?c h (freed @ [a])"
      by (subst trim_loop.simps) (simp add: r True Let_def)
    have R: "ctl_rep ?c h (l\<lparr>ls_reserved := rs\<rparr>)" by (rule unreserve_ok [OF Cons(3) Cons(2) [symmetric]])
    have "rs = ls_reserved (l\<lparr>ls_reserved := rs\<rparr>)" by simp
    from Cons(1) [OF this R, of "freed @ [a]"] obtain c' fs rs' where
      "trim_loop n ?c h (freed @ [a]) = Some (c', (freed @ [a]) @ fs)" "rs = fs @ rs'" "ctl_rep c' h (l\<lparr>ls_reserved := rs'\<rparr>)"
      "rs' = [] \<or> hc_capacity c' - hb_capacity (h (hd rs')) < n" "fs \<noteq> [] \<longrightarrow> n \<le> hc_capacity c'" "fs = [] \<longrightarrow> c' = ?c" by auto
    then show ?thesis using step Cons(2) True
      by (intro exI [of _ c'] exI [of _ "a # fs"] exI [of _ rs']) (cases fs; auto)
  qed
qed

lemma ls_cells_reserved [simp]: "ls_cells h (l\<lparr>ls_reserved := rs\<rparr>) = ls_cells h l"
  by (simp add: ls_cells_def)

text \<open>
  \<open>trim_capacity(n)\<close> returns, and gives back reserved blocks only: the elements stay where
  they are, each freed block is freed once and is no longer in the hive, the capacity does not
  fall below \<open>n\<close> (nor below its old value when that was smaller), and no further block could
  be freed.
\<close>

lemma trim_capacity_correct:
  assumes "hive_rep v h l"
  shows "\<exists>v' freed l'. trim_capacity_to n v h = Some (v', freed) \<and> hive_rep v' h l' \<and> ls_cells h l' = ls_cells h l \<and>
    ls_active l' = ls_active l \<and> ls_reserved l = freed @ ls_reserved l' \<and> distinct freed \<and> set freed \<inter> owned l' = {} \<and>
    min n (hive_capacity v) \<le> hive_capacity v' \<and>
    (n < hive_capacity v \<longrightarrow> ls_reserved l' = [] \<or> hive_capacity v' - hb_capacity (h (hd (ls_reserved l'))) < n)"
proof (cases "hv_control v")
  case None
  then have l: "l = no_lists" using assms by (simp add: hive_rep_owned)
  show ?thesis
    by (rule exI [of _ v], rule exI [of _ "[]"], rule exI [of _ l]) (use None assms in \<open>simp add: trim_capacity_to_def hive_capacity_def\<close>)
next
  case (Some c)
  then have C: "ctl_rep c h l" and W: "\<forall>a \<in> owned l. within (hv_limits v) (hb_capacity (h a))" using assms by (simp_all add: hive_rep_owned)
  have cap: "hive_capacity v = hc_capacity c" using Some by (simp add: hive_capacity_def)
  show ?thesis
  proof (cases "hc_capacity c \<le> n")
    case True
    then have t: "trim_capacity_to n v h = Some (v, [])" using Some by (simp add: trim_capacity_to_def)
    show ?thesis
      by (rule exI [of _ v], rule exI [of _ "[]"], rule exI [of _ l]) (use t True assms cap in simp)
  next
    case False
    from trim_loop_ok [OF C, of n "[]"] obtain c' fs rs where T: "trim_loop n c h [] = Some (c', fs)" "ls_reserved l = fs @ rs"
      "ctl_rep c' h (l\<lparr>ls_reserved := rs\<rparr>)" "rs = [] \<or> hc_capacity c' - hb_capacity (h (hd rs)) < n"
      "fs \<noteq> [] \<longrightarrow> n \<le> hc_capacity c'" "fs = [] \<longrightarrow> c' = c" by auto
    define v' where "v' = v\<lparr>hv_control := Some c'\<rparr>"
    define l' where "l' = l\<lparr>ls_reserved := rs\<rparr>"
    have "trim_capacity_to n v h = Some (v', fs)" using Some False T(1) by (simp add: trim_capacity_to_def v'_def)
    moreover have "hive_rep v' h l'" using T(2,3) W by (auto simp: hive_rep_owned v'_def l'_def owned_def)
    moreover have "distinct (ls_active l @ fs @ rs)" using links_owned(2) [of c h l] C T(2) by (simp add: ctl_rep_def)
    moreover have "hive_capacity v' = hc_capacity c'" by (simp add: v'_def hive_capacity_def)
    moreover have "min n (hc_capacity c) \<le> hc_capacity c'" using T(5,6) False by (cases "fs = []") auto
    ultimately show ?thesis using T(2,4) cap by (intro exI [of _ v'] exI [of _ fs] exI [of _ l']) (auto simp: l'_def owned_def)
  qed
qed

text \<open>
  C16.  \<open>reserve(n)\<close> provides the requested capacity with blocks within the limits and within
  \<open>max_size\<close>, or throws \<open>length_error\<close> before it changes anything, or \<open>bad_alloc\<close> with what it could allocate;
  elements, their positions and the end iterator stay.  \<open>trim_capacity(m)\<close> returns, gives back reserved
  blocks only, each once, does not fall below \<open>m\<close>, and leaves no further block that could be given
  back; elements and active blocks stay.
\<close>

theorem hive_capacity_bounds:
  assumes "hive_rep v h l" "\<forall>al \<in> set als. \<forall>a. al_block al = Some a \<longrightarrow> a \<notin> owned l" "distinct (List.map_filter al_block als)"
    and "hive_capacity v \<le> tr_max_size t" "reserve t als n v h = (r, v', h')"
  shows "(\<exists>l'. hive_rep v' h' l' \<and> ls_cells h' l' = ls_cells h l \<and> hive_size v' = hive_size v \<and> hive_end v' = hive_end v \<and>
      hive_capacity v \<le> hive_capacity v' \<and> hive_capacity v' \<le> tr_max_size t \<and>
      (case r of Inr _ \<Rightarrow> n \<le> hive_capacity v' | Inl Length_error \<Rightarrow> v' = v \<and> h' = h | Inl e \<Rightarrow> e = Bad_alloc)) \<and>
    (\<exists>w freed k. trim_capacity_to m v h = Some (w, freed) \<and> hive_rep w h k \<and> ls_cells h k = ls_cells h l \<and>
      ls_active k = ls_active l \<and> ls_reserved l = freed @ ls_reserved k \<and> distinct freed \<and> set freed \<inter> owned k = {} \<and>
      min m (hive_capacity v) \<le> hive_capacity w \<and>
      (m < hive_capacity v \<longrightarrow> ls_reserved k = [] \<or> hive_capacity w - hb_capacity (h (hd (ls_reserved k))) < m))"
  by (rule conjI [OF reserve_correct [OF assms] trim_capacity_correct [OF assms(1)]])

theorem hive_capacity_bounds_witness:
  "\<exists>v h l r v' h'. hive_rep v (h :: nat heap) l \<and> hive_capacity v = 4 \<and>
    reserve demo_traits [\<lparr>al_control = True, al_block = Some 3\<rparr>] 6 v h = (r, v', h') \<and>
    (\<exists>l'. hive_rep v' h' l' \<and> ls_cells h' l' = ls_cells h l \<and> hive_size v' = hive_size v \<and> hive_end v' = hive_end v \<and>
    hive_capacity v \<le> hive_capacity v' \<and> hive_capacity v' \<le> tr_max_size demo_traits \<and>
    (case r of Inr _ \<Rightarrow> 6 \<le> hive_capacity v' | Inl Length_error \<Rightarrow> v' = v \<and> h' = h | Inl e \<Rightarrow> e = Bad_alloc)) \<and>
    (\<exists>w freed k. trim_capacity_to 3 v h = Some (w, freed) \<and> hive_rep w h k \<and> ls_cells h k = ls_cells h l \<and>
      ls_active k = ls_active l \<and> ls_reserved l = freed @ ls_reserved k \<and> distinct freed \<and> set freed \<inter> owned k = {} \<and>
      min 3 (hive_capacity v) \<le> hive_capacity w \<and>
      (3 < hive_capacity v \<longrightarrow> ls_reserved k = [] \<or> hive_capacity w - hb_capacity (h (hd (ls_reserved k))) < 3))"
proof (rule demo_state)
  fix v and h :: "nat heap" and A v' and h' :: "nat heap" and A' l
  assume I: "hive_inv (v, h, A) l" and A: "3 \<notin> A" and c: "hive_capacity v = 4"
  then have H: "hive_rep v h l" and O: "3 \<notin> owned l" by (auto simp: hive_inv_def)
  let ?als = "[\<lparr>al_control = True, al_block = Some 3\<rparr>]"
  obtain r w g where E: "reserve demo_traits ?als 6 v h = (r, w, g)" using prod_cases3 by blast
  have f: "\<forall>al \<in> set ?als. \<forall>a. al_block al = Some a \<longrightarrow> a \<notin> owned l" "distinct (List.map_filter al_block ?als)"
    "hive_capacity v \<le> tr_max_size demo_traits" using O c by (simp_all add: List.map_filter_def demo_traits_def)
  note T = hive_capacity_bounds [OF H f E, of 3]
  note W = H c E conjunct1 [OF T] conjunct2 [OF T]
  show ?thesis
    by (rule exI [of _ v], rule exI [of _ h], rule exI [of _ l], rule exI [of _ r], rule exI [of _ w], rule exI [of _ g]) (intro conjI W)
qed

section \<open>Clearing\<close>

text \<open>The loop of \<open>clear\<close>, with the positions whose elements it destroys.\<close>

partial_function (option) clear_loop :: "ptr \<Rightarrow> control \<Rightarrow> 'v heap \<Rightarrow> (addr \<times> nat) list \<Rightarrow> (control \<times> 'v heap \<times> (addr \<times> nat) list) option" where
  "clear_loop p c h ds =
     (if p = None then Some (c, h, ds)
      else let a = the p;
               nx = hb_active_next (h a);
               b = (reset_vacant_block (h a))\<lparr>hb_active := False, hb_active_prev := None, hb_active_next := None,
                     hb_available_prev := None, hb_available_next := None, hb_in_available := False,
                     hb_reserved_next := reserved_head c\<rparr>
           in clear_loop nx (c\<lparr>reserved_head := Some a\<rparr>) (h(a := b)) (ds @ map (Pair a) (destroy_live_elements (h a))))"

definition clear_without_end_invalidation :: "hive \<Rightarrow> 'v heap \<Rightarrow> (hive \<times> 'v heap \<times> (addr \<times> nat) list) option" where
  "clear_without_end_invalidation v h =
     (case hv_control v of None \<Rightarrow> Some (v, h, [])
      | Some c \<Rightarrow> map_option (\<lambda>(c', h', ds). (v\<lparr>hv_control := Some (c'\<lparr>active_head := None, active_tail := None,
             available_head := None, hc_size := 0\<rparr>)\<rparr>, h', ds)) (clear_loop (active_head c) c h []))"

definition hive_clear :: "hive \<Rightarrow> 'v heap \<Rightarrow> (hive \<times> 'v heap \<times> (addr \<times> nat) list) option" where
  "hive_clear v h = map_option (\<lambda>(v', h', ds). (touch_end v', h', ds)) (clear_without_end_invalidation v h)"

definition vacant :: "'v hblock \<Rightarrow> bool" where
  "vacant b \<longleftrightarrow> blk_rep b [] \<and> \<not> hb_active b \<and> \<not> hb_in_available b"

lemma clear_loop_ok:
  fixes h :: "'v heap"
  assumes "chain (\<lambda>a. hb_active_next (h a)) p as None" "chain (\<lambda>a. hb_reserved_next (h a)) (reserved_head c) rs None"
    "distinct (as @ rs)" "\<forall>a \<in> set rs. vacant (h a)" "\<forall>a \<in> set as. active_block (h a)"
  shows "\<exists>h'. clear_loop p c h ds = Some (c\<lparr>reserved_head := first_ptr (rev as @ rs) None\<rparr>, h', ds @ concat (map (\<lambda>a. map fst (cells_at h a)) as)) \<and>
    chain (\<lambda>a. hb_reserved_next (h' a)) (first_ptr (rev as @ rs) None) (rev as @ rs) None \<and>
    (\<forall>a \<in> set (as @ rs). vacant (h' a)) \<and> (\<forall>a. hb_capacity (h' a) = hb_capacity (h a))"
  using assms
proof (induction as arbitrary: p c h ds rs)
  case Nil
  then have "c\<lparr>reserved_head := first_ptr rs None\<rparr> = c" using chain_first [OF Nil(2)] by (cases c) simp
  then show ?case using Nil chain_first [OF Nil(2)] by (intro exI [of _ h]) (simp add: clear_loop.simps)
next
  case (Cons a as)
  define b where "b = (reset_vacant_block (h a))\<lparr>hb_active := False, hb_active_prev := None, hb_active_next := None,
                     hb_available_prev := None, hb_available_next := None, hb_in_available := False,
                     hb_reserved_next := reserved_head c\<rparr>"
  define h1 where "h1 = h(a := b)"
  define c1 where "c1 = c\<lparr>reserved_head := Some a\<rparr>"
  obtain zs where z: "blk_rep (h a) zs" using Cons.prems(5) by (auto simp: active_block_def)
  have d: "destroy_live_elements (h a) = map fst (blk_cells (h a))"
    using destroy_live_elements_rep [OF z] blk_cells_rep [OF z] by simp
  then have ds: "map (Pair a) (destroy_live_elements (h a)) = map fst (cells_at h a)" by (simp add: cells_at_def o_def case_prod_beta)
  have step: "clear_loop p c h ds = clear_loop (hb_active_next (h a)) c1 h1 (ds @ map fst (cells_at h a))"
    using Cons.prems(1) ds by (subst clear_loop.simps) (simp add: Let_def b_def [symmetric] h1_def c1_def)
  have oa: "\<forall>x \<in> set as. h1 x = h x" and ors: "\<forall>x \<in> set rs. h1 x = h x" using Cons.prems(3) by (auto simp: h1_def)
  have V: "vacant (h1 a)" using z by (simp add: h1_def b_def vacant_def reset_vacant_block_def blk_rep_vacant) (simp add: blk_rep_def)
  have p1: "chain (\<lambda>x. hb_active_next (h1 x)) (hb_active_next (h a)) as None"
    using Cons.prems(1) oa by (subst chain_cong [of as _ "\<lambda>x. hb_active_next (h x)"]) auto
  have p2: "chain (\<lambda>x. hb_reserved_next (h1 x)) (reserved_head c1) (a # rs) None"
    using Cons.prems(2) ors chain_cong [of rs "\<lambda>x. hb_reserved_next (h1 x)" "\<lambda>x. hb_reserved_next (h x)"]
    by (auto simp: c1_def h1_def b_def)
  have p3: "distinct (as @ a # rs)" using Cons.prems(3) by auto
  have p4: "\<forall>x \<in> set (a # rs). vacant (h1 x)" using V Cons.prems(4) ors by auto
  have p5: "\<forall>x \<in> set as. active_block (h1 x)" using Cons.prems(5) oa by auto
  from Cons.IH [OF p1 p2 p3 p4 p5, of "ds @ map fst (cells_at h a)"] obtain h' where h': "clear_loop (hb_active_next (h a)) c1 h1 (ds @ map fst (cells_at h a)) =
      Some (c1\<lparr>reserved_head := first_ptr (rev as @ a # rs) None\<rparr>, h', (ds @ map fst (cells_at h a)) @ concat (map (\<lambda>a. map fst (cells_at h1 a)) as))"
    "chain (\<lambda>x. hb_reserved_next (h' x)) (first_ptr (rev as @ a # rs) None) (rev as @ a # rs) None"
    "\<forall>x \<in> set (as @ a # rs). vacant (h' x)" "\<forall>x. hb_capacity (h' x) = hb_capacity (h1 x)"
    by (elim exE conjE)
  have m: "map (\<lambda>a. map fst (cells_at h1 a)) as = map (\<lambda>a. map fst (cells_at h a)) as"
    using oa by (auto simp: cells_at_def)
  have "hb_capacity (h1 x) = hb_capacity (h x)" for x by (simp add: h1_def b_def reset_vacant_block_def)
  then show ?case using step h' [unfolded m] by (intro exI [of _ h']) (auto simp: c1_def)
qed

lemma clear_without_ok:
  assumes "hive_rep v h l"
  shows "\<exists>v' h' l'. clear_without_end_invalidation v h = Some (v', h', map fst (ls_cells h l)) \<and> hive_rep v' h' l' \<and> ls_cells h' l' = [] \<and>
    hive_size v' = 0 \<and> hive_capacity v' = hive_capacity v \<and> owned l' = owned l \<and> hv_limits v' = hv_limits v \<and> hv_epoch v' = hv_epoch v"
proof (cases "hv_control v")
  case None
  then have l: "l = no_lists" using assms by (simp add: hive_rep_owned)
  show ?thesis
    by (rule exI [of _ v], rule exI [of _ h], rule exI [of _ l])
      (use None assms l in \<open>simp add: clear_without_end_invalidation_def hive_capacity_def hive_size_def ls_cells_def no_lists_def\<close>)
next
  case (Some c)
  then have C: "ctl_rep c h l" and W: "\<forall>a \<in> owned l. within (hv_limits v) (hb_capacity (h a))" using assms by (simp_all add: hive_rep_owned)
  from C have L: "links_ok c h l" and K: "content_ok h l"
    and N: "hc_capacity c = sum_list (map (\<lambda>a. hb_capacity (h a)) (ls_active l @ ls_reserved l))" by (auto elim: ctl_repE)
  have p: "chain (\<lambda>a. hb_active_next (h a)) (active_head c) (ls_active l) None"
    "chain (\<lambda>a. hb_reserved_next (h a)) (reserved_head c) (ls_reserved l) None"
    "distinct (ls_active l @ ls_reserved l)"
    using L by (simp_all add: links_ok_def lists_rep_def act.dll_def)
  have V: "\<forall>a \<in> set (ls_reserved l). vacant (h a)"
  proof
    fix a
    assume a: "a \<in> set (ls_reserved l)"
    then have "a \<notin> set (ls_available l)" using links_owned(1,2) [OF L] by auto
    then show "vacant (h a)" using a L K by (auto simp: vacant_def links_ok_def flags_ok_def content_ok_def)
  qed
  have A: "\<forall>a \<in> set (ls_active l). active_block (h a)" using K by (simp add: content_ok_def)
  let ?rs = "rev (ls_active l) @ ls_reserved l"
  obtain h' where h': "clear_loop (active_head c) c h [] = Some (c\<lparr>reserved_head := first_ptr ?rs None\<rparr>, h', concat (map (\<lambda>a. map fst (cells_at h a)) (ls_active l)))"
    "chain (\<lambda>a. hb_reserved_next (h' a)) (first_ptr ?rs None) ?rs None" "\<forall>a \<in> set (ls_active l @ ls_reserved l). vacant (h' a)"
    "\<forall>a. hb_capacity (h' a) = hb_capacity (h a)" using clear_loop_ok [OF p V A, of "[]"] by auto
  define c' where "c' = c\<lparr>reserved_head := first_ptr ?rs None, active_head := None, active_tail := None, available_head := None, hc_size := 0\<rparr>"
  define l' where "l' = \<lparr>ls_active = [], ls_available = [], ls_reserved = ?rs\<rparr>"
  define v' where "v' = v\<lparr>hv_control := Some c'\<rparr>"
  have "concat (map (\<lambda>a. map fst (cells_at h a)) (ls_active l)) = map fst (ls_cells h l)" by (simp add: ls_cells_def map_concat o_def)
  then have "clear_without_end_invalidation v h = Some (v', h', map fst (ls_cells h l))"
    using h'(1) Some by (simp add: clear_without_end_invalidation_def v'_def c'_def)
  moreover have "ctl_rep c' h' l'"
  proof (rule ctl_repI)
    show "links_ok c' h' l'" using h'(2,3) p(3) by (auto simp: links_ok_def lists_rep_def flags_ok_def c'_def l'_def vacant_def)
    show "content_ok h' l'" using h'(3) by (auto simp: content_ok_def l'_def vacant_def)
    show "hc_size c' = length (ls_cells h' l')" by (simp add: c'_def l'_def ls_cells_def)
    show "hc_capacity c' = sum_list (map (\<lambda>a. hb_capacity (h' a)) (ls_active l' @ ls_reserved l'))"
      using N h'(4) by (simp add: c'_def l'_def rev_map [symmetric])
  qed
  moreover have "owned l' = owned l" by (simp add: owned_def l'_def)
  ultimately have "clear_without_end_invalidation v h = Some (v', h', map fst (ls_cells h l)) \<and> hive_rep v' h' l' \<and> owned l' = owned l"
    using W h'(4) by (simp add: hive_rep_owned v'_def)
  then show ?thesis using Some
    by (intro exI [of _ v'] exI [of _ h'] exI [of _ l']) (auto simp: v'_def c'_def l'_def ls_cells_def hive_size_def hive_capacity_def)
qed

end
