(* ===== verification/Hive_Rebuild.thy ===== *)
theory Hive_Rebuild
  imports Hive_Splice Hive_Capacity
begin

text \<open>
  Operations that fill, rebuild or release a whole hive (\<open>backport/cpp26/hive.hpp\<close>): appending
  and assigning, copying, the destructor, \<open>shrink_to_fit\<close> and \<open>reshape\<close>.
\<close>

section \<open>Appending and assigning\<close>

text \<open>
  The loop of \<open>append_input\<close>, \<open>append_range\<close>, \<open>append_default\<close> and \<open>append_copies\<close>.  For each new
  element the input says what the allocator answers and whether its constructor returns.
\<close>

fun append_input :: "traits \<Rightarrow> (allocs \<times> 'v option) list \<Rightarrow> hive \<Rightarrow> 'v heap \<Rightarrow> (hexn + unit) \<times> hive \<times> 'v heap" where
  "append_input t [] v h = (Inr (), v, h)"
| "append_input t ((al, x) # xs) v h =
     (case emplace t al x v h of
        (Inl e, v', h') \<Rightarrow> (Inl e, v', h')
      | (Inr _, v', h') \<Rightarrow> append_input t xs v' h')"

text \<open>Assignment replaces the elements and keeps end iterators valid, also when it throws.\<close>

definition assign_input :: "traits \<Rightarrow> (allocs \<times> 'v option) list \<Rightarrow> hive \<Rightarrow> 'v heap \<Rightarrow> ((hexn + unit) \<times> hive \<times> 'v heap) option" where
  "assign_input t xs v h =
     map_option (\<lambda>(v1, h1, ds). case append_input t xs v1 h1 of (r, v2, h2) \<Rightarrow> (r, v2\<lparr>hv_epoch := hv_epoch v\<rparr>, h2))
       (clear_without_end_invalidation v h)"

section \<open>Releasing\<close>

text \<open>The loops of the destructor, with the positions they destroy and the blocks they free.\<close>

partial_function (option) release_active :: "ptr \<Rightarrow> 'v heap \<Rightarrow> (addr \<times> nat) list \<Rightarrow> addr list \<Rightarrow> ((addr \<times> nat) list \<times> addr list) option" where
  "release_active p h ds fs =
     (if p = None then Some (ds, fs)
      else let a = the p
           in release_active (hb_active_next (h a)) h (ds @ map (Pair a) (destroy_live_elements (h a))) (fs @ [a]))"

partial_function (option) release_reserved :: "ptr \<Rightarrow> 'v heap \<Rightarrow> addr list \<Rightarrow> addr list option" where
  "release_reserved p h fs =
     (if p = None then Some fs else let a = the p in release_reserved (hb_reserved_next (h a)) h (fs @ [a]))"

definition release_storage :: "hive \<Rightarrow> 'v heap \<Rightarrow> (hive \<times> (addr \<times> nat) list \<times> addr list) option" where
  "release_storage v h =
     (case hv_control v of None \<Rightarrow> Some (v, [], [])
      | Some c \<Rightarrow> Option.bind (release_active (active_head c) h [] []) (\<lambda>(ds, fs).
          map_option (\<lambda>fs'. (v\<lparr>hv_control := None\<rparr>, ds, fs')) (release_reserved (reserved_head c) h fs)))"

section \<open>Rebuilding\<close>

text \<open>
  Elements are moved one by one.  \<open>mv x\<close> is what the element's move constructor makes of the
  value \<open>x\<close>: the new value, or \<open>None\<close> when it throws, and the value it leaves behind.  The
  constructor is not called when the destination has no slot to construct into.
\<close>

definition constructed :: "hexn + 'a \<Rightarrow> bool" where
  "constructed r \<longleftrightarrow> r \<noteq> Inl Length_error \<and> r \<noteq> Inl Bad_alloc"

partial_function (option) append_move_loop ::
  "('v \<Rightarrow> 'v option \<times> 'v) \<Rightarrow> traits \<Rightarrow> (nat \<Rightarrow> allocs) \<Rightarrow> nat \<Rightarrow> iter \<Rightarrow> iter \<Rightarrow> hive \<Rightarrow> hive \<Rightarrow> 'v heap \<Rightarrow> ((hexn + unit) \<times> hive \<times> 'v heap) option" where
  "append_move_loop mv t als n current limit v d h =
     (if current = limit then Some (Inr (), d, h)
      else let x = value_of h current
           in case emplace t (als n) (fst (mv x)) d h of
                (r, d', h') \<Rightarrow>
                  (let h2 = (if constructed r then set_slot_of current (Elem (snd (mv x))) h' else h')
                   in case r of
                        Inl e \<Rightarrow> Some (Inl e, d', h2)
                      | Inr _ \<Rightarrow> append_move_loop mv t als (n + 1) (iter_next v h2 current) limit v d' h2))"

definition append_move_to :: "('v \<Rightarrow> 'v option \<times> 'v) \<Rightarrow> traits \<Rightarrow> (nat \<Rightarrow> allocs) \<Rightarrow> hive \<Rightarrow> hive \<Rightarrow> 'v heap \<Rightarrow> ((hexn + unit) \<times> hive \<times> 'v heap) option" where
  "append_move_to mv t als v d h = append_move_loop mv t als 0 (hive_begin v h) (hive_end v) v d h"

text \<open>
  The tail of \<open>shrink_to_fit\<close> and \<open>reshape\<close>: the local hive \<open>rebuilt\<close> has reserved its blocks, or
  has failed to; it takes over the elements and is swapped with the hive; and whatever it then
  holds is released, also on the way out of an exception.  The result includes the
  freed blocks.
\<close>

definition rebuild_from ::
  "('v \<Rightarrow> 'v option \<times> 'v) \<Rightarrow> traits \<Rightarrow> (nat \<Rightarrow> allocs) \<Rightarrow> hive \<Rightarrow> (hexn + unit) \<times> hive \<times> 'v heap \<Rightarrow>
   ((hexn + unit) \<times> hive \<times> 'v heap \<times> addr list) option" where
  "rebuild_from mv t als v reserved =
     (case reserved of
        (Inl e, d, h) \<Rightarrow> map_option (\<lambda>(_, _, fs). (Inl e, v, h, fs)) (release_storage d h)
      | (Inr _, d, h) \<Rightarrow>
          Option.bind (append_move_to mv t als v d h) (\<lambda>(r, d', h').
            case r of
              Inl e \<Rightarrow> map_option (\<lambda>(_, _, fs). (Inl e, v, h', fs)) (release_storage d' h')
            | Inr _ \<Rightarrow> (case hive_swap v d' of (v', d2) \<Rightarrow>
                map_option (\<lambda>(_, _, fs). (Inr (), v', h', fs)) (release_storage d2 h'))))"

definition shrink_to_fit ::
  "('v \<Rightarrow> 'v option \<times> 'v) \<Rightarrow> traits \<Rightarrow> allocs list \<Rightarrow> (nat \<Rightarrow> allocs) \<Rightarrow> hive \<Rightarrow> 'v heap \<Rightarrow>
   ((hexn + unit) \<times> hive \<times> 'v heap \<times> addr list) option" where
  "shrink_to_fit mv t als ans v h =
     Option.bind (trim_capacity v h) (\<lambda>(v1, freed).
       if hive_capacity v1 = hive_size v1 \<or> hive_size v1 = 0 then Some (Inr (), v1, h, freed)
       else case plan_capacity t v1 0 (hive_size v1) of
         None \<Rightarrow> Some (Inr (), v1, h, freed)
       | Some plan \<Rightarrow>
           if pl_added plan \<ge> hive_capacity v1 then Some (Inr (), v1, h, freed)
           else case hive_make t (hv_limits v1) of
             Inl e \<Rightarrow> Some (Inl e, v1, h, freed)
           | Inr rebuilt \<Rightarrow> map_option (\<lambda>(r, v', h', fs). (r, v', h', freed @ fs))
               (rebuild_from mv t ans v1 (reserve_blocks als plan rebuilt h)))"

text \<open>\<open>reshape\<close>: rebuild when an active block is outside the limits, otherwise drop reserved blocks.\<close>

partial_function (option) needs_rebuild :: "limits \<Rightarrow> ptr \<Rightarrow> 'v heap \<Rightarrow> bool option" where
  "needs_rebuild lim p h =
     (if p = None then Some False
      else let b = h (the p) in if \<not> within lim (hb_capacity b) then Some True else needs_rebuild lim (hb_active_next b) h)"

text \<open>The walk over the reserved list; \<open>prev\<close> is the block whose link is at hand, none for the head.\<close>

partial_function (option) drop_reserved :: "limits \<Rightarrow> ptr \<Rightarrow> ptr \<Rightarrow> control \<Rightarrow> 'v heap \<Rightarrow> addr list \<Rightarrow> (control \<times> 'v heap \<times> addr list) option" where
  "drop_reserved lim prev p c h freed =
     (if p = None then Some (c, h, freed)
      else let a = the p; nx = hb_reserved_next (h a)
           in if \<not> within lim (hb_capacity (h a))
              then let c1 = (if prev = None then c\<lparr>reserved_head := nx\<rparr> else c);
                       h1 = (if prev = None then h else h(the prev := (h (the prev))\<lparr>hb_reserved_next := nx\<rparr>))
                   in drop_reserved lim prev nx (c1\<lparr>hc_capacity := hc_capacity c1 - hb_capacity (h a)\<rparr>) h1 (freed @ [a])
              else drop_reserved lim (Some a) nx c h freed)"

definition reshape ::
  "('v \<Rightarrow> 'v option \<times> 'v) \<Rightarrow> traits \<Rightarrow> allocs list \<Rightarrow> (nat \<Rightarrow> allocs) \<Rightarrow> limits \<Rightarrow> hive \<Rightarrow> 'v heap \<Rightarrow>
   ((hexn + unit) \<times> hive \<times> 'v heap \<times> addr list) option" where
  "reshape mv t als ans lim v h =
     (if \<not> is_within_hard_limits t lim then Some (Inl Length_error, v, h, [])
      else case hv_control v of
        None \<Rightarrow> Some (Inr (), v\<lparr>hv_limits := lim\<rparr>, h, [])
      | Some c \<Rightarrow> Option.bind (needs_rebuild lim (active_head c) h) (\<lambda>rebuild.
          if rebuild
          then case hive_make t lim of
            Inl e \<Rightarrow> Some (Inl e, v, h, [])
          | Inr rebuilt \<Rightarrow> rebuild_from mv t ans v (reserve t als (hive_size v) rebuilt h)
          else map_option (\<lambda>(c', h', fs). (Inr (), v\<lparr>hv_control := Some c', hv_limits := lim\<rparr>, h', fs))
            (drop_reserved lim None (reserved_head c) c h [])))"

section \<open>Releasing everything\<close>

lemma release_active_ok:
  "chain (\<lambda>a. hb_active_next (h a)) p as None \<Longrightarrow> \<forall>a \<in> set as. active_block (h a) \<Longrightarrow>
   release_active p h ds fs = Some (ds @ concat (map (\<lambda>a. map fst (cells_at h a)) as), fs @ as)"
proof (induction as arbitrary: p ds fs)
  case Nil
  then show ?case by (simp add: release_active.simps)
next
  case (Cons a as)
  obtain zs where z: "blk_rep (h a) zs" using Cons.prems(2) by (auto simp: active_block_def)
  then have "map (Pair a) (destroy_live_elements (h a)) = map fst (cells_at h a)"
    using destroy_live_elements_rep [OF z] blk_cells_rep [OF z] by (simp add: cells_at_fst)
  then show ?case using Cons by (subst release_active.simps) (simp add: Let_def)
qed

lemma release_reserved_ok:
  "chain (\<lambda>a. hb_reserved_next (h a)) p as None \<Longrightarrow> release_reserved p h fs = Some (fs @ as)"
proof (induction as arbitrary: p fs)
  case Nil
  then show ?case by (simp add: release_reserved.simps)
next
  case (Cons a as)
  then show ?case by (subst release_reserved.simps) (simp add: Let_def)
qed

lemma release_storage_ok:
  assumes "hive_rep v h l"
  shows "release_storage v h = Some (v\<lparr>hv_control := None\<rparr>, map fst (ls_cells h l), ls_active l @ ls_reserved l)"
proof (cases "hv_control v")
  case None
  then have "v\<lparr>hv_control := None\<rparr> = v" by (cases v) simp
  then show ?thesis using None assms by (simp add: release_storage_def hive_rep_owned)
next
  case (Some c)
  then have L: "links_ok c h l" and K: "content_ok h l" using assms by (simp_all add: hive_rep_owned ctl_rep_def)
  have p: "chain (\<lambda>a. hb_active_next (h a)) (active_head c) (ls_active l) None"
    "chain (\<lambda>a. hb_reserved_next (h a)) (reserved_head c) (ls_reserved l) None"
    using L by (simp_all add: links_ok_def lists_rep_def act.dll_def)
  have "\<forall>a \<in> set (ls_active l). active_block (h a)" using K by (simp add: content_ok_def)
  from release_active_ok [OF p(1) this, of "[]" "[]"] release_reserved_ok [OF p(2)] show ?thesis
    using Some by (simp add: release_storage_def ls_cells_def map_concat o_def)
qed

section \<open>Insertion with room\<close>

lemma ctl_capacity:
  assumes "ctl_rep c h l"
  shows "hc_capacity c = (\<Sum>a \<in> owned l. hb_capacity (h a))"
proof -
  have d: "distinct (ls_active l @ ls_reserved l)" using links_owned(2) [of c h l] assms by (simp add: ctl_rep_def)
  have "hc_capacity c = sum_list (map (\<lambda>a. hb_capacity (h a)) (ls_active l @ ls_reserved l))" using assms by (rule ctl_repE)
  then show ?thesis by (simp only: owned_def sum_list_distinct_conv_sum_set [OF d])
qed

lemma hive_has_room:
  assumes "hive_rep v h l" "hive_size v < hive_capacity v"
  obtains c where "hv_control v = Some c" "ctl_rep c h l" "available_head c \<noteq> None \<or> reserved_head c \<noteq> None"
proof -
  obtain c where c: "hv_control v = Some c" using assms(2) by (cases "hv_control v") (auto simp: hive_size_def hive_capacity_def)
  moreover have "available_head c \<noteq> None \<or> reserved_head c \<noteq> None"
    using no_room_full_hive [OF assms(1)] c assms(2) by (metis nat_neq_iff)
  ultimately show ?thesis using that assms(1) by (simp add: hive_rep_owned)
qed

lemma activate_frame:
  assumes "activate x a c h = (c', h')" "active_tail c \<noteq> Some y" "available_head c \<noteq> Some y" "y \<noteq> a"
  shows "h' y = h y"
  using assms by (auto simp: activate_def active_append_def available_add_def Let_def split: option.splits if_splits)

lemma available_remove_frame:
  assumes R: "available_remove a c h = (c', h')" and D: "avl.dll h (available_head c) vs"
    and I: "hb_in_available (h a) \<Longrightarrow> a \<in> set vs" and y: "y \<notin> set vs" "y \<noteq> a"
  shows "h' y = h y"
proof (cases "hb_in_available (h a)")
  case True
  then obtain ps qs where s: "vs = ps @ a # qs" using I by (auto simp: in_set_conv_decomp)
  note at = avl.dll_at [OF D [unfolded s]]
  have "hb_available_prev (h a) \<noteq> Some y" "hb_available_next (h a) \<noteq> Some y" using at y(1) s by (auto dest: last_ptr_in_set first_ptr_in_set)
  moreover have n: "hb_available_prev (h a) \<noteq> Some a" "hb_available_next (h a) \<noteq> Some a"
    using at avl.dll_distinct [OF D] s by (auto dest: last_ptr_in_set first_ptr_in_set)
  ultimately show ?thesis using R y(2) unfolding available_remove_eq [where h = h and a = a and c = c, OF True n] by auto
next
  case False
  then show ?thesis using R by (simp add: available_remove_def)
qed

lemma emplace_room:
  fixes h :: "'v heap"
  assumes H: "hive_rep v h l" and N: "hive_size v < hive_capacity v"
  shows "\<exists>a i v' h' l' xs ys. emplace t al (Some x) v h = (Inr (At a i), v', h') \<and> hive_rep v' h' l' \<and> owned l' = owned l \<and>
      hive_capacity v' = hive_capacity v \<and> hv_limits v' = hv_limits v \<and> ls_cells h l = xs @ ys \<and> ls_cells h' l' = xs @ ((a, i), x) # ys"
    and "\<exists>h'. emplace t al None v h = (Inl Ctor_throw, v, h') \<and> hive_rep v h' l \<and> ls_cells h' l = ls_cells h l"
proof -
  obtain c where c: "hv_control v = Some c" and C: "ctl_rep c h l" and room: "available_head c \<noteq> None \<or> reserved_head c \<noteq> None"
    using hive_has_room [OF H N] .
  have W: "\<forall>a \<in> owned l. within (hv_limits v) (hb_capacity (h a))" using H by (simp add: hive_rep_owned)
  have ok: "\<exists>a i c' h' l' xs ys. emplace t al (Some x) v h = (Inr (At a i), touch_end (v\<lparr>hv_control := Some c'\<rparr>), h') \<and> ctl_rep c' h' l' \<and>
     ls_cells h l = xs @ ys \<and> ls_cells h' l' = xs @ ((a, i), x) # ys \<and> owned l' = owned l \<and> (\<forall>y. hb_capacity (h' y) = hb_capacity (h y))"
  proof (cases "available_head c")
    case (Some a)
    from emplace_available_ok [OF C Some, of x v] show ?thesis using c Some by (simp add: emplace_def) blast
  next
    case None
    then obtain b where b: "reserved_head c = Some b" using room by auto
    from emplace_reserved_ok [OF C b, of x v] show ?thesis using c None b by (simp add: emplace_def) (metis append_Nil2)
  qed
  then obtain a i c' h' l' xs ys where E: "emplace t al (Some x) v h = (Inr (At a i), touch_end (v\<lparr>hv_control := Some c'\<rparr>), h')"
    "ctl_rep c' h' l'" "ls_cells h l = xs @ ys" "ls_cells h' l' = xs @ ((a, i), x) # ys" "owned l' = owned l" "\<forall>y. hb_capacity (h' y) = hb_capacity (h y)"
    by (elim exE conjE)
  define v' where "v' = touch_end (v\<lparr>hv_control := Some c'\<rparr>)"
  have "hive_rep v' h' l'" using E(2,5,6) W by (simp add: hive_rep_owned v'_def)
  moreover have "hc_capacity c' = hc_capacity c" using ctl_capacity [OF C] ctl_capacity [OF E(2)] E(5,6) by simp
  then have "hive_capacity v' = hive_capacity v" "hv_limits v' = hv_limits v" using c by (simp_all add: hive_capacity_def v'_def)
  ultimately show "\<exists>a i v' h' l' xs ys. emplace t al (Some x) v h = (Inr (At a i), v', h') \<and> hive_rep v' h' l' \<and> owned l' = owned l \<and>
      hive_capacity v' = hive_capacity v \<and> hv_limits v' = hv_limits v \<and> ls_cells h l = xs @ ys \<and> ls_cells h' l' = xs @ ((a, i), x) # ys"
    using E(1,3,4,5) v'_def by blast
  show "\<exists>h'. emplace t al None v h = (Inl Ctor_throw, v, h') \<and> hive_rep v h' l \<and> ls_cells h' l = ls_cells h l"
  proof (cases "available_head c")
    case (Some a)
    from emplace_available_throw [OF C Some, of v] show ?thesis using c Some W by (auto simp: emplace_def hive_rep_owned)
  next
    case None
    then obtain b where b: "reserved_head c = Some b" using room by auto
    from emplace_reserved_throw [OF C b, of v] show ?thesis using c None b W by (auto simp: emplace_def hive_rep_owned)
  qed
qed

lemma emplace_room_frame:
  assumes H: "hive_rep v h l" and N: "hive_size v < hive_capacity v" and R: "emplace t al x v h = (r, v', h')" and y: "y \<notin> owned l"
  shows "h' y = h y"
proof -
  obtain c where c: "hv_control v = Some c" and C: "ctl_rep c h l" and room: "available_head c \<noteq> None \<or> reserved_head c \<noteq> None"
    using hive_has_room [OF H N] .
  then have L: "links_ok c h l" by (simp add: ctl_rep_def)
  have y': "y \<notin> set (ls_active l)" "y \<notin> set (ls_available l)" "y \<notin> set (ls_reserved l)" using y links_owned(1) [OF L] by (auto simp: owned_def)
  show ?thesis
  proof (cases "available_head c")
    case (Some a)
    have a: "a \<in> set (ls_available l)" using links_owned(3) [OF L] Some first_ptr_in_set by metis
    obtain q b where S: "emplace_slot x (h a) = (q, b)" by fastforce
    note F = emplace_slot_frame [OF S]
    have "a \<noteq> y" using a y' by auto
    have D: "avl.dll (h(a := b)) (available_head c) (ls_available l)"
      using L F by (subst avl.dll_cong [of _ _ h]) (auto simp: links_ok_def lists_rep_def links_def)
    have "h2 y = h y" if "available_remove a (c\<lparr>hc_size := hc_size c + 1\<rparr>) (h(a := b)) = (c2, h2)" for c2 h2
      using available_remove_frame [OF that _ _ y'(2)] D a \<open>a \<noteq> y\<close> by auto
    then show ?thesis using R c Some S \<open>a \<noteq> y\<close>
      by (auto simp: emplace_def emplace_available_def Let_def split: option.splits if_splits prod.splits)
  next
    case None
    then obtain a where a: "reserved_head c = Some a" using room by auto
    have "a \<in> set (ls_reserved l)" using links_owned(6) [OF L] a first_ptr_in_set by metis
    then have ya: "y \<noteq> a" using y' by auto
    have t: "active_tail c \<noteq> Some y" using links_owned(5) [OF L] y'(1) last_ptr_in_set by metis
    show ?thesis
    proof (cases x)
      case x: None
      then show ?thesis using R c None a ya by (auto simp: emplace_def emplace_reserved_def)
    next
      case x: (Some z)
      obtain c2 h2 where A: "activate z a (c\<lparr>reserved_head := hb_reserved_next (h a)\<rparr>) (h(a := (h a)\<lparr>hb_reserved_next := None\<rparr>)) = (c2, h2)" by fastforce
      have "h' = h2" using R c None a x A by (simp add: emplace_def emplace_reserved_def)
      then show ?thesis using activate_frame [OF A, of y] t None ya by simp
    qed
  qed
qed

section \<open>Moving the elements\<close>

text \<open>The destination has room for all elements, so only a move constructor can throw.\<close>

lemma append_move_loop_ok:
  fixes h :: "'v heap"
  assumes "hive_rep v h l" "ls_cells h l = xs @ ys" "hive_rep d h k" "owned l \<inter> owned k = {}" "hive_size d + length ys \<le> hive_capacity d"
  shows "\<exists>r d' h' k'. append_move_loop mv t als n (first_iter (hive_end v) ys) (hive_end v) v d h = Some (r, d', h') \<and>
    hive_rep v h' l \<and> hive_rep d' h' k' \<and> owned k' = owned k \<and> hive_capacity d' = hive_capacity d \<and> hv_limits d' = hv_limits d \<and>
    map fst (ls_cells h' l) = map fst (ls_cells h l) \<and>
    (case r of
       Inl e \<Rightarrow> e = Ctor_throw \<and> (\<exists>x \<in> set (map snd ys). fst (mv x) = None)
     | Inr _ \<Rightarrow> mset (map snd (ls_cells h' k')) = mset (map snd (ls_cells h k)) + mset (map (\<lambda>c. the (fst (mv (snd c)))) ys))"
  using assms
proof (induction ys arbitrary: d h k xs n)
  case Nil
  then show ?case
    by (intro exI [of _ "Inr ()"] exI [of _ d] exI [of _ h] exI [of _ k]) (simp add: append_move_loop.simps)
next
  case (Cons y ys)
  obtain a i x where y: "y = ((a, i), x)" by (metis surj_pair)
  note H = Cons.prems(1) and c = Cons.prems(2) [unfolded y]
  have ao: "a \<in> owned l" using cell_context [OF _ c] hive_rep_control(1) [OF H] by (fastforce simp: ctl_rep_def owned_def)
  have val: "value_of h (At a i) = x"
    using cell_value [of h l a i x] hive_rep_control(1) [OF H] c by (auto simp: ctl_rep_def value_of_def slot_of_def)
  have room: "hive_size d < hive_capacity d" using Cons.prems(5) by simp
  obtain r d1 h1 where E: "emplace t (als n) (fst (mv x)) d h = (r, d1, h1)" using prod_cases3 by blast
  define h2 where "h2 = set_slot_of (At a i) (Elem (snd (mv x))) h1"
  have f1: "\<forall>z \<in> owned l. h1 z = h z" using emplace_room_frame [OF Cons.prems(3) room E] Cons.prems(4) by blast
  have H1: "hive_rep v h1 l" "ls_cells h1 l = xs @ ((a, i), x) # ys" using hive_rep_frame [OF f1] H c by auto
  note H2 = hive_rep_set [OF H1, of "snd (mv x)", folded h2_def]
  have f2: "\<forall>z. z \<noteq> a \<longrightarrow> h2 z = h1 z" by (simp add: h2_def set_slot_of_def)
  have fk: "\<forall>z \<in> owned k. h2 z = h1 z" using f2 ao Cons.prems(4) by auto
  have step: "append_move_loop mv t als n (first_iter (hive_end v) (y # ys)) (hive_end v) v d h =
      (case r of Inl e \<Rightarrow> Some (Inl e, d1, h2) | Inr _ \<Rightarrow> append_move_loop mv t als (n + 1) (iter_next v h2 (At a i)) (hive_end v) v d1 h2)"
    if "constructed r" using that E val by (subst append_move_loop.simps) (cases r; simp add: y hive_end_def h2_def Let_def)
  show ?case
  proof (cases "fst (mv x)")
    case None
    from emplace_room(2) [OF Cons.prems(3) room, of t "als n"] have t: "r = Inl Ctor_throw" "d1 = d" "hive_rep d h1 k"
      using E None by auto
    have "hive_rep d h2 k" using hive_rep_frame(1) [OF fk] t(3) by simp
    then show ?thesis using step t H2 c None
      by (intro exI [of _ "Inl Ctor_throw"] exI [of _ d] exI [of _ h2] exI [of _ k]) (simp add: constructed_def y)
  next
    case (Some x')
    from emplace_room(1) [OF Cons.prems(3) room, of t "als n" x'] obtain b j k1 us ws where
      t: "r = Inr (At b j)" "hive_rep d1 h1 k1" "owned k1 = owned k" "hive_capacity d1 = hive_capacity d" "hv_limits d1 = hv_limits d"
        "ls_cells h k = us @ ws" "ls_cells h1 k1 = us @ ((b, j), x') # ws" using E Some by auto
    have K: "hive_rep d1 h2 k1" "ls_cells h2 k1 = ls_cells h1 k1" using hive_rep_frame [OF fk [folded t(3)]] t(2) by simp_all
    have "hive_size d1 = hive_size d + 1" using hive_size_cells [OF Cons.prems(3)] hive_size_cells [OF t(2)] t(6,7) by simp
    then have p: "hive_size d1 + length ys \<le> hive_capacity d1" using Cons.prems(5) t(4) by simp
    have nx: "iter_next v h2 (At a i) = first_iter (hive_end v) ys" by (rule iter_next_cell [OF hive_rep_control(1) [OF H2(1)] H2(2)])
    have c2: "ls_cells h2 l = (xs @ [((a, i), snd (mv x))]) @ ys" and o: "owned l \<inter> owned k1 = {}" using H2(2) Cons.prems(4) t(3) by simp_all
    from Cons.IH [OF H2(1) c2 K(1) o p, of "n + 1"] obtain r' d' h' k' where
      I: "append_move_loop mv t als (n + 1) (first_iter (hive_end v) ys) (hive_end v) v d1 h2 = Some (r', d', h')"
        "hive_rep v h' l" "hive_rep d' h' k'" "owned k' = owned k1" "hive_capacity d' = hive_capacity d1" "hv_limits d' = hv_limits d1"
        "map fst (ls_cells h' l) = map fst (ls_cells h2 l)"
        "case r' of Inl e \<Rightarrow> e = Ctor_throw \<and> (\<exists>x \<in> set (map snd ys). fst (mv x) = None)
         | Inr _ \<Rightarrow> mset (map snd (ls_cells h' k')) = mset (map snd (ls_cells h2 k1)) + mset (map (\<lambda>c. the (fst (mv (snd c)))) ys)"
      by (elim exE conjE)
    have e: "append_move_loop mv t als n (first_iter (hive_end v) (y # ys)) (hive_end v) v d h = Some (r', d', h')"
      using step t(1) I(1) nx by (simp add: constructed_def)
    have m: "map fst (ls_cells h' l) = map fst (ls_cells h l)" using I(7) H2(2) c by simp
    have f: "case r' of Inl e \<Rightarrow> e = Ctor_throw \<and> (\<exists>x \<in> set (map snd (y # ys)). fst (mv x) = None)
         | Inr _ \<Rightarrow> mset (map snd (ls_cells h' k')) = mset (map snd (ls_cells h k)) + mset (map (\<lambda>c. the (fst (mv (snd c)))) (y # ys))"
      using I(8) t(6,7) K(2) Some by (cases r') (auto simp: y)
    note W = e I(2,3) I(4) [unfolded t(3)] I(5) [unfolded t(4)] I(6) [unfolded t(5)] m f
    show ?thesis
      by (rule exI [of _ r'], rule exI [of _ d'], rule exI [of _ h'], rule exI [of _ k']) (intro conjI W)
  qed
qed

section \<open>Rebuilding\<close>

text \<open>
  What a rebuild leaves: an exception of a move constructor keeps the positions; other
  exceptions keep the elements; success keeps the moved values.  Every block is either
  owned by the hive or has been freed, once.
\<close>

definition rebuilt_ok ::
  "('v \<Rightarrow> 'v option \<times> 'v) \<Rightarrow> 'v heap \<Rightarrow> lists \<Rightarrow> addr set \<Rightarrow> limits \<Rightarrow> limits \<Rightarrow> (hexn + unit) \<times> hive \<times> 'v heap \<times> addr list \<Rightarrow> bool" where
  "rebuilt_ok mv h l A lim0 lim res =
     (case res of (r, v', h', freed) \<Rightarrow>
        (\<exists>l'. hive_rep v' h' l' \<and> distinct freed \<and> set freed \<inter> owned l' = {} \<and> owned l \<subseteq> owned l' \<union> set freed \<and> owned l' \<union> set freed \<subseteq> owned l \<union> A \<and>
           (case r of
              Inr _ \<Rightarrow> hv_limits v' = lim \<and> (ls_cells h' l' = ls_cells h l \<or>
                mset (map snd (ls_cells h' l')) = mset (map (\<lambda>c. the (fst (mv (snd c)))) (ls_cells h l)))
            | Inl e \<Rightarrow> hv_limits v' = lim0 \<and> map fst (ls_cells h' l') = map fst (ls_cells h l) \<and>
                (if e = Ctor_throw then \<exists>c \<in> set (ls_cells h l). fst (mv (snd c)) = None else ls_cells h' l' = ls_cells h l))))"

lemma rebuild_from_ok:
  fixes h :: "'v heap"
  assumes V: "hive_rep v h l" and D: "hive_rep d h1 k" "owned k \<subseteq> A" and A: "owned l \<inter> A = {}" and f: "\<forall>x. x \<notin> A \<longrightarrow> h1 x = h x"
    and r0: "case r0 of Inr _ \<Rightarrow> ls_cells h1 k = [] \<and> hive_size v \<le> hive_capacity d \<and> hv_limits d = lim | Inl e \<Rightarrow> e \<noteq> Ctor_throw"
  shows "\<exists>r v' h' fs. rebuild_from mv t als v (r0, d, h1) = Some (r, v', h', fs) \<and> rebuilt_ok mv h l A (hv_limits v) lim (r, v', h', fs) \<and>
    (case r of Inr _ \<Rightarrow> hive_capacity v' = hive_capacity d | Inl _ \<Rightarrow> v' = v)"
proof -
  have fl: "\<forall>x \<in> owned l. h1 x = h x" using A f by auto
  have V1: "hive_rep v h1 l" "ls_cells h1 l = ls_cells h l" using hive_rep_frame [OF fl] V by auto
  have dk: "owned l \<inter> owned k = {}" using A D(2) by auto
  have dis: "distinct (ls_active j @ ls_reserved j)" if "hive_rep w g j" for w j and g :: "'v heap"
    using hive_rep_control(1) [OF that] unfolding ctl_rep_def by (metis links_owned(2))
  have own: "set (ls_active j @ ls_reserved j) = owned j" for j by (simp add: owned_def)
  show ?thesis
  proof (cases r0)
    case (Inl e)
    have "rebuild_from mv t als v (r0, d, h1) = Some (Inl e, v, h1, ls_active k @ ls_reserved k)"
      using release_storage_ok [OF D(1)] by (simp add: rebuild_from_def Inl)
    moreover have "rebuilt_ok mv h l A (hv_limits v) lim (Inl e, v, h1, ls_active k @ ls_reserved k)"
      unfolding rebuilt_ok_def prod.case
      by (rule exI [of _ l]) (use V1 dis [OF D(1)] own [of k] dk D(2) r0 Inl in auto)
    ultimately show ?thesis by auto
  next
    case (Inr u)
    have k0: "ls_cells h1 k = []" "hive_size v \<le> hive_capacity d" "hv_limits d = lim" using r0 Inr by auto
    have sz: "hive_size d = 0" "hive_size v = length (ls_cells h1 l)" using hive_size_cells [OF D(1)] hive_size_cells [OF V1(1)] k0(1) by auto
    then have room: "hive_size d + length (ls_cells h1 l) \<le> hive_capacity d" using k0(2) by simp
    have c0: "ls_cells h1 l = [] @ ls_cells h1 l" by simp
    from append_move_loop_ok [OF V1(1) c0 D(1) dk room, of mv t als 0] obtain r d' h' k' where
      M: "append_move_to mv t als v d h1 = Some (r, d', h')" "hive_rep v h' l" "hive_rep d' h' k'" "owned k' = owned k"
        "hive_capacity d' = hive_capacity d" "hv_limits d' = hv_limits d" "map fst (ls_cells h' l) = map fst (ls_cells h1 l)"
        "case r of Inl e \<Rightarrow> e = Ctor_throw \<and> (\<exists>x \<in> set (map snd (ls_cells h1 l)). fst (mv x) = None)
         | Inr _ \<Rightarrow> mset (map snd (ls_cells h' k')) = mset (map snd (ls_cells h1 k)) + mset (map (\<lambda>c. the (fst (mv (snd c)))) (ls_cells h1 l))"
      unfolding append_move_to_def hive_begin_first [OF V1(1)] by (elim exE conjE)
    show ?thesis
    proof (cases r)
      case r: (Inl e)
      have "rebuild_from mv t als v (r0, d, h1) = Some (Inl e, v, h', ls_active k' @ ls_reserved k')"
        using release_storage_ok [OF M(3)] M(1) by (simp add: rebuild_from_def Inr r)
      moreover have "rebuilt_ok mv h l A (hv_limits v) lim (Inl e, v, h', ls_active k' @ ls_reserved k')"
        unfolding rebuilt_ok_def prod.case
        by (rule exI [of _ l]) (use M(2,4,7,8) r V1(2) dis [OF M(3)] own [of k'] dk D(2) in auto)
      ultimately show ?thesis by auto
    next
      case r: (Inr u')
      define v' where "v' = touch_end (v\<lparr>hv_control := hv_control d', hv_limits := hv_limits d'\<rparr>)"
      define w where "w = touch_end (d'\<lparr>hv_control := hv_control v, hv_limits := hv_limits v\<rparr>)"
      have s: "hive_swap v d' = (v', w)" by (simp add: hive_swap_def v'_def w_def)
      have S: "hive_rep v' h' k'" "hive_rep w h' l" "hv_limits v' = lim" using hive_swap_ok [OF s M(2,3)] M(6) k0(3) by auto
      have "rebuild_from mv t als v (r0, d, h1) = Some (Inr (), v', h', ls_active l @ ls_reserved l)"
        using release_storage_ok [OF S(2)] M(1) s by (simp add: rebuild_from_def Inr r)
      moreover have "rebuilt_ok mv h l A (hv_limits v) lim (Inr (), v', h', ls_active l @ ls_reserved l)"
        unfolding rebuilt_ok_def prod.case
        by (rule exI [of _ k']) (use S M(4,8) r V1(2) k0(1) dis [OF S(2)] own [of l] dk D(2) in auto)
      moreover have "hive_capacity v' = hive_capacity d" using M(5) by (simp add: v'_def hive_capacity_def)
      ultimately show ?thesis by auto
    qed
  qed
qed

section \<open>shrink-to-fit\<close>

lemma trim_all:
  assumes "hive_rep v h l"
  shows "\<exists>v'. trim_capacity v h = Some (v', ls_reserved l) \<and> hive_rep v' h (l\<lparr>ls_reserved := []\<rparr>) \<and> hv_limits v' = hv_limits v"
proof (cases "hv_control v")
  case None
  then have "l = no_lists" using assms by (simp add: hive_rep_owned)
  then show ?thesis using None assms by (intro exI [of _ v]) (simp add: trim_capacity_def no_lists_def)
next
  case (Some c)
  then have C: "ctl_rep c h l" and W: "\<forall>a \<in> owned l. within (hv_limits v) (hb_capacity (h a))" using assms by (simp_all add: hive_rep_owned)
  from trim_loop_ok [OF C, of 0 "[]"] obtain c' where "trim_loop 0 c h [] = Some (c', ls_reserved l)" "ctl_rep c' h (l\<lparr>ls_reserved := []\<rparr>)" by auto
  then show ?thesis using Some W
    by (intro exI [of _ "v\<lparr>hv_control := Some c'\<rparr>"]) (auto simp: trim_capacity_def hive_rep_owned owned_def)
qed

text \<open>A planned reservation in an empty hive.\<close>

lemma reserve_plan_ok:
  assumes V: "hive_rep v h no_lists" "hive_capacity v = 0" and P: "plan_capacity t w current requested = Some plan" "hv_limits w = hv_limits v"
    and D: "distinct (List.map_filter al_block als)" and R: "reserve_blocks als plan v h = (r, v', h')"
  shows "\<exists>l'. hive_rep v' h' l' \<and> ls_cells h' l' = [] \<and> hv_limits v' = hv_limits v \<and>
    (case r of Inr _ \<Rightarrow> hive_capacity v' = pl_added plan | Inl e \<Rightarrow> e = Bad_alloc) \<and>
    owned l' \<subseteq> set (List.map_filter al_block als) \<and> (\<forall>x. x \<notin> set (List.map_filter al_block als) \<longrightarrow> h' x = h x)"
proof -
  note b = plan_bounds [OF P(1), unfolded P(2)]
  have m: "pl_block_max plan \<le> slot_npos" "pl_block_max plan \<le> lim_max (hv_limits v)" by (auto simp: b(5) allocation_block_max_def P(2))
  have f: "\<forall>al \<in> set als. \<forall>a. al_block al = Some a \<longrightarrow> a \<notin> owned no_lists" by simp
  note R' = R [unfolded reserve_blocks_def]
  from reserve_loop_ok [OF V(1) f D b(2,3,6) m b(7) R'] show ?thesis using V(2) by (fastforce split: sum.splits)
qed

text \<open>Blocks freed before the rebuild.\<close>

lemma rebuilt_ok_prefix:
  assumes R: "rebuilt_ok mv h (l\<lparr>ls_reserved := []\<rparr>) A lim0 lim (r, v', h', fs)"
    and d: "distinct (ls_active l @ ls_reserved l)" "owned l \<inter> A = {}"
  shows "rebuilt_ok mv h l A lim0 lim (r, v', h', ls_reserved l @ fs)"
proof -
  let ?l = "l\<lparr>ls_reserved := []\<rparr>"
  from R obtain l' where l': "hive_rep v' h' l'" "distinct fs" "set fs \<inter> owned l' = {}" "owned ?l \<subseteq> owned l' \<union> set fs" "owned l' \<union> set fs \<subseteq> owned ?l \<union> A"
    "case r of
       Inr _ \<Rightarrow> hv_limits v' = lim \<and> (ls_cells h' l' = ls_cells h l \<or>
         mset (map snd (ls_cells h' l')) = mset (map (\<lambda>c. the (fst (mv (snd c)))) (ls_cells h l)))
     | Inl e \<Rightarrow> hv_limits v' = lim0 \<and> map fst (ls_cells h' l') = map fst (ls_cells h l) \<and>
         (if e = Ctor_throw then \<exists>c \<in> set (ls_cells h l). fst (mv (snd c)) = None else ls_cells h' l' = ls_cells h l)"
    unfolding rebuilt_ok_def prod.case ls_cells_reserved by (elim exE conjE)
  have own: "owned l = set (ls_reserved l) \<union> owned ?l" "set (ls_reserved l) \<inter> owned ?l = {}" using d(1) by (auto simp: owned_def)
  have "set (ls_reserved l) \<inter> (owned l' \<union> set fs) = {}" using own d(2) l'(5) by blast
  then have "distinct (ls_reserved l @ fs)" "set (ls_reserved l @ fs) \<inter> owned l' = {}" using l'(2,3) d(1) by auto
  moreover have "owned l \<subseteq> owned l' \<union> set (ls_reserved l @ fs)" "owned l' \<union> set (ls_reserved l @ fs) \<subseteq> owned l \<union> A"
    using own l'(4,5) by auto
  ultimately show ?thesis unfolding rebuilt_ok_def prod.case using l'(1,6) by (intro exI [of _ l'] conjI)
qed

lemma shrink_to_fit_cases:
  assumes T: "trim_capacity v h = Some (v1, fs)"
  obtains (stay) "shrink_to_fit mv t als ans v h = Some (Inr (), v1, h, fs)"
    | (refuse) "shrink_to_fit mv t als ans v h = Some (Inl Length_error, v1, h, fs)"
    | (rebuild) plan rebuilt where "plan_capacity t v1 0 (hive_size v1) = Some plan" "pl_added plan < hive_capacity v1"
        "hive_make t (hv_limits v1) = Inr rebuilt" "shrink_to_fit mv t als ans v h =
          map_option (\<lambda>(r, v', h', gs). (r, v', h', fs @ gs)) (rebuild_from mv t ans v1 (reserve_blocks als plan rebuilt h))"
proof (cases "hive_capacity v1 = hive_size v1 \<or> hive_size v1 = 0 \<or> plan_capacity t v1 0 (hive_size v1) = None")
  case True
  then show ?thesis using T stay by (auto simp: shrink_to_fit_def)
next
  case False
  then obtain plan where P: "plan_capacity t v1 0 (hive_size v1) = Some plan" by auto
  show ?thesis
  proof (cases "pl_added plan < hive_capacity v1")
    case L: True
    show ?thesis
    proof (cases "hive_make t (hv_limits v1)")
      case (Inl e)
      then have "e = Length_error" by (auto simp: hive_make_def split: if_splits)
      then show ?thesis using T False P L Inl refuse by (simp add: shrink_to_fit_def)
    next
      case (Inr d)
      then show ?thesis using T False P L rebuild by (simp add: shrink_to_fit_def)
    qed
  qed (use T False P stay in \<open>simp add: shrink_to_fit_def\<close>)
qed

lemma shrink_to_fit_ok:
  assumes V: "hive_rep v h l" and D: "distinct (List.map_filter al_block als)" and A: "owned l \<inter> set (List.map_filter al_block als) = {}"
  shows "\<exists>res. shrink_to_fit mv t als ans v h = Some res \<and> rebuilt_ok mv h l (set (List.map_filter al_block als)) (hv_limits v) (hv_limits v) res \<and>
    (case res of (r, v', _, _) \<Rightarrow> hive_capacity v' \<le> hive_capacity v)"
proof -
  let ?A = "set (List.map_filter al_block als)" and ?l = "l\<lparr>ls_reserved := []\<rparr>"
  from trim_all [OF V] obtain v1 where T: "trim_capacity v h = Some (v1, ls_reserved l)" "hive_rep v1 h ?l" "hv_limits v1 = hv_limits v" by blast
  have own: "owned l = set (ls_reserved l) \<union> owned ?l" by (auto simp: owned_def)
  have dis: "distinct (ls_active l @ ls_reserved l)" using hive_rep_control(1) [OF V] unfolding ctl_rep_def by (metis links_owned(2))
  have cap: "hive_capacity v1 \<le> hive_capacity v"
    using ctl_capacity [OF hive_rep_control(1) [OF V]] ctl_capacity [OF hive_rep_control(1) [OF T(2)]] hive_rep_control(2) [OF V] hive_rep_control(2) [OF T(2)]
    by (simp add: owned_def sum_mono2)
  have stay: "rebuilt_ok mv h l ?A (hv_limits v) (hv_limits v) (Inr (), v1, h, ls_reserved l)"
    "rebuilt_ok mv h l ?A (hv_limits v) (hv_limits v) (Inl Length_error, v1, h, ls_reserved l)"
    unfolding rebuilt_ok_def prod.case by (rule exI [of _ ?l], use T(2,3) dis in \<open>auto simp: owned_def\<close>)+
  from T(1) show ?thesis
  proof (cases rule: shrink_to_fit_cases [of v h v1 "ls_reserved l" mv t als ans])
    case stay
    then show ?thesis using \<open>rebuilt_ok mv h l ?A _ _ (Inr (), v1, h, ls_reserved l)\<close> cap by auto
  next
    case refuse
    then show ?thesis using \<open>rebuilt_ok mv h l ?A _ _ (Inl Length_error, v1, h, ls_reserved l)\<close> cap by auto
  next
    case (rebuild plan rebuilt)
    have B: "hive_rep rebuilt h no_lists" "hv_limits v1 = hv_limits rebuilt" "hive_capacity rebuilt = 0"
      using rebuild(3) by (auto simp: hive_make_def hive_rep_owned hive_capacity_def split: if_splits)
    obtain r0 d h1 where R: "reserve_blocks als plan rebuilt h = (r0, d, h1)" using prod_cases3 by blast
    from reserve_plan_ok [OF B(1,3) rebuild(1) B(2) D R] obtain k where K: "hive_rep d h1 k" "ls_cells h1 k = []" "hv_limits d = hv_limits v"
      "case r0 of Inr _ \<Rightarrow> hive_capacity d = pl_added plan | Inl e \<Rightarrow> e = Bad_alloc" "owned k \<subseteq> ?A" "\<forall>x. x \<notin> ?A \<longrightarrow> h1 x = h x"
      using B(2) T(3) by auto
    have r0: "case r0 of Inr _ \<Rightarrow> ls_cells h1 k = [] \<and> hive_size v1 \<le> hive_capacity d \<and> hv_limits d = hv_limits v | Inl e \<Rightarrow> e \<noteq> Ctor_throw"
      using K(2-4) plan_bounds(1) [OF rebuild(1)] by (cases r0) auto
    have A1: "owned ?l \<inter> ?A = {}" using A own by auto
    from rebuild_from_ok [OF T(2) K(1,5) A1 K(6) r0, of mv t ans] obtain r v' h' fs where
      F: "rebuild_from mv t ans v1 (r0, d, h1) = Some (r, v', h', fs)" "rebuilt_ok mv h ?l ?A (hv_limits v1) (hv_limits v) (r, v', h', fs)"
        "case r of Inr _ \<Rightarrow> hive_capacity v' = hive_capacity d | Inl _ \<Rightarrow> v' = v1" by blast
    have "rebuilt_ok mv h l ?A (hv_limits v) (hv_limits v) (r, v', h', ls_reserved l @ fs)"
      using rebuilt_ok_prefix [OF F(2) dis A] T(3) by simp
    moreover have "hive_capacity v' \<le> hive_capacity v"
    proof (cases r)
      case (Inl e)
      then show ?thesis using F(3) cap by simp
    next
      case (Inr u)
      have "r0 = Inr ()" using F(1) Inr by (cases r0) (auto simp: rebuild_from_def)
      then show ?thesis using F(3) K(4) Inr rebuild(2) cap by simp
    qed
    ultimately show ?thesis using F(1) R rebuild(4) by simp
  qed
qed

section \<open>Reshaping\<close>

lemma needs_rebuild_ok:
  "chain (\<lambda>a. hb_active_next (h a)) p as None \<Longrightarrow>
   needs_rebuild lim p h = Some (\<not> (\<forall>a \<in> set as. within lim (hb_capacity (h a))))"
proof (induction as arbitrary: p)
  case Nil
  then show ?case by (simp add: needs_rebuild.simps)
next
  case (Cons a as)
  then show ?case by (subst needs_rebuild.simps) (auto simp: Let_def)
qed

text \<open>Removal from the middle of the reserved list.\<close>

lemma unlink_reserved_ok:
  fixes h :: "'v heap"
  assumes C: "ctl_rep c h l" and rs: "ls_reserved l = ps @ a # qs"
    and c1: "c1 = (if last_ptr None ps = None then c\<lparr>reserved_head := hb_reserved_next (h a)\<rparr> else c)"
    and h1: "h1 = (if last_ptr None ps = None then h else h(the (last_ptr None ps) := (h (the (last_ptr None ps)))\<lparr>hb_reserved_next := hb_reserved_next (h a)\<rparr>))"
  shows "ctl_rep (c1\<lparr>hc_capacity := hc_capacity c1 - hb_capacity (h a)\<rparr>) h1 (l\<lparr>ls_reserved := ps @ qs\<rparr>)"
    "\<forall>x. content (h1 x) = content (h x)" "\<forall>x. x \<notin> set (ls_reserved l) \<longrightarrow> h1 x = h x" "chain (\<lambda>x. hb_reserved_next (h1 x)) (hb_reserved_next (h a)) qs None"
proof -
  let ?l = "l\<lparr>ls_reserved := ps @ qs\<rparr>"
  from C have L: "links_ok c h l" and K: "content_ok h l" and S: "hc_size c = length (ls_cells h l)"
    and N: "hc_capacity c = sum_list (map (\<lambda>a. hb_capacity (h a)) (ls_active l @ ls_reserved l))" by (auto elim: ctl_repE)
  have d: "distinct (ls_active l @ ps @ a # qs)" using links_owned(2) [OF L] rs by simp
  have R: "chain (\<lambda>x. hb_reserved_next (h x)) (reserved_head c) (ps @ a # qs) None" using L rs by (simp add: links_ok_def lists_rep_def)
  have core: "hb_active_prev (h1 x) = hb_active_prev (h x)" "hb_active_next (h1 x) = hb_active_next (h x)" "hb_available_prev (h1 x) = hb_available_prev (h x)"
    "hb_available_next (h1 x) = hb_available_next (h x)" "hb_active (h1 x) = hb_active (h x)" "hb_in_available (h1 x) = hb_in_available (h x)"
    "hb_order (h1 x) = hb_order (h x)" "content (h1 x) = content (h x)" for x by (simp_all add: h1 content_def)
  have out: "\<forall>x. x \<notin> set ps \<longrightarrow> h1 x = h x" using last_ptr_in_set by (fastforce simp: h1)
  have outq: "\<forall>x \<in> set qs. h1 x = h x" using out d by auto
  show "\<forall>x. content (h1 x) = content (h x)" by (simp add: core)
  show "\<forall>x. x \<notin> set (ls_reserved l) \<longrightarrow> h1 x = h x" using out rs by auto
  have q: "chain (\<lambda>x. hb_reserved_next (h x)) (hb_reserved_next (h a)) qs None" using R by (auto simp: chain_append)
  then show q1: "chain (\<lambda>x. hb_reserved_next (h1 x)) (hb_reserved_next (h a)) qs None"
    using outq by (subst chain_cong [of qs _ "\<lambda>x. hb_reserved_next (h x)"]) auto
  have "chain (\<lambda>x. hb_reserved_next (h1 x)) (reserved_head c1) (ps @ qs) None"
  proof (cases ps rule: rev_cases)
    case Nil
    then show ?thesis using q1 c1 by simp
  next
    case (snoc us u)
    then have "chain (\<lambda>x. hb_reserved_next (h x)) (reserved_head c) us (Some u)" using R by (auto simp: chain_append)
    then have "chain (\<lambda>x. hb_reserved_next (h1 x)) (reserved_head c) us (Some u)"
      using d snoc by (subst chain_cong [of us _ "\<lambda>x. hb_reserved_next (h x)"]) (auto simp: h1)
    then show ?thesis using q1 snoc c1 by (auto simp: chain_append h1)
  qed
  moreover have act: "act.dll h1 (active_head c) (ls_active l)" "avl.dll h1 (available_head c) (ls_available l)"
    using L act.dll_cong [of "ls_active l" h1 h] avl.dll_cong [of "ls_available l" h1 h] by (simp_all add: links_ok_def lists_rep_def core)
  moreover have "\<forall>x \<in> set (ls_active l). h1 x = h x" using out d by auto
  moreover have "active_head c1 = active_head c" "active_tail c1 = active_tail c" "available_head c1 = available_head c"
    "next_block_order c1 = next_block_order c" "hc_size c1 = hc_size c" "hc_capacity c1 = hc_capacity c" by (simp_all add: c1)
  moreover have "flags_ok c h l" using L by (simp add: links_ok_def)
  moreover have "set (ls_available l) \<subseteq> set (ls_active l)" by (rule links_owned(1) [OF L])
  ultimately have links: "links_ok (c1\<lparr>hc_capacity := hc_capacity c1 - hb_capacity (h a)\<rparr>) h1 ?l"
    using d L rs by (auto simp: links_ok_def lists_rep_def flags_ok_def core cong: map_cong)
  have "content_ok h ?l" using K rs by (auto simp: content_ok_def)
  then have "content_ok h1 ?l" using content_cong(1) [of ?l h1 h] core(8) by simp
  moreover have "hb_capacity (h1 x) = hb_capacity (h x)" for x using content_fields(4) [OF core(8)] .
  moreover have "ls_cells h1 ?l = ls_cells h l" using content_cong(3) [of ?l h1 h] core(8) by simp
  ultimately show "ctl_rep (c1\<lparr>hc_capacity := hc_capacity c1 - hb_capacity (h a)\<rparr>) h1 ?l"
    using links S N rs by (intro ctl_repI) (simp_all add: c1)
qed

lemma drop_reserved_ok:
  fixes h :: "'v heap"
  assumes "ctl_rep c h l" "ls_reserved l = ps @ qs" "chain (\<lambda>x. hb_reserved_next (h x)) p qs None"
  shows "\<exists>c' h'. drop_reserved lim (last_ptr None ps) p c h freed = Some (c', h', freed @ filter (\<lambda>a. \<not> within lim (hb_capacity (h a))) qs) \<and>
    ctl_rep c' h' (l\<lparr>ls_reserved := ps @ filter (\<lambda>a. within lim (hb_capacity (h a))) qs\<rparr>) \<and> (\<forall>x. content (h' x) = content (h x))"
  using assms
proof (induction qs arbitrary: ps p c h l freed)
  case Nil
  have e: "l\<lparr>ls_reserved := ps\<rparr> = l" using Nil(2) by (cases l) simp
  have "ctl_rep c h (l\<lparr>ls_reserved := ps @ filter (\<lambda>a. within lim (hb_capacity (h a))) []\<rparr>)" using Nil(1) by (simp add: e)
  moreover have "drop_reserved lim (last_ptr None ps) p c h freed = Some (c, h, freed @ filter (\<lambda>a. \<not> within lim (hb_capacity (h a))) [])"
    using Nil(3) by (simp add: drop_reserved.simps)
  ultimately show ?case by blast
next
  case (Cons a qs)
  have p: "p = Some a" "chain (\<lambda>x. hb_reserved_next (h x)) (hb_reserved_next (h a)) qs None" using Cons.prems(3) by auto
  show ?case
  proof (cases "within lim (hb_capacity (h a))")
    case True
    have "drop_reserved lim (last_ptr None ps) p c h freed = drop_reserved lim (last_ptr None (ps @ [a])) (hb_reserved_next (h a)) c h freed"
      using True by (subst drop_reserved.simps) (simp add: p Let_def)
    moreover have "ls_reserved l = (ps @ [a]) @ qs" using Cons.prems(2) by simp
    ultimately show ?thesis using Cons.IH [OF Cons.prems(1) _ p(2), of "ps @ [a]" freed] True by simp
  next
    case False
    define c1 where "c1 = (if last_ptr None ps = None then c\<lparr>reserved_head := hb_reserved_next (h a)\<rparr> else c)"
    define h1 where "h1 = (if last_ptr None ps = None then h else h(the (last_ptr None ps) := (h (the (last_ptr None ps)))\<lparr>hb_reserved_next := hb_reserved_next (h a)\<rparr>))"
    note U = unlink_reserved_ok [OF Cons.prems(1,2) c1_def h1_def]
    let ?c = "c1\<lparr>hc_capacity := hc_capacity c1 - hb_capacity (h a)\<rparr>"
    have step: "drop_reserved lim (last_ptr None ps) p c h freed = drop_reserved lim (last_ptr None ps) (hb_reserved_next (h a)) ?c h1 (freed @ [a])"
      using False by (subst drop_reserved.simps) (simp only: p option.sel Let_def c1_def h1_def option.distinct if_False if_True simp_thms)
    have cap: "hb_capacity (h1 x) = hb_capacity (h x)" for x using U(2) content_fields(4) by blast
    have "ls_reserved (l\<lparr>ls_reserved := ps @ qs\<rparr>) = ps @ qs" by simp
    from Cons.IH [OF U(1) this U(4), of "freed @ [a]"] step U(2) False show ?thesis by (auto simp: cap)
  qed
qed

lemma reshape_ok:
  assumes V: "hive_rep v h l" and D: "distinct (List.map_filter al_block als)" and A: "owned l \<inter> set (List.map_filter al_block als) = {}"
  shows "\<exists>res. reshape mv t als ans lim v h = Some res \<and> rebuilt_ok mv h l (set (List.map_filter al_block als)) (hv_limits v) lim res"
proof -
  let ?A = "set (List.map_filter al_block als)"
  have same: "rebuilt_ok mv h l ?A (hv_limits v) lim (Inl Length_error, v, h, [])" using V by (auto simp: rebuilt_ok_def)
  show ?thesis
  proof (cases "is_within_hard_limits t lim")
    case False
    then show ?thesis using same by (simp add: reshape_def)
  next
    case hard: True
    then obtain rebuilt where B: "hive_make t lim = Inr rebuilt" "hive_rep rebuilt h no_lists" "hv_limits rebuilt = lim" "hive_capacity rebuilt = 0"
      by (auto simp: hive_make_def hive_rep_owned hive_capacity_def)
    show ?thesis
    proof (cases "hv_control v")
      case None
      then have l: "l = no_lists" using V by (simp add: hive_rep_owned)
      have "rebuilt_ok mv h l ?A (hv_limits v) lim (Inr (), v\<lparr>hv_limits := lim\<rparr>, h, [])" unfolding rebuilt_ok_def prod.case
        by (rule exI [of _ no_lists]) (use None l in \<open>simp add: hive_rep_owned\<close>)
      then show ?thesis using hard None by (simp add: reshape_def)
    next
      case (Some c)
      then have C: "ctl_rep c h l" using V by (simp add: hive_rep_owned)
      then have L: "links_ok c h l" by (simp add: ctl_rep_def)
      have p: "chain (\<lambda>a. hb_active_next (h a)) (active_head c) (ls_active l) None" "chain (\<lambda>a. hb_reserved_next (h a)) (reserved_head c) (ls_reserved l) None"
        using L by (simp_all add: links_ok_def lists_rep_def act.dll_def)
      show ?thesis
      proof (cases "\<forall>a \<in> set (ls_active l). within lim (hb_capacity (h a))")
        case fits: True
        from drop_reserved_ok [OF C _ p(2), of "[]" lim "[]"] obtain c' h' where
          R: "drop_reserved lim None (reserved_head c) c h [] = Some (c', h', filter (\<lambda>a. \<not> within lim (hb_capacity (h a))) (ls_reserved l))"
            "ctl_rep c' h' (l\<lparr>ls_reserved := filter (\<lambda>a. within lim (hb_capacity (h a))) (ls_reserved l)\<rparr>)" "\<forall>x. content (h' x) = content (h x)" by auto
        have cap: "hb_capacity (h' x) = hb_capacity (h x)" for x using R(3) content_fields(4) by blast
        have cells: "ls_cells h' l = ls_cells h l" using content_cong(3) [of l h' h] R(3) by simp
        have "rebuilt_ok mv h l ?A (hv_limits v) lim (Inr (), v\<lparr>hv_control := Some c', hv_limits := lim\<rparr>, h', filter (\<lambda>a. \<not> within lim (hb_capacity (h a))) (ls_reserved l))"
          unfolding rebuilt_ok_def prod.case
          by (rule exI [of _ "l\<lparr>ls_reserved := filter (\<lambda>a. within lim (hb_capacity (h a))) (ls_reserved l)\<rparr>"])
            (use R(2) fits links_owned(2) [OF L] cells in \<open>auto simp: hive_rep_owned owned_def cap\<close>)
        then show ?thesis using hard Some R(1) needs_rebuild_ok [OF p(1), of lim] fits by (simp add: reshape_def)
      next
        case False
        have e: "reshape mv t als ans lim v h = rebuild_from mv t ans v (reserve t als (hive_size v) rebuilt h)"
          using hard Some needs_rebuild_ok [OF p(1), of lim] False B(1) by (auto simp: reshape_def)
        obtain r0 d h1 where R: "reserve t als (hive_size v) rebuilt h = (r0, d, h1)" using prod_cases3 by blast
        obtain k where K: "hive_rep d h1 k" "owned k \<subseteq> ?A" "\<forall>x. x \<notin> ?A \<longrightarrow> h1 x = h x"
          "case r0 of Inr _ \<Rightarrow> ls_cells h1 k = [] \<and> hive_size v \<le> hive_capacity d \<and> hv_limits d = lim | Inl e \<Rightarrow> e \<noteq> Ctor_throw"
        proof (cases "plan_capacity t rebuilt 0 (hive_size v)")
          case None
          then show ?thesis using that [of no_lists] R B by (auto simp: reserve_def split: if_splits)
        next
          case (Some plan)
          show ?thesis
          proof (cases "hive_size v = 0")
            case True
            then show ?thesis using that [of no_lists] R B by (auto simp: reserve_def)
          next
            case False
            then have "reserve_blocks als plan rebuilt h = (r0, d, h1)" using R Some B(4) by (simp add: reserve_def)
            from reserve_plan_ok [OF B(2,4) Some refl D this] plan_bounds(1) [OF Some] B(3) that show ?thesis
              by (cases r0) auto
          qed
        qed
        from rebuild_from_ok [OF V K(1,2) A K(3,4), of mv t ans] show ?thesis using e R by auto
      qed
    qed
  qed
qed

section \<open>Appending and assigning\<close>

lemma append_input_ok:
  assumes "hive_rep v h l" "distinct (List.map_filter (\<lambda>c. al_block (fst c)) xs)" "owned l \<inter> set (List.map_filter (\<lambda>c. al_block (fst c)) xs) = {}"
    "append_input t xs v h = (r, v', h')"
  shows "\<exists>l' n. hive_rep v' h' l' \<and> hv_limits v' = hv_limits v \<and> set (ls_cells h l) \<subseteq> set (ls_cells h' l') \<and>
    mset (map snd (ls_cells h' l')) = mset (map snd (ls_cells h l)) + mset (map (the \<circ> snd) (take n xs)) \<and> n \<le> length xs \<and>
    (case r of Inr _ \<Rightarrow> n = length xs
     | Inl e \<Rightarrow> n < length xs \<and> (if e = Ctor_throw then snd (xs ! n) = None else hive_size v' = hive_capacity v'))"
  using assms
proof (induction xs arbitrary: v h l)
  case Nil
  then show ?case by (intro exI [of _ l] exI [of _ 0]) auto
next
  case (Cons c xs)
  obtain al x where c: "c = (al, x)" by (cases c)
  obtain q w g where E: "emplace t al x v h = (q, w, g)" using prod_cases3 by blast
  have f: "\<forall>a. al_block al = Some a \<longrightarrow> a \<notin> owned l" using Cons.prems(3) by (auto simp: c List.map_filter_simps)
  note F = emplace_correct [OF Cons.prems(1) f, of x t, unfolded E emplace_effect_def prod.case]
  show ?case
  proof (cases q)
    case (Inl e)
    then have "r = Inl e" "v' = v" "h' = g" using Cons.prems(4) E F by (simp_all add: c)
    then show ?thesis using F Inl c by (intro exI [of _ l] exI [of _ 0]) auto
  next
    case (Inr p)
    then obtain a i y l1 us ws where e: "x = Some y" "hive_rep w g l1" "hv_limits w = hv_limits v"
      "owned l1 \<subseteq> owned l \<union> set_option (al_block al)" "ls_cells h l = us @ ws" "ls_cells g l1 = us @ ((a, i), y) # ws" using F by auto
    have R: "append_input t xs w g = (r, v', h')" using Cons.prems(4) E Inr by (simp add: c)
    have d: "distinct (List.map_filter (\<lambda>c. al_block (fst c)) xs)" "owned l1 \<inter> set (List.map_filter (\<lambda>c. al_block (fst c)) xs) = {}"
      using Cons.prems(2,3) e(4) by (auto simp: c List.map_filter_simps split: option.splits)
    from Cons.IH [OF e(2) d R] obtain l' n where I: "hive_rep v' h' l'" "hv_limits v' = hv_limits w" "set (ls_cells g l1) \<subseteq> set (ls_cells h' l')"
      "mset (map snd (ls_cells h' l')) = mset (map snd (ls_cells g l1)) + mset (map (the \<circ> snd) (take n xs))" "n \<le> length xs"
      "case r of Inr _ \<Rightarrow> n = length xs
       | Inl e \<Rightarrow> n < length xs \<and> (if e = Ctor_throw then snd (xs ! n) = None else hive_size v' = hive_capacity v')" by blast
    then show ?thesis using e c by (intro exI [of _ l'] exI [of _ "Suc n"]) (auto simp: o_def split: sum.splits)
  qed
qed

lemma assign_input_ok:
  assumes "hive_rep v h l" "distinct (List.map_filter (\<lambda>c. al_block (fst c)) xs)" "owned l \<inter> set (List.map_filter (\<lambda>c. al_block (fst c)) xs) = {}"
  shows "\<exists>r v' h' l' n. assign_input t xs v h = Some (r, v', h') \<and> hive_rep v' h' l' \<and> hv_limits v' = hv_limits v \<and> hive_end v' = hive_end v \<and>
    mset (map snd (ls_cells h' l')) = mset (map (the \<circ> snd) (take n xs)) \<and> n \<le> length xs \<and> (r = Inr () \<longrightarrow> n = length xs)"
proof -
  from clear_without_ok [OF assms(1)] obtain v1 h1 l1 where C: "clear_without_end_invalidation v h = Some (v1, h1, map fst (ls_cells h l))"
    "hive_rep v1 h1 l1" "ls_cells h1 l1 = []" "owned l1 = owned l" "hv_limits v1 = hv_limits v" by blast
  obtain r v2 h2 where R: "append_input t xs v1 h1 = (r, v2, h2)" using prod_cases3 by blast
  have d: "owned l1 \<inter> set (List.map_filter (\<lambda>c. al_block (fst c)) xs) = {}" using assms(3) C(4) by simp
  from append_input_ok [OF C(2) assms(2) d R] obtain l2 n where A: "hive_rep v2 h2 l2" "hv_limits v2 = hv_limits v1"
    "mset (map snd (ls_cells h2 l2)) = mset (map (the \<circ> snd) (take n xs))" "n \<le> length xs"
    "case r of Inr _ \<Rightarrow> n = length xs | Inl e \<Rightarrow> n < length xs" using C(3) by (fastforce split: sum.splits)
  define v' where "v' = v2\<lparr>hv_epoch := hv_epoch v\<rparr>"
  have "assign_input t xs v h = Some (r, v', h2)" using C(1) R by (simp add: assign_input_def v'_def)
  moreover have "hive_rep v' h2 l2" "hv_limits v' = hv_limits v" "hive_end v' = hive_end v"
    using A(1,2) C(5) by (simp_all add: v'_def hive_rep_owned hive_end_def)
  moreover have "r = Inr () \<longrightarrow> n = length xs" using A(5) by auto
  ultimately show ?thesis using A(3,4) by blast
qed

section \<open>Properties\<close>

text \<open>
  C18.  \<open>clear\<close> returns, destroys every element exactly once, in traversal order, and keeps all
  blocks as reserved capacity.  The destructor destroys every element and frees every block, each exactly
  once.  Assignment leaves exactly the constructed prefix of its input, the whole input when
  nothing throws, and keeps end iterators valid in either case.
\<close>

theorem hive_clear_destroys_all:
  assumes "hive_rep v h l"
  shows "(\<exists>v' h' l'. hive_clear v h = Some (v', h', map fst (ls_cells h l)) \<and> hive_rep v' h' l' \<and> ls_cells h' l' = [] \<and>
      hive_size v' = 0 \<and> hive_capacity v' = hive_capacity v \<and> owned l' = owned l) \<and>
    (\<exists>freed. release_storage v h = Some (v\<lparr>hv_control := None\<rparr>, map fst (ls_cells h l), freed) \<and>
      distinct (map fst (ls_cells h l)) \<and> distinct freed \<and> set freed = owned l) \<and>
    (distinct (List.map_filter (\<lambda>c. al_block (fst c)) xs) \<and> owned l \<inter> set (List.map_filter (\<lambda>c. al_block (fst c)) xs) = {} \<longrightarrow>
      (\<exists>r v' h' l' n. assign_input t xs v h = Some (r, v', h') \<and> hive_rep v' h' l' \<and> hv_limits v' = hv_limits v \<and> hive_end v' = hive_end v \<and>
        mset (map snd (ls_cells h' l')) = mset (map (the \<circ> snd) (take n xs)) \<and> n \<le> length xs \<and> (r = Inr () \<longrightarrow> n = length xs)))"
proof (intro conjI impI)
  from clear_without_ok [OF assms] obtain v' h' l' where "clear_without_end_invalidation v h = Some (v', h', map fst (ls_cells h l))"
    "hive_rep v' h' l'" "ls_cells h' l' = []" "hive_size v' = 0" "hive_capacity v' = hive_capacity v" "owned l' = owned l" by blast
  then show "\<exists>v' h' l'. hive_clear v h = Some (v', h', map fst (ls_cells h l)) \<and> hive_rep v' h' l' \<and> ls_cells h' l' = [] \<and>
      hive_size v' = 0 \<and> hive_capacity v' = hive_capacity v \<and> owned l' = owned l"
    by (intro exI [of _ "touch_end v'"] exI [of _ h'] exI [of _ l']) (simp add: hive_clear_def hive_size_def hive_capacity_def)
  have "distinct (ls_active l @ ls_reserved l)" using hive_rep_control(1) [OF assms] unfolding ctl_rep_def by (metis links_owned(2))
  moreover have "distinct (map fst (ls_cells h l))" using holds_distinct [OF holds_cells [OF assms]] .
  ultimately show "\<exists>freed. release_storage v h = Some (v\<lparr>hv_control := None\<rparr>, map fst (ls_cells h l), freed) \<and>
      distinct (map fst (ls_cells h l)) \<and> distinct freed \<and> set freed = owned l"
    using release_storage_ok [OF assms] by (auto simp: owned_def)
qed (use assign_input_ok [OF assms] in blast)

theorem hive_clear_destroys_all_witness:
  "\<exists>v h l. hive_rep v (h :: nat heap) l \<and> hive_positions v h = [At 1 0, At 1 1, At 2 0] \<and>
    (\<exists>v' h' l'. hive_clear v h = Some (v', h', map fst (ls_cells h l)) \<and> hive_rep v' h' l' \<and> ls_cells h' l' = [] \<and>
      hive_size v' = 0 \<and> hive_capacity v' = hive_capacity v \<and> owned l' = owned l) \<and>
    (\<exists>freed. release_storage v h = Some (v\<lparr>hv_control := None\<rparr>, map fst (ls_cells h l), freed) \<and>
      distinct (map fst (ls_cells h l)) \<and> distinct freed \<and> set freed = owned l) \<and>
    (\<exists>r v' h' l' n. assign_input demo_traits [(no_memory, Some 7)] v h = Some (r, v', h') \<and> hive_rep v' h' l' \<and> hv_limits v' = hv_limits v \<and>
        hive_end v' = hive_end v \<and> mset (map snd (ls_cells h' l')) = mset (map (the \<circ> snd) (take n [(no_memory, Some 7)])) \<and>
        n \<le> length [(no_memory, Some (7 :: nat))] \<and> (r = Inr () \<longrightarrow> n = length [(no_memory, Some (7 :: nat))]))"
proof (rule demo_state)
  fix v and h :: "nat heap" and A v' and h' :: "nat heap" and A' l
  assume I: "hive_inv (v, h, A) l" and p: "hive_positions v h = [At 1 0, At 1 1, At 2 0]"
  then have H: "hive_rep v h l" by (auto simp: hive_inv_def)
  let ?xs = "[(no_memory, Some (7 :: nat))]"
  have f: "distinct (List.map_filter (\<lambda>c. al_block (fst c)) ?xs) \<and> owned l \<inter> set (List.map_filter (\<lambda>c. al_block (fst c)) ?xs) = {}"
    by (simp add: List.map_filter_simps no_memory_def)
  note T = hive_clear_destroys_all [OF H, of ?xs demo_traits]
  note W = H p T [THEN conjunct1] T [THEN conjunct2, THEN conjunct1] T [THEN conjunct2, THEN conjunct2, rule_format, OF f]
  show ?thesis by (rule exI [of _ v], rule exI [of _ h], rule exI [of _ l]) (intro conjI W)
qed

text \<open>
  C34.  \<open>shrink_to_fit\<close> and \<open>reshape\<close> return.  On success the hive holds what it held, or what its
  move constructors made of it, within the new limits; \<open>shrink_to_fit\<close> does not increase the capacity.  An exception
  of a move constructor keeps every position, any other exception every element; and the limits
  stay.  In every case each block the hive had or has allocated is still its own or has been freed, and freed once.
\<close>

theorem hive_rebuild:
  assumes "hive_rep v h l" "A = set (List.map_filter al_block als)" "distinct (List.map_filter al_block als)" "owned l \<inter> A = {}"
  shows "(\<exists>r v' h' freed. shrink_to_fit mv t als ans v h = Some (r, v', h', freed) \<and>
      rebuilt_ok mv h l A (hv_limits v) (hv_limits v) (r, v', h', freed) \<and> hive_capacity v' \<le> hive_capacity v) \<and>
    (\<exists>r v' h' freed. reshape mv t als ans lim v h = Some (r, v', h', freed) \<and>
      rebuilt_ok mv h l A (hv_limits v) lim (r, v', h', freed))"
  using shrink_to_fit_ok [OF assms(1,3), of mv t ans] reshape_ok [OF assms(1,3), of mv t ans lim] assms(2,4) by force

theorem hive_rebuild_witness:
  "\<exists>v h l. hive_rep v (h :: nat heap) l \<and> hive_positions v h = [At 1 0, At 1 1, At 2 0] \<and>
    (\<exists>r v' h' freed. shrink_to_fit (\<lambda>x. (Some x, 0)) demo_traits [\<lparr>al_control = True, al_block = Some 3\<rparr>] (\<lambda>_. no_memory) v h = Some (r, v', h', freed) \<and>
      rebuilt_ok (\<lambda>x. (Some x, 0)) h l {3} (hv_limits v) (hv_limits v) (r, v', h', freed) \<and> hive_capacity v' \<le> hive_capacity v) \<and>
    (\<exists>r v' h' freed. reshape (\<lambda>x. (Some x, 0)) demo_traits [\<lparr>al_control = True, al_block = Some 3\<rparr>] (\<lambda>_. no_memory) \<lparr>lim_min = 3, lim_max = 8\<rparr> v h =
        Some (r, v', h', freed) \<and> rebuilt_ok (\<lambda>x. (Some x, 0)) h l {3} (hv_limits v) \<lparr>lim_min = 3, lim_max = 8\<rparr> (r, v', h', freed))"
proof (rule demo_state)
  fix v and h :: "nat heap" and A v' and h' :: "nat heap" and A' l
  assume I: "hive_inv (v, h, A) l" and p: "hive_positions v h = [At 1 0, At 1 1, At 2 0]" and f: "3 \<notin> A"
  then have H: "hive_rep v h l" and o: "owned l \<inter> {3} = {}" by (auto simp: hive_inv_def)
  let ?als = "[\<lparr>al_control = True, al_block = Some 3\<rparr>]"
  have a: "{3} = set (List.map_filter al_block ?als)" "distinct (List.map_filter al_block ?als)" by (simp_all add: List.map_filter_simps)
  note W = H p hive_rebuild [OF H a o, of "\<lambda>x. (Some x, 0)" demo_traits "\<lambda>_. no_memory" "\<lparr>lim_min = 3, lim_max = 8\<rparr>"]
  show ?thesis by (rule exI [of _ v], rule exI [of _ h], rule exI [of _ l]) (intro conjI W(1,2) W(3) [THEN conjunct1] W(3) [THEN conjunct2])
qed

end
