(* ===== verification/Unique_Resource.thy ===== *)
theory Unique_Resource
  imports Forge_Prelude "HOL-Library.Multiset"
begin

text \<open>
  \<open>std::unique_resource\<close> (\<open>backport/experimental/unique_resource.hpp\<close>): a handle with a deleter
  that runs once.  Copies and moves of the handle and of the deleter may throw, depending on
  their types; an operation of the model is told whether they do.  A moved-from handle or
  deleter is \<open>None\<close>.  The objects live in a store, so that an object can be assigned to itself,
  and every call of a deleter is recorded.
\<close>

section \<open>Objects\<close>

record ('r, 'd) ures =
  ur_resource :: "'r option"
  ur_deleter :: "'d option"
  ur_execute :: bool

text \<open>Which constructions and assignments of the handle and the deleter cannot throw.\<close>

record ur_traits =
  r_nothrow_construct :: bool
  r_nothrow_move_construct :: bool
  r_nothrow_move_assign :: bool
  r_nothrow_assign :: bool
  d_nothrow_construct :: bool
  d_nothrow_move_construct :: bool
  d_nothrow_move_assign :: bool

type_synonym ('r, 'd) calls = "('d option \<times> 'r option) list"

definition ur_default :: "'r \<Rightarrow> 'd \<Rightarrow> ('r, 'd) ures" where
  "ur_default r d = \<lparr>ur_resource = Some r, ur_deleter = Some d, ur_execute = False\<rparr>"

text \<open>
  Constructors return the new object, \<open>None\<close> when the exception is rethrown, with the deleter
  calls made on the way.
\<close>

definition construct_resource_from_input :: "ur_traits \<Rightarrow> bool \<Rightarrow> 'r \<Rightarrow> 'd \<Rightarrow> bool \<Rightarrow> 'r option \<times> ('r, 'd) calls" where
  "construct_resource_from_input t ok r d execute_on_reset =
     (if r_nothrow_construct t then (Some r, [])
      else if ok then (Some r, [])
      else (None, if execute_on_reset then [(Some d, Some r)] else []))"

definition construct_deleter_from_input :: "ur_traits \<Rightarrow> bool \<Rightarrow> 'd \<Rightarrow> 'r \<Rightarrow> bool \<Rightarrow> 'd option \<times> ('r, 'd) calls" where
  "construct_deleter_from_input t ok d resource execute_on_reset =
     (if d_nothrow_construct t then (Some d, [])
      else if ok then (Some d, [])
      else (None, if execute_on_reset then [(Some d, Some resource)] else []))"

definition ur_construct :: "ur_traits \<Rightarrow> bool \<Rightarrow> bool \<Rightarrow> 'r \<Rightarrow> 'd \<Rightarrow> bool \<Rightarrow> ('r, 'd) ures option \<times> ('r, 'd) calls" where
  "ur_construct t ok_r ok_d r d execute_on_reset =
     (case construct_resource_from_input t ok_r r d execute_on_reset of
        (None, log) \<Rightarrow> (None, log)
      | (Some resource, log) \<Rightarrow>
          (case construct_deleter_from_input t ok_d d resource execute_on_reset of
             (None, log') \<Rightarrow> (None, log @ log')
           | (Some deleter, log') \<Rightarrow>
               (Some \<lparr>ur_resource = Some resource, ur_deleter = Some deleter, ur_execute = execute_on_reset\<rparr>, log @ log')))"

definition make_unique_resource_checked :: "ur_traits \<Rightarrow> bool \<Rightarrow> bool \<Rightarrow> 'r \<Rightarrow> 'r \<Rightarrow> 'd \<Rightarrow> ('r, 'd) ures option \<times> ('r, 'd) calls" where
  "make_unique_resource_checked t ok_r ok_d r invalid d = ur_construct t ok_r ok_d r d (\<not> (r = invalid))"

text \<open>
  \<open>construct_resource_from_other\<close> gives the resource and what is left of the other object, or
  throws; \<open>construct_deleter_from_other\<close> likewise, and it calls the deleter when the resource
  has already been moved out.
\<close>

definition construct_resource_from_other :: "ur_traits \<Rightarrow> bool \<Rightarrow> ('r, 'd) ures \<Rightarrow> ('r option \<times> ('r, 'd) ures) option" where
  "construct_resource_from_other t ok other =
     (if r_nothrow_move_construct t then Some (ur_resource other, other\<lparr>ur_resource := None\<rparr>)
      else if ok then Some (ur_resource other, other) else None)"

definition construct_deleter_from_other ::
  "ur_traits \<Rightarrow> bool \<Rightarrow> ('r, 'd) ures \<Rightarrow> 'r option \<Rightarrow> 'd option option \<times> ('r, 'd) ures \<times> ('r, 'd) calls" where
  "construct_deleter_from_other t ok other resource =
     (if d_nothrow_move_construct t then (Some (ur_deleter other), other\<lparr>ur_deleter := None\<rparr>, [])
      else if ok then (Some (ur_deleter other), other, [])
      else if r_nothrow_move_construct t \<and> ur_execute other
           then (None, other\<lparr>ur_execute := False\<rparr>, [(ur_deleter other, resource)])
           else (None, other, []))"

definition ur_move_construct ::
  "ur_traits \<Rightarrow> bool \<Rightarrow> bool \<Rightarrow> ('r, 'd) ures \<Rightarrow> ('r, 'd) ures option \<times> ('r, 'd) ures \<times> ('r, 'd) calls" where
  "ur_move_construct t ok_r ok_d other =
     (case construct_resource_from_other t ok_r other of
        None \<Rightarrow> (None, other, [])
      | Some (resource, other1) \<Rightarrow>
          (case construct_deleter_from_other t ok_d other1 resource of
             (None, other2, log) \<Rightarrow> (None, other2, log)
           | (Some deleter, other2, log) \<Rightarrow>
               (Some \<lparr>ur_resource = resource, ur_deleter = deleter, ur_execute = ur_execute other2\<rparr>,
                other2\<lparr>ur_execute := False\<rparr>, log)))"

definition ur_reset :: "('r, 'd) ures \<Rightarrow> ('r, 'd) ures \<times> ('r, 'd) calls" where
  "ur_reset u = (if ur_execute u then (u\<lparr>ur_execute := False\<rparr>, [(ur_deleter u, ur_resource u)]) else (u, []))"

text \<open>The result is \<open>False\<close> when the exception is rethrown.\<close>

definition ur_reset_to :: "ur_traits \<Rightarrow> bool \<Rightarrow> 'r \<Rightarrow> ('r, 'd) ures \<Rightarrow> bool \<times> ('r, 'd) ures \<times> ('r, 'd) calls" where
  "ur_reset_to t ok r u =
     (let (u1, log) = ur_reset u
      in if r_nothrow_assign t \<or> ok then (True, u1\<lparr>ur_resource := Some r, ur_execute := True\<rparr>, log)
         else (False, u1, log @ [(ur_deleter u1, Some r)]))"

definition ur_release :: "('r, 'd) ures \<Rightarrow> ('r, 'd) ures" where
  "ur_release u = u\<lparr>ur_execute := False\<rparr>"

section \<open>Objects in a store\<close>

type_synonym ('r, 'd) ustore = "addr \<rightharpoonup> ('r, 'd) ures"

text \<open>
  Assignment of member \<open>resource_\<close> or \<open>deleter_\<close> of \<open>y\<close> to that of \<open>x\<close>, by move or by copy;
  \<open>x\<close> and \<open>y\<close> may be the same object.
\<close>

definition assign_resource :: "bool \<Rightarrow> addr \<Rightarrow> addr \<Rightarrow> ('r, 'd) ustore \<Rightarrow> ('r, 'd) ustore" where
  "assign_resource moved x y s =
     (let r = ur_resource (the (s y));
          s1 = s(x \<mapsto> (the (s x))\<lparr>ur_resource := r\<rparr>)
      in if moved then s1(y \<mapsto> (the (s1 y))\<lparr>ur_resource := None\<rparr>) else s1)"

definition assign_deleter :: "bool \<Rightarrow> addr \<Rightarrow> addr \<Rightarrow> ('r, 'd) ustore \<Rightarrow> ('r, 'd) ustore" where
  "assign_deleter moved x y s =
     (let d = ur_deleter (the (s y));
          s1 = s(x \<mapsto> (the (s x))\<lparr>ur_deleter := d\<rparr>)
      in if moved then s1(y \<mapsto> (the (s1 y))\<lparr>ur_deleter := None\<rparr>) else s1)"

definition exchange_execute :: "addr \<Rightarrow> addr \<Rightarrow> ('r, 'd) ustore \<Rightarrow> ('r, 'd) ustore" where
  "exchange_execute x y s =
     (let e = ur_execute (the (s y));
          s1 = s(y \<mapsto> (the (s y))\<lparr>ur_execute := False\<rparr>)
      in s1(x \<mapsto> (the (s1 x))\<lparr>ur_execute := e\<rparr>))"

definition ur_move_assign :: "ur_traits \<Rightarrow> bool \<Rightarrow> bool \<Rightarrow> addr \<Rightarrow> addr \<Rightarrow> ('r, 'd) ustore \<Rightarrow> bool \<times> ('r, 'd) ustore \<times> ('r, 'd) calls" where
  "ur_move_assign t ok_r ok_d x y s =
     (let (u, log) = ur_reset (the (s x));
          s0 = s(x \<mapsto> u)
      in if r_nothrow_move_assign t then
           (if d_nothrow_move_assign t
            then (True, exchange_execute x y (assign_deleter True x y (assign_resource True x y s0)), log)
            else if \<not> ok_d then (False, s0, log)
            else (True, exchange_execute x y (assign_resource True x y (assign_deleter False x y s0)), log))
         else
           (if \<not> ok_r then (False, s0, log)
            else if d_nothrow_move_assign t
            then (True, exchange_execute x y (assign_deleter True x y (assign_resource False x y s0)), log)
            else if \<not> ok_d then (False, assign_resource False x y s0, log)
            else (True, exchange_execute x y (assign_deleter False x y (assign_resource False x y s0)), log)))"

definition ur_swap :: "addr \<Rightarrow> addr \<Rightarrow> ('r, 'd) ustore \<Rightarrow> ('r, 'd) ustore" where
  "ur_swap x y s =
     (let a = the (s x); b = the (s y)
      in s(x \<mapsto> a\<lparr>ur_resource := ur_resource b, ur_deleter := ur_deleter b, ur_execute := ur_execute b\<rparr>,
           y \<mapsto> b\<lparr>ur_resource := ur_resource a, ur_deleter := ur_deleter a, ur_execute := ur_execute a\<rparr>))"

section \<open>Programs\<close>

text \<open>
  Next to the store and the deleter calls, the state records the resources that objects became
  responsible for and those they were told to give up.  A command names the objects and says
  which of the operations that may throw succeed.  Objects are created where there is none and
  used while they live, and \<open>reset\<close> with a new resource is not called on an object whose
  deleter has been moved from.
\<close>

record ('r, 'd) ustate =
  us_store :: "('r, 'd) ustore"
  us_calls :: "('r, 'd) calls"
  us_acquired :: "'r list"
  us_released :: "'r list"

datatype ('r, 'd) ucmd =
    UDefault addr 'r 'd
  | UConstruct addr 'r 'd bool bool
  | UChecked addr 'r 'r 'd bool bool
  | UMove addr addr bool bool
  | UAssign addr addr bool bool
  | UReset addr
  | UResetTo addr 'r bool
  | URelease addr
  | USwap addr addr
  | UDestroy addr

definition new_object :: "addr \<Rightarrow> ('r, 'd) ures option \<Rightarrow> ('r, 'd) ustore \<Rightarrow> ('r, 'd) ustore" where
  "new_object x u s = (case u of None \<Rightarrow> s | Some v \<Rightarrow> s(x \<mapsto> v))"

fun ur_step :: "ur_traits \<Rightarrow> ('r, 'd) ucmd \<Rightarrow> ('r, 'd) ustate \<Rightarrow> ('r, 'd) ustate option" where
  "ur_step t (UDefault x r d) s =
     (if us_store s x \<noteq> None then None else Some (s\<lparr>us_store := (us_store s)(x \<mapsto> ur_default r d)\<rparr>))"
| "ur_step t (UConstruct x r d ok_r ok_d) s =
     (if us_store s x \<noteq> None then None
      else case ur_construct t ok_r ok_d r d True of (u, log) \<Rightarrow>
        Some (s\<lparr>us_store := new_object x u (us_store s), us_calls := us_calls s @ log, us_acquired := us_acquired s @ [r]\<rparr>))"
| "ur_step t (UChecked x r invalid d ok_r ok_d) s =
     (if us_store s x \<noteq> None then None
      else case make_unique_resource_checked t ok_r ok_d r invalid d of (u, log) \<Rightarrow>
        Some (s\<lparr>us_store := new_object x u (us_store s), us_calls := us_calls s @ log,
                us_acquired := us_acquired s @ (if r = invalid then [] else [r])\<rparr>))"
| "ur_step t (UMove x y ok_r ok_d) s =
     (case us_store s y of None \<Rightarrow> None
      | Some other \<Rightarrow>
          if us_store s x \<noteq> None then None
          else case ur_move_construct t ok_r ok_d other of (u, other', log) \<Rightarrow>
            Some (s\<lparr>us_store := new_object x u ((us_store s)(y \<mapsto> other')), us_calls := us_calls s @ log\<rparr>))"
| "ur_step t (UAssign x y ok_r ok_d) s =
     (if us_store s x = None \<or> us_store s y = None then None
      else case ur_move_assign t ok_r ok_d x y (us_store s) of (_, s', log) \<Rightarrow>
        Some (s\<lparr>us_store := s', us_calls := us_calls s @ log\<rparr>))"
| "ur_step t (UReset x) s =
     (case us_store s x of None \<Rightarrow> None
      | Some u \<Rightarrow> (case ur_reset u of (u', log) \<Rightarrow>
          Some (s\<lparr>us_store := (us_store s)(x \<mapsto> u'), us_calls := us_calls s @ log\<rparr>)))"
| "ur_step t (UResetTo x r ok) s =
     (case us_store s x of None \<Rightarrow> None
      | Some u \<Rightarrow>
          if ur_deleter u = None then None
          else case ur_reset_to t ok r u of (_, u', log) \<Rightarrow>
            Some (s\<lparr>us_store := (us_store s)(x \<mapsto> u'), us_calls := us_calls s @ log, us_acquired := us_acquired s @ [r]\<rparr>))"
| "ur_step t (URelease x) s =
     (case us_store s x of None \<Rightarrow> None
      | Some u \<Rightarrow> Some (s\<lparr>us_store := (us_store s)(x \<mapsto> ur_release u),
          us_released := us_released s @ (if ur_execute u then [the (ur_resource u)] else [])\<rparr>))"
| "ur_step t (USwap x y) s =
     (if us_store s x = None \<or> us_store s y = None then None else Some (s\<lparr>us_store := ur_swap x y (us_store s)\<rparr>))"
| "ur_step t (UDestroy x) s =
     (case us_store s x of None \<Rightarrow> None
      | Some u \<Rightarrow> (case ur_reset u of (_, log) \<Rightarrow>
          Some (s\<lparr>us_store := (us_store s)(x := None), us_calls := us_calls s @ log\<rparr>)))"

fun ur_run :: "ur_traits \<Rightarrow> ('r, 'd) ucmd list \<Rightarrow> ('r, 'd) ustate \<Rightarrow> ('r, 'd) ustate option" where
  "ur_run t [] s = Some s"
| "ur_run t (c # cs) s = (case ur_step t c s of None \<Rightarrow> None | Some s' \<Rightarrow> ur_run t cs s')"

definition ur_empty :: "('r, 'd) ustate" where
  "ur_empty = \<lparr>us_store = Map.empty, us_calls = [], us_acquired = [], us_released = []\<rparr>"

section \<open>Ownership\<close>

definition share :: "('r, 'd) ures option \<Rightarrow> 'r multiset" where
  "share u = (case u of None \<Rightarrow> {#} | Some v \<Rightarrow> if ur_execute v then {#the (ur_resource v)#} else {#})"

definition owned_by :: "('r, 'd) ustore \<Rightarrow> 'r multiset" where
  "owned_by s = (\<Sum>x \<in> dom s. share (s x))"

text \<open>An object that is to run its deleter has both; deleters are never called otherwise.\<close>

definition armed_ok :: "('r, 'd) ures \<Rightarrow> bool" where
  "armed_ok u \<longleftrightarrow> (ur_execute u \<longrightarrow> ur_resource u \<noteq> None \<and> ur_deleter u \<noteq> None)"

definition deleted :: "('r, 'd) calls \<Rightarrow> 'r multiset" where
  "deleted log = mset (map (the \<circ> snd) log)"

definition calls_ok :: "('r, 'd) calls \<Rightarrow> bool" where
  "calls_ok log \<longleftrightarrow> (\<forall>c \<in> set log. fst c \<noteq> None \<and> snd c \<noteq> None)"

definition ur_inv :: "('r, 'd) ustate \<Rightarrow> bool" where
  "ur_inv s \<longleftrightarrow> finite (dom (us_store s)) \<and> (\<forall>u \<in> ran (us_store s). armed_ok u) \<and> calls_ok (us_calls s) \<and>
     mset (us_acquired s) = owned_by (us_store s) + deleted (us_calls s) + mset (us_released s)"

lemma share_simps [simp]: "share None = {#}" "share (Some u) = (if ur_execute u then {#the (ur_resource u)#} else {#})"
  by (simp_all add: share_def)

lemma owned_by_remove: "finite (dom s) \<Longrightarrow> owned_by s = share (s x) + owned_by (s(x := None))"
proof (cases "s x")
  case None
  then have "s(x := None) = s" by auto
  then show ?thesis using None by simp
next
  case (Some u)
  assume f: "finite (dom s)"
  have "(\<Sum>y \<in> dom s - {x}. share ((s(x := None)) y)) = (\<Sum>y \<in> dom s - {x}. share (s y))" by (rule sum.cong) auto
  then show ?thesis using Some sum.remove [OF f, of x "\<lambda>y. share (s y)"] by (simp add: owned_by_def domI)
qed

lemma owned_by_upd [simp]: "finite (dom s) \<Longrightarrow> owned_by (s(x \<mapsto> u)) = share (Some u) + owned_by (s(x := None))"
  using owned_by_remove [of "s(x \<mapsto> u)" x] by simp

lemma deleted_simps [simp]: "deleted [] = {#}" "deleted (log @ log') = deleted log + deleted log'" "deleted ((d, Some r) # log) = add_mset r (deleted log)"
  by (simp_all add: deleted_def)

lemma calls_ok_simps [simp]: "calls_ok []" "calls_ok (log @ log') \<longleftrightarrow> calls_ok log \<and> calls_ok log'" "calls_ok ((d, r) # log) \<longleftrightarrow> d \<noteq> None \<and> r \<noteq> None \<and> calls_ok log"
  by (auto simp: calls_ok_def)

text \<open>Replacing one object, or two different ones, with balanced books.\<close>

lemma ran_upd2: "ran (s(x := w, y := z)) \<subseteq> ran s \<union> set_option w \<union> set_option z"
  by (auto simp: ran_def split: if_splits)

lemma ur_inv_upd:
  assumes I: "ur_inv s" and b: "share (us_store s x) + mset a = share w + deleted log + mset r"
    and ok: "\<forall>u. w = Some u \<longrightarrow> armed_ok u" "calls_ok log"
  shows "ur_inv (s\<lparr>us_store := (us_store s)(x := w), us_calls := us_calls s @ log, us_acquired := us_acquired s @ a,
    us_released := us_released s @ r\<rparr>)"
proof -
  let ?t = "us_store s"
  have f: "finite (dom ?t)" using I by (simp add: ur_inv_def)
  have "owned_by (?t(x := w)) = share w + owned_by (?t(x := None))"
    using owned_by_remove [of "?t(x := w)" x] f by (cases w) simp_all
  moreover have "owned_by ?t = share (?t x) + owned_by (?t(x := None))" by (rule owned_by_remove [OF f])
  moreover have "\<forall>u \<in> ran (?t(x := w)). armed_ok u"
    using I ok(1) ran_upd2 [of ?t x w x w] by (fastforce simp: ur_inv_def)
  moreover have "finite (dom (?t(x := w)))" using f by (cases w) auto
  moreover have "mset (us_acquired s) + mset a = share (?t x) + mset a + owned_by (?t(x := None)) + deleted (us_calls s) + mset (us_released s)"
    using I calculation(2) by (simp add: ur_inv_def)
  ultimately show ?thesis using I b ok(2) by (simp add: ur_inv_def)
qed

lemma ur_inv_upd2:
  assumes I: "ur_inv s" and xy: "x \<noteq> y" and b: "share (us_store s x) + share (us_store s y) = share w + share z + deleted log"
    and ok: "\<forall>u. w = Some u \<longrightarrow> armed_ok u" "\<forall>u. z = Some u \<longrightarrow> armed_ok u" "calls_ok log"
  shows "ur_inv (s\<lparr>us_store := (us_store s)(x := w, y := z), us_calls := us_calls s @ log\<rparr>)"
proof -
  let ?t = "us_store s"
  have f: "finite (dom ?t)" using I by (simp add: ur_inv_def)
  have f1: "finite (dom (?t(x := w, y := z)))" "finite (dom (?t(x := None)))" using f by (cases w; cases z; auto)+
  have "owned_by (?t(x := w, y := z)) = share w + (share z + owned_by (?t(x := None, y := None)))"
  proof -
    have "?t(x := w, y := z, x := None) = ?t(x := None, y := z)" using xy by auto
    then have "owned_by (?t(x := w, y := z)) = share w + owned_by (?t(x := None, y := z))"
      using owned_by_remove [OF f1(1), of x] xy by simp
    moreover have "finite (dom (?t(x := None, y := z)))" using f1(2) by (cases z) auto
    ultimately show ?thesis using owned_by_remove [of "?t(x := None, y := z)" y] by simp
  qed
  moreover have "owned_by ?t = share (?t x) + (share (?t y) + owned_by (?t(x := None, y := None)))"
    using owned_by_remove [OF f, of x] owned_by_remove [OF f1(2), of y] xy by simp
  moreover have "\<forall>u \<in> ran (?t(x := w, y := z)). armed_ok u"
    using I ok(1,2) ran_upd2 [of ?t x w y z] by (fastforce simp: ur_inv_def)
  moreover have "share (?t x) + (share (?t y) + owned_by (?t(x := None, y := None))) = (share w + share z + deleted log) + owned_by (?t(x := None, y := None))"
    using b by (simp add: ac_simps)
  ultimately show ?thesis using I ok(3) f1(1) by (simp add: ur_inv_def ac_simps)
qed

lemma ur_inv_armed: "ur_inv s \<Longrightarrow> us_store s x = Some u \<Longrightarrow> armed_ok u"
  by (auto simp: ur_inv_def ran_def)

lemma construct_balance:
  "ur_construct t ok_r ok_d r d e = (u, log) \<Longrightarrow>
   (if e then {#r#} else {#}) = share u + deleted log \<and> calls_ok log \<and> (\<forall>v. u = Some v \<longrightarrow> armed_ok v)"
  by (auto simp: ur_construct_def construct_resource_from_input_def construct_deleter_from_input_def armed_ok_def
    split: if_splits option.splits)

lemma move_construct_balance:
  "ur_move_construct t ok_r ok_d v = (u, v', log) \<Longrightarrow> armed_ok v \<Longrightarrow>
   share (Some v) = share u + share (Some v') + deleted log \<and> calls_ok log \<and> (\<forall>w. u = Some w \<longrightarrow> armed_ok w) \<and> armed_ok v'"
  by (auto simp: ur_move_construct_def construct_resource_from_other_def construct_deleter_from_other_def armed_ok_def
    split: if_splits option.splits)

lemma reset_balance:
  "ur_reset u = (u', log) \<Longrightarrow> armed_ok u \<Longrightarrow>
   share (Some u) = deleted log \<and> calls_ok log \<and> \<not> ur_execute u' \<and> ur_deleter u' = ur_deleter u \<and> ur_resource u' = ur_resource u"
  by (auto simp: ur_reset_def armed_ok_def split: if_splits)

lemma reset_to_balance:
  "ur_reset_to t ok r u = (b, u', log) \<Longrightarrow> armed_ok u \<Longrightarrow> ur_deleter u \<noteq> None \<Longrightarrow>
   add_mset r (share (Some u)) = share (Some u') + deleted log \<and> calls_ok log \<and> armed_ok u'"
  by (auto simp: ur_reset_to_def ur_reset_def armed_ok_def Let_def split: if_splits)

text \<open>Move assignment, between different objects and of an object to itself.\<close>

lemma move_assign_different:
  assumes "ur_move_assign t ok_r ok_d x y s = (b, s', log)" "x \<noteq> y" "s x = Some u" "s y = Some v" "armed_ok u" "armed_ok v"
  shows "\<exists>u' v'. s' = s(x \<mapsto> u', y \<mapsto> v') \<and> share (Some u) + share (Some v) = share (Some u') + share (Some v') + deleted log \<and>
    calls_ok log \<and> armed_ok u' \<and> armed_ok v'"
proof -
  obtain u0 where r: "ur_reset u = (u0, log)" using assms(1,3) by (auto simp: ur_move_assign_def Let_def split: prod.splits if_splits)
  note R = reset_balance [OF r assms(5)]
  have w: "s(x \<mapsto> a) = s(x \<mapsto> a, y \<mapsto> v)" for a using assms(2,4) by auto
  show ?thesis
  proof (cases b)
    case False
    then have "s' = s(x \<mapsto> u0) \<or> s' = s(x \<mapsto> u0\<lparr>ur_resource := ur_resource v\<rparr>)"
      using assms r by (auto simp: ur_move_assign_def assign_resource_def Let_def split: if_splits)
    then show ?thesis
    proof
      assume "s' = s(x \<mapsto> u0)"
      then show ?thesis using R assms(6) w [of u0]
        by (intro exI [of _ u0] exI [of _ v]) (simp add: armed_ok_def)
    next
      assume "s' = s(x \<mapsto> u0\<lparr>ur_resource := ur_resource v\<rparr>)"
      then show ?thesis using R assms(6) w [of "u0\<lparr>ur_resource := ur_resource v\<rparr>"]
        by (intro exI [of _ "u0\<lparr>ur_resource := ur_resource v\<rparr>"] exI [of _ v]) (simp add: armed_ok_def)
    qed
  next
    case True
    note D = ur_move_assign_def assign_resource_def assign_deleter_def exchange_execute_def Let_def
    have "\<exists>u'. s' x = Some u' \<and> ur_resource u' = ur_resource v \<and> ur_deleter u' = ur_deleter v \<and> ur_execute u' = ur_execute v"
      using True assms(1-4) r by (auto simp: D split: if_splits)
    moreover have "\<exists>v'. s' y = Some v' \<and> \<not> ur_execute v'" using True assms(1-4) r by (auto simp: D split: if_splits)
    ultimately obtain u' v' where f: "s' x = Some u'" "s' y = Some v'" "\<not> ur_execute v'" "ur_resource u' = ur_resource v"
      "ur_deleter u' = ur_deleter v" "ur_execute u' = ur_execute v" by blast
    have "\<forall>z. z \<noteq> x \<and> z \<noteq> y \<longrightarrow> s' z = s z" using True assms(1-4) r by (auto simp: D split: if_splits)
    then have "s' = s(x \<mapsto> u', y \<mapsto> v')" using f(1,2) assms(2) by (auto simp: fun_eq_iff)
    note f = this f(3-6)
    show ?thesis using f R assms(6) by (intro exI [of _ u'] exI [of _ v']) (auto simp: armed_ok_def)
  qed
qed

lemma move_assign_self:
  assumes "ur_move_assign t ok_r ok_d x x s = (b, s', log)" "s x = Some u" "armed_ok u"
  shows "\<exists>u'. s' = s(x \<mapsto> u') \<and> share (Some u) = share (Some u') + deleted log \<and> calls_ok log \<and> armed_ok u'"
proof -
  obtain u0 where r: "ur_reset u = (u0, log)" using assms(1,2) by (auto simp: ur_move_assign_def Let_def split: prod.splits if_splits)
  note R = reset_balance [OF r assms(3)]
  have "\<exists>u'. s' = s(x \<mapsto> u') \<and> \<not> ur_execute u'"
    using assms(1,2) r R
    by (auto simp: ur_move_assign_def assign_resource_def assign_deleter_def exchange_execute_def Let_def split: if_splits)
  then obtain u' where "s' = s(x \<mapsto> u')" "\<not> ur_execute u'" by blast
  then show ?thesis using R by (intro exI [of _ u']) (auto simp: armed_ok_def)
qed

lemma ur_assign_inv:
  assumes "ur_inv s" "us_store s x = Some u" "us_store s y = Some v" "ur_move_assign t ok_r ok_d x y (us_store s) = (b, s', log)"
  shows "ur_inv (s\<lparr>us_store := s', us_calls := us_calls s @ log\<rparr>)"
proof (cases "x = y")
  case True
  from move_assign_self [OF assms(4) [folded True] assms(2) ur_inv_armed [OF assms(1,2)]] obtain u' where
    "s' = (us_store s)(x \<mapsto> u')" "share (Some u) = share (Some u') + deleted log" "calls_ok log" "armed_ok u'" by blast
  then show ?thesis using ur_inv_upd [OF assms(1), of x "[]" "Some u'" log "[]"] assms(2) by simp
next
  case False
  from move_assign_different [OF assms(4) False assms(2,3) ur_inv_armed [OF assms(1,2)] ur_inv_armed [OF assms(1,3)]] obtain u' v' where
    "s' = (us_store s)(x \<mapsto> u', y \<mapsto> v')" "share (Some u) + share (Some v) = share (Some u') + share (Some v') + deleted log"
    "calls_ok log" "armed_ok u'" "armed_ok v'" by blast
  then show ?thesis using ur_inv_upd2 [OF assms(1) False, of "Some u'" "Some v'" log] assms(2,3) by simp
qed

lemma ur_swap_inv:
  assumes "ur_inv s" "us_store s x = Some u" "us_store s y = Some v"
  shows "ur_inv (s\<lparr>us_store := ur_swap x y (us_store s)\<rparr>)"
proof (cases "x = y")
  case True
  then have "ur_swap x y (us_store s) = us_store s" using assms by (auto simp: ur_swap_def Let_def)
  then show ?thesis using assms(1) by simp
next
  case False
  have "ur_swap x y (us_store s) = (us_store s)(x \<mapsto> v, y \<mapsto> u)" using assms by (cases u; cases v) (simp add: ur_swap_def Let_def)
  then show ?thesis using ur_inv_upd2 [OF assms(1) False, of "Some v" "Some u" "[]"] assms ur_inv_armed [OF assms(1)] by simp
qed

lemma ur_new_inv:
  assumes "ur_inv s" "us_store s x = None" "mset a = share u + deleted log" "calls_ok log" "\<forall>v. u = Some v \<longrightarrow> armed_ok v"
  shows "ur_inv (s\<lparr>us_store := new_object x u (us_store s), us_calls := us_calls s @ log, us_acquired := us_acquired s @ a\<rparr>)"
proof -
  have "new_object x u (us_store s) = (us_store s)(x := u)" using assms(2) by (cases u) (auto simp: new_object_def)
  then show ?thesis using ur_inv_upd [OF assms(1), of x a u log "[]"] assms by simp
qed

lemma ur_move_inv:
  assumes "ur_inv s" "us_store s x = None" "us_store s y = Some v" "ur_move_construct t ok_r ok_d v = (u, v', log)"
  shows "ur_inv (s\<lparr>us_store := new_object x u ((us_store s)(y \<mapsto> v')), us_calls := us_calls s @ log\<rparr>)"
proof -
  note M = move_construct_balance [OF assms(4) ur_inv_armed [OF assms(1,3)]]
  have xy: "x \<noteq> y" using assms(2,3) by auto
  have "new_object x u ((us_store s)(y \<mapsto> v')) = (us_store s)(x := u, y \<mapsto> v')" using assms(2) xy by (cases u) (auto simp: new_object_def)
  then show ?thesis using ur_inv_upd2 [OF assms(1) xy, of u "Some v'" log] M assms(2,3) by simp
qed

lemma ur_step_inv:
  assumes "ur_inv s" "ur_step t c s = Some s'"
  shows "ur_inv s'"
proof (cases c)
  case (UDefault x r d)
  then show ?thesis using assms ur_new_inv [of s x "[]" "Some (ur_default r d)" "[]"]
    by (auto simp: new_object_def ur_default_def armed_ok_def split: if_splits)
next
  case (UConstruct x r d ok_r ok_d)
  obtain u log where e: "ur_construct t ok_r ok_d r d True = (u, log)" by fastforce
  show ?thesis using assms UConstruct e construct_balance [OF e] ur_new_inv [of s x "[r]" u log] by (auto split: if_splits)
next
  case (UChecked x r i d ok_r ok_d)
  obtain u log where e: "ur_construct t ok_r ok_d r d (r \<noteq> i) = (u, log)" by fastforce
  show ?thesis using assms UChecked e construct_balance [OF e] ur_new_inv [of s x "if r = i then [] else [r]" u log]
    by (auto simp: make_unique_resource_checked_def split: if_splits)
next
  case (UMove x y ok_r ok_d)
  then obtain v where v: "us_store s y = Some v" "us_store s x = None" using assms(2) by (auto split: option.splits if_splits)
  obtain u v' log where e: "ur_move_construct t ok_r ok_d v = (u, v', log)" using prod_cases3 by blast
  show ?thesis using assms UMove v e ur_move_inv [OF assms(1) v(2,1) e] by auto
next
  case (UAssign x y ok_r ok_d)
  then obtain u v where v: "us_store s x = Some u" "us_store s y = Some v" using assms(2) by (auto split: if_splits)
  obtain b s1 log where e: "ur_move_assign t ok_r ok_d x y (us_store s) = (b, s1, log)" using prod_cases3 by blast
  show ?thesis using assms UAssign v e ur_assign_inv [OF assms(1) v e] by auto
next
  case (UReset x)
  then obtain u where u: "us_store s x = Some u" using assms(2) by (auto split: option.splits)
  obtain u' log where e: "ur_reset u = (u', log)" by fastforce
  note R = reset_balance [OF e ur_inv_armed [OF assms(1) u]]
  then show ?thesis using assms UReset u e ur_inv_upd [OF assms(1), of x "[]" "Some u'" log "[]"] by (auto simp: armed_ok_def)
next
  case (UResetTo x r ok)
  then obtain u where u: "us_store s x = Some u" "ur_deleter u \<noteq> None" using assms(2) by (auto split: option.splits if_splits)
  obtain b u' log where e: "ur_reset_to t ok r u = (b, u', log)" using prod_cases3 by blast
  note R = reset_to_balance [OF e ur_inv_armed [OF assms(1) u(1)] u(2)]
  then show ?thesis using assms UResetTo u e ur_inv_upd [OF assms(1), of x "[r]" "Some u'" log "[]"] by auto
next
  case (URelease x)
  then obtain u where u: "us_store s x = Some u" using assms(2) by (auto split: option.splits)
  then show ?thesis using assms URelease ur_inv_armed [OF assms(1) u]
      ur_inv_upd [OF assms(1), of x "[]" "Some (ur_release u)" "[]" "if ur_execute u then [the (ur_resource u)] else []"]
    by (auto simp: ur_release_def armed_ok_def)
next
  case (USwap x y)
  then show ?thesis using assms ur_swap_inv [OF assms(1)] by (auto split: if_splits)
next
  case (UDestroy x)
  then obtain u where u: "us_store s x = Some u" using assms(2) by (auto split: option.splits)
  obtain u' log where e: "ur_reset u = (u', log)" by fastforce
  note R = reset_balance [OF e ur_inv_armed [OF assms(1) u]]
  then show ?thesis using assms UDestroy u e ur_inv_upd [OF assms(1), of x "[]" None log "[]"] by auto
qed

lemma ur_run_inv: "ur_run t cs s = Some s' \<Longrightarrow> ur_inv s \<Longrightarrow> ur_inv s'"
  by (induction cs arbitrary: s) (auto split: option.splits dest: ur_step_inv)

lemma ur_inv_empty: "ur_inv ur_empty"
  by (simp add: ur_inv_def ur_empty_def owned_by_def)

text \<open>
  C20.  No leak and no double free.  In any program over unique resources, with any of the
  copies and moves throwing, every resource an object became responsible for is held by one
  object that will delete it, has been passed to a deleter once, or was released on request;
  no deleter that was moved from is called, nor one with a handle that was moved from.  When
  all objects are destroyed, each resource has been deleted or released exactly once.
\<close>

theorem unique_resource_exactly_once:
  assumes "ur_run t cs ur_empty = Some s"
  shows "mset (us_acquired s) = owned_by (us_store s) + deleted (us_calls s) + mset (us_released s) \<and> calls_ok (us_calls s) \<and>
    (us_store s = Map.empty \<longrightarrow> mset (us_acquired s) = deleted (us_calls s) + mset (us_released s))"
  using ur_run_inv [OF assms ur_inv_empty] by (auto simp: ur_inv_def owned_by_def)

definition demo_throwing :: ur_traits where
  "demo_throwing = \<lparr>r_nothrow_construct = False, r_nothrow_move_construct = True, r_nothrow_move_assign = True, r_nothrow_assign = False,
     d_nothrow_construct = False, d_nothrow_move_construct = False, d_nothrow_move_assign = False\<rparr>"

text \<open>A move whose deleter cannot be copied, an assignment, a reset that throws, a release.\<close>

definition demo_ucmds :: "(nat, nat) ucmd list" where
  "demo_ucmds = [UConstruct 1 10 7 True True, UConstruct 2 20 8 True True, UMove 3 1 True False, UConstruct 4 40 7 True True,
     UAssign 2 4 True True, UResetTo 4 50 False, URelease 2, UDestroy 1, UDestroy 2, UDestroy 4]"

theorem unique_resource_exactly_once_witness:
  "\<exists>s. ur_run demo_throwing demo_ucmds ur_empty = Some s \<and>
    us_calls s = [(Some 7, Some 10), (Some 8, Some 20), (Some 7, Some 50)] \<and> us_released s = [40] \<and>
    (mset (us_acquired s) = owned_by (us_store s) + deleted (us_calls s) + mset (us_released s) \<and> calls_ok (us_calls s) \<and>
    (us_store s = Map.empty \<longrightarrow> mset (us_acquired s) = deleted (us_calls s) + mset (us_released s)))"
proof -
  have "map_option (\<lambda>s. (us_calls s, us_released s)) (ur_run demo_throwing demo_ucmds ur_empty) =
    Some ([(Some 7, Some 10), (Some 8, Some 20), (Some 7, Some 50)], [40])" by code_simp
  then obtain s where "ur_run demo_throwing demo_ucmds ur_empty = Some s"
    "us_calls s = [(Some 7, Some 10), (Some 8, Some 20), (Some 7, Some 50)]" "us_released s = [40]" by auto
  then show ?thesis using unique_resource_exactly_once by blast
qed

end
