(* ===== verification/Counting_Scope.thy ===== *)
theory Counting_Scope
  imports Forge_Prelude
begin

text \<open>
  The counting scopes of \<open>backport/cpp26/execution/counting_scope.hpp\<close>: association of work with
  a scope, \<open>close\<close>, and \<open>join\<close>, which completes when the associated work has drained.

  \<open>simple_counting_scope\<close> and \<open>counting_scope\<close> have the same code for all of this; the second
  adds a stop source.  Every access to the count, the state and the list of joiners happens
  under the scope's mutex, so a step of the system is one critical section.  The joiners taken
  out by the last \<open>__decrement\<close> are completed after the mutex is released, one per step.
\<close>

section \<open>States of a scope\<close>

datatype scope_state = Unused | Unused_and_closed | Open | Open_and_joining | Closed | Closed_and_joining | Joined

fun scope_after_close :: "scope_state \<Rightarrow> scope_state" where
  "scope_after_close Unused = Unused_and_closed"
| "scope_after_close Open = Closed"
| "scope_after_close Open_and_joining = Closed_and_joining"
| "scope_after_close st = st"

definition scope_after_association :: "scope_state \<Rightarrow> scope_state" where
  "scope_after_association st = (if st = Unused then Open else st)"

text \<open>\<open>None\<close> is \<open>std::terminate\<close>.\<close>

fun scope_after_join_start :: "scope_state \<Rightarrow> scope_state option" where
  "scope_after_join_start Open = Some Open_and_joining"
| "scope_after_join_start Open_and_joining = Some Open_and_joining"
| "scope_after_join_start Closed = Some Closed_and_joining"
| "scope_after_join_start Closed_and_joining = Some Closed_and_joining"
| "scope_after_join_start _ = None"

definition scope_is_joining :: "scope_state \<Rightarrow> bool" where
  "scope_is_joining st \<longleftrightarrow> st = Open_and_joining \<or> st = Closed_and_joining"

definition scope_rejects_association :: "scope_state \<Rightarrow> bool" where
  "scope_rejects_association st \<longleftrightarrow> st \<noteq> Unused \<and> st \<noteq> Open \<and> st \<noteq> Open_and_joining"

definition scope_try_associate :: "scope_state \<Rightarrow> nat \<Rightarrow> nat \<Rightarrow> scope_state \<times> nat \<times> bool" where
  "scope_try_associate st count0 lim =
     (if count0 \<ge> lim \<or> scope_rejects_association st then (st, count0, False)
      else (scope_after_association st, count0 + 1, True))"

section \<open>Operations of a scope\<close>

text \<open>Join operations are nodes of a singly linked list.\<close>

record jnode =
  jn_next :: ptr
  jn_registered :: bool

record cscope =
  cs_count :: nat
  cs_state :: scope_state
  cs_joiners :: ptr

definition cscope_new :: cscope where
  "cscope_new = \<lparr>cs_count = 0, cs_state = Unused, cs_joiners = None\<rparr>"

definition max_associations :: nat where
  "max_associations = size_max"

definition cs_close :: "cscope \<Rightarrow> cscope" where
  "cs_close c = c\<lparr>cs_state := scope_after_close (cs_state c)\<rparr>"

definition cs_is_closed :: "cscope \<Rightarrow> bool" where
  "cs_is_closed c \<longleftrightarrow> scope_rejects_association (cs_state c)"

text \<open>\<open>__try_associate\<close>: whether the returned association is engaged.\<close>

definition cs_try_associate :: "cscope \<Rightarrow> bool \<times> cscope" where
  "cs_try_associate c =
     (case scope_try_associate (cs_state c) (cs_count c) max_associations of
        (st, n, engaged) \<Rightarrow>
          if \<not> engaged then (False, c) else (True, c\<lparr>cs_state := st, cs_count := (cs_count c + 1) mod (size_max + 1)\<rparr>))"

text \<open>\<open>__start_join\<close>: \<open>True\<close> when the join completes at once; \<open>None\<close> is \<open>std::terminate\<close>.\<close>

definition cs_start_join :: "addr \<Rightarrow> cscope \<Rightarrow> (addr \<Rightarrow> jnode) \<Rightarrow> (bool \<times> cscope \<times> (addr \<Rightarrow> jnode)) option" where
  "cs_start_join j c ns =
     (if cs_count c = 0 then Some (True, c\<lparr>cs_state := Joined\<rparr>, ns)
      else case scope_after_join_start (cs_state c) of
        None \<Rightarrow> None
      | Some st \<Rightarrow> Some (False, c\<lparr>cs_state := st, cs_joiners := Some j\<rparr>,
                          ns(j := \<lparr>jn_next = cs_joiners c, jn_registered = True\<rparr>)))"

text \<open>The critical section of \<open>__decrement\<close>: the joiners that are ready.\<close>

definition cs_decrement :: "cscope \<Rightarrow> ptr \<times> cscope" where
  "cs_decrement c =
     (let n = cs_count c;
          c1 = c\<lparr>cs_count := (n + size_max) mod (size_max + 1)\<rparr>
      in if n = 1 \<and> scope_is_joining (cs_state c1)
         then (cs_joiners c1, c1\<lparr>cs_state := Joined, cs_joiners := None\<rparr>)
         else (None, c1))"

text \<open>One iteration of \<open>__complete_joiners\<close>: the joiner it completes and the rest.\<close>

definition complete_joiner :: "addr \<Rightarrow> (addr \<Rightarrow> jnode) \<Rightarrow> ptr \<times> (addr \<Rightarrow> jnode)" where
  "complete_joiner current ns = (jn_next (ns current), ns(current := \<lparr>jn_next = None, jn_registered = False\<rparr>))"

section \<open>Association handles\<close>

text \<open>
  A handle is engaged or empty.  \<open>hs\<close> are the handles that exist; the operations return whether
  a handle let go of the scope, which calls \<open>__decrement\<close>.
\<close>

type_synonym handles = "addr \<rightharpoonup> bool"

definition assoc_release :: "addr \<Rightarrow> handles \<Rightarrow> bool \<times> handles" where
  "assoc_release x hs = (if hs x = Some True then (True, hs(x \<mapsto> False)) else (False, hs))"

definition assoc_move :: "addr \<Rightarrow> addr \<Rightarrow> handles \<Rightarrow> handles" where
  "assoc_move x y hs = (let e = hs y in (hs(y \<mapsto> False))(x := e))"

definition assoc_assign :: "addr \<Rightarrow> addr \<Rightarrow> handles \<Rightarrow> bool \<times> handles" where
  "assoc_assign x y hs =
     (if x \<noteq> y then
        (let (b, hs1) = assoc_release x hs; e = hs1 y in (b, hs1(y \<mapsto> False, x := e)))
      else (False, hs))"

definition assoc_destroy :: "addr \<Rightarrow> handles \<Rightarrow> bool \<times> handles" where
  "assoc_destroy x hs = (let (b, hs1) = assoc_release x hs in (b, hs1(x := None)))"

section \<open>The system\<close>

text \<open>
  \<open>ys_draining\<close> holds, for every thread inside \<open>__complete_joiners\<close>, its local variable \<open>head\<close>.
  A join that has completed may be destroyed at once: \<open>ys_completed\<close> records them in order.
\<close>

record scope_sys =
  ys_scope :: cscope
  ys_nodes :: "addr \<Rightarrow> jnode"
  ys_handles :: handles
  ys_draining :: "addr list"
  ys_started :: "addr list"
  ys_completed :: "addr list"

definition scope_sys_init :: scope_sys where
  "scope_sys_init = \<lparr>ys_scope = cscope_new, ys_nodes = (\<lambda>_. \<lparr>jn_next = None, jn_registered = False\<rparr>),
     ys_handles = Map.empty, ys_draining = [], ys_started = [], ys_completed = []\<rparr>"

definition after_release :: "bool \<Rightarrow> handles \<Rightarrow> scope_sys \<Rightarrow> scope_sys" where
  "after_release b hs y =
     (if b then case cs_decrement (ys_scope y) of (ready, c) \<Rightarrow>
        y\<lparr>ys_scope := c, ys_handles := hs, ys_draining := ys_draining y @ (case ready of None \<Rightarrow> [] | Some j \<Rightarrow> [j])\<rparr>
      else y\<lparr>ys_handles := hs\<rparr>)"

inductive scope_step :: "scope_sys \<Rightarrow> scope_sys \<Rightarrow> bool" where
  associate: "ys_handles y x = None \<Longrightarrow> cs_try_associate (ys_scope y) = (b, c) \<Longrightarrow>
     scope_step y (y\<lparr>ys_scope := c, ys_handles := (ys_handles y)(x \<mapsto> b)\<rparr>)"
| associate_empty: "ys_handles y z = Some False \<Longrightarrow> ys_handles y x = None \<Longrightarrow>
     scope_step y (y\<lparr>ys_handles := (ys_handles y)(x \<mapsto> False)\<rparr>)"
| move: "ys_handles y z \<noteq> None \<Longrightarrow> ys_handles y x = None \<Longrightarrow> scope_step y (y\<lparr>ys_handles := assoc_move x z (ys_handles y)\<rparr>)"
| assign: "ys_handles y z \<noteq> None \<Longrightarrow> ys_handles y x \<noteq> None \<Longrightarrow> assoc_assign x z (ys_handles y) = (b, hs) \<Longrightarrow>
     scope_step y (after_release b hs y)"
| destroy: "ys_handles y x \<noteq> None \<Longrightarrow> assoc_destroy x (ys_handles y) = (b, hs) \<Longrightarrow> scope_step y (after_release b hs y)"
| close: "scope_step y (y\<lparr>ys_scope := cs_close (ys_scope y)\<rparr>)"
| join: "j \<notin> set (ys_started y) \<Longrightarrow> cs_start_join j (ys_scope y) (ys_nodes y) = Some (b, c, ns) \<Longrightarrow>
     scope_step y (y\<lparr>ys_scope := c, ys_nodes := ns, ys_started := j # ys_started y,
       ys_completed := (if b then ys_completed y @ [j] else ys_completed y)\<rparr>)"
| drain: "ys_draining y = as @ j # bs \<Longrightarrow> complete_joiner j (ys_nodes y) = (nx, ns) \<Longrightarrow>
     scope_step y (y\<lparr>ys_nodes := ns, ys_draining := as @ (case nx of None \<Rightarrow> [] | Some k \<Rightarrow> [k]) @ bs,
       ys_completed := ys_completed y @ [j]\<rparr>)"

inductive scope_reachable :: "scope_sys \<Rightarrow> bool" where
  init: "scope_reachable scope_sys_init"
| step: "scope_reachable y \<Longrightarrow> scope_step y z \<Longrightarrow> scope_reachable z"

section \<open>Invariant\<close>

definition engaged :: "handles \<Rightarrow> addr set" where
  "engaged hs = {x. hs x = Some True}"

text \<open>
  \<open>js\<close> are the registered joiners in the scope's list, \<open>ds\<close> the rest of the list that is being
  completed; only one thread ever takes joiners out.
\<close>

definition scope_rep :: "scope_sys \<Rightarrow> addr list \<Rightarrow> addr list \<Rightarrow> bool" where
  "scope_rep y js ds \<longleftrightarrow>
     finite (dom (ys_handles y)) \<and> cs_count (ys_scope y) = card (engaged (ys_handles y)) \<and>
     cs_count (ys_scope y) \<le> max_associations \<and>
     (cs_count (ys_scope y) \<noteq> 0 \<longrightarrow> cs_state (ys_scope y) \<notin> {Unused, Unused_and_closed, Joined}) \<and>
     (scope_is_joining (cs_state (ys_scope y)) \<longrightarrow> cs_count (ys_scope y) \<noteq> 0) \<and>
     (js \<noteq> [] \<longleftrightarrow> scope_is_joining (cs_state (ys_scope y))) \<and>
     (ds \<noteq> [] \<or> ys_completed y \<noteq> [] \<longrightarrow> cs_state (ys_scope y) = Joined) \<and>
     chain (\<lambda>a. jn_next (ys_nodes y a)) (cs_joiners (ys_scope y)) js None \<and>
     chain (\<lambda>a. jn_next (ys_nodes y a)) (first_ptr ds None) ds None \<and>
     ys_draining y = (case ds of [] \<Rightarrow> [] | d # _ \<Rightarrow> [d]) \<and>
     distinct (js @ ds @ ys_completed y) \<and> set (js @ ds @ ys_completed y) = set (ys_started y)"

lemma scope_rep_init: "scope_rep scope_sys_init [] []"
  by (simp add: scope_rep_def scope_sys_init_def cscope_new_def engaged_def scope_is_joining_def)

lemma finite_engaged: "finite (dom hs) \<Longrightarrow> finite (engaged hs)"
  by (rule finite_subset) (auto simp: engaged_def)

text \<open>How the handle operations change the engaged handles.\<close>

lemma engaged_upd [simp]:
  "engaged (hs(x \<mapsto> True)) = insert x (engaged hs)" "engaged (hs(x \<mapsto> False)) = engaged hs - {x}" "engaged (hs(x := None)) = engaged hs - {x}"
  by (auto simp: engaged_def)

lemma assoc_release_card:
  assumes "assoc_release x hs = (b, hs')" "finite (dom hs)" "hs x \<noteq> None"
  shows "engaged hs' = engaged hs - {x}" "b \<longleftrightarrow> x \<in> engaged hs" "dom hs' = dom hs"
  using assms by (auto simp: assoc_release_def engaged_def split: if_splits)

lemma assoc_move_card:
  assumes "hs z \<noteq> None" "hs x = None" "finite (dom hs)"
  shows "card (engaged (assoc_move x z hs)) = card (engaged hs)" "finite (dom (assoc_move x z hs))"
proof -
  have xz: "x \<noteq> z" "x \<notin> engaged hs" using assms by (auto simp: engaged_def)
  show "card (engaged (assoc_move x z hs)) = card (engaged hs)"
  proof (cases "hs z = Some True")
    case True
    then have "assoc_move x z hs = hs(z \<mapsto> False, x \<mapsto> True)" by (simp add: assoc_move_def Let_def)
    moreover have "z \<in> engaged hs" using True by (simp add: engaged_def)
    ultimately show ?thesis using xz finite_engaged [OF assms(3)] card_Suc_Diff1 [of "engaged hs" z] by simp
  next
    case False
    then have "hs z = Some False" "z \<notin> engaged hs" using assms(1) by (auto simp: engaged_def)
    then have "engaged (assoc_move x z hs) = engaged hs" using xz by (auto simp: assoc_move_def Let_def)
    then show ?thesis by simp
  qed
  show "finite (dom (assoc_move x z hs))" using assms by (cases "hs z") (auto simp: assoc_move_def Let_def)
qed

lemma assoc_assign_card:
  assumes "assoc_assign x z hs = (b, hs')" "hs z \<noteq> None" "hs x \<noteq> None" "finite (dom hs)"
  shows "card (engaged hs') + (if b then 1 else 0) = card (engaged hs)" "finite (dom hs')"
proof -
  have "card (engaged hs') + (if b then 1 else 0) = card (engaged hs) \<and> finite (dom hs')"
  proof (cases "x = z")
    case True
    then show ?thesis using assms by (simp add: assoc_assign_def)
  next
    case False
    obtain b1 hs1 where r: "assoc_release x hs = (b1, hs1)" by fastforce
    note R = assoc_release_card [OF r assms(4,3)]
    have e: "b = b1" "hs' = hs1(z \<mapsto> False, x := hs1 z)" using assms(1) False r by (auto simp: assoc_assign_def Let_def)
    have z: "hs1 z = hs z" using r False by (auto simp: assoc_release_def split: if_splits)
    have f: "finite (engaged hs)" using assms(4) by (rule finite_engaged)
    have "engaged hs' = (if hs z = Some True then insert x (engaged hs1 - {z}) else engaged hs1 - {z} - {x})"
      unfolding e z using False assms(2) by (auto simp: engaged_def)
    moreover have "z \<in> engaged hs \<longleftrightarrow> hs z = Some True" by (simp add: engaged_def)
    moreover have "z \<notin> engaged hs \<longrightarrow> engaged hs - {x, z} = engaged hs - {x}" by auto
    ultimately have "card (engaged hs') = card (engaged hs - {x})"
      using R(1) f False card_Suc_Diff1 [of "engaged hs - {x}" z] by (auto simp: Diff_insert [symmetric] insert_commute)
    moreover have "card (engaged hs - {x}) + (if b then 1 else 0) = card (engaged hs)"
      using R(2) f e(1) card_Suc_Diff1 [of "engaged hs" x] by auto
    moreover have "finite (dom hs')" using R(3) assms(2,4) z unfolding e(2) by (cases "hs z") auto
    ultimately show ?thesis by simp
  qed
  then show "card (engaged hs') + (if b then 1 else 0) = card (engaged hs)" "finite (dom hs')" by simp_all
qed

lemma assoc_destroy_card:
  assumes "assoc_destroy x hs = (b, hs')" "hs x \<noteq> None" "finite (dom hs)"
  shows "card (engaged hs') + (if b then 1 else 0) = card (engaged hs)" "finite (dom hs')"
proof -
  obtain b1 hs1 where r: "assoc_release x hs = (b1, hs1)" by fastforce
  note R = assoc_release_card [OF r assms(3,2)]
  have e: "b = b1" "hs' = hs1(x := None)" using assms(1) r by (auto simp: assoc_destroy_def)
  show "card (engaged hs') + (if b then 1 else 0) = card (engaged hs)"
    using R(1,2) e finite_engaged [OF assms(3)] card_Suc_Diff1 [of "engaged hs" x] by auto
  show "finite (dom hs')" using R(3) assms(3) e(2) by simp
qed

lemma handles_rep:
  assumes "scope_rep y js ds" "card (engaged hs) = card (engaged (ys_handles y))" "finite (dom hs)"
  shows "scope_rep (y\<lparr>ys_handles := hs\<rparr>) js ds"
  using assms by (auto simp: scope_rep_def)

lemma release_rep:
  assumes R: "scope_rep y js ds" and h: "card (engaged hs) + (if b then 1 else 0) = card (engaged (ys_handles y))" "finite (dom hs)"
  shows "\<exists>js' ds'. scope_rep (after_release b hs y) js' ds'"
proof (cases b)
  case False
  then have "scope_rep (after_release b hs y) js ds" using handles_rep [OF R _ h(2)] h(1) by (simp add: after_release_def)
  then show ?thesis by blast
next
  case True
  define c where "c = ys_scope y"
  have n: "cs_count c = card (engaged hs) + 1" "cs_count c \<le> size_max"
    using R h True by (auto simp: scope_rep_def c_def max_associations_def)
  have "cs_count c + size_max = card (engaged hs) + (size_max + 1)" using n(1) by simp
  then have "(cs_count c + size_max) mod (size_max + 1) = card (engaged hs) mod (size_max + 1)" by (simp only: mod_add_self2)
  then have d: "(cs_count c + size_max) mod (size_max + 1) = card (engaged hs)" using n by simp
  show ?thesis
  proof (cases "cs_count c = 1 \<and> scope_is_joining (cs_state c)")
    case J: True
    then have ds: "ds = []" "js \<noteq> []" "ys_completed y = []"
      using R by (auto simp: scope_rep_def c_def scope_is_joining_def)
    have e: "after_release b hs y = y\<lparr>ys_scope := c\<lparr>cs_count := 0, cs_state := Joined, cs_joiners := None\<rparr>, ys_handles := hs,
        ys_draining := [hd js]\<rparr>"
    proof -
      have "cs_joiners c = Some (hd js)" "ys_draining y = []" using R ds by (cases js; auto simp: scope_rep_def c_def)+
      moreover have "cs_decrement c = (cs_joiners c, c\<lparr>cs_count := 0, cs_state := Joined, cs_joiners := None\<rparr>)"
        unfolding cs_decrement_def Let_def d using J n by simp
      ultimately show ?thesis using True by (simp add: after_release_def c_def)
    qed
    have "scope_rep (after_release b hs y) [] js"
      unfolding e using R h True J n ds by (cases js) (auto simp: scope_rep_def c_def scope_is_joining_def)
    then show ?thesis by blast
  next
    case J: False
    have e: "after_release b hs y = y\<lparr>ys_scope := c\<lparr>cs_count := card (engaged hs)\<rparr>, ys_handles := hs\<rparr>"
    proof -
      have "cs_decrement c = (None, c\<lparr>cs_count := card (engaged hs)\<rparr>)"
        unfolding cs_decrement_def Let_def d using J by auto
      then show ?thesis using True by (simp add: after_release_def c_def)
    qed
    have "cs_count c \<noteq> 0" using n by simp
    then have "scope_is_joining (cs_state c) \<longrightarrow> card (engaged hs) \<noteq> 0" using J n by auto
    then have "scope_rep (after_release b hs y) js ds"
      unfolding e using R h n by (auto simp: scope_rep_def c_def)
    then show ?thesis by blast
  qed
qed

lemma associate_rep:
  assumes R: "scope_rep y js ds" and x: "ys_handles y x = None" and a: "cs_try_associate (ys_scope y) = (b, c)"
  shows "scope_rep (y\<lparr>ys_scope := c, ys_handles := (ys_handles y)(x \<mapsto> b)\<rparr>) js ds"
proof (cases b)
  case False
  then have "c = ys_scope y" using a by (auto simp: cs_try_associate_def scope_try_associate_def split: if_splits)
  moreover have "x \<notin> engaged (ys_handles y)" using x by (simp add: engaged_def)
  moreover have "finite (dom ((ys_handles y)(x \<mapsto> False)))" using R by (simp add: scope_rep_def)
  ultimately show ?thesis using handles_rep [OF R, of "(ys_handles y)(x \<mapsto> False)"] False by simp
next
  case True
  have n: "cs_count (ys_scope y) < size_max" "\<not> scope_rejects_association (cs_state (ys_scope y))"
    "c = (ys_scope y)\<lparr>cs_state := scope_after_association (cs_state (ys_scope y)), cs_count := cs_count (ys_scope y) + 1\<rparr>"
    using a True by (auto simp: cs_try_associate_def scope_try_associate_def max_associations_def split: if_splits)
  have "x \<notin> engaged (ys_handles y)" "finite (engaged (ys_handles y))"
    using x R finite_engaged by (auto simp: engaged_def scope_rep_def)
  then show ?thesis using R True n
    by (auto simp: scope_rep_def scope_rejects_association_def scope_after_association_def scope_is_joining_def max_associations_def)
qed

lemma close_rep: "scope_rep y js ds \<Longrightarrow> scope_rep (y\<lparr>ys_scope := cs_close (ys_scope y)\<rparr>) js ds"
  by (cases "cs_state (ys_scope y)") (auto simp: scope_rep_def cs_close_def scope_is_joining_def)

lemma join_rep:
  assumes R: "scope_rep y js ds" and j: "j \<notin> set (ys_started y)" and s: "cs_start_join j (ys_scope y) (ys_nodes y) = Some (b, c, ns)"
  shows "\<exists>js' ds'. scope_rep (y\<lparr>ys_scope := c, ys_nodes := ns, ys_started := j # ys_started y,
       ys_completed := (if b then ys_completed y @ [j] else ys_completed y)\<rparr>) js' ds'" (is "\<exists>js' ds'. scope_rep ?z js' ds'")
proof (cases "cs_count (ys_scope y) = 0")
  case True
  then have e: "b" "c = (ys_scope y)\<lparr>cs_state := Joined\<rparr>" "ns = ys_nodes y" using s by (auto simp: cs_start_join_def)
  have "js = []" using R True by (auto simp: scope_rep_def)
  then have "scope_rep ?z [] ds" using R j True e by (auto simp: scope_rep_def scope_is_joining_def)
  then show ?thesis by blast
next
  case False
  then obtain st where st: "scope_after_join_start (cs_state (ys_scope y)) = Some st" "scope_is_joining st" "st \<noteq> Joined" "\<not> b"
    "c = (ys_scope y)\<lparr>cs_state := st, cs_joiners := Some j\<rparr>"
    "ns = (ys_nodes y)(j := \<lparr>jn_next = cs_joiners (ys_scope y), jn_registered = True\<rparr>)"
    using s by (cases "cs_state (ys_scope y)") (auto simp: cs_start_join_def scope_is_joining_def)
  have ds: "ds = []" "ys_completed y = []" using R False by (auto simp: scope_rep_def)
  have nj: "j \<notin> set js" using R j by (auto simp: scope_rep_def)
  have "chain (\<lambda>a. jn_next (ns a)) (cs_joiners (ys_scope y)) js None \<longleftrightarrow> chain (\<lambda>a. jn_next (ys_nodes y a)) (cs_joiners (ys_scope y)) js None"
    using nj by (intro chain_cong) (auto simp: st)
  then have "chain (\<lambda>a. jn_next (ns a)) (Some j) (j # js) None" using R by (simp add: scope_rep_def st)
  then have "scope_rep ?z (j # js) []" using R j nj st ds False by (auto simp: scope_rep_def scope_is_joining_def)
  then show ?thesis by blast
qed

lemma drain_rep:
  assumes R: "scope_rep y js ds" and d: "ys_draining y = as @ j # bs" and c: "complete_joiner j (ys_nodes y) = (nx, ns)"
  shows "\<exists>ds'. scope_rep (y\<lparr>ys_nodes := ns, ys_draining := as @ (case nx of None \<Rightarrow> [] | Some k \<Rightarrow> [k]) @ bs,
       ys_completed := ys_completed y @ [j]\<rparr>) js ds'" (is "\<exists>ds'. scope_rep ?z js ds'")
proof -
  obtain ds1 where ds: "ds = j # ds1" "as = []" "bs = []"
    using R d by (cases ds) (auto simp: scope_rep_def append_eq_Cons_conv split: list.splits)
  have e: "nx = first_ptr ds1 None" "ns = (ys_nodes y)(j := \<lparr>jn_next = None, jn_registered = False\<rparr>)"
    using R c ds chain_first by (fastforce simp: scope_rep_def complete_joiner_def)+
  have out: "j \<notin> set js" "j \<notin> set ds1" using R ds by (auto simp: scope_rep_def)
  have "chain (\<lambda>a. jn_next (ns a)) p js None \<longleftrightarrow> chain (\<lambda>a. jn_next (ys_nodes y a)) p js None"
    "chain (\<lambda>a. jn_next (ns a)) p ds1 None \<longleftrightarrow> chain (\<lambda>a. jn_next (ys_nodes y a)) p ds1 None" for p
    using out by (intro chain_cong; auto simp: e)+
  then have "scope_rep ?z js ds1"
    using R ds e(1) out chain_first [of "\<lambda>a. jn_next (ys_nodes y a)" "jn_next (ys_nodes y j)" ds1 None]
    by (cases ds1) (auto simp: scope_rep_def)
  then show ?thesis by blast
qed

lemma scope_step_rep: "scope_step y z \<Longrightarrow> scope_rep y js ds \<Longrightarrow> \<exists>js' ds'. scope_rep z js' ds'"
proof (induction rule: scope_step.induct)
  case (associate y x b c)
  then show ?case using associate_rep by blast
next
  case (associate_empty y z x)
  then have "x \<notin> engaged (ys_handles y)" by (simp add: engaged_def)
  then have "scope_rep (y\<lparr>ys_handles := (ys_handles y)(x \<mapsto> False)\<rparr>) js ds"
    using associate_empty(3) by (intro handles_rep) (auto simp: scope_rep_def)
  then show ?case by blast
next
  case (move y z x)
  then have "finite (dom (ys_handles y))" by (simp add: scope_rep_def)
  note M = assoc_move_card [OF move(1,2) this]
  have "scope_rep (y\<lparr>ys_handles := assoc_move x z (ys_handles y)\<rparr>) js ds"
    by (rule handles_rep [OF move(3) M])
  then show ?case by blast
next
  case (assign y z x b hs)
  then have "finite (dom (ys_handles y))" by (simp add: scope_rep_def)
  from assoc_assign_card [OF assign(3,1,2) this] show ?case by (rule release_rep [OF assign(4)])
next
  case (destroy y x b hs)
  then have "finite (dom (ys_handles y))" by (simp add: scope_rep_def)
  from assoc_destroy_card [OF destroy(2,1) this] show ?case by (rule release_rep [OF destroy(3)])
next
  case (close y)
  then show ?case using close_rep by blast
next
  case (join j y b c ns)
  then show ?case using join_rep by blast
next
  case (drain y as j bs nx ns)
  then show ?case using drain_rep by blast
qed

lemma scope_reachable_rep: "scope_reachable y \<Longrightarrow> \<exists>js ds. scope_rep y js ds"
proof (induction rule: scope_reachable.induct)
  case init
  then show ?case using scope_rep_init by blast
next
  case (step y z)
  then show ?case using scope_step_rep by blast
qed

section \<open>Properties\<close>

text \<open>
  C21.  A join completes exactly when the work has drained.  In every interleaving of
  associations, releases, joins, \<open>close\<close> and completions: the count is the number of engaged
  handles; no join completes twice; as soon as one has completed there is no associated work
  and none can be associated any more; once the last handle is gone and the threads that
  complete joins are through, every join that was started has completed; and starting a join
  never reaches \<open>std::terminate\<close>.
\<close>

theorem scope_join_drains:
  assumes "scope_reachable y"
  shows "cs_count (ys_scope y) = card (engaged (ys_handles y)) \<and> distinct (ys_completed y) \<and> set (ys_completed y) \<subseteq> set (ys_started y) \<and>
    (ys_completed y \<noteq> [] \<longrightarrow> engaged (ys_handles y) = {} \<and> cs_try_associate (ys_scope y) = (False, ys_scope y)) \<and>
    (engaged (ys_handles y) = {} \<and> ys_draining y = [] \<longrightarrow> set (ys_completed y) = set (ys_started y)) \<and>
    (\<forall>j. cs_start_join j (ys_scope y) (ys_nodes y) \<noteq> None)"
proof -
  from scope_reachable_rep [OF assms] obtain js ds where R: "scope_rep y js ds" by blast
  have e: "engaged (ys_handles y) = {} \<longleftrightarrow> cs_count (ys_scope y) = 0"
    using R finite_engaged by (auto simp: scope_rep_def)
  have "ys_completed y \<noteq> [] \<longrightarrow> cs_count (ys_scope y) = 0 \<and> cs_state (ys_scope y) = Joined" using R by (auto simp: scope_rep_def)
  then have fin: "ys_completed y \<noteq> [] \<longrightarrow> cs_count (ys_scope y) = 0 \<and> cs_try_associate (ys_scope y) = (False, ys_scope y)"
    by (auto simp: cs_try_associate_def scope_try_associate_def scope_rejects_association_def)
  have "cs_count (ys_scope y) = 0 \<and> ys_draining y = [] \<longrightarrow> js = [] \<and> ds = []"
    using R by (auto simp: scope_rep_def split: list.splits)
  moreover have "set (js @ ds @ ys_completed y) = set (ys_started y)" "distinct (ys_completed y)"
    "cs_count (ys_scope y) = card (engaged (ys_handles y))" using R by (auto simp: scope_rep_def)
  moreover have "cs_count (ys_scope y) \<noteq> 0 \<longrightarrow> cs_state (ys_scope y) \<notin> {Unused, Unused_and_closed, Joined}" using R unfolding scope_rep_def by blast
  then have "cs_start_join j (ys_scope y) (ys_nodes y) \<noteq> None" for j
    by (cases "cs_state (ys_scope y)") (auto simp: cs_start_join_def)
  ultimately show ?thesis using fin unfolding e by auto
qed

text \<open>One association, a join that has to wait, the release, and the completion.\<close>

theorem scope_join_drains_witness:
  "\<exists>y. scope_reachable y \<and> ys_completed y = [7] \<and>
   (cs_count (ys_scope y) = card (engaged (ys_handles y)) \<and> distinct (ys_completed y) \<and> set (ys_completed y) \<subseteq> set (ys_started y) \<and>
    (ys_completed y \<noteq> [] \<longrightarrow> engaged (ys_handles y) = {} \<and> cs_try_associate (ys_scope y) = (False, ys_scope y)) \<and>
    (engaged (ys_handles y) = {} \<and> ys_draining y = [] \<longrightarrow> set (ys_completed y) = set (ys_started y)) \<and>
    (\<forall>j. cs_start_join j (ys_scope y) (ys_nodes y) \<noteq> None))"
proof -
  have m: "1 \<le> size_max" "0 < size_max" by (simp_all add: size_max_def)
  let ?n = "\<lambda>_. \<lparr>jn_next = None, jn_registered = False\<rparr>"
  let ?y1 = "scope_sys_init\<lparr>ys_scope := \<lparr>cs_count = 1, cs_state = Open, cs_joiners = None\<rparr>, ys_handles := [1 \<mapsto> True]\<rparr>"
  have 1: "scope_reachable ?y1"
    using scope_reachable.step [OF scope_reachable.init scope_step.associate [of scope_sys_init 1 True "\<lparr>cs_count = 1, cs_state = Open, cs_joiners = None\<rparr>"]] m
    by (simp add: scope_sys_init_def cscope_new_def cs_try_associate_def scope_try_associate_def max_associations_def
      scope_rejects_association_def scope_after_association_def)
  let ?y2 = "?y1\<lparr>ys_scope := \<lparr>cs_count = 1, cs_state = Open_and_joining, cs_joiners = Some 7\<rparr>,
      ys_nodes := ?n(7 := \<lparr>jn_next = None, jn_registered = True\<rparr>), ys_started := [7]\<rparr>"
  have 2: "scope_reachable ?y2"
    using scope_reachable.step [OF 1 scope_step.join [of 7 ?y1 False "\<lparr>cs_count = 1, cs_state = Open_and_joining, cs_joiners = Some 7\<rparr>"
        "?n(7 := \<lparr>jn_next = None, jn_registered = True\<rparr>)"]]
    by (simp add: scope_sys_init_def cs_start_join_def)
  let ?y3 = "?y2\<lparr>ys_scope := \<lparr>cs_count = 0, cs_state = Joined, cs_joiners = None\<rparr>, ys_handles := Map.empty, ys_draining := [7]\<rparr>"
  have 3: "scope_reachable ?y3"
    using scope_reachable.step [OF 2 scope_step.destroy [of ?y2 1 True Map.empty]]
    by (simp add: scope_sys_init_def assoc_destroy_def assoc_release_def after_release_def cs_decrement_def scope_is_joining_def Let_def fun_upd_idem)
  let ?y4 = "?y3\<lparr>ys_nodes := ?n, ys_draining := [], ys_completed := [7]\<rparr>"
  have 4: "scope_reachable ?y4"
    using scope_reachable.step [OF 3 scope_step.drain [of ?y3 "[]" 7 "[]" None ?n]]
    by (simp add: scope_sys_init_def complete_joiner_def fun_upd_def fun_eq_iff)
  then show ?thesis using scope_join_drains [OF 4] by (intro exI [of _ ?y4]) simp
qed

section \<open>Fused stop tokens\<close>

text \<open>
  \<open>counting_scope::scope_token::wrap\<close>: the wrapped operation runs with a stop source of its own,
  which two callbacks forward to, one on the scope's stop source and one on the stop token of
  the receiver.  An installation may throw.
\<close>

record stop_op =
  so_source :: bool
  so_scope_stop :: bool
  so_downstream_stop :: bool
  so_running :: bool
  so_signals :: nat

definition stop_op_new :: stop_op where
  "stop_op_new = \<lparr>so_source = False, so_scope_stop = False, so_downstream_stop = False, so_running = False, so_signals = 0\<rparr>"

text \<open>
  \<open>install\<close> on a token that has been stopped or not, and that may ever be stopped or not: whether
  it throws, the callback and the source.  A callback constructed when stop has been requested
  in between runs in its constructor, so the check and the construction act as one step.
\<close>

definition stop_install :: "bool \<Rightarrow> bool \<Rightarrow> bool \<Rightarrow> bool \<Rightarrow> (bool \<times> bool) option" where
  "stop_install requested possible ok source =
     (if requested then Some (False, True)
      else if possible then (if ok then Some (True, source) else None)
      else Some (False, source))"

definition release_stop_callbacks :: "stop_op \<Rightarrow> stop_op" where
  "release_stop_callbacks o1 = o1\<lparr>so_scope_stop := False, so_downstream_stop := False\<rparr>"

text \<open>\<open>scope\<close> and \<open>down\<close>: whether stop has been requested on the scope and downstream.\<close>

definition stop_op_start :: "bool \<Rightarrow> bool \<Rightarrow> bool \<Rightarrow> bool \<Rightarrow> bool \<Rightarrow> stop_op \<Rightarrow> stop_op" where
  "stop_op_start scope down possible ok1 ok2 o1 =
     (case stop_install scope True ok1 (so_source o1) of
        None \<Rightarrow> (release_stop_callbacks o1)\<lparr>so_signals := so_signals o1 + 1\<rparr>
      | Some (cb1, src1) \<Rightarrow>
          (let o2 = o1\<lparr>so_scope_stop := cb1, so_source := src1\<rparr>
           in case stop_install down possible ok2 src1 of
                None \<Rightarrow> (release_stop_callbacks o2)\<lparr>so_signals := so_signals o2 + 1\<rparr>
              | Some (cb2, src2) \<Rightarrow> o2\<lparr>so_downstream_stop := cb2, so_source := src2, so_running := True\<rparr>))"

definition stop_op_complete :: "stop_op \<Rightarrow> stop_op" where
  "stop_op_complete o1 = (release_stop_callbacks o1)\<lparr>so_running := False, so_signals := so_signals o1 + 1\<rparr>"

datatype stop_event = Scope_stop | Downstream_stop | Start bool bool | Complete

record stop_env =
  se_scope :: bool
  se_down :: bool
  se_possible :: bool
  se_started :: bool
  se_op :: stop_op

fun stop_event_step :: "stop_event \<Rightarrow> stop_env \<Rightarrow> stop_env option" where
  "stop_event_step Scope_stop e = Some (e\<lparr>se_scope := True,
      se_op := (if so_scope_stop (se_op e) then (se_op e)\<lparr>so_source := True\<rparr> else se_op e)\<rparr>)"
| "stop_event_step Downstream_stop e =
     (if \<not> se_possible e then None
      else Some (e\<lparr>se_down := True,
        se_op := (if so_downstream_stop (se_op e) then (se_op e)\<lparr>so_source := True\<rparr> else se_op e)\<rparr>))"
| "stop_event_step (Start ok1 ok2) e =
     (if se_started e then None
      else Some (e\<lparr>se_started := True, se_op := stop_op_start (se_scope e) (se_down e) (se_possible e) ok1 ok2 (se_op e)\<rparr>))"
| "stop_event_step Complete e =
     (if \<not> so_running (se_op e) then None else Some (e\<lparr>se_op := stop_op_complete (se_op e)\<rparr>))"

fun stop_events :: "stop_event list \<Rightarrow> stop_env \<Rightarrow> stop_env option" where
  "stop_events [] e = Some e"
| "stop_events (ev # evs) e = (case stop_event_step ev e of None \<Rightarrow> None | Some e' \<Rightarrow> stop_events evs e')"

definition stop_env_new :: "bool \<Rightarrow> stop_env" where
  "stop_env_new possible = \<lparr>se_scope = False, se_down = False, se_possible = possible, se_started = False, se_op = stop_op_new\<rparr>"

definition stop_env_inv :: "stop_env \<Rightarrow> bool" where
  "stop_env_inv e \<longleftrightarrow>
     (if so_running (se_op e)
      then se_started e \<and> so_signals (se_op e) = 0 \<and> (so_source (se_op e) \<longleftrightarrow> se_scope e \<or> se_down e) \<and>
           (so_scope_stop (se_op e) \<or> se_scope e) \<and> (so_downstream_stop (se_op e) \<or> se_down e \<or> \<not> se_possible e)
      else \<not> so_scope_stop (se_op e) \<and> \<not> so_downstream_stop (se_op e) \<and>
           (if se_started e then so_signals (se_op e) = 1 else se_op e = stop_op_new)) \<and>
     (\<not> se_possible e \<longrightarrow> \<not> se_down e)"

lemma stop_start_inv:
  assumes "stop_env_inv e" "\<not> se_started e"
  shows "stop_env_inv (e\<lparr>se_started := True, se_op := stop_op_start (se_scope e) (se_down e) (se_possible e) ok1 ok2 (se_op e)\<rparr>)"
proof -
  have o: "se_op e = stop_op_new" "\<not> se_possible e \<longrightarrow> \<not> se_down e" using assms by (simp_all add: stop_env_inv_def split: if_splits)
  show ?thesis unfolding o(1) using o(2)
    by (cases "se_scope e"; cases ok1; cases "se_down e"; cases "se_possible e"; cases ok2)
      (simp_all add: stop_env_inv_def stop_op_start_def release_stop_callbacks_def stop_install_def stop_op_new_def)
qed

lemma stop_step_inv:
  assumes "stop_env_inv e" "stop_event_step ev e = Some e'"
  shows "stop_env_inv e'"
proof (cases ev)
  case (Start ok1 ok2)
  then show ?thesis using assms stop_start_inv [OF assms(1), of ok1 ok2] by (auto split: if_splits)
next
  case Complete
  then have "e' = e\<lparr>se_op := stop_op_complete (se_op e)\<rparr>" "so_running (se_op e)" using assms(2) by (auto split: if_splits)
  then show ?thesis using assms(1) by (simp add: stop_env_inv_def stop_op_complete_def release_stop_callbacks_def)
qed (use assms in \<open>auto simp: stop_env_inv_def stop_op_new_def split: if_splits\<close>)

lemma stop_events_inv: "stop_events evs e = Some e' \<Longrightarrow> stop_env_inv e \<Longrightarrow> stop_env_inv e'"
  by (induction evs arbitrary: e) (auto split: option.splits dest: stop_step_inv)

text \<open>
  C22.  While wrapped work runs, its stop token says stop exactly when the scope or the receiver
  has asked for it, whatever the order of the requests and the start; and whether the start
  fails or the work completes, the operation is signalled once and no callback stays behind.
\<close>

theorem scope_wrap_stops:
  assumes "stop_events evs (stop_env_new possible) = Some e"
  shows "(so_running (se_op e) \<longrightarrow> (so_source (se_op e) \<longleftrightarrow> se_scope e \<or> se_down e)) \<and>
    (\<not> so_running (se_op e) \<longrightarrow> \<not> so_scope_stop (se_op e) \<and> \<not> so_downstream_stop (se_op e)) \<and>
    (se_started e \<and> \<not> so_running (se_op e) \<longleftrightarrow> so_signals (se_op e) = 1) \<and> so_signals (se_op e) \<le> 1"
proof -
  have "stop_env_inv (stop_env_new possible)" by (simp add: stop_env_inv_def stop_env_new_def stop_op_new_def)
  from stop_events_inv [OF assms this] show ?thesis by (auto simp: stop_env_inv_def stop_op_new_def split: if_splits)
qed

theorem scope_wrap_stops_witness:
  "\<exists>e. stop_events [Start True True, Downstream_stop] (stop_env_new True) = Some e \<and> so_running (se_op e) \<and>
   ((so_running (se_op e) \<longrightarrow> (so_source (se_op e) \<longleftrightarrow> se_scope e \<or> se_down e)) \<and>
    (\<not> so_running (se_op e) \<longrightarrow> \<not> so_scope_stop (se_op e) \<and> \<not> so_downstream_stop (se_op e)) \<and>
    (se_started e \<and> \<not> so_running (se_op e) \<longleftrightarrow> so_signals (se_op e) = 1) \<and> so_signals (se_op e) \<le> 1)"
proof -
  have "map_option (\<lambda>e. so_running (se_op e)) (stop_events [Start True True, Downstream_stop] (stop_env_new True)) = Some True" by code_simp
  then obtain e where "stop_events [Start True True, Downstream_stop] (stop_env_new True) = Some e" "so_running (se_op e)" by auto
  then show ?thesis using scope_wrap_stops by blast
qed

end
