(* ===== verification/Progress.thy ===== *)
theory Progress
  imports Forge_Prelude
begin

text \<open>
  What the execution contexts of the library share: the completion signals of a scheduled
  operation, sums over the threads that are inside a loop, and the argument that work ends.

  The locale \<open>draining\<close> is the contract of a context whose internal steps use up something:
  every such step keeps an invariant and decreases a size.  Its lemmas say that no run of such
  steps is longer than the size, and that every run can be continued to a state where nothing is
  left to do.  The components interpret it on their own steps.
\<close>

datatype outcome = Set_value | Set_stopped

section \<open>Sums over the threads\<close>

text \<open>\<open>weight_sum w f\<close> adds up \<open>w (f t)\<close> over all threads \<open>t\<close>; only finitely many have a weight.\<close>

definition weight_sum :: "('a \<Rightarrow> nat) \<Rightarrow> (addr \<Rightarrow> 'a) \<Rightarrow> nat" where
  "weight_sum w f = (\<Sum>t\<in>{t. w (f t) \<noteq> 0}. w (f t))"

lemma weight_sum_superset: "finite A \<Longrightarrow> {t. w (f t) \<noteq> 0} \<subseteq> A \<Longrightarrow> weight_sum w f = (\<Sum>t\<in>A. w (f t))"
  unfolding weight_sum_def by (rule sum.mono_neutral_left) auto

lemma weight_sum_upd:
  assumes "finite {t. w (f t) \<noteq> 0}"
  shows "weight_sum w (f(t := v)) + w (f t) = weight_sum w f + w v" "finite {s. w ((f(t := v)) s) \<noteq> 0}"
proof -
  let ?A = "insert t {t. w (f t) \<noteq> 0}"
  have f: "finite ?A" using assms by simp
  have s: "{s. w ((f(t := v)) s) \<noteq> 0} \<subseteq> ?A" by auto
  show "finite {s. w ((f(t := v)) s) \<noteq> 0}" using s f by (rule finite_subset)
  have e: "(\<Sum>s\<in>?A - {t}. w ((f(t := v)) s)) = (\<Sum>s\<in>?A - {t}. w (f s))" by (rule sum.cong) auto
  have "weight_sum w (f(t := v)) = w v + (\<Sum>s\<in>?A - {t}. w (f s))"
    unfolding weight_sum_superset [of ?A w "f(t := v)", OF f s] sum.remove [OF f insertI1] e by simp
  moreover have "weight_sum w f = w (f t) + (\<Sum>s\<in>?A - {t}. w (f s))"
    unfolding weight_sum_superset [of ?A w f, OF f subset_insertI] sum.remove [OF f insertI1] by simp
  ultimately show "weight_sum w (f(t := v)) + w (f t) = weight_sum w f + w v" by simp
qed

lemma weight_sum_zero: "finite {t. w (f t) \<noteq> 0} \<Longrightarrow> weight_sum w f = 0 \<longleftrightarrow> (\<forall>t. w (f t) = 0)"
  unfolding weight_sum_def by (subst sum_eq_0_iff) auto

lemma weight_sum_const [simp]: "w v = 0 \<Longrightarrow> weight_sum w (\<lambda>_. v) = 0"
  by (simp add: weight_sum_def)

lemma weight_sum_ge: "finite {t. w (f t) \<noteq> 0} \<Longrightarrow> w (f t) \<le> weight_sum w f"
  unfolding weight_sum_def by (cases "w (f t) = 0") (auto intro: member_le_sum)

section \<open>Threads in a worker loop\<close>

text \<open>
  Where a thread is in a loop that takes tasks from a queue, executes each and then records that
  it is finished.
\<close>

datatype phase = Outside | Looping | Executing addr | Executed

fun busy :: "phase \<Rightarrow> nat" where
  "busy Outside = 0" | "busy Looping = 0" | "busy (Executing t) = 1" | "busy Executed = 1"

fun phase_weight :: "phase \<Rightarrow> nat" where
  "phase_weight Outside = 0" | "phase_weight Looping = 1" | "phase_weight (Executing t) = 3" | "phase_weight Executed = 2"

definition executing :: "(addr \<Rightarrow> phase) \<Rightarrow> addr set" where
  "executing f = {t. \<exists>th. f th = Executing t}"

text \<open>
  \<open>tracked f ts ds\<close>: every task of \<open>ts\<close>, those taken out of the queue, is being executed by one
  thread or is among \<open>ds\<close>, those whose execution is over, and never both; no more threads are busy
  than tasks have been taken.
\<close>

definition tracked :: "(addr \<Rightarrow> phase) \<Rightarrow> addr list \<Rightarrow> addr list \<Rightarrow> bool" where
  "tracked f ts ds \<longleftrightarrow>
     finite {th. phase_weight (f th) \<noteq> 0} \<and> (\<forall>th th' t. f th = Executing t \<and> f th' = Executing t \<longrightarrow> th = th') \<and>
     distinct ds \<and> set ts = executing f \<union> set ds \<and> executing f \<inter> set ds = {} \<and> weight_sum busy f \<le> length ts"

lemma tracked_init [simp]: "tracked (\<lambda>_. Outside) [] []"
  by (simp add: tracked_def executing_def)

lemma tracked_finite: "tracked f ts ds \<Longrightarrow> finite {th. phase_weight (f th) \<noteq> 0}"
  by (simp add: tracked_def)

lemma tracked_finite_busy:
  assumes "tracked f ts ds"
  shows "finite {th. busy (f th) \<noteq> 0}"
proof (rule finite_subset [OF _ tracked_finite [OF assms]])
  have "busy p \<noteq> 0 \<Longrightarrow> phase_weight p \<noteq> 0" for p by (cases p) simp_all
  then show "{th. busy (f th) \<noteq> 0} \<subseteq> {th. phase_weight (f th) \<noteq> 0}" by blast
qed

lemma tracked_busy_upd: "tracked f ts ds \<Longrightarrow> weight_sum busy (f(th := p)) + busy (f th) = weight_sum busy f + busy p"
  using weight_sum_upd(1) [of busy f th p] tracked_finite_busy by blast

lemma tracked_weight_upd:
  "tracked f ts ds \<Longrightarrow> weight_sum phase_weight (f(th := p)) + phase_weight (f th) = weight_sum phase_weight f + phase_weight p"
  using weight_sum_upd(1) [of phase_weight f th p] tracked_finite by blast

lemma tracked_finite_upd: "tracked f ts ds \<Longrightarrow> finite {s. phase_weight ((f(th := p)) s) \<noteq> 0}"
  using weight_sum_upd(2) [of phase_weight f th p] tracked_finite by blast

lemma executing_upd:
  "\<forall>t. f th \<noteq> Executing t \<Longrightarrow> executing (f(th := Executing t)) = insert t (executing f)"
  "\<forall>t. f th \<noteq> Executing t \<Longrightarrow> \<forall>t. p \<noteq> Executing t \<Longrightarrow> executing (f(th := p)) = executing f"
  by (auto simp: executing_def)

lemma tracked_take:
  assumes "tracked f ts ds" "f th = Looping" "t \<notin> set ts"
  shows "tracked (f(th := Executing t)) (ts @ [t]) ds"
proof -
  have "executing (f(th := Executing t)) = insert t (executing f)" using assms(2) by (intro executing_upd) simp
  moreover have "f s \<noteq> Executing t" for s using assms by (auto simp: tracked_def executing_def)
  ultimately show ?thesis using assms tracked_finite_upd [OF assms(1), of th "Executing t"] tracked_busy_upd [OF assms(1), of th "Executing t"]
    unfolding tracked_def by auto
qed

lemma tracked_execute:
  assumes "tracked f ts ds" "f th = Executing t"
  shows "tracked (f(th := Executed)) ts (ds @ [t])"
proof -
  have s: "f s = Executing t \<longleftrightarrow> s = th" for s using assms by (auto simp: tracked_def)
  have "executing (f(th := Executed)) = executing f - {t}"
  proof (rule set_eqI)
    fix u
    show "u \<in> executing (f(th := Executed)) \<longleftrightarrow> u \<in> executing f - {t}"
      using s assms(2) unfolding executing_def by (cases "u = t") (auto, metis phase.inject)
  qed
  moreover have "t \<in> executing f" using assms(2) by (auto simp: executing_def)
  ultimately show ?thesis using assms tracked_finite_upd [OF assms(1), of th Executed] tracked_busy_upd [OF assms(1), of th Executed]
    unfolding tracked_def by auto
qed

lemma tracked_move:
  assumes "tracked f ts ds" "\<forall>t. f th \<noteq> Executing t" "\<forall>t. p \<noteq> Executing t" "busy p \<le> busy (f th)"
  shows "tracked (f(th := p)) ts ds"
  using assms executing_upd(2) [of f th p] tracked_finite_upd [OF assms(1), of th p] tracked_busy_upd [OF assms(1), of th p]
  unfolding tracked_def by auto

lemma tracked_idle:
  assumes "tracked f ts ds" "\<forall>th. f th = Outside \<or> f th = Looping"
  shows "set ts = set ds" "weight_sum busy f = 0"
proof -
  have "executing f = {}" using assms(2) by (auto simp: executing_def) (metis phase.distinct)
  then show "set ts = set ds" using assms(1) by (simp add: tracked_def)
  have "busy (f th) = 0" for th using assms(2) [rule_format, of th] by auto
  then show "weight_sum busy f = 0" using weight_sum_zero [of busy f] tracked_finite_busy [OF assms(1)] by blast
qed

lemma tracked_quiet:
  assumes "tracked f ts ds" "weight_sum busy f = 0"
  shows "set ts = set ds" "f th = Outside \<or> f th = Looping"
proof -
  have "busy (f th) = 0" for th using assms weight_sum_zero [of busy f] tracked_finite_busy [OF assms(1)] by blast
  then have "\<forall>th. f th = Outside \<or> f th = Looping" by (metis busy.simps(3,4) phase.exhaust zero_neq_one)
  then show "set ts = set ds" "f th = Outside \<or> f th = Looping" using tracked_idle(1) [OF assms(1)] by blast+
qed

text \<open>A counter of \<open>size_t\<close> that is decremented.\<close>

lemma dec_mod: "0 < n \<Longrightarrow> (n mod (size_max + 1) + size_max) mod (size_max + 1) = (n - 1) mod (size_max + 1)"
proof -
  assume "0 < n"
  then have "n + size_max = (n - 1) + (size_max + 1)" by simp
  then have "(n + size_max) mod (size_max + 1) = (n - 1) mod (size_max + 1)" by (metis mod_add_self2)
  then show ?thesis by (simp add: mod_add_left_eq)
qed

section \<open>Work that drains\<close>

locale draining =
  fixes inv :: "'s \<Rightarrow> bool"
    and work :: "'s \<Rightarrow> 's \<Rightarrow> bool"
    and left :: "'s \<Rightarrow> nat"
  assumes work_inv: "inv y \<Longrightarrow> work y z \<Longrightarrow> inv z"
    and work_less: "inv y \<Longrightarrow> work y z \<Longrightarrow> left z < left y"
begin

lemma works_inv: "work\<^sup>*\<^sup>* y z \<Longrightarrow> inv y \<Longrightarrow> inv z"
  by (induction rule: rtranclp_induct) (auto intro: work_inv)

lemma works_bounded: "(work ^^ n) y z \<Longrightarrow> inv y \<Longrightarrow> n + left z \<le> left y \<and> inv z"
proof (induction n arbitrary: z)
  case 0
  then show ?case by simp
next
  case (Suc n)
  then obtain x where "(work ^^ n) y x" "work x z" by auto
  with Suc show ?case using work_inv [of x z] work_less [of x z] by fastforce
qed

text \<open>No run is infinite, and every run can be completed.\<close>

lemma works_end: "inv y \<Longrightarrow> \<exists>z. work\<^sup>*\<^sup>* y z \<and> inv z \<and> (\<forall>w. \<not> work z w)"
proof (induction "left y" arbitrary: y rule: less_induct)
  case less
  show ?case
  proof (cases "\<exists>x. work y x")
    case True
    then obtain x where x: "work y x" by blast
    from less.hyps [OF work_less [OF less.prems x] work_inv [OF less.prems x]]
    obtain z where "work\<^sup>*\<^sup>* x z" "inv z" "\<forall>w. \<not> work z w" by blast
    then show ?thesis using x converse_rtranclp_into_rtranclp [of work y x z] by blast
  next
    case False
    then show ?thesis using less.prems by blast
  qed
qed

end

end
