(* ===== verification/Run_Loop.thy ===== *)
theory Run_Loop
  imports Progress
begin

text \<open>
  \<open>std::execution::run_loop\<close> (\<open>backport/cpp26/execution/run_loop.hpp\<close>): an intrusive queue of
  operation states behind a mutex, and the loop that executes them.

  A step of the system is one critical section of the loop's mutex or the execution of one
  task.  Any number of threads may be inside \<open>run\<close>; operations are started, stop is requested
  and \<open>finish\<close> is called at any point, also from inside a task.
\<close>

section \<open>The queue\<close>

record run_loop =
  rl_next :: "addr \<Rightarrow> ptr"
  rl_head :: ptr
  rl_tail :: ptr
  rl_finishing :: bool
  rl_task_count :: nat

definition rl_new :: run_loop where
  "rl_new = \<lparr>rl_next = (\<lambda>_. None), rl_head = None, rl_tail = None, rl_finishing = False, rl_task_count = 0\<rparr>"

definition rl_finish :: "run_loop \<Rightarrow> run_loop" where
  "rl_finish l = l\<lparr>rl_finishing := True\<rparr>"

definition rl_push :: "run_loop \<Rightarrow> addr \<Rightarrow> run_loop" where
  "rl_push l t =
     (let l1 = l\<lparr>rl_next := (rl_next l)(t := None)\<rparr>;
          l2 = (case rl_tail l1 of
                  Some a \<Rightarrow> l1\<lparr>rl_next := (rl_next l1)(a := Some t)\<rparr>
                | None \<Rightarrow> l1\<lparr>rl_head := Some t\<rparr>)
      in l2\<lparr>rl_tail := Some t, rl_task_count := (rl_task_count l2 + 1) mod (size_max + 1)\<rparr>)"

text \<open>\<open>__pop\<close> blocks until \<open>rl_wake\<close> holds; \<open>rl_pop\<close> is the rest of the critical section.\<close>

definition rl_wake :: "run_loop \<Rightarrow> bool" where
  "rl_wake l \<longleftrightarrow> rl_head l \<noteq> None \<or> rl_finishing l"

definition rl_pop :: "run_loop \<Rightarrow> ptr \<times> run_loop" where
  "rl_pop l =
     (case rl_head l of
        None \<Rightarrow> (None, l)
      | Some t \<Rightarrow>
          (let l1 = l\<lparr>rl_head := rl_next l t\<rparr>;
               l2 = (if rl_head l1 = None then l1\<lparr>rl_tail := None\<rparr> else l1)
           in (Some t, l2)))"

text \<open>The end of an iteration of \<open>run\<close>.\<close>

definition rl_executed :: "run_loop \<Rightarrow> run_loop" where
  "rl_executed l = l\<lparr>rl_task_count := (rl_task_count l + size_max) mod (size_max + 1)\<rparr>"

text \<open>Whether \<open>~run_loop\<close> calls \<open>std::terminate\<close>.\<close>

definition rl_destructor_terminates :: "run_loop \<Rightarrow> bool" where
  "rl_destructor_terminates l \<longleftrightarrow> rl_task_count l > 0"

text \<open>
  \<open>__execute\<close> of an operation: \<open>stop\<close> is what \<open>stop_requested\<close> of the receiver's token returns,
  which is \<open>False\<close> for unstoppable tokens.
\<close>

definition rl_execute :: "bool \<Rightarrow> outcome" where
  "rl_execute stop = (if stop then Set_stopped else Set_value)"

text \<open>The queue is a FIFO queue over the nodes' own links.\<close>

definition rl_rep :: "run_loop \<Rightarrow> addr list \<Rightarrow> bool" where
  "rl_rep l xs \<longleftrightarrow> chain (rl_next l) (rl_head l) xs None \<and> rl_tail l = last_ptr None xs"

lemma rl_rep_push: "rl_rep l xs \<Longrightarrow> t \<notin> set xs \<Longrightarrow> rl_rep (rl_push l t) (xs @ [t])"
proof (cases xs rule: rev_cases)
  case Nil
  then show "rl_rep l xs \<Longrightarrow> t \<notin> set xs \<Longrightarrow> rl_rep (rl_push l t) (xs @ [t])"
    by (simp add: rl_rep_def rl_push_def)
next
  case (snoc ys a)
  assume "rl_rep l xs" "t \<notin> set xs"
  moreover from this have "distinct (ys @ [a])" using snoc chain_distinct [of "rl_next l" "rl_head l" xs] by (simp add: rl_rep_def)
  ultimately show ?thesis using snoc by (auto simp: rl_rep_def rl_push_def chain_append)
qed

lemma rl_rep_pop_Cons:
  assumes "rl_rep l (x # xs)"
  shows "fst (rl_pop l) = Some x \<and> rl_rep (snd (rl_pop l)) xs"
proof (cases xs)
  case Nil
  then show ?thesis using assms by (auto simp: rl_rep_def rl_pop_def Let_def)
next
  case (Cons b bs)
  then show ?thesis using assms by (auto simp: rl_rep_def rl_pop_def Let_def last_ptr_def)
qed

interpretation rlq: fifo_queue rl_rep rl_new rl_push rl_pop
proof unfold_locales
  show "rl_rep q xs \<Longrightarrow> rl_rep q ys \<Longrightarrow> xs = ys" for q xs ys
    by (auto simp: rl_rep_def intro: chain_unique)
qed (auto simp: rl_rep_push rl_rep_pop_Cons, auto simp: rl_rep_def rl_new_def rl_pop_def)

section \<open>The system\<close>

record rl_sys =
  ls_loop :: run_loop
  ls_threads :: "addr \<Rightarrow> phase"
  ls_stop :: "addr \<Rightarrow> bool"
  ls_started :: "addr list"
  ls_taken :: "addr list"
  ls_completed :: "(addr \<times> outcome) list"

definition rl_sys_init :: rl_sys where
  "rl_sys_init = \<lparr>ls_loop = rl_new, ls_threads = (\<lambda>_. Outside), ls_stop = (\<lambda>_. False), ls_started = [], ls_taken = [], ls_completed = []\<rparr>"

text \<open>The steps of the threads inside \<open>run\<close>.\<close>

inductive rl_work :: "rl_sys \<Rightarrow> rl_sys \<Rightarrow> bool" where
  take: "ls_threads y th = Looping \<Longrightarrow> rl_wake (ls_loop y) \<Longrightarrow> rl_pop (ls_loop y) = (Some t, l) \<Longrightarrow>
     rl_work y (y\<lparr>ls_loop := l, ls_threads := (ls_threads y)(th := Executing t), ls_taken := ls_taken y @ [t]\<rparr>)"
| leave: "ls_threads y th = Looping \<Longrightarrow> rl_wake (ls_loop y) \<Longrightarrow> rl_pop (ls_loop y) = (None, l) \<Longrightarrow>
     rl_work y (y\<lparr>ls_loop := l, ls_threads := (ls_threads y)(th := Outside)\<rparr>)"
| execute: "ls_threads y th = Executing t \<Longrightarrow>
     rl_work y (y\<lparr>ls_threads := (ls_threads y)(th := Executed), ls_completed := ls_completed y @ [(t, rl_execute (ls_stop y t))]\<rparr>)"
| executed: "ls_threads y th = Executed \<Longrightarrow>
     rl_work y (y\<lparr>ls_loop := rl_executed (ls_loop y), ls_threads := (ls_threads y)(th := Looping)\<rparr>)"

text \<open>All steps: an operation is started at most once.\<close>

inductive rl_step :: "rl_sys \<Rightarrow> rl_sys \<Rightarrow> bool" where
  start: "t \<notin> set (ls_started y) \<Longrightarrow> rl_step y (y\<lparr>ls_loop := rl_push (ls_loop y) t, ls_started := ls_started y @ [t]\<rparr>)"
| finish: "rl_step y (y\<lparr>ls_loop := rl_finish (ls_loop y)\<rparr>)"
| stop: "rl_step y (y\<lparr>ls_stop := (ls_stop y)(t := True)\<rparr>)"
| enter: "ls_threads y th = Outside \<Longrightarrow> rl_step y (y\<lparr>ls_threads := (ls_threads y)(th := Looping)\<rparr>)"
| work: "rl_work y z \<Longrightarrow> rl_step y z"

inductive rl_reachable :: "rl_sys \<Rightarrow> bool" where
  init: "rl_reachable rl_sys_init"
| step: "rl_reachable y \<Longrightarrow> rl_step y z \<Longrightarrow> rl_reachable z"

section \<open>Invariant\<close>

text \<open>\<open>qs\<close> are the queued operations; the counter counts them and the busy threads.\<close>

definition rl_inv :: "rl_sys \<Rightarrow> addr list \<Rightarrow> bool" where
  "rl_inv y qs \<longleftrightarrow>
     rl_rep (ls_loop y) qs \<and> ls_started y = ls_taken y @ qs \<and> distinct (ls_taken y @ qs) \<and>
     tracked (ls_threads y) (ls_taken y) (map fst (ls_completed y)) \<and>
     rl_task_count (ls_loop y) = (length qs + weight_sum busy (ls_threads y)) mod (size_max + 1)"

lemma rl_inv_init: "rl_inv rl_sys_init []"
  using rlq.rep_emp by (simp add: rl_inv_def rl_sys_init_def) (simp add: rl_new_def)

lemma rl_push_fields: "rl_task_count (rl_push l t) = (rl_task_count l + 1) mod (size_max + 1)" "rl_finishing (rl_push l t) = rl_finishing l"
  by (simp_all add: rl_push_def Let_def split: option.splits)

lemma rl_pop_fields: "rl_task_count (snd (rl_pop l)) = rl_task_count l" "rl_finishing (snd (rl_pop l)) = rl_finishing l"
  by (simp_all add: rl_pop_def Let_def split: option.splits)

lemma rl_take_inv:
  assumes I: "rl_inv y qs" and th: "ls_threads y th = Looping" and p: "rl_pop (ls_loop y) = (Some t, l)"
  shows "\<exists>rs. qs = t # rs \<and> rl_inv (y\<lparr>ls_loop := l, ls_threads := (ls_threads y)(th := Executing t), ls_taken := ls_taken y @ [t]\<rparr>) rs"
    (is "\<exists>rs. _ \<and> rl_inv ?z rs")
proof -
  have R: "rl_rep (ls_loop y) qs" and T: "tracked (ls_threads y) (ls_taken y) (map fst (ls_completed y))" using I by (simp_all add: rl_inv_def)
  obtain rs where qs: "qs = t # rs" and R': "rl_rep l rs"
  proof (cases qs)
    case Nil
    then show thesis using R p rlq.rep_pop_Nil by fastforce
  next
    case (Cons a rs)
    then show thesis using that R p rlq.rep_pop_Cons by fastforce
  qed
  have new: "t \<notin> set (ls_taken y)" using I qs by (auto simp: rl_inv_def)
  have "rl_task_count l = rl_task_count (ls_loop y)" using p rl_pop_fields [of "ls_loop y"] by simp
  then have "rl_inv ?z rs"
    using I R' qs tracked_take [OF T th new] tracked_busy_upd [OF T, of th "Executing t"] th by (simp add: rl_inv_def)
  then show ?thesis using qs by blast
qed

lemma rl_leave_inv:
  assumes I: "rl_inv y qs" and th: "ls_threads y th = Looping" and p: "rl_pop (ls_loop y) = (None, l)"
  shows "qs = [] \<and> rl_inv (y\<lparr>ls_loop := l, ls_threads := (ls_threads y)(th := Outside)\<rparr>) []"
proof -
  have R: "rl_rep (ls_loop y) qs" and T: "tracked (ls_threads y) (ls_taken y) (map fst (ls_completed y))" using I by (simp_all add: rl_inv_def)
  have "qs = []" using R p rlq.rep_pop_Cons by (cases qs) fastforce+
  moreover have "l = ls_loop y" using p by (simp add: rl_pop_def Let_def split: option.splits)
  ultimately show ?thesis using I tracked_move [OF T, of th Outside] tracked_busy_upd [OF T, of th Outside] th by (simp add: rl_inv_def)
qed

lemma rl_execute_inv:
  assumes I: "rl_inv y qs" and th: "ls_threads y th = Executing t"
  shows "rl_inv (y\<lparr>ls_threads := (ls_threads y)(th := Executed), ls_completed := ls_completed y @ [(t, b)]\<rparr>) qs"
proof -
  have T: "tracked (ls_threads y) (ls_taken y) (map fst (ls_completed y))" using I by (simp add: rl_inv_def)
  show ?thesis using I tracked_execute [OF T th] tracked_busy_upd [OF T, of th Executed] th by (simp add: rl_inv_def)
qed

lemma rl_executed_inv:
  assumes I: "rl_inv y qs" and th: "ls_threads y th = Executed"
  shows "rl_inv (y\<lparr>ls_loop := rl_executed (ls_loop y), ls_threads := (ls_threads y)(th := Looping)\<rparr>) qs"
proof -
  have T: "tracked (ls_threads y) (ls_taken y) (map fst (ls_completed y))" using I by (simp add: rl_inv_def)
  have w: "weight_sum busy (ls_threads y) = weight_sum busy ((ls_threads y)(th := Looping)) + 1"
    using tracked_busy_upd [OF T, of th Looping] th by simp
  moreover have "rl_rep (rl_executed (ls_loop y)) qs \<longleftrightarrow> rl_rep (ls_loop y) qs" "rl_task_count (rl_executed l) = (rl_task_count l + size_max) mod (size_max + 1)" for l
    by (simp_all add: rl_rep_def rl_executed_def)
  ultimately show ?thesis using I tracked_move [OF T, of th Looping] th dec_mod [of "length qs + weight_sum busy (ls_threads y)"]
    by (simp add: rl_inv_def)
qed

text \<open>A step of a thread keeps the invariant and uses up some work.\<close>

definition rl_ok :: "rl_sys \<Rightarrow> bool" where
  "rl_ok y \<longleftrightarrow> (\<exists>qs. rl_inv y qs)"

definition rl_left :: "rl_sys \<Rightarrow> nat" where
  "rl_left y = 3 * length (rlq.items (ls_loop y)) + weight_sum phase_weight (ls_threads y)"

lemma rl_left_eq: "rl_inv y qs \<Longrightarrow> rl_left y = 3 * length qs + weight_sum phase_weight (ls_threads y)"
  using rlq.items_eq [of "ls_loop y" qs] by (simp add: rl_inv_def rl_left_def)

lemma rl_inv_weight:
  "rl_inv y qs \<Longrightarrow> weight_sum phase_weight ((ls_threads y)(th := p)) + phase_weight (ls_threads y th) = weight_sum phase_weight (ls_threads y) + phase_weight p"
  by (auto simp: rl_inv_def intro: tracked_weight_upd)

lemma rl_work_inv:
  assumes "rl_work y z" "rl_inv y qs"
  shows "\<exists>rs. rl_inv z rs \<and> length rs \<le> length qs \<and> rl_left z < rl_left y"
  using assms
proof (induction rule: rl_work.induct)
  case (take y th t l)
  from rl_take_inv [OF take.prems take.hyps(1,3)] rl_inv_weight [OF take.prems, of th "Executing t"] take.hyps(1) take.prems
  show ?case by (auto simp: rl_left_eq)
next
  case (leave y th l)
  from rl_leave_inv [OF leave.prems leave.hyps(1,3)] rl_inv_weight [OF leave.prems, of th Outside] leave.hyps(1) leave.prems
  show ?case by (auto simp: rl_left_eq)
next
  case (execute y th t)
  from rl_execute_inv [OF execute.prems execute.hyps(1), of "rl_execute (ls_stop y t)"] rl_inv_weight [OF execute.prems, of th Executed] execute.hyps(1) execute.prems
  show ?case by (auto simp: rl_left_eq)
next
  case (executed y th)
  from rl_executed_inv [OF executed.prems executed.hyps(1)] rl_inv_weight [OF executed.prems, of th Looping] executed.hyps(1) executed.prems
  show ?case by (auto simp: rl_left_eq)
qed

interpretation rlw: draining rl_ok rl_work rl_left
proof unfold_locales
  show "rl_ok y \<Longrightarrow> rl_work y z \<Longrightarrow> rl_ok z" "rl_ok y \<Longrightarrow> rl_work y z \<Longrightarrow> rl_left z < rl_left y" for y z
    using rl_work_inv unfolding rl_ok_def by blast+
qed

lemma rl_step_ok: "rl_step y z \<Longrightarrow> rl_ok y \<Longrightarrow> rl_ok z"
proof (induction rule: rl_step.induct)
  case (start t y)
  then obtain qs where I: "rl_inv y qs" by (auto simp: rl_ok_def)
  then have "rl_rep (rl_push (ls_loop y) t) (qs @ [t])" using start by (intro rlq.rep_push) (auto simp: rl_inv_def)
  then have "rl_inv (y\<lparr>ls_loop := rl_push (ls_loop y) t, ls_started := ls_started y @ [t]\<rparr>) (qs @ [t])"
    using I start by (simp add: rl_inv_def rl_push_fields mod_Suc_eq)
  then show ?case by (auto simp: rl_ok_def)
next
  case (enter y th)
  then obtain qs where I: "rl_inv y qs" by (auto simp: rl_ok_def)
  then have T: "tracked (ls_threads y) (ls_taken y) (map fst (ls_completed y))" by (simp add: rl_inv_def)
  have "rl_inv (y\<lparr>ls_threads := (ls_threads y)(th := Looping)\<rparr>) qs"
    using I enter tracked_move [OF T, of th Looping] tracked_busy_upd [OF T, of th Looping] by (simp add: rl_inv_def)
  then show ?case by (auto simp: rl_ok_def)
next
  case (work y z)
  then show ?case using rlw.work_inv by blast
qed (auto simp: rl_ok_def rl_inv_def rl_rep_def rl_finish_def)

lemma rl_reachable_ok: "rl_reachable y \<Longrightarrow> rl_ok y"
  by (induction rule: rl_reachable.induct) (auto intro: rl_step_ok rl_inv_init simp: rl_ok_def [of rl_sys_init])

lemma rl_stopped_justified: "rl_reachable y \<Longrightarrow> (t, Set_stopped) \<in> set (ls_completed y) \<Longrightarrow> ls_stop y t"
proof (induction rule: rl_reachable.induct)
  case init
  then show ?case by (simp add: rl_sys_init_def)
next
  case (step y z)
  from step.hyps(2) step.IH step.prems show ?case
    by (cases rule: rl_step.cases) (auto elim!: rl_work.cases simp: rl_execute_def split: if_splits)
qed

lemma rl_count:
  assumes "rl_inv y qs" "length (ls_started y) \<le> size_max"
  shows "rl_task_count (ls_loop y) = length qs + weight_sum busy (ls_threads y)"
  using assms by (simp add: rl_inv_def tracked_def)

text \<open>
  In a state that the threads cannot leave after \<open>finish\<close>, no thread is inside \<open>run\<close>; while there
  are queued operations, some thread is.
\<close>

lemma rl_work_finishing: "rl_work y z \<Longrightarrow> rl_finishing (ls_loop z) = rl_finishing (ls_loop y)"
proof (induction rule: rl_work.induct)
  case (take y th t l)
  then show ?case using rl_pop_fields(2) [of "ls_loop y"] by simp
next
  case (leave y th l)
  then show ?case using rl_pop_fields(2) [of "ls_loop y"] by simp
qed (simp_all add: rl_executed_def)

lemma rl_works_finishing: "rl_work\<^sup>*\<^sup>* y z \<Longrightarrow> rl_finishing (ls_loop z) = rl_finishing (ls_loop y)"
  by (induction rule: rtranclp_induct) (simp_all add: rl_work_finishing)

lemma rl_stuck_outside:
  assumes "rl_finishing (ls_loop z)" "\<forall>w. \<not> rl_work z w"
  shows "ls_threads z th = Outside"
proof (rule ccontr)
  assume "ls_threads z th \<noteq> Outside"
  then consider "ls_threads z th = Looping" | t where "ls_threads z th = Executing t" | "ls_threads z th = Executed"
    by (cases "ls_threads z th") auto
  then show False
  proof cases
    case 1
    obtain r l where p: "rl_pop (ls_loop z) = (r, l)" by fastforce
    have w: "rl_wake (ls_loop z)" using assms(1) by (simp add: rl_wake_def)
    show ?thesis using assms(2) rl_work.leave [OF 1 w] rl_work.take [OF 1 w] p by (cases r) blast+
  qed (use assms(2) rl_work.execute rl_work.executed in blast)+
qed

lemma rl_manned:
  assumes "rl_work y z" "rl_inv y qs" "qs = [] \<or> (\<exists>th. ls_threads y th \<noteq> Outside)"
  shows "\<exists>rs. rl_inv z rs \<and> (rs = [] \<or> (\<exists>th. ls_threads z th \<noteq> Outside)) \<and> ls_started z = ls_started y"
  using assms
proof (induction rule: rl_work.induct)
  case (take y th t l)
  from rl_take_inv [OF take.prems(1) take.hyps(1,3)] show ?case by (fastforce intro: exI [of _ th])
next
  case (leave y th l)
  from rl_leave_inv [OF leave.prems(1) leave.hyps(1,3)] show ?case by auto
next
  case (execute y th t)
  from rl_execute_inv [OF execute.prems(1) execute.hyps(1), of "rl_execute (ls_stop y t)"] show ?case by (fastforce intro: exI [of _ th])
next
  case (executed y th)
  from rl_executed_inv [OF executed.prems(1) executed.hyps(1)] show ?case by (fastforce intro: exI [of _ th])
qed

lemma rl_works_manned:
  assumes "rl_work\<^sup>*\<^sup>* y z" "rl_inv y qs" "\<exists>th. ls_threads y th \<noteq> Outside"
  shows "\<exists>rs. rl_inv z rs \<and> (rs = [] \<or> (\<exists>th. ls_threads z th \<noteq> Outside)) \<and> ls_started z = ls_started y"
  using assms(1)
proof (induction rule: rtranclp_induct)
  case base
  then show ?case using assms(2,3) by blast
next
  case (step z w)
  then obtain rs where "rl_inv z rs" "rs = [] \<or> (\<exists>th. ls_threads z th \<noteq> Outside)" "ls_started z = ls_started y" by blast
  with rl_manned [OF step.hyps(2)] show ?case by metis
qed

section \<open>Properties\<close>

text \<open>
  C23.  In every reachable state of a run loop that has been given at most \<open>size_max\<close>
  operations, operations are taken in the order in which they were started; every operation
  that was started is still in the queue, is being executed by exactly one thread, or has
  completed, and it completes at most once; it completes with \<open>set_stopped\<close> only if stop was
  requested.  The destructor of the loop calls \<open>std::terminate\<close> exactly if some started
  operation has not completed or some thread has yet to account for one.
\<close>

theorem run_loop_exactly_once:
  assumes "rl_reachable y" "length (ls_started y) \<le> size_max"
  shows "\<exists>qs. rl_rep (ls_loop y) qs \<and> ls_started y = ls_taken y @ qs \<and> distinct (ls_started y) \<and>
           set (ls_taken y) = executing (ls_threads y) \<union> fst ` set (ls_completed y) \<and>
           executing (ls_threads y) \<inter> fst ` set (ls_completed y) = {} \<and> distinct (map fst (ls_completed y)) \<and>
           (\<forall>t th th'. ls_threads y th = Executing t \<and> ls_threads y th' = Executing t \<longrightarrow> th = th') \<and>
           (\<forall>t. (t, Set_stopped) \<in> set (ls_completed y) \<longrightarrow> ls_stop y t) \<and>
           (rl_destructor_terminates (ls_loop y) \<longleftrightarrow>
              set (ls_started y) \<noteq> fst ` set (ls_completed y) \<or> (\<exists>th. ls_threads y th = Executed))"
proof -
  obtain qs where I: "rl_inv y qs" using rl_reachable_ok [OF assms(1)] by (auto simp: rl_ok_def)
  then have T: "tracked (ls_threads y) (ls_taken y) (map fst (ls_completed y))"
    and S: "ls_started y = ls_taken y @ qs" "distinct (ls_taken y @ qs)" by (simp_all add: rl_inv_def)
  have "rl_destructor_terminates (ls_loop y) \<longleftrightarrow> \<not> (qs = [] \<and> weight_sum busy (ls_threads y) = 0)"
    using rl_count [OF I assms(2)] by (auto simp: rl_destructor_terminates_def)
  moreover have "qs = [] \<and> weight_sum busy (ls_threads y) = 0 \<longleftrightarrow>
      set (ls_started y) = fst ` set (ls_completed y) \<and> (\<forall>th. ls_threads y th \<noteq> Executed)" (is "?a \<longleftrightarrow> ?b")
  proof
    assume a: ?a
    then have "set (ls_taken y) = fst ` set (ls_completed y)" "\<forall>th. ls_threads y th = Outside \<or> ls_threads y th = Looping"
      using tracked_quiet [OF T] by auto
    then show ?b using a S(1) by (metis append_Nil2 phase.distinct(5,9))
  next
    assume b: ?b
    have "set qs \<subseteq> fst ` set (ls_completed y)" using b S(1) by auto
    moreover have "fst ` set (ls_completed y) \<subseteq> set (ls_taken y)" using T by (auto simp: tracked_def)
    ultimately have qs: "qs = []" using S(2) by (cases qs) auto
    then have "executing (ls_threads y) \<subseteq> fst ` set (ls_completed y)" using T b S(1) by (auto simp: tracked_def)
    then have "executing (ls_threads y) = {}" using T by (auto simp: tracked_def)
    then have "ls_threads y th = Outside \<or> ls_threads y th = Looping" for th
      using b by (cases "ls_threads y th") (auto simp: executing_def)
    then show ?a using qs tracked_idle(2) [OF T] by blast
  qed
  ultimately show ?thesis using I T S rl_stopped_justified [OF assms(1)] unfolding rl_inv_def tracked_def
    by (intro exI [of _ qs]) auto
qed

text \<open>
  C24.  Once \<open>finish\<close> has been called and some thread is inside \<open>run\<close>, the threads drain the
  loop: whatever way they interleave, they take at most \<open>rl_left\<close> steps, they can always get to
  a state where none of them can take a step, and in every such state all of them have returned
  from \<open>run\<close>, every operation started before has completed, and the loop can be destroyed.
\<close>

theorem run_loop_drains:
  assumes "rl_reachable y" "length (ls_started y) \<le> size_max" "rl_finishing (ls_loop y)" "ls_threads y th \<noteq> Outside"
  shows "(\<forall>n z. (rl_work ^^ n) y z \<longrightarrow> n \<le> rl_left y) \<and>
         (\<exists>z. rl_work\<^sup>*\<^sup>* y z \<and> (\<forall>w. \<not> rl_work z w)) \<and>
         (\<forall>z. rl_work\<^sup>*\<^sup>* y z \<and> (\<forall>w. \<not> rl_work z w) \<longrightarrow>
            (\<forall>th. ls_threads z th = Outside) \<and> fst ` set (ls_completed z) = set (ls_started y) \<and>
            \<not> rl_destructor_terminates (ls_loop z))"
proof (intro conjI allI impI)
  have ok: "rl_ok y" using assms(1) by (rule rl_reachable_ok)
  show "(rl_work ^^ n) y z \<Longrightarrow> n \<le> rl_left y" for n z using rlw.works_bounded [OF _ ok] by fastforce
  show "\<exists>z. rl_work\<^sup>*\<^sup>* y z \<and> (\<forall>w. \<not> rl_work z w)" using rlw.works_end [OF ok] by blast
  fix z
  assume z: "rl_work\<^sup>*\<^sup>* y z \<and> (\<forall>w. \<not> rl_work z w)"
  have out: "ls_threads z th = Outside" for th using z assms(3) rl_works_finishing rl_stuck_outside by blast
  obtain rs where rs: "rl_inv z rs" "rs = []" "ls_started z = ls_started y"
    using ok z rl_works_manned [of y z] assms(4) out unfolding rl_ok_def by metis
  then have T: "tracked (ls_threads z) (ls_taken z) (map fst (ls_completed z))" by (simp add: rl_inv_def)
  show "ls_threads z th = Outside" for th by (rule out)
  show "fst ` set (ls_completed z) = set (ls_started y)"
    using tracked_idle(1) [OF T] out rs by (simp add: rl_inv_def)
  show "\<not> rl_destructor_terminates (ls_loop z)"
    using rl_count [OF rs(1)] rs assms(2) tracked_idle(2) [OF T] out by (simp add: rl_destructor_terminates_def)
qed

section \<open>A concrete run\<close>

text \<open>Two operations are started, stop is requested for the second, \<open>finish\<close> is called and a thread runs the loop.\<close>

definition rl_demo :: rl_sys where
  "rl_demo = \<lparr>ls_loop = rl_finish (rl_push (rl_push rl_new 1) 2), ls_threads = (\<lambda>_. Outside)(7 := Looping),
     ls_stop = (\<lambda>_. False)(2 := True), ls_started = [1, 2], ls_taken = [], ls_completed = []\<rparr>"

lemma rl_demo_reachable: "rl_reachable rl_demo"
proof -
  have "rl_reachable (rl_sys_init\<lparr>ls_loop := rl_push rl_new 1, ls_started := [1]\<rparr>)"
    using rl_reachable.step [OF rl_reachable.init rl_step.start [of 1]] by (simp add: rl_sys_init_def)
  from rl_reachable.step [OF this rl_step.start [of 2]]
  have "rl_reachable (rl_sys_init\<lparr>ls_loop := rl_push (rl_push rl_new 1) 2, ls_started := [1, 2]\<rparr>)" by (simp add: rl_sys_init_def)
  from rl_reachable.step [OF rl_reachable.step [OF rl_reachable.step [OF this rl_step.stop [of _ 2]] rl_step.enter [of _ 7]] rl_step.finish]
  show ?thesis by (simp add: rl_sys_init_def rl_demo_def)
qed

theorem run_loop_exactly_once_witness:
  "\<exists>qs. rl_rep (ls_loop rl_demo) qs \<and> ls_started rl_demo = ls_taken rl_demo @ qs \<and> rl_destructor_terminates (ls_loop rl_demo)"
  using run_loop_exactly_once [OF rl_demo_reachable] by (auto simp: rl_demo_def size_max_def)

theorem run_loop_drains_witness:
  "\<exists>z. rl_work\<^sup>*\<^sup>* rl_demo z \<and> fst ` set (ls_completed z) = {1, 2} \<and> \<not> rl_destructor_terminates (ls_loop z)"
proof -
  have "length (ls_started rl_demo) \<le> size_max" "rl_finishing (ls_loop rl_demo)" "ls_threads rl_demo 7 \<noteq> Outside" "set (ls_started rl_demo) = {1, 2}"
    by (simp_all add: rl_demo_def size_max_def rl_finish_def)
  then show ?thesis using run_loop_drains [OF rl_demo_reachable, of 7] by metis
qed

end
