(* ===== verification/Thread_Pool.thy ===== *)
theory Thread_Pool
  imports Progress
begin

text \<open>
  \<open>forge::static_thread_pool\<close> (\<open>include/forge/static_thread_pool.hpp\<close>): a bounded queue of tasks
  shared by a fixed set of workers, and the schedule operation whose task completes the receiver.

  A step of the system is one critical section of the pool's mutex or the execution of one task.
  The pool may be shut down and operations may be started at any point, from any thread, also
  from inside a task.
\<close>

section \<open>The pool state\<close>

record pool =
  p_queue :: "addr list"
  p_queue_capacity :: "nat option"
  p_stop :: bool
  p_active :: nat

definition pool_new :: "nat option \<Rightarrow> pool" where
  "pool_new cap = \<lparr>p_queue = [], p_queue_capacity = cap, p_stop = False, p_active = 0\<rparr>"

definition pool_shutdown :: "pool \<Rightarrow> pool" where
  "pool_shutdown p = p\<lparr>p_stop := True\<rparr>"

text \<open>What \<open>__wait_idle\<close> waits for.\<close>

definition pool_idle :: "pool \<Rightarrow> bool" where
  "pool_idle p \<longleftrightarrow> p_queue p = [] \<and> p_active p = 0"

text \<open>
  \<open>__submit\<close>: \<open>alloc\<close> says whether the storage of the task and of its place in the queue can be
  allocated; otherwise an exception leaves the function, which is \<open>None\<close>.
\<close>

definition pool_submit :: "bool \<Rightarrow> addr \<Rightarrow> pool \<Rightarrow> bool option \<times> pool" where
  "pool_submit alloc t p =
     (if p_stop p then (Some False, p)
      else if (case p_queue_capacity p of None \<Rightarrow> False | Some n \<Rightarrow> length (p_queue p) \<ge> n) then (Some False, p)
      else if \<not> alloc then (None, p)
      else (Some True, p\<lparr>p_queue := p_queue p @ [t], p_active := (p_active p + 1) mod (size_max + 1)\<rparr>))"

text \<open>\<open>__run\<close>: the condition a worker waits for, the task it takes, and the end of an iteration.\<close>

definition pool_wake :: "pool \<Rightarrow> bool" where
  "pool_wake p \<longleftrightarrow> p_queue p \<noteq> [] \<or> p_stop p"

definition pool_pop :: "pool \<Rightarrow> ptr \<times> pool" where
  "pool_pop p = (case p_queue p of [] \<Rightarrow> (None, p) | t # ts \<Rightarrow> (Some t, p\<lparr>p_queue := ts\<rparr>))"

definition pool_executed :: "pool \<Rightarrow> pool" where
  "pool_executed p = p\<lparr>p_active := (p_active p + size_max) mod (size_max + 1)\<rparr>"

text \<open>
  \<open>start\<close> of a schedule operation: the signal it sends before it returns, if any.  \<open>stop\<close> is what
  the receiver's stop token says.
\<close>

definition pool_start :: "bool \<Rightarrow> bool \<Rightarrow> addr \<Rightarrow> pool \<Rightarrow> outcome option \<times> pool" where
  "pool_start stop alloc t p =
     (if stop then (Some Set_stopped, p)
      else case pool_submit alloc t p of
        (None, p1) \<Rightarrow> (Some Set_stopped, p1)
      | (Some False, p1) \<Rightarrow> (Some Set_stopped, p1)
      | (Some True, p1) \<Rightarrow> (None, p1))"

text \<open>
  The constructor: \<open>fails\<close> is the index of the worker whose launch throws, if there is one.  When
  a launch fails, the pool is shut down, the workers launched so far are joined and the exception
  leaves the constructor.  The result says whether the constructor succeeds, the state of
  the pool and the number of workers.
\<close>

definition pool_construct :: "nat option \<Rightarrow> nat \<Rightarrow> nat option \<Rightarrow> bool \<times> pool \<times> nat" where
  "pool_construct cap thread_count fails =
     (let n = (if thread_count = 0 then 1 else thread_count)
      in case fails of
           Some i \<Rightarrow> (if i < n then (False, pool_shutdown (pool_new cap), i) else (True, pool_new cap, n))
         | None \<Rightarrow> (True, pool_new cap, n))"

text \<open>Workers are numbered in the order in which they are launched.\<close>

definition called_from_worker :: "nat \<Rightarrow> addr \<Rightarrow> bool" where
  "called_from_worker n current \<longleftrightarrow> current < n"

text \<open>\<open>wait\<close> returns when this holds.\<close>

definition pool_wait_returns :: "nat \<Rightarrow> addr \<Rightarrow> pool \<Rightarrow> bool" where
  "pool_wait_returns n current p \<longleftrightarrow> called_from_worker n current \<or> pool_idle p"

text \<open>
  The destructor shuts the pool down and then, for each worker, joins it, unless it is called by a
  worker, in which case it detaches all of them.
\<close>

datatype thread_end = Join | Detach

definition pool_destroy :: "nat \<Rightarrow> addr \<Rightarrow> pool \<Rightarrow> pool \<times> thread_end list" where
  "pool_destroy n current p =
     (pool_shutdown p, map (\<lambda>_. if called_from_worker n current then Detach else Join) [0..<n])"

section \<open>The system\<close>

record pool_sys =
  ps_pool :: pool
  ps_workers :: nat
  ps_threads :: "addr \<Rightarrow> phase"
  ps_started :: "addr list"
  ps_accepted :: "addr list"
  ps_taken :: "addr list"
  ps_values :: "addr list"
  ps_stopped :: "addr list"

definition pool_sys_of :: "pool \<Rightarrow> nat \<Rightarrow> pool_sys" where
  "pool_sys_of p n = \<lparr>ps_pool = p, ps_workers = n, ps_threads = (\<lambda>th. if th < n then Looping else Outside),
     ps_started = [], ps_accepted = [], ps_taken = [], ps_values = [], ps_stopped = []\<rparr>"

inductive pool_work :: "pool_sys \<Rightarrow> pool_sys \<Rightarrow> bool" where
  take: "ps_threads y th = Looping \<Longrightarrow> pool_wake (ps_pool y) \<Longrightarrow> pool_pop (ps_pool y) = (Some t, p) \<Longrightarrow>
     pool_work y (y\<lparr>ps_pool := p, ps_threads := (ps_threads y)(th := Executing t), ps_taken := ps_taken y @ [t]\<rparr>)"
| leave: "ps_threads y th = Looping \<Longrightarrow> pool_wake (ps_pool y) \<Longrightarrow> pool_pop (ps_pool y) = (None, p) \<Longrightarrow>
     pool_work y (y\<lparr>ps_pool := p, ps_threads := (ps_threads y)(th := Outside)\<rparr>)"
| execute: "ps_threads y th = Executing t \<Longrightarrow>
     pool_work y (y\<lparr>ps_threads := (ps_threads y)(th := Executed), ps_values := ps_values y @ [t]\<rparr>)"
| executed: "ps_threads y th = Executed \<Longrightarrow>
     pool_work y (y\<lparr>ps_pool := pool_executed (ps_pool y), ps_threads := (ps_threads y)(th := Looping)\<rparr>)"

inductive pool_step :: "pool_sys \<Rightarrow> pool_sys \<Rightarrow> bool" where
  refuse: "t \<notin> set (ps_started y) \<Longrightarrow> pool_start stop alloc t (ps_pool y) = (Some Set_stopped, p) \<Longrightarrow>
     pool_step y (y\<lparr>ps_pool := p, ps_started := ps_started y @ [t], ps_stopped := ps_stopped y @ [t]\<rparr>)"
| accept: "t \<notin> set (ps_started y) \<Longrightarrow> pool_start stop alloc t (ps_pool y) = (None, p) \<Longrightarrow>
     pool_step y (y\<lparr>ps_pool := p, ps_started := ps_started y @ [t], ps_accepted := ps_accepted y @ [t]\<rparr>)"
| shutdown: "pool_step y (y\<lparr>ps_pool := pool_shutdown (ps_pool y)\<rparr>)"
| destroy: "pool_destroy (ps_workers y) current (ps_pool y) = (p, ends) \<Longrightarrow> pool_step y (y\<lparr>ps_pool := p\<rparr>)"
| work: "pool_work y z \<Longrightarrow> pool_step y z"

inductive pool_reachable :: "nat option \<Rightarrow> nat \<Rightarrow> nat option \<Rightarrow> pool_sys \<Rightarrow> bool" for cap n fails where
  init: "pool_construct cap n fails = (b, p, k) \<Longrightarrow> pool_reachable cap n fails (pool_sys_of p k)"
| step: "pool_reachable cap n fails y \<Longrightarrow> pool_step y z \<Longrightarrow> pool_reachable cap n fails z"

section \<open>Invariant\<close>

definition pool_inv :: "pool_sys \<Rightarrow> bool" where
  "pool_inv y \<longleftrightarrow>
     ps_accepted y = ps_taken y @ p_queue (ps_pool y) \<and> distinct (ps_taken y @ p_queue (ps_pool y)) \<and>
     set (ps_started y) = set (ps_accepted y) \<union> set (ps_stopped y) \<and> set (ps_accepted y) \<inter> set (ps_stopped y) = {} \<and>
     distinct (ps_stopped y) \<and> tracked (ps_threads y) (ps_taken y) (ps_values y) \<and>
     p_active (ps_pool y) = (length (p_queue (ps_pool y)) + weight_sum busy (ps_threads y)) mod (size_max + 1) \<and>
     (\<forall>n. p_queue_capacity (ps_pool y) = Some n \<longrightarrow> length (p_queue (ps_pool y)) \<le> n) \<and>
     (\<forall>th<ps_workers y. ps_threads y th = Outside \<longrightarrow> p_stop (ps_pool y) \<and> p_queue (ps_pool y) = []) \<and>
     (\<forall>th\<ge>ps_workers y. ps_threads y th = Outside)"

definition pool_left :: "pool_sys \<Rightarrow> nat" where
  "pool_left y = 3 * length (p_queue (ps_pool y)) + weight_sum phase_weight (ps_threads y)"

lemma pool_inv_tracked: "pool_inv y \<Longrightarrow> tracked (ps_threads y) (ps_taken y) (ps_values y)"
  by (simp add: pool_inv_def)

lemma pool_inv_workers:
  "pool_inv y \<Longrightarrow> ps_threads y th \<noteq> Outside \<Longrightarrow> th < ps_workers y"
  by (auto simp: pool_inv_def not_less [symmetric])

lemma tracked_fresh_workers: "tracked (\<lambda>th. if th < n then Looping else Outside) [] []"
proof -
  have "{th. phase_weight (if th < n then Looping else Outside) \<noteq> 0} = {..<n}" by auto
  moreover have "weight_sum busy (\<lambda>th. if th < n then Looping else Outside) = 0"
    unfolding weight_sum_def by (auto intro!: sum.neutral)
  ultimately show ?thesis by (simp add: tracked_def executing_def)
qed

lemma pool_inv_init: "pool_construct cap n fails = (b, p, k) \<Longrightarrow> pool_inv (pool_sys_of p k)"
  using tracked_fresh_workers [of k] tracked_idle(2) [OF tracked_fresh_workers [of k]]
  by (auto simp: pool_construct_def pool_inv_def pool_sys_of_def pool_new_def pool_shutdown_def Let_def
      split: option.splits if_splits)

lemma pool_take_inv:
  assumes I: "pool_inv y" and th: "ps_threads y th = Looping" and p: "pool_pop (ps_pool y) = (Some t, p)"
  shows "pool_inv (y\<lparr>ps_pool := p, ps_threads := (ps_threads y)(th := Executing t), ps_taken := ps_taken y @ [t]\<rparr>)"
proof -
  note T = pool_inv_tracked [OF I]
  obtain ts where q: "p_queue (ps_pool y) = t # ts" "p = (ps_pool y)\<lparr>p_queue := ts\<rparr>"
    using p by (auto simp: pool_pop_def split: list.splits)
  have new: "t \<notin> set (ps_taken y)" using I q by (simp add: pool_inv_def)
  show ?thesis using I q tracked_take [OF T th new] tracked_busy_upd [OF T, of th "Executing t"] th pool_inv_workers [OF I, of th]
    by (auto simp: pool_inv_def split: option.splits)
qed

lemma pool_leave_inv:
  assumes I: "pool_inv y" and th: "ps_threads y th = Looping" and w: "pool_wake (ps_pool y)" and p: "pool_pop (ps_pool y) = (None, p)"
  shows "pool_inv (y\<lparr>ps_pool := p, ps_threads := (ps_threads y)(th := Outside)\<rparr>)"
proof -
  note T = pool_inv_tracked [OF I]
  have q: "p_queue (ps_pool y) = []" "p = ps_pool y" using p by (auto simp: pool_pop_def split: list.splits)
  then have "p_stop (ps_pool y)" using w by (simp add: pool_wake_def)
  then show ?thesis using I q tracked_move [OF T, of th Outside] tracked_busy_upd [OF T, of th Outside] th
    by (auto simp: pool_inv_def)
qed

lemma pool_execute_inv:
  assumes I: "pool_inv y" and th: "ps_threads y th = Executing t"
  shows "pool_inv (y\<lparr>ps_threads := (ps_threads y)(th := Executed), ps_values := ps_values y @ [t]\<rparr>)"
proof -
  note T = pool_inv_tracked [OF I]
  show ?thesis using I tracked_execute [OF T th] tracked_busy_upd [OF T, of th Executed] th pool_inv_workers [OF I, of th]
    by (auto simp: pool_inv_def)
qed

lemma pool_executed_inv:
  assumes I: "pool_inv y" and th: "ps_threads y th = Executed"
  shows "pool_inv (y\<lparr>ps_pool := pool_executed (ps_pool y), ps_threads := (ps_threads y)(th := Looping)\<rparr>)"
proof -
  note T = pool_inv_tracked [OF I]
  have w: "weight_sum busy (ps_threads y) = weight_sum busy ((ps_threads y)(th := Looping)) + 1"
    using tracked_busy_upd [OF T, of th Looping] th by simp
  show ?thesis using I w tracked_move [OF T, of th Looping] th pool_inv_workers [OF I, of th]
      dec_mod [of "length (p_queue (ps_pool y)) + weight_sum busy (ps_threads y)"]
    by (auto simp: pool_inv_def pool_executed_def)
qed

lemma pool_work_inv:
  assumes "pool_work y z" "pool_inv y"
  shows "pool_inv z \<and> pool_left z < pool_left y"
  using assms
proof (induction rule: pool_work.induct)
  case (take y th t p)
  from tracked_weight_upd [OF pool_inv_tracked [OF take.prems], of th "Executing t"] take pool_take_inv [OF take.prems]
  show ?case by (auto simp: pool_left_def pool_pop_def split: list.splits)
next
  case (leave y th p)
  from tracked_weight_upd [OF pool_inv_tracked [OF leave.prems], of th Outside] leave pool_leave_inv [OF leave.prems]
  show ?case by (auto simp: pool_left_def pool_pop_def split: list.splits)
next
  case (execute y th t)
  from tracked_weight_upd [OF pool_inv_tracked [OF execute.prems], of th Executed] execute pool_execute_inv [OF execute.prems]
  show ?case by (auto simp: pool_left_def)
next
  case (executed y th)
  from tracked_weight_upd [OF pool_inv_tracked [OF executed.prems], of th Looping] executed pool_executed_inv [OF executed.prems]
  show ?case by (auto simp: pool_left_def pool_executed_def)
qed

interpretation pw: draining pool_inv pool_work pool_left
  by unfold_locales (use pool_work_inv in blast)+

text \<open>What starting an operation does, on every path.\<close>

lemma pool_start_cases:
  "pool_start stop alloc t p =
     (if \<not> stop \<and> \<not> p_stop p \<and> (\<forall>n. p_queue_capacity p = Some n \<longrightarrow> length (p_queue p) < n) \<and> alloc
      then (None, p\<lparr>p_queue := p_queue p @ [t], p_active := (p_active p + 1) mod (size_max + 1)\<rparr>)
      else (Some Set_stopped, p))"
  by (auto simp: pool_start_def pool_submit_def split: option.splits)

lemma pool_step_inv: "pool_step y z \<Longrightarrow> pool_inv y \<Longrightarrow> pool_inv z"
proof (induction rule: pool_step.induct)
  case (refuse t y stop alloc p)
  then have "p = ps_pool y" by (simp add: pool_start_cases split: if_splits)
  then show ?case using refuse by (auto simp: pool_inv_def)
next
  case (accept t y stop alloc p)
  then show ?case by (auto simp: pool_inv_def pool_start_cases mod_Suc_eq split: if_splits option.splits)
next
  case (work y z)
  then show ?case using pw.work_inv by blast
qed (auto simp: pool_inv_def pool_shutdown_def pool_destroy_def)

lemma pool_reachable_inv: "pool_reachable cap n fails y \<Longrightarrow> pool_inv y"
  by (induction rule: pool_reachable.induct) (auto intro: pool_step_inv pool_inv_init)

section \<open>Properties\<close>

lemma pool_count:
  assumes "pool_inv y" "length (ps_accepted y) \<le> size_max"
  shows "p_active (ps_pool y) = length (p_queue (ps_pool y)) + weight_sum busy (ps_threads y)"
  using assms by (simp add: pool_inv_def tracked_def)

lemma pool_idle_iff:
  assumes "pool_inv y" "length (ps_accepted y) \<le> size_max"
  shows "pool_idle (ps_pool y) \<longleftrightarrow>
     set (ps_values y) = set (ps_accepted y) \<and> (\<forall>th. ps_threads y th = Outside \<or> ps_threads y th = Looping)" (is "?a \<longleftrightarrow> ?b")
proof
  note T = pool_inv_tracked [OF assms(1)]
  assume ?a
  then have "p_queue (ps_pool y) = []" "weight_sum busy (ps_threads y) = 0"
    using pool_count [OF assms] by (auto simp: pool_idle_def)
  then show ?b using tracked_quiet [OF T] assms(1) by (auto simp: pool_inv_def)
next
  note T = pool_inv_tracked [OF assms(1)]
  assume b: ?b
  then have "set (ps_taken y) = set (ps_values y)" "weight_sum busy (ps_threads y) = 0" using tracked_idle [OF T] by auto
  moreover from this b have "p_queue (ps_pool y) = []" using assms(1) by (cases "p_queue (ps_pool y)") (auto simp: pool_inv_def)
  ultimately show ?a using pool_count [OF assms] by (simp add: pool_idle_def)
qed

text \<open>
  C25.  In every reachable state of a pool that has accepted at most \<open>size_max\<close> operations: every
  started operation was either refused, in which case its receiver got \<open>set_stopped\<close> once, or
  accepted; accepted operations are taken by the workers in the order in which they were
  accepted, and each is in the queue, is being executed by exactly one worker or its receiver
  got \<open>set_value\<close> once.  The queue never exceeds its capacity, and \<open>wait\<close>, called by a
  thread that is not a worker, returns only when every accepted operation has completed.
\<close>

theorem pool_exactly_once:
  assumes "pool_reachable cap n fails y" "length (ps_accepted y) \<le> size_max" "\<not> called_from_worker (ps_workers y) current"
  shows "set (ps_started y) = set (ps_accepted y) \<union> set (ps_stopped y) \<and> set (ps_accepted y) \<inter> set (ps_stopped y) = {} \<and>
         distinct (ps_stopped y) \<and> distinct (ps_accepted y) \<and> distinct (ps_values y) \<and>
         ps_accepted y = ps_taken y @ p_queue (ps_pool y) \<and>
         set (ps_taken y) = executing (ps_threads y) \<union> set (ps_values y) \<and> executing (ps_threads y) \<inter> set (ps_values y) = {} \<and>
         (\<forall>t th th'. ps_threads y th = Executing t \<and> ps_threads y th' = Executing t \<longrightarrow> th = th') \<and>
         (\<forall>c. p_queue_capacity (ps_pool y) = Some c \<longrightarrow> length (p_queue (ps_pool y)) \<le> c) \<and>
         (pool_wait_returns (ps_workers y) current (ps_pool y) \<longrightarrow> set (ps_values y) = set (ps_accepted y))"
proof -
  have I: "pool_inv y" using assms(1) by (rule pool_reachable_inv)
  have "pool_wait_returns (ps_workers y) current (ps_pool y) \<longrightarrow> set (ps_values y) = set (ps_accepted y)"
    using assms(3) pool_idle_iff [OF I assms(2)] by (simp add: pool_wait_returns_def)
  then show ?thesis using I unfolding pool_inv_def tracked_def by (auto simp del: set_append)
qed

text \<open>In a state no worker can leave, the queue is empty and no worker is busy; after shutdown all have exited.\<close>

lemma pool_stuck:
  assumes I: "pool_inv z" and st: "\<forall>w. \<not> pool_work z w" and n: "0 < ps_workers z"
  shows "p_queue (ps_pool z) = []" "ps_threads z th = Outside \<or> ps_threads z th = Looping"
    "p_stop (ps_pool z) \<Longrightarrow> ps_threads z th = Outside"
proof -
  have P: "\<exists>r p. pool_pop (ps_pool z) = (r, p)" by (rule surj_pair)
  have idle: "ps_threads z th = Outside \<or> ps_threads z th = Looping \<and> \<not> pool_wake (ps_pool z)" for th
  proof (cases "ps_threads z th")
    case Looping
    then show ?thesis using st P pool_work.take pool_work.leave by (metis not_None_eq)
  qed (use st pool_work.execute pool_work.executed in blast)+
  then show "ps_threads z th = Outside \<or> ps_threads z th = Looping" by blast
  show "p_stop (ps_pool z) \<Longrightarrow> ps_threads z th = Outside" using idle [of th] by (auto simp: pool_wake_def)
  show "p_queue (ps_pool z) = []"
  proof (cases "ps_threads z 0 = Outside")
    case True
    then show ?thesis using I n by (auto simp: pool_inv_def)
  next
    case False
    then show ?thesis using idle [of 0] by (simp add: pool_wake_def)
  qed
qed

lemma pool_work_keeps: "pool_work y z \<Longrightarrow> ps_accepted z = ps_accepted y \<and> ps_workers z = ps_workers y \<and> p_stop (ps_pool z) = p_stop (ps_pool y)"
  by (induction rule: pool_work.induct) (auto simp: pool_pop_def pool_executed_def split: list.splits)

lemma pool_works_keep: "pool_work\<^sup>*\<^sup>* y z \<Longrightarrow> ps_accepted z = ps_accepted y \<and> ps_workers z = ps_workers y \<and> p_stop (ps_pool z) = p_stop (ps_pool y)"
  by (induction rule: rtranclp_induct) (simp_all add: pool_work_keeps)

lemma pool_step_workers: "pool_step y z \<Longrightarrow> ps_workers z = ps_workers y"
  by (induction rule: pool_step.induct) (simp_all add: pool_work_keeps)

lemma pool_reachable_workers: "pool_reachable cap n fails y \<Longrightarrow> pool_construct cap n fails = (b, p, k) \<Longrightarrow> ps_workers y = k"
  by (induction rule: pool_reachable.induct) (auto simp: pool_sys_of_def pool_step_workers)

text \<open>
  C26.  The workers of a pool whose constructor succeeded always finish the work: whatever way
  they interleave, they take at most \<open>pool_left\<close> steps without new operations, and in every state
  where no worker can take a step, every accepted operation has completed with \<open>set_value\<close> and
  \<open>wait\<close> returns; if the pool has been shut down, every worker has left \<open>__run\<close>, so that the
  destructor's \<open>join\<close>s return; the destructor joins exactly when it is not called by a worker, and
  once it has begun a new operation gets \<open>set_stopped\<close> at once.
\<close>

theorem pool_drains:
  assumes "pool_reachable cap n fails y" "pool_construct cap n fails = (True, p, k)" "length (ps_accepted y) \<le> size_max"
  shows "(\<forall>m z. (pool_work ^^ m) y z \<longrightarrow> m \<le> pool_left y) \<and>
         (\<exists>z. pool_work\<^sup>*\<^sup>* y z \<and> (\<forall>w. \<not> pool_work z w)) \<and>
         (\<forall>z. pool_work\<^sup>*\<^sup>* y z \<and> (\<forall>w. \<not> pool_work z w) \<longrightarrow>
            set (ps_values z) = set (ps_accepted y) \<and> (\<forall>current. pool_wait_returns k current (ps_pool z)) \<and>
            (p_stop (ps_pool y) \<longrightarrow> (\<forall>th. ps_threads z th = Outside))) \<and>
         (\<forall>current stop alloc t. pool_start stop alloc t (fst (pool_destroy k current (ps_pool y))) = (Some Set_stopped, pool_shutdown (ps_pool y)) \<and>
            (Join \<in> set (snd (pool_destroy k current (ps_pool y))) \<longleftrightarrow> \<not> called_from_worker k current))"
proof (intro conjI allI impI)
  have I: "pool_inv y" using assms(1) by (rule pool_reachable_inv)
  show "(pool_work ^^ m) y z \<Longrightarrow> m \<le> pool_left y" for m z using pw.works_bounded [OF _ I] by fastforce
  show "\<exists>z. pool_work\<^sup>*\<^sup>* y z \<and> (\<forall>w. \<not> pool_work z w)" using pw.works_end [OF I] by blast
  have k: "0 < k" "ps_workers y = k"
    using assms(2) pool_reachable_workers [OF assms(1,2)] by (auto simp: pool_construct_def Let_def split: option.splits if_splits)
  fix z
  assume z: "pool_work\<^sup>*\<^sup>* y z \<and> (\<forall>w. \<not> pool_work z w)"
  then have Iz: "pool_inv z" using pw.works_inv I by blast
  have keep: "ps_accepted z = ps_accepted y" "ps_workers z = k" "p_stop (ps_pool z) = p_stop (ps_pool y)"
    using pool_works_keep z k(2) by auto
  note S = pool_stuck [OF Iz, unfolded keep(2), OF conjunct2 [OF z] k(1)]
  show vals: "set (ps_values z) = set (ps_accepted y)"
    using tracked_idle(1) [OF pool_inv_tracked [OF Iz]] S(1,2) Iz keep(1) by (simp add: pool_inv_def)
  show "pool_wait_returns k current (ps_pool z)" for current
    using pool_idle_iff [OF Iz] assms(3) keep(1) vals S(2) by (simp add: pool_wait_returns_def)
  show "p_stop (ps_pool y) \<Longrightarrow> ps_threads z th = Outside" for th using S(3) keep(3) by simp
next
  show "pool_start stop alloc t (fst (pool_destroy k current (ps_pool y))) = (Some Set_stopped, pool_shutdown (ps_pool y))" for current stop alloc t
    by (simp add: pool_start_cases pool_destroy_def pool_shutdown_def)
  have "0 < k" using assms(2) by (auto simp: pool_construct_def Let_def split: option.splits if_splits)
  then show "Join \<in> set (snd (pool_destroy k current (ps_pool y))) \<longleftrightarrow> \<not> called_from_worker k current" for current
    by (auto simp: pool_destroy_def)
qed

section \<open>A concrete pool\<close>

text \<open>One worker, room for one task: the second operation is refused.\<close>

lemma pool_demo_constructed: "pool_construct (Some 1) 0 None = (True, pool_new (Some 1), 1)"
  by (simp add: pool_construct_def)

definition pool_demo :: pool_sys where
  "pool_demo = (pool_sys_of ((pool_new (Some 1))\<lparr>p_queue := [5], p_active := 1\<rparr>) 1)
     \<lparr>ps_started := [5, 6], ps_accepted := [5], ps_stopped := [6]\<rparr>"

lemma pool_demo_reachable: "pool_reachable (Some 1) 0 None pool_demo"
proof -
  have 1: "pool_start False True 5 (ps_pool (pool_sys_of (pool_new (Some 1)) 1)) = (None, (pool_new (Some 1))\<lparr>p_queue := [5], p_active := 1\<rparr>)"
    by (simp add: pool_start_cases pool_sys_of_def pool_new_def size_max_def)
  have "5 \<notin> set (ps_started (pool_sys_of (pool_new (Some 1)) 1))" by (simp add: pool_sys_of_def)
  from pool_reachable.step [OF pool_reachable.init [OF pool_demo_constructed] pool_step.accept [OF this 1]]
  have "pool_reachable (Some 1) 0 None ((pool_sys_of ((pool_new (Some 1))\<lparr>p_queue := [5], p_active := 1\<rparr>) 1)\<lparr>ps_started := [5], ps_accepted := [5]\<rparr>)"
    (is "pool_reachable _ _ _ ?y") by (simp add: pool_sys_of_def)
  moreover have "pool_start False True 6 (ps_pool ?y) = (Some Set_stopped, ps_pool ?y)" "6 \<notin> set (ps_started ?y)"
    by (simp_all add: pool_start_cases pool_sys_of_def pool_new_def)
  ultimately have "pool_reachable (Some 1) 0 None (?y\<lparr>ps_pool := ps_pool ?y, ps_started := ps_started ?y @ [6], ps_stopped := ps_stopped ?y @ [6]\<rparr>)"
    using pool_reachable.step pool_step.refuse by blast
  then show ?thesis by (simp add: pool_demo_def pool_sys_of_def)
qed

theorem pool_exactly_once_witness:
  "distinct (ps_values pool_demo) \<and> ps_accepted pool_demo = ps_taken pool_demo @ p_queue (ps_pool pool_demo) \<and>
   \<not> pool_wait_returns (ps_workers pool_demo) 9 (ps_pool pool_demo)"
proof -
  have "length (ps_accepted pool_demo) \<le> size_max" "\<not> called_from_worker (ps_workers pool_demo) 9" "set (ps_values pool_demo) \<noteq> set (ps_accepted pool_demo)"
    by (simp_all add: pool_demo_def pool_sys_of_def called_from_worker_def size_max_def)
  then show ?thesis using pool_exactly_once [OF pool_demo_reachable, of 9] by blast
qed

theorem pool_drains_witness:
  "\<exists>z. pool_work\<^sup>*\<^sup>* pool_demo z \<and> set (ps_values z) = {5} \<and> pool_wait_returns 1 9 (ps_pool z)"
proof -
  have "length (ps_accepted pool_demo) \<le> size_max" "set (ps_accepted pool_demo) = {5}"
    by (simp_all add: pool_demo_def size_max_def)
  then show ?thesis using pool_drains [OF pool_demo_reachable pool_demo_constructed] by metis
qed

end
