(* ===== verification/Async_Scope.thy ===== *)
theory Async_Scope
  imports Progress
begin

text \<open>
  \<open>forge::async_scope\<close> (\<open>include/forge/async_scope.hpp\<close>): senders are spawned into a scope as
  reference-counted nodes; \<open>wait\<close>, and with it the destructor, is a barrier for all of them.

  A node is referenced by the thread that starts its operation and by the completion of the
  operation, which may happen inside \<open>start\<close>, on another thread while \<open>start\<close> has not returned,
  or later.  A step is one critical section of the scope or one atomic operation on a node.
  Exceptions are named by addresses, an \<open>exception_ptr\<close> is a possibly null pointer.
\<close>

section \<open>The state of a scope\<close>

record ascope =
  as_active :: nat
  as_closed :: bool
  as_first_error :: ptr
  as_stop :: bool

definition as_new :: ascope where
  "as_new = \<lparr>as_active = 0, as_closed = False, as_first_error = None, as_stop = False\<rparr>"

definition as_try_acquire :: "ascope \<Rightarrow> bool \<times> ascope" where
  "as_try_acquire s =
     (if as_closed s then (False, s) else (True, s\<lparr>as_active := (as_active s + 1) mod (size_max + 1)\<rparr>))"

definition as_complete :: "ptr \<Rightarrow> ascope \<Rightarrow> ascope" where
  "as_complete error s =
     (let s1 = (if error \<noteq> None \<and> as_first_error s = None then s\<lparr>as_first_error := error\<rparr> else s)
      in if as_active s1 > 0 then s1\<lparr>as_active := as_active s1 - 1\<rparr> else s1)"

definition as_close :: "ascope \<Rightarrow> ascope" where
  "as_close s = s\<lparr>as_closed := True\<rparr>"

definition as_request_stop :: "ascope \<Rightarrow> ascope" where
  "as_request_stop s = s\<lparr>as_stop := True\<rparr>"

definition as_shutdown :: "ascope \<Rightarrow> ascope" where
  "as_shutdown s = as_request_stop (as_close s)"

text \<open>What \<open>wait\<close> waits for.\<close>

definition as_wait_returns :: "ascope \<Rightarrow> bool" where
  "as_wait_returns s \<longleftrightarrow> as_active s = 0"

section \<open>Nodes\<close>

record anode =
  an_refs :: nat
  an_completed :: bool
  an_error :: ptr

definition an_new :: anode where
  "an_new = \<lparr>an_refs = 1, an_completed = False, an_error = None\<rparr>"

definition an_add_ref :: "anode \<Rightarrow> anode" where
  "an_add_ref d = d\<lparr>an_refs := an_refs d + 1\<rparr>"

text \<open>\<open>release\<close>: whether this was the last reference, in which case the node destroys itself.\<close>

definition an_release :: "anode \<Rightarrow> bool \<times> anode" where
  "an_release d = (an_refs d = 1, d\<lparr>an_refs := an_refs d - 1\<rparr>)"

text \<open>\<open>complete\<close> up to its call of \<open>release\<close>: whether this call claims the completion.\<close>

definition an_complete :: "ptr \<Rightarrow> anode \<Rightarrow> bool \<times> anode" where
  "an_complete error d =
     (if an_completed d then (False, d) else (True, d\<lparr>an_completed := True, an_error := error\<rparr>))"

text \<open>\<open>destroy_self\<close>: the error that it hands to the scope once the node is gone.\<close>

definition an_destroy_self :: "anode \<Rightarrow> ptr" where
  "an_destroy_self d = an_error d"

text \<open>
  The receiver of a spawned operation.  An error that is not an \<open>exception_ptr\<close> is copied into one;
  \<open>Err_value x (Some y)\<close> is a value whose copy throws \<open>y\<close>.
\<close>

datatype async_error = Err_ptr ptr | Err_value addr ptr

datatype async_signal = Recv_value | Recv_error async_error | Recv_stopped

fun error_to_exception_ptr :: "async_error \<Rightarrow> ptr" where
  "error_to_exception_ptr (Err_ptr p) = p"
| "error_to_exception_ptr (Err_value x None) = Some x"
| "error_to_exception_ptr (Err_value x (Some y)) = Some y"

fun async_receive :: "async_signal \<Rightarrow> anode \<Rightarrow> bool \<times> anode" where
  "async_receive Recv_value d = an_complete None d"
| "async_receive (Recv_error e) d = an_complete (error_to_exception_ptr e) d"
| "async_receive Recv_stopped d = an_complete None d"

section \<open>The system\<close>

text \<open>The life of a spawned sender, from \<open>try_acquire\<close> to the publication of its completion.\<close>

datatype life = Unborn | Building | Alive anode | Publishing ptr | Published ptr

text \<open>
  \<open>av_starting n\<close>: a thread is inside \<open>start\<close> of node \<open>n\<close> and will release it;
  \<open>av_releasing n\<close>: a completion of \<open>n\<close> has been claimed and will release it.
\<close>

record as_sys =
  av_scope :: ascope
  av_life :: "addr \<Rightarrow> life"
  av_starting :: "addr \<Rightarrow> bool"
  av_releasing :: "addr \<Rightarrow> bool"
  av_accepted :: "addr list"
  av_published :: "(addr \<times> ptr) list"

definition as_sys_init :: as_sys where
  "as_sys_init = \<lparr>av_scope = as_new, av_life = (\<lambda>_. Unborn), av_starting = (\<lambda>_. False), av_releasing = (\<lambda>_. False),
     av_accepted = [], av_published = []\<rparr>"

text \<open>The parts of \<open>spawn\<close>.\<close>

definition spawn_acquire :: "addr \<Rightarrow> as_sys \<Rightarrow> bool \<times> as_sys" where
  "spawn_acquire n y =
     (case as_try_acquire (av_scope y) of
        (False, s) \<Rightarrow> (False, y\<lparr>av_scope := s\<rparr>)
      | (True, s) \<Rightarrow> (True, y\<lparr>av_scope := s, av_life := (av_life y)(n := Building), av_accepted := av_accepted y @ [n]\<rparr>))"

definition spawn_fail :: "addr \<Rightarrow> addr \<Rightarrow> as_sys \<Rightarrow> as_sys" where
  "spawn_fail n e y =
     y\<lparr>av_scope := as_complete (Some e) (av_scope y), av_life := (av_life y)(n := Published (Some e)),
       av_published := av_published y @ [(n, Some e)]\<rparr>"

definition spawn_start :: "addr \<Rightarrow> as_sys \<Rightarrow> as_sys" where
  "spawn_start n y = y\<lparr>av_life := (av_life y)(n := Alive (an_add_ref an_new)), av_starting := (av_starting y)(n := True)\<rparr>"

text \<open>A release of node \<open>n\<close>, by the thread that started it or by its completion.\<close>

definition node_release :: "addr \<Rightarrow> anode \<Rightarrow> as_sys \<Rightarrow> as_sys" where
  "node_release n d y =
     (case an_release d of
        (True, d1) \<Rightarrow> y\<lparr>av_life := (av_life y)(n := Publishing (an_destroy_self d1))\<rparr>
      | (False, d1) \<Rightarrow> y\<lparr>av_life := (av_life y)(n := Alive d1)\<rparr>)"

text \<open>What happens to operations that have completed, without anyone outside doing anything.\<close>

inductive as_work :: "as_sys \<Rightarrow> as_sys \<Rightarrow> bool" where
  start_returns: "av_starting y n \<Longrightarrow> av_life y n = Alive d \<Longrightarrow>
     as_work y (node_release n d (y\<lparr>av_starting := (av_starting y)(n := False)\<rparr>))"
| complete_releases: "av_releasing y n \<Longrightarrow> av_life y n = Alive d \<Longrightarrow>
     as_work y (node_release n d (y\<lparr>av_releasing := (av_releasing y)(n := False)\<rparr>))"
| publish: "av_life y n = Publishing e \<Longrightarrow>
     as_work y (y\<lparr>av_scope := as_complete e (av_scope y), av_life := (av_life y)(n := Published e),
       av_published := av_published y @ [(n, e)]\<rparr>)"

inductive as_step :: "as_sys \<Rightarrow> as_sys \<Rightarrow> bool" where
  acquire: "av_life y n = Unborn \<Longrightarrow> spawn_acquire n y = (b, z) \<Longrightarrow> as_step y z"
| fail: "av_life y n = Building \<Longrightarrow> as_step y (spawn_fail n e y)"
| start: "av_life y n = Building \<Longrightarrow> as_step y (spawn_start n y)"
| complete: "av_life y n = Alive d \<Longrightarrow> async_receive g d = (b, d1) \<Longrightarrow>
     as_step y (y\<lparr>av_life := (av_life y)(n := Alive d1), av_releasing := (av_releasing y)(n := b \<or> av_releasing y n)\<rparr>)"
| close: "as_step y (y\<lparr>av_scope := as_close (av_scope y)\<rparr>)"
| request_stop: "as_step y (y\<lparr>av_scope := as_request_stop (av_scope y)\<rparr>)"
| work: "as_work y z \<Longrightarrow> as_step y z"

inductive as_reachable :: "as_sys \<Rightarrow> bool" where
  init: "as_reachable as_sys_init"
| step: "as_reachable y \<Longrightarrow> as_step y z \<Longrightarrow> as_reachable z"

section \<open>Invariant\<close>

fun outstanding :: "life \<Rightarrow> nat" where
  "outstanding Unborn = 0" | "outstanding Building = 1" | "outstanding (Alive d) = 1"
| "outstanding (Publishing e) = 1" | "outstanding (Published e) = 0"

text \<open>A node that is alive has one reference for each thread that will still release it.\<close>

definition node_ok :: "life \<Rightarrow> bool \<Rightarrow> bool \<Rightarrow> bool" where
  "node_ok l s r \<longleftrightarrow>
     (case l of Alive d \<Rightarrow> an_refs d = (if s then 1 else 0) + (if an_completed d \<and> \<not> r then 0 else 1) \<and> an_refs d \<noteq> 0 \<and> (r \<longrightarrow> an_completed d)
      | _ \<Rightarrow> \<not> s \<and> \<not> r)"

fun is_accepted :: "life \<Rightarrow> bool" where
  "is_accepted Unborn = False" | "is_accepted _ = True"

definition first_error_of :: "(addr \<times> ptr) list \<Rightarrow> ptr" where
  "first_error_of log = (case filter (\<lambda>(n, e). e \<noteq> None) log of [] \<Rightarrow> None | (n, e) # _ \<Rightarrow> e)"

lemma first_error_of_snoc: "first_error_of (log @ [(n, e)]) = (if first_error_of log = None then e else first_error_of log)"
proof (cases "filter (\<lambda>(n, e). e \<noteq> None) log")
  case (Cons x xs)
  obtain m f where x: "x = (m, f)" by fastforce
  have "x \<in> set (filter (\<lambda>(n, e). e \<noteq> None) log)" unfolding Cons by simp
  then obtain v where "f = Some v" by (auto simp: x)
  then show ?thesis using Cons by (simp add: first_error_of_def x)
qed (simp add: first_error_of_def)

definition as_inv :: "as_sys \<Rightarrow> bool" where
  "as_inv y \<longleftrightarrow>
     finite {n. outstanding (av_life y n) \<noteq> 0} \<and>
     (\<forall>n. node_ok (av_life y n) (av_starting y n) (av_releasing y n)) \<and>
     distinct (av_accepted y) \<and> (\<forall>n. n \<in> set (av_accepted y) \<longleftrightarrow> is_accepted (av_life y n)) \<and>
     distinct (map fst (av_published y)) \<and> (\<forall>n e. (n, e) \<in> set (av_published y) \<longleftrightarrow> av_life y n = Published e) \<and>
     as_first_error (av_scope y) = first_error_of (av_published y) \<and>
     length (av_accepted y) = length (av_published y) + weight_sum outstanding (av_life y) \<and>
     (length (av_accepted y) \<le> size_max \<longrightarrow> as_active (av_scope y) = weight_sum outstanding (av_life y))"

lemma as_inv_node: "as_inv y \<Longrightarrow> node_ok (av_life y n) (av_starting y n) (av_releasing y n)"
  by (simp add: as_inv_def)

lemma as_inv_init: "as_inv as_sys_init"
  by (simp add: as_inv_def as_sys_init_def as_new_def node_ok_def first_error_of_def)

text \<open>Publication of a completion, by \<open>spawn\<close> or by a destroyed node.\<close>

lemma publish_inv:
  assumes I: "as_inv y" and o: "outstanding (av_life y n) = 1" and out: "\<forall>d. av_life y n \<noteq> Alive d"
  shows "as_inv (y\<lparr>av_scope := as_complete e (av_scope y), av_life := (av_life y)(n := Published e), av_published := av_published y @ [(n, e)]\<rparr>)"
    (is "as_inv ?z")
proof -
  have fin: "finite {n. outstanding (av_life y n) \<noteq> 0}" using I by (simp add: as_inv_def)
  have w: "weight_sum outstanding ((av_life y)(n := Published e)) + 1 = weight_sum outstanding (av_life y)"
    using weight_sum_upd(1) [of outstanding "av_life y" n "Published e"] fin o by simp
  have fin': "finite {m. outstanding (((av_life y)(n := Published e)) m) \<noteq> 0}"
    using weight_sum_upd(2) [of outstanding "av_life y" n "Published e"] fin by blast
  have np: "\<forall>e. av_life y n \<noteq> Published e" using o by auto
  then have new: "n \<notin> fst ` set (av_published y)" using I by (force simp: as_inv_def)
  have acc: "is_accepted (av_life y n)" using o by (cases "av_life y n") auto
  have nk: "\<not> av_starting y n \<and> \<not> av_releasing y n"
  proof -
    have "node_ok (av_life y n) (av_starting y n) (av_releasing y n)" using I by (simp add: as_inv_def)
    then show ?thesis using out by (auto simp: node_ok_def split: life.splits)
  qed
  have act: "as_active (as_complete e s) = as_active s - 1" "as_first_error (as_complete e s) = (if as_first_error s = None then e else as_first_error s)" for s
    by (auto simp: as_complete_def Let_def)
  have life: "\<forall>m x. (m, x) \<in> set (av_published ?z) \<longleftrightarrow> av_life ?z m = Published x"
    using I np new by (auto simp: as_inv_def)
  show ?thesis unfolding as_inv_def
    using I fin' w new acc nk life by (auto simp: as_inv_def act first_error_of_snoc node_ok_def)
qed

lemma life_upd_inv:
  assumes I: "as_inv y" and o: "outstanding l = 1" "outstanding (av_life y n) = 1" and k: "node_ok l s r"
    and z: "av_scope z = av_scope y" "av_life z = (av_life y)(n := l)" "av_accepted z = av_accepted y" "av_published z = av_published y"
      "av_starting z = (av_starting y)(n := s)" "av_releasing z = (av_releasing y)(n := r)"
  shows "as_inv z"
proof -
  have w: "weight_sum outstanding (av_life z) = weight_sum outstanding (av_life y)"
    using weight_sum_upd(1) [of outstanding "av_life y" n l] I o z by (simp add: as_inv_def)
  have fin: "finite {m. outstanding (av_life z m) \<noteq> 0}"
    using weight_sum_upd(2) [of outstanding "av_life y" n l] I unfolding as_inv_def z by blast
  have a: "is_accepted l" "is_accepted (av_life y n)" "\<forall>e. l \<noteq> Published e" "\<forall>e. av_life y n \<noteq> Published e"
    using o by (cases l; cases "av_life y n"; auto)+
  have p: "\<forall>m e. (m, e) \<in> set (av_published z) \<longleftrightarrow> av_life z m = Published e" using I a z by (auto simp: as_inv_def)
  have ac: "\<forall>m. m \<in> set (av_accepted z) \<longleftrightarrow> is_accepted (av_life z m)" using I a z by (auto simp: as_inv_def)
  show ?thesis using I k w fin p ac unfolding as_inv_def by (auto simp: z)
qed

lemma node_ok_release:
  assumes "node_ok (Alive d) a b" "a \<and> \<not> s \<and> r = b \<or> b \<and> \<not> r \<and> s = a"
  shows "an_refs d = 1 \<Longrightarrow> node_ok (Publishing e) s r" "an_refs d \<noteq> 1 \<Longrightarrow> node_ok (Alive (d\<lparr>an_refs := an_refs d - 1\<rparr>)) s r"
  using assms by (cases a; cases b; cases s; cases r; cases "an_completed d"; simp add: node_ok_def)+

lemma node_release_inv:
  assumes I: "as_inv y" and d: "av_life y n = Alive d"
    and z: "z = node_release n d (y\<lparr>av_starting := (av_starting y)(n := s), av_releasing := (av_releasing y)(n := r)\<rparr>)"
    and h: "av_starting y n \<and> \<not> s \<and> r = av_releasing y n \<or> av_releasing y n \<and> \<not> r \<and> s = av_starting y n"
  shows "as_inv z"
proof -
  have ok: "node_ok (Alive d) (av_starting y n) (av_releasing y n)" using as_inv_node [OF I, of n] d by simp
  show ?thesis
  proof (cases "an_refs d = 1")
    case True
    note k = node_ok_release(1) [OF ok h True, of "an_error d"]
    show ?thesis unfolding z
      by (rule life_upd_inv [OF I _ _ k, where n = n]) (simp_all add: True d node_release_def an_release_def an_destroy_self_def)
  next
    case False
    note k = node_ok_release(2) [OF ok h False]
    show ?thesis unfolding z
      by (rule life_upd_inv [OF I _ _ k, where n = n]) (simp_all add: False [simplified] d node_release_def an_release_def)
  qed
qed

lemma as_work_inv: "as_work y z \<Longrightarrow> as_inv y \<Longrightarrow> as_inv z"
proof (induction rule: as_work.induct)
  case (start_returns y n d)
  then show ?case using node_release_inv [where y = y and n = n and d = d and s = False and r = "av_releasing y n"] by simp
next
  case (complete_releases y n d)
  then show ?case using node_release_inv [where y = y and n = n and d = d and s = "av_starting y n" and r = False] by simp
next
  case (publish y n e)
  then show ?case using publish_inv [of y n e] by simp
qed

lemma as_step_inv: "as_step y z \<Longrightarrow> as_inv y \<Longrightarrow> as_inv z"
proof (induction rule: as_step.induct)
  case (acquire y n b z)
  show ?case
  proof (cases "as_closed (av_scope y)")
    case True
    then show ?thesis using acquire by (simp add: spawn_acquire_def as_try_acquire_def)
  next
    case False
    have w: "weight_sum outstanding ((av_life y)(n := Building)) = weight_sum outstanding (av_life y) + 1"
      using weight_sum_upd(1) [of outstanding "av_life y" n Building] acquire by (simp add: as_inv_def)
    have fin: "finite {m. outstanding (((av_life y)(n := Building)) m) \<noteq> 0}"
      using weight_sum_upd(2) [of outstanding "av_life y" n Building] acquire(3) unfolding as_inv_def by blast
    have new: "n \<notin> set (av_accepted y)" "\<forall>e. (n, e) \<notin> set (av_published y)" using acquire by (auto simp: as_inv_def)
    have ok: "node_ok Unborn (av_starting y n) (av_releasing y n)" using acquire as_inv_node [of y n] by simp
    have z: "z = y\<lparr>av_scope := (av_scope y)\<lparr>as_active := (as_active (av_scope y) + 1) mod (size_max + 1)\<rparr>,
        av_life := (av_life y)(n := Building), av_accepted := av_accepted y @ [n]\<rparr>"
      using acquire(2) False by (simp add: spawn_acquire_def as_try_acquire_def)
    show ?thesis unfolding z as_inv_def
      using acquire(1,3) w fin new ok by (auto simp: as_inv_def node_ok_def)
  qed
next
  case (fail y n e)
  then show ?case using publish_inv [of y n "Some e"] by (simp add: spawn_fail_def)
next
  case (start y n)
  then have "node_ok Building (av_starting y n) (av_releasing y n)" using as_inv_node [of y n] by simp
  then have k: "node_ok (Alive (an_add_ref an_new)) True False" and r: "\<not> av_releasing y n"
    by (simp_all add: node_ok_def an_add_ref_def an_new_def)
  show ?case unfolding spawn_start_def
    by (rule life_upd_inv [OF start(2) _ _ k, where n = n]) (use start(1) r in \<open>auto simp: fun_upd_idem\<close>)
next
  case (complete y n d g b d1)
  then have ok: "node_ok (Alive d) (av_starting y n) (av_releasing y n)" using as_inv_node [of y n] by simp
  obtain e where "an_complete e d = (b, d1)" using complete(2) by (cases g) auto
  then have k: "node_ok (Alive d1) (av_starting y n) (b \<or> av_releasing y n)"
    using ok by (auto simp: node_ok_def an_complete_def split: if_splits)
  show ?case by (rule life_upd_inv [OF complete(3) _ _ k, where n = n]) (simp_all add: complete(1))
next
  case (work y z)
  then show ?case by (rule as_work_inv)
qed (auto simp: as_inv_def as_close_def as_request_stop_def)

lemma as_reachable_inv: "as_reachable y \<Longrightarrow> as_inv y"
  by (induction rule: as_reachable.induct) (auto intro: as_step_inv as_inv_init)

section \<open>Progress\<close>

fun life_weight :: "life \<Rightarrow> nat" where
  "life_weight (Alive d) = 1 + an_refs d" | "life_weight (Publishing e) = 1" | "life_weight _ = 0"

definition as_left :: "as_sys \<Rightarrow> nat" where
  "as_left y = weight_sum life_weight (av_life y)"

lemma life_weight_finite: "as_inv y \<Longrightarrow> finite {n. life_weight (av_life y n) \<noteq> 0}"
proof (rule finite_subset [of _ "{n. outstanding (av_life y n) \<noteq> 0}"])
  have "life_weight l \<noteq> 0 \<Longrightarrow> outstanding l \<noteq> 0" for l by (cases l) simp_all
  then show "{n. life_weight (av_life y n) \<noteq> 0} \<subseteq> {n. outstanding (av_life y n) \<noteq> 0}" by blast
qed (simp add: as_inv_def)

lemma life_weight_less:
  "as_inv y \<Longrightarrow> av_life z = (av_life y)(n := l) \<Longrightarrow> life_weight l < life_weight (av_life y n) \<Longrightarrow> as_left z < as_left y"
  using weight_sum_upd(1) [of life_weight "av_life y" n l] life_weight_finite [of y] by (simp add: as_left_def)

lemma node_release_life:
  "av_life (node_release n d y) =
     (av_life y)(n := if an_refs d = 1 then Publishing (an_error d) else Alive (d\<lparr>an_refs := an_refs d - 1\<rparr>))"
  "av_starting (node_release n d y) = av_starting y" "av_releasing (node_release n d y) = av_releasing y"
  "av_accepted (node_release n d y) = av_accepted y" "av_scope (node_release n d y) = av_scope y"
  by (simp_all add: node_release_def an_release_def an_destroy_self_def split: bool.splits)

lemma as_work_less: "as_work y z \<Longrightarrow> as_inv y \<Longrightarrow> as_left z < as_left y"
proof (induction rule: as_work.induct)
  case (start_returns y n d)
  then have "an_refs d \<noteq> 0" using as_inv_node [of y n] by (simp add: node_ok_def)
  with start_returns show ?case by (intro life_weight_less [OF start_returns(3), where n = n]) (auto simp: node_release_life(1))
next
  case (complete_releases y n d)
  then have "an_refs d \<noteq> 0" using as_inv_node [of y n] by (simp add: node_ok_def)
  with complete_releases show ?case by (intro life_weight_less [OF complete_releases(3), where n = n]) (auto simp: node_release_life(1))
next
  case (publish y n e)
  then show ?case by (intro life_weight_less [OF publish(2), of _ n "Published e"]) auto
qed

interpretation asw: draining as_inv as_work as_left
  by unfold_locales (use as_work_inv as_work_less in blast)+

text \<open>All spawned operations have completed; only the threads that release the nodes are left.\<close>

definition all_completed :: "as_sys \<Rightarrow> bool" where
  "all_completed y \<longleftrightarrow> (\<forall>n. av_life y n \<noteq> Building \<and> (\<forall>d. av_life y n = Alive d \<longrightarrow> an_completed d))"

lemma as_work_keeps:
  assumes "as_work y z" "all_completed y"
  shows "all_completed z" "av_accepted z = av_accepted y"
  using assms by (cases rule: as_work.cases, auto simp: all_completed_def node_release_life)+

lemma as_works_keep: "as_work\<^sup>*\<^sup>* y z \<Longrightarrow> all_completed y \<Longrightarrow> all_completed z \<and> av_accepted z = av_accepted y"
proof (induction rule: rtranclp_induct)
  case (step z w)
  then show ?case using as_work_keeps [OF step.hyps(2)] by simp
qed simp

lemma as_stuck:
  assumes "as_inv z" "\<forall>w. \<not> as_work z w" "all_completed z"
  shows "outstanding (av_life z n) = 0"
proof (cases "av_life z n")
  case (Alive d)
  have "node_ok (Alive d) (av_starting z n) (av_releasing z n)" using as_inv_node [OF assms(1), of n] Alive by simp
  then have "av_starting z n \<or> av_releasing z n" using Alive assms(3) by (auto simp: node_ok_def all_completed_def split: if_splits)
  then show ?thesis using Alive assms(2) as_work.start_returns as_work.complete_releases by blast
next
  case (Publishing e)
  then show ?thesis using assms(2) as_work.publish by blast
qed (use assms(3) in \<open>auto simp: all_completed_def\<close>)

section \<open>Properties\<close>

text \<open>
  C27.  In every reachable state of a scope that has accepted at most \<open>size_max\<close> senders:
  \<open>active\<close> counts the accepted senders whose completion has not been published, so that \<open>wait\<close> is a
  barrier: when it returns, every accepted sender's completion has been published exactly once and no
  node exists.  A thread that still has to release a node finds the node alive, with one
  reference for each such thread and for the outstanding completion.  The first error of the
  scope is the first error in the order of publication.
\<close>

theorem async_scope_barrier:
  assumes "as_reachable y" "length (av_accepted y) \<le> size_max"
  shows "as_active (av_scope y) + length (av_published y) = length (av_accepted y) \<and>
         distinct (av_accepted y) \<and> distinct (map fst (av_published y)) \<and> fst ` set (av_published y) \<subseteq> set (av_accepted y) \<and>
         (as_wait_returns (av_scope y) \<longrightarrow>
            fst ` set (av_published y) = set (av_accepted y) \<and> (\<forall>n d. av_life y n \<noteq> Alive d)) \<and>
         (\<forall>n. av_starting y n \<or> av_releasing y n \<longrightarrow> (\<exists>d. av_life y n = Alive d)) \<and>
         (\<forall>n d. av_life y n = Alive d \<longrightarrow>
            an_refs d = (if av_starting y n then 1 else 0) + (if an_completed d \<and> \<not> av_releasing y n then 0 else 1) \<and> 0 < an_refs d) \<and>
         as_first_error (av_scope y) = first_error_of (av_published y)"
proof -
  have I: "as_inv y" using assms(1) by (rule as_reachable_inv)
  have fin: "finite {n. outstanding (av_life y n) \<noteq> 0}" using I by (simp add: as_inv_def)
  have N: "node_ok (av_life y n) (av_starting y n) (av_releasing y n)" for n using I by (rule as_inv_node)
  have sub: "fst ` set (av_published y) \<subseteq> set (av_accepted y)" using I by (auto simp: as_inv_def)
  have act: "as_active (av_scope y) = weight_sum outstanding (av_life y)" using I assms(2) by (simp add: as_inv_def)
  have wait: "fst ` set (av_published y) = set (av_accepted y) \<and> (\<forall>n d. av_life y n \<noteq> Alive d)" if "as_wait_returns (av_scope y)"
  proof -
    have z: "outstanding (av_life y n) = 0" for n
      using that act weight_sum_zero [of outstanding "av_life y"] fin by (simp add: as_wait_returns_def)
    have "n \<in> fst ` set (av_published y)" if "n \<in> set (av_accepted y)" for n
    proof -
      have "is_accepted (av_life y n)" using that I by (simp add: as_inv_def)
      then obtain e where "av_life y n = Published e" using z [of n] by (cases "av_life y n") auto
      then show ?thesis using I by (force simp: as_inv_def)
    qed
    moreover have "av_life y n \<noteq> Alive d" for n d using z [of n] by auto
    ultimately show ?thesis using sub by blast
  qed
  have "\<exists>d. av_life y n = Alive d" if "av_starting y n \<or> av_releasing y n" for n
    using N [of n] that by (auto simp: node_ok_def split: life.splits)
  moreover have "an_refs d = (if av_starting y n then 1 else 0) + (if an_completed d \<and> \<not> av_releasing y n then 0 else 1) \<and> 0 < an_refs d"
    if "av_life y n = Alive d" for n d
    using N [of n] unfolding that node_ok_def life.case by linarith
  moreover have "as_active (av_scope y) + length (av_published y) = length (av_accepted y)" "distinct (av_accepted y)"
    "distinct (map fst (av_published y))" "as_first_error (av_scope y) = first_error_of (av_published y)"
    using I act by (simp_all add: as_inv_def)
  ultimately show ?thesis using wait sub by blast
qed

text \<open>
  C28.  Once every spawned operation has completed, the scope drains: however the releasing
  threads interleave, they take at most \<open>as_left\<close> steps, and when no step is left \<open>wait\<close>
  returns.  A closed scope accepts no more senders.
\<close>

theorem async_scope_drains:
  assumes "as_reachable y" "length (av_accepted y) \<le> size_max" "all_completed y"
  shows "(\<forall>m z. (as_work ^^ m) y z \<longrightarrow> m \<le> as_left y) \<and>
         (\<exists>z. as_work\<^sup>*\<^sup>* y z \<and> (\<forall>w. \<not> as_work z w)) \<and>
         (\<forall>z. as_work\<^sup>*\<^sup>* y z \<and> (\<forall>w. \<not> as_work z w) \<longrightarrow> as_wait_returns (av_scope z)) \<and>
         (\<forall>n. as_closed (av_scope y) \<longrightarrow> spawn_acquire n y = (False, y))"
proof (intro conjI allI impI)
  have I: "as_inv y" using assms(1) by (rule as_reachable_inv)
  show "(as_work ^^ m) y z \<Longrightarrow> m \<le> as_left y" for m z using asw.works_bounded [OF _ I] by fastforce
  show "\<exists>z. as_work\<^sup>*\<^sup>* y z \<and> (\<forall>w. \<not> as_work z w)" using asw.works_end [OF I] by blast
  fix z
  assume z: "as_work\<^sup>*\<^sup>* y z \<and> (\<forall>w. \<not> as_work z w)"
  then have Iz: "as_inv z" and k: "all_completed z" "av_accepted z = av_accepted y"
    using asw.works_inv I as_works_keep assms(3) by blast+
  have "outstanding (av_life z n) = 0" for n using as_stuck [OF Iz _ k(1)] z by blast
  then have "weight_sum outstanding (av_life z) = 0" by (simp add: weight_sum_def)
  then show "as_wait_returns (av_scope z)" using Iz k(2) assms(2) by (simp add: as_inv_def as_wait_returns_def)
next
  show "as_closed (av_scope y) \<Longrightarrow> spawn_acquire n y = (False, y)" for n
    by (simp add: spawn_acquire_def as_try_acquire_def)
qed

section \<open>A concrete scope\<close>

text \<open>One sender is spawned and completes with an error while its \<open>start\<close> has not returned.\<close>

definition as_demo :: as_sys where
  "as_demo = \<lparr>av_scope = as_new\<lparr>as_active := 1\<rparr>, av_life = (\<lambda>_. Unborn)(3 := Alive \<lparr>an_refs = 2, an_completed = True, an_error = Some 8\<rparr>),
     av_starting = (\<lambda>_. False)(3 := True), av_releasing = (\<lambda>_. False)(3 := True), av_accepted = [3], av_published = []\<rparr>"

lemma as_demo_reachable: "as_reachable as_demo"
proof -
  let ?y1 = "as_sys_init\<lparr>av_scope := as_new\<lparr>as_active := 1\<rparr>, av_life := (\<lambda>_. Unborn)(3 := Building), av_accepted := [3]\<rparr>"
  have "av_life as_sys_init 3 = Unborn" by (simp add: as_sys_init_def)
  moreover have "spawn_acquire 3 as_sys_init = (True, ?y1)"
    by (simp add: spawn_acquire_def as_try_acquire_def as_sys_init_def as_new_def size_max_def)
  ultimately have r1: "as_reachable ?y1" using as_reachable.init as_reachable.step as_step.acquire by metis
  have "av_life ?y1 3 = Building" by simp
  from as_reachable.step [OF r1 as_step.start [OF this]]
  have r2: "as_reachable (spawn_start 3 ?y1)" .
  have a: "av_life (spawn_start 3 ?y1) 3 = Alive (an_add_ref an_new)"
    "async_receive (Recv_error (Err_value 8 None)) (an_add_ref an_new) = (True, \<lparr>an_refs = 2, an_completed = True, an_error = Some 8\<rparr>)"
    by (simp_all add: spawn_start_def an_add_ref_def an_new_def an_complete_def)
  from as_reachable.step [OF r2 as_step.complete [OF a]]
  show ?thesis by (simp add: as_demo_def spawn_start_def as_sys_init_def)
qed

theorem async_scope_barrier_witness:
  "as_active (av_scope as_demo) + length (av_published as_demo) = length (av_accepted as_demo) \<and> as_first_error (av_scope as_demo) = None"
proof -
  have "length (av_accepted as_demo) \<le> size_max" "first_error_of (av_published as_demo) = None"
    by (simp_all add: as_demo_def size_max_def first_error_of_def)
  then show ?thesis using async_scope_barrier [OF as_demo_reachable] by metis
qed

theorem async_scope_drains_witness:
  "\<exists>z. as_work\<^sup>*\<^sup>* as_demo z \<and> as_wait_returns (av_scope z)"
proof -
  have "length (av_accepted as_demo) \<le> size_max" "all_completed as_demo"
    by (simp_all add: as_demo_def size_max_def all_completed_def)
  then show ?thesis using async_scope_drains [OF as_demo_reachable] by blast
qed

end
