(* ===== verification/Strand.thy ===== *)
theory Strand
  imports Progress
begin

text \<open>
  \<open>forge::strand\<close> (\<open>include/forge/strand.hpp\<close>): operations scheduled on a strand complete one after
  the other, whatever scheduler the strand runs on; after shutdown the remaining ones complete
  with \<open>set_stopped\<close>.

  A step is one critical section of the strand's mutex, the completion of one record, or an event
  of the underlying scheduler: it may complete a runner on any thread, inline or later, with
  \<open>set_value\<close>, \<open>set_stopped\<close> or \<open>set_error\<close>, and launching a runner may throw.  Operations are
  started and the strand is shut down at any point, also from inside a completion.  The
  thread-local guards of \<open>launch_runner\<close> are part of the state.
\<close>

section \<open>The strand\<close>

record strand =
  sd_queue :: "addr list"
  sd_next :: "addr \<Rightarrow> ptr"
  sd_head :: ptr
  sd_tail :: ptr
  sd_running :: bool
  sd_active :: bool
  sd_closed :: bool

definition strand_new :: strand where
  "strand_new = \<lparr>sd_queue = [], sd_next = (\<lambda>_. None), sd_head = None, sd_tail = None,
     sd_running = False, sd_active = False, sd_closed = False\<rparr>"

definition append_deferred_stopped :: "addr \<Rightarrow> strand \<Rightarrow> strand" where
  "append_deferred_stopped r s =
     (let s1 = s\<lparr>sd_next := (sd_next s)(r := None)\<rparr>;
          s2 = (case sd_tail s1 of
                  Some a \<Rightarrow> s1\<lparr>sd_next := (sd_next s1)(a := Some r)\<rparr>
                | None \<Rightarrow> s1\<lparr>sd_head := Some r\<rparr>)
      in s2\<lparr>sd_tail := Some r\<rparr>)"

lemma append_deferred_fields [simp]:
  "sd_queue (append_deferred_stopped r s) = sd_queue s" "sd_running (append_deferred_stopped r s) = sd_running s"
  "sd_active (append_deferred_stopped r s) = sd_active s" "sd_closed (append_deferred_stopped r s) = sd_closed s"
  by (simp_all add: append_deferred_stopped_def Let_def split: option.splits)

function defer_queue :: "strand \<Rightarrow> strand" where
  "defer_queue s =
     (case sd_queue s of
        [] \<Rightarrow> s
      | r # rs \<Rightarrow> defer_queue (append_deferred_stopped r (s\<lparr>sd_queue := rs\<rparr>)))"
  by pat_completeness auto
termination by (relation "measure (\<lambda>s. length (sd_queue s))") auto

declare defer_queue.simps [simp del]

definition take_deferred_stopped :: "strand \<Rightarrow> ptr \<times> strand" where
  "take_deferred_stopped s = (sd_head s, s\<lparr>sd_head := None, sd_tail := None\<rparr>)"

text \<open>What a caller does after it has left the critical section.\<close>

datatype action = Nothing | Launch | Drain ptr | Turn addr

definition start_drain :: "strand \<Rightarrow> action \<times> strand" where
  "start_drain s = (case take_deferred_stopped s of (p, s1) \<Rightarrow> (Drain p, s1\<lparr>sd_active := True, sd_running := True\<rparr>))"

text \<open>\<open>enqueue\<close>: \<open>alloc\<close> says whether the queue can allocate its node.\<close>

definition strand_enqueue :: "bool \<Rightarrow> addr \<Rightarrow> strand \<Rightarrow> action \<times> strand" where
  "strand_enqueue alloc r s =
     (if sd_closed s then
        (let s1 = append_deferred_stopped r (defer_queue s)
         in if \<not> sd_active s1 then start_drain s1 else (Nothing, s1))
      else if alloc then
        (let s1 = s\<lparr>sd_queue := sd_queue s @ [r]\<rparr>
         in if \<not> sd_running s1 then (Launch, s1\<lparr>sd_running := True\<rparr>) else (Nothing, s1))
      else
        (let s1 = append_deferred_stopped r (defer_queue (s\<lparr>sd_closed := True\<rparr>))
         in if \<not> sd_active s1 then start_drain s1 else (Nothing, s1)))"

definition strand_shutdown :: "strand \<Rightarrow> action \<times> strand" where
  "strand_shutdown s =
     (let s1 = s\<lparr>sd_closed := True\<rparr>
      in if \<not> sd_active s1 then
           (if sd_queue s1 = [] \<and> sd_head s1 = None then (Nothing, s1\<lparr>sd_running := False\<rparr>)
            else start_drain (defer_queue s1))
         else (Nothing, s1))"

text \<open>The two critical sections of \<open>run_one\<close>.\<close>

definition run_one_begin :: "strand \<Rightarrow> action \<times> strand" where
  "run_one_begin s =
     (if sd_active s then (Nothing, s)
      else case sd_queue s of
        [] \<Rightarrow> (if sd_closed s \<and> sd_head s \<noteq> None then start_drain s else (Nothing, s\<lparr>sd_running := False\<rparr>))
      | r # rs \<Rightarrow>
          (if sd_closed s then
             (case take_deferred_stopped (defer_queue (s\<lparr>sd_active := True\<rparr>)) of (p, s1) \<Rightarrow> (Drain p, s1))
           else (Turn r, s\<lparr>sd_active := True, sd_queue := rs\<rparr>)))"

definition run_one_end :: "strand \<Rightarrow> action \<times> strand" where
  "run_one_end s =
     (if sd_closed s \<and> (sd_queue s \<noteq> [] \<or> sd_head s \<noteq> None)
      then (case take_deferred_stopped (defer_queue s) of (p, s1) \<Rightarrow> (Drain p, s1))
      else let s1 = s\<lparr>sd_active := False\<rparr>
           in if sd_queue s1 = [] then (Nothing, s1\<lparr>sd_running := False\<rparr>) else (Launch, s1))"

text \<open>The critical section of \<open>complete_stopped_batch\<close>: \<open>None\<close> when the batch is complete.\<close>

definition batch_next :: "strand \<Rightarrow> ptr \<times> strand" where
  "batch_next s =
     (case take_deferred_stopped (defer_queue s) of
        (None, s1) \<Rightarrow> (None, s1\<lparr>sd_active := False, sd_running := False\<rparr>)
      | (Some r, s1) \<Rightarrow> (Some r, s1))"

section \<open>The system\<close>

text \<open>
  A thread's guard of \<open>launch_runner\<close>: whether \<open>launch_runner_once\<close> has still to be called or has
  been called, and the flag \<open>relaunch\<close>.  A thread's turn: inside \<open>run_one\<close> before and after
  the completion of its record, or inside \<open>complete_stopped_batch\<close> with the rest of its batch.
\<close>

datatype guard = No_guard | Calling bool | Called bool

datatype turn = No_turn | Completing addr | Completed | Draining ptr

record strand_sys =
  ss_strand :: strand
  ss_guards :: "addr \<Rightarrow> guard"
  ss_pending :: nat
  ss_turns :: "addr \<Rightarrow> turn"
  ss_stop_only :: "addr \<Rightarrow> bool"
  ss_done :: "addr \<Rightarrow> bool"
  ss_enqueued :: "addr list"
  ss_log :: "(addr \<times> outcome) list"

definition strand_sys_init :: strand_sys where
  "strand_sys_init = \<lparr>ss_strand = strand_new, ss_guards = (\<lambda>_. No_guard), ss_pending = 0, ss_turns = (\<lambda>_. No_turn),
     ss_stop_only = (\<lambda>_. False), ss_done = (\<lambda>_. False), ss_enqueued = [], ss_log = []\<rparr>"

text \<open>\<open>complete_value\<close> and \<open>complete_stopped\<close> of a record.\<close>

definition record_complete :: "addr \<Rightarrow> outcome \<Rightarrow> strand_sys \<Rightarrow> strand_sys" where
  "record_complete r g y =
     (if ss_done y r then y else y\<lparr>ss_done := (ss_done y)(r := True), ss_log := ss_log y @ [(r, g)]\<rparr>)"

text \<open>\<open>launch_runner\<close>: with a guard on the stack it only asks that guard's loop to launch again.\<close>

fun launch_runner :: "guard \<Rightarrow> guard" where
  "launch_runner No_guard = Calling False"
| "launch_runner (Calling b) = Calling True"
| "launch_runner (Called b) = Called True"

fun launch_returns :: "guard \<Rightarrow> guard" where
  "launch_returns (Called b) = (if b then Calling False else No_guard)"
| "launch_returns g = g"

fun act_on :: "addr \<Rightarrow> action \<times> strand \<Rightarrow> strand_sys \<Rightarrow> strand_sys" where
  "act_on th (Nothing, s) y = y\<lparr>ss_strand := s\<rparr>"
| "act_on th (Launch, s) y = y\<lparr>ss_strand := s, ss_guards := (ss_guards y)(th := launch_runner (ss_guards y th))\<rparr>"
| "act_on th (Drain p, s) y = y\<lparr>ss_strand := s, ss_turns := (ss_turns y)(th := Draining p)\<rparr>"
| "act_on th (Turn r, s) y = y\<lparr>ss_strand := s, ss_turns := (ss_turns y)(th := Completing r)\<rparr>"

inductive strand_work :: "strand_sys \<Rightarrow> strand_sys \<Rightarrow> bool" where
  launch: "ss_guards y th = Calling b \<Longrightarrow>
     strand_work y (y\<lparr>ss_guards := (ss_guards y)(th := Called b), ss_pending := ss_pending y + 1\<rparr>)"
| launch_throws: "ss_guards y th = Calling b \<Longrightarrow>
     strand_work y (act_on th (strand_shutdown (ss_strand y)) (y\<lparr>ss_guards := (ss_guards y)(th := Called b)\<rparr>))"
| launch_returns: "ss_guards y th = Called b \<Longrightarrow>
     strand_work y (y\<lparr>ss_guards := (ss_guards y)(th := launch_returns (Called b))\<rparr>)"
| runner_value: "ss_pending y > 0 \<Longrightarrow>
     strand_work y (act_on th (run_one_begin (ss_strand y)) (y\<lparr>ss_pending := ss_pending y - 1\<rparr>))"
| runner_stopped: "ss_pending y > 0 \<Longrightarrow>
     strand_work y (act_on th (strand_shutdown (ss_strand y)) (y\<lparr>ss_pending := ss_pending y - 1\<rparr>))"
| complete: "ss_turns y th = Completing r \<Longrightarrow>
     strand_work y (record_complete r (if ss_stop_only y r then Set_stopped else Set_value) (y\<lparr>ss_turns := (ss_turns y)(th := Completed)\<rparr>))"
| turn_ends: "ss_turns y th = Completed \<Longrightarrow>
     strand_work y (act_on th (run_one_end (ss_strand y)) (y\<lparr>ss_turns := (ss_turns y)(th := No_turn)\<rparr>))"
| drain: "ss_turns y th = Draining (Some r) \<Longrightarrow> s = ss_strand y \<Longrightarrow>
     strand_work y (record_complete r Set_stopped (y\<lparr>ss_turns := (ss_turns y)(th := Draining (sd_next s r)),
       ss_strand := s\<lparr>sd_next := (sd_next s)(r := None)\<rparr>\<rparr>))"
| drain_ends: "ss_turns y th = Draining None \<Longrightarrow> batch_next (ss_strand y) = (p, s) \<Longrightarrow>
     strand_work y (y\<lparr>ss_turns := (ss_turns y)(th := if p = None then No_turn else Draining p), ss_strand := s\<rparr>)"

text \<open>\<open>start\<close> of an operation and \<open>shutdown\<close>, on any thread.\<close>

definition strand_start :: "addr \<Rightarrow> bool \<Rightarrow> bool \<Rightarrow> addr \<Rightarrow> strand_sys \<Rightarrow> strand_sys" where
  "strand_start th stop alloc r y =
     act_on th (strand_enqueue alloc r (ss_strand y))
       (y\<lparr>ss_stop_only := (ss_stop_only y)(r := stop), ss_enqueued := ss_enqueued y @ [r]\<rparr>)"

inductive strand_step :: "strand_sys \<Rightarrow> strand_sys \<Rightarrow> bool" where
  start: "r \<notin> set (ss_enqueued y) \<Longrightarrow> strand_step y (strand_start th stop alloc r y)"
| shutdown: "strand_step y (act_on th (strand_shutdown (ss_strand y)) y)"
| work: "strand_work y z \<Longrightarrow> strand_step y z"

inductive strand_reachable :: "strand_sys \<Rightarrow> bool" where
  init: "strand_reachable strand_sys_init"
| step: "strand_reachable y \<Longrightarrow> strand_step y z \<Longrightarrow> strand_reachable z"

text \<open>When \<open>wait\<close>, called on thread \<open>th\<close>, returns.\<close>

definition strand_wait_returns :: "addr \<Rightarrow> strand_sys \<Rightarrow> bool" where
  "strand_wait_returns th y \<longleftrightarrow>
     (\<exists>r. ss_turns y th = Completing r) \<or> (\<exists>p. ss_turns y th = Draining p) \<or>
     sd_queue (ss_strand y) = [] \<and> \<not> sd_running (ss_strand y)"

section \<open>The deferred list\<close>

text \<open>
  \<open>ds\<close> are the deferred records, \<open>cs\<close> the records of a batch being drained, which hang together by
  the same links.
\<close>

definition deferred :: "strand \<Rightarrow> addr list \<Rightarrow> bool" where
  "deferred s ds \<longleftrightarrow> chain (sd_next s) (sd_head s) ds None \<and> sd_tail s = last_ptr None ds"

lemma append_deferred:
  assumes "deferred s ds" "r \<notin> set ds"
  shows "deferred (append_deferred_stopped r s) (ds @ [r])"
    "r \<notin> set cs \<Longrightarrow> set ds \<inter> set cs = {} \<Longrightarrow> chain (sd_next (append_deferred_stopped r s)) p cs None \<longleftrightarrow> chain (sd_next s) p cs None"
proof -
  have "deferred (append_deferred_stopped r s) (ds @ [r]) \<and>
    (r \<notin> set cs \<longrightarrow> set ds \<inter> set cs = {} \<longrightarrow> chain (sd_next (append_deferred_stopped r s)) p cs None = chain (sd_next s) p cs None)"
  proof (cases ds rule: rev_cases)
    case Nil
    then show ?thesis using assms by (simp add: deferred_def append_deferred_stopped_def)
  next
    case (snoc es a)
    have "distinct (es @ [a])" using assms(1) chain_distinct [of "sd_next s" "sd_head s" ds] snoc by (simp add: deferred_def)
    then show ?thesis using assms snoc by (auto simp: deferred_def append_deferred_stopped_def chain_append)
  qed
  then show "deferred (append_deferred_stopped r s) (ds @ [r])"
    "r \<notin> set cs \<Longrightarrow> set ds \<inter> set cs = {} \<Longrightarrow> chain (sd_next (append_deferred_stopped r s)) p cs None \<longleftrightarrow> chain (sd_next s) p cs None"
    by blast+
qed

lemma defer_queue_fields [simp]:
  "sd_queue (defer_queue s) = []" "sd_running (defer_queue s) = sd_running s"
  "sd_active (defer_queue s) = sd_active s" "sd_closed (defer_queue s) = sd_closed s"
  by (induction s rule: defer_queue.induct; subst defer_queue.simps; auto split: list.splits)+

lemma defer_queue_deferred:
  assumes "deferred s ds" "distinct (cs @ ds @ sd_queue s)"
  shows "deferred (defer_queue s) (ds @ sd_queue s) \<and> (chain (sd_next (defer_queue s)) p cs None \<longleftrightarrow> chain (sd_next s) p cs None)"
  using assms
proof (induction s arbitrary: ds rule: defer_queue.induct)
  case (1 s)
  show ?case
  proof (cases "sd_queue s")
    case Nil
    then show ?thesis using "1.prems" by (simp add: defer_queue.simps)
  next
    case (Cons r rs)
    let ?s = "append_deferred_stopped r (s\<lparr>sd_queue := rs\<rparr>)"
    have d: "deferred (s\<lparr>sd_queue := rs\<rparr>) ds" "r \<notin> set ds" "r \<notin> set cs" "set ds \<inter> set cs = {}"
      using "1.prems" Cons by (auto simp: deferred_def)
    have "distinct (cs @ (ds @ [r]) @ sd_queue ?s)" using "1.prems" Cons by auto
    from "1.IH" [OF Cons append_deferred(1) [OF d(1,2)] this]
    show ?thesis using append_deferred(2) [OF d] Cons by (subst (1 2) defer_queue.simps) (simp add: Cons)
  qed
qed

text \<open>
  The records in the order in which they were enqueued: those that completed, the current turn's,
  the deferred ones and those in the queue.
\<close>

definition in_order :: "strand \<Rightarrow> addr list \<Rightarrow> addr list \<Rightarrow> addr list \<Rightarrow> addr list \<Rightarrow> bool" where
  "in_order s enq gone cs ds \<longleftrightarrow> deferred s ds \<and> enq = gone @ cs @ ds @ sd_queue s \<and> distinct (gone @ cs @ ds @ sd_queue s)"

lemma in_order_defer:
  assumes "in_order s enq gone cs ds"
  shows "in_order (defer_queue s) enq gone cs (ds @ sd_queue s)"
    "chain (sd_next (defer_queue s)) p cs None \<longleftrightarrow> chain (sd_next s) p cs None"
  using assms defer_queue_deferred [of s ds cs p] by (auto simp: in_order_def)

lemma in_order_append:
  assumes "in_order s enq gone cs ds" "sd_queue s = []" "r \<notin> set enq"
  shows "in_order (append_deferred_stopped r s) (enq @ [r]) gone cs (ds @ [r])"
    "chain (sd_next (append_deferred_stopped r s)) p cs None \<longleftrightarrow> chain (sd_next s) p cs None"
proof -
  have d: "deferred s ds" "r \<notin> set ds" "r \<notin> set cs" "set ds \<inter> set cs = {}" using assms by (auto simp: in_order_def)
  show "in_order (append_deferred_stopped r s) (enq @ [r]) gone cs (ds @ [r])"
    using assms append_deferred(1) [OF d(1,2)] by (auto simp: in_order_def)
  show "chain (sd_next (append_deferred_stopped r s)) p cs None \<longleftrightarrow> chain (sd_next s) p cs None"
    by (rule append_deferred(2) [OF d])
qed

text \<open>Queued and deferred records become the batch of a drain.\<close>

lemma in_order_take:
  assumes "in_order s enq gone [] ds" "sd_queue s = []"
  shows "in_order (snd (take_deferred_stopped s)) enq gone ds []"
    "chain (sd_next (snd (take_deferred_stopped s))) (fst (take_deferred_stopped s)) ds None"
  using assms by (auto simp: in_order_def deferred_def take_deferred_stopped_def)

lemma take_deferred_fields [simp]:
  "sd_queue (snd (take_deferred_stopped s)) = sd_queue s" "sd_running (snd (take_deferred_stopped s)) = sd_running s"
  "sd_active (snd (take_deferred_stopped s)) = sd_active s" "sd_closed (snd (take_deferred_stopped s)) = sd_closed s"
  by (simp_all add: take_deferred_stopped_def)

section \<open>Invariant\<close>

fun guard_tok :: "guard \<Rightarrow> nat" where
  "guard_tok No_guard = 0" | "guard_tok (Calling b) = (if b then 2 else 1)" | "guard_tok (Called b) = (if b then 1 else 0)"

fun turn_fits :: "turn \<Rightarrow> addr list \<Rightarrow> strand \<Rightarrow> bool" where
  "turn_fits No_turn cs s \<longleftrightarrow> False"
| "turn_fits (Completing r) cs s \<longleftrightarrow> cs = [r]"
| "turn_fits Completed cs s \<longleftrightarrow> cs = []"
| "turn_fits (Draining p) cs s \<longleftrightarrow> chain (sd_next s) p cs None \<and> sd_closed s"

fun turns_of :: "(addr \<times> turn) option \<Rightarrow> addr \<Rightarrow> turn" where
  "turns_of None = (\<lambda>_. No_turn)"
| "turns_of (Some (th, t)) = (\<lambda>_. No_turn)(th := t)"

text \<open>
  \<open>own\<close> is the one thread that has a turn, and its turn.  While the strand is open and running,
  there is exactly one of: a thread about to launch a runner, a pending runner, a turn.  A closed strand
  with records left has a turn, which will drain them.
\<close>

definition flags_ok :: "strand \<Rightarrow> nat \<Rightarrow> (addr \<Rightarrow> guard) \<Rightarrow> (addr \<times> turn) option \<Rightarrow> addr list \<Rightarrow> addr list \<Rightarrow> bool" where
  "flags_ok s pending guards own cs ds \<longleftrightarrow>
     finite {th. guards th \<noteq> No_guard} \<and> (sd_active s \<longleftrightarrow> own \<noteq> None) \<and>
     (case own of None \<Rightarrow> cs = [] | Some (th, t) \<Rightarrow> turn_fits t cs s) \<and>
     (sd_active s \<longrightarrow> sd_running s) \<and>
     (sd_closed s \<longrightarrow> (sd_running s \<longrightarrow> sd_active s) \<and> (\<not> sd_active s \<longrightarrow> ds = [] \<and> sd_queue s = [])) \<and>
     (\<not> sd_closed s \<longrightarrow> ds = [] \<and> (sd_queue s \<noteq> [] \<longrightarrow> sd_running s) \<and>
        pending + weight_sum guard_tok guards + (if own = None then 0 else 1) = (if sd_running s then 1 else 0))"

definition strand_inv :: "strand_sys \<Rightarrow> (addr \<times> turn) option \<Rightarrow> addr list \<Rightarrow> addr list \<Rightarrow> bool" where
  "strand_inv y own cs ds \<longleftrightarrow>
     in_order (ss_strand y) (ss_enqueued y) (map fst (ss_log y)) cs ds \<and> ss_turns y = turns_of own \<and>
     flags_ok (ss_strand y) (ss_pending y) (ss_guards y) own cs ds \<and> (\<forall>r. ss_done y r \<longleftrightarrow> r \<in> fst ` set (ss_log y))"

definition strand_ok :: "strand_sys \<Rightarrow> bool" where
  "strand_ok y \<longleftrightarrow> (\<exists>own cs ds. strand_inv y own cs ds)"

lemma strand_ok_init: "strand_ok strand_sys_init"
proof -
  have "strand_inv strand_sys_init None [] []"
    by (simp add: strand_inv_def strand_sys_init_def strand_new_def in_order_def deferred_def flags_ok_def)
  then show ?thesis by (auto simp: strand_ok_def)
qed

lemma guard_finite: "finite {th. g th \<noteq> No_guard} \<Longrightarrow> finite {th. guard_tok (g th) \<noteq> 0}"
  by (rule finite_subset [of _ "{th. g th \<noteq> No_guard}"]) auto

lemma guard_finite_upd: "finite {th. g th \<noteq> No_guard} \<Longrightarrow> finite {s. (g(th := v)) s \<noteq> No_guard}"
  by (rule finite_subset [of _ "insert th {th. g th \<noteq> No_guard}"]) auto

lemma guard_tok_upd:
  "finite {th. g th \<noteq> No_guard} \<Longrightarrow> weight_sum guard_tok (g(th := v)) + guard_tok (g th) = weight_sum guard_tok g + guard_tok v"
  using weight_sum_upd(1) [of guard_tok g th v] guard_finite by blast

lemma launch_runner_tok:
  assumes "finite {th. g th \<noteq> No_guard}" "weight_sum guard_tok g = 0"
  shows "weight_sum guard_tok (g(th := launch_runner (g th))) = 1"
proof -
  have "guard_tok (g th) = 0" using weight_sum_ge [of guard_tok g th] guard_finite [OF assms(1)] assms(2) by simp
  then show ?thesis using guard_tok_upd [OF assms(1), of th "launch_runner (g th)"] assms(2)
    by (cases "g th") (auto split: if_splits)
qed

text \<open>A thread gets the turn and drains: all records left become its batch.\<close>

lemma drain_inv:
  assumes o: "in_order s enq gone [] ds" "sd_queue s = []" and c: "sd_closed s" and f: "finite {th. g th \<noteq> No_guard}"
    and t: "take_deferred_stopped s = (p, s1)" and s2: "s2 = s1\<lparr>sd_active := True, sd_running := True\<rparr>"
  shows "in_order s2 enq gone ds [] \<and> flags_ok s2 n g (Some (th, Draining p)) ds []"
proof -
  have "in_order s1 enq gone ds []" "chain (sd_next s1) p ds None" "sd_closed s1"
    using in_order_take [OF o] take_deferred_fields(4) [of s] c t by simp_all
  then show ?thesis using f s2 by (auto simp: flags_ok_def in_order_def deferred_def)
qed

definition sok :: "strand \<Rightarrow> addr list \<Rightarrow> addr list \<Rightarrow> nat \<Rightarrow> (addr \<Rightarrow> guard) \<Rightarrow> (addr \<times> turn) option \<Rightarrow> addr list \<Rightarrow> addr list \<Rightarrow> bool" where
  "sok s enq gone n g own cs ds \<longleftrightarrow> in_order s enq gone cs ds \<and> flags_ok s n g own cs ds"

lemma sok_parts:
  assumes "sok s enq gone n g own cs ds"
  shows "in_order s enq gone cs ds" "flags_ok s n g own cs ds" "finite {th. g th \<noteq> No_guard}"
    "\<not> sd_active s \<Longrightarrow> own = None" "\<not> sd_active s \<Longrightarrow> cs = []"
  using assms by (auto simp: sok_def flags_ok_def split: option.splits)

text \<open>What an action does to the guards and to the owner of the turn.\<close>

fun act_guards :: "addr \<Rightarrow> action \<Rightarrow> (addr \<Rightarrow> guard) \<Rightarrow> addr \<Rightarrow> guard" where
  "act_guards th Launch g = g(th := launch_runner (g th))"
| "act_guards th act g = g"

fun act_own :: "addr \<Rightarrow> action \<Rightarrow> (addr \<times> turn) option \<Rightarrow> (addr \<times> turn) option" where
  "act_own th (Drain p) own = Some (th, Draining p)"
| "act_own th (Turn r) own = Some (th, Completing r)"
| "act_own th act own = own"

definition sok_after :: "addr \<Rightarrow> action \<times> strand \<Rightarrow> addr list \<Rightarrow> addr list \<Rightarrow> nat \<Rightarrow> (addr \<Rightarrow> guard) \<Rightarrow> (addr \<times> turn) option \<Rightarrow> bool" where
  "sok_after th a enq gone n g own \<longleftrightarrow>
     (fst a \<noteq> Nothing \<longrightarrow> own = None) \<and>
     (\<exists>cs ds. sok (snd a) enq gone n (act_guards th (fst a) g) (act_own th (fst a) own) cs ds)"

lemma strand_ok_after:
  assumes "sok_after th a (ss_enqueued y) (map fst (ss_log y)) (ss_pending y) (ss_guards y) own" "ss_turns y = turns_of own"
    "\<forall>r. ss_done y r \<longleftrightarrow> r \<in> fst ` set (ss_log y)"
  shows "strand_ok (act_on th a y)"
proof (cases a)
  case (Pair act s)
  obtain cs ds where k: "sok s (ss_enqueued y) (map fst (ss_log y)) (ss_pending y) (act_guards th act (ss_guards y)) (act_own th act own) cs ds"
    and own: "act \<noteq> Nothing \<longrightarrow> own = None"
    using assms(1) Pair by (auto simp: sok_after_def)
  have "strand_inv (act_on th a y) (act_own th act own) cs ds"
    using k own assms(2,3) Pair by (cases act) (simp_all add: strand_inv_def sok_def)
  then show ?thesis by (auto simp: strand_ok_def)
qed

lemma start_drain_after:
  assumes "in_order s enq gone [] ds" "sd_queue s = []" "sd_closed s" "finite {th. g th \<noteq> No_guard}"
  shows "sok_after th (start_drain s) enq gone n g None"
proof -
  obtain p s1 where t: "take_deferred_stopped s = (p, s1)" by fastforce
  show ?thesis using drain_inv [OF assms t refl, of n th] by (auto simp: sok_after_def sok_def start_drain_def t)
qed

text \<open>The critical sections.\<close>

lemma shutdown_after:
  assumes k: "sok s enq gone n g own cs ds" and f: "finite {th. g' th \<noteq> No_guard}"
  shows "sok_after th (strand_shutdown s) enq gone n' g' own"
proof -
  let ?s = "s\<lparr>sd_closed := True\<rparr>"
  have o: "in_order ?s enq gone cs ds" using k by (simp add: sok_def in_order_def deferred_def)
  have F: "flags_ok s n g own cs ds" using k by (simp add: sok_def)
  show ?thesis
  proof (cases "sd_active s")
    case True
    have "turn_fits t cs s \<Longrightarrow> turn_fits t cs ?s" for t by (cases t) auto
    then have "flags_ok ?s n' g' own cs ds" using F f True by (auto simp: flags_ok_def split: option.splits)
    then show ?thesis using o True by (auto simp: sok_after_def sok_def strand_shutdown_def)
  next
    case False
    note own = sok_parts(4,5) [OF k False]
    show ?thesis
    proof (cases "sd_queue s = [] \<and> sd_head s = None")
      case True
      have "ds = []" using o True by (cases ds) (auto simp: in_order_def deferred_def)
      then have "in_order (?s\<lparr>sd_running := False\<rparr>) enq gone [] [] \<and> flags_ok (?s\<lparr>sd_running := False\<rparr>) n' g' None [] []"
        using o own True False f by (simp add: in_order_def deferred_def flags_ok_def)
      then show ?thesis using True False own by (auto simp: sok_after_def sok_def strand_shutdown_def)
    next
      case nonempty: False
      have "strand_shutdown s = start_drain (defer_queue ?s)" using False nonempty by (auto simp: strand_shutdown_def Let_def)
      then show ?thesis unfolding own(1) by (simp add: start_drain_after [OF in_order_defer(1) [OF o [unfolded own]]] f)
    qed
  qed
qed

lemma closed_enqueue_after:
  assumes k: "sok s enq gone n g own cs ds" and r: "r \<notin> set enq"
    and e: "s1 = append_deferred_stopped r (defer_queue (s\<lparr>sd_closed := True\<rparr>))"
  shows "sok_after th (if \<not> sd_active s1 then start_drain s1 else (Nothing, s1)) (enq @ [r]) gone n' g own"
proof -
  let ?s = "s\<lparr>sd_closed := True\<rparr>"
  have F: "flags_ok s n g own cs ds" and f: "finite {th. g th \<noteq> No_guard}" by (fact sok_parts [OF k])+
  have o: "in_order ?s enq gone cs ds" using k by (simp add: sok_def in_order_def deferred_def)
  note d = in_order_defer [OF o]
  have o1: "in_order s1 (enq @ [r]) gone cs (ds @ sd_queue s @ [r])"
    and ch: "chain (sd_next s1) p cs None \<longleftrightarrow> chain (sd_next s) p cs None" for p
    unfolding e using in_order_append [OF d(1) _ r] d(2) by simp_all
  have fl: "sd_active s1 = sd_active s" "sd_running s1 = sd_running s" "sd_closed s1" "sd_queue s1 = []" by (simp_all add: e)
  show ?thesis
  proof (cases "sd_active s")
    case True
    have "turn_fits t cs s \<Longrightarrow> turn_fits t cs s1" for t using ch fl by (cases t) auto
    then have "flags_ok s1 n' g own cs (ds @ sd_queue s @ [r])" using F True fl by (auto simp: flags_ok_def split: option.splits)
    then show ?thesis using o1 True fl by (auto simp: sok_after_def sok_def)
  next
    case False
    note own = sok_parts(4,5) [OF k False]
    show ?thesis using False fl start_drain_after [OF o1 [unfolded own]] f by (simp add: own)
  qed
qed

lemma enqueue_after:
  assumes k: "sok s enq gone n g own cs ds" and r: "r \<notin> set enq"
  shows "sok_after th (strand_enqueue alloc r s) (enq @ [r]) gone n g own"
proof -
  consider (closed) "sd_closed s" | (throws) "\<not> sd_closed s" "\<not> alloc" | (push) "\<not> sd_closed s" "alloc" by blast
  then show ?thesis
  proof cases
    case closed
    then have "s\<lparr>sd_closed := True\<rparr> = s" by simp
    from closed_enqueue_after [OF k r refl, of th n, unfolded this]
    show ?thesis using closed by (simp add: strand_enqueue_def Let_def)
  next
    case throws
    then show ?thesis using closed_enqueue_after [OF k r refl, of th n] by (simp add: strand_enqueue_def Let_def)
  next
    case push
    let ?s = "s\<lparr>sd_queue := sd_queue s @ [r]\<rparr>"
    have F: "flags_ok s n g own cs ds" and f: "finite {th. g th \<noteq> No_guard}" by (fact sok_parts [OF k])+
    have o: "in_order (?s\<lparr>sd_running := b\<rparr>) (enq @ [r]) gone cs ds" for b
      using k r by (auto simp: sok_def in_order_def deferred_def)
    have o': "in_order ?s (enq @ [r]) gone cs ds" using o [of "sd_running ?s"] by simp
    have tf: "turn_fits t cs s \<Longrightarrow> turn_fits t cs ?s" for t by (cases t) auto
    show ?thesis
    proof (cases "sd_running s")
      case True
      then have "flags_ok ?s n g own cs ds" using F push tf by (auto simp: flags_ok_def split: option.splits)
      then show ?thesis using o' True push by (auto simp: sok_after_def sok_def strand_enqueue_def Let_def)
    next
      case False
      then have "\<not> sd_active s" using F by (auto simp: flags_ok_def)
      then have own: "own = None" "cs = []" "ds = []" "n = 0" "weight_sum guard_tok g = 0"
        using F push False sok_parts(4,5) [OF k] by (auto simp: flags_ok_def)
      have "flags_ok (?s\<lparr>sd_running := True\<rparr>) n (g(th := launch_runner (g th))) None [] []"
        using False own launch_runner_tok [OF f own(5)] guard_finite_upd [OF f] F push by (auto simp: flags_ok_def)
      then show ?thesis using o [of True] own False push by (auto simp: sok_after_def sok_def strand_enqueue_def Let_def)
    qed
  qed
qed

lemma begin_after:
  assumes k: "sok s enq gone (n + 1) g own cs ds"
  shows "sok_after th (run_one_begin s) enq gone n g own"
proof -
  have F: "flags_ok s (n + 1) g own cs ds" and f: "finite {th. g th \<noteq> No_guard}" and o: "in_order s enq gone cs ds" by (fact sok_parts [OF k])+
  consider (active) "sd_active s" | (idle) "\<not> sd_active s" "sd_queue s = []" | (take) r rs where "\<not> sd_active s" "sd_queue s = r # rs"
    by (cases "sd_queue s") auto
  then show ?thesis
  proof cases
    case active
    then have "sd_closed s" using F by (auto simp: flags_ok_def)
    then have "flags_ok s n g own cs ds" using F by (auto simp: flags_ok_def)
    then show ?thesis using active o by (auto simp: sok_after_def sok_def run_one_begin_def)
  next
    case idle
    note own = sok_parts(4,5) [OF k idle(1)]
    have ds: "ds = []" using F idle by (auto simp: flags_ok_def)
    then have h: "sd_head s = None" using o by (simp add: in_order_def deferred_def)
    have "flags_ok (s\<lparr>sd_running := False\<rparr>) n g None [] []" "in_order (s\<lparr>sd_running := False\<rparr>) enq gone [] []"
      using F o idle ds own by (auto simp: flags_ok_def in_order_def deferred_def split: if_splits)
    then show ?thesis using idle h own by (auto simp: sok_after_def sok_def run_one_begin_def)
  next
    case (take r rs)
    note own = sok_parts(4,5) [OF k take(1)]
    have c: "\<not> sd_closed s" "ds = []" "sd_running s" using F take by (auto simp: flags_ok_def)
    have "flags_ok (s\<lparr>sd_active := True, sd_queue := rs\<rparr>) n g (Some (th, Completing r)) [r] []"
      "in_order (s\<lparr>sd_active := True, sd_queue := rs\<rparr>) enq gone [r] []"
      using F o take c own by (auto simp: flags_ok_def in_order_def deferred_def)
    then show ?thesis using take c own by (auto simp: sok_after_def sok_def run_one_begin_def)
  qed
qed

lemma end_after:
  assumes k: "sok s enq gone n g (Some (th, Completed)) cs ds"
  shows "sok_after th (run_one_end s) enq gone n g None"
proof -
  have F: "flags_ok s n g (Some (th, Completed)) cs ds" and f: "finite {th. g th \<noteq> No_guard}" and o: "in_order s enq gone cs ds" by (fact sok_parts [OF k])+
  have a: "cs = []" "sd_active s" "sd_running s" using F by (auto simp: flags_ok_def)
  consider (drain) "sd_closed s" "sd_queue s \<noteq> [] \<or> sd_head s \<noteq> None" | (idle) "\<not> (sd_closed s \<and> (sd_queue s \<noteq> [] \<or> sd_head s \<noteq> None))" "sd_queue s = []"
    | (launch) "\<not> sd_closed s" "sd_queue s \<noteq> []" by blast
  then show ?thesis
  proof cases
    case drain
    obtain p s1 where t: "take_deferred_stopped (defer_queue s) = (p, s1)" by fastforce
    have s1: "s1 = s1\<lparr>sd_active := True, sd_running := True\<rparr>" using take_deferred_fields [of "defer_queue s"] t a by simp
    from drain_inv [OF in_order_defer(1) [OF o [unfolded a(1)]] _ _ f t s1, of n th]
    have "sok s1 enq gone n g (Some (th, Draining p)) (ds @ sd_queue s) []" using drain(1) by (simp add: sok_def)
    then show ?thesis using drain t by (auto simp: sok_after_def run_one_end_def)
  next
    case idle
    have ds: "ds = []" using F o idle by (cases ds) (auto simp: flags_ok_def in_order_def deferred_def)
    have "flags_ok (s\<lparr>sd_active := False, sd_running := False\<rparr>) n g None [] []" "in_order (s\<lparr>sd_active := False, sd_running := False\<rparr>) enq gone [] []"
      using F o idle a ds by (auto simp: flags_ok_def in_order_def deferred_def)
    then show ?thesis using idle by (auto simp: sok_after_def sok_def run_one_end_def Let_def)
  next
    case launch
    then have ds: "ds = []" "n = 0" "weight_sum guard_tok g = 0" using F a by (auto simp: flags_ok_def)
    have "flags_ok (s\<lparr>sd_active := False\<rparr>) n (g(th := launch_runner (g th))) None [] []" "in_order (s\<lparr>sd_active := False\<rparr>) enq gone [] []"
      using F o launch a ds launch_runner_tok [OF f ds(3)] guard_finite_upd [OF f] by (auto simp: flags_ok_def in_order_def deferred_def)
    then show ?thesis using launch by (auto simp: sok_after_def sok_def run_one_end_def Let_def)
  qed
qed

lemma batch_after:
  assumes k: "sok s enq gone n g (Some (th, Draining None)) cs ds" and b: "batch_next s = (p, s')"
  shows "\<exists>cs ds. sok s' enq gone n g (if p = None then None else Some (th, Draining p)) cs ds"
proof -
  have F: "flags_ok s n g (Some (th, Draining None)) cs ds" and f: "finite {th. g th \<noteq> No_guard}" and o: "in_order s enq gone cs ds" by (fact sok_parts [OF k])+
  have "chain (sd_next s) None cs None" using F by (simp add: flags_ok_def)
  then have a: "cs = []" "sd_active s" "sd_running s" "sd_closed s" using F by (cases cs; auto simp: flags_ok_def)+
  obtain q s1 where t: "take_deferred_stopped (defer_queue s) = (q, s1)" by fastforce
  have s1: "s1 = s1\<lparr>sd_active := True, sd_running := True\<rparr>" "sd_closed s1" using take_deferred_fields [of "defer_queue s"] t a by simp_all
  from drain_inv [OF in_order_defer(1) [OF o [unfolded a(1)]] _ _ f t s1(1), of n th]
  have k1: "in_order s1 enq gone (ds @ sd_queue s) []" "flags_ok s1 n g (Some (th, Draining q)) (ds @ sd_queue s) []" using a by simp_all
  show ?thesis
  proof (cases q)
    case None
    then have e: "p = None" "s' = s1\<lparr>sd_active := False, sd_running := False\<rparr>" using b t by (auto simp: batch_next_def)
    have "ds @ sd_queue s = []" using k1(2) None by (cases "ds @ sd_queue s") (auto simp: flags_ok_def)
    moreover have "sd_queue s1 = []" using take_deferred_fields(1) [of "defer_queue s"] t by simp
    ultimately have "sok s' enq gone n g None [] []" using k1 s1 f unfolding e by (auto simp: sok_def flags_ok_def in_order_def deferred_def)
    then show ?thesis using e by auto
  next
    case (Some r)
    then have "p = q" "s' = s1" using b t by (auto simp: batch_next_def)
    then show ?thesis using k1 Some by (auto simp: sok_def)
  qed
qed

text \<open>Completion of the record of a turn, and of the next record of a batch.\<close>

lemma complete_inv:
  assumes I: "strand_inv y own cs ds" and t: "ss_turns y th = Completing r"
  shows "strand_inv (record_complete r g (y\<lparr>ss_turns := (ss_turns y)(th := Completed)\<rparr>)) (Some (th, Completed)) [] ds"
proof -
  have own: "own = Some (th, Completing r)" using I t by (cases own) (auto simp: strand_inv_def split: if_splits)
  then have cs: "cs = [r]" using I by (simp add: strand_inv_def flags_ok_def)
  have "\<not> ss_done y r" using I cs by (auto simp: strand_inv_def in_order_def)
  then show ?thesis using I own cs by (auto simp: strand_inv_def record_complete_def in_order_def flags_ok_def)
qed

lemma drain_step_inv:
  assumes I: "strand_inv y own cs ds" and t: "ss_turns y th = Draining (Some r)" and s: "s = ss_strand y"
  shows "\<exists>cs'. strand_inv (record_complete r g (y\<lparr>ss_turns := (ss_turns y)(th := Draining (sd_next s r)), ss_strand := s\<lparr>sd_next := (sd_next s)(r := None)\<rparr>\<rparr>))
           (Some (th, Draining (sd_next s r))) cs' ds"
proof -
  have own: "own = Some (th, Draining (Some r))" using I t by (cases own) (auto simp: strand_inv_def split: if_splits)
  then have "chain (sd_next s) (Some r) cs None" using I s by (simp add: strand_inv_def flags_ok_def)
  then obtain cs' where cs: "cs = r # cs'" and ch: "chain (sd_next s) (sd_next s r) cs' None" by (cases cs) auto
  have out: "r \<notin> set cs'" "r \<notin> set ds" "\<not> ss_done y r" using I cs by (auto simp: strand_inv_def in_order_def)
  let ?s = "s\<lparr>sd_next := (sd_next s)(r := None)\<rparr>"
  have o: "in_order s (ss_enqueued y) (map fst (ss_log y)) (r # cs') ds" using I s cs by (simp add: strand_inv_def)
  then have o': "in_order ?s (ss_enqueued y) (map fst (ss_log y) @ [r]) cs' ds" using out by (auto simp: in_order_def deferred_def)
  have F: "flags_ok s (ss_pending y) (ss_guards y) (Some (th, Draining (Some r))) cs ds" using I s own by (simp add: strand_inv_def)
  have "flags_ok ?s (ss_pending y) (ss_guards y) (Some (th, Draining (sd_next s r))) cs' ds"
    using F ch out by (auto simp: flags_ok_def)
  then have "strand_inv (record_complete r g (y\<lparr>ss_turns := (ss_turns y)(th := Draining (sd_next s r)), ss_strand := ?s\<rparr>))
      (Some (th, Draining (sd_next s r))) cs' ds"
    using I own out(3) o' by (auto simp: strand_inv_def record_complete_def)
  then show ?thesis by blast
qed

lemma turns_of_clear: "turns_of own th \<noteq> No_turn \<Longrightarrow> (turns_of own)(th := No_turn) = (\<lambda>_. No_turn) \<and> own = Some (th, turns_of own th)"
  by (cases own) (auto split: if_splits)

lemma strand_inv_sok:
  "strand_inv y own cs ds \<longleftrightarrow> sok (ss_strand y) (ss_enqueued y) (map fst (ss_log y)) (ss_pending y) (ss_guards y) own cs ds \<and>
     ss_turns y = turns_of own \<and> (\<forall>r. ss_done y r \<longleftrightarrow> r \<in> fst ` set (ss_log y))"
  by (auto simp: strand_inv_def sok_def)

lemma guard_step_inv:
  assumes "strand_inv y own cs ds" "ss_pending y + guard_tok (ss_guards y th) = n + guard_tok v"
  shows "strand_inv (y\<lparr>ss_guards := (ss_guards y)(th := v), ss_pending := n\<rparr>) own cs ds"
proof -
  have f: "finite {th. ss_guards y th \<noteq> No_guard}" using assms(1) by (simp add: strand_inv_def flags_ok_def)
  have "ss_pending y + weight_sum guard_tok (ss_guards y) = n + weight_sum guard_tok ((ss_guards y)(th := v))"
    using guard_tok_upd [OF f, of th v] assms(2) by linarith
  then have "flags_ok (ss_strand y) n ((ss_guards y)(th := v)) own cs ds"
    using assms(1) guard_finite_upd [OF f, of th v] unfolding strand_inv_def flags_ok_def by fastforce
  then show ?thesis using assms(1) by (simp add: strand_inv_def)
qed

lemma strand_work_ok: "strand_work y z \<Longrightarrow> strand_ok y \<Longrightarrow> strand_ok z"
proof (induction rule: strand_work.induct)
  case (launch y th b)
  then obtain own cs ds where I: "strand_inv y own cs ds" by (auto simp: strand_ok_def)
  have "guard_tok (ss_guards y th) = 1 + guard_tok (Called b)" using launch(1) by simp
  then show ?case using guard_step_inv [OF I, of th "ss_pending y + 1" "Called b"] unfolding strand_ok_def by auto
next
  case (launch_throws y th b)
  then obtain own cs ds where I: "strand_inv y own cs ds" by (auto simp: strand_ok_def)
  then have "finite {s. ss_guards y s \<noteq> No_guard}" by (simp add: strand_inv_def flags_ok_def)
  note f = guard_finite_upd [OF this, of th "Called b"]
  have "sok (ss_strand y) (ss_enqueued y) (map fst (ss_log y)) (ss_pending y) (ss_guards y) own cs ds" using I by (simp add: strand_inv_sok)
  note a = shutdown_after [where g' = "(ss_guards y)(th := Called b)", OF this f, of th "ss_pending y"]
  show ?case using I a by (intro strand_ok_after [where own = own]) (simp_all add: strand_inv_sok)
next
  case (launch_returns y th b)
  then obtain own cs ds where I: "strand_inv y own cs ds" by (auto simp: strand_ok_def)
  have "guard_tok (ss_guards y th) = guard_tok (launch_returns (Called b))" using launch_returns(1) by simp
  then have "strand_inv (y\<lparr>ss_guards := (ss_guards y)(th := launch_returns (Called b))\<rparr>) own cs ds"
    using guard_step_inv [OF I, of th "ss_pending y" "launch_returns (Called b)"] by simp
  then show ?case unfolding strand_ok_def by blast
next
  case (runner_value y th)
  then obtain own cs ds where I: "strand_inv y own cs ds" by (auto simp: strand_ok_def)
  have "ss_pending y = (ss_pending y - 1) + 1" using runner_value(1) by simp
  then show ?case using I begin_after [where n = "ss_pending y - 1"] by (intro strand_ok_after) (auto simp: strand_inv_sok)
next
  case (runner_stopped y th)
  then obtain own cs ds where I: "strand_inv y own cs ds" by (auto simp: strand_ok_def)
  then have f: "finite {s. ss_guards y s \<noteq> No_guard}" by (simp add: strand_inv_def flags_ok_def)
  show ?case using I shutdown_after [OF _ f] by (intro strand_ok_after) (auto simp: strand_inv_sok)
next
  case (complete y th r)
  then show ?case using complete_inv by (fastforce simp: strand_ok_def)
next
  case (turn_ends y th)
  then obtain own cs ds where I: "strand_inv y own cs ds" by (auto simp: strand_ok_def)
  have t: "own = Some (th, Completed)" "(turns_of own)(th := No_turn) = turns_of None"
    using turns_of_clear [of own th] I turn_ends(1) by (auto simp: strand_inv_def)
  show ?case using I end_after by (intro strand_ok_after [of _ _ _ None]) (auto simp: strand_inv_sok t)
next
  case (drain y th r s)
  then show ?case using drain_step_inv by (fastforce simp: strand_ok_def)
next
  case (drain_ends y th p s)
  then obtain own cs ds where I: "strand_inv y own cs ds" by (auto simp: strand_ok_def)
  have t: "own = Some (th, Draining None)" using turns_of_clear [of own th] I drain_ends(1) by (simp add: strand_inv_def)
  have "sok (ss_strand y) (ss_enqueued y) (map fst (ss_log y)) (ss_pending y) (ss_guards y) (Some (th, Draining None)) cs ds"
    using I t by (simp add: strand_inv_sok)
  from batch_after [OF this drain_ends(2)] obtain cs' ds' where
    k: "sok s (ss_enqueued y) (map fst (ss_log y)) (ss_pending y) (ss_guards y) (if p = None then None else Some (th, Draining p)) cs' ds'" by blast
  have "(ss_turns y)(th := if p = None then No_turn else Draining p) = turns_of (if p = None then None else Some (th, Draining p))"
    using I t by (auto simp: strand_inv_def)
  then have "strand_inv (y\<lparr>ss_turns := (ss_turns y)(th := if p = None then No_turn else Draining p), ss_strand := s\<rparr>)
      (if p = None then None else Some (th, Draining p)) cs' ds'"
    using I k by (simp add: strand_inv_sok)
  then show ?case unfolding strand_ok_def by blast
qed

lemma strand_step_ok: "strand_step y z \<Longrightarrow> strand_ok y \<Longrightarrow> strand_ok z"
proof (induction rule: strand_step.induct)
  case (start r y th stop alloc)
  then obtain own cs ds where "strand_inv y own cs ds" by (auto simp: strand_ok_def)
  then show ?case using enqueue_after start(1) unfolding strand_start_def by (intro strand_ok_after) (auto simp: strand_inv_sok)
next
  case (shutdown y th)
  then obtain own cs ds where I: "strand_inv y own cs ds" by (auto simp: strand_ok_def)
  then have f: "finite {s. ss_guards y s \<noteq> No_guard}" by (simp add: strand_inv_def flags_ok_def)
  show ?case using I shutdown_after [OF _ f] by (intro strand_ok_after) (auto simp: strand_inv_sok)
next
  case (work y z)
  then show ?case using strand_work_ok by blast
qed

lemma strand_reachable_ok: "strand_reachable y \<Longrightarrow> strand_ok y"
  by (induction rule: strand_reachable.induct) (auto intro: strand_step_ok strand_ok_init)

section \<open>Progress\<close>

fun guard_weight :: "guard \<Rightarrow> nat" where
  "guard_weight No_guard = 0" | "guard_weight (Calling b) = (if b then 13 else 6)" | "guard_weight (Called b) = (if b then 8 else 1)"

fun turn_weight :: "turn \<Rightarrow> nat" where
  "turn_weight No_turn = 0" | "turn_weight (Completing r) = 1" | "turn_weight Completed = 8" | "turn_weight (Draining p) = (if p = None then 2 else 1)"

definition strand_left :: "strand_sys \<Rightarrow> nat" where
  "strand_left y = 10 * (length (ss_enqueued y) - length (ss_log y)) + 4 * ss_pending y +
     weight_sum guard_weight (ss_guards y) + weight_sum turn_weight (ss_turns y)"

fun act_cost :: "action \<Rightarrow> nat" where
  "act_cost Nothing = 0" | "act_cost Launch = 7" | "act_cost (Drain p) = 2" | "act_cost (Turn r) = 1"

lemma act_costs:
  "act_cost (fst (strand_shutdown s)) \<le> 2" "act_cost (fst (run_one_begin s)) \<le> 2" "act_cost (fst (run_one_end s)) \<le> 7"
  by (auto simp: strand_shutdown_def run_one_begin_def run_one_end_def start_drain_def Let_def split: prod.splits list.splits)

lemma strand_ok_finite:
  assumes "strand_ok y"
  shows "finite {th. ss_guards y th \<noteq> No_guard}" "finite {th. guard_weight (ss_guards y th) \<noteq> 0}" "finite {th. turn_weight (ss_turns y th) \<noteq> 0}"
proof -
  obtain own cs ds where I: "strand_inv y own cs ds" using assms by (auto simp: strand_ok_def)
  then show f: "finite {th. ss_guards y th \<noteq> No_guard}" by (simp add: strand_inv_def flags_ok_def)
  show "finite {th. guard_weight (ss_guards y th) \<noteq> 0}" by (rule finite_subset [OF _ f]) auto
  have "{th. turn_weight (ss_turns y th) \<noteq> 0} \<subseteq> (case own of None \<Rightarrow> {} | Some (th, t) \<Rightarrow> {th})"
    using I by (cases own) (auto simp: strand_inv_def split: if_splits)
  then show "finite {th. turn_weight (ss_turns y th) \<noteq> 0}" by (rule finite_subset) (auto split: option.splits)
qed

lemma guard_weight_upd:
  "strand_ok y \<Longrightarrow> weight_sum guard_weight ((ss_guards y)(th := v)) + guard_weight (ss_guards y th) = weight_sum guard_weight (ss_guards y) + guard_weight v"
  using weight_sum_upd(1) [of guard_weight "ss_guards y" th v] strand_ok_finite(2) by blast

lemma turn_weight_upd:
  "strand_ok y \<Longrightarrow> weight_sum turn_weight ((ss_turns y)(th := v)) + turn_weight (ss_turns y th) = weight_sum turn_weight (ss_turns y) + turn_weight v"
  using weight_sum_upd(1) [of turn_weight "ss_turns y" th v] strand_ok_finite(3) by blast

text \<open>Nothing but a launch or a turn costs anything; a turn is only given to a thread without one.\<close>

lemma act_on_left:
  assumes g: "finite {th. guard_weight (ss_guards y th) \<noteq> 0}" and t: "finite {th. turn_weight (ss_turns y th) \<noteq> 0}"
  shows "strand_left (act_on th a y) \<le> strand_left y + act_cost (fst a)"
proof (cases a)
  case (Pair act s)
  show ?thesis
  proof (cases act)
    case Launch
    have "guard_weight (launch_runner (ss_guards y th)) \<le> guard_weight (ss_guards y th) + 7" by (cases "ss_guards y th") auto
    then have "weight_sum guard_weight ((ss_guards y)(th := launch_runner (ss_guards y th))) \<le> weight_sum guard_weight (ss_guards y) + 7"
      using weight_sum_upd(1) [of guard_weight "ss_guards y" th "launch_runner (ss_guards y th)"] g by linarith
    then show ?thesis using Launch Pair by (simp add: strand_left_def)
  next
    case (Drain p)
    then show ?thesis using weight_sum_upd(1) [of turn_weight "ss_turns y" th "Draining p"] t Pair by (auto simp: strand_left_def split: if_splits)
  next
    case (Turn r)
    then show ?thesis using weight_sum_upd(1) [of turn_weight "ss_turns y" th "Completing r"] t Pair by (auto simp: strand_left_def)
  qed (simp add: Pair strand_left_def)
qed

lemma strand_log_bound:
  assumes "strand_ok y"
  shows "length (ss_log y) \<le> length (ss_enqueued y)"
    "ss_turns y th = Completing r \<Longrightarrow> \<not> ss_done y r \<and> length (ss_log y) < length (ss_enqueued y)"
    "ss_turns y th = Draining (Some r) \<Longrightarrow> \<not> ss_done y r \<and> length (ss_log y) < length (ss_enqueued y)"
proof -
  obtain own cs ds where I: "strand_inv y own cs ds" using assms by (auto simp: strand_ok_def)
  have e: "length (ss_enqueued y) = length (ss_log y) + length cs + length ds + length (sd_queue (ss_strand y))"
    using I by (simp add: strand_inv_def in_order_def)
  then show "length (ss_log y) \<le> length (ss_enqueued y)" by simp
  have nd: "\<not> ss_done y r" if "r \<in> set cs" for r using I that by (auto simp: strand_inv_def in_order_def)
  show "ss_turns y th = Completing r \<Longrightarrow> \<not> ss_done y r \<and> length (ss_log y) < length (ss_enqueued y)"
    using turns_of_clear [of own th] I e nd by (auto simp: strand_inv_def flags_ok_def)
  show "ss_turns y th = Draining (Some r) \<Longrightarrow> \<not> ss_done y r \<and> length (ss_log y) < length (ss_enqueued y)"
    using turns_of_clear [of own th] I e nd by (cases cs) (auto simp: strand_inv_def flags_ok_def)
qed

lemma strand_work_less: "strand_work y z \<Longrightarrow> strand_ok y \<Longrightarrow> strand_left z < strand_left y"
proof (induction rule: strand_work.induct)
  case (launch y th b)
  then show ?case using guard_weight_upd [of y th "Called b"] by (auto simp: strand_left_def split: if_splits)
next
  case (launch_throws y th b)
  let ?y = "y\<lparr>ss_guards := (ss_guards y)(th := Called b)\<rparr>"
  have f: "finite {s. guard_weight (ss_guards ?y s) \<noteq> 0}" "finite {s. turn_weight (ss_turns ?y s) \<noteq> 0}"
    using weight_sum_upd(2) [of guard_weight "ss_guards y" th "Called b"] strand_ok_finite [OF launch_throws(2)] by auto
  have "strand_left ?y + 5 \<le> strand_left y" using guard_weight_upd [OF launch_throws(2), of th "Called b"] launch_throws(1)
    by (auto simp: strand_left_def split: if_splits)
  then show ?case using act_on_left [OF f, of th "strand_shutdown (ss_strand y)"] act_costs(1) [of "ss_strand y"] by linarith
next
  case (launch_returns y th b)
  then show ?case using guard_weight_upd [of y th "launch_returns (Called b)"] by (auto simp: strand_left_def split: if_splits)
next
  case (runner_value y th)
  let ?y = "y\<lparr>ss_pending := ss_pending y - 1\<rparr>"
  have f: "finite {s. guard_weight (ss_guards ?y s) \<noteq> 0}" "finite {s. turn_weight (ss_turns ?y s) \<noteq> 0}"
    using strand_ok_finite [OF runner_value(2)] by auto
  have "strand_left ?y + 4 \<le> strand_left y" using runner_value(1) by (auto simp: strand_left_def)
  then show ?case using act_on_left [OF f, of th "run_one_begin (ss_strand y)"] act_costs(2) [of "ss_strand y"] by linarith
next
  case (runner_stopped y th)
  let ?y = "y\<lparr>ss_pending := ss_pending y - 1\<rparr>"
  have f: "finite {s. guard_weight (ss_guards ?y s) \<noteq> 0}" "finite {s. turn_weight (ss_turns ?y s) \<noteq> 0}"
    using strand_ok_finite [OF runner_stopped(2)] by auto
  have "strand_left ?y + 4 \<le> strand_left y" using runner_stopped(1) by (auto simp: strand_left_def)
  then show ?case using act_on_left [OF f, of th "strand_shutdown (ss_strand y)"] act_costs(1) [of "ss_strand y"] by linarith
next
  case (complete y th r)
  then show ?case using turn_weight_upd [of y th Completed] strand_log_bound(2) [of y th r] by (auto simp: strand_left_def record_complete_def)
next
  case (turn_ends y th)
  let ?y = "y\<lparr>ss_turns := (ss_turns y)(th := No_turn)\<rparr>"
  have f: "finite {s. guard_weight (ss_guards ?y s) \<noteq> 0}" "finite {s. turn_weight (ss_turns ?y s) \<noteq> 0}"
    using weight_sum_upd(2) [of turn_weight "ss_turns y" th No_turn] strand_ok_finite [OF turn_ends(2)] by auto
  have "strand_left ?y + 8 \<le> strand_left y" using turn_weight_upd [OF turn_ends(2), of th No_turn] turn_ends(1)
    by (auto simp: strand_left_def)
  then show ?case using act_on_left [OF f, of th "run_one_end (ss_strand y)"] act_costs(3) [of "ss_strand y"] by linarith
next
  case (drain y th r s)
  then show ?case using turn_weight_upd [of y th "Draining (sd_next s r)"] strand_log_bound(3) [of y th r]
    by (auto simp: strand_left_def record_complete_def split: if_splits)
next
  case (drain_ends y th p s)
  then show ?case using turn_weight_upd [of y th "if p = None then No_turn else Draining p"] by (auto simp: strand_left_def split: if_splits)
qed

interpretation sw: draining strand_ok strand_work strand_left
  by unfold_locales (use strand_work_ok strand_work_less in blast)+

section \<open>Properties\<close>

text \<open>The signals the receivers get.\<close>

definition outcomes_ok :: "strand_sys \<Rightarrow> bool" where
  "outcomes_ok y \<longleftrightarrow> (\<forall>r g. (r, g) \<in> set (ss_log y) \<longrightarrow>
     (if g = Set_stopped then ss_stop_only y r \<or> sd_closed (ss_strand y) else \<not> ss_stop_only y r))"

lemma act_on_fields [simp]:
  "ss_log (act_on th a y) = ss_log y" "ss_stop_only (act_on th a y) = ss_stop_only y" "ss_strand (act_on th a y) = snd a"
  "ss_enqueued (act_on th a y) = ss_enqueued y"
  by (cases a; cases "fst a"; simp)+

lemma closed_stays:
  "sd_closed (snd (strand_shutdown s))" "sd_closed s \<Longrightarrow> sd_closed (snd (strand_enqueue alloc r s))"
  "sd_closed s \<Longrightarrow> sd_closed (snd (run_one_begin s))" "sd_closed s \<Longrightarrow> sd_closed (snd (run_one_end s))"
  "batch_next s = (p, s') \<Longrightarrow> sd_closed s' = sd_closed s"
  by (auto simp: strand_shutdown_def strand_enqueue_def run_one_begin_def run_one_end_def batch_next_def start_drain_def take_deferred_stopped_def
      Let_def split: list.splits option.splits)

lemma outcomes_ok_mono:
  "outcomes_ok y \<Longrightarrow> ss_log z = ss_log y \<Longrightarrow> ss_stop_only z = ss_stop_only y \<Longrightarrow> sd_closed (ss_strand y) \<longrightarrow> sd_closed (ss_strand z) \<Longrightarrow> outcomes_ok z"
  unfolding outcomes_ok_def by metis

lemma draining_closed:
  assumes "strand_ok y" "ss_turns y th = Draining p"
  shows "sd_closed (ss_strand y)"
proof -
  obtain own cs ds where I: "strand_inv y own cs ds" using assms by (auto simp: strand_ok_def)
  then show ?thesis using turns_of_clear [of own th] assms(2) by (auto simp: strand_inv_def flags_ok_def)
qed

lemma strand_work_outcomes: "strand_work y z \<Longrightarrow> strand_ok y \<Longrightarrow> outcomes_ok y \<Longrightarrow> outcomes_ok z"
proof (induction rule: strand_work.induct)
  case (complete y th r)
  then show ?case by (auto simp: outcomes_ok_def record_complete_def split: if_splits)
next
  case (drain y th r s)
  then show ?case using draining_closed [of y th "Some r"] by (auto simp: outcomes_ok_def record_complete_def split: if_splits)
qed (erule outcomes_ok_mono; simp add: closed_stays)+

lemma strand_reachable_outcomes: "strand_reachable y \<Longrightarrow> outcomes_ok y"
proof (induction rule: strand_reachable.induct)
  case init
  then show ?case by (simp add: outcomes_ok_def strand_sys_init_def)
next
  case (step y z)
  note ok = strand_reachable_ok [OF step.hyps(1)]
  from step.hyps(2) show ?case
  proof cases
    case (start r th stop alloc)
    obtain own cs ds where "strand_inv y own cs ds" using ok by (auto simp: strand_ok_def)
    then have "\<forall>g. (r, g) \<notin> set (ss_log y)" using start(2) by (force simp: strand_inv_def in_order_def)
    then show ?thesis using step.IH start closed_stays(2) [of "ss_strand y" alloc r] by (auto simp: outcomes_ok_def strand_start_def split: if_splits)
  next
    case (shutdown th)
    then show ?thesis using outcomes_ok_mono [OF step.IH] closed_stays(1) by simp
  next
    case work
    then show ?thesis using strand_work_outcomes ok step.IH by blast
  qed
qed

text \<open>
  C29.  In every reachable state of a strand: at most one thread has a turn, so that no two
  completions overlap; records complete in the order in which their operations were started, each
  at most once; a record gets \<open>set_value\<close> only if stop had not been requested when its operation was
  started, and \<open>set_stopped\<close> only if it had been or the strand has been closed.  \<open>wait\<close> on a
  thread that has no turn returns only when every record has completed.
\<close>

theorem strand_serial:
  assumes "strand_reachable y"
  shows "(\<forall>th th'. ss_turns y th \<noteq> No_turn \<and> ss_turns y th' \<noteq> No_turn \<longrightarrow> th = th') \<and>
         (\<exists>rest. ss_enqueued y = map fst (ss_log y) @ rest) \<and> distinct (ss_enqueued y) \<and>
         (\<forall>r. (r, Set_value) \<in> set (ss_log y) \<longrightarrow> \<not> ss_stop_only y r) \<and>
         (\<forall>r. (r, Set_stopped) \<in> set (ss_log y) \<longrightarrow> ss_stop_only y r \<or> sd_closed (ss_strand y)) \<and>
         (\<forall>th. ss_turns y th = No_turn \<and> strand_wait_returns th y \<longrightarrow> map fst (ss_log y) = ss_enqueued y)"
proof -
  obtain own cs ds where I: "strand_inv y own cs ds" using strand_reachable_ok [OF assms] by (auto simp: strand_ok_def)
  then have o: "ss_enqueued y = map fst (ss_log y) @ cs @ ds @ sd_queue (ss_strand y)" "distinct (ss_enqueued y)" "ss_turns y = turns_of own"
    by (auto simp: strand_inv_def in_order_def)
  have "th = th'" if "ss_turns y th \<noteq> No_turn \<and> ss_turns y th' \<noteq> No_turn" for th th'
    using that o(3) by (cases own) (auto split: if_splits)
  moreover have "map fst (ss_log y) = ss_enqueued y" if "ss_turns y th = No_turn \<and> strand_wait_returns th y" for th
  proof -
    have q: "sd_queue (ss_strand y) = []" "\<not> sd_running (ss_strand y)" using that by (auto simp: strand_wait_returns_def)
    have F: "flags_ok (ss_strand y) (ss_pending y) (ss_guards y) own cs ds" using I by (simp add: strand_inv_def)
    then have a: "\<not> sd_active (ss_strand y)" using q by (auto simp: flags_ok_def)
    then have "cs = []" "ds = []" using F q by (auto simp: flags_ok_def split: option.splits)
    then show ?thesis using o(1) q(1) by simp
  qed
  moreover have "((r, Set_value) \<in> set (ss_log y) \<longrightarrow> \<not> ss_stop_only y r) \<and> ((r, Set_stopped) \<in> set (ss_log y) \<longrightarrow> ss_stop_only y r \<or> sd_closed (ss_strand y))" for r
    using strand_reachable_outcomes [OF assms] unfolding outcomes_ok_def by (metis outcome.distinct(1))
  ultimately show ?thesis using o(1,2) by blast
qed

text \<open>
  C30.  No record is forgotten: provided the scheduler completes every runner it has accepted in
  some way, the threads take at most \<open>strand_left\<close> steps until something new is started, and in
  every state in which no step is left, every record has completed and \<open>wait\<close> returns on every
  thread.
\<close>

theorem strand_drains:
  assumes "strand_reachable y"
  shows "(\<forall>m z. (strand_work ^^ m) y z \<longrightarrow> m \<le> strand_left y) \<and>
         (\<exists>z. strand_work\<^sup>*\<^sup>* y z \<and> (\<forall>w. \<not> strand_work z w)) \<and>
         (\<forall>z. strand_work\<^sup>*\<^sup>* y z \<and> (\<forall>w. \<not> strand_work z w) \<longrightarrow>
            map fst (ss_log z) = ss_enqueued z \<and> (\<forall>th. strand_wait_returns th z))"
proof (intro conjI allI impI)
  have I: "strand_ok y" using assms by (rule strand_reachable_ok)
  show "(strand_work ^^ m) y z \<Longrightarrow> m \<le> strand_left y" for m z using sw.works_bounded [OF _ I] by fastforce
  show "\<exists>z. strand_work\<^sup>*\<^sup>* y z \<and> (\<forall>w. \<not> strand_work z w)" using sw.works_end [OF I] by blast
  fix z
  assume z: "strand_work\<^sup>*\<^sup>* y z \<and> (\<forall>w. \<not> strand_work z w)"
  then obtain own cs ds where Iz: "strand_inv z own cs ds" using sw.works_inv I unfolding strand_ok_def by blast
  have t: "ss_turns z th = No_turn" for th
  proof (cases "ss_turns z th")
    case (Draining p)
    obtain q s where "batch_next (ss_strand z) = (q, s)" by fastforce
    then show ?thesis using z Draining strand_work.drain [OF _ refl] strand_work.drain_ends by (cases p) blast+
  qed (use z strand_work.complete strand_work.turn_ends in blast)+
  have g: "ss_guards z th = No_guard" for th
    using z strand_work.launch strand_work.launch_returns by (cases "ss_guards z th") blast+
  have p: "ss_pending z = 0" using z strand_work.runner_value by blast
  have a: "\<not> sd_active (ss_strand z)"
  proof
    assume "sd_active (ss_strand z)"
    then obtain th u where "own = Some (th, u)" "turn_fits u cs (ss_strand z)" using Iz by (auto simp: strand_inv_def flags_ok_def)
    then show False using Iz t [of th] by (auto simp: strand_inv_def)
  qed
  have "weight_sum guard_tok (ss_guards z) = 0" using g by (simp add: weight_sum_def)
  moreover have F: "flags_ok (ss_strand z) (ss_pending z) (ss_guards z) own cs ds" using Iz by (simp add: strand_inv_def)
  ultimately have q: "sd_queue (ss_strand z) = []" "\<not> sd_running (ss_strand z)" "ds = []" "cs = []"
    using a p by (auto simp: flags_ok_def split: option.splits if_splits)
  show "map fst (ss_log z) = ss_enqueued z" using Iz q by (simp add: strand_inv_def in_order_def)
  show "strand_wait_returns th z" for th using q by (simp add: strand_wait_returns_def)
qed

section \<open>A concrete strand\<close>

text \<open>One operation has been started; its runner is about to be launched when the strand is shut down.\<close>

definition strand_demo :: strand_sys where
  "strand_demo = act_on 2 (strand_shutdown (ss_strand (strand_start 1 False True 5 strand_sys_init))) (strand_start 1 False True 5 strand_sys_init)"

lemma strand_demo_reachable: "strand_reachable strand_demo"
proof -
  have "5 \<notin> set (ss_enqueued strand_sys_init)" by (simp add: strand_sys_init_def)
  from strand_reachable.step [OF strand_reachable.step [OF strand_reachable.init strand_step.start [OF this]] strand_step.shutdown]
  show ?thesis by (simp add: strand_demo_def)
qed

lemma strand_demo_enqueued: "ss_enqueued strand_demo = [5]" "ss_log strand_demo = []"
  by (simp_all add: strand_demo_def strand_start_def strand_sys_init_def)

theorem strand_serial_witness: "distinct (ss_enqueued strand_demo) \<and> \<not> (ss_turns strand_demo 1 = No_turn \<and> strand_wait_returns 1 strand_demo)"
  using strand_serial [OF strand_demo_reachable] by (auto simp: strand_demo_enqueued)

theorem strand_drains_witness: "\<exists>z. strand_work\<^sup>*\<^sup>* strand_demo z \<and> map fst (ss_log z) = ss_enqueued z \<and> strand_wait_returns 7 z"
  using strand_drains [OF strand_demo_reachable] by blast

end
