(* ===== verification/Timer_Context.thy ===== *)
theory Timer_Context
  imports Complex_Main Progress
begin

text \<open>
  \<open>forge::timer_context\<close> (\<open>include/forge/timer_context.hpp\<close>): one worker thread delivers timers when
  their deadline has passed, when stop has been requested for them, or when the context is shut
  down; an operation may be destroyed while its timer is pending or is being delivered.

  Times and durations are ticks of the steady clock, a signed 64-bit count.  A step of
  the system is one critical section of the context's mutex or one atomic action of the worker or
  of a destructor; time passes, operations are started, stopped and destroyed at any point.
\<close>

section \<open>Clock arithmetic\<close>

definition ticks_max :: int where
  "ticks_max = 2 ^ 63 - 1"

text \<open>
  \<open>__saturating_nonnegative_duration_cast\<close>: \<open>ticks\<close> is the duration converted to clock ticks in
  \<open>long double\<close>, which the code takes as exact.
\<close>

definition saturating_cast :: "rat \<Rightarrow> int" where
  "saturating_cast ticks =
     (if \<not> ticks > 0 then 0 else if ticks \<ge> of_int ticks_max then ticks_max else \<lfloor>ticks\<rfloor>)"

definition saturating_time_difference :: "rat \<Rightarrow> rat \<Rightarrow> int" where
  "saturating_time_difference target now = saturating_cast (target - now)"

definition saturating_time_add :: "int \<Rightarrow> int \<Rightarrow> int" where
  "saturating_time_add base delay = (if delay > 0 \<and> base > ticks_max - delay then ticks_max else base + delay)"

record when_spec =
  w_relative :: bool
  w_delay :: int
  w_deadline :: int

definition when_at :: "int \<Rightarrow> when_spec" where
  "when_at deadline = \<lparr>w_relative = False, w_delay = 0, w_deadline = deadline\<rparr>"

definition when_after :: "int \<Rightarrow> when_spec" where
  "when_after delay = \<lparr>w_relative = True, w_delay = delay, w_deadline = 0\<rparr>"

definition resolve_at_start :: "int \<Rightarrow> when_spec \<Rightarrow> int" where
  "resolve_at_start now w = (if \<not> w_relative w then w_deadline w else saturating_time_add now (w_delay w))"

definition schedule_after :: "rat \<Rightarrow> when_spec" where
  "schedule_after delay = when_after (saturating_cast delay)"

text \<open>\<open>schedule_at\<close>: \<open>now\<close> is the time of the clock of \<open>time\<close>, \<open>steady_now\<close> that of the steady clock.\<close>

definition schedule_at :: "rat \<Rightarrow> rat \<Rightarrow> int \<Rightarrow> when_spec" where
  "schedule_at time now steady_now =
     (let delay = saturating_time_difference time now
      in if delay \<le> 0 then when_at steady_now else when_at (saturating_time_add steady_now delay))"

section \<open>The context\<close>

record titem =
  ti_deadline :: int
  ti_stop :: bool
  ti_delivered :: bool

record tctx =
  t_items :: "addr list"
  t_stop :: bool
  t_pending :: nat

definition tctx_new :: tctx where
  "tctx_new = \<lparr>t_items = [], t_stop = False, t_pending = 0\<rparr>"

definition timer_enqueue :: "addr \<Rightarrow> tctx \<Rightarrow> bool \<times> tctx" where
  "timer_enqueue i t =
     (if t_stop t then (False, t)
      else (True, t\<lparr>t_items := t_items t @ [i], t_pending := (t_pending t + 1) mod (size_max + 1)\<rparr>))"

definition timer_shutdown :: "tctx \<Rightarrow> tctx" where
  "timer_shutdown t = t\<lparr>t_stop := True\<rparr>"

definition pending_dec :: "tctx \<Rightarrow> tctx" where
  "pending_dec t = t\<lparr>t_pending := (t_pending t + size_max) mod (size_max + 1)\<rparr>"

text \<open>\<open>discard_item\<close>: no item is in the vector twice, so \<open>remove1\<close> erases what \<open>std::find\<close> finds.\<close>

definition discard_item :: "addr \<Rightarrow> tctx \<Rightarrow> bool \<times> tctx" where
  "discard_item i t =
     (if i \<notin> set (t_items t) then (False, t) else (True, pending_dec (t\<lparr>t_items := remove1 i (t_items t)\<rparr>)))"

definition timer_wait_returns :: "bool \<Rightarrow> tctx \<Rightarrow> bool" where
  "timer_wait_returns on_worker t \<longleftrightarrow> on_worker \<or> t_pending t = 0"

text \<open>\<open>std::min_element\<close>: the first item with the least deadline.\<close>

fun min_element :: "(addr \<Rightarrow> int) \<Rightarrow> addr list \<Rightarrow> addr option" where
  "min_element d [] = None"
| "min_element d (x # xs) = (case min_element d xs of None \<Rightarrow> Some x | Some m \<Rightarrow> if d m < d x then Some m else Some x)"

text \<open>
  What the worker does in its critical section: it leaves \<open>run\<close>, it takes an item and completes it
  with \<open>set_stopped\<close> or \<open>set_value\<close>, or it waits, at most for the given number of ticks.
\<close>

datatype choice = Leave | Take addr bool | Wait "int option"

definition max_wait_slice :: int where
  "max_wait_slice = 24 * 60 * 60 * 1000000000"

definition timer_choose :: "int \<Rightarrow> (addr \<Rightarrow> titem) \<Rightarrow> tctx \<Rightarrow> choice" where
  "timer_choose now item t =
     (if t_stop t then (if t_items t = [] then Leave else Take (last (t_items t)) True)
      else if t_items t = [] then Wait None
      else case find (\<lambda>i. ti_stop (item i)) (t_items t) of
        Some i \<Rightarrow> Take i True
      | None \<Rightarrow>
          (case min_element (\<lambda>i. ti_deadline (item i)) (t_items t) of
             None \<Rightarrow> Wait None
           | Some i \<Rightarrow>
               (if ti_deadline (item i) \<le> now then Take i False
                else Wait (Some (min (saturating_time_difference (of_int (ti_deadline (item i))) (of_int now)) max_wait_slice)))))"

definition timer_take :: "addr \<Rightarrow> tctx \<Rightarrow> tctx" where
  "timer_take i t = t\<lparr>t_items := remove1 i (t_items t)\<rparr>"

section \<open>The system\<close>

text \<open>
  The worker: in its critical section, about to complete an item, inside the receiver of an item,
  about to mark it delivered, about to decrement \<open>pending\<close>, gone.
\<close>

datatype worker = W_loop | W_deliver addr bool | W_receiving addr | W_finish addr | W_account | W_left

text \<open>
  The destructor of an operation: not called, it has claimed the completion, it waits for the
  delivery, it has returned, in a completion on its own call stack or not.
\<close>

datatype dtor = D_none | D_claimed | D_waiting | D_returned bool

record timer_sys =
  tm_ctx :: tctx
  tm_now :: int
  tm_item :: "addr \<Rightarrow> titem"
  tm_done :: "addr \<Rightarrow> bool"
  tm_claimed :: "addr \<Rightarrow> bool"
  tm_worker :: worker
  tm_dtor :: "addr \<Rightarrow> dtor"
  tm_started :: "addr list"
  tm_signals :: "(addr \<times> outcome) list"

definition timer_sys_init :: "int \<Rightarrow> timer_sys" where
  "timer_sys_init now = \<lparr>tm_ctx = tctx_new, tm_now = now, tm_item = (\<lambda>_. \<lparr>ti_deadline = 0, ti_stop = False, ti_delivered = False\<rparr>),
     tm_done = (\<lambda>_. False), tm_claimed = (\<lambda>_. False), tm_worker = W_loop, tm_dtor = (\<lambda>_. D_none), tm_started = [], tm_signals = []\<rparr>"

text \<open>\<open>complete_value\<close> and \<open>complete_stopped\<close> of the operation: whether the receiver is called.\<close>

definition op_complete :: "addr \<Rightarrow> outcome \<Rightarrow> timer_sys \<Rightarrow> bool \<times> timer_sys" where
  "op_complete i g y =
     (if tm_done y i then (False, y)
      else (True, y\<lparr>tm_done := (tm_done y)(i := True), tm_signals := tm_signals y @ [(i, g)]\<rparr>))"

definition finish_delivery :: "addr \<Rightarrow> timer_sys \<Rightarrow> timer_sys" where
  "finish_delivery i y = y\<lparr>tm_item := (tm_item y)(i := (tm_item y i)\<lparr>ti_delivered := True\<rparr>)\<rparr>"

text \<open>
  \<open>start\<close>: \<open>alloc\<close> says whether every allocation succeeds and the stop callback can be installed,
  \<open>stopped\<close> what the stop token says, \<open>late\<close> that stop is requested after that and before the
  item is in the vector.
\<close>

definition timer_start :: "bool \<Rightarrow> bool \<Rightarrow> bool \<Rightarrow> when_spec \<Rightarrow> addr \<Rightarrow> timer_sys \<Rightarrow> timer_sys" where
  "timer_start alloc stopped late w i y =
     (let y1 = y\<lparr>tm_started := tm_started y @ [i],
                 tm_item := (tm_item y)(i := \<lparr>ti_deadline = resolve_at_start (tm_now y) w, ti_stop = late, ti_delivered = False\<rparr>)\<rparr>;
          inline_stopped = finish_delivery i (snd (op_complete i Set_stopped y1))
      in if \<not> alloc \<or> stopped then inline_stopped
         else case timer_enqueue i (tm_ctx y1) of
           (True, t) \<Rightarrow> y1\<lparr>tm_ctx := t\<rparr>
         | (False, t) \<Rightarrow> inline_stopped)"

definition request_item_stop :: "addr \<Rightarrow> timer_sys \<Rightarrow> timer_sys" where
  "request_item_stop i y = y\<lparr>tm_item := (tm_item y)(i := (tm_item y i)\<lparr>ti_stop := True\<rparr>)\<rparr>"

text \<open>\<open>~__op\<close> up to \<open>discard_item\<close>; \<open>own_stack\<close>: the completion is on the call stack of the destructor.\<close>

definition op_destroy :: "bool \<Rightarrow> addr \<Rightarrow> timer_sys \<Rightarrow> timer_sys" where
  "op_destroy own_stack i y =
     (if tm_done y i then y\<lparr>tm_dtor := (tm_dtor y)(i := if own_stack then D_returned True else D_waiting)\<rparr>
      else y\<lparr>tm_done := (tm_done y)(i := True), tm_claimed := (tm_claimed y)(i := True), tm_dtor := (tm_dtor y)(i := D_claimed)\<rparr>)"

definition op_discard :: "addr \<Rightarrow> timer_sys \<Rightarrow> timer_sys" where
  "op_discard i y =
     (case discard_item i (tm_ctx y) of
        (True, t) \<Rightarrow> y\<lparr>tm_ctx := t, tm_dtor := (tm_dtor y)(i := D_returned False)\<rparr>
      | (False, t) \<Rightarrow> y\<lparr>tm_ctx := t, tm_dtor := (tm_dtor y)(i := D_waiting)\<rparr>)"

inductive timer_work :: "timer_sys \<Rightarrow> timer_sys \<Rightarrow> bool" where
  leave: "tm_worker y = W_loop \<Longrightarrow> timer_choose (tm_now y) (tm_item y) (tm_ctx y) = Leave \<Longrightarrow> timer_work y (y\<lparr>tm_worker := W_left\<rparr>)"
| take: "tm_worker y = W_loop \<Longrightarrow> timer_choose (tm_now y) (tm_item y) (tm_ctx y) = Take i b \<Longrightarrow>
     timer_work y (y\<lparr>tm_ctx := timer_take i (tm_ctx y), tm_worker := W_deliver i b\<rparr>)"
| deliver: "tm_worker y = W_deliver i b \<Longrightarrow> op_complete i (if b then Set_stopped else Set_value) y = (c, z) \<Longrightarrow>
     timer_work y (z\<lparr>tm_worker := if c then W_receiving i else W_finish i\<rparr>)"
| received: "tm_worker y = W_receiving i \<Longrightarrow> timer_work y (y\<lparr>tm_worker := W_finish i\<rparr>)"
| finish: "tm_worker y = W_finish i \<Longrightarrow> timer_work y (finish_delivery i (y\<lparr>tm_worker := W_account\<rparr>))"
| account: "tm_worker y = W_account \<Longrightarrow> timer_work y (y\<lparr>tm_worker := W_loop, tm_ctx := pending_dec (tm_ctx y)\<rparr>)"
| discard: "tm_dtor y i = D_claimed \<Longrightarrow> timer_work y (op_discard i y)"
| delivered: "tm_dtor y i = D_waiting \<Longrightarrow> ti_delivered (tm_item y i) \<Longrightarrow> timer_work y (y\<lparr>tm_dtor := (tm_dtor y)(i := D_returned False)\<rparr>)"

inductive timer_step :: "timer_sys \<Rightarrow> timer_sys \<Rightarrow> bool" where
  tick: "tm_now y \<le> now \<Longrightarrow> timer_step y (y\<lparr>tm_now := now\<rparr>)"
| start: "i \<notin> set (tm_started y) \<Longrightarrow> timer_step y (timer_start alloc stopped late w i y)"
| request_stop: "i \<in> set (tm_started y) \<Longrightarrow> timer_step y (request_item_stop i y)"
| shutdown: "timer_step y (y\<lparr>tm_ctx := timer_shutdown (tm_ctx y)\<rparr>)"
| destroy: "i \<in> set (tm_started y) \<Longrightarrow> tm_dtor y i = D_none \<Longrightarrow> own_stack \<longrightarrow> tm_worker y = W_receiving i \<Longrightarrow>
     timer_step y (op_destroy own_stack i y)"
| work: "timer_work y z \<Longrightarrow> timer_step y z"

inductive timer_reachable :: "int \<Rightarrow> timer_sys \<Rightarrow> bool" for now where
  init: "timer_reachable now (timer_sys_init now)"
| step: "timer_reachable now y \<Longrightarrow> timer_step y z \<Longrightarrow> timer_reachable now z"

section \<open>Choice of the next item\<close>

lemma min_element_spec:
  "xs \<noteq> [] \<Longrightarrow> \<exists>m. min_element d xs = Some m \<and> m \<in> set xs \<and> (\<forall>x \<in> set xs. d m \<le> d x)"
proof (induction xs)
  case (Cons x xs)
  then show ?case by (cases "xs = []") (fastforce split: option.splits)+
qed simp

lemma timer_choose_Take:
  assumes "timer_choose now item t = Take i b"
  shows "i \<in> set (t_items t)" "\<not> b \<Longrightarrow> ti_deadline (item i) \<le> now \<and> \<not> t_stop t"
    "\<not> b \<Longrightarrow> \<forall>j \<in> set (t_items t). ti_deadline (item i) \<le> ti_deadline (item j) \<and> \<not> ti_stop (item j)"
    "b \<Longrightarrow> t_stop t \<or> ti_stop (item i)"
proof -
  have "i \<in> set (t_items t) \<and> (\<not> b \<longrightarrow> ti_deadline (item i) \<le> now \<and> \<not> t_stop t \<and>
      (\<forall>j \<in> set (t_items t). ti_deadline (item i) \<le> ti_deadline (item j) \<and> \<not> ti_stop (item j))) \<and> (b \<longrightarrow> t_stop t \<or> ti_stop (item i))"
  proof (cases "t_stop t \<or> t_items t = []")
    case True
    then show ?thesis using assms by (auto simp: timer_choose_def split: if_splits)
  next
    case False
    then obtain m where m: "min_element (\<lambda>i. ti_deadline (item i)) (t_items t) = Some m" "m \<in> set (t_items t)"
      "\<forall>x \<in> set (t_items t). ti_deadline (item m) \<le> ti_deadline (item x)"
      using min_element_spec [of "t_items t" "\<lambda>i. ti_deadline (item i)"] by auto
    show ?thesis
    proof (cases "find (\<lambda>i. ti_stop (item i)) (t_items t)")
      case None
      have ns: "\<forall>j \<in> set (t_items t). \<not> ti_stop (item j)" using None by (simp add: find_None_iff)
      have "i = m \<and> \<not> b \<and> ti_deadline (item m) \<le> now" using assms False None m(1) by (auto simp: timer_choose_def split: if_splits)
      then show ?thesis using m ns False by blast
    next
      case (Some j)
      then have "i = j \<and> b" using assms False by (auto simp: timer_choose_def)
      moreover have "j \<in> set (t_items t)" "ti_stop (item j)" using Some by (auto simp: find_Some_iff)
      ultimately show ?thesis by blast
    qed
  qed
  then show "i \<in> set (t_items t)" "\<not> b \<Longrightarrow> ti_deadline (item i) \<le> now \<and> \<not> t_stop t"
    "\<not> b \<Longrightarrow> \<forall>j \<in> set (t_items t). ti_deadline (item i) \<le> ti_deadline (item j) \<and> \<not> ti_stop (item j)"
    "b \<Longrightarrow> t_stop t \<or> ti_stop (item i)" by blast+
qed

lemma timer_choose_Leave: "timer_choose now item t = Leave \<Longrightarrow> t_stop t \<and> t_items t = []"
  by (auto simp: timer_choose_def split: if_splits option.splits)

lemma timer_choose_Wait:
  assumes "timer_choose now item t = Wait m"
  shows "\<not> t_stop t" "i \<in> set (t_items t) \<Longrightarrow> now < ti_deadline (item i) \<and> \<not> ti_stop (item i)"
proof -
  show "\<not> t_stop t" using assms by (auto simp: timer_choose_def split: if_splits)
  assume i: "i \<in> set (t_items t)"
  then obtain k where k: "min_element (\<lambda>i. ti_deadline (item i)) (t_items t) = Some k" "\<forall>x \<in> set (t_items t). ti_deadline (item k) \<le> ti_deadline (item x)"
    using min_element_spec [of "t_items t" "\<lambda>i. ti_deadline (item i)"] by fastforce
  then show "now < ti_deadline (item i) \<and> \<not> ti_stop (item i)"
    using assms i by (force simp: timer_choose_def find_None_iff split: if_splits option.splits)
qed

section \<open>Invariant\<close>

text \<open>What the worker is doing with item \<open>i\<close>.\<close>

datatype hold = H_none | H_deliver bool | H_receiving | H_finish

fun hold_of :: "worker \<Rightarrow> addr \<Rightarrow> hold" where
  "hold_of (W_deliver j b) i = (if i = j then H_deliver b else H_none)"
| "hold_of (W_receiving j) i = (if i = j then H_receiving else H_none)"
| "hold_of (W_finish j) i = (if i = j then H_finish else H_none)"
| "hold_of w i = H_none"

fun owes :: "worker \<Rightarrow> nat" where
  "owes W_loop = 0" | "owes W_left = 0" | "owes w = 1"

text \<open>
  One operation: whether it has been started, whether its item is in the vector, what the worker
  does with it, the item, its flags, its signal and its destructor.
\<close>

definition op_core :: "bool \<Rightarrow> bool \<Rightarrow> hold \<Rightarrow> bool \<Rightarrow> bool \<Rightarrow> bool \<Rightarrow> bool \<Rightarrow> dtor \<Rightarrow> bool" where
  "op_core st q h dlv dn cl sg dt \<longleftrightarrow>
     (if \<not> st then \<not> q \<and> h = H_none \<and> \<not> dn \<and> \<not> cl \<and> \<not> sg \<and> dt = D_none
      else (dn \<longleftrightarrow> sg \<or> cl) \<and> \<not> (sg \<and> cl) \<and>
        (q \<longrightarrow> h = H_none \<and> \<not> dlv \<and> \<not> sg \<and> (dt = D_none \<or> dt = D_claimed)) \<and>
        (h \<noteq> H_none \<longrightarrow> \<not> dlv \<and> dt \<noteq> D_returned False) \<and>
        (\<not> q \<and> h = H_none \<longrightarrow> dlv \<or> dt = D_returned False) \<and>
        (dlv \<longrightarrow> dn) \<and> (sg \<longrightarrow> dlv \<or> h = H_receiving \<or> h = H_finish) \<and>
        (h = H_receiving \<longrightarrow> sg) \<and> (h = H_finish \<longrightarrow> dn) \<and>
        (dt = D_none \<longrightarrow> \<not> cl) \<and> (dt = D_claimed \<longrightarrow> cl) \<and> (dt = D_waiting \<longrightarrow> dn \<and> \<not> q) \<and>
        (dt = D_returned True \<longrightarrow> sg) \<and> (dt = D_returned False \<longrightarrow> dn))"

definition op_ok :: "int \<Rightarrow> bool \<Rightarrow> bool \<Rightarrow> hold \<Rightarrow> titem \<Rightarrow> bool \<Rightarrow> bool \<Rightarrow> outcome option \<Rightarrow> dtor \<Rightarrow> bool" where
  "op_ok now st q h it dn cl sg dt \<longleftrightarrow>
     op_core st q h (ti_delivered it) dn cl (sg \<noteq> None) dt \<and> (sg = Some Set_value \<or> h = H_deliver False \<longrightarrow> ti_deadline it \<le> now)"

lemmas op_defs = op_ok_def op_core_def

definition timer_inv :: "timer_sys \<Rightarrow> bool" where
  "timer_inv y \<longleftrightarrow>
     distinct (tm_started y) \<and> distinct (t_items (tm_ctx y)) \<and> distinct (map fst (tm_signals y)) \<and>
     t_pending (tm_ctx y) = (length (t_items (tm_ctx y)) + owes (tm_worker y)) mod (size_max + 1) \<and>
     (tm_worker y = W_left \<longrightarrow> t_stop (tm_ctx y) \<and> t_items (tm_ctx y) = []) \<and>
     (\<forall>i. op_ok (tm_now y) (i \<in> set (tm_started y)) (i \<in> set (t_items (tm_ctx y))) (hold_of (tm_worker y) i) (tm_item y i)
        (tm_done y i) (tm_claimed y i) (map_of (tm_signals y) i) (tm_dtor y i))"

lemma timer_inv_init: "timer_inv (timer_sys_init now)"
  by (simp add: timer_inv_def timer_sys_init_def tctx_new_def op_defs)

lemma timer_inv_op:
  "timer_inv y \<Longrightarrow> op_ok (tm_now y) (i \<in> set (tm_started y)) (i \<in> set (t_items (tm_ctx y))) (hold_of (tm_worker y) i) (tm_item y i)
     (tm_done y i) (tm_claimed y i) (map_of (tm_signals y) i) (tm_dtor y i)"
  by (simp add: timer_inv_def)

lemma length_remove1_in: "i \<in> set xs \<Longrightarrow> length (remove1 i xs) + 1 = length xs"
  by (induction xs) auto

lemma timer_inv_globals:
  assumes "timer_inv y"
  shows "distinct (tm_started y)" "distinct (t_items (tm_ctx y))" "distinct (map fst (tm_signals y))"
    "t_pending (tm_ctx y) = (length (t_items (tm_ctx y)) + owes (tm_worker y)) mod (size_max + 1)"
    "tm_worker y = W_left \<longrightarrow> t_stop (tm_ctx y) \<and> t_items (tm_ctx y) = []"
  using assms by (simp_all add: timer_inv_def)

lemma unsignalled: "map_of xs i = None \<Longrightarrow> i \<notin> fst ` set xs"
  by (simp add: map_of_eq_None_iff)

text \<open>An update of one operation.\<close>

lemma timer_inv_upd:
  assumes I: "timer_inv y"
    and g: "distinct (tm_started z)" "distinct (t_items (tm_ctx z))" "distinct (map fst (tm_signals z))"
      "t_pending (tm_ctx z) = (length (t_items (tm_ctx z)) + owes (tm_worker z)) mod (size_max + 1)"
      "tm_worker z = W_left \<longrightarrow> t_stop (tm_ctx z) \<and> t_items (tm_ctx z) = []"
    and o: "\<And>j. j \<noteq> i \<Longrightarrow> tm_now z = tm_now y \<and> (j \<in> set (tm_started z) \<longleftrightarrow> j \<in> set (tm_started y)) \<and> (j \<in> set (t_items (tm_ctx z)) \<longleftrightarrow> j \<in> set (t_items (tm_ctx y))) \<and>
       hold_of (tm_worker z) j = hold_of (tm_worker y) j \<and> tm_item z j = tm_item y j \<and> tm_done z j = tm_done y j \<and> tm_claimed z j = tm_claimed y j \<and>
       map_of (tm_signals z) j = map_of (tm_signals y) j \<and> tm_dtor z j = tm_dtor y j"
    and i: "op_ok (tm_now z) (i \<in> set (tm_started z)) (i \<in> set (t_items (tm_ctx z))) (hold_of (tm_worker z) i) (tm_item z i)
        (tm_done z i) (tm_claimed z i) (map_of (tm_signals z) i) (tm_dtor z i)"
  shows "timer_inv z"
proof -
  have "op_ok (tm_now z) (j \<in> set (tm_started z)) (j \<in> set (t_items (tm_ctx z))) (hold_of (tm_worker z) j) (tm_item z j)
        (tm_done z j) (tm_claimed z j) (map_of (tm_signals z) j) (tm_dtor z j)" for j
  proof (cases "j = i")
    case True
    then show ?thesis using i by simp
  next
    case False
    then show ?thesis using o [OF False] timer_inv_op [OF I, of j] by simp
  qed
  then show ?thesis using g by (simp add: timer_inv_def)
qed

text \<open>The steps.\<close>

lemma start_inv:
  assumes I: "timer_inv y" and i: "i \<notin> set (tm_started y)"
  shows "timer_inv (timer_start alloc stopped late w i y)"
proof -
  note O = timer_inv_op [OF I, of i]
  have n: "i \<notin> set (t_items (tm_ctx y))" "hold_of (tm_worker y) i = H_none" "\<not> tm_done y i" "\<not> tm_claimed y i" "map_of (tm_signals y) i = None" "tm_dtor y i = D_none"
    using O i by (simp_all add: op_defs)
  let ?it = "\<lparr>ti_deadline = resolve_at_start (tm_now y) w, ti_stop = late, ti_delivered = True\<rparr>"
  let ?a = "y\<lparr>tm_started := tm_started y @ [i], tm_item := (tm_item y)(i := ?it), tm_done := (tm_done y)(i := True), tm_signals := tm_signals y @ [(i, Set_stopped)]\<rparr>"
  let ?b = "y\<lparr>tm_started := tm_started y @ [i], tm_item := (tm_item y)(i := ?it\<lparr>ti_delivered := False\<rparr>),
    tm_ctx := (tm_ctx y)\<lparr>t_items := t_items (tm_ctx y) @ [i], t_pending := (t_pending (tm_ctx y) + 1) mod (size_max + 1)\<rparr>\<rparr>"
  have e: "timer_start alloc stopped late w i y = (if alloc \<and> \<not> stopped \<and> \<not> t_stop (tm_ctx y) then ?b else ?a)"
    using n(3) by (simp add: timer_start_def Let_def op_complete_def finish_delivery_def timer_enqueue_def)
  have a: "timer_inv ?a"
    by (rule timer_inv_upd [OF I, of _ i])
      (use i n unsignalled [OF n(5)] timer_inv_globals [OF I] in \<open>auto simp: op_defs map_add_def split: option.splits\<close>)
  have b: "timer_inv ?b" if "\<not> t_stop (tm_ctx y)"
    by (rule timer_inv_upd [OF I, of _ i]) (use that i n timer_inv_globals [OF I] in \<open>auto simp: op_defs mod_Suc_eq\<close>)
  show ?thesis unfolding e using a b by simp
qed

lemma destroy_inv:
  assumes I: "timer_inv y" and i: "i \<in> set (tm_started y)" "tm_dtor y i = D_none" "own_stack \<longrightarrow> tm_worker y = W_receiving i"
  shows "timer_inv (op_destroy own_stack i y)"
proof -
  note O = timer_inv_op [OF I, of i]
  show ?thesis
  proof (cases "tm_done y i")
    case True
    have e: "op_destroy own_stack i y = y\<lparr>tm_dtor := (tm_dtor y)(i := if own_stack then D_returned True else D_waiting)\<rparr>"
      using True by (simp add: op_destroy_def)
    have "op_ok (tm_now y) True (i \<in> set (t_items (tm_ctx y))) (hold_of (tm_worker y) i) (tm_item y i)
        (tm_done y i) (tm_claimed y i) (map_of (tm_signals y) i) (if own_stack then D_returned True else D_waiting)"
      using O i True by (auto simp: op_defs)
    then show ?thesis unfolding e
      by (intro timer_inv_upd [OF I, of _ i]) (use i(1) timer_inv_globals [OF I] in \<open>simp_all\<close>)
  next
    case False
    have e: "op_destroy own_stack i y = y\<lparr>tm_done := (tm_done y)(i := True), tm_claimed := (tm_claimed y)(i := True), tm_dtor := (tm_dtor y)(i := D_claimed)\<rparr>"
      using False by (simp add: op_destroy_def)
    have "op_ok (tm_now y) True (i \<in> set (t_items (tm_ctx y))) (hold_of (tm_worker y) i) (tm_item y i) True True (map_of (tm_signals y) i) D_claimed"
      using O i False by (auto simp: op_defs)
    then show ?thesis unfolding e
      by (intro timer_inv_upd [OF I, of _ i]) (use i(1) timer_inv_globals [OF I] in \<open>simp_all\<close>)
  qed
qed

lemma discard_inv:
  assumes I: "timer_inv y" and d: "tm_dtor y i = D_claimed"
  shows "timer_inv (op_discard i y)"
proof -
  note O = timer_inv_op [OF I, of i]
  have st: "i \<in> set (tm_started y)" "tm_claimed y i" using O d by (auto simp: op_defs split: if_splits)
  show ?thesis
  proof (cases "i \<in> set (t_items (tm_ctx y))")
    case True
    let ?n = "length (t_items (tm_ctx y)) + owes (tm_worker y)"
    have l: "length (remove1 i (t_items (tm_ctx y))) + owes (tm_worker y) = ?n - 1" "0 < ?n"
      using length_remove1_in [OF True] by linarith+
    have "t_pending (tm_ctx (op_discard i y)) = (?n - 1) mod (size_max + 1)"
      using I True dec_mod [OF l(2)] by (simp add: op_discard_def discard_item_def pending_dec_def timer_inv_def)
    then have p: "t_pending (tm_ctx (op_discard i y)) = (length (t_items (tm_ctx (op_discard i y))) + owes (tm_worker (op_discard i y))) mod (size_max + 1)"
      using True l(1) by (simp add: op_discard_def discard_item_def pending_dec_def)
    show ?thesis
      by (rule timer_inv_upd [OF I _ _ _ p, of i])
        (use timer_inv_globals [OF I] O st d True in \<open>auto simp: op_discard_def discard_item_def pending_dec_def op_defs\<close>)
  next
    case False
    then have e: "op_discard i y = y\<lparr>tm_dtor := (tm_dtor y)(i := D_waiting)\<rparr>" by (simp add: op_discard_def discard_item_def)
    show ?thesis unfolding e
      by (rule timer_inv_upd [OF I, of _ i]) (use timer_inv_globals [OF I] O st d False in \<open>auto simp: op_defs\<close>)
  qed
qed

text \<open>A step of the worker with item \<open>i\<close>.\<close>

lemma worker_inv:
  assumes I: "timer_inv y" and z: "z = y\<lparr>tm_worker := w, tm_done := (tm_done y)(i := dn), tm_signals := sg, tm_item := (tm_item y)(i := it), tm_ctx := t\<rparr>"
    and h: "\<And>j. j \<noteq> i \<Longrightarrow> hold_of w j = H_none \<and> hold_of (tm_worker y) j = H_none \<and> map_of sg j = map_of (tm_signals y) j \<and> (j \<in> set (t_items t) \<longleftrightarrow> j \<in> set (t_items (tm_ctx y)))"
    and g: "distinct (t_items t)" "distinct (map fst sg)" "t_pending t = (length (t_items t) + owes w) mod (size_max + 1)" "w \<noteq> W_left"
    and o: "op_ok (tm_now y) (i \<in> set (tm_started y)) (i \<in> set (t_items t)) (hold_of w i) it dn (tm_claimed y i) (map_of sg i) (tm_dtor y i)"
  shows "timer_inv z"
  unfolding z by (rule timer_inv_upd [OF I, of _ i]) (use h g o timer_inv_globals [OF I] in \<open>simp_all\<close>)

lemma take_inv:
  assumes I: "timer_inv y" and w: "tm_worker y = W_loop" and c: "timer_choose (tm_now y) (tm_item y) (tm_ctx y) = Take i b"
  shows "timer_inv (y\<lparr>tm_ctx := timer_take i (tm_ctx y), tm_worker := W_deliver i b\<rparr>)" (is "timer_inv ?z")
proof -
  note T = timer_choose_Take [OF c] and G = timer_inv_globals [OF I]
  have l: "length (remove1 i (t_items (tm_ctx y))) + 1 = length (t_items (tm_ctx y))"
    by (rule length_remove1_in [OF T(1)])
  have st: "i \<in> set (tm_started y)" using T(1) timer_inv_op [OF I, of i] by (auto simp: op_defs split: if_splits)
  have "op_ok (tm_now y) True False (H_deliver b) (tm_item y i) (tm_done y i) (tm_claimed y i) (map_of (tm_signals y) i) (tm_dtor y i)"
  proof -
    have "op_core True True H_none (ti_delivered (tm_item y i)) (tm_done y i) (tm_claimed y i) (map_of (tm_signals y) i \<noteq> None) (tm_dtor y i)"
      using timer_inv_op [OF I, of i] st T(1) w by (simp add: op_ok_def)
    then have "op_core True False (H_deliver b) (ti_delivered (tm_item y i)) (tm_done y i) (tm_claimed y i) (map_of (tm_signals y) i \<noteq> None) (tm_dtor y i)"
      "map_of (tm_signals y) i = None" by (auto simp: op_core_def)
    moreover have "b \<or> ti_deadline (tm_item y i) \<le> tm_now y" using T(2) by blast
    ultimately show ?thesis by (auto simp: op_ok_def)
  qed
  then show ?thesis
    by (intro worker_inv [OF I, where w = "W_deliver i b" and i = i and dn = "tm_done y i" and sg = "tm_signals y" and it = "tm_item y i" and t = "timer_take i (tm_ctx y)"])
      (use G l w st in \<open>simp_all add: timer_take_def\<close>)
qed

lemma deliver_inv:
  assumes I: "timer_inv y" and w: "tm_worker y = W_deliver i b" and c: "op_complete i g y = (k, z)" and g: "g = (if b then Set_stopped else Set_value)"
  shows "timer_inv (z\<lparr>tm_worker := if k then W_receiving i else W_finish i\<rparr>)"
proof -
  note G = timer_inv_globals [OF I] and O = timer_inv_op [OF I, of i]
  have st: "i \<in> set (tm_started y)" "i \<notin> set (t_items (tm_ctx y))" using O w by (auto simp: op_defs split: if_splits)
  show ?thesis
  proof (cases "tm_done y i")
    case True
    then have e: "k = False" "z = y" using c by (auto simp: op_complete_def)
    have "op_ok (tm_now y) True False H_finish (tm_item y i) (tm_done y i) (tm_claimed y i) (map_of (tm_signals y) i) (tm_dtor y i)"
      using O w st True by (auto simp: op_defs)
    then show ?thesis
      by (intro worker_inv [OF I, where w = "W_finish i" and i = i and dn = "tm_done y i" and sg = "tm_signals y" and it = "tm_item y i" and t = "tm_ctx y"])
        (use e G w st in \<open>simp_all\<close>)
  next
    case False
    then have e: "k = True" "z = y\<lparr>tm_done := (tm_done y)(i := True), tm_signals := tm_signals y @ [(i, g)]\<rparr>" using c by (auto simp: op_complete_def)
    have n: "map_of (tm_signals y) i = None" "\<not> tm_claimed y i" using O st False by (auto simp: op_defs)
    show ?thesis
      by (rule worker_inv [OF I, where w = "W_receiving i" and i = i and dn = True and sg = "tm_signals y @ [(i, g)]" and it = "tm_item y i" and t = "tm_ctx y"])
        (use e g G O w st n unsignalled [OF n(1)] False in \<open>auto simp: op_defs map_add_def split: option.splits if_splits\<close>)
  qed
qed

lemma received_inv:
  assumes I: "timer_inv y" and w: "tm_worker y = W_receiving i"
  shows "timer_inv (y\<lparr>tm_worker := W_finish i\<rparr>)"
  by (rule worker_inv [OF I, where w = "W_finish i" and i = i and dn = "tm_done y i" and sg = "tm_signals y" and it = "tm_item y i" and t = "tm_ctx y"])
    (use timer_inv_globals [OF I] timer_inv_op [OF I, of i] w in \<open>auto simp: op_defs split: if_splits\<close>)

lemma timer_finish_inv:
  assumes I: "timer_inv y" and w: "tm_worker y = W_finish i"
  shows "timer_inv (finish_delivery i (y\<lparr>tm_worker := W_account\<rparr>))"
  by (rule worker_inv [OF I, where w = W_account and i = i and dn = "tm_done y i" and sg = "tm_signals y" and it = "(tm_item y i)\<lparr>ti_delivered := True\<rparr>" and t = "tm_ctx y"])
    (use timer_inv_globals [OF I] timer_inv_op [OF I, of i] w in \<open>auto simp: finish_delivery_def op_defs split: if_splits\<close>)

lemma account_inv:
  assumes I: "timer_inv y" and w: "tm_worker y = W_account"
  shows "timer_inv (y\<lparr>tm_worker := W_loop, tm_ctx := pending_dec (tm_ctx y)\<rparr>)"
proof -
  have "t_pending (pending_dec (tm_ctx y)) = length (t_items (tm_ctx y)) mod (size_max + 1)"
    using timer_inv_globals(4) [OF I] w dec_mod [of "length (t_items (tm_ctx y)) + 1"] by (simp add: pending_dec_def)
  then show ?thesis
    by (intro worker_inv [OF I, where w = W_loop and i = 0 and dn = "tm_done y 0" and sg = "tm_signals y" and it = "tm_item y 0" and t = "pending_dec (tm_ctx y)"])
      (use timer_inv_globals [OF I] timer_inv_op [OF I, of 0] w in \<open>auto simp: pending_dec_def\<close>)
qed

lemma timer_work_inv: "timer_work y z \<Longrightarrow> timer_inv y \<Longrightarrow> timer_inv z"
proof (induction rule: timer_work.induct)
  case (leave y)
  then show ?case using timer_choose_Leave by (auto simp: timer_inv_def)
next
  case (deliver y i b c z)
  then show ?case using deliver_inv by blast
next
  case (delivered y i)
  then have "i \<in> set (tm_started y)" using timer_inv_op [OF delivered(3), of i] by (auto simp: op_defs split: if_splits)
  then show ?case using delivered timer_inv_op [OF delivered(3), of i] timer_inv_globals [OF delivered(3)]
    by (intro timer_inv_upd [OF delivered(3), of _ i]) (auto simp: op_defs)
qed (auto intro: take_inv deliver_inv received_inv timer_finish_inv account_inv discard_inv)

lemma timer_step_inv: "timer_step y z \<Longrightarrow> timer_inv y \<Longrightarrow> timer_inv z"
proof (induction rule: timer_step.induct)
  case (tick y now)
  have "op_ok (tm_now y) a b c d e f g h \<Longrightarrow> op_ok now a b c d e f g h" for a b c d e f g h
    using tick(1) unfolding op_ok_def by auto
  then show ?case using tick(2) by (simp add: timer_inv_def)
next
  case (request_stop i y)
  have "op_ok n a b c d e f g h \<Longrightarrow> op_ok n a b c (d\<lparr>ti_stop := True\<rparr>) e f g h" for n a b c d e f g h
    by (simp add: op_ok_def)
  then show ?case using timer_inv_op [OF request_stop(2), of i] timer_inv_globals [OF request_stop(2)]
    unfolding request_item_stop_def by (intro timer_inv_upd [OF request_stop(2), of _ i]) auto
next
  case (shutdown y)
  then show ?case by (auto simp: timer_inv_def timer_shutdown_def)
qed (auto intro: start_inv destroy_inv timer_work_inv)

lemma timer_reachable_inv: "timer_reachable now y \<Longrightarrow> timer_inv y"
  by (induction rule: timer_reachable.induct) (auto intro: timer_step_inv timer_inv_init)

section \<open>Progress\<close>

fun worker_weight :: "worker \<Rightarrow> nat" where
  "worker_weight W_left = 0" | "worker_weight W_loop = 1" | "worker_weight W_account = 2" | "worker_weight (W_finish i) = 3"
| "worker_weight (W_receiving i) = 4" | "worker_weight (W_deliver i b) = 5"

fun dtor_weight :: "dtor \<Rightarrow> nat" where
  "dtor_weight D_claimed = 2" | "dtor_weight D_waiting = 1" | "dtor_weight d = 0"

definition timer_left :: "timer_sys \<Rightarrow> nat" where
  "timer_left y = 6 * length (t_items (tm_ctx y)) + worker_weight (tm_worker y) + weight_sum dtor_weight (tm_dtor y)"

lemma dtor_finite:
  assumes "timer_inv y"
  shows "finite {i. dtor_weight (tm_dtor y i) \<noteq> 0}"
proof (rule finite_subset [of _ "set (tm_started y)"])
  have "i \<in> set (tm_started y)" if "tm_dtor y i \<noteq> D_none" for i
    using timer_inv_op [OF assms, of i] that by (auto simp: op_defs split: if_splits)
  moreover have "d \<noteq> D_none" if "dtor_weight d \<noteq> 0" for d using that by auto
  ultimately show "{i. dtor_weight (tm_dtor y i) \<noteq> 0} \<subseteq> set (tm_started y)" by blast
qed simp

lemma dtor_weight_upd:
  "timer_inv y \<Longrightarrow> weight_sum dtor_weight ((tm_dtor y)(i := v)) + dtor_weight (tm_dtor y i) = weight_sum dtor_weight (tm_dtor y) + dtor_weight v"
  using weight_sum_upd(1) [of dtor_weight "tm_dtor y" i v] dtor_finite by blast

lemma timer_work_less: "timer_work y z \<Longrightarrow> timer_inv y \<Longrightarrow> timer_left z < timer_left y"
proof (induction rule: timer_work.induct)
  case (take y i b)
  then show ?case using length_remove1_in [OF timer_choose_Take(1) [OF take(2)]] by (simp add: timer_left_def timer_take_def)
next
  case (deliver y i b c z)
  then show ?case by (auto simp: timer_left_def op_complete_def split: if_splits)
next
  case (discard y i)
  then show ?case using dtor_weight_upd [OF discard(2), of i "D_returned False"] dtor_weight_upd [OF discard(2), of i D_waiting]
    by (auto simp: timer_left_def op_discard_def discard_item_def pending_dec_def length_remove1)
next
  case (delivered y i)
  then show ?case using dtor_weight_upd [OF delivered(3), of i "D_returned False"] by (simp add: timer_left_def)
qed (simp_all add: timer_left_def finish_delivery_def pending_dec_def)

interpretation tw: draining timer_inv timer_work timer_left
  by unfold_locales (use timer_work_inv timer_work_less in blast)+

lemma timer_work_keeps:
  "timer_work y z \<Longrightarrow> tm_started z = tm_started y \<and> t_stop (tm_ctx z) = t_stop (tm_ctx y) \<and> tm_now z = tm_now y"
  by (induction rule: timer_work.induct)
    (auto simp: timer_take_def op_complete_def finish_delivery_def pending_dec_def op_discard_def discard_item_def split: if_splits)

lemma timer_works_keep:
  "timer_work\<^sup>*\<^sup>* y z \<Longrightarrow> tm_started z = tm_started y \<and> t_stop (tm_ctx z) = t_stop (tm_ctx y) \<and> tm_now z = tm_now y"
  by (induction rule: rtranclp_induct) (simp_all add: timer_work_keeps)

text \<open>In a state where no step is left, the worker sleeps or has left, and no destructor waits.\<close>

lemma timer_stuck:
  assumes I: "timer_inv z" and st: "\<forall>w. \<not> timer_work z w"
  shows "tm_worker z = W_left \<or> tm_worker z = W_loop \<and> (\<exists>m. timer_choose (tm_now z) (tm_item z) (tm_ctx z) = Wait m)"
    "tm_dtor z i \<noteq> D_claimed" "tm_dtor z i \<noteq> D_waiting"
proof -
  have P: "\<exists>c u. op_complete i g z = (c, u)" for i g by (rule surj_pair)
  show w: "tm_worker z = W_left \<or> tm_worker z = W_loop \<and> (\<exists>m. timer_choose (tm_now z) (tm_item z) (tm_ctx z) = Wait m)"
  proof (cases "tm_worker z")
    case W_loop
    then show ?thesis using st timer_work.leave timer_work.take by (cases "timer_choose (tm_now z) (tm_item z) (tm_ctx z)") blast+
  next
    case (W_deliver i b)
    then show ?thesis using st P timer_work.deliver by blast
  qed (use st timer_work.received timer_work.finish timer_work.account in blast)+
  show "tm_dtor z i \<noteq> D_claimed" using st timer_work.discard by blast
  show "tm_dtor z i \<noteq> D_waiting"
  proof
    assume d: "tm_dtor z i = D_waiting"
    have "hold_of (tm_worker z) i = H_none" using w by auto
    then have "ti_delivered (tm_item z i)" using timer_inv_op [OF I, of i] d by (auto simp: op_defs split: if_splits)
    then show False using st d timer_work.delivered by blast
  qed
qed

section \<open>Properties\<close>

text \<open>
  C31.  In every reachable state of a timer context: every started timer is in the vector, is being
  delivered, has been signalled, or has been abandoned by its destructor; a receiver is called at
  most once, never after its operation was abandoned, and with \<open>set_value\<close> never before
  the deadline.  When the destructor of an operation has returned, the worker is not delivering
  to it and never will, unless the destructor was called by the receiver itself.
\<close>

theorem timer_exactly_once:
  assumes "timer_reachable now0 y"
  shows "distinct (map fst (tm_signals y)) \<and> fst ` set (tm_signals y) \<subseteq> set (tm_started y) \<and>
         (\<forall>i \<in> set (tm_started y). i \<in> set (t_items (tm_ctx y)) \<or> hold_of (tm_worker y) i \<noteq> H_none \<or> i \<in> fst ` set (tm_signals y) \<or> tm_claimed y i) \<and>
         (\<forall>i. (i, Set_value) \<in> set (tm_signals y) \<longrightarrow> ti_deadline (tm_item y i) \<le> tm_now y) \<and>
         (\<forall>i. tm_claimed y i \<longrightarrow> i \<notin> fst ` set (tm_signals y)) \<and>
         (\<forall>i. tm_dtor y i = D_returned False \<longrightarrow> i \<notin> set (t_items (tm_ctx y)) \<and> hold_of (tm_worker y) i = H_none) \<and>
         (\<forall>i. tm_dtor y i = D_returned True \<longrightarrow> i \<notin> set (t_items (tm_ctx y)) \<and> i \<in> fst ` set (tm_signals y))"
proof -
  have I: "timer_inv y" using assms by (rule timer_reachable_inv)
  have m: "i \<in> fst ` set (tm_signals y) \<longleftrightarrow> map_of (tm_signals y) i \<noteq> None" for i by (simp add: map_of_eq_None_iff)
  have v: "(i, Set_value) \<in> set (tm_signals y) \<Longrightarrow> map_of (tm_signals y) i = Some Set_value" for i
    using timer_inv_globals(3) [OF I] by simp
  note O = timer_inv_op [OF I]
  have 1: "fst ` set (tm_signals y) \<subseteq> set (tm_started y)"
  proof
    fix i assume "i \<in> fst ` set (tm_signals y)"
    then show "i \<in> set (tm_started y)" using O [of i] m [of i] by (auto simp: op_defs split: if_splits)
  qed
  have 2: "i \<in> set (t_items (tm_ctx y)) \<or> hold_of (tm_worker y) i \<noteq> H_none \<or> i \<in> fst ` set (tm_signals y) \<or> tm_claimed y i" if "i \<in> set (tm_started y)" for i
    using O [of i] that unfolding m by (auto simp: op_defs)
  have 3: "ti_deadline (tm_item y i) \<le> tm_now y" if "(i, Set_value) \<in> set (tm_signals y)" for i
    using O [of i] v [OF that] by (simp add: op_ok_def)
  have 4: "i \<notin> fst ` set (tm_signals y)" if "tm_claimed y i" for i
    using O [of i] that unfolding m by (auto simp: op_defs split: if_splits)
  have 5: "i \<notin> set (t_items (tm_ctx y)) \<and> hold_of (tm_worker y) i = H_none" if "tm_dtor y i = D_returned False" for i
    using O [of i] that by (auto simp: op_defs split: if_splits)
  have 6: "i \<notin> set (t_items (tm_ctx y)) \<and> i \<in> fst ` set (tm_signals y)" if "tm_dtor y i = D_returned True" for i
    using O [of i] that unfolding m by (auto simp: op_defs split: if_splits)
  show ?thesis using timer_inv_globals(3) [OF I] 1 2 3 4 5 6 by blast
qed

text \<open>
  C32.  The worker and the destructors always come to rest: at a fixed time they take at most
  \<open>timer_left\<close> steps until something new happens, and in every state in which no step is left no
  destructor is waiting, every timer that is still in the vector has a later deadline and no stop
  request, all others have been signalled or abandoned, and \<open>wait\<close> returns if the vector is empty.
  After shutdown the vector is then empty and the worker has left, so that it can be joined.
\<close>

theorem timer_drains:
  assumes "timer_reachable now0 y" "length (tm_started y) \<le> size_max"
  shows "(\<forall>m z. (timer_work ^^ m) y z \<longrightarrow> m \<le> timer_left y) \<and>
         (\<exists>z. timer_work\<^sup>*\<^sup>* y z \<and> (\<forall>w. \<not> timer_work z w)) \<and>
         (\<forall>z. timer_work\<^sup>*\<^sup>* y z \<and> (\<forall>w. \<not> timer_work z w) \<longrightarrow>
            (\<forall>i. tm_dtor z i \<noteq> D_claimed \<and> tm_dtor z i \<noteq> D_waiting) \<and>
            (\<forall>i \<in> set (t_items (tm_ctx z)). tm_now y < ti_deadline (tm_item z i) \<and> \<not> ti_stop (tm_item z i)) \<and>
            (\<forall>i \<in> set (tm_started y). i \<in> set (t_items (tm_ctx z)) \<or> i \<in> fst ` set (tm_signals z) \<or> tm_claimed z i) \<and>
            t_pending (tm_ctx z) = length (t_items (tm_ctx z)) \<and>
            (t_stop (tm_ctx y) \<longrightarrow> tm_worker z = W_left \<and> timer_wait_returns False (tm_ctx z)))"
proof (intro conjI allI impI)
  have I: "timer_inv y" using assms(1) by (rule timer_reachable_inv)
  show "(timer_work ^^ m) y z \<Longrightarrow> m \<le> timer_left y" for m z using tw.works_bounded [OF _ I] by fastforce
  show "\<exists>z. timer_work\<^sup>*\<^sup>* y z \<and> (\<forall>w. \<not> timer_work z w)" using tw.works_end [OF I] by blast
  fix z
  assume z: "timer_work\<^sup>*\<^sup>* y z \<and> (\<forall>w. \<not> timer_work z w)"
  then have Iz: "timer_inv z" and k: "tm_started z = tm_started y" "t_stop (tm_ctx z) = t_stop (tm_ctx y)" "tm_now z = tm_now y"
    using tw.works_inv I timer_works_keep by blast+
  note S = timer_stuck [OF Iz conjunct2 [OF z]] and G = timer_inv_globals [OF Iz]
  show "tm_dtor z i \<noteq> D_claimed" "tm_dtor z i \<noteq> D_waiting" for i by (fact S(2), fact S(3))
  show "\<forall>i \<in> set (t_items (tm_ctx z)). tm_now y < ti_deadline (tm_item z i) \<and> \<not> ti_stop (tm_item z i)"
    using S(1) G(5) timer_choose_Wait(2) [of "tm_now z" "tm_item z" "tm_ctx z"] k(3) by force
  have h: "hold_of (tm_worker z) i = H_none" for i using S(1) by auto
  show "\<forall>i \<in> set (tm_started y). i \<in> set (t_items (tm_ctx z)) \<or> i \<in> fst ` set (tm_signals z) \<or> tm_claimed z i"
  proof
    fix i assume "i \<in> set (tm_started y)"
    then have "i \<in> set (tm_started z)" using k(1) by simp
    then show "i \<in> set (t_items (tm_ctx z)) \<or> i \<in> fst ` set (tm_signals z) \<or> tm_claimed z i"
      using timer_inv_op [OF Iz, of i] h [of i] by (auto simp: op_defs map_of_eq_None_iff)
  qed
  have "set (t_items (tm_ctx z)) \<subseteq> set (tm_started z)"
  proof
    fix i assume "i \<in> set (t_items (tm_ctx z))"
    then show "i \<in> set (tm_started z)" using timer_inv_op [OF Iz, of i] by (auto simp: op_defs split: if_splits)
  qed
  then have "length (t_items (tm_ctx z)) \<le> size_max"
    using card_mono [of "set (tm_started z)" "set (t_items (tm_ctx z))"] distinct_card [OF G(1)] distinct_card [OF G(2)] k(1) assms(2) by simp
  then show p: "t_pending (tm_ctx z) = length (t_items (tm_ctx z))" using G(4) S(1) by auto
  assume "t_stop (tm_ctx y)"
  then show w: "tm_worker z = W_left" using S(1) k(2) timer_choose_Wait(1) by auto
  then show "timer_wait_returns False (tm_ctx z)" using G(5) p by (simp add: timer_wait_returns_def)
qed

lemma saturating_cast_bounds: "0 \<le> saturating_cast r" "saturating_cast r \<le> ticks_max"
proof -
  have "\<lfloor>r\<rfloor> \<le> ticks_max" if "r < of_int ticks_max" using that by linarith
  then show "0 \<le> saturating_cast r" "saturating_cast r \<le> ticks_max"
    by (auto simp: saturating_cast_def ticks_max_def not_le)
qed

lemma saturating_time_add_eq:
  "0 \<le> d \<Longrightarrow> now \<le> ticks_max \<Longrightarrow> saturating_time_add now d = min ticks_max (now + d)"
  by (auto simp: saturating_time_add_def)

text \<open>
  The clock arithmetic saturates and stays in range: a requested delay becomes the number of
  whole ticks between 0 and the largest duration, and the deadline of a timer started at a
  representable time is that time plus the delay, or the end of time if this is not representable.
\<close>

theorem timer_deadline_bounds:
  assumes "- ticks_max - 1 \<le> now" "now \<le> ticks_max"
  shows "resolve_at_start now (schedule_after delay) = min ticks_max (now + saturating_cast delay) \<and>
         resolve_at_start later (schedule_at time clock_now now) = min ticks_max (now + saturating_cast (time - clock_now)) \<and>
         now \<le> resolve_at_start now (schedule_after delay) \<and> resolve_at_start now (schedule_after delay) \<le> ticks_max \<and>
         0 \<le> saturating_cast delay \<and> saturating_cast delay \<le> ticks_max \<and>
         saturating_cast delay = (if delay \<le> 0 then 0 else min ticks_max \<lfloor>delay\<rfloor>)"
proof -
  note B = saturating_cast_bounds
  have a: "resolve_at_start now (schedule_after delay) = min ticks_max (now + saturating_cast delay)"
    using saturating_time_add_eq [OF B(1) assms(2)] by (simp add: resolve_at_start_def schedule_after_def when_after_def)
  have b: "resolve_at_start later (schedule_at time clock_now now) = min ticks_max (now + saturating_cast (time - clock_now))"
    using saturating_time_add_eq [OF B(1) assms(2)] B(1) [of "time - clock_now"] assms(2)
    by (auto simp: resolve_at_start_def schedule_at_def when_at_def saturating_time_difference_def Let_def)
  have "saturating_cast delay = min ticks_max \<lfloor>delay\<rfloor>" if "0 < delay"
    using that by (auto simp: saturating_cast_def le_floor_iff not_le min_def)
  then have "saturating_cast delay = (if delay \<le> 0 then 0 else min ticks_max \<lfloor>delay\<rfloor>)"
    by (auto simp: saturating_cast_def)
  moreover have "now \<le> min ticks_max (now + saturating_cast delay)" using B(1) [of delay] assms(2) by simp
  ultimately show ?thesis using a b B by (metis min.cobounded1)
qed

theorem timer_deadline_bounds_witness:
  "resolve_at_start 100 (schedule_after (5 / 2)) = 102 \<and> resolve_at_start ticks_max (schedule_after 7) = ticks_max"
proof -
  have "\<lfloor>5 / 2 :: rat\<rfloor> = 2" by (rule floor_unique) simp_all
  then have "saturating_cast (5 / 2) = 2" "saturating_cast 7 = 7" by (simp_all add: saturating_cast_def ticks_max_def)
  then show ?thesis using timer_deadline_bounds [of 100 "5 / 2" 0 0 0] timer_deadline_bounds [of ticks_max 7 0 0 0] by (simp add: ticks_max_def)
qed

text \<open>
  What the worker does next: after shutdown it takes the items one by one and then leaves;
  otherwise an item with a stop request goes first, then an item whose deadline is the earliest, but
  only if it has passed; it sleeps only if neither kind of item exists, and never longer than until
  the earliest deadline.
\<close>

theorem timer_choose_spec:
  "(case timer_choose now item t of
      Leave \<Rightarrow> t_stop t \<and> t_items t = []
    | Take i b \<Rightarrow> i \<in> set (t_items t) \<and>
        (if b then t_stop t \<or> ti_stop (item i)
         else \<not> t_stop t \<and> ti_deadline (item i) \<le> now \<and> (\<forall>j \<in> set (t_items t). ti_deadline (item i) \<le> ti_deadline (item j) \<and> \<not> ti_stop (item j)))
    | Wait m \<Rightarrow> \<not> t_stop t \<and> (\<forall>j \<in> set (t_items t). now < ti_deadline (item j) \<and> \<not> ti_stop (item j)) \<and>
        (case m of None \<Rightarrow> t_items t = [] | Some d \<Rightarrow> t_items t \<noteq> [] \<and> (\<forall>j \<in> set (t_items t). d \<le> ti_deadline (item j) - now)))"
proof (cases "timer_choose now item t")
  case Leave
  then show ?thesis using timer_choose_Leave [OF Leave] by simp
next
  case (Take i b)
  then show ?thesis using timer_choose_Take [OF Take] by auto
next
  case (Wait m)
  note W = timer_choose_Wait [OF Wait]
  have "t_items t = []" if "m = None"
  proof (rule ccontr)
    assume "t_items t \<noteq> []"
    then show False using min_element_spec [of "t_items t" "\<lambda>i. ti_deadline (item i)"] Wait that
      by (auto simp: timer_choose_def split: if_splits option.splits)
  qed
  moreover have "t_items t \<noteq> [] \<and> (\<forall>j \<in> set (t_items t). d \<le> ti_deadline (item j) - now)" if m: "m = Some d" for d
  proof -
    have ne: "t_items t \<noteq> []" using Wait m by (auto simp: timer_choose_def split: if_splits)
    then obtain k where k: "min_element (\<lambda>i. ti_deadline (item i)) (t_items t) = Some k" "k \<in> set (t_items t)"
      "\<forall>x \<in> set (t_items t). ti_deadline (item k) \<le> ti_deadline (item x)"
      using min_element_spec [of "t_items t" "\<lambda>i. ti_deadline (item i)"] by blast
    have "d = min (saturating_time_difference (of_int (ti_deadline (item k))) (of_int now)) max_wait_slice"
      using Wait m W(1) ne k(1) by (auto simp: timer_choose_def split: if_splits option.splits)
    moreover have "saturating_time_difference (of_int (ti_deadline (item k))) (of_int now) \<le> ti_deadline (item k) - now"
    proof -
      have "saturating_cast (of_int n) \<le> n" if "0 < n" for n :: int
        using that by (auto simp: saturating_cast_def)
      from this [of "ti_deadline (item k) - now"] W(2) [OF k(2)] show ?thesis by (simp add: saturating_time_difference_def)
    qed
    ultimately show ?thesis using ne k(3) by force
  qed
  ultimately show ?thesis using W unfolding Wait by (auto split: option.splits)
qed

theorem timer_choose_spec_witness:
  "timer_choose 10 (\<lambda>i. \<lparr>ti_deadline = 5 + int i, ti_stop = False, ti_delivered = False\<rparr>) \<lparr>t_items = [7, 2, 1], t_stop = False, t_pending = 3\<rparr> = Take 1 False \<and>
   (case timer_choose 10 (\<lambda>i. \<lparr>ti_deadline = 5 + int i, ti_stop = False, ti_delivered = False\<rparr>) \<lparr>t_items = [7, 2, 1], t_stop = False, t_pending = 3\<rparr> of
      Take i b \<Rightarrow> i \<in> {1, 2, 7} | _ \<Rightarrow> False)"
proof -
  have e: "timer_choose 10 (\<lambda>i. \<lparr>ti_deadline = 5 + int i, ti_stop = False, ti_delivered = False\<rparr>) \<lparr>t_items = [7, 2, 1], t_stop = False, t_pending = 3\<rparr> = Take 1 False"
    by (simp add: timer_choose_def)
  then show ?thesis using timer_choose_spec [where now = 10 and item = "\<lambda>i. \<lparr>ti_deadline = 5 + int i, ti_stop = False, ti_delivered = False\<rparr>" and t = "\<lparr>t_items = [7, 2, 1], t_stop = False, t_pending = 3\<rparr>"]
    by simp
qed

section \<open>A concrete context\<close>

text \<open>Two timers are started at time 0; the first is due at time 5, the second is abandoned.\<close>

definition timer_demo :: timer_sys where
  "timer_demo = op_destroy False 2 ((timer_start True False False (when_at 9) 2 (timer_start True False False (when_after 5) 1 (timer_sys_init 0)))\<lparr>tm_now := 6\<rparr>)"

lemma timer_demo_reachable: "timer_reachable 0 timer_demo"
proof -
  let ?y1 = "timer_start True False False (when_after 5) 1 (timer_sys_init 0)"
  let ?y2 = "timer_start True False False (when_at 9) 2 ?y1"
  have e: "tm_started ?y1 = [1]" "tm_started ?y2 = [1, 2]" "tm_now ?y2 = 0" "tm_dtor ?y2 2 = D_none"
    by (simp_all add: timer_start_def timer_sys_init_def timer_enqueue_def tctx_new_def)
  have "1 \<notin> set (tm_started (timer_sys_init 0))" by (simp add: timer_sys_init_def)
  from timer_reachable.step [OF timer_reachable.init timer_step.start [OF this]] have "timer_reachable 0 ?y1" .
  moreover have "2 \<notin> set (tm_started ?y1)" using e by simp
  ultimately have r2: "timer_reachable 0 ?y2" using timer_reachable.step timer_step.start by blast
  have "tm_now ?y2 \<le> 6" using e by simp
  from timer_reachable.step [OF r2 timer_step.tick [OF this]] have r3: "timer_reachable 0 (?y2\<lparr>tm_now := 6\<rparr>)" .
  have "2 \<in> set (tm_started (?y2\<lparr>tm_now := 6\<rparr>))" "tm_dtor (?y2\<lparr>tm_now := 6\<rparr>) 2 = D_none" "False \<longrightarrow> tm_worker (?y2\<lparr>tm_now := 6\<rparr>) = W_receiving 2"
    using e by simp_all
  from timer_reachable.step [OF r3 timer_step.destroy [OF this]] show ?thesis by (simp add: timer_demo_def)
qed

lemma timer_demo_fields: "tm_started timer_demo = [1, 2]" "tm_claimed timer_demo 2"
  by (simp_all add: timer_demo_def timer_start_def timer_sys_init_def timer_enqueue_def tctx_new_def op_destroy_def)

theorem timer_exactly_once_witness: "2 \<notin> fst ` set (tm_signals timer_demo)"
  using timer_exactly_once [OF timer_demo_reachable] timer_demo_fields(2) by blast

theorem timer_drains_witness:
  "\<exists>z. timer_work\<^sup>*\<^sup>* timer_demo z \<and> tm_dtor z 2 \<noteq> D_waiting \<and> (1 \<in> set (t_items (tm_ctx z)) \<or> 1 \<in> fst ` set (tm_signals z) \<or> tm_claimed z 1)"
proof -
  have "length (tm_started timer_demo) \<le> size_max" "1 \<in> set (tm_started timer_demo)" by (simp_all add: timer_demo_fields size_max_def)
  then show ?thesis using timer_drains [OF timer_demo_reachable] by blast
qed

end
