(* ===== verification/Stop_Token.thy ===== *)
theory Stop_Token
  imports Progress
begin

text \<open>
  \<open>std::inplace_stop_source\<close> and \<open>std::inplace_stop_callback\<close>
  (\<open>backport/cpp26/execution/stop_token.hpp\<close>): a registry of callbacks that are invoked once when
  stop is requested, against constructors and destructors of callbacks on any thread.

  A callback and its control block are named by the same address; the control block is shared and
  outlives the callback.  A step is one critical section of the source's mutex or of a control
  block's mutex, or the invocation of a callback.  The detaching loop of \<open>request_stop\<close> runs under
  the source's mutex and is one step: a destructor that runs meanwhile either has seen its callback
  attached and waits for that mutex, or sees it detached and from then on only uses the control block.
\<close>

section \<open>The source\<close>

text \<open>\<open>prev\<close> points at the pointer that points at the callback: the source's head or the \<open>next\<close> of another callback.\<close>

datatype link = Head | Next_of addr

record cbase =
  cb_next :: ptr
  cb_prev :: "link option"

record ccontrol =
  cc_detached :: bool
  cc_running :: bool
  cc_cancelled :: bool
  cc_object :: bool
  cc_thread :: addr
  cc_next_detached :: ptr

record stop_source =
  so_stop :: bool
  so_callbacks :: ptr
  so_base :: "addr \<Rightarrow> cbase"
  so_control :: "addr \<Rightarrow> ccontrol"

definition stop_source_new :: stop_source where
  "stop_source_new = \<lparr>so_stop = False, so_callbacks = None, so_base = (\<lambda>_. \<lparr>cb_next = None, cb_prev = None\<rparr>),
     so_control = (\<lambda>_. \<lparr>cc_detached = False, cc_running = False, cc_cancelled = False, cc_object = False, cc_thread = 0, cc_next_detached = None\<rparr>)\<rparr>"

definition upd_base :: "addr \<Rightarrow> (cbase \<Rightarrow> cbase) \<Rightarrow> stop_source \<Rightarrow> stop_source" where
  "upd_base c f s = s\<lparr>so_base := (so_base s)(c := f (so_base s c))\<rparr>"

definition upd_control :: "addr \<Rightarrow> (ccontrol \<Rightarrow> ccontrol) \<Rightarrow> stop_source \<Rightarrow> stop_source" where
  "upd_control c f s = s\<lparr>so_control := (so_control s)(c := f (so_control s c))\<rparr>"

text \<open>The constructor of a callback makes a fresh control block.\<close>

definition callback_init :: "addr \<Rightarrow> stop_source \<Rightarrow> stop_source" where
  "callback_init c s =
     upd_control c (\<lambda>_. \<lparr>cc_detached = False, cc_running = False, cc_cancelled = False, cc_object = True, cc_thread = 0, cc_next_detached = None\<rparr>)
       (upd_base c (\<lambda>_. \<lparr>cb_next = None, cb_prev = None\<rparr>) s)"

definition try_add_callback :: "addr \<Rightarrow> stop_source \<Rightarrow> bool \<times> stop_source" where
  "try_add_callback c s =
     (if so_stop s then (False, s)
      else let s1 = upd_base c (\<lambda>b. b\<lparr>cb_next := so_callbacks s, cb_prev := Some Head\<rparr>) s;
               s2 = (case so_callbacks s1 of None \<Rightarrow> s1 | Some d \<Rightarrow> upd_base d (\<lambda>b. b\<lparr>cb_prev := Some (Next_of c)\<rparr>) s1)
           in (True, s2\<lparr>so_callbacks := Some c\<rparr>))"

text \<open>An assignment through \<open>prev\<close>.\<close>

fun store :: "link \<Rightarrow> ptr \<Rightarrow> stop_source \<Rightarrow> stop_source" where
  "store Head p s = s\<lparr>so_callbacks := p\<rparr>"
| "store (Next_of d) p s = upd_base d (\<lambda>b. b\<lparr>cb_next := p\<rparr>) s"

definition remove_callback :: "addr \<Rightarrow> stop_source \<Rightarrow> stop_source" where
  "remove_callback c s =
     (case cb_prev (so_base s c) of
        None \<Rightarrow> s
      | Some l \<Rightarrow>
          (let nx = cb_next (so_base s c);
               s1 = (case nx of None \<Rightarrow> s | Some d \<Rightarrow> upd_base d (\<lambda>b. b\<lparr>cb_prev := Some l\<rparr>) s);
               s2 = store l nx s1
           in upd_base c (\<lambda>b. b\<lparr>cb_next := None, cb_prev := None\<rparr>) s2))"

text \<open>
  The detaching loop of \<open>request_stop\<close> on thread \<open>th\<close>: it returns the head of the chain of detached
  control blocks.  Every callback has a control block.
\<close>

partial_function (option) detach_loop :: "addr \<Rightarrow> ptr \<Rightarrow> ptr \<Rightarrow> ptr \<Rightarrow> stop_source \<Rightarrow> (ptr \<times> stop_source) option" where
  "detach_loop th raw head prv s =
     (case raw of
        None \<Rightarrow> Some (head, s)
      | Some r \<Rightarrow>
          (let next_raw = cb_next (so_base s r);
               s1 = upd_control r (\<lambda>k. k\<lparr>cc_detached := True, cc_thread := th, cc_object := True, cc_cancelled := False, cc_next_detached := None\<rparr>) s;
               s2 = upd_base r (\<lambda>b. b\<lparr>cb_next := None, cb_prev := None\<rparr>) s1;
               head1 = (if head = None then Some r else head);
               s3 = (case prv of None \<Rightarrow> s2 | Some p \<Rightarrow> upd_control p (\<lambda>k. k\<lparr>cc_next_detached := Some r\<rparr>) s2)
           in detach_loop th next_raw head1 (Some r) s3))"

text \<open>The critical section of \<open>request_stop\<close>: \<open>None\<close> when stop had been requested before.\<close>

definition request_stop_begin :: "addr \<Rightarrow> stop_source \<Rightarrow> (ptr option \<times> stop_source) option" where
  "request_stop_begin th s =
     (if so_stop s then Some (None, s)
      else Option.bind (detach_loop th (so_callbacks s) None None (s\<lparr>so_stop := True, so_callbacks := None\<rparr>))
             (\<lambda>(head, s1). Some (Some head, s1)))"

text \<open>One iteration of the invoking loop, before and after the call: whether the callback is called.\<close>

definition invoke_begin :: "addr \<Rightarrow> stop_source \<Rightarrow> bool \<times> ptr \<times> stop_source" where
  "invoke_begin c s =
     (let head = cc_next_detached (so_control s c);
          s1 = upd_control c (\<lambda>k. k\<lparr>cc_next_detached := None\<rparr>) s;
          k = so_control s1 c
      in if \<not> cc_cancelled k \<and> cc_object k then (True, head, upd_control c (\<lambda>k. k\<lparr>cc_running := True\<rparr>) s1) else (False, head, s1))"

definition invoke_end :: "addr \<Rightarrow> stop_source \<Rightarrow> stop_source" where
  "invoke_end c s = upd_control c (\<lambda>k. k\<lparr>cc_running := False, cc_cancelled := True, cc_object := False\<rparr>) s"

text \<open>The last section of the destructor: whether it has to wait for a call on another thread.\<close>

definition callback_cancel :: "addr \<Rightarrow> addr \<Rightarrow> stop_source \<Rightarrow> bool \<times> stop_source" where
  "callback_cancel td c s =
     (let s1 = upd_control c (\<lambda>k. k\<lparr>cc_cancelled := True, cc_object := False\<rparr>) s
      in (cc_running (so_control s1 c) \<and> cc_thread (so_control s1 c) \<noteq> td, s1))"

section \<open>The system\<close>

text \<open>
  The call of \<open>request_stop\<close> that detached the callbacks: the thread, and where it is.
  A callback: not constructed; registered; without a source, because its token had none or because
  stop had been requested before; in its
  destructor on a thread, before and after it has been removed from the list, waiting for a call; gone,
  with the thread of the destructor.
\<close>

datatype requester = R_none | R_loop addr ptr | R_calling addr addr ptr | R_after addr addr ptr | R_returned

datatype callback = C_none | C_registered | C_free | D_read addr bool | D_unlinked addr | D_waiting addr | C_gone addr

record stop_sys =
  st_source :: stop_source
  st_requester :: requester
  st_callback :: "addr \<Rightarrow> callback"
  st_invoked :: "addr list"

definition stop_sys_init :: stop_sys where
  "stop_sys_init = \<lparr>st_source = stop_source_new, st_requester = R_none, st_callback = (\<lambda>_. C_none), st_invoked = []\<rparr>"

text \<open>The constructor: a callback that comes too late is called at once.\<close>

definition callback_construct :: "addr \<Rightarrow> stop_sys \<Rightarrow> stop_sys" where
  "callback_construct c y =
     (case try_add_callback c (callback_init c (st_source y)) of
        (True, s) \<Rightarrow> y\<lparr>st_source := s, st_callback := (st_callback y)(c := C_registered)\<rparr>
      | (False, s) \<Rightarrow> y\<lparr>st_source := s, st_callback := (st_callback y)(c := C_free), st_invoked := st_invoked y @ [c]\<rparr>)"

text \<open>The destructor: it reads \<open>detached\<close>, removes the callback if it is attached, and cancels it.\<close>

definition destroy_read :: "addr \<Rightarrow> addr \<Rightarrow> stop_sys \<Rightarrow> stop_sys" where
  "destroy_read td c y =
     y\<lparr>st_callback := (st_callback y)(c := D_read td (st_callback y c \<noteq> C_free \<and> \<not> cc_detached (so_control (st_source y) c)))\<rparr>"

definition destroy_remove :: "addr \<Rightarrow> bool \<Rightarrow> addr \<Rightarrow> stop_sys \<Rightarrow> stop_sys" where
  "destroy_remove td b c y =
     y\<lparr>st_source := (if b then remove_callback c (st_source y) else st_source y), st_callback := (st_callback y)(c := D_unlinked td)\<rparr>"

definition destroy_cancel :: "addr \<Rightarrow> addr \<Rightarrow> stop_sys \<Rightarrow> stop_sys" where
  "destroy_cancel td c y =
     (case callback_cancel td c (st_source y) of (w, s) \<Rightarrow>
        y\<lparr>st_source := s, st_callback := (st_callback y)(c := if w then D_waiting td else C_gone td)\<rparr>)"

inductive stop_work :: "stop_sys \<Rightarrow> stop_sys \<Rightarrow> bool" where
  call: "st_requester y = R_loop th (Some c) \<Longrightarrow> invoke_begin c (st_source y) = (True, p, s) \<Longrightarrow>
     stop_work y (y\<lparr>st_source := s, st_requester := R_calling th c p, st_invoked := st_invoked y @ [c]\<rparr>)"
| skip: "st_requester y = R_loop th (Some c) \<Longrightarrow> invoke_begin c (st_source y) = (False, p, s) \<Longrightarrow>
     stop_work y (y\<lparr>st_source := s, st_requester := R_after th c p\<rparr>)"
| called: "st_requester y = R_calling th c p \<Longrightarrow> stop_work y (y\<lparr>st_requester := R_after th c p\<rparr>)"
| after: "st_requester y = R_after th c p \<Longrightarrow>
     stop_work y (y\<lparr>st_source := invoke_end c (st_source y), st_requester := R_loop th p\<rparr>)"
| returns: "st_requester y = R_loop th None \<Longrightarrow> stop_work y (y\<lparr>st_requester := R_returned\<rparr>)"
| remove: "st_callback y c = D_read td b \<Longrightarrow> stop_work y (destroy_remove td b c y)"
| cancel: "st_callback y c = D_unlinked td \<Longrightarrow> stop_work y (destroy_cancel td c y)"
| waited: "st_callback y c = D_waiting td \<Longrightarrow> \<not> cc_running (so_control (st_source y) c) \<Longrightarrow>
     stop_work y (y\<lparr>st_callback := (st_callback y)(c := C_gone td)\<rparr>)"

inductive stop_step :: "stop_sys \<Rightarrow> stop_sys \<Rightarrow> bool" where
  construct: "st_callback y c = C_none \<Longrightarrow> stop_step y (callback_construct c y)"
| construct_free: "st_callback y c = C_none \<Longrightarrow>
     stop_step y (y\<lparr>st_source := callback_init c (st_source y), st_callback := (st_callback y)(c := C_free)\<rparr>)"
| request: "request_stop_begin th (st_source y) = Some (Some head, s) \<Longrightarrow>
     stop_step y (y\<lparr>st_source := s, st_requester := R_loop th head\<rparr>)"
| request_again: "request_stop_begin th (st_source y) = Some (None, s) \<Longrightarrow> stop_step y (y\<lparr>st_source := s\<rparr>)"
| destroy: "st_callback y c = C_registered \<or> st_callback y c = C_free \<Longrightarrow> stop_step y (destroy_read td c y)"
| work: "stop_work y z \<Longrightarrow> stop_step y z"

inductive stop_reachable :: "stop_sys \<Rightarrow> bool" where
  init: "stop_reachable stop_sys_init"
| step: "stop_reachable y \<Longrightarrow> stop_step y z \<Longrightarrow> stop_reachable z"

section \<open>The list of attached callbacks\<close>

fun lchain :: "(addr \<Rightarrow> link option) \<Rightarrow> link \<Rightarrow> addr list \<Rightarrow> bool" where
  "lchain pv l [] \<longleftrightarrow> True"
| "lchain pv l (x # xs) \<longleftrightarrow> pv x = Some l \<and> lchain pv (Next_of x) xs"

definition link_after :: "link \<Rightarrow> addr list \<Rightarrow> link" where
  "link_after l xs = (if xs = [] then l else Next_of (last xs))"

lemma lchain_append: "lchain pv l (xs @ ys) \<longleftrightarrow> lchain pv l xs \<and> lchain pv (link_after l xs) ys"
  by (induction xs arbitrary: l) (auto simp: link_after_def)

lemma lchain_upd [simp]: "x \<notin> set xs \<Longrightarrow> lchain (pv(x := v)) l xs \<longleftrightarrow> lchain pv l xs"
  by (induction xs arbitrary: l) auto

abbreviation nexts :: "stop_source \<Rightarrow> addr \<Rightarrow> ptr" where "nexts s \<equiv> \<lambda>c. cb_next (so_base s c)"
abbreviation prevs :: "stop_source \<Rightarrow> addr \<Rightarrow> link option" where "prevs s \<equiv> \<lambda>c. cb_prev (so_base s c)"

definition attached :: "stop_source \<Rightarrow> addr list \<Rightarrow> bool" where
  "attached s cs \<longleftrightarrow>
     chain (nexts s) (so_callbacks s) cs None \<and> lchain (prevs s) Head cs \<and> (\<forall>c. c \<notin> set cs \<longrightarrow> prevs s c = None)"

lemma nexts_upd:
  "nexts (upd_base c f s) = (nexts s)(c := cb_next (f (so_base s c)))" "prevs (upd_base c f s) = (prevs s)(c := cb_prev (f (so_base s c)))"
  by (auto simp: upd_base_def)

lemma upd_base_fields [simp]:
  "so_stop (upd_base c f s) = so_stop s" "so_callbacks (upd_base c f s) = so_callbacks s" "so_control (upd_base c f s) = so_control s"
  by (simp_all add: upd_base_def)

lemma upd_control_fields [simp]:
  "so_stop (upd_control c f s) = so_stop s" "so_callbacks (upd_control c f s) = so_callbacks s" "so_base (upd_control c f s) = so_base s"
  "so_control (upd_control c f s) = (so_control s)(c := f (so_control s c))"
  by (simp_all add: upd_control_def)

lemma attached_cong: "so_base s' = so_base s \<Longrightarrow> so_callbacks s' = so_callbacks s \<Longrightarrow> attached s' cs \<longleftrightarrow> attached s cs"
  by (simp add: attached_def)

lemma init_attached:
  assumes "attached s cs" "c \<notin> set cs"
  shows "attached (callback_init c s) cs"
proof -
  have "nexts (callback_init c s) = (nexts s)(c := None)" "prevs (callback_init c s) = (prevs s)(c := None)"
    by (auto simp: callback_init_def upd_base_def)
  moreover have "prevs (callback_init c s) x = (if x = c then None else prevs s x)" for x
    by (simp add: callback_init_def upd_base_def)
  moreover have "so_callbacks (callback_init c s) = so_callbacks s" by (simp add: callback_init_def)
  ultimately show ?thesis using assms by (simp add: attached_def)
qed

lemma add_attached:
  assumes a: "attached s cs" and c: "c \<notin> set cs" and n: "\<not> so_stop s"
  shows "\<exists>s1. try_add_callback c s = (True, s1) \<and> attached s1 (c # cs) \<and> so_control s1 = so_control s \<and> so_stop s1 = so_stop s"
proof (cases cs)
  case Nil
  let ?s = "(upd_base c (\<lambda>b. b\<lparr>cb_next := so_callbacks s, cb_prev := Some Head\<rparr>) s)\<lparr>so_callbacks := Some c\<rparr>"
  have h: "so_callbacks s = None" using a Nil by (simp add: attached_def)
  then have "try_add_callback c s = (True, ?s)" using n by (simp add: try_add_callback_def)
  moreover have "attached ?s [c]" using a Nil h by (auto simp: attached_def upd_base_def)
  ultimately show ?thesis using Nil by auto
next
  case (Cons d ds)
  let ?s = "(upd_base d (\<lambda>b. b\<lparr>cb_prev := Some (Next_of c)\<rparr>) (upd_base c (\<lambda>b. b\<lparr>cb_next := so_callbacks s, cb_prev := Some Head\<rparr>) s))\<lparr>so_callbacks := Some c\<rparr>"
  have h: "so_callbacks s = Some d" using a Cons by (simp add: attached_def)
  have dc: "d \<noteq> c" "d \<notin> set ds" "c \<notin> set ds" using c Cons chain_distinct [of "nexts s" "so_callbacks s" cs] a by (auto simp: attached_def)
  have "try_add_callback c s = (True, ?s)" using n h by (simp add: try_add_callback_def Let_def)
  moreover have "attached ?s (c # cs)"
  proof -
    have e: "nexts ?s = (nexts s)(c := Some d)" "prevs ?s = (prevs s)(c := Some Head, d := Some (Next_of c))"
      using h dc by (auto simp: upd_base_def)
    have p: "prevs ?s x = None" if "x \<notin> set (c # cs)" for x
      using that a Cons by (auto simp: attached_def upd_base_def)
    have "chain ((nexts s)(c := Some d)) (Some c) (c # cs) None" "lchain ((prevs s)(c := Some Head, d := Some (Next_of c))) Head (c # cs)"
      using a Cons dc by (simp_all add: attached_def)
    then show ?thesis unfolding attached_def e using p by simp
  qed
  ultimately show ?thesis by auto
qed

lemma remove_out: "attached s cs \<Longrightarrow> c \<notin> set cs \<Longrightarrow> remove_callback c s = s"
  by (simp add: attached_def remove_callback_def)

lemma store_fields [simp]: "so_stop (store l p s) = so_stop s" "so_control (store l p s) = so_control s"
  by (cases l; simp)+

lemma store_links:
  "nexts (store l p s) = (case l of Head \<Rightarrow> nexts s | Next_of d \<Rightarrow> (nexts s)(d := p))" "prevs (store l p s) = prevs s"
  "so_callbacks (store l p s) = (case l of Head \<Rightarrow> p | Next_of d \<Rightarrow> so_callbacks s)"
  by (cases l; auto simp: upd_base_def)+

lemma remove_attached:
  assumes a: "attached s (as @ c # bs)"
  shows "attached (remove_callback c s) (as @ bs)"
proof -
  let ?nx = "nexts s c" and ?l = "link_after Head as"
  have d: "distinct (as @ c # bs)" using a chain_distinct [of "nexts s" "so_callbacks s" "as @ c # bs"] by (simp add: attached_def)
  have pc: "prevs s c = Some ?l" and lc: "lchain (prevs s) Head as" "lchain (prevs s) (Next_of c) bs" using a by (auto simp: attached_def lchain_append)
  have nx: "?nx = first_ptr bs None" using a chain_first [of "nexts s" "nexts s c" bs None] by (auto simp: attached_def chain_append)
  define t where "t = (case ?nx of None \<Rightarrow> s | Some d \<Rightarrow> upd_base d (\<lambda>b. b\<lparr>cb_prev := Some ?l\<rparr>) s)"
  let ?s = "remove_callback c s"
  have e: "?s = upd_base c (\<lambda>b. b\<lparr>cb_next := None, cb_prev := None\<rparr>) (store ?l ?nx t)"
    using pc by (simp add: remove_callback_def Let_def t_def)
  have s1: "nexts t = nexts s" "prevs t = (case first_ptr bs None of None \<Rightarrow> prevs s | Some b \<Rightarrow> (prevs s)(b := Some ?l))" "so_callbacks t = so_callbacks s"
    unfolding t_def nx by (auto simp: upd_base_def split: option.splits)
  have N: "nexts ?s = (case last_ptr None as of None \<Rightarrow> nexts s | Some a \<Rightarrow> (nexts s)(a := ?nx))(c := None)"
    and P: "prevs ?s = (case first_ptr bs None of None \<Rightarrow> prevs s | Some b \<Rightarrow> (prevs s)(b := Some ?l))(c := None)"
    and H: "so_callbacks ?s = (if as = [] then ?nx else so_callbacks s)"
    unfolding e nexts_upd store_links upd_base_fields s1 by (simp_all add: link_after_def last_ptr_def)
  have "chain (nexts ?s) (so_callbacks ?s) (as @ bs) None"
    using chain_unlink [of "nexts s" "so_callbacks s" as c bs] a d unfolding N H by (simp add: attached_def)
  moreover have "lchain (prevs ?s) Head (as @ bs)"
  proof (cases bs)
    case Nil
    then show ?thesis unfolding P using lc d by (simp add: lchain_append)
  next
    case (Cons b bs')
    then show ?thesis unfolding P using lc d by (simp add: lchain_append)
  qed
  moreover have "prevs ?s x = None" if "x \<notin> set (as @ bs)" for x
  proof (cases "x = c")
    case False
    then have "prevs s x = None" "first_ptr bs None \<noteq> Some x" using a that by (auto simp: attached_def first_ptr_def split: list.splits)
    then show ?thesis using fun_cong [OF P, of x] False by (auto split: option.splits)
  qed (use fun_cong [OF P, of x] in simp)
  ultimately show ?thesis by (simp add: attached_def)
qed

lemma remove_fields [simp]: "so_stop (remove_callback c s) = so_stop s" "so_control (remove_callback c s) = so_control s"
  by (simp_all add: remove_callback_def Let_def split: option.splits)

section \<open>Detaching\<close>

abbreviation detaches :: "stop_source \<Rightarrow> addr \<Rightarrow> ptr" where "detaches s \<equiv> \<lambda>c. cc_next_detached (so_control s c)"

text \<open>A control block as the detaching loop leaves it, up to its link.\<close>

definition detached_by :: "addr \<Rightarrow> ccontrol \<Rightarrow> ccontrol \<Rightarrow> bool" where
  "detached_by th k k' \<longleftrightarrow>
     cc_detached k' \<and> cc_thread k' = th \<and> cc_object k' \<and> \<not> cc_cancelled k' \<and> cc_running k' = cc_running k"

definition detach_one :: "addr \<Rightarrow> addr \<Rightarrow> ptr \<Rightarrow> stop_source \<Rightarrow> stop_source" where
  "detach_one th r prv s =
     (let s1 = upd_control r (\<lambda>k. k\<lparr>cc_detached := True, cc_thread := th, cc_object := True, cc_cancelled := False, cc_next_detached := None\<rparr>) s;
          s2 = upd_base r (\<lambda>b. b\<lparr>cb_next := None, cb_prev := None\<rparr>) s1
      in case prv of None \<Rightarrow> s2 | Some p \<Rightarrow> upd_control p (\<lambda>k. k\<lparr>cc_next_detached := Some r\<rparr>) s2)"

lemma detach_loop_unfold:
  "detach_loop th (Some r) head prv s = detach_loop th (nexts s r) (if head = None then Some r else head) (Some r) (detach_one th r prv s)"
  by (subst detach_loop.simps) (simp add: detach_one_def Let_def)

lemma detach_one_effect:
  "so_stop (detach_one th r prv s) = so_stop s" "so_callbacks (detach_one th r prv s) = so_callbacks s"
  "so_base (detach_one th r prv s) = (so_base s)(r := \<lparr>cb_next = None, cb_prev = None\<rparr>)"
  "prv \<noteq> Some r \<Longrightarrow> detached_by th (so_control s r) (so_control (detach_one th r prv s) r) \<and> detaches (detach_one th r prv s) r = None"
  "c \<noteq> r \<Longrightarrow> so_control (detach_one th r prv s) c = (if prv = Some c then (so_control s c)\<lparr>cc_next_detached := Some r\<rparr> else so_control s c)"
  by (auto simp: detach_one_def Let_def detached_by_def upd_base_def split: option.splits)

lemma detach_loop_effect:
  assumes "chain (nexts s) raw xs None" "\<forall>p. prv = Some p \<longrightarrow> p \<notin> set xs \<and> detaches s p = None"
  shows "\<exists>s'. detach_loop th raw head prv s = Some (if head = None then raw else head, s') \<and>
     so_stop s' = so_stop s \<and> so_callbacks s' = so_callbacks s \<and>
     so_base s' = (\<lambda>c. if c \<in> set xs then \<lparr>cb_next = None, cb_prev = None\<rparr> else so_base s c) \<and>
     chain (detaches s') raw xs None \<and> (\<forall>c \<in> set xs. detached_by th (so_control s c) (so_control s' c)) \<and>
     (\<forall>c. c \<notin> set xs \<and> prv \<noteq> Some c \<longrightarrow> so_control s' c = so_control s c) \<and>
     (\<forall>p. prv = Some p \<longrightarrow> so_control s' p = (so_control s p)\<lparr>cc_next_detached := raw\<rparr>)"
  using assms
proof (induction xs arbitrary: raw head prv s)
  case Nil
  then have "raw = None" "\<forall>p. prv = Some p \<longrightarrow> so_control s p = (so_control s p)\<lparr>cc_next_detached := None\<rparr>" by auto
  then show ?case by (subst detach_loop.simps) simp
next
  case (Cons r xs)
  let ?s = "detach_one th r prv s"
  have raw: "raw = Some r" and ch: "chain (nexts s) (nexts s r) xs None" and r: "r \<notin> set xs" "prv \<noteq> Some r"
    using Cons.prems chain_distinct [OF Cons.prems(1)] by auto
  note E = detach_one_effect [where th = th and r = r and prv = prv and s = s]
  have "nexts ?s = (nexts s)(r := None)" unfolding E(3) by auto
  then have ch': "chain (nexts ?s) (nexts s r) xs None" using ch r(1) by simp
  have pr: "\<forall>p. Some r = Some p \<longrightarrow> p \<notin> set xs \<and> detaches ?s p = None" using r E(4) by simp
  from Cons.IH [OF ch' pr, of "if head = None then Some r else head"] obtain s' where
    l: "detach_loop th (nexts s r) (if head = None then Some r else head) (Some r) ?s = Some (if head = None then Some r else head, s')"
    and f: "so_stop s' = so_stop ?s" "so_callbacks s' = so_callbacks ?s"
      "so_base s' = (\<lambda>c. if c \<in> set xs then \<lparr>cb_next = None, cb_prev = None\<rparr> else so_base ?s c)"
    and c: "chain (detaches s') (nexts s r) xs None" and d: "\<forall>c \<in> set xs. detached_by th (so_control ?s c) (so_control s' c)"
    and o: "\<forall>c. c \<notin> set xs \<and> Some r \<noteq> Some c \<longrightarrow> so_control s' c = so_control ?s c"
    and k: "so_control s' r = (so_control ?s r)\<lparr>cc_next_detached := nexts s r\<rparr>"
    by (auto split: if_splits)
  have "detached_by th (so_control s r) (so_control s' r)" "detaches s' r = nexts s r" using E(4) [OF r(2)] k by (simp_all add: detached_by_def)
  moreover have "\<forall>c \<in> set xs. detached_by th (so_control s c) (so_control s' c)"
  proof
    fix x assume x: "x \<in> set xs"
    then have "x \<noteq> r" "prv \<noteq> Some x" using r(1) Cons.prems(2) by auto
    then have "so_control ?s x = so_control s x" using E(5) by simp
    then show "detached_by th (so_control s x) (so_control s' x)" using d x by metis
  qed
  moreover have "so_base s' = (\<lambda>c. if c \<in> set (r # xs) then \<lparr>cb_next = None, cb_prev = None\<rparr> else so_base s c)"
    unfolding f(3) E(3) by auto
  moreover have "so_control s' x = so_control s x" if "x \<notin> set (r # xs)" "prv \<noteq> Some x" for x
    using o E(5) [of x] that by auto
  moreover have "so_control s' p = (so_control s p)\<lparr>cc_next_detached := raw\<rparr>" if "prv = Some p" for p
    using o E(5) [of p] that r Cons.prems(2) raw by auto
  ultimately show ?case unfolding raw using l f(1,2) E(1,2) c by (intro exI [of _ s']) (simp add: detach_loop_unfold)
qed

lemma request_stop_effect:
  assumes a: "attached s cs" and n: "\<not> so_stop s"
  shows "\<exists>s'. request_stop_begin th s = Some (Some (first_ptr cs None), s') \<and> so_stop s' \<and> attached s' [] \<and>
     chain (detaches s') (first_ptr cs None) cs None \<and> (\<forall>c \<in> set cs. detached_by th (so_control s c) (so_control s' c)) \<and>
     (\<forall>c. c \<notin> set cs \<longrightarrow> so_control s' c = so_control s c)"
proof -
  let ?s = "s\<lparr>so_stop := True, so_callbacks := None\<rparr>"
  have h: "so_callbacks s = first_ptr cs None" using a chain_first by (auto simp: attached_def)
  have "chain (nexts ?s) (so_callbacks s) cs None" using a by (simp add: attached_def)
  from detach_loop_effect [OF this, of None th None] obtain s' where
    l: "detach_loop th (so_callbacks s) None None ?s = Some (so_callbacks s, s')"
    and f: "so_stop s'" "so_callbacks s' = None" "so_base s' = (\<lambda>c. if c \<in> set cs then \<lparr>cb_next = None, cb_prev = None\<rparr> else so_base ?s c)"
    and r: "chain (detaches s') (so_callbacks s) cs None" "\<forall>c \<in> set cs. detached_by th (so_control s c) (so_control s' c)" "\<forall>c. c \<notin> set cs \<longrightarrow> so_control s' c = so_control s c"
    by auto
  have "attached s' []" using a f by (auto simp: attached_def)
  then show ?thesis using l f r n by (intro exI [of _ s']) (simp add: request_stop_begin_def h)
qed

section \<open>Invariant\<close>

text \<open>What the requesting thread is doing with a callback, and the rest of its chain.\<close>

datatype visit = V_none | V_calling addr | V_after

fun visit_of :: "requester \<Rightarrow> addr \<Rightarrow> visit" where
  "visit_of (R_calling th d p) c = (if c = d then V_calling th else V_none)"
| "visit_of (R_after th d p) c = (if c = d then V_after else V_none)"
| "visit_of r c = V_none"

fun chain_of :: "requester \<Rightarrow> ptr" where
  "chain_of (R_loop th p) = p" | "chain_of (R_calling th c p) = p" | "chain_of (R_after th c p) = p" | "chain_of r = None"

fun thread_of :: "requester \<Rightarrow> addr option" where
  "thread_of (R_loop th p) = Some th" | "thread_of (R_calling th c p) = Some th" | "thread_of (R_after th c p) = Some th" | "thread_of r = None"

definition detach_ok :: "requester \<Rightarrow> bool \<Rightarrow> ccontrol \<Rightarrow> bool" where
  "detach_ok r stop k \<longleftrightarrow> (cc_detached k \<longrightarrow> stop \<and> (\<forall>th. thread_of r = Some th \<longrightarrow> cc_thread k = th))"

fun cancelling :: "callback \<Rightarrow> bool" where
  "cancelling (D_waiting td) = True" | "cancelling (C_gone td) = True" | "cancelling p = False"

fun attachable :: "callback \<Rightarrow> bool" where
  "attachable C_registered = True" | "attachable (D_read td b) = b" | "attachable p = False"

lemma attachable_not_cancelling [simp]: "attachable p \<Longrightarrow> \<not> cancelling p"
  by (cases p) auto

text \<open>
  One callback: its phase, whether it is attached, whether it is in the chain of detached control
  blocks, the visit of the requesting thread, whether it has been invoked, its control block.
\<close>

definition cb_ok :: "callback \<Rightarrow> bool \<Rightarrow> bool \<Rightarrow> visit \<Rightarrow> bool \<Rightarrow> ccontrol \<Rightarrow> bool" where
  "cb_ok p l q v i k \<longleftrightarrow>
     (if p = C_none then \<not> l \<and> \<not> q \<and> v = V_none \<and> \<not> i \<and> \<not> cc_detached k
      else (l \<longleftrightarrow> attachable p \<and> \<not> cc_detached k) \<and> (l \<longrightarrow> \<not> i) \<and>
        (\<not> cc_detached k \<longrightarrow> \<not> q \<and> v = V_none) \<and> (q \<longrightarrow> v = V_none \<and> \<not> i) \<and>
        (cc_running k \<longrightarrow> v \<noteq> V_none) \<and> (\<forall>th. v = V_calling th \<longrightarrow> cc_running k \<and> cc_thread k = th \<and> i) \<and>
        (cc_cancelled k \<longleftrightarrow> \<not> cc_object k) \<and> (cancelling p \<longrightarrow> cc_cancelled k) \<and>
        (cc_cancelled k \<longrightarrow> cancelling p \<or> cc_detached k \<and> \<not> q \<and> v = V_none) \<and>
        (cc_detached k \<and> \<not> q \<and> v = V_none \<longrightarrow> cc_cancelled k) \<and>
        (cc_detached k \<and> \<not> q \<longrightarrow> i \<or> cancelling p) \<and>
        (\<forall>td th. p = C_gone td \<and> v = V_calling th \<longrightarrow> th = td))"

definition stop_inv :: "stop_sys \<Rightarrow> addr list \<Rightarrow> addr list \<Rightarrow> bool" where
  "stop_inv y cs ds \<longleftrightarrow>
     attached (st_source y) cs \<and> chain (detaches (st_source y)) (chain_of (st_requester y)) ds None \<and>
     (so_stop (st_source y) \<longleftrightarrow> st_requester y \<noteq> R_none) \<and> (so_stop (st_source y) \<longrightarrow> cs = []) \<and> distinct (st_invoked y) \<and>
     finite {c. st_callback y c \<noteq> C_none} \<and>
     (\<forall>c. detach_ok (st_requester y) (so_stop (st_source y)) (so_control (st_source y) c)) \<and>
     (\<forall>c. cb_ok (st_callback y c) (c \<in> set cs) (c \<in> set ds) (visit_of (st_requester y) c) (c \<in> set (st_invoked y)) (so_control (st_source y) c))"

lemma stop_inv_init: "stop_inv stop_sys_init [] []"
  by (simp add: stop_inv_def stop_sys_init_def stop_source_new_def attached_def cb_ok_def detach_ok_def)

lemma stop_inv_cb:
  "stop_inv y cs ds \<Longrightarrow> cb_ok (st_callback y c) (c \<in> set cs) (c \<in> set ds) (visit_of (st_requester y) c) (c \<in> set (st_invoked y)) (so_control (st_source y) c)"
  by (simp add: stop_inv_def)

lemma stop_inv_globals:
  assumes "stop_inv y cs ds"
  shows "attached (st_source y) cs" "chain (detaches (st_source y)) (chain_of (st_requester y)) ds None"
    "so_stop (st_source y) \<longleftrightarrow> st_requester y \<noteq> R_none" "so_stop (st_source y) \<longrightarrow> cs = []" "distinct (st_invoked y)"
    "finite {c. st_callback y c \<noteq> C_none}"
    "\<forall>c. detach_ok (st_requester y) (so_stop (st_source y)) (so_control (st_source y) c)"
  using assms unfolding stop_inv_def by blast+

lemma callbacks_finite_upd: "finite {c. f c \<noteq> C_none} \<Longrightarrow> finite {c. (f(d := v)) c \<noteq> C_none}"
  by (rule finite_subset [of _ "insert d {c. f c \<noteq> C_none}"]) auto

text \<open>An update of one callback.\<close>

lemma stop_inv_upd:
  assumes I: "stop_inv y cs ds"
    and g: "attached (st_source z) cs'" "chain (detaches (st_source z)) (chain_of (st_requester z)) ds' None"
      "so_stop (st_source z) \<longleftrightarrow> st_requester z \<noteq> R_none" "so_stop (st_source z) \<longrightarrow> cs' = []" "distinct (st_invoked z)"
      "\<forall>d. detach_ok (st_requester z) (so_stop (st_source z)) (so_control (st_source z) d)"
    and o: "\<And>d. d \<noteq> c \<Longrightarrow> st_callback z d = st_callback y d \<and> (d \<in> set cs' \<longleftrightarrow> d \<in> set cs) \<and> (d \<in> set ds' \<longleftrightarrow> d \<in> set ds) \<and>
       visit_of (st_requester z) d = visit_of (st_requester y) d \<and> (d \<in> set (st_invoked z) \<longleftrightarrow> d \<in> set (st_invoked y)) \<and>
       so_control (st_source z) d = so_control (st_source y) d"
    and c: "cb_ok (st_callback z c) (c \<in> set cs') (c \<in> set ds') (visit_of (st_requester z) c) (c \<in> set (st_invoked z)) (so_control (st_source z) c)"
  shows "stop_inv z cs' ds'"
proof -
  have "cb_ok (st_callback z d) (d \<in> set cs') (d \<in> set ds') (visit_of (st_requester z) d) (d \<in> set (st_invoked z)) (so_control (st_source z) d)" for d
  proof (cases "d = c")
    case True
    then show ?thesis using c by simp
  next
    case False
    then show ?thesis using o [OF False] stop_inv_cb [OF I, of d] by simp
  qed
  moreover have "{d. st_callback z d \<noteq> C_none} \<subseteq> insert c {d. st_callback y d \<noteq> C_none}" using o by auto
  then have "finite {d. st_callback z d \<noteq> C_none}" using stop_inv_globals(6) [OF I] by (meson finite_insert finite_subset)
  ultimately show ?thesis using g by (simp add: stop_inv_def)
qed

lemma chain_detaches_upd: "detaches (upd_control c f s) = (detaches s)(c := cc_next_detached (f (so_control s c)))"
  by auto

lemma init_effect:
  "so_control (callback_init c s) c = \<lparr>cc_detached = False, cc_running = False, cc_cancelled = False, cc_object = True, cc_thread = 0, cc_next_detached = None\<rparr>"
  "d \<noteq> c \<Longrightarrow> so_control (callback_init c s) d = so_control s d" "so_stop (callback_init c s) = so_stop s"
  "detaches (callback_init c s) = (detaches s)(c := None)"
  by (auto simp: callback_init_def)

lemma construct_inv:
  assumes I: "stop_inv y cs ds" and c: "st_callback y c = C_none"
  shows "\<exists>cs'. stop_inv (callback_construct c y) cs' ds"
proof -
  note G = stop_inv_globals [OF I]
  have n: "c \<notin> set cs" "c \<notin> set ds" "visit_of (st_requester y) c = V_none" "c \<notin> set (st_invoked y)"
    using stop_inv_cb [OF I, of c] c by (simp_all add: cb_ok_def)
  let ?s = "callback_init c (st_source y)"
  have a: "attached ?s cs" using init_attached [OF G(1) n(1)] .
  show ?thesis
  proof (cases "so_stop (st_source y)")
    case True
    then have "callback_construct c y = y\<lparr>st_source := ?s, st_callback := (st_callback y)(c := C_free), st_invoked := st_invoked y @ [c]\<rparr>"
      by (simp add: callback_construct_def try_add_callback_def init_effect)
    moreover have "detach_ok r b (so_control ?s d)" if "detach_ok r b (so_control (st_source y) d)" for r b d
      using that by (cases "d = c") (simp_all add: init_effect detach_ok_def)
    ultimately have "stop_inv (callback_construct c y) cs ds"
      by (intro stop_inv_upd [OF I, of _ cs ds c]) (use G a n True in \<open>simp_all add: init_effect cb_ok_def\<close>)
    then show ?thesis by blast
  next
    case False
    from add_attached [OF a n(1)] False obtain s1 where s1: "try_add_callback c ?s = (True, s1)" "attached s1 (c # cs)" "so_control s1 = so_control ?s" "so_stop s1 = so_stop ?s"
      by (auto simp: init_effect)
    have "callback_construct c y = y\<lparr>st_source := s1, st_callback := (st_callback y)(c := C_registered)\<rparr>"
      using s1(1) by (simp add: callback_construct_def)
    moreover have "detach_ok r b (so_control s1 d)" if "detach_ok r b (so_control (st_source y) d)" for r b d
      using that s1(3) by (cases "d = c") (simp_all add: init_effect detach_ok_def)
    ultimately have "stop_inv (callback_construct c y) (c # cs) ds"
      by (intro stop_inv_upd [OF I, of _ "c # cs" ds c]) (use G s1 n False in \<open>simp_all add: init_effect cb_ok_def\<close>)
    then show ?thesis by blast
  qed
qed

lemma construct_free_inv:
  assumes I: "stop_inv y cs ds" and c: "st_callback y c = C_none"
  shows "stop_inv (y\<lparr>st_source := callback_init c (st_source y), st_callback := (st_callback y)(c := C_free)\<rparr>) cs ds"
proof -
  have n: "c \<notin> set cs" "c \<notin> set ds" "visit_of (st_requester y) c = V_none" "c \<notin> set (st_invoked y)"
    using stop_inv_cb [OF I, of c] c by (simp_all add: cb_ok_def)
  have "detach_ok r b (so_control (callback_init c (st_source y)) d)" if "detach_ok r b (so_control (st_source y) d)" for r b d
    using that by (cases "d = c") (simp_all add: init_effect detach_ok_def)
  then show ?thesis
    by (intro stop_inv_upd [OF I, of _ cs ds c]) (use stop_inv_globals [OF I] init_attached [of "st_source y" cs c] n in \<open>simp_all add: init_effect cb_ok_def\<close>)
qed

lemma request_inv:
  assumes I: "stop_inv y cs ds" and r: "request_stop_begin th (st_source y) = Some (Some head, s)"
  shows "stop_inv (y\<lparr>st_source := s, st_requester := R_loop th head\<rparr>) [] cs"
proof -
  note G = stop_inv_globals [OF I]
  have n: "\<not> so_stop (st_source y)" using r by (auto simp: request_stop_begin_def)
  then have q: "st_requester y = R_none" "ds = []" using G by (auto elim: chain.elims)
  from request_stop_effect [OF G(1) n, of th] r have e: "head = first_ptr cs None" "so_stop s" "attached s []" "chain (detaches s) (first_ptr cs None) cs None"
    "\<forall>c \<in> set cs. detached_by th (so_control (st_source y) c) (so_control s c)" "\<forall>c. c \<notin> set cs \<longrightarrow> so_control s c = so_control (st_source y) c" by auto
  have "cb_ok (st_callback y c) False (c \<in> set cs) V_none (c \<in> set (st_invoked y)) (so_control s c)" for c
  proof (cases "c \<in> set cs")
    case True
    then have "attachable (st_callback y c)" using stop_inv_cb [OF I, of c] by (auto simp: cb_ok_def split: if_splits)
    then show ?thesis using True stop_inv_cb [OF I, of c] e(5) q attachable_not_cancelling by (auto simp: cb_ok_def detached_by_def)
  next
    case False
    then have "so_control s c = so_control (st_source y) c" using e(6) by blast
    moreover have "cb_ok (st_callback y c) False False V_none (c \<in> set (st_invoked y)) (so_control (st_source y) c)" using stop_inv_cb [OF I, of c] q False by simp
    ultimately show ?thesis using False by simp
  qed
  moreover have "detach_ok (R_loop th head) (so_stop s) (so_control s c)" for c
    using e(2,5,6) G(7) n by (cases "c \<in> set cs") (auto simp: detach_ok_def detached_by_def)
  ultimately show ?thesis using G e by (simp add: stop_inv_def)
qed

text \<open>The invoking loop.\<close>

lemma loop_head:
  assumes I: "stop_inv y cs ds" and q: "st_requester y = R_loop th (Some c)"
  shows "\<exists>ds'. ds = c # ds' \<and> c \<notin> set ds' \<and> chain (detaches (st_source y)) (detaches (st_source y) c) ds' None"
proof -
  have ch: "chain (detaches (st_source y)) (Some c) ds None" using stop_inv_globals(2) [OF I] q by simp
  then show ?thesis using chain_distinct [OF ch] by (cases ds) auto
qed

lemma invoke_begin_effect:
  assumes "invoke_begin c s = (b, p, s1)"
  shows "p = detaches s c" "b \<longleftrightarrow> \<not> cc_cancelled (so_control s c) \<and> cc_object (so_control s c)"
    "s1 = upd_control c (\<lambda>k. k\<lparr>cc_next_detached := None, cc_running := b \<or> cc_running k\<rparr>) s"
proof -
  have "(so_control s c)\<lparr>cc_next_detached := None, cc_running := cc_running (so_control s c)\<rparr> = (so_control s c)\<lparr>cc_next_detached := None\<rparr>" by simp
  then show "p = detaches s c" "b \<longleftrightarrow> \<not> cc_cancelled (so_control s c) \<and> cc_object (so_control s c)"
    "s1 = upd_control c (\<lambda>k. k\<lparr>cc_next_detached := None, cc_running := b \<or> cc_running k\<rparr>) s"
    using assms by (auto simp: invoke_begin_def Let_def upd_control_def split: if_splits)
qed

lemma cb_ok_visit:
  assumes "cb_ok f l True V_none i k" "f \<noteq> C_none" "b \<longleftrightarrow> \<not> cc_cancelled k \<and> cc_object k" "cc_thread k = th"
  shows "cb_ok f False False (if b then V_calling th else V_after) (b \<or> i) (k\<lparr>cc_next_detached := None, cc_running := b \<or> cc_running k\<rparr>)"
proof (cases b)
  case True
  then show ?thesis using assms by (auto simp: cb_ok_def)
next
  case False
  then show ?thesis using assms by (auto simp: cb_ok_def)
qed

lemma visit_inv:
  assumes I: "stop_inv y cs ds" and q: "st_requester y = R_loop th (Some c)" and b: "invoke_begin c (st_source y) = (b, p, s)"
    and z: "z = y\<lparr>st_source := s, st_requester := if b then R_calling th c p else R_after th c p, st_invoked := if b then st_invoked y @ [c] else st_invoked y\<rparr>"
  shows "\<exists>ds'. ds = c # ds' \<and> stop_inv z cs ds'"
proof -
  note G = stop_inv_globals [OF I] and B = invoke_begin_effect [OF b] and C = stop_inv_cb [OF I, of c]
  obtain ds' where ds: "ds = c # ds'" "c \<notin> set ds'" and ch: "chain (detaches (st_source y)) (detaches (st_source y) c) ds' None"
    using loop_head [OF I q] by blast
  let ?k = "so_control (st_source y) c"
  let ?k' = "?k\<lparr>cc_next_detached := None, cc_running := b \<or> cc_running ?k\<rparr>"
  have k: "cb_ok (st_callback y c) (c \<in> set cs) True V_none (c \<in> set (st_invoked y)) ?k" using C ds q by simp
  have d: "st_callback y c \<noteq> C_none" "c \<notin> set (st_invoked y)" "cc_detached ?k" "\<not> cc_running ?k" "c \<notin> set cs"
    using k by (auto simp: cb_ok_def split: if_splits)
  have thr: "cc_thread ?k = th" using G(7) d(3) q by (simp add: detach_ok_def)
  have ch': "chain (detaches s) p ds' None" unfolding B(3) chain_detaches_upd B(1) using ch ds(2) by simp
  have at: "attached s cs" unfolding B(3) using G(1) by (simp add: attached_def)
  have ok: "cb_ok (st_callback y c) False False (if b then V_calling th else V_after) (b \<or> c \<in> set (st_invoked y)) ?k'"
    by (rule cb_ok_visit [OF k d(1) _ thr]) (use B(2) in simp)
  have dt: "detach_ok (st_requester z) (so_stop (st_source z)) (so_control (st_source z) e)" for e
    using G(7) q unfolding z B(3) by (auto simp: detach_ok_def)
  have "stop_inv z cs ds'"
  proof (cases b)
    case True
    show ?thesis by (rule stop_inv_upd [OF I, of _ cs ds' c]) (use True G at ch' q ds d B(3) dt ok in \<open>simp_all add: z\<close>)
  next
    case False
    then have "?k' = ?k\<lparr>cc_next_detached := None\<rparr>" by simp
    then have ok': "cb_ok (st_callback y c) False False V_after False (?k\<lparr>cc_next_detached := None\<rparr>)" using ok d(2) False by simp
    show ?thesis by (rule stop_inv_upd [OF I, of _ cs ds' c]) (use False G at ch' q ds d B(3) dt ok' in \<open>simp_all add: z\<close>)
  qed
  then show ?thesis using ds(1) by blast
qed

lemma called_inv:
  assumes I: "stop_inv y cs ds" and q: "st_requester y = R_calling th c p"
  shows "stop_inv (y\<lparr>st_requester := R_after th c p\<rparr>) cs ds"
proof -
  note G = stop_inv_globals [OF I]
  have "cb_ok (st_callback y c) (c \<in> set cs) (c \<in> set ds) V_after (c \<in> set (st_invoked y)) (so_control (st_source y) c)"
    using stop_inv_cb [OF I, of c] q by (auto simp: cb_ok_def split: if_splits)
  then show ?thesis
    by (intro stop_inv_upd [OF I, of _ cs ds c]) (use G q in \<open>simp_all add: detach_ok_def\<close>)
qed

lemma after_inv:
  assumes I: "stop_inv y cs ds" and q: "st_requester y = R_after th c p"
  shows "stop_inv (y\<lparr>st_source := invoke_end c (st_source y), st_requester := R_loop th p\<rparr>) cs ds"
proof -
  note G = stop_inv_globals [OF I]
  let ?k = "so_control (st_source y) c"
  have "cb_ok (st_callback y c) (c \<in> set cs) (c \<in> set ds) V_none (c \<in> set (st_invoked y)) (?k\<lparr>cc_running := False, cc_cancelled := True, cc_object := False\<rparr>)"
    using stop_inv_cb [OF I, of c] q by (auto simp: cb_ok_def split: if_splits)
  moreover have "attached (invoke_end c (st_source y)) cs" using G(1) attached_cong [of "invoke_end c (st_source y)" "st_source y"] by (simp add: invoke_end_def)
  moreover have "detaches (invoke_end c (st_source y)) = detaches (st_source y)" by (auto simp: invoke_end_def)
  ultimately show ?thesis
    by (intro stop_inv_upd [OF I, of _ cs ds c]) (use G q in \<open>simp_all add: detach_ok_def invoke_end_def\<close>)
qed

lemma returns_inv:
  assumes I: "stop_inv y cs ds" and q: "st_requester y = R_loop th None"
  shows "stop_inv (y\<lparr>st_requester := R_returned\<rparr>) cs ds"
  using I q unfolding stop_inv_def by (auto simp: detach_ok_def)

text \<open>The destructor.\<close>

lemma destroy_read_inv:
  assumes I: "stop_inv y cs ds" and c: "st_callback y c = C_registered \<or> st_callback y c = C_free"
  shows "stop_inv (destroy_read td c y) cs ds"
proof -
  note G = stop_inv_globals [OF I]
  let ?b = "st_callback y c \<noteq> C_free \<and> \<not> cc_detached (so_control (st_source y) c)"
  have "cb_ok (D_read td ?b) (c \<in> set cs) (c \<in> set ds) (visit_of (st_requester y) c) (c \<in> set (st_invoked y)) (so_control (st_source y) c)"
    using stop_inv_cb [OF I, of c] c by (auto simp: cb_ok_def)
  then show ?thesis unfolding destroy_read_def
    by (intro stop_inv_upd [OF I, of _ cs ds c]) (use G in \<open>simp_all\<close>)
qed

lemma unlink_inv:
  assumes I: "stop_inv y cs ds" and c: "st_callback y c = D_read td b"
  shows "\<exists>cs'. stop_inv (destroy_remove td b c y) cs' ds"
proof -
  note G = stop_inv_globals [OF I] and C = stop_inv_cb [OF I, of c]
  have ok: "cb_ok (D_unlinked td) False (c \<in> set ds) (visit_of (st_requester y) c) (c \<in> set (st_invoked y)) (so_control (st_source y) c)"
    using C c by (auto simp: cb_ok_def)
  have up: "stop_inv (destroy_remove td b c y) cs' ds" if "attached (st_source (destroy_remove td b c y)) cs'" "c \<notin> set cs'" "\<forall>d. d \<noteq> c \<longrightarrow> (d \<in> set cs' \<longleftrightarrow> d \<in> set cs)" "cs = [] \<longrightarrow> cs' = []" for cs'
    by (intro stop_inv_upd [OF I, of _ cs' ds c]) (use that G ok in \<open>simp_all add: destroy_remove_def\<close>)
  show ?thesis
  proof (cases "b \<and> c \<in> set cs")
    case True
    then obtain as bs where cs: "cs = as @ c # bs" by (meson split_list)
    have "distinct cs" using G(1) chain_distinct [of "nexts (st_source y)" "so_callbacks (st_source y)" cs] by (simp add: attached_def)
    then have "stop_inv (destroy_remove td b c y) (as @ bs) ds"
      using True cs remove_attached [OF G(1) [unfolded cs]] by (intro up) (auto simp: destroy_remove_def)
    then show ?thesis by blast
  next
    case False
    have "c \<notin> set cs" using C c False by (auto simp: cb_ok_def)
    moreover have "st_source (destroy_remove td b c y) = st_source y" using False remove_out [OF G(1), of c] by (auto simp: destroy_remove_def)
    ultimately have "stop_inv (destroy_remove td b c y) cs ds" using G(1) by (intro up) simp_all
    then show ?thesis by blast
  qed
qed

lemma cancel_inv:
  assumes I: "stop_inv y cs ds" and c: "st_callback y c = D_unlinked td"
  shows "stop_inv (destroy_cancel td c y) cs ds"
proof -
  note G = stop_inv_globals [OF I] and C = stop_inv_cb [OF I, of c]
  let ?k = "so_control (st_source y) c" and ?s = "upd_control c (\<lambda>k. k\<lparr>cc_cancelled := True, cc_object := False\<rparr>) (st_source y)"
  let ?w = "cc_running ?k \<and> cc_thread ?k \<noteq> td"
  have e: "destroy_cancel td c y = y\<lparr>st_source := ?s, st_callback := (st_callback y)(c := if ?w then D_waiting td else C_gone td)\<rparr>"
    by (simp add: destroy_cancel_def callback_cancel_def Let_def)
  have "cb_ok (if ?w then D_waiting td else C_gone td) (c \<in> set cs) (c \<in> set ds) (visit_of (st_requester y) c) (c \<in> set (st_invoked y)) (?k\<lparr>cc_cancelled := True, cc_object := False\<rparr>)"
    using C c by (auto simp: cb_ok_def)
  moreover have "attached ?s cs" using G(1) attached_cong [of ?s "st_source y"] by simp
  moreover have "detaches ?s = detaches (st_source y)" by auto
  ultimately show ?thesis unfolding e
    by (intro stop_inv_upd [OF I, of _ cs ds c]) (use G in \<open>simp_all add: detach_ok_def\<close>)
qed

lemma waited_inv:
  assumes I: "stop_inv y cs ds" and c: "st_callback y c = D_waiting td" "\<not> cc_running (so_control (st_source y) c)"
  shows "stop_inv (y\<lparr>st_callback := (st_callback y)(c := C_gone td)\<rparr>) cs ds"
proof -
  have "cb_ok (C_gone td) (c \<in> set cs) (c \<in> set ds) (visit_of (st_requester y) c) (c \<in> set (st_invoked y)) (so_control (st_source y) c)"
    using stop_inv_cb [OF I, of c] c by (auto simp: cb_ok_def)
  then show ?thesis
    by (intro stop_inv_upd [OF I, of _ cs ds c]) (use stop_inv_globals [OF I] in \<open>simp_all\<close>)
qed

definition stop_ok :: "stop_sys \<Rightarrow> bool" where
  "stop_ok y \<longleftrightarrow> (\<exists>cs ds. stop_inv y cs ds)"

lemma stop_work_ok: "stop_work y z \<Longrightarrow> stop_ok y \<Longrightarrow> stop_ok z"
proof (induction rule: stop_work.induct)
  case (call y th c p s)
  then obtain cs ds where I: "stop_inv y cs ds" by (auto simp: stop_ok_def)
  from visit_inv [OF I call(1,2) refl] show ?case unfolding stop_ok_def by auto
next
  case (skip y th c p s)
  then obtain cs ds where I: "stop_inv y cs ds" by (auto simp: stop_ok_def)
  from visit_inv [OF I skip(1,2) refl] show ?case unfolding stop_ok_def by auto
next
  case (called y th c p)
  then show ?case using called_inv unfolding stop_ok_def by metis
next
  case (after y th c p)
  then show ?case using after_inv unfolding stop_ok_def by metis
next
  case (returns y th)
  then show ?case using returns_inv unfolding stop_ok_def by metis
next
  case (remove y c td b)
  then show ?case using unlink_inv unfolding stop_ok_def by metis
next
  case (cancel y c td)
  then show ?case using cancel_inv unfolding stop_ok_def by metis
next
  case (waited y c td)
  then show ?case using waited_inv unfolding stop_ok_def by metis
qed

lemma stop_step_ok: "stop_step y z \<Longrightarrow> stop_ok y \<Longrightarrow> stop_ok z"
proof (induction rule: stop_step.induct)
  case (construct y c)
  then show ?case using construct_inv unfolding stop_ok_def by metis
next
  case (construct_free y c)
  then show ?case using construct_free_inv unfolding stop_ok_def by metis
next
  case (request th y head s)
  then show ?case using request_inv unfolding stop_ok_def by metis
next
  case (request_again th y s)
  then have "s = st_source y" by (auto simp: request_stop_begin_def bind_eq_Some_conv split: if_splits)
  then show ?case using request_again by simp
next
  case (destroy y c td)
  then show ?case using destroy_read_inv unfolding stop_ok_def by metis
next
  case (work y z)
  then show ?case using stop_work_ok by blast
qed

lemma stop_reachable_ok: "stop_reachable y \<Longrightarrow> stop_ok y"
  by (induction rule: stop_reachable.induct) (auto intro: stop_step_ok stop_inv_init simp: stop_ok_def [of stop_sys_init])


lemma invoked_stopped: "stop_reachable y \<Longrightarrow> st_invoked y \<noteq> [] \<longrightarrow> so_stop (st_source y)"
proof (induction rule: stop_reachable.induct)
  case init
  then show ?case by (simp add: stop_sys_init_def)
next
  case (step y z)
  obtain cs ds where I: "stop_inv y cs ds" using stop_reachable_ok [OF step.hyps(1)] by (auto simp: stop_ok_def)
  note G = stop_inv_globals [OF I]
  from step.hyps(2) show ?case
  proof cases
    case (construct c)
    then show ?thesis using step.IH
      by (auto simp: callback_construct_def try_add_callback_def init_effect Let_def split: option.splits if_splits)
  next
    case (construct_free c)
    then show ?thesis using step.IH by (simp add: init_effect)
  next
    case (request th head s)
    then have "so_stop (st_source z)" using stop_inv_globals(3) [OF request_inv [OF I request(2)]] by simp
    then show ?thesis by simp
  next
    case (request_again th s)
    then show ?thesis using step.IH by (auto simp: request_stop_begin_def bind_eq_Some_conv split: if_splits)
  next
    case (destroy c td)
    then show ?thesis using step.IH by (simp add: destroy_read_def)
  next
    case work
    then show ?thesis
    proof cases
      case (call th c p s)
      then show ?thesis using G(3) invoke_begin_effect(3) [OF call(3)] by simp
    next
      case (skip th c p s)
      then show ?thesis using G(3) invoke_begin_effect(3) [OF skip(3)] by simp
    qed (use step.IH in \<open>auto simp: invoke_end_def destroy_remove_def destroy_cancel_def callback_cancel_def Let_def\<close>)
  qed
qed

text \<open>
  C35.  In every reachable state of a stop source and its callbacks: every callback has been invoked
  at most once, and only after stop has been requested; no call begins on a callback that is not
  constructed, that is being waited for or whose destructor has returned; a destructor that returned
  while its callback is being called ran on the thread that calls it; once the requesting call has
  returned, every callback that is still registered has been invoked.
\<close>

theorem stop_callbacks_safe:
  assumes "stop_reachable y"
  shows "distinct (st_invoked y) \<and> (st_invoked y \<noteq> [] \<longrightarrow> so_stop (st_source y)) \<and>
         (\<forall>th c p s. st_requester y = R_loop th (Some c) \<and> invoke_begin c (st_source y) = (True, p, s) \<longrightarrow>
            st_callback y c \<noteq> C_none \<and> c \<notin> set (st_invoked y) \<and> (\<forall>td. st_callback y c \<noteq> D_waiting td \<and> st_callback y c \<noteq> C_gone td)) \<and>
         (\<forall>th c p td. st_requester y = R_calling th c p \<and> st_callback y c = C_gone td \<longrightarrow> td = th) \<and>
         (\<forall>c. st_requester y = R_returned \<and> st_callback y c = C_registered \<longrightarrow> c \<in> set (st_invoked y))"
proof (intro conjI allI impI)
  obtain cs ds where I: "stop_inv y cs ds" using stop_reachable_ok [OF assms] by (auto simp: stop_ok_def)
  note G = stop_inv_globals [OF I]
  show "distinct (st_invoked y)" by (rule G(5))
  show "st_invoked y \<noteq> [] \<Longrightarrow> so_stop (st_source y)" using invoked_stopped [OF assms] by blast
  show "td = th" if "st_requester y = R_calling th c p \<and> st_callback y c = C_gone td" for th c p td
    using stop_inv_cb [OF I, of c] that by (auto simp: cb_ok_def)
  show "c \<in> set (st_invoked y)" if "st_requester y = R_returned \<and> st_callback y c = C_registered" for c
  proof -
    have "cs = []" "ds = []" using G(2,3,4) that by (auto elim: chain.elims)
    then show ?thesis using stop_inv_cb [OF I, of c] that by (auto simp: cb_ok_def)
  qed
  fix th c p s
  assume a: "st_requester y = R_loop th (Some c) \<and> invoke_begin c (st_source y) = (True, p, s)"
  then have q: "st_requester y = R_loop th (Some c)" and b: "\<not> cc_cancelled (so_control (st_source y) c)"
    using invoke_begin_effect(2) [of c "st_source y" True p s] by blast+
  obtain ds' where "ds = c # ds'" using loop_head [OF I q] by blast
  then have k: "cb_ok (st_callback y c) (c \<in> set cs) True V_none (c \<in> set (st_invoked y)) (so_control (st_source y) c)"
    using stop_inv_cb [OF I, of c] q by simp
  then show "st_callback y c \<noteq> C_none" "c \<notin> set (st_invoked y)" by (auto simp: cb_ok_def split: if_splits)
  have "\<not> cancelling (st_callback y c)" using k b by (auto simp: cb_ok_def split: if_splits)
  then show "st_callback y c \<noteq> D_waiting td" "st_callback y c \<noteq> C_gone td" for td by auto
qed

section \<open>Progress\<close>

definition stop_chain :: "stop_sys \<Rightarrow> addr list" where
  "stop_chain y = (THE ds. chain (detaches (st_source y)) (chain_of (st_requester y)) ds None)"

fun requester_weight :: "requester \<Rightarrow> nat" where
  "requester_weight (R_loop th p) = 1" | "requester_weight (R_calling th c p) = 3" | "requester_weight (R_after th c p) = 2"
| "requester_weight r = 0"

fun callback_weight :: "callback \<Rightarrow> nat" where
  "callback_weight (D_read td b) = 3" | "callback_weight (D_unlinked td) = 2" | "callback_weight (D_waiting td) = 1" | "callback_weight p = 0"

definition stop_left :: "stop_sys \<Rightarrow> nat" where
  "stop_left y = 3 * length (stop_chain y) + requester_weight (st_requester y) + weight_sum callback_weight (st_callback y)"

lemma stop_chain_eq: "stop_inv y cs ds \<Longrightarrow> stop_chain y = ds"
  unfolding stop_chain_def using stop_inv_globals(2) chain_unique by (blast intro: the_equality)

lemma dtor_upd:
  assumes "stop_inv y cs ds"
  shows "weight_sum callback_weight ((st_callback y)(c := v)) + callback_weight (st_callback y c) = weight_sum callback_weight (st_callback y) + callback_weight v"
proof -
  have "{c. callback_weight (st_callback y c) \<noteq> 0} \<subseteq> {c. st_callback y c \<noteq> C_none}" by auto
  then have "finite {c. callback_weight (st_callback y c) \<noteq> 0}" using stop_inv_globals(6) [OF assms] by (rule finite_subset)
  then show ?thesis using weight_sum_upd(1) [of callback_weight "st_callback y" c v] by blast
qed

lemma stop_work_less:
  assumes "stop_ok y" "stop_work y z"
  shows "stop_left z < stop_left y"
proof -
  obtain cs ds where I: "stop_inv y cs ds" using assms(1) by (auto simp: stop_ok_def)
  note D = stop_chain_eq [OF I] and U = dtor_upd [OF I]
  from assms(2) show ?thesis
  proof cases
    case (call th c p s)
    from visit_inv [OF I call(2,3) refl] obtain ds' where "ds = c # ds'" "stop_inv z cs ds'" using call(1) by auto
    then show ?thesis using call(1,2) D stop_chain_eq [of z cs ds'] by (simp add: stop_left_def)
  next
    case (skip th c p s)
    from visit_inv [OF I skip(2,3) refl] obtain ds' where "ds = c # ds'" "stop_inv z cs ds'" using skip(1) by auto
    then show ?thesis using skip(1,2) D stop_chain_eq [of z cs ds'] by (simp add: stop_left_def)
  next
    case (called th c p)
    then show ?thesis using D stop_chain_eq [OF called_inv [OF I called(2)]] by (simp add: stop_left_def)
  next
    case (after th c p)
    then show ?thesis using D stop_chain_eq [OF after_inv [OF I after(2)]] by (simp add: stop_left_def)
  next
    case (returns th)
    then show ?thesis using D stop_chain_eq [OF returns_inv [OF I returns(2)]] by (simp add: stop_left_def)
  next
    case (remove c td b)
    then obtain cs' where "stop_inv z cs' ds" using unlink_inv [OF I] by blast
    then have "stop_chain z = ds" by (rule stop_chain_eq)
    then show ?thesis using remove D U [of c "D_unlinked td"] by (simp add: stop_left_def destroy_remove_def)
  next
    case (cancel c td)
    have e: "\<exists>v. st_callback z = (st_callback y)(c := v) \<and> callback_weight v \<le> 1" "st_requester z = st_requester y"
      unfolding cancel(1) destroy_cancel_def by (auto split: prod.splits)
    then obtain v where v: "st_callback z = (st_callback y)(c := v)" "callback_weight v \<le> 1" by blast
    have "stop_chain z = ds" unfolding cancel(1) using cancel_inv [OF I cancel(2)] by (rule stop_chain_eq)
    then show ?thesis using cancel(2) D U [of c v] v e(2) by (simp add: stop_left_def)
  next
    case (waited c td)
    then show ?thesis using D U [of c "C_gone td"] stop_chain_eq [OF waited_inv [OF I waited(2,3)]] by (simp add: stop_left_def)
  qed
qed

interpretation stw: draining stop_ok stop_work stop_left
  by unfold_locales (use stop_work_ok stop_work_less in blast)+

text \<open>
  C36.  \<open>request_stop\<close> and the destructors do not deadlock, provided every callback that is called
  returns: \<open>request_stop\<close> finishes its critical section on every thread; the threads take at most
  \<open>stop_left\<close> steps until a new call is made, and in every state in which no step is left, the
  requesting call has returned, if there was one, and no destructor is unfinished.
\<close>

theorem stop_drains:
  assumes "stop_reachable y"
  shows "(\<forall>th. \<exists>x s. request_stop_begin th (st_source y) = Some (x, s) \<and> so_stop s) \<and>
         (\<forall>m z. (stop_work ^^ m) y z \<longrightarrow> m \<le> stop_left y) \<and>
         (\<exists>z. stop_work\<^sup>*\<^sup>* y z \<and> (\<forall>w. \<not> stop_work z w)) \<and>
         (\<forall>z. stop_work\<^sup>*\<^sup>* y z \<and> (\<forall>w. \<not> stop_work z w) \<longrightarrow>
            (st_requester z = R_none \<or> st_requester z = R_returned) \<and> (\<forall>c. callback_weight (st_callback z c) = 0))"
proof (intro conjI allI impI)
  have I: "stop_ok y" using assms by (rule stop_reachable_ok)
  then obtain cs ds where J: "stop_inv y cs ds" by (auto simp: stop_ok_def)
  show "\<exists>x s. request_stop_begin th (st_source y) = Some (x, s) \<and> so_stop s" for th
    using request_stop_effect [OF stop_inv_globals(1) [OF J], of th] by (cases "so_stop (st_source y)") (auto simp: request_stop_begin_def)
  show "(stop_work ^^ m) y z \<Longrightarrow> m \<le> stop_left y" for m z using stw.works_bounded [OF _ I] by fastforce
  show "\<exists>z. stop_work\<^sup>*\<^sup>* y z \<and> (\<forall>w. \<not> stop_work z w)" using stw.works_end [OF I] by blast
  fix z
  assume z: "stop_work\<^sup>*\<^sup>* y z \<and> (\<forall>w. \<not> stop_work z w)"
  then obtain cs ds where K: "stop_inv z cs ds" using stw.works_inv I unfolding stop_ok_def by blast
  show r: "st_requester z = R_none \<or> st_requester z = R_returned"
  proof (cases "st_requester z")
    case (R_loop th p)
    show ?thesis
    proof (cases p)
      case None
      then show ?thesis using z R_loop stop_work.returns by blast
    next
      case (Some c)
      obtain b q s where "invoke_begin c (st_source z) = (b, q, s)" by (metis prod.exhaust)
      then show ?thesis using z R_loop Some stop_work.call [of z th c q s] stop_work.skip [of z th c q s] by (cases b) auto
    qed
  qed (use z stop_work.called stop_work.after in blast)+
  fix c
  have n: "\<not> stop_work z w" for w using z by blast
  show "callback_weight (st_callback z c) = 0"
  proof (cases "st_callback z c")
    case (D_waiting td)
    then have "\<not> cc_running (so_control (st_source z) c)" using stop_inv_cb [OF K, of c] r by (auto simp: cb_ok_def)
    then show ?thesis using n stop_work.waited [OF D_waiting] by blast
  qed (use n stop_work.remove [of z c] stop_work.cancel [of z c] in simp_all)
qed

section \<open>A concrete run\<close>

text \<open>Callbacks 5 and 6 are registered, then thread 1 requests stop and is about to call the first.\<close>

definition stop_demo :: stop_sys where
  "stop_demo = (let y = callback_construct 6 (callback_construct 5 stop_sys_init)
     in y\<lparr>st_source := snd (the (request_stop_begin 1 (st_source y))), st_requester := R_loop 1 (Some 6)\<rparr>)"

lemmas stop_demo_simps = stop_demo_def callback_construct_def stop_sys_init_def stop_source_new_def callback_init_def
  try_add_callback_def request_stop_begin_def upd_base_def upd_control_def detach_loop.simps

lemma stop_demo_reachable: "stop_reachable stop_demo"
proof -
  let ?y = "callback_construct 6 (callback_construct 5 stop_sys_init)"
  have "st_callback stop_sys_init 5 = C_none" "st_callback (callback_construct 5 stop_sys_init) 6 = C_none"
    by (simp_all add: stop_demo_simps Let_def)
  then have r: "stop_reachable ?y" by (blast intro: stop_reachable.intros stop_step.construct)
  have "request_stop_begin 1 (st_source ?y) = Some (Some (Some 6), snd (the (request_stop_begin 1 (st_source ?y))))"
    by (simp add: stop_demo_simps Let_def)
  from stop_reachable.step [OF r stop_step.request [OF this]] show ?thesis by (simp add: stop_demo_def Let_def)
qed

theorem stop_callbacks_safe_witness:
  "stop_reachable stop_demo \<and> fst (invoke_begin 6 (st_source stop_demo)) \<and> 6 \<notin> set (st_invoked stop_demo) \<and> st_callback stop_demo 6 \<noteq> C_gone 2"
proof -
  have q: "st_requester stop_demo = R_loop 1 (Some 6)" by (simp add: stop_demo_def Let_def)
  have i: "fst (invoke_begin 6 (st_source stop_demo))" by (simp add: invoke_begin_def stop_demo_simps Let_def)
  then obtain p s where "invoke_begin 6 (st_source stop_demo) = (True, p, s)" by (metis prod.collapse)
  then show ?thesis using stop_callbacks_safe [OF stop_demo_reachable] q i stop_demo_reachable by blast
qed

theorem stop_drains_witness: "\<exists>z. stop_work\<^sup>*\<^sup>* stop_demo z \<and> (st_requester z = R_none \<or> st_requester z = R_returned) \<and> callback_weight (st_callback z 5) = 0"
  using stop_drains [OF stop_demo_reachable] by blast

end
