(* ===== verification/When_All.thy ===== *)
theory When_All
  imports Progress
begin

text \<open>
  The sender algorithm \<open>when_all\<close> (\<open>backport/cpp26/execution/when_all.hpp\<close>): one operation that
  starts any number of child operations, collects their completions from any threads and
  completes once, when all of them have completed.

  A child is a sender about which nothing is known but its completion signatures: once started, it
  completes at most once, from any thread, with a signal that its signatures allow.  Every atomic
  operation and every critical section of a completing child is one step.
\<close>

section \<open>The operation\<close>

text \<open>The child senders: their number, and which of them can complete with values and which can be stopped.\<close>

record wcfg =
  wc_n :: nat
  wc_has_value :: "nat \<Rightarrow> bool"
  wc_sends_stopped :: "nat \<Rightarrow> bool"

definition can_value_complete :: "wcfg \<Rightarrow> bool" where
  "can_value_complete c \<longleftrightarrow> list_all (wc_has_value c) [0 ..< wc_n c]"

definition sends_stopped :: "wcfg \<Rightarrow> bool" where
  "sends_stopped c \<longleftrightarrow> list_ex (wc_sends_stopped c) [0 ..< wc_n c]"

datatype disposition = D_started | D_error | D_stopped

text \<open>\<open>R_valueless\<close>: the variant after storing into it has thrown.\<close>

datatype 'e wresult = R_none | R_error 'e | R_stopped | R_valueless

record ('v, 'e) wop =
  wo_stop :: bool
  wo_pending :: nat
  wo_disp :: disposition
  wo_result :: "'e wresult"
  wo_partial :: "nat \<Rightarrow> 'v list option"

definition wop_new :: "wcfg \<Rightarrow> ('v, 'e) wop" where
  "wop_new c = \<lparr>wo_stop = False, wo_pending = wc_n c, wo_disp = D_started, wo_result = R_none, wo_partial = (\<lambda>_. None)\<rparr>"

text \<open>
  How a child completes: with values, which may throw when they are stored; with an error, whose
  copy may throw another one; or stopped.
\<close>

datatype ('v, 'e) wa_signal = Sig_value "'v list" | Sig_value_throws 'e | Sig_error 'e "'e option" | Sig_stopped

text \<open>Where a child is: the parts of \<open>child_fail\<close>, \<open>child_stop\<close>, \<open>child_done\<close> and \<open>deliver\<close>.\<close>

datatype 'e cpc = C_idle | C_running | C_fail 'e "'e option" | C_fail_stop 'e "'e option" | C_fail_store 'e "'e option"
  | C_fail_catch 'e | C_stop | C_stop_store | C_stop_request | C_done | C_deliver | C_signal | C_finished

text \<open>The receiver of child \<open>i\<close>.\<close>

fun child_receive :: "nat \<Rightarrow> ('v, 'e) wa_signal \<Rightarrow> ('v, 'e) wop \<Rightarrow> 'e cpc \<times> ('v, 'e) wop" where
  "child_receive i (Sig_value vs) w = (C_done, w\<lparr>wo_partial := (wo_partial w)(i := Some vs)\<rparr>)"
| "child_receive i (Sig_value_throws e) w = (C_fail e None, w)"
| "child_receive i (Sig_error e x) w = (C_fail e x, w)"
| "child_receive i Sig_stopped w = (C_stop, w)"

definition child_fail_exchange :: "'e \<Rightarrow> 'e option \<Rightarrow> ('v, 'e) wop \<Rightarrow> 'e cpc \<times> ('v, 'e) wop" where
  "child_fail_exchange e x w = (if wo_disp w \<noteq> D_error then C_fail_stop e x else C_done, w\<lparr>wo_disp := D_error\<rparr>)"

definition child_fail_store :: "'e \<Rightarrow> 'e option \<Rightarrow> ('v, 'e) wop \<Rightarrow> 'e cpc \<times> ('v, 'e) wop" where
  "child_fail_store e x w =
     (case x of
        None \<Rightarrow> (C_done, w\<lparr>wo_result := R_error e\<rparr>)
      | Some y \<Rightarrow> (C_fail_catch y, w\<lparr>wo_result := R_valueless\<rparr>))"

definition child_stop_exchange :: "('v, 'e) wop \<Rightarrow> 'e cpc \<times> ('v, 'e) wop" where
  "child_stop_exchange w = (if wo_disp w = D_started then (C_stop_store, w\<lparr>wo_disp := D_stopped\<rparr>) else (C_stop_request, w))"

definition child_stop_store :: "('v, 'e) wop \<Rightarrow> 'e cpc \<times> ('v, 'e) wop" where
  "child_stop_store w = (C_stop_request, case wo_result w of R_none \<Rightarrow> w\<lparr>wo_result := R_stopped\<rparr> | _ \<Rightarrow> w)"

definition child_done :: "('v, 'e) wop \<Rightarrow> 'e cpc \<times> ('v, 'e) wop" where
  "child_done w = (let w1 = w\<lparr>wo_pending := wo_pending w - 1\<rparr> in (if wo_pending w1 = 0 then C_deliver else C_finished, w1))"

fun child_step :: "'e cpc \<Rightarrow> ('v, 'e) wop \<Rightarrow> 'e cpc \<times> ('v, 'e) wop" where
  "child_step (C_fail e x) w = child_fail_exchange e x w"
| "child_step (C_fail_stop e x) w = (C_fail_store e x, w\<lparr>wo_stop := True\<rparr>)"
| "child_step (C_fail_store e x) w = child_fail_store e x w"
| "child_step (C_fail_catch y) w = (C_done, w\<lparr>wo_result := R_error y\<rparr>)"
| "child_step C_stop w = child_stop_exchange w"
| "child_step C_stop_store w = child_stop_store w"
| "child_step C_stop_request w = (C_done, w\<lparr>wo_stop := True\<rparr>)"
| "child_step C_done w = child_done w"
| "child_step p w = (p, w)"

definition can_step :: "'e cpc \<Rightarrow> bool" where
  "can_step p \<longleftrightarrow> p \<notin> {C_idle, C_running, C_deliver, C_signal, C_finished}"

text \<open>What the outer receiver is told.\<close>

datatype ('v, 'e) wa_output = Out_value "'v list" | Out_error 'e | Out_stopped | Out_terminate

definition deliver :: "wcfg \<Rightarrow> ('v, 'e) wop \<Rightarrow> ('v, 'e) wa_output" where
  "deliver c w =
     (case wo_result w of
        R_error e \<Rightarrow> Out_error e
      | R_stopped \<Rightarrow> (if sends_stopped c then Out_stopped else Out_terminate)
      | _ \<Rightarrow>
          (if can_value_complete c then Out_value (concat (map (\<lambda>i. the (wo_partial w i)) [0 ..< wc_n c]))
           else if sends_stopped c then Out_stopped else Out_terminate))"

section \<open>Interleaving\<close>

text \<open>
  The callback on the outer receiver's stop token: \<open>CB_running\<close> while its invocation has not yet
  called \<open>request_stop\<close>.  Its destructor waits for an invocation on another thread; an
  invocation on the same thread is past \<open>request_stop\<close>, which does not touch the operation after it
  has detached its callbacks.
\<close>

datatype wcallback = CB_none | CB_registered | CB_running | CB_fired | CB_gone

datatype wstart = S_new | S_loop nat

text \<open>
  The state of the system, with what each child has signalled, which child won the exchange of
  \<open>child_fail\<close> and which the exchange of \<open>child_stop\<close>.
\<close>

record ('v, 'e) wsys =
  wy_op :: "('v, 'e) wop"
  wy_pc :: "nat \<Rightarrow> 'e cpc"
  wy_start :: wstart
  wy_cb :: wcallback
  wy_out :: "('v, 'e) wa_output list"
  wy_signal :: "nat \<Rightarrow> ('v, 'e) wa_signal option"
  wy_winner :: "nat option"
  wy_stopper :: "nat option"

definition wsys_init :: "wcfg \<Rightarrow> ('v, 'e) wsys" where
  "wsys_init c = \<lparr>wy_op = wop_new c, wy_pc = (\<lambda>_. C_idle), wy_start = S_new, wy_cb = CB_none, wy_out = [],
     wy_signal = (\<lambda>_. None), wy_winner = None, wy_stopper = None\<rparr>"

text \<open>\<open>register_outer_stop_callback\<close>: no stop is possible, the callback is constructed, or constructing it throws.\<close>

datatype registration = Reg_impossible | Reg_constructed | Reg_throws

definition register_outer_stop_callback :: "registration \<Rightarrow> ('v, 'e) wsys \<Rightarrow> ('v, 'e) wsys" where
  "register_outer_stop_callback r y =
     (case r of
        Reg_impossible \<Rightarrow> y
      | Reg_constructed \<Rightarrow> y\<lparr>wy_cb := CB_registered\<rparr>
      | Reg_throws \<Rightarrow> y\<lparr>wy_op := (wy_op y)\<lparr>wo_stop := True\<rparr>\<rparr>)"

definition child_advance :: "nat \<Rightarrow> ('v, 'e) wsys \<Rightarrow> ('v, 'e) wsys" where
  "child_advance i y =
     (case child_step (wy_pc y i) (wy_op y) of
        (p, w) \<Rightarrow> y\<lparr>wy_op := w, wy_pc := (wy_pc y)(i := p),
          wy_winner := (case p of C_fail_stop e x \<Rightarrow> Some i | _ \<Rightarrow> wy_winner y),
          wy_stopper := (case p of C_stop_store \<Rightarrow> Some i | _ \<Rightarrow> wy_stopper y)\<rparr>)"

text \<open>What the operation does by itself.\<close>

inductive wa_work :: "wcfg \<Rightarrow> ('v, 'e) wsys \<Rightarrow> ('v, 'e) wsys \<Rightarrow> bool" for c where
  register: "wy_start y = S_new \<Longrightarrow> wa_work c y ((register_outer_stop_callback r y)\<lparr>wy_start := S_loop 0\<rparr>)"
| start_child: "wy_start y = S_loop i \<Longrightarrow> i < wc_n c \<Longrightarrow>
     wa_work c y (y\<lparr>wy_start := S_loop (i + 1), wy_pc := (wy_pc y)(i := C_running)\<rparr>)"
| advance: "can_step (wy_pc y i) \<Longrightarrow> wa_work c y (child_advance i y)"
| destroy_callback: "wy_pc y i = C_deliver \<Longrightarrow> wy_cb y \<noteq> CB_running \<Longrightarrow>
     wa_work c y (y\<lparr>wy_cb := CB_gone, wy_pc := (wy_pc y)(i := C_signal)\<rparr>)"
| signal: "wy_pc y i = C_signal \<Longrightarrow>
     wa_work c y (y\<lparr>wy_out := wy_out y @ [deliver c (wy_op y)], wy_pc := (wy_pc y)(i := C_finished)\<rparr>)"
| fire: "wy_cb y = CB_running \<Longrightarrow> wa_work c y (y\<lparr>wy_cb := CB_fired, wy_op := (wy_op y)\<lparr>wo_stop := True\<rparr>\<rparr>)"

definition allowed :: "wcfg \<Rightarrow> nat \<Rightarrow> ('v, 'e) wa_signal \<Rightarrow> bool" where
  "allowed c i s = (case s of Sig_value vs \<Rightarrow> wc_has_value c i | Sig_value_throws e \<Rightarrow> wc_has_value c i
     | Sig_error e x \<Rightarrow> True | Sig_stopped \<Rightarrow> wc_sends_stopped c i)"

inductive wa_step :: "wcfg \<Rightarrow> ('v, 'e) wsys \<Rightarrow> ('v, 'e) wsys \<Rightarrow> bool" for c where
  complete: "wy_pc y i = C_running \<Longrightarrow> allowed c i s \<Longrightarrow> child_receive i s (wy_op y) = (p, w) \<Longrightarrow>
     wa_step c y (y\<lparr>wy_op := w, wy_pc := (wy_pc y)(i := p), wy_signal := (wy_signal y)(i := Some s)\<rparr>)"
| outer_stop: "wy_cb y = CB_registered \<Longrightarrow> wa_step c y (y\<lparr>wy_cb := CB_running\<rparr>)"
| work: "wa_work c y z \<Longrightarrow> wa_step c y z"

inductive wa_reachable :: "wcfg \<Rightarrow> ('v, 'e) wsys \<Rightarrow> bool" for c where
  init: "wa_reachable c (wsys_init c)"
| step: "wa_reachable c y \<Longrightarrow> wa_step c y z \<Longrightarrow> wa_reachable c z"

section \<open>The invariant\<close>

text \<open>The error a child fails with, and the one that storing it throws.\<close>

fun fail_args :: "('v, 'e) wa_signal \<Rightarrow> ('e \<times> 'e option) option" where
  "fail_args (Sig_value vs) = None"
| "fail_args (Sig_value_throws e) = Some (e, None)"
| "fail_args (Sig_error e x) = Some (e, x)"
| "fail_args Sig_stopped = None"

text \<open>The error that is kept when storing \<open>e\<close> throws \<open>x\<close>, or does not throw.\<close>

definition stored_error :: "'e \<Rightarrow> 'e option \<Rightarrow> 'e" where
  "stored_error e x = (case x of None \<Rightarrow> e | Some y \<Rightarrow> y)"

text \<open>What the operation has recorded of a completion before the child is counted as done.\<close>

fun settled :: "('v, 'e) wop \<Rightarrow> nat \<Rightarrow> ('v, 'e) wa_signal \<Rightarrow> bool" where
  "settled w i (Sig_value vs) \<longleftrightarrow> wo_partial w i = Some vs"
| "settled w i Sig_stopped \<longleftrightarrow> wo_stop w \<and> wo_disp w \<noteq> D_started"
| "settled w i s \<longleftrightarrow> wo_disp w = D_error"

fun child_ok :: "('v, 'e) wop \<Rightarrow> ('v, 'e) wa_signal option \<Rightarrow> nat option \<Rightarrow> nat option \<Rightarrow> nat \<Rightarrow> 'e cpc \<Rightarrow> bool" where
  "child_ok w g a b i C_idle \<longleftrightarrow> g = None"
| "child_ok w g a b i C_running \<longleftrightarrow> g = None"
| "child_ok w g a b i (C_fail e x) \<longleftrightarrow> Option.bind g fail_args = Some (e, x)"
| "child_ok w g a b i (C_fail_stop e x) \<longleftrightarrow> Option.bind g fail_args = Some (e, x) \<and> a = Some i"
| "child_ok w g a b i (C_fail_store e x) \<longleftrightarrow> Option.bind g fail_args = Some (e, x) \<and> a = Some i \<and> wo_stop w"
| "child_ok w g a b i (C_fail_catch y) \<longleftrightarrow> (\<exists>e. Option.bind g fail_args = Some (e, Some y)) \<and> a = Some i \<and> wo_stop w"
| "child_ok w g a b i C_stop \<longleftrightarrow> g = Some Sig_stopped"
| "child_ok w g a b i C_stop_store \<longleftrightarrow> g = Some Sig_stopped \<and> b = Some i \<and> wo_disp w \<noteq> D_started"
| "child_ok w g a b i C_stop_request \<longleftrightarrow> g = Some Sig_stopped \<and> wo_disp w \<noteq> D_started"
| "child_ok w g a b i p \<longleftrightarrow> (\<exists>s. g = Some s \<and> settled w i s)"

definition in_fail :: "'e cpc \<Rightarrow> bool" where
  "in_fail p = (case p of C_fail_stop e x \<Rightarrow> True | C_fail_store e x \<Rightarrow> True | C_fail_catch y \<Rightarrow> True | _ \<Rightarrow> False)"

definition wa_children :: "('v, 'e) wop \<Rightarrow> (nat \<Rightarrow> 'e cpc) \<Rightarrow> (nat \<Rightarrow> ('v, 'e) wa_signal option) \<Rightarrow> nat option \<Rightarrow> nat option \<Rightarrow> bool" where
  "wa_children w f g a b \<longleftrightarrow> (\<forall>i. child_ok w (g i) a b i (f i))"

text \<open>The winner of \<open>child_fail\<close> decides the result, unless there is none and a child has been stopped.\<close>

definition wa_verdict :: "nat \<Rightarrow> ('v, 'e) wop \<Rightarrow> (nat \<Rightarrow> 'e cpc) \<Rightarrow> (nat \<Rightarrow> ('v, 'e) wa_signal option) \<Rightarrow> nat option \<Rightarrow> nat option \<Rightarrow> bool" where
  "wa_verdict n w f g a b \<longleftrightarrow>
     (a = None \<longleftrightarrow> wo_disp w \<noteq> D_error) \<and>
     (\<forall>k. a = Some k \<longrightarrow> k < n \<and> (\<exists>e x. Option.bind (g k) fail_args = Some (e, x) \<and>
        (in_fail (f k) \<or> wo_result w = R_error (stored_error e x) \<and> wo_stop w))) \<and>
     (wo_result w \<notin> {R_none, R_stopped} \<longrightarrow> a \<noteq> None) \<and>
     (wo_result w = R_stopped \<longrightarrow> b \<noteq> None) \<and>
     (\<forall>k. b = Some k \<longrightarrow> k < n \<and> g k = Some Sig_stopped \<and> (f k = C_stop_store \<or> wo_result w \<noteq> R_none)) \<and>
     (wo_disp w = D_stopped \<longrightarrow> b \<noteq> None) \<and> (wo_disp w = D_started \<longrightarrow> b = None)"

definition released :: "'e cpc \<Rightarrow> bool" where
  "released p \<longleftrightarrow> p \<in> {C_deliver, C_signal, C_finished}"

definition unreleased :: "nat \<Rightarrow> (nat \<Rightarrow> 'e cpc) \<Rightarrow> nat set" where
  "unreleased n f = {i. i < n \<and> \<not> released (f i)}"

definition delivering :: "'e cpc \<Rightarrow> bool" where
  "delivering p \<longleftrightarrow> p \<in> {C_deliver, C_signal}"

text \<open>The counter and the one delivery.\<close>

definition wa_tally :: "wcfg \<Rightarrow> ('v, 'e) wop \<Rightarrow> (nat \<Rightarrow> 'e cpc) \<Rightarrow> wcallback \<Rightarrow> ('v, 'e) wa_output list \<Rightarrow> bool" where
  "wa_tally c w f cb out \<longleftrightarrow>
     wo_pending w = card (unreleased (wc_n c) f) \<and>
     (\<forall>i < wc_n c. delivering (f i) \<longrightarrow> out = [] \<and> (\<forall>j < wc_n c. j \<noteq> i \<longrightarrow> f j = C_finished)) \<and>
     (\<forall>i < wc_n c. f i = C_signal \<longrightarrow> cb = CB_gone) \<and>
     (out \<noteq> [] \<longrightarrow> (\<forall>i < wc_n c. f i = C_finished) \<and> out = [deliver c w] \<and> cb = CB_gone) \<and>
     (wo_pending w = 0 \<longrightarrow> out \<noteq> [] \<or> (\<exists>i < wc_n c. delivering (f i)))"

definition wa_begun :: "nat \<Rightarrow> (nat \<Rightarrow> 'e cpc) \<Rightarrow> wstart \<Rightarrow> bool" where
  "wa_begun n f s \<longleftrightarrow>
     (case s of S_new \<Rightarrow> \<forall>i. f i = C_idle | S_loop m \<Rightarrow> m \<le> n \<and> (\<forall>i. f i = C_idle \<longleftrightarrow> m \<le> i))"

definition wa_inv :: "wcfg \<Rightarrow> ('v, 'e) wsys \<Rightarrow> bool" where
  "wa_inv c y \<longleftrightarrow>
     0 < wc_n c \<and> wa_begun (wc_n c) (wy_pc y) (wy_start y) \<and>
     (\<forall>i s. wy_signal y i = Some s \<longrightarrow> allowed c i s) \<and>
     wa_children (wy_op y) (wy_pc y) (wy_signal y) (wy_winner y) (wy_stopper y) \<and>
     wa_verdict (wc_n c) (wy_op y) (wy_pc y) (wy_signal y) (wy_winner y) (wy_stopper y) \<and>
     wa_tally c (wy_op y) (wy_pc y) (wy_cb y) (wy_out y)"

subsection \<open>Starting\<close>

lemma wa_inv_init: "0 < wc_n c \<Longrightarrow> wa_inv c (wsys_init c)"
  by (auto simp: wa_inv_def wsys_init_def wop_new_def wa_begun_def wa_children_def wa_verdict_def wa_tally_def
      unreleased_def released_def delivering_def)

lemma begun_bound: "wa_begun n f s \<Longrightarrow> f i \<noteq> C_idle \<Longrightarrow> i < n"
  by (cases s) (auto simp: wa_begun_def not_le [symmetric])

lemma begun_upd: "wa_begun n f s \<Longrightarrow> f i \<noteq> C_idle \<Longrightarrow> p \<noteq> C_idle \<Longrightarrow> wa_begun n (f(i := p)) s"
  by (cases s) (auto simp: wa_begun_def)

lemma begun_start: "wa_begun n f (S_loop i) \<Longrightarrow> i < n \<Longrightarrow> wa_begun n (f(i := C_running)) (S_loop (Suc i))"
  unfolding wa_begun_def wstart.case by (metis Suc_leI Suc_le_lessD cpc.distinct(1) fun_upd_apply le_neq_implies_less not_less order_less_imp_le)

subsection \<open>Counting\<close>

lemma unreleased_upd:
  "i < n \<Longrightarrow> \<not> released p \<Longrightarrow> unreleased n (f(i := p)) = insert i (unreleased n f)"
  "released p \<Longrightarrow> unreleased n (f(i := p)) = unreleased n f - {i}"
  by (auto simp: unreleased_def)

lemma finite_unreleased [simp]: "finite (unreleased n f)"
  by (simp add: unreleased_def)

lemma tallyD:
  assumes "wa_tally c w f cb out"
  shows "wo_pending w = card (unreleased (wc_n c) f)"
    and "i < wc_n c \<Longrightarrow> delivering (f i) \<Longrightarrow> out = []"
    and "i < wc_n c \<Longrightarrow> delivering (f i) \<Longrightarrow> j < wc_n c \<Longrightarrow> j \<noteq> i \<Longrightarrow> f j = C_finished"
    and "i < wc_n c \<Longrightarrow> f i = C_signal \<Longrightarrow> cb = CB_gone"
    and "out \<noteq> [] \<Longrightarrow> i < wc_n c \<Longrightarrow> f i = C_finished"
    and "out \<noteq> [] \<Longrightarrow> out = [deliver c w]"
    and "out \<noteq> [] \<Longrightarrow> cb = CB_gone"
    and "wo_pending w = 0 \<Longrightarrow> out = [] \<Longrightarrow> \<exists>i < wc_n c. delivering (f i)"
  using assms unfolding wa_tally_def by blast+

lemma tally_running:
  assumes "wa_tally c w f cb out" "i < wc_n c" "\<not> released (f i)"
  shows "out = []" "j < wc_n c \<Longrightarrow> \<not> delivering (f j)" "0 < wo_pending w"
proof -
  have nf: "f i \<noteq> C_finished" "\<not> delivering (f i)" using assms(3) by (auto simp: released_def delivering_def)
  show "out = []" using tallyD(5) [OF assms(1) _ assms(2)] nf(1) by blast
  show "\<not> delivering (f j)" if "j < wc_n c"
    using tallyD(3) [OF assms(1) that _ assms(2)] nf by blast
  have "i \<in> unreleased (wc_n c) f" using assms(2,3) by (simp add: unreleased_def)
  then show "0 < wo_pending w" using tallyD(1) [OF assms(1)] by (auto simp: card_gt_0_iff)
qed

text \<open>As long as nothing is delivered and nobody delivers, only the counter matters.\<close>

lemma tally_quiet:
  assumes "wo_pending w = card (unreleased (wc_n c) f)" "0 < wo_pending w" "\<And>j. j < wc_n c \<Longrightarrow> \<not> delivering (f j)"
  shows "wa_tally c w f cb []"
proof -
  have "f j \<noteq> C_signal" if "j < wc_n c" for j using assms(3) [OF that] by (auto simp: delivering_def)
  then show ?thesis using assms unfolding wa_tally_def by auto
qed

lemma tally_keep:
  assumes t: "wa_tally c w f cb out" "i < wc_n c" "\<not> released (f i)" and p: "\<not> released p" "wo_pending w' = wo_pending w"
  shows "wa_tally c w' (f(i := p)) cb' out"
proof -
  have "i \<in> unreleased (wc_n c) f" using t(2,3) by (simp add: unreleased_def)
  then have "unreleased (wc_n c) (f(i := p)) = unreleased (wc_n c) f"
    using t(2) p(1) by (simp add: unreleased_upd insert_absorb)
  moreover have "\<not> delivering ((f(i := p)) j)" if "j < wc_n c" for j
    using tally_running(2) [OF t that] p(1) by (simp add: delivering_def released_def)
  ultimately show ?thesis using p(2) tallyD(1) [OF t(1)] tally_running(3) [OF t]
    unfolding tally_running(1) [OF t] by (intro tally_quiet) simp_all
qed

lemma tally_done:
  assumes t: "wa_tally c w f cb out" "i < wc_n c" "f i = C_done"
  shows "wa_tally c (snd (child_done w)) (f(i := fst (child_done w))) cb out"
proof -
  have nr: "\<not> released (f i)" using t(3) by (simp add: released_def)
  note run = tally_running [OF t(1,2) nr]
  let ?w = "snd (child_done w)" and ?f = "f(i := fst (child_done w))"
  have "unreleased (wc_n c) ?f = unreleased (wc_n c) f - {i}"
    by (rule unreleased_upd) (simp add: child_done_def Let_def released_def)
  moreover have "i \<in> unreleased (wc_n c) f" using nr t(2) by (simp add: unreleased_def)
  ultimately have card: "wo_pending ?w = card (unreleased (wc_n c) ?f)"
    using tallyD(1) [OF t(1)] by (simp add: child_done_def Let_def)
  show ?thesis
  proof (cases "wo_pending ?w = 0")
    case True
    have "f j = C_finished" if "j < wc_n c" "j \<noteq> i" for j
    proof -
      have "j \<notin> unreleased (wc_n c) ?f" using card True by auto
      then show ?thesis using that run(2) [OF that(1)] by (auto simp: unreleased_def released_def delivering_def)
    qed
    moreover have "?f i = C_deliver" using True by (simp add: child_done_def Let_def)
    ultimately show ?thesis using card True t(2) unfolding wa_tally_def run(1)
      by (simp add: delivering_def) blast
  next
    case False
    then have "\<not> delivering (?f j)" if "j < wc_n c" for j
      using run(2) [OF that] by (simp add: child_done_def Let_def delivering_def)
    moreover have "0 < wo_pending ?w" using False by (rule neq0_conv [THEN iffD1])
    ultimately show ?thesis using card unfolding run(1) by (intro tally_quiet)
  qed
qed

subsection \<open>Completions\<close>

text \<open>What a step of one child keeps for the others.\<close>

definition wo_grows :: "('v, 'e) wop \<Rightarrow> ('v, 'e) wop \<Rightarrow> bool" where
  "wo_grows w w' \<longleftrightarrow> (wo_stop w \<longrightarrow> wo_stop w') \<and> (wo_disp w \<noteq> D_started \<longrightarrow> wo_disp w' \<noteq> D_started) \<and>
     (wo_disp w = D_error \<longrightarrow> wo_disp w' = D_error)"

lemma settled_grows: "settled w i s \<Longrightarrow> wo_grows w w' \<Longrightarrow> wo_partial w' i = wo_partial w i \<Longrightarrow> settled w' i s"
  by (cases s) (auto simp: wo_grows_def)

lemma child_ok_grows:
  assumes "child_ok w g a b i p" "wo_grows w w'" "wo_partial w' i = wo_partial w i"
    "in_fail p \<Longrightarrow> a' = a" "p = C_stop_store \<Longrightarrow> b' = b"
  shows "child_ok w' g a' b' i p"
  using assms settled_grows [OF _ assms(2,3)] by (cases p) (auto simp: in_fail_def wo_grows_def)

lemma children_upd:
  assumes "wa_children w f g a b" "wo_grows w w'" "child_ok w' (g' i) a' b' i p"
    "\<And>j. j \<noteq> i \<Longrightarrow> wo_partial w' j = wo_partial w j" "\<And>j. j \<noteq> i \<Longrightarrow> g' j = g j"
    "\<And>j. in_fail (f j) \<Longrightarrow> j \<noteq> i \<Longrightarrow> a' = a" "\<And>j. f j = C_stop_store \<Longrightarrow> j \<noteq> i \<Longrightarrow> b' = b"
  shows "wa_children w' (f(i := p)) g' a' b'"
  unfolding wa_children_def
proof
  fix j
  show "child_ok w' (g' j) a' b' j ((f(i := p)) j)"
  proof (cases "j = i")
    case True
    then show ?thesis using assms(3) by simp
  next
    case False
    have "child_ok w (g j) a b j (f j)" using assms(1) by (simp add: wa_children_def)
    then have "child_ok w' (g j) a' b' j (f j)"
      using assms(2) assms(4) [OF False] assms(6) [OF _ False] assms(7) [OF _ False] by (rule child_ok_grows)
    then show ?thesis using assms(5) [OF False] False by simp
  qed
qed

lemma child_okD: "wa_children w f g a b \<Longrightarrow> child_ok w (g i) a b i (f i)"
  by (simp add: wa_children_def)

lemma fail_winner: "wa_children w f g a b \<Longrightarrow> in_fail (f i) \<Longrightarrow> a = Some i"
  using child_okD [of w f g a b i] by (cases "f i") (auto simp: in_fail_def)

lemma stop_stopper: "wa_children w f g a b \<Longrightarrow> f i = C_stop_store \<Longrightarrow> b = Some i \<and> wo_disp w \<noteq> D_started"
  using child_okD [of w f g a b i] by simp

lemma fail_args_settled: "Option.bind x fail_args = Some d \<Longrightarrow> wo_disp w = D_error \<Longrightarrow> \<exists>s. x = Some s \<and> settled w i s"
  by (cases x; cases "the x") auto

lemma advance_fail:
  assumes "wa_children w f g a b" "wa_verdict n w f g a b" "i < n" "f i = C_fail e x" "child_fail_exchange e x w = (p, w')"
    "a' = (if wo_disp w \<noteq> D_error then Some i else a)"
  shows "wa_children w' (f(i := p)) g a' b \<and> wa_verdict n w' (f(i := p)) g a' b"
proof
  have ok: "Option.bind (g i) fail_args = Some (e, x)" using child_okD [OF assms(1), of i] assms(4) by simp
  have w: "w' = w\<lparr>wo_disp := D_error\<rparr>" "p = (if wo_disp w \<noteq> D_error then C_fail_stop e x else C_done)"
    using assms(5) by (auto simp: child_fail_exchange_def)
  show "wa_children w' (f(i := p)) g a' b"
  proof (rule children_upd [OF assms(1)])
    show "wo_grows w w'" by (simp add: wo_grows_def w)
    show "child_ok w' (g i) a' b i p" using ok assms(6) w fail_args_settled [OF ok] by simp
    show "a' = a" if "in_fail (f j)" for j
      using fail_winner [OF assms(1) that] assms(2,6) by (auto simp: wa_verdict_def)
  qed (simp_all add: w)
  show "wa_verdict n w' (f(i := p)) g a' b"
    using assms(2,3,4,6) ok unfolding wa_verdict_def w by (auto simp: in_fail_def)
qed

text \<open>The winner stops the other children and stores its error.\<close>

lemma winner_result:
  assumes "wa_verdict n w f g a b" "a = Some i" "i < n" "Option.bind (g i) fail_args = Some (e, x)" "wo_stop w'"
    "wo_disp w' = wo_disp w" "in_fail (f i)" "in_fail p \<or> wo_result w' = R_error (stored_error e x)"
    "wo_result w' \<in> {wo_result w, R_valueless, R_error (stored_error e x)}"
  shows "wa_verdict n w' (f(i := p)) g a b"
proof -
  have "wo_result w' = R_none \<Longrightarrow> wo_result w = R_none" "wo_result w' = R_stopped \<Longrightarrow> wo_result w = R_stopped"
    using assms(9) by auto
  moreover have "f i \<noteq> C_stop_store" using assms(7) by (auto simp: in_fail_def)
  ultimately show ?thesis using assms(1-6,8) unfolding wa_verdict_def by auto
qed

lemma advance_winner:
  assumes "wa_children w f g a b" "wa_verdict n w f g a b" "i < n" "in_fail (f i)" "child_step (f i) w = (p, w')"
  shows "wa_children w' (f(i := p)) g a b \<and> wa_verdict n w' (f(i := p)) g a b"
proof
  have a: "a = Some i" using assms(1,4) by (rule fail_winner)
  then have err: "wo_disp w = D_error" using assms(2) by (auto simp: wa_verdict_def)
  have ok: "child_ok w (g i) a b i (f i)" using assms(1) by (rule child_okD)
  have gr: "wo_grows w w'" "wo_partial w' = wo_partial w" "wo_disp w' = wo_disp w"
    using assms(4,5) by (cases "f i"; auto simp: in_fail_def wo_grows_def child_fail_store_def split: option.splits)+
  show "wa_children w' (f(i := p)) g a b"
  proof (rule children_upd [OF assms(1) gr(1)])
    have "\<And>d. Option.bind (g i) fail_args = Some d \<Longrightarrow> \<exists>s. g i = Some s \<and> settled w' i s"
      using err gr(3) fail_args_settled by metis
    then show "child_ok w' (g i) a b i p" using ok assms(4,5)
      by (cases "f i") (auto simp: in_fail_def child_fail_store_def split: option.splits)
  qed (simp_all add: gr(2))
  show "wa_verdict n w' (f(i := p)) g a b"
  proof (cases "f i")
    case (C_fail_stop e x)
    then show ?thesis using assms ok by (intro winner_result [OF assms(2) a assms(3)]) (auto simp: in_fail_def)
  next
    case (C_fail_store e x)
    then show ?thesis using assms ok by (intro winner_result [OF assms(2) a assms(3)])
      (auto simp: in_fail_def child_fail_store_def stored_error_def split: option.splits)
  next
    case (C_fail_catch y)
    then obtain e where "Option.bind (g i) fail_args = Some (e, Some y)" using ok by auto
    then show ?thesis using assms ok C_fail_catch by (intro winner_result [OF assms(2) a assms(3)])
      (auto simp: in_fail_def stored_error_def)
  qed (use assms(4) in \<open>simp_all add: in_fail_def\<close>)
qed

lemma advance_stop:
  assumes "wa_children w f g a b" "wa_verdict n w f g a b" "i < n" "f i = C_stop" "child_stop_exchange w = (p, w')"
    "b' = (if wo_disp w = D_started then Some i else b)"
  shows "wa_children w' (f(i := p)) g a b' \<and> wa_verdict n w' (f(i := p)) g a b'"
proof
  have ok: "g i = Some Sig_stopped" using child_okD [OF assms(1), of i] assms(4) by simp
  show "wa_children w' (f(i := p)) g a b'"
  proof (rule children_upd [OF assms(1)])
    show "wo_grows w w'" using assms(5) by (auto simp: wo_grows_def child_stop_exchange_def split: if_splits)
    show "child_ok w' (g i) a b' i p" using ok assms(5,6) by (auto simp: child_stop_exchange_def split: if_splits)
    show "b' = b" if "f j = C_stop_store" for j using stop_stopper [OF assms(1) that] assms(6) by simp
  qed (use assms(5) in \<open>auto simp: child_stop_exchange_def split: if_splits\<close>)
  show "wa_verdict n w' (f(i := p)) g a b'"
  proof (cases "wo_disp w = D_started")
    case True
    then have w: "w' = w\<lparr>wo_disp := D_stopped\<rparr>" "p = C_stop_store" "b' = Some i" "a = None"
      using assms(2,5,6) by (auto simp: child_stop_exchange_def wa_verdict_def)
    then show ?thesis using assms(2,3) ok by (simp add: wa_verdict_def)
  next
    case False
    then have w: "w' = w" "p = C_stop_request" "b' = b" using assms(5,6) by (auto simp: child_stop_exchange_def)
    then show ?thesis using assms(2,4) by (auto simp: wa_verdict_def in_fail_def)
  qed
qed

lemma advance_stopped:
  assumes "wa_children w f g a b" "wa_verdict n w f g a b" "i < n" "f i \<in> {C_stop_store, C_stop_request}"
    "child_step (f i) w = (p, w')"
  shows "wa_children w' (f(i := p)) g a b \<and> wa_verdict n w' (f(i := p)) g a b"
proof
  have ok: "child_ok w (g i) a b i (f i)" using assms(1) by (rule child_okD)
  have gr: "wo_grows w w'" "wo_partial w' = wo_partial w" "wo_disp w' = wo_disp w"
    using assms(4,5) by (auto simp: wo_grows_def child_stop_store_def split: wresult.splits)
  show "wa_children w' (f(i := p)) g a b"
  proof (rule children_upd [OF assms(1) gr(1)])
    show "child_ok w' (g i) a b i p" using ok assms(4,5) gr(3) by (auto simp: child_stop_store_def)
  qed (simp_all add: gr(2))
  show "wa_verdict n w' (f(i := p)) g a b"
  proof (cases "f i = C_stop_store")
    case True
    then have b: "b = Some i" "p = C_stop_request" using ok assms(5) by (simp_all add: child_stop_store_def)
    show ?thesis
    proof (cases "wo_result w = R_none")
      case none: True
      then have "w' = w\<lparr>wo_result := R_stopped\<rparr>" using True assms(5) by (simp add: child_stop_store_def)
      then show ?thesis using assms(2) b True none by (auto simp: wa_verdict_def in_fail_def)
    next
      case False
      then have "w' = w" using True assms(5) by (auto simp: child_stop_store_def split: wresult.splits)
      then show ?thesis using assms(2) b True False by (auto simp: wa_verdict_def in_fail_def)
    qed
  next
    case False
    then have "f i = C_stop_request" "w' = w\<lparr>wo_stop := True\<rparr>" "p = C_done" using assms(4,5) by auto
    then show ?thesis using assms(2) by (auto simp: wa_verdict_def in_fail_def)
  qed
qed

text \<open>Once a child is done, its further steps only count and deliver.\<close>

lemma verdict_quiet:
  assumes "wa_verdict n w f g a b" "\<not> in_fail (f i)" "f i \<noteq> C_stop_store" "wo_disp w' = wo_disp w" "wo_result w' = wo_result w"
    "wo_stop w \<longrightarrow> wo_stop w'"
  shows "wa_verdict n w' (f(i := p)) g a b"
  using assms unfolding wa_verdict_def by auto

lemma advance_released:
  assumes "wa_children w f g a b" "wa_verdict n w f g a b" "f i \<in> {C_done, C_deliver, C_signal}"
    "p \<in> {C_deliver, C_signal, C_finished}"
  shows "wa_children (w\<lparr>wo_pending := k\<rparr>) (f(i := p)) g a b \<and> wa_verdict n (w\<lparr>wo_pending := k\<rparr>) (f(i := p)) g a b"
proof
  let ?w = "w\<lparr>wo_pending := k\<rparr>"
  have gr: "wo_grows w ?w" by (simp add: wo_grows_def)
  have "\<exists>s. g i = Some s \<and> settled w i s" using child_okD [OF assms(1), of i] assms(3) by auto
  then have "\<exists>s. g i = Some s \<and> settled ?w i s" using settled_grows [OF _ gr] by fastforce
  then show "wa_children ?w (f(i := p)) g a b"
    using assms(4) by (intro children_upd [OF assms(1) gr]) auto
  show "wa_verdict n ?w (f(i := p)) g a b"
    by (rule verdict_quiet [OF assms(2)]) (use assms(3) in \<open>auto simp: in_fail_def\<close>)
qed

subsection \<open>Every step keeps the invariant\<close>

text \<open>The winner and the stopper after a step of child \<open>i\<close> to \<open>p\<close>.\<close>

definition next_winner :: "nat \<Rightarrow> 'e cpc \<Rightarrow> nat option \<Rightarrow> nat option" where
  "next_winner i p a = (case p of C_fail_stop e x \<Rightarrow> Some i | _ \<Rightarrow> a)"

definition next_stopper :: "nat \<Rightarrow> 'e cpc \<Rightarrow> nat option \<Rightarrow> nat option" where
  "next_stopper i p b = (case p of C_stop_store \<Rightarrow> Some i | _ \<Rightarrow> b)"

lemma advance_parts:
  assumes cv: "wa_children w f g a b" "wa_verdict n w f g a b" and i: "i < n" "can_step (f i)" and pw: "child_step (f i) w = (p, w')"
  shows "wa_children w' (f(i := p)) g (next_winner i p a) (next_stopper i p b) \<and>
    wa_verdict n w' (f(i := p)) g (next_winner i p a) (next_stopper i p b)"
proof (cases "f i")
  case (C_fail e x)
  then have "next_winner i p a = (if wo_disp w \<noteq> D_error then Some i else a)" "next_stopper i p b = b"
    "child_fail_exchange e x w = (p, w')"
    using pw by (auto simp: next_winner_def next_stopper_def child_fail_exchange_def)
  then show ?thesis using advance_fail [OF cv i(1) C_fail] by simp
next
  case C_stop
  then have "next_winner i p a = a" "next_stopper i p b = (if wo_disp w = D_started then Some i else b)"
    "child_stop_exchange w = (p, w')"
    using pw by (auto simp: next_winner_def next_stopper_def child_stop_exchange_def split: if_splits)
  then show ?thesis using advance_stop [OF cv i(1) C_stop] by simp
next
  case C_done
  then obtain k where "w' = w\<lparr>wo_pending := k\<rparr>" "p \<in> {C_deliver, C_signal, C_finished}"
    "next_winner i p a = a" "next_stopper i p b = b"
    using pw by (auto simp: next_winner_def next_stopper_def child_done_def Let_def split: if_splits)
  then show ?thesis using advance_released [OF cv, of i p k] C_done by simp
next
  case (C_fail_stop e x)
  then show ?thesis using advance_winner [OF cv i(1) _ pw] pw by (auto simp: in_fail_def next_winner_def next_stopper_def)
next
  case (C_fail_store e x)
  then show ?thesis using advance_winner [OF cv i(1) _ pw] pw
    by (cases x) (auto simp: in_fail_def next_winner_def next_stopper_def child_fail_store_def)
next
  case (C_fail_catch e)
  then show ?thesis using advance_winner [OF cv i(1) _ pw] pw by (auto simp: in_fail_def next_winner_def next_stopper_def)
qed (use i(2) advance_stopped [OF cv i(1) _ pw] pw
  in \<open>auto simp: can_step_def next_winner_def next_stopper_def child_stop_store_def\<close>)

lemma child_step_pc:
  assumes "can_step q" "child_step q w = (p, w')"
  shows "p \<noteq> C_idle" "p \<noteq> C_running" "q \<noteq> C_done \<Longrightarrow> \<not> released p" "q \<noteq> C_done \<Longrightarrow> wo_pending w' = wo_pending w"
  using assms by (cases q; auto simp: can_step_def child_fail_exchange_def child_fail_store_def child_stop_exchange_def
      child_stop_store_def child_done_def Let_def released_def split: if_splits option.splits wresult.splits)+

lemma advance_tally:
  assumes t: "wa_tally c w f cb out" "i < wc_n c" and s: "can_step (f i)" "child_step (f i) w = (p, w')"
  shows "wa_tally c w' (f(i := p)) cb out"
proof (cases "f i = C_done")
  case True
  then show ?thesis using tally_done [OF t True] s(2) by simp
next
  case False
  have "\<not> released (f i)" using s(1) by (auto simp: can_step_def released_def)
  then show ?thesis using tally_keep [OF t] child_step_pc(3,4) [OF s False] by blast
qed

lemma wa_invD:
  assumes "wa_inv c y"
  shows "0 < wc_n c" "wa_begun (wc_n c) (wy_pc y) (wy_start y)"
    "wy_signal y i = Some s \<Longrightarrow> allowed c i s"
    "wa_children (wy_op y) (wy_pc y) (wy_signal y) (wy_winner y) (wy_stopper y)"
    "wa_verdict (wc_n c) (wy_op y) (wy_pc y) (wy_signal y) (wy_winner y) (wy_stopper y)"
    "wa_tally c (wy_op y) (wy_pc y) (wy_cb y) (wy_out y)"
    "wy_pc y i \<noteq> C_idle \<Longrightarrow> i < wc_n c"
  using assms begun_bound [of "wc_n c" "wy_pc y" "wy_start y" i] unfolding wa_inv_def by blast+

lemma child_advance_eq:
  "child_step (wy_pc y i) (wy_op y) = (p, w) \<Longrightarrow> child_advance i y = y\<lparr>wy_op := w, wy_pc := (wy_pc y)(i := p),
     wy_winner := next_winner i p (wy_winner y), wy_stopper := next_stopper i p (wy_stopper y)\<rparr>"
  by (simp add: child_advance_def next_winner_def next_stopper_def)

lemma wa_inv_advance:
  assumes y: "wa_inv c y" and s: "can_step (wy_pc y i)"
  shows "wa_inv c (child_advance i y)"
proof -
  obtain p w where pw: "child_step (wy_pc y i) (wy_op y) = (p, w)" by fastforce
  have run: "wy_pc y i \<noteq> C_idle" using s by (auto simp: can_step_def)
  then have i: "i < wc_n c" by (rule wa_invD(7) [OF y])
  have "wa_begun (wc_n c) ((wy_pc y)(i := p)) (wy_start y)"
    using wa_invD(2) [OF y] run child_step_pc(1) [OF s pw] by (rule begun_upd)
  then show ?thesis
    using y advance_parts [OF wa_invD(4,5) [OF y] i s pw] advance_tally [OF wa_invD(6) [OF y] i s pw]
    unfolding child_advance_eq [of y i, OF pw] wa_inv_def by simp
qed

text \<open>The stop request changes nothing but the flag.\<close>

lemma stop_parts:
  assumes "wa_children w f g a b" "wa_verdict n w f g a b"
  shows "wa_children (w\<lparr>wo_stop := True\<rparr>) f g a b" "wa_verdict n (w\<lparr>wo_stop := True\<rparr>) f g a b"
proof -
  have "child_ok (w\<lparr>wo_stop := True\<rparr>) (g i) a b i (f i)" for i
    by (rule child_ok_grows [OF child_okD [OF assms(1)]]) (simp_all add: wo_grows_def)
  then show "wa_children (w\<lparr>wo_stop := True\<rparr>) f g a b" by (simp add: wa_children_def)
  show "wa_verdict n (w\<lparr>wo_stop := True\<rparr>) f g a b" using assms(2) unfolding wa_verdict_def by auto
qed

lemma deliver_stop [simp]: "deliver c (w\<lparr>wo_stop := t\<rparr>) = deliver c w"
  by (cases "wo_result w") (simp_all add: deliver_def)

lemma pending_stop: "wo_pending (w\<lparr>wo_stop := t\<rparr>) = wo_pending w"
  by simp

lemma tally_stop: "wa_tally c w f cb out \<Longrightarrow> wa_tally c (w\<lparr>wo_stop := True\<rparr>) f cb out"
  unfolding wa_tally_def deliver_stop pending_stop .

lemma tally_callback: "wa_tally c w f cb out \<Longrightarrow> cb \<noteq> CB_gone \<Longrightarrow> wa_tally c w f cb' out"
  unfolding wa_tally_def by blast

lemma wa_inv_stop:
  assumes "wa_inv c y"
  shows "wa_inv c (y\<lparr>wy_op := (wy_op y)\<lparr>wo_stop := True\<rparr>\<rparr>)"
  using assms stop_parts [OF wa_invD(4,5) [OF assms]] tally_stop [OF wa_invD(6) [OF assms]] by (simp add: wa_inv_def)

lemma wa_inv_callback: "wa_inv c y \<Longrightarrow> wy_cb y \<noteq> CB_gone \<Longrightarrow> wa_inv c (y\<lparr>wy_cb := cb\<rparr>)"
  unfolding wa_inv_def by (auto intro: tally_callback)

lemma wa_inv_start:
  assumes y: "wa_inv c y" and s: "wy_start y = S_loop i" "i < wc_n c"
  shows "wa_inv c (y\<lparr>wy_start := S_loop (i + 1), wy_pc := (wy_pc y)(i := C_running)\<rparr>)"
proof -
  have idle: "wy_pc y i = C_idle" using wa_invD(2) [OF y] s(1) by (simp add: wa_begun_def)
  have "wa_begun (wc_n c) ((wy_pc y)(i := C_running)) (S_loop (i + 1))"
    using begun_start [of "wc_n c" "wy_pc y" i] wa_invD(2) [OF y] s by simp
  moreover have "wa_children (wy_op y) ((wy_pc y)(i := C_running)) (wy_signal y) (wy_winner y) (wy_stopper y)"
    using child_okD [OF wa_invD(4) [OF y], of i] idle
    by (intro children_upd [OF wa_invD(4) [OF y]]) (simp_all add: wo_grows_def)
  moreover have "wa_verdict (wc_n c) (wy_op y) ((wy_pc y)(i := C_running)) (wy_signal y) (wy_winner y) (wy_stopper y)"
    using idle by (intro verdict_quiet [OF wa_invD(5) [OF y]]) (simp_all add: in_fail_def)
  moreover have "wa_tally c (wy_op y) ((wy_pc y)(i := C_running)) (wy_cb y) (wy_out y)"
    using idle by (intro tally_keep [OF wa_invD(6) [OF y] s(2)]) (simp_all add: released_def)
  ultimately show ?thesis using y by (simp add: wa_inv_def)
qed

lemma wa_inv_register:
  assumes y: "wa_inv c y" and s: "wy_start y = S_new"
  shows "wa_inv c ((register_outer_stop_callback r y)\<lparr>wy_start := S_loop 0\<rparr>)"
proof -
  have idle: "\<forall>i. wy_pc y i = C_idle" using wa_invD(2) [OF y] s by (simp add: wa_begun_def)
  then have nr: "\<not> released (wy_pc y 0)" by (simp add: released_def)
  have "wa_tally c (wy_op y) ((wy_pc y)(0 := wy_pc y 0)) cb (wy_out y)" for cb
    using nr by (intro tally_keep [OF wa_invD(6) [OF y] wa_invD(1) [OF y]]) simp_all
  then have cb: "wa_inv c (y\<lparr>wy_cb := CB_registered\<rparr>)" using y by (simp add: wa_inv_def)
  have "wa_inv c (register_outer_stop_callback r y)"
    using y cb wa_inv_stop [OF y] by (cases r) (simp_all add: register_outer_stop_callback_def)
  moreover have "wy_pc (register_outer_stop_callback r y) = wy_pc y"
    by (cases r) (simp_all add: register_outer_stop_callback_def)
  ultimately show ?thesis using idle by (simp add: wa_inv_def wa_begun_def)
qed

text \<open>The last child destroys the callback and delivers.\<close>

lemma released_parts:
  assumes "wa_inv c y" "wy_pc y i \<in> {C_deliver, C_signal}" "p \<in> {C_signal, C_finished}"
  shows "wa_children (wy_op y) ((wy_pc y)(i := p)) (wy_signal y) (wy_winner y) (wy_stopper y)"
    "wa_verdict (wc_n c) (wy_op y) ((wy_pc y)(i := p)) (wy_signal y) (wy_winner y) (wy_stopper y)"
    "wa_begun (wc_n c) ((wy_pc y)(i := p)) (wy_start y)"
proof -
  show "wa_children (wy_op y) ((wy_pc y)(i := p)) (wy_signal y) (wy_winner y) (wy_stopper y)"
    "wa_verdict (wc_n c) (wy_op y) ((wy_pc y)(i := p)) (wy_signal y) (wy_winner y) (wy_stopper y)"
    using advance_released [OF wa_invD(4,5) [OF assms(1)], of i p "wo_pending (wy_op y)"] assms(2,3) by auto
  show "wa_begun (wc_n c) ((wy_pc y)(i := p)) (wy_start y)"
    by (rule begun_upd [OF wa_invD(2) [OF assms(1)]]) (use assms(2,3) in auto)
qed

lemma delivering_tally:
  assumes t: "wa_tally c w f cb out" "i < wc_n c" "delivering (f i)"
  shows "unreleased (wc_n c) (f(i := p)) = (if released p then {} else {i})"
    "j < wc_n c \<Longrightarrow> (f(i := p)) j = (if j = i then p else C_finished)"
proof -
  have fin: "f j = C_finished" if "j < wc_n c" "j \<noteq> i" for j using tallyD(3) [OF t] that by blast
  then show "j < wc_n c \<Longrightarrow> (f(i := p)) j = (if j = i then p else C_finished)" by simp
  show "unreleased (wc_n c) (f(i := p)) = (if released p then {} else {i})"
    using fin t(2) by (auto simp: unreleased_def released_def)
qed

lemma delivering_pending:
  assumes "wa_tally c w f cb out" "i < wc_n c" "delivering (f i)"
  shows "wo_pending w = 0"
proof -
  have "released (f i)" using assms(3) by (auto simp: released_def delivering_def)
  then have "unreleased (wc_n c) f = {}" using delivering_tally(1) [OF assms, of "f i"] by simp
  then show ?thesis using tallyD(1) [OF assms(1)] by simp
qed

lemma wa_inv_destroy:
  assumes y: "wa_inv c y" and s: "wy_pc y i = C_deliver"
  shows "wa_inv c (y\<lparr>wy_cb := CB_gone, wy_pc := (wy_pc y)(i := C_signal)\<rparr>)"
proof -
  have i: "i < wc_n c" using s by (intro wa_invD(7) [OF y]) simp
  have d: "delivering (wy_pc y i)" using s by (simp add: delivering_def)
  note dt = delivering_tally [OF wa_invD(6) [OF y] i d, where p = C_signal]
  have "wa_tally c (wy_op y) ((wy_pc y)(i := C_signal)) CB_gone (wy_out y)"
    using dt delivering_pending [OF wa_invD(6) [OF y] i d] i tallyD(2) [OF wa_invD(6) [OF y] i d] unfolding wa_tally_def
    by (simp add: released_def delivering_def) blast
  then show ?thesis using y released_parts [OF y, of i C_signal] s by (simp add: wa_inv_def)
qed

lemma wa_inv_signal:
  assumes y: "wa_inv c y" and s: "wy_pc y i = C_signal"
  shows "wa_inv c (y\<lparr>wy_out := wy_out y @ [deliver c (wy_op y)], wy_pc := (wy_pc y)(i := C_finished)\<rparr>)"
proof -
  have i: "i < wc_n c" using s by (intro wa_invD(7) [OF y]) simp
  have d: "delivering (wy_pc y i)" using s by (simp add: delivering_def)
  note dt = delivering_tally [OF wa_invD(6) [OF y] i d, where p = C_finished]
  have out: "wy_out y = []" by (rule tallyD(2) [OF wa_invD(6) [OF y] i d])
  have cb: "wy_cb y = CB_gone" by (rule tallyD(4) [OF wa_invD(6) [OF y] i s])
  have "wa_tally c (wy_op y) ((wy_pc y)(i := C_finished)) (wy_cb y) (wy_out y @ [deliver c (wy_op y)])"
    using dt delivering_pending [OF wa_invD(6) [OF y] i d] unfolding wa_tally_def out cb by (simp add: released_def delivering_def)
  then show ?thesis using y released_parts [OF y, of i C_finished] s by (simp add: wa_inv_def)
qed

lemma wa_inv_complete:
  assumes y: "wa_inv c y" and s: "wy_pc y i = C_running" "allowed c i s" "child_receive i s (wy_op y) = (p, w)"
  shows "wa_inv c (y\<lparr>wy_op := w, wy_pc := (wy_pc y)(i := p), wy_signal := (wy_signal y)(i := Some s)\<rparr>)"
proof -
  have i: "i < wc_n c" using s by (intro wa_invD(7) [OF y]) simp
  have none: "wy_signal y i = None" using child_okD [OF wa_invD(4) [OF y], of i] s(1) by simp
  have w: "wo_stop w = wo_stop (wy_op y)" "wo_disp w = wo_disp (wy_op y)" "wo_result w = wo_result (wy_op y)"
    "wo_pending w = wo_pending (wy_op y)" "\<And>j. j \<noteq> i \<Longrightarrow> wo_partial w j = wo_partial (wy_op y) j"
    "p \<noteq> C_idle" "\<not> released p"
    using s(3) by (cases s; auto simp: released_def)+
  have "wa_children w ((wy_pc y)(i := p)) ((wy_signal y)(i := Some s)) (wy_winner y) (wy_stopper y)"
  proof (rule children_upd [OF wa_invD(4) [OF y]])
    show "child_ok w (((wy_signal y)(i := Some s)) i) (wy_winner y) (wy_stopper y) i p" using s(3) by (cases s) auto
  qed (use w in \<open>auto simp: wo_grows_def\<close>)
  moreover have "wa_verdict (wc_n c) w ((wy_pc y)(i := p)) (wy_signal y) (wy_winner y) (wy_stopper y)"
    using s(1) w by (intro verdict_quiet [OF wa_invD(5) [OF y]]) (simp_all add: in_fail_def)
  then have "wa_verdict (wc_n c) w ((wy_pc y)(i := p)) ((wy_signal y)(i := Some s)) (wy_winner y) (wy_stopper y)"
    using none unfolding wa_verdict_def by (auto split: if_splits)
  moreover have "wa_tally c w ((wy_pc y)(i := p)) (wy_cb y) (wy_out y)"
    using s(1) w by (intro tally_keep [OF wa_invD(6) [OF y] i]) (simp_all add: released_def)
  moreover have "wa_begun (wc_n c) ((wy_pc y)(i := p)) (wy_start y)"
    using wa_invD(2) [OF y] s(1) w(6) by (intro begun_upd) simp_all
  ultimately show ?thesis using y s(2) by (simp add: wa_inv_def)
qed

lemma wa_inv_work:
  assumes "wa_inv c y" "wa_work c y z"
  shows "wa_inv c z"
  using assms(2)
proof cases
  case fire
  then have "wa_inv c (y\<lparr>wy_cb := CB_fired\<rparr>)" using assms(1) by (intro wa_inv_callback) simp_all
  then show ?thesis using wa_inv_stop [of c "y\<lparr>wy_cb := CB_fired\<rparr>"] fire by simp
qed (use assms(1) in \<open>blast intro: wa_inv_register wa_inv_start wa_inv_advance wa_inv_destroy wa_inv_signal\<close>)+

lemma wa_inv_step: "wa_inv c y \<Longrightarrow> wa_step c y z \<Longrightarrow> wa_inv c z"
  by (erule wa_step.cases) (auto intro: wa_inv_complete wa_inv_callback wa_inv_work)

lemma wa_inv_reachable: "wa_reachable c y \<Longrightarrow> 0 < wc_n c \<Longrightarrow> wa_inv c y"
  by (induction rule: wa_reachable.induct) (auto intro: wa_inv_init wa_inv_step)

section \<open>The work ends\<close>

fun cpc_weight :: "'e cpc \<Rightarrow> nat" where
  "cpc_weight C_idle = 10" | "cpc_weight C_running = 9" | "cpc_weight (C_fail e x) = 8" | "cpc_weight (C_fail_stop e x) = 7"
| "cpc_weight (C_fail_store e x) = 6" | "cpc_weight (C_fail_catch y) = 5" | "cpc_weight C_stop = 7" | "cpc_weight C_stop_store = 6"
| "cpc_weight C_stop_request = 5" | "cpc_weight C_done = 4" | "cpc_weight C_deliver = 3" | "cpc_weight C_signal = 2"
| "cpc_weight C_finished = 1"

definition wa_left :: "wcfg \<Rightarrow> ('v, 'e) wsys \<Rightarrow> nat" where
  "wa_left c y = (\<Sum>i < wc_n c. cpc_weight (wy_pc y i)) + (if wy_start y = S_new then 1 else 0) + (if wy_cb y = CB_running then 1 else 0)"

lemma sum_upd_less:
  fixes w :: "'b \<Rightarrow> nat" and n :: nat
  assumes "i < n" "w p < w (f i)"
  shows "(\<Sum>j < n. w ((f(i := p)) j)) < (\<Sum>j < n. w (f j))"
  using assms by (intro sum_strict_mono_ex1) auto

lemma child_step_less: "can_step q \<Longrightarrow> child_step q w = (p, w') \<Longrightarrow> cpc_weight p < cpc_weight q"
  by (cases q) (auto simp: can_step_def child_fail_exchange_def child_fail_store_def child_stop_exchange_def
      child_stop_store_def child_done_def Let_def split: if_splits option.splits)

lemma left_upd:
  assumes "i < wc_n c" "wy_pc z = (wy_pc y)(i := p)" "cpc_weight p < cpc_weight (wy_pc y i)"
    "wy_start z = S_new \<longrightarrow> wy_start y = S_new" "wy_cb z = CB_running \<longrightarrow> wy_cb y = CB_running"
  shows "wa_left c z < wa_left c y"
  using sum_upd_less [of i "wc_n c" cpc_weight p "wy_pc y", OF assms(1,3)] assms(2,4,5) unfolding wa_left_def by auto

lemma wa_left_work:
  assumes "wa_inv c y" "wa_work c y z"
  shows "wa_left c z < wa_left c y"
  using assms(2)
proof cases
  case (register r)
  then show ?thesis by (cases r) (auto simp: wa_left_def register_outer_stop_callback_def)
next
  case (start_child i)
  then have "wy_pc y i = C_idle" using wa_invD(2) [OF assms(1)] by (simp add: wa_begun_def)
  then show ?thesis using start_child by (intro left_upd [of i c z y C_running]) auto
next
  case (advance i)
  obtain p w where pw: "child_step (wy_pc y i) (wy_op y) = (p, w)" by fastforce
  show ?thesis using advance child_step_less [OF advance(2) pw] wa_invD(7) [OF assms(1), of i]
    by (intro left_upd [of i c z y p]) (auto simp: child_advance_eq [of y i, OF pw] can_step_def)
next
  case (destroy_callback i)
  then show ?thesis using wa_invD(7) [OF assms(1), of i] by (intro left_upd [of i c z y C_signal]) auto
next
  case (signal i)
  then show ?thesis using wa_invD(7) [OF assms(1), of i] by (intro left_upd [of i c z y C_finished]) auto
next
  case fire
  then show ?thesis by (simp add: wa_left_def)
qed

interpretation waw: draining "wa_inv c" "wa_work c" "wa_left c" for c
  by unfold_locales (blast intro: wa_inv_work wa_left_work)+

section \<open>What the outer receiver is told\<close>

definition signalled :: "wcfg \<Rightarrow> ('v, 'e) wsys \<Rightarrow> bool" where
  "signalled c y \<longleftrightarrow> (\<forall>i < wc_n c. wy_signal y i \<noteq> None)"

text \<open>
  The completion that the signals of the children call for: the error of the child that failed
  first, else stopped, else the values of all children in the order of the senders.
\<close>

definition expected :: "wcfg \<Rightarrow> ('v, 'e) wsys \<Rightarrow> ('v, 'e) wa_output \<Rightarrow> bool" where
  "expected c y r \<longleftrightarrow>
     (if \<exists>i < wc_n c. Option.bind (wy_signal y i) fail_args \<noteq> None
      then \<exists>k < wc_n c. \<exists>e x. wy_winner y = Some k \<and> Option.bind (wy_signal y k) fail_args = Some (e, x) \<and>
             r = Out_error (stored_error e x) \<and> wo_stop (wy_op y)
      else if \<exists>i < wc_n c. wy_signal y i = Some Sig_stopped then r = Out_stopped \<and> wo_stop (wy_op y)
      else \<exists>vs. (\<forall>i < wc_n c. wy_signal y i = Some (Sig_value (vs i))) \<and> r = Out_value (concat (map vs [0 ..< wc_n c])))"

lemma finished_settled:
  "wa_inv c y \<Longrightarrow> wy_pc y i = C_finished \<Longrightarrow> \<exists>s. wy_signal y i = Some s \<and> settled (wy_op y) i s \<and> allowed c i s"
  using child_okD [OF wa_invD(4), of c y i] wa_invD(3) [of c y i] by auto

lemma deliver_failed:
  assumes y: "wa_inv c y" and fin: "\<forall>i < wc_n c. wy_pc y i = C_finished"
    and i: "i < wc_n c" "Option.bind (wy_signal y i) fail_args \<noteq> None"
  shows "\<exists>k < wc_n c. \<exists>e x. wy_winner y = Some k \<and> Option.bind (wy_signal y k) fail_args = Some (e, x) \<and>
           deliver c (wy_op y) = Out_error (stored_error e x) \<and> wo_stop (wy_op y)"
proof -
  obtain s where "wy_signal y i = Some s" "settled (wy_op y) i s" using finished_settled [OF y] fin i(1) by blast
  then have "wo_disp (wy_op y) = D_error" using i(2) by (cases s) auto
  then obtain k where k: "wy_winner y = Some k" using wa_invD(5) [OF y] by (auto simp: wa_verdict_def)
  then obtain e x where e: "k < wc_n c" "Option.bind (wy_signal y k) fail_args = Some (e, x)"
    "in_fail (wy_pc y k) \<or> wo_result (wy_op y) = R_error (stored_error e x) \<and> wo_stop (wy_op y)"
    using wa_invD(5) [OF y] unfolding wa_verdict_def by blast
  moreover have "\<not> in_fail (wy_pc y k)" using fin e(1) by (simp add: in_fail_def)
  ultimately show ?thesis using k by (auto simp: deliver_def)
qed

lemma no_winner:
  assumes y: "wa_inv c y" and none: "\<forall>i < wc_n c. Option.bind (wy_signal y i) fail_args = None"
  shows "wy_winner y = None" "wo_disp (wy_op y) \<noteq> D_error" "wo_result (wy_op y) \<in> {R_none, R_stopped}"
  using wa_invD(5) [OF y] none unfolding wa_verdict_def by fastforce+

lemma deliver_stopped:
  assumes y: "wa_inv c y" and fin: "\<forall>i < wc_n c. wy_pc y i = C_finished"
    and none: "\<forall>i < wc_n c. Option.bind (wy_signal y i) fail_args = None" and i: "i < wc_n c" "wy_signal y i = Some Sig_stopped"
  shows "deliver c (wy_op y) = Out_stopped \<and> wo_stop (wy_op y)"
proof -
  have s: "wo_stop (wy_op y)" "wo_disp (wy_op y) \<noteq> D_started" "wc_sends_stopped c i"
    using finished_settled [OF y, of i] fin i by (auto simp: allowed_def)
  then have "wo_disp (wy_op y) = D_stopped" using no_winner(2) [OF y none] by (cases "wo_disp (wy_op y)") simp_all
  then obtain k where "wy_stopper y = Some k" using wa_invD(5) [OF y] by (auto simp: wa_verdict_def)
  then have k: "k < wc_n c" "wy_pc y k = C_stop_store \<or> wo_result (wy_op y) \<noteq> R_none"
    using wa_invD(5) [OF y] by (auto simp: wa_verdict_def)
  then have "wo_result (wy_op y) \<noteq> R_none" using fin by auto
  then have "wo_result (wy_op y) = R_stopped" using no_winner(3) [OF y none] by blast
  moreover have "sends_stopped c" using s(3) i(1) by (auto simp: sends_stopped_def list_ex_iff)
  ultimately show ?thesis using s(1) by (simp add: deliver_def)
qed

lemma deliver_values:
  assumes y: "wa_inv c y" and fin: "\<forall>i < wc_n c. wy_pc y i = C_finished"
    and none: "\<forall>i < wc_n c. Option.bind (wy_signal y i) fail_args = None" "\<forall>i < wc_n c. wy_signal y i \<noteq> Some Sig_stopped"
  shows "\<exists>vs. (\<forall>i < wc_n c. wy_signal y i = Some (Sig_value (vs i))) \<and> deliver c (wy_op y) = Out_value (concat (map vs [0 ..< wc_n c]))"
proof -
  have "\<exists>vs. wy_signal y i = Some (Sig_value vs) \<and> wo_partial (wy_op y) i = Some vs \<and> wc_has_value c i" if i: "i < wc_n c" for i
  proof -
    obtain s where "wy_signal y i = Some s" "settled (wy_op y) i s" "allowed c i s"
      using finished_settled [OF y, of i] fin i by blast
    then show ?thesis using none i by (cases s) (auto simp: allowed_def)
  qed
  then obtain vs where vs: "\<forall>i < wc_n c. wy_signal y i = Some (Sig_value (vs i)) \<and> wo_partial (wy_op y) i = Some (vs i) \<and> wc_has_value c i"
    by metis
  have "wo_result (wy_op y) \<noteq> R_stopped" using wa_invD(5) [OF y] none(2) unfolding wa_verdict_def by blast
  then have "wo_result (wy_op y) = R_none" using no_winner(3) [OF y none(1)] by blast
  moreover have "can_value_complete c" using vs by (simp add: can_value_complete_def list_all_iff)
  ultimately have d: "deliver c (wy_op y) = Out_value (concat (map (\<lambda>i. the (wo_partial (wy_op y) i)) [0 ..< wc_n c]))"
    by (simp add: deliver_def)
  have "map (\<lambda>i. the (wo_partial (wy_op y) i)) [0 ..< wc_n c] = map vs [0 ..< wc_n c]"
    using vs by (intro map_cong) simp_all
  then show ?thesis using vs unfolding d by metis
qed

lemma deliver_expected:
  assumes "wa_inv c y" "\<forall>i < wc_n c. wy_pc y i = C_finished"
  shows "expected c y (deliver c (wy_op y))"
proof (cases "\<exists>i < wc_n c. Option.bind (wy_signal y i) fail_args \<noteq> None")
  case True
  then show ?thesis unfolding expected_def using deliver_failed [OF assms] by (simp only: if_True) blast
next
  case False
  then have none: "\<forall>i < wc_n c. Option.bind (wy_signal y i) fail_args = None" by blast
  show ?thesis
  proof (cases "\<exists>i < wc_n c. wy_signal y i = Some Sig_stopped")
    case True
    then show ?thesis unfolding expected_def using False deliver_stopped [OF assms none] by (simp only: if_True if_False) blast
  next
    case ns: False
    then show ?thesis unfolding expected_def using False deliver_values [OF assms none] by (simp only: if_False) blast
  qed
qed

lemma output_expected:
  assumes y: "wa_inv c y" and out: "wy_out y \<noteq> []"
  shows "\<exists>r. wy_out y = [r] \<and> expected c y r \<and> signalled c y \<and> wy_start y = S_loop (wc_n c) \<and>
           (\<forall>i < wc_n c. wy_pc y i = C_finished) \<and> wy_cb y = CB_gone"
proof -
  note t = wa_invD(6) [OF y]
  have fin: "\<forall>i < wc_n c. wy_pc y i = C_finished" using tallyD(5) [OF t out] by blast
  have "signalled c y" using finished_settled [OF y] fin by (auto simp: signalled_def)
  moreover have "wy_start y = S_loop (wc_n c)"
  proof (cases "wy_start y")
    case S_new
    then show ?thesis using wa_invD(1,2) [OF y] fin by (auto simp: wa_begun_def)
  next
    case (S_loop m)
    then show ?thesis using wa_invD(2) [OF y] fin unfolding wa_begun_def wstart.case by (auto simp: le_less)
  qed
  ultimately show ?thesis using deliver_expected [OF y fin] tallyD(6,7) [OF t out] fin by blast
qed

text \<open>The work does not change what has been signalled.\<close>

lemma work_signal: "wa_work c y z \<Longrightarrow> wy_signal z = wy_signal y"
proof (induction rule: wa_work.induct)
  case (register y r)
  then show ?case by (cases r) (simp_all add: register_outer_stop_callback_def)
qed (auto simp: child_advance_def split: prod.splits)

lemma works_signal: "(wa_work c)\<^sup>*\<^sup>* y z \<Longrightarrow> wy_signal z = wy_signal y"
  by (induction rule: rtranclp_induct) (auto dest: work_signal)

text \<open>When all children have completed and there is nothing left to do, the receiver has been told.\<close>

lemma quiescent_output:
  assumes y: "wa_inv c y" and g: "signalled c y" and q: "\<forall>z. \<not> wa_work c y z"
  shows "wy_out y \<noteq> []"
proof
  assume out: "wy_out y = []"
  have "wy_start y \<noteq> S_new" using q wa_work.register by blast
  then obtain m where m: "wy_start y = S_loop m" by (cases "wy_start y") simp_all
  then have "\<not> m < wc_n c" using q wa_work.start_child by blast
  then have busy: "wy_pc y i \<noteq> C_idle" if "i < wc_n c" for i using wa_invD(2) [OF y] m that by (auto simp: wa_begun_def)
  have cb: "wy_cb y \<noteq> CB_running" using q wa_work.fire by blast
  have fin: "wy_pc y i = C_finished" if i: "i < wc_n c" for i
  proof -
    have "wy_pc y i \<noteq> C_running" using child_okD [OF wa_invD(4) [OF y], of i] g i by (auto simp: signalled_def)
    moreover have "\<not> can_step (wy_pc y i)" using q wa_work.advance by blast
    moreover have "wy_pc y i \<noteq> C_deliver" using q cb wa_work.destroy_callback by blast
    moreover have "wy_pc y i \<noteq> C_signal" using q wa_work.signal by blast
    ultimately show ?thesis using busy [OF i] by (auto simp: can_step_def)
  qed
  then have "unreleased (wc_n c) (wy_pc y) = {}" by (auto simp: unreleased_def released_def)
  then have "wo_pending (wy_op y) = 0" using tallyD(1) [OF wa_invD(6) [OF y]] by simp
  then show False using tallyD(8) [OF wa_invD(6) [OF y] _ out] fin by (auto simp: delivering_def)
qed

section \<open>Running the operation\<close>

text \<open>One step at a time, for concrete runs.\<close>

datatype ('v, 'e) wact = A_register registration | A_start | A_complete nat "('v, 'e) wa_signal" | A_advance nat
  | A_destroy nat | A_signal nat | A_outer_stop | A_fire

fun wa_exec :: "wcfg \<Rightarrow> ('v, 'e) wact \<Rightarrow> ('v, 'e) wsys \<Rightarrow> ('v, 'e) wsys option" where
  "wa_exec c (A_register r) y =
     (case wy_start y of S_new \<Rightarrow> Some ((register_outer_stop_callback r y)\<lparr>wy_start := S_loop 0\<rparr>) | S_loop i \<Rightarrow> None)"
| "wa_exec c A_start y =
     (case wy_start y of S_new \<Rightarrow> None
      | S_loop i \<Rightarrow> if i < wc_n c then Some (y\<lparr>wy_start := S_loop (i + 1), wy_pc := (wy_pc y)(i := C_running)\<rparr>) else None)"
| "wa_exec c (A_complete i s) y =
     (if wy_pc y i = C_running \<and> allowed c i s then
        case child_receive i s (wy_op y) of
          (p, w) \<Rightarrow> Some (y\<lparr>wy_op := w, wy_pc := (wy_pc y)(i := p), wy_signal := (wy_signal y)(i := Some s)\<rparr>)
      else None)"
| "wa_exec c (A_advance i) y = (if can_step (wy_pc y i) then Some (child_advance i y) else None)"
| "wa_exec c (A_destroy i) y =
     (if wy_pc y i = C_deliver \<and> wy_cb y \<noteq> CB_running then Some (y\<lparr>wy_cb := CB_gone, wy_pc := (wy_pc y)(i := C_signal)\<rparr>) else None)"
| "wa_exec c (A_signal i) y =
     (if wy_pc y i = C_signal then Some (y\<lparr>wy_out := wy_out y @ [deliver c (wy_op y)], wy_pc := (wy_pc y)(i := C_finished)\<rparr>) else None)"
| "wa_exec c A_outer_stop y = (if wy_cb y = CB_registered then Some (y\<lparr>wy_cb := CB_running\<rparr>) else None)"
| "wa_exec c A_fire y = (if wy_cb y = CB_running then Some (y\<lparr>wy_cb := CB_fired, wy_op := (wy_op y)\<lparr>wo_stop := True\<rparr>\<rparr>) else None)"

fun wa_run :: "wcfg \<Rightarrow> ('v, 'e) wact list \<Rightarrow> ('v, 'e) wsys \<Rightarrow> ('v, 'e) wsys option" where
  "wa_run c [] y = Some y"
| "wa_run c (a # as) y = (case wa_exec c a y of None \<Rightarrow> None | Some z \<Rightarrow> wa_run c as z)"

lemma wa_exec_step: "wa_exec c a y = Some z \<Longrightarrow> wa_step c y z"
  by (cases a) (auto split: wstart.splits if_splits prod.splits intro: wa_step.intros wa_work.intros simp del: One_nat_def)

lemma wa_run_reachable: "wa_run c as y = Some z \<Longrightarrow> wa_reachable c y \<Longrightarrow> wa_reachable c z"
proof (induction "as" arbitrary: y)
  case (Cons a as)
  then obtain x where "wa_exec c a y = Some x" "wa_run c as x = Some z" by (auto split: option.splits)
  then show ?case using Cons.IH wa_reachable.step [OF Cons.prems(2) wa_exec_step] by blast
qed simp

text \<open>
  Two children: the second is stopped after the outer receiver's token has been, and wins the
  exchange of \<open>child_stop\<close>; before it stores its result, the first fails and stores its error.
\<close>

definition demo_cfg :: wcfg where
  "demo_cfg = \<lparr>wc_n = 2, wc_has_value = (\<lambda>_. True), wc_sends_stopped = (\<lambda>i. i = 1)\<rparr>"

definition demo_acts :: "(nat, nat) wact list" where
  "demo_acts = [A_register Reg_constructed, A_start, A_start, A_outer_stop, A_fire, A_complete 1 Sig_stopped, A_advance 1,
     A_complete 0 (Sig_error 7 None), A_advance 0, A_advance 0, A_advance 0, A_advance 1, A_advance 1, A_advance 1, A_advance 0,
     A_destroy 0, A_signal 0]"

definition demo_end :: "(nat, nat) wsys" where
  "demo_end = the (wa_run demo_cfg demo_acts (wsys_init demo_cfg))"

lemma demo_run: "wa_run demo_cfg demo_acts (wsys_init demo_cfg) = Some demo_end"
proof -
  have "\<not> Option.is_none (wa_run demo_cfg demo_acts (wsys_init demo_cfg))" by code_simp
  then show ?thesis by (simp add: demo_end_def Option.is_none_def)
qed

lemma demo_out: "wy_out demo_end = [Out_error 7]"
  by code_simp

text \<open>
  C7.  An operation of \<open>when_all\<close> with at least one child completes exactly once.  In every reachable
  state at most one completion has been signalled, and then every child has completed and every
  thread has left the operation, the loop that starts the children included, and the callback on
  the outer stop token is gone.  The completion is the one the children call for: if any of them
  failed, the error of the one that failed first; else, if any was stopped, stopped; else the values
  of all of them in order; a failed or stopped child has also stopped the others.  Once all children
  have completed, the operation does at most \<open>wa_left\<close> further steps, whatever their order, and
  wherever it is left with nothing to do the completion has been signalled.
\<close>

theorem when_all_completes_once:
  assumes "wa_reachable c y" "0 < wc_n c"
  shows "(wy_out y = [] \<or>
      (\<exists>r. wy_out y = [r] \<and> expected c y r \<and> signalled c y \<and> wy_start y = S_loop (wc_n c) \<and>
         (\<forall>i < wc_n c. wy_pc y i = C_finished) \<and> wy_cb y = CB_gone)) \<and>
    (\<forall>k z. (wa_work c ^^ k) y z \<longrightarrow> k \<le> wa_left c y) \<and>
    (signalled c y \<longrightarrow> (\<forall>z. (wa_work c)\<^sup>*\<^sup>* y z \<and> (\<forall>x. \<not> wa_work c z x) \<longrightarrow> (\<exists>r. wy_out z = [r] \<and> expected c z r))) \<and>
    (\<exists>z. (wa_work c)\<^sup>*\<^sup>* y z \<and> (\<forall>x. \<not> wa_work c z x))"
proof (intro conjI impI allI)
  have y: "wa_inv c y" using assms by (rule wa_inv_reachable)
  show "wy_out y = [] \<or> (\<exists>r. wy_out y = [r] \<and> expected c y r \<and> signalled c y \<and> wy_start y = S_loop (wc_n c) \<and>
         (\<forall>i < wc_n c. wy_pc y i = C_finished) \<and> wy_cb y = CB_gone)"
    using output_expected [OF y] by blast
  show "k \<le> wa_left c y" if "(wa_work c ^^ k) y z" for k z using waw.works_bounded [OF that y] by simp
  show "\<exists>r. wy_out z = [r] \<and> expected c z r"
    if "signalled c y" "(wa_work c)\<^sup>*\<^sup>* y z \<and> (\<forall>x. \<not> wa_work c z x)" for z
  proof -
    have z: "wa_inv c z" "signalled c z" using that waw.works_inv [OF _ y] works_signal [of c y z] by (auto simp: signalled_def)
    show ?thesis using output_expected [OF z(1) quiescent_output [OF z]] that(2) by blast
  qed
  show "\<exists>z. (wa_work c)\<^sup>*\<^sup>* y z \<and> (\<forall>x. \<not> wa_work c z x)" using waw.works_end [OF y] by blast
qed

theorem when_all_completes_once_witness:
  "wy_out demo_end = [Out_error 7] \<and> expected demo_cfg demo_end (Out_error 7) \<and> signalled demo_cfg demo_end"
proof -
  have "wa_reachable demo_cfg demo_end" using wa_run_reachable [OF demo_run wa_reachable.init] .
  moreover have "0 < wc_n demo_cfg" by (simp add: demo_cfg_def)
  ultimately show ?thesis using when_all_completes_once [of demo_cfg demo_end] demo_out by auto
qed

end
