(* ===== verification/Spawn_Future.thy ===== *)
theory Spawn_Future
  imports Progress
begin

text \<open>
  The sender algorithm \<open>spawn_future\<close> (\<open>backport/cpp26/execution/spawn_future.hpp\<close>): work that is
  started eagerly inside a scope, and a sender that delivers its result later.

  The shared state is owned by reference counts: by the returned sender or the operation
  connected to it, by the consumer registered in the state, by the state itself while the work is
  running (\<open>__keepalive\<close>), and by every thread that has locked the weak pointer.  Three threads act on
  it: the owner of the sender and the operation, the thread on which the work completes, and the
  thread that requests a stop through the receiver's token.  Every critical section, every atomic
  operation and every release of a reference is one step.
\<close>

section \<open>The shared state and the consumer\<close>

datatype ('v, 'e) future_result = FR_value "'v list" | FR_error 'e | FR_stopped

text \<open>
  \<open>fs_refs\<close> is the reference count of the state and \<open>fs_freed\<close> says that its deleter has run, which
  releases the association; \<open>fs_callback\<close> says whether a consumer is registered, and \<open>fs_env\<close>
  whether the callback on the environment's stop token is installed.
\<close>

datatype assoc_state = As_none | As_held | As_released

record ('v, 'e) fstate =
  fs_done :: bool
  fs_taken :: bool
  fs_result :: "('v, 'e) future_result option"
  fs_callback :: bool
  fs_stop :: bool
  fs_env :: bool
  fs_assoc :: assoc_state
  fs_keep :: bool
  fs_refs :: nat
  fs_freed :: bool

definition fstate_new :: "bool \<Rightarrow> ('v, 'e) fstate" where
  "fstate_new associated = \<lparr>fs_done = False, fs_taken = False, fs_result = None, fs_callback = False, fs_stop = False,
     fs_env = False, fs_assoc = (if associated then As_held else As_none), fs_keep = False, fs_refs = 1, fs_freed = False\<rparr>"

text \<open>The release of a reference; the last one runs the deleter.\<close>

definition unref :: "('v, 'e) fstate \<Rightarrow> ('v, 'e) fstate" where
  "unref s = (let s1 = s\<lparr>fs_refs := fs_refs s - 1\<rparr> in
     if fs_refs s1 = 0 then s1\<lparr>fs_freed := True, fs_assoc := (if fs_assoc s = As_held then As_released else fs_assoc s)\<rparr> else s1)"

definition unref_if :: "bool \<Rightarrow> ('v, 'e) fstate \<Rightarrow> ('v, 'e) fstate" where
  "unref_if b s = (if b then unref s else s)"

definition addref :: "('v, 'e) fstate \<Rightarrow> ('v, 'e) fstate" where
  "addref s = s\<lparr>fs_refs := fs_refs s + 1\<rparr>"

text \<open>The consumer: its flag, its reference to the state, its stop callback, and what its receiver has been told.\<close>

datatype fcallback = FB_none | FB_registered | FB_gone

record ('v, 'e) consumer =
  co_active :: bool
  co_state :: bool
  co_callback :: fcallback
  co_out :: "('v, 'e) future_result list"

definition consumer_new :: "('v, 'e) consumer" where
  "consumer_new = \<lparr>co_active = True, co_state = False, co_callback = FB_none, co_out = []\<rparr>"

text \<open>How the work completes; the values or the error may throw when they are copied.\<close>

datatype ('v, 'e) fsignal = FS_value "'v list" | FS_value_throws 'e | FS_error 'e | FS_error_throws 'e | FS_stopped

fun inner_receive :: "('v, 'e) fsignal \<Rightarrow> ('v, 'e) future_result" where
  "inner_receive (FS_value vs) = FR_value vs"
| "inner_receive (FS_value_throws e) = FR_error e"
| "inner_receive (FS_error e) = FR_error e"
| "inner_receive (FS_error_throws e) = FR_error e"
| "inner_receive FS_stopped = FR_stopped"

text \<open>The alternative that \<open>__complete_with\<close> stores, if moving it in throws \<open>x\<close>.\<close>

definition stored_alt :: "('v, 'e) future_result \<Rightarrow> 'e option \<Rightarrow> ('v, 'e) future_result" where
  "stored_alt alt x = (case x of None \<Rightarrow> alt | Some e \<Rightarrow> FR_error e)"

text \<open>The critical sections.  The first component says whether a consumer has to be told.\<close>

definition complete_store :: "('v, 'e) future_result \<Rightarrow> 'e option \<Rightarrow> ('v, 'e) fstate \<Rightarrow> bool \<times> ('v, 'e) fstate" where
  "complete_store alt x s =
     (if fs_done s then (False, s)
      else (fs_callback s, s\<lparr>fs_result := Some (stored_alt alt x), fs_done := True, fs_callback := False\<rparr>))"

definition try_cancel_store :: "('v, 'e) fstate \<Rightarrow> bool \<times> ('v, 'e) fstate" where
  "try_cancel_store s =
     (if fs_done s then (False, s)
      else (fs_callback s, s\<lparr>fs_result := Some FR_stopped, fs_done := True, fs_callback := False\<rparr>))"

definition abandon_unconsumed :: "('v, 'e) fstate \<Rightarrow> bool \<times> ('v, 'e) fstate" where
  "abandon_unconsumed s = (if fs_taken s then (False, s) else (\<not> fs_done s, s\<lparr>fs_taken := True\<rparr>))"

datatype consume_result = Registered | Deliver_now | Already_consumed

definition consume :: "('v, 'e) fstate \<Rightarrow> consume_result \<times> ('v, 'e) fstate" where
  "consume s =
     (if fs_taken s then (Already_consumed, s)
      else if fs_done s then (Deliver_now, s\<lparr>fs_taken := True\<rparr>)
      else (Registered, s\<lparr>fs_taken := True, fs_callback := True\<rparr>))"

definition detach_consumer :: "('v, 'e) fstate \<Rightarrow> ('v, 'e) fstate" where
  "detach_consumer s = s\<lparr>fs_callback := False\<rparr>"

definition fs_request_stop :: "('v, 'e) fstate \<Rightarrow> ('v, 'e) fstate" where
  "fs_request_stop s = s\<lparr>fs_stop := True\<rparr>"

definition deliver_to :: "('v, 'e) fstate \<Rightarrow> ('v, 'e) future_result" where
  "deliver_to s = (case fs_result s of None \<Rightarrow> FR_stopped | Some r \<Rightarrow> r)"

section \<open>The threads\<close>

text \<open>
  \<open>__deliver\<close>, \<open>__deliver_error\<close> and \<open>__deliver_stopped\<close> after the exchange: the consumer's reference has
  been moved into a local variable (the argument says that there was one).
\<close>

datatype dpc = D_begin | D_reset bool | D_signal bool | D_drop bool | D_end

text \<open>\<open>__complete_with\<close> and \<open>__try_cancel\<close>.\<close>

datatype ('v, 'e) cwpc = CW_env "('v, 'e) future_result" "'e option" | CW_store "('v, 'e) future_result" "'e option"
  | CW_deliver dpc | CW_keep | CW_drop bool | CW_end

datatype tcpc = TC_stop | TC_store | TC_deliver dpc | TC_end

text \<open>The system; \<open>fy_given\<close> is what \<open>__complete_with\<close> has been called with, \<open>fy_error\<close> an exception of \<open>start\<close>.\<close>

record ('v, 'e) fsys =
  fy_state :: "('v, 'e) fstate"
  fy_consumer :: "('v, 'e) consumer"
  fy_given :: "(('v, 'e) future_result \<times> 'e option) option"
  fy_cancelled :: bool
  fy_error :: "'e option"

abbreviation upd_state :: "(('v, 'e) fstate \<Rightarrow> ('v, 'e) fstate) \<Rightarrow> ('v, 'e) fsys \<Rightarrow> ('v, 'e) fsys" where
  "upd_state f y \<equiv> y\<lparr>fy_state := f (fy_state y)\<rparr>"

abbreviation upd_consumer :: "(('v, 'e) consumer \<Rightarrow> ('v, 'e) consumer) \<Rightarrow> ('v, 'e) fsys \<Rightarrow> ('v, 'e) fsys" where
  "upd_consumer f y \<equiv> y\<lparr>fy_consumer := f (fy_consumer y)\<rparr>"

text \<open>
  One step of a delivery of \<open>r\<close>.  \<open>free\<close> says that the destructor of the stop callback need not wait:
  the callback is not running, or it is running on this thread.
\<close>

fun deliver_step :: "bool \<Rightarrow> ('v, 'e) future_result \<Rightarrow> dpc \<Rightarrow> ('v, 'e) fsys \<Rightarrow> (dpc \<times> ('v, 'e) fsys) option" where
  "deliver_step free r D_begin y =
     (if co_active (fy_consumer y)
      then Some (D_reset (co_state (fy_consumer y)), upd_consumer (\<lambda>c. c\<lparr>co_active := False, co_state := False\<rparr>) y)
      else Some (D_end, y))"
| "deliver_step free r (D_reset b) y = (if free then Some (D_signal b, upd_consumer (\<lambda>c. c\<lparr>co_callback := FB_gone\<rparr>) y) else None)"
| "deliver_step free r (D_signal b) y = Some (D_drop b, upd_consumer (\<lambda>c. c\<lparr>co_out := co_out c @ [r]\<rparr>) y)"
| "deliver_step free r (D_drop b) y = Some (D_end, upd_state (unref_if b) y)"
| "deliver_step free r D_end y = None"

fun complete_step :: "bool \<Rightarrow> ('v, 'e) cwpc \<Rightarrow> ('v, 'e) fsys \<Rightarrow> (('v, 'e) cwpc \<times> ('v, 'e) fsys) option" where
  "complete_step free (CW_env alt x) y = Some (CW_store alt x, upd_state (\<lambda>s. s\<lparr>fs_env := False\<rparr>) y)"
| "complete_step free (CW_store alt x) y =
     (case complete_store alt x (fy_state y) of
        (tell, s) \<Rightarrow> Some (if tell then CW_deliver D_begin else CW_keep, y\<lparr>fy_state := s\<rparr>))"
| "complete_step free (CW_deliver d) y =
     (if d = D_end then Some (CW_keep, y)
      else map_option (\<lambda>(d', z). (CW_deliver d', z)) (deliver_step free (deliver_to (fy_state y)) d y))"
| "complete_step free CW_keep y = Some (CW_drop (fs_keep (fy_state y)), upd_state (\<lambda>s. s\<lparr>fs_keep := False\<rparr>) y)"
| "complete_step free (CW_drop b) y = Some (CW_end, upd_state (unref_if b) y)"
| "complete_step free CW_end y = None"

fun try_cancel_step :: "bool \<Rightarrow> tcpc \<Rightarrow> ('v, 'e) fsys \<Rightarrow> (tcpc \<times> ('v, 'e) fsys) option" where
  "try_cancel_step free TC_stop y = Some (TC_store, upd_state fs_request_stop y)"
| "try_cancel_step free TC_store y =
     (case try_cancel_store (fy_state y) of
        (tell, s) \<Rightarrow> Some (if tell then TC_deliver D_begin else TC_end,
           y\<lparr>fy_state := s, fy_cancelled := (fy_cancelled y \<or> \<not> fs_done (fy_state y))\<rparr>))"
| "try_cancel_step free (TC_deliver d) y =
     (if d = D_end then Some (TC_end, y)
      else map_option (\<lambda>(d', z). (TC_deliver d', z)) (deliver_step free (deliver_to (fy_state y)) d y))"
| "try_cancel_step free TC_end y = None"

text \<open>
  The owner: in \<open>__spawn_future\<close>; holding the sender or the unstarted operation; destroying one of
  them; in \<open>start\<close>; after it; and in the destructor of the operation (the first argument says whether
  the operation still holds a reference to the state).
\<close>

datatype dropping = Dr_sender | Dr_op | Dr_install

datatype 'e telling = T_result | T_stopped | T_install 'e | T_consume 'e

datatype ('v, 'e) apc = A_spawn | A_threw | A_complete bool "('v, 'e) cwpc" | A_sender | A_op
  | A_abandon dropping | A_abandon_stop dropping | A_abandoned dropping
  | A_try tcpc | A_emplace | A_consume | A_tell "'e telling" dpc | A_consume_stop | A_return | A_started
  | A_destroy bool | A_detach bool bool | A_reset bool bool | A_stop bool bool | A_drop bool bool | A_destroyed bool | A_end

datatype ('v, 'e) bpc = B_none | B_running | B_complete "('v, 'e) cwpc" | B_end

datatype kpc = K_idle | K_run tcpc | K_end

record ('v, 'e) fworld =
  fw_sys :: "('v, 'e) fsys"
  fw_a :: "('v, 'e) apc"
  fw_b :: "('v, 'e) bpc"
  fw_k :: kpc

abbreviation world :: "('v, 'e) fsys \<Rightarrow> ('v, 'e) apc \<Rightarrow> ('v, 'e) bpc \<Rightarrow> kpc \<Rightarrow> ('v, 'e) fworld" where
  "world y a b k \<equiv> \<lparr>fw_sys = y, fw_a = a, fw_b = b, fw_k = k\<rparr>"

text \<open>Whether another thread than that of the stop callback can destroy the callback without waiting.\<close>

fun k_free :: "kpc \<Rightarrow> bool" where
  "k_free (K_run t) = False"
| "k_free k = True"

fun told :: "'e telling \<Rightarrow> ('v, 'e) fsys \<Rightarrow> ('v, 'e) future_result" where
  "told T_result y = deliver_to (fy_state y)"
| "told T_stopped y = FR_stopped"
| "told (T_install e) y = FR_error e"
| "told (T_consume e) y = FR_error e"

fun after_telling :: "'e telling \<Rightarrow> ('v, 'e) apc" where
  "after_telling (T_install e) = A_abandon Dr_install"
| "after_telling (T_consume e) = A_consume_stop"
| "after_telling t = A_return"

fun after_consume :: "consume_result \<Rightarrow> ('v, 'e) apc" where
  "after_consume Registered = A_return"
| "after_consume Deliver_now = A_tell T_result D_begin"
| "after_consume Already_consumed = A_tell T_stopped D_begin"

text \<open>What the owner does by itself, once it is inside a function.\<close>

inductive a_work :: "kpc \<Rightarrow> ('v, 'e) fsys \<Rightarrow> ('v, 'e) apc \<Rightarrow> ('v, 'e) fsys \<Rightarrow> ('v, 'e) apc \<Rightarrow> bool" for k where
  complete: "complete_step (k_free k) w y = Some (w', z) \<Longrightarrow> a_work k y (A_complete h w) z (A_complete h w')"
| completed: "a_work k y (A_complete h CW_end) y A_sender"
| abandon: "abandon_unconsumed (fy_state y) = (stop, s) \<Longrightarrow>
     a_work k y (A_abandon d) (y\<lparr>fy_state := s\<rparr>) (if stop then A_abandon_stop d else A_abandoned d)"
| abandon_stop: "a_work k y (A_abandon_stop d) (upd_state fs_request_stop y) (A_abandoned d)"
| abandoned_sender: "a_work k y (A_abandoned Dr_sender) (upd_state unref y) A_end"
| abandoned_op: "a_work k y (A_abandoned Dr_op) y (A_destroy True)"
| abandoned_install: "a_work k y (A_abandoned Dr_install) y A_return"
| cancel: "try_cancel_step (k_free k) t y = Some (t', z) \<Longrightarrow> a_work k y (A_try t) z (A_try t')"
| cancelled: "a_work k y (A_try TC_end) y A_emplace"
| emplace_impossible: "a_work k y A_emplace y A_consume"
| emplace: "a_work k y A_emplace (upd_consumer (\<lambda>c. c\<lparr>co_callback := FB_registered\<rparr>) y) A_consume"
| emplace_throws: "a_work k y A_emplace (y\<lparr>fy_error := Some e\<rparr>) (A_tell (T_install e) D_begin)"
| consume: "consume (fy_state y) = (r, s) \<Longrightarrow> a_work k y A_consume (y\<lparr>fy_state := s\<rparr>) (after_consume r)"
| consume_throws: "a_work k y A_consume (y\<lparr>fy_error := Some e\<rparr>) (A_tell (T_consume e) D_begin)"
| tell: "deliver_step (k_free k) (told t y) d y = Some (d', z) \<Longrightarrow> a_work k y (A_tell t d) z (A_tell t d')"
| telling_end: "a_work k y (A_tell t D_end) y (after_telling t)"
| consume_stop: "a_work k y A_consume_stop (upd_state fs_request_stop y) A_return"
| return: "a_work k y A_return (upd_state unref y) A_started"
| destroy_active: "co_active (fy_consumer y) \<Longrightarrow>
     a_work k y (A_destroy h) (upd_consumer (\<lambda>c. c\<lparr>co_active := False, co_state := False\<rparr>) y) (A_detach h (co_state (fy_consumer y)))"
| destroy_inactive: "\<not> co_active (fy_consumer y) \<Longrightarrow> a_work k y (A_destroy h) y (A_destroyed h)"
| detach: "a_work k y (A_detach h b) (if b then upd_state detach_consumer y else y) (A_reset h b)"
| reset: "k_free k \<Longrightarrow> a_work k y (A_reset h b) (upd_consumer (\<lambda>c. c\<lparr>co_callback := FB_gone\<rparr>) y) (A_stop h b)"
| stop: "a_work k y (A_stop h b) (if b then upd_state fs_request_stop y else y) (A_drop h b)"
| drop: "a_work k y (A_drop h b) (upd_state (unref_if b) y) (A_destroyed h)"
| destroyed: "a_work k y (A_destroyed h) (upd_state (unref_if h) y) A_end"

text \<open>What the threads do by themselves.\<close>

inductive f_work :: "('v, 'e) fworld \<Rightarrow> ('v, 'e) fworld \<Rightarrow> bool" where
  owner: "a_work k y a z a' \<Longrightarrow> f_work (world y a b k) (world z a' b k)"
| source: "complete_step (k_free k) w y = Some (w', z) \<Longrightarrow> f_work (world y a (B_complete w) k) (world z a (B_complete w') k)"
| source_end: "f_work (world y a (B_complete CW_end) k) (world (upd_state unref y) a B_end k)"
| stopper: "try_cancel_step True t y = Some (t', z) \<Longrightarrow> f_work (world y a b (K_run t)) (world z a b (K_run t'))"
| stopper_end: "f_work (world y a b (K_run TC_end)) (world (upd_state unref y) a b K_end)"

definition spawned :: "bool \<Rightarrow> bool \<Rightarrow> (('v, 'e) future_result \<times> 'e option) option \<Rightarrow> ('v, 'e) fsys \<Rightarrow> ('v, 'e) fsys" where
  "spawned associated env g y = y\<lparr>fy_state := (let s = fstate_new associated in
     if associated then addref (s\<lparr>fs_keep := True, fs_env := env\<rparr>) else s), fy_given := g\<rparr>"

definition install_state :: "('v, 'e) fsys \<Rightarrow> ('v, 'e) fsys" where
  "install_state y = upd_consumer (\<lambda>c. c\<lparr>co_state := True\<rparr>) (upd_state addref y)"

text \<open>What happens to it: the owner spawns, connects, starts and destroys; the work completes; a stop is requested.\<close>

inductive f_step :: "('v, 'e) fworld \<Rightarrow> ('v, 'e) fworld \<Rightarrow> bool" where
  spawn_throws: "f_step (world y A_spawn b k) (world y A_threw b k)"
| spawn_not_associated: "f_step (world y A_spawn b k)
     (world (spawned False False (Some (FR_stopped, None)) y) (A_complete False (CW_env FR_stopped None)) b k)"
| spawn_start_throws: "f_step (world y A_spawn b k)
     (world (spawned True env (Some (FR_error e, None)) y) (A_complete True (CW_env (FR_error e) None)) b k)"
| spawn_start: "f_step (world y A_spawn b k) (world (spawned True env None y) A_sender B_running k)"
| sender_destroyed: "f_step (world y A_sender b k) (world y (A_abandon Dr_sender) b k)"
| connect_throws: "f_step (world y A_sender b k) (world y (A_abandon Dr_sender) b k)"
| connect: "f_step (world y A_sender b k) (world y A_op b k)"
| op_destroyed: "f_step (world y A_op b k) (world y (A_abandon Dr_op) b k)"
| start: "f_step (world y A_op b k) (world (install_state y) A_emplace b k)"
| start_stopped: "f_step (world y A_op b k) (world (install_state y) (A_try TC_stop) b k)"
| started_op_destroyed: "f_step (world y A_started b k) (world y (A_destroy False) b k)"
| source_completes: "\<not> fs_freed (fy_state y) \<Longrightarrow> f_step (world y a B_running k)
     (world ((upd_state addref y)\<lparr>fy_given := Some (inner_receive sig, x)\<rparr>) a (B_complete (CW_env (inner_receive sig) x)) k)"
| source_expired: "fs_freed (fy_state y) \<Longrightarrow> f_step (world y a B_running k) (world y a B_end k)"
| stop_requested: "co_callback (fy_consumer y) = FB_registered \<Longrightarrow> \<not> fs_freed (fy_state y) \<Longrightarrow>
     f_step (world y a b K_idle) (world (upd_state addref y) a b (K_run TC_stop))"
| stop_expired: "co_callback (fy_consumer y) = FB_registered \<Longrightarrow> fs_freed (fy_state y) \<Longrightarrow>
     f_step (world y a b K_idle) (world y a b K_end)"
| env_stop: "fs_env (fy_state y) \<Longrightarrow> f_step (world y a b k) (world (upd_state fs_request_stop y) a b k)"
| work: "f_work u v \<Longrightarrow> f_step u v"

text \<open>Before \<open>spawn_future\<close> there is no state; its fields have no meaning then.\<close>

definition fworld_init :: "('v, 'e) fworld" where
  "fworld_init = world \<lparr>fy_state = (fstate_new False)\<lparr>fs_refs := 0\<rparr>, fy_consumer = consumer_new, fy_given = None,
     fy_cancelled = False, fy_error = None\<rparr> A_spawn B_none K_idle"

inductive f_reachable :: "('v, 'e) fworld \<Rightarrow> bool" where
  init: "f_reachable fworld_init"
| step: "f_reachable u \<Longrightarrow> f_step u v \<Longrightarrow> f_reachable v"

section \<open>The invariant\<close>

text \<open>How many references to the state each thread holds.\<close>

fun d_refs :: "dpc \<Rightarrow> nat" where
  "d_refs (D_reset b) = of_bool b"
| "d_refs (D_signal b) = of_bool b"
| "d_refs (D_drop b) = of_bool b"
| "d_refs d = 0"

fun cw_refs :: "('v, 'e) cwpc \<Rightarrow> nat" where
  "cw_refs (CW_deliver d) = d_refs d"
| "cw_refs (CW_drop b) = of_bool b"
| "cw_refs w = 0"

fun tc_refs :: "tcpc \<Rightarrow> nat" where
  "tc_refs (TC_deliver d) = d_refs d"
| "tc_refs t = 0"

fun a_refs :: "('v, 'e) apc \<Rightarrow> nat" where
  "a_refs A_spawn = 0" | "a_refs A_threw = 0" | "a_refs (A_complete h w) = 1 + cw_refs w"
| "a_refs (A_try t) = 1 + tc_refs t" | "a_refs (A_tell t d) = 1 + d_refs d" | "a_refs A_started = 0"
| "a_refs (A_destroy h) = of_bool h" | "a_refs (A_detach h b) = of_bool h + of_bool b" | "a_refs (A_reset h b) = of_bool h + of_bool b"
| "a_refs (A_stop h b) = of_bool h + of_bool b" | "a_refs (A_drop h b) = of_bool h + of_bool b"
| "a_refs (A_destroyed h) = of_bool h" | "a_refs A_end = 0" | "a_refs a = 1"

fun b_refs :: "('v, 'e) bpc \<Rightarrow> nat" where
  "b_refs (B_complete w) = 1 + cw_refs w"
| "b_refs b = 0"

fun k_refs :: "kpc \<Rightarrow> nat" where
  "k_refs (K_run t) = 1 + tc_refs t"
| "k_refs k = 0"

definition f_holders :: "('v, 'e) fsys \<Rightarrow> ('v, 'e) apc \<Rightarrow> ('v, 'e) bpc \<Rightarrow> kpc \<Rightarrow> nat" where
  "f_holders y a b k = a_refs a + b_refs b + k_refs k + of_bool (fs_keep (fy_state y)) + of_bool (co_state (fy_consumer y))"

definition f_count :: "('v, 'e) fsys \<Rightarrow> ('v, 'e) apc \<Rightarrow> ('v, 'e) bpc \<Rightarrow> kpc \<Rightarrow> bool" where
  "f_count y a b k \<longleftrightarrow>
     fs_refs (fy_state y) = f_holders y a b k \<and>
     (fs_freed (fy_state y) \<longleftrightarrow> fs_refs (fy_state y) = 0 \<and> a \<noteq> A_spawn \<and> a \<noteq> A_threw) \<and>
     (fs_assoc (fy_state y) = As_released \<longrightarrow> fs_freed (fy_state y)) \<and>
     (fs_assoc (fy_state y) = As_held \<longrightarrow> \<not> fs_freed (fy_state y))"

text \<open>Who will tell the consumer: the state as long as the consumer is registered, then one thread before its exchange.\<close>

fun cw_token :: "('v, 'e) cwpc \<Rightarrow> nat" where
  "cw_token (CW_deliver d) = of_bool (d = D_begin)"
| "cw_token w = 0"

fun tc_token :: "tcpc \<Rightarrow> nat" where
  "tc_token (TC_deliver d) = of_bool (d = D_begin)"
| "tc_token t = 0"

fun a_token :: "('v, 'e) apc \<Rightarrow> nat" where
  "a_token (A_complete h w) = cw_token w"
| "a_token (A_try t) = tc_token t"
| "a_token (A_tell t d) = of_bool (d = D_begin)"
| "a_token a = 0"

fun b_token :: "('v, 'e) bpc \<Rightarrow> nat" where
  "b_token (B_complete w) = cw_token w"
| "b_token b = 0"

fun k_token :: "kpc \<Rightarrow> nat" where
  "k_token (K_run t) = tc_token t"
| "k_token k = 0"

definition f_tokens :: "('v, 'e) fsys \<Rightarrow> ('v, 'e) apc \<Rightarrow> ('v, 'e) bpc \<Rightarrow> kpc \<Rightarrow> nat" where
  "f_tokens y a b k = of_bool (fs_callback (fy_state y)) + a_token a + b_token b + k_token k"

text \<open>Who has won the exchange and has not yet completed the receiver.\<close>

fun d_win :: "dpc \<Rightarrow> nat" where
  "d_win (D_reset b) = 1" | "d_win (D_signal b) = 1" | "d_win d = 0"

fun cw_win :: "('v, 'e) cwpc \<Rightarrow> nat" where
  "cw_win (CW_deliver d) = d_win d"
| "cw_win w = 0"

fun tc_win :: "tcpc \<Rightarrow> nat" where
  "tc_win (TC_deliver d) = d_win d"
| "tc_win t = 0"

fun a_win :: "('v, 'e) apc \<Rightarrow> nat" where
  "a_win (A_complete h w) = cw_win w" | "a_win (A_try t) = tc_win t" | "a_win (A_tell t d) = d_win d" | "a_win a = 0"

fun b_win :: "('v, 'e) bpc \<Rightarrow> nat" where
  "b_win (B_complete w) = cw_win w" | "b_win b = 0"

fun k_win :: "kpc \<Rightarrow> nat" where
  "k_win (K_run t) = tc_win t" | "k_win k = 0"

definition f_wins :: "('v, 'e) fsys \<Rightarrow> ('v, 'e) apc \<Rightarrow> ('v, 'e) bpc \<Rightarrow> kpc \<Rightarrow> nat" where
  "f_wins y a b k = length (co_out (fy_consumer y)) + a_win a + b_win b + k_win k"

text \<open>The owner before it installs the consumer's callback; while the consumer is installed; and after it may be registered.\<close>

fun a_early :: "('v, 'e) apc \<Rightarrow> bool" where
  "a_early A_spawn = True" | "a_early A_threw = True" | "a_early (A_complete h w) = True" | "a_early A_sender = True"
| "a_early A_op = True" | "a_early a = False"

fun a_installed :: "('v, 'e) apc \<Rightarrow> bool" where
  "a_installed (A_abandon d) \<longleftrightarrow> d = Dr_install" | "a_installed (A_abandon_stop d) \<longleftrightarrow> d = Dr_install"
| "a_installed (A_abandoned d) \<longleftrightarrow> d = Dr_install" | "a_installed (A_try t) = True" | "a_installed A_emplace = True"
| "a_installed A_consume = True" | "a_installed (A_tell t d) = True" | "a_installed A_consume_stop = True"
| "a_installed A_return = True" | "a_installed A_started = True" | "a_installed (A_destroy h) \<longleftrightarrow> \<not> h" | "a_installed a = False"

fun a_returning :: "('v, 'e) apc \<Rightarrow> bool" where
  "a_returning A_return = True" | "a_returning A_started = True" | "a_returning (A_destroy h) \<longleftrightarrow> \<not> h" | "a_returning a = False"

fun a_past :: "('v, 'e) apc \<Rightarrow> bool" where
  "a_past A_return = True" | "a_past A_started = True" | "a_past (A_destroy h) \<longleftrightarrow> \<not> h" | "a_past (A_detach h b) \<longleftrightarrow> \<not> h"
| "a_past (A_reset h b) \<longleftrightarrow> \<not> h" | "a_past (A_stop h b) \<longleftrightarrow> \<not> h" | "a_past (A_drop h b) \<longleftrightarrow> \<not> h" | "a_past (A_destroyed h) \<longleftrightarrow> \<not> h"
| "a_past A_end = True" | "a_past a = False"

fun a_unconsumed :: "('v, 'e) apc \<Rightarrow> bool" where
  "a_unconsumed (A_try t) = True" | "a_unconsumed A_emplace = True" | "a_unconsumed A_consume = True" | "a_unconsumed a = a_early a"

fun cw_pending :: "('v, 'e) cwpc \<Rightarrow> bool" where
  "cw_pending (CW_env alt x) = True" | "cw_pending (CW_store alt x) = True" | "cw_pending w = False"

fun cw_keeps :: "('v, 'e) cwpc \<Rightarrow> bool" where
  "cw_keeps (CW_drop b) = False" | "cw_keeps CW_end = False" | "cw_keeps w = True"

fun a_pending :: "('v, 'e) apc \<Rightarrow> bool" where
  "a_pending A_spawn = True" | "a_pending A_threw = True" | "a_pending (A_complete h w) = cw_pending w" | "a_pending a = False"

fun a_keeps :: "('v, 'e) apc \<Rightarrow> bool" where
  "a_keeps (A_complete h w) \<longleftrightarrow> h \<and> cw_keeps w" | "a_keeps a = False"

fun b_pending :: "('v, 'e) bpc \<Rightarrow> bool" where
  "b_pending B_running = True" | "b_pending (B_complete w) = cw_pending w" | "b_pending b = False"

fun b_keeps :: "('v, 'e) bpc \<Rightarrow> bool" where
  "b_keeps B_running = True" | "b_keeps (B_complete w) = cw_keeps w" | "b_keeps b = False"

definition f_roles :: "('v, 'e) fsys \<Rightarrow> ('v, 'e) apc \<Rightarrow> ('v, 'e) bpc \<Rightarrow> kpc \<Rightarrow> bool" where
  "f_roles y a b k \<longleftrightarrow>
     (co_state (fy_consumer y) \<longleftrightarrow> co_active (fy_consumer y) \<and> a_installed a) \<and>
     (a_unconsumed a \<longrightarrow> co_active (fy_consumer y)) \<and>
     f_tokens y a b k \<le> 1 \<and>
     (\<not> a_past a \<longrightarrow> \<not> fs_callback (fy_state y) \<and> b_token b = 0 \<and> k_token k = 0) \<and>
     (fs_callback (fy_state y) \<longrightarrow> co_active (fy_consumer y) \<and> a_returning a \<or> a = A_detach False True) \<and>
     (a_returning a \<and> co_active (fy_consumer y) \<longrightarrow> f_tokens y a b k = 1) \<and>
     f_wins y a b k \<le> 1 \<and> (co_active (fy_consumer y) \<longrightarrow> f_wins y a b k = 0) \<and>
     (\<not> co_active (fy_consumer y) \<and> a_installed a \<longrightarrow> f_wins y a b k = 1)"

fun cw_given :: "('v, 'e) cwpc \<Rightarrow> (('v, 'e) future_result \<times> 'e option) option \<Rightarrow> bool" where
  "cw_given (CW_env alt x) g \<longleftrightarrow> g = Some (alt, x)"
| "cw_given (CW_store alt x) g \<longleftrightarrow> g = Some (alt, x)"
| "cw_given w g = True"

fun a_shape :: "('v, 'e) apc \<Rightarrow> ('v, 'e) fsys \<Rightarrow> bool" where
  "a_shape (A_complete h w) y \<longleftrightarrow> (\<forall>d. w \<noteq> CW_deliver d) \<and> cw_given w (fy_given y)"
| "a_shape (A_try t) y \<longleftrightarrow> (\<forall>d. t \<noteq> TC_deliver d)"
| "a_shape (A_tell t d) y \<longleftrightarrow>
     (case t of T_result \<Rightarrow> fs_done (fy_state y) | T_stopped \<Rightarrow> False | T_install e \<Rightarrow> fy_error y = Some e | T_consume e \<Rightarrow> fy_error y = Some e) \<and>
     (d \<noteq> D_begin \<longrightarrow> \<not> co_active (fy_consumer y))"
| "a_shape (A_abandon d) y \<longleftrightarrow> (d = Dr_install \<longrightarrow> \<not> co_active (fy_consumer y))"
| "a_shape (A_abandon_stop d) y \<longleftrightarrow> (d = Dr_install \<longrightarrow> \<not> co_active (fy_consumer y))"
| "a_shape (A_abandoned d) y \<longleftrightarrow> (d = Dr_install \<longrightarrow> \<not> co_active (fy_consumer y))"
| "a_shape A_consume_stop y \<longleftrightarrow> \<not> co_active (fy_consumer y)"
| "a_shape (A_detach h b) y \<longleftrightarrow> b = (\<not> h)"
| "a_shape a y = True"

fun b_shape :: "('v, 'e) bpc \<Rightarrow> ('v, 'e) fsys \<Rightarrow> bool" where
  "b_shape B_none y = True"
| "b_shape B_running y \<longleftrightarrow> fy_given y = None"
| "b_shape (B_complete w) y \<longleftrightarrow> cw_given w (fy_given y)"
| "b_shape B_end y = True"

definition f_life :: "('v, 'e) fsys \<Rightarrow> ('v, 'e) apc \<Rightarrow> ('v, 'e) bpc \<Rightarrow> kpc \<Rightarrow> bool" where
  "f_life y a b k \<longleftrightarrow>
     (fs_keep (fy_state y) \<longleftrightarrow> a_keeps a \<or> b_keeps b) \<and>
     (b \<noteq> B_none \<longrightarrow> \<not> (a_early a \<and> a \<noteq> A_sender \<and> a \<noteq> A_op) \<and> fs_assoc (fy_state y) \<noteq> As_none) \<and>
     (k \<noteq> K_idle \<longrightarrow> co_callback (fy_consumer y) \<noteq> FB_none) \<and>
     (a_early a \<longrightarrow> co_callback (fy_consumer y) = FB_none) \<and>
     (\<not> fs_done (fy_state y) \<longrightarrow> a_pending a \<or> b_pending b) \<and>
     (fs_callback (fy_state y) \<longrightarrow> \<not> fs_done (fy_state y)) \<and>
     (a_unconsumed a \<longrightarrow> \<not> fs_taken (fy_state y))"

definition f_data :: "('v, 'e) fsys \<Rightarrow> ('v, 'e) apc \<Rightarrow> ('v, 'e) bpc \<Rightarrow> kpc \<Rightarrow> bool" where
  "f_data y a b k \<longleftrightarrow>
     a_shape a y \<and> b_shape b y \<and>
     (fs_done (fy_state y) \<longleftrightarrow> fs_result (fy_state y) \<noteq> None) \<and>
     (\<forall>d. b = B_complete (CW_deliver d) \<longrightarrow> fs_done (fy_state y)) \<and>
     (\<forall>d. k = K_run (TC_deliver d) \<longrightarrow> fs_done (fy_state y)) \<and>
     (\<forall>r. fs_result (fy_state y) = Some r \<longrightarrow> fy_cancelled y \<and> r = FR_stopped \<or>
        (\<exists>alt x. fy_given y = Some (alt, x) \<and> r = stored_alt alt x)) \<and>
     (\<forall>r\<in>set (co_out (fy_consumer y)). fs_result (fy_state y) = Some r \<or> (\<exists>e. fy_error y = Some e \<and> r = FR_error e))"

definition f_inv :: "('v, 'e) fworld \<Rightarrow> bool" where
  "f_inv u \<longleftrightarrow> f_count (fw_sys u) (fw_a u) (fw_b u) (fw_k u) \<and> f_roles (fw_sys u) (fw_a u) (fw_b u) (fw_k u) \<and>
     f_life (fw_sys u) (fw_a u) (fw_b u) (fw_k u) \<and> f_data (fw_sys u) (fw_a u) (fw_b u) (fw_k u)"

lemma f_inv_init: "f_inv fworld_init"
  by (simp add: f_inv_def fworld_init_def f_count_def f_holders_def f_roles_def f_life_def f_data_def fstate_new_def consumer_new_def
      f_tokens_def f_wins_def)

end
