(* ===== verification/Spawn_Future_Invariant.thy ===== *)
theory Spawn_Future_Invariant
  imports Spawn_Future
begin

text \<open>
  Every step of the owner, of the completing work and of a stop request keeps the invariant of
  \<open>Spawn_Future\<close>: the reference count is the number of holders, one thread at most is to tell the
  consumer, one at most has won the exchange, and the result has the right origin.
\<close>

section \<open>References\<close>

lemma unref_sel [simp]:
  "fs_done (unref s) = fs_done s" "fs_taken (unref s) = fs_taken s" "fs_result (unref s) = fs_result s"
  "fs_callback (unref s) = fs_callback s" "fs_keep (unref s) = fs_keep s" "fs_refs (unref s) = fs_refs s - 1"
  "fs_freed (unref s) \<longleftrightarrow> fs_freed s \<or> fs_refs s \<le> 1" "fs_env (unref s) = fs_env s" "fs_stop (unref s) = fs_stop s"
  "fs_assoc (unref s) = As_none \<longleftrightarrow> fs_assoc s = As_none"
  "fs_assoc (unref s) = As_held \<longleftrightarrow> fs_assoc s = As_held \<and> 1 < fs_refs s"
  "fs_assoc (unref s) = As_released \<longleftrightarrow> fs_assoc s = As_released \<or> fs_assoc s = As_held \<and> fs_refs s \<le> 1"
  by (cases "fs_assoc s"; auto simp: unref_def Let_def)+

lemma unref_if_sel [simp]:
  "unref_if True s = unref s" "unref_if False s = s"
  by (simp_all add: unref_if_def)

lemma addref_sel [simp]:
  "fs_done (addref s) = fs_done s" "fs_taken (addref s) = fs_taken s" "fs_result (addref s) = fs_result s"
  "fs_callback (addref s) = fs_callback s" "fs_keep (addref s) = fs_keep s" "fs_refs (addref s) = fs_refs s + 1"
  "fs_freed (addref s) = fs_freed s" "fs_env (addref s) = fs_env s" "fs_stop (addref s) = fs_stop s" "fs_assoc (addref s) = fs_assoc s"
  by (simp_all add: addref_def)

lemma request_stop_sel [simp]:
  "fs_done (fs_request_stop s) = fs_done s" "fs_taken (fs_request_stop s) = fs_taken s" "fs_result (fs_request_stop s) = fs_result s"
  "fs_callback (fs_request_stop s) = fs_callback s" "fs_keep (fs_request_stop s) = fs_keep s" "fs_refs (fs_request_stop s) = fs_refs s"
  "fs_freed (fs_request_stop s) = fs_freed s" "fs_env (fs_request_stop s) = fs_env s" "fs_assoc (fs_request_stop s) = fs_assoc s"
  by (simp_all add: fs_request_stop_def)

lemma detach_sel [simp]:
  "fs_done (detach_consumer s) = fs_done s" "fs_taken (detach_consumer s) = fs_taken s" "fs_result (detach_consumer s) = fs_result s"
  "fs_callback (detach_consumer s) = False" "fs_keep (detach_consumer s) = fs_keep s" "fs_refs (detach_consumer s) = fs_refs s"
  "fs_freed (detach_consumer s) = fs_freed s" "fs_env (detach_consumer s) = fs_env s" "fs_assoc (detach_consumer s) = fs_assoc s"
  by (simp_all add: detach_consumer_def)

lemmas f_sections = complete_store_def try_cancel_store_def abandon_unconsumed_def consume_def

text \<open>What a step of a delivery changes.\<close>

lemma deliver_frame:
  assumes "deliver_step free r d y = Some (d', z)"
  shows "fs_done (fy_state z) = fs_done (fy_state y)" "fs_taken (fy_state z) = fs_taken (fy_state y)"
    "fs_result (fy_state z) = fs_result (fy_state y)" "fs_callback (fy_state z) = fs_callback (fy_state y)"
    "fs_keep (fy_state z) = fs_keep (fy_state y)" "fs_assoc (fy_state z) = As_none \<longleftrightarrow> fs_assoc (fy_state y) = As_none"
    "fy_given z = fy_given y" "fy_cancelled z = fy_cancelled y" "fy_error z = fy_error y"
    "co_callback (fy_consumer z) = co_callback (fy_consumer y) \<or> co_callback (fy_consumer z) = FB_gone"
    "co_active (fy_consumer z) \<longleftrightarrow> co_active (fy_consumer y) \<and> d \<noteq> D_begin"
    "co_state (fy_consumer z) \<longleftrightarrow> co_state (fy_consumer y) \<and> (d = D_begin \<longrightarrow> \<not> co_active (fy_consumer y))"
    "set (co_out (fy_consumer z)) \<subseteq> insert r (set (co_out (fy_consumer y)))"
    "length (co_out (fy_consumer z)) + d_win d' = length (co_out (fy_consumer y)) + d_win d + of_bool (d = D_begin \<and> co_active (fy_consumer y))"
    "d' \<noteq> D_begin" "d \<noteq> D_end"
  using assms by (cases d; auto simp: unref_if_def split: if_splits)+

lemma deliver_refs:
  assumes "deliver_step free r d y = Some (d', z)" "d_refs d + of_bool (co_state (fy_consumer y)) < fs_refs (fy_state y)"
  shows "fs_refs (fy_state z) + d_refs d + of_bool (co_state (fy_consumer y)) = fs_refs (fy_state y) + d_refs d' + of_bool (co_state (fy_consumer z))"
    "fs_freed (fy_state z) = fs_freed (fy_state y)" "fs_assoc (fy_state z) = fs_assoc (fy_state y)"
proof -
  show "fs_refs (fy_state z) + d_refs d + of_bool (co_state (fy_consumer y)) = fs_refs (fy_state y) + d_refs d' + of_bool (co_state (fy_consumer z))"
    using assms by (cases d) (auto simp: unref_if_def split: if_splits)
  show "fs_freed (fy_state z) = fs_freed (fy_state y)"
    using assms by (cases d) (auto simp: unref_if_def split: if_splits)
  show "fs_assoc (fy_state z) = fs_assoc (fy_state y)"
    using assms by (cases d) (auto simp: unref_if_def unref_def Let_def split: if_splits)
qed

lemma count_deliver:
  assumes d: "deliver_step free r d y = Some (d', z)" and c: "f_count y a b k"
    and r: "a_refs a + b_refs b + k_refs k = d_refs d + m" "a_refs a' + b_refs b' + k_refs k' = d_refs d' + m" "0 < m"
    and c': "a' = A_spawn \<or> a' = A_threw \<longleftrightarrow> a = A_spawn \<or> a = A_threw"
  shows "f_count z a' b' k'"
proof -
  have "d_refs d + of_bool (co_state (fy_consumer y)) < fs_refs (fy_state y)"
    using c r(1,3) unfolding f_count_def f_holders_def by simp
  note dr = deliver_refs [OF d this]
  have "fs_refs (fy_state z) = d_refs d' + m + of_bool (fs_keep (fy_state z)) + of_bool (co_state (fy_consumer z))"
    using c r(1) dr(1) unfolding f_count_def f_holders_def deliver_frame(5) [OF d] by simp
  moreover have "0 < fs_refs (fy_state z)" using calculation r(3) by simp
  ultimately show ?thesis using c r c' unfolding f_count_def f_holders_def dr(2,3) by auto
qed

lemma f_rolesD:
  assumes "f_roles y a b k"
  shows "co_state (fy_consumer y) \<longleftrightarrow> co_active (fy_consumer y) \<and> a_installed a" "a_unconsumed a \<Longrightarrow> co_active (fy_consumer y)"
    "f_tokens y a b k \<le> 1" "\<not> a_past a \<Longrightarrow> \<not> fs_callback (fy_state y) \<and> b_token b = 0 \<and> k_token k = 0"
    "fs_callback (fy_state y) \<Longrightarrow> co_active (fy_consumer y) \<and> a_returning a \<or> a = A_detach False True"
    "a_returning a \<Longrightarrow> co_active (fy_consumer y) \<Longrightarrow> f_tokens y a b k = 1"
    "f_wins y a b k \<le> 1" "co_active (fy_consumer y) \<Longrightarrow> f_wins y a b k = 0"
    "\<not> co_active (fy_consumer y) \<Longrightarrow> a_installed a \<Longrightarrow> f_wins y a b k = 1"
  using assms unfolding f_roles_def by blast+

text \<open>\<open>tok\<close> counts the other threads and the state that will tell the consumer, \<open>win\<close> those that have won the exchange.\<close>

lemma roles_deliver:
  assumes d: "deliver_step free r d y = Some (d', z)" and c: "f_roles y a b k"
    and t: "a_token a + b_token b + k_token k = of_bool (d = D_begin) + tok" "a_token a' + b_token b' + k_token k' = tok"
    and w: "a_win a + b_win b + k_win k = d_win d + win" "a_win a' + b_win b' + k_win k' = d_win d' + win"
    and a: "a_installed a' = a_installed a" "a_past a' = a_past a" "a_returning a' = a_returning a" "a_unconsumed a' = a_unconsumed a"
      "a' = A_detach False True \<longleftrightarrow> a = A_detach False True" "b_token b' \<le> b_token b" "k_token k' \<le> k_token k"
      "d = D_begin \<Longrightarrow> \<not> a_unconsumed a"
  shows "f_roles z a' b' k'"
proof -
  note fr = deliver_frame [OF d]
  have tok: "f_tokens z a' b' k' + of_bool (d = D_begin) = f_tokens y a b k"
    using t unfolding f_tokens_def fr(4) by simp
  have win: "f_wins z a' b' k' = f_wins y a b k + of_bool (d = D_begin \<and> co_active (fy_consumer y))"
    using w fr(14) unfolding f_wins_def by simp
  have cb: "d = D_begin \<Longrightarrow> \<not> fs_callback (fy_state y)"
    using c t unfolding f_roles_def f_tokens_def by (cases "fs_callback (fy_state y)") auto
  note D = f_rolesD [OF c]
  show ?thesis unfolding f_roles_def fr(4,11,12)
  proof (intro conjI impI)
    show "(co_state (fy_consumer y) \<and> (d = D_begin \<longrightarrow> \<not> co_active (fy_consumer y))) =
      ((co_active (fy_consumer y) \<and> d \<noteq> D_begin) \<and> a_installed a')" using D(1) a(1) by blast
    show "co_active (fy_consumer y)" "d \<noteq> D_begin" if "a_unconsumed a'" using D(2) a(4,8) that by blast+
    show "f_tokens z a' b' k' \<le> 1" using D(3) tok by simp
    show "\<not> fs_callback (fy_state y)" "b_token b' = 0" "k_token k' = 0" if "\<not> a_past a'"
      using D(4) a(2,6,7) that by simp_all
    show "((co_active (fy_consumer y) \<and> d \<noteq> D_begin) \<and> a_returning a') \<or> a' = A_detach False True" if "fs_callback (fy_state y)"
      using D(5) [OF that] cb that a(3,5) by blast
    show "f_tokens z a' b' k' = 1" if "a_returning a' \<and> co_active (fy_consumer y) \<and> d \<noteq> D_begin"
      using D(6) tok a(3) that by simp
    show "f_wins z a' b' k' \<le> 1" using D(7,8) win by (cases "co_active (fy_consumer y)") simp_all
    show "f_wins z a' b' k' = 0" if "co_active (fy_consumer y) \<and> d \<noteq> D_begin" using D(8) win that by simp
    show "f_wins z a' b' k' = 1" if "\<not> (co_active (fy_consumer y) \<and> d \<noteq> D_begin) \<and> a_installed a'"
      using D(8,9) win a(1) that by (cases "co_active (fy_consumer y)") auto
  qed
qed

lemma f_lifeD:
  assumes "f_life y a b k"
  shows "fs_keep (fy_state y) \<longleftrightarrow> a_keeps a \<or> b_keeps b"
    "b \<noteq> B_none \<Longrightarrow> \<not> (a_early a \<and> a \<noteq> A_sender \<and> a \<noteq> A_op) \<and> fs_assoc (fy_state y) \<noteq> As_none"
    "k \<noteq> K_idle \<Longrightarrow> co_callback (fy_consumer y) \<noteq> FB_none" "a_early a \<Longrightarrow> co_callback (fy_consumer y) = FB_none"
    "\<not> fs_done (fy_state y) \<Longrightarrow> a_pending a \<or> b_pending b" "fs_callback (fy_state y) \<Longrightarrow> \<not> fs_done (fy_state y)"
    "a_unconsumed a \<Longrightarrow> \<not> fs_taken (fy_state y)"
  using assms unfolding f_life_def by blast+

lemma f_dataD:
  assumes "f_data y a b k"
  shows "a_shape a y" "b_shape b y" "fs_done (fy_state y) \<longleftrightarrow> fs_result (fy_state y) \<noteq> None"
    "b = B_complete (CW_deliver d) \<Longrightarrow> fs_done (fy_state y)" "k = K_run (TC_deliver d) \<Longrightarrow> fs_done (fy_state y)"
    "fs_result (fy_state y) = Some r \<Longrightarrow> fy_cancelled y \<and> r = FR_stopped \<or> (\<exists>alt x. fy_given y = Some (alt, x) \<and> r = stored_alt alt x)"
    "r \<in> set (co_out (fy_consumer y)) \<Longrightarrow> fs_result (fy_state y) = Some r \<or> (\<exists>e. fy_error y = Some e \<and> r = FR_error e)"
  using assms unfolding f_data_def by blast+

lemma early_unconsumed: "a_early a \<Longrightarrow> a_unconsumed a"
  by (cases a) simp_all

lemma life_deliver:
  assumes d: "deliver_step free r d y = Some (d', z)" and c: "f_life y a b k"
    and a: "a_keeps a' = a_keeps a" "b_keeps b' = b_keeps b" "b' \<noteq> B_none \<Longrightarrow> b \<noteq> B_none" "k' \<noteq> K_idle \<Longrightarrow> k \<noteq> K_idle"
      "a_pending a' = a_pending a" "b_pending b' = b_pending b" "a_unconsumed a' = a_unconsumed a"
      "a_early a' \<Longrightarrow> a' = a" "a_early a \<Longrightarrow> d_win d = 0"
  shows "f_life z a' b' k'"
proof -
  note fr = deliver_frame [OF d] and D = f_lifeD [OF c]
  have gone: "co_callback (fy_consumer z) = co_callback (fy_consumer y)" if "d_win d = 0"
    using d that by (cases d) (auto split: if_splits)
  show ?thesis unfolding f_life_def fr(1,2,4,5,6)
  proof (intro conjI impI)
    show "fs_keep (fy_state y) = (a_keeps a' \<or> b_keeps b')" using D(1) a(1,2) by simp
    show "\<not> (a_early a' \<and> a' \<noteq> A_sender \<and> a' \<noteq> A_op)" "fs_assoc (fy_state y) \<noteq> As_none" if "b' \<noteq> B_none"
      using D(2) a(3,8) that by blast+
    show "co_callback (fy_consumer z) \<noteq> FB_none" if "k' \<noteq> K_idle" using D(3) a(4) that fr(10) by auto
    show "co_callback (fy_consumer z) = FB_none" if "a_early a'" using D(4) a(8,9) that gone by auto
    show "a_pending a' \<or> b_pending b'" if "\<not> fs_done (fy_state y)" using D(5) a(5,6) that by simp
    show "\<not> fs_done (fy_state y)" if "fs_callback (fy_state y)" using D(6) that by simp
    show "\<not> fs_taken (fy_state y)" if "a_unconsumed a'" using D(7) a(7) that by simp
  qed
qed

lemma data_deliver:
  assumes d: "deliver_step free r d y = Some (d', z)" and c: "f_data y a b k"
    and a: "a_shape a' z" "b_shape b' z" "\<And>e. b' = B_complete (CW_deliver e) \<Longrightarrow> fs_done (fy_state y)"
      "\<And>e. k' = K_run (TC_deliver e) \<Longrightarrow> fs_done (fy_state y)" "fs_result (fy_state y) = Some r \<or> (\<exists>e. fy_error y = Some e \<and> r = FR_error e)"
  shows "f_data z a' b' k'"
proof -
  note fr = deliver_frame [OF d] and D = f_dataD [OF c]
  have "fs_result (fy_state y) = Some q \<or> (\<exists>e. fy_error y = Some e \<and> q = FR_error e)" if "q \<in> set (co_out (fy_consumer z))" for q
    using subsetD [OF fr(13) that] D(7) a(5) by blast
  then show ?thesis unfolding f_data_def fr(1,3,7-9) using a(1-4) D(3,6) by blast
qed

lemma deliver_to_done: "f_data y a b k \<Longrightarrow> fs_done (fy_state y) \<Longrightarrow> fs_result (fy_state y) = Some (deliver_to (fy_state y))"
  using f_dataD(3) [of y a b k] by (auto simp: deliver_to_def)

text \<open>Before the consumer is installed nobody has won.\<close>

lemma early_no_win: "f_roles y a b k \<Longrightarrow> a_early a \<Longrightarrow> a_win a = 0 \<and> b_win b = 0 \<and> k_win k = 0"
  using f_rolesD(2,8) [of y a b k] early_unconsumed [of a] by (simp add: f_wins_def)

lemma unconsumed_past: "a_unconsumed a \<Longrightarrow> \<not> a_past a"
  by (cases a) simp_all

lemma inv_deliver_source:
  assumes u: "f_inv (world y a (B_complete (CW_deliver d)) k)" and d: "deliver_step free (deliver_to (fy_state y)) d y = Some (d', z)"
  shows "f_inv (world z a (B_complete (CW_deliver d')) k)"
proof -
  let ?b = "B_complete (CW_deliver d)" and ?b' = "B_complete (CW_deliver d')"
  have c: "f_count y a ?b k" "f_roles y a ?b k" "f_life y a ?b k" "f_data y a ?b k" using u by (simp_all add: f_inv_def)
  note fr = deliver_frame [OF d]
  have "f_count z a ?b' k" by (rule count_deliver [OF d c(1), of "a_refs a + 1 + k_refs k"]) simp_all
  moreover have "f_roles z a ?b' k"
    by (rule roles_deliver [OF d c(2), of "a_token a + k_token k" _ _ _ "a_win a + k_win k"])
      (use fr(15) f_rolesD(4) [OF c(2)] unconsumed_past [of a] in auto)
  moreover have "f_life z a ?b' k"
    by (rule life_deliver [OF d c(3)]) (use early_no_win [OF c(2)] in auto)
  moreover have dn: "fs_done (fy_state y)" using f_dataD(4) [OF c(4)] by blast
  moreover have "a_shape a z" using f_dataD(1) [OF c(4)] fr(1,7,9,11) by (cases a) (auto split: telling.splits)
  then have "f_data z a ?b' k"
    by (intro data_deliver [OF d c(4)] dn disjI1 deliver_to_done [OF c(4) dn]) simp_all
  ultimately show ?thesis by (simp add: f_inv_def)
qed

lemma inv_deliver_stopper:
  assumes u: "f_inv (world y a b (K_run (TC_deliver d)))" and d: "deliver_step free (deliver_to (fy_state y)) d y = Some (d', z)"
  shows "f_inv (world z a b (K_run (TC_deliver d')))"
proof -
  let ?k = "K_run (TC_deliver d)" and ?k' = "K_run (TC_deliver d')"
  have c: "f_count y a b ?k" "f_roles y a b ?k" "f_life y a b ?k" "f_data y a b ?k" using u by (simp_all add: f_inv_def)
  note fr = deliver_frame [OF d]
  have "f_count z a b ?k'" by (rule count_deliver [OF d c(1), of "a_refs a + b_refs b + 1"]) simp_all
  moreover have "f_roles z a b ?k'"
    by (rule roles_deliver [OF d c(2), of "a_token a + b_token b" _ _ _ "a_win a + b_win b"])
      (use fr(15) f_rolesD(4) [OF c(2)] unconsumed_past [of a] in auto)
  moreover have "f_life z a b ?k'"
    by (rule life_deliver [OF d c(3)]) (use early_no_win [OF c(2)] in auto)
  ultimately have part: "f_count z a b ?k' \<and> f_roles z a b ?k' \<and> f_life z a b ?k'" by blast
  have dn: "fs_done (fy_state y)" using f_dataD(5) [OF c(4)] by blast
  have "a_shape a z" using f_dataD(1) [OF c(4)] fr(1,7,9,11) by (cases a) (auto split: telling.splits)
  moreover have "b_shape b z" using f_dataD(2) [OF c(4)] fr(7) by (cases b) simp_all
  ultimately have "f_data z a b ?k'"
    by (intro data_deliver [OF d c(4)] dn disjI1 deliver_to_done [OF c(4) dn])
  then show ?thesis using part by (simp add: f_inv_def)
qed

lemma inv_deliver_owner:
  assumes u: "f_inv (world y (A_tell t d) b k)" and d: "deliver_step free (told t y) d y = Some (d', z)"
  shows "f_inv (world z (A_tell t d') b k)"
proof -
  let ?a = "A_tell t d" and ?a' = "A_tell t d'"
  have c: "f_count y ?a b k" "f_roles y ?a b k" "f_life y ?a b k" "f_data y ?a b k" using u by (simp_all add: f_inv_def)
  note fr = deliver_frame [OF d]
  have "f_count z ?a' b k" by (rule count_deliver [OF d c(1), of "1 + b_refs b + k_refs k"]) simp_all
  moreover have "f_roles z ?a' b k"
    by (rule roles_deliver [OF d c(2), of "b_token b + k_token k" _ _ _ "b_win b + k_win k"]) (use fr(15) in auto)
  moreover have "f_life z ?a' b k" by (rule life_deliver [OF d c(3)]) auto
  ultimately have part: "f_count z ?a' b k \<and> f_roles z ?a' b k \<and> f_life z ?a' b k" by blast
  have sh: "a_shape ?a y" by (rule f_dataD(1) [OF c(4)])
  then have "a_shape ?a' z" using fr(1,9,11) by (cases t) auto
  moreover have "b_shape b z" using f_dataD(2) [OF c(4)] fr(7) by (cases b) simp_all
  moreover have "fs_result (fy_state y) = Some (told t y) \<or> (\<exists>e. fy_error y = Some e \<and> told t y = FR_error e)"
    using sh deliver_to_done [OF c(4)] by (cases t) auto
  ultimately have "f_data z ?a' b k" using f_dataD(4,5) [OF c(4)] by (intro data_deliver [OF d c(4)])
  then show ?thesis using part by (simp add: f_inv_def)
qed

section \<open>Stop requests\<close>

lemma shape_frame:
  "fs_done (fy_state y) \<longrightarrow> fs_done (fy_state z) \<Longrightarrow> fy_given z = fy_given y \<Longrightarrow> fy_error z = fy_error y \<Longrightarrow>
     co_active (fy_consumer z) \<longrightarrow> co_active (fy_consumer y) \<Longrightarrow> a_shape a y \<Longrightarrow> a_shape a z"
  "fy_given z = fy_given y \<Longrightarrow> b_shape b y \<Longrightarrow> b_shape b z"
  by (cases a; auto split: telling.splits) (cases b; simp)

text \<open>Steps that leave most of the system alone.\<close>

lemma data_step:
  assumes c: "f_data y a b k"
    and e: "fs_done (fy_state z) = fs_done (fy_state y)" "fs_result (fy_state z) = fs_result (fy_state y)" "fy_given z = fy_given y"
      "fy_cancelled z = fy_cancelled y" "fy_error z = fy_error y" "co_out (fy_consumer z) = co_out (fy_consumer y)"
    and a: "a_shape a' z" "b_shape b' z" "\<And>d. b' = B_complete (CW_deliver d) \<Longrightarrow> fs_done (fy_state y)"
      "\<And>d. k' = K_run (TC_deliver d) \<Longrightarrow> fs_done (fy_state y)"
  shows "f_data z a' b' k'"
  using a f_dataD(3,6,7) [OF c] unfolding f_data_def e by blast

lemma life_step:
  assumes c: "f_life y a b k"
    and e: "fs_done (fy_state z) = fs_done (fy_state y)" "fs_callback (fy_state z) = fs_callback (fy_state y)"
      "fs_taken (fy_state z) = fs_taken (fy_state y)" "co_callback (fy_consumer z) = co_callback (fy_consumer y)"
    and a: "fs_keep (fy_state z) \<longleftrightarrow> a_keeps a' \<or> b_keeps b'" "a_pending a \<or> b_pending b \<Longrightarrow> \<not> fs_done (fy_state y) \<Longrightarrow> a_pending a' \<or> b_pending b'"
      "b' \<noteq> B_none \<Longrightarrow> \<not> (a_early a' \<and> a' \<noteq> A_sender \<and> a' \<noteq> A_op) \<and> fs_assoc (fy_state z) \<noteq> As_none"
      "k' \<noteq> K_idle \<Longrightarrow> co_callback (fy_consumer y) \<noteq> FB_none" "a_early a' \<Longrightarrow> a_early a" "a_unconsumed a' \<Longrightarrow> a_unconsumed a"
  shows "f_life z a' b' k'"
  using a f_lifeD(4-7) [OF c] unfolding f_life_def e by blast

lemma roles_step:
  assumes c: "f_roles y a b k"
    and e: "fs_callback (fy_state z) = fs_callback (fy_state y)" "co_active (fy_consumer z) = co_active (fy_consumer y)"
      "co_state (fy_consumer z) = co_state (fy_consumer y)" "co_out (fy_consumer z) = co_out (fy_consumer y)"
    and a: "a_token a' = a_token a" "b_token b' = b_token b" "k_token k' = k_token k" "a_win a' = a_win a" "b_win b' = b_win b" "k_win k' = k_win k"
      "a_installed a' = a_installed a" "a_unconsumed a' \<Longrightarrow> a_unconsumed a" "\<not> a_past a' \<Longrightarrow> \<not> a_past a" "a_returning a' = a_returning a"
      "a = A_detach False True \<Longrightarrow> a' = A_detach False True"
  shows "f_roles z a' b' k'"
proof -
  have "f_tokens z a' b' k' = f_tokens y a b k" "f_wins z a' b' k' = f_wins y a b k"
    by (simp_all add: f_tokens_def f_wins_def a e)
  then show ?thesis using f_rolesD [OF c] a unfolding f_roles_def e by metis
qed

lemma f_countD:
  assumes "f_count y a b k"
  shows "fs_refs (fy_state y) = f_holders y a b k" "fs_freed (fy_state y) \<longleftrightarrow> fs_refs (fy_state y) = 0 \<and> a \<noteq> A_spawn \<and> a \<noteq> A_threw"
    "fs_assoc (fy_state y) = As_released \<Longrightarrow> fs_freed (fy_state y)" "fs_assoc (fy_state y) = As_held \<Longrightarrow> \<not> fs_freed (fy_state y)"
  using assms unfolding f_count_def by blast+

lemma count_step:
  assumes c: "f_count y a b k" and e: "fs_freed (fy_state z) = fs_freed (fy_state y)" "fs_assoc (fy_state z) = fs_assoc (fy_state y)"
    "fs_refs (fy_state z) = f_holders z a' b' k'" "0 < fs_refs (fy_state z) \<longleftrightarrow> 0 < fs_refs (fy_state y)"
    "a' = A_spawn \<or> a' = A_threw \<longleftrightarrow> a = A_spawn \<or> a = A_threw"
  shows "f_count z a' b' k'"
  using f_countD [OF c] e unfolding f_count_def by auto

lemma count_unref:
  assumes c: "f_count y a b k" and z: "fy_state z = unref (fy_state y)" "f_holders y a b k = f_holders z a' b' k' + 1"
    and a: "a' \<noteq> A_spawn" "a' \<noteq> A_threw" "a \<noteq> A_spawn" "a \<noteq> A_threw"
  shows "f_count z a' b' k'"
proof -
  have "fs_refs (fy_state y) = f_holders z a' b' k' + 1" using f_countD(1) [OF c] z(2) by simp
  then show ?thesis using f_countD(2-4) [OF c] a unfolding f_count_def z(1) by auto
qed

lemma f_invD:
  assumes "f_inv (world y a b k)"
  shows "f_count y a b k" "f_roles y a b k" "f_life y a b k" "f_data y a b k"
  using assms by (simp_all add: f_inv_def)

lemma f_invI: "f_count y a b k \<Longrightarrow> f_roles y a b k \<Longrightarrow> f_life y a b k \<Longrightarrow> f_data y a b k \<Longrightarrow> f_inv (world y a b k)"
  by (simp add: f_inv_def)

text \<open>A step that changes nothing but the stop flag and the environment's callback.\<close>

lemma inv_flags:
  assumes u: "f_inv (world y a b k)" and z: "fy_state z = (fy_state y)\<lparr>fs_stop := t, fs_env := e\<rparr>" "fy_consumer z = fy_consumer y"
    "fy_given z = fy_given y" "fy_cancelled z = fy_cancelled y" "fy_error z = fy_error y"
  shows "f_inv (world z a b k)"
proof (rule f_invI)
  note D = f_invD [OF u]
  show "f_count z a b k" by (rule count_step [OF D(1)]) (use f_countD(1) [OF D(1)] in \<open>simp_all add: z f_holders_def\<close>)
  show "f_roles z a b k" by (rule roles_step [OF D(2)]) (simp_all add: z)
  show "f_life z a b k" by (rule life_step [OF D(3)]) (use f_lifeD [OF D(3)] in \<open>simp_all add: z\<close>)
  have "a_shape a z" by (rule shape_frame(1) [OF _ _ _ _ f_dataD(1) [OF D(4)]]) (simp_all add: z)
  moreover have "b_shape b z" by (rule shape_frame(2) [OF _ f_dataD(2) [OF D(4)]]) (simp add: z)
  ultimately show "f_data z a b k" using f_dataD(4,5) [OF D(4)] by (intro data_step [OF D(4)]) (simp_all add: z)
qed

lemma inv_stop: "f_inv (world y a b k) \<Longrightarrow> f_inv (world (upd_state fs_request_stop y) a b k)"
  by (erule inv_flags [where t = True and e = "fs_env (fy_state y)"]) (simp_all add: fs_request_stop_def)

lemma inv_env: "f_inv (world y a b k) \<Longrightarrow> f_inv (world (upd_state (\<lambda>s. s\<lparr>fs_env := e\<rparr>) y) a b k)"
  by (erule inv_flags [where t = "fs_stop (fy_state y)" and e = e]) simp_all

section \<open>Storing the result\<close>

text \<open>The threads go on and the system stays as it is.\<close>

definition same_role :: "('v, 'e) apc \<Rightarrow> ('v, 'e) apc \<Rightarrow> bool" where
  "same_role a a' \<longleftrightarrow> a_installed a' = a_installed a \<and> (a_unconsumed a' \<longrightarrow> a_unconsumed a) \<and> (a_past a \<longrightarrow> a_past a') \<and>
     a_returning a' = a_returning a \<and> (a_early a' \<longrightarrow> a_early a) \<and> (a' = A_detach False True \<longleftrightarrow> a = A_detach False True) \<and>
     (a' = A_spawn \<or> a' = A_threw \<longleftrightarrow> a = A_spawn \<or> a = A_threw) \<and>
     (a_early a' \<and> a' \<noteq> A_sender \<and> a' \<noteq> A_op \<longrightarrow> a_early a \<and> a \<noteq> A_sender \<and> a \<noteq> A_op)"

lemma same_role_refl [simp]: "same_role a a"
  by (simp add: same_role_def)

lemma inv_go_on:
  assumes u: "f_inv (world y a b k)" and h: "a_refs a' + b_refs b' + k_refs k' = a_refs a + b_refs b + k_refs k"
    and t: "a_token a' = a_token a" "b_token b' = b_token b" "k_token k' = k_token k" "a_win a' = a_win a" "b_win b' = b_win b" "k_win k' = k_win k"
    and l: "same_role a a'" "a_keeps a' = a_keeps a" "b_keeps b' = b_keeps b" "b' \<noteq> B_none \<Longrightarrow> b \<noteq> B_none"
      "k' \<noteq> K_idle \<Longrightarrow> k \<noteq> K_idle \<or> co_callback (fy_consumer y) \<noteq> FB_none" "a_pending a \<or> b_pending b \<Longrightarrow> \<not> fs_done (fy_state y) \<Longrightarrow> a_pending a' \<or> b_pending b'"
    and d: "a_shape a' y" "b_shape b' y" "\<And>d. b' = B_complete (CW_deliver d) \<Longrightarrow> fs_done (fy_state y)"
      "\<And>d. k' = K_run (TC_deliver d) \<Longrightarrow> fs_done (fy_state y)"
  shows "f_inv (world y a' b' k')"
proof (rule f_invI)
  note D = f_invD [OF u] and r = l(1) [unfolded same_role_def]
  show "f_count y a' b' k'"
    by (rule count_step [OF D(1)]) (use f_countD(1) [OF D(1)] r h in \<open>simp_all add: f_holders_def\<close>)
  show "f_roles y a' b' k'" by (rule roles_step [OF D(2)]) (use r t in simp_all)
  show "f_life y a' b' k'"
  proof (rule life_step [OF D(3)])
    show "\<not> (a_early a' \<and> a' \<noteq> A_sender \<and> a' \<noteq> A_op) \<and> fs_assoc (fy_state y) \<noteq> As_none" if "b' \<noteq> B_none"
      using f_lifeD(2) [OF D(3) l(4) [OF that]] r by blast
    show "co_callback (fy_consumer y) \<noteq> FB_none" if "k' \<noteq> K_idle" using f_lifeD(3) [OF D(3)] l(5) [OF that] by blast
  qed (use f_lifeD(1) [OF D(3)] r l in simp_all)
  show "f_data y a' b' k'" by (rule data_step [OF D(4)]) (use d in simp_all)
qed

text \<open>A thread stores a result and takes the registered consumer with it.\<close>

lemma inv_store:
  assumes u: "f_inv (world y a b k)" and nd: "\<not> fs_done (fy_state y)"
    and z: "fy_state z = (fy_state y)\<lparr>fs_result := Some r, fs_done := True, fs_callback := False\<rparr>" "fy_consumer z = fy_consumer y"
      "fy_given z = fy_given y" "fy_cancelled y \<longrightarrow> fy_cancelled z" "fy_error z = fy_error y"
      "fy_cancelled z \<and> r = FR_stopped \<or> (\<exists>alt x. fy_given y = Some (alt, x) \<and> r = stored_alt alt x)"
    and h: "a_refs a' + b_refs b' + k_refs k' = a_refs a + b_refs b + k_refs k"
    and t: "a_token a' + b_token b' + k_token k' = a_token a + b_token b + k_token k + of_bool (fs_callback (fy_state y))"
      "\<not> fs_callback (fy_state y) \<Longrightarrow> b_token b' = b_token b \<and> k_token k' = k_token k"
      "a_win a' = a_win a" "b_win b' = b_win b" "k_win k' = k_win k"
    and l: "same_role a a'" "a_keeps a' = a_keeps a" "b_keeps b' = b_keeps b" "b' \<noteq> B_none \<Longrightarrow> b \<noteq> B_none" "k' \<noteq> K_idle \<Longrightarrow> k \<noteq> K_idle"
    and d: "a_shape a' z" "b_shape b' z"
  shows "f_inv (world z a' b' k')"
proof (rule f_invI)
  note D = f_invD [OF u] and ro = l(1) [unfolded same_role_def]
  show "f_count z a' b' k'"
    by (rule count_step [OF D(1)]) (use f_countD(1) [OF D(1)] ro h z in \<open>simp_all add: f_holders_def\<close>)
  have "f_tokens z a' b' k' = f_tokens y a b k" "f_wins z a' b' k' = f_wins y a b k" using t z by (simp_all add: f_tokens_def f_wins_def)
  then show "f_roles z a' b' k'"
    using f_rolesD(1-4,6-9) [OF D(2)] t(2) ro unfolding f_roles_def z by simp metis
  show "f_life z a' b' k'" using f_lifeD(1-4,7) [OF D(3)] l ro unfolding f_life_def z by simp blast
  have none: "fs_result (fy_state y) = None" using f_dataD(3) [OF D(4)] nd by simp
  then show "f_data z a' b' k'" using f_dataD(7) [OF D(4)] d z(1-3,5,6) unfolding f_data_def by auto
qed

lemma inv_unref:
  assumes u: "f_inv (world y a b k)" and h: "a_refs a + b_refs b + k_refs k = a_refs a' + b_refs b' + k_refs k' + 1"
    and t: "a_token a' = a_token a" "b_token b' = b_token b" "k_token k' = k_token k" "a_win a' = a_win a" "b_win b' = b_win b" "k_win k' = k_win k"
    and l: "a_installed a' = a_installed a" "\<not> a_unconsumed a' \<or> a' = a \<or> (\<exists>h w w'. a = A_complete h w \<and> a' = A_complete h w')"
      "\<not> a_past a' \<Longrightarrow> \<not> a_past a" "a_returning a' = a_returning a"
      "a = A_detach False True \<Longrightarrow> a' = A_detach False True"
      "a_keeps a' = a_keeps a" "b_keeps b' = b_keeps b" "b' \<noteq> B_none \<Longrightarrow> b \<noteq> B_none" "k' \<noteq> K_idle \<Longrightarrow> k \<noteq> K_idle"
      "a_pending a' = a_pending a" "b_pending b' = b_pending b" "a \<noteq> A_spawn" "a \<noteq> A_threw" "a' \<noteq> A_spawn" "a' \<noteq> A_threw"
    and d: "a_shape a' y" "b_shape b' y" "\<And>d. b' = B_complete (CW_deliver d) \<Longrightarrow> fs_done (fy_state y)"
      "\<And>d. k' = K_run (TC_deliver d) \<Longrightarrow> fs_done (fy_state y)"
  shows "f_inv (world (upd_state unref y) a' b' k')"
proof (rule f_invI)
  note D = f_invD [OF u]
  let ?z = "upd_state unref y"
  have un: "a_unconsumed a' \<Longrightarrow> a_unconsumed a" "a_early a' \<Longrightarrow> a_early a" using l(2) early_unconsumed [of a'] by auto
  show "f_count ?z a' b' k'" by (rule count_unref [OF D(1)]) (use h l in \<open>simp_all add: f_holders_def\<close>)
  show "f_roles ?z a' b' k'" by (rule roles_step [OF D(2)]) (use l t un in simp_all)
  show "f_life ?z a' b' k'"
  proof (rule life_step [OF D(3)])
    show "\<not> (a_early a' \<and> a' \<noteq> A_sender \<and> a' \<noteq> A_op) \<and> fs_assoc (fy_state ?z) \<noteq> As_none" if "b' \<noteq> B_none"
      using f_lifeD(2) [OF D(3) l(8) [OF that]] l(2) early_unconsumed [of a'] by auto
    show "co_callback (fy_consumer y) \<noteq> FB_none" if "k' \<noteq> K_idle" using f_lifeD(3) [OF D(3) l(9) [OF that]] .
  qed (use f_lifeD(1) [OF D(3)] l un in simp_all)
  have "a_shape a' ?z" by (rule shape_frame(1) [OF _ _ _ _ d(1)]) simp_all
  moreover have "b_shape b' ?z" by (rule shape_frame(2) [OF _ d(2)]) simp
  ultimately show "f_data ?z a' b' k'" by (intro data_step [OF D(4)]) (use d in simp_all)
qed

text \<open>The reference of the state to itself is moved into a local variable.\<close>

lemma inv_keep:
  assumes u: "f_inv (world y a b k)" and h: "a_refs a' + b_refs b' + k_refs k' = a_refs a + b_refs b + k_refs k + of_bool (fs_keep (fy_state y))"
    and t: "a_token a' = a_token a" "b_token b' = b_token b" "k_token k' = k_token k" "a_win a' = a_win a" "b_win b' = b_win b" "k_win k' = k_win k"
    and l: "same_role a a'" "\<not> a_keeps a'" "\<not> b_keeps b'" "b' \<noteq> B_none \<Longrightarrow> b \<noteq> B_none" "k' = k"
      "a_pending a' = a_pending a" "b_pending b' = b_pending b"
    and d: "a_shape a' y" "b_shape b' y" "\<And>d. b' \<noteq> B_complete (CW_deliver d)"
  shows "f_inv (world (upd_state (\<lambda>s. s\<lparr>fs_keep := False\<rparr>) y) a' b' k')"
proof (rule f_invI)
  note D = f_invD [OF u] and r = l(1) [unfolded same_role_def]
  let ?z = "upd_state (\<lambda>s. s\<lparr>fs_keep := False\<rparr>) y"
  show "f_count ?z a' b' k'"
    by (rule count_step [OF D(1)]) (use f_countD(1) [OF D(1)] r h in \<open>simp_all add: f_holders_def\<close>)
  show "f_roles ?z a' b' k'" by (rule roles_step [OF D(2)]) (use r t in simp_all)
  show "f_life ?z a' b' k'"
  proof (rule life_step [OF D(3)])
    show "\<not> (a_early a' \<and> a' \<noteq> A_sender \<and> a' \<noteq> A_op) \<and> fs_assoc (fy_state ?z) \<noteq> As_none" if "b' \<noteq> B_none"
      using f_lifeD(2) [OF D(3) l(4) [OF that]] r by auto
    show "co_callback (fy_consumer y) \<noteq> FB_none" if "k' \<noteq> K_idle" using f_lifeD(3) [OF D(3)] l(5) that by simp
  qed (use r l in simp_all)
  have "a_shape a' ?z" by (rule shape_frame(1) [OF _ _ _ _ d(1)]) simp_all
  moreover have "b_shape b' ?z" by (rule shape_frame(2) [OF _ d(2)]) simp
  ultimately show "f_data ?z a' b' k'" by (intro data_step [OF D(4)]) (use d l(5) f_dataD(5) [OF D(4)] in simp_all)
qed

section \<open>The thread of the work\<close>

lemma source_not_complete:
  assumes "f_life y a b k" "b \<noteq> B_none"
  shows "a \<noteq> A_complete h w" "\<not> a_keeps a" "\<not> a_pending a" "a \<noteq> A_spawn" "a \<noteq> A_threw"
  using f_lifeD(2) [OF assms] by (cases a; auto)+

lemma inv_source:
  assumes u: "f_inv (world y a (B_complete w) k)" and w: "complete_step free w y = Some (w', z)"
  shows "f_inv (world z a (B_complete w') k)"
proof (cases w)
  note D = f_invD [OF u] and sh = f_dataD(1,2,5) [OF f_invD(4) [OF u]] and nc = source_not_complete [OF f_invD(3) [OF u], simplified]
  {
    case (CW_env alt x)
    then have z: "z = upd_state (\<lambda>s. s\<lparr>fs_env := False\<rparr>) y" "w' = CW_store alt x" using w by simp_all
    note v = inv_env [OF u, of False]
    show ?thesis unfolding z by (rule inv_go_on [OF v]) (use CW_env f_dataD(1,2,5) [OF f_invD(4) [OF v]] in auto)
  next
    case (CW_store alt x)
    show ?thesis
    proof (cases "fs_done (fy_state y)")
      case True
      then have z: "z = y" "w' = CW_keep" using w CW_store by (simp_all add: complete_store_def)
      show ?thesis unfolding z by (rule inv_go_on [OF u]) (use CW_store True sh in auto)
    next
      case False
      then have z: "z = y\<lparr>fy_state := (fy_state y)\<lparr>fs_result := Some (stored_alt alt x), fs_done := True, fs_callback := False\<rparr>\<rparr>"
        "w' = (if fs_callback (fy_state y) then CW_deliver D_begin else CW_keep)"
        using w CW_store by (simp_all add: complete_store_def)
      have "a_shape a z" by (rule shape_frame(1) [OF _ _ _ _ sh(1)]) (simp_all add: z)
      then show ?thesis using sh CW_store by (intro inv_store [OF u False, where r = "stored_alt alt x"]) (auto simp: z)
    qed
  next
    case (CW_deliver d)
    show ?thesis
    proof (cases "d = D_end")
      case True
      then have z: "z = y" "w' = CW_keep" using w CW_deliver by simp_all
      show ?thesis unfolding z by (rule inv_go_on [OF u]) (use CW_deliver True sh in auto)
    next
      case False
      then obtain d' where "deliver_step free (deliver_to (fy_state y)) d y = Some (d', z)" "w' = CW_deliver d'"
        using w CW_deliver by auto
      then show ?thesis using inv_deliver_source [of y a d k] u CW_deliver by simp
    qed
  next
    case CW_keep
    then have z: "z = upd_state (\<lambda>s. s\<lparr>fs_keep := False\<rparr>) y" "w' = CW_drop (fs_keep (fy_state y))" using w by simp_all
    show ?thesis unfolding z by (rule inv_keep [OF u]) (use CW_keep sh nc in auto)
  next
    case (CW_drop b)
    then have z: "z = upd_state (unref_if b) y" "w' = CW_end" using w by simp_all
    show ?thesis
    proof (cases b)
      case True
      show ?thesis unfolding z using True CW_drop sh nc by (simp, intro inv_unref [OF u]) auto
    next
      case False
      show ?thesis unfolding z using False CW_drop sh by (simp, intro inv_go_on [OF u]) auto
    qed
  next
    case CW_end
    then show ?thesis using w by simp
  }
qed

lemma inv_source_end:
  assumes u: "f_inv (world y a (B_complete CW_end) k)"
  shows "f_inv (world (upd_state unref y) a B_end k)"
  by (rule inv_unref [OF u])
    (use source_not_complete [OF f_invD(3) [OF u]] f_dataD(1,2,5) [OF f_invD(4) [OF u]] in auto)

section \<open>The thread that requests a stop\<close>

lemma running_not_early: "f_life y a b k \<Longrightarrow> k \<noteq> K_idle \<Longrightarrow> \<not> a_early a"
  using f_lifeD(3,4) [of y a b k] by blast

lemma inv_stopper:
  assumes u: "f_inv (world y a b (K_run t))" and t: "try_cancel_step free t y = Some (t', z)"
  shows "f_inv (world z a b (K_run t'))"
proof (cases t)
  note D = f_invD [OF u] and sh = f_dataD(1,2,4) [OF f_invD(4) [OF u]]
  {
    case TC_stop
    then have z: "z = upd_state fs_request_stop y" "t' = TC_store" using t by simp_all
    note v = inv_stop [OF u]
    show ?thesis unfolding z by (rule inv_go_on [OF v]) (use TC_stop f_dataD(1,2,4) [OF f_invD(4) [OF v]] in auto)
  next
    case TC_store
    show ?thesis
    proof (cases "fs_done (fy_state y)")
      case True
      then have z: "z = y" "t' = TC_end" using t TC_store by (simp_all add: try_cancel_store_def)
      show ?thesis unfolding z by (rule inv_go_on [OF u]) (use TC_store True sh in auto)
    next
      case False
      then have z: "z = y\<lparr>fy_state := (fy_state y)\<lparr>fs_result := Some FR_stopped, fs_done := True, fs_callback := False\<rparr>, fy_cancelled := True\<rparr>"
        "t' = (if fs_callback (fy_state y) then TC_deliver D_begin else TC_end)"
        using t TC_store by (simp_all add: try_cancel_store_def)
      have "a_shape a z" by (rule shape_frame(1) [OF _ _ _ _ sh(1)]) (simp_all add: z)
      moreover have "b_shape b z" by (rule shape_frame(2) [OF _ sh(2)]) (simp add: z)
      ultimately show ?thesis using TC_store by (intro inv_store [OF u False, where r = FR_stopped]) (auto simp: z)
    qed
  next
    case (TC_deliver d)
    show ?thesis
    proof (cases "d = D_end")
      case True
      then have z: "z = y" "t' = TC_end" using t TC_deliver by simp_all
      show ?thesis unfolding z by (rule inv_go_on [OF u]) (use TC_deliver True sh in auto)
    next
      case False
      then obtain d' where "deliver_step free (deliver_to (fy_state y)) d y = Some (d', z)" "t' = TC_deliver d'"
        using t TC_deliver by auto
      then show ?thesis using inv_deliver_stopper [of y a b d] u TC_deliver by simp
    qed
  next
    case TC_end
    then show ?thesis using t by simp
  }
qed

lemma inv_stopper_end:
  assumes u: "f_inv (world y a b (K_run TC_end))"
  shows "f_inv (world (upd_state unref y) a b K_end)"
  by (rule inv_unref [OF u])
    (use running_not_early [OF f_invD(3) [OF u]] f_dataD(1,2,4) [OF f_invD(4) [OF u]] in auto)

section \<open>The owner\<close>

lemma inv_owner_complete:
  assumes u: "f_inv (world y (A_complete h w) b k)" and w: "complete_step free w y = Some (w', z)"
  shows "f_inv (world z (A_complete h w') b k)"
proof (cases w)
  note D = f_invD [OF u] and sh = f_dataD(1,2,4,5) [OF f_invD(4) [OF u]]
  have b: "b = B_none" using f_lifeD(2) [OF f_invD(3) [OF u]] by auto
  have cb: "\<not> fs_callback (fy_state y)" using f_rolesD(4) [OF f_invD(2) [OF u]] by simp
  {
    case (CW_env alt x)
    then have z: "z = upd_state (\<lambda>s. s\<lparr>fs_env := False\<rparr>) y" "w' = CW_store alt x" using w by simp_all
    note v = inv_env [OF u, of False]
    show ?thesis unfolding z
      by (rule inv_go_on [OF v]) (use CW_env f_dataD(1,2,4,5) [OF f_invD(4) [OF v]] in \<open>auto simp: same_role_def\<close>)
  next
    case (CW_store alt x)
    show ?thesis
    proof (cases "fs_done (fy_state y)")
      case True
      then have z: "z = y" "w' = CW_keep" using w CW_store by (simp_all add: complete_store_def)
      show ?thesis unfolding z by (rule inv_go_on [OF u]) (use CW_store True sh in \<open>auto simp: same_role_def\<close>)
    next
      case False
      then have z: "z = y\<lparr>fy_state := (fy_state y)\<lparr>fs_result := Some (stored_alt alt x), fs_done := True, fs_callback := False\<rparr>\<rparr>"
        "w' = CW_keep" using w CW_store cb by (simp_all add: complete_store_def)
      then show ?thesis using sh CW_store cb
        by (intro inv_store [OF u False, where r = "stored_alt alt x"]) (auto simp: z b same_role_def)
    qed
  next
    case CW_keep
    then have z: "z = upd_state (\<lambda>s. s\<lparr>fs_keep := False\<rparr>) y" "w' = CW_drop (fs_keep (fy_state y))" using w by simp_all
    show ?thesis unfolding z by (rule inv_keep [OF u]) (use CW_keep sh b in \<open>auto simp: same_role_def\<close>)
  next
    case (CW_drop c)
    then have z: "z = upd_state (unref_if c) y" "w' = CW_end" using w by simp_all
    show ?thesis
    proof (cases c)
      case True
      show ?thesis unfolding z using True CW_drop sh by (simp, intro inv_unref [OF u]) auto
    next
      case False
      show ?thesis unfolding z using False CW_drop sh by (simp, intro inv_go_on [OF u]) (auto simp: same_role_def)
    qed
  }
qed (use w f_dataD(1) [OF f_invD(4) [OF u]] in auto)

lemma inv_owner_cancel:
  assumes u: "f_inv (world y (A_try t) b k)" and t: "try_cancel_step free t y = Some (t', z)"
  shows "f_inv (world z (A_try t') b k)"
proof (cases t)
  note sh = f_dataD(1,2,4,5) [OF f_invD(4) [OF u]]
  have cb: "\<not> fs_callback (fy_state y)" using f_rolesD(4) [OF f_invD(2) [OF u]] by simp
  {
    case TC_stop
    then have z: "z = upd_state fs_request_stop y" "t' = TC_store" using t by simp_all
    note v = inv_stop [OF u]
    show ?thesis unfolding z
      by (rule inv_go_on [OF v]) (use TC_stop f_dataD(2,4,5) [OF f_invD(4) [OF v]] in \<open>auto simp: same_role_def\<close>)
  next
    case TC_store
    show ?thesis
    proof (cases "fs_done (fy_state y)")
      case True
      then have z: "z = y" "t' = TC_end" using t TC_store by (simp_all add: try_cancel_store_def)
      show ?thesis unfolding z by (rule inv_go_on [OF u]) (use TC_store True sh in \<open>auto simp: same_role_def\<close>)
    next
      case False
      then have z: "z = y\<lparr>fy_state := (fy_state y)\<lparr>fs_result := Some FR_stopped, fs_done := True, fs_callback := False\<rparr>, fy_cancelled := True\<rparr>"
        "t' = TC_end" using t TC_store cb by (simp_all add: try_cancel_store_def)
      have "b_shape b z" by (rule shape_frame(2) [OF _ sh(2)]) (simp add: z)
      then show ?thesis using TC_store cb by (intro inv_store [OF u False, where r = FR_stopped]) (auto simp: z same_role_def)
    qed
  }
qed (use t f_dataD(1) [OF f_invD(4) [OF u]] in auto)

text \<open>The stop callback is installed or destroyed.\<close>

lemma inv_callback:
  assumes u: "f_inv (world y a b k)" and e: "\<not> a_early a" "c \<noteq> FB_none"
  shows "f_inv (world (upd_consumer (\<lambda>co. co\<lparr>co_callback := c\<rparr>) y) a b k)"
proof (rule f_invI)
  note D = f_invD [OF u]
  let ?z = "upd_consumer (\<lambda>co. co\<lparr>co_callback := c\<rparr>) y"
  show "f_count ?z a b k" by (rule count_step [OF D(1)]) (use f_countD(1) [OF D(1)] in \<open>simp_all add: f_holders_def\<close>)
  show "f_roles ?z a b k" by (rule roles_step [OF D(2)]) simp_all
  show "f_life ?z a b k" using f_lifeD(1,2,5-7) [OF D(3)] e unfolding f_life_def by simp
  have "a_shape a ?z" by (rule shape_frame(1) [OF _ _ _ _ f_dataD(1) [OF D(4)]]) simp_all
  moreover have "b_shape b ?z" by (rule shape_frame(2) [OF _ f_dataD(2) [OF D(4)]]) simp
  ultimately show "f_data ?z a b k" using f_dataD(4,5) [OF D(4)] by (intro data_step [OF D(4)]) simp_all
qed

text \<open>
  Before the consumer is registered, the owner can begin to tell it, or register it: nobody else has
  been told to do so.
\<close>

lemma unconsumed_quiet:
  assumes "f_roles y a b k" "a_unconsumed a"
  shows "co_active (fy_consumer y)" "co_state (fy_consumer y) = a_installed a" "\<not> fs_callback (fy_state y)"
    "b_token b = 0" "k_token k = 0" "b_win b = 0" "k_win k = 0" "co_out (fy_consumer y) = []"
proof -
  show c: "co_active (fy_consumer y)" by (rule f_rolesD(2) [OF assms])
  show "co_state (fy_consumer y) = a_installed a" using f_rolesD(1) [OF assms(1)] c by simp
  show "\<not> fs_callback (fy_state y)" "b_token b = 0" "k_token k = 0"
    using f_rolesD(4) [OF assms(1) unconsumed_past [OF assms(2)]] by simp_all
  show "b_win b = 0" "k_win k = 0" "co_out (fy_consumer y) = []"
    using f_rolesD(8) [OF assms(1) c] by (simp_all add: f_wins_def)
qed

lemma inv_tell:
  assumes u: "f_inv (world y a b k)" and a: "a \<in> {A_emplace, A_consume}"
    and z: "fy_state z = (fy_state y)\<lparr>fs_taken := v\<rparr>" "fy_consumer z = fy_consumer y" "fy_given z = fy_given y"
      "fy_cancelled z = fy_cancelled y" "a_shape (A_tell t D_begin) z"
  shows "f_inv (world z (A_tell t D_begin) b k)"
proof (rule f_invI)
  note D = f_invD [OF u]
  have "a_unconsumed a" using a by auto
  note q = unconsumed_quiet [OF D(2) this]
  have i: "a_installed a" "a_refs a = 1" using a by auto
  show "f_count z (A_tell t D_begin) b k"
    by (rule count_step [OF D(1)]) (use f_countD(1) [OF D(1)] z i a in \<open>auto simp: f_holders_def\<close>)
  show "f_roles z (A_tell t D_begin) b k" unfolding f_roles_def f_tokens_def f_wins_def using q z i by simp
  show "f_life z (A_tell t D_begin) b k" using f_lifeD(1,2,3,5,6) [OF D(3)] z a unfolding f_life_def by auto
  have "b_shape b z" by (rule shape_frame(2) [OF z(3) f_dataD(2) [OF D(4)]])
  then show "f_data z (A_tell t D_begin) b k"
    using f_dataD(3-6) [OF D(4)] z q(8) unfolding f_data_def by simp
qed

lemma inv_register:
  assumes u: "f_inv (world y A_consume b k)" and nd: "\<not> fs_done (fy_state y)"
  shows "f_inv (world (upd_state (\<lambda>s. s\<lparr>fs_taken := True, fs_callback := True\<rparr>) y) A_return b k)"
proof (rule f_invI)
  note D = f_invD [OF u] and q = unconsumed_quiet [OF f_invD(2) [OF u], simplified]
  let ?z = "upd_state (\<lambda>s. s\<lparr>fs_taken := True, fs_callback := True\<rparr>) y"
  show "f_count ?z A_return b k"
    by (rule count_step [OF D(1)]) (use f_countD(1) [OF D(1)] in \<open>simp_all add: f_holders_def\<close>)
  show "f_roles ?z A_return b k" unfolding f_roles_def f_tokens_def f_wins_def using q by simp
  show "f_life ?z A_return b k" using f_lifeD(1,2,3,5) [OF D(3)] nd unfolding f_life_def by simp
  have "b_shape b ?z" by (rule shape_frame(2) [OF _ f_dataD(2) [OF D(4)]]) simp
  then show "f_data ?z A_return b k" using f_dataD(4,5) [OF D(4)] by (intro data_step [OF D(4)]) simp_all
qed

text \<open>Once the consumer has been told, the owner can leave \<open>start\<close>, and the destructor has nothing to do.\<close>

lemma inv_inactive:
  assumes u: "f_inv (world y a b k)" and i: "\<not> co_active (fy_consumer y)"
    and a: "a_refs a' = a_refs a" "a_token a = 0" "a_win a = 0" "\<not> a_early a" "\<not> a_keeps a" "\<not> a_pending a" "a \<noteq> A_detach False True"
      "a_installed a \<or> \<not> a_installed a'" "a' = A_return \<or> (\<exists>h. a' = A_destroyed h \<and> a = A_destroy h)"
  shows "f_inv (world y a' b k)"
proof (rule f_invI)
  note D = f_invD [OF u] and R = f_rolesD [OF f_invD(2) [OF u]]
  have a': "a_token a' = 0" "a_win a' = 0" "\<not> a_unconsumed a'" "\<not> a_early a'" "\<not> a_keeps a'" "\<not> a_pending a'" "\<not> a_past a' \<Longrightarrow> \<not> a_past a"
    "a_shape a' y" "a' \<noteq> A_spawn" "a' \<noteq> A_threw"
    using a(9) by auto
  have cb: "\<not> fs_callback (fy_state y)" using R(5) i a(7) by auto
  show "f_count y a' b k"
    by (rule count_step [OF D(1)]) (use f_countD(1) [OF D(1)] a a' in \<open>auto simp: f_holders_def\<close>)
  show "f_roles y a' b k"
    unfolding f_roles_def using R i cb a a' by (auto simp: f_tokens_def f_wins_def)
  show "f_life y a' b k" using f_lifeD [OF D(3)] a(4-6) a' unfolding f_life_def by auto
  show "f_data y a' b k" by (rule data_step [OF D(4)]) (use f_dataD(2,4,5) [OF D(4)] a' in auto)
qed

text \<open>The destructor of the operation.\<close>

lemma inv_destroy:
  assumes u: "f_inv (world y (A_destroy h) b k)" and i: "co_active (fy_consumer y)"
  shows "f_inv (world (upd_consumer (\<lambda>c. c\<lparr>co_active := False, co_state := False\<rparr>) y) (A_detach h (co_state (fy_consumer y))) b k)"
proof (rule f_invI)
  note D = f_invD [OF u] and R = f_rolesD [OF f_invD(2) [OF u]]
  let ?z = "upd_consumer (\<lambda>c. c\<lparr>co_active := False, co_state := False\<rparr>) y"
  have st: "co_state (fy_consumer y) \<longleftrightarrow> \<not> h" using R(1) i by simp
  have w: "f_wins y (A_destroy h) b k = 0" by (rule R(8) [OF i])
  show "f_count ?z (A_detach h (co_state (fy_consumer y))) b k"
    by (rule count_step [OF D(1)]) (use f_countD(1) [OF D(1)] in \<open>simp_all add: f_holders_def\<close>)
  show "f_roles ?z (A_detach h (co_state (fy_consumer y))) b k"
    using R(3,4) w st unfolding f_roles_def f_tokens_def f_wins_def by auto
  show "f_life ?z (A_detach h (co_state (fy_consumer y))) b k"
    using f_lifeD(1,2,3,5,6) [OF D(3)] unfolding f_life_def by simp
  have "b_shape b ?z" by (rule shape_frame(2) [OF _ f_dataD(2) [OF D(4)]]) simp
  then show "f_data ?z (A_detach h (co_state (fy_consumer y))) b k"
    using f_dataD(4,5) [OF D(4)] st by (intro data_step [OF D(4)]) simp_all
qed

lemma inv_detach:
  assumes u: "f_inv (world y (A_detach h c) b k)"
  shows "f_inv (world (if c then upd_state detach_consumer y else y) (A_reset h c) b k)"
proof (rule f_invI)
  note D = f_invD [OF u] and R = f_rolesD [OF f_invD(2) [OF u]]
  have c: "c \<longleftrightarrow> \<not> h" using f_dataD(1) [OF D(4)] by simp
  let ?z = "if c then upd_state detach_consumer y else y"
  have z: "\<not> fs_callback (fy_state ?z)" "fy_consumer ?z = fy_consumer y" "fy_given ?z = fy_given y" "fy_cancelled ?z = fy_cancelled y"
    "fy_error ?z = fy_error y" "fs_done (fy_state ?z) = fs_done (fy_state y)" "fs_result (fy_state ?z) = fs_result (fy_state y)"
    "fs_keep (fy_state ?z) = fs_keep (fy_state y)" "fs_refs (fy_state ?z) = fs_refs (fy_state y)" "fs_assoc (fy_state ?z) = fs_assoc (fy_state y)"
    "fs_freed (fy_state ?z) = fs_freed (fy_state y)"
    using R(4) c by auto
  show "f_count ?z (A_reset h c) b k"
    by (rule count_step [OF D(1)]) (use f_countD(1) [OF D(1)] z in \<open>simp_all add: f_holders_def\<close>)
  show "f_roles ?z (A_reset h c) b k"
    using R(1,3,4,7,8) z(1,2) unfolding f_roles_def f_tokens_def f_wins_def z(2) by simp
  show "f_life ?z (A_reset h c) b k" using f_lifeD(1,2,3,5) [OF D(3)] z(1) unfolding f_life_def z(2,6,8,10) by simp
  have "b_shape b ?z" by (rule shape_frame(2) [OF z(3) f_dataD(2) [OF D(4)]])
  then show "f_data ?z (A_reset h c) b k" using f_dataD(4,5) [OF D(4)] by (intro data_step [OF D(4)]) (simp_all add: z)
qed

lemma inv_abandon:
  assumes u: "f_inv (world y (A_abandon d) b k)" and s: "abandon_unconsumed (fy_state y) = (stop, s)"
  shows "f_inv (world (y\<lparr>fy_state := s\<rparr>) (if stop then A_abandon_stop d else A_abandoned d) b k)"
proof -
  note D = f_invD [OF u]
  let ?a = "if stop then A_abandon_stop d else A_abandoned d" and ?z = "y\<lparr>fy_state := s\<rparr>"
  have z: "s = (fy_state y)\<lparr>fs_taken := True\<rparr>"
    using s by (auto simp: abandon_unconsumed_def split: if_splits intro!: fstate.equality)
  have "f_inv (world ?z (A_abandon d) b k)"
  proof (rule f_invI)
    show "f_count ?z (A_abandon d) b k" by (rule count_step [OF D(1)]) (use f_countD(1) [OF D(1)] z in \<open>simp_all add: f_holders_def\<close>)
    show "f_roles ?z (A_abandon d) b k" by (rule roles_step [OF D(2)]) (simp_all add: z)
    show "f_life ?z (A_abandon d) b k" using f_lifeD(1-6) [OF D(3)] unfolding f_life_def z by simp
    have "b_shape b ?z" by (rule shape_frame(2) [OF _ f_dataD(2) [OF D(4)]]) simp
    then show "f_data ?z (A_abandon d) b k" using f_dataD(1,4,5) [OF D(4)] by (intro data_step [OF D(4)]) (simp_all add: z)
  qed
  note v = this
  show ?thesis by (rule inv_go_on [OF v]) (use f_dataD(1,2,4,5) [OF f_invD(4) [OF v]] in \<open>auto simp: same_role_def\<close>)
qed

lemma inv_after_telling:
  assumes u: "f_inv (world y (A_tell t D_end) b k)"
  shows "f_inv (world y (after_telling t) b k)"
proof -
  note sh = f_dataD(1,2,4,5) [OF f_invD(4) [OF u]]
  show ?thesis
  proof (cases t)
    case T_result
    then show ?thesis using sh(1) by (simp, intro inv_inactive [OF u]) simp_all
  next
    case T_stopped
    then show ?thesis using sh(1) by simp
  next
    case (T_install e)
    then show ?thesis using sh by (simp, intro inv_go_on [OF u]) (auto simp: same_role_def)
  next
    case (T_consume e)
    then show ?thesis using sh by (simp, intro inv_go_on [OF u]) (auto simp: same_role_def)
  qed
qed

lemma inv_consume:
  assumes u: "f_inv (world y A_consume b k)" and s: "consume (fy_state y) = (r, s)"
  shows "f_inv (world (y\<lparr>fy_state := s\<rparr>) (after_consume r) b k)"
proof -
  have nt: "\<not> fs_taken (fy_state y)" using f_lifeD(7) [OF f_invD(3) [OF u]] by simp
  show ?thesis
  proof (cases "fs_done (fy_state y)")
    case True
    then have "r = Deliver_now" "s = (fy_state y)\<lparr>fs_taken := True\<rparr>" using s nt by (auto simp: consume_def)
    then show ?thesis using True by (simp, intro inv_tell [OF u]) simp_all
  next
    case False
    then have "r = Registered" "s = (fy_state y)\<lparr>fs_taken := True, fs_callback := True\<rparr>" using s nt by (auto simp: consume_def)
    then show ?thesis using inv_register [OF u False] by simp
  qed
qed

lemma f_inv_shape: "f_inv (world y a b k) \<Longrightarrow> a_shape a y"
  by (rule f_dataD(1) [OF f_invD(4)])

lemma inv_owner_go:
  assumes u: "f_inv (world y a b k)"
    and r: "same_role a a'" "a_refs a' = a_refs a" "a_token a' = a_token a" "a_win a' = a_win a"
      "a_keeps a' = a_keeps a" "a_pending a' = a_pending a" "a_shape a' y"
  shows "f_inv (world y a' b k)"
  by (rule inv_go_on [OF u]) (use r f_dataD(2,4,5) [OF f_invD(4) [OF u]] in auto)

lemma inv_owner_unref:
  assumes u: "f_inv (world y a b k)"
    and r: "a_refs a = a_refs a' + 1" "a_token a' = a_token a" "a_win a' = a_win a" "a_installed a' = a_installed a" "\<not> a_unconsumed a'"
      "\<not> a_past a' \<Longrightarrow> \<not> a_past a" "a_returning a' = a_returning a" "a \<noteq> A_detach False True" "a_keeps a' = a_keeps a"
      "a_pending a' = a_pending a" "\<not> a_early a" "\<not> a_early a'" "a_shape a' y"
  shows "f_inv (world (upd_state unref y) a' b k)"
  by (rule inv_unref [OF u]) (use r f_dataD(2,4,5) [OF f_invD(4) [OF u]] in auto)

lemma inv_completed: "f_inv (world y (A_complete h CW_end) b k) \<Longrightarrow> f_inv (world y A_sender b k)"
  by (erule inv_owner_go) (simp_all add: same_role_def)

lemma inv_abandon_stop: "f_inv (world y (A_abandon_stop d) b k) \<Longrightarrow> f_inv (world (upd_state fs_request_stop y) (A_abandoned d) b k)"
  by (rule inv_owner_go [OF inv_stop]) (auto simp: same_role_def dest: f_inv_shape)

lemma inv_abandoned_sender: "f_inv (world y (A_abandoned Dr_sender) b k) \<Longrightarrow> f_inv (world (upd_state unref y) A_end b k)"
  by (erule inv_owner_unref) simp_all

lemma inv_abandoned_op: "f_inv (world y (A_abandoned Dr_op) b k) \<Longrightarrow> f_inv (world y (A_destroy True) b k)"
  by (erule inv_owner_go) (simp_all add: same_role_def)

lemma inv_abandoned_install: "f_inv (world y (A_abandoned Dr_install) b k) \<Longrightarrow> f_inv (world y A_return b k)"
  by (rule inv_inactive) (auto dest: f_inv_shape)

lemma inv_cancelled: "f_inv (world y (A_try TC_end) b k) \<Longrightarrow> f_inv (world y A_emplace b k)"
  by (erule inv_owner_go) (simp_all add: same_role_def)

lemma inv_emplace_impossible: "f_inv (world y A_emplace b k) \<Longrightarrow> f_inv (world y A_consume b k)"
  by (erule inv_owner_go) (simp_all add: same_role_def)

lemma inv_emplace: "f_inv (world y A_emplace b k) \<Longrightarrow> f_inv (world (upd_consumer (\<lambda>c. c\<lparr>co_callback := FB_registered\<rparr>) y) A_consume b k)"
  by (rule inv_owner_go, erule inv_callback) (simp_all add: same_role_def)

lemma inv_throws:
  "f_inv (world y A_emplace b k) \<Longrightarrow> f_inv (world (y\<lparr>fy_error := Some e\<rparr>) (A_tell (T_install e) D_begin) b k)"
  "f_inv (world y A_consume b k) \<Longrightarrow> f_inv (world (y\<lparr>fy_error := Some e\<rparr>) (A_tell (T_consume e) D_begin) b k)"
  by (erule inv_tell [where v = "fs_taken (fy_state y)"]; simp)+

lemma inv_consume_stop: "f_inv (world y A_consume_stop b k) \<Longrightarrow> f_inv (world (upd_state fs_request_stop y) A_return b k)"
  by (rule inv_inactive [OF inv_stop]) (auto dest: f_inv_shape)

lemma inv_return: "f_inv (world y A_return b k) \<Longrightarrow> f_inv (world (upd_state unref y) A_started b k)"
  by (erule inv_owner_unref) simp_all

lemma inv_destroy_inactive:
  "f_inv (world y (A_destroy h) b k) \<Longrightarrow> \<not> co_active (fy_consumer y) \<Longrightarrow> f_inv (world y (A_destroyed h) b k)"
  by (erule inv_inactive) simp_all

lemma inv_reset:
  "f_inv (world y (A_reset h c) b k) \<Longrightarrow> f_inv (world (upd_consumer (\<lambda>c. c\<lparr>co_callback := FB_gone\<rparr>) y) (A_stop h c) b k)"
  by (rule inv_owner_go, erule inv_callback) (simp_all add: same_role_def)

lemma inv_owner_stop: "f_inv (world y (A_stop h c) b k) \<Longrightarrow> f_inv (world (if c then upd_state fs_request_stop y else y) (A_drop h c) b k)"
proof (cases c)
  case True
  assume "f_inv (world y (A_stop h c) b k)"
  then have "f_inv (world (upd_state fs_request_stop y) (A_stop h c) b k)" by (rule inv_stop)
  then have "f_inv (world (upd_state fs_request_stop y) (A_drop h c) b k)" by (rule inv_owner_go) (simp_all add: same_role_def)
  then show ?thesis using True by simp
next
  case False
  assume "f_inv (world y (A_stop h c) b k)"
  then have "f_inv (world y (A_drop h c) b k)" by (rule inv_owner_go) (simp_all add: same_role_def)
  then show ?thesis using False by simp
qed

lemma inv_drop:
  assumes "f_inv (world y (A_drop h c) b k)"
  shows "f_inv (world (upd_state (unref_if c) y) (A_destroyed h) b k)"
proof (cases c)
  case True
  have "f_inv (world (upd_state unref y) (A_destroyed h) b k)" using assms True by (intro inv_owner_unref [OF assms]) simp_all
  then show ?thesis using True by simp
next
  case False
  have "f_inv (world y (A_destroyed h) b k)" using assms False by (intro inv_owner_go [OF assms]) (simp_all add: same_role_def)
  then show ?thesis using False by simp
qed

lemma inv_destroyed:
  assumes "f_inv (world y (A_destroyed h) b k)"
  shows "f_inv (world (upd_state (unref_if h) y) A_end b k)"
proof (cases h)
  case True
  have "f_inv (world (upd_state unref y) A_end b k)" using assms True by (intro inv_owner_unref [OF assms]) simp_all
  then show ?thesis using True by simp
next
  case False
  have "f_inv (world y A_end b k)" using assms False by (intro inv_owner_go [OF assms]) (simp_all add: same_role_def)
  then show ?thesis using False by simp
qed

lemmas inv_owner_steps = inv_owner_complete inv_completed inv_abandon inv_abandon_stop inv_abandoned_sender inv_abandoned_op
  inv_abandoned_install inv_owner_cancel inv_cancelled inv_emplace_impossible inv_emplace inv_throws inv_consume inv_deliver_owner
  inv_after_telling inv_consume_stop inv_return inv_destroy inv_destroy_inactive inv_detach inv_reset inv_owner_stop inv_drop inv_destroyed

lemma inv_owner: "a_work k y a z a' \<Longrightarrow> f_inv (world y a b k) \<Longrightarrow> f_inv (world z a' b k)"
  by (induction rule: a_work.induct) (blast intro: inv_owner_steps)+

lemma inv_work: "f_work u v \<Longrightarrow> f_inv u \<Longrightarrow> f_inv v"
  by (induction rule: f_work.induct) (blast intro: inv_owner inv_source inv_source_end inv_stopper inv_stopper_end)+

section \<open>Everything that can happen\<close>

lemma inv_addref:
  assumes u: "f_inv (world y a b k)" and z: "fy_state z = addref (fy_state y)" "co_out (fy_consumer z) = co_out (fy_consumer y)"
      "co_active (fy_consumer z) = co_active (fy_consumer y)" "co_state (fy_consumer z) = co_state (fy_consumer y)"
      "co_callback (fy_consumer z) = co_callback (fy_consumer y)" "fy_cancelled z = fy_cancelled y" "fy_error z = fy_error y"
      "fs_result (fy_state y) \<noteq> None \<and> fy_given y \<noteq> None \<Longrightarrow> fy_given z = fy_given y"
    and h: "b_refs b' + k_refs k' = b_refs b + k_refs k + 1" "0 < fs_refs (fy_state y)"
    and t: "b_token b' = b_token b" "k_token k' = k_token k" "b_win b' = b_win b" "k_win k' = k_win k" "b_keeps b' = b_keeps b"
      "b_pending b' = b_pending b" "b' \<noteq> B_none \<Longrightarrow> b \<noteq> B_none" "k' \<noteq> K_idle \<Longrightarrow> k \<noteq> K_idle \<or> co_callback (fy_consumer y) \<noteq> FB_none"
    and d: "a_shape a z" "b_shape b' z" "\<And>d. b' = B_complete (CW_deliver d) \<Longrightarrow> fs_done (fy_state y)"
      "\<And>d. k' = K_run (TC_deliver d) \<Longrightarrow> fs_done (fy_state y)"
  shows "f_inv (world z a b' k')"
proof (rule f_invI)
  note D = f_invD [OF u]
  show "f_count z a b' k'"
    by (rule count_step [OF D(1)]) (use f_countD(1) [OF D(1)] z h in \<open>simp_all add: f_holders_def\<close>)
  show "f_roles z a b' k'" by (rule roles_step [OF D(2)]) (use z t in simp_all)
  show "f_life z a b' k'"
  proof (rule life_step [OF D(3)])
    show "\<not> (a_early a \<and> a \<noteq> A_sender \<and> a \<noteq> A_op) \<and> fs_assoc (fy_state z) \<noteq> As_none" if "b' \<noteq> B_none"
      using f_lifeD(2) [OF D(3) t(7) [OF that]] z by simp
    show "co_callback (fy_consumer y) \<noteq> FB_none" if "k' \<noteq> K_idle" using f_lifeD(3) [OF D(3)] t(8) [OF that] by blast
  qed (use f_lifeD(1) [OF D(3)] z t in simp_all)
  have "fy_cancelled y \<and> r = FR_stopped \<or> (\<exists>alt x. fy_given z = Some (alt, x) \<and> r = stored_alt alt x)" if "fs_result (fy_state y) = Some r" for r
    using f_dataD(6) [OF D(4) that] z(8) that by auto
  then show "f_data z a b' k'"
    using d f_dataD(3,7) [OF D(4)] unfolding f_data_def by (simp add: z)
qed

lemma running_alive:
  assumes "f_inv (world y a B_running k)"
  shows "\<not> fs_freed (fy_state y)" "0 < fs_refs (fy_state y)"
proof -
  have "fs_keep (fy_state y)" using f_lifeD(1) [OF f_invD(3) [OF assms]] by simp
  then show "0 < fs_refs (fy_state y)" using f_countD(1) [OF f_invD(1) [OF assms]] by (simp add: f_holders_def)
  then show "\<not> fs_freed (fy_state y)" using f_countD(2) [OF f_invD(1) [OF assms]] by simp
qed

lemma inv_source_completes:
  assumes u: "f_inv (world y a B_running k)"
  shows "f_inv (world ((upd_state addref y)\<lparr>fy_given := Some (alt, x)\<rparr>) a (B_complete (CW_env alt x)) k)"
proof (rule inv_addref [OF u])
  note sh = f_dataD [OF f_invD(4) [OF u]]
  have "a \<noteq> A_complete h w" for h w using source_not_complete(1) [OF f_invD(3) [OF u]] by simp
  then show "a_shape a ((upd_state addref y)\<lparr>fy_given := Some (alt, x)\<rparr>)" using sh(1) by (cases a) (auto split: telling.splits)
qed (use running_alive [OF u] f_dataD(2,5) [OF f_invD(4) [OF u]] in simp_all)

lemma inv_stop_requested:
  assumes u: "f_inv (world y a b K_idle)" and c: "co_callback (fy_consumer y) = FB_registered" "\<not> fs_freed (fy_state y)"
  shows "f_inv (world (upd_state addref y) a b (K_run TC_stop))"
proof (rule inv_addref [OF u])
  note sh = f_dataD [OF f_invD(4) [OF u]]
  have "\<not> a_early a" using f_lifeD(4) [OF f_invD(3) [OF u]] c(1) by auto
  then show "0 < fs_refs (fy_state y)" using f_countD(2) [OF f_invD(1) [OF u]] c(2) by auto
  show "a_shape a (upd_state addref y)" by (rule shape_frame(1) [OF _ _ _ _ sh(1)]) simp_all
  show "b_shape b (upd_state addref y)" by (rule shape_frame(2) [OF _ sh(2)]) simp
qed (use c f_dataD(4) [OF f_invD(4) [OF u]] in simp_all)

lemma inv_stop_expired:
  assumes u: "f_inv (world y a b K_idle)" and c: "co_callback (fy_consumer y) = FB_registered"
  shows "f_inv (world y a b K_end)"
  by (rule inv_go_on [OF u]) (use c f_dataD(1,2,4) [OF f_invD(4) [OF u]] in simp_all)

lemma inv_install:
  assumes u: "f_inv (world y A_op b k)" and a: "a \<in> {A_emplace, A_try TC_stop}"
  shows "f_inv (world (install_state y) a b k)"
proof (rule f_invI)
  note D = f_invD [OF u] and q = unconsumed_quiet [OF f_invD(2) [OF u], simplified]
  have "0 < fs_refs (fy_state y)" using f_countD(1) [OF D(1)] by (simp add: f_holders_def)
  then show "f_count (install_state y) a b k"
    by (intro count_step [OF D(1)]) (use f_countD(1) [OF D(1)] a q in \<open>auto simp: f_holders_def install_state_def\<close>)
  show "f_roles (install_state y) a b k"
    unfolding f_roles_def f_tokens_def f_wins_def using q a by (auto simp: install_state_def)
  show "f_life (install_state y) a b k"
    by (rule life_step [OF D(3)]) (use f_lifeD(1-3) [OF D(3)] a in \<open>auto simp: install_state_def\<close>)
  have "b_shape b (install_state y)" by (rule shape_frame(2) [OF _ f_dataD(2) [OF D(4)]]) (simp add: install_state_def)
  then show "f_data (install_state y) a b k"
    using f_dataD(4,5) [OF D(4)] a by (intro data_step [OF D(4)]) (auto simp: install_state_def)
qed

lemma inv_spawned:
  assumes u: "f_inv (world y A_spawn b k)"
  shows "f_inv (world (spawned False False (Some (alt, x)) y) (A_complete False (CW_env alt x)) b k)"
    "f_inv (world (spawned True env (Some (alt, x)) y) (A_complete True (CW_env alt x)) b k)"
    "f_inv (world (spawned True env None y) A_sender B_running k)"
proof -
  note D = f_invD [OF u] and q = unconsumed_quiet [OF f_invD(2) [OF u], simplified]
  have n: "b = B_none" "k = K_idle" "co_callback (fy_consumer y) = FB_none"
    using f_lifeD(2,4) [OF D(3)] running_not_early [OF D(3)] by auto
  note defs = f_inv_def f_count_def f_holders_def f_roles_def f_tokens_def f_wins_def f_life_def f_data_def spawned_def fstate_new_def
  show "f_inv (world (spawned False False (Some (alt, x)) y) (A_complete False (CW_env alt x)) b k)"
    using q n by (simp add: defs)
  show "f_inv (world (spawned True env (Some (alt, x)) y) (A_complete True (CW_env alt x)) b k)"
    using q n by (simp add: defs)
  show "f_inv (world (spawned True env None y) A_sender B_running k)" using q n by (simp add: defs)
qed

lemma inv_client:
  "f_inv (world y A_spawn b k) \<Longrightarrow> f_inv (world y A_threw b k)" "f_inv (world y A_sender b k) \<Longrightarrow> f_inv (world y (A_abandon Dr_sender) b k)"
  "f_inv (world y A_sender b k) \<Longrightarrow> f_inv (world y A_op b k)" "f_inv (world y A_op b k) \<Longrightarrow> f_inv (world y (A_abandon Dr_op) b k)"
  "f_inv (world y A_started b k) \<Longrightarrow> f_inv (world y (A_destroy False) b k)"
  by (erule inv_owner_go; simp add: same_role_def)+

lemma inv_step: "f_step u v \<Longrightarrow> f_inv u \<Longrightarrow> f_inv v"
proof (induction rule: f_step.induct)
  case (source_expired y a k)
  then show ?case using running_alive(1) by blast
qed (blast intro: inv_client inv_spawned inv_install inv_source_completes inv_stop_requested inv_stop_expired inv_stop inv_work)+

lemma inv_reachable: "f_reachable u \<Longrightarrow> f_inv u"
  by (induction rule: f_reachable.induct) (auto intro: f_inv_init inv_step)

end
