(* ===== verification/Spawn_Future_Run.thy ===== *)
theory Spawn_Future_Run
  imports Spawn_Future_Invariant
begin

text \<open>
  What follows from the invariant of \<open>Spawn_Future\<close>: abandoned work is asked to stop, everything
  that is under way ends, nothing leaks, and the receiver is told once.
\<close>

section \<open>Abandoned work is asked to stop\<close>

fun a_gave_up :: "('v, 'e) apc \<Rightarrow> bool \<Rightarrow> bool" where
  "a_gave_up (A_abandoned d) act = True"
| "a_gave_up A_return act \<longleftrightarrow> \<not> act" | "a_gave_up A_started act \<longleftrightarrow> \<not> act" | "a_gave_up (A_destroy h) act \<longleftrightarrow> h \<or> \<not> act"
| "a_gave_up (A_detach h b) act = h" | "a_gave_up (A_reset h b) act = h" | "a_gave_up (A_stop h b) act = h"
| "a_gave_up (A_drop h b) act = True" | "a_gave_up (A_destroyed h) act = True" | "a_gave_up A_end act = True"
| "a_gave_up a act = False"

fun a_untaken :: "('v, 'e) apc \<Rightarrow> bool" where
  "a_untaken (A_abandon d) = True"
| "a_untaken (A_tell t d) \<longleftrightarrow> (\<exists>e. t = T_install e)"
| "a_untaken a = a_unconsumed a"

fun a_moved :: "('v, 'e) apc \<Rightarrow> bool" where
  "a_moved (A_reset h b) \<longleftrightarrow> b = (\<not> h)" | "a_moved (A_stop h b) \<longleftrightarrow> b = (\<not> h)" | "a_moved a = True"

definition f_stopping :: "('v, 'e) fsys \<Rightarrow> ('v, 'e) apc \<Rightarrow> ('v, 'e) bpc \<Rightarrow> kpc \<Rightarrow> bool" where
  "f_stopping y a b k \<longleftrightarrow>
     (fs_done (fy_state y) \<and> b_pending b \<longrightarrow> fs_stop (fy_state y)) \<and>
     (k = K_run TC_store \<longrightarrow> fs_stop (fy_state y)) \<and> (a = A_try TC_store \<longrightarrow> fs_stop (fy_state y)) \<and>
     (a_gave_up a (co_active (fy_consumer y)) \<longrightarrow> fs_stop (fy_state y) \<or> fs_done (fy_state y)) \<and>
     (a_untaken a \<longrightarrow> \<not> fs_taken (fy_state y)) \<and> a_moved a"

lemma f_stoppingD:
  assumes "f_stopping y a b k"
  shows "fs_done (fy_state y) \<Longrightarrow> b_pending b \<Longrightarrow> fs_stop (fy_state y)" "k = K_run TC_store \<Longrightarrow> fs_stop (fy_state y)"
    "a = A_try TC_store \<Longrightarrow> fs_stop (fy_state y)"
    "a_gave_up a (co_active (fy_consumer y)) \<Longrightarrow> fs_stop (fy_state y) \<or> fs_done (fy_state y)"
    "a_untaken a \<Longrightarrow> \<not> fs_taken (fy_state y)" "a_moved a"
  using assms unfolding f_stopping_def by blast+

lemma gave_up_active: "a_gave_up a True \<Longrightarrow> a_gave_up a c"
  by (cases a) auto

lemma deliver_stop_flag: "deliver_step free r d y = Some (d', z) \<Longrightarrow> fs_stop (fy_state z) = fs_stop (fy_state y)"
  by (cases d) (auto simp: unref_if_def split: if_splits)

lemma stopping_deliver:
  assumes d: "deliver_step free r d y = Some (d', z)" and s: "f_stopping y a b k" and n: "d = D_begin \<Longrightarrow> fs_done (fy_state y) \<or> \<not> a_gave_up a' False"
    and c: "b_pending b' = b_pending b" "k' \<noteq> K_run TC_store" "a' = a \<or> (\<exists>t. a = A_tell t d \<and> a' = A_tell t d')"
  shows "f_stopping z a' b' k'"
proof -
  note fr = deliver_frame [OF d] and D = f_stoppingD [OF s] and st = deliver_stop_flag [OF d]
  have g: "fs_stop (fy_state y) \<or> fs_done (fy_state y)" if "a_gave_up a' (co_active (fy_consumer z))"
  proof (cases "co_active (fy_consumer z) = co_active (fy_consumer y)")
    case True
    then show ?thesis using D(4) that c(3) by auto
  next
    case False
    then show ?thesis using n that fr(11) by auto
  qed
  show ?thesis unfolding f_stopping_def fr(1,2) st using D g c by auto
qed

lemma complete_stop_flag: "complete_step free w y = Some (w', z) \<Longrightarrow> fs_stop (fy_state z) = fs_stop (fy_state y)"
  by (cases w) (auto simp: complete_store_def unref_if_def dest: deliver_stop_flag split: if_splits)

lemma stopping_source:
  assumes w: "complete_step free w y = Some (w', z)" and s: "f_stopping y a (B_complete w) k" and u: "f_inv (world y a (B_complete w) k)"
  shows "f_stopping z a (B_complete w') k"
proof (cases "\<exists>d. w = CW_deliver d \<and> d \<noteq> D_end")
  case True
  then obtain d d' where d: "w = CW_deliver d" "deliver_step free (deliver_to (fy_state y)) d y = Some (d', z)" "w' = CW_deliver d'" using w by auto
  have dn: "fs_done (fy_state y)" using f_dataD(4) [OF f_invD(4) [OF u]] d(1) by blast
  note fr = deliver_frame [OF d(2)]
  show ?thesis using f_stoppingD [OF s] dn deliver_stop_flag [OF d(2)] unfolding f_stopping_def fr(1,2) d(3) by simp
next
  case False
  then have "fs_taken (fy_state z) = fs_taken (fy_state y)" "fy_consumer z = fy_consumer y" "fs_done (fy_state y) \<longrightarrow> fs_done (fy_state z)"
    "b_pending (B_complete w') \<Longrightarrow> b_pending (B_complete w) \<and> fs_done (fy_state z) = fs_done (fy_state y)"
    using w by (cases w; auto simp: complete_store_def unref_if_def split: if_splits)+
  then show ?thesis using f_stoppingD [OF s] complete_stop_flag [OF w] unfolding f_stopping_def by auto
qed

lemma stopping_stopper:
  assumes t: "try_cancel_step free t y = Some (t', z)" and s: "f_stopping y a b (K_run t)" and u: "f_inv (world y a b (K_run t))"
  shows "f_stopping z a b (K_run t')"
proof (cases t)
  case TC_stop
  then show ?thesis using t f_stoppingD [OF s] unfolding f_stopping_def by (auto simp: fs_request_stop_def)
next
  case TC_store
  then show ?thesis using t f_stoppingD [OF s] unfolding f_stopping_def by (auto simp: try_cancel_store_def split: if_splits)
next
  case (TC_deliver d)
  have dn: "fs_done (fy_state y)" using f_dataD(5) [OF f_invD(4) [OF u]] TC_deliver by blast
  show ?thesis
  proof (cases "d = D_end")
    case True
    then show ?thesis using t TC_deliver f_stoppingD [OF s] unfolding f_stopping_def by simp
  next
    case False
    then obtain d' where d: "deliver_step free (deliver_to (fy_state y)) d y = Some (d', z)" "t' = TC_deliver d'" using t TC_deliver by auto
    show ?thesis using dn d(2) by (intro stopping_deliver [OF d(1) s]) simp_all
  qed
qed (use t in simp)

lemma stopping_owner_cancel:
  assumes t: "try_cancel_step free t y = Some (t', z)" and s: "f_stopping y (A_try t) b k" and u: "f_inv (world y (A_try t) b k)"
  shows "f_stopping z (A_try t') b k"
proof (cases t)
  case TC_stop
  then show ?thesis using t f_stoppingD [OF s] unfolding f_stopping_def by (auto simp: fs_request_stop_def)
next
  case TC_store
  then show ?thesis using t f_stoppingD [OF s] unfolding f_stopping_def by (auto simp: try_cancel_store_def split: if_splits)
qed (use t f_inv_shape [OF u] in auto)

lemma stopping_owner_complete:
  assumes t: "complete_step free w y = Some (w', z)" and s: "f_stopping y (A_complete h w) b k" and u: "f_inv (world y (A_complete h w) b k)"
  shows "f_stopping z (A_complete h w') b k"
proof -
  have b: "b = B_none" using f_lifeD(2) [OF f_invD(3) [OF u]] by auto
  have "\<forall>d. w \<noteq> CW_deliver d" using f_inv_shape [OF u] by simp
  then have "fs_taken (fy_state z) = fs_taken (fy_state y)"
    using t by (cases w) (auto simp: complete_store_def unref_if_def split: if_splits)
  then show ?thesis using f_stoppingD [OF s] complete_stop_flag [OF t] b unfolding f_stopping_def by simp
qed

lemma stopping_tell:
  assumes d: "deliver_step free r d y = Some (d', z)" and s: "f_stopping y (A_tell t d) b k"
  shows "f_stopping z (A_tell t d') b k"
proof -
  note fr = deliver_frame [OF d]
  show ?thesis using f_stoppingD [OF s] deliver_stop_flag [OF d] unfolding f_stopping_def fr(1,2) by simp
qed

lemma stopping_after_telling:
  assumes s: "f_stopping y (A_tell t D_end) b k" and u: "f_inv (world y (A_tell t D_end) b k)"
  shows "f_stopping y (after_telling t) b k"
  using f_stoppingD [OF s] f_inv_shape [OF u] unfolding f_stopping_def by (cases t) auto

lemma stopping_owner:
  assumes "a_work k y a z a'" "f_stopping y a b k" "f_inv (world y a b k)"
  shows "f_stopping z a' b k"
  using assms
proof (induction rule: a_work.induct)
  case (complete w y w' z h)
  then show ?case by (rule stopping_owner_complete)
next
  case (cancel t y t' z)
  then show ?case by (rule stopping_owner_cancel)
next
  case (tell t y d d' z)
  then show ?case by (blast intro: stopping_tell)
next
  case (telling_end y t)
  then show ?case by (rule stopping_after_telling)
next
  case (abandon y stop s d)
  then show ?case using f_stoppingD [OF abandon(2)] unfolding f_stopping_def
    by (auto simp: abandon_unconsumed_def split: if_splits)
next
  case (abandon_stop y d)
  then show ?case unfolding f_stopping_def by (auto simp: fs_request_stop_def)
next
  case (consume y r s)
  then show ?case using f_stoppingD [OF consume(2)] f_rolesD(2) [OF f_invD(2) [OF consume(3)]] unfolding f_stopping_def
    by (auto simp: consume_def split: if_splits)
next
  case (detach y h c)
  then show ?case using f_stoppingD [OF detach(1)] f_inv_shape [OF detach(2)] unfolding f_stopping_def
    by (auto simp: detach_consumer_def)
next
  case (stop y h c)
  then show ?case using f_stoppingD [OF stop(1)] unfolding f_stopping_def by (auto simp: fs_request_stop_def)
next
  case (drop y h c)
  then show ?case using f_stoppingD [OF drop(1)] unfolding f_stopping_def by (auto simp: unref_if_def)
next
  case (destroyed y h)
  then show ?case using f_stoppingD [OF destroyed(1)] unfolding f_stopping_def by (auto simp: unref_if_def)
next
  case (consume_stop y)
  then show ?case unfolding f_stopping_def by (auto simp: fs_request_stop_def)
qed (auto simp: f_stopping_def)

lemma stopping_work: "f_work u v \<Longrightarrow> f_inv u \<Longrightarrow> f_stopping (fw_sys u) (fw_a u) (fw_b u) (fw_k u) \<Longrightarrow> f_stopping (fw_sys v) (fw_a v) (fw_b v) (fw_k v)"
proof (induction rule: f_work.induct)
  case (owner k y a z a' b)
  then show ?case using stopping_owner by simp
next
  case (source k w y w' z a)
  then show ?case using stopping_source by simp
next
  case (stopper t y t' z a b)
  then show ?case using stopping_stopper by simp
qed (simp_all add: f_stopping_def)

lemma stopping_step:
  assumes "f_step u v" "f_inv u" "f_stopping (fw_sys u) (fw_a u) (fw_b u) (fw_k u)"
  shows "f_stopping (fw_sys v) (fw_a v) (fw_b v) (fw_k v)"
  using assms
proof (induction rule: f_step.induct)
  case (work u v)
  then show ?case by (blast intro: stopping_work)
next
  case (env_stop y a b k)
  then show ?case unfolding f_stopping_def by (auto simp: fs_request_stop_def)
next
  case (spawn_not_associated y b k)
  then show ?case using f_lifeD(2,3,4) [OF f_invD(3) [OF spawn_not_associated(1)]] unfolding f_stopping_def
    by (auto simp: spawned_def fstate_new_def)
next
  case (spawn_start_throws y b k env e)
  then show ?case using f_lifeD(2,3,4) [OF f_invD(3) [OF spawn_start_throws(1)]] unfolding f_stopping_def
    by (auto simp: spawned_def fstate_new_def)
next
  case (spawn_start y b k env)
  then show ?case using f_lifeD(2,3,4) [OF f_invD(3) [OF spawn_start(1)]] unfolding f_stopping_def
    by (auto simp: spawned_def fstate_new_def)
qed (auto simp: f_stopping_def install_state_def)

lemma stopping_reachable: "f_reachable u \<Longrightarrow> f_stopping (fw_sys u) (fw_a u) (fw_b u) (fw_k u)"
proof (induction rule: f_reachable.induct)
  case init
  show ?case by (simp add: f_stopping_def fworld_init_def fstate_new_def)
next
  case (step u v)
  then show ?case using stopping_step inv_reachable by blast
qed

section \<open>The work ends\<close>

fun d_weight :: "dpc \<Rightarrow> nat" where
  "d_weight D_begin = 4" | "d_weight (D_reset b) = 3" | "d_weight (D_signal b) = 2" | "d_weight (D_drop b) = 1" | "d_weight D_end = 0"

fun cw_weight :: "('v, 'e) cwpc \<Rightarrow> nat" where
  "cw_weight (CW_env alt x) = 10" | "cw_weight (CW_store alt x) = 9" | "cw_weight (CW_deliver d) = 4 + d_weight d"
| "cw_weight CW_keep = 3" | "cw_weight (CW_drop b) = 2" | "cw_weight CW_end = 1"

fun tc_weight :: "tcpc \<Rightarrow> nat" where
  "tc_weight TC_stop = 8" | "tc_weight TC_store = 7" | "tc_weight (TC_deliver d) = 2 + d_weight d" | "tc_weight TC_end = 1"

fun a_weight :: "('v, 'e) apc \<Rightarrow> nat" where
  "a_weight (A_complete h w) = cw_weight w" | "a_weight (A_try t) = 30 + tc_weight t" | "a_weight A_emplace = 30" | "a_weight A_consume = 29"
| "a_weight (A_tell t d) = 20 + d_weight d" | "a_weight (A_abandon d) = 15" | "a_weight (A_abandon_stop d) = 14"
| "a_weight (A_abandoned d) = 13" | "a_weight A_consume_stop = 12" | "a_weight A_return = 11" | "a_weight (A_destroy h) = 10"
| "a_weight (A_detach h b) = 9" | "a_weight (A_reset h b) = 8" | "a_weight (A_stop h b) = 7" | "a_weight (A_drop h b) = 6"
| "a_weight (A_destroyed h) = 5" | "a_weight a = 0"

fun b_weight :: "('v, 'e) bpc \<Rightarrow> nat" where
  "b_weight (B_complete w) = cw_weight w" | "b_weight b = 0"

fun k_weight :: "kpc \<Rightarrow> nat" where
  "k_weight (K_run t) = tc_weight t" | "k_weight k = 0"

definition f_left :: "('v, 'e) fworld \<Rightarrow> nat" where
  "f_left u = a_weight (fw_a u) + b_weight (fw_b u) + k_weight (fw_k u)"

lemma deliver_less: "deliver_step free r d y = Some (d', z) \<Longrightarrow> d_weight d' < d_weight d"
  by (cases d) (auto split: if_splits)

lemma complete_less: "complete_step free w y = Some (w', z) \<Longrightarrow> cw_weight w' < cw_weight w"
  by (cases w) (auto simp: complete_store_def dest: deliver_less split: if_splits)

lemma try_cancel_less: "try_cancel_step free t y = Some (t', z) \<Longrightarrow> tc_weight t' < tc_weight t"
  by (cases t) (auto simp: try_cancel_store_def dest: deliver_less split: if_splits)

lemma owner_less: "a_work k y a z a' \<Longrightarrow> a_weight a' < a_weight a"
proof (induction rule: a_work.induct)
  case (consume y r s)
  then show ?case by (cases r) simp_all
next
  case (telling_end y t)
  then show ?case by (cases t) simp_all
qed (auto dest: complete_less try_cancel_less deliver_less)

lemma work_less: "f_work u v \<Longrightarrow> f_left v < f_left u"
  by (induction rule: f_work.induct) (auto simp: f_left_def dest: owner_less complete_less try_cancel_less)

interpretation fww: draining f_inv f_work f_left
  by unfold_locales (blast intro: inv_work work_less)+

text \<open>No thread is stuck inside a function.\<close>

lemma deliver_enabled: "d = D_end \<or> (\<exists>d' z. deliver_step True r d y = Some (d', z))"
  by (cases d) auto

lemma complete_enabled: "w = CW_end \<or> (\<exists>w' z. complete_step True w y = Some (w', z))"
  using deliver_enabled [of _ "deliver_to (fy_state y)" y]
  by (cases w) (auto simp: complete_store_def split: prod.splits, metis)

lemma try_cancel_enabled: "t = TC_end \<or> (\<exists>t' z. try_cancel_step True t y = Some (t', z))"
  using deliver_enabled [of _ "deliver_to (fy_state y)" y]
  by (cases t) (auto simp: try_cancel_store_def split: prod.splits, metis)

definition a_resting :: "('v, 'e) apc \<Rightarrow> bool" where
  "a_resting a \<longleftrightarrow> a \<in> {A_spawn, A_threw, A_sender, A_op, A_started, A_end}"

lemma owner_enabled: "k_free k \<Longrightarrow> a_resting a \<or> (\<exists>z a'. a_work k y a z a')"
proof (cases a)
  case (A_complete h w)
  assume k: "k_free k"
  from complete_enabled [of w y] show ?thesis
  proof
    assume "w = CW_end"
    then show ?thesis using A_complete a_work.completed by blast
  next
    assume "\<exists>w' z. complete_step True w y = Some (w', z)"
    then show ?thesis unfolding A_complete using a_work.complete [of k w y] k by (metis (full_types))
  qed
next
  case (A_try t)
  assume k: "k_free k"
  from try_cancel_enabled [of t y] show ?thesis
  proof
    assume "t = TC_end"
    then show ?thesis using A_try a_work.cancelled by blast
  next
    assume "\<exists>t' z. try_cancel_step True t y = Some (t', z)"
    then show ?thesis unfolding A_try using a_work.cancel [of k t y] k by (metis (full_types))
  qed
next
  case (A_tell t d)
  assume k: "k_free k"
  from deliver_enabled [of d "told t y" y] show ?thesis
  proof
    assume "d = D_end"
    then show ?thesis using A_tell a_work.telling_end by blast
  next
    assume "\<exists>d' z. deliver_step True (told t y) d y = Some (d', z)"
    then show ?thesis unfolding A_tell using a_work.tell [of k t y d] k by (metis (full_types))
  qed
next
  case (A_abandoned d)
  then show ?thesis using a_work.abandoned_sender a_work.abandoned_op a_work.abandoned_install by (cases d) blast+
next
  case (A_abandon d)
  then show ?thesis using a_work.abandon [of y _ _ k d] by (metis surj_pair)
next
  case A_consume
  then show ?thesis using a_work.consume [of y _ _ k] by (metis surj_pair)
next
  case (A_destroy h)
  then show ?thesis using a_work.destroy_active a_work.destroy_inactive by blast
qed (auto simp: a_resting_def intro: a_work.intros)

lemma at_rest:
  assumes "\<forall>v. \<not> f_work (world y a b k) v"
  shows "a_resting a" "b \<in> {B_none, B_running, B_end}" "k \<in> {K_idle, K_end}"
proof -
  show k: "k \<in> {K_idle, K_end}"
  proof (cases k)
    case (K_run t)
    then show ?thesis using assms try_cancel_enabled [of t y] f_work.stopper [of t y] f_work.stopper_end by blast
  qed simp_all
  then have free: "k_free k" by auto
  then show "a_resting a" using owner_enabled [of k a y] assms f_work.owner by blast
  show "b \<in> {B_none, B_running, B_end}"
  proof (cases b)
    case (B_complete w)
    then show ?thesis using assms free complete_enabled [of w y] f_work.source [of k w y] f_work.source_end by simp blast
  qed simp_all
qed

section \<open>What spawn_future guarantees\<close>

text \<open>Where a thread uses the shared state; the running work lives inside it.\<close>

fun a_uses :: "('v, 'e) apc \<Rightarrow> bool" where
  "a_uses (A_complete h w) = True" | "a_uses A_sender = True" | "a_uses A_op = True" | "a_uses (A_abandon d) = True"
| "a_uses (A_abandon_stop d) = True" | "a_uses (A_try t) = True" | "a_uses A_emplace = True" | "a_uses A_consume = True"
| "a_uses (A_tell t d) = True" | "a_uses A_consume_stop = True" | "a_uses (A_detach h b) = b" | "a_uses (A_stop h b) = b" | "a_uses a = False"

fun b_uses :: "('v, 'e) bpc \<Rightarrow> bool" where
  "b_uses B_running = True" | "b_uses (B_complete w) = True" | "b_uses b = False"

fun k_uses :: "kpc \<Rightarrow> bool" where
  "k_uses (K_run t) = True" | "k_uses k = False"

lemma uses_alive:
  assumes u: "f_inv (world y a b k)" and s: "a_uses a \<or> b_uses b \<or> k_uses k"
  shows "\<not> fs_freed (fy_state y)"
proof -
  have "a_uses a \<Longrightarrow> 0 < a_refs a" by (cases a) auto
  moreover have "b_uses b \<Longrightarrow> 0 < b_refs b \<or> b = B_running" by (cases b) auto
  moreover have "k_uses k \<Longrightarrow> 0 < k_refs k" by (cases k) auto
  ultimately have "b = B_running \<or> 0 < f_holders y a b k" using s unfolding f_holders_def by auto
  then show ?thesis using running_alive(1) u f_countD(1,2) [OF f_invD(1) [OF u]] by auto
qed

text \<open>Once the work is over and nobody does anything: a started operation has been completed, and nothing leaks.\<close>

lemma rest_delivered:
  assumes u: "f_inv (world y A_started b k)" and r: "b \<in> {B_none, B_end}" "k \<in> {K_idle, K_end}"
  shows "length (co_out (fy_consumer y)) = 1"
proof -
  note R = f_rolesD [OF f_invD(2) [OF u]] and L = f_lifeD [OF f_invD(3) [OF u]]
  have z: "b_token b = 0" "k_token k = 0" "b_win b = 0" "k_win k = 0" "\<not> b_pending b" using r by auto
  have "\<not> co_active (fy_consumer y)"
  proof
    assume "co_active (fy_consumer y)"
    then have "fs_callback (fy_state y)" using R(6) z by (cases "fs_callback (fy_state y)") (simp_all add: f_tokens_def)
    then show False using L(5,6) z by simp
  qed
  then show ?thesis using R(9) z by (simp add: f_wins_def)
qed

lemma rest_freed:
  assumes u: "f_inv (world y A_end b k)" and r: "b \<in> {B_none, B_end}" "k \<in> {K_idle, K_end}"
  shows "fs_freed (fy_state y)" "fs_assoc (fy_state y) \<noteq> As_held"
proof -
  note C = f_countD [OF f_invD(1) [OF u]]
  have "\<not> fs_keep (fy_state y)" using f_lifeD(1) [OF f_invD(3) [OF u]] r by auto
  moreover have "\<not> co_state (fy_consumer y)" using f_rolesD(1) [OF f_invD(2) [OF u]] by simp
  ultimately have "fs_refs (fy_state y) = 0" using C(1) r by (auto simp: f_holders_def)
  then show "fs_freed (fy_state y)" using C(2) by simp
  then show "fs_assoc (fy_state y) \<noteq> As_held" using C(4) by blast
qed

lemma source_assoc:
  assumes u: "f_inv (world y a b k)" and b: "b_uses b"
  shows "fs_assoc (fy_state y) = As_held"
proof -
  have "b \<noteq> B_none" using b by auto
  then have "fs_assoc (fy_state y) \<noteq> As_none" using f_lifeD(2) [OF f_invD(3) [OF u]] by blast
  then show ?thesis using f_countD(3) [OF f_invD(1) [OF u]] uses_alive [OF u] b by (cases "fs_assoc (fy_state y)") auto
qed

lemma abandoned_stopped: "f_reachable (world y A_end B_running k) \<Longrightarrow> fs_stop (fy_state y)"
  using f_stoppingD(1,4) [of y A_end B_running k] stopping_reachable [of "world y A_end B_running k"] by auto

subsection \<open>A run\<close>

text \<open>One way for the owner to go on, and one for the work, for concrete runs.\<close>

fun owner_exec :: "kpc \<Rightarrow> ('v, 'e) fsys \<Rightarrow> ('v, 'e) apc \<Rightarrow> (('v, 'e) fsys \<times> ('v, 'e) apc) option" where
  "owner_exec k y A_emplace = Some (upd_consumer (\<lambda>c. c\<lparr>co_callback := FB_registered\<rparr>) y, A_consume)"
| "owner_exec k y A_consume = (case consume (fy_state y) of (r, s) \<Rightarrow> Some (y\<lparr>fy_state := s\<rparr>, after_consume r))"
| "owner_exec k y (A_tell t d) = (case d of D_end \<Rightarrow> Some (y, after_telling t)
     | _ \<Rightarrow> (case deliver_step (k_free k) (told t y) d y of None \<Rightarrow> None | Some (d', z) \<Rightarrow> Some (z, A_tell t d')))"
| "owner_exec k y A_return = Some (upd_state unref y, A_started)"
| "owner_exec k y (A_destroy h) = (if co_active (fy_consumer y) then None else Some (y, A_destroyed h))"
| "owner_exec k y (A_destroyed h) = Some (upd_state (unref_if h) y, A_end)"
| "owner_exec k y a = None"

lemma owner_exec_work: "owner_exec k y a = Some (z, a') \<Longrightarrow> a_work k y a z a'"
  by (cases "(k, y, a)" rule: owner_exec.cases)
    (auto split: prod.splits dpc.splits option.splits if_splits intro: a_work.intros simp del: deliver_step.simps)

datatype ('v, 'e) fact = X_spawn | X_connect | X_start | X_destroy | X_complete "('v, 'e) fsignal" | X_owner | X_source

definition f_exec :: "('v, 'e) fact \<Rightarrow> ('v, 'e) fsys \<Rightarrow> ('v, 'e) apc \<Rightarrow> ('v, 'e) bpc \<Rightarrow> kpc \<Rightarrow> ('v, 'e) fworld option" where
  "f_exec x y a b k =
     (case x of
        X_spawn \<Rightarrow> (case a of A_spawn \<Rightarrow> Some (world (spawned True False None y) A_sender B_running k) | _ \<Rightarrow> None)
      | X_connect \<Rightarrow> (case a of A_sender \<Rightarrow> Some (world y A_op b k) | _ \<Rightarrow> None)
      | X_start \<Rightarrow> (case a of A_op \<Rightarrow> Some (world (install_state y) A_emplace b k) | _ \<Rightarrow> None)
      | X_destroy \<Rightarrow> (case a of A_started \<Rightarrow> Some (world y (A_destroy False) b k) | _ \<Rightarrow> None)
      | X_complete sig \<Rightarrow>
          (case b of
             B_running \<Rightarrow>
               (if fs_freed (fy_state y) then None
                else Some (world ((upd_state addref y)\<lparr>fy_given := Some (inner_receive sig, None)\<rparr>) a
                       (B_complete (CW_env (inner_receive sig) None)) k))
           | _ \<Rightarrow> None)
      | X_owner \<Rightarrow> (case owner_exec k y a of None \<Rightarrow> None | Some (z, a') \<Rightarrow> Some (world z a' b k))
      | X_source \<Rightarrow>
          (case b of
             B_complete w \<Rightarrow>
               (case w of
                  CW_end \<Rightarrow> Some (world (upd_state unref y) a B_end k)
                | _ \<Rightarrow> (case complete_step (k_free k) w y of None \<Rightarrow> None | Some (w', z) \<Rightarrow> Some (world z a (B_complete w') k)))
           | _ \<Rightarrow> None))"

lemma f_exec_step: "f_exec x y a b k = Some v \<Longrightarrow> f_step (world y a b k) v"
  unfolding f_exec_def
  by (cases x)
    (auto split: apc.splits bpc.splits cwpc.splits option.splits if_splits intro: f_step.intros f_work.intros owner_exec_work
      simp del: complete_step.simps)

fun f_run :: "('v, 'e) fact list \<Rightarrow> ('v, 'e) fworld \<Rightarrow> ('v, 'e) fworld option" where
  "f_run [] u = Some u"
| "f_run (x # xs) u = (case f_exec x (fw_sys u) (fw_a u) (fw_b u) (fw_k u) of None \<Rightarrow> None | Some v \<Rightarrow> f_run xs v)"

lemma f_run_reachable: "f_run xs u = Some v \<Longrightarrow> f_reachable u \<Longrightarrow> f_reachable v"
proof (induction xs arbitrary: u)
  case (Cons x xs)
  then obtain w where w: "f_exec x (fw_sys u) (fw_a u) (fw_b u) (fw_k u) = Some w" "f_run xs w = Some v" by (auto split: option.splits)
  have "f_step u w" using f_exec_step [OF w(1)] by (cases u) simp
  then show ?case using Cons.IH [OF w(2)] f_reachable.step [OF Cons.prems(2)] by blast
qed simp

text \<open>The work completes with a value after the operation has been started; then the operation is destroyed.\<close>

definition future_demo_acts :: "(nat, nat) fact list" where
  "future_demo_acts = [X_spawn, X_connect, X_start, X_owner, X_owner, X_owner, X_complete (FS_value [7])] @ replicate 10 X_source @
     [X_destroy, X_owner, X_owner]"

definition demo_future :: "(nat, nat) fworld" where
  "demo_future = the (f_run future_demo_acts fworld_init)"

lemma future_demo_run: "f_run future_demo_acts fworld_init = Some demo_future" "fw_a demo_future = A_end" "fw_b demo_future = B_end" "fw_k demo_future = K_idle"
proof -
  have "\<not> Option.is_none (f_run future_demo_acts fworld_init)" by code_simp
  then show "f_run future_demo_acts fworld_init = Some demo_future" by (simp add: demo_future_def Option.is_none_def)
  show "fw_a demo_future = A_end" by code_simp
  show "fw_b demo_future = B_end" by code_simp
  show "fw_k demo_future = K_idle" by code_simp
qed

text \<open>
  C33.  In every reachable state of \<open>spawn_future\<close>, whatever the order of the owner, the completing
  work and a stop request, and whatever throws: the receiver has been completed at most once, with
  the stored result or with an exception thrown by \<open>start\<close>; the stored result is what the work
  completed with, or stopped if the operation was cancelled first; no thread uses the shared state
  after it has been freed, and the association with the scope is held as long as the work is
  running or completing; work that has been abandoned has been asked to stop.  What is under way
  ends within \<open>f_left\<close> steps; and once the work is over and nothing is under way, a started operation
  has been completed, and if sender and operation are gone, the state has been freed and its
  association released.
\<close>

theorem spawn_future_safe:
  assumes "f_reachable (world y a b k)"
  shows "length (co_out (fy_consumer y)) \<le> 1 \<and>
    (\<forall>r\<in>set (co_out (fy_consumer y)). fs_result (fy_state y) = Some r \<or> (\<exists>e. fy_error y = Some e \<and> r = FR_error e)) \<and>
    (\<forall>r. fs_result (fy_state y) = Some r \<longrightarrow> fy_cancelled y \<and> r = FR_stopped \<or> (\<exists>alt x. fy_given y = Some (alt, x) \<and> r = stored_alt alt x)) \<and>
    (a_uses a \<or> b_uses b \<or> k_uses k \<longrightarrow> \<not> fs_freed (fy_state y)) \<and>
    (b_uses b \<longrightarrow> fs_assoc (fy_state y) = As_held) \<and>
    (a = A_end \<and> b = B_running \<longrightarrow> fs_stop (fy_state y)) \<and>
    (\<forall>n v. (f_work ^^ n) (world y a b k) v \<longrightarrow> n \<le> f_left (world y a b k)) \<and>
    ((\<forall>v. \<not> f_work (world y a b k) v) \<and> b \<noteq> B_running \<longrightarrow>
       (a = A_started \<longrightarrow> length (co_out (fy_consumer y)) = 1) \<and>
       (a = A_end \<longrightarrow> fs_freed (fy_state y) \<and> fs_assoc (fy_state y) \<noteq> As_held))"
proof (intro conjI)
  have u: "f_inv (world y a b k)" using assms by (rule inv_reachable)
  note D = f_dataD [OF f_invD(4) [OF u]]
  show "length (co_out (fy_consumer y)) \<le> 1" using f_rolesD(7) [OF f_invD(2) [OF u]] by (simp add: f_wins_def)
  show "\<forall>r\<in>set (co_out (fy_consumer y)). fs_result (fy_state y) = Some r \<or> (\<exists>e. fy_error y = Some e \<and> r = FR_error e)" using D(7) by blast
  show "\<forall>r. fs_result (fy_state y) = Some r \<longrightarrow> fy_cancelled y \<and> r = FR_stopped \<or> (\<exists>alt x. fy_given y = Some (alt, x) \<and> r = stored_alt alt x)"
    using D(6) by blast
  show "a_uses a \<or> b_uses b \<or> k_uses k \<longrightarrow> \<not> fs_freed (fy_state y)" using uses_alive [OF u] by blast
  show "b_uses b \<longrightarrow> fs_assoc (fy_state y) = As_held" using source_assoc [OF u] by blast
  show "a = A_end \<and> b = B_running \<longrightarrow> fs_stop (fy_state y)" using abandoned_stopped assms by blast
  show "\<forall>n v. (f_work ^^ n) (world y a b k) v \<longrightarrow> n \<le> f_left (world y a b k)" using fww.works_bounded [OF _ u] by fastforce
  show "(\<forall>v. \<not> f_work (world y a b k) v) \<and> b \<noteq> B_running \<longrightarrow>
       (a = A_started \<longrightarrow> length (co_out (fy_consumer y)) = 1) \<and>
       (a = A_end \<longrightarrow> fs_freed (fy_state y) \<and> fs_assoc (fy_state y) \<noteq> As_held)"
    using at_rest [of y a b k] rest_delivered [of y b k] rest_freed [of y b k] u by blast
qed

theorem spawn_future_safe_witness:
  "(\<exists>y. demo_future = world y A_end B_end K_idle \<and> length (co_out (fy_consumer y)) \<le> 1 \<and>
     (\<forall>r\<in>set (co_out (fy_consumer y)). fs_result (fy_state y) = Some r \<or> (\<exists>e. fy_error y = Some e \<and> r = FR_error e))) \<and>
   co_out (fy_consumer (fw_sys demo_future)) = [FR_value [7]] \<and> fs_assoc (fy_state (fw_sys demo_future)) = As_released"
proof -
  have e: "demo_future = world (fw_sys demo_future) A_end B_end K_idle" using future_demo_run(2-4) by (simp add: fworld.equality)
  have "f_reachable (world (fw_sys demo_future) A_end B_end K_idle)"
    using f_run_reachable [OF future_demo_run(1) f_reachable.init] e by simp
  note spawn_future_safe [OF this]
  moreover have "co_out (fy_consumer (fw_sys demo_future)) = [FR_value [7]]" "fs_assoc (fy_state (fw_sys demo_future)) = As_released"
    by code_simp+
  ultimately show ?thesis using e by blast
qed

end
