(* ===== verification/Split.thy ===== *)
theory Split
  imports Progress
begin

text \<open>
  The sender algorithm \<open>split\<close> (\<open>backport/cpp26/execution/split.hpp\<close>): one source operation, started by
  the first subscriber, whose result is kept and delivered to any number of subscribers.

  A subscriber is the operation that is connected to a copy of the sender, identified by a number.
  Subscribers start, on any threads, before, while and after the source completes; every critical
  section of the shared state's mutex, every exchange of a subscriber's flag and every completion
  is one step.
\<close>

section \<open>The shared state\<close>

datatype ('v, 'e) split_result = SR_none | SR_value "'v list" | SR_error 'e | SR_stopped | SR_valueless

datatype split_phase = Ph_idle | Ph_running | Ph_done

record ('v, 'e) split_state =
  sp_phase :: split_phase
  sp_result :: "('v, 'e) split_result"
  sp_on_done :: "nat list"

definition split_state_new :: "('v, 'e) split_state" where
  "split_state_new = \<lparr>sp_phase = Ph_idle, sp_result = SR_none, sp_on_done = []\<rparr>"

text \<open>
  How the source completes; storing the values may throw \<open>x\<close>.  An error that is no exception pointer is
  made one.
\<close>

datatype ('v, 'e) split_signal = SS_value "'v list" "'e option" | SS_error 'e | SS_stopped

text \<open>The critical sections of the receiver of the source: the second is the handler of the first.\<close>

fun receive_store :: "('v, 'e) split_signal \<Rightarrow> ('v, 'e) split_state \<Rightarrow> 'e option \<times> ('v, 'e) split_state" where
  "receive_store (SS_value vs x) s =
     (case x of None \<Rightarrow> (None, s\<lparr>sp_result := SR_value vs, sp_phase := Ph_done\<rparr>) | Some e \<Rightarrow> (Some e, s\<lparr>sp_result := SR_valueless\<rparr>))"
| "receive_store (SS_error e) s = (None, s\<lparr>sp_result := SR_error e, sp_phase := Ph_done\<rparr>)"
| "receive_store SS_stopped s = (None, s\<lparr>sp_result := SR_stopped, sp_phase := Ph_done\<rparr>)"

definition receive_catch :: "'e \<Rightarrow> ('v, 'e) split_state \<Rightarrow> ('v, 'e) split_state" where
  "receive_catch e s = s\<lparr>sp_result := SR_error e, sp_phase := Ph_done\<rparr>"

definition notify_take :: "('v, 'e) split_state \<Rightarrow> nat list \<times> ('v, 'e) split_state" where
  "notify_take s = (sp_on_done s, s\<lparr>sp_on_done := []\<rparr>)"

text \<open>
  The critical section of \<open>start\<close> of subscriber \<open>i\<close>, in which storing the callback may throw \<open>x\<close>, and
  what the subscriber does after it.
\<close>

datatype 'e start_next = N_deliver | N_start_source | N_return | N_error 'e

definition start_section :: "nat \<Rightarrow> 'e option \<Rightarrow> ('v, 'e) split_state \<Rightarrow> 'e start_next \<times> ('v, 'e) split_state" where
  "start_section i x s =
     (case sp_phase s of
        Ph_done \<Rightarrow> (N_deliver, s)
      | Ph_idle \<Rightarrow>
          (case x of
             None \<Rightarrow> (N_start_source, s\<lparr>sp_phase := Ph_running, sp_on_done := sp_on_done s @ [i]\<rparr>)
           | Some e \<Rightarrow> (N_deliver, s\<lparr>sp_result := SR_error e, sp_phase := Ph_done\<rparr>))
      | Ph_running \<Rightarrow>
          (case x of
             None \<Rightarrow> (N_return, s\<lparr>sp_on_done := sp_on_done s @ [i]\<rparr>)
           | Some e \<Rightarrow> (N_error e, s)))"

text \<open>What a subscriber is told; \<open>SO_terminate\<close> is the call of \<open>terminate\<close>.\<close>

datatype ('v, 'e) split_output = SO_value "'v list" | SO_error 'e | SO_stopped | SO_terminate

fun deliver_result :: "('v, 'e) split_result \<Rightarrow> ('v, 'e) split_output" where
  "deliver_result SR_none = SO_terminate"
| "deliver_result (SR_value vs) = SO_value vs"
| "deliver_result (SR_error e) = SO_error e"
| "deliver_result SR_stopped = SO_stopped"
| "deliver_result SR_valueless = SO_terminate"

section \<open>Subscribers and source\<close>

text \<open>
  Where a subscriber is: not started, in \<open>start\<close> (about to construct its callback, about to lock, about
  to tell the receiver after the exchange of its flag, about to start the source), returned, or
  destroyed.
\<close>

datatype 'e spc = S_new | S_construct | S_lock | S_deliver | S_deliver_won | S_error 'e | S_error_won 'e
  | S_start_source | S_returned | S_destroyed

text \<open>
  Where the source is: not started, running, completing, and calling the callbacks it has taken, one
  after the other.
\<close>

datatype ('v, 'e) srcpc = Q_idle | Q_running | Q_store "('v, 'e) split_signal" | Q_catch 'e | Q_notify
  | Q_call "nat list" | Q_won nat "nat list" | Q_end

text \<open>\<open>sy_starts\<close> counts how often the source has been started; \<open>sy_error\<close> has what registering a subscriber threw.\<close>

record ('v, 'e) split_sys =
  sy_state :: "('v, 'e) split_state"
  sy_active :: "nat \<Rightarrow> bool"
  sy_pc :: "nat \<Rightarrow> 'e spc"
  sy_src :: "('v, 'e) srcpc"
  sy_out :: "(nat \<times> ('v, 'e) split_output) list"
  sy_starts :: nat
  sy_error :: "nat \<Rightarrow> 'e option"

definition split_init :: "('v, 'e) split_sys" where
  "split_init = \<lparr>sy_state = split_state_new, sy_active = (\<lambda>_. True), sy_pc = (\<lambda>_. S_new), sy_src = Q_idle, sy_out = [], sy_starts = 0,
     sy_error = (\<lambda>_. None)\<rparr>"

fun after_section :: "'e start_next \<Rightarrow> 'e spc" where
  "after_section N_deliver = S_deliver"
| "after_section N_start_source = S_start_source"
| "after_section N_return = S_returned"
| "after_section (N_error e) = S_error e"

abbreviation set_pc :: "nat \<Rightarrow> 'e spc \<Rightarrow> ('v, 'e) split_sys \<Rightarrow> ('v, 'e) split_sys" where
  "set_pc i p y \<equiv> y\<lparr>sy_pc := (sy_pc y)(i := p)\<rparr>"

abbreviation clear_active :: "nat \<Rightarrow> ('v, 'e) split_sys \<Rightarrow> ('v, 'e) split_sys" where
  "clear_active i y \<equiv> y\<lparr>sy_active := (sy_active y)(i := False)\<rparr>"

text \<open>What subscribers and source do by themselves.\<close>

inductive split_work :: "('v, 'e) split_sys \<Rightarrow> ('v, 'e) split_sys \<Rightarrow> bool" where
  construct: "sy_pc y i = S_construct \<Longrightarrow> split_work y (set_pc i S_lock y)"
| construct_throws: "sy_pc y i = S_construct \<Longrightarrow> split_work y ((set_pc i (S_error e) y)\<lparr>sy_error := (sy_error y)(i := Some e)\<rparr>)"
| lock: "sy_pc y i = S_lock \<Longrightarrow> start_section i x (sy_state y) = (n, s) \<Longrightarrow>
     split_work y (set_pc i (after_section n) (y\<lparr>sy_state := s, sy_error := (case n of N_error e \<Rightarrow> (sy_error y)(i := Some e) | _ \<Rightarrow> sy_error y)\<rparr>))"
| deliver: "sy_pc y i = S_deliver \<Longrightarrow>
     split_work y (if sy_active y i then set_pc i S_deliver_won (clear_active i y) else set_pc i S_returned y)"
| delivered: "sy_pc y i = S_deliver_won \<Longrightarrow>
     split_work y ((set_pc i S_returned y)\<lparr>sy_out := sy_out y @ [(i, deliver_result (sp_result (sy_state y)))]\<rparr>)"
| error: "sy_pc y i = S_error e \<Longrightarrow>
     split_work y (if sy_active y i then set_pc i (S_error_won e) (clear_active i y) else set_pc i S_returned y)"
| errored: "sy_pc y i = S_error_won e \<Longrightarrow> split_work y ((set_pc i S_returned y)\<lparr>sy_out := sy_out y @ [(i, SO_error e)]\<rparr>)"
| start_source: "sy_pc y i = S_start_source \<Longrightarrow>
     split_work y ((set_pc i S_returned y)\<lparr>sy_src := Q_running, sy_starts := sy_starts y + 1\<rparr>)"
| store: "sy_src y = Q_store sig \<Longrightarrow> receive_store sig (sy_state y) = (x, s) \<Longrightarrow>
     split_work y (y\<lparr>sy_state := s, sy_src := (case x of None \<Rightarrow> Q_notify | Some e \<Rightarrow> Q_catch e)\<rparr>)"
| catch: "sy_src y = Q_catch e \<Longrightarrow> split_work y (y\<lparr>sy_state := receive_catch e (sy_state y), sy_src := Q_notify\<rparr>)"
| notify: "sy_src y = Q_notify \<Longrightarrow> notify_take (sy_state y) = (cbs, s) \<Longrightarrow> split_work y (y\<lparr>sy_state := s, sy_src := Q_call cbs\<rparr>)"
| call: "sy_src y = Q_call (i # cbs) \<Longrightarrow>
     split_work y (if sy_active y i then (clear_active i y)\<lparr>sy_src := Q_won i cbs\<rparr> else y\<lparr>sy_src := Q_call cbs\<rparr>)"
| called: "sy_src y = Q_won i cbs \<Longrightarrow>
     split_work y (y\<lparr>sy_src := Q_call cbs, sy_out := sy_out y @ [(i, deliver_result (sp_result (sy_state y)))]\<rparr>)"
| notified: "sy_src y = Q_call [] \<Longrightarrow> split_work y (y\<lparr>sy_src := Q_end\<rparr>)"

text \<open>
  A subscriber is started, or its operation destroyed, which clears the flag; the source completes.
\<close>

inductive split_step :: "('v, 'e) split_sys \<Rightarrow> ('v, 'e) split_sys \<Rightarrow> bool" where
  start: "sy_pc y i = S_new \<Longrightarrow> split_step y (set_pc i S_construct y)"
| destroy: "sy_pc y i = S_new \<or> sy_pc y i = S_returned \<Longrightarrow> split_step y (set_pc i S_destroyed (clear_active i y))"
| source_completes: "sy_src y = Q_running \<Longrightarrow> split_step y (y\<lparr>sy_src := Q_store sig\<rparr>)"
| work: "split_work y z \<Longrightarrow> split_step y z"

inductive split_reachable :: "('v, 'e) split_sys \<Rightarrow> bool" where
  init: "split_reachable split_init"
| step: "split_reachable y \<Longrightarrow> split_step y z \<Longrightarrow> split_reachable z"

section \<open>The invariant\<close>

fun early :: "'e spc \<Rightarrow> bool" where
  "early S_new = True" | "early S_construct = True" | "early S_lock = True" | "early p = False"

fun tell_pc :: "'e spc \<Rightarrow> nat" where
  "tell_pc S_deliver = 1" | "tell_pc (S_error e) = 1" | "tell_pc p = 0"

fun tell_won :: "'e spc \<Rightarrow> nat" where
  "tell_won S_deliver_won = 1" | "tell_won (S_error_won e) = 1" | "tell_won p = 0"

fun q_list :: "('v, 'e) srcpc \<Rightarrow> nat list" where
  "q_list (Q_call cbs) = cbs" | "q_list (Q_won i cbs) = cbs" | "q_list q = []"

fun q_won :: "('v, 'e) srcpc \<Rightarrow> nat \<Rightarrow> nat" where
  "q_won (Q_won j cbs) i = of_bool (i = j)" | "q_won q i = 0"

text \<open>Who will tell subscriber \<open>i\<close>, who is about to, and what it has been told.\<close>

definition tok :: "('v, 'e) split_sys \<Rightarrow> nat \<Rightarrow> nat" where
  "tok y i = count_list (sp_on_done (sy_state y)) i + count_list (q_list (sy_src y)) i + tell_pc (sy_pc y i)"

definition outs :: "('v, 'e) split_sys \<Rightarrow> nat \<Rightarrow> nat" where
  "outs y i = length (filter (\<lambda>p. fst p = i) (sy_out y))"

definition won :: "('v, 'e) split_sys \<Rightarrow> nat \<Rightarrow> nat" where
  "won y i = tell_won (sy_pc y i) + q_won (sy_src y) i + outs y i"

definition sub_ok :: "bool \<Rightarrow> 'e spc \<Rightarrow> nat \<Rightarrow> nat \<Rightarrow> bool" where
  "sub_ok act p t w \<longleftrightarrow> t \<le> 1 \<and> w \<le> 1 \<and> (act \<longrightarrow> w = 0) \<and> (early p \<longrightarrow> act \<and> t = 0) \<and>
     (\<not> early p \<and> p \<noteq> S_destroyed \<longrightarrow> (if act then t = 1 else w = 1)) \<and> (p = S_destroyed \<longrightarrow> \<not> act)"

fun q_busy :: "('v, 'e) srcpc \<Rightarrow> bool" where
  "q_busy Q_running = True" | "q_busy (Q_store sig) = True" | "q_busy (Q_catch e) = True" | "q_busy q = False"

definition phase_ok :: "('v, 'e) split_state \<Rightarrow> ('v, 'e) srcpc \<Rightarrow> (nat \<Rightarrow> 'e spc) \<Rightarrow> nat \<Rightarrow> bool" where
  "phase_ok s q f n \<longleftrightarrow>
     (case sp_phase s of
        Ph_idle \<Rightarrow> sp_on_done s = [] \<and> q = Q_idle \<and> (\<forall>i. f i \<noteq> S_start_source) \<and> n = 0
      | Ph_running \<Rightarrow> sp_on_done s \<noteq> [] \<and>
          (q = Q_idle \<and> n = 0 \<and> (\<exists>i. \<forall>j. f j = S_start_source \<longleftrightarrow> j = i) \<or> q_busy q \<and> n = 1 \<and> (\<forall>i. f i \<noteq> S_start_source))
      | Ph_done \<Rightarrow> sp_result s \<noteq> SR_none \<and> sp_result s \<noteq> SR_valueless \<and> \<not> q_busy q \<and> n = of_bool (q \<noteq> Q_idle) \<and>
          (\<forall>i. f i \<noteq> S_start_source) \<and> (q \<noteq> Q_notify \<longrightarrow> sp_on_done s = []))"

fun pc_ok :: "('v, 'e) split_state \<Rightarrow> 'e option \<Rightarrow> 'e spc \<Rightarrow> bool" where
  "pc_ok s x S_deliver \<longleftrightarrow> sp_phase s = Ph_done" | "pc_ok s x S_deliver_won \<longleftrightarrow> sp_phase s = Ph_done"
| "pc_ok s x (S_error e) \<longleftrightarrow> x = Some e" | "pc_ok s x (S_error_won e) \<longleftrightarrow> x = Some e" | "pc_ok s x p = True"

definition out_ok :: "('v, 'e) split_sys \<Rightarrow> nat \<Rightarrow> ('v, 'e) split_output \<Rightarrow> bool" where
  "out_ok y i r \<longleftrightarrow> sp_phase (sy_state y) = Ph_done \<and> r = deliver_result (sp_result (sy_state y)) \<or>
     (\<exists>e. sy_error y i = Some e \<and> r = SO_error e)"

fun spc_weight :: "'e spc \<Rightarrow> nat" where
  "spc_weight S_new = 0" | "spc_weight S_construct = 5" | "spc_weight S_lock = 4" | "spc_weight S_deliver = 2" | "spc_weight S_deliver_won = 1"
| "spc_weight (S_error e) = 2" | "spc_weight (S_error_won e) = 1" | "spc_weight S_start_source = 1" | "spc_weight S_returned = 0"
| "spc_weight S_destroyed = 0"

definition split_inv :: "('v, 'e) split_sys \<Rightarrow> bool" where
  "split_inv y \<longleftrightarrow>
     (\<forall>i. sub_ok (sy_active y i) (sy_pc y i) (tok y i) (won y i)) \<and>
     phase_ok (sy_state y) (sy_src y) (sy_pc y) (sy_starts y) \<and>
     (\<forall>i. pc_ok (sy_state y) (sy_error y i) (sy_pc y i)) \<and>
     (\<forall>(i, r)\<in>set (sy_out y). out_ok y i r) \<and>
     (\<forall>i. early (sy_pc y i) \<longrightarrow> sy_error y i = None) \<and>
     finite {i. spc_weight (sy_pc y i) \<noteq> 0}"

lemma split_inv_init: "split_inv split_init"
  by (simp add: split_inv_def split_init_def split_state_new_def sub_ok_def tok_def won_def outs_def phase_ok_def)

lemma split_invD:
  assumes "split_inv y"
  shows "sub_ok (sy_active y i) (sy_pc y i) (tok y i) (won y i)" "phase_ok (sy_state y) (sy_src y) (sy_pc y) (sy_starts y)"
    "pc_ok (sy_state y) (sy_error y i) (sy_pc y i)" "(i, r) \<in> set (sy_out y) \<Longrightarrow> out_ok y i r" "early (sy_pc y i) \<Longrightarrow> sy_error y i = None"
    "finite {i. spc_weight (sy_pc y i) \<noteq> 0}"
  using assms unfolding split_inv_def by auto

lemma split_invI:
  assumes "\<And>i. sub_ok (sy_active y i) (sy_pc y i) (tok y i) (won y i)" "phase_ok (sy_state y) (sy_src y) (sy_pc y) (sy_starts y)"
    "\<And>i. pc_ok (sy_state y) (sy_error y i) (sy_pc y i)" "\<And>i r. (i, r) \<in> set (sy_out y) \<Longrightarrow> out_ok y i r"
    "\<And>i. early (sy_pc y i) \<Longrightarrow> sy_error y i = None" "finite {i. spc_weight (sy_pc y i) \<noteq> 0}"
  shows "split_inv y"
  using assms unfolding split_inv_def by auto

lemma finite_pc_upd: "finite {i :: nat. spc_weight (f i) \<noteq> 0} \<Longrightarrow> finite {i. spc_weight ((f(j := p)) i) \<noteq> 0}"
  by (rule weight_sum_upd(2))

text \<open>A subscriber goes on; the shared state, the source and what has been told stay.\<close>

lemma inv_sub:
  assumes y: "split_inv y" and z: "sy_state z = sy_state y" "sy_src z = sy_src y" "sy_starts z = sy_starts y" "sy_pc z = (sy_pc y)(i := p)"
      "sy_active z i = a" "sy_error z i = x"
      "\<And>j. j \<noteq> i \<Longrightarrow> outs z j = outs y j \<and> sy_active z j = sy_active y j \<and> sy_error z j = sy_error y j"
    and s: "sub_ok a p (tok z i) (won z i)" "pc_ok (sy_state y) x p" "early p \<Longrightarrow> x = None"
      "sy_pc y i \<noteq> S_start_source" "p \<noteq> S_start_source" "x = sy_error y i \<or> sy_error y i = None"
      "\<And>j r. (j, r) \<in> set (sy_out z) \<Longrightarrow> (j, r) \<in> set (sy_out y) \<or> out_ok z j r"
  shows "split_inv z"
proof (rule split_invI)
  note D = split_invD [OF y]
  show "sub_ok (sy_active z j) (sy_pc z j) (tok z j) (won z j)" for j
  proof (cases "j = i")
    case True
    then show ?thesis using s(1) z by simp
  next
    case False
    then have "tok z j = tok y j" "won z j = won y j" using z(7) [OF False] by (simp_all add: tok_def won_def z)
    then show ?thesis using D(1) [of j] z(7) [OF False] False by (simp add: z(4))
  qed
  show "phase_ok (sy_state z) (sy_src z) (sy_pc z) (sy_starts z)"
  proof -
    have e: "(sy_pc z j = S_start_source) = (sy_pc y j = S_start_source)" for j using s(4,5) by (simp add: z)
    show ?thesis using D(2) unfolding phase_ok_def z(1-3) e .
  qed
  show "pc_ok (sy_state z) (sy_error z j) (sy_pc z j)" for j using D(3) [of j] s(2) z(7) [of j] by (simp add: z(1,4,6))
  show "out_ok z j r" if "(j, r) \<in> set (sy_out z)" for j r
    using s(7) [OF that] D(4) [of j r] s(6) z(7) [of j] by (cases "j = i") (auto simp: out_ok_def z(1,6))
  show "sy_error z j = None" if "early (sy_pc z j)" for j
    using that D(5) [of j] s(3) z(7) [of j] by (auto simp: z(4,6) split: if_splits)
  show "finite {j. spc_weight (sy_pc z j) \<noteq> 0}" unfolding z(4) by (rule finite_pc_upd [OF D(6)])
qed

lemma inv_sub_steps:
  assumes y: "split_inv y"
  shows "sy_pc y i = S_new \<Longrightarrow> split_inv (set_pc i S_construct y)"
    "sy_pc y i = S_construct \<Longrightarrow> split_inv (set_pc i S_lock y)"
    "sy_pc y i = S_construct \<Longrightarrow> split_inv ((set_pc i (S_error e) y)\<lparr>sy_error := (sy_error y)(i := Some e)\<rparr>)"
    "sy_pc y i = S_new \<or> sy_pc y i = S_returned \<Longrightarrow> split_inv (set_pc i S_destroyed (clear_active i y))"
    "sy_pc y i = S_deliver \<Longrightarrow> split_inv (if sy_active y i then set_pc i S_deliver_won (clear_active i y) else set_pc i S_returned y)"
    "sy_pc y i = S_error e \<Longrightarrow> split_inv (if sy_active y i then set_pc i (S_error_won e) (clear_active i y) else set_pc i S_returned y)"
    "sy_pc y i = S_deliver_won \<Longrightarrow>
       split_inv ((set_pc i S_returned y)\<lparr>sy_out := sy_out y @ [(i, deliver_result (sp_result (sy_state y)))]\<rparr>)"
    "sy_pc y i = S_error_won e \<Longrightarrow> split_inv ((set_pc i S_returned y)\<lparr>sy_out := sy_out y @ [(i, SO_error e)]\<rparr>)"
proof -
  note D = split_invD(1,3,5) [OF y, of i]
  note ds = tok_def won_def outs_def sub_ok_def
  show "sy_pc y i = S_new \<Longrightarrow> split_inv (set_pc i S_construct y)"
    using D by (intro inv_sub [OF y, of _ i S_construct "sy_active y i" "sy_error y i"]) (auto simp: ds)
  show "sy_pc y i = S_construct \<Longrightarrow> split_inv (set_pc i S_lock y)"
    using D by (intro inv_sub [OF y, of _ i S_lock "sy_active y i" "sy_error y i"]) (auto simp: ds)
  show "sy_pc y i = S_construct \<Longrightarrow> split_inv ((set_pc i (S_error e) y)\<lparr>sy_error := (sy_error y)(i := Some e)\<rparr>)"
    using D by (intro inv_sub [OF y, of _ i "S_error e" "sy_active y i" "Some e"]) (auto simp: ds)
  show "sy_pc y i = S_new \<or> sy_pc y i = S_returned \<Longrightarrow> split_inv (set_pc i S_destroyed (clear_active i y))"
    using D by (intro inv_sub [OF y, of _ i S_destroyed False "sy_error y i"]) (auto simp: ds)
  show "sy_pc y i = S_deliver \<Longrightarrow> split_inv (if sy_active y i then set_pc i S_deliver_won (clear_active i y) else set_pc i S_returned y)"
    using D by (intro inv_sub [OF y, of _ i "if sy_active y i then S_deliver_won else S_returned" False "sy_error y i"]) (auto simp: ds split: if_splits)
  show "sy_pc y i = S_error e \<Longrightarrow> split_inv (if sy_active y i then set_pc i (S_error_won e) (clear_active i y) else set_pc i S_returned y)"
    using D by (intro inv_sub [OF y, of _ i "if sy_active y i then S_error_won e else S_returned" False "sy_error y i"]) (auto simp: ds split: if_splits)
  show "sy_pc y i = S_deliver_won \<Longrightarrow>
       split_inv ((set_pc i S_returned y)\<lparr>sy_out := sy_out y @ [(i, deliver_result (sp_result (sy_state y)))]\<rparr>)"
    using D by (intro inv_sub [OF y, of _ i S_returned "sy_active y i" "sy_error y i"]) (auto simp: ds out_ok_def)
  show "sy_pc y i = S_error_won e \<Longrightarrow> split_inv ((set_pc i S_returned y)\<lparr>sy_out := sy_out y @ [(i, SO_error e)]\<rparr>)"
    using D by (intro inv_sub [OF y, of _ i S_returned "sy_active y i" "sy_error y i"]) (auto simp: ds out_ok_def)
qed

text \<open>The critical section of \<open>start\<close>.\<close>

lemma phase_okD:
  assumes "phase_ok s q f n"
  shows "sp_phase s = Ph_idle \<Longrightarrow> sp_on_done s = [] \<and> q = Q_idle \<and> n = 0 \<and> f i \<noteq> S_start_source"
    "sp_phase s = Ph_running \<Longrightarrow> sp_on_done s \<noteq> []" "sp_phase s = Ph_done \<Longrightarrow> \<not> q_busy q \<and> f i \<noteq> S_start_source"
    "q_busy q \<Longrightarrow> sp_phase s = Ph_running \<and> n = 1 \<and> f i \<noteq> S_start_source" "q \<noteq> Q_idle \<Longrightarrow> f i \<noteq> S_start_source"
    "f i = S_start_source \<Longrightarrow> sp_phase s = Ph_running \<and> q = Q_idle \<and> n = 0 \<and> (f j = S_start_source \<longrightarrow> j = i)"
    "sp_phase s = Ph_done \<Longrightarrow> q \<noteq> Q_notify \<Longrightarrow> sp_on_done s = []" "sp_phase s = Ph_done \<Longrightarrow> sp_result s \<noteq> SR_none \<and> sp_result s \<noteq> SR_valueless"
    "q \<noteq> Q_idle \<Longrightarrow> \<not> q_busy q \<Longrightarrow> sp_phase s = Ph_done" "n = of_bool (q \<noteq> Q_idle)"
  using assms unfolding phase_ok_def by (auto split: split_phase.splits)

lemma inv_lock:
  assumes y: "split_inv y" and l: "sy_pc y i = S_lock" "start_section i x (sy_state y) = (n, s)"
  shows "split_inv (set_pc i (after_section n) (y\<lparr>sy_state := s, sy_error := (case n of N_error e \<Rightarrow> (sy_error y)(i := Some e) | _ \<Rightarrow> sy_error y)\<rparr>))"
    (is "split_inv ?z")
proof (rule split_invI)
  note D = split_invD [OF y] and P = phase_okD [OF split_invD(2) [OF y]]
  have i: "sub_ok (sy_active y i) (sy_pc y i) (tok y i) (won y i)" "sy_error y i = None" using D(1,5) [of i] l(1) by simp_all
  have n: "(n, s) = start_section i x (sy_state y)" using l(2) by simp
  show "sub_ok (sy_active ?z j) (sy_pc ?z j) (tok ?z j) (won ?z j)" for j
    using D(1) [of j] i(1) l(1) n
    by (cases "j = i") (auto simp: start_section_def sub_ok_def tok_def won_def outs_def split: split_phase.splits option.splits)
  show "phase_ok (sy_state ?z) (sy_src ?z) (sy_pc ?z) (sy_starts ?z)"
  proof (cases "sp_phase (sy_state y)")
    case Ph_idle
    then show ?thesis using P(1) n by (auto simp: start_section_def phase_ok_def split: option.splits)
  next
    case Ph_running
    then have e: "(sy_pc ?z j = S_start_source) = (sy_pc y j = S_start_source)" for j
      using n l(1) by (auto simp: start_section_def split: option.splits)
    have "sp_phase s = Ph_running" "sp_on_done s \<noteq> []" "sp_on_done (sy_state y) \<noteq> []"
      using Ph_running n P(2) by (auto simp: start_section_def split: option.splits)
    then show ?thesis using D(2) Ph_running unfolding phase_ok_def e by simp
  next
    case Ph_done
    then have e: "n = N_deliver" "s = sy_state y" using n by (simp_all add: start_section_def)
    show ?thesis using D(2) Ph_done by (simp add: phase_ok_def e)
  qed
  show "pc_ok (sy_state ?z) (sy_error ?z j) (sy_pc ?z j)" for j
  proof -
    have "sp_phase (sy_state y) = Ph_done \<Longrightarrow> sp_phase s = Ph_done" using n by (auto simp: start_section_def)
    then show ?thesis using D(3) [of j] n by (cases "j = i"; cases "sy_pc y j") (auto simp: start_section_def split: split_phase.splits option.splits start_next.splits)
  qed
  show "out_ok ?z j r" if "(j, r) \<in> set (sy_out ?z)" for j r
  proof -
    have "sp_phase (sy_state y) = Ph_done \<Longrightarrow> s = sy_state y" using n by (auto simp: start_section_def)
    moreover have "out_ok y j r" using D(4) that by simp
    ultimately show ?thesis using i(2) by (auto simp: out_ok_def split: start_next.splits)
  qed
  show "sy_error ?z j = None" if "early (sy_pc ?z j)" for j
    using that D(5) [of j] by (cases n) (auto split: if_splits)
  show "finite {j. spc_weight (sy_pc ?z j) \<noteq> 0}" using finite_pc_upd [OF D(6)] by simp
qed

lemma inv_start_source:
  assumes y: "split_inv y" and l: "sy_pc y i = S_start_source"
  shows "split_inv ((set_pc i S_returned y)\<lparr>sy_src := Q_running, sy_starts := sy_starts y + 1\<rparr>)" (is "split_inv ?z")
proof (rule split_invI)
  note D = split_invD [OF y] and P = phase_okD [OF split_invD(2) [OF y]]
  have p: "sp_phase (sy_state y) = Ph_running" "sy_src y = Q_idle" "sy_starts y = 0" "sy_pc y j = S_start_source \<longleftrightarrow> j = i" for j
    using P(6) [of i j] l by auto
  show "sub_ok (sy_active ?z j) (sy_pc ?z j) (tok ?z j) (won ?z j)" for j
    using D(1) [of j] l p(2) by (cases "j = i") (auto simp: sub_ok_def tok_def won_def outs_def)
  show "phase_ok (sy_state ?z) (sy_src ?z) (sy_pc ?z) (sy_starts ?z)" using p P(2) by (auto simp: phase_ok_def)
  show "pc_ok (sy_state ?z) (sy_error ?z j) (sy_pc ?z j)" for j using D(3) [of j] by simp
  show "out_ok ?z j r" if "(j, r) \<in> set (sy_out ?z)" for j r using D(4) [of j r] that by (simp add: out_ok_def)
  show "sy_error ?z j = None" if "early (sy_pc ?z j)" for j using that D(5) [of j] by (simp split: if_splits)
  show "finite {j. spc_weight (sy_pc ?z j) \<noteq> 0}" using finite_pc_upd [OF D(6)] by simp
qed

text \<open>The source goes on; the subscribers stay where they are.\<close>

lemma inv_source_step:
  assumes y: "split_inv y" and z: "sy_pc z = sy_pc y" "sy_error z = sy_error y" "sy_starts z = sy_starts y"
    and s: "\<And>i. sub_ok (sy_active z i) (sy_pc y i) (tok z i) (won z i)" "phase_ok (sy_state z) (sy_src z) (sy_pc y) (sy_starts y)"
      "sp_phase (sy_state y) = Ph_done \<Longrightarrow> sp_phase (sy_state z) = Ph_done \<and> sp_result (sy_state z) = sp_result (sy_state y)"
      "\<And>i r. (i, r) \<in> set (sy_out z) \<Longrightarrow> (i, r) \<in> set (sy_out y) \<or> out_ok z i r"
  shows "split_inv z"
proof (rule split_invI)
  note D = split_invD [OF y]
  show "pc_ok (sy_state z) (sy_error z j) (sy_pc z j)" for j using D(3) [of j] s(3) unfolding z by (cases "sy_pc y j") auto
  show "out_ok z j r" if "(j, r) \<in> set (sy_out z)" for j r
    using s(3) s(4) [OF that] D(4) [of j r] by (auto simp: out_ok_def z)
qed (use s split_invD(5,6) [OF y] in \<open>simp_all add: z\<close>)

lemma same_counts:
  assumes "split_inv y" "sy_active z = sy_active y" "sy_out z = sy_out y" "sy_pc z = sy_pc y"
    "\<And>i. count_list (sp_on_done (sy_state z)) i + count_list (q_list (sy_src z)) i = count_list (sp_on_done (sy_state y)) i + count_list (q_list (sy_src y)) i"
    "\<And>i. q_won (sy_src z) i = q_won (sy_src y) i"
  shows "sub_ok (sy_active z i) (sy_pc y i) (tok z i) (won z i)"
proof -
  have "tok z i = tok y i" "won z i = won y i" using assms(3-6) by (simp_all add: tok_def won_def outs_def)
  then show ?thesis using split_invD(1) [OF assms(1), of i] assms(2) by simp
qed

lemma split_source_completes:
  assumes y: "split_inv y" and q: "sy_src y = Q_running"
  shows "split_inv (y\<lparr>sy_src := Q_store sig\<rparr>)"
proof -
  have "phase_ok (sy_state y) (Q_store sig) (sy_pc y) (sy_starts y)" using split_invD(2) [OF y] q by (simp add: phase_ok_def split: split_phase.splits)
  then show ?thesis by (intro inv_source_step [OF y] same_counts [OF y]) (simp_all add: q)
qed

lemma split_inv_store:
  assumes y: "split_inv y" and q: "sy_src y = Q_store sig" "receive_store sig (sy_state y) = (x, s)"
  shows "split_inv (y\<lparr>sy_state := s, sy_src := (case x of None \<Rightarrow> Q_notify | Some e \<Rightarrow> Q_catch e)\<rparr>)"
proof -
  have p: "sp_phase (sy_state y) = Ph_running" "sy_starts y = 1" "sy_pc y i \<noteq> S_start_source" "sp_on_done (sy_state y) \<noteq> []" for i
    using phase_okD(2,4) [OF split_invD(2) [OF y]] q(1) by auto
  have s: "sp_on_done s = sp_on_done (sy_state y)"
    "(x = None \<and> sp_phase s = Ph_done \<and> sp_result s \<noteq> SR_none \<and> sp_result s \<noteq> SR_valueless) \<or> (\<exists>e. x = Some e) \<and> sp_phase s = Ph_running"
    using q(2) p(1) by (cases sig; auto split: option.splits)+
  show ?thesis
    by (rule inv_source_step [OF y]; (rule same_counts [OF y])?) (use s p q(1) in \<open>auto simp: phase_ok_def\<close>)
qed

lemma inv_catch:
  assumes y: "split_inv y" and q: "sy_src y = Q_catch e"
  shows "split_inv (y\<lparr>sy_state := receive_catch e (sy_state y), sy_src := Q_notify\<rparr>)"
proof -
  have p: "sp_phase (sy_state y) = Ph_running" "sy_starts y = 1" "sy_pc y i \<noteq> S_start_source" for i
    using phase_okD(4) [OF split_invD(2) [OF y]] q by auto
  show ?thesis
    by (rule inv_source_step [OF y]; (rule same_counts [OF y])?) (use p q in \<open>auto simp: phase_ok_def receive_catch_def\<close>)
qed

text \<open>After the source has completed.\<close>

lemma inv_notifying:
  assumes y: "split_inv y" and q: "sy_src y \<noteq> Q_idle" "\<not> q_busy (sy_src y)"
  shows "sp_phase (sy_state y) = Ph_done" "sy_starts y = 1" "sy_pc y i \<noteq> S_start_source"
    "sp_result (sy_state y) \<noteq> SR_none" "sp_result (sy_state y) \<noteq> SR_valueless" "sy_src y \<noteq> Q_notify \<Longrightarrow> sp_on_done (sy_state y) = []"
  using phase_okD(3,5,7-10) [OF split_invD(2) [OF y]] q by auto

lemma inv_notify:
  assumes y: "split_inv y" and q: "sy_src y = Q_notify" "notify_take (sy_state y) = (cbs, s)"
  shows "split_inv (y\<lparr>sy_state := s, sy_src := Q_call cbs\<rparr>)"
proof -
  note p = inv_notifying [OF y, unfolded q(1), simplified]
  have s: "s = (sy_state y)\<lparr>sp_on_done := []\<rparr>" "cbs = sp_on_done (sy_state y)" using q(2) by (simp_all add: notify_take_def)
  show ?thesis
    by (rule inv_source_step [OF y]; (rule same_counts [OF y])?) (use p q(1) s in \<open>auto simp: phase_ok_def\<close>)
qed

lemma inv_called:
  assumes y: "split_inv y" and q: "sy_src y = Q_won i cbs"
  shows "split_inv (y\<lparr>sy_src := Q_call cbs, sy_out := sy_out y @ [(i, deliver_result (sp_result (sy_state y)))]\<rparr>)" (is "split_inv ?z")
proof (rule inv_source_step [OF y])
  note p = inv_notifying [OF y, unfolded q, simplified]
  have "tok ?z j = tok y j" "won ?z j = won y j" for j using q by (simp_all add: tok_def won_def outs_def)
  then show "sub_ok (sy_active ?z j) (sy_pc y j) (tok ?z j) (won ?z j)" for j using split_invD(1) [OF y, of j] by simp
  show "phase_ok (sy_state ?z) (sy_src ?z) (sy_pc y) (sy_starts y)" using p by (simp add: phase_ok_def)
  show "(j, r) \<in> set (sy_out y) \<or> out_ok ?z j r" if "(j, r) \<in> set (sy_out ?z)" for j r using that p by (auto simp: out_ok_def)
qed simp_all

lemma inv_call:
  assumes y: "split_inv y" and q: "sy_src y = Q_call (i # cbs)"
  shows "split_inv (if sy_active y i then (clear_active i y)\<lparr>sy_src := Q_won i cbs\<rparr> else y\<lparr>sy_src := Q_call cbs\<rparr>)" (is "split_inv ?z")
proof (rule inv_source_step [OF y])
  note p = inv_notifying [OF y, unfolded q, simplified]
  have t: "1 \<le> tok y i" using q by (simp add: tok_def)
  have "\<not> early (sy_pc y i)" using split_invD(1) [OF y, of i] t by (auto simp: sub_ok_def)
  then show "sub_ok (sy_active ?z j) (sy_pc y j) (tok ?z j) (won ?z j)" for j
    using split_invD(1) [OF y, of j] q by (cases "j = i") (auto simp: sub_ok_def tok_def won_def outs_def)
  show "phase_ok (sy_state ?z) (sy_src ?z) (sy_pc y) (sy_starts y)" using p by (simp add: phase_ok_def)
qed (auto split: if_splits)

lemma inv_notified:
  assumes y: "split_inv y" and q: "sy_src y = Q_call []"
  shows "split_inv (y\<lparr>sy_src := Q_end\<rparr>)"
proof -
  have "phase_ok (sy_state y) Q_end (sy_pc y) (sy_starts y)" using split_invD(2) [OF y] q by (simp add: phase_ok_def split: split_phase.splits)
  then show ?thesis by (intro inv_source_step [OF y] same_counts [OF y]) (simp_all add: q)
qed

lemma split_inv_work:
  assumes "split_work y z" "split_inv y"
  shows "split_inv z"
  using assms
  by (induction rule: split_work.induct)
    (blast intro: inv_sub_steps inv_lock inv_start_source split_inv_store inv_catch inv_notify inv_called inv_call inv_notified)+

lemma split_inv_step: "split_step y z \<Longrightarrow> split_inv y \<Longrightarrow> split_inv z"
  by (induction rule: split_step.induct) (blast intro: inv_sub_steps split_source_completes split_inv_work)+

lemma split_inv_reachable: "split_reachable y \<Longrightarrow> split_inv y"
  by (induction rule: split_reachable.induct) (blast intro: split_inv_init split_inv_step)+

section \<open>The work ends\<close>

fun q_weight :: "('v, 'e) srcpc \<Rightarrow> nat \<Rightarrow> nat" where
  "q_weight (Q_store sig) n = 2 * n + 5" | "q_weight (Q_catch e) n = 2 * n + 4" | "q_weight Q_notify n = 2 * n + 3"
| "q_weight (Q_call cbs) n = 2 * length cbs + 2" | "q_weight (Q_won i cbs) n = 2 * length cbs + 3" | "q_weight q n = 0"

text \<open>Every subscriber that may still register adds a callback.\<close>

fun sub_weight :: "'e spc \<Rightarrow> nat" where
  "sub_weight S_construct = 7" | "sub_weight S_lock = 6" | "sub_weight p = spc_weight p"

definition split_left :: "('v, 'e) split_sys \<Rightarrow> nat" where
  "split_left y = weight_sum sub_weight (sy_pc y) + q_weight (sy_src y) (length (sp_on_done (sy_state y)))"

lemma sub_weight_zero: "sub_weight p = 0 \<longleftrightarrow> spc_weight p = 0"
  by (cases p) simp_all

lemma left_pc:
  assumes y: "split_inv y" and z: "sy_pc z = (sy_pc y)(i := p)"
    and w: "sub_weight p + q_weight (sy_src z) (length (sp_on_done (sy_state z))) <
      sub_weight (sy_pc y i) + q_weight (sy_src y) (length (sp_on_done (sy_state y)))"
  shows "split_left z < split_left y"
proof -
  have "finite {i. sub_weight (sy_pc y i) \<noteq> 0}" using split_invD(6) [OF y] by (simp add: sub_weight_zero)
  then have "weight_sum sub_weight ((sy_pc y)(i := p)) + sub_weight (sy_pc y i) = weight_sum sub_weight (sy_pc y) + sub_weight p"
    by (rule weight_sum_upd(1))
  then show ?thesis using w unfolding split_left_def z by linarith
qed

lemma left_work:
  assumes "split_inv y" "split_work y z"
  shows "split_left z < split_left y"
  using assms(2)
proof cases
  case (construct i)
  then show ?thesis by (intro left_pc [OF assms(1), of _ i S_lock]) simp_all
next
  case (construct_throws i e)
  then show ?thesis by (intro left_pc [OF assms(1), of _ i "S_error e"]) simp_all
next
  case (lock i x n s)
  have "sub_weight (after_section n) + q_weight (sy_src y) (length (sp_on_done s)) <
    sub_weight (sy_pc y i) + q_weight (sy_src y) (length (sp_on_done (sy_state y)))"
    using lock(2,3) by (cases "sy_src y") (auto simp: start_section_def split: split_phase.splits option.splits)
  then show ?thesis using lock by (intro left_pc [OF assms(1), of _ i "after_section n"]) simp_all
next
  case (deliver i)
  then show ?thesis by (intro left_pc [OF assms(1), of _ i "if sy_active y i then S_deliver_won else S_returned"]) simp_all
next
  case (delivered i)
  then show ?thesis by (intro left_pc [OF assms(1), of _ i S_returned]) simp_all
next
  case (error i e)
  then show ?thesis by (intro left_pc [OF assms(1), of _ i "if sy_active y i then S_error_won e else S_returned"]) simp_all
next
  case (errored i e)
  then show ?thesis by (intro left_pc [OF assms(1), of _ i S_returned]) simp_all
next
  case (start_source i)
  then show ?thesis by (intro left_pc [OF assms(1), of _ i S_returned]) simp_all
next
  case (store sig x s)
  have "sp_on_done s = sp_on_done (sy_state y)" using store(3) by (cases sig) (auto split: option.splits)
  then show ?thesis using store by (auto simp: split_left_def split: option.splits)
qed (auto simp: split_left_def receive_catch_def notify_take_def)

interpretation spw: draining split_inv split_work split_left
  by unfold_locales (blast intro: split_inv_work left_work)+

text \<open>When nothing is left to do and the source is not running, every subscriber has been told.\<close>

lemma split_at_rest:
  assumes "\<forall>z. \<not> split_work y z"
  shows "sy_pc y i \<in> {S_new, S_returned, S_destroyed}" "sy_src y \<in> {Q_idle, Q_running, Q_end}"
proof -
  show "sy_pc y i \<in> {S_new, S_returned, S_destroyed}"
  proof (cases "sy_pc y i")
    case S_lock
    then show ?thesis using assms split_work.lock [of y i None] by (metis surj_pair)
  next
    case S_deliver
    then show ?thesis using assms split_work.deliver [of y i] by blast
  next
    case (S_error e)
    then show ?thesis using assms split_work.error [of y i e] by blast
  qed (use assms split_work.construct [of y i] split_work.delivered [of y i] split_work.errored [of y i] split_work.start_source [of y i] in blast)+
  show "sy_src y \<in> {Q_idle, Q_running, Q_end}"
  proof (cases "sy_src y")
    case (Q_store sig)
    then show ?thesis using assms split_work.store [of y sig] by (metis surj_pair)
  next
    case Q_notify
    then show ?thesis using assms split_work.notify [of y] by (metis surj_pair)
  next
    case (Q_call cbs)
    then show ?thesis using assms split_work.call [of y] split_work.notified [of y] by (cases cbs) blast+
  next
    case (Q_catch e)
    then show ?thesis using assms split_work.catch [of y e] by blast
  next
    case (Q_won i cbs)
    then show ?thesis using assms split_work.called [of y i cbs] by blast
  qed simp_all
qed

lemma rest_told:
  assumes y: "split_inv y" and r: "\<forall>z. \<not> split_work y z" and i: "sy_pc y i = S_returned" and q: "sy_src y \<noteq> Q_running"
  shows "outs y i = 1"
proof -
  note P = phase_okD [OF split_invD(2) [OF y]] and s = split_invD(1) [OF y, of i]
  have src: "sy_src y = Q_idle \<or> sy_src y = Q_end" using split_at_rest(2) [OF r] q by blast
  have ns: "sy_pc y j \<noteq> S_start_source" for j using split_at_rest(1) [OF r, of j] by auto
  have "sp_phase (sy_state y) \<noteq> Ph_running"
  proof
    assume "sp_phase (sy_state y) = Ph_running"
    then show False using split_invD(2) [OF y] src ns by (auto simp: phase_ok_def)
  qed
  then have "sp_on_done (sy_state y) = []"
    using P(1) [of i] P(7) src by (cases "sp_phase (sy_state y)") auto
  then have "tok y i = 0" using src i by (auto simp: tok_def)
  moreover have "if sy_active y i then tok y i = 1 else won y i = 1" using s unfolding sub_ok_def i by simp
  ultimately have "won y i = 1" by (simp split: if_splits)
  then show ?thesis using src i by (auto simp: won_def)
qed

section \<open>What split guarantees\<close>

text \<open>One step at a time, for concrete runs.\<close>

datatype ('v, 'e) split_act = X_start nat | X_construct nat | X_lock nat "'e option" | X_deliver nat | X_delivered nat | X_start_source nat
  | X_completes "('v, 'e) split_signal" | X_store | X_notify | X_call | X_called

fun split_exec :: "('v, 'e) split_act \<Rightarrow> ('v, 'e) split_sys \<Rightarrow> ('v, 'e) split_sys option" where
  "split_exec (X_start i) y = (case sy_pc y i of S_new \<Rightarrow> Some (set_pc i S_construct y) | _ \<Rightarrow> None)"
| "split_exec (X_construct i) y = (case sy_pc y i of S_construct \<Rightarrow> Some (set_pc i S_lock y) | _ \<Rightarrow> None)"
| "split_exec (X_lock i x) y =
     (case sy_pc y i of
        S_lock \<Rightarrow> (case start_section i x (sy_state y) of (n, s) \<Rightarrow>
          Some (set_pc i (after_section n) (y\<lparr>sy_state := s, sy_error := (case n of N_error e \<Rightarrow> (sy_error y)(i := Some e) | _ \<Rightarrow> sy_error y)\<rparr>)))
      | _ \<Rightarrow> None)"
| "split_exec (X_deliver i) y =
     (case sy_pc y i of S_deliver \<Rightarrow> Some (if sy_active y i then set_pc i S_deliver_won (clear_active i y) else set_pc i S_returned y) | _ \<Rightarrow> None)"
| "split_exec (X_delivered i) y =
     (case sy_pc y i of
        S_deliver_won \<Rightarrow> Some ((set_pc i S_returned y)\<lparr>sy_out := sy_out y @ [(i, deliver_result (sp_result (sy_state y)))]\<rparr>)
      | _ \<Rightarrow> None)"
| "split_exec (X_start_source i) y =
     (case sy_pc y i of S_start_source \<Rightarrow> Some ((set_pc i S_returned y)\<lparr>sy_src := Q_running, sy_starts := sy_starts y + 1\<rparr>) | _ \<Rightarrow> None)"
| "split_exec (X_completes sig) y = (case sy_src y of Q_running \<Rightarrow> Some (y\<lparr>sy_src := Q_store sig\<rparr>) | _ \<Rightarrow> None)"
| "split_exec X_store y =
     (case sy_src y of
        Q_store sig \<Rightarrow> (case receive_store sig (sy_state y) of
          (x, s) \<Rightarrow> Some (y\<lparr>sy_state := s, sy_src := (case x of None \<Rightarrow> Q_notify | Some e \<Rightarrow> Q_catch e)\<rparr>))
      | _ \<Rightarrow> None)"
| "split_exec X_notify y =
     (case sy_src y of Q_notify \<Rightarrow> (case notify_take (sy_state y) of (cbs, s) \<Rightarrow> Some (y\<lparr>sy_state := s, sy_src := Q_call cbs\<rparr>)) | _ \<Rightarrow> None)"
| "split_exec X_call y =
     (case sy_src y of
        Q_call cbs \<Rightarrow>
          (case cbs of
             [] \<Rightarrow> Some (y\<lparr>sy_src := Q_end\<rparr>)
           | i # is \<Rightarrow> Some (if sy_active y i then (clear_active i y)\<lparr>sy_src := Q_won i is\<rparr> else y\<lparr>sy_src := Q_call is\<rparr>))
      | _ \<Rightarrow> None)"
| "split_exec X_called y =
     (case sy_src y of
        Q_won i cbs \<Rightarrow> Some (y\<lparr>sy_src := Q_call cbs, sy_out := sy_out y @ [(i, deliver_result (sp_result (sy_state y)))]\<rparr>)
      | _ \<Rightarrow> None)"

lemma split_exec_step: "split_exec x y = Some z \<Longrightarrow> split_step y z"
proof (cases x)
  case (X_lock i e)
  assume x: "split_exec x y = Some z"
  then have "sy_pc y i = S_lock" using X_lock by (auto split: spc.splits)
  then show ?thesis using x X_lock split_work.lock [of y i e, THEN split_step.work] by (auto split: prod.splits)
next
  case (X_start_source i)
  assume "split_exec x y = Some z"
  then show ?thesis using X_start_source split_work.start_source [of y i, THEN split_step.work] by (auto split: spc.splits)
qed (auto split: spc.splits srcpc.splits prod.splits list.splits intro: split_step.intros split_work.intros simp del: receive_store.simps)

fun split_run :: "('v, 'e) split_act list \<Rightarrow> ('v, 'e) split_sys \<Rightarrow> ('v, 'e) split_sys option" where
  "split_run [] y = Some y"
| "split_run (x # xs) y = (case split_exec x y of None \<Rightarrow> None | Some z \<Rightarrow> split_run xs z)"

lemma split_run_reachable: "split_run xs y = Some z \<Longrightarrow> split_reachable y \<Longrightarrow> split_reachable z"
proof (induction xs arbitrary: y)
  case (Cons x xs)
  then obtain w where "split_exec x y = Some w" "split_run xs w = Some z" by (auto split: option.splits)
  then show ?case using Cons.IH split_reachable.step [OF Cons.prems(2) split_exec_step] by blast
qed simp

text \<open>Three subscribers: before the source is started, while it is running, and between its completion and its notification.\<close>

definition split_demo_acts :: "(nat, nat) split_act list" where
  "split_demo_acts = [X_start 0, X_construct 0, X_lock 0 None, X_start_source 0, X_start 1, X_construct 1, X_lock 1 None,
     X_completes (SS_value [7] None), X_store, X_start 2, X_construct 2, X_lock 2 None, X_notify, X_call, X_called, X_deliver 2, X_delivered 2,
     X_call, X_called, X_call]"

definition split_demo :: "(nat, nat) split_sys" where
  "split_demo = the (split_run split_demo_acts split_init)"

lemma split_demo_run: "split_run split_demo_acts split_init = Some split_demo"
proof -
  have "\<not> Option.is_none (split_run split_demo_acts split_init)" by code_simp
  then show ?thesis by (simp add: split_demo_def Option.is_none_def)
qed

lemma split_demo_out: "sy_out split_demo = [(0, SO_value [7]), (2, SO_value [7]), (1, SO_value [7])]"
  by code_simp

text \<open>
  C17.  Whatever the order in which subscribers of \<open>split\<close> start and are destroyed and the source
  completes, and whatever throws: the source is started at most once, and as long as it is running
  or completing a registered callback keeps the shared state alive; every subscriber is told at most once, and never by \<open>terminate\<close>; what it is
  told is the one stored result, the same for all, or the exception that kept it from registering.
  Everything that is under way ends within \<open>split_left\<close> steps, and when the source is not running and
  nothing is under way, every subscriber whose \<open>start\<close> has returned and that has not been destroyed has been told.
\<close>

theorem split_tells_all:
  assumes "split_reachable y"
  shows "sy_starts y \<le> 1 \<and> (q_busy (sy_src y) \<longrightarrow> sp_on_done (sy_state y) \<noteq> []) \<and>
    (\<forall>i. outs y i \<le> 1) \<and>
    (\<forall>i r. (i, r) \<in> set (sy_out y) \<longrightarrow> r \<noteq> SO_terminate \<and>
       (sp_phase (sy_state y) = Ph_done \<and> r = deliver_result (sp_result (sy_state y)) \<or> (\<exists>e. sy_error y i = Some e \<and> r = SO_error e))) \<and>
    (\<forall>n z. (split_work ^^ n) y z \<longrightarrow> n \<le> split_left y) \<and>
    ((\<forall>z. \<not> split_work y z) \<and> sy_src y \<noteq> Q_running \<longrightarrow> (\<forall>i. sy_pc y i = S_returned \<longrightarrow> outs y i = 1))"
proof (intro conjI)
  have y: "split_inv y" using assms by (rule split_inv_reachable)
  note D = split_invD [OF y] and P = phase_okD [OF split_invD(2) [OF y]]
  show "sy_starts y \<le> 1" using P(10) by (simp add: of_bool_def)
  show "q_busy (sy_src y) \<longrightarrow> sp_on_done (sy_state y) \<noteq> []" using P(2,4) by blast
  show "\<forall>i. outs y i \<le> 1"
  proof
    fix i
    show "outs y i \<le> 1" using D(1) [of i] by (simp add: sub_ok_def won_def)
  qed
  show "\<forall>i r. (i, r) \<in> set (sy_out y) \<longrightarrow> r \<noteq> SO_terminate \<and>
       (sp_phase (sy_state y) = Ph_done \<and> r = deliver_result (sp_result (sy_state y)) \<or> (\<exists>e. sy_error y i = Some e \<and> r = SO_error e))"
  proof (intro allI impI conjI)
    fix i r assume "(i, r) \<in> set (sy_out y)"
    then have o: "out_ok y i r" by (rule D(4))
    show "r \<noteq> SO_terminate" using o P(8) by (cases "sp_result (sy_state y)") (auto simp: out_ok_def)
    show "sp_phase (sy_state y) = Ph_done \<and> r = deliver_result (sp_result (sy_state y)) \<or> (\<exists>e. sy_error y i = Some e \<and> r = SO_error e)"
      using o by (simp add: out_ok_def)
  qed
  show "\<forall>n z. (split_work ^^ n) y z \<longrightarrow> n \<le> split_left y" using spw.works_bounded [OF _ y] by fastforce
  show "(\<forall>z. \<not> split_work y z) \<and> sy_src y \<noteq> Q_running \<longrightarrow> (\<forall>i. sy_pc y i = S_returned \<longrightarrow> outs y i = 1)"
    using rest_told [OF y] by blast
qed

theorem split_tells_all_witness:
  "sy_starts split_demo \<le> 1 \<and> (\<forall>i. outs split_demo i \<le> 1) \<and> sy_out split_demo = [(0, SO_value [7]), (2, SO_value [7]), (1, SO_value [7])]"
proof -
  have "split_reachable split_demo" using split_run_reachable [OF split_demo_run split_reachable.init] .
  from split_tells_all [OF this] show ?thesis using split_demo_out by blast
qed

end
