(* ===== verification/Mdspan_Layout.thy ===== *)
theory Mdspan_Layout
  imports Forge_Prelude
begin

text \<open>
  The layouts of multidimensional views: the padded layouts of
  \<open>backport/cpp26/mdspan_padded.hpp\<close>, and the standard layouts \<open>layout_left\<close>, \<open>layout_right\<close> and
  \<open>layout_stride\<close> they convert from and to.

  The index type is given by its largest value \<open>imax\<close>; \<open>to_index imax\<close> is the conversion to it, which
  wraps around.  Every conversion and every stored intermediate result of the code is wrapped; the
  theorems show under which condition nothing is lost.  For a signed index type only values up to
  \<open>imax\<close> have a meaning, and there the conversion is the identity as well.

  An extent, and a member of a slice, is a run-time value or a compile-time constant.
  \<open>dynamic_extent\<close> is the value of \<open>size_t\<close> that stands for an extent that is not static.
\<close>

section \<open>Extents and index arithmetic\<close>

datatype member = Dyn nat | Cw nat

fun mval :: "member \<Rightarrow> nat" where
  "mval (Dyn n) = n"
| "mval (Cw n) = n"

definition dynamic_extent :: nat where
  "dynamic_extent = size_max"

fun static_of :: "member \<Rightarrow> nat" where
  "static_of (Dyn n) = dynamic_extent"
| "static_of (Cw n) = n"

definition to_index :: "nat \<Rightarrow> nat \<Rightarrow> nat" where
  "to_index imax n = n mod (imax + 1)"

definition empty_extents :: "member list \<Rightarrow> bool" where
  "empty_extents e \<longleftrightarrow> list_ex (\<lambda>x. mval x = 0) e"

definition least_multiple_at_least :: "nat \<Rightarrow> nat \<Rightarrow> nat \<Rightarrow> nat" where
  "least_multiple_at_least imax alignment v =
     (if alignment = 0 then v
      else if v = 0 then 0
      else let remainder = v mod alignment
           in if remainder = 0 then v else to_index imax (v + (alignment - remainder)))"

section \<open>Compile-time checks\<close>

definition static_size_limit :: "nat \<Rightarrow> nat" where
  "static_size_limit imax = (if imax < size_max then imax else size_max)"

definition static_stride_representable :: "nat \<Rightarrow> nat \<Rightarrow> nat \<Rightarrow> bool" where
  "static_stride_representable imax padding ext =
     (let limit = static_size_limit imax
      in if ext > limit then False
         else if padding = 0 then True
         else let remainder = ext mod padding in remainder = 0 \<or> padding - remainder \<le> limit - ext)"

text \<open>The factors of a product of static extents, one of which may be replaced by a padded stride.\<close>

definition static_factors :: "nat list \<Rightarrow> nat \<Rightarrow> nat \<Rightarrow> nat list" where
  "static_factors e padded_dim padded_stride = map (\<lambda>r. if r = padded_dim then padded_stride else e ! r) [0..<length e]"

fun product_loop :: "nat \<Rightarrow> nat list \<Rightarrow> nat \<Rightarrow> bool" where
  "product_loop limit [] product = True"
| "product_loop limit (factor # fs) product =
     (if factor > limit div product then False else product_loop limit fs (product * factor))"

definition static_product_representable :: "nat \<Rightarrow> nat list \<Rightarrow> nat \<Rightarrow> nat \<Rightarrow> bool" where
  "static_product_representable limit e padded_dim padded_stride =
     (let fs = static_factors e padded_dim padded_stride
      in if list_ex (\<lambda>f. f = 0) fs then True else product_loop limit fs 1)"

text \<open>The stride that a padded layout gets from static extents, and the mandates of the classes; \<open>x\<close> is the padded extent.\<close>

definition static_padding_stride :: "nat \<Rightarrow> nat \<Rightarrow> nat \<Rightarrow> nat \<Rightarrow> nat" where
  "static_padding_stride imax padding_value n x =
     (if n \<le> 1 then 1
      else if padding_value = dynamic_extent \<or> x = dynamic_extent then dynamic_extent
      else if static_stride_representable imax padding_value x then least_multiple_at_least size_max padding_value x
      else 0)"

definition all_static :: "member list \<Rightarrow> bool" where
  "all_static e \<longleftrightarrow> list_all (\<lambda>x. static_of x \<noteq> dynamic_extent) e"

definition lp_mandates :: "nat \<Rightarrow> nat \<Rightarrow> member list \<Rightarrow> bool" where
  "lp_mandates imax padding_value e =
     (let st = map static_of e; x = (if e = [] then dynamic_extent else st ! 0)
      in (\<not> all_static e \<or> static_product_representable imax st dynamic_extent 0) \<and>
         (padding_value = dynamic_extent \<or> padding_value \<le> imax) \<and>
         (length e \<le> 1 \<or> padding_value = dynamic_extent \<or> x = dynamic_extent \<or> static_stride_representable imax padding_value x) \<and>
         (length e \<le> 1 \<or> padding_value = dynamic_extent \<or> \<not> all_static e \<or>
          static_product_representable (static_size_limit imax) st 0 (static_padding_stride imax padding_value (length e) x)))"

definition rp_mandates :: "nat \<Rightarrow> nat \<Rightarrow> member list \<Rightarrow> bool" where
  "rp_mandates imax padding_value e =
     (let st = map static_of e; x = (if e = [] then dynamic_extent else st ! (length e - 1))
      in (\<not> all_static e \<or> static_product_representable imax st dynamic_extent 0) \<and>
         (padding_value = dynamic_extent \<or> padding_value \<le> imax) \<and>
         (length e \<le> 1 \<or> padding_value = dynamic_extent \<or> x = dynamic_extent \<or> static_stride_representable imax padding_value x) \<and>
         (length e \<le> 1 \<or> padding_value = dynamic_extent \<or> \<not> all_static e \<or>
          static_product_representable (static_size_limit imax) st (length e - 1) (static_padding_stride imax padding_value (length e) x)))"

section \<open>Mappings\<close>

text \<open>A padded mapping keeps its padding value, its extents and the stride of the second dimension from its end.\<close>

datatype mapping =
    Layout_left "member list"
  | Layout_right "member list"
  | Layout_stride "member list" "nat list"
  | Layout_left_padded nat "member list" nat
  | Layout_right_padded nat "member list" nat

fun extents_of :: "mapping \<Rightarrow> member list" where
  "extents_of (Layout_left e) = e"
| "extents_of (Layout_right e) = e"
| "extents_of (Layout_stride e s) = e"
| "extents_of (Layout_left_padded p e s) = e"
| "extents_of (Layout_right_padded p e s) = e"

text \<open>
  The static assertions of the type of a mapping.  For \<open>layout_left\<close>, \<open>layout_right\<close> and \<open>layout_stride\<close>
  these are the mandates of the standard library: the size of a static index space is representable.
\<close>

definition static_space_mandate :: "nat \<Rightarrow> member list \<Rightarrow> bool" where
  "static_space_mandate imax e \<longleftrightarrow> \<not> all_static e \<or> static_product_representable imax (map static_of e) dynamic_extent 0"

fun layout_mandates :: "nat \<Rightarrow> mapping \<Rightarrow> bool" where
  "layout_mandates imax (Layout_left_padded p e s) \<longleftrightarrow> lp_mandates imax p e"
| "layout_mandates imax (Layout_right_padded p e s) \<longleftrightarrow> rp_mandates imax p e"
| "layout_mandates imax (Layout_left e) \<longleftrightarrow> static_space_mandate imax e"
| "layout_mandates imax (Layout_right e) \<longleftrightarrow> static_space_mandate imax e"
| "layout_mandates imax (Layout_stride e st) \<longleftrightarrow> static_space_mandate imax e"

abbreviation rank :: "mapping \<Rightarrow> nat" where "rank m \<equiv> length (extents_of m)"
abbreviation extent :: "mapping \<Rightarrow> nat \<Rightarrow> nat" where "extent m r \<equiv> mval (extents_of m ! r)"

subsection \<open>Strides\<close>

text \<open>The loops of \<open>stride\<close> of the padded layouts: \<open>k\<close> runs up to \<open>r\<close>.\<close>

function stride_loop :: "nat \<Rightarrow> member list \<Rightarrow> nat \<Rightarrow> nat \<Rightarrow> nat \<Rightarrow> nat" where
  "stride_loop imax e k r result =
     (if k < r then stride_loop imax e (k + 1) r (to_index imax (result * to_index imax (mval (e ! k)))) else result)"
  by auto
termination by (relation "measure (\<lambda>(imax, e, k, r, result). r - k)") auto

declare stride_loop.simps [simp del]

definition lp_stride :: "nat \<Rightarrow> member list \<Rightarrow> nat \<Rightarrow> nat \<Rightarrow> nat" where
  "lp_stride imax e stride_1 r =
     (if e = [] then 1
      else if r = 0 then 1
      else if r = 1 then stride_1
      else stride_loop imax e 1 r stride_1)"

definition rp_stride :: "nat \<Rightarrow> member list \<Rightarrow> nat \<Rightarrow> nat \<Rightarrow> nat" where
  "rp_stride imax e stride_rm2 r =
     (if e = [] then 1
      else if r = length e - 1 then 1
      else if r = length e - 2 then stride_rm2
      else stride_loop imax e (r + 1) (length e - 1) stride_rm2)"

fun stride :: "nat \<Rightarrow> mapping \<Rightarrow> nat \<Rightarrow> nat" where
  "stride imax (Layout_left e) r = to_index imax (prod_list (map mval (take r e)))"
| "stride imax (Layout_right e) r = to_index imax (prod_list (map mval (drop (r + 1) e)))"
| "stride imax (Layout_stride e s) r = s ! r"
| "stride imax (Layout_left_padded p e s) r = lp_stride imax e s r"
| "stride imax (Layout_right_padded p e s) r = rp_stride imax e s r"

definition strides_of :: "nat \<Rightarrow> mapping \<Rightarrow> nat list" where
  "strides_of imax m = map (stride imax m) [0..<rank m]"

subsection \<open>Offsets and sizes\<close>

text \<open>The loop over the indices of \<open>operator()\<close>, and the loop over the extents of \<open>required_span_size\<close>.\<close>

fun call_loop :: "nat \<Rightarrow> (nat \<Rightarrow> nat) \<Rightarrow> nat list \<Rightarrow> nat \<Rightarrow> nat \<Rightarrow> nat" where
  "call_loop imax st [] r result = result"
| "call_loop imax st (i # is) r result = call_loop imax st is (r + 1) (to_index imax (result + to_index imax i * st r))"

fun span_loop :: "nat \<Rightarrow> (nat \<Rightarrow> nat) \<Rightarrow> member list \<Rightarrow> nat \<Rightarrow> nat \<Rightarrow> nat" where
  "span_loop imax st [] r result = result"
| "span_loop imax st (x # xs) r result = span_loop imax st xs (r + 1) (to_index imax (result + to_index imax (mval x - 1) * st r))"

definition lp_required_span_size :: "nat \<Rightarrow> member list \<Rightarrow> nat \<Rightarrow> nat" where
  "lp_required_span_size imax e s = (if empty_extents e then 0 else to_index imax (span_loop imax (lp_stride imax e s) e 0 0 + 1))"

definition rp_required_span_size :: "nat \<Rightarrow> member list \<Rightarrow> nat \<Rightarrow> nat" where
  "rp_required_span_size imax e s = (if empty_extents e then 0 else to_index imax (span_loop imax (rp_stride imax e s) e 0 0 + 1))"

definition lp_call :: "nat \<Rightarrow> member list \<Rightarrow> nat \<Rightarrow> nat list \<Rightarrow> nat" where
  "lp_call imax e s is = call_loop imax (lp_stride imax e s) is 0 0"

definition rp_call :: "nat \<Rightarrow> member list \<Rightarrow> nat \<Rightarrow> nat list \<Rightarrow> nat" where
  "rp_call imax e s is = call_loop imax (rp_stride imax e s) is 0 0"

fun call :: "nat \<Rightarrow> mapping \<Rightarrow> nat list \<Rightarrow> nat" where
  "call imax (Layout_left_padded p e s) is = lp_call imax e s is"
| "call imax (Layout_right_padded p e s) is = rp_call imax e s is"
| "call imax m is = call_loop imax (stride imax m) is 0 0"

fun required_span_size :: "nat \<Rightarrow> mapping \<Rightarrow> nat" where
  "required_span_size imax (Layout_left e) = to_index imax (prod_list (map mval e))"
| "required_span_size imax (Layout_right e) = to_index imax (prod_list (map mval e))"
| "required_span_size imax (Layout_stride e s) =
     (if empty_extents e then 0 else to_index imax (span_loop imax (\<lambda>r. s ! r) e 0 0 + 1))"
| "required_span_size imax (Layout_left_padded p e s) = lp_required_span_size imax e s"
| "required_span_size imax (Layout_right_padded p e s) = rp_required_span_size imax e s"

subsection \<open>Construction and conversion\<close>

definition make_stride :: "nat \<Rightarrow> nat \<Rightarrow> nat \<Rightarrow> nat" where
  "make_stride imax ext padding = least_multiple_at_least imax padding ext"

definition left_padded_from_extents :: "nat \<Rightarrow> nat \<Rightarrow> member list \<Rightarrow> mapping" where
  "left_padded_from_extents imax padding_value e =
     Layout_left_padded padding_value e
       (if length e > 1 then
          (if padding_value = dynamic_extent then to_index imax (mval (e ! 0))
           else make_stride imax (to_index imax (mval (e ! 0))) (to_index imax padding_value))
        else 1)"

definition left_padded_with_padding :: "nat \<Rightarrow> nat \<Rightarrow> member list \<Rightarrow> nat \<Rightarrow> mapping" where
  "left_padded_with_padding imax padding_value e padding =
     Layout_left_padded padding_value e
       (if length e > 1 then make_stride imax (to_index imax (mval (e ! 0))) (to_index imax padding) else 1)"

definition right_padded_from_extents :: "nat \<Rightarrow> nat \<Rightarrow> member list \<Rightarrow> mapping" where
  "right_padded_from_extents imax padding_value e =
     Layout_right_padded padding_value e
       (if length e > 1 then
          (if padding_value = dynamic_extent then to_index imax (mval (e ! (length e - 1)))
           else make_stride imax (to_index imax (mval (e ! (length e - 1)))) (to_index imax padding_value))
        else 1)"

definition right_padded_with_padding :: "nat \<Rightarrow> nat \<Rightarrow> member list \<Rightarrow> nat \<Rightarrow> mapping" where
  "right_padded_with_padding imax padding_value e padding =
     Layout_right_padded padding_value e
       (if length e > 1 then make_stride imax (to_index imax (mval (e ! (length e - 1)))) (to_index imax padding) else 1)"

text \<open>The padded layouts from a strided mapping and back.\<close>

definition left_padded_from_stride :: "nat \<Rightarrow> nat \<Rightarrow> mapping \<Rightarrow> mapping" where
  "left_padded_from_stride imax padding_value other =
     Layout_left_padded padding_value (extents_of other) (if rank other > 1 then to_index imax (stride imax other 1) else 1)"

definition right_padded_from_stride :: "nat \<Rightarrow> nat \<Rightarrow> mapping \<Rightarrow> mapping" where
  "right_padded_from_stride imax padding_value other =
     Layout_right_padded padding_value (extents_of other) (if rank other > 1 then to_index imax (stride imax other (rank other - 2)) else 1)"

definition left_padded_to_stride :: "nat \<Rightarrow> mapping \<Rightarrow> mapping" where
  "left_padded_to_stride imax m = Layout_stride (extents_of m) (map (\<lambda>r. to_index imax (stride imax m r)) [0..<rank m])"

definition right_padded_to_stride :: "nat \<Rightarrow> mapping \<Rightarrow> mapping" where
  "right_padded_to_stride imax m = Layout_stride (extents_of m) (map (\<lambda>r. to_index imax (stride imax m r)) [0..<rank m])"

definition left_padded_to_left :: "mapping \<Rightarrow> mapping" where
  "left_padded_to_left m = Layout_left (extents_of m)"

definition right_padded_to_right :: "mapping \<Rightarrow> mapping" where
  "right_padded_to_right m = Layout_right (extents_of m)"

text \<open>
  From the unpadded layout, from a padded layout with another padding value, and, for at most one
  dimension, from the layouts that run the other way.  The static assertions of the first two are
  predicates on the types.  \<open>unpadded_conversion_mandate\<close> is the one of the conversions between a padded and
  an unpadded layout in both directions: \<open>x\<close> is the static padded extent of the padded mapping and \<open>other\<close>
  that of the unpadded one.  A conversion keeps the
  values of the extents, which the constructor of \<open>extents\<close> requires to agree with static ones.
\<close>

definition unpadded_conversion_mandate :: "nat \<Rightarrow> nat \<Rightarrow> nat \<Rightarrow> nat \<Rightarrow> nat \<Rightarrow> bool" where
  "unpadded_conversion_mandate imax padding_value n x other \<longleftrightarrow>
     (n > 1 \<longrightarrow> static_padding_stride imax padding_value n x = dynamic_extent \<or> other = dynamic_extent \<or>
                static_padding_stride imax padding_value n x = other)"

definition padding_values_mandate :: "nat \<Rightarrow> nat \<Rightarrow> nat \<Rightarrow> bool" where
  "padding_values_mandate n padding_value other \<longleftrightarrow>
     n \<le> 1 \<or> padding_value = dynamic_extent \<or> other = dynamic_extent \<or> padding_value = other"

definition left_padded_from_left :: "nat \<Rightarrow> nat \<Rightarrow> mapping \<Rightarrow> mapping" where
  "left_padded_from_left imax padding_value other = left_padded_from_extents imax padding_value (extents_of other)"

definition right_padded_from_right :: "nat \<Rightarrow> nat \<Rightarrow> mapping \<Rightarrow> mapping" where
  "right_padded_from_right imax padding_value other = right_padded_from_extents imax padding_value (extents_of other)"

definition left_padded_from_padded :: "nat \<Rightarrow> nat \<Rightarrow> mapping \<Rightarrow> mapping" where
  "left_padded_from_padded imax padding_value other =
     Layout_left_padded padding_value (extents_of other) (if rank other > 1 then to_index imax (stride imax other 1) else 1)"

definition right_padded_from_padded :: "nat \<Rightarrow> nat \<Rightarrow> mapping \<Rightarrow> mapping" where
  "right_padded_from_padded imax padding_value other =
     Layout_right_padded padding_value (extents_of other) (if rank other > 1 then to_index imax (stride imax other (rank other - 2)) else 1)"

definition left_padded_from_other_way :: "nat \<Rightarrow> mapping \<Rightarrow> mapping" where
  "left_padded_from_other_way padding_value other = Layout_left_padded padding_value (extents_of other) 1"

definition right_padded_from_other_way :: "nat \<Rightarrow> mapping \<Rightarrow> mapping" where
  "right_padded_from_other_way padding_value other = Layout_right_padded padding_value (extents_of other) 1"

text \<open>\<open>operator==\<close> of two mappings of the same padded layout and rank.\<close>

definition left_padded_eq :: "nat \<Rightarrow> mapping \<Rightarrow> mapping \<Rightarrow> bool" where
  "left_padded_eq imax x y \<longleftrightarrow> map mval (extents_of x) = map mval (extents_of y) \<and> (rank x \<le> 1 \<or> stride imax x 1 = stride imax y 1)"

definition right_padded_eq :: "nat \<Rightarrow> mapping \<Rightarrow> mapping \<Rightarrow> bool" where
  "right_padded_eq imax x y \<longleftrightarrow>
     map mval (extents_of x) = map mval (extents_of y) \<and> (rank x \<le> 1 \<or> stride imax x (rank x - 2) = stride imax y (rank x - 2))"

definition left_padded_is_exhaustive :: "nat \<Rightarrow> mapping \<Rightarrow> bool" where
  "left_padded_is_exhaustive imax m = (if rank m \<le> 1 then True else to_index imax (extent m 0) = stride imax m 1)"

definition right_padded_is_exhaustive :: "nat \<Rightarrow> mapping \<Rightarrow> bool" where
  "right_padded_is_exhaustive imax m = (if rank m \<le> 1 then True else to_index imax (extent m (rank m - 1)) = stride imax m (rank m - 2))"

section \<open>Strides as lists\<close>

text \<open>
  What the layouts mean, without wrap-around: a list of strides, of which an offset is the scalar
  product with the indices.
\<close>

fun lin :: "nat list \<Rightarrow> nat list \<Rightarrow> nat" where
  "lin (s # ss) (i # is) = s * i + lin ss is"
| "lin ss is = 0"

fun inside :: "nat list \<Rightarrow> nat list \<Rightarrow> bool" where
  "inside (e # es) (i # is) \<longleftrightarrow> i < e \<and> inside es is"
| "inside es is \<longleftrightarrow> es = [] \<and> is = []"

fun lstrides :: "nat \<Rightarrow> nat list \<Rightarrow> nat list" where
  "lstrides s [] = []"
| "lstrides s (e # es) = s # lstrides (s * e) es"

fun pstrides :: "nat \<Rightarrow> nat list \<Rightarrow> nat list" where
  "pstrides p [] = []"
| "pstrides p (e # es) = 1 # lstrides p es"

abbreviation evals :: "member list \<Rightarrow> nat list" where "evals e \<equiv> map mval e"

fun list_strides :: "mapping \<Rightarrow> nat list" where
  "list_strides (Layout_left e) = lstrides 1 (evals e)"
| "list_strides (Layout_right e) = rev (lstrides 1 (rev (evals e)))"
| "list_strides (Layout_stride e s) = s"
| "list_strides (Layout_left_padded p e s) = pstrides s (evals e)"
| "list_strides (Layout_right_padded p e s) = rev (pstrides s (rev (evals e)))"

lemma inside_length: "inside es is \<Longrightarrow> length is = length es"
  by (induction es "is" rule: inside.induct) auto

lemma inside_pos: "inside es is \<Longrightarrow> 0 \<notin> set es"
  by (induction es "is" rule: inside.induct) auto

lemma inside_append:
  "length es = length is \<Longrightarrow> inside (es @ es') (is @ is') \<longleftrightarrow> inside es is \<and> inside es' is'"
  by (induction es "is" rule: list_induct2) auto

lemma inside_rev [simp]: "inside (rev es) (rev is) \<longleftrightarrow> inside es is"
proof (cases "length es = length is")
  case True
  then show ?thesis by (induction es "is" rule: list_induct2) (auto simp: inside_append)
next
  case False
  then show ?thesis using inside_length [of es "is"] inside_length [of "rev es" "rev is"] by auto
qed

lemma inside_rev_right: "inside es (rev js) \<longleftrightarrow> inside (rev es) js"
  using inside_rev [of es "rev js"] by simp

lemma lin_append: "length ss = length is \<Longrightarrow> lin (ss @ ss') (is @ is') = lin ss is + lin ss' is'"
  by (induction ss "is" rule: list_induct2) auto

lemma lin_rev: "length ss = length is \<Longrightarrow> lin (rev ss) (rev is) = lin ss is"
  by (induction ss "is" rule: list_induct2) (auto simp: lin_append)

lemma lin_conv: "lin ss is = sum_list (map2 (\<lambda>s i. i * s) ss is)"
  by (induction ss "is" rule: lin.induct) auto

lemma lstrides_length [simp]: "length (lstrides s es) = length es"
  by (induction es arbitrary: s) auto

lemma pstrides_length [simp]: "length (pstrides p es) = length es"
  by (cases es) auto

lemma lstrides_pstrides: "lstrides 1 es = pstrides (hd es) es"
  by (cases es) auto

lemma lstrides_nth: "r < length es \<Longrightarrow> lstrides s es ! r = s * prod_list (take r es)"
  by (induction es arbitrary: s r) (auto simp: nth_Cons' take_Cons' algebra_simps)

lemma lin_scale: "lin (lstrides (s * t) es) is = s * lin (lstrides t es) is"
proof (induction es arbitrary: t "is")
  case (Cons e es)
  then show ?case using Cons.IH [of "t * e"] by (cases "is") (auto simp: algebra_simps)
qed simp

lemma lin_horner: "lin (lstrides s (e # es)) (i # is) = s * (i + e * lin (lstrides 1 es) is)"
  using lin_scale [of "s * e" 1 es "is"] by (simp add: algebra_simps)

lemma list_strides_length [simp]: "(\<forall>e s. m = Layout_stride e s \<longrightarrow> length s = length e) \<Longrightarrow> length (list_strides m) = rank m"
  by (cases m) auto

section \<open>The code computes the scalar product\<close>

lemma to_index_id [simp]: "n \<le> imax \<Longrightarrow> to_index imax n = n"
  by (simp add: to_index_def)

lemma to_index_le [simp]: "to_index imax n \<le> imax"
  using pos_mod_bound by (simp add: to_index_def less_Suc_eq_le [symmetric])

lemma to_index_idem [simp]: "to_index imax (to_index imax n) = to_index imax n"
  by simp

lemma to_index_arith:
  "to_index imax (to_index imax a + b) = to_index imax (a + b)" "to_index imax (a + to_index imax b) = to_index imax (a + b)"
  "to_index imax (to_index imax a * b) = to_index imax (a * b)" "to_index imax (a * to_index imax b) = to_index imax (a * b)"
  "to_index imax (Suc (to_index imax a)) = to_index imax (Suc a)"
  by (simp_all add: to_index_def mod_simps)

lemma to_index_cong:
  "to_index imax a = to_index imax a' \<Longrightarrow> to_index imax b = to_index imax b' \<Longrightarrow> to_index imax (a + b) = to_index imax (a' + b')"
  unfolding to_index_def by (rule mod_add_cong)

lemma empty_extents_iff: "empty_extents e \<longleftrightarrow> 0 \<in> set (evals e)"
  by (auto simp: empty_extents_def list_ex_iff)

text \<open>The stored strides fit in the index type.\<close>

fun mapping_wf :: "nat \<Rightarrow> mapping \<Rightarrow> bool" where
  "mapping_wf imax (Layout_stride e s) \<longleftrightarrow> 1 \<le> imax \<and> length s = length e \<and> list_all (\<lambda>x. x \<le> imax) s"
| "mapping_wf imax (Layout_left_padded p e s) \<longleftrightarrow> 1 \<le> imax \<and> s \<le> imax"
| "mapping_wf imax (Layout_right_padded p e s) \<longleftrightarrow> 1 \<le> imax \<and> s \<le> imax"
| "mapping_wf imax m \<longleftrightarrow> 1 \<le> imax"

lemma mapping_wf_length: "mapping_wf imax m \<Longrightarrow> length (list_strides m) = rank m"
  by (cases m) auto

lemma stride_loop_eq:
  "r \<le> length e \<Longrightarrow> result \<le> imax \<Longrightarrow>
   stride_loop imax e k r result = to_index imax (result * prod_list (take (r - k) (drop k (evals e))))"
proof (induction imax e k r result rule: stride_loop.induct)
  case (1 imax e k r result)
  show ?case
  proof (cases "k < r")
    case True
    then have "take (r - k) (drop k (evals e)) = mval (e ! k) # take (r - (k + 1)) (drop (k + 1) (evals e))"
      using 1(2) by (subst Cons_nth_drop_Suc [symmetric]) (auto simp: take_Cons' Suc_diff_Suc)
    then show ?thesis using 1(1) [OF True 1(2)] True
      by (subst stride_loop.simps) (simp add: to_index_arith algebra_simps)
  next
    case False
    then show ?thesis using 1(3) by (subst stride_loop.simps) simp
  qed
qed

lemma pstrides_nth:
  assumes "r < length es"
  shows "pstrides p es ! r = (if r = 0 then 1 else p * prod_list (take (r - 1) (drop 1 es)))"
  using assms by (cases es) (auto simp: nth_Cons' lstrides_nth)

lemma lp_stride_eq:
  assumes "r < length e" "s \<le> imax" "1 \<le> imax"
  shows "lp_stride imax e s r = to_index imax (pstrides s (evals e) ! r)"
  using assms stride_loop_eq [of r e s imax 1] by (auto simp: lp_stride_def pstrides_nth)

lemma prod_list_rev: "prod_list (rev xs) = prod_list (xs :: nat list)"
  by (induction xs) (auto simp: algebra_simps)

lemma rp_stride_eq:
  assumes r: "r < length e" and s: "s \<le> imax" "1 \<le> imax"
  shows "rp_stride imax e s r = to_index imax (rev (pstrides s (rev (evals e))) ! r)"
proof -
  let ?n = "length e" and ?es = "evals e"
  let ?q = "?n - Suc r"
  have nth: "rev (pstrides s (rev ?es)) ! r = (if ?q = 0 then 1 else s * prod_list (take (?q - 1) (drop 1 (rev ?es))))"
    using r by (simp add: rev_nth pstrides_nth)
  show ?thesis
  proof (cases "?q = 0")
    case True
    then have "r = ?n - 1" using r by simp
    then show ?thesis using True r s nth by (auto simp: rp_stride_def)
  next
    case q: False
    then have n: "r \<noteq> ?n - 1" "e \<noteq> []" using r by auto
    have k: "?n - 1 - (?q - 1) = r + 1" using r q by arith
    have "take (?q - 1) (drop 1 (rev ?es)) = take (?q - 1) (rev (take (?n - 1) ?es))" by (simp add: drop_rev)
    also have "\<dots> = rev (drop (?n - 1 - (?q - 1)) (take (?n - 1) ?es))" by (simp add: take_rev)
    also have "\<dots> = rev (take (?n - 1 - (r + 1)) (drop (r + 1) ?es))" unfolding k by (simp add: drop_take)
    finally have "take (?q - 1) (drop 1 (rev ?es)) = rev (take (?n - 1 - (r + 1)) (drop (r + 1) ?es))" .
    then have "prod_list (take (?q - 1) (drop 1 (rev ?es))) = prod_list (take (?n - 1 - (r + 1)) (drop (r + 1) ?es))"
      by (simp only: prod_list_rev)
    then have p: "rev (pstrides s (rev ?es)) ! r = s * prod_list (take (?n - 1 - (r + 1)) (drop (r + 1) ?es))"
      using nth q by simp
    show ?thesis
    proof (cases "r = ?n - 2")
      case True
      then show ?thesis using p n s by (simp add: rp_stride_def)
    next
      case False
      then show ?thesis using p n s stride_loop_eq [of "?n - 1" e s imax "r + 1"] by (simp add: rp_stride_def)
    qed
  qed
qed

lemma stride_eq:
  assumes "mapping_wf imax m" "r < rank m"
  shows "stride imax m r = to_index imax (list_strides m ! r)"
proof (cases m)
  case (Layout_right e)
  have "prod_list (drop (r + 1) (evals e)) = prod_list (take (length e - Suc r) (rev (evals e)))"
    using assms(2) Layout_right by (simp add: take_rev prod_list_rev)
  then show ?thesis using Layout_right assms by (simp add: rev_nth lstrides_nth drop_map)
qed (use assms in \<open>auto simp: lstrides_nth take_map list_all_length lp_stride_eq rp_stride_eq\<close>)

text \<open>The loops.\<close>

lemma call_loop_eq:
  assumes "length ss = length is" "\<forall>r < length is. to_index imax (st (k + r)) = to_index imax (ss ! r)" "result \<le> imax"
  shows "call_loop imax st is k result = to_index imax (result + lin ss is)"
  using assms
proof (induction ss "is" arbitrary: k result rule: list_induct2)
  case Nil
  then show ?case by simp
next
  case (Cons t ss i "is")
  let ?r = "to_index imax (result + to_index imax i * st k)"
  have "\<forall>r < length is. to_index imax (st (Suc k + r)) = to_index imax (ss ! r)" using Cons.prems(1) by force
  then have "call_loop imax st is (Suc k) ?r = to_index imax (?r + lin ss is)" by (rule Cons.IH) simp
  moreover have "to_index imax (to_index imax i * st k) = to_index imax (t * i)"
    using Cons.prems(1) [rule_format, of 0] to_index_arith(4) [of imax i "st k"] to_index_arith(4) [of imax i t]
    by (simp add: to_index_arith mult.commute)
  then have "?r = to_index imax (result + t * i)" by (rule to_index_cong [OF refl])
  ultimately show ?case by (simp add: to_index_arith add.assoc)
qed

lemma span_loop_call: "span_loop imax st e k result = call_loop imax st (map (\<lambda>x. x - 1) (evals e)) k result"
  by (induction e arbitrary: k result) auto

abbreviation top_index :: "nat list \<Rightarrow> nat list" where "top_index es \<equiv> map (\<lambda>x. x - 1) es"

lemma call_eq:
  assumes "mapping_wf imax m" "length is = rank m"
  shows "call imax m is = to_index imax (lin (list_strides m) is)"
proof -
  have "call imax m is = call_loop imax (stride imax m) is 0 0"
    by (cases m) (auto simp: lp_call_def rp_call_def, (rule arg_cong [of _ _ "\<lambda>f. call_loop imax f is 0 0"], rule ext, simp)+)
  then show ?thesis
    using call_loop_eq [of "list_strides m" "is" imax "stride imax m" 0 0] mapping_wf_length [OF assms(1)] stride_eq [OF assms(1)] assms(2) by simp
qed

section \<open>Index spaces\<close>

lemma inside_top: "0 \<notin> set es \<Longrightarrow> inside es (top_index es)"
  by (induction es) auto

lemma lin_mono: "inside es is \<Longrightarrow> lin ss is \<le> lin ss (top_index es)"
proof (induction es "is" arbitrary: ss rule: inside.induct)
  case (1 e es i "is")
  then show ?case by (cases ss) (auto intro!: add_mono mult_le_mono2)
qed auto

definition space_size :: "nat list \<Rightarrow> nat list \<Rightarrow> nat" where
  "space_size ss es = (if 0 \<in> set es then 0 else lin ss (top_index es) + 1)"

lemma lin_less_space: "inside es is \<Longrightarrow> lin ss is < space_size ss es"
  using lin_mono [of es "is" ss] inside_pos [of es "is"] by (simp add: space_size_def)

lemma space_size_rev: "length ss = length es \<Longrightarrow> space_size (rev ss) (rev es) = space_size ss es"
  using lin_rev [of ss "top_index es"] by (simp add: space_size_def rev_map)

lemma lstrides_space: "0 \<notin> set es \<Longrightarrow> lin (lstrides 1 es) (top_index es) + 1 = prod_list es"
proof (induction es)
  case (Cons e es)
  then have IH: "lin (lstrides 1 es) (top_index es) + 1 = prod_list es" and e: "0 < e" by auto
  have "lin (lstrides 1 (e # es)) (top_index (e # es)) + 1 = e + e * lin (lstrides 1 es) (top_index es)"
    using lin_horner [of 1 e es "e - 1" "top_index es"] e by simp
  also have "\<dots> = e * prod_list es" unfolding IH [symmetric] by simp
  finally show ?case by simp
qed simp

lemma required_span_size_eq:
  assumes wf: "mapping_wf imax m"
  shows "required_span_size imax m = (if 0 \<in> set (evals (extents_of m)) then 0 else to_index imax (space_size (list_strides m) (evals (extents_of m))))"
proof -
  let ?es = "evals (extents_of m)"
  have pr: "prod_list ?es = 0" if "0 \<in> set ?es" using that by (simp add: prod_list_zero_iff)
  have sp: "to_index imax (span_loop imax (stride imax m) (extents_of m) 0 0 + 1) = to_index imax (space_size (list_strides m) ?es)"
    if "0 \<notin> set ?es"
    using call_loop_eq [of "list_strides m" "top_index ?es" imax "stride imax m" 0 0] mapping_wf_length [OF wf] stride_eq [OF wf] that
    by (simp add: span_loop_call space_size_def to_index_arith)
  show ?thesis
  proof (cases m)
    case (Layout_left e)
    then show ?thesis using pr lstrides_space [of ?es] by (auto simp: space_size_def)
  next
    case (Layout_right e)
    have "space_size (list_strides m) ?es = space_size (lstrides 1 (rev ?es)) (rev ?es)"
      using space_size_rev [of "lstrides 1 (rev ?es)" "rev ?es"] Layout_right by simp
    then show ?thesis using pr lstrides_space [of "rev ?es"] Layout_right by (auto simp: space_size_def prod_list_rev)
  next
    case (Layout_stride e ss)
    moreover have "stride imax m = (\<lambda>r. ss ! r)" using Layout_stride by auto
    ultimately show ?thesis using sp by (auto simp: empty_extents_iff)
  next
    case (Layout_left_padded p e s)
    moreover have "stride imax m = lp_stride imax e s" using Layout_left_padded by auto
    ultimately show ?thesis using sp by (auto simp: empty_extents_iff lp_required_span_size_def)
  next
    case (Layout_right_padded p e s)
    moreover have "stride imax m = rp_stride imax e s" using Layout_right_padded by auto
    ultimately show ?thesis using sp by (auto simp: empty_extents_iff rp_required_span_size_def)
  qed
qed

text \<open>
  A mapping whose index space is representable: unless it is empty, the strides and the size of the
  space fit in the index type, and the padded stride is at least the extent it pads.
\<close>

fun padding_ok :: "mapping \<Rightarrow> bool" where
  "padding_ok (Layout_left_padded p e s) \<longleftrightarrow> (length e > 1 \<longrightarrow> hd (evals e) \<le> s)"
| "padding_ok (Layout_right_padded p e s) \<longleftrightarrow> (length e > 1 \<longrightarrow> last (evals e) \<le> s)"
| "padding_ok m \<longleftrightarrow> True"

definition mapping_ok :: "nat \<Rightarrow> mapping \<Rightarrow> bool" where
  "mapping_ok imax m \<longleftrightarrow>
     mapping_wf imax m \<and>
     (0 \<notin> set (evals (extents_of m)) \<longrightarrow>
        list_all (\<lambda>x. x \<le> imax) (list_strides m) \<and> space_size (list_strides m) (evals (extents_of m)) \<le> imax \<and> padding_ok m)"

abbreviation index_space :: "mapping \<Rightarrow> nat list \<Rightarrow> bool" where "index_space m is \<equiv> inside (evals (extents_of m)) is"

lemma mapping_ok_call:
  assumes ok: "mapping_ok imax m" and i: "index_space m is"
  shows "call imax m is = lin (list_strides m) is" "call imax m is < required_span_size imax m"
    "required_span_size imax m = space_size (list_strides m) (evals (extents_of m))"
proof -
  let ?es = "evals (extents_of m)"
  have wf: "mapping_wf imax m" and z: "0 \<notin> set ?es" and b: "space_size (list_strides m) ?es \<le> imax"
    using ok inside_pos [OF i] by (auto simp: mapping_ok_def)
  have l: "length is = rank m" using inside_length [OF i] by simp
  have less: "lin (list_strides m) is < space_size (list_strides m) ?es" using lin_less_space [OF i] .
  show c: "call imax m is = lin (list_strides m) is" using call_eq [OF wf l] less b by simp
  show r: "required_span_size imax m = space_size (list_strides m) ?es" using required_span_size_eq [OF wf] z b by simp
  show "call imax m is < required_span_size imax m" using c r less by simp
qed

lemma mapping_ok_stride: "mapping_ok imax m \<Longrightarrow> 0 \<notin> set (evals (extents_of m)) \<Longrightarrow> r < rank m \<Longrightarrow> stride imax m r = list_strides m ! r"
  using stride_eq [of imax m r] mapping_wf_length [of imax m] by (auto simp: mapping_ok_def list_all_length)

section \<open>Uniqueness and exhaustiveness\<close>

lemma mixed_unique:
  fixes i j p a b :: nat
  assumes "i < p" "j < p" "i + p * a = j + p * b"
  shows "i = j \<and> a = b"
proof -
  have "(i + p * a) mod p = i" "(j + p * b) mod p = j" "(i + p * a) div p = a" "(j + p * b) div p = b" using assms(1,2) by simp_all
  then show ?thesis using assms(3) by metis
qed

lemma lstrides_inj: "inside es is \<Longrightarrow> inside es js \<Longrightarrow> lin (lstrides 1 es) is = lin (lstrides 1 es) js \<Longrightarrow> is = js"
proof (induction es arbitrary: "is" js)
  case Nil
  then show ?case by (cases "is"; cases js) auto
next
  case (Cons e es)
  then obtain i is' j js' where [simp]: "is = i # is'" "js = j # js'" by (cases "is"; cases js) auto
  have "i + e * lin (lstrides 1 es) is' = j + e * lin (lstrides 1 es) js'"
    using Cons.prems(3) lin_horner [of 1 e es i is'] lin_horner [of 1 e es j js'] by simp
  then show ?case using mixed_unique [of i e j] Cons by auto
qed

lemma pstrides_inj:
  assumes "inside es is" "inside es js" "lin (pstrides p es) is = lin (pstrides p es) js" "length es > 1 \<longrightarrow> hd es \<le> p"
  shows "is = js"
proof (cases es)
  case Nil
  then show ?thesis using assms by (cases "is"; cases js) auto
next
  case (Cons e es')
  then obtain i is' j js' where [simp]: "is = i # is'" "js = j # js'" using assms(1,2) by (cases "is"; cases js) auto
  have eq: "i + p * lin (lstrides 1 es') is' = j + p * lin (lstrides 1 es') js'"
    using assms(3) Cons lin_scale [of p 1 es' is'] lin_scale [of p 1 es' js'] by simp
  show ?thesis
  proof (cases "es' = []")
    case True
    then show ?thesis using eq assms(1,2) Cons by (cases is'; cases js') auto
  next
    case False
    then have "i < p" "j < p" using assms Cons by auto
    then show ?thesis using mixed_unique [OF _ _ eq] lstrides_inj [of es' is' js'] assms(1,2) Cons by auto
  qed
qed

lemma lstrides_surj: "n < prod_list es \<Longrightarrow> \<exists>is. inside es is \<and> lin (lstrides 1 es) is = n"
proof (induction es arbitrary: n)
  case Nil
  then show ?case by (intro exI [of _ "[]"]) simp
next
  case (Cons e es)
  then have "0 < e" and "n div e < prod_list es" by (auto simp: less_mult_imp_div_less mult.commute intro: gr0I)
  from Cons.IH [OF this(2)] obtain "is" where "inside es is" "lin (lstrides 1 es) is = n div e" by blast
  then have "inside (e # es) (n mod e # is)" "lin (lstrides 1 (e # es)) (n mod e # is) = n"
    using \<open>0 < e\<close> lin_horner [of 1 e es "n mod e" "is"] by auto
  then show ?case by blast
qed

text \<open>A padded mapping read from the padded end: its strides and extents.\<close>

fun padded_view :: "mapping \<Rightarrow> (nat \<times> nat list \<times> (nat list \<Rightarrow> nat list)) option" where
  "padded_view (Layout_left_padded p e s) = Some (s, evals e, id)"
| "padded_view (Layout_right_padded p e s) = Some (s, rev (evals e), rev)"
| "padded_view m = None"

lemma padded_view_lin:
  assumes "padded_view m = Some (s, es, f)" "index_space m is"
  shows "lin (list_strides m) is = lin (pstrides s es) (f is)" "inside es (f is)"
    "space_size (list_strides m) (evals (extents_of m)) = space_size (pstrides s es) es" "f (f js) = js"
    "index_space m (f js) \<longleftrightarrow> inside es js" "padding_ok m \<longleftrightarrow> (length es > 1 \<longrightarrow> hd es \<le> s)"
proof -
  show "f (f js) = js" using assms(1) by (cases m) auto
  show "lin (list_strides m) is = lin (pstrides s es) (f is)" using assms inside_length [OF assms(2)] lin_rev [of "list_strides m" "is"] by (cases m) auto
  show "inside es (f is)" using assms by (cases m) auto
  show "index_space m (f js) \<longleftrightarrow> inside es js" using assms(1) by (cases m) (auto simp: inside_rev_right)
  show "space_size (list_strides m) (evals (extents_of m)) = space_size (pstrides s es) es"
    using assms(1) space_size_rev [of "pstrides s es" es] by (cases m) auto
  show "padding_ok m \<longleftrightarrow> (length es > 1 \<longrightarrow> hd es \<le> s)" using assms(1) by (cases m) (auto simp: hd_rev)
qed

lemma padded_unique:
  assumes ok: "mapping_ok imax m" and v: "padded_view m = Some (s, es, f)" and i: "index_space m is" "index_space m js" and eq: "call imax m is = call imax m js"
  shows "is = js"
proof -
  have "padding_ok m" using ok inside_pos [OF i(1)] by (simp add: mapping_ok_def)
  then have h: "length es > 1 \<longrightarrow> hd es \<le> s" using padded_view_lin(6) [OF v i(1)] by blast
  have "lin (pstrides s es) (f is) = lin (pstrides s es) (f js)"
    using eq mapping_ok_call(1) [OF ok i(1)] mapping_ok_call(1) [OF ok i(2)] padded_view_lin(1) [OF v i(1)] padded_view_lin(1) [OF v i(2)] by simp
  then have "f is = f js" using pstrides_inj [OF padded_view_lin(2) [OF v i(1)] padded_view_lin(2) [OF v i(2)] _ h] by blast
  then show ?thesis using padded_view_lin(4) [OF v i(1)] by metis
qed

lemma padded_surj:
  assumes ok: "mapping_ok imax m" and v: "padded_view m = Some (s, es, f)" and i: "index_space m is" and h: "length es > 1 \<longrightarrow> hd es = s"
    and n: "n < required_span_size imax m"
  shows "\<exists>js. index_space m js \<and> call imax m js = n"
proof -
  have z: "0 \<notin> set es" using inside_pos [OF padded_view_lin(2) [OF v i]] .
  have p: "pstrides s es = lstrides 1 es"
  proof (cases es)
    case (Cons e es')
    then show ?thesis using h by (cases es') auto
  qed simp
  have "n < prod_list es"
    using n mapping_ok_call(3) [OF ok i] padded_view_lin(3) [OF v i] p z lstrides_space [OF z] by (simp add: space_size_def)
  then obtain js where j: "inside es js" "lin (lstrides 1 es) js = n" using lstrides_surj by blast
  then have s: "index_space m (f js)" using padded_view_lin(5) [OF v i] by blast
  then have "call imax m (f js) = n"
    using mapping_ok_call(1) [OF ok s] padded_view_lin(1) [OF v s] padded_view_lin(4) [OF v i] p j(2) by simp
  then show ?thesis using s by blast
qed

section \<open>Construction\<close>

text \<open>The least multiple, without wrap-around.\<close>

definition round_up :: "nat \<Rightarrow> nat \<Rightarrow> nat" where
  "round_up a v = (if a = 0 \<or> v mod a = 0 then v else a * (v div a + 1))"

lemma round_up_eq: "0 < (a :: nat) \<Longrightarrow> v mod a \<noteq> 0 \<Longrightarrow> v + (a - v mod a) = a * (v div a + 1)"
proof -
  assume a: "0 < a" "v mod a \<noteq> 0"
  have "a * (v div a) + v mod a = v" "v mod a < a" "a * (v div a + 1) = a * (v div a) + a" using a by simp_all
  then show ?thesis by linarith
qed

lemma round_up_ge: "v \<le> round_up a v"
proof (cases "a = 0 \<or> v mod a = 0")
  case False
  then have "round_up a v = v + (a - v mod a)" using round_up_eq [of a v] by (simp add: round_up_def)
  then show ?thesis by simp
qed (auto simp: round_up_def)

lemma round_up_least: "0 < a \<Longrightarrow> a dvd round_up a v \<and> (\<forall>k. a dvd k \<and> v \<le> k \<longrightarrow> round_up a v \<le> k)"
proof (cases "v mod a = 0")
  case False
  assume a: "0 < a"
  have "a * (v div a + 1) \<le> a * q" if "v \<le> a * q" for q
  proof -
    have "v \<noteq> a * q" using False by auto
    then have "v < q * a" using that by (simp add: mult.commute)
    then have "v div a < q" by (simp add: less_mult_imp_div_less)
    then show ?thesis by (intro mult_le_mono2) simp
  qed
  then show ?thesis using False a by (auto simp: round_up_def elim!: dvdE)
qed (auto simp: round_up_def mod_eq_0_iff_dvd)

lemma least_multiple_eq: "v \<le> imax \<Longrightarrow> least_multiple_at_least imax a v = to_index imax (round_up a v)"
  using round_up_eq [of a v] by (auto simp: least_multiple_at_least_def round_up_def Let_def)

lemma round_up_absorb: "0 < v \<Longrightarrow> v \<le> a \<Longrightarrow> round_up a v = a"
  by (cases "v = a") (auto simp: round_up_def)

lemma stride_representable_iff: "static_stride_representable imax a v \<longleftrightarrow> round_up a v \<le> static_size_limit imax"
proof (cases "v \<le> static_size_limit imax")
  case True
  then show ?thesis using round_up_eq [of a v] by (auto simp: static_stride_representable_def Let_def round_up_def)
next
  case False
  then show ?thesis using round_up_ge [of v a] by (auto simp: static_stride_representable_def Let_def)
qed

lemma prod_list_pos: "0 \<notin> set es \<Longrightarrow> 1 \<le> prod_list (es :: nat list)"
  by (induction es) auto

lemma product_loop_iff:
  "0 < p \<Longrightarrow> p \<le> limit \<Longrightarrow> 0 \<notin> set fs \<Longrightarrow> product_loop limit fs p \<longleftrightarrow> p * prod_list fs \<le> limit"
proof (induction fs arbitrary: p)
  case (Cons f fs)
  have d: "f > limit div p \<longleftrightarrow> p * f > limit" using Cons.prems(1) by (metis div_less_iff_less_mult mult.commute)
  show ?case
  proof (cases "p * f > limit")
    case True
    have "p * f \<le> p * f * prod_list fs" using prod_list_pos [of fs] Cons.prems(3) by simp
    then have "limit < p * f * prod_list fs" by (rule less_le_trans [OF True])
    then have "limit < p * prod_list (f # fs)" by (simp add: mult.assoc)
    then show ?thesis using True d by simp
  next
    case False
    then show ?thesis using Cons d by (simp add: algebra_simps)
  qed
qed simp

lemma product_representable_iff:
  "1 \<le> limit \<Longrightarrow> static_product_representable limit e d s \<longleftrightarrow> prod_list (static_factors e d s) \<le> limit"
proof (cases "0 \<in> set (static_factors e d s)")
  case True
  then have "prod_list (static_factors e d s) = 0" by (simp add: prod_list_zero_iff)
  then show ?thesis using True by (auto simp: static_product_representable_def Let_def list_ex_iff)
next
  case False
  then show "1 \<le> limit \<Longrightarrow> ?thesis" using product_loop_iff [of 1 limit "static_factors e d s"]
    by (auto simp: static_product_representable_def Let_def list_ex_iff)
qed

lemma mapping_ok_view:
  assumes "padded_view m = Some (s, es, f)"
  shows "mapping_ok imax m \<longleftrightarrow>
     1 \<le> imax \<and> s \<le> imax \<and> (0 \<notin> set es \<longrightarrow> list_all (\<lambda>x. x \<le> imax) (pstrides s es) \<and> space_size (pstrides s es) es \<le> imax \<and> (length es > 1 \<longrightarrow> hd es \<le> s))"
  using assms space_size_rev [of "pstrides s es" es] by (cases m) (auto simp: mapping_ok_def hd_rev)

lemma prod_list_take_le: "0 \<notin> set es \<Longrightarrow> prod_list (take r es) \<le> prod_list (es :: nat list)"
proof (induction es arbitrary: r)
  case (Cons e es)
  then show ?case using prod_list_pos [of "e # es"] by (cases r) auto
qed simp

lemma pstrides_bounds:
  assumes z: "0 \<notin> set es" and l: "length es > 1 \<longrightarrow> hd es \<le> s \<and> s * prod_list (tl es) \<le> b" "length es \<le> 1 \<longrightarrow> prod_list es \<le> b"
  shows "space_size (pstrides s es) es \<le> b" "1 \<le> b \<Longrightarrow> list_all (\<lambda>x. x \<le> b) (pstrides s es)"
proof -
  have "space_size (pstrides s es) es \<le> b \<and> (1 \<le> b \<longrightarrow> list_all (\<lambda>x. x \<le> b) (pstrides s es))"
  proof (cases es)
    case Nil
    then show ?thesis using l by (simp add: space_size_def)
  next
    case (Cons e es')
    show ?thesis
    proof (cases "es' = []")
      case True
      then show ?thesis using l Cons z by (simp add: space_size_def)
    next
      case False
      then have h: "e \<le> s" "s * prod_list es' \<le> b" using l Cons by auto
      have z': "0 \<notin> set es'" "0 < e" using z Cons by auto
      have "lin (lstrides s es') (top_index es') + s = s * prod_list es'"
        using lin_scale [of s 1 es' "top_index es'"] lstrides_space [OF z'(1)] by (metis add_mult_distrib2 mult.right_neutral)
      then have "space_size (pstrides s es) es \<le> b" using h z Cons z' by (simp add: space_size_def)
      moreover have "lstrides s es' ! r \<le> b" if "r < length es'" for r
        using lstrides_nth [OF that, of s] prod_list_take_le [OF z'(1), of r] h(2) by (metis le_trans mult_le_mono2)
      ultimately show ?thesis using Cons by (auto simp: list_all_length nth_Cons')
    qed
  qed
  then show "space_size (pstrides s es) es \<le> b" "1 \<le> b \<Longrightarrow> list_all (\<lambda>x. x \<le> b) (pstrides s es)" by blast+
qed

text \<open>A padded mapping is representable when the product of the padded stride and the other extents is.\<close>

lemma padded_ok_intro:
  assumes "padded_view m = Some (s, es, f)" "1 \<le> imax" "s \<le> imax"
    "0 \<notin> set es \<Longrightarrow> (length es > 1 \<longrightarrow> hd es \<le> s \<and> s * prod_list (tl es) \<le> imax) \<and> (length es \<le> 1 \<longrightarrow> prod_list es \<le> imax)"
  shows "mapping_ok imax m"
  using assms pstrides_bounds [of es s imax] by (auto simp: mapping_ok_view)

lemma with_padding_ok:
  assumes i: "1 \<le> imax" and x: "length e > 1 \<Longrightarrow> x = mval (hd e) \<and> x \<le> imax \<and> padding \<le> imax \<and>
     (0 \<notin> set (evals e) \<longrightarrow> round_up padding x * prod_list (tl (evals e)) \<le> imax)" "length e \<le> 1 \<Longrightarrow> prod_list (evals e) \<le> imax"
  shows "mapping_ok imax (left_padded_with_padding imax p e padding)"
    "length e > 1 \<Longrightarrow> 0 \<notin> set (evals e) \<Longrightarrow> left_padded_with_padding imax p e padding = Layout_left_padded p e (round_up padding x)"
proof -
  have r: "round_up padding x \<le> imax \<and> x \<le> round_up padding x" if "length e > 1" "0 \<notin> set (evals e)"
  proof -
    have "1 \<le> prod_list (tl (evals e))" using that prod_list_pos [of "tl (evals e)"] by (cases e) auto
    then have "round_up padding x * 1 \<le> round_up padding x * prod_list (tl (evals e))" by (intro mult_le_mono2)
    also have "\<dots> \<le> imax" using x(1) [OF that(1)] that(2) by blast
    finally show ?thesis using round_up_ge [of x padding] by simp
  qed
  have h: "e ! 0 = hd e" if "length e > 1" using that by (cases e) auto
  show eq: "left_padded_with_padding imax p e padding = Layout_left_padded p e (round_up padding x)" if "length e > 1" "0 \<notin> set (evals e)"
    using x(1) [OF that(1)] r [OF that] that least_multiple_eq [of x imax padding] h by (simp add: left_padded_with_padding_def make_stride_def)
  have s: "\<exists>s. left_padded_with_padding imax p e padding = Layout_left_padded p e s \<and> s \<le> imax"
    using i least_multiple_eq [of "to_index imax (mval (e ! 0))" imax "to_index imax padding"] by (auto simp: left_padded_with_padding_def make_stride_def)
  then obtain s where s: "left_padded_with_padding imax p e padding = Layout_left_padded p e s" "s \<le> imax" by blast
  show "mapping_ok imax (left_padded_with_padding imax p e padding)" unfolding s(1)
  proof (rule padded_ok_intro [of _ s "evals e" id imax])
    assume z: "0 \<notin> set (evals e)"
    show "(1 < length (evals e) \<longrightarrow> hd (evals e) \<le> s \<and> s * prod_list (tl (evals e)) \<le> imax) \<and> (length (evals e) \<le> 1 \<longrightarrow> prod_list (evals e) \<le> imax)"
    proof -
      have "hd (evals e) = mval (hd e)" if "length e > 1" using that by (cases e) auto
      then show ?thesis using x r eq z s(1) by auto
    qed
  qed (use i s(2) in simp_all)
qed

lemma right_left_padding:
  "right_padded_with_padding imax p e padding = Layout_right_padded p e t \<longleftrightarrow>
   left_padded_with_padding imax p (rev e) padding = Layout_left_padded p (rev e) t"
proof -
  have "rev e ! 0 = e ! (length e - 1)" if "length e > 1" using that by (subst rev_nth) auto
  then show ?thesis by (auto simp: left_padded_with_padding_def right_padded_with_padding_def)
qed

lemma right_view_ok: "mapping_ok imax (Layout_right_padded p e t) \<longleftrightarrow> mapping_ok imax (Layout_left_padded p (rev e) t)"
  using mapping_ok_view [of "Layout_right_padded p e t"] mapping_ok_view [of "Layout_left_padded p (rev e) t"] by (simp add: rev_map)

text \<open>The constructor from the extents alone.\<close>

lemma from_extents_with_padding:
  "left_padded_from_extents imax p e = (if length e > 1 \<and> p = dynamic_extent then Layout_left_padded p e (to_index imax (mval (e ! 0)))
     else left_padded_with_padding imax p e p)"
  "right_padded_from_extents imax p e = (if length e > 1 \<and> p = dynamic_extent then Layout_right_padded p e (to_index imax (mval (e ! (length e - 1))))
     else right_padded_with_padding imax p e p)"
  by (auto simp: left_padded_from_extents_def left_padded_with_padding_def right_padded_from_extents_def right_padded_with_padding_def)

lemma right_left_from_extents:
  "right_padded_from_extents imax p e = Layout_right_padded p e t \<longleftrightarrow> left_padded_from_extents imax p (rev e) = Layout_left_padded p (rev e) t"
proof -
  have "rev e ! 0 = e ! (length e - 1)" if "length e > 1" using that by (subst rev_nth) auto
  then show ?thesis by (auto simp: left_padded_from_extents_def right_padded_from_extents_def)
qed

lemma static_val: "static_of x \<noteq> dynamic_extent \<Longrightarrow> static_of x = mval x"
  by (cases x) auto

lemma static_evals: "all_static e \<Longrightarrow> map static_of e = evals e"
  by (auto simp: all_static_def list_all_iff intro: static_val)

lemma static_factors_none: "length e \<le> dynamic_extent \<Longrightarrow> static_factors e dynamic_extent 0 = e"
  unfolding static_factors_def by (rule nth_equalityI) auto

lemma static_factors_first: "e = x # xs \<Longrightarrow> static_factors e 0 s = s # xs"
  unfolding static_factors_def by (rule nth_equalityI) (auto simp: nth_Cons' simp del: upt_Suc)

lemma prod_static_factors_last:
  assumes "e \<noteq> []"
  shows "prod_list (static_factors e (length e - 1) s) = prod_list (static_factors (rev e) 0 s)"
proof -
  have "static_factors e (length e - 1) s = butlast e @ [s]"
    unfolding static_factors_def using assms by (intro nth_equalityI) (auto simp: nth_append nth_butlast)
  moreover have "rev e = last e # rev (butlast e)" using assms by (metis append_butlast_last_id rev.simps(2) rev_rev_ident rev_append rev_singleton_conv append_Cons append_Nil)
  then have "static_factors (rev e) 0 s = s # rev (butlast e)" by (rule static_factors_first)
  ultimately show ?thesis by (simp add: prod_list_rev algebra_simps)
qed

lemma rp_lp_mandates:
  assumes "1 \<le> imax" "length e \<le> dynamic_extent"
  shows "rp_mandates imax p e \<longleftrightarrow> lp_mandates imax p (rev e)"
proof -
  have l: "1 \<le> static_size_limit imax" using assms(1) by (simp add: static_size_limit_def size_max_def)
  have "rev (map static_of e) ! 0 = map static_of e ! (length e - 1)" if "e \<noteq> []" using that by (subst rev_nth) auto
  moreover have "all_static (rev e) = all_static e" by (simp add: all_static_def)
  moreover have "prod_list (static_factors (map static_of e) dynamic_extent 0) = prod_list (static_factors (rev (map static_of e)) dynamic_extent 0)"
    using assms(2) by (simp add: static_factors_none prod_list_rev)
  moreover have "length e > 1 \<Longrightarrow> prod_list (static_factors (map static_of e) (length e - 1) s) = prod_list (static_factors (rev (map static_of e)) 0 s)" for s
    using prod_static_factors_last [of "map static_of e" s] by force
  ultimately show ?thesis
    unfolding rp_mandates_def lp_mandates_def Let_def product_representable_iff [OF assms(1)] product_representable_iff [OF l]
    by (auto simp: rev_map)
qed

lemma lp_static_ok:
  assumes i: "1 \<le> imax" "imax \<le> size_max" and n: "length e \<le> dynamic_extent" and st: "all_static e" and m: "lp_mandates imax p e"
  shows "mapping_ok imax (left_padded_from_extents imax p e)"
proof -
  let ?es = "evals e"
  have lim: "static_size_limit imax = imax" using i by (auto simp: static_size_limit_def)
  have pr: "prod_list ?es \<le> imax"
    using m st n static_evals [OF st] product_representable_iff [OF i(1)] static_factors_none [of ?es] by (simp add: lp_mandates_def Let_def)
  have x0: "mval (hd e) \<le> imax" if "length e > 1" "0 \<notin> set ?es"
  proof -
    have "prod_list ?es = mval (hd e) * prod_list (tl ?es)" using that(1) by (cases e) auto
    moreover have "1 \<le> prod_list (tl ?es)" using that prod_list_pos [of "tl ?es"] by (cases e) auto
    ultimately show ?thesis using pr by (metis le_trans mult.right_neutral mult_le_mono2)
  qed
  show ?thesis
  proof (cases "0 \<in> set ?es")
    case True
    have "\<exists>t. left_padded_from_extents imax p e = Layout_left_padded p e t \<and> t \<le> imax"
      using i least_multiple_eq [of "to_index imax (mval (e ! 0))" imax "to_index imax p"] by (auto simp: left_padded_from_extents_def make_stride_def)
    then show ?thesis using True i by (auto simp: mapping_ok_def)
  next
    case z: False
    show ?thesis
    proof (cases "length e > 1")
      case l: True
      have h: "e ! 0 = hd e" using l by (cases e) auto
      have he: "hd ?es = mval (hd e)" and tl: "prod_list ?es = mval (hd e) * prod_list (tl ?es)" using l by (cases e; auto)+
      show ?thesis
      proof (cases "p = dynamic_extent")
        case True
        then have "left_padded_from_extents imax p e = Layout_left_padded p e (mval (hd e))" using l h x0 [OF l z] by (simp add: left_padded_from_extents_def)
        moreover have "mapping_ok imax (Layout_left_padded p e (mval (hd e)))"
          using i x0 [OF l z] pr tl l he by (intro padded_ok_intro [of _ "mval (hd e)" ?es id imax]) auto
        ultimately show ?thesis by simp
      next
        case False
        have "static_of (hd e) \<noteq> dynamic_extent" using st l by (cases e) (auto simp: all_static_def)
        then have st0: "static_of (hd e) = mval (hd e)" "mval (hd e) \<noteq> dynamic_extent" using static_val by auto
        obtain y ys where ey: "e = y # ys" using l by (cases e) auto
        have r: "round_up p (mval (hd e)) \<le> imax" and pi: "p \<le> imax"
          using m False l st0 h lim by (auto simp: lp_mandates_def Let_def stride_representable_iff hd_map ey)
        have "static_padding_stride imax p (length e) (mval (hd e)) = round_up p (mval (hd e))"
          using False l st0 r x0 [OF l z] i lim by (auto simp: static_padding_stride_def stride_representable_iff least_multiple_eq)
        moreover have "static_product_representable imax ?es 0 (static_padding_stride imax p (length e) (?es ! 0))"
          using m False l st lim unfolding lp_mandates_def Let_def static_evals [OF st] by (auto split: if_splits)
        ultimately have "round_up p (mval (hd e)) * prod_list (tl ?es) \<le> imax"
          using product_representable_iff [OF i(1)] static_factors_first [of ?es "mval y" "evals ys"] by (simp add: ey)
        then have "mapping_ok imax (left_padded_with_padding imax p e p)"
          using i x0 [OF l z] pi l by (intro with_padding_ok(1) [where x = "mval (hd e)"]) auto
        then show ?thesis using False by (simp add: from_extents_with_padding)
      qed
    next
      case False
      then show ?thesis using with_padding_ok(1) [of imax e _ p p] i pr by (auto simp: from_extents_with_padding)
    qed
  qed
qed

section \<open>Properties\<close>

text \<open>Conversions.\<close>

lemma to_stride_call:
  assumes ok: "mapping_ok imax m" and i: "index_space m is"
  shows "call imax (Layout_stride (extents_of m) (map (\<lambda>r. to_index imax (stride imax m r)) [0..<rank m])) is = call imax m is"
proof -
  have z: "0 \<notin> set (evals (extents_of m))" and l: "length is = rank m" using inside_pos [OF i] inside_length [OF i] by simp_all
  have wf: "mapping_wf imax m" and b: "list_all (\<lambda>x. x \<le> imax) (list_strides m)" using ok z by (simp_all add: mapping_ok_def)
  have "map (\<lambda>r. to_index imax (stride imax m r)) [0..<rank m] = list_strides m"
    using mapping_ok_stride [OF ok z] mapping_wf_length [OF wf] b by (intro nth_equalityI) (auto simp: list_all_length)
  moreover have "mapping_wf imax (Layout_stride (extents_of m) (list_strides m))" using wf b mapping_wf_length [OF wf] by (cases m) auto
  ultimately show ?thesis using call_eq [of imax "Layout_stride (extents_of m) (list_strides m)" "is"] call_eq [OF wf l] l by simp
qed

lemma exhaustive_strides:
  assumes ok: "mapping_ok imax m" and v: "padded_view m = Some (s, es, f)" and i: "index_space m is"
    and x: "left_padded_is_exhaustive imax m \<and> f = id \<or> right_padded_is_exhaustive imax m \<and> f = rev \<and> m = Layout_right_padded p e s"
  shows "length es > 1 \<longrightarrow> hd es = s" "pstrides s es = lstrides 1 es"
proof -
  have h: "length es > 1 \<longrightarrow> hd es \<le> s" "s \<le> imax" using ok v mapping_ok_view [OF v, of imax] inside_pos [OF padded_view_lin(2) [OF v i]] by simp_all
  show hd: "length es > 1 \<longrightarrow> hd es = s"
  proof
    assume l: "length es > 1"
    show "hd es = s"
    proof (cases m)
      case (Layout_left_padded p' e' s')
      then have e: "e' \<noteq> []" "length e' > 1" "s' = s" "es = evals e'" using v l by auto
      then have "mval (e' ! 0) = hd es" by (cases e') auto
      with e show ?thesis using x h l Layout_left_padded by (auto simp: left_padded_is_exhaustive_def lp_stride_def)
    next
      case (Layout_right_padded p' e' s')
      then have e: "e' \<noteq> []" "length e' > 1" "s' = s" "es = rev (evals e')" using v l by auto
      have hd_last: "mval (e' ! (length e' - 1)) = hd es" using e(1) by (simp add: e(4) hd_rev last_map last_conv_nth)
      have "f = rev" "f \<noteq> id"
      proof -
        show "f = rev" using v Layout_right_padded by simp
        moreover have "rev [0, 1 :: nat] \<noteq> id [0, 1]" by simp
        ultimately show "f \<noteq> id" by metis
      qed
      then have "to_index imax (mval (e' ! (length e' - 1))) = rp_stride imax e' s (length e' - 2)"
        using x Layout_right_padded e by (auto simp: right_padded_is_exhaustive_def)
      moreover have "rp_stride imax e' s (length e' - 2) = s" using e(1,2) by (auto simp: rp_stride_def)
      ultimately show ?thesis using hd_last h l by simp
    qed (use v in simp_all)
  qed
  show "pstrides s es = lstrides 1 es"
  proof (cases es)
    case (Cons e es')
    then show ?thesis using hd by (cases es') auto
  qed simp
qed

text \<open>
  C38.  A padded layout whose index space is representable, in every rank and with the code's wrapping
  arithmetic: different indices have different offsets, every offset is below
  \<open>required_span_size\<close>, and when \<open>is_exhaustive\<close> holds every offset below it is taken.  The
  conversions to \<open>layout_stride\<close>, and of an exhaustive mapping to the unpadded layout, keep every offset.
\<close>

theorem padded_layout_bijective:
  assumes ok: "mapping_ok imax m" and i: "index_space m is"
  shows "(\<forall>p e s. m = Layout_left_padded p e s \<or> m = Layout_right_padded p e s \<longrightarrow>
            call imax m is < required_span_size imax m \<and>
            (\<forall>js. index_space m js \<and> call imax m js = call imax m is \<longrightarrow> js = is)) \<and>
         (\<forall>p e s. m = Layout_left_padded p e s \<longrightarrow>
            call imax (left_padded_to_stride imax m) is = call imax m is \<and>
            (left_padded_is_exhaustive imax m \<longrightarrow>
               call imax (left_padded_to_left m) is = call imax m is \<and> (\<forall>n < required_span_size imax m. \<exists>js. index_space m js \<and> call imax m js = n))) \<and>
         (\<forall>p e s. m = Layout_right_padded p e s \<longrightarrow>
            call imax (right_padded_to_stride imax m) is = call imax m is \<and>
            (right_padded_is_exhaustive imax m \<longrightarrow>
               call imax (right_padded_to_right m) is = call imax m is \<and> (\<forall>n < required_span_size imax m. \<exists>js. index_space m js \<and> call imax m js = n)))"
proof (intro conjI allI impI; (elim disjE)?)
  have wf: "mapping_wf imax m" and l: "length is = rank m" using ok inside_length [OF i] by (simp_all add: mapping_ok_def)
  note C = mapping_ok_call [OF ok i]
  fix p e s
  show "call imax m is < required_span_size imax m" by (rule C(2))
  show "call imax m is < required_span_size imax m" by (rule C(2))
  { assume m: "m = Layout_left_padded p e s"
    then have v: "padded_view m = Some (s, evals e, id)" by simp
    show "js = is" if "index_space m js \<and> call imax m js = call imax m is" for js using padded_unique [OF ok v] i that by blast
    show "call imax (left_padded_to_stride imax m) is = call imax m is" unfolding left_padded_to_stride_def by (rule to_stride_call [OF ok i])
    assume x: "left_padded_is_exhaustive imax m"
    then have e: "length (evals e) > 1 \<longrightarrow> hd (evals e) = s" "pstrides s (evals e) = lstrides 1 (evals e)" using exhaustive_strides [OF ok v i] by blast+
    show "call imax (left_padded_to_left m) is = call imax m is"
      using call_eq [OF wf l] call_eq [of imax "Layout_left e" "is"] wf l e(2) m by (simp add: left_padded_to_left_def)
    show "\<exists>js. index_space m js \<and> call imax m js = n" if "n < required_span_size imax m" for n using padded_surj [OF ok v i e(1) that] . }
  { assume m: "m = Layout_right_padded p e s"
    then have v: "padded_view m = Some (s, rev (evals e), rev)" by simp
    show "js = is" if "index_space m js \<and> call imax m js = call imax m is" for js using padded_unique [OF ok v] i that by blast
    show "call imax (right_padded_to_stride imax m) is = call imax m is" unfolding right_padded_to_stride_def by (rule to_stride_call [OF ok i])
    assume x: "right_padded_is_exhaustive imax m"
    then have e: "length (rev (evals e)) > 1 \<longrightarrow> hd (rev (evals e)) = s" "pstrides s (rev (evals e)) = lstrides 1 (rev (evals e))"
      using exhaustive_strides [OF ok v i] m by blast+
    show "call imax (right_padded_to_right m) is = call imax m is"
      using call_eq [OF wf l] call_eq [of imax "Layout_right e" "is"] wf l e(2) m by (simp add: right_padded_to_right_def)
    show "\<exists>js. index_space m js \<and> call imax m js = n" if "n < required_span_size imax m" for n using padded_surj [OF ok v i e(1) that] . }
qed

text \<open>
  C40.  An instantiation of a padded layout with static extents that passes the mandates of its class
  is representable: whatever index type and padding value are used, the mapping built from the
  extents has strides and a size that fit, although the checks themselves and the code compute with
  wrapping arithmetic.
\<close>

theorem static_padded_types_ok:
  assumes "1 \<le> imax" "imax \<le> size_max" "length e \<le> dynamic_extent" "all_static e"
  shows "(lp_mandates imax p e \<longrightarrow> mapping_ok imax (left_padded_from_extents imax p e)) \<and>
         (rp_mandates imax p e \<longrightarrow> mapping_ok imax (right_padded_from_extents imax p e))"
proof (intro conjI impI)
  show "lp_mandates imax p e \<Longrightarrow> mapping_ok imax (left_padded_from_extents imax p e)" using lp_static_ok assms by blast
  assume m: "rp_mandates imax p e"
  obtain t where t: "right_padded_from_extents imax p e = Layout_right_padded p e t" by (simp add: right_padded_from_extents_def)
  have "mapping_ok imax (left_padded_from_extents imax p (rev e))"
    using m assms rp_lp_mandates [of imax e p] by (intro lp_static_ok) (auto simp: all_static_def)
  then show "mapping_ok imax (right_padded_from_extents imax p e)" using t right_left_from_extents [of imax p e t] by (simp add: right_view_ok)
qed

section \<open>Conversions and equality\<close>

lemma pstrides_short: "length es \<le> 1 \<Longrightarrow> pstrides s es = pstrides t es"
  by (cases es; cases "tl es") auto

lemma same_strides_call:
  "mapping_wf imax m \<Longrightarrow> mapping_wf imax n \<Longrightarrow> list_strides m = list_strides n \<Longrightarrow> length is = rank m \<Longrightarrow> rank n = rank m \<Longrightarrow>
   call imax m is = call imax n is"
  by (simp add: call_eq)

lemma padded_stride_simps:
  "1 < length e \<Longrightarrow> lp_stride imax e s 1 = s" "1 < length e \<Longrightarrow> rp_stride imax e s (length e - 2) = s"
  by (auto simp: lp_stride_def rp_stride_def)

text \<open>The strides a conversion between padded layouts keeps.\<close>

lemma from_padded_strides:
  assumes "s \<le> imax" "1 \<le> imax"
  shows "list_strides (left_padded_from_padded imax q (Layout_left_padded p e s)) = list_strides (Layout_left_padded p e s)"
    "list_strides (right_padded_from_padded imax q (Layout_right_padded p e s)) = list_strides (Layout_right_padded p e s)"
    "mapping_wf imax (left_padded_from_padded imax q (Layout_left_padded p e s))"
    "mapping_wf imax (right_padded_from_padded imax q (Layout_right_padded p e s))"
proof -
  show "list_strides (left_padded_from_padded imax q (Layout_left_padded p e s)) = list_strides (Layout_left_padded p e s)"
    using assms padded_stride_simps(1) [of e imax s] pstrides_short [of "evals e" 1 s]
    by (cases "1 < length e") (simp_all add: left_padded_from_padded_def to_index_id)
  show "list_strides (right_padded_from_padded imax q (Layout_right_padded p e s)) = list_strides (Layout_right_padded p e s)"
    using assms padded_stride_simps(2) [of e imax s] pstrides_short [of "rev (evals e)" 1 s]
    by (cases "1 < length e") (simp_all add: right_padded_from_padded_def to_index_id)
  show "mapping_wf imax (left_padded_from_padded imax q (Layout_left_padded p e s))"
    "mapping_wf imax (right_padded_from_padded imax q (Layout_right_padded p e s))"
    using assms by (simp_all add: left_padded_from_padded_def right_padded_from_padded_def to_index_id padded_stride_simps [unfolded One_nat_def])
qed

lemma padded_eq_strides:
  "left_padded_eq imax (Layout_left_padded p e s) (Layout_left_padded q f t) \<Longrightarrow>
     list_strides (Layout_left_padded p e s) = list_strides (Layout_left_padded q f t) \<and> length e = length f"
  "right_padded_eq imax (Layout_right_padded p e s) (Layout_right_padded q f t) \<Longrightarrow>
     list_strides (Layout_right_padded p e s) = list_strides (Layout_right_padded q f t) \<and> length e = length f"
proof -
  assume l: "left_padded_eq imax (Layout_left_padded p e s) (Layout_left_padded q f t)"
  then have e: "evals e = evals f" "length e = length f" using map_eq_imp_length_eq by (auto simp: left_padded_eq_def)
  then show "list_strides (Layout_left_padded p e s) = list_strides (Layout_left_padded q f t) \<and> length e = length f"
    using l padded_stride_simps(1) [of e imax s] padded_stride_simps(1) [of f imax t] pstrides_short [of "evals f" s t]
    by (cases "1 < length e") (simp_all add: left_padded_eq_def)
next
  assume r: "right_padded_eq imax (Layout_right_padded p e s) (Layout_right_padded q f t)"
  then have e: "evals e = evals f" "length e = length f" using map_eq_imp_length_eq by (auto simp: right_padded_eq_def)
  then show "list_strides (Layout_right_padded p e s) = list_strides (Layout_right_padded q f t) \<and> length e = length f"
    using r padded_stride_simps(2) [of e imax s] padded_stride_simps(2) [of f imax t] pstrides_short [of "rev (evals f)" s t]
    by (cases "1 < length e") (simp_all add: right_padded_eq_def)
qed

text \<open>
  Conversions between padded layouts keep every offset and give an equal mapping; equal mappings have
  equal offsets; and with at most one dimension the direction makes no difference.
\<close>

theorem padded_conversions_keep_offsets:
  assumes w: "s \<le> imax" "t \<le> imax" "1 \<le> imax" and l: "length is = length e"
  shows "call imax (left_padded_from_padded imax q (Layout_left_padded p e s)) is = call imax (Layout_left_padded p e s) is"
    "call imax (right_padded_from_padded imax q (Layout_right_padded p e s)) is = call imax (Layout_right_padded p e s) is"
    "left_padded_eq imax (Layout_left_padded p e s) (Layout_left_padded q f t) \<Longrightarrow>
       call imax (Layout_left_padded p e s) is = call imax (Layout_left_padded q f t) is"
    "right_padded_eq imax (Layout_right_padded p e s) (Layout_right_padded q f t) \<Longrightarrow>
       call imax (Layout_right_padded p e s) is = call imax (Layout_right_padded q f t) is"
    "length e \<le> 1 \<Longrightarrow> call imax (left_padded_from_other_way q (Layout_right_padded p e s)) is = call imax (Layout_right_padded p e s) is"
    "length e \<le> 1 \<Longrightarrow> call imax (right_padded_from_other_way q (Layout_left_padded p e s)) is = call imax (Layout_left_padded p e s) is"
proof -
  show "call imax (left_padded_from_padded imax q (Layout_left_padded p e s)) is = call imax (Layout_left_padded p e s) is"
    using w l from_padded_strides(1,3) [OF w(1,3)] by (intro same_strides_call) (simp_all add: left_padded_from_padded_def)
  show "call imax (right_padded_from_padded imax q (Layout_right_padded p e s)) is = call imax (Layout_right_padded p e s) is"
    using w l from_padded_strides(2,4) [OF w(1,3)] by (intro same_strides_call) (simp_all add: right_padded_from_padded_def)
  show "left_padded_eq imax (Layout_left_padded p e s) (Layout_left_padded q f t) \<Longrightarrow>
       call imax (Layout_left_padded p e s) is = call imax (Layout_left_padded q f t) is"
    using w l padded_eq_strides(1) [of imax p e s q f t] by (intro same_strides_call) simp_all
  show "right_padded_eq imax (Layout_right_padded p e s) (Layout_right_padded q f t) \<Longrightarrow>
       call imax (Layout_right_padded p e s) is = call imax (Layout_right_padded q f t) is"
    using w l padded_eq_strides(2) [of imax p e s q f t] by (intro same_strides_call) simp_all
  have short: "pstrides 1 (evals e) = rev (pstrides s (rev (evals e)))" "rev (pstrides 1 (rev (evals e))) = pstrides s (evals e)" if "length e \<le> 1"
    using that by (cases e; cases "tl e"; simp)+
  show "length e \<le> 1 \<Longrightarrow> call imax (left_padded_from_other_way q (Layout_right_padded p e s)) is = call imax (Layout_right_padded p e s) is"
    using w l short(1) by (intro same_strides_call) (simp_all add: left_padded_from_other_way_def)
  show "length e \<le> 1 \<Longrightarrow> call imax (right_padded_from_other_way q (Layout_left_padded p e s)) is = call imax (Layout_left_padded p e s) is"
    using w l short(2) by (intro same_strides_call) (simp_all add: right_padded_from_other_way_def)
qed

text \<open>
  From an unpadded layout, the static assertion makes up for the padding: when it holds and the
  padded extent is static, the padded mapping addresses the same elements.  The index type is not \<open>size_t\<close> itself, whose
  largest value is the mark of a dynamic stride.
\<close>

lemma unpadded_stride:
  assumes "unpadded_conversion_mandate imax p n x x" "1 < n" "x \<noteq> dynamic_extent" "x \<le> imax" "imax < size_max" "p \<noteq> dynamic_extent"
    "static_stride_representable imax p x"
  shows "make_stride imax (to_index imax x) (to_index imax p) = x"
proof (cases "x = 0")
  case False
  have r: "round_up p x \<le> imax" using assms(5,7) by (simp add: stride_representable_iff static_size_limit_def)
  then have "static_padding_stride imax p n x = round_up p x"
    using assms by (simp add: static_padding_stride_def least_multiple_eq)
  then have up: "round_up p x = x" using assms(1-5) r by (auto simp: unpadded_conversion_mandate_def dynamic_extent_def size_max_def)
  then have "p \<le> x" using False round_up_least [of p x] dvd_imp_le [of p x] by (cases "p = 0") auto
  then show ?thesis using up assms(4) by (simp add: make_stride_def least_multiple_eq)
qed (simp add: make_stride_def least_multiple_at_least_def to_index_def)

lemma padded_from_unpadded:
  assumes "1 \<le> imax" "imax < size_max" "length is = length e" "1 < length e"
    and "static_of (e ! 0) \<noteq> dynamic_extent" "mval (e ! 0) \<le> imax" "lp_mandates imax p e"
    and "unpadded_conversion_mandate imax p (length e) (static_of (e ! 0)) (static_of (e ! 0))"
  shows "call imax (left_padded_from_left imax p (Layout_left e)) is = call imax (Layout_left e) is"
proof -
  have v: "static_of (e ! 0) = mval (e ! 0)" using assms(5) by (rule static_val)
  obtain y ys where e: "e = y # ys" using assms(4) by (cases e) auto
  have "left_padded_from_left imax p (Layout_left e) = Layout_left_padded p e (mval (e ! 0))"
    using assms v unpadded_stride [of imax p "length e" "mval (e ! 0)"]
    by (auto simp: left_padded_from_left_def left_padded_from_extents_def to_index_id lp_mandates_def Let_def e)
  then show ?thesis using assms by (intro same_strides_call) (simp_all add: e)
qed

lemma padded_from_unpadded_right:
  assumes "1 \<le> imax" "imax < size_max" "length is = length e" "1 < length e"
    and "static_of (e ! (length e - 1)) \<noteq> dynamic_extent" "mval (e ! (length e - 1)) \<le> imax" "rp_mandates imax p e"
    and "unpadded_conversion_mandate imax p (length e) (static_of (e ! (length e - 1))) (static_of (e ! (length e - 1)))"
  shows "call imax (right_padded_from_right imax p (Layout_right e)) is = call imax (Layout_right e) is"
proof -
  let ?x = "e ! (length e - 1)"
  have v: "static_of ?x = mval ?x" using assms(5) by (rule static_val)
  have ne: "e \<noteq> []" using assms(4) by auto
  obtain y ys where e: "rev e = y # ys" using ne by (cases "rev e") auto
  have y: "y = ?x" using ne e by (metis hd_rev last_conv_nth list.sel(1))
  have r: "rev (evals e) = mval ?x # evals ys" using e unfolding y by (metis list.simps(9) rev_map)
  have "right_padded_from_right imax p (Layout_right e) = Layout_right_padded p e (mval ?x)"
    using assms v ne unpadded_stride [of imax p "length e" "mval ?x"]
    by (auto simp: right_padded_from_right_def right_padded_from_extents_def to_index_id rp_mandates_def Let_def)
  then show ?thesis using assms by (intro same_strides_call) (simp_all add: r)
qed

section \<open>A concrete layout\<close>

text \<open>A 3 by 4 matrix of 8-bit indices, whose columns are padded to a multiple of 4.\<close>

definition layout_demo :: mapping where
  "layout_demo = left_padded_from_extents 255 4 [Cw 3, Cw 4]"

lemma layout_demo_eq: "layout_demo = Layout_left_padded 4 [Cw 3, Cw 4] 4"
  by (simp add: layout_demo_def left_padded_from_extents_def make_stride_def least_multiple_at_least_def to_index_def dynamic_extent_def size_max_def)

theorem static_padded_types_ok_witness: "lp_mandates 255 4 [Cw 3, Cw 4] \<and> mapping_ok 255 layout_demo"
proof -
  have "lp_mandates 255 4 [Cw 3, Cw 4]"
    by (simp add: lp_mandates_def all_static_def static_product_representable_def static_factors_def static_stride_representable_def
      static_size_limit_def static_padding_stride_def least_multiple_at_least_def to_index_def dynamic_extent_def size_max_def Let_def)
  moreover have "all_static [Cw 3, Cw 4]" by (simp add: all_static_def dynamic_extent_def size_max_def)
  ultimately show ?thesis using static_padded_types_ok [of 255 "[Cw 3, Cw 4]" 4] by (simp add: layout_demo_def dynamic_extent_def size_max_def)
qed

theorem padded_layout_bijective_witness: "call 255 layout_demo [2, 3] = 14 \<and> call 255 layout_demo [2, 3] < required_span_size 255 layout_demo"
proof -
  have "mapping_ok 255 layout_demo" by (simp add: layout_demo_eq mapping_ok_def space_size_def)
  moreover have "index_space layout_demo [2, 3]" by (simp add: layout_demo_eq)
  moreover have "call 255 layout_demo [2, 3] = 14" by (simp add: layout_demo_eq lp_call_def lp_stride_def to_index_def)
  ultimately show ?thesis using padded_layout_bijective [of 255 layout_demo "[2, 3]"] layout_demo_eq by blast
qed

end
