(* ===== verification/Submdspan.thy ===== *)
theory Submdspan
  imports Mdspan_Layout
begin

text \<open>
  Slices of multidimensional views (\<open>backport/cpp26/submdspan.hpp\<close>): the canonical form of slices, the
  extents of the result, the choice of its layout from the types of the slices, and its offset and
  strides.

  The number of slices is the rank of the source, so tuples of slices are lists.  A member of a slice
  is a run-time value or a constant (\<open>constant_wrapper\<close>, \<open>integral_constant\<close>); the choice of a
  layout only looks at constants.  A construct the code rejects at compile time, or a division by
  a stride of zero, has the value \<open>None\<close>.  The functions \<open>submdspan_mapping\<close> compute the result; the
  static assertions of its type, \<open>layout_mandates\<close>, are checked where \<open>submdspan\<close> returns it.

  An index type is given by its largest value, and indices are not negative.
\<close>

section \<open>Slices\<close>

datatype raw_slice =
    R_full
  | R_index member
  | R_extent member member member
  | R_range member member member
  | R_pair member member

text \<open>Canonical slices: \<open>Ext\<close> has an offset, an extent (a number of elements) and a stride.\<close>

datatype slice = Full | Idx member | Ext member member member

fun is_index_slice :: "slice \<Rightarrow> bool" where
  "is_index_slice (Idx m) = True"
| "is_index_slice s = False"

fun is_full :: "slice \<Rightarrow> bool" where
  "is_full Full = True"
| "is_full s = False"

fun is_unit_stride_slice :: "slice \<Rightarrow> bool" where
  "is_unit_stride_slice Full = True"
| "is_unit_stride_slice (Ext f x (Cw n)) = (n = 1)"
| "is_unit_stride_slice s = False"

fun is_constant_wrapper :: "member \<Rightarrow> bool" where
  "is_constant_wrapper (Cw n) = True"
| "is_constant_wrapper (Dyn n) = False"

subsection \<open>Canonical slices\<close>

fun canonical_index :: "nat \<Rightarrow> member \<Rightarrow> member option" where
  "canonical_index imax (Cw n) = (if n \<le> imax then Some (Cw n) else None)"
| "canonical_index imax (Dyn n) = Some (Dyn (to_index imax n))"

text \<open>
  The difference of two canonical indices is a constant if both are.  A negative difference of
  run-time values wraps around.  A negative difference of constants wraps around in an unsigned
  type of at least the width of \<open>int\<close>; in any other type it is a negative constant, which is no index.
\<close>

definition wide_unsigned :: "nat \<Rightarrow> bool" where
  "wide_unsigned imax \<longleftrightarrow> imax = 2 ^ 32 - 1 \<or> imax = 2 ^ 64 - 1"

definition index_difference :: "nat \<Rightarrow> member \<Rightarrow> member \<Rightarrow> member option" where
  "index_difference imax a b =
     (let d = to_index imax (mval a + (imax + 1) - mval b)
      in if is_constant_wrapper a \<and> is_constant_wrapper b
         then (if mval b \<le> mval a \<or> wide_unsigned imax then Some (Cw d) else None) else Some (Dyn d))"

definition canonical_stride :: "nat \<Rightarrow> member \<Rightarrow> member option \<Rightarrow> member option" where
  "canonical_stride imax c_span strides =
     (case strides of
        None \<Rightarrow> Some (Cw 1)
      | Some t \<Rightarrow>
          (if c_span = Cw 0 then Some (Cw 1)
           else Option.bind (canonical_index imax t)
                  (\<lambda>st. Some (if is_constant_wrapper st then st else Dyn (if mval c_span = 0 then 1 else mval st)))))"

definition canonical_range_slice :: "nat \<Rightarrow> member \<Rightarrow> member \<Rightarrow> member option \<Rightarrow> slice option" where
  "canonical_range_slice imax offset span strides =
     Option.bind (canonical_index imax offset) (\<lambda>c_offset.
     Option.bind (canonical_index imax span) (\<lambda>c_span.
     Option.bind (canonical_stride imax c_span strides) (\<lambda>c_stride.
       if mval c_stride = 0 \<and> (is_constant_wrapper c_stride \<or> mval c_span \<noteq> 0) then None
       else let n = (if mval c_span = 0 then 0 else to_index imax (1 + (mval c_span - 1) div mval c_stride))
            in Some (Ext c_offset (if is_constant_wrapper c_span \<and> is_constant_wrapper c_stride then Cw n else Dyn n) c_stride))))"

fun canonical_slice :: "nat \<Rightarrow> raw_slice \<Rightarrow> slice option" where
  "canonical_slice imax R_full = Some Full"
| "canonical_slice imax (R_index m) = Option.bind (canonical_index imax m) (\<lambda>c. Some (Idx c))"
| "canonical_slice imax (R_extent f x s) =
     Option.bind (canonical_index imax f) (\<lambda>cf. Option.bind (canonical_index imax x) (\<lambda>cx. Option.bind (canonical_index imax s) (\<lambda>cs. Some (Ext cf cx cs))))"
| "canonical_slice imax (R_range f l s) =
     Option.bind (canonical_index imax f) (\<lambda>c_first. Option.bind (canonical_index imax l) (\<lambda>c_last. Option.bind (canonical_index imax s) (\<lambda>c_stride.
     Option.bind (index_difference imax c_last c_first) (\<lambda>span. canonical_range_slice imax c_first span (Some c_stride)))))"
| "canonical_slice imax (R_pair f l) =
     Option.bind (canonical_index imax f) (\<lambda>c_first. Option.bind (canonical_index imax l) (\<lambda>c_last.
     Option.bind (index_difference imax c_last c_first) (\<lambda>span. canonical_range_slice imax c_first span None)))"

subsection \<open>Slice types that are checked at compile time\<close>

definition has_valid_static_stride :: "member \<Rightarrow> member \<Rightarrow> bool" where
  "has_valid_static_stride x s = (if is_constant_wrapper x \<and> is_constant_wrapper s then mval s > 0 else True)"

fun is_canonical_slice :: "nat \<Rightarrow> slice \<Rightarrow> bool" where
  "is_canonical_slice imax Full = True"
| "is_canonical_slice imax (Idx m) = (mval m \<le> imax)"
| "is_canonical_slice imax (Ext f x s) = (mval f \<le> imax \<and> mval x \<le> imax \<and> mval s \<le> imax \<and> has_valid_static_stride x s)"

definition static_index_or :: "member \<Rightarrow> nat \<Rightarrow> nat" where
  "static_index_or m fallback = (if is_constant_wrapper m then mval m else fallback)"

fun is_valid_static_slice_type :: "member \<Rightarrow> slice \<Rightarrow> bool" where
  "is_valid_static_slice_type src Full = True"
| "is_valid_static_slice_type src (Idx m) =
     (if static_of src = dynamic_extent then True else if is_constant_wrapper m then mval m < static_of src else True)"
| "is_valid_static_slice_type src (Ext f e s) =
     (if static_of src = dynamic_extent then True
      else let x = static_of src; offset = static_index_or f 0; ext = static_index_or e 0; st = static_index_or s 1
           in if offset > x \<or> ext > x then False
              else if ext = 0 then True
              else if offset \<ge> x then False
              else if ext = 1 then True
              else if st = 0 then False
              else ext - 1 \<le> (x - offset - 1) div st)"

definition has_canonical_mapping_slices :: "nat \<Rightarrow> member list \<Rightarrow> slice list \<Rightarrow> bool" where
  "has_canonical_mapping_slices imax e ss \<longleftrightarrow>
     length ss = length e \<and> list_all (is_canonical_slice imax) ss \<and> list_all2 is_valid_static_slice_type e ss"

text \<open>
  \<open>canonical_slices\<close>, with the condition \<open>has_valid_raw_slice_types\<close> on its slices: each has a canonical
  form, and these are valid for the extents.
\<close>

definition canonical_slices :: "nat \<Rightarrow> member list \<Rightarrow> raw_slice list \<Rightarrow> slice list option" where
  "canonical_slices imax src raw =
     Option.bind (those (map (canonical_slice imax) raw)) (\<lambda>ss. if has_canonical_mapping_slices imax src ss then Some ss else None)"

section \<open>Extents, offsets and strides of the result\<close>

fun first_of :: "slice \<Rightarrow> nat" where
  "first_of Full = 0"
| "first_of (Idx m) = mval m"
| "first_of (Ext f x s) = mval f"

text \<open>The builder of the extents: \<open>ns\<close> are the extents so far.  A full slice keeps the extent, static or not.\<close>

fun extents_builder :: "member list \<Rightarrow> slice list \<Rightarrow> member list \<Rightarrow> member list" where
  "extents_builder (x # src) (Full # ss) ns = extents_builder src ss (ns @ [x])"
| "extents_builder (x # src) (Idx m # ss) ns = extents_builder src ss ns"
| "extents_builder (x # src) (Ext f n s # ss) ns = extents_builder src ss (ns @ [n])"
| "extents_builder src ss ns = ns"

definition subextents :: "nat \<Rightarrow> member list \<Rightarrow> raw_slice list \<Rightarrow> member list option" where
  "subextents imax src raw = Option.bind (canonical_slices imax src raw) (\<lambda>ss. Some (extents_builder src ss []))"

definition one_oob :: "nat \<Rightarrow> slice \<Rightarrow> bool" where
  "one_oob x sl \<longleftrightarrow> first_of sl = x"

fun any_oob :: "member list \<Rightarrow> slice list \<Rightarrow> bool" where
  "any_oob (x # e) (s # ss) \<longleftrightarrow> one_oob (mval x) s \<or> any_oob e ss"
| "any_oob e ss \<longleftrightarrow> False"

fun inv_map_rank :: "nat \<Rightarrow> nat list \<Rightarrow> slice list \<Rightarrow> nat list" where
  "inv_map_rank c ms [] = ms"
| "inv_map_rank c ms (s # ss) = inv_map_rank (c + 1) (if is_index_slice s then ms else ms @ [c]) ss"

fun stride_factor :: "slice \<Rightarrow> nat" where
  "stride_factor (Ext f x s) = (if mval x > 1 then mval s else 1)"
| "stride_factor s = 1"

definition make_stride_factors :: "slice list \<Rightarrow> nat list" where
  "make_stride_factors ss = map stride_factor ss"

definition build_sub_strides :: "nat \<Rightarrow> mapping \<Rightarrow> nat list \<Rightarrow> nat list \<Rightarrow> nat list" where
  "build_sub_strides imax src im sf = map (\<lambda>m. to_index imax (to_index size_max (stride imax src m * sf ! m))) im"

section \<open>Layout preservation\<close>

definition ll_preserving :: "nat \<Rightarrow> slice list \<Rightarrow> bool" where
  "ll_preserving sub_rank ss =
     (if sub_rank = 0 then True
      else if sub_rank = 1 then
        (let first_rng = length (takeWhile is_index_slice ss)
         in if first_rng = length ss then False
            else is_unit_stride_slice (ss ! first_rng) \<and> list_all is_full (take first_rng ss) \<and> list_all is_index_slice (drop (first_rng + 1) ss))
      else list_all is_full (take (sub_rank - 1) ss) \<and> is_unit_stride_slice (ss ! (sub_rank - 1)) \<and> list_all is_index_slice (drop sub_rank ss))"

definition lr_preserving :: "nat \<Rightarrow> slice list \<Rightarrow> bool" where
  "lr_preserving sub_rank ss =
     (let n = length ss
      in if sub_rank = 0 then True
         else if sub_rank = 1 then
           (if list_all is_index_slice ss then False
            else let last_rng = n - 1 - length (takeWhile is_index_slice (rev ss))
                 in is_unit_stride_slice (ss ! last_rng) \<and> list_all is_full (drop (last_rng + 1) ss) \<and> list_all is_index_slice (take last_rng ss))
         else list_all is_full (drop (n - sub_rank + 1) ss) \<and> is_unit_stride_slice (ss ! (n - sub_rank)) \<and> list_all is_index_slice (take (n - sub_rank) ss))"

definition left_padded_stride_index :: "nat \<Rightarrow> slice list \<Rightarrow> nat" where
  "left_padded_stride_index sub_rank ss =
     (let n = length ss
      in if sub_rank < 2 \<or> n < 2 then n
         else if \<not> is_unit_stride_slice (ss ! 0) then n
         else let stride_index = 1 + length (takeWhile (\<lambda>s. \<not> is_unit_stride_slice s) (drop 1 ss))
              in if stride_index = n \<or> sub_rank - 2 > n - 1 - stride_index then n
                 else let final_unit = stride_index + sub_rank - 2
                      in if \<not> list_all (\<lambda>k. is_full (ss ! k)) [stride_index..<final_unit] then n
                         else if is_unit_stride_slice (ss ! final_unit) then stride_index else n)"

text \<open>The search from the right: the value is \<open>None\<close> when no unit-stride slice is left of the last one.\<close>

fun last_unit_before :: "slice list \<Rightarrow> nat \<Rightarrow> nat option" where
  "last_unit_before ss 0 = None"
| "last_unit_before ss (Suc k) = (if is_unit_stride_slice (ss ! k) then Some k else last_unit_before ss k)"

definition right_padded_stride_index :: "nat \<Rightarrow> slice list \<Rightarrow> nat" where
  "right_padded_stride_index sub_rank ss =
     (let n = length ss
      in if sub_rank < 2 \<or> n < 2 then n
         else if \<not> is_unit_stride_slice (ss ! (n - 1)) then n
         else case last_unit_before ss (n - 1) of
                None \<Rightarrow> n
              | Some stride_index \<Rightarrow>
                  (if sub_rank - 2 > stride_index then n
                   else let final_unit = stride_index - (sub_rank - 2)
                        in if \<not> list_all (\<lambda>k. is_full (ss ! k)) [final_unit + 1..<stride_index + 1] then n
                           else if is_unit_stride_slice (ss ! final_unit) then stride_index else n))"

fun extent_product_loop :: "nat list \<Rightarrow> nat \<Rightarrow> nat" where
  "extent_product_loop [] result = result"
| "extent_product_loop (x # xs) result = (if x = dynamic_extent then dynamic_extent else extent_product_loop xs (to_index size_max (result * x)))"

definition static_extent_product :: "member list \<Rightarrow> nat \<Rightarrow> nat \<Rightarrow> nat \<Rightarrow> nat" where
  "static_extent_product e first last_k initial =
     (if initial = dynamic_extent then dynamic_extent
      else extent_product_loop (map (\<lambda>k. static_of (e ! k)) [first..<last_k]) initial)"

definition left_static_padding_stride :: "nat \<Rightarrow> member list \<Rightarrow> nat" where
  "left_static_padding_stride padding_value e =
     (if length e \<le> 1 then 1
      else if padding_value = dynamic_extent \<or> static_of (e ! 0) = dynamic_extent then dynamic_extent
      else least_multiple_at_least size_max padding_value (static_of (e ! 0)))"

definition right_static_padding_stride :: "nat \<Rightarrow> member list \<Rightarrow> nat" where
  "right_static_padding_stride padding_value e =
     (if length e \<le> 1 then 1
      else if padding_value = dynamic_extent \<or> static_of (e ! (length e - 1)) = dynamic_extent then dynamic_extent
      else least_multiple_at_least size_max padding_value (static_of (e ! (length e - 1))))"

section \<open>The mapping of a slice\<close>

definition sub_offset :: "nat \<Rightarrow> mapping \<Rightarrow> slice list \<Rightarrow> nat" where
  "sub_offset imax src ss =
     (if any_oob (extents_of src) ss then required_span_size imax src
      else call imax src (map (\<lambda>s. to_index imax (first_of s)) ss))"

definition strided_result :: "nat \<Rightarrow> mapping \<Rightarrow> member list \<Rightarrow> slice list \<Rightarrow> mapping" where
  "strided_result imax src sub_ext ss =
     Layout_stride sub_ext (build_sub_strides imax src (inv_map_rank 0 [] ss) (make_stride_factors ss))"

definition submdspan_mapping_left :: "nat \<Rightarrow> member list \<Rightarrow> slice list \<Rightarrow> mapping \<times> nat" where
  "submdspan_mapping_left imax e ss =
     (let src = Layout_left e;
          sub_ext = extents_builder e ss [];
          sr = length e; dr = length sub_ext;
          off = sub_offset imax src ss;
          si = left_padded_stride_index dr ss
      in if sr = 0 then (Layout_left sub_ext, 0)
         else if dr = 0 then (Layout_left sub_ext, off)
         else if ll_preserving dr ss then (Layout_left sub_ext, off)
         else if si \<noteq> sr then (left_padded_with_padding imax (static_extent_product e 0 si 1) sub_ext (stride imax src si), off)
         else (strided_result imax src sub_ext ss, off))"

definition submdspan_mapping_right :: "nat \<Rightarrow> member list \<Rightarrow> slice list \<Rightarrow> mapping \<times> nat" where
  "submdspan_mapping_right imax e ss =
     (let src = Layout_right e;
          sub_ext = extents_builder e ss [];
          sr = length e; dr = length sub_ext;
          off = sub_offset imax src ss;
          si = right_padded_stride_index dr ss
      in if sr = 0 then (Layout_right sub_ext, 0)
         else if dr = 0 then (Layout_right sub_ext, off)
         else if lr_preserving dr ss then (Layout_right sub_ext, off)
         else if si \<noteq> sr then (right_padded_with_padding imax (static_extent_product e (si + 1) sr 1) sub_ext (stride imax src si), off)
         else (strided_result imax src sub_ext ss, off))"

definition submdspan_mapping_stride :: "nat \<Rightarrow> member list \<Rightarrow> nat list \<Rightarrow> slice list \<Rightarrow> mapping \<times> nat" where
  "submdspan_mapping_stride imax e st ss =
     (let src = Layout_stride e st; sub_ext = extents_builder e ss []
      in if length e = 0 then (Layout_stride sub_ext [], 0)
         else (strided_result imax src sub_ext ss, sub_offset imax src ss))"

definition submdspan_mapping_left_padded :: "nat \<Rightarrow> nat \<Rightarrow> member list \<Rightarrow> nat \<Rightarrow> slice list \<Rightarrow> mapping \<times> nat" where
  "submdspan_mapping_left_padded imax p e stride_1 ss =
     (let src = Layout_left_padded p e stride_1;
          sub_ext = extents_builder e ss [];
          sr = length e; dr = length sub_ext;
          off = sub_offset imax src ss;
          si = left_padded_stride_index dr ss
      in if sr = 0 then (src, 0)
         else if dr = 0 then (Layout_left sub_ext, off)
         else if dr = 1 \<and> is_unit_stride_slice (ss ! 0) then (Layout_left sub_ext, off)
         else if si \<noteq> sr then
           (left_padded_with_padding imax (static_extent_product e 1 si (left_static_padding_stride p e)) sub_ext (stride imax src si), off)
         else (strided_result imax src sub_ext ss, off))"

definition submdspan_mapping_right_padded :: "nat \<Rightarrow> nat \<Rightarrow> member list \<Rightarrow> nat \<Rightarrow> slice list \<Rightarrow> mapping \<times> nat" where
  "submdspan_mapping_right_padded imax p e stride_rm2 ss =
     (let src = Layout_right_padded p e stride_rm2;
          sub_ext = extents_builder e ss [];
          sr = length e; dr = length sub_ext;
          off = sub_offset imax src ss;
          si = right_padded_stride_index dr ss
      in if sr = 0 then (src, 0)
         else if dr = 0 then (Layout_right sub_ext, off)
         else if dr = 1 \<and> is_unit_stride_slice (ss ! (sr - 1)) then (Layout_right sub_ext, off)
         else if si \<noteq> sr then
           (right_padded_with_padding imax (static_extent_product e (si + 1) (sr - 1) (right_static_padding_stride p e)) sub_ext (stride imax src si), off)
         else (strided_result imax src sub_ext ss, off))"

fun submdspan_mapping :: "nat \<Rightarrow> mapping \<Rightarrow> slice list \<Rightarrow> mapping \<times> nat" where
  "submdspan_mapping imax (Layout_left e) ss = submdspan_mapping_left imax e ss"
| "submdspan_mapping imax (Layout_right e) ss = submdspan_mapping_right imax e ss"
| "submdspan_mapping imax (Layout_stride e st) ss = submdspan_mapping_stride imax e st ss"
| "submdspan_mapping imax (Layout_left_padded p e s) ss = submdspan_mapping_left_padded imax p e s ss"
| "submdspan_mapping imax (Layout_right_padded p e s) ss = submdspan_mapping_right_padded imax p e s ss"

text \<open>A view is a handle and a mapping; the accessor adds an offset to the handle.\<close>

record view =
  data_handle :: nat
  view_mapping :: mapping

definition submdspan :: "nat \<Rightarrow> view \<Rightarrow> raw_slice list \<Rightarrow> view option" where
  "submdspan imax src raw =
     Option.bind (canonical_slices imax (extents_of (view_mapping src)) raw) (\<lambda>ss.
       case submdspan_mapping imax (view_mapping src) ss of
         (m, off) \<Rightarrow>
           if layout_mandates imax m then Some \<lparr>data_handle = data_handle src + off, view_mapping = m\<rparr> else None)"

section \<open>What a slice selects\<close>

text \<open>The precondition of a slice on a dimension, and the index of the source that an index of the result stands for.\<close>

fun valid_slice :: "member \<Rightarrow> slice \<Rightarrow> bool" where
  "valid_slice x Full \<longleftrightarrow> True"
| "valid_slice x (Idx m) \<longleftrightarrow> mval m < mval x"
| "valid_slice x (Ext f n s) \<longleftrightarrow>
     (if mval n = 0 then mval f \<le> mval x
      else mval f + (mval n - 1) * mval s < mval x \<and> (mval n > 1 \<longrightarrow> mval s > 0))"

fun slice_index :: "slice list \<Rightarrow> nat list \<Rightarrow> nat list" where
  "slice_index (Idx m # ss) js = mval m # slice_index ss js"
| "slice_index (Full # ss) (j # js) = j # slice_index ss js"
| "slice_index (Ext f n s # ss) (j # js) = (mval f + j * mval s) # slice_index ss js"
| "slice_index ss js = []"

fun sub_ext :: "member list \<Rightarrow> slice list \<Rightarrow> member list" where
  "sub_ext (x # e) (Full # ss) = x # sub_ext e ss"
| "sub_ext (x # e) (Idx m # ss) = sub_ext e ss"
| "sub_ext (x # e) (Ext f n s # ss) = n # sub_ext e ss"
| "sub_ext e ss = []"

fun sub_strides :: "nat list \<Rightarrow> slice list \<Rightarrow> nat list" where
  "sub_strides (t # st) (Idx m # ss) = sub_strides st ss"
| "sub_strides (t # st) (sl # ss) = t * stride_factor sl # sub_strides st ss"
| "sub_strides st ss = []"

lemma extents_builder_eq: "extents_builder e ss ns = ns @ sub_ext e ss"
  by (induction e ss ns rule: extents_builder.induct) auto

text \<open>An induction over extents, slices and strides of the same length.\<close>

lemma slice_induct [consumes 1, case_names Nil Full Idx Ext]:
  assumes "length e = length ss"
    "P [] []"
    "\<And>x e ss. length e = length ss \<Longrightarrow> P e ss \<Longrightarrow> P (x # e) (Full # ss)"
    "\<And>x e m ss. length e = length ss \<Longrightarrow> P e ss \<Longrightarrow> P (x # e) (Idx m # ss)"
    "\<And>x e f n s ss. length e = length ss \<Longrightarrow> P e ss \<Longrightarrow> P (x # e) (Ext f n s # ss)"
  shows "P e ss"
  using assms(1)
proof (induction e ss rule: list_induct2)
  case (Cons x e sl ss)
  then show ?case using assms(3-5) by (cases sl) auto
qed (rule assms(2))

lemma slice_select:
  assumes "list_all2 valid_slice e ss" "inside (evals (sub_ext e ss)) js"
  shows "inside (evals e) (slice_index ss js)"
    "length st = length ss \<Longrightarrow> lin st (slice_index ss js) = lin st (map first_of ss) + lin (sub_strides st ss) js"
    "\<not> any_oob e ss"
proof -
  have "length e = length ss" using assms(1) by (rule list_all2_lengthD)
  then have "inside (evals e) (slice_index ss js) \<and> \<not> any_oob e ss \<and>
      (\<forall>st. length st = length ss \<longrightarrow> lin st (slice_index ss js) = lin st (map first_of ss) + lin (sub_strides st ss) js)"
    using assms
  proof (induction e ss arbitrary: js rule: slice_induct)
    case (Full x e ss)
    then obtain j js' where "js = j # js'" by (cases js) auto
    with Full show ?case by (auto simp: one_oob_def length_Suc_conv)
  next
    case (Idx x e m ss)
    then show ?case by (auto simp: one_oob_def length_Suc_conv)
  next
    case (Ext x e f n s ss)
    then obtain j js' where js: "js = j # js'" "j < mval n" by (cases js) auto
    have "j * mval s \<le> (mval n - 1) * mval s" using js(2) by (intro mult_le_mono1) simp
    moreover have "mval f + (mval n - 1) * mval s < mval x" using Ext js(2) by (auto split: if_splits)
    ultimately have "mval f + j * mval s < mval x" "mval f < mval x" by linarith+
    moreover have "j = 0" if "\<not> 1 < mval n" using that js(2) by simp
    ultimately show ?case using Ext js by (auto simp: one_oob_def length_Suc_conv algebra_simps)
  qed simp
  then show "inside (evals e) (slice_index ss js)" "length st = length ss \<Longrightarrow> lin st (slice_index ss js) = lin st (map first_of ss) + lin (sub_strides st ss) js"
    "\<not> any_oob e ss" by blast+
qed

section \<open>Offsets and strides\<close>

lemma sub_strides_length: "length e = length ss \<Longrightarrow> length st = length ss \<Longrightarrow> length (sub_strides st ss) = length (sub_ext e ss)"
proof (induction e ss arbitrary: st rule: slice_induct)
  case (Full x e ss)
  then show ?case by (cases st) auto
next
  case (Idx x e m ss)
  then show ?case by (cases st) auto
next
  case (Ext x e f n s ss)
  then show ?case by (cases st) auto
qed simp

lemma inv_map_shift: "inv_map_rank c ms ss = ms @ map (\<lambda>k. k + c) (inv_map_rank 0 [] ss)"
proof (induction ss arbitrary: c ms)
  case (Cons s ss)
  show ?case using Cons.IH [of "Suc c"] Cons.IH [of 1 "if is_index_slice s then [] else [0]"] by (auto simp: comp_def)
qed simp

lemma build_sub_strides_eq:
  "length st = length ss \<Longrightarrow> map (\<lambda>m. h (st ! m * make_stride_factors ss ! m)) (inv_map_rank 0 [] ss) = map h (sub_strides st ss)"
proof (induction st ss rule: list_induct2)
  case (Cons t st sl ss)
  have "map (\<lambda>m. h ((t # st) ! m * make_stride_factors (sl # ss) ! m)) (map Suc (inv_map_rank 0 [] ss)) = map h (sub_strides st ss)"
    using Cons.IH by (simp add: comp_def make_stride_factors_def)
  then show ?case using inv_map_shift [of 1 "if is_index_slice sl then [] else [0]" ss]
    by (cases sl) (auto simp: make_stride_factors_def)
qed simp

lemma inv_map_bound: "k \<in> set (inv_map_rank 0 [] ss) \<Longrightarrow> k < length ss"
proof (induction ss arbitrary: k)
  case (Cons s ss)
  then show ?case using inv_map_shift [of 1 "if is_index_slice s then [] else [0]" ss] by (auto split: if_splits)
qed simp

lemma sub_strides_bound:
  assumes "list_all2 valid_slice e ss" "length st = length ss" "list_all (\<lambda>x. x \<le> b) st" "lin st (top_index (evals e)) \<le> b"
  shows "list_all (\<lambda>x. x \<le> b) (sub_strides st ss)"
proof -
  have "length e = length ss" using assms(1) by (rule list_all2_lengthD)
  then show ?thesis using assms
  proof (induction e ss arbitrary: st rule: slice_induct)
    case (Full x e ss)
    then show ?case by (cases st) auto
  next
    case (Idx x e m ss)
    then show ?case by (cases st) auto
  next
    case (Ext x e f n s ss)
    then obtain t st' where st: "st = t # st'" by (cases st) auto
    have "t * mval s \<le> b" if n: "1 < mval n"
    proof -
      have "mval f + (mval n - 1) * mval s < mval x" using Ext n by auto
      moreover have "1 * mval s \<le> (mval n - 1) * mval s" using n by (intro mult_le_mono1) simp
      ultimately have "mval s \<le> mval x - 1" by linarith
      then have "t * mval s \<le> t * (mval x - 1)" by simp
      also have "\<dots> \<le> b" using Ext.prems(4) st by simp
      finally show ?thesis .
    qed
    then show ?case using Ext st by auto
  qed simp
qed

lemma first_of_inside:
  assumes v: "list_all2 valid_slice e ss" and o: "\<not> any_oob e ss"
  shows "inside (evals e) (map first_of ss)"
proof -
  have "length e = length ss" using v by (rule list_all2_lengthD)
  then show ?thesis using v o
  proof (induction e ss rule: list_induct2)
    case (Cons x e sl ss)
    then show ?case by (cases sl) (auto simp: one_oob_def split: if_splits)
  qed simp
qed

lemma canonical_first: "list_all (is_canonical_slice imax) ss \<Longrightarrow> map (\<lambda>s. to_index imax (first_of s)) ss = map first_of ss"
proof -
  have "is_canonical_slice imax s \<Longrightarrow> first_of s \<le> imax" for s by (cases s) auto
  then show "list_all (is_canonical_slice imax) ss \<Longrightarrow> ?thesis" by (auto simp: list_all_iff)
qed

lemma sub_offset_call:
  "list_all (is_canonical_slice imax) ss \<Longrightarrow>
   sub_offset imax src ss = (if any_oob (extents_of src) ss then required_span_size imax src else call imax src (map first_of ss))"
  by (simp only: sub_offset_def canonical_first)

text \<open>The hypotheses of the theorems: a representable source and slices that satisfy the preconditions.\<close>

definition sliceable :: "nat \<Rightarrow> mapping \<Rightarrow> slice list \<Rightarrow> bool" where
  "sliceable imax src ss \<longleftrightarrow>
     mapping_ok imax src \<and> imax \<le> size_max \<and> list_all (is_canonical_slice imax) ss \<and> list_all2 valid_slice (extents_of src) ss"

abbreviation sub_of :: "mapping \<Rightarrow> slice list \<Rightarrow> member list" where "sub_of src ss \<equiv> sub_ext (extents_of src) ss"

lemma sliceable_length: "sliceable imax src ss \<Longrightarrow> length ss = rank src \<and> length (list_strides src) = length ss"
  using mapping_wf_length by (auto simp: sliceable_def mapping_ok_def dest: list_all2_lengthD)

lemma sliceable_rank: "sliceable imax src ss \<Longrightarrow> rank src = length ss"
  using sliceable_length by simp

lemma sub_offset_le: "sliceable imax src ss \<Longrightarrow> sub_offset imax src ss \<le> required_span_size imax src"
proof -
  assume s: "sliceable imax src ss"
  then have "\<not> any_oob (extents_of src) ss \<Longrightarrow> call imax src (map first_of ss) < required_span_size imax src"
    using first_of_inside mapping_ok_call(2) by (auto simp: sliceable_def)
  then show ?thesis using s sub_offset_call [of imax ss src] by (auto simp: sliceable_def)
qed

lemma sub_offset_eq:
  assumes s: "sliceable imax src ss" and j: "inside (evals (sub_of src ss)) js"
  shows "sub_offset imax src ss = lin (list_strides src) (map first_of ss)"
proof -
  have v: "list_all2 valid_slice (extents_of src) ss" and c: "list_all (is_canonical_slice imax) ss" and ok: "mapping_ok imax src" using s by (simp_all add: sliceable_def)
  have o: "\<not> any_oob (extents_of src) ss" using slice_select(3) [OF v j] .
  then show ?thesis using mapping_ok_call(1) [OF ok first_of_inside [OF v o]] sub_offset_call [OF c] by simp
qed

text \<open>Any mapping with the right extents and strides is the mapping of the slice.\<close>

definition slice_correct :: "nat \<Rightarrow> mapping \<Rightarrow> slice list \<Rightarrow> mapping \<Rightarrow> nat \<Rightarrow> bool" where
  "slice_correct imax src ss dst off \<longleftrightarrow>
     mapping_ok imax dst \<and> extents_of dst = extents_builder (extents_of src) ss [] \<and> off \<le> required_span_size imax src \<and>
     (\<forall>js. index_space dst js \<longrightarrow>
        index_space src (slice_index ss js) \<and> off + call imax dst js = call imax src (slice_index ss js))"

lemma result_correct:
  assumes s: "sliceable imax src ss" and e: "extents_of dst = sub_of src ss" and wf: "mapping_wf imax dst"
    and st: "0 \<notin> set (evals (sub_of src ss)) \<Longrightarrow> list_strides dst = sub_strides (list_strides src) ss \<and> padding_ok dst"
  shows "slice_correct imax src ss dst (sub_offset imax src ss)"
proof -
  let ?S = "list_strides src" and ?D = "list_strides dst" and ?x = "evals (sub_of src ss)"
  have v: "list_all2 valid_slice (extents_of src) ss" and ok: "mapping_ok imax src" using s by (simp_all add: sliceable_def)
  have len: "length ?S = length ss" using sliceable_length [OF s] by simp
  have sel: "index_space src (slice_index ss js)" "sub_offset imax src ss + lin ?D js = lin ?S (slice_index ss js)" if "inside ?x js" for js
    using slice_select(1,2) [OF v that] sub_offset_eq [OF s that] st inside_pos [OF that] len by auto
  have okd: "mapping_ok imax dst"
  proof (cases "0 \<in> set ?x")
    case False
    then have top: "inside ?x (top_index ?x)" by (rule inside_top)
    have b: "space_size ?S (evals (extents_of src)) \<le> imax" "list_all (\<lambda>x. x \<le> imax) ?S"
      using ok inside_pos [OF sel(1) [OF top]] by (simp_all add: mapping_ok_def)
    then have "lin ?S (slice_index ss (top_index ?x)) < imax" using lin_less_space [OF sel(1) [OF top], of ?S] by simp
    then have "space_size ?D ?x \<le> imax" using sel(2) [OF top] False by (simp add: space_size_def)
    moreover have "lin ?S (top_index (evals (extents_of src))) \<le> imax" using b(1) inside_pos [OF sel(1) [OF top]] by (simp add: space_size_def)
    then have "list_all (\<lambda>x. x \<le> imax) ?D" using sub_strides_bound [OF v len b(2)] st False by simp
    ultimately show ?thesis using wf st False e by (simp add: mapping_ok_def)
  qed (use wf e in \<open>simp add: mapping_ok_def\<close>)
  have "off + call imax dst js = call imax src (slice_index ss js)" if "inside ?x js" "off = sub_offset imax src ss" for js off
    using sel [OF that(1)] mapping_ok_call(1) [OF okd] mapping_ok_call(1) [OF ok sel(1) [OF that(1)]] e that by simp
  then show ?thesis using okd e sel(1) sub_offset_le [OF s] by (simp add: slice_correct_def extents_builder_eq)
qed

lemma strided_correct:
  assumes s: "sliceable imax src ss"
  shows "slice_correct imax src ss (strided_result imax src (sub_of src ss) ss) (sub_offset imax src ss)"
proof (rule result_correct [OF s])
  have v: "list_all2 valid_slice (extents_of src) ss" and ok: "mapping_ok imax src" and im: "imax \<le> size_max" using s by (simp_all add: sliceable_def)
  let ?h = "\<lambda>x. to_index imax (to_index size_max x)"
  have len: "length (list_strides src) = length ss" "rank src = length ss" using sliceable_length [OF s] by simp_all
  have l: "length (build_sub_strides imax src (inv_map_rank 0 [] ss) (make_stride_factors ss)) = length (sub_of src ss)"
    using build_sub_strides_eq [of "list_strides src" ss id] sub_strides_length [of "extents_of src" ss "list_strides src"] len
    by (simp add: build_sub_strides_def) (metis length_map)
  have "1 \<le> imax" using ok by (cases src) (auto simp: mapping_ok_def)
  then show "mapping_wf imax (strided_result imax src (sub_of src ss) ss)"
    using l by (simp add: strided_result_def list_all_iff build_sub_strides_def)
  assume z: "0 \<notin> set (evals (sub_of src ss))"
  then have top: "inside (evals (sub_of src ss)) (top_index (evals (sub_of src ss)))" by (rule inside_top)
  have zs: "0 \<notin> set (evals (extents_of src))" using inside_pos [OF slice_select(1) [OF v top]] .
  have b: "list_all (\<lambda>x. x \<le> imax) (sub_strides (list_strides src) ss)"
    using ok zs by (intro sub_strides_bound [OF v len(1)]) (auto simp: mapping_ok_def space_size_def)
  have "build_sub_strides imax src (inv_map_rank 0 [] ss) (make_stride_factors ss)
      = map (\<lambda>m. ?h (list_strides src ! m * make_stride_factors ss ! m)) (inv_map_rank 0 [] ss)"
    unfolding build_sub_strides_def using mapping_ok_stride [OF ok zs] inv_map_bound len(2) by (intro map_cong) auto
  also have "\<dots> = map ?h (sub_strides (list_strides src) ss)" by (rule build_sub_strides_eq [OF len(1)])
  also have "\<dots> = sub_strides (list_strides src) ss" using b im by (intro map_idI) (auto simp: list_all_iff)
  finally show "list_strides (strided_result imax src (sub_of src ss) ss) = sub_strides (list_strides src) ss \<and> padding_ok (strided_result imax src (sub_of src ss) ss)"
    by (simp add: strided_result_def)
qed (simp add: strided_result_def)

section \<open>Shapes of slices that keep a layout\<close>

abbreviation ranges :: "slice list \<Rightarrow> nat" where "ranges ss \<equiv> length (filter (\<lambda>s. \<not> is_index_slice s) ss)"

lemma sub_ext_length: "length e = length ss \<Longrightarrow> length (sub_ext e ss) = ranges ss"
  by (induction e ss rule: slice_induct) auto

text \<open>Full slices, then a slice of unit stride, then indices.\<close>

definition left_shape :: "slice list \<Rightarrow> bool" where
  "left_shape ss \<longleftrightarrow> (\<exists>a u b. ss = replicate a Full @ u # b \<and> is_unit_stride_slice u \<and> list_all is_index_slice b)"

lemma all_full: "list_all is_full xs \<Longrightarrow> xs = replicate (length xs) Full"
proof (induction xs)
  case (Cons x xs)
  then show ?case by (cases x) auto
qed simp

lemma full_not_index: "list_all is_full xs \<Longrightarrow> list_all is_index_slice xs \<Longrightarrow> xs = []"
proof (cases xs)
  case (Cons x xs')
  moreover assume "list_all is_full xs" "list_all is_index_slice xs"
  ultimately show ?thesis by (cases x) auto
qed simp

lemma left_shape_intro:
  assumes "k < length ss" "list_all is_full (take k ss)" "is_unit_stride_slice (ss ! k)" "list_all is_index_slice (drop (Suc k) ss)"
  shows "left_shape ss"
proof -
  have "ss = take k ss @ ss ! k # drop (Suc k) ss" using assms(1) by (rule id_take_nth_drop)
  moreover have "take k ss = replicate (length (take k ss)) Full" using assms(2) by (rule all_full)
  ultimately show ?thesis using assms(3,4) unfolding left_shape_def by metis
qed

lemma ll_shape:
  assumes "ll_preserving dr ss" "dr = ranges ss" "dr \<noteq> 0"
  shows "left_shape ss"
proof (cases "dr = 1")
  case True
  let ?k = "length (takeWhile is_index_slice ss)"
  have k: "?k \<noteq> length ss" "list_all is_full (take ?k ss)" "is_unit_stride_slice (ss ! ?k)" "list_all is_index_slice (drop (?k + 1) ss)"
    using assms True by (auto simp: ll_preserving_def Let_def split: if_splits)
  moreover have "?k < length ss" using k(1) length_takeWhile_le [of is_index_slice ss] by linarith
  ultimately show ?thesis by (intro left_shape_intro [of ?k]) simp_all
next
  case False
  have "ranges ss \<le> length ss" by simp
  then have "dr - 1 < length ss" "Suc (dr - 1) = dr" using assms(2,3) by linarith+
  then show ?thesis using assms(1,3) False by (intro left_shape_intro [of "dr - 1"]) (auto simp: ll_preserving_def)
qed

lemma rev_shape_intro:
  assumes "k < length ss" "list_all is_full (drop (Suc k) ss)" "is_unit_stride_slice (ss ! k)" "list_all is_index_slice (take k ss)"
  shows "left_shape (rev ss)"
proof -
  have "rev ss = rev (drop (Suc k) ss) @ ss ! k # rev (take k ss)"
    using id_take_nth_drop [OF assms(1)] by (metis append.assoc append_Cons append_Nil rev.simps(2) rev_append)
  moreover have "rev (drop (Suc k) ss) = replicate (length (rev (drop (Suc k) ss))) Full" using assms(2) by (intro all_full) simp
  ultimately show ?thesis using assms(3,4) unfolding left_shape_def by (metis list_all_rev)
qed

lemma lr_shape:
  assumes "lr_preserving dr ss" "dr = ranges ss" "dr \<noteq> 0"
  shows "left_shape (rev ss)"
proof (cases "dr = 1")
  case True
  let ?k = "length ss - 1 - length (takeWhile is_index_slice (rev ss))"
  have k: "list_all is_full (drop (?k + 1) ss)" "is_unit_stride_slice (ss ! ?k)" "list_all is_index_slice (take ?k ss)"
    using assms True by (auto simp: lr_preserving_def Let_def split: if_splits)
  have "ss \<noteq> []" using assms by auto
  then show ?thesis using k by (intro rev_shape_intro [of ?k]) auto
next
  case False
  have "ranges ss \<le> length ss" by simp
  then have "length ss - dr < length ss" using assms(2,3) by linarith
  then show ?thesis using assms(1,3) False by (intro rev_shape_intro [of "length ss - dr"]) (auto simp: lr_preserving_def Let_def)
qed

text \<open>A slice of unit stride, then indices, then a shape as above.\<close>

definition pad_shape :: "nat \<Rightarrow> slice list \<Rightarrow> bool" where
  "pad_shape si ss \<longleftrightarrow>
     (\<exists>u b r. ss = u # b @ r \<and> is_unit_stride_slice u \<and> list_all is_index_slice b \<and> left_shape r \<and> si = Suc (length b))"

lemma unit_not_index: "is_unit_stride_slice u \<Longrightarrow> \<not> is_index_slice u"
  by (cases u) auto

lemma ranges_zero: "ranges b = 0 \<longleftrightarrow> list_all is_index_slice b"
  by (induction b) auto

lemma lp_shape:
  assumes si: "left_padded_stride_index dr ss = si" "si \<noteq> length ss" and dr: "dr = ranges ss"
  shows "pad_shape si ss"
proof -
  let ?n = "length ss"
  define mid where "mid = takeWhile (\<lambda>s. \<not> is_unit_stride_slice s) (drop 1 ss)"
  define r where "r = dropWhile (\<lambda>s. \<not> is_unit_stride_slice s) (drop 1 ss)"
  have n: "2 \<le> dr" "2 \<le> ?n" "is_unit_stride_slice (ss ! 0)"
    using si by (auto simp: left_padded_stride_index_def Let_def split: if_splits)
  have m: "si = 1 + length mid" "dr - 2 \<le> ?n - 1 - si" "\<forall>k \<in> {si..<si + dr - 2}. is_full (ss ! k)" "is_unit_stride_slice (ss ! (si + dr - 2))"
    using si n unfolding left_padded_stride_index_def Let_def mid_def by (auto simp: list_all_iff split: if_splits)
  obtain u tl where u: "ss = u # tl" using n(2) by (cases ss) auto
  have tl: "tl = mid @ r" unfolding mid_def r_def u by simp
  have lr: "length r = ?n - si" "si < ?n" using u tl m(1) si(2) by auto
  have nth: "r ! k = ss ! (si + k)" if "k < length r" for k using that u tl m(1) by (simp add: nth_append)
  have d2: "dr - 2 < length r" using lr m(2) by linarith
  have r: "r = take (dr - 2) r @ r ! (dr - 2) # drop (Suc (dr - 2)) r" using d2 by (rule id_take_nth_drop)
  have full: "list_all is_full (take (dr - 2) r)" using m(3) nth d2 n(1) by (auto simp: list_all_length)
  then have tr: "take (dr - 2) r = replicate (length (take (dr - 2) r)) Full" by (rule all_full)
  have ur: "is_unit_stride_slice (r ! (dr - 2))" using m(4) nth [OF d2] n(1) by (simp add: Nat.add_diff_assoc)
  have "ranges (take (dr - 2) r) = dr - 2" using tr d2 by (metis (no_types, lifting) filter_True in_set_replicate is_index_slice.simps(2) length_take min.absorb2 less_imp_le)
  then have "ranges r = (dr - 2) + 1 + ranges (drop (Suc (dr - 2)) r)" using r unit_not_index [OF ur] by (metis (no_types, lifting) filter.simps(2) filter_append length_append length_Cons add.assoc add_Suc_right plus_1_eq_Suc)
  moreover have "dr = 1 + (ranges mid + ranges r)" using dr u tl n(3) unit_not_index [of u] by simp
  ultimately have "ranges mid = 0" "ranges (drop (Suc (dr - 2)) r) = 0" using n(1) by linarith+
  then have x: "list_all is_index_slice mid" "list_all is_index_slice (drop (Suc (dr - 2)) r)" unfolding ranges_zero by blast+
  then have "left_shape r" using d2 full ur by (intro left_shape_intro [of "dr - 2"])
  then show ?thesis unfolding pad_shape_def using u tl n(3) m(1) x by (intro exI [of _ u] exI [of _ mid] exI [of _ r]) simp
qed

text \<open>The search from the right is the search from the left on the reversed slices.\<close>

lemma last_unit_before_eq:
  "k \<le> length ss \<Longrightarrow> last_unit_before ss k =
     (let l = length (takeWhile (\<lambda>s. \<not> is_unit_stride_slice s) (rev (take k ss))) in if l = k then None else Some (k - 1 - l))"
proof (induction k)
  case (Suc k)
  then have "take (Suc k) ss = take k ss @ [ss ! k]" by (simp add: take_Suc_conv_app_nth)
  then show ?case using Suc by (auto simp: Let_def)
qed simp

lemma rp_index:
  "right_padded_stride_index dr ss =
     (let k = left_padded_stride_index dr (rev ss) in if k = length ss then length ss else length ss - 1 - k)"
proof (cases "dr < 2 \<or> length ss < 2")
  case True
  then show ?thesis by (auto simp: right_padded_stride_index_def left_padded_stride_index_def Let_def)
next
  case False
  let ?n = "length ss"
  define l where "l = length (takeWhile (\<lambda>s. \<not> is_unit_stride_slice s) (rev (take (length ss - 1) ss)))"
  have n: "2 \<le> dr" "2 \<le> ?n" using False by auto
  have u0: "rev ss ! 0 = ss ! (?n - 1)" using n by (subst rev_nth) auto
  have dr1: "drop 1 (rev ss) = rev (take (?n - 1) ss)" by (simp add: drop_rev)
  have l: "l \<le> ?n - 1" using length_takeWhile_le [of _ "rev (take (?n - 1) ss)"] unfolding l_def by (metis diff_le_self length_rev length_take min.absorb2)
  have lu: "last_unit_before ss (?n - 1) = (if l = ?n - 1 then None else Some (?n - 2 - l))"
    using last_unit_before_eq [of "?n - 1" ss] by (simp add: Let_def l_def)
  let ?s = "?n - 2 - l" and ?t = "1 + l"
  let ?fs = "list_all (\<lambda>k. is_full (ss ! k)) [?s - (dr - 2) + 1..<?s + 1]" and ?ft = "list_all (\<lambda>k. is_full (rev ss ! k)) [?t..<?t + dr - 2]"
  have L: "left_padded_stride_index dr (rev ss) =
      (if \<not> is_unit_stride_slice (ss ! (?n - 1)) then ?n
       else if ?t = ?n \<or> dr - 2 > ?n - 1 - ?t then ?n else if \<not> ?ft then ?n else if is_unit_stride_slice (rev ss ! (?t + dr - 2)) then ?t else ?n)"
    using n unfolding left_padded_stride_index_def Let_def dr1 u0 length_rev l_def [symmetric] by (simp only: not_less [symmetric] if_False simp_thms)
  have R: "right_padded_stride_index dr ss =
      (if \<not> is_unit_stride_slice (ss ! (?n - 1)) then ?n
       else if l = ?n - 1 then ?n else if dr - 2 > ?s then ?n else if \<not> ?fs then ?n else if is_unit_stride_slice (ss ! (?s - (dr - 2))) then ?s else ?n)"
  proof (cases "l = ?n - 1")
    case True
    then have c: "last_unit_before ss (?n - 1) = None" using lu by simp
    show ?thesis using n True unfolding right_padded_stride_index_def Let_def c option.case by (simp only: not_less [symmetric] if_False if_True simp_thms)
  next
    case False
    then have c: "last_unit_before ss (?n - 1) = Some ?s" using lu by simp
    show ?thesis using n False unfolding right_padded_stride_index_def Let_def c option.case by (simp only: not_less [symmetric] if_False simp_thms)
  qed
  show ?thesis
  proof (cases "l = ?n - 1 \<or> \<not> is_unit_stride_slice (ss ! (?n - 1)) \<or> dr - 2 > ?s")
    case True
    have "?t = ?n \<longleftrightarrow> l = ?n - 1" "?n - 1 - ?t = ?s" using n l by linarith+
    with True show ?thesis unfolding L R Let_def by (elim disjE) simp_all
  next
    case False
    have b: "l < ?n - 1" "dr - 2 \<le> ?s" "?t + dr - 2 < ?n" "?s = ?n - 1 - ?t" using False l n by auto
    have rv: "rev ss ! k = ss ! (?n - 1 - k)" if "k < ?n" for k using that by (subst rev_nth) auto
    have "?fs \<longleftrightarrow> ?ft"
    proof -
      have "(\<forall>k \<in> {?s - (dr - 2) + 1..<?s + 1}. is_full (ss ! k)) \<longleftrightarrow> (\<forall>k \<in> {?t..<?t + dr - 2}. is_full (ss ! (?n - 1 - k)))"
      proof (intro iffI ballI)
        fix k assume h: "\<forall>k \<in> {?s - (dr - 2) + 1..<?s + 1}. is_full (ss ! k)" and k: "k \<in> {?t..<?t + dr - 2}"
        have "?n - 1 - k \<in> {?s - (dr - 2) + 1..<?s + 1}" using k b n by auto
        then show "is_full (ss ! (?n - 1 - k))" using h by blast
      next
        fix k assume h: "\<forall>k \<in> {?t..<?t + dr - 2}. is_full (ss ! (?n - 1 - k))" and k: "k \<in> {?s - (dr - 2) + 1..<?s + 1}"
        have "?n - 1 - k \<in> {?t..<?t + dr - 2}" "?n - 1 - (?n - 1 - k) = k" using k b n by auto
        then show "is_full (ss ! k)" using h by metis
      qed
      then show ?thesis using rv b by (auto simp: list_all_iff)
    qed
    moreover have "ss ! (?s - (dr - 2)) = rev ss ! (?t + dr - 2)" using rv [OF b(3)] b n by (metis Nat.add_diff_assoc diff_diff_left)
    moreover have "?t \<noteq> ?n" "?n - 1 - ?t = ?s" "l \<noteq> ?n - 1" using b by linarith+
    ultimately show ?thesis unfolding L R Let_def using False b by simp
  qed
qed

lemma rp_shape:
  assumes "right_padded_stride_index dr ss = si" "si \<noteq> length ss" "dr = ranges ss"
  shows "pad_shape (length ss - 1 - si) (rev ss) \<and> si < length ss"
proof -
  let ?k = "left_padded_stride_index dr (rev ss)"
  have k: "?k \<noteq> length ss" "si = length ss - 1 - ?k" using assms(1,2) by (auto simp: rp_index Let_def split: if_splits)
  have "ranges (rev ss) = ranges ss" by (simp only: rev_filter [symmetric] length_rev)
  then have p: "pad_shape ?k (rev ss)" using k(1) assms(3) by (intro lp_shape [of dr]) simp_all
  then have "1 \<le> ?k" "?k < length ss" using length_rev [of ss] by (auto simp: pad_shape_def left_shape_def)
  then show ?thesis using p k(2) by (auto simp: Suc_leI)
qed

section \<open>Strides of the shapes\<close>

lemma sub_index_only:
  "list_all is_index_slice b \<Longrightarrow> length e = length b \<Longrightarrow> sub_ext e b = []"
  "list_all is_index_slice b \<Longrightarrow> sub_strides st b = []"
proof -
  show "list_all is_index_slice b \<Longrightarrow> length e = length b \<Longrightarrow> sub_ext e b = []"
    using sub_ext_length [of e b] by (simp add: ranges_zero [symmetric])
  show "list_all is_index_slice b \<Longrightarrow> sub_strides st b = []"
    by (induction st b rule: sub_strides.induct) auto
qed

lemma unit_slice:
  assumes "is_unit_stride_slice u"
  shows "stride_factor u = 1" "\<exists>n. sub_ext (x # e) (u # ss) = n # sub_ext e ss \<and> (valid_slice x u \<longrightarrow> mval n \<le> mval x)"
    "sub_strides (t # st) (u # ss) = t # sub_strides st ss"
proof -
  show f: "stride_factor u = 1" using assms by (cases u rule: is_unit_stride_slice.cases) auto
  show "\<exists>n. sub_ext (x # e) (u # ss) = n # sub_ext e ss \<and> (valid_slice x u \<longrightarrow> mval n \<le> mval x)"
    using assms by (cases u rule: is_unit_stride_slice.cases) (auto split: if_splits)
  show "sub_strides (t # st) (u # ss) = t # sub_strides st ss" using f assms by (cases u) auto
qed

lemma left_shape_strides:
  assumes "left_shape ss" "length e = length ss"
  shows "sub_strides (lstrides t (evals e)) ss = lstrides t (evals (sub_ext e ss))"
proof -
  obtain a u b where ss: "ss = replicate a Full @ u # b" and u: "is_unit_stride_slice u" "list_all is_index_slice b"
    using assms(1) by (auto simp: left_shape_def)
  show ?thesis using assms(2) unfolding ss
  proof (induction a arbitrary: e t)
    case 0
    then obtain x e' where e: "e = x # e'" "length e' = length b" by (cases e) auto
    obtain n where "sub_ext (x # e') (u # b) = n # sub_ext e' b" using unit_slice(2) [OF u(1)] by blast
    then show ?case using e u(2) unit_slice(3) [OF u(1)] by (simp add: sub_index_only)
  next
    case (Suc a)
    then obtain x e' where "e = x # e'" "length e' = length (replicate a Full @ u # b)" by (cases e) auto
    then show ?case using Suc.IH [of e' "t * mval x"] by simp
  qed
qed

lemma skip_indices:
  assumes "list_all is_index_slice b" "length e = length (b @ r)"
  shows "sub_strides (lstrides t (evals e)) (b @ r) = sub_strides (lstrides (t * prod_list (take (length b) (evals e))) (evals (drop (length b) e))) r"
    "sub_ext e (b @ r) = sub_ext (drop (length b) e) r"
proof -
  have "sub_strides (lstrides t (evals e)) (b @ r) = sub_strides (lstrides (t * prod_list (take (length b) (evals e))) (evals (drop (length b) e))) r \<and>
      sub_ext e (b @ r) = sub_ext (drop (length b) e) r"
    using assms
  proof (induction b arbitrary: e t)
    case (Cons s b)
    then obtain m x e' where "s = Idx m" "e = x # e'" by (cases s; cases e) auto
    then show ?case using Cons by (simp add: mult.assoc)
  qed simp
  then show "sub_strides (lstrides t (evals e)) (b @ r) = sub_strides (lstrides (t * prod_list (take (length b) (evals e))) (evals (drop (length b) e))) r"
    "sub_ext e (b @ r) = sub_ext (drop (length b) e) r" by blast+
qed

lemma pad_shape_strides:
  assumes sh: "pad_shape si ss" and len: "length e = length ss" and v: "list_all2 valid_slice e ss"
  shows "sub_strides (pstrides p (evals e)) ss = pstrides (pstrides p (evals e) ! si) (evals (sub_ext e ss))"
    "si < length ss" "1 \<le> si" "1 < length (sub_ext e ss)" "mval (hd (sub_ext e ss)) \<le> mval (hd e)"
proof -
  obtain u b r where ss: "ss = u # b @ r" and u: "is_unit_stride_slice u" "list_all is_index_slice b" "left_shape r" "si = Suc (length b)"
    using sh by (auto simp: pad_shape_def)
  obtain x e' where e: "e = x # e'" "length e' = length (b @ r)" using len ss by (cases e) auto
  obtain n where n: "sub_ext (x # e') (u # b @ r) = n # sub_ext e' (b @ r)" "mval n \<le> mval x"
    using unit_slice(2) [OF u(1), of x e' "b @ r"] v e(1) ss by auto
  let ?d = "drop (length b) e'"
  have r: "r \<noteq> []" "ranges r \<noteq> 0" using u(3) unit_not_index by (auto simp: left_shape_def)
  have q: "pstrides p (evals e) ! si = p * prod_list (take (length b) (evals e'))"
    using e u(4) r(1) by (simp add: lstrides_nth)
  have "sub_strides (lstrides p (evals e')) (b @ r) = lstrides (p * prod_list (take (length b) (evals e'))) (evals (sub_ext ?d r))"
    using skip_indices(1) [OF u(2) e(2), of p] left_shape_strides [OF u(3), of ?d] e(2) by simp
  then show "sub_strides (pstrides p (evals e)) ss = pstrides (pstrides p (evals e) ! si) (evals (sub_ext e ss))"
    using unit_slice(3) [OF u(1)] n skip_indices(2) [OF u(2) e(2)] q unfolding ss e(1) by simp
  show "si < length ss" "1 \<le> si" using ss u(4) r(1) by auto
  have "length (sub_ext ?d r) \<noteq> 0" using sub_ext_length [of ?d r] r(2) e(2) by simp
  then show "1 < length (sub_ext e ss)" using n skip_indices(2) [OF u(2) e(2)] ss e(1) by simp
  show "mval (hd (sub_ext e ss)) \<le> mval (hd e)" using n ss e(1) by simp
qed

lemma sub_rev:
  "length e = length ss \<Longrightarrow> sub_ext (rev e) (rev ss) = rev (sub_ext e ss)"
  "length st = length ss \<Longrightarrow> sub_strides (rev st) (rev ss) = rev (sub_strides st ss)"
proof -
  have a: "length e = length ss \<Longrightarrow> sub_ext (e @ [x]) (ss @ [s]) = sub_ext e ss @ sub_ext [x] [s]" for e ss x s
    by (induction e ss rule: slice_induct) auto
  have b: "length st = length ss \<Longrightarrow> sub_strides (st @ [t]) (ss @ [s]) = sub_strides st ss @ sub_strides [t] [s]" for st ss t s
    by (induction st ss rule: slice_induct) auto
  show "length e = length ss \<Longrightarrow> sub_ext (rev e) (rev ss) = rev (sub_ext e ss)" by (induction e ss rule: slice_induct) (auto simp: a)
  show "length st = length ss \<Longrightarrow> sub_strides (rev st) (rev ss) = rev (sub_strides st ss)" by (induction st ss rule: slice_induct) (auto simp: b)
qed

section \<open>The mappings of slices\<close>

lemma pad_value: "0 < x \<Longrightarrow> x \<le> q \<Longrightarrow> q \<le> imax \<Longrightarrow> make_stride imax (to_index imax x) (to_index imax q) = q"
  using least_multiple_eq [of x imax q] round_up_absorb [of x q] by (simp add: make_stride_def)

lemma make_stride_le: "make_stride imax (to_index imax x) q \<le> imax"
  using least_multiple_eq [of "to_index imax x" imax q] by (simp add: make_stride_def)

lemma pstrides_ge: "0 \<notin> set es \<Longrightarrow> 1 \<le> r \<Longrightarrow> r < length es \<Longrightarrow> p \<le> pstrides p es ! r"
proof -
  assume a: "0 \<notin> set es" "1 \<le> r" "r < length es"
  have "set (take (r - 1) (drop 1 es)) \<subseteq> set es" by (meson set_drop_subset set_take_subset subset_trans)
  then have "1 \<le> prod_list (take (r - 1) (drop 1 es))" using a(1) by (intro prod_list_pos) blast
  then show ?thesis using a by (simp add: pstrides_nth)
qed

text \<open>
  The padded strides of a slice of a source whose strides, read in the direction of its padding, are
  \<open>pstrides p\<close>.
\<close>

lemma pad_stride_value:
  assumes sh: "pad_shape si ss" and v: "list_all2 valid_slice e ss" and h: "0 \<notin> set (evals e) \<Longrightarrow> length e > 1 \<Longrightarrow> hd (evals e) \<le> p"
    and z: "0 \<notin> set (evals (sub_ext e ss))" and q: "pstrides p (evals e) ! si \<le> imax"
  shows "make_stride imax (to_index imax (mval (hd (sub_ext e ss)))) (to_index imax (pstrides p (evals e) ! si)) = pstrides p (evals e) ! si"
proof -
  have len: "length e = length ss" using v by (rule list_all2_lengthD)
  note S = pad_shape_strides [OF sh len v]
  have ze: "0 \<notin> set (evals e)" using slice_select(1) [OF v inside_top [OF z]] inside_pos by blast
  have "e \<noteq> []" "length e > 1" using S(2,3) len by auto
  then have "mval (hd (sub_ext e ss)) \<le> p" using S(5) h [OF ze] by (simp add: hd_map)
  also have "p \<le> pstrides p (evals e) ! si" using pstrides_ge [OF ze, of si p] S(2,3) len by simp
  finally have le: "mval (hd (sub_ext e ss)) \<le> pstrides p (evals e) ! si" .
  have "hd (sub_ext e ss) \<in> set (sub_ext e ss)" using S(4) by (intro hd_in_set) auto
  then have "0 < mval (hd (sub_ext e ss))" using z by (auto intro: gr0I)
  then show ?thesis using le q by (rule pad_value)
qed

lemma left_padded_result:
  assumes s: "sliceable imax src ss" and st: "list_strides src = pstrides p (evals (extents_of src))"
    and h: "0 \<notin> set (evals (extents_of src)) \<Longrightarrow> rank src > 1 \<Longrightarrow> hd (evals (extents_of src)) \<le> p" and sh: "pad_shape si ss"
  shows "slice_correct imax src ss (left_padded_with_padding imax pv (sub_of src ss) (stride imax src si)) (sub_offset imax src ss)"
proof (rule result_correct [OF s])
  let ?e = "extents_of src" and ?d = "left_padded_with_padding imax pv (sub_of src ss) (stride imax src si)"
  have v: "list_all2 valid_slice ?e ss" and ok: "mapping_ok imax src" and len: "length ?e = length ss" using s sliceable_length [OF s] by (simp_all add: sliceable_def)
  note S = pad_shape_strides [OF sh len v]
  have "1 \<le> imax" using ok by (cases src) (auto simp: mapping_ok_def)
  then show "mapping_wf imax ?d" "extents_of ?d = sub_of src ss" by (simp_all add: left_padded_with_padding_def make_stride_le)
  assume z: "0 \<notin> set (evals (sub_of src ss))"
  then have ze: "0 \<notin> set (evals ?e)" using slice_select(1) [OF v inside_top [OF z]] inside_pos by blast
  have q: "stride imax src si = pstrides p (evals ?e) ! si" "pstrides p (evals ?e) ! si \<le> imax"
    using mapping_ok_stride [OF ok ze, of si] ok ze S(2) len st by (auto simp: mapping_ok_def list_all_length)
  have hd: "sub_of src ss ! 0 = hd (sub_of src ss)" "hd (evals (sub_of src ss)) = mval (hd (sub_of src ss))" using S(4) by (cases "sub_of src ss"; simp)+
  have "?d = Layout_left_padded pv (sub_of src ss) (pstrides p (evals ?e) ! si)"
    using pad_stride_value [OF sh v h z q(2)] S(4) q(1) hd(1) by (simp add: left_padded_with_padding_def)
  moreover have "mval (hd (sub_of src ss)) \<le> pstrides p (evals ?e) ! si"
  proof -
    have r: "rank src > 1" "?e \<noteq> []" using S(2,3) len by auto
    have "mval (hd ?e) \<le> p" using h [OF ze r(1)] r(2) by (simp add: hd_map)
    moreover have "p \<le> pstrides p (evals ?e) ! si" using pstrides_ge [OF ze, of si p] S(2,3) len by simp
    ultimately show ?thesis using S(5) by linarith
  qed
  ultimately show "list_strides ?d = sub_strides (list_strides src) ss \<and> padding_ok ?d" using S(1) [of p] st hd(2) by simp
qed

lemma right_padded_result:
  assumes s: "sliceable imax src ss" and st: "list_strides src = rev (pstrides p (rev (evals (extents_of src))))"
    and h: "0 \<notin> set (evals (extents_of src)) \<Longrightarrow> rank src > 1 \<Longrightarrow> last (evals (extents_of src)) \<le> p"
    and sh: "pad_shape (length ss - 1 - si) (rev ss)" "si < length ss"
  shows "slice_correct imax src ss (right_padded_with_padding imax pv (sub_of src ss) (stride imax src si)) (sub_offset imax src ss)"
proof (rule result_correct [OF s])
  let ?e = "extents_of src" and ?d = "right_padded_with_padding imax pv (sub_of src ss) (stride imax src si)" and ?k = "length ss - 1 - si"
  let ?x = "sub_of src ss" and ?q = "pstrides p (rev (evals (extents_of src))) ! (length ss - 1 - si)"
  have v: "list_all2 valid_slice ?e ss" and ok: "mapping_ok imax src" and len: "length ?e = length ss" using s sliceable_length [OF s] by (simp_all add: sliceable_def)
  have vr: "list_all2 valid_slice (rev ?e) (rev ss)" using v by simp
  note S = pad_shape_strides [OF sh(1) _ vr, simplified rev_map [symmetric] sub_rev(1) [OF len] length_rev, OF len]
  have "1 \<le> imax" using ok by (cases src) (auto simp: mapping_ok_def)
  then show "mapping_wf imax ?d" "extents_of ?d = ?x" by (simp_all add: right_padded_with_padding_def make_stride_le)
  assume z: "0 \<notin> set (evals ?x)"
  then have ze: "0 \<notin> set (evals ?e)" using slice_select(1) [OF v inside_top [OF z]] inside_pos by blast
  have nth: "rev (pstrides p (rev (evals ?e))) ! si = ?q" using sh(2) len by (simp add: rev_nth)
  have q: "stride imax src si = ?q" "?q \<le> imax"
    using mapping_ok_stride [OF ok ze, of si] ok ze sh(2) len st nth by (auto simp: mapping_ok_def list_all_length)
  have x: "?x \<noteq> []" "length ?x > 1" using S(4) by auto
  have hr: "hd (evals (rev ?e)) \<le> p" if "length (rev ?e) > 1" using that h [OF ze] by (simp add: rev_map [symmetric] hd_rev)
  have "make_stride imax (to_index imax (mval (hd (rev ?x)))) (to_index imax ?q) = ?q"
    using pad_stride_value [OF sh(1) vr, of p imax] hr z q(2) by (simp add: rev_map [symmetric] sub_rev(1) [OF len])
  then have d: "?d = Layout_right_padded pv ?x ?q"
    using x q(1) by (simp add: right_padded_with_padding_def hd_rev last_conv_nth)
  have "mval (hd (rev ?x)) \<le> mval (hd (rev ?e))" using S(5) .
  also have "\<dots> \<le> p"
  proof -
    have "length (rev ?e) > 1" "rev ?e \<noteq> []" using S(2,3) len by auto
    then show ?thesis using hr by (simp add: hd_map)
  qed
  also have "p \<le> ?q" using pstrides_ge [of "rev (evals ?e)" ?k p] ze S(2,3) len by simp
  finally have "last (evals ?x) \<le> ?q" using x by (simp add: hd_rev last_map)
  moreover have "sub_strides (list_strides src) ss = rev (pstrides ?q (rev (evals ?x)))"
    using sub_rev(2) [of "pstrides p (rev (evals ?e))" "rev ss"] S(1) [of p] st len by simp
  ultimately show "list_strides ?d = sub_strides (list_strides src) ss \<and> padding_ok ?d" using d by simp
qed

text \<open>Each layout.\<close>

lemma sliceable_nil:
  assumes s: "sliceable imax src ss" and r: "extents_of src = []"
  shows "ss = []" "sub_offset imax src ss = 0"
proof -
  show n: "ss = []" using sliceable_rank [OF s] r by simp
  have "list_strides src = []" using sliceable_length [OF s] n by auto
  then show "sub_offset imax src ss = 0" using s r n call_eq [of imax src "[]"] by (simp add: sub_offset_def sliceable_def mapping_ok_def)
qed

lemma mapping_ok_pos: "mapping_ok imax m \<Longrightarrow> 1 \<le> imax"
  by (cases m) (auto simp: mapping_ok_def)

lemma plain_result:
  assumes s: "sliceable imax src ss" and d: "dst = Layout_left (sub_of src ss) \<or> dst = Layout_right (sub_of src ss)"
    and st: "list_strides dst = sub_strides (list_strides src) ss"
  shows "slice_correct imax src ss dst (sub_offset imax src ss)"
  by (rule result_correct [OF s]) (use d st s mapping_ok_pos in \<open>auto simp: sliceable_def\<close>)

lemma sub_empty_strides:
  assumes "sliceable imax src ss" "sub_of src ss = []"
  shows "sub_strides (list_strides src) ss = []"
  using sub_strides_length [of "extents_of src" ss "list_strides src"] sliceable_length [OF assms(1)] assms(2) by simp

text \<open>
  The three ways to a result: the unpadded layout, the padded layout and strides.  The choice between
  them only depends on the shape of the slices.
\<close>

lemma left_correct:
  assumes s: "sliceable imax (Layout_left e) ss" and r: "submdspan_mapping_left imax e ss = (dst, off)"
  shows "slice_correct imax (Layout_left e) ss dst off"
proof -
  let ?src = "Layout_left e" and ?x = "sub_ext e ss"
  have len: "length e = length ss" using sliceable_rank [OF s] by simp
  have dr: "length ?x = ranges ss" using sub_ext_length [OF len] .
  have z: "sub_offset imax ?src ss = 0" if "e = []" using sliceable_nil(2) [OF s] that by simp
  note r' = r [unfolded submdspan_mapping_left_def Let_def extents_builder_eq append_Nil dr]
  have pl: "slice_correct imax ?src ss (Layout_left ?x) (sub_offset imax ?src ss)"
    if "sub_strides (lstrides 1 (evals e)) ss = lstrides 1 (evals ?x)"
    using that by (intro plain_result [OF s]) simp_all
  show ?thesis
  proof (cases "ranges ss = 0")
    case True
    then have x: "?x = []" using dr by simp
    then have "slice_correct imax ?src ss (Layout_left ?x) (sub_offset imax ?src ss)" using pl sub_empty_strides [OF s] by simp
    then show ?thesis using r' True x z by (auto split: if_splits)
  next
    case n: False
    then have e: "length e \<noteq> 0" using len by auto
    have p1: "slice_correct imax ?src ss (Layout_left ?x) (sub_offset imax ?src ss)" if "ll_preserving (ranges ss) ss"
      using pl left_shape_strides [OF ll_shape [OF that refl n] len] by simp
    have p2: "slice_correct imax ?src ss (left_padded_with_padding imax pv ?x (stride imax ?src (left_padded_stride_index (ranges ss) ss))) (sub_offset imax ?src ss)"
      if "left_padded_stride_index (ranges ss) ss \<noteq> length e" for pv
      using left_padded_result [OF s, of "hd (evals e)"] lp_shape [OF refl _ refl, of "ss"] that len by (simp add: lstrides_pstrides [unfolded One_nat_def])
    show ?thesis using r' n e p1 p2 strided_correct [OF s] by (auto split: if_splits)
  qed
qed

lemma right_correct:
  assumes s: "sliceable imax (Layout_right e) ss" and r: "submdspan_mapping_right imax e ss = (dst, off)"
  shows "slice_correct imax (Layout_right e) ss dst off"
proof -
  let ?src = "Layout_right e" and ?x = "sub_ext e ss"
  have len: "length e = length ss" using sliceable_rank [OF s] by simp
  have dr: "length ?x = ranges ss" using sub_ext_length [OF len] .
  have z: "sub_offset imax ?src ss = 0" if "e = []" using sliceable_nil(2) [OF s] that by simp
  note r' = r [unfolded submdspan_mapping_right_def Let_def extents_builder_eq append_Nil dr]
  have pl: "slice_correct imax ?src ss (Layout_right ?x) (sub_offset imax ?src ss)"
    if "sub_strides (rev (lstrides 1 (rev (evals e)))) ss = rev (lstrides 1 (rev (evals ?x)))"
    using that by (intro plain_result [OF s]) simp_all
  show ?thesis
  proof (cases "ranges ss = 0")
    case True
    then have x: "?x = []" using dr by simp
    then have "slice_correct imax ?src ss (Layout_right ?x) (sub_offset imax ?src ss)" using pl sub_empty_strides [OF s] by simp
    then show ?thesis using r' True x z by (auto split: if_splits)
  next
    case n: False
    then have e: "length e \<noteq> 0" using len by auto
    have p1: "slice_correct imax ?src ss (Layout_right ?x) (sub_offset imax ?src ss)" if "lr_preserving (ranges ss) ss"
    proof (rule pl)
      have "sub_strides (lstrides 1 (evals (rev e))) (rev ss) = lstrides 1 (evals (sub_ext (rev e) (rev ss)))"
        using left_shape_strides [OF lr_shape [OF that refl n]] len by simp
      then show "sub_strides (rev (lstrides 1 (rev (evals e)))) ss = rev (lstrides 1 (rev (evals ?x)))"
        using sub_rev(1) [OF len] sub_rev(2) [of "lstrides 1 (rev (evals e))" "rev ss"] len by (simp add: rev_map)
    qed
    have p2: "slice_correct imax ?src ss (right_padded_with_padding imax pv ?x (stride imax ?src (right_padded_stride_index (ranges ss) ss))) (sub_offset imax ?src ss)"
      if "right_padded_stride_index (ranges ss) ss \<noteq> length e" for pv
      using right_padded_result [OF s, of "hd (rev (evals e))"] rp_shape [OF refl _ refl, of "ss"] that len by (simp add: lstrides_pstrides [unfolded One_nat_def] hd_rev)
    show ?thesis using r' n e p1 p2 strided_correct [OF s] by (auto split: if_splits)
  qed
qed

lemma stride_correct:
  assumes s: "sliceable imax (Layout_stride e st) ss" and r: "submdspan_mapping_stride imax e st ss = (dst, off)"
  shows "slice_correct imax (Layout_stride e st) ss dst off"
proof (cases "e = []")
  case True
  have "sub_offset imax (Layout_stride e st) ss = 0" "ss = []" using sliceable_nil [OF s] True by simp_all
  then show ?thesis using True r strided_correct [OF s]
    by (auto simp: submdspan_mapping_stride_def Let_def extents_builder_eq strided_result_def build_sub_strides_def)
next
  case False
  then show ?thesis using r strided_correct [OF s] by (auto simp: submdspan_mapping_stride_def Let_def extents_builder_eq)
qed

lemma single_strides:
  assumes "length e = length ss" "ranges ss = 1" "ss = u # b" "is_unit_stride_slice u"
  shows "sub_strides (pstrides p (evals e)) ss = lstrides 1 (evals (sub_ext e ss))" "length (sub_ext e ss) = 1"
proof -
  have b: "list_all is_index_slice b" using assms(2-4) unit_not_index [of u] by (simp add: ranges_zero [symmetric])
  obtain x e' where e: "e = x # e'" "length e' = length b" using assms(1,3) by (cases e) auto
  obtain n where "sub_ext (x # e') (u # b) = n # sub_ext e' b" using unit_slice(2) [OF assms(4)] by blast
  then have "sub_ext e ss = [n]" using e assms(3) b by (simp add: sub_index_only)
  then show "sub_strides (pstrides p (evals e)) ss = lstrides 1 (evals (sub_ext e ss))" "length (sub_ext e ss) = 1"
    using e assms(3) unit_slice(3) [OF assms(4)] b by (simp_all add: sub_index_only)
qed

lemma left_padded_correct:
  assumes s: "sliceable imax (Layout_left_padded p e st) ss" and r: "submdspan_mapping_left_padded imax p e st ss = (dst, off)"
  shows "slice_correct imax (Layout_left_padded p e st) ss dst off"
proof -
  let ?src = "Layout_left_padded p e st" and ?x = "sub_ext e ss"
  have len: "length e = length ss" using sliceable_rank [OF s] by simp
  have dr: "length ?x = ranges ss" using sub_ext_length [OF len] .
  have ok: "mapping_ok imax ?src" using s by (simp add: sliceable_def)
  note r' = r [unfolded submdspan_mapping_left_padded_def Let_def extents_builder_eq append_Nil dr]
  have pl: "slice_correct imax ?src ss (Layout_left ?x) (sub_offset imax ?src ss)"
    if "sub_strides (pstrides st (evals e)) ss = lstrides 1 (evals ?x)"
    using that by (intro plain_result [OF s]) simp_all
  show ?thesis
  proof (cases "e = []")
    case True
    have "slice_correct imax ?src ss ?src (sub_offset imax ?src ss)"
      by (rule result_correct [OF s]) (use True ok in \<open>auto simp: mapping_ok_def\<close>)
    moreover have "sub_offset imax ?src ss = 0" using sliceable_nil(2) [OF s] True by simp
    ultimately show ?thesis using r' True by simp
  next
    case e: False
    have p0: "slice_correct imax ?src ss (Layout_left ?x) (sub_offset imax ?src ss)" if "ranges ss = 0"
      using pl sub_empty_strides [OF s] dr that by simp
    have p1: "slice_correct imax ?src ss (Layout_left ?x) (sub_offset imax ?src ss)" if "ranges ss = 1" "is_unit_stride_slice (ss ! 0)"
    proof -
      obtain u b where "ss = u # b" using e len by (cases ss) auto
      then show ?thesis using pl single_strides(1) [OF len that(1), of u b st] that(2) by simp
    qed
    have p2: "slice_correct imax ?src ss (left_padded_with_padding imax pv ?x (stride imax ?src (left_padded_stride_index (ranges ss) ss))) (sub_offset imax ?src ss)"
      if "left_padded_stride_index (ranges ss) ss \<noteq> length e" for pv
      using left_padded_result [OF s, of st] lp_shape [OF refl _ refl, of "ss"] that len ok by (simp add: mapping_ok_def)
    show ?thesis using r' e p0 p1 p2 strided_correct [OF s] by (auto split: if_splits)
  qed
qed

lemma right_padded_correct:
  assumes s: "sliceable imax (Layout_right_padded p e st) ss" and r: "submdspan_mapping_right_padded imax p e st ss = (dst, off)"
  shows "slice_correct imax (Layout_right_padded p e st) ss dst off"
proof -
  let ?src = "Layout_right_padded p e st" and ?x = "sub_ext e ss"
  have len: "length e = length ss" using sliceable_rank [OF s] by simp
  have dr: "length ?x = ranges ss" using sub_ext_length [OF len] .
  have ok: "mapping_ok imax ?src" using s by (simp add: sliceable_def)
  note r' = r [unfolded submdspan_mapping_right_padded_def Let_def extents_builder_eq append_Nil dr]
  have pl: "slice_correct imax ?src ss (Layout_right ?x) (sub_offset imax ?src ss)"
    if "sub_strides (rev (pstrides st (rev (evals e)))) ss = rev (lstrides 1 (rev (evals ?x)))"
    using that by (intro plain_result [OF s]) simp_all
  show ?thesis
  proof (cases "e = []")
    case True
    have "slice_correct imax ?src ss ?src (sub_offset imax ?src ss)"
      by (rule result_correct [OF s]) (use True ok in \<open>auto simp: mapping_ok_def\<close>)
    moreover have "sub_offset imax ?src ss = 0" using sliceable_nil(2) [OF s] True by simp
    ultimately show ?thesis using r' True by simp
  next
    case e: False
    have p0: "slice_correct imax ?src ss (Layout_right ?x) (sub_offset imax ?src ss)" if "ranges ss = 0"
      using pl sub_empty_strides [OF s] dr that by simp
    have p1: "slice_correct imax ?src ss (Layout_right ?x) (sub_offset imax ?src ss)" if u: "ranges ss = 1" "is_unit_stride_slice (ss ! (length e - 1))"
    proof (rule pl)
      have n: "ss \<noteq> []" using e len by auto
      then have rv: "rev ss = last ss # rev (butlast ss)" by (metis append_butlast_last_id rev_eq_Cons_iff rev_rev_ident)
      have "ranges (rev ss) = 1" using u(1) by (simp only: rev_filter [symmetric] length_rev)
      moreover have "is_unit_stride_slice (last ss)" using u(2) n len by (simp add: last_conv_nth)
      ultimately have "sub_strides (pstrides st (evals (rev e))) (rev ss) = lstrides 1 (evals (sub_ext (rev e) (rev ss)))"
        using single_strides(1) [OF _ _ rv, of "rev e" st] len by simp
      then show "sub_strides (rev (pstrides st (rev (evals e)))) ss = rev (lstrides 1 (rev (evals ?x)))"
        using sub_rev(1) [OF len] sub_rev(2) [of "pstrides st (rev (evals e))" "rev ss"] len by (simp add: rev_map)
    qed
    have p2: "slice_correct imax ?src ss (right_padded_with_padding imax pv ?x (stride imax ?src (right_padded_stride_index (ranges ss) ss))) (sub_offset imax ?src ss)"
      if "right_padded_stride_index (ranges ss) ss \<noteq> length e" for pv
      using right_padded_result [OF s, of st] rp_shape [OF refl _ refl, of "ss"] that len ok by (simp add: mapping_ok_def)
    show ?thesis using r' e p0 p1 p2 strided_correct [OF s] by (auto split: if_splits)
  qed
qed

lemma submdspan_mapping_result:
  assumes "sliceable imax src ss" "submdspan_mapping imax src ss = (dst, off)"
  shows "slice_correct imax src ss dst off"
  using assms left_correct right_correct stride_correct left_padded_correct right_padded_correct by (cases src) auto

text \<open>
  C37.  \<open>submdspan_mapping\<close> on every source layout (\<open>layout_left\<close>, \<open>layout_right\<close>, \<open>layout_stride\<close> and
  the padded layouts) and every choice of result layout: if the source is representable and the slices
  satisfy the preconditions, the result is representable again, its offset lies within the source, and
  for every index of the result, the offset plus the result's mapping is the source's mapping at the
  index selected by the slices, which is an index of the source.
\<close>

theorem submdspan_mapping_correct:
  assumes "mapping_ok imax src" "imax \<le> size_max" "has_canonical_mapping_slices imax (extents_of src) ss"
    "list_all2 valid_slice (extents_of src) ss" "submdspan_mapping imax src ss = (dst, off)"
  shows "mapping_ok imax dst \<and> extents_of dst = extents_builder (extents_of src) ss [] \<and> off \<le> required_span_size imax src \<and>
         (\<forall>js. index_space dst js \<longrightarrow>
            index_space src (slice_index ss js) \<and> off + call imax dst js = call imax src (slice_index ss js) \<and>
            off + call imax dst js < required_span_size imax src)"
proof -
  have "sliceable imax src ss" using assms by (simp add: sliceable_def has_canonical_mapping_slices_def)
  then have "slice_correct imax src ss dst off" using assms(5) by (rule submdspan_mapping_result)
  then show ?thesis using mapping_ok_call(2) [OF assms(1)] by (auto simp: slice_correct_def)
qed

section \<open>A concrete view\<close>

text \<open>A 4 by 5 by 6 view with 8-bit indices, of which the middle extent is only known at run time.\<close>

definition view_demo :: view where
  "view_demo = \<lparr>data_handle = 100, view_mapping = Layout_left [Cw 4, Dyn 5, Cw 6]\<rparr>"

lemma view_demo_ok: "mapping_ok 255 (Layout_left [Cw 4, Dyn 5, Cw 6])"
  by (simp add: mapping_ok_def space_size_def)

text \<open>Rows 1 and 2 of a matrix: the result is a padded layout.\<close>

definition slices_demo :: "slice list" where
  "slices_demo = [Ext (Cw 1) (Cw 2) (Cw 1), Idx (Dyn 3), Full]"

lemma slices_demo_mapping:
  "submdspan_mapping 255 (Layout_left [Cw 4, Dyn 5, Cw 6]) slices_demo = (Layout_left_padded dynamic_extent [Cw 2, Cw 6] 20, 13)"
  by (simp add: slices_demo_def submdspan_mapping_left_def Let_def sub_offset_def one_oob_def ll_preserving_def left_padded_stride_index_def
    left_padded_with_padding_def make_stride_def least_multiple_at_least_def static_extent_product_def to_index_def dynamic_extent_def size_max_def upt_rec)

theorem submdspan_mapping_correct_witness:
  "mapping_ok 255 (Layout_left_padded dynamic_extent [Cw 2, Cw 6] 20) \<and>
   13 + call 255 (Layout_left_padded dynamic_extent [Cw 2, Cw 6] 20) [1, 5] = call 255 (Layout_left [Cw 4, Dyn 5, Cw 6]) [2, 3, 5]"
proof -
  have "has_canonical_mapping_slices 255 [Cw 4, Dyn 5, Cw 6] slices_demo" "list_all2 valid_slice [Cw 4, Dyn 5, Cw 6] slices_demo"
    by (simp_all add: slices_demo_def has_canonical_mapping_slices_def has_valid_static_stride_def static_index_or_def dynamic_extent_def size_max_def Let_def)
  moreover have "(255 :: nat) \<le> size_max" by (simp add: size_max_def)
  moreover have "index_space (Layout_left_padded dynamic_extent [Cw 2, Cw 6] 20) [1, 5]" "slice_index slices_demo [1, 5] = [2, 3, 5]"
    by (simp_all add: slices_demo_def)
  ultimately show ?thesis
    using submdspan_mapping_correct [OF view_demo_ok _ _ _ slices_demo_mapping] by fastforce
qed

end
