(* ===== verification/Submdspan_View.thy ===== *)
theory Submdspan_View
  imports Submdspan
begin

text \<open>
  \<open>submdspan\<close> from raw slices to elements: canonical slices describe what the raw ones do, and the type of
  the result satisfies its static assertions when the index space of the source, with its padding, is
  representable.
\<close>

section \<open>Raw slices\<close>

text \<open>The preconditions of a raw slice, the indices of the result it allows and the index each stands for.\<close>

fun valid_raw :: "nat \<Rightarrow> member \<Rightarrow> raw_slice \<Rightarrow> bool" where
  "valid_raw imax x R_full \<longleftrightarrow> True"
| "valid_raw imax x (R_index m) \<longleftrightarrow> mval m < mval x"
| "valid_raw imax x (R_extent f n s) \<longleftrightarrow> valid_slice x (Ext f n s) \<and> mval f \<le> imax \<and> mval n \<le> imax \<and> mval s \<le> imax \<and> has_valid_static_stride n s"
| "valid_raw imax x (R_range f l s) \<longleftrightarrow> mval f \<le> mval l \<and> mval l \<le> mval x \<and> 0 < mval s \<and> mval s \<le> imax"
| "valid_raw imax x (R_pair f l) \<longleftrightarrow> mval f \<le> mval l \<and> mval l \<le> mval x"

fun raw_allows :: "member \<Rightarrow> raw_slice \<Rightarrow> nat \<Rightarrow> bool" where
  "raw_allows x R_full j \<longleftrightarrow> j < mval x"
| "raw_allows x (R_extent f n s) j \<longleftrightarrow> j < mval n"
| "raw_allows x (R_range f l s) j \<longleftrightarrow> mval f + j * mval s < mval l"
| "raw_allows x (R_pair f l) j \<longleftrightarrow> mval f + j < mval l"
| "raw_allows x (R_index m) j \<longleftrightarrow> False"

fun raw_at :: "raw_slice \<Rightarrow> nat \<Rightarrow> nat" where
  "raw_at R_full j = j"
| "raw_at (R_extent f n s) j = mval f + j * mval s"
| "raw_at (R_range f l s) j = mval f + j * mval s"
| "raw_at (R_pair f l) j = mval f + j"
| "raw_at (R_index m) j = mval m"

fun is_raw_index :: "raw_slice \<Rightarrow> bool" where
  "is_raw_index (R_index m) = True"
| "is_raw_index r = False"

fun raw_inside :: "member list \<Rightarrow> raw_slice list \<Rightarrow> nat list \<Rightarrow> bool" where
  "raw_inside (x # e) (r # rs) js \<longleftrightarrow>
     (if is_raw_index r then raw_inside e rs js else js \<noteq> [] \<and> raw_allows x r (hd js) \<and> raw_inside e rs (tl js))"
| "raw_inside e rs js \<longleftrightarrow> e = [] \<and> rs = [] \<and> js = []"

fun raw_index :: "raw_slice list \<Rightarrow> nat list \<Rightarrow> nat list" where
  "raw_index [] js = []"
| "raw_index (r # rs) js = (if is_raw_index r then raw_at r 0 # raw_index rs js else raw_at r (hd js) # raw_index rs (tl js))"

lemma valid_slice_static: "valid_slice x sl \<Longrightarrow> is_valid_static_slice_type x sl"
proof (cases sl)
  case (Ext f n s)
  assume v: "valid_slice x sl"
  show ?thesis
  proof (cases "static_of x = dynamic_extent")
    case False
    let ?f = "static_index_or f 0" and ?n = "static_index_or n 0" and ?s = "static_index_or s 1"
    have x: "static_of x = mval x" using static_val [OF False] .
    have le: "?f \<le> mval f" "?n \<le> mval n" by (simp_all add: static_index_or_def)
    show ?thesis
    proof (cases "?n = 0")
      case True
      then show ?thesis using v Ext le x by (auto simp: Let_def split: if_splits)
    next
      case n: False
      then have b: "mval f + (mval n - 1) * mval s < mval x" "mval n > 1 \<longrightarrow> mval s > 0" "?n = mval n" using v Ext by (auto simp: static_index_or_def split: if_splits)
      have c: "(mval n - 1) * ?s \<le> (mval n - 1) * mval s"
        using b(2) by (cases "mval n > 1") (auto simp: static_index_or_def)
      have d: "(mval n - 1) * ?s \<le> mval x - ?f - 1" using b(1) c le(1) by linarith
      have "mval n \<le> mval x"
      proof (cases "mval n > 1")
        case True
        then have "(mval n - 1) * 1 \<le> (mval n - 1) * mval s" using b(2) by (intro mult_le_mono2) simp
        then show ?thesis using b(1) by linarith
      qed (use b(1) in linarith)
      moreover have "?n \<noteq> 1 \<longrightarrow> ?s \<noteq> 0" using b(2,3) n by (auto simp: static_index_or_def)
      moreover have "?s \<noteq> 0 \<longrightarrow> ?n - 1 \<le> (mval x - ?f - 1) div ?s" using d b(3) by (simp add: less_eq_div_iff_mult_less_eq)
      moreover have "?f < mval x" using b(1) le(1) by linarith
      ultimately show ?thesis using Ext x False n b(3) by (auto simp: Let_def)
    qed
  qed (use Ext in simp)
next
  case (Idx m)
  then show "valid_slice x sl \<Longrightarrow> ?thesis" using static_val [of x] by auto
qed simp

text \<open>A canonical slice that selects what the raw slice does.\<close>

fun matches :: "member \<Rightarrow> raw_slice \<Rightarrow> slice \<Rightarrow> bool" where
  "matches x r (Idx m) \<longleftrightarrow> is_raw_index r \<and> mval m = raw_at r 0"
| "matches x r Full \<longleftrightarrow> r = R_full"
| "matches x r (Ext f n s) \<longleftrightarrow> \<not> is_raw_index r \<and> (\<forall>j. (j < mval n \<longleftrightarrow> raw_allows x r j) \<and> (j < mval n \<longrightarrow> mval f + j * mval s = raw_at r j))"

definition slice_ok :: "nat \<Rightarrow> member \<Rightarrow> raw_slice \<Rightarrow> slice \<Rightarrow> bool" where
  "slice_ok imax x r sl \<longleftrightarrow> is_canonical_slice imax sl \<and> valid_slice x sl \<and> matches x r sl"

lemma canonical_index_id: "mval m \<le> imax \<Longrightarrow> canonical_index imax m = Some m"
  by (cases m) auto

lemma index_difference_val: "mval f \<le> mval l \<Longrightarrow> mval l \<le> imax \<Longrightarrow> \<exists>d. index_difference imax l f = Some d \<and> mval d = mval l - mval f"
proof -
  assume a: "mval f \<le> mval l" "mval l \<le> imax"
  have "mval l + (imax + 1) - mval f = (mval l - mval f) + (imax + 1)" using a by simp
  then have "to_index imax (mval l + (imax + 1) - mval f) = mval l - mval f" unfolding to_index_def using a by (simp only: mod_add_self2) simp
  then show ?thesis using a by (simp add: index_difference_def Let_def)
qed

lemma strided_count: "0 < s \<Longrightarrow> 0 < d \<Longrightarrow> (j :: nat) < 1 + (d - 1) div s \<longleftrightarrow> j * s < d"
proof -
  assume a: "0 < s" "0 < d"
  have "j < 1 + (d - 1) div s \<longleftrightarrow> j \<le> (d - 1) div s" by auto
  also have "\<dots> \<longleftrightarrow> j * s \<le> d - 1" using a by (simp add: less_eq_div_iff_mult_less_eq)
  finally show ?thesis using a by auto
qed

lemma range_slice_ok:
  assumes fl: "mval f \<le> mval l" "mval l \<le> mval x" "mval x \<le> imax" "1 \<le> imax" and st: "\<forall>t. strides = Some t \<longrightarrow> 0 < mval t \<and> mval t \<le> imax"
    and q: "q = (case strides of None \<Rightarrow> 1 | Some t \<Rightarrow> mval t)" and d: "mval span = mval l - mval f"
  shows "\<exists>n s. canonical_range_slice imax f span strides = Some (Ext f n s) \<and> mval s \<le> imax \<and> 0 < mval s \<and> mval n \<le> imax \<and>
     (\<forall>j. (j < mval n \<longleftrightarrow> mval f + j * q < mval l)) \<and> (mval n \<noteq> 0 \<longrightarrow> mval s = q)"
proof -
  let ?d = "mval l - mval f"
  have c: "canonical_index imax f = Some f" "canonical_index imax span = Some span" using fl d by (simp_all add: canonical_index_id)
  obtain s where s: "canonical_stride imax span strides = Some s" "0 < mval s" "mval s \<le> imax" "?d \<noteq> 0 \<longrightarrow> mval s = q"
  proof (cases strides)
    case None
    then show ?thesis using that [of "Cw 1"] q fl by (simp add: canonical_stride_def)
  next
    case (Some t)
    then have t: "canonical_index imax t = Some t" "0 < mval t" "mval t \<le> imax" "q = mval t" using st q by (simp_all add: canonical_index_id)
    show ?thesis
    proof (cases "span = Cw 0")
      case True
      then have "?d = 0" using d by simp
      then show ?thesis using that [of "Cw 1"] True Some fl by (simp add: canonical_stride_def)
    next
      case False
      then show ?thesis using that [of "if is_constant_wrapper t then t else Dyn (if mval span = 0 then 1 else mval t)"] t Some d fl
        by (cases "is_constant_wrapper t") (auto simp: canonical_stride_def)
    qed
  qed
  define n where "n = (if ?d = 0 then 0 else 1 + (?d - 1) div mval s)"
  have n: "n \<le> imax"
  proof (cases "?d = 0")
    case False
    have "(?d - 1) div mval s \<le> ?d - 1" by (rule div_le_dividend)
    then have "1 + (?d - 1) div mval s \<le> ?d" using False by linarith
    also have "?d \<le> imax" using fl by linarith
    finally show ?thesis using False unfolding n_def by simp
  qed (simp add: n_def)
  have m: "(if ?d = 0 then 0 else to_index imax (1 + (?d - 1) div mval s)) = n" using n unfolding n_def by auto
  have "canonical_range_slice imax f span strides = Some (Ext f (if is_constant_wrapper span \<and> is_constant_wrapper s then Cw n else Dyn n) s)"
    unfolding canonical_range_slice_def c Option.bind.simps s(1) Let_def d m using s(2) by simp
  moreover have "j < n \<longleftrightarrow> mval f + j * q < mval l" for j
  proof (cases "?d = 0")
    case False
    then have "j < n \<longleftrightarrow> j * q < ?d" using strided_count [of "mval s" ?d j] s(2,4) unfolding n_def by auto
    then show ?thesis by auto
  qed (use fl in \<open>simp add: n_def\<close>)
  moreover have "n \<noteq> 0 \<longrightarrow> mval s = q" using s(4) by (simp add: n_def)
  ultimately show ?thesis using s n by (intro exI [of _ "if is_constant_wrapper span \<and> is_constant_wrapper s then Cw n else Dyn n"] exI [of _ s]) simp
qed

lemma range_valid:
  assumes "\<forall>j. j < mval n \<longleftrightarrow> mval f + j * q < mval l" "mval n \<noteq> 0 \<longrightarrow> mval s = q" "mval f \<le> mval l" "mval l \<le> mval x" "0 < mval s"
  shows "valid_slice x (Ext f n s)"
proof (cases "mval n = 0")
  case False
  then have "mval f + (mval n - 1) * q < mval l" using assms(1) [rule_format, of "mval n - 1"] by simp
  then show ?thesis using False assms by simp
qed (use assms in simp)

lemma canonical_slice_ok:
  assumes v: "valid_raw imax x r" and x: "mval x \<le> imax" and i: "1 \<le> imax"
  shows "\<exists>sl. canonical_slice imax r = Some sl \<and> slice_ok imax x r sl"
proof -
  have range: "\<exists>n t. Option.bind (index_difference imax l f) (\<lambda>span. canonical_range_slice imax f span st) = Some (Ext f n t) \<and> is_canonical_slice imax (Ext f n t) \<and>
      valid_slice x (Ext f n t) \<and> (\<forall>j. (j < mval n \<longleftrightarrow> mval f + j * q < mval l) \<and> (j < mval n \<longrightarrow> mval t = q))"
    if a: "mval f \<le> mval l" "mval l \<le> mval x" and st: "\<forall>t. st = Some t \<longrightarrow> 0 < mval t \<and> mval t \<le> imax" and q: "q = (case st of None \<Rightarrow> 1 | Some t \<Rightarrow> mval t)"
    for f l st q
  proof -
    obtain span where d: "index_difference imax l f = Some span" "mval span = mval l - mval f" using index_difference_val [of f l imax] a x by auto
    from range_slice_ok [OF a x i st q d(2)] obtain n t where
      c: "canonical_range_slice imax f span st = Some (Ext f n t)" "mval t \<le> imax" "0 < mval t" "mval n \<le> imax"
      and n: "\<forall>j. (j < mval n \<longleftrightarrow> mval f + j * q < mval l)" "mval n \<noteq> 0 \<longrightarrow> mval t = q" by blast
    have "valid_slice x (Ext f n t)" using range_valid [OF n a c(3)] .
    moreover have "is_canonical_slice imax (Ext f n t)" using c a x by (simp add: has_valid_static_stride_def)
    moreover have "mval t = q" if "j < mval n" for j using n(2) that by (metis less_nat_zero_code)
    ultimately show ?thesis using c(1) d(1) n(1) by auto
  qed
  show ?thesis
  proof (cases r)
    case (R_range f l s)
    then have a: "mval f \<le> mval l" "mval l \<le> mval x" "0 < mval s" "mval s \<le> imax" using v by auto
    have c: "canonical_slice imax r = Option.bind (index_difference imax l f) (\<lambda>span. canonical_range_slice imax f span (Some s))"
      using a x by (simp add: R_range canonical_index_id)
    have st: "\<forall>t. Some s = Some t \<longrightarrow> 0 < mval t \<and> mval t \<le> imax" "mval s = (case Some s of None \<Rightarrow> 1 | Some t \<Rightarrow> mval t)" using a(3,4) by simp_all
    show ?thesis using range [OF a(1,2) st] unfolding c by (auto simp: slice_ok_def R_range)
  next
    case (R_pair f l)
    then have a: "mval f \<le> mval l" "mval l \<le> mval x" using v by auto
    have c: "canonical_slice imax r = Option.bind (index_difference imax l f) (\<lambda>span. canonical_range_slice imax f span None)"
      using a x by (simp add: R_pair canonical_index_id)
    have st: "\<forall>t. None = Some t \<longrightarrow> 0 < mval t \<and> mval t \<le> imax" "1 = (case None of None \<Rightarrow> 1 | Some t \<Rightarrow> mval t)" by simp_all
    show ?thesis using range [OF a st] unfolding c by (auto simp: slice_ok_def R_pair)
  qed (use v x in \<open>auto simp: canonical_index_id slice_ok_def\<close>)
qed

lemma canonical_forms_ok:
  assumes "list_all2 (valid_raw imax) e raw" "list_all (\<lambda>x. mval x \<le> imax) e" "1 \<le> imax"
  shows "\<exists>ss. those (map (canonical_slice imax) raw) = Some ss \<and> length ss = length e \<and>
     (\<forall>k < length e. slice_ok imax (e ! k) (raw ! k) (ss ! k))"
  using assms(1,2)
proof (induction e raw rule: list_all2_induct)
  case (Cons x e r raw)
  then obtain ss where ss: "those (map (canonical_slice imax) raw) = Some ss" "length ss = length e" "\<forall>k < length e. slice_ok imax (e ! k) (raw ! k) (ss ! k)" by auto
  obtain sl where "canonical_slice imax r = Some sl" "slice_ok imax x r sl" using canonical_slice_ok [OF Cons.hyps(1)] Cons.prems assms(3) by auto
  then show ?case using ss by (intro exI [of _ "sl # ss"]) (auto simp: nth_Cons')
qed simp

lemma canonical_slices_ok:
  assumes "list_all2 (valid_raw imax) e raw" "list_all (\<lambda>x. mval x \<le> imax) e" "1 \<le> imax"
  shows "\<exists>ss. canonical_slices imax e raw = Some ss \<and> length ss = length e \<and>
     (\<forall>k < length e. slice_ok imax (e ! k) (raw ! k) (ss ! k))"
proof -
  obtain ss where ss: "those (map (canonical_slice imax) raw) = Some ss" "length ss = length e" "\<forall>k < length e. slice_ok imax (e ! k) (raw ! k) (ss ! k)"
    using canonical_forms_ok [OF assms] by blast
  then have "has_canonical_mapping_slices imax e ss"
    using valid_slice_static by (auto simp: has_canonical_mapping_slices_def list_all2_conv_all_nth list_all_length slice_ok_def)
  then show ?thesis using ss by (simp add: canonical_slices_def)
qed

lemma matches_select:
  assumes "length e = length raw" "length ss = length e" "\<forall>k < length e. matches (e ! k) (raw ! k) (ss ! k)"
  shows "inside (evals (sub_ext e ss)) js \<longleftrightarrow> raw_inside e raw js"
    "inside (evals (sub_ext e ss)) js \<Longrightarrow> slice_index ss js = raw_index raw js"
proof -
  have "(inside (evals (sub_ext e ss)) js \<longleftrightarrow> raw_inside e raw js) \<and> (inside (evals (sub_ext e ss)) js \<longrightarrow> slice_index ss js = raw_index raw js)"
    using assms
  proof (induction e raw arbitrary: ss js rule: list_induct2)
    case Nil
    then show ?case by (cases js) auto
  next
    case (Cons x e r raw)
    then obtain sl ss' where ss: "ss = sl # ss'" by (cases ss) auto
    have m: "matches x r sl" and "length ss' = length e" "\<forall>k < length e. matches (e ! k) (raw ! k) (ss' ! k)" using Cons.prems ss by force+
    note IH = Cons.IH [OF this(2,3)]
    show ?case
    proof (cases sl)
      case (Idx i)
      then show ?thesis using IH [of js] m ss by simp
    next
      case Full
      then show ?thesis using IH [of "tl js"] m ss by (cases js) auto
    next
      case (Ext f n s)
      then show ?thesis using IH [of "tl js"] m ss by (cases js) auto
    qed
  qed
  then show "inside (evals (sub_ext e ss)) js \<longleftrightarrow> raw_inside e raw js" "inside (evals (sub_ext e ss)) js \<Longrightarrow> slice_index ss js = raw_index raw js" by blast+
qed

section \<open>Static assertions of the result\<close>

text \<open>
  The sizes that the constructors of the layouts require to be representable: the number of indices, and for
  a padded layout the product of the padded extent and the others.  A static padding value is the one that
  the stride has.
\<close>

fun padded_space_ok :: "nat \<Rightarrow> mapping \<Rightarrow> bool" where
  "padded_space_ok imax (Layout_left_padded p e s) \<longleftrightarrow>
     (length e > 1 \<longrightarrow> s * prod_list (tl (evals e)) \<le> imax \<and> (p = dynamic_extent \<or> s = round_up p (mval (hd e))))"
| "padded_space_ok imax (Layout_right_padded p e s) \<longleftrightarrow>
     (length e > 1 \<longrightarrow> s * prod_list (butlast (evals e)) \<le> imax \<and> (p = dynamic_extent \<or> s = round_up p (mval (last e))))"
| "padded_space_ok imax m \<longleftrightarrow> True"

definition space_ok :: "nat \<Rightarrow> mapping \<Rightarrow> bool" where
  "space_ok imax m \<longleftrightarrow> rank m \<le> dynamic_extent \<and> prod_list (evals (extents_of m)) \<le> imax \<and> padded_space_ok imax m"

text \<open>A mapping that satisfies the static assertions of its type and the preconditions of its constructors.\<close>

definition layout_ok :: "nat \<Rightarrow> mapping \<Rightarrow> bool" where
  "layout_ok imax m \<longleftrightarrow> layout_mandates imax m \<and> space_ok imax m"

lemma valid_extent_le: "valid_slice x (Ext f n s) \<Longrightarrow> mval n \<le> mval x"
proof (cases "mval n > 1")
  case True
  assume v: "valid_slice x (Ext f n s)"
  then have b: "mval f + (mval n - 1) * mval s < mval x" "0 < mval s" using True by auto
  then have "(mval n - 1) * 1 \<le> (mval n - 1) * mval s" by (intro mult_le_mono2) simp
  then show ?thesis using b(1) True by linarith
qed (auto split: if_splits)

lemma sub_prod_le: "list_all2 valid_slice e ss \<Longrightarrow> 0 \<notin> set (evals e) \<Longrightarrow> prod_list (evals (sub_ext e ss)) \<le> prod_list (evals e)"
proof -
  assume v: "list_all2 valid_slice e ss" and z: "0 \<notin> set (evals e)"
  have "length e = length ss" using v by (rule list_all2_lengthD)
  then show ?thesis using v z
  proof (induction e ss rule: slice_induct)
    case (Idx x e m ss)
    then have "prod_list (evals (sub_ext e ss)) \<le> prod_list (evals e)" by simp
    also have "1 * prod_list (evals e) \<le> mval x * prod_list (evals e)" using Idx by (intro mult_le_mono1) auto
    finally show ?case by simp
  next
    case (Ext x e f n s ss)
    then show ?case using valid_extent_le [of x f n s] by (auto intro!: mult_le_mono simp del: valid_slice.simps)
  qed simp_all
qed

lemma sub_length_le: "length e = length ss \<Longrightarrow> length (sub_ext e ss) \<le> length e"
  by (induction e ss rule: slice_induct) auto

lemma static_space: "1 \<le> imax \<Longrightarrow> prod_list (evals e) \<le> imax \<Longrightarrow> length e \<le> dynamic_extent \<Longrightarrow> static_space_mandate imax e"
proof -
  assume a: "1 \<le> imax" "prod_list (evals e) \<le> imax" "length e \<le> dynamic_extent"
  have "static_product_representable imax (evals e) dynamic_extent 0"
    using a static_factors_none [of "evals e"] by (simp add: product_representable_iff)
  then show ?thesis by (cases "all_static e") (simp_all only: static_evals static_space_mandate_def simp_thms)
qed

text \<open>A padded layout whose padding value, when it is static, is the stride \<open>q\<close>.\<close>

lemma lp_mandates_intro:
  assumes i: "1 \<le> imax" "imax \<le> size_max" and l: "length e \<le> dynamic_extent" "e = x # xs" "xs \<noteq> []" and pv: "pv = dynamic_extent \<or> pv = q"
    and q: "mval x \<le> q" "q \<le> imax" "q * prod_list (evals xs) \<le> imax" and pr: "prod_list (evals e) \<le> imax"
  shows "lp_mandates imax pv e"
proof -
  have lim: "static_size_limit imax = imax" using i by (auto simp: static_size_limit_def)
  have sp: "\<not> all_static e \<or> static_product_representable imax (map static_of e) dynamic_extent 0"
    using static_space [OF i(1) pr l(1)] by (simp add: static_space_mandate_def)
  show ?thesis
  proof (cases "pv = dynamic_extent")
    case True
    then show ?thesis using sp by (simp add: lp_mandates_def Let_def)
  next
    case False
    then have p: "pv = q" using pv by simp
    have up: "round_up pv (mval x) = (if mval x = 0 then 0 else q)" using q(1) round_up_absorb [of "mval x" q] p by (auto simp: round_up_def)
    have rep: "static_stride_representable imax pv (mval x)" using up q(2) lim by (simp add: stride_representable_iff)
    have st: "static_padding_stride imax pv (length e) (mval x) = (if mval x = 0 then 0 else q)" if "mval x \<noteq> dynamic_extent"
      using False that l rep up q i least_multiple_eq [of "mval x" size_max pv] by (simp add: static_padding_stride_def)
    have "static_product_representable imax (map static_of e) 0 (static_padding_stride imax pv (length e) (static_of x))" if "all_static e"
    proof -
      have x: "static_of x \<noteq> dynamic_extent" "static_of x = mval x" using that l static_val by (auto simp: all_static_def)
      have "prod_list (static_factors (evals e) 0 (static_padding_stride imax pv (length e) (mval x))) \<le> imax"
        using st q(3) x l by (simp add: static_factors_first)
      then have "static_product_representable imax (evals e) 0 (static_padding_stride imax pv (length e) (static_of x))"
        using x(2) by (simp only: product_representable_iff [OF i(1)])
      then show ?thesis by (simp only: static_evals [OF that])
    qed
    moreover have "static_of x = dynamic_extent \<or> static_stride_representable imax pv (static_of x)" using rep static_val [of x] by metis
    ultimately show ?thesis using sp p q(2) lim l by (auto simp: lp_mandates_def Let_def)
  qed
qed

lemma left_padded_compiles:
  assumes i: "1 \<le> imax" "imax \<le> size_max" and l: "length e \<le> dynamic_extent" "1 < length e" and pv: "pv = dynamic_extent \<or> pv = q"
    and q: "mval (hd e) \<le> q" "q \<le> imax" "q * prod_list (tl (evals e)) \<le> imax" and pr: "prod_list (evals e) \<le> imax"
  shows "layout_ok imax (left_padded_with_padding imax pv e q)"
    "\<exists>s. left_padded_with_padding imax pv e q = Layout_left_padded pv e s"
proof -
  obtain x xs where e: "e = x # xs" "xs \<noteq> []" using l(2) by (cases e) auto
  have s: "make_stride imax (to_index imax (mval x)) (to_index imax q) = (if mval x = 0 then 0 else q)"
    using q e pad_value [of "mval x" q imax] by (auto simp: make_stride_def least_multiple_at_least_def to_index_def)
  have d: "left_padded_with_padding imax pv e q = Layout_left_padded pv e (if mval x = 0 then 0 else q)"
    using s e by (simp add: left_padded_with_padding_def)
  show "\<exists>s. left_padded_with_padding imax pv e q = Layout_left_padded pv e s" using d by blast
  have "lp_mandates imax pv e" using lp_mandates_intro [OF i l(1) e pv] q pr e by simp
  moreover have "pv = dynamic_extent \<or> (if mval x = 0 then 0 else q) = round_up pv (mval x)"
    using pv q(1) round_up_absorb [of "mval x" q] e by (auto simp: round_up_def)
  ultimately show "layout_ok imax (left_padded_with_padding imax pv e q)"
    using q(3) pr l e unfolding d by (auto simp: layout_ok_def space_ok_def)
qed

lemma right_left_compiles:
  assumes "1 \<le> imax" "length e \<le> dynamic_extent" "layout_ok imax (Layout_left_padded pv (rev e) s)"
  shows "layout_ok imax (Layout_right_padded pv e s)"
proof -
  have "tl (evals (rev e)) = rev (butlast (evals e))" by (cases e rule: rev_cases) (simp_all add: rev_map [symmetric])
  then have t: "prod_list (tl (evals (rev e))) = prod_list (butlast (evals e))" "hd (rev e) = last e" by (simp_all add: prod_list_rev hd_rev)
  have "padded_space_ok imax (Layout_right_padded pv e s) = padded_space_ok imax (Layout_left_padded pv (rev e) s)"
    unfolding padded_space_ok.simps t length_rev by (rule refl)
  moreover have "prod_list (evals (rev e)) = prod_list (evals e)" by (simp only: rev_map [symmetric] prod_list_rev)
  ultimately show ?thesis using assms(3) rp_lp_mandates [OF assms(1,2), of pv] by (simp only: layout_ok_def space_ok_def layout_mandates.simps extents_of.simps length_rev)
qed

text \<open>The padded slice of a source with the strides \<open>pstrides p\<close>.\<close>

lemma pad_slice:
  assumes sh: "pad_shape si ss" and v: "list_all2 valid_slice e ss" and z: "0 \<notin> set (evals e)" and h: "hd (evals e) \<le> p"
    and b: "p * prod_list (tl (evals e)) \<le> imax" "prod_list (evals e) \<le> imax" "length e \<le> dynamic_extent"
  defines "q \<equiv> pstrides p (evals e) ! si" and "x \<equiv> sub_ext e ss"
  shows "1 < length x" "length x \<le> dynamic_extent" "mval (hd x) \<le> q" "q \<le> imax" "q * prod_list (tl (evals x)) \<le> imax" "prod_list (evals x) \<le> imax"
proof -
  have len: "length e = length ss" using v by (rule list_all2_lengthD)
  note S = pad_shape_strides [OF sh len v]
  obtain u b' r where ss: "ss = u # b' @ r" and u: "is_unit_stride_slice u" "list_all is_index_slice b'" "si = Suc (length b')"
    using sh by (auto simp: pad_shape_def)
  obtain y e' where e: "e = y # e'" "length e' = length (b' @ r)" using len ss by (cases e) auto
  obtain n where n: "sub_ext (y # e') (u # b' @ r) = n # sub_ext e' (b' @ r)" using unit_slice(2) [OF u(1), of y e' "b' @ r"] v e(1) ss by auto
  let ?k = "length b'"
  have tl: "tl x = sub_ext (drop ?k e') r" using n skip_indices(2) [OF u(2) e(2)] by (simp add: x_def ss e(1))
  have "?k < length (evals e')" using S(2) len e(1) u(3) by simp
  then have q: "q = p * prod_list (take ?k (evals e'))" using e u(3) lstrides_nth [of ?k "evals e'" p] by (simp add: q_def)
  have sp: "prod_list (evals e') = prod_list (take ?k (evals e')) * prod_list (drop ?k (evals e'))"
    by (metis append_take_drop_id prod_list.append)
  have vr: "list_all2 valid_slice (drop ?k e') r" using list_all2_dropI [of valid_slice e' "b' @ r" ?k] v e(1) ss by simp
  have zr: "0 \<notin> set (evals (drop ?k e'))" using z e(1) by (auto dest: in_set_dropD)
  have le: "q * prod_list (drop ?k (evals e')) \<le> imax" using b(1) e(1) q sp by (simp add: mult.assoc)
  have "prod_list (tl (evals x)) \<le> prod_list (drop ?k (evals e'))" using sub_prod_le [OF vr zr] tl by (simp add: map_tl [symmetric] drop_map)
  then have "q * prod_list (tl (evals x)) \<le> q * prod_list (drop ?k (evals e'))" by (rule mult_le_mono2)
  then show "q * prod_list (tl (evals x)) \<le> imax" using le by (rule le_trans)
  have "1 \<le> prod_list (drop ?k (evals e'))" using prod_list_pos [OF zr] by (simp add: drop_map)
  then have "q * 1 \<le> q * prod_list (drop ?k (evals e'))" by (rule mult_le_mono2)
  then show "q \<le> imax" using le_trans [OF _ le, of "q * 1"] by simp
  have "p \<le> q" unfolding q_def using pstrides_ge [OF z] S(2,3) len by simp
  then show "mval (hd x) \<le> q" using S(5) h e(1) by (simp add: x_def)
  show "1 < length x" "length x \<le> dynamic_extent" using S(4) sub_length_le [OF len] b(3) by (simp_all add: x_def)
  show "prod_list (evals x) \<le> imax" using sub_prod_le [OF v z] b(2) by (simp add: x_def)
qed

text \<open>The static products are the strides, unless they are dynamic.\<close>

lemma extent_product:
  "0 < r \<Longrightarrow> 0 \<notin> set (evals xs) \<Longrightarrow> r * prod_list (evals xs) \<le> size_max \<Longrightarrow>
   extent_product_loop (map static_of xs) r = dynamic_extent \<or> extent_product_loop (map static_of xs) r = r * prod_list (evals xs)"
proof (induction xs arbitrary: r)
  case (Cons x xs)
  show ?case
  proof (cases "static_of x = dynamic_extent")
    case False
    then have x: "static_of x = mval x" by (rule static_val)
    have "1 \<le> prod_list (evals xs)" using Cons.prems(2) by (intro prod_list_pos) simp
    then have "r * mval x * 1 \<le> r * mval x * prod_list (evals xs)" by (rule mult_le_mono2)
    also have "\<dots> \<le> size_max" using Cons.prems(3) by (simp add: mult.assoc)
    finally have "r * mval x \<le> size_max" by simp
    then show ?thesis using Cons.IH [of "r * mval x"] Cons.prems False x by (simp add: to_index_id mult.assoc)
  qed simp
qed simp

lemma static_extent_product_eq:
  assumes "0 < r" "0 \<notin> set (evals e)" "b \<le> length e" "a \<le> b" "r * prod_list (take (b - a) (drop a (evals e))) \<le> size_max"
  shows "static_extent_product e a b r = dynamic_extent \<or> static_extent_product e a b r = r * prod_list (take (b - a) (drop a (evals e)))"
proof -
  have m: "map (\<lambda>k. static_of (e ! k)) [a..<b] = map static_of (take (b - a) (drop a e))"
    using assms(3,4) by (intro nth_equalityI) (auto simp: nth_append)
  have "0 \<notin> set (evals (take (b - a) (drop a e)))" using assms(2) by (auto dest!: in_set_takeD in_set_dropD)
  then show ?thesis using extent_product [of r "take (b - a) (drop a e)"] assms(1,5)
    by (auto simp: static_extent_product_def m take_map drop_map)
qed

text \<open>The three kinds of result.\<close>

lemma plain_compiles:
  assumes s: "sliceable imax src ss" and z: "0 \<notin> set (evals (extents_of src))" and sp: "space_ok imax src"
    and d: "dst = Layout_left (sub_of src ss) \<or> dst = Layout_right (sub_of src ss) \<or> dst = Layout_stride (sub_of src ss) t"
  shows "layout_ok imax dst"
proof -
  have v: "list_all2 valid_slice (extents_of src) ss" and i: "1 \<le> imax" using s mapping_ok_pos by (auto simp: sliceable_def)
  have "length (sub_of src ss) \<le> dynamic_extent" "prod_list (evals (sub_of src ss)) \<le> imax"
    using sub_length_le [of "extents_of src" ss] sliceable_rank [OF s] sub_prod_le [OF v z] sp by (simp_all add: space_ok_def)
  then show ?thesis using d static_space [OF i] by (auto simp: layout_ok_def space_ok_def)
qed

lemma left_pad_compiles:
  assumes s: "sliceable imax src ss" and z: "0 \<notin> set (evals (extents_of src))" and sp: "space_ok imax src"
    and st: "list_strides src = pstrides p (evals (extents_of src))" and h: "hd (evals (extents_of src)) \<le> p"
    and b: "p * prod_list (tl (evals (extents_of src))) \<le> imax" and sh: "pad_shape si ss"
    and pv: "pv = dynamic_extent \<or> pv = pstrides p (evals (extents_of src)) ! si"
  shows "layout_ok imax (left_padded_with_padding imax pv (sub_of src ss) (stride imax src si))"
proof -
  have v: "list_all2 valid_slice (extents_of src) ss" and ok: "mapping_ok imax src" and im: "imax \<le> size_max" using s by (simp_all add: sliceable_def)
  have sp': "prod_list (evals (extents_of src)) \<le> imax" "rank src \<le> dynamic_extent" using sp by (simp_all add: space_ok_def)
  note P = pad_slice [OF sh v z h b sp']
  have "si < rank src" using pad_shape_strides(2) [OF sh _ v] sliceable_rank [OF s] by simp
  then have "stride imax src si = pstrides p (evals (extents_of src)) ! si" using mapping_ok_stride [OF ok z] st by simp
  then show ?thesis using left_padded_compiles(1) [OF mapping_ok_pos [OF ok] im P(2,1) pv P(3,4,5,6)] by simp
qed

lemma right_pad_compiles:
  assumes s: "sliceable imax src ss" and z: "0 \<notin> set (evals (extents_of src))" and sp: "space_ok imax src"
    and st: "list_strides src = rev (pstrides p (rev (evals (extents_of src))))" and h: "last (evals (extents_of src)) \<le> p"
    and b: "p * prod_list (butlast (evals (extents_of src))) \<le> imax" and sh: "pad_shape (length ss - 1 - si) (rev ss)" "si < length ss"
    and pv: "pv = dynamic_extent \<or> pv = pstrides p (rev (evals (extents_of src))) ! (length ss - 1 - si)"
  shows "layout_ok imax (right_padded_with_padding imax pv (sub_of src ss) (stride imax src si))"
proof -
  let ?e = "extents_of src" and ?x = "sub_of src ss"
  have len: "length ?e = length ss" using sliceable_rank [OF s] .
  have v: "list_all2 valid_slice (rev ?e) (rev ss)" and ok: "mapping_ok imax src" and im: "imax \<le> size_max" using s by (simp_all add: sliceable_def)
  have ev: "evals (rev ?e) = rev (evals ?e)" by (simp add: rev_map)
  have ne: "evals ?e \<noteq> []" using len sh(2) by auto
  then have tl: "tl (rev (evals ?e)) = rev (butlast (evals ?e))" by (cases "evals ?e" rule: rev_cases) simp_all
  have b': "p * prod_list (tl (evals (rev ?e))) \<le> imax" "prod_list (evals (rev ?e)) \<le> imax" "length (rev ?e) \<le> dynamic_extent"
    using b sp unfolding ev tl by (simp_all add: prod_list_rev space_ok_def)
  have "0 \<notin> set (evals (rev ?e))" "hd (evals (rev ?e)) \<le> p" using z h ne unfolding ev by (simp_all add: hd_rev)
  note P = pad_slice [OF sh(1) v this b', unfolded ev sub_rev(1) [OF len]]
  have "stride imax src si = pstrides p (rev (evals ?e)) ! (length ss - 1 - si)"
    using mapping_ok_stride [OF ok z, of si] st sh(2) len by (simp add: rev_nth)
  then have c: "layout_ok imax (left_padded_with_padding imax pv (rev ?x) (stride imax src si))"
    "\<exists>t. left_padded_with_padding imax pv (rev ?x) (stride imax src si) = Layout_left_padded pv (rev ?x) t"
    using left_padded_compiles [OF mapping_ok_pos [OF ok] im P(2,1) pv P(3,4,5,6)] by simp_all
  then obtain t where t: "left_padded_with_padding imax pv (rev ?x) (stride imax src si) = Layout_left_padded pv (rev ?x) t" by blast
  then have "layout_ok imax (Layout_right_padded pv ?x t)" using right_left_compiles [OF mapping_ok_pos [OF ok]] c(1) P(2) by simp
  moreover have "right_padded_with_padding imax pv ?x (stride imax src si) = Layout_right_padded pv ?x t" using t right_left_padding by blast
  ultimately show ?thesis by simp
qed

lemma left_mapping_compiles:
  assumes s: "sliceable imax (Layout_left e) ss" and z: "0 \<notin> set (evals e)" and sp: "space_ok imax (Layout_left e)"
    and r: "submdspan_mapping_left imax e ss = (dst, off)"
  shows "layout_ok imax dst"
proof -
  let ?si = "left_padded_stride_index (ranges ss) ss" and ?x = "sub_ext e ss"
  have len: "length e = length ss" using sliceable_rank [OF s] by simp
  note r' = r [unfolded submdspan_mapping_left_def Let_def extents_builder_eq append_Nil sub_ext_length [OF len]]
  note pl = plain_compiles [OF s, unfolded extents_of.simps, OF z sp]
  have "layout_ok imax (left_padded_with_padding imax (static_extent_product e 0 ?si 1) ?x (stride imax (Layout_left e) ?si))" if n: "?si \<noteq> length e"
  proof -
    have sh: "pad_shape ?si ss" using lp_shape [OF refl _ refl, of ss] n len by simp
    have v: "list_all2 valid_slice e ss" and im: "imax \<le> size_max" using s by (simp_all add: sliceable_def)
    note S = pad_shape_strides [OF sh len v]
    obtain x xs where e: "e = x # xs" using S(2) len by (cases e) auto
    have q: "pstrides (hd (evals e)) (evals e) ! ?si = prod_list (take ?si (evals e))"
      using lstrides_nth [of ?si "evals e" 1] lstrides_pstrides [of "evals e"] S(2) len by simp
    have "prod_list (take ?si (evals e)) \<le> size_max" using prod_list_take_le [OF z, of ?si] sp im by (simp add: space_ok_def)
    then have "static_extent_product e 0 ?si 1 = dynamic_extent \<or> static_extent_product e 0 ?si 1 = prod_list (take ?si (evals e))"
      using static_extent_product_eq [of 1 e ?si 0] z S(2) len by simp
    then show ?thesis
      using left_pad_compiles [OF s _ sp, of "hd (evals e)" ?si "static_extent_product e 0 ?si 1"] z sh q sp e
      by (simp add: lstrides_pstrides [unfolded One_nat_def] space_ok_def)
  qed
  then show ?thesis using r' pl by (auto simp: strided_result_def split: if_splits)
qed

lemma right_mapping_compiles:
  assumes s: "sliceable imax (Layout_right e) ss" and z: "0 \<notin> set (evals e)" and sp: "space_ok imax (Layout_right e)"
    and r: "submdspan_mapping_right imax e ss = (dst, off)"
  shows "layout_ok imax dst"
proof -
  let ?si = "right_padded_stride_index (ranges ss) ss" and ?x = "sub_ext e ss" and ?n = "length ss"
  have len: "length e = ?n" using sliceable_rank [OF s] by simp
  note r' = r [unfolded submdspan_mapping_right_def Let_def extents_builder_eq append_Nil sub_ext_length [OF len]]
  note pl = plain_compiles [OF s, unfolded extents_of.simps, OF z sp]
  have "layout_ok imax (right_padded_with_padding imax (static_extent_product e (?si + 1) (length e) 1) ?x (stride imax (Layout_right e) ?si))" if n: "?si \<noteq> length e"
  proof -
    have sh: "pad_shape (?n - 1 - ?si) (rev ss)" "?si < ?n" using rp_shape [OF refl _ refl, of ss] n len by auto
    have im: "imax \<le> size_max" using s by (simp add: sliceable_def)
    have ne: "evals e \<noteq> []" using len sh(2) by auto
    have q: "pstrides (last (evals e)) (rev (evals e)) ! (?n - 1 - ?si) = prod_list (drop (?si + 1) (evals e))"
      using lstrides_nth [of "?n - 1 - ?si" "rev (evals e)" 1] lstrides_pstrides [of "rev (evals e)"] sh(2) len ne
      by (simp add: take_rev prod_list_rev hd_rev Suc_diff_Suc)
    have "prod_list (drop (?si + 1) (evals e)) \<le> prod_list (evals e)"
      using prod_list_take_le [of "rev (evals e)" "?n - 1 - ?si"] z sh(2) len by (simp add: take_rev prod_list_rev Suc_diff_Suc)
    then have "prod_list (drop (?si + 1) (evals e)) \<le> size_max" using sp im by (simp add: space_ok_def)
    then have "static_extent_product e (?si + 1) (length e) 1 = dynamic_extent \<or> static_extent_product e (?si + 1) (length e) 1 = prod_list (drop (?si + 1) (evals e))"
      using static_extent_product_eq [of 1 e "length e" "?si + 1"] z sh(2) len by simp
    moreover have "last (evals e) * prod_list (butlast (evals e)) \<le> imax"
    proof -
      have "evals e = butlast (evals e) @ [last (evals e)]" using ne by simp
      then have "prod_list (evals e) = prod_list (butlast (evals e)) * last (evals e)" by (metis prod_list.append prod_list.Cons prod_list.Nil mult.right_neutral)
      then show ?thesis using sp by (simp add: space_ok_def mult.commute)
    qed
    ultimately show ?thesis
      using right_pad_compiles [OF s _ sp, of "last (evals e)" ?si] z sh q ne lstrides_pstrides [of "rev (evals e)"] by (simp add: hd_rev)
  qed
  then show ?thesis using r' pl by (auto simp: strided_result_def split: if_splits)
qed

text \<open>The static stride of a padded source, which its padded products start from.\<close>

lemma static_padding_start:
  assumes "x \<noteq> dynamic_extent \<Longrightarrow> x = mval m" "p \<noteq> dynamic_extent \<Longrightarrow> s = round_up p (mval m)" "s \<le> size_max" "mval m \<le> size_max"
    and i: "i = (if p = dynamic_extent \<or> x = dynamic_extent then dynamic_extent else least_multiple_at_least size_max p x)"
  shows "i = dynamic_extent \<or> i = s"
  using assms least_multiple_eq [of x size_max p] by auto

lemma left_padded_mapping_compiles:
  assumes s: "sliceable imax (Layout_left_padded p e st) ss" and z: "0 \<notin> set (evals e)" and sp: "space_ok imax (Layout_left_padded p e st)"
    and m: "layout_mandates imax (Layout_left_padded p e st)" and r: "submdspan_mapping_left_padded imax p e st ss = (dst, off)"
  shows "layout_ok imax dst"
proof -
  let ?src = "Layout_left_padded p e st" and ?si = "left_padded_stride_index (ranges ss) ss" and ?x = "sub_ext e ss"
  let ?i = "left_static_padding_stride p e"
  have len: "length e = length ss" using sliceable_rank [OF s] by simp
  note r' = r [unfolded submdspan_mapping_left_padded_def Let_def extents_builder_eq append_Nil sub_ext_length [OF len]]
  note pl = plain_compiles [OF s, unfolded extents_of.simps, OF z sp]
  have "layout_ok imax (left_padded_with_padding imax (static_extent_product e 1 ?si ?i) ?x (stride imax ?src ?si))" if n: "?si \<noteq> length e"
  proof -
    have sh: "pad_shape ?si ss" using lp_shape [OF refl _ refl, of ss] n len by simp
    have v: "list_all2 valid_slice e ss" and im: "imax \<le> size_max" and ok: "mapping_ok imax ?src" using s by (simp_all add: sliceable_def)
    note S = pad_shape_strides [OF sh len v]
    have l: "1 < length e" using S(2,3) len by linarith
    have hs: "hd (evals e) \<le> st" "st \<le> imax" using ok z l by (simp_all add: mapping_ok_def)
    have e0: "e ! 0 = hd e" "mval (hd e) \<le> st" "0 < mval (hd e)" using l hs z by (cases e; auto)+
    have b: "st * prod_list (tl (evals e)) \<le> imax" "p \<noteq> dynamic_extent \<Longrightarrow> st = round_up p (mval (hd e))" using sp l by (auto simp: space_ok_def)
    have i: "?i = dynamic_extent \<or> ?i = st"
      using static_padding_start [of "static_of (hd e)" "hd e" p st] static_val [of "hd e"] b(2) hs(2) im e0 l by (auto simp: left_static_padding_stride_def)
    have q: "pstrides st (evals e) ! ?si = st * prod_list (take (?si - 1) (drop 1 (evals e)))" using pstrides_nth [of ?si "evals e" st] S(2,3) len by simp
    have "pstrides st (evals e) ! ?si \<le> size_max" using ok z S(2) len im by (auto simp: mapping_ok_def list_all_length intro: le_trans)
    then have "static_extent_product e 1 ?si ?i = dynamic_extent \<or> static_extent_product e 1 ?si ?i = pstrides st (evals e) ! ?si"
      using i static_extent_product_eq [of st e ?si 1] z S(2,3) len e0 q by (cases "?i = dynamic_extent") (auto simp: static_extent_product_def)
    then show ?thesis using left_pad_compiles [OF s _ sp, of st ?si] z sh b(1) hs(1) by simp
  qed
  moreover have "layout_ok imax ?src" using m sp by (simp add: layout_ok_def)
  ultimately show ?thesis using r' pl by (auto simp: strided_result_def split: if_splits)
qed

lemma right_padded_mapping_compiles:
  assumes s: "sliceable imax (Layout_right_padded p e st) ss" and z: "0 \<notin> set (evals e)" and sp: "space_ok imax (Layout_right_padded p e st)"
    and m: "layout_mandates imax (Layout_right_padded p e st)" and r: "submdspan_mapping_right_padded imax p e st ss = (dst, off)"
  shows "layout_ok imax dst"
proof -
  let ?src = "Layout_right_padded p e st" and ?si = "right_padded_stride_index (ranges ss) ss" and ?x = "sub_ext e ss" and ?n = "length ss"
  let ?i = "right_static_padding_stride p e" and ?q = "pstrides st (rev (evals e)) ! (length ss - 1 - right_padded_stride_index (ranges ss) ss)"
  have len: "length e = ?n" using sliceable_rank [OF s] by simp
  note r' = r [unfolded submdspan_mapping_right_padded_def Let_def extents_builder_eq append_Nil sub_ext_length [OF len]]
  note pl = plain_compiles [OF s, unfolded extents_of.simps, OF z sp]
  have "layout_ok imax (right_padded_with_padding imax (static_extent_product e (?si + 1) (length e - 1) ?i) ?x (stride imax ?src ?si))" if n: "?si \<noteq> length e"
  proof -
    have sh: "pad_shape (?n - 1 - ?si) (rev ss)" "?si < ?n" using rp_shape [OF refl _ refl, of ss] n len by auto
    have v: "list_all2 valid_slice (rev e) (rev ss)" and im: "imax \<le> size_max" and ok: "mapping_ok imax ?src" using s by (simp_all add: sliceable_def)
    have k: "1 \<le> ?n - 1 - ?si" using pad_shape_strides(3) [OF sh(1) _ v] len by simp
    then have l: "1 < length e" "?si + 1 \<le> length e - 1" "e \<noteq> []" using len by auto
    have hs: "last (evals e) \<le> st" "st \<le> imax" using ok z l by (simp_all add: mapping_ok_def)
    have e0: "e ! (length e - 1) = last e" "mval (last e) \<le> st" using l hs by (simp_all add: last_conv_nth last_map)
    have "0 < mval (last e)" using z l(3) by (metis gr0I image_eqI last_in_set set_map)
    then have pos: "0 < st" using e0 by simp
    have b: "st * prod_list (butlast (evals e)) \<le> imax" "p \<noteq> dynamic_extent \<Longrightarrow> st = round_up p (mval (last e))" using sp l by (auto simp: space_ok_def)
    have i: "?i = dynamic_extent \<or> ?i = st"
      using static_padding_start [of "static_of (last e)" "last e" p st] static_val [of "last e"] b(2) hs(2) im e0 l by (auto simp: right_static_padding_stride_def)
    have bl: "drop 1 (rev (evals e)) = rev (take (length e - 1) (evals e))" using l(1) by (simp add: rev_take)
    have q: "?q = st * prod_list (take (length e - 1 - (?si + 1)) (drop (?si + 1) (evals e)))"
    proof -
      have "take (?n - 1 - ?si - 1) (rev (take (length e - 1) (evals e))) = rev (drop (?si + 1) (take (length e - 1) (evals e)))"
        using k len by (simp add: take_rev)
      also have "drop (?si + 1) (take (length e - 1) (evals e)) = take (length e - 1 - (?si + 1)) (drop (?si + 1) (evals e))" by (rule drop_take)
      finally have t: "prod_list (take (?n - 1 - ?si - 1) (drop 1 (rev (evals e)))) = prod_list (take (length e - 1 - (?si + 1)) (drop (?si + 1) (evals e)))"
        unfolding bl by (simp only: prod_list_rev)
      have k': "?n - 1 - ?si < length (rev (evals e))" "?n - 1 - ?si \<noteq> 0" using k len sh(2) by simp_all
      show ?thesis using pstrides_nth [OF k'(1), of st] k'(2) unfolding t by simp
    qed
    have "?q \<in> set (list_strides ?src)" using k len by simp
    then have "?q \<le> size_max" using ok z im by (auto simp: mapping_ok_def list_all_iff)
    then have "static_extent_product e (?si + 1) (length e - 1) ?i = dynamic_extent \<or> static_extent_product e (?si + 1) (length e - 1) ?i = ?q"
      using i static_extent_product_eq [of st e "length e - 1" "?si + 1"] z l pos q by (cases "?i = dynamic_extent") (auto simp: static_extent_product_def)
    then show ?thesis using right_pad_compiles [OF s _ sp, of st ?si] z sh b(1) hs(1) by simp
  qed
  moreover have "layout_ok imax ?src" using m sp by (simp add: layout_ok_def)
  ultimately show ?thesis using r' pl by (auto simp: strided_result_def split: if_splits)
qed

lemma submdspan_mapping_compiles:
  assumes s: "sliceable imax src ss" and z: "0 \<notin> set (evals (extents_of src))" and l: "layout_ok imax src"
    and r: "submdspan_mapping imax src ss = (dst, off)"
  shows "layout_ok imax dst"
proof -
  have l': "space_ok imax src" "layout_mandates imax src" using l by (simp_all add: layout_ok_def)
  show ?thesis
  proof (cases src)
    case (Layout_stride e st)
    obtain t where "dst = Layout_stride (sub_of src ss) t"
      using r Layout_stride by (auto simp: submdspan_mapping_stride_def strided_result_def Let_def extents_builder_eq split: if_splits)
    then show ?thesis by (intro plain_compiles [OF s z l'(1), where t = t]) simp
  qed (use assms l' left_mapping_compiles right_mapping_compiles left_padded_mapping_compiles right_padded_mapping_compiles in auto)
qed

text \<open>
  C39.  \<open>submdspan\<close> with any mixture of full, index, extent, range and pair slices that are in bounds, with
  static or run-time members.  The slices are accepted, and \<open>submdspan\<close> fails to compile only if the type of
  the result violates a static assertion of its layout.  If it compiles, it returns a view whose indices are
  exactly those that the slices describe (a range with a stride stops before its end), and whose element at
  each index is the element of the source at the index that the slices describe.  It does compile when no
  extent of the source is zero, the type of the source satisfies the static assertions and the sizes that
  the constructors of its layout require to be representable, with padding, are; the result then satisfies
  these conditions again.
\<close>

theorem submdspan_elements:
  assumes "mapping_ok imax (view_mapping v)" "imax \<le> size_max" "list_all (\<lambda>x. mval x \<le> imax) (extents_of (view_mapping v))"
    "list_all2 (valid_raw imax) (extents_of (view_mapping v)) raw"
  shows "(case submdspan imax v raw of
       None \<Rightarrow> \<exists>ss d off. canonical_slices imax (extents_of (view_mapping v)) raw = Some ss \<and>
         submdspan_mapping imax (view_mapping v) ss = (d, off) \<and> \<not> layout_mandates imax d
     | Some w \<Rightarrow> mapping_ok imax (view_mapping w) \<and> layout_mandates imax (view_mapping w) \<and>
         subextents imax (extents_of (view_mapping v)) raw = Some (extents_of (view_mapping w)) \<and>
         (\<forall>js. (index_space (view_mapping w) js \<longleftrightarrow> raw_inside (extents_of (view_mapping v)) raw js) \<and>
           (raw_inside (extents_of (view_mapping v)) raw js \<longrightarrow>
              index_space (view_mapping v) (raw_index raw js) \<and>
              data_handle w + call imax (view_mapping w) js = data_handle v + call imax (view_mapping v) (raw_index raw js)))) \<and>
     (0 \<notin> set (evals (extents_of (view_mapping v))) \<and> layout_ok imax (view_mapping v) \<longrightarrow>
       (\<exists>w. submdspan imax v raw = Some w \<and> layout_ok imax (view_mapping w)))"
proof -
  let ?m = "view_mapping v" and ?e = "extents_of (view_mapping v)"
  obtain ss where c: "canonical_slices imax ?e raw = Some ss" "length ss = length ?e" "\<forall>k < length ?e. slice_ok imax (?e ! k) (raw ! k) (ss ! k)"
    using canonical_slices_ok [OF assms(4,3) mapping_ok_pos [OF assms(1)]] by blast
  have len: "length ?e = length raw" using assms(4) by (rule list_all2_lengthD)
  have vs: "list_all2 valid_slice ?e ss" "list_all (is_canonical_slice imax) ss" using c(2,3) by (auto simp: list_all2_conv_all_nth list_all_length slice_ok_def)
  obtain d off where r: "submdspan_mapping imax ?m ss = (d, off)" by fastforce
  have s: "sliceable imax ?m ss" using assms(1,2) vs by (simp add: sliceable_def)
  note C = submdspan_mapping_result [OF s r, unfolded slice_correct_def extents_builder_eq append_Nil]
  have x: "extents_of d = sub_ext ?e ss" using C by simp
  have ma: "\<forall>k < length ?e. matches (?e ! k) (raw ! k) (ss ! k)" using c(3) by (simp add: slice_ok_def)
  note M = matches_select [OF len c(2) ma]
  let ?w = "\<lparr>data_handle = data_handle v + off, view_mapping = d\<rparr>"
  have w: "submdspan imax v raw = (if layout_mandates imax d then Some ?w else None)" using c(1) r by (simp add: submdspan_def)
  have "subextents imax ?e raw = Some (extents_of d)" using c(1) x by (simp add: subextents_def extents_builder_eq)
  moreover have "index_space d js \<longleftrightarrow> raw_inside ?e raw js" for js using M(1) x by simp
  moreover have "index_space ?m (raw_index raw js) \<and> data_handle v + off + call imax d js = data_handle v + call imax ?m (raw_index raw js)"
    if "raw_inside ?e raw js" for js
    using C M(1,2) [of js] x that by auto
  moreover have "layout_ok imax d" if "0 \<notin> set (evals ?e)" "layout_ok imax ?m" using submdspan_mapping_compiles [OF s that r] .
  ultimately show ?thesis using C c(1) r w by (auto simp: layout_ok_def)
qed

text \<open>
  Every other column from 1 on of one matrix; and a slice that is rejected: with 8-bit indices the rows of a
  3 by 32 matrix, padded to 8, fit in 251 elements, but their static padded product is 256.
\<close>

definition raw_demo :: "raw_slice list" where
  "raw_demo = [R_full, R_range (Dyn 1) (Dyn 5) (Cw 2), R_index (Dyn 3)]"

lemma view_demo_layout_ok: "layout_ok 255 (Layout_left [Cw 4, Dyn 5, Cw 6])"
  by (simp add: layout_ok_def space_ok_def static_space_mandate_def all_static_def dynamic_extent_def size_max_def)

theorem submdspan_elements_witness:
  "\<exists>w. submdspan 255 view_demo raw_demo = Some w \<and> index_space (view_mapping w) [2, 1] \<and> \<not> index_space (view_mapping w) [2, 2] \<and>
       data_handle w + call 255 (view_mapping w) [2, 1] = 174"
proof -
  have v: "list_all2 (valid_raw 255) [Cw 4, Dyn 5, Cw 6] raw_demo" by (simp add: raw_demo_def)
  have i: "raw_inside [Cw 4, Dyn 5, Cw 6] raw_demo [2, 1]" "\<not> raw_inside [Cw 4, Dyn 5, Cw 6] raw_demo [2, 2]" "raw_index raw_demo [2, 1] = [2, 3, 3]"
    by (simp_all add: raw_demo_def)
  have c: "call 255 (Layout_left [Cw 4, Dyn 5, Cw 6]) [2, 3, 3] = 74" by (simp add: to_index_def)
  have h: "mapping_ok 255 (view_mapping view_demo)" "(255 :: nat) \<le> size_max" "list_all (\<lambda>x. mval x \<le> 255) (extents_of (view_mapping view_demo))"
    "list_all2 (valid_raw 255) (extents_of (view_mapping view_demo)) raw_demo"
    using view_demo_ok v by (simp_all add: view_demo_def size_max_def)
  note T = submdspan_elements [OF h]
  obtain w where w: "submdspan 255 view_demo raw_demo = Some w" using T view_demo_layout_ok by (auto simp: view_demo_def)
  show ?thesis using T i c unfolding w by (auto simp: view_demo_def)
qed

lemma submdspan_rejected:
  "submdspan 255 \<lparr>data_handle = 0, view_mapping = Layout_left_padded 8 [Cw 3, Dyn 32] 8\<rparr> [R_full, R_extent (Cw 0) (Cw 32) (Cw 1)] = None"
  "mapping_ok 255 (Layout_left_padded 8 [Cw 3, Dyn 32] 8)" "\<not> space_ok 255 (Layout_left_padded 8 [Cw 3, Dyn 32] 8)"
proof -
  show "mapping_ok 255 (Layout_left_padded 8 [Cw 3, Dyn 32] 8)" "\<not> space_ok 255 (Layout_left_padded 8 [Cw 3, Dyn 32] 8)"
    by (simp_all add: mapping_ok_def space_size_def space_ok_def)
  show "submdspan 255 \<lparr>data_handle = 0, view_mapping = Layout_left_padded 8 [Cw 3, Dyn 32] 8\<rparr> [R_full, R_extent (Cw 0) (Cw 32) (Cw 1)] = None"
    by (simp add: submdspan_def canonical_slices_def has_canonical_mapping_slices_def has_valid_static_stride_def static_index_or_def
      submdspan_mapping_left_padded_def left_padded_stride_index_def left_padded_with_padding_def left_static_padding_stride_def static_extent_product_def
      lp_mandates_def static_padding_stride_def static_stride_representable_def static_product_representable_def static_factors_def static_size_limit_def
      all_static_def least_multiple_at_least_def to_index_def dynamic_extent_def size_max_def Let_def upt_rec)
qed

end
