(* ===== verification/Spec2Isabelle.thy ===== *)
theory Spec2Isabelle
  imports Channel_System IO_Buffer IO_Result IO_Memory IO_Any Hive_Lookup Hive_Rebuild Unique_Resource Counting_Scope
    Run_Loop Thread_Pool Async_Scope Strand Timer_Context Stop_Token When_All Spawn_Future_Run Split Submdspan_View
begin

text \<open>
  Verification of CC Forge, a header-only C++23 library with two halves: backports of C++26
  library facilities (\<open>src/backport\<close>) and execution and I/O components built on them
  (\<open>src/include/forge\<close>).  This theory only collects the development; each component has its own
  theory, which states its properties.

  \<^bold>\<open>How the program is modelled.\<close>  Objects with identity (operation states, records, blocks,
  callbacks) are addresses; what the code reaches through pointers is a record or a function on
  addresses.  Intrusive lists keep their links in the nodes, as in the code; \<open>chain\<close> and \<open>rchain\<close>
  in \<open>Forge_Prelude\<close> relate links to lists.  Every fallible operation (allocation, a copy that
  may throw, a full queue) takes an argument that says whether it fails, so that each theorem
  covers every way to fail.  Counters of type \<open>size_t\<close> are natural numbers with the wrap-around
  written out; theorems that need a counter not to wrap say so (at most \<open>size_max\<close> operations).
  Concurrent components are step relations: a step is one critical section of the component's mutex,
  or one atomic operation outside it, or one call of user code; threads may interleave in any
  way.  Condition variables are modelled by the predicate they wait for.

  \<^bold>\<open>Shared theories.\<close>  \<open>Forge_Prelude\<close> has the types, linked segments, and the locales
  \<open>fifo_queue\<close> and \<open>removable_queue\<close>, the contracts of intrusive queues; they are interpreted on
  the record queue of the channel and on the queue of the run loop.  \<open>Intrusive_List\<close> has the
  locale \<open>dlinks\<close> for doubly linked lists with a head and a tail, interpreted on the block lists
  of the hive.  \<open>Progress\<close> has sums over threads, the bookkeeping of worker loops, and the locale
  \<open>draining\<close>: work that keeps an invariant and uses something up comes to an end.  It is
  interpreted on the run loop, the thread pool, the async scope, the strand, the timer context,
  the stop source, \<open>when_all\<close>, \<open>spawn_future\<close> and \<open>split\<close>.

  \<^bold>\<open>Bounded channel\<close> (\<open>forge/channel.hpp\<close>; \<open>Record_Queue\<close>, \<open>Channel\<close>, \<open>Channel_System\<close>).
  \<open>Record_Queue\<close> is \<open>__record_queue\<close>; \<open>Channel\<close> has the state, each critical section of
  \<open>start_send\<close>, \<open>start_receive\<close>, \<open>close\<close> and the stop callbacks, and the actions run after the
  mutex is released; \<open>Channel_System\<close> is the step relation.  C1 to C4: no value is lost,
  duplicated or reordered, operations complete once, the bounds hold and nothing that could
  proceed waits.

  \<^bold>\<open>I/O\<close> (\<open>forge/io\<close>; \<open>IO_Buffer\<close>, \<open>IO_Result\<close>, \<open>IO_Stream\<close>, \<open>IO_Memory\<close>,
  \<open>IO_Any\<close>).  Buffers are regions
  of a byte memory; results and errors are records with the code's precedence rules; the loops
  \<open>read_exactly\<close>, \<open>write_all\<close> and \<open>read_until\<close> are proved once in the locales \<open>read_source\<close> and
  \<open>write_sink\<close>, which the memory streams, the duplex stream and the scripted stream interpret; an \<open>ending\<close>
  says how a source ends, and so which status and error the loops report.  The loops are
  \<open>partial_function\<close>s, and the theorems say that they return.  C5 and C9 to C11.  The type-erased streams
  forward to a stream in a store of objects and blocks; \<open>owning_streams_exactly_once\<close> shows that programs with
  owning streams neither leak nor destroy twice, also when an allocation or a constructor throws.

  \<^bold>\<open>Hive\<close> (\<open>backport/cpp26/hive.hpp\<close>; \<open>Hive_Block\<close>, \<open>Hive\<close>, \<open>Hive_Invariant\<close>, \<open>Hive_Elements\<close>,
  \<open>Hive_Run\<close>, \<open>Hive_Lookup\<close>, \<open>Hive_Capacity\<close>, \<open>Hive_Sort\<close>, \<open>Hive_Algorithms\<close>, \<open>Hive_Splice\<close>,
  \<open>Hive_Rebuild\<close>).  A block has its slots, its skipfield and its list of
  free runs, whose links live in erased slots; a hive has the lists of active, available and
  reserved blocks and its counters.  The abstraction is the list of cells (position and value) in
  iteration order.  C12 to C15: insertion, erasure, traversal, comparison and lookup of iterators, and iterator
  stability; C6: the loops that erase many elements; C8: \<open>splice\<close> of two hives in one heap; C16: capacity
  operations; C18: \<open>clear\<close>, the destructor and assignment; C34: \<open>shrink_to_fit\<close> and \<open>reshape\<close>, which move
  elements with constructors that may throw; C19: \<open>sort\<close> refines heap sort on lists, which sorts.

  \<^bold>\<open>Unique resource\<close> (\<open>backport/experimental/unique_resource.hpp\<close>; \<open>Unique_Resource\<close>).  C20: across any
  program of constructions, moves, assignments and swaps, with any copy throwing, a resource is
  deleted once or released.

  \<^bold>\<open>Counting scopes\<close> (\<open>backport/cpp26/execution/counting_scope.hpp\<close>; \<open>Counting_Scope\<close>).  C21:
  \<open>join\<close> waits for all associations and none is added after; C22: the stop operation of \<open>wrap\<close>.

  \<^bold>\<open>Execution contexts.\<close>  \<open>Run_Loop\<close> (\<open>backport/cpp26/execution/run_loop.hpp\<close>), \<open>Thread_Pool\<close>
  (\<open>forge/static_thread_pool.hpp\<close>), \<open>Async_Scope\<close> (\<open>forge/async_scope.hpp\<close>), \<open>Strand\<close>
  (\<open>forge/strand.hpp\<close>) and \<open>Timer_Context\<close> (\<open>forge/timer_context.hpp\<close>).  For each there is an invariant
  of all reachable states (C23, C25, C27, C29, C31: work is executed once, in order, and waiting
  is a barrier; nothing is touched after it has been destroyed) and a progress theorem (C24, C26,
  C28, C30, C32: without new work every interleaving ends within a bound computed from the state,
  with all work done and every waiting thread released).  \<open>Timer_Context\<close> also has
  the clock arithmetic, which saturates.

  \<^bold>\<open>Stop source\<close> (\<open>backport/cpp26/execution/stop_token.hpp\<close>; \<open>Stop_Token\<close>).  The list of callbacks
  with its back links into the pointers that point at them, the loops of \<open>request_stop\<close>, and
  constructors and destructors of callbacks on any thread.  C35: callbacks are invoked once, and never
  after their destructor has returned; C36: neither \<open>request_stop\<close> nor a destructor hangs.

  \<^bold>\<open>when_all\<close> (\<open>backport/cpp26/execution/when_all.hpp\<close>; \<open>When_All\<close>).  The operation state with its counter,
  its disposition, its result and the values received so far; a child is only known by the
  completions its signatures allow, and each atomic operation and critical section of a completing
  child is a step.  C7: the operation completes once, after every thread has left it, with the
  completion its children call for.

  \<^bold>\<open>spawn_future\<close> (\<open>backport/cpp26/execution/spawn_future.hpp\<close>; \<open>Spawn_Future\<close>, \<open>Spawn_Future_Invariant\<close>,
  \<open>Spawn_Future_Run\<close>).  The shared state with its reference count, the consumer, and three threads: the
  owner of the sender and its operation, the completing work, and a stop request.  C33: the
  receiver is completed once with the right result, nothing is used after it is freed, nothing leaks,
  and abandoned work is asked to stop.  The reference count of the consumer itself is not modelled: it is held
  by the operation and by every thread that is inside it.

  \<^bold>\<open>split\<close> (\<open>backport/cpp26/execution/split.hpp\<close>; \<open>Split\<close>).  The shared state with its phase, its result and the
  callbacks of its subscribers.  C17: the source is started once, and every subscriber is told its
  result once, whether it starts before, while or after the source completes.

  \<^bold>\<open>Multidimensional views\<close> (\<open>backport/cpp26/mdspan_padded.hpp\<close>, \<open>submdspan.hpp\<close>; \<open>Mdspan_Layout\<close>,
  \<open>Submdspan\<close>, \<open>Submdspan_View\<close>).  Layout mappings compute with an index type that wraps around; without wrap-around a
  layout is a list of strides (\<open>list_strides\<close>), and \<open>mapping_ok\<close> says that this list and the size it
  spans fit in the index type.  C37: the mapping of a slice, for five source layouts and every
  layout the code chooses for the result; C38: padded layouts are injective and bounded, and
  \<open>padded_conversions_keep_offsets\<close> and \<open>padded_from_unpadded\<close> show that converted mappings address the same elements;
  C39: \<open>submdspan\<close> from raw slices to elements, with the static assertions on the type of the result and
  when they hold; C40: the \<open>static_assert\<close>s of a padded layout
  exclude overflow.

  \<^bold>\<open>What is not modelled.\<close>  Templates and concepts that only exist at compile time (sender and
  receiver concepts, completion signatures, environment queries); the data-parallel and linear
  algebra backports (\<open>simd\<close>, \<open>linalg\<close>), which are numeric kernels on floating-point
  types; the operating-system
  contexts (\<open>io_uring\<close>, \<open>epoll\<close>, IOCP), whose behaviour is that of the kernel interfaces they call; coroutine wrappers and type-erased senders, which forward to the
  modelled components.  Memory orders are not modelled: atomic operations are sequentially
  consistent.  The pointers of a hive's blocks to their control state and hive, the copy and move assignment
  of hives with unequal or propagating allocators, the order of iterators of different hives, the wrap-around of
  the counter of activated blocks after 2 to the 64 activations, the reference counts of the strand's runner nodes and the type-erased callables of the
  pool and the timer are left out of their components; so are the stop operation of a scope for tokens that never
  stop, the destruction of a timer operation from inside the receiver that \<open>start\<close> completes as stopped, and the
  terminations of \<open>split\<close> for signals that the signatures of its source exclude.  Durations are converted with
  exact rationals in place of \<open>long double\<close>.  Index types of views are given by their largest value, and a negative
  index of a signed type is not a value of the model.
\<close>

end
